(* ===== verification/Prelude.thy ===== *)
theory Prelude
  imports Main "HOL-Library.Word" "HOL-Library.Monad_Syntax"
begin

text \<open>
  What every component of the firmware model shares: the machine types of the 32-bit
  x86 build, the alignment macros of \<^verbatim>\<open>src/include/stdlib.h\<close>, and the generic
  lemmas on words, lists and options that the component proofs use.

  A computation that may stop the machine (\<^verbatim>\<open>die()\<close> never returns) has type
  \<open>'a option\<close>: \<open>None\<close> is the halted machine.  Error codes that the code returns are
  values of the model.
\<close>

unbundle bit_operations_syntax

section \<open>Machine types\<close>

type_synonym u8 = "8 word"
type_synonym u16 = "16 word"
type_synonym u32 = "32 word"
type_synonym u64 = "64 word"
type_synonym resource_t = "64 word"

named_theorems word_to_nat \<open>facts that read a word operation as arithmetic on naturals\<close>
named_theorems bits \<open>facts on masks, shifts and single bits\<close>

section \<open>The alignment macros\<close>

definition ALIGN_MASK :: "'a::len word \<Rightarrow> 'a word \<Rightarrow> 'a word" where
  "ALIGN_MASK x m = (x + m) AND NOT m"

definition ALIGN_UP :: "'a::len word \<Rightarrow> 'a word \<Rightarrow> 'a word" where
  "ALIGN_UP x a = ALIGN_MASK x (a - 1)"

definition ALIGN_DOWN :: "'a::len word \<Rightarrow> 'a word \<Rightarrow> 'a word" where
  "ALIGN_DOWN x a = x AND NOT (a - 1)"

lemma and_not_mask_eq: "(x::'a::len word) AND NOT (mask n) = push_bit n (drop_bit n x)"
  by (rule bit_word_eqI) (auto simp: bit_simps not_less)

lemma and_not_mask_sub: "(x::'a::len word) AND NOT (mask n) = x - take_bit n x"
  using bits_ident [of n x] by (simp add: and_not_mask_eq algebra_simps)

lemma unat_and_not_mask [word_to_nat]:
  "unat ((x::'a::len word) AND NOT (mask n)) = unat x div 2 ^ n * 2 ^ n"
proof -
  have le: "take_bit n x \<le> x"
    by (simp add: word_le_nat_alt unsigned_take_bit_eq)
  have "unat (x AND NOT (mask n)) = unat x - unat x mod 2 ^ n"
    using le by (simp add: and_not_mask_sub unat_sub unsigned_take_bit_eq) (simp add: take_bit_eq_mod)
  then show ?thesis
    by (simp add: minus_mod_eq_div_mult)
qed

lemma unat_and_mask [word_to_nat]: "unat ((x::'a::len word) AND mask n) = unat x mod 2 ^ n"
  by (simp flip: take_bit_eq_mask add: unsigned_take_bit_eq) (simp add: take_bit_eq_mod)

lemma unat_ALIGN_DOWN [word_to_nat]:
  "unat (ALIGN_DOWN (x::'a::len word) (2 ^ n)) = unat x div 2 ^ n * 2 ^ n"
  by (simp add: ALIGN_DOWN_def unat_and_not_mask flip: mask_eq_exp_minus_1)

lemma unat_ALIGN_UP:
  "unat (ALIGN_UP (x::'a::len word) (2 ^ n)) = unat (x + (2 ^ n - 1)) div 2 ^ n * 2 ^ n"
  by (simp add: ALIGN_UP_def ALIGN_MASK_def unat_and_not_mask flip: mask_eq_exp_minus_1)

lemma ALIGN_DOWN_le: "ALIGN_DOWN (x::'a::len word) (2 ^ n) \<le> x"
  by (simp add: word_le_nat_alt unat_ALIGN_DOWN div_times_less_eq_dividend)

lemma unat_power_2 [word_to_nat]: "n < LENGTH('a) \<Longrightarrow> unat (2 ^ n :: 'a::len word) = 2 ^ n"
proof -
  assume "n < LENGTH('a)"
  then have "(2::nat) ^ n < 2 ^ LENGTH('a)" by simp
  then have "unat (of_nat (2 ^ n) :: 'a word) = 2 ^ n"
    by (simp only: unat_of_nat mod_less)
  then show ?thesis by simp
qed

lemma unat_mask_word [word_to_nat]:
  "n < LENGTH('a) \<Longrightarrow> unat (2 ^ n - 1 :: 'a::len word) = 2 ^ n - 1"
  by (simp add: unat_minus_one unat_power_2 flip: unat_0_iff)

lemma ceil_div_mult_less:
  fixes x k :: nat
  assumes "0 < k"
  shows "x \<le> (x + (k - 1)) div k * k" and "(x + (k - 1)) div k * k < x + k"
proof -
  have "x + (k - 1) = (x + (k - 1)) div k * k + (x + (k - 1)) mod k" by simp
  moreover have "(x + (k - 1)) mod k < k" using assms by simp
  ultimately show "x \<le> (x + (k - 1)) div k * k" "(x + (k - 1)) div k * k < x + k"
    using assms by linarith+
qed

text \<open>An upward alignment that does not pass the end of the word rounds up as on naturals.\<close>

lemma unat_ALIGN_UP_no_wrap:
  fixes x :: "'a::len word"
  assumes "n < LENGTH('a)" and "unat x + 2 ^ n \<le> 2 ^ LENGTH('a)"
  shows "unat (ALIGN_UP x (2 ^ n)) = (unat x + (2 ^ n - 1)) div 2 ^ n * 2 ^ n"
proof -
  have "(0::nat) < 2 ^ n" by simp
  with assms(2) have "unat x + (2 ^ n - 1) < 2 ^ LENGTH('a)" by linarith
  then have "unat (x + (2 ^ n - 1)) = unat x + (2 ^ n - 1)"
    by (subst unat_add_lem [THEN iffD1]) (simp_all add: unat_mask_word assms(1))
  then show ?thesis by (simp add: unat_ALIGN_UP)
qed

section \<open>Words\<close>

lemma unat_less_exp: "unat (x::'a::len word) < 2 ^ LENGTH('a)"
  by (rule unsigned_less)

lemma unat_ucast_mod [word_to_nat]:
  "unat (ucast (x::'a::len word) :: 'b::len word) = unat x mod 2 ^ LENGTH('b)"
  by (simp add: unsigned_ucast_eq unsigned_take_bit_eq) (simp add: take_bit_eq_mod)

lemma unat_add_no_wrap:
  "unat (x::'a::len word) + unat y < 2 ^ LENGTH('a) \<Longrightarrow> unat (x + y) = unat x + unat y"
  by (rule unat_add_lem [THEN iffD1])

lemma word_plus_one_le: "(x::'a::len word) < y \<Longrightarrow> x + 1 \<le> y"
  by (simp add: inc_le)

lemma unat_plus_one:
  fixes x y :: "'a::len word"
  assumes "x < y"
  shows "unat (x + 1) = unat x + 1"
proof -
  have "unat x + 1 < 2 ^ LENGTH('a)"
    using assms unat_less_exp [of y] unfolding word_less_nat_alt by linarith
  then show ?thesis by (simp add: unat_word_ariths)
qed

lemma unat_minus_one_pos: "(0::'a::len word) < x \<Longrightarrow> unat (x - 1) = unat x - 1"
  by (simp add: unat_minus_one word_neq_0_conv)

lemma word_le_minus_one:
  fixes x :: "'a::len word"
  assumes "x < b"
  shows "a \<le> b - 1 \<longleftrightarrow> a < b"
proof -
  have "0 < b" using assms by (rule le_less_trans [OF word_zero_le])
  then have "unat (b - 1) = unat b - 1" "0 < unat b"
    by (simp_all add: unat_minus_one_pos word_less_nat_alt)
  then show ?thesis by (auto simp: word_le_nat_alt word_less_nat_alt)
qed

lemma word_plus_one_le_iff: "(e::'a::len word) < c \<Longrightarrow> e + 1 \<le> a \<longleftrightarrow> e < a"
  by (auto simp: word_le_nat_alt word_less_nat_alt unat_plus_one)

lemma bit_le_unat: "bit (x::'a::len word) n \<Longrightarrow> 2 ^ n \<le> unat x"
proof (rule ccontr)
  assume b: "bit x n" and "\<not> 2 ^ n \<le> unat x"
  then have "unat x div 2 ^ n = 0" by simp
  moreover have "odd (unat x div 2 ^ n)"
    using b by (simp add: bit_unsigned_iff flip: bit_iff_odd)
  ultimately show False by simp
qed

lemma bit_small: "unat (t::'a::len word) < 2 ^ n \<Longrightarrow> n \<le> i \<Longrightarrow> \<not> bit t i"
proof
  assume "unat t < 2 ^ n" "n \<le> i" "bit t i"
  then show False
    using bit_le_unat [of t i] power_increasing [of n i "2::nat"] by linarith
qed

lemma bit_unat_iff: "bit (x::'a::len word) n \<longleftrightarrow> odd (unat x div 2 ^ n)"
  by (simp add: bit_unsigned_iff flip: bit_iff_odd)

section \<open>Options\<close>

lemma bind_Some_iff [simp]:
  "Option.bind m f = Some y \<longleftrightarrow> (\<exists>x. m = Some x \<and> f x = Some y)"
  by (cases m) auto

end
