(* ===== verification/Heap.thy ===== *)
theory Heap
  imports Prelude
begin

text \<open>
  The firmware's heap, \<^verbatim>\<open>src/lib/malloc.c\<close>: a bump allocator over the memory between
  \<^verbatim>\<open>_heap\<close> and \<^verbatim>\<open>_eheap\<close>.  Nothing is ever given back.  Running out of memory calls
  \<^verbatim>\<open>die()\<close>, the result \<open>None\<close> here.  Pointers are 32-bit words, so \<open>free_mem_ptr += size\<close>
  wraps as the machine's addition does.
\<close>

section \<open>memalign and malloc\<close>

record heap =
  free_mem_ptr :: u32
  free_mem_end_ptr :: u32

definition memalign :: "u32 \<Rightarrow> u32 \<Rightarrow> heap \<Rightarrow> (u32 \<times> heap) option" where
  "memalign boundary sz h =
     (let p = ALIGN_UP (free_mem_ptr h) boundary;
          q = p + sz
      in if free_mem_end_ptr h \<le> q then None
         else Some (p, h\<lparr>free_mem_ptr := q\<rparr>))"

definition malloc :: "u32 \<Rightarrow> heap \<Rightarrow> (u32 \<times> heap) option" where
  "malloc sz h = memalign 8 sz h"

section \<open>The contract of an allocator\<close>

text \<open>
  What the callers of an allocator rely on: a block lies above everything handed out
  before (\<open>used\<close>) and below the limit, for the requests the allocator accepts (\<open>ok\<close>).
\<close>

fun alloc_all :: "('r \<Rightarrow> 's \<Rightarrow> (u32 \<times> 's) option) \<Rightarrow> 'r list \<Rightarrow> 's \<Rightarrow> (u32 list \<times> 's) option" where
  "alloc_all alloc [] s = Some ([], s)"
| "alloc_all alloc (r # rs) s =
     (case alloc r s of None \<Rightarrow> None
      | Some (p, s') \<Rightarrow> (case alloc_all alloc rs s' of None \<Rightarrow> None
         | Some (ps, s'') \<Rightarrow> Some (p # ps, s'')))"

definition block :: "u32 \<Rightarrow> u32 \<Rightarrow> nat set" where
  "block p sz = {unat p ..< unat p + unat sz}"

locale bump_allocator =
  fixes alloc :: "u32 \<Rightarrow> 's \<Rightarrow> (u32 \<times> 's) option"
    and ok :: "u32 \<Rightarrow> 's \<Rightarrow> bool"
    and used :: "'s \<Rightarrow> nat"
    and limit :: "'s \<Rightarrow> nat"
  assumes alloc_frontier:
      "ok sz s \<Longrightarrow> alloc sz s = Some (p, s') \<Longrightarrow> used s \<le> unat p \<and> unat p + unat sz \<le> used s'"
    and alloc_limit:
      "ok sz s \<Longrightarrow> alloc sz s = Some (p, s') \<Longrightarrow> used s' < limit s \<and> limit s' = limit s"
    and alloc_ok: "ok sz s \<Longrightarrow> ok sz' s \<Longrightarrow> alloc sz s = Some (p, s') \<Longrightarrow> ok sz' s'"
begin

lemma alloc_all_within:
  assumes "alloc_all alloc szs s = Some (ps, s')" and "\<forall>sz \<in> set szs. ok sz s" and "used s \<le> limit s"
  shows "length ps = length szs \<and> used s \<le> used s' \<and> used s' \<le> limit s \<and>
    (\<forall>b \<in> set (map2 block ps szs). b \<subseteq> {used s ..< used s'})"
  using assms
proof (induction szs arbitrary: s ps)
  case Nil
  then show ?case by simp
next
  case (Cons sz szs)
  from Cons.prems(1) obtain p s1 ps' where one: "alloc sz s = Some (p, s1)"
    and rest: "alloc_all alloc szs s1 = Some (ps', s')" and ps: "ps = p # ps'"
    by (auto split: option.splits)
  have ok: "ok sz s" and "\<forall>z \<in> set szs. ok z s1"
    using Cons.prems(2) alloc_ok [OF _ _ one] by auto
  note fr = alloc_frontier [OF ok one] alloc_limit [OF ok one]
  have IH: "length ps' = length szs \<and> used s1 \<le> used s' \<and> used s' \<le> limit s1 \<and>
    (\<forall>b \<in> set (map2 block ps' szs). b \<subseteq> {used s1 ..< used s'})"
    using Cons.IH [OF rest] \<open>\<forall>z \<in> set szs. ok z s1\<close> fr by simp
  then show ?case
    using fr unfolding ps by (fastforce simp: block_def)
qed

lemma alloc_all_disjoint:
  assumes "alloc_all alloc szs s = Some (ps, s')" and "\<forall>sz \<in> set szs. ok sz s" and "used s \<le> limit s"
  shows "sorted_wrt (\<lambda>a b. a \<inter> b = {}) (map2 block ps szs)"
  using assms
proof (induction szs arbitrary: s ps)
  case Nil
  then show ?case by simp
next
  case (Cons sz szs)
  from Cons.prems(1) obtain p s1 ps' where one: "alloc sz s = Some (p, s1)"
    and rest: "alloc_all alloc szs s1 = Some (ps', s')" and ps: "ps = p # ps'"
    by (auto split: option.splits)
  have ok: "ok sz s" and oks: "\<forall>z \<in> set szs. ok z s1"
    using Cons.prems(2) alloc_ok [OF _ _ one] by auto
  note fr = alloc_frontier [OF ok one] alloc_limit [OF ok one]
  have le: "used s1 \<le> limit s1" using fr by simp
  have "block p sz \<inter> b = {}" if "b \<in> set (map2 block ps' szs)" for b
    using alloc_all_within [OF rest oks le] that fr by (fastforce simp: block_def)
  with Cons.IH [OF rest oks le] show ?case unfolding ps by simp
qed

end

section \<open>malloc meets the contract\<close>

text \<open>
  The code does not check that \<open>p + size\<close> stays below $2^{32}$, so the contract needs
  the request to fit between the heap's end and the end of the address space.
\<close>

definition malloc_ok :: "u32 \<Rightarrow> heap \<Rightarrow> bool" where
  "malloc_ok sz h \<longleftrightarrow> free_mem_ptr h \<le> free_mem_end_ptr h
     \<and> unat (free_mem_end_ptr h) + 8 + unat sz \<le> 2 ^ 32"

lemma malloc_frontier:
  assumes "malloc_ok sz h" and "malloc sz h = Some (p, h')"
  shows "unat (free_mem_ptr h) \<le> unat p" and "unat p < unat (free_mem_ptr h) + 8"
    and "8 dvd unat p" and "unat (free_mem_ptr h') = unat p + unat sz"
    and "unat (free_mem_ptr h') < unat (free_mem_end_ptr h)"
    and "free_mem_end_ptr h' = free_mem_end_ptr h"
proof -
  have pdef: "p = ALIGN_UP (free_mem_ptr h) 8" and h': "h' = h\<lparr>free_mem_ptr := p + sz\<rparr>"
    and lt: "p + sz < free_mem_end_ptr h"
    using assms(2) by (auto simp: malloc_def memalign_def Let_def not_le split: if_splits)
  have bound: "unat (free_mem_ptr h) \<le> unat (free_mem_end_ptr h)"
    and room: "unat (free_mem_end_ptr h) + 8 + unat sz \<le> 2 ^ 32"
    using assms(1) by (auto simp: malloc_ok_def word_le_nat_alt)
  have p: "unat p = (unat (free_mem_ptr h) + 7) div 8 * 8"
    using unat_ALIGN_UP_no_wrap [of 3 "free_mem_ptr h"] bound room by (simp add: pdef)
  then show "unat (free_mem_ptr h) \<le> unat p" "unat p < unat (free_mem_ptr h) + 8" "8 dvd unat p"
    by presburger+
  then have "unat p + unat sz < 2 ^ LENGTH(32)" using bound room by simp
  then have sum: "unat (p + sz) = unat p + unat sz" by (rule unat_add_no_wrap)
  then show "unat (free_mem_ptr h') = unat p + unat sz"
    and "unat (free_mem_ptr h') < unat (free_mem_end_ptr h)"
    and "free_mem_end_ptr h' = free_mem_end_ptr h"
    using lt by (simp_all add: h' word_less_nat_alt)
qed

interpretation mal: bump_allocator malloc malloc_ok
  "\<lambda>h. unat (free_mem_ptr h)" "\<lambda>h. unat (free_mem_end_ptr h)"
proof unfold_locales
  fix sz sz' h p h'
  assume ok: "malloc_ok sz h" and m: "malloc sz h = Some (p, h')"
  note f = malloc_frontier [OF ok m]
  show "unat (free_mem_ptr h) \<le> unat p \<and> unat p + unat sz \<le> unat (free_mem_ptr h')"
    using f by simp
  show "unat (free_mem_ptr h') < unat (free_mem_end_ptr h) \<and>
      unat (free_mem_end_ptr h') = unat (free_mem_end_ptr h)"
    using f by simp
  show "malloc_ok sz' h \<Longrightarrow> malloc_ok sz' h'"
    using f by (simp add: malloc_ok_def word_le_nat_alt)
qed

text \<open>
  C31.  The blocks that a sequence of \<^verbatim>\<open>malloc\<close> calls returns are pairwise disjoint and lie
  inside the heap, as long as no request is so large that it could wrap around the
  32-bit address space.
\<close>
theorem malloc_blocks_disjoint:
  assumes "alloc_all malloc szs h = Some (ps, h')"
    and "\<forall>sz \<in> set szs. malloc_ok sz h" and "free_mem_ptr h \<le> free_mem_end_ptr h"
  shows "sorted_wrt (\<lambda>a b. a \<inter> b = {}) (map2 block ps szs)
    \<and> (\<forall>b \<in> set (map2 block ps szs). b \<subseteq> {unat (free_mem_ptr h) ..< unat (free_mem_end_ptr h)})"
proof -
  have le: "unat (free_mem_ptr h) \<le> unat (free_mem_end_ptr h)"
    using assms(3) by (simp add: word_le_nat_alt)
  show ?thesis
    using mal.alloc_all_within [OF assms(1,2) le] mal.alloc_all_disjoint [OF assms(1,2) le]
    by fastforce
qed

theorem malloc_blocks_disjoint_witness:
  "\<exists>ps h'. alloc_all malloc [24, 13, 40] \<lparr>free_mem_ptr = 0x100004, free_mem_end_ptr = 0x110000\<rparr>
      = Some (ps, h')
    \<and> ps = [0x100008, 0x100020, 0x100030] \<and> sorted_wrt (\<lambda>a b. a \<inter> b = {}) (map2 block ps [24, 13, 40])"
proof -
  let ?h = "\<lparr>free_mem_ptr = 0x100004, free_mem_end_ptr = 0x110000\<rparr>"
  have run: "alloc_all malloc [24, 13, 40] ?h
      = Some ([0x100008, 0x100020, 0x100030], \<lparr>free_mem_ptr = 0x100058, free_mem_end_ptr = 0x110000\<rparr>)"
    by (simp add: malloc_def memalign_def ALIGN_UP_def ALIGN_MASK_def Let_def)
  have "\<forall>sz \<in> set [24, 13, 40]. malloc_ok sz ?h" by (simp add: malloc_ok_def)
  with run show ?thesis using malloc_blocks_disjoint [OF run] by auto
qed

text \<open>
  \<^verbatim>\<open>memalign\<close> accepts a request that is larger than the whole heap when the sum wraps
  around: the next free pointer then lies below the block it returned.
\<close>
lemma memalign_wraps:
  "memalign 8 (- 0x1000) \<lparr>free_mem_ptr = 0x100000, free_mem_end_ptr = 0x110000\<rparr>
     = Some (0x100000, \<lparr>free_mem_ptr = 0xFF000, free_mem_end_ptr = 0x110000\<rparr>)"
  by (simp add: memalign_def ALIGN_UP_def ALIGN_MASK_def Let_def)

end
