(* ===== verification/Devtree.thy ===== *)
theory Devtree
  imports Heap
begin

text \<open>
  The device tree of \<^verbatim>\<open>src/device/device_util.c\<close>, \<^verbatim>\<open>src/include/device/device.h\<close> and
  \<^verbatim>\<open>path.h\<close>: device paths, the resource lists of a device, the searches over the tree.

  Pointers to devices and buses are identifiers; \<open>devs\<close> and \<open>buses\<close> are what they point
  to.  The sibling, link and resource chains, and the chain of all devices, are lists in
  chain order.  A pointer to a resource is its position in its device's list.
\<close>

section \<open>Device paths\<close>

datatype device_path_type =
    DEVICE_PATH_NONE | DEVICE_PATH_ROOT | DEVICE_PATH_PCI | DEVICE_PATH_PNP
  | DEVICE_PATH_I2C | DEVICE_PATH_APIC | DEVICE_PATH_DOMAIN | DEVICE_PATH_CPU_CLUSTER
  | DEVICE_PATH_CPU | DEVICE_PATH_CPU_BUS | DEVICE_PATH_IOAPIC

fun path_type_code :: "device_path_type \<Rightarrow> u32" where
  "path_type_code DEVICE_PATH_NONE = 0"
| "path_type_code DEVICE_PATH_ROOT = 1"
| "path_type_code DEVICE_PATH_PCI = 2"
| "path_type_code DEVICE_PATH_PNP = 3"
| "path_type_code DEVICE_PATH_I2C = 4"
| "path_type_code DEVICE_PATH_APIC = 5"
| "path_type_code DEVICE_PATH_DOMAIN = 6"
| "path_type_code DEVICE_PATH_CPU_CLUSTER = 7"
| "path_type_code DEVICE_PATH_CPU = 8"
| "path_type_code DEVICE_PATH_CPU_BUS = 9"
| "path_type_code DEVICE_PATH_IOAPIC = 10"

text \<open>
  The union of \<^verbatim>\<open>struct device_path\<close> overlays its members, so the model keeps its five
  words; each member of the union names some of them.
\<close>

record device_path =
  p_type :: device_path_type
  p_w0 :: u32
  p_w1 :: u32
  p_w2 :: u32
  p_w3 :: u32
  p_w4 :: u32

abbreviation pci_devfn :: "device_path \<Rightarrow> u32" where "pci_devfn \<equiv> p_w0"
abbreviation pnp_port :: "device_path \<Rightarrow> u32" where "pnp_port \<equiv> p_w0"
abbreviation pnp_device :: "device_path \<Rightarrow> u32" where "pnp_device \<equiv> p_w1"
abbreviation i2c_device :: "device_path \<Rightarrow> u32" where "i2c_device \<equiv> p_w0"
abbreviation apic_id :: "device_path \<Rightarrow> u32" where "apic_id \<equiv> p_w0"
abbreviation ioapic_id :: "device_path \<Rightarrow> u32" where "ioapic_id \<equiv> p_w0"
abbreviation domain_num :: "device_path \<Rightarrow> u32" where "domain_num \<equiv> p_w0"
abbreviation cpu_cluster_num :: "device_path \<Rightarrow> u32" where "cpu_cluster_num \<equiv> p_w0"
abbreviation cpu_id :: "device_path \<Rightarrow> u32" where "cpu_id \<equiv> p_w0"
abbreviation cpu_bus_id :: "device_path \<Rightarrow> u32" where "cpu_bus_id \<equiv> p_w0"

definition path_eq :: "device_path \<Rightarrow> device_path \<Rightarrow> bool" where
  "path_eq path1 path2 =
     (if p_type path1 \<noteq> p_type path2 then False
      else case p_type path1 of
        DEVICE_PATH_NONE \<Rightarrow> False
      | DEVICE_PATH_ROOT \<Rightarrow> True
      | DEVICE_PATH_PCI \<Rightarrow> pci_devfn path1 = pci_devfn path2
      | DEVICE_PATH_PNP \<Rightarrow> pnp_port path1 = pnp_port path2 \<and> pnp_device path1 = pnp_device path2
      | DEVICE_PATH_I2C \<Rightarrow> i2c_device path1 = i2c_device path2
      | DEVICE_PATH_APIC \<Rightarrow> apic_id path1 = apic_id path2
      | DEVICE_PATH_DOMAIN \<Rightarrow> domain_num path1 = domain_num path2
      | DEVICE_PATH_CPU_CLUSTER \<Rightarrow> cpu_cluster_num path1 = cpu_cluster_num path2
      | DEVICE_PATH_CPU \<Rightarrow> cpu_id path1 = cpu_id path2
      | DEVICE_PATH_CPU_BUS \<Rightarrow> cpu_bus_id path1 = cpu_bus_id path2
      | _ \<Rightarrow> False)"

section \<open>Resources, devices, buses\<close>

record resource =
  res_base :: resource_t
  res_size :: resource_t
  res_limit :: resource_t
  res_flags :: u32
  res_index :: u32
  res_align :: u8
  res_gran :: u8

abbreviation IORESOURCE_IO :: u32 where "IORESOURCE_IO \<equiv> 0x100"
abbreviation IORESOURCE_MEM :: u32 where "IORESOURCE_MEM \<equiv> 0x200"
abbreviation IORESOURCE_IRQ :: u32 where "IORESOURCE_IRQ \<equiv> 0x400"
abbreviation IORESOURCE_DRQ :: u32 where "IORESOURCE_DRQ \<equiv> 0x800"
abbreviation IORESOURCE_PREFETCH :: u32 where "IORESOURCE_PREFETCH \<equiv> 0x1000"
abbreviation IORESOURCE_READONLY :: u32 where "IORESOURCE_READONLY \<equiv> 0x2000"
abbreviation IORESOURCE_CACHEABLE :: u32 where "IORESOURCE_CACHEABLE \<equiv> 0x4000"
abbreviation IORESOURCE_SUBTRACTIVE :: u32 where "IORESOURCE_SUBTRACTIVE \<equiv> 0x40000"
abbreviation IORESOURCE_BRIDGE :: u32 where "IORESOURCE_BRIDGE \<equiv> 0x80000"
abbreviation IORESOURCE_RESERVE :: u32 where "IORESOURCE_RESERVE \<equiv> 0x10000000"
abbreviation IORESOURCE_STORED :: u32 where "IORESOURCE_STORED \<equiv> 0x20000000"
abbreviation IORESOURCE_ASSIGNED :: u32 where "IORESOURCE_ASSIGNED \<equiv> 0x40000000"
abbreviation IORESOURCE_FIXED :: u32 where "IORESOURCE_FIXED \<equiv> 0x80000000"
abbreviation IORESOURCE_PCI64 :: u32 where "IORESOURCE_PCI64 \<equiv> 1"

definition IOINDEX_SUBTRACTIVE_LINK :: "u32 \<Rightarrow> u32" where
  "IOINDEX_SUBTRACTIVE_LINK idx = idx AND 0xff"

type_synonym dev_id = nat
type_synonym bus_id = nat
type_synonym res_ptr = "dev_id \<times> nat"

text \<open>
  A function pointer of the operations is the number of a function, \<open>None\<close> for NULL; what the
  functions do is a parameter of the operations that call them.  \<open>op_set_subsystem\<close> is
  \<^verbatim>\<open>ops_pci->set_subsystem\<close>.
\<close>

record device_operations =
  op_read_resources :: "nat option"
  op_set_resources :: "nat option"
  op_enable_resources :: "nat option"
  op_init :: "nat option"
  op_final :: "nat option"
  op_scan_bus :: "nat option"
  op_enable :: "nat option"
  op_disable :: "nat option"
  op_reset_bus :: "nat option"
  op_set_subsystem :: "nat option"

record chip_operations =
  chip_enable_dev :: "nat option"
  chip_init :: "nat option"
  chip_final :: "nat option"
  chip_initialized :: bool
  chip_finalized :: bool

type_synonym chip_id = nat

record device =
  d_bus :: bus_id
  d_path :: device_path
  d_vendor :: u32
  d_device :: u32
  d_subsystem_vendor :: u16
  d_subsystem_device :: u16
  d_class :: u32
  d_hdr_type :: u32
  d_enabled :: bool
  d_initialized :: bool
  d_on_mainboard :: bool
  d_command :: u8
  d_resource_list :: "resource list"
  d_link_list :: "bus_id list"
  d_ops :: "device_operations option"
  d_chip_ops :: "chip_id option"

record bus =
  b_dev :: dev_id
  b_children :: "dev_id list"
  b_bridge_ctrl :: u32
  b_link_num :: u8
  b_secondary :: u16
  b_subordinate :: u16
  b_reset_needed :: bool

record devtree =
  devs :: "dev_id \<Rightarrow> device"
  buses :: "bus_id \<Rightarrow> bus"
  chips :: "chip_id \<Rightarrow> chip_operations"
  all_devices :: "dev_id list"
  vga_pri :: "dev_id option"

definition dev_op :: "'a devtree_scheme \<Rightarrow> dev_id \<Rightarrow> (device_operations \<Rightarrow> nat option) \<Rightarrow> nat option" where
  "dev_op t d f = Option.bind (d_ops (devs t d)) f"

definition chip_op :: "'a devtree_scheme \<Rightarrow> dev_id \<Rightarrow> (chip_operations \<Rightarrow> nat option) \<Rightarrow> nat option" where
  "chip_op t d f = Option.bind (d_chip_ops (devs t d)) (\<lambda>c. f (chips t c))"

section \<open>Finding a device\<close>

abbreviation path_of :: "'a devtree_scheme \<Rightarrow> dev_id \<Rightarrow> device_path" where
  "path_of t d \<equiv> d_path (devs t d)"

abbreviation bus_of :: "'a devtree_scheme \<Rightarrow> dev_id \<Rightarrow> bus" where
  "bus_of t d \<equiv> buses t (d_bus (devs t d))"

definition find_dev_path :: "'a devtree_scheme \<Rightarrow> bus_id \<Rightarrow> device_path \<Rightarrow> dev_id option" where
  "find_dev_path t parent path = find (\<lambda>c. path_eq path (path_of t c)) (b_children (buses t parent))"

definition dev_find_slot :: "'a devtree_scheme \<Rightarrow> u32 \<Rightarrow> u32 \<Rightarrow> dev_id option" where
  "dev_find_slot t bus devfn =
     find (\<lambda>d. p_type (path_of t d) = DEVICE_PATH_PCI
             \<and> ucast (b_secondary (bus_of t d)) = bus
             \<and> pci_devfn (path_of t d) = devfn) (all_devices t)"

definition dev_find_smbus_device :: "devtree \<Rightarrow> u32 \<Rightarrow> u32 \<Rightarrow> dev_id option" where
  "dev_find_smbus_device t pci_fd addr =
     find (\<lambda>d. p_type (path_of t d) = DEVICE_PATH_I2C
             \<and> pci_devfn (path_of t (b_dev (bus_of t d))) = pci_fd
             \<and> i2c_device (path_of t d) = addr) (all_devices t)"

definition dev_find_slot_on_smbus :: "devtree \<Rightarrow> u32 \<Rightarrow> u32 \<Rightarrow> dev_id option" where
  "dev_find_slot_on_smbus t bus addr =
     find (\<lambda>d. p_type (path_of t d) = DEVICE_PATH_I2C
             \<and> ucast (b_secondary (bus_of t d)) = bus
             \<and> i2c_device (path_of t d) = addr) (all_devices t)"

definition dev_find_slot_pnp :: "devtree \<Rightarrow> u16 \<Rightarrow> u16 \<Rightarrow> dev_id option" where
  "dev_find_slot_pnp t port device =
     find (\<lambda>d. p_type (path_of t d) = DEVICE_PATH_PNP
             \<and> pnp_port (path_of t d) = ucast port
             \<and> pnp_device (path_of t d) = ucast device) (all_devices t)"

definition dev_find_lapic :: "devtree \<Rightarrow> u32 \<Rightarrow> dev_id option" where
  "dev_find_lapic t id' =
     find (\<lambda>d. p_type (path_of t d) = DEVICE_PATH_APIC \<and> apic_id (path_of t d) = id')
       (all_devices t)"

text \<open>\<^verbatim>\<open>from\<close> is a device of the chain, or NULL for its head; the search goes on after it.\<close>

definition chain_from :: "devtree \<Rightarrow> dev_id option \<Rightarrow> dev_id list" where
  "chain_from t from' =
     (case from' of None \<Rightarrow> all_devices t
      | Some d \<Rightarrow> tl (dropWhile (\<lambda>x. x \<noteq> d) (all_devices t)))"

definition dev_find_device :: "devtree \<Rightarrow> u16 \<Rightarrow> u16 \<Rightarrow> dev_id option \<Rightarrow> dev_id option" where
  "dev_find_device t vendor device from' =
     find (\<lambda>d. d_vendor (devs t d) = ucast vendor \<and> d_device (devs t d) = ucast device)
       (chain_from t from')"

definition dev_find_class :: "devtree \<Rightarrow> u32 \<Rightarrow> dev_id option \<Rightarrow> dev_id option" where
  "dev_find_class t cls from' =
     find (\<lambda>d. d_class (devs t d) AND 0xffffff00 = cls) (chain_from t from')"

definition dev_path_encode :: "devtree \<Rightarrow> dev_id option \<Rightarrow> u32" where
  "dev_path_encode t dev =
     (case dev of None \<Rightarrow> 0
      | Some d \<Rightarrow>
         let path = path_of t d; ret = push_bit 16 (path_type_code (p_type path));
             sec = push_bit 8 (ucast (b_secondary (bus_of t d))) in
         (case p_type path of
            DEVICE_PATH_ROOT \<Rightarrow> ret
          | DEVICE_PATH_PCI \<Rightarrow> ret OR (sec OR pci_devfn path)
          | DEVICE_PATH_PNP \<Rightarrow> ret OR (push_bit 8 (pnp_port path) OR pnp_device path)
          | DEVICE_PATH_I2C \<Rightarrow> ret OR (sec OR pnp_device path)
          | DEVICE_PATH_APIC \<Rightarrow> ret OR apic_id path
          | DEVICE_PATH_DOMAIN \<Rightarrow> ret OR domain_num path
          | DEVICE_PATH_CPU_CLUSTER \<Rightarrow> ret OR cpu_cluster_num path
          | DEVICE_PATH_CPU \<Rightarrow> ret OR cpu_id path
          | DEVICE_PATH_CPU_BUS \<Rightarrow> ret OR cpu_bus_id path
          | DEVICE_PATH_IOAPIC \<Rightarrow> ret OR ioapic_id path
          | DEVICE_PATH_NONE \<Rightarrow> ret))"

definition dev_count_cpu :: "devtree \<Rightarrow> nat" where
  "dev_count_cpu t = length (filter (\<lambda>d.
     p_type (path_of t d) = DEVICE_PATH_APIC
     \<and> p_type (path_of t (b_dev (bus_of t d))) = DEVICE_PATH_CPU_CLUSTER
     \<and> d_enabled (devs t d)) (all_devices t))"

section \<open>The resource list of a device\<close>

text \<open>Resource structures come from a free list that 64 more are carved into when it is empty.\<close>

record res_pool =
  free_resources :: "resource list"
  pool_heap :: heap

definition zero_resource :: resource where
  "zero_resource = \<lparr>res_base = 0, res_size = 0, res_limit = 0, res_flags = 0, res_index = 0,
     res_align = 0, res_gran = 0\<rparr>"

definition sizeof_resource :: u32 where
  "sizeof_resource = 40"

definition allocate_more_resources :: "res_pool \<Rightarrow> res_pool option" where
  "allocate_more_resources pool =
     (case malloc (64 * sizeof_resource) (pool_heap pool) of
        None \<Rightarrow> None
      | Some (_, h) \<Rightarrow> Some \<lparr>free_resources = replicate 64 zero_resource, pool_heap = h\<rparr>)"

fun compact_resources :: "resource list \<Rightarrow> resource list \<Rightarrow> resource list \<times> resource list" where
  "compact_resources [] free = ([], free)"
| "compact_resources (res # rest) free =
     (if res_flags res = 0 then compact_resources rest (res # free)
      else let (rest', free') = compact_resources rest free in (res # rest', free'))"

fun probe_resource :: "resource list \<Rightarrow> u32 \<Rightarrow> nat option" where
  "probe_resource [] index = None"
| "probe_resource (res # rest) index =
     (if res_index res = index then Some 0 else map_option Suc (probe_resource rest index))"

definition init_resource :: "u32 \<Rightarrow> resource \<Rightarrow> resource" where
  "init_resource index res =
     (let res = (if res_flags res AND IORESOURCE_FIXED = 0
                 then res\<lparr>res_flags := 0, res_base := 0\<rparr> else res)
      in res\<lparr>res_size := 0, res_limit := 0, res_index := index, res_align := 0, res_gran := 0\<rparr>)"

definition new_resource ::
  "resource list \<Rightarrow> u32 \<Rightarrow> res_pool \<Rightarrow> (nat \<times> resource list \<times> res_pool) option" where
  "new_resource rs index pool =
     (let (rs, free) = compact_resources rs (free_resources pool);
          pool = pool\<lparr>free_resources := free\<rparr>
      in case probe_resource rs index of
           Some i \<Rightarrow> Some (i, rs[i := init_resource index (rs ! i)], pool)
         | None \<Rightarrow> do {
             pool \<leftarrow> (if free_resources pool = [] then allocate_more_resources pool else Some pool);
             Some (length rs, rs @ [init_resource index zero_resource],
                   pool\<lparr>free_resources := tl (free_resources pool)\<rparr>)
           })"

definition find_resource :: "resource list \<Rightarrow> u32 \<Rightarrow> nat option" where
  "find_resource rs index = probe_resource rs index"

definition fixed_mem_resource ::
  "resource list \<Rightarrow> u32 \<Rightarrow> u32 \<Rightarrow> u32 \<Rightarrow> u32 \<Rightarrow> res_pool \<Rightarrow> (resource list \<times> res_pool) option" where
  "fixed_mem_resource rs index basek sizek type' pool =
     (if sizek = 0 then Some (rs, pool)
      else do {
        (i, rs, pool) \<leftarrow> new_resource rs index pool;
        Some (rs[i := (rs ! i)\<lparr>res_base := push_bit 10 (ucast basek),
                               res_size := push_bit 10 (ucast sizek),
                               res_flags := (IORESOURCE_MEM OR IORESOURCE_FIXED
                                  OR IORESOURCE_STORED OR IORESOURCE_ASSIGNED) OR type'\<rparr>], pool)
      })"

section \<open>Alignment of a resource\<close>

definition align_up :: "resource_t \<Rightarrow> nat \<Rightarrow> resource_t" where
  "align_up val gran = (let mask = push_bit gran 1 - 1 in (val + mask) AND NOT mask)"

definition align_down :: "resource_t \<Rightarrow> nat \<Rightarrow> resource_t" where
  "align_down val gran = (let mask = push_bit gran 1 - 1 in val AND NOT mask)"

definition resource_end :: "resource \<Rightarrow> resource_t" where
  "resource_end res = res_base res + align_up (res_size res) (unat (res_gran res)) - 1"

definition resource_max :: "resource \<Rightarrow> resource_t" where
  "resource_max res = align_down (res_limit res - res_size res + 1) (unat (res_align res))"

definition resource_type :: "resource \<Rightarrow> string" where
  "resource_type res =
     (let has = (\<lambda>m. res_flags res AND m \<noteq> 0) in
      (if has IORESOURCE_READONLY then ''ro'' else '''') @
      (if has IORESOURCE_PREFETCH then ''pref'' else '''') @
      (if res_flags res = 0 then ''unused''
       else if has IORESOURCE_IO then ''io''
       else if has IORESOURCE_DRQ then ''drq''
       else if has IORESOURCE_IRQ then ''irq''
       else if has IORESOURCE_MEM then ''mem'' else ''??????'') @
      (if has IORESOURCE_PCI64 then ''64'' else ''''))"

section \<open>Searching the tree's resources\<close>

text \<open>
  The callback gets the pointer to the resource, which is its device and its position there,
  and the resource itself; it updates the state that the \<^verbatim>\<open>void *gp\<close> of the code points to.  The callbacks
  of the global walk use the device of the resource only.  The recursion over subordinate
  buses takes fuel, one unit per level of the tree.
\<close>

fun fold_opt :: "('a \<Rightarrow> 's \<Rightarrow> 's option) \<Rightarrow> 'a list \<Rightarrow> 's \<Rightarrow> 's option" where
  "fold_opt f [] s = Some s"
| "fold_opt f (x # xs) s = Option.bind (f x s) (fold_opt f xs)"

fun search_dev_resources ::
  "(bus_id \<Rightarrow> 's \<Rightarrow> 's option) \<Rightarrow> devtree \<Rightarrow> dev_id \<Rightarrow> u32 \<Rightarrow> u32
    \<Rightarrow> (res_ptr \<Rightarrow> resource \<Rightarrow> 's \<Rightarrow> 's option) \<Rightarrow> (nat \<times> resource) list \<Rightarrow> 's \<Rightarrow> 's option" where
  "search_dev_resources sub t d type_mask type' search [] gp = Some gp"
| "search_dev_resources sub t d type_mask type' search ((i, res) # rest) gp =
     (if res_flags res AND type_mask \<noteq> type' then
        search_dev_resources sub t d type_mask type' search rest gp
      else if res_flags res AND IORESOURCE_SUBTRACTIVE \<noteq> 0 then
        (case find (\<lambda>b. ucast (b_link_num (buses t b)) = IOINDEX_SUBTRACTIVE_LINK (res_index res))
                (d_link_list (devs t d)) of
           None \<Rightarrow> Some gp
         | Some subbus \<Rightarrow> do {
             gp \<leftarrow> sub subbus gp;
             search_dev_resources sub t d type_mask type' search rest gp
           })
      else do {
        gp \<leftarrow> search (d, i) res gp;
        search_dev_resources sub t d type_mask type' search rest gp
      })"

fun search_bus_resources ::
  "nat \<Rightarrow> devtree \<Rightarrow> bus_id \<Rightarrow> u32 \<Rightarrow> u32
    \<Rightarrow> (res_ptr \<Rightarrow> resource \<Rightarrow> 's \<Rightarrow> 's option) \<Rightarrow> 's \<Rightarrow> 's option" where
  "search_bus_resources 0 t bus type_mask type' search gp = None"
| "search_bus_resources (Suc n) t bus type_mask type' search gp =
     fold_opt (\<lambda>d gp.
         if \<not> d_enabled (devs t d) then Some gp
         else search_dev_resources (\<lambda>b. search_bus_resources n t b type_mask type' search)
                t d type_mask type' search (List.enumerate 0 (d_resource_list (devs t d))) gp)
       (b_children (buses t bus)) gp"

definition search_global_resources ::
  "devtree \<Rightarrow> u32 \<Rightarrow> u32 \<Rightarrow> (dev_id \<Rightarrow> resource \<Rightarrow> 's \<Rightarrow> 's option) \<Rightarrow> 's \<Rightarrow> 's option" where
  "search_global_resources t type_mask type' search gp =
     fold_opt (\<lambda>d gp.
         if \<not> d_enabled (devs t d) then Some gp
         else fold_opt (\<lambda>res gp.
                if res_flags res AND type_mask \<noteq> type' then Some gp
                else if res_flags res AND IORESOURCE_SUBTRACTIVE \<noteq> 0 then Some gp
                else search d res gp)
              (d_resource_list (devs t d)) gp)
       (all_devices t) gp"

definition tolm_test :: "res_ptr \<Rightarrow> resource \<Rightarrow> resource option \<Rightarrow> resource option option" where
  "tolm_test d new best =
     Some (case best of None \<Rightarrow> Some new
           | Some b \<Rightarrow> if res_base new < res_base b then Some new else Some b)"

definition find_pci_tolm :: "nat \<Rightarrow> devtree \<Rightarrow> bus_id \<Rightarrow> u32 option" where
  "find_pci_tolm n t bus =
     (case search_bus_resources n t bus IORESOURCE_MEM IORESOURCE_MEM tolm_test None of
        None \<Rightarrow> None
      | Some min' \<Rightarrow> Some (case min' of
           None \<Rightarrow> 0xffffffff
         | Some r \<Rightarrow> if res_base r < 0xffffffff then ucast (res_base r) else 0xffffffff))"

section \<open>Enabling and disabling\<close>

text \<open>
  \<open>hook\<close> stands for the \<^verbatim>\<open>enable\<close> and \<^verbatim>\<open>enable_dev\<close> function pointers, by the number the
  device's operations carry.
\<close>

definition dev_set_enabled ::
  "(nat \<Rightarrow> dev_id \<Rightarrow> devtree \<Rightarrow> devtree option) \<Rightarrow> dev_id \<Rightarrow> bool \<Rightarrow> devtree \<Rightarrow> devtree option" where
  "dev_set_enabled hook d enable t =
     (if d_enabled (devs t d) = enable then Some t
      else
        let t = t\<lparr>devs := (devs t)(d := (devs t d)\<lparr>d_enabled := enable\<rparr>)\<rparr> in
        (case dev_op t d op_enable of
           Some k \<Rightarrow> hook k d t
         | None \<Rightarrow> (case chip_op t d chip_enable_dev of Some k \<Rightarrow> hook k d t | None \<Rightarrow> Some t)))"

fun disable_children ::
  "nat \<Rightarrow> (nat \<Rightarrow> dev_id \<Rightarrow> devtree \<Rightarrow> devtree option) \<Rightarrow> bus_id \<Rightarrow> devtree \<Rightarrow> devtree option" where
  "disable_children 0 hook bus t = None"
| "disable_children (Suc n) hook bus t =
     fold_opt (\<lambda>child t. do {
         t \<leftarrow> fold_opt (disable_children n hook) (d_link_list (devs t child)) t;
         dev_set_enabled hook child False t
       }) (b_children (buses t bus)) t"

section \<open>The resource list: what the operations do\<close>

lemma compact_resources_eq:
  "compact_resources rs free =
     (filter (\<lambda>r. res_flags r \<noteq> 0) rs, rev (filter (\<lambda>r. res_flags r = 0) rs) @ free)"
  by (induction rs arbitrary: free) simp_all

lemma probe_resource_SomeD:
  "probe_resource rs idx = Some i \<Longrightarrow>
     i < length rs \<and> res_index (rs ! i) = idx \<and> (\<forall>j < i. res_index (rs ! j) \<noteq> idx)"
proof (induction rs arbitrary: i)
  case (Cons r rs)
  then show ?case
    by (auto simp: nth_Cons split: if_splits nat.splits)
qed simp

lemma probe_resource_SomeI:
  "i < length rs \<Longrightarrow> res_index (rs ! i) = idx \<Longrightarrow> \<forall>j < i. res_index (rs ! j) \<noteq> idx \<Longrightarrow>
     probe_resource rs idx = Some i"
proof (induction rs arbitrary: i)
  case (Cons r rs)
  show ?case
  proof (cases i)
    case 0
    with Cons.prems show ?thesis by simp
  next
    case (Suc k)
    have "res_index r \<noteq> idx" using Cons.prems(3) Suc by force
    moreover have "probe_resource rs idx = Some k"
      using Cons.prems Suc by (intro Cons.IH) force+
    ultimately show ?thesis by (simp add: Suc)
  qed
qed simp

lemma probe_resource_None_iff:
  "probe_resource rs idx = None \<longleftrightarrow> (\<forall>r \<in> set rs. res_index r \<noteq> idx)"
  by (induction rs) auto

lemma init_resource_simps [simp]:
  "res_index (init_resource idx r) = idx"
  "res_size (init_resource idx r) = 0"
  "res_limit (init_resource idx r) = 0"
  "res_align (init_resource idx r) = 0"
  "res_gran (init_resource idx r) = 0"
  "res_flags r AND IORESOURCE_FIXED \<noteq> 0 \<Longrightarrow> res_flags (init_resource idx r) = res_flags r"
  "res_flags r AND IORESOURCE_FIXED \<noteq> 0 \<Longrightarrow> res_base (init_resource idx r) = res_base r"
  "res_flags r AND IORESOURCE_FIXED = 0 \<Longrightarrow> res_flags (init_resource idx r) = 0"
  "res_flags r AND IORESOURCE_FIXED = 0 \<Longrightarrow> res_base (init_resource idx r) = 0"
  by (simp_all add: init_resource_def Let_def)

lemma filter_update_out:
  "i < length xs \<Longrightarrow> \<not> P (xs ! i) \<Longrightarrow> \<not> P y \<Longrightarrow> filter P (xs[i := y]) = filter P xs"
  by (induction xs arbitrary: i) (auto split: nat.splits)

lemma new_resource_spec:
  assumes "new_resource rs idx pool = Some (i, rs', pool')"
  shows "i < length rs'" and "probe_resource rs' idx = Some i"
    and "res_size (rs' ! i) = 0 \<and> res_limit (rs' ! i) = 0 \<and> res_align (rs' ! i) = 0 \<and> res_gran (rs' ! i) = 0"
    and "filter (\<lambda>r. res_index r \<noteq> idx) rs' = filter (\<lambda>r. res_index r \<noteq> idx \<and> res_flags r \<noteq> 0) rs"
proof -
  let ?rs = "filter (\<lambda>r. res_flags r \<noteq> 0) rs"
  have comm: "filter (\<lambda>r. res_index r \<noteq> idx) ?rs = filter (\<lambda>r. res_index r \<noteq> idx \<and> res_flags r \<noteq> 0) rs"
    by (simp add: conj_commute)
  have all: "i < length rs' \<and> probe_resource rs' idx = Some i
    \<and> (\<exists>r. rs' ! i = init_resource idx r)
    \<and> filter (\<lambda>r. res_index r \<noteq> idx) rs' = filter (\<lambda>r. res_index r \<noteq> idx) ?rs"
  proof (cases "probe_resource ?rs idx")
    case (Some j)
    with assms have ij: "i = j" and rs': "rs' = ?rs[j := init_resource idx (?rs ! j)]"
      by (auto simp: new_resource_def compact_resources_eq Let_def)
    note j = probe_resource_SomeD [OF Some]
    have "probe_resource rs' idx = Some i"
      using j unfolding rs' ij by (intro probe_resource_SomeI) (simp_all add: nth_list_update_neq)
    then show ?thesis using j unfolding rs' ij by (auto simp: filter_update_out)
  next
    case None
    with assms have i: "i = length ?rs" and rs': "rs' = ?rs @ [init_resource idx zero_resource]"
      by (auto simp: new_resource_def compact_resources_eq Let_def)
    have "probe_resource rs' idx = Some i"
      using None unfolding rs' i probe_resource_None_iff
      by (intro probe_resource_SomeI) (auto simp: nth_append dest!: nth_mem)
    then show ?thesis unfolding rs' i by auto
  qed
  then show "i < length rs'" and "probe_resource rs' idx = Some i"
    and "res_size (rs' ! i) = 0 \<and> res_limit (rs' ! i) = 0 \<and> res_align (rs' ! i) = 0 \<and> res_gran (rs' ! i) = 0"
    by auto
  show "filter (\<lambda>r. res_index r \<noteq> idx) rs' = filter (\<lambda>r. res_index r \<noteq> idx \<and> res_flags r \<noteq> 0) rs"
    using all comm by simp
qed

section \<open>The highest base below a limit\<close>

lemma unat_align_down:
  "n < 64 \<Longrightarrow> unat (align_down v n) = unat v div 2 ^ n * 2 ^ n"
  by (simp add: align_down_def Let_def push_bit_eq_mult unat_and_not_mask flip: mask_eq_exp_minus_1)

lemma unat_resource_max:
  assumes "unat (res_align r) < 64" and "0 < res_size r" and "res_size r - 1 \<le> res_limit r"
  shows "unat (resource_max r) =
     (unat (res_limit r) + 1 - unat (res_size r)) div 2 ^ unat (res_align r) * 2 ^ unat (res_align r)"
proof -
  have e: "res_limit r - res_size r + 1 = res_limit r - (res_size r - 1)" by simp
  moreover have "unat (res_limit r - (res_size r - 1)) = unat (res_limit r) - (unat (res_size r) - 1)"
    using assms(2,3) by (simp add: unat_sub unat_minus_one_pos)
  moreover have "1 \<le> unat (res_size r)"
    using assms(2) by (simp add: word_less_nat_alt)
  ultimately have "unat (res_limit r - res_size r + 1) = unat (res_limit r) + 1 - unat (res_size r)"
    unfolding e by simp
  then show ?thesis
    using assms(1) by (simp only: resource_max_def unat_align_down)
qed

lemma resource_max_greatest:
  assumes "unat (res_align r) < 64" and "0 < res_size r" and "res_size r - 1 \<le> res_limit r"
  shows "2 ^ unat (res_align r) dvd unat (resource_max r)"
    and "unat (resource_max r) + unat (res_size r) \<le> unat (res_limit r) + 1"
    and "2 ^ unat (res_align r) dvd unat b \<Longrightarrow> unat b + unat (res_size r) \<le> unat (res_limit r) + 1
      \<Longrightarrow> b \<le> resource_max r"
proof -
  let ?k = "2 ^ unat (res_align r) :: nat" and ?m = "unat (res_limit r) + 1 - unat (res_size r)"
  note m = unat_resource_max [OF assms]
  have "unat (res_size r) \<le> unat (res_limit r) + 1"
    using assms(2,3) by (simp add: word_le_nat_alt unat_minus_one_pos)
  then show "unat (resource_max r) + unat (res_size r) \<le> unat (res_limit r) + 1"
    using div_times_less_eq_dividend [of ?m ?k] unfolding m by linarith
  show "?k dvd unat (resource_max r)" by (simp add: m)
  assume dvd: "?k dvd unat b" and "unat b + unat (res_size r) \<le> unat (res_limit r) + 1"
  then have "unat b div ?k \<le> ?m div ?k" by (intro div_le_mono) simp
  then have "unat b div ?k * ?k \<le> ?m div ?k * ?k" by (rule mult_le_mono1)
  with dvd show "b \<le> resource_max r" by (simp add: m word_le_nat_alt)
qed

section \<open>The tree searches\<close>

text \<open>
  The abstract contract of a walk: the list of resources it calls its callback on, in
  order.  A bus whose subtractive resource names no link stops its device's list there.
\<close>

fun flat_opt :: "('a \<Rightarrow> 'b list option) \<Rightarrow> 'a list \<Rightarrow> 'b list option" where
  "flat_opt h [] = Some []"
| "flat_opt h (x # xs) = do { l \<leftarrow> h x; ls \<leftarrow> flat_opt h xs; Some (l @ ls) }"

fun dev_visits ::
  "(bus_id \<Rightarrow> (res_ptr \<times> resource) list option) \<Rightarrow> devtree \<Rightarrow> dev_id \<Rightarrow> u32 \<Rightarrow> u32
    \<Rightarrow> (nat \<times> resource) list \<Rightarrow> (res_ptr \<times> resource) list option" where
  "dev_visits sub t d type_mask type' [] = Some []"
| "dev_visits sub t d type_mask type' ((i, res) # rest) =
     (if res_flags res AND type_mask \<noteq> type' then dev_visits sub t d type_mask type' rest
      else if res_flags res AND IORESOURCE_SUBTRACTIVE \<noteq> 0 then
        (case find (\<lambda>b. ucast (b_link_num (buses t b)) = IOINDEX_SUBTRACTIVE_LINK (res_index res))
                (d_link_list (devs t d)) of
           None \<Rightarrow> Some []
         | Some b \<Rightarrow> do { l \<leftarrow> sub b; ls \<leftarrow> dev_visits sub t d type_mask type' rest; Some (l @ ls) })
      else do { ls \<leftarrow> dev_visits sub t d type_mask type' rest; Some (((d, i), res) # ls) })"

fun bus_visits :: "nat \<Rightarrow> devtree \<Rightarrow> bus_id \<Rightarrow> u32 \<Rightarrow> u32 \<Rightarrow> (res_ptr \<times> resource) list option" where
  "bus_visits 0 t bus type_mask type' = None"
| "bus_visits (Suc n) t bus type_mask type' =
     flat_opt (\<lambda>d. if \<not> d_enabled (devs t d) then Some []
                   else dev_visits (\<lambda>b. bus_visits n t b type_mask type') t d type_mask type'
                          (List.enumerate 0 (d_resource_list (devs t d))))
       (b_children (buses t bus))"

lemma fold_opt_append: "fold_opt f (xs @ ys) s = Option.bind (fold_opt f xs s) (fold_opt f ys)"
  by (induction xs arbitrary: s) (auto split: Option.bind_splits)

lemma fold_opt_flat_opt:
  assumes "\<And>x s. g x s = Option.bind (h x) (\<lambda>l. fold_opt f l s)"
  shows "fold_opt g xs s = Option.bind (flat_opt h xs) (\<lambda>l. fold_opt f l s)"
proof (induction xs arbitrary: s)
  case (Cons x xs)
  have IH: "fold_opt g xs = (\<lambda>s. Option.bind (flat_opt h xs) (\<lambda>l. fold_opt f l s))"
    using Cons.IH by (rule ext)
  have "fold_opt g (x # xs) s = Option.bind (Option.bind (h x) (\<lambda>l. fold_opt f l s))
      (\<lambda>s. Option.bind (flat_opt h xs) (\<lambda>l. fold_opt f l s))"
    by (simp only: fold_opt.simps IH) (simp only: assms)
  then show ?case
    by (cases "h x"; cases "flat_opt h xs"; simp add: fold_opt_append)
qed simp

lemma search_dev_resources_fold:
  assumes "\<And>b s. sub b s = Option.bind (sub' b) (\<lambda>l. fold_opt (\<lambda>(d, r). f d r) l s)"
  shows "search_dev_resources sub t d type_mask type' f rs s =
    Option.bind (dev_visits sub' t d type_mask type' rs) (\<lambda>l. fold_opt (\<lambda>(d, r). f d r) l s)"
proof (induction rs arbitrary: s)
  case (Cons r rs)
  then show ?case
    by (cases r; cases "dev_visits sub' t d type_mask type' rs")
       (auto simp: assms fold_opt_append split: option.splits Option.bind_splits)
qed simp

lemma search_bus_resources_fold:
  "search_bus_resources n t bus type_mask type' f s =
    Option.bind (bus_visits n t bus type_mask type') (\<lambda>l. fold_opt (\<lambda>(d, r). f d r) l s)"
proof (induction n arbitrary: bus s)
  case (Suc n)
  show ?case
    unfolding search_bus_resources.simps bus_visits.simps
    by (rule fold_opt_flat_opt) (simp add: search_dev_resources_fold [OF Suc.IH])
qed simp

definition bus_rank :: "devtree \<Rightarrow> (bus_id \<Rightarrow> nat) \<Rightarrow> bool" where
  "bus_rank t rk \<longleftrightarrow> (\<forall>b. \<forall>d \<in> set (b_children (buses t b)). \<forall>l \<in> set (d_link_list (devs t d)). rk l < rk b)"

lemma flat_opt_total: "(\<And>x. x \<in> set xs \<Longrightarrow> \<exists>l. h x = Some l) \<Longrightarrow> \<exists>l. flat_opt h xs = Some l"
  by (induction xs) fastforce+

lemma dev_visits_total:
  "(\<And>b. b \<in> set (d_link_list (devs t d)) \<Longrightarrow> \<exists>l. sub b = Some l) \<Longrightarrow>
     \<exists>l. dev_visits sub t d type_mask type' rs = Some l"
proof (induction rs)
  case (Cons r rs)
  then show ?case by (cases r) (fastforce simp: find_Some_iff split: option.splits)
qed simp

lemma bus_visits_enough_fuel:
  "bus_rank t rk \<Longrightarrow> rk bus < n \<Longrightarrow> \<exists>l. bus_visits n t bus type_mask type' = Some l"
proof (induction n arbitrary: bus)
  case (Suc n)
  have "\<exists>l. bus_visits n t b type_mask type' = Some l"
    if "d \<in> set (b_children (buses t bus))" "b \<in> set (d_link_list (devs t d))" for d b
    using Suc.prems that by (intro Suc.IH) (fastforce simp: bus_rank_def)+
  then show ?case
    unfolding bus_visits.simps by (intro flat_opt_total) (auto intro!: dev_visits_total)
qed simp

section \<open>The lowest memory resource below a bus\<close>

lemma fold_tolm_test:
  "\<exists>m. fold_opt (\<lambda>(d, r). tolm_test d r) l (Some b) = Some (Some m)
     \<and> m \<in> insert b (snd ` set l) \<and> (\<forall>r \<in> insert b (snd ` set l). res_base m \<le> res_base r)"
proof (induction l arbitrary: b)
  case (Cons x l)
  obtain d r where x: "x = (d, r)" by (cases x)
  show ?case
  proof (cases "res_base r < res_base b")
    case True
    with Cons.IH [of r] show ?thesis by (force simp: x tolm_test_def)
  next
    case False
    with Cons.IH [of b] show ?thesis by (force simp: x tolm_test_def not_less)
  qed
qed simp

lemma find_pci_tolm_fold:
  assumes "bus_visits n t bus IORESOURCE_MEM IORESOURCE_MEM = Some l"
  shows "\<exists>v. find_pci_tolm n t bus = Some v
    \<and> (\<forall>(d, r) \<in> set l. ucast v \<le> res_base r)
    \<and> (v = 0xffffffff \<or> (\<exists>(d, r) \<in> set l. ucast v = res_base r))"
proof -
  have low: "ucast (ucast x :: u32) = x" if "x < 0xffffffff" for x :: u64
    using that by (simp add: word_unat_eq_iff unat_ucast_mod word_less_nat_alt)
  show ?thesis
  proof (cases l)
    case Nil
    with assms show ?thesis by (simp add: find_pci_tolm_def search_bus_resources_fold)
  next
    case (Cons x l')
    obtain d r where x: "x = (d, r)" by (cases x)
    obtain m where m: "fold_opt (\<lambda>(d, r). tolm_test d r) l' (Some r) = Some (Some m)"
      and mem: "m \<in> insert r (snd ` set l')" and least: "\<forall>r \<in> insert r (snd ` set l'). res_base m \<le> res_base r"
      using fold_tolm_test [of l' r] by auto
    have "find_pci_tolm n t bus
        = Some (if res_base m < 0xffffffff then ucast (res_base m) else 0xffffffff)"
      using m by (simp add: find_pci_tolm_def search_bus_resources_fold assms Cons x tolm_test_def)
    moreover have "\<forall>(d, r) \<in> set l. res_base m \<le> res_base r" "\<exists>(d, r) \<in> set l. res_base m = res_base r"
      using mem least by (force simp: Cons x)+
    ultimately show ?thesis
      by (cases "res_base m < 0xffffffff") (fastforce simp: low not_less)+
  qed
qed

section \<open>Disabling a subtree\<close>

text \<open>A hook of the tree may touch other state of the devices but enables none and moves none.\<close>

definition hook_ok :: "(nat \<Rightarrow> dev_id \<Rightarrow> devtree \<Rightarrow> devtree option) \<Rightarrow> bool" where
  "hook_ok hook \<longleftrightarrow> (\<forall>k d t t'. hook k d t = Some t' \<longrightarrow>
     buses t' = buses t \<and> (\<forall>x. d_link_list (devs t' x) = d_link_list (devs t x))
     \<and> (\<forall>x. d_enabled (devs t' x) \<longrightarrow> d_enabled (devs t x)))"

definition shrinks :: "devtree \<Rightarrow> devtree \<Rightarrow> bool" where
  "shrinks t t' \<longleftrightarrow> buses t' = buses t \<and> (\<forall>x. d_link_list (devs t' x) = d_link_list (devs t x))
     \<and> (\<forall>x. d_enabled (devs t' x) \<longrightarrow> d_enabled (devs t x))"

inductive below :: "devtree \<Rightarrow> bus_id \<Rightarrow> dev_id \<Rightarrow> bool" for t where
  child: "d \<in> set (b_children (buses t b)) \<Longrightarrow> below t b d"
| deeper: "d \<in> set (b_children (buses t b)) \<Longrightarrow> l \<in> set (d_link_list (devs t d)) \<Longrightarrow> below t l x \<Longrightarrow> below t b x"

inductive_cases belowE: "below t b d"

lemma shrinks_refl [simp]: "shrinks t t"
  by (simp add: shrinks_def)

lemma shrinks_trans: "shrinks t u \<Longrightarrow> shrinks u v \<Longrightarrow> shrinks t v"
  by (auto simp: shrinks_def)

lemma below_cong:
  assumes "below t b d" and "\<forall>x. d_link_list (devs t' x) = d_link_list (devs t x)"
    and "buses t' = buses t"
  shows "below t' b d"
  using assms
proof (induction rule: below.induct)
  case (child d b)
  then show ?case by (intro below.child) simp
next
  case (deeper d b l x)
  then show ?case by (intro below.deeper [of d t' b l]) simp_all
qed

lemma shrinks_below:
  assumes "shrinks t t'"
  shows "below t' b d = below t b d"
proof -
  have eq: "\<forall>x. d_link_list (devs t' x) = d_link_list (devs t x)" "buses t' = buses t"
    using assms by (simp_all add: shrinks_def)
  show ?thesis
  proof
    assume "below t' b d"
    then show "below t b d" using eq by (metis below_cong)
  next
    assume "below t b d"
    then show "below t' b d" using eq by (metis below_cong)
  qed
qed

lemma hook_okD: "hook_ok hook \<Longrightarrow> hook k d t = Some t' \<Longrightarrow> shrinks t t'"
  unfolding hook_ok_def shrinks_def by blast

lemma dev_set_enabled_shrinks:
  assumes "hook_ok hook" and "dev_set_enabled hook d False t = Some t'"
  shows "shrinks t t' \<and> \<not> d_enabled (devs t' d)"
proof -
  let ?t = "t\<lparr>devs := (devs t)(d := (devs t d)\<lparr>d_enabled := False\<rparr>)\<rparr>"
  have s: "shrinks t ?t \<and> \<not> d_enabled (devs ?t d)" by (simp add: shrinks_def)
  have "shrinks ?t t' \<or> t' = t \<and> \<not> d_enabled (devs t d)"
    using assms(2) hook_okD [OF assms(1), of _ d ?t t'] unfolding dev_set_enabled_def Let_def
    by (fastforce split: if_split_asm option.split_asm)
  then show ?thesis using s unfolding shrinks_def by auto
qed

lemma fold_opt_shrinks:
  assumes "fold_opt f xs t = Some t'"
    and "\<And>x u v. x \<in> set xs \<Longrightarrow> shrinks t u \<Longrightarrow> f x u = Some v \<Longrightarrow>
       shrinks u v \<and> (\<forall>d. P x d \<longrightarrow> \<not> d_enabled (devs v d))"
  shows "shrinks t t' \<and> (\<forall>x \<in> set xs. \<forall>d. P x d \<longrightarrow> \<not> d_enabled (devs t' d))"
  using assms
proof (induction xs arbitrary: t)
  case (Cons x xs)
  from Cons.prems(1) obtain u where u: "f x t = Some u" and rest: "fold_opt f xs u = Some t'" by auto
  have xu: "shrinks t u \<and> (\<forall>d. P x d \<longrightarrow> \<not> d_enabled (devs u d))"
    using Cons.prems(2) u by (meson list.set_intros(1) shrinks_refl)
  have "shrinks u t' \<and> (\<forall>x \<in> set xs. \<forall>d. P x d \<longrightarrow> \<not> d_enabled (devs t' d))"
    using rest by (rule Cons.IH) (meson Cons.prems(2) list.set_intros(2) shrinks_trans xu)
  then show ?case using xu by (auto simp: shrinks_def)
qed simp

lemma disable_children_shrinks:
  assumes "hook_ok hook"
  shows "disable_children n hook bus t = Some t' \<Longrightarrow>
     shrinks t t' \<and> (\<forall>d. below t bus d \<longrightarrow> \<not> d_enabled (devs t' d))"
proof (induction n arbitrary: bus t t')
  case (Suc n)
  let ?P = "\<lambda>c d. d = c \<or> (\<exists>l \<in> set (d_link_list (devs t c)). below t l d)"
  have step: "shrinks u v \<and> (\<forall>d. ?P c d \<longrightarrow> \<not> d_enabled (devs v d))"
    if tu: "shrinks t u" and
      uv: "Option.bind (fold_opt (disable_children n hook) (d_link_list (devs u c)) u) (dev_set_enabled hook c False) = Some v"
    for c u v
  proof -
    from uv obtain w where uw: "fold_opt (disable_children n hook) (d_link_list (devs u c)) u = Some w"
      and wv: "dev_set_enabled hook c False w = Some v" by auto
    have uw': "shrinks u w \<and> (\<forall>l \<in> set (d_link_list (devs u c)). \<forall>d. below u l d \<longrightarrow> \<not> d_enabled (devs w d))"
      using uw by (rule fold_opt_shrinks) (metis Suc.IH shrinks_below)
    have links: "d_link_list (devs u c) = d_link_list (devs t c)"
      using tu by (simp add: shrinks_def)
    have wv': "shrinks w v" "\<not> d_enabled (devs v c)"
      using dev_set_enabled_shrinks [OF assms wv] by simp_all
    have "\<not> d_enabled (devs v d)" if "?P c d" for d
      using that uw' wv' shrinks_below [OF tu] unfolding links shrinks_def by metis
    then show ?thesis using uw' wv'(1) shrinks_trans by blast
  qed
  have "shrinks t t' \<and> (\<forall>c \<in> set (b_children (buses t bus)). \<forall>d. ?P c d \<longrightarrow> \<not> d_enabled (devs t' d))"
    using Suc.prems unfolding disable_children.simps by (rule fold_opt_shrinks) (rule step)
  moreover have "\<exists>c \<in> set (b_children (buses t bus)). ?P c d" if "below t bus d" for d
    using that by (rule belowE) auto
  ultimately show ?case by meson
qed simp

section \<open>Properties\<close>

text \<open>
  \<^verbatim>\<open>new_resource\<close> returns the first resource of the device with the requested index,
  cleared; every other used resource of the list stays, in order, and only structures with
  no flags are dropped.
\<close>
lemma new_resource_contract:
  assumes "new_resource rs idx pool = Some (i, rs', pool')"
  shows "probe_resource rs' idx = Some i \<and> i < length rs'
    \<and> res_size (rs' ! i) = 0 \<and> res_limit (rs' ! i) = 0 \<and> res_align (rs' ! i) = 0 \<and> res_gran (rs' ! i) = 0
    \<and> filter (\<lambda>r. res_index r \<noteq> idx) rs' = filter (\<lambda>r. res_index r \<noteq> idx \<and> res_flags r \<noteq> 0) rs"
  using new_resource_spec [OF assms] by simp

lemma new_resource_contract_witness:
  "\<exists>i rs' pool'. new_resource [zero_resource\<lparr>res_flags := 0x200, res_index := 0x10\<rparr>, zero_resource] 0x14
      \<lparr>free_resources = [], pool_heap = \<lparr>free_mem_ptr = 0x1000, free_mem_end_ptr = 0x4000\<rparr>\<rparr> = Some (i, rs', pool')
    \<and> probe_resource rs' 0x14 = Some i \<and> i = 1"
proof -
  let ?pool = "\<lparr>free_resources = [], pool_heap = \<lparr>free_mem_ptr = 0x1000, free_mem_end_ptr = 0x4000\<rparr>\<rparr>"
  have "\<exists>rs' pool'. new_resource [zero_resource\<lparr>res_flags := 0x200, res_index := 0x10\<rparr>, zero_resource] 0x14
      ?pool = Some (1, rs', pool')"
    by (simp add: new_resource_def zero_resource_def)
  then show ?thesis using new_resource_contract by blast
qed

text \<open>
  \<^verbatim>\<open>resource_max\<close> is the highest base the resource may get: it is aligned, the resource
  placed there ends at or below its limit, and no aligned base above it does.
\<close>
lemma resource_max_highest:
  assumes "unat (res_align r) < 64" and "0 < res_size r" and "res_size r - 1 \<le> res_limit r"
  shows "2 ^ unat (res_align r) dvd unat (resource_max r)
    \<and> unat (resource_max r) + unat (res_size r) \<le> unat (res_limit r) + 1
    \<and> (\<forall>b. 2 ^ unat (res_align r) dvd unat b \<and> unat b + unat (res_size r) \<le> unat (res_limit r) + 1
         \<longrightarrow> b \<le> resource_max r)"
  using resource_max_greatest [OF assms] by blast

lemma resource_max_highest_witness:
  "unat (resource_max (zero_resource\<lparr>res_size := 0x3000, res_limit := 0xffffffff, res_align := 12\<rparr>))
     + 0x3000 \<le> 0xffffffff + 1"
proof -
  let ?r = "zero_resource\<lparr>res_size := 0x3000, res_limit := 0xffffffff, res_align := 12\<rparr>"
  have "unat (res_align ?r) < 64" "0 < res_size ?r" "res_size ?r - 1 \<le> res_limit ?r"
    by (simp_all add: zero_resource_def)
  from resource_max_highest [OF this] show ?thesis by (simp add: zero_resource_def)
qed

text \<open>
  On a tree without cycles \<^verbatim>\<open>find_pci_tolm\<close> returns, and what it returns lies at or below
  the base of every memory resource that the walk over the bus reaches; it is one of these
  bases, or the end of 32-bit memory.
\<close>
lemma find_pci_tolm_lowest:
  assumes "bus_rank t rk" and "rk bus < n"
  shows "\<exists>l v. bus_visits n t bus IORESOURCE_MEM IORESOURCE_MEM = Some l \<and> find_pci_tolm n t bus = Some v
    \<and> (\<forall>(d, r) \<in> set l. ucast v \<le> res_base r)
    \<and> (v = 0xffffffff \<or> (\<exists>(d, r) \<in> set l. ucast v = res_base r))"
  using bus_visits_enough_fuel [OF assms] find_pci_tolm_fold by blast

text \<open>A root with one bridge (link 0 of device 1) and a device behind it, for the witnesses.\<close>

definition example_device :: device where
  "example_device = \<lparr>d_bus = 0, d_path = \<lparr>p_type = DEVICE_PATH_PCI, p_w0 = 8, p_w1 = 0, p_w2 = 0, p_w3 = 0, p_w4 = 0\<rparr>,
     d_vendor = 0, d_device = 0, d_subsystem_vendor = 0, d_subsystem_device = 0, d_class = 0, d_hdr_type = 0, d_enabled = True, d_initialized = False,
     d_on_mainboard = False, d_command = 0, d_resource_list = [], d_link_list = [], d_ops = None, d_chip_ops = None\<rparr>"

definition example_tree :: devtree where
  "example_tree = \<lparr>
     devs = (\<lambda>d. if d = 1 then example_device\<lparr>d_link_list := [1],
                     d_resource_list := [zero_resource\<lparr>res_base := 0xe0000000, res_flags := IORESOURCE_MEM\<rparr>]\<rparr>
                 else example_device\<lparr>d_bus := 1\<rparr>),
     buses = (\<lambda>b. if b = 0 then \<lparr>b_dev = 0, b_children = [1], b_bridge_ctrl = 0, b_link_num = 0,
       b_secondary = 0, b_subordinate = 1, b_reset_needed = False\<rparr>
                  else \<lparr>b_dev = 1, b_children = (if b = 1 then [2] else []), b_bridge_ctrl = 0, b_link_num = 0,
       b_secondary = 1, b_subordinate = 1, b_reset_needed = False\<rparr>),
     chips = (\<lambda>_. \<lparr>chip_enable_dev = None, chip_init = None, chip_final = None, chip_initialized = False, chip_finalized = False\<rparr>),
     all_devices = [1, 2], vga_pri = None\<rparr>"

lemma example_tree_rank: "bus_rank example_tree (\<lambda>b. 2 - b)"
  by (auto simp: bus_rank_def example_tree_def example_device_def split: if_splits)

lemma find_pci_tolm_lowest_witness:
  "find_pci_tolm 3 example_tree 0 = Some 0xe0000000
    \<and> (\<exists>l. bus_visits 3 example_tree 0 IORESOURCE_MEM IORESOURCE_MEM = Some l \<and> length l = 1
        \<and> list_all (\<lambda>(d, r). ucast (0xe0000000 :: u32) \<le> res_base r) l)"
proof -
  have run: "find_pci_tolm 3 example_tree 0 = Some 0xe0000000"
    by (simp add: find_pci_tolm_def example_tree_def example_device_def zero_resource_def
        tolm_test_def numeral_3_eq_3)
  have vis: "bus_visits 3 example_tree 0 IORESOURCE_MEM IORESOURCE_MEM
      = Some [((1, 0), zero_resource\<lparr>res_base := 0xe0000000, res_flags := IORESOURCE_MEM\<rparr>)]"
    by (simp add: example_tree_def example_device_def zero_resource_def numeral_3_eq_3)
  show ?thesis
    using find_pci_tolm_lowest [OF example_tree_rank, of 0 3 ] run vis by auto
qed

text \<open>
  After \<^verbatim>\<open>disable_children\<close> no device anywhere below the bus is enabled, whatever the
  enable hooks of the devices do, as long as they enable nothing and leave the tree's shape.
\<close>
lemma disable_children_disables:
  assumes "hook_ok hook" and "disable_children n hook bus t = Some t'" and "below t bus d"
  shows "\<not> d_enabled (devs t' d)"
  using disable_children_shrinks [OF assms(1,2)] assms(3) by blast

lemma disable_children_disables_witness:
  "\<exists>t'. disable_children 3 (\<lambda>k d t. Some t) 0 example_tree = Some t' \<and> \<not> d_enabled (devs t' 2)"
proof -
  have ok: "hook_ok (\<lambda>k d t. Some t)" by (simp add: hook_ok_def)
  obtain t' where run: "disable_children 3 (\<lambda>k d t. Some t) 0 example_tree = Some t'"
    by (simp add: example_tree_def example_device_def dev_set_enabled_def dev_op_def chip_op_def numeral_3_eq_3)
  have "below example_tree 0 2"
    by (rule below.deeper [of 1 _ _ 1]) (auto simp: example_tree_def intro!: below.child)
  with run disable_children_disables [OF ok run] show ?thesis by auto
qed

text \<open>
  Two device paths are equal for \<^verbatim>\<open>path_eq\<close> exactly when they have the same type and the
  same identifying words, except that no path of an I/O APIC equals any path, itself
  included: the switch has no case for that type.
\<close>
lemma path_eq_iff:
  "path_eq p q \<longleftrightarrow> p_type p = p_type q \<and> p_type p \<notin> {DEVICE_PATH_NONE, DEVICE_PATH_IOAPIC}
     \<and> (p_type p \<noteq> DEVICE_PATH_ROOT \<longrightarrow> p_w0 p = p_w0 q)
     \<and> (p_type p = DEVICE_PATH_PNP \<longrightarrow> p_w1 p = p_w1 q)"
  by (cases "p_type p") (auto simp: path_eq_def)

lemma path_eq_iff_witness:
  "path_eq \<lparr>p_type = DEVICE_PATH_PCI, p_w0 = 0x98, p_w1 = 1, p_w2 = 0, p_w3 = 0, p_w4 = 0\<rparr>
           \<lparr>p_type = DEVICE_PATH_PCI, p_w0 = 0x98, p_w1 = 2, p_w2 = 0, p_w3 = 0, p_w4 = 0\<rparr>"
  using path_eq_iff [of "\<lparr>p_type = DEVICE_PATH_PCI, p_w0 = 0x98, p_w1 = 1, p_w2 = 0, p_w3 = 0, p_w4 = 0\<rparr>"
    "\<lparr>p_type = DEVICE_PATH_PCI, p_w0 = 0x98, p_w1 = 2, p_w2 = 0, p_w3 = 0, p_w4 = 0\<rparr>"] by simp

text \<open>
  The encoding of an I2C device reads the \<^verbatim>\<open>pnp\<close> member of the union, whose \<^verbatim>\<open>device\<close> word is
  not the I2C address: two devices of one bus that differ in their address only get the
  same code.
\<close>

lemma dev_path_encode_i2c:
  assumes "p_type (path_of t d) = DEVICE_PATH_I2C" and "p_type (path_of t e) = DEVICE_PATH_I2C"
    and "d_bus (devs t d) = d_bus (devs t e)" and "p_w1 (path_of t d) = p_w1 (path_of t e)"
  shows "dev_path_encode t (Some d) = dev_path_encode t (Some e)"
  using assms by (simp add: dev_path_encode_def Let_def)

end
