(* ===== verification/Memrange.thy ===== *)
theory Memrange
  imports Devtree
begin

text \<open>
  Tagged memory ranges, \<^verbatim>\<open>src/lib/memrange.c\<close> and \<^verbatim>\<open>src/include/memrange.h\<close>.

  The linked list of \<^verbatim>\<open>struct memranges\<close> is a list of entries in chain order, so a
  \<^verbatim>\<open>prev_ptr\<close> of the code is a place in it.  Entries come from the component's own free list
  and, when that is empty, from \<^verbatim>\<open>malloc\<close> (\<open>None\<close>: the machine stops).  Range ends are
  inclusive and 64-bit; tags are 32-bit.
\<close>

section \<open>Entries and their allocation\<close>

record range_entry =
  re_begin :: resource_t
  re_end :: resource_t
  re_tag :: u32

definition range_entry_base :: "range_entry \<Rightarrow> resource_t" where
  "range_entry_base r = re_begin r"

definition range_entry_end :: "range_entry \<Rightarrow> resource_t" where
  "range_entry_end r = re_end r + 1"

definition range_entry_size :: "range_entry \<Rightarrow> resource_t" where
  "range_entry_size r = re_end r - re_begin r + 1"

definition range_entry_update_tag :: "range_entry \<Rightarrow> u32 \<Rightarrow> range_entry" where
  "range_entry_update_tag r new_tag = r\<lparr>re_tag := new_tag\<rparr>"

record range_pool =
  free_list :: "range_entry list"
  range_heap :: heap

type_synonym memranges = "range_entry list"

definition sizeof_range_entry :: u32 where
  "sizeof_range_entry = 24"

definition range_entry_free :: "range_entry \<Rightarrow> range_pool \<Rightarrow> range_pool" where
  "range_entry_free r pool = pool\<lparr>free_list := r # free_list pool\<rparr>"

text \<open>\<^verbatim>\<open>malloc\<close> stops the machine when memory is out, so the code's test for NULL never fires.\<close>

definition alloc_range :: "range_pool \<Rightarrow> range_pool option" where
  "alloc_range pool =
     (case free_list pool of
        _ # rest \<Rightarrow> Some (pool\<lparr>free_list := rest\<rparr>)
      | [] \<Rightarrow> (case malloc sizeof_range_entry (range_heap pool) of
           None \<Rightarrow> None
         | Some (_, h) \<Rightarrow> Some (pool\<lparr>range_heap := h\<rparr>)))"

definition new_entry ::
  "resource_t \<Rightarrow> resource_t \<Rightarrow> u32 \<Rightarrow> range_pool \<Rightarrow> (range_entry \<times> range_pool) option" where
  "new_entry b e tag pool =
     do { pool \<leftarrow> alloc_range pool; Some (\<lparr>re_begin = b, re_end = e, re_tag = tag\<rparr>, pool) }"

section \<open>The operations\<close>

text \<open>\<open>merge_loop prev rest\<close> is the loop of \<^verbatim>\<open>merge_neighbor_entries\<close> at \<^verbatim>\<open>cur\<close>, the head of \<open>rest\<close>.\<close>

fun merge_loop :: "range_entry \<Rightarrow> memranges \<Rightarrow> range_pool \<Rightarrow> memranges \<times> range_pool" where
  "merge_loop prev [] pool = ([prev], pool)"
| "merge_loop prev (cur # rest) pool =
     (if re_begin cur \<le> re_end prev + 1 \<and> re_tag prev = re_tag cur
      then merge_loop (prev\<lparr>re_end := re_end cur\<rparr>) rest (range_entry_free cur pool)
      else let (rest', pool') = merge_loop cur rest pool in (prev # rest', pool'))"

fun merge_neighbor_entries :: "memranges \<Rightarrow> range_pool \<Rightarrow> memranges \<times> range_pool" where
  "merge_neighbor_entries [] pool = ([], pool)"
| "merge_neighbor_entries (prev # rest) pool = merge_loop prev rest pool"

fun remove_memranges ::
  "resource_t \<Rightarrow> resource_t \<Rightarrow> memranges \<Rightarrow> range_pool \<Rightarrow> (memranges \<times> range_pool) option" where
  "remove_memranges b e [] pool = Some ([], pool)"
| "remove_memranges b e (cur # rest) pool =
     (if e < re_begin cur then Some (cur # rest, pool)
      else if re_end cur < b then do {
        (rest, pool) \<leftarrow> remove_memranges b e rest pool;
        Some (cur # rest, pool)
      }
      else if b \<le> re_begin cur \<and> re_end cur \<le> e then
        remove_memranges (re_end cur + 1) e rest (range_entry_free cur pool)
      else
        let b = (if b \<le> re_begin cur then re_begin cur else b);
            tmp_end = (if re_end cur < e then re_end cur else e)
        in if re_begin cur < b \<and> tmp_end < re_end cur then do {
             (new, pool) \<leftarrow> new_entry (e + 1) (re_end cur) (re_tag cur) pool;
             Some (cur\<lparr>re_end := b - 1\<rparr> # new # rest, pool)
           }
           else
             let cur = (if b = re_begin cur then cur\<lparr>re_begin := tmp_end + 1\<rparr> else cur);
                 cur = (if tmp_end = re_end cur then cur\<lparr>re_end := b - 1\<rparr> else cur)
             in do {
               (rest, pool) \<leftarrow> remove_memranges b e rest pool;
               Some (cur # rest, pool)
             })"

text \<open>The search for the place of a new entry stops at the first entry that starts after its end.\<close>

fun insert_entry ::
  "resource_t \<Rightarrow> resource_t \<Rightarrow> u32 \<Rightarrow> memranges \<Rightarrow> range_pool \<Rightarrow> (memranges \<times> range_pool) option" where
  "insert_entry b e tag [] pool =
     do { (new, pool) \<leftarrow> new_entry b e tag pool; Some ([new], pool) }"
| "insert_entry b e tag (cur # rest) pool =
     (if e < re_begin cur
      then do { (new, pool) \<leftarrow> new_entry b e tag pool; Some (new # cur # rest, pool) }
      else do { (rest, pool) \<leftarrow> insert_entry b e tag rest pool; Some (cur # rest, pool) })"

definition merge_add_memranges ::
  "resource_t \<Rightarrow> resource_t \<Rightarrow> u32 \<Rightarrow> memranges \<Rightarrow> range_pool \<Rightarrow> (memranges \<times> range_pool) option" where
  "merge_add_memranges b e tag ranges pool =
     do {
       (ranges, pool) \<leftarrow> remove_memranges b e ranges pool;
       (ranges, pool) \<leftarrow> insert_entry b e tag ranges pool;
       Some (merge_neighbor_entries ranges pool)
     }"

definition memranges_update_tag ::
  "u32 \<Rightarrow> u32 \<Rightarrow> memranges \<Rightarrow> range_pool \<Rightarrow> memranges \<times> range_pool" where
  "memranges_update_tag old_tag new_tag ranges pool =
     merge_neighbor_entries
       (map (\<lambda>r. if re_tag r = old_tag then range_entry_update_tag r new_tag else r) ranges) pool"

text \<open>Addresses are aligned to 4096 bytes, the begin address down and the end address up.\<close>

definition do_action ::
  "resource_t \<Rightarrow> resource_t \<Rightarrow> (resource_t \<Rightarrow> resource_t \<Rightarrow> memranges \<Rightarrow> range_pool \<Rightarrow> 'r)
    \<Rightarrow> memranges \<Rightarrow> range_pool \<Rightarrow> 'r" where
  "do_action base sz action ranges pool =
     (let b = ALIGN_DOWN base 4096;
          e = b + sz + (base - b);
          e = ALIGN_UP e 4096 - 1
      in action b e ranges pool)"

definition memranges_create_hole ::
  "resource_t \<Rightarrow> resource_t \<Rightarrow> memranges \<Rightarrow> range_pool \<Rightarrow> (memranges \<times> range_pool) option" where
  "memranges_create_hole base sz = do_action base sz remove_memranges"

definition memranges_insert ::
  "resource_t \<Rightarrow> resource_t \<Rightarrow> u32 \<Rightarrow> memranges \<Rightarrow> range_pool \<Rightarrow> (memranges \<times> range_pool) option" where
  "memranges_insert base sz tag = do_action base sz (\<lambda>b e. merge_add_memranges b e tag)"

type_synonym memrange_filter = "devtree \<Rightarrow> dev_id \<Rightarrow> resource \<Rightarrow> bool"

definition collect_ranges ::
  "devtree \<Rightarrow> u32 \<Rightarrow> memrange_filter option \<Rightarrow> dev_id \<Rightarrow> resource
    \<Rightarrow> memranges \<times> range_pool \<Rightarrow> (memranges \<times> range_pool) option" where
  "collect_ranges t tag flt d res = (\<lambda>(ranges, pool).
     if res_size res = 0 then Some (ranges, pool)
     else if (case flt of None \<Rightarrow> True | Some f \<Rightarrow> f t d res)
     then memranges_insert (res_base res) (res_size res) tag ranges pool
     else Some (ranges, pool))"

definition memranges_add_resources_filter ::
  "devtree \<Rightarrow> u32 \<Rightarrow> u32 \<Rightarrow> u32 \<Rightarrow> memrange_filter option \<Rightarrow> memranges \<Rightarrow> range_pool
    \<Rightarrow> (memranges \<times> range_pool) option" where
  "memranges_add_resources_filter t type_mask match tag flt ranges pool =
     search_global_resources t (type_mask OR IORESOURCE_MEM) (match OR IORESOURCE_MEM)
       (collect_ranges t tag flt) (ranges, pool)"

definition memranges_add_resources ::
  "devtree \<Rightarrow> u32 \<Rightarrow> u32 \<Rightarrow> u32 \<Rightarrow> memranges \<Rightarrow> range_pool \<Rightarrow> (memranges \<times> range_pool) option" where
  "memranges_add_resources t type_mask match tag =
     memranges_add_resources_filter t type_mask match tag None"

definition memranges_init ::
  "devtree \<Rightarrow> u32 \<Rightarrow> u32 \<Rightarrow> u32 \<Rightarrow> range_pool \<Rightarrow> (memranges \<times> range_pool) option" where
  "memranges_init t type_mask match tag pool = memranges_add_resources t type_mask match tag [] pool"

definition memranges_teardown :: "memranges \<Rightarrow> range_pool \<Rightarrow> memranges \<times> range_pool" where
  "memranges_teardown ranges pool = ([], fold range_entry_free ranges pool)"

text \<open>
  \<open>fill_loop limit tag prev rest\<close> is the loop of \<^verbatim>\<open>memranges_fill_holes_up_to\<close> at the head of
  \<open>rest\<close>; the entry that covers the space up to the limit goes after the last \<^verbatim>\<open>prev\<close>.
\<close>

definition fill_tail ::
  "resource_t \<Rightarrow> u32 \<Rightarrow> range_entry \<Rightarrow> memranges \<Rightarrow> range_pool \<Rightarrow> (memranges \<times> range_pool) option" where
  "fill_tail limit tag prev rest pool =
     (if range_entry_end prev < limit then do {
        (new, pool) \<leftarrow> new_entry (range_entry_end prev) (limit - 1) tag pool;
        Some (prev # new # rest, pool)
      } else Some (prev # rest, pool))"

fun fill_loop ::
  "resource_t \<Rightarrow> u32 \<Rightarrow> range_entry \<Rightarrow> memranges \<Rightarrow> range_pool \<Rightarrow> (memranges \<times> range_pool) option" where
  "fill_loop limit tag prev [] pool = fill_tail limit tag prev [] pool"
| "fill_loop limit tag prev (cur # rest) pool =
     do {
       (gap, pool) \<leftarrow>
         (if range_entry_end prev \<noteq> re_begin cur then
            let e = re_begin cur - 1;
                e = (if limit \<le> e then limit - 1 else e)
            in do { (new, pool) \<leftarrow> new_entry (range_entry_end prev) e tag pool; Some ([new], pool) }
          else Some ([], pool));
       (rest, pool) \<leftarrow>
         (if limit \<le> re_begin cur then fill_tail limit tag cur rest pool
          else fill_loop limit tag cur rest pool);
       Some (prev # gap @ rest, pool)
     }"

definition memranges_fill_holes_up_to ::
  "resource_t \<Rightarrow> u32 \<Rightarrow> memranges \<Rightarrow> range_pool \<Rightarrow> (memranges \<times> range_pool) option" where
  "memranges_fill_holes_up_to limit tag ranges pool =
     do {
       (ranges, pool) \<leftarrow> (case ranges of [] \<Rightarrow> Some ([], pool)
                         | first # rest \<Rightarrow> fill_loop limit tag first rest pool);
       Some (merge_neighbor_entries ranges pool)
     }"

definition memranges_next_entry :: "memranges \<Rightarrow> nat \<Rightarrow> nat option" where
  "memranges_next_entry ranges i = (if Suc i < length ranges then Some (Suc i) else None)"

section \<open>What a list of ranges means\<close>

text \<open>
  The abstract value of a list of ranges is the tag of every address, if any.  A list is
  well formed when its entries are proper, in order and disjoint.
\<close>

fun tag_at :: "memranges \<Rightarrow> resource_t \<Rightarrow> u32 option" where
  "tag_at [] a = None"
| "tag_at (r # rs) a = (if re_begin r \<le> a \<and> a \<le> re_end r then Some (re_tag r) else tag_at rs a)"

definition all_above :: "resource_t \<Rightarrow> memranges \<Rightarrow> bool" where
  "all_above c rs \<longleftrightarrow> (\<forall>x \<in> set rs. c < re_begin x)"

fun wf_ranges :: "memranges \<Rightarrow> bool" where
  "wf_ranges [] = True"
| "wf_ranges (r # rs) = (re_begin r \<le> re_end r \<and> all_above (re_end r) rs \<and> wf_ranges rs)"

fun merged :: "memranges \<Rightarrow> bool" where
  "merged (x # y # rs) = (\<not> (re_begin y \<le> re_end x + 1 \<and> re_tag x = re_tag y) \<and> merged (y # rs))"
| "merged _ = True"

lemma all_above_simps [simp]:
  "all_above c []"
  "all_above c (r # rs) \<longleftrightarrow> c < re_begin r \<and> all_above c rs"
  by (auto simp: all_above_def)

lemma all_above_trans: "all_above d rs \<Longrightarrow> c \<le> d \<Longrightarrow> all_above c rs"
  by (induction rs) auto

lemma tag_at_below [simp]: "all_above c rs \<Longrightarrow> a \<le> c \<Longrightarrow> tag_at rs a = None"
  by (induction rs) auto

lemma new_entry_SomeD: "new_entry b e tag pool = Some (r, pool') \<Longrightarrow> r = \<lparr>re_begin = b, re_end = e, re_tag = tag\<rparr>"
  by (auto simp: new_entry_def)

text \<open>The removal's case distinction: one equation per way the range and the first entry overlap.\<close>

lemma remove_memranges_Cons:
  "e < re_begin cur \<Longrightarrow> remove_memranges b e (cur # rest) pool = Some (cur # rest, pool)"
  "re_begin cur \<le> e \<Longrightarrow> re_end cur < b \<Longrightarrow> remove_memranges b e (cur # rest) pool =
     do { (rest, pool) \<leftarrow> remove_memranges b e rest pool; Some (cur # rest, pool) }"
  "re_begin cur \<le> e \<Longrightarrow> b \<le> re_begin cur \<Longrightarrow> re_end cur \<le> e \<Longrightarrow> re_begin cur \<le> re_end cur \<Longrightarrow>
     remove_memranges b e (cur # rest) pool =
       remove_memranges (re_end cur + 1) e rest (range_entry_free cur pool)"
  "re_begin cur \<le> e \<Longrightarrow> re_begin cur < b \<Longrightarrow> b \<le> re_end cur \<Longrightarrow> e < re_end cur \<Longrightarrow>
     remove_memranges b e (cur # rest) pool =
       do { (new, pool) \<leftarrow> new_entry (e + 1) (re_end cur) (re_tag cur) pool;
            Some (cur\<lparr>re_end := b - 1\<rparr> # new # rest, pool) }"
  "re_begin cur \<le> e \<Longrightarrow> b \<le> re_begin cur \<Longrightarrow> e < re_end cur \<Longrightarrow> remove_memranges b e (cur # rest) pool =
     do { (rest, pool) \<leftarrow> remove_memranges (re_begin cur) e rest pool;
          Some (cur\<lparr>re_begin := e + 1\<rparr> # rest, pool) }"
  "re_begin cur < b \<Longrightarrow> b \<le> re_end cur \<Longrightarrow> re_end cur \<le> e \<Longrightarrow> remove_memranges b e (cur # rest) pool =
     do { (rest, pool) \<leftarrow> remove_memranges b e rest pool;
          Some (cur\<lparr>re_end := b - 1\<rparr> # rest, pool) }"
  by (auto simp: Let_def not_less not_le dest: leD)

lemma remove_memranges_spec:
  assumes "remove_memranges b e rs pool = Some (rs', pool')" and "wf_ranges rs"
    and "b \<le> e \<or> all_above e rs"
  shows "wf_ranges rs' \<and> (\<forall>c. all_above c rs \<longrightarrow> all_above c rs')
    \<and> (\<forall>a. tag_at rs' a = (if b \<le> a \<and> a \<le> e then None else tag_at rs a))"
  using assms
proof (induction rs arbitrary: b pool rs' pool')
  case Nil
  then show ?case by auto
next
  case (Cons cur rest)
  from Cons.prems(2) have cur: "re_begin cur \<le> re_end cur" and above: "all_above (re_end cur) rest"
    and wf: "wf_ranges rest" by simp_all
  consider (before) "e < re_begin cur" | (after) "re_begin cur \<le> e" "re_end cur < b"
    | (full) "re_begin cur \<le> e" "b \<le> re_begin cur" "re_end cur \<le> e"
    | (hole) "re_begin cur < b" "b \<le> re_end cur" "e < re_end cur" "re_begin cur \<le> e"
    | (head) "re_begin cur \<le> e" "b \<le> re_begin cur" "e < re_end cur"
    | (tail) "re_begin cur < b" "b \<le> re_end cur" "re_end cur \<le> e"
    using leI by blast
  then show ?case
  proof cases
    case before
    with Cons.prems have "rs' = cur # rest" by (simp add: remove_memranges_Cons(1))
    with Cons.prems before cur above show ?thesis
      by (auto intro: all_above_trans)
  next
    case after
    with Cons.prems(1) obtain rest' where rec: "remove_memranges b e rest pool = Some (rest', pool')"
      and rs': "rs' = cur # rest'" by (auto simp only: remove_memranges_Cons(2) bind_Some_iff split: prod.splits)
    have "b \<le> e \<or> all_above e rest" using Cons.prems(3) after by auto
    note IH = Cons.IH [OF rec wf this]
    show ?thesis using IH cur above after by (auto simp: rs')
  next
    case full
    with Cons.prems(1) cur
    have rec: "remove_memranges (re_end cur + 1) e rest (range_entry_free cur pool) = Some (rs', pool')"
      by (simp only: remove_memranges_Cons(3))
    have "re_end cur + 1 \<le> e \<or> all_above e rest"
      using full above by (metis inc_le order.not_eq_order_implies_strict)
    note IH = Cons.IH [OF rec wf this]
    have "tag_at rs' a = (if b \<le> a \<and> a \<le> e then None else tag_at (cur # rest) a)" for a
    proof (cases "a \<le> re_end cur")
      case True
      then have "tag_at rest a = None" using above by simp
      then show ?thesis using True full IH by auto
    next
      case False
      then have "re_end cur + 1 \<le> a" by (simp add: inc_le not_le)
      then show ?thesis using False full cur IH by auto
    qed
    then show ?thesis using IH by (simp add: all_above_def)
  next
    case hole
    from hole obtain new where new: "new_entry (e + 1) (re_end cur) (re_tag cur) pool = Some (new, pool')"
      and rs': "rs' = cur\<lparr>re_end := b - 1\<rparr> # new # rest"
      using Cons.prems(1) by (auto simp only: remove_memranges_Cons(4) bind_Some_iff split: prod.splits)
    note new = new_entry_SomeD [OF new]
    have be: "b \<le> e" using Cons.prems(3) hole by auto
    note le = word_le_minus_one [OF hole(1)] word_plus_one_le_iff [OF hole(3)]
    have b1: "b - 1 < e + 1"
      using be hole(1,3) word_gt_0 [of b]
      by (auto simp: word_less_nat_alt word_le_nat_alt unat_plus_one [OF hole(3)] unat_minus_one_pos)
    have e1: "e + 1 \<le> re_end cur" using hole(3) by (rule inc_le)
    have b2: "re_begin cur \<le> b - 1" using hole(1) by (simp add: le)
    have "wf_ranges rs'"
      using b1 b2 e1 above wf by (auto simp: rs' new intro: all_above_trans)
    moreover have "all_above c rs'" if "all_above c (cur # rest)" for c
      using that order.strict_trans1 [OF b2 b1] by (auto simp: rs' new)
    moreover have "tag_at rs' a = (if b \<le> a \<and> a \<le> e then None else tag_at (cur # rest) a)" for a
    proof -
      consider "a < b" | "b \<le> a" "a \<le> e" | "e < a" by (meson not_le)
      moreover have "tag_at rest a = None" if "a \<le> e"
        using tag_at_below [OF above] that hole(3) by (meson order.strict_implies_order order.trans)
      ultimately show ?thesis using hole be by cases (auto simp: rs' new le)
    qed
    ultimately show ?thesis by blast
  next
    case head
    then obtain rest' where rec: "remove_memranges (re_begin cur) e rest pool = Some (rest', pool')"
      and rs': "rs' = cur\<lparr>re_begin := e + 1\<rparr> # rest'"
      using Cons.prems(1) by (auto simp only: remove_memranges_Cons(5) bind_Some_iff split: prod.splits)
    have "re_begin cur \<le> e \<or> all_above e rest" using head by simp
    note IH = Cons.IH [OF rec wf this]
    have e1: "e + 1 \<le> re_end cur" using head(3) by (rule inc_le)
    have e2: "re_begin cur < e + 1" using head by (simp add: word_plus_one_le_iff flip: not_le)
    have "tag_at rs' a = (if b \<le> a \<and> a \<le> e then None else tag_at (cur # rest) a)" for a
    proof (cases "a \<le> re_end cur")
      case True
      then have "tag_at rest a = None" "tag_at rest' a = None" using above IH by simp_all
      then show ?thesis using True head by (auto simp: rs' word_plus_one_le_iff)
    next
      case False
      then show ?thesis using head cur IH by (auto simp: rs')
    qed
    then show ?thesis using IH above e1 e2 by (auto simp: rs')
  next
    case tail
    then obtain rest' where rec: "remove_memranges b e rest pool = Some (rest', pool')"
      and rs': "rs' = cur\<lparr>re_end := b - 1\<rparr> # rest'"
      using Cons.prems(1) by (auto simp only: remove_memranges_Cons(6) bind_Some_iff split: prod.splits)
    have "b \<le> e" using tail by auto
    then have "b \<le> e \<or> all_above e rest" by simp
    note IH = Cons.IH [OF rec wf this]
    note le = word_le_minus_one [OF tail(1)]
    have "unat (b - 1) = unat b - 1"
      using le_less_trans [OF word_zero_le tail(1)] by (rule unat_minus_one_pos)
    then have b1: "b - 1 \<le> re_end cur" and b2: "re_begin cur \<le> b - 1"
      using tail by (simp_all add: le) (simp add: word_le_nat_alt)
    have "tag_at rs' a = (if b \<le> a \<and> a \<le> e then None else tag_at (cur # rest) a)" for a
    proof -
      consider "a < b" | "b \<le> a" "a \<le> re_end cur" | "re_end cur < a" by (meson not_le)
      then show ?thesis
      proof cases
        case 1
        then show ?thesis using tail IH above by (auto simp: rs' le)
      next
        case 2
        then have "tag_at rest' a = None" "a \<le> e"
          using IH above tail(3) by (auto intro: order.trans)
        then show ?thesis using 2 tail by (auto simp: rs' le)
      next
        case 3
        then show ?thesis using tail IH by (auto simp: rs' le)
      qed
    qed
    then show ?thesis using IH above b1 b2 by (auto simp: rs' intro: all_above_trans)
  qed
qed


lemma merge_loop_spec:
  assumes "merge_loop prev rest pool = (rs', pool')" and "wf_ranges (prev # rest)"
  shows "wf_ranges rs' \<and> merged rs' \<and> tag_at rs' = tag_at (prev # rest)
    \<and> (\<exists>r rs''. rs' = r # rs'' \<and> re_begin r = re_begin prev \<and> re_tag r = re_tag prev)
    \<and> (\<forall>c. all_above c (prev # rest) \<longrightarrow> all_above c rs')"
  using assms
proof (induction prev rest pool arbitrary: rs' pool' rule: merge_loop.induct)
  case (1 prev pool)
  then show ?case by auto
next
  case (2 prev cur rest pool)
  have wf: "re_begin prev \<le> re_end prev" "re_end prev < re_begin cur" "re_begin cur \<le> re_end cur"
    "all_above (re_end cur) rest" "wf_ranges rest" "all_above (re_end prev) rest"
    using "2.prems"(2) by auto
  show ?case
  proof (cases "re_begin cur \<le> re_end prev + 1 \<and> re_tag prev = re_tag cur")
    case True
    let ?prev = "prev\<lparr>re_end := re_end cur\<rparr>"
    have adj: "re_begin cur = re_end prev + 1"
      using True wf(2) by (simp add: inc_le antisym)
    have wf': "wf_ranges (?prev # rest)" using wf by auto
    have "merge_loop ?prev rest (range_entry_free cur pool) = (rs', pool')"
      using True "2.prems"(1) by simp
    note IH = "2.IH"(1) [OF True this wf']
    have "tag_at (?prev # rest) a = tag_at (prev # cur # rest) a" for a
      using True wf word_plus_one_le_iff [OF wf(2), of a] by (auto simp: adj)
    with IH show ?thesis by auto
  next
    case False
    then obtain rest' where rec: "merge_loop cur rest pool = (rest', pool')" and rs': "rs' = prev # rest'"
      using "2.prems"(1) by (auto split: prod.splits)
    have wf': "wf_ranges (cur # rest)" using wf by simp
    note IH = "2.IH"(2) [OF False rec wf']
    then obtain r rs'' where r: "rest' = r # rs''" "re_begin r = re_begin cur" "re_tag r = re_tag cur" by blast
    have "merged rs'" using IH False by (auto simp: rs' r)
    moreover have "wf_ranges rs'" using IH wf by (auto simp: rs')
    moreover have "tag_at rs' = tag_at (prev # cur # rest)" using IH by (auto simp: rs' fun_eq_iff)
    moreover have "all_above c rs'" if "all_above c (prev # cur # rest)" for c
      using that IH by (auto simp: rs')
    ultimately show ?thesis by (auto simp: rs')
  qed
qed

lemma merge_neighbor_entries_spec:
  assumes "merge_neighbor_entries rs pool = (rs', pool')" and "wf_ranges rs"
  shows "wf_ranges rs' \<and> merged rs' \<and> tag_at rs' = tag_at rs"
proof (cases rs)
  case (Cons prev rest)
  then show ?thesis using assms merge_loop_spec [of prev rest pool rs' pool'] by simp
qed (use assms in simp)

lemma insert_entry_spec:
  assumes "insert_entry b e tag rs pool = Some (rs', pool')" and "wf_ranges rs" and "b \<le> e"
    and "\<And>a. b \<le> a \<Longrightarrow> a \<le> e \<Longrightarrow> tag_at rs a = None"
  shows "wf_ranges rs' \<and> (\<forall>c. c < b \<and> all_above c rs \<longrightarrow> all_above c rs')
    \<and> (\<forall>a. tag_at rs' a = (if b \<le> a \<and> a \<le> e then Some tag else tag_at rs a))"
  using assms
proof (induction rs arbitrary: pool rs' pool')
  case Nil
  then show ?case by (auto simp: new_entry_def)
next
  case (Cons cur rest)
  have wf: "re_begin cur \<le> re_end cur" "all_above (re_end cur) rest" "wf_ranges rest"
    using Cons.prems(2) by simp_all
  show ?case
  proof (cases "e < re_begin cur")
    case True
    then have "rs' = \<lparr>re_begin = b, re_end = e, re_tag = tag\<rparr> # cur # rest"
      using Cons.prems(1) by (auto simp: new_entry_def)
    then show ?thesis using True wf Cons.prems(3) by (auto intro: all_above_trans)
  next
    case False
    then obtain rest' where rec: "insert_entry b e tag rest pool = Some (rest', pool')" and rs': "rs' = cur # rest'"
      using Cons.prems(1) by auto
    have "\<not> (b \<le> max b (re_begin cur) \<and> max b (re_begin cur) \<le> e \<and> max b (re_begin cur) \<le> re_end cur)"
      using Cons.prems(4) [of "max b (re_begin cur)"] by auto
    then have lt: "re_end cur < b" using False Cons.prems(3) wf(1) by (auto simp: max_def split: if_splits)
    have "tag_at rest a = None" if "b \<le> a" "a \<le> e" for a
      using Cons.prems(4) [OF that] by (auto split: if_splits)
    note IH = Cons.IH [OF rec wf(3) Cons.prems(3) this]
    show ?thesis using IH wf lt by (auto simp: rs')
  qed
qed

lemma merge_add_memranges_spec:
  assumes "merge_add_memranges b e tag rs pool = Some (rs', pool')" and "wf_ranges rs" and "b \<le> e"
  shows "wf_ranges rs' \<and> merged rs' \<and>
    tag_at rs' = (\<lambda>a. if b \<le> a \<and> a \<le> e then Some tag else tag_at rs a)"
proof -
  from assms(1) obtain r1 p1 r2 p2 where rem: "remove_memranges b e rs pool = Some (r1, p1)"
    and ins: "insert_entry b e tag r1 p1 = Some (r2, p2)" and mer: "merge_neighbor_entries r2 p2 = (rs', pool')"
    by (auto simp: merge_add_memranges_def)
  have one: "wf_ranges r1 \<and> (\<forall>a. tag_at r1 a = (if b \<le> a \<and> a \<le> e then None else tag_at rs a))"
    using remove_memranges_spec [OF rem assms(2)] assms(3) by blast
  then have two: "wf_ranges r2 \<and> (\<forall>a. tag_at r2 a = (if b \<le> a \<and> a \<le> e then Some tag else tag_at r1 a))"
    using insert_entry_spec [OF ins _ assms(3)] by auto
  then show ?thesis
    using merge_neighbor_entries_spec [OF mer] one by (auto simp: fun_eq_iff)
qed

section \<open>Page rounding\<close>

text \<open>An address is covered by a region when its 4 KiB page meets the region.\<close>

definition covers :: "resource_t \<Rightarrow> resource_t \<Rightarrow> resource_t \<Rightarrow> bool" where
  "covers base sz a \<longleftrightarrow> unat base div 4096 \<le> unat a div 4096 \<and> unat a div 4096 * 4096 < unat base + unat sz"

definition region_ok :: "resource_t \<Rightarrow> resource_t \<Rightarrow> bool" where
  "region_ok base sz \<longleftrightarrow> 0 < sz \<and> unat base + unat sz \<le> 2 ^ 64"

lemma mod_div_last_page:
  fixes x :: nat
  assumes "x \<le> 2 ^ 64" and "0 < x"
  shows "(x + 4095) mod 2 ^ 64 div 4096 * 4096 = (x + 4095) div 4096 * 4096 mod 2 ^ 64"
proof (cases "x + 4095 < 2 ^ 64")
  case True
  have "(x + 4095) div 4096 * 4096 \<le> x + 4095" by simp
  with True show ?thesis by simp
next
  case False
  have "(x + 4095) mod 2 ^ 64 = x + 4095 - 2 ^ 64"
    using False assms by (simp add: mod_if)
  moreover have "x + 4095 - 2 ^ 64 < 4096" using False assms by simp
  moreover have "(x + 4095) div 4096 = 2 ^ 52"
    using False assms by (intro div_nat_eqI) simp_all
  ultimately show ?thesis by simp
qed

lemma page_step: "Suc q * 4096 \<le> s + 4095 \<longleftrightarrow> q * 4096 < (s::nat)"
  by auto

lemma do_action_range:
  assumes "region_ok base sz"
  defines "b \<equiv> ALIGN_DOWN base 4096"
  defines "e \<equiv> ALIGN_UP (b + sz + (base - b)) 4096 - 1"
  shows "b \<le> e" and "b \<le> a \<and> a \<le> e \<longleftrightarrow> covers base sz a"
proof -
  let ?S = "unat base + unat sz"
  let ?C = "(?S + 4095) div 4096 * 4096"
  have S: "0 < unat sz" "?S \<le> 2 ^ 64"
    using assms(1) by (auto simp: region_ok_def word_less_nat_alt)
  have b: "unat b = unat base div 4096 * 4096"
    using unat_ALIGN_DOWN [of base 12] by (simp add: b_def)
  have X: "b + sz + (base - b) = base + sz" by simp
  have "unat (base + sz + 4095) = (?S + 4095) mod 2 ^ 64"
    by (simp add: unat_word_ariths mod_simps)
  then have "unat (ALIGN_UP (base + sz) 4096) = ?C mod 2 ^ LENGTH(64)"
    using unat_ALIGN_UP [of "base + sz" 12] mod_div_last_page [of ?S] S by simp
  then have "unat (ALIGN_UP (base + sz) 4096) = unat (of_nat ?C :: resource_t)"
    by (rule trans [OF _ unat_of_nat [symmetric]])
  then have "ALIGN_UP (b + sz + (base - b)) 4096 = of_nat ?C"
    unfolding X by (rule word_unat_eq_iff [THEN iffD2])
  moreover have C: "0 < ?C" "?C \<le> 2 ^ 64" "?S \<le> ?C" "?C < ?S + 4096"
  proof -
    show "?S \<le> ?C" "?C < ?S + 4096" using ceil_div_mult_less [of 4096 ?S] by simp_all
    then show "0 < ?C" using S by linarith
    have "(?S + 4095) div 4096 \<le> (2 ^ 64 + 4095) div 4096" using S by (intro div_le_mono) simp
    then show "?C \<le> 2 ^ 64" by simp
  qed
  ultimately have "e = of_nat (?C - 1)"
    unfolding e_def by (simp only: of_nat_diff) simp
  then have "unat e = (?C - 1) mod 2 ^ LENGTH(64)"
    by (simp only: unat_of_nat)
  then have e: "unat e = ?C - 1"
  proof (rule trans)
    have "?C - 1 < 2 ^ LENGTH(64)" using C(1,2) by simp
    then show "(?C - 1) mod 2 ^ LENGTH(64) = ?C - 1" by (rule mod_less)
  qed
  have "unat b \<le> unat base" by (simp add: b)
  then show "b \<le> e" using S C unfolding word_le_nat_alt e by linarith
  have "unat base div 4096 * 4096 \<le> unat a \<longleftrightarrow> unat base div 4096 \<le> unat a div 4096"
    by (simp add: less_eq_div_iff_mult_less_eq)
  moreover have "unat a \<le> ?C - 1 \<longleftrightarrow> unat a div 4096 * 4096 < ?S"
  proof -
    have "unat a \<le> ?C - 1 \<longleftrightarrow> unat a < (?S + 4095) div 4096 * 4096" using C by linarith
    also have "\<dots> \<longleftrightarrow> unat a div 4096 < (?S + 4095) div 4096"
      by (simp add: div_less_iff_less_mult)
    also have "\<dots> \<longleftrightarrow> Suc (unat a div 4096) * 4096 \<le> ?S + 4095"
      unfolding Suc_le_eq [symmetric] by (rule less_eq_div_iff_mult_less_eq) simp
    also have "\<dots> \<longleftrightarrow> unat a div 4096 * 4096 < ?S" by (rule page_step)
    finally show ?thesis .
  qed
  ultimately show "b \<le> a \<and> a \<le> e \<longleftrightarrow> covers base sz a"
    by (simp only: word_le_nat_alt b e covers_def)
qed

lemma memranges_insert_spec:
  assumes "memranges_insert base sz tag rs pool = Some (rs', pool')" and "wf_ranges rs" and "region_ok base sz"
  shows "wf_ranges rs' \<and> merged rs' \<and> tag_at rs' = (\<lambda>a. if covers base sz a then Some tag else tag_at rs a)"
  using merge_add_memranges_spec [OF assms(1) [unfolded memranges_insert_def do_action_def Let_def] assms(2)
      do_action_range(1) [OF assms(3)]]
  by (simp only: do_action_range(2) [OF assms(3)])

lemma memranges_create_hole_spec:
  assumes "memranges_create_hole base sz rs pool = Some (rs', pool')" and "wf_ranges rs" and "region_ok base sz"
  shows "wf_ranges rs' \<and> tag_at rs' = (\<lambda>a. if covers base sz a then None else tag_at rs a)"
  using remove_memranges_spec [OF assms(1) [unfolded memranges_create_hole_def do_action_def Let_def] assms(2)]
    do_action_range(1) [OF assms(3)]
  by (auto simp only: do_action_range(2) [OF assms(3)] fun_eq_iff)

lemma tag_at_map_tag:
  assumes "\<And>r. re_begin (f r) = re_begin r \<and> re_end (f r) = re_end r \<and> re_tag (f r) = g (re_tag r)"
  shows "tag_at (map f rs) a = map_option g (tag_at rs a)"
  using assms by (induction rs) auto

lemma all_above_map: "(\<And>r. re_begin (f r) = re_begin r) \<Longrightarrow> all_above c (map f rs) = all_above c rs"
  by (simp add: all_above_def)

lemma wf_ranges_map:
  assumes "\<And>r. re_begin (f r) = re_begin r \<and> re_end (f r) = re_end r"
  shows "wf_ranges (map f rs) = wf_ranges rs"
  using assms by (induction rs) (simp_all add: all_above_map)

lemma memranges_update_tag_spec:
  assumes "memranges_update_tag old new rs pool = (rs', pool')" and "wf_ranges rs"
  shows "wf_ranges rs' \<and> merged rs' \<and>
    tag_at rs' a = map_option (\<lambda>t. if t = old then new else t) (tag_at rs a)"
proof -
  let ?f = "\<lambda>r. if re_tag r = old then range_entry_update_tag r new else r"
  have f: "re_begin (?f r) = re_begin r \<and> re_end (?f r) = re_end r
    \<and> re_tag (?f r) = (if re_tag r = old then new else re_tag r)" for r
    by (simp add: range_entry_update_tag_def)
  have "wf_ranges (map ?f rs)" using wf_ranges_map [of ?f] f assms(2) by blast
  from merge_neighbor_entries_spec [OF assms(1) [unfolded memranges_update_tag_def] this]
  show ?thesis using tag_at_map_tag [of ?f "\<lambda>t. if t = old then new else t" rs a] f by simp
qed

section \<open>Filling the holes\<close>

text \<open>
  The places where the code's hole filling is right: an entry that is followed by a gap
  ends below the limit, and no entry ends at the very top of the 64-bit space (where
  \<^verbatim>\<open>range_entry_end\<close> wraps to 0).
\<close>

fun fill_ok :: "resource_t \<Rightarrow> range_entry \<Rightarrow> memranges \<Rightarrow> bool" where
  "fill_ok limit prev [] = (re_end prev \<noteq> - 1)"
| "fill_ok limit prev (cur # rest) =
     (re_end prev \<noteq> - 1 \<and> re_end cur \<noteq> - 1
      \<and> (re_end prev + 1 < limit \<or> re_end prev + 1 = re_begin cur)
      \<and> (re_begin cur < limit \<longrightarrow> fill_ok limit cur rest))"

definition filled :: "resource_t \<Rightarrow> resource_t \<Rightarrow> u32 \<Rightarrow> u32 option \<Rightarrow> resource_t \<Rightarrow> u32 option" where
  "filled lo limit tag t a =
     (case t of Some t \<Rightarrow> Some t | None \<Rightarrow> if lo < a \<and> a < limit then Some tag else None)"

lemma all_above_hd: "wf_ranges (r # rs) \<Longrightarrow> c < re_begin r \<Longrightarrow> all_above c (r # rs)"
  by (auto intro: all_above_trans order.strict_implies_order)

lemma tag_at_before: "wf_ranges (r # rs) \<Longrightarrow> a < re_begin r \<Longrightarrow> tag_at (r # rs) a = None"
  using all_above_hd [of r rs a] by (blast intro: tag_at_below)

lemma not_max_less: "(x::'a::len word) \<noteq> - 1 \<Longrightarrow> x < x + 1"
  by (metis inc_less_eq_triv_imp not_less word_plus_one_le inc_less_eq_iff)

lemma fill_tail_spec:
  assumes "fill_tail limit tag prev rest pool = Some (rs', pool')" and "wf_ranges (prev # rest)"
    and "re_end prev \<noteq> - 1" and "rest = [] \<or> limit \<le> re_begin prev"
  shows "wf_ranges rs' \<and> (\<exists>rs''. rs' = prev # rs'')
    \<and> (\<forall>a. tag_at rs' a = filled (re_end prev) limit tag (tag_at (prev # rest) a) a)"
proof -
  note lt = not_max_less [OF assms(3)] and pl = word_plus_one_le_iff [OF not_max_less [OF assms(3)]]
  show ?thesis
  proof (cases "range_entry_end prev < limit")
    case True
    then have "0 < limit" by (rule le_less_trans [OF word_zero_le])
    have "re_begin prev \<le> re_end prev" using assms(2) by simp
    then have "\<not> limit \<le> re_begin prev"
      using True lt unfolding range_entry_end_def by auto
    then have rest: "rest = []" using assms(4) by blast
    have rs': "rs' = [prev, \<lparr>re_begin = re_end prev + 1, re_end = limit - 1, re_tag = tag\<rparr>]"
      using assms(1) True rest by (auto simp: fill_tail_def new_entry_def range_entry_end_def)
    have mm: "a \<le> limit - 1 \<longleftrightarrow> a < limit" for a
      using word_le_minus_one [OF \<open>0 < limit\<close>] .
    show ?thesis
      using assms(2) True lt by (auto simp: rs' rest filled_def range_entry_end_def mm pl)
  next
    case False
    then have rs': "rs' = prev # rest"
      using assms(1) by (simp add: fill_tail_def)
    have "limit \<le> re_end prev + 1" using False by (simp add: range_entry_end_def not_less)
    then have "\<not> (re_end prev < a \<and> a < limit)" for a
      using pl [of a] by (meson leD order.strict_trans2)
    then show ?thesis using assms(2) by (auto simp: rs' filled_def split: option.splits)
  qed
qed

lemma fill_loop_spec:
  assumes "fill_loop limit tag prev rest pool = Some (rs', pool')" and "wf_ranges (prev # rest)"
    and "fill_ok limit prev rest"
  shows "wf_ranges rs' \<and> (\<exists>rs''. rs' = prev # rs'')
    \<and> (\<forall>a. tag_at rs' a = filled (re_end prev) limit tag (tag_at (prev # rest) a) a)"
  using assms
proof (induction rest arbitrary: prev pool rs' pool')
  case Nil
  then show ?case using fill_tail_spec [of limit tag prev "[]" pool rs' pool'] by simp
next
  case (Cons cur rest)
  have wf: "re_begin prev \<le> re_end prev" "re_end prev < re_begin cur" "wf_ranges (cur # rest)"
    "re_begin cur \<le> re_end cur" "all_above (re_end cur) rest"
    using Cons.prems(2) by auto
  have ok: "re_end prev \<noteq> - 1" "re_end cur \<noteq> - 1"
    "re_end prev + 1 < limit \<or> re_end prev + 1 = re_begin cur"
    "re_begin cur < limit \<Longrightarrow> fill_ok limit cur rest"
    using Cons.prems(3) by auto
  note pl = word_plus_one_le_iff [OF wf(2)] and ml = word_le_minus_one [OF wf(2)]
  from Cons.prems(1) obtain gap p1 rest' where
    gap: "(if range_entry_end prev \<noteq> re_begin cur then
            let e = re_begin cur - 1; e = (if limit \<le> e then limit - 1 else e)
            in do { (new, pool) \<leftarrow> new_entry (range_entry_end prev) e tag pool; Some ([new], pool) }
          else Some ([], pool)) = Some (gap, p1)"
    and rest': "(if limit \<le> re_begin cur then fill_tail limit tag cur rest p1
          else fill_loop limit tag cur rest p1) = Some (rest', pool')"
    and rs': "rs' = prev # gap @ rest'"
    by auto
  have IH: "wf_ranges rest' \<and> (\<exists>rs''. rest' = cur # rs'')
    \<and> (\<forall>a. tag_at rest' a = filled (re_end cur) limit tag (tag_at (cur # rest) a) a)"
  proof (cases "limit \<le> re_begin cur")
    case True
    then show ?thesis using fill_tail_spec [OF _ wf(3) ok(2)] rest' by simp
  next
    case False
    then have "fill_loop limit tag cur rest p1 = Some (rest', pool')" using rest' by simp
    moreover have "re_begin cur < limit" using False by simp
    ultimately show ?thesis using Cons.IH wf(3) ok(4) by blast
  qed
  then obtain rs'' where r'': "rest' = cur # rs''" by blast
  have above': "all_above (re_end prev) rest'"
    using IH wf(2) unfolding r'' by (blast intro: all_above_hd)
  have low: "tag_at (cur # rest) a = None" "tag_at rest' a = None" if "a \<le> re_end prev" for a
    using that above' Cons.prems(2) by (auto intro: tag_at_below)
  have high: "tag_at rest' a = filled (re_end prev) limit tag (tag_at (prev # cur # rest) a) a"
    if "re_begin cur \<le> a" for a
  proof -
    have "re_end prev < a" using wf(2) that by (rule less_le_trans)
    moreover have "filled (re_end cur) limit tag (tag_at (cur # rest) a) a
        = filled (re_end prev) limit tag (tag_at (cur # rest) a) a"
      using that \<open>re_end prev < a\<close> by (auto simp: filled_def not_le split: option.splits)
    ultimately show ?thesis using IH wf(1) by auto
  qed
  show ?case
  proof (cases "re_end prev + 1 = re_begin cur")
    case True
    then have "rs' = prev # rest'" using gap rs' by (simp add: range_entry_end_def)
    moreover have "tag_at (prev # rest') a = filled (re_end prev) limit tag (tag_at (prev # cur # rest) a) a" for a
    proof (cases "re_begin cur \<le> a")
      case True
      then show ?thesis using high [OF True] wf by auto
    next
      case False
      then have "\<not> re_end prev < a" using pl [of a] \<open>re_end prev + 1 = re_begin cur\<close> by simp
      then have "a \<le> re_end prev" by simp
      then show ?thesis using low [of a] by (auto simp: filled_def)
    qed
    ultimately show ?thesis using IH wf(1) above' by auto
  next
    case False
    then have lim: "re_end prev + 1 < limit" using ok(3) by blast
    have "0 < limit" using lim by (rule le_less_trans [OF word_zero_le])
    define e where "e = (if limit \<le> re_begin cur - 1 then limit - 1 else re_begin cur - 1)"
    have e: "a \<le> e \<longleftrightarrow> a < limit" if "a < re_begin cur" for a
      using that ml [of a] word_le_minus_one [OF \<open>0 < limit\<close>, of a]
      by (auto simp: e_def not_le intro: order.strict_trans2 order.strict_trans1)
    have rs'': "rs' = prev # \<lparr>re_begin = re_end prev + 1, re_end = e, re_tag = tag\<rparr> # rest'"
      using gap rs' False by (auto simp: range_entry_end_def e_def Let_def new_entry_def)
    have step: "re_end prev + 1 < re_begin cur"
      using inc_le [OF wf(2)] False by simp
    then have ge: "re_end prev + 1 \<le> e" using lim e by blast
    have "limit - 1 < limit" using word_le_minus_one [OF \<open>0 < limit\<close>, of "limit - 1"] by simp
    then have lt: "e < re_begin cur"
      using ml [of e] by (auto simp: e_def intro: order.strict_implies_order order.strict_trans2)
    have gap_at: "tag_at rs' a = filled (re_end prev) limit tag (tag_at (prev # cur # rest) a) a" for a
    proof (cases "re_begin cur \<le> a")
      case True
      then have "e < a" "re_end prev < a" using lt wf(2) by (auto intro: order.strict_trans2)
      then show ?thesis using high [OF True] by (auto simp: rs'' not_le)
    next
      case False
      then have "a < re_begin cur" by simp
      note ea = e [OF this]
      have none: "tag_at (cur # rest) a = None" "tag_at rest' a = None"
        using tag_at_before [OF wf(3) \<open>a < re_begin cur\<close>] tag_at_before [of cur rs'' a]
          \<open>a < re_begin cur\<close> IH unfolding r'' by blast+
      then show ?thesis using wf(1) ea pl [of a] by (auto simp: rs'' filled_def)
    qed
    have "wf_ranges rest'" using IH by blast
    moreover have "all_above e rest'"
      using all_above_hd [of cur rs'' e] calculation lt unfolding r'' by blast
    ultimately have "wf_ranges rs'"
      using wf(1) ge above' not_max_less [OF ok(1)] by (simp add: rs'')
    then show ?thesis using gap_at rs'' by blast
  qed
qed


lemma memranges_fill_holes_spec:
  assumes "memranges_fill_holes_up_to limit tag (r # rs) pool = Some (rs', pool')"
    and "wf_ranges (r # rs)" and "fill_ok limit r rs"
  shows "wf_ranges rs' \<and> merged rs'
    \<and> tag_at rs' = (\<lambda>a. filled (re_end r) limit tag (tag_at (r # rs) a) a)"
proof -
  from assms(1) obtain r1 p1 where "fill_loop limit tag r rs pool = Some (r1, p1)"
    and mer: "merge_neighbor_entries r1 p1 = (rs', pool')"
    by (auto simp: memranges_fill_holes_up_to_def)
  from fill_loop_spec [OF this(1) assms(2,3)] merge_neighbor_entries_spec [OF mer]
  show ?thesis by auto
qed

section \<open>Enough memory\<close>

text \<open>\<open>heap_room n\<close>: the heap has room for \<open>n\<close> more entries, each 24 bytes plus alignment.\<close>

definition heap_room :: "nat \<Rightarrow> range_pool \<Rightarrow> bool" where
  "heap_room n pool \<longleftrightarrow>
     unat (free_mem_ptr (range_heap pool)) + 32 * n < unat (free_mem_end_ptr (range_heap pool))
     \<and> unat (free_mem_end_ptr (range_heap pool)) + 32 \<le> 2 ^ 32"

lemma alloc_range_room:
  assumes "heap_room (Suc n) pool"
  shows "\<exists>pool'. alloc_range pool = Some pool' \<and> heap_room n pool'"
proof (cases "free_list pool")
  case (Cons r rest)
  then show ?thesis using assms by (simp add: alloc_range_def heap_room_def)
next
  case Nil
  let ?h = "range_heap pool"
  have ok: "malloc_ok 24 ?h"
    using assms by (simp add: malloc_ok_def heap_room_def word_le_nat_alt)
  show ?thesis
  proof (cases "malloc 24 ?h")
    case (Some ph)
    obtain p h' where ph: "ph = (p, h')" by (cases ph)
    note f = malloc_frontier [OF ok Some [unfolded ph]]
    have "heap_room n (pool\<lparr>range_heap := h'\<rparr>)"
      using assms f by (simp add: heap_room_def)
    then show ?thesis using Nil Some by (simp add: alloc_range_def ph sizeof_range_entry_def)
  next
    case None
    let ?p = "ALIGN_UP (free_mem_ptr ?h) 8"
    have "unat ?p = (unat (free_mem_ptr ?h) + 7) div 8 * 8"
      using unat_ALIGN_UP_no_wrap [of 3 "free_mem_ptr ?h"] assms by (simp add: heap_room_def)
    then have "unat ?p \<le> unat (free_mem_ptr ?h) + 7" by simp
    then have "unat ?p + 24 < unat (free_mem_end_ptr ?h)" "unat (?p + 24) = unat ?p + 24"
      using assms by (auto simp: heap_room_def intro!: unat_add_no_wrap [of ?p 24, simplified])
    then have "\<not> free_mem_end_ptr ?h \<le> ?p + 24" by (simp add: word_le_nat_alt)
    then have False using None by (simp add: malloc_def memalign_def Let_def)
    then show ?thesis ..
  qed
qed

lemma heap_room_mono: "heap_room n pool \<Longrightarrow> m \<le> n \<Longrightarrow> heap_room m pool"
  by (auto simp: heap_room_def)

lemma heap_room_free [simp]: "heap_room n (range_entry_free r pool) = heap_room n pool"
  by (simp add: heap_room_def range_entry_free_def)

lemma new_entry_room:
  "heap_room (Suc n) pool \<Longrightarrow> \<exists>r pool'. new_entry b e tag pool = Some (r, pool') \<and> heap_room n pool'"
  using alloc_range_room [of n pool] by (auto simp: new_entry_def)

lemma remove_memranges_room:
  "heap_room (Suc n) pool \<Longrightarrow> \<exists>rs' pool'. remove_memranges b e rs pool = Some (rs', pool') \<and> heap_room n pool'"
proof (induction rs arbitrary: b pool)
  case Nil
  then show ?case by (auto intro: heap_room_mono)
next
  case (Cons cur rest)
  have room: "heap_room n pool" using Cons.prems by (rule heap_room_mono) simp
  have free: "heap_room (Suc n) (range_entry_free cur pool)" using Cons.prems by simp
  note IH = Cons.IH [OF Cons.prems, of b] Cons.IH [OF Cons.prems, of "re_begin cur"]
    Cons.IH [OF free, of "re_end cur + 1"] new_entry_room [OF Cons.prems, of "e + 1" "re_end cur" "re_tag cur"]
  show ?case
    using IH room by (auto simp: Let_def)
qed

lemma insert_entry_room:
  "heap_room (Suc n) pool \<Longrightarrow> \<exists>rs' pool'. insert_entry b e tag rs pool = Some (rs', pool') \<and> heap_room n pool'"
proof (induction rs arbitrary: pool)
  case Nil
  then show ?case using new_entry_room [OF Nil, of b e tag] by auto
next
  case (Cons cur rest)
  obtain rs' p' where "insert_entry b e tag rest pool = Some (rs', p')" "heap_room n p'"
    using Cons.IH [OF Cons.prems] by blast
  then show ?case using new_entry_room [OF Cons.prems, of b e tag] by auto
qed

lemma merge_loop_room: "heap_room n pool \<Longrightarrow> heap_room n (snd (merge_loop prev rest pool))"
  by (induction prev rest pool rule: merge_loop.induct) (auto split: prod.splits)

lemma merge_neighbor_entries_room: "heap_room n pool \<Longrightarrow> heap_room n (snd (merge_neighbor_entries rs pool))"
  by (cases rs) (auto simp: merge_loop_room)

lemma merge_add_memranges_room:
  assumes "heap_room (Suc (Suc n)) pool"
  shows "\<exists>rs' pool'. merge_add_memranges b e tag rs pool = Some (rs', pool') \<and> heap_room n pool'"
proof -
  obtain r1 p1 where "remove_memranges b e rs pool = Some (r1, p1)" and r: "heap_room (Suc n) p1"
    using remove_memranges_room [OF assms] by blast
  moreover obtain r2 p2 where "insert_entry b e tag r1 p1 = Some (r2, p2)" and "heap_room n p2"
    using insert_entry_room [OF r] by blast
  ultimately show ?thesis
    using merge_neighbor_entries_room [of n p2 r2]
    by (cases "merge_neighbor_entries r2 p2") (simp add: merge_add_memranges_def)
qed

section \<open>The contract of an address map, and its clients\<close>

text \<open>The tag that a sequence of insertions gives an address: that of the last region covering it.\<close>

fun last_tag :: "(resource_t \<times> resource_t \<times> u32) list \<Rightarrow> resource_t \<Rightarrow> u32 option \<Rightarrow> u32 option" where
  "last_tag [] a t = t"
| "last_tag ((base, sz, tag) # regions) a t = last_tag regions a (if covers base sz a then Some tag else t)"

definition regions_ok :: "(resource_t \<times> resource_t \<times> u32) list \<Rightarrow> bool" where
  "regions_ok regions \<longleftrightarrow> list_all (\<lambda>(base, sz, tag). region_ok base sz) regions"

locale address_map =
  fixes insert_region :: "resource_t \<Rightarrow> resource_t \<Rightarrow> u32 \<Rightarrow> 'm \<Rightarrow> 'm option"
    and lookup :: "'m \<Rightarrow> resource_t \<Rightarrow> u32 option"
    and inv :: "'m \<Rightarrow> bool"
  assumes insert_lookup:
      "inv m \<Longrightarrow> region_ok base sz \<Longrightarrow> insert_region base sz tag m = Some m' \<Longrightarrow>
        lookup m' a = (if covers base sz a then Some tag else lookup m a)"
    and insert_inv:
      "inv m \<Longrightarrow> region_ok base sz \<Longrightarrow> insert_region base sz tag m = Some m' \<Longrightarrow> inv m'"
begin

lemma insert_all:
  assumes "fold_opt (\<lambda>(base, sz, tag). insert_region base sz tag) regions m = Some m'"
    and "inv m" and "regions_ok regions"
  shows "inv m' \<and> lookup m' a = last_tag regions a (lookup m a)"
  using assms
proof (induction regions arbitrary: m)
  case Nil
  then show ?case by simp
next
  case (Cons r regions)
  obtain base sz tag where r: "r = (base, sz, tag)" by (cases r)
  with Cons.prems obtain m1 where one: "insert_region base sz tag m = Some m1"
    and rest: "fold_opt (\<lambda>(base, sz, tag). insert_region base sz tag) regions m1 = Some m'"
    by auto
  have ok: "region_ok base sz" "regions_ok regions"
    using Cons.prems(3) by (simp_all add: regions_ok_def r)
  show ?case
    using Cons.IH [OF rest insert_inv [OF Cons.prems(2) ok(1) one] ok(2)]
      insert_lookup [OF Cons.prems(2) ok(1) one, of a]
    by (simp add: r)
qed

end

interpretation mr: address_map "\<lambda>base sz tag (rs, pool). memranges_insert base sz tag rs pool"
  "\<lambda>(rs, pool). tag_at rs" "\<lambda>(rs, pool). wf_ranges rs"
  by unfold_locales (auto dest!: memranges_insert_spec)

section \<open>Collecting the resources of the tree\<close>

text \<open>The regions that a collection inserts, in the order of the devices and of their resources.\<close>

definition wanted :: "devtree \<Rightarrow> u32 \<Rightarrow> u32 \<Rightarrow> memrange_filter option \<Rightarrow> dev_id \<Rightarrow> resource \<Rightarrow> bool" where
  "wanted t type_mask match flt d res \<longleftrightarrow>
     res_flags res AND (type_mask OR IORESOURCE_MEM) = match OR IORESOURCE_MEM
     \<and> res_flags res AND IORESOURCE_SUBTRACTIVE = 0 \<and> res_size res \<noteq> 0
     \<and> (case flt of None \<Rightarrow> True | Some f \<Rightarrow> f t d res)"

definition regions_of :: "devtree \<Rightarrow> u32 \<Rightarrow> u32 \<Rightarrow> u32 \<Rightarrow> memrange_filter option \<Rightarrow> (resource_t \<times> resource_t \<times> u32) list" where
  "regions_of t type_mask match tag flt =
     concat (map (\<lambda>d. map (\<lambda>res. (res_base res, res_size res, tag))
                        (filter (wanted t type_mask match flt d) (d_resource_list (devs t d))))
               (filter (\<lambda>d. d_enabled (devs t d)) (all_devices t)))"

lemma fold_opt_map_filter:
  assumes "\<And>x s. g x s = (if P x then f (h x) s else Some s)"
  shows "fold_opt g xs s = fold_opt f (map h (filter P xs)) s"
proof (induction xs arbitrary: s)
  case (Cons x xs)
  have "fold_opt g xs = fold_opt f (map h (filter P xs))" using Cons.IH by (rule ext)
  then show ?case using assms [of x s] by simp
qed simp

lemma fold_opt_concat:
  assumes "\<And>x s. g x s = (if P x then fold_opt f (h x) s else Some s)"
  shows "fold_opt g xs s = fold_opt f (concat (map h (filter P xs))) s"
proof (induction xs arbitrary: s)
  case (Cons x xs)
  have "fold_opt g xs = fold_opt f (concat (map h (filter P xs)))" using Cons.IH by (rule ext)
  then show ?case using assms [of x s] by (simp add: fold_opt_append)
qed simp

lemma add_resources_fold:
  "memranges_add_resources_filter t type_mask match tag flt rs pool =
     fold_opt (\<lambda>(base, sz, tag) (rs, pool). memranges_insert base sz tag rs pool)
       (regions_of t type_mask match tag flt) (rs, pool)"
  unfolding memranges_add_resources_filter_def search_global_resources_def regions_of_def
  by (rule fold_opt_concat, simp only: if_not_P not_not split: if_split)
     (auto intro!: fold_opt_map_filter simp: collect_ranges_def wanted_def split: prod.splits option.splits)

section \<open>Properties\<close>

text \<open>An entry pool with nothing in its free list and 4 KiB of heap, for the witnesses.\<close>

definition example_pool :: range_pool where
  "example_pool = \<lparr>free_list = [], range_heap = \<lparr>free_mem_ptr = 0x1000, free_mem_end_ptr = 0x2000\<rparr>\<rparr>"

lemma example_pool_room: "n < 128 \<Longrightarrow> heap_room n example_pool"
  by (simp add: heap_room_def example_pool_def)

text \<open>
  C11.  Inserting a region into well-formed ranges succeeds when the heap has room for two
  entries; afterwards every address whose page meets the region has the new tag, every
  other address keeps its own, and the list is well formed with no mergeable neighbours.
\<close>
theorem memranges_insert_correct:
  assumes "wf_ranges rs" and "region_ok base sz" and "heap_room 2 pool"
  shows "\<exists>rs' pool'. memranges_insert base sz tag rs pool = Some (rs', pool')
    \<and> wf_ranges rs' \<and> merged rs'
    \<and> (\<forall>a. tag_at rs' a = (if covers base sz a then Some tag else tag_at rs a))"
proof -
  have "\<exists>rs' pool'. memranges_insert base sz tag rs pool = Some (rs', pool')"
    using merge_add_memranges_room [of 0 pool] assms(3)
    by (fastforce simp: memranges_insert_def do_action_def Let_def numeral_2_eq_2)
  then show ?thesis using memranges_insert_spec [OF _ assms(1,2)] by metis
qed

theorem memranges_insert_correct_witness:
  "\<exists>rs' pool'. memranges_insert 0x1800 0x900 0 [\<lparr>re_begin = 0, re_end = 0xffff, re_tag = 6\<rparr>] example_pool = Some (rs', pool')
    \<and> wf_ranges rs' \<and> tag_at rs' 0x1000 = Some 0 \<and> tag_at rs' 0x2fff = Some 0 \<and> tag_at rs' 0x3000 = Some 6"
proof -
  let ?rs = "[\<lparr>re_begin = 0, re_end = 0xffff, re_tag = 6\<rparr>]"
  have "wf_ranges ?rs" "region_ok 0x1800 0x900" by (simp_all add: region_ok_def)
  from memranges_insert_correct [OF this example_pool_room, of 0] show ?thesis
    by (force simp: covers_def)
qed

text \<open>
  Punching a hole succeeds when the heap has room for one entry and removes exactly the
  addresses whose page meets the region; the other addresses keep their tags.
\<close>
lemma memranges_create_hole_correct:
  assumes "wf_ranges rs" and "region_ok base sz" and "heap_room 1 pool"
  shows "\<exists>rs' pool'. memranges_create_hole base sz rs pool = Some (rs', pool') \<and> wf_ranges rs'
    \<and> (\<forall>a. tag_at rs' a = (if covers base sz a then None else tag_at rs a))"
proof -
  have "\<exists>rs' pool'. memranges_create_hole base sz rs pool = Some (rs', pool')"
    using remove_memranges_room [of 0 pool] assms(3)
    by (fastforce simp: memranges_create_hole_def do_action_def Let_def)
  then show ?thesis using memranges_create_hole_spec [OF _ assms(1,2)] by metis
qed

lemma memranges_create_hole_correct_witness:
  "\<exists>rs' pool'. memranges_create_hole 0x1800 0x900 [\<lparr>re_begin = 0, re_end = 0xffff, re_tag = 6\<rparr>] example_pool = Some (rs', pool')
    \<and> tag_at rs' 0x1000 = None \<and> tag_at rs' 0x2fff = None \<and> tag_at rs' 0x3000 = Some 6"
proof -
  let ?rs = "[\<lparr>re_begin = 0, re_end = 0xffff, re_tag = 6\<rparr>]"
  have "wf_ranges ?rs" "region_ok 0x1800 0x900" by (simp_all add: region_ok_def)
  from memranges_create_hole_correct [OF this example_pool_room] show ?thesis
    by (force simp: covers_def)
qed

text \<open>
  Retagging keeps the covered addresses: exactly those with the old tag get the new one,
  and neighbours that have become equal are merged.
\<close>
lemma memranges_update_tag_correct:
  assumes "wf_ranges rs"
  shows "\<exists>rs' pool'. memranges_update_tag old new rs pool = (rs', pool') \<and> wf_ranges rs' \<and> merged rs'
    \<and> (\<forall>a. tag_at rs' a = map_option (\<lambda>t. if t = old then new else t) (tag_at rs a))"
proof -
  obtain rs' pool' where run: "memranges_update_tag old new rs pool = (rs', pool')" by (rule prod.exhaust)
  show ?thesis using memranges_update_tag_spec [OF run assms] run by blast
qed

lemma memranges_update_tag_correct_witness:
  "\<exists>rs' pool'. memranges_update_tag 1 0 [\<lparr>re_begin = 0, re_end = 0xfff, re_tag = 0\<rparr>, \<lparr>re_begin = 0x1000, re_end = 0x1fff, re_tag = 1\<rparr>]
      example_pool = (rs', pool') \<and> merged rs' \<and> tag_at rs' 0x1000 = Some 0"
proof -
  let ?rs = "[\<lparr>re_begin = 0, re_end = 0xfff, re_tag = 0\<rparr>, \<lparr>re_begin = 0x1000, re_end = 0x1fff, re_tag = 1\<rparr>]"
  have "wf_ranges ?rs" by simp
  from memranges_update_tag_correct [OF this, of 1 0 example_pool] show ?thesis by force
qed

text \<open>
  Filling the holes up to a limit leaves every tagged address alone and tags exactly the
  untagged addresses between the first entry and the limit, when each entry before a gap
  ends below the limit.
\<close>
lemma memranges_fill_holes_correct:
  assumes "memranges_fill_holes_up_to limit tag (r # rs) pool = Some (rs', pool')"
    and "wf_ranges (r # rs)" and "fill_ok limit r rs"
  shows "wf_ranges rs' \<and> merged rs' \<and> (\<forall>a. tag_at rs' a =
    (case tag_at (r # rs) a of Some t \<Rightarrow> Some t
     | None \<Rightarrow> if re_end r < a \<and> a < limit then Some tag else None))"
  using memranges_fill_holes_spec [OF assms] by (simp add: filled_def)

lemma memranges_fill_holes_correct_witness:
  "\<exists>rs' pool'. memranges_fill_holes_up_to 0x100000000 0
      [\<lparr>re_begin = 0, re_end = 0x9ffff, re_tag = 6\<rparr>, \<lparr>re_begin = 0xc0000, re_end = 0xdfffffff, re_tag = 6\<rparr>]
      example_pool = Some (rs', pool')
    \<and> wf_ranges rs' \<and> tag_at rs' 0xa0000 = Some 0 \<and> tag_at rs' 0xfec00000 = Some 0 \<and> tag_at rs' 0xc0000 = Some 6"
proof -
  let ?r = "\<lparr>re_begin = 0, re_end = 0x9ffff, re_tag = 6\<rparr>"
  let ?rs = "[\<lparr>re_begin = 0xc0000, re_end = 0xdfffffff, re_tag = 6\<rparr>]"
  obtain rs' pool' where run: "memranges_fill_holes_up_to 0x100000000 0 (?r # ?rs) example_pool = Some (rs', pool')"
    by (simp add: memranges_fill_holes_up_to_def fill_tail_def new_entry_def alloc_range_def example_pool_def
        range_entry_end_def sizeof_range_entry_def malloc_def memalign_def ALIGN_UP_def ALIGN_MASK_def Let_def)
  have "wf_ranges (?r # ?rs)" "fill_ok 0x100000000 ?r ?rs" by simp_all
  from memranges_fill_holes_correct [OF run this] show ?thesis using run by fastforce
qed

text \<open>
  Without that condition the filling loses addresses: with an entry that reaches past the
  limit before a gap, the new entry runs backwards, and merging cuts the entry short.
\<close>
lemma memranges_fill_holes_truncates:
  "map_option (\<lambda>(rs, pool). map (tag_at rs) [0x3fff, 0x4000, 0x5fff])
     (memranges_fill_holes_up_to 0x4000 0
       [\<lparr>re_begin = 0, re_end = 0x5fff, re_tag = 0\<rparr>, \<lparr>re_begin = 0x8000, re_end = 0x8fff, re_tag = 6\<rparr>]
       \<lparr>free_list = [\<lparr>re_begin = 0, re_end = 0, re_tag = 0\<rparr>],
        range_heap = \<lparr>free_mem_ptr = 0x1000, free_mem_end_ptr = 0x2000\<rparr>\<rparr>)
   = Some [Some 0, None, None]"
  by (simp add: memranges_fill_holes_up_to_def fill_tail_def new_entry_def alloc_range_def
      range_entry_end_def range_entry_free_def Let_def)

definition example_mem_tree :: devtree where
  "example_mem_tree = example_tree\<lparr>devs := (\<lambda>d. if d = 1
     then example_device\<lparr>d_resource_list := [zero_resource\<lparr>res_size := 0xa0000, res_flags := 0x4200\<rparr>]\<rparr>
     else example_device)\<rparr>"

text \<open>
  C19.  Adding the memory resources of the device tree gives each address the tag of the last
  matching resource that covers it, whatever other resources overlap it, and keeps the tag
  it had when none does.
\<close>
theorem memranges_add_resources_last_wins:
  assumes "memranges_add_resources_filter t type_mask match tag flt rs pool = Some (rs', pool')"
    and "wf_ranges rs" and "regions_ok (regions_of t type_mask match tag flt)"
  shows "wf_ranges rs' \<and> tag_at rs' a = last_tag (regions_of t type_mask match tag flt) a (tag_at rs a)"
  using mr.insert_all [of "regions_of t type_mask match tag flt" "(rs, pool)" "(rs', pool')" a] assms
  by (simp add: add_resources_fold)


theorem memranges_add_resources_last_wins_witness:
  "\<exists>rs' pool'. memranges_add_resources_filter example_mem_tree 0x4000 0x4000 6 None [] example_pool = Some (rs', pool')
     \<and> wf_ranges rs' \<and> tag_at rs' 0x1000 = Some 6 \<and> tag_at rs' 0xa0000 = None"
proof -
  have regs: "regions_of example_mem_tree 0x4000 0x4000 6 None = [(0, 0xa0000, 6)]"
    by (simp add: regions_of_def wanted_def example_mem_tree_def example_tree_def example_device_def zero_resource_def)
  obtain rs' pool' where run:
    "memranges_add_resources_filter example_mem_tree 0x4000 0x4000 6 None [] example_pool = Some (rs', pool')"
    unfolding add_resources_fold regs
    by (simp add: memranges_insert_def do_action_def merge_add_memranges_def ALIGN_DOWN_def new_entry_def
        alloc_range_def example_pool_def sizeof_range_entry_def malloc_def memalign_def ALIGN_UP_def ALIGN_MASK_def Let_def)
  have "wf_ranges []" "regions_ok (regions_of example_mem_tree 0x4000 0x4000 6 None)"
    by (simp_all add: regs regions_ok_def region_ok_def)
  from memranges_add_resources_last_wins [OF run this] run show ?thesis
    by (fastforce simp: regs covers_def)
qed

end
