(* ===== verification/Mtrr.thy ===== *)
theory Mtrr
  imports Memrange
begin

text \<open>
  Memory type range registers, \<^verbatim>\<open>src/cpu/x86/mtrr/mtrr.c\<close>.

  The processor is its model specific registers and CR0.  The file's static variables are the
  record \<open>mtrr_globals\<close>; the address space is the list of tagged ranges of theory Memrange.
  Addresses are 4 KiB page numbers in 32 bits, as in the code.  \<^verbatim>\<open>CONFIG_X86_AMD_FIXED_MTRRS\<close>
  is the parameter \<open>amd\<close>; the \<^verbatim>\<open>printk\<close> calls are left out.
\<close>

section \<open>The processor\<close>

record msr =
  msr_lo :: u32
  msr_hi :: u32

record mtrr_cpu =
  msrs :: "u32 \<Rightarrow> msr"
  cr0 :: u32

definition rdmsr :: "u32 \<Rightarrow> mtrr_cpu \<Rightarrow> msr" where
  "rdmsr index cpu = msrs cpu index"

definition wrmsr :: "u32 \<Rightarrow> msr \<Rightarrow> mtrr_cpu \<Rightarrow> mtrr_cpu" where
  "wrmsr index m cpu = cpu\<lparr>msrs := (msrs cpu)(index := m)\<rparr>"

abbreviation CR0_NW :: u32 where "CR0_NW \<equiv> 2 ^ 29"
abbreviation CR0_CD :: u32 where "CR0_CD \<equiv> 2 ^ 30"

definition disable_cache :: "mtrr_cpu \<Rightarrow> mtrr_cpu" where
  "disable_cache cpu = cpu\<lparr>cr0 := cr0 cpu OR CR0_CD\<rparr>"

definition enable_cache :: "mtrr_cpu \<Rightarrow> mtrr_cpu" where
  "enable_cache cpu = cpu\<lparr>cr0 := cr0 cpu AND NOT (CR0_CD OR CR0_NW)\<rparr>"

abbreviation MTRR_TYPE_UNCACHEABLE :: u32 where "MTRR_TYPE_UNCACHEABLE \<equiv> 0"
abbreviation MTRR_TYPE_WRCOMB :: u32 where "MTRR_TYPE_WRCOMB \<equiv> 1"
abbreviation MTRR_TYPE_WRBACK :: u32 where "MTRR_TYPE_WRBACK \<equiv> 6"

abbreviation MTRRcap_MSR :: u32 where "MTRRcap_MSR \<equiv> 0xfe"
abbreviation MTRRdefType_MSR :: u32 where "MTRRdefType_MSR \<equiv> 0x2ff"
abbreviation MTRRdefTypeEn :: u32 where "MTRRdefTypeEn \<equiv> 2 ^ 11"
abbreviation MTRRdefTypeFixEn :: u32 where "MTRRdefTypeFixEn \<equiv> 2 ^ 10"
abbreviation MTRRphysMaskValid :: u32 where "MTRRphysMaskValid \<equiv> 2 ^ 11"

definition MTRRphysBase_MSR :: "nat \<Rightarrow> u32" where
  "MTRRphysBase_MSR reg = 0x200 + 2 * of_nat reg"

definition MTRRphysMask_MSR :: "nat \<Rightarrow> u32" where
  "MTRRphysMask_MSR reg = 0x200 + 2 * of_nat reg + 1"

section \<open>Static variables\<close>

record mtrr_globals =
  total_mtrrs :: nat
  bios_mtrrs :: int
  addr_space :: "memranges option"
  fixed_mtrr_types :: "u8 list"
  fixed_mtrr_types_initialized :: bool
  mtrr_default_type :: u32

definition OS_MTRRS :: int where "OS_MTRRS = 2"
definition BIOS_MTRRS :: int where "BIOS_MTRRS = 6"

definition NUM_FIXED_RANGES :: nat where "NUM_FIXED_RANGES = 88"

definition mtrr_globals_init :: mtrr_globals where
  "mtrr_globals_init = \<lparr>total_mtrrs = nat (BIOS_MTRRS + OS_MTRRS), bios_mtrrs = BIOS_MTRRS, addr_space = None,
     fixed_mtrr_types = replicate NUM_FIXED_RANGES 0, fixed_mtrr_types_initialized = False,
     mtrr_default_type = - 1\<rparr>"

definition detect_var_mtrrs :: "mtrr_cpu \<Rightarrow> mtrr_globals \<Rightarrow> mtrr_globals" where
  "detect_var_mtrrs cpu g =
     (let ntotal = unat (msr_lo (rdmsr MTRRcap_MSR cpu) AND 0xff)
      in g\<lparr>total_mtrrs := ntotal, bios_mtrrs := int ntotal - OS_MTRRS\<rparr>)"

definition enable_fixed_mtrr :: "mtrr_cpu \<Rightarrow> mtrr_cpu" where
  "enable_fixed_mtrr cpu =
     (let m = rdmsr MTRRdefType_MSR cpu
      in wrmsr MTRRdefType_MSR (m\<lparr>msr_lo := msr_lo m OR (MTRRdefTypeEn OR MTRRdefTypeFixEn)\<rparr>) cpu)"

definition enable_var_mtrr :: "u8 \<Rightarrow> mtrr_cpu \<Rightarrow> mtrr_cpu" where
  "enable_var_mtrr deftype cpu =
     (let m = rdmsr MTRRdefType_MSR cpu;
          lo = msr_lo m AND NOT 0xff
      in wrmsr MTRRdefType_MSR (m\<lparr>msr_lo := lo OR (MTRRdefTypeEn OR ucast deftype)\<rparr>) cpu)"

section \<open>Bit scans and units\<close>

text \<open>\<^verbatim>\<open>bsr\<close> and \<^verbatim>\<open>bsf\<close> with the values the code gives for zero.\<close>

definition fms :: "u32 \<Rightarrow> nat" where
  "fms x = (if x = 0 then 0 else 31 - length (takeWhile (\<lambda>i. \<not> bit x (31 - i)) [0..<32]))"

definition fls :: "u32 \<Rightarrow> nat" where
  "fls x = length (takeWhile (\<lambda>i. \<not> bit x i) [0..<32])"

definition PHYS_TO_RANGE_ADDR :: "resource_t \<Rightarrow> u32" where
  "PHYS_TO_RANGE_ADDR x = ucast (drop_bit 12 x)"

definition RANGE_TO_PHYS_ADDR :: "u32 \<Rightarrow> resource_t" where
  "RANGE_TO_PHYS_ADDR x = push_bit 12 (ucast x)"

abbreviation MTRR_MIN_ALIGN :: u32 where "MTRR_MIN_ALIGN \<equiv> 2 ^ 14"
abbreviation RANGE_1MB :: u32 where "RANGE_1MB \<equiv> 0x100"
abbreviation RANGE_4GB :: u32 where "RANGE_4GB \<equiv> 2 ^ 20"
abbreviation MTRR_TAG_MASK :: u32 where "MTRR_TAG_MASK \<equiv> 0xff"
abbreviation MTRR_RANGE_UC_USE_HOLE :: u32 where "MTRR_RANGE_UC_USE_HOLE \<equiv> 2 ^ 8"

definition range_entry_base_mtrr_addr :: "range_entry \<Rightarrow> u32" where
  "range_entry_base_mtrr_addr r = PHYS_TO_RANGE_ADDR (range_entry_base r)"

definition range_entry_end_mtrr_addr :: "range_entry \<Rightarrow> u32" where
  "range_entry_end_mtrr_addr r = PHYS_TO_RANGE_ADDR (range_entry_end r)"

definition range_entry_mtrr_type :: "range_entry \<Rightarrow> u32" where
  "range_entry_mtrr_type r = re_tag r AND MTRR_TAG_MASK"

section \<open>The physical address space\<close>

definition filter_vga_wrcomb :: "devtree \<Rightarrow> dev_id \<Rightarrow> resource \<Rightarrow> bool" where
  "filter_vga_wrcomb t d res =
     (let dev = devs t d
      in if p_type (d_path dev) \<noteq> DEVICE_PATH_PCI then False
         else if drop_bit 8 (d_class dev) \<noteq> 0x0300 then False
         else True)"

definition get_physical_address_space ::
  "devtree \<Rightarrow> mtrr_globals \<Rightarrow> range_pool \<Rightarrow> (memranges \<times> mtrr_globals \<times> range_pool) option" where
  "get_physical_address_space t g pool =
     (case addr_space g of
        Some space \<Rightarrow> Some (space, g, pool)
      | None \<Rightarrow> do {
          let type_mask = IORESOURCE_CACHEABLE;
          (space, pool) \<leftarrow> memranges_init t type_mask type_mask MTRR_TYPE_WRBACK pool;
          (space, pool) \<leftarrow> memranges_add_resources t type_mask 0 MTRR_TYPE_UNCACHEABLE space pool;
          let match = IORESOURCE_PREFETCH;
          let type_mask = type_mask OR match;
          (space, pool) \<leftarrow> memranges_add_resources_filter t type_mask match MTRR_TYPE_WRCOMB
             (Some filter_vga_wrcomb) space pool;
          (space, pool) \<leftarrow> memranges_fill_holes_up_to (RANGE_TO_PHYS_ADDR RANGE_4GB)
             MTRR_TYPE_UNCACHEABLE space pool;
          Some (space, g\<lparr>addr_space := Some space\<rparr>, pool)
        })"

section \<open>Fixed range registers\<close>

record fixed_mtrr_desc =
  fd_begin :: u32
  fd_end :: u32
  fd_step :: u32
  fd_range_index :: nat
  fd_msr_index_base :: u32

definition fixed_mtrr_descs :: "fixed_mtrr_desc list" where
  "fixed_mtrr_descs =
     [\<lparr>fd_begin = 0x00, fd_end = 0x80, fd_step = 16, fd_range_index = 0, fd_msr_index_base = 0x250\<rparr>,
      \<lparr>fd_begin = 0x80, fd_end = 0xC0, fd_step = 4, fd_range_index = 8, fd_msr_index_base = 0x258\<rparr>,
      \<lparr>fd_begin = 0xC0, fd_end = 0x100, fd_step = 1, fd_range_index = 24, fd_msr_index_base = 0x268\<rparr>]"

definition MTRR_FIXED_WRBACK_BITS :: "bool \<Rightarrow> u8" where
  "MTRR_FIXED_WRBACK_BITS amd = (if amd then 2 ^ 4 OR 2 ^ 3 else 0)"

definition fixed_type :: "bool \<Rightarrow> u32 \<Rightarrow> u8" where
  "fixed_type amd tag =
     (let type = ucast tag in if type = ucast MTRR_TYPE_WRBACK then type OR MTRR_FIXED_WRBACK_BITS amd else type)"

text \<open>
  The loop over one entry writes one type per step.  \<open>descs\<close> is the descriptor table from
  \<^verbatim>\<open>desc\<close> on.  A read past the table or a write past the array of types is undefined in C:
  the value is \<open>None\<close>.
\<close>

function fixed_fill ::
  "u8 \<Rightarrow> u32 \<Rightarrow> u32 \<Rightarrow> nat \<Rightarrow> fixed_mtrr_desc list \<Rightarrow> u8 list \<Rightarrow> (fixed_mtrr_desc list \<times> u8 list) option" where
  "fixed_fill type end_addr begin_addr type_index descs types =
     (if begin_addr = end_addr then Some (descs, types)
      else if length types \<le> type_index then None
      else case descs of
             [] \<Rightarrow> None
           | desc # descs' \<Rightarrow>
               let types = types[type_index := type];
                   begin_addr = begin_addr + fd_step desc
               in fixed_fill type end_addr begin_addr (type_index + 1)
                    (if begin_addr = fd_end desc then descs' else descs) types)"
  by pat_completeness auto
termination by (relation "measure (\<lambda>(ty, e, b, i, ds, types). length types - i)") auto

declare fixed_fill.simps [simp del]

definition skip_descs :: "u32 \<Rightarrow> fixed_mtrr_desc list \<Rightarrow> fixed_mtrr_desc list" where
  "skip_descs begin_addr descs = dropWhile (\<lambda>desc. fd_end desc \<le> begin_addr) descs"

fun fixed_entries ::
  "bool \<Rightarrow> memranges \<Rightarrow> fixed_mtrr_desc list \<Rightarrow> u8 list \<Rightarrow> u8 list option" where
  "fixed_entries amd [] descs types = Some types"
| "fixed_entries amd (r # rs) descs types =
     (let begin_addr = range_entry_base_mtrr_addr r;
          end_addr = range_entry_end_mtrr_addr r;
          last_end = fd_end (last fixed_mtrr_descs)
      in if last_end \<le> begin_addr then Some types
         else
           let end_addr = (if last_end < end_addr then last_end else end_addr);
               descs = skip_descs begin_addr descs
           in case descs of
                [] \<Rightarrow> None
              | desc # _ \<Rightarrow> do {
                  let type_index = fd_range_index desc + unat ((begin_addr - fd_begin desc) div fd_step desc);
                  (descs, types) \<leftarrow> fixed_fill (fixed_type amd (re_tag r)) end_addr begin_addr type_index descs types;
                  fixed_entries amd rs descs types
                })"

definition calc_fixed_mtrrs ::
  "bool \<Rightarrow> devtree \<Rightarrow> mtrr_globals \<Rightarrow> range_pool \<Rightarrow> (mtrr_globals \<times> range_pool) option" where
  "calc_fixed_mtrrs amd t g pool =
     (if fixed_mtrr_types_initialized g then Some (g, pool)
      else do {
        (space, g, pool) \<leftarrow> get_physical_address_space t g pool;
        types \<leftarrow> fixed_entries amd space fixed_mtrr_descs
                  (replicate NUM_FIXED_RANGES (ucast MTRR_TYPE_UNCACHEABLE));
        Some (g\<lparr>fixed_mtrr_types := types, fixed_mtrr_types_initialized := True\<rparr>, pool)
      })"

text \<open>Eight consecutive types make one register.\<close>

definition pack_fixed_msr :: "u8 list \<Rightarrow> nat \<Rightarrow> msr" where
  "pack_fixed_msr types i =
     \<lparr>msr_lo = push_bit 0 (ucast (types ! i)) OR push_bit 8 (ucast (types ! (i + 1)))
        OR push_bit 16 (ucast (types ! (i + 2))) OR push_bit 24 (ucast (types ! (i + 3))),
      msr_hi = push_bit 0 (ucast (types ! (i + 4))) OR push_bit 8 (ucast (types ! (i + 5)))
        OR push_bit 16 (ucast (types ! (i + 6))) OR push_bit 24 (ucast (types ! (i + 7)))\<rparr>"

definition RANGES_PER_FIXED_MTRR :: nat where "RANGES_PER_FIXED_MTRR = 8"

definition fixed_msr_indices :: "u32 list" where
  "fixed_msr_indices = concat (map (\<lambda>desc.
     let num_ranges = unat ((fd_end desc - fd_begin desc) div fd_step desc)
     in map (\<lambda>j. fd_msr_index_base desc + of_nat j) [0..<num_ranges div RANGES_PER_FIXED_MTRR])
     fixed_mtrr_descs)"

definition commit_fixed_mtrrs :: "mtrr_globals \<Rightarrow> mtrr_cpu \<Rightarrow> mtrr_cpu" where
  "commit_fixed_mtrrs g cpu =
     (let cpu = disable_cache cpu;
          cpu = fold (\<lambda>(msr_num, index).
                  wrmsr index (pack_fixed_msr (fixed_mtrr_types g) (RANGES_PER_FIXED_MTRR * msr_num)))
                  (enumerate 0 fixed_msr_indices) cpu
      in enable_cache cpu)"

definition x86_setup_fixed_mtrrs_no_enable ::
  "bool \<Rightarrow> devtree \<Rightarrow> mtrr_globals \<Rightarrow> range_pool \<Rightarrow> mtrr_cpu \<Rightarrow> (mtrr_globals \<times> range_pool \<times> mtrr_cpu) option" where
  "x86_setup_fixed_mtrrs_no_enable amd t g pool cpu =
     do {
       (g, pool) \<leftarrow> calc_fixed_mtrrs amd t g pool;
       Some (g, pool, commit_fixed_mtrrs g cpu)
     }"

definition x86_setup_fixed_mtrrs ::
  "bool \<Rightarrow> devtree \<Rightarrow> mtrr_globals \<Rightarrow> range_pool \<Rightarrow> mtrr_cpu \<Rightarrow> (mtrr_globals \<times> range_pool \<times> mtrr_cpu) option" where
  "x86_setup_fixed_mtrrs amd t g pool cpu =
     do {
       (g, pool, cpu) \<leftarrow> x86_setup_fixed_mtrrs_no_enable amd t g pool cpu;
       Some (g, pool, enable_fixed_mtrr cpu)
     }"

section \<open>Variable range registers\<close>

record var_mtrr_state =
  above4gb :: bool
  address_bits :: nat
  commit_mtrrs :: bool
  mtrr_index :: nat
  def_mtrr_type :: u32

definition clear_var_mtrr :: "nat \<Rightarrow> mtrr_cpu \<Rightarrow> mtrr_cpu" where
  "clear_var_mtrr index cpu =
     (let m = rdmsr (MTRRphysMask_MSR index) cpu
      in wrmsr (MTRRphysMask_MSR index) (m\<lparr>msr_lo := msr_lo m AND NOT MTRRphysMaskValid\<rparr>) cpu)"

text \<open>\<open>ntotal\<close> is the static variable \<^verbatim>\<open>total_mtrrs\<close>; \<^verbatim>\<open>bios_mtrrs\<close> only decides on a warning.\<close>

definition write_var_mtrr ::
  "nat \<Rightarrow> var_mtrr_state \<Rightarrow> u32 \<Rightarrow> u32 \<Rightarrow> u32 \<Rightarrow> mtrr_cpu \<Rightarrow> mtrr_cpu" where
  "write_var_mtrr ntotal st base sz mtrr_type cpu =
     (if ntotal \<le> mtrr_index st then cpu
      else
        let rbase = RANGE_TO_PHYS_ADDR base;
            rsize = - RANGE_TO_PHYS_ADDR sz;
            rsize = rsize AND (2 ^ address_bits st - 1);
            cpu = wrmsr (MTRRphysBase_MSR (mtrr_index st))
                    \<lparr>msr_lo = ucast rbase OR mtrr_type, msr_hi = ucast (drop_bit 32 rbase)\<rparr> cpu
        in wrmsr (MTRRphysMask_MSR (mtrr_index st))
             \<lparr>msr_lo = ucast rsize OR MTRRphysMaskValid, msr_hi = ucast (drop_bit 32 rsize)\<rparr> cpu)"

definition mtrr_block_bits :: "u32 \<Rightarrow> u32 \<Rightarrow> nat" where
  "mtrr_block_bits base sz =
     (let addr_lsb = fls base; size_msb = fms sz
      in if size_msb < addr_lsb then size_msb else addr_lsb)"

lemma fms_less: "fms x < 32"
  by (auto simp: fms_def intro: le_less_trans [OF diff_le_self])

lemma fms_bit: "x \<noteq> 0 \<Longrightarrow> bit x (fms x)"
proof -
  assume "x \<noteq> 0"
  let ?P = "\<lambda>i. \<not> bit x (31 - i)"
  let ?n = "length (takeWhile ?P [0..<32])"
  have "?n < length [0..<32::nat]"
  proof (rule ccontr)
    assume "\<not> ?n < length [0..<32::nat]"
    with length_takeWhile_le [of ?P "[0..<32]"] have "?n = length [0..<32::nat]" by linarith
    then have "takeWhile ?P [0..<32] = [0..<32]" by (metis takeWhile_eq_take take_all_iff order_refl)
    then have *: "\<forall>i\<in>set [0..<32]. ?P i" by (simp only: takeWhile_eq_all_conv)
    have "\<not> bit x j" if "j < 32" for j
      using bspec [OF *, of "31 - j"] that by simp
    then have "x = 0" by (intro bit_word_eqI) simp
    with \<open>x \<noteq> 0\<close> show False ..
  qed
  from nth_length_takeWhile [OF this] this have "bit x (31 - ?n)" by simp
  with \<open>x \<noteq> 0\<close> show ?thesis by (simp add: fms_def)
qed

lemma fms_le: "x \<noteq> 0 \<Longrightarrow> 2 ^ fms x \<le> unat x"
  by (rule bit_le_unat [OF fms_bit])

lemma fls_le: "fls x \<le> 32"
  using length_takeWhile_le [of _ "[0..<32::nat]"] by (simp add: fls_def)

lemma fls_dvd:
  assumes "k \<le> fls x"
  shows "2 ^ k dvd unat x"
proof -
  have "\<not> bit x i" if "i < k" for i
  proof -
    have "i < length (takeWhile (\<lambda>i. \<not> bit x i) [0..<32])" using that assms by (simp add: fls_def)
    then have "takeWhile (\<lambda>i. \<not> bit x i) [0..<32] ! i \<in> set (takeWhile (\<lambda>i. \<not> bit x i) [0..<32])"
      and "i < 32" using fls_le [of x] by (auto simp: fls_def intro: nth_mem)
    then show ?thesis
      using \<open>i < length _\<close> by (auto simp: takeWhile_nth dest!: set_takeWhileD)
  qed
  then have "x AND mask k = 0" by (intro bit_word_eqI) (auto simp: bit_simps)
  then have "unat x mod 2 ^ k = 0" by (metis unat_and_mask unsigned_0)
  then show ?thesis by (simp add: dvd_eq_mod_eq_0)
qed

lemma mtrr_block_bits_props:
  assumes "sz \<noteq> 0"
  shows "mtrr_block_bits base sz < 32" and "2 ^ mtrr_block_bits base sz \<le> unat sz"
    and "2 ^ mtrr_block_bits base sz dvd unat base"
    and "unat (2 ^ mtrr_block_bits base sz :: u32) = 2 ^ mtrr_block_bits base sz"
proof -
  let ?k = "mtrr_block_bits base sz"
  have le: "?k \<le> fms sz" "?k \<le> fls base" by (auto simp: mtrr_block_bits_def Let_def)
  then show k: "?k < 32" using fms_less [of sz] by linarith
  have "(2::nat) ^ ?k \<le> 2 ^ fms sz" using le by simp
  then show "2 ^ ?k \<le> unat sz" using fms_le [OF assms] by linarith
  show "2 ^ ?k dvd unat base" by (rule fls_dvd [OF le(2)])
  show "unat (2 ^ ?k :: u32) = 2 ^ ?k" using k by (simp add: unat_power_2)
qed

lemma unat_sub_block:
  "sz \<noteq> 0 \<Longrightarrow> unat (sz - 2 ^ mtrr_block_bits base sz) = unat sz - 2 ^ mtrr_block_bits base sz"
  using mtrr_block_bits_props [of sz base] by (simp add: unat_sub word_le_nat_alt)

lemma sub_block_less: "sz \<noteq> 0 \<Longrightarrow> unat (sz - 2 ^ mtrr_block_bits base sz) < unat sz"
  using mtrr_block_bits_props(2) [of sz base] unat_sub_block [of sz base]
  by (metis diff_less less_le_trans zero_less_numeral zero_less_power)

function calc_var_mtrr_range ::
  "nat \<Rightarrow> u32 \<Rightarrow> u32 \<Rightarrow> u32 \<Rightarrow> var_mtrr_state \<Rightarrow> mtrr_cpu \<Rightarrow> var_mtrr_state \<times> mtrr_cpu" where
  "calc_var_mtrr_range ntotal base sz mtrr_type st cpu =
     (if sz = 0 then (st, cpu)
      else
        let mtrr_size = 2 ^ mtrr_block_bits base sz;
            cpu = (if commit_mtrrs st then write_var_mtrr ntotal st base mtrr_size mtrr_type cpu else cpu)
        in calc_var_mtrr_range ntotal (base + mtrr_size) (sz - mtrr_size) mtrr_type
             (st\<lparr>mtrr_index := mtrr_index st + 1\<rparr>) cpu)"
  by pat_completeness auto
termination
  by (relation "measure (\<lambda>(ntotal, base, sz, ty, st, cpu). unat sz)") (simp_all add: sub_block_less)

declare calc_var_mtrr_range.simps [simp del]

text \<open>\<open>rest\<close> is the chain after the entry \<open>r\<close>, so its head is what \<^verbatim>\<open>memranges_next_entry\<close> returns.\<close>

definition calc_var_mtrrs_with_hole ::
  "nat \<Rightarrow> range_entry \<Rightarrow> memranges \<Rightarrow> var_mtrr_state \<Rightarrow> mtrr_cpu \<Rightarrow> var_mtrr_state \<times> mtrr_cpu" where
  "calc_var_mtrrs_with_hole ntotal r rest st cpu =
     (let mtrr_type = range_entry_mtrr_type r;
          a1 = range_entry_base_mtrr_addr r;
          a2 = range_entry_end_mtrr_addr r
      in if a2 < RANGE_1MB then (st, cpu)
      else
        let a1 = (if a1 < RANGE_1MB then 0 else a1)
        in if \<not> above4gb st \<and> RANGE_4GB \<le> a1 then (st, cpu)
        else
          let a2 = (if \<not> above4gb st \<and> RANGE_4GB < a2 then RANGE_4GB else a2);
              b1 = a2;
              b2 = 2 ^ fls a1 + a1
          in if RANGE_4GB \<le> a1 \<and> rest = [] \<and> a2 \<le> b2
             then calc_var_mtrr_range ntotal a1 (b2 - a1) mtrr_type st cpu
          else
            let b2 = ALIGN_UP a2 MTRR_MIN_ALIGN
            in if (case rest of [] \<Rightarrow> False
                   | n # _ \<Rightarrow> range_entry_mtrr_type n \<noteq> def_mtrr_type st \<or> range_entry_end_mtrr_addr n < b2)
               then calc_var_mtrr_range ntotal a1 (a2 - a1) mtrr_type st cpu
            else
              let (st, cpu) = calc_var_mtrr_range ntotal a1 (b2 - a1) mtrr_type st cpu
              in calc_var_mtrr_range ntotal b1 (b2 - b1) (def_mtrr_type st) st cpu)"

definition calc_var_mtrrs_without_hole ::
  "nat \<Rightarrow> range_entry \<Rightarrow> var_mtrr_state \<Rightarrow> mtrr_cpu \<Rightarrow> var_mtrr_state \<times> mtrr_cpu" where
  "calc_var_mtrrs_without_hole ntotal r st cpu =
     (let mtrr_type = range_entry_mtrr_type r;
          a1 = range_entry_base_mtrr_addr r;
          c2 = range_entry_end_mtrr_addr r
      in if c2 < RANGE_1MB then (st, cpu)
      else
        let a1 = (if a1 < RANGE_1MB then 0 else a1)
        in if \<not> above4gb st \<and> RANGE_4GB \<le> a1 then (st, cpu)
        else
          let c2 = (if \<not> above4gb st \<and> RANGE_4GB < c2 then RANGE_4GB else c2)
          in if c2 - a1 < MTRR_MIN_ALIGN
             then calc_var_mtrr_range ntotal a1 (c2 - a1) mtrr_type st cpu
          else
            let a2 = ALIGN_UP a1 MTRR_MIN_ALIGN; b1 = a2;
                c1 = ALIGN_DOWN c2 MTRR_MIN_ALIGN; b2 = c1;
                (st, cpu) = calc_var_mtrr_range ntotal a1 (a2 - a1) mtrr_type st cpu;
                (st, cpu) = calc_var_mtrr_range ntotal b1 (b2 - b1) mtrr_type st cpu
            in calc_var_mtrr_range ntotal c1 (c2 - c1) mtrr_type st cpu)"

text \<open>
  One step of the loop of \<^verbatim>\<open>__calc_var_mtrrs\<close>: the entry with its new tag and the two counts.
  No register is written here; the processor only passes through.
\<close>

definition count_entry ::
  "nat \<Rightarrow> bool \<Rightarrow> nat \<Rightarrow> range_entry \<Rightarrow> memranges \<Rightarrow> nat \<Rightarrow> nat \<Rightarrow> mtrr_cpu \<Rightarrow> range_entry \<times> nat \<times> nat" where
  "count_entry ntotal hi4gb bits r rest wb_count uc_count cpu =
     (let mtrr_type = range_entry_mtrr_type r;
          st = (\<lambda>def. \<lparr>above4gb = hi4gb, address_bits = bits, commit_mtrrs = False, mtrr_index = 0, def_mtrr_type = def\<rparr>);
          (r', uc_count) =
            (if mtrr_type \<noteq> MTRR_TYPE_UNCACHEABLE then
               let uc_no_hole_count = mtrr_index (fst (calc_var_mtrrs_without_hole ntotal r (st MTRR_TYPE_UNCACHEABLE) cpu));
                   uc_hole_count =
                     (if mtrr_type = MTRR_TYPE_WRBACK
                      then mtrr_index (fst (calc_var_mtrrs_with_hole ntotal r rest (st MTRR_TYPE_UNCACHEABLE) cpu))
                      else 64)
               in if uc_no_hole_count < uc_hole_count then (r, uc_count + uc_no_hole_count)
                  else (range_entry_update_tag r (mtrr_type OR MTRR_RANGE_UC_USE_HOLE), uc_count + uc_hole_count)
             else (r, uc_count));
          wb_count =
            (if mtrr_type \<noteq> MTRR_TYPE_WRBACK
             then wb_count + mtrr_index (fst (calc_var_mtrrs_without_hole ntotal r (st MTRR_TYPE_WRBACK) cpu))
             else wb_count)
      in (r', wb_count, uc_count))"

fun calc_var_mtrrs_counts ::
  "nat \<Rightarrow> bool \<Rightarrow> nat \<Rightarrow> memranges \<Rightarrow> nat \<Rightarrow> nat \<Rightarrow> mtrr_cpu \<Rightarrow> memranges \<times> nat \<times> nat" where
  "calc_var_mtrrs_counts ntotal hi4gb bits [] wb_count uc_count cpu = ([], wb_count, uc_count)"
| "calc_var_mtrrs_counts ntotal hi4gb bits (r # rest) wb_count uc_count cpu =
     (let (r, wb_count, uc_count) = count_entry ntotal hi4gb bits r rest wb_count uc_count cpu;
          (rest, counts) = calc_var_mtrrs_counts ntotal hi4gb bits rest wb_count uc_count cpu
      in (r # rest, counts))"

definition calc_var_mtrrs ::
  "mtrr_globals \<Rightarrow> bool \<Rightarrow> nat \<Rightarrow> memranges \<Rightarrow> range_pool \<Rightarrow> mtrr_cpu \<Rightarrow> u32 \<times> memranges \<times> range_pool" where
  "calc_var_mtrrs g hi4gb bits space pool cpu =
     (let (space, wb_count, uc_count) = calc_var_mtrrs_counts (total_mtrrs g) hi4gb bits space 0 0 cpu;
          (space, pool, wb_count, uc_count) =
            (if bios_mtrrs g < int wb_count \<and> bios_mtrrs g < int uc_count then
               let (space, pool) = memranges_update_tag MTRR_TYPE_WRCOMB MTRR_TYPE_UNCACHEABLE space pool;
                   (space, wb_count, uc_count) = calc_var_mtrrs_counts (total_mtrrs g) hi4gb bits space 0 0 cpu
               in (space, pool, wb_count, uc_count)
             else (space, pool, wb_count, uc_count))
      in (if wb_count < uc_count then MTRR_TYPE_WRBACK else MTRR_TYPE_UNCACHEABLE, space, pool))"

fun commit_entries ::
  "nat \<Rightarrow> u32 \<Rightarrow> memranges \<Rightarrow> var_mtrr_state \<Rightarrow> mtrr_cpu \<Rightarrow> var_mtrr_state \<times> mtrr_cpu" where
  "commit_entries ntotal def_type [] st cpu = (st, cpu)"
| "commit_entries ntotal def_type (r # rest) st cpu =
     (if range_entry_mtrr_type r = def_type then commit_entries ntotal def_type rest st cpu
      else
        let (st, cpu) =
          (if def_type = MTRR_TYPE_UNCACHEABLE \<and> re_tag r AND MTRR_RANGE_UC_USE_HOLE \<noteq> 0
           then calc_var_mtrrs_with_hole ntotal r rest st cpu
           else calc_var_mtrrs_without_hole ntotal r st cpu)
        in commit_entries ntotal def_type rest st cpu)"

definition commit_var_mtrrs ::
  "nat \<Rightarrow> memranges \<Rightarrow> u32 \<Rightarrow> bool \<Rightarrow> nat \<Rightarrow> mtrr_cpu \<Rightarrow> mtrr_cpu" where
  "commit_var_mtrrs ntotal space def_type hi4gb bits cpu =
     (let st = \<lparr>above4gb = hi4gb, address_bits = bits, commit_mtrrs = True, mtrr_index = 0, def_mtrr_type = def_type\<rparr>;
          (st, cpu) = commit_entries ntotal def_type space st cpu
      in fold clear_var_mtrr [mtrr_index st..<ntotal] cpu)"

definition x86_setup_var_mtrrs ::
  "nat \<Rightarrow> u32 \<Rightarrow> devtree \<Rightarrow> mtrr_globals \<Rightarrow> range_pool \<Rightarrow> mtrr_cpu \<Rightarrow> (mtrr_globals \<times> range_pool \<times> mtrr_cpu) option" where
  "x86_setup_var_mtrrs bits hi4gb t g pool cpu =
     do {
       (space, g, pool) \<leftarrow> get_physical_address_space t g pool;
       let (space, g, pool) =
         (if mtrr_default_type g = - 1 then
            let g = (if hi4gb = 2 then detect_var_mtrrs cpu g else g);
                (deftype, space, pool) = calc_var_mtrrs g (hi4gb \<noteq> 0) bits space pool cpu
            in (space, g\<lparr>addr_space := Some space, mtrr_default_type := deftype\<rparr>, pool)
          else (space, g, pool));
       let cpu = disable_cache cpu;
       let cpu = commit_var_mtrrs (total_mtrrs g) space (mtrr_default_type g) (hi4gb \<noteq> 0) bits cpu;
       let cpu = enable_var_mtrr (ucast (mtrr_default_type g)) cpu;
       Some (g, pool, enable_cache cpu)
     }"

text \<open>\<open>address_size\<close> is what \<^verbatim>\<open>cpu_phys_address_size\<close> reads from CPUID.\<close>

definition x86_setup_mtrrs ::
  "nat \<Rightarrow> bool \<Rightarrow> devtree \<Rightarrow> mtrr_globals \<Rightarrow> range_pool \<Rightarrow> mtrr_cpu \<Rightarrow> (mtrr_globals \<times> range_pool \<times> mtrr_cpu) option" where
  "x86_setup_mtrrs address_size amd t g pool cpu =
     do {
       (g, pool, cpu) \<leftarrow> x86_setup_fixed_mtrrs amd t g pool cpu;
       x86_setup_var_mtrrs address_size 1 t g pool cpu
     }"

definition x86_mtrr_check :: "mtrr_cpu \<Rightarrow> u32" where
  "x86_mtrr_check cpu = msr_lo (rdmsr MTRRdefType_MSR cpu)"

section \<open>What the variable range registers mean\<close>

text \<open>
  The decoding of a register pair is the processor's: an address is in the range when it
  agrees with the base on every bit of the mask, bits 12 and up.
\<close>

definition msr_val :: "msr \<Rightarrow> u64" where
  "msr_val m = push_bit 32 (ucast (msr_hi m)) OR ucast (msr_lo m)"

definition var_mtrr_match :: "mtrr_cpu \<Rightarrow> nat \<Rightarrow> u64 \<Rightarrow> bool" where
  "var_mtrr_match cpu i a =
     (let base_msr = rdmsr (MTRRphysBase_MSR i) cpu;
          mask_msr = rdmsr (MTRRphysMask_MSR i) cpu;
          m = msr_val mask_msr AND NOT 0xfff
      in bit (msr_lo mask_msr) 11 \<and> a AND m = msr_val base_msr AND m)"

definition var_mtrr_type :: "mtrr_cpu \<Rightarrow> nat \<Rightarrow> u32" where
  "var_mtrr_type cpu i = msr_lo (rdmsr (MTRRphysBase_MSR i) cpu) AND 0xff"

lemma msr_val_split: "msr_val \<lparr>msr_lo = ucast x OR t, msr_hi = ucast (drop_bit 32 x)\<rparr> = x OR ucast t"
  by (rule bit_word_eqI) (auto simp: msr_val_def bit_simps)

lemma low_mask: "(0xfff::u64) = mask 12"
  by (simp add: mask_eq_exp_minus_1)

lemma drop_bit_eq_iff:
  fixes x y :: "'a::len word"
  shows "drop_bit n x = drop_bit n y \<longleftrightarrow> unat x div 2 ^ n = unat y div 2 ^ n"
  by (simp add: word_unat_eq_iff unsigned_drop_bit_eq)
    (simp add: drop_bit_eq_div take_bit_nat_eq_self unat_less_exp)

lemma bit_2048: "bit (2048::u64) i \<longleftrightarrow> i = 11" "bit (2048::u32) i \<longleftrightarrow> i = 11"
proof -
  have "(2048::u64) = 2 ^ 11" "(2048::u32) = 2 ^ 11" by simp_all
  then show "bit (2048::u64) i \<longleftrightarrow> i = 11" "bit (2048::u32) i \<longleftrightarrow> i = 11"
    by (auto simp only: bit_simps) auto
qed

lemma block_mask_match:
  fixes a rbase :: u64
  assumes "12 \<le> n" "unat a < 2 ^ bits" "unat rbase < 2 ^ bits" "unat ty < 2 ^ 8"
    and m: "m = ((- (2 ^ n) AND (2 ^ bits - 1)) OR 0x800) AND NOT 0xfff"
  shows "a AND m = (rbase OR ucast (ty::u32)) AND m \<longleftrightarrow> unat a div 2 ^ n = unat rbase div 2 ^ n"
proof -
  have bm: "bit m i \<longleftrightarrow> n \<le> i \<and> i < bits \<and> i < 64" for i
    using assms(1) unfolding m low_mask minus_exp_eq_not_mask mask_eq_exp_minus_1 [symmetric]
    by (simp only: bit_and_iff bit_or_iff bit_not_iff bit_mask_iff bit_2048) auto
  have bt: "\<not> bit ty i" if "12 \<le> i" for i
    using bit_small [OF assms(4), of i] that by simp
  have ba: "\<not> bit a i" "\<not> bit rbase i" if "bits \<le> i" for i
    using bit_small assms(2,3) that by blast+
  have pt: "(bit a i \<and> n \<le> i \<and> i < bits) = ((bit rbase i \<or> bit ty i) \<and> n \<le> i \<and> i < bits)
      \<longleftrightarrow> (n \<le> i \<longrightarrow> (bit a i \<longleftrightarrow> bit rbase i))" for i
    using bt [of i] ba [of i] assms(1) by (cases "n \<le> i"; cases "i < bits") auto
  have "a AND m = (rbase OR ucast ty) AND m \<longleftrightarrow> (\<forall>i\<ge>n. i < 64 \<longrightarrow> (bit a i \<longleftrightarrow> bit rbase i))"
    unfolding bit_eq_iff using pt bt
    by (simp add: bm bit_simps) (metis leI)
  also have "\<dots> \<longleftrightarrow> drop_bit n a = drop_bit n rbase"
  proof
    assume L: "\<forall>i\<ge>n. i < 64 \<longrightarrow> bit a i = bit rbase i"
    have "bit a (n + j) = bit rbase (n + j)" for j
    proof (cases "n + j < 64")
      case False
      then show ?thesis using bit_imp_le_length [of a "n + j"] bit_imp_le_length [of rbase "n + j"] by auto
    qed (use L in simp)
    then show "drop_bit n a = drop_bit n rbase" by (intro bit_word_eqI) (simp add: bit_simps)
  next
    assume E: "drop_bit n a = drop_bit n rbase"
    have "bit a i = bit rbase i" if "n \<le> i" for i
      using arg_cong [OF E, of "\<lambda>x. bit x (i - n)"] that by (simp add: bit_simps)
    then show "\<forall>i\<ge>n. i < 64 \<longrightarrow> bit a i = bit rbase i" by simp
  qed
  finally show ?thesis by (simp add: drop_bit_eq_iff)
qed


lemma MTRR_msr_eq [simp]:
  "i < 256 \<Longrightarrow> j < 256 \<Longrightarrow> MTRRphysBase_MSR i = MTRRphysBase_MSR j \<longleftrightarrow> i = j"
  "i < 256 \<Longrightarrow> j < 256 \<Longrightarrow> MTRRphysMask_MSR i = MTRRphysMask_MSR j \<longleftrightarrow> i = j"
  "i < 256 \<Longrightarrow> j < 256 \<Longrightarrow> MTRRphysBase_MSR i \<noteq> MTRRphysMask_MSR j"
  "i < 256 \<Longrightarrow> j < 256 \<Longrightarrow> MTRRphysMask_MSR j \<noteq> MTRRphysBase_MSR i"
proof -
  have u: "unat (MTRRphysBase_MSR i) = 0x200 + 2 * i" "unat (MTRRphysMask_MSR i) = 0x201 + 2 * i" if "i < 256" for i
    using that by (simp_all add: MTRRphysBase_MSR_def MTRRphysMask_MSR_def unat_word_ariths unat_of_nat)
  show "i < 256 \<Longrightarrow> j < 256 \<Longrightarrow> MTRRphysBase_MSR i = MTRRphysBase_MSR j \<longleftrightarrow> i = j"
    "i < 256 \<Longrightarrow> j < 256 \<Longrightarrow> MTRRphysMask_MSR i = MTRRphysMask_MSR j \<longleftrightarrow> i = j"
    using u by (simp_all add: word_unat_eq_iff)
  show "i < 256 \<Longrightarrow> j < 256 \<Longrightarrow> MTRRphysBase_MSR i \<noteq> MTRRphysMask_MSR j"
    "i < 256 \<Longrightarrow> j < 256 \<Longrightarrow> MTRRphysMask_MSR j \<noteq> MTRRphysBase_MSR i"
    using u by (simp_all add: word_unat_eq_iff) presburger+
qed

lemma unat_RANGE_TO_PHYS_ADDR: "unat (RANGE_TO_PHYS_ADDR b) = unat b * 4096"
proof -
  have "unat b * 4096 < 2 ^ 64" using unat_less_exp [of b] by simp
  then show ?thesis
    by (simp add: RANGE_TO_PHYS_ADDR_def unsigned_push_bit_eq unat_ucast_mod)
      (simp add: push_bit_eq_mult take_bit_nat_eq_self unsigned_ucast_eq)
qed

lemma div_eq_iff_bounds: "0 < (n::nat) \<Longrightarrow> a div n = q \<longleftrightarrow> n * q \<le> a \<and> a < n * (q + 1)"
proof
  assume "0 < n" "a div n = q"
  then show "n * q \<le> a \<and> a < n * (q + 1)"
    using dividend_less_times_div [of n a] by (auto simp: mult.commute times_div_less_eq_dividend)
next
  assume "n * q \<le> a \<and> a < n * (q + 1)"
  then show "a div n = q" by (intro div_nat_eqI) (auto simp: mult.commute)
qed

lemma write_var_mtrr_match:
  assumes "i < ntotal" "ntotal \<le> 256" "k < 32" "2 ^ k dvd unat base" "unat ty < 2 ^ 8"
    and "unat base * 4096 < 2 ^ address_bits st" "unat a < 2 ^ address_bits st" "mtrr_index st = i"
  shows "var_mtrr_match (write_var_mtrr ntotal st base (2 ^ k) ty cpu) i a \<longleftrightarrow>
      unat base * 4096 \<le> unat a \<and> unat a < (unat base + 2 ^ k) * 4096"
    and "var_mtrr_type (write_var_mtrr ntotal st base (2 ^ k) ty cpu) i = ty"
proof -
  let ?rb = "RANGE_TO_PHYS_ADDR base"
  let ?rs = "- RANGE_TO_PHYS_ADDR (2 ^ k) AND (2 ^ address_bits st - 1)"
  let ?cpu = "write_var_mtrr ntotal st base (2 ^ k) ty cpu"
  have i: "i < 256" using assms by simp
  have rs: "RANGE_TO_PHYS_ADDR (2 ^ k) = 2 ^ (12 + k)"
    by (rule bit_word_eqI) (use assms(3) in \<open>auto simp: RANGE_TO_PHYS_ADDR_def bit_simps\<close>)
  have m1: "rdmsr (MTRRphysBase_MSR i) ?cpu = \<lparr>msr_lo = ucast ?rb OR ty, msr_hi = ucast (drop_bit 32 ?rb)\<rparr>"
    and m2: "rdmsr (MTRRphysMask_MSR i) ?cpu = \<lparr>msr_lo = ucast ?rs OR 2 ^ 11, msr_hi = ucast (drop_bit 32 ?rs)\<rparr>"
    using assms(1,8) i by (simp_all add: write_var_mtrr_def rdmsr_def wrmsr_def Let_def)
  have valid: "bit (msr_lo (rdmsr (MTRRphysMask_MSR i) ?cpu)) 11"
    unfolding m2 by (simp add: bit_or_iff bit_2048)
  have "var_mtrr_match ?cpu i a \<longleftrightarrow>
      a AND (?rs OR 0x800) AND NOT 0xfff = (?rb OR ucast ty) AND (?rs OR 0x800) AND NOT 0xfff"
    using valid unfolding var_mtrr_match_def Let_def m1 m2 msr_val_split by (simp add: and.assoc)
  also have "\<dots> \<longleftrightarrow> unat a div 2 ^ (12 + k) = unat ?rb div 2 ^ (12 + k)"
    unfolding rs and.assoc
    by (rule block_mask_match [where bits = "address_bits st"]) (use assms in \<open>simp_all add: unat_RANGE_TO_PHYS_ADDR\<close>)
  also have "\<dots> \<longleftrightarrow> unat base * 4096 \<le> unat a \<and> unat a < (unat base + 2 ^ k) * 4096"
  proof -
    from assms(4) obtain q where q: "unat base = 2 ^ k * q" by blast
    let ?n = "2 ^ (12 + k) :: nat"
    have "unat ?rb = ?n * q" by (simp add: unat_RANGE_TO_PHYS_ADDR q power_add)
    moreover have "(unat base + 2 ^ k) * 4096 = ?n * (q + 1)" by (simp add: q power_add algebra_simps)
    moreover have "unat a div ?n = q \<longleftrightarrow> ?n * q \<le> unat a \<and> unat a < ?n * (q + 1)"
      by (rule div_eq_iff_bounds) simp
    ultimately show ?thesis by (simp add: unat_RANGE_TO_PHYS_ADDR q power_add algebra_simps)
  qed
  finally show "var_mtrr_match ?cpu i a \<longleftrightarrow>
      unat base * 4096 \<le> unat a \<and> unat a < (unat base + 2 ^ k) * 4096" .
  have "ucast ?rb AND (0xff::u32) = 0"
    by (rule bit_word_eqI)
       (use bit_small [of "0xff::u32" 8] in \<open>auto simp: RANGE_TO_PHYS_ADDR_def bit_simps not_le\<close>)
  moreover have "ty AND 0xff = ty"
  proof -
    have eq: "(0xff::u32) = mask 8" by (simp add: mask_eq_exp_minus_1)
    show ?thesis unfolding eq using assms(5) by (simp only: word_unat_eq_iff unat_and_mask mod_less)
  qed
  ultimately show "var_mtrr_type ?cpu i = ty"
    unfolding var_mtrr_type_def m1 by (simp add: bit.conj_disj_distrib2)
qed

section \<open>The blocks of a range\<close>

text \<open>The base and the size of every register that a range takes, whether written or only counted.\<close>

function mtrr_blocks :: "u32 \<Rightarrow> u32 \<Rightarrow> (u32 \<times> u32) list" where
  "mtrr_blocks base sz =
     (if sz = 0 then []
      else let s = 2 ^ mtrr_block_bits base sz in (base, s) # mtrr_blocks (base + s) (sz - s))"
  by pat_completeness auto
termination
  by (relation "measure (\<lambda>(base, sz). unat sz)") (simp_all add: sub_block_less)

declare mtrr_blocks.simps [simp del]

lemma mtrr_blocks_0 [simp]: "mtrr_blocks base 0 = []"
  by (simp add: mtrr_blocks.simps)

lemma calc_var_mtrr_range_0 [simp]: "calc_var_mtrr_range n base 0 ty st cpu = (st, cpu)"
  by (simp add: calc_var_mtrr_range.simps)

lemma calc_var_mtrr_range_index:
  "fst (calc_var_mtrr_range n base sz ty st cpu) = st\<lparr>mtrr_index := mtrr_index st + length (mtrr_blocks base sz)\<rparr>"
proof (induction n base sz ty st cpu rule: calc_var_mtrr_range.induct)
  case (1 n base sz ty st cpu)
  show ?case
  proof (cases "sz = 0")
    case False
    show ?thesis
      by (subst calc_var_mtrr_range.simps, subst mtrr_blocks.simps)
        (use False 1 [OF False refl refl] in \<open>simp add: Let_def\<close>)
  qed simp
qed

lemma calc_var_mtrr_range_no_commit:
  "\<not> commit_mtrrs st \<Longrightarrow> snd (calc_var_mtrr_range n base sz ty st cpu) = cpu"
proof (induction n base sz ty st cpu rule: calc_var_mtrr_range.induct)
  case (1 n base sz ty st cpu)
  then show ?case by (subst calc_var_mtrr_range.simps) (simp add: Let_def)
qed

lemma next_block_base:
  assumes "sz \<noteq> 0" "unat base + unat sz \<le> 2 ^ 32" "sz - 2 ^ mtrr_block_bits base sz \<noteq> 0"
  shows "unat (base + 2 ^ mtrr_block_bits base sz) = unat base + 2 ^ mtrr_block_bits base sz"
proof -
  have "unat (sz - 2 ^ mtrr_block_bits base sz) \<noteq> 0" using assms(3) by (simp add: unat_eq_zero)
  then have "unat base + 2 ^ mtrr_block_bits base sz < 2 ^ 32"
    using unat_sub_block [OF assms(1), of base] assms(2) by linarith
  then show ?thesis
    using mtrr_block_bits_props(4) [OF assms(1), of base] by (simp add: unat_add_no_wrap)
qed

text \<open>
  The registers of one range, as the processor reads them: between them they match exactly
  the range, every one has its type, and no other register changes.
\<close>

definition range_programmed ::
  "nat \<Rightarrow> nat \<Rightarrow> nat \<Rightarrow> nat \<Rightarrow> nat \<Rightarrow> u32 \<Rightarrow> nat \<Rightarrow> mtrr_cpu \<Rightarrow> mtrr_cpu \<Rightarrow> bool" where
  "range_programmed i j lo hi bits ty n cpu cpu' \<longleftrightarrow>
     (\<forall>a. unat a < 2 ^ bits \<longrightarrow>
        (\<exists>m. i \<le> m \<and> m < j \<and> var_mtrr_match cpu' m a) = (lo * 4096 \<le> unat a \<and> unat a < hi * 4096))
     \<and> (\<forall>m. i \<le> m \<and> m < j \<longrightarrow> var_mtrr_type cpu' m = ty)
     \<and> (\<forall>x. (\<forall>m. i \<le> m \<and> m < j \<longrightarrow> x \<noteq> MTRRphysBase_MSR m \<and> x \<noteq> MTRRphysMask_MSR m) \<longrightarrow>
          rdmsr x cpu' = rdmsr x cpu)
     \<and> cr0 cpu' = cr0 cpu"

lemma range_programmed_empty: "range_programmed i i lo lo bits ty n cpu cpu"
  by (auto simp: range_programmed_def)

lemma intervals_join:
  "x \<le> y \<Longrightarrow> y \<le> (z::nat) \<Longrightarrow> (x \<le> a \<and> a < y) \<or> (y \<le> a \<and> a < z) \<longleftrightarrow> x \<le> a \<and> a < z"
  by auto

lemma range_programmed_trans:
  assumes "range_programmed i j lo mid bits ty n cpu cpu1" "range_programmed j k mid hi bits ty n cpu1 cpu2"
    and "i \<le> j" "j \<le> k" "k \<le> 256" "lo \<le> mid" "mid \<le> hi"
  shows "range_programmed i k lo hi bits ty n cpu cpu2"
proof -
  have keep: "rdmsr (MTRRphysBase_MSR m) cpu2 = rdmsr (MTRRphysBase_MSR m) cpu1"
    "rdmsr (MTRRphysMask_MSR m) cpu2 = rdmsr (MTRRphysMask_MSR m) cpu1" if "m < j" for m
    using assms(2,5) that unfolding range_programmed_def by (auto simp: assms(4))
  then have early: "var_mtrr_match cpu2 m a = var_mtrr_match cpu1 m a" "var_mtrr_type cpu2 m = var_mtrr_type cpu1 m"
    if "m < j" for m a
    using that by (simp_all add: var_mtrr_match_def var_mtrr_type_def)
  have ex: "(\<exists>m. i \<le> m \<and> m < k \<and> P m) \<longleftrightarrow> (\<exists>m. i \<le> m \<and> m < j \<and> P m) \<or> (\<exists>m. j \<le> m \<and> m < k \<and> P m)" for P
    using assms(3,4) by (metis le_trans less_le_trans not_le)
  show ?thesis
    unfolding range_programmed_def
  proof (intro conjI allI impI)
    fix a :: u64 assume a: "unat a < 2 ^ bits"
    have "(\<exists>m. i \<le> m \<and> m < j \<and> var_mtrr_match cpu2 m a) = (lo * 4096 \<le> unat a \<and> unat a < mid * 4096)"
      using assms(1) a early unfolding range_programmed_def by metis
    moreover have "(\<exists>m. j \<le> m \<and> m < k \<and> var_mtrr_match cpu2 m a) = (mid * 4096 \<le> unat a \<and> unat a < hi * 4096)"
      using assms(2) a unfolding range_programmed_def by metis
    moreover have "(lo * 4096 \<le> unat a \<and> unat a < mid * 4096) \<or> (mid * 4096 \<le> unat a \<and> unat a < hi * 4096)
        \<longleftrightarrow> lo * 4096 \<le> unat a \<and> unat a < hi * 4096"
      by (rule intervals_join) (use assms in simp_all)
    ultimately show "(\<exists>m. i \<le> m \<and> m < k \<and> var_mtrr_match cpu2 m a) = (lo * 4096 \<le> unat a \<and> unat a < hi * 4096)"
      unfolding ex by (simp only:)
  next
    fix m assume "i \<le> m \<and> m < k"
    then show "var_mtrr_type cpu2 m = ty"
      using assms(1,2) early unfolding range_programmed_def by (cases "m < j") auto
  next
    fix x assume "\<forall>m. i \<le> m \<and> m < k \<longrightarrow> x \<noteq> MTRRphysBase_MSR m \<and> x \<noteq> MTRRphysMask_MSR m"
    then show "rdmsr x cpu2 = rdmsr x cpu"
      using assms unfolding range_programmed_def by (metis le_trans less_le_trans)
  next
    show "cr0 cpu2 = cr0 cpu" using assms unfolding range_programmed_def by metis
  qed
qed

lemma write_var_mtrr_programmed:
  assumes "mtrr_index st < n" "n \<le> 256" "k < 32" "2 ^ k dvd unat base" "unat ty < 2 ^ 8"
    and "unat base * 4096 < 2 ^ address_bits st"
  shows "range_programmed (mtrr_index st) (mtrr_index st + 1) (unat base) (unat base + 2 ^ k) (address_bits st) ty n
    cpu (write_var_mtrr n st base (2 ^ k) ty cpu)"
proof -
  have one: "(\<exists>m. i \<le> m \<and> m < i + 1 \<and> P m) = P i" for i :: nat and P by (auto simp: less_Suc_eq_le le_antisym)
  show ?thesis
    unfolding range_programmed_def one
    using write_var_mtrr_match [OF assms(1,2,3,4,5,6) _ refl] write_var_mtrr_match(2) [OF assms(1,2,3,4,5,6) _ refl, of 0] assms(1)
    by (auto simp: less_Suc_eq_le le_antisym write_var_mtrr_def rdmsr_def wrmsr_def Let_def dest!: le_antisym)
qed

lemma calc_var_mtrr_range_programmed:
  assumes "commit_mtrrs st" "mtrr_index st + length (mtrr_blocks base sz) \<le> n" "n \<le> 256" "unat ty < 2 ^ 8"
    and "unat base + unat sz \<le> 2 ^ 32" "(unat base + unat sz) * 4096 \<le> 2 ^ address_bits st"
  shows "range_programmed (mtrr_index st) (mtrr_index st + length (mtrr_blocks base sz)) (unat base) (unat base + unat sz)
    (address_bits st) ty n cpu (snd (calc_var_mtrr_range n base sz ty st cpu))"
  using assms
proof (induction n base sz ty st cpu rule: calc_var_mtrr_range.induct)
  case (1 n base sz ty st cpu)
  show ?case
  proof (cases "sz = 0")
    case True
    then show ?thesis by (simp add: range_programmed_empty)
  next
    case False
    define k where "k = mtrr_block_bits base sz"
    let ?s = "2 ^ k :: u32"
    let ?cpu = "write_var_mtrr n st base ?s ty cpu"
    let ?st = "st\<lparr>mtrr_index := mtrr_index st + 1\<rparr>"
    note props = mtrr_block_bits_props [OF False, of base, folded k_def]
    have us: "unat (sz - ?s) = unat sz - 2 ^ k" using unat_sub_block [OF False, of base] by (simp add: k_def)
    have len: "length (mtrr_blocks base sz) = Suc (length (mtrr_blocks (base + ?s) (sz - ?s)))"
      using False by (subst mtrr_blocks.simps) (simp add: Let_def k_def)
    have "0 < unat sz" using False by (simp add: unat_gt_0)
    then have "unat base * 4096 < (unat base + unat sz) * 4096" by simp
    then have "unat base * 4096 < 2 ^ address_bits st" using "1.prems"(6) by (rule less_le_trans)
    then have first: "range_programmed (mtrr_index st) (mtrr_index st + 1) (unat base) (unat base + 2 ^ k) (address_bits st) ty n cpu ?cpu"
      using 1 len props by (intro write_var_mtrr_programmed) auto
    have eq: "snd (calc_var_mtrr_range n base sz ty st cpu) = snd (calc_var_mtrr_range n (base + ?s) (sz - ?s) ty ?st ?cpu)"
      using False "1.prems"(1) by (subst calc_var_mtrr_range.simps) (simp add: Let_def k_def)
    have rest: "range_programmed (mtrr_index st + 1) (mtrr_index st + length (mtrr_blocks base sz)) (unat base + 2 ^ k) (unat base + unat sz)
      (address_bits st) ty n ?cpu (snd (calc_var_mtrr_range n (base + ?s) (sz - ?s) ty ?st ?cpu))"
    proof (cases "sz - ?s = 0")
      case True
      then have "unat sz = 2 ^ k" using us props(2) by simp
      then show ?thesis using True len by (simp add: range_programmed_empty)
    next
      case False': False
      have ub: "unat (base + ?s) = unat base + 2 ^ k"
        using next_block_base [OF False "1.prems"(5)] False' by (simp add: k_def)
      have sum: "unat base + 2 ^ k + (unat sz - 2 ^ k) = unat base + unat sz" using props(2) by simp
      have "range_programmed (mtrr_index ?st) (mtrr_index ?st + length (mtrr_blocks (base + ?s) (sz - ?s))) (unat (base + ?s))
        (unat (base + ?s) + unat (sz - ?s)) (address_bits ?st) ty n ?cpu
        (snd (calc_var_mtrr_range n (base + ?s) (sz - ?s) ty ?st ?cpu))"
      proof (rule "1.IH" [OF False, of ?s ?cpu])
        show "?s = 2 ^ mtrr_block_bits base sz" by (simp add: k_def)
        show "?cpu = (if commit_mtrrs st then write_var_mtrr n st base ?s ty cpu else cpu)" using "1.prems"(1) by simp
        show "commit_mtrrs ?st" using "1.prems"(1) by simp
        show "mtrr_index ?st + length (mtrr_blocks (base + ?s) (sz - ?s)) \<le> n" using "1.prems"(2) len by simp
        show "unat (base + ?s) + unat (sz - ?s) \<le> 2 ^ 32" unfolding ub us sum by (rule "1.prems"(5))
        show "(unat (base + ?s) + unat (sz - ?s)) * 4096 \<le> 2 ^ address_bits ?st" unfolding ub us sum using "1.prems"(6) by simp
      qed (use "1.prems" in simp_all)
      then show ?thesis unfolding ub us sum len by simp
    qed
    show ?thesis
      unfolding eq using 1 props(2) len by (intro range_programmed_trans [OF first rest]) auto
  qed
qed

section \<open>Plans: the ranges that an entry hands to the block loop\<close>

type_synonym plan = "(u32 \<times> u32 \<times> u32) list"

fun run_plan :: "nat \<Rightarrow> plan \<Rightarrow> var_mtrr_state \<Rightarrow> mtrr_cpu \<Rightarrow> var_mtrr_state \<times> mtrr_cpu" where
  "run_plan n [] st cpu = (st, cpu)"
| "run_plan n ((base, sz, ty) # ps) st cpu =
     (let (st, cpu) = calc_var_mtrr_range n base sz ty st cpu in run_plan n ps st cpu)"

definition plan_length :: "plan \<Rightarrow> nat" where
  "plan_length ps = (\<Sum>(base, sz, ty)\<leftarrow>ps. length (mtrr_blocks base sz))"

definition clip_base :: "range_entry \<Rightarrow> u32" where
  "clip_base r = (let a1 = range_entry_base_mtrr_addr r in if a1 < RANGE_1MB then 0 else a1)"

definition clip_end :: "bool \<Rightarrow> range_entry \<Rightarrow> u32" where
  "clip_end hi4gb r = (let a2 = range_entry_end_mtrr_addr r in if \<not> hi4gb \<and> RANGE_4GB < a2 then RANGE_4GB else a2)"

definition ignored :: "bool \<Rightarrow> range_entry \<Rightarrow> bool" where
  "ignored hi4gb r \<longleftrightarrow> range_entry_end_mtrr_addr r < RANGE_1MB \<or> \<not> hi4gb \<and> RANGE_4GB \<le> clip_base r"

definition plan_without_hole :: "bool \<Rightarrow> range_entry \<Rightarrow> plan" where
  "plan_without_hole hi4gb r =
     (let ty = range_entry_mtrr_type r; a1 = clip_base r; c2 = clip_end hi4gb r;
          a2 = ALIGN_UP a1 MTRR_MIN_ALIGN; c1 = ALIGN_DOWN c2 MTRR_MIN_ALIGN
      in if ignored hi4gb r then []
         else if c2 - a1 < MTRR_MIN_ALIGN then [(a1, c2 - a1, ty)]
         else [(a1, a2 - a1, ty), (a2, c1 - a2, ty), (c1, c2 - c1, ty)])"

definition plan_with_hole :: "bool \<Rightarrow> u32 \<Rightarrow> range_entry \<Rightarrow> memranges \<Rightarrow> plan" where
  "plan_with_hole hi4gb def_type r rest =
     (let ty = range_entry_mtrr_type r; a1 = clip_base r; a2 = clip_end hi4gb r;
          top = 2 ^ fls a1 + a1; b2 = ALIGN_UP a2 MTRR_MIN_ALIGN
      in if ignored hi4gb r then []
         else if RANGE_4GB \<le> a1 \<and> rest = [] \<and> a2 \<le> top then [(a1, top - a1, ty)]
         else if (case rest of [] \<Rightarrow> False
                | x # _ \<Rightarrow> range_entry_mtrr_type x \<noteq> def_type \<or> range_entry_end_mtrr_addr x < b2)
         then [(a1, a2 - a1, ty)]
         else [(a1, b2 - a1, ty), (a2, b2 - a2, def_type)])"

lemma run_plan_append: "run_plan n (ps @ qs) st cpu = (let (st, cpu) = run_plan n ps st cpu in run_plan n qs st cpu)"
  by (induction n ps st cpu rule: run_plan.induct) (simp_all split: prod.split)

lemma run_plan_if:
  "run_plan n (if c then ps else qs) st cpu = (if c then run_plan n ps st cpu else run_plan n qs st cpu)"
  by simp

lemma if_or_nested: "(if A \<or> B then x else y) = (if A then x else if B then x else y)"
  by simp

lemma without_hole_plan:
  "calc_var_mtrrs_without_hole n r st cpu = run_plan n (plan_without_hole (above4gb st) r) st cpu"
  by (simp only: calc_var_mtrrs_without_hole_def plan_without_hole_def clip_base_def clip_end_def ignored_def Let_def
      run_plan_if if_or_nested run_plan.simps case_prod_unfold prod.collapse)

lemma with_hole_plan:
  "calc_var_mtrrs_with_hole n r rest st cpu = run_plan n (plan_with_hole (above4gb st) (def_mtrr_type st) r rest) st cpu"
proof -
  have d: "def_mtrr_type (fst (calc_var_mtrr_range n base sz ty st cpu)) = def_mtrr_type st" for base sz ty
    by (simp add: calc_var_mtrr_range_index)
  show ?thesis
    by (simp only: calc_var_mtrrs_with_hole_def plan_with_hole_def clip_base_def clip_end_def ignored_def Let_def
        run_plan_if if_or_nested run_plan.simps case_prod_unfold prod.collapse d)
qed

lemma run_plan_index:
  "fst (run_plan n ps st cpu) = st\<lparr>mtrr_index := mtrr_index st + plan_length ps\<rparr>"
proof (induction ps arbitrary: st cpu)
  case (Cons p ps)
  obtain base sz ty where p: "p = (base, sz, ty)" by (cases p)
  show ?case
    by (simp add: p case_prod_unfold Cons.IH calc_var_mtrr_range_index plan_length_def)
qed (simp add: plan_length_def)

lemma run_plan_no_commit: "\<not> commit_mtrrs st \<Longrightarrow> snd (run_plan n ps st cpu) = cpu"
proof (induction ps arbitrary: st cpu)
  case (Cons p ps)
  obtain base sz ty where p: "p = (base, sz, ty)" by (cases p)
  have "\<not> commit_mtrrs (fst (calc_var_mtrr_range n base sz ty st cpu))"
    using Cons.prems by (simp add: calc_var_mtrr_range_index)
  then show ?case
    using Cons by (simp add: p case_prod_unfold calc_var_mtrr_range_no_commit)
qed simp

fun commit_plan :: "bool \<Rightarrow> u32 \<Rightarrow> memranges \<Rightarrow> plan" where
  "commit_plan hi4gb def_type [] = []"
| "commit_plan hi4gb def_type (r # rest) =
     (if range_entry_mtrr_type r = def_type then []
      else if def_type = MTRR_TYPE_UNCACHEABLE \<and> re_tag r AND MTRR_RANGE_UC_USE_HOLE \<noteq> 0
      then plan_with_hole hi4gb def_type r rest else plan_without_hole hi4gb r)
     @ commit_plan hi4gb def_type rest"

lemma commit_entries_plan:
  "def_mtrr_type st = def_type \<Longrightarrow> commit_entries n def_type rs st cpu = run_plan n (commit_plan (above4gb st) def_type rs) st cpu"
proof (induction rs arbitrary: st cpu)
  case (Cons r rs)
  have "def_mtrr_type (fst (run_plan n ps st cpu)) = def_type" "above4gb (fst (run_plan n ps st cpu)) = above4gb st" for ps
    using Cons.prems by (simp_all add: run_plan_index)
  then show ?case
    using Cons by (simp add: without_hole_plan with_hole_plan run_plan_append case_prod_unfold)
qed simp

section \<open>The types that the registers give an address\<close>

definition match_types :: "mtrr_cpu \<Rightarrow> nat \<Rightarrow> nat \<Rightarrow> u64 \<Rightarrow> u32 set" where
  "match_types cpu i j a = {var_mtrr_type cpu m | m. i \<le> m \<and> m < j \<and> var_mtrr_match cpu m a}"

definition plan_types :: "plan \<Rightarrow> u64 \<Rightarrow> u32 set" where
  "plan_types ps a = {ty. \<exists>base sz. (base, sz, ty) \<in> set ps \<and> unat base * 4096 \<le> unat a \<and> unat a < (unat base + unat sz) * 4096}"

definition plan_ok :: "nat \<Rightarrow> plan \<Rightarrow> bool" where
  "plan_ok bits ps \<longleftrightarrow> (\<forall>(base, sz, ty)\<in>set ps.
     unat ty < 2 ^ 8 \<and> unat base + unat sz \<le> 2 ^ 32 \<and> (unat base + unat sz) * 4096 \<le> 2 ^ bits)"

definition same_elsewhere :: "nat \<Rightarrow> nat \<Rightarrow> mtrr_cpu \<Rightarrow> mtrr_cpu \<Rightarrow> bool" where
  "same_elsewhere i j cpu cpu' \<longleftrightarrow>
     (\<forall>x. (\<forall>m. i \<le> m \<and> m < j \<longrightarrow> x \<noteq> MTRRphysBase_MSR m \<and> x \<noteq> MTRRphysMask_MSR m) \<longrightarrow> rdmsr x cpu' = rdmsr x cpu)
     \<and> cr0 cpu' = cr0 cpu"

lemma same_elsewhere_keeps:
  assumes "same_elsewhere i j cpu cpu'" "m < i \<or> j \<le> m" "m < 256" "j \<le> 256"
  shows "var_mtrr_match cpu' m a = var_mtrr_match cpu m a" "var_mtrr_type cpu' m = var_mtrr_type cpu m"
proof -
  have "rdmsr (MTRRphysBase_MSR m) cpu' = rdmsr (MTRRphysBase_MSR m) cpu"
    "rdmsr (MTRRphysMask_MSR m) cpu' = rdmsr (MTRRphysMask_MSR m) cpu"
    using assms unfolding same_elsewhere_def by auto
  then show "var_mtrr_match cpu' m a = var_mtrr_match cpu m a" "var_mtrr_type cpu' m = var_mtrr_type cpu m"
    by (simp_all add: var_mtrr_match_def var_mtrr_type_def)
qed

lemma range_programmed_types:
  assumes "range_programmed i j lo hi bits ty n cpu cpu'" "unat a < 2 ^ bits"
  shows "match_types cpu' i j a = (if lo * 4096 \<le> unat a \<and> unat a < hi * 4096 then {ty} else {})"
    and "same_elsewhere i j cpu cpu'"
  using assms unfolding range_programmed_def match_types_def same_elsewhere_def by auto

lemma match_types_split:
  assumes "i \<le> j" "j \<le> k" "k \<le> 256" "same_elsewhere j k cpu1 cpu2"
  shows "match_types cpu2 i k a = match_types cpu1 i j a \<union> match_types cpu2 j k a"
proof -
  have "var_mtrr_match cpu2 m a = var_mtrr_match cpu1 m a" "var_mtrr_type cpu2 m = var_mtrr_type cpu1 m" if "m < j" for m
    using same_elsewhere_keeps [OF assms(4)] assms that by auto
  moreover have "{f m | m. i \<le> m \<and> m < k \<and> P m} = {f m | m. i \<le> m \<and> m < j \<and> P m} \<union> {f m | m. j \<le> m \<and> m < k \<and> P m}"
    for f :: "nat \<Rightarrow> u32" and P
    using assms(1,2) by (auto intro: less_le_trans le_trans) (metis not_le)
  ultimately show ?thesis unfolding match_types_def by auto
qed

lemma same_elsewhere_trans:
  "same_elsewhere i j cpu cpu1 \<Longrightarrow> same_elsewhere j k cpu1 cpu2 \<Longrightarrow> i \<le> j \<Longrightarrow> j \<le> k \<Longrightarrow> same_elsewhere i k cpu cpu2"
  unfolding same_elsewhere_def by (metis le_trans less_le_trans)

lemma run_plan_types:
  assumes "commit_mtrrs st" "mtrr_index st + plan_length ps \<le> n" "n \<le> 256" "plan_ok (address_bits st) ps"
  shows "(\<forall>a. unat a < 2 ^ address_bits st \<longrightarrow>
           match_types (snd (run_plan n ps st cpu)) (mtrr_index st) (mtrr_index st + plan_length ps) a = plan_types ps a)
       \<and> same_elsewhere (mtrr_index st) (mtrr_index st + plan_length ps) cpu (snd (run_plan n ps st cpu))"
  using assms
proof (induction ps arbitrary: st cpu)
  case Nil
  then show ?case by (simp add: match_types_def plan_types_def plan_length_def same_elsewhere_def)
next
  case (Cons p ps)
  obtain base sz ty where p: "p = (base, sz, ty)" by (cases p)
  let ?r = "calc_var_mtrr_range n base sz ty st cpu"
  let ?j = "mtrr_index st + length (mtrr_blocks base sz)"
  let ?k = "mtrr_index st + plan_length (p # ps)"
  let ?cpu2 = "snd (run_plan n ps (fst ?r) (snd ?r))"
  have len: "plan_length (p # ps) = length (mtrr_blocks base sz) + plan_length ps"
    by (simp add: p plan_length_def)
  have ok: "unat ty < 2 ^ 8" "unat base + unat sz \<le> 2 ^ 32" "(unat base + unat sz) * 4096 \<le> 2 ^ address_bits st"
    "plan_ok (address_bits st) ps"
    using Cons.prems(4) by (auto simp: plan_ok_def p)
  have eq: "run_plan n (p # ps) st cpu = run_plan n ps (fst ?r) (snd ?r)" by (simp add: p case_prod_unfold Let_def)
  have rp: "range_programmed (mtrr_index st) ?j (unat base) (unat base + unat sz) (address_bits st) ty n cpu (snd ?r)"
    using Cons.prems ok len by (intro calc_var_mtrr_range_programmed) auto
  have same1: "same_elsewhere (mtrr_index st) ?j cpu (snd ?r)"
    using range_programmed_types(2) [OF rp, of 0] by simp
  have rest: "(\<forall>a. unat a < 2 ^ address_bits st \<longrightarrow> match_types ?cpu2 ?j ?k a = plan_types ps a) \<and> same_elsewhere ?j ?k (snd ?r) ?cpu2"
    using Cons.IH [of "fst ?r" "snd ?r"] Cons.prems ok(4) len by (simp add: calc_var_mtrr_range_index add.assoc)
  have k: "?j \<le> ?k" "?k \<le> 256" using Cons.prems len by auto
  have pt: "plan_types (p # ps) a = (if unat base * 4096 \<le> unat a \<and> unat a < (unat base + unat sz) * 4096 then {ty} else {}) \<union> plan_types ps a" for a
    unfolding plan_types_def p by auto
  show ?case
    unfolding eq pt using match_types_split [OF _ k(1,2), of "mtrr_index st" "snd ?r" ?cpu2] rest range_programmed_types(1) [OF rp]
      same_elsewhere_trans [OF same1 _ _ k(1), of ?cpu2]
    by auto
qed

section \<open>Plans on page numbers\<close>

text \<open>
  An entry is usable for page arithmetic when it is a whole number of pages and ends at or
  below page \<open>2 ^ B\<close>; \<open>page_lo\<close> and \<open>page_hi\<close> are its first page and the one after its last.
\<close>

definition entry_ok :: "nat \<Rightarrow> range_entry \<Rightarrow> bool" where
  "entry_ok B r \<longleftrightarrow> 4096 dvd unat (re_begin r) \<and> 4096 dvd unat (re_end r) + 1 \<and> re_begin r \<le> re_end r
     \<and> unat (re_end r) + 1 \<le> 2 ^ B * 4096"

definition page_lo :: "range_entry \<Rightarrow> nat" where
  "page_lo r = unat (re_begin r) div 4096"

definition page_hi :: "range_entry \<Rightarrow> nat" where
  "page_hi r = (unat (re_end r) + 1) div 4096"

lemma page_bounds:
  assumes "entry_ok B r"
  shows "page_lo r < page_hi r" "page_hi r \<le> 2 ^ B"
proof -
  obtain x y where xy: "unat (re_begin r) = 4096 * x" "unat (re_end r) + 1 = 4096 * y"
    using assms unfolding entry_ok_def by (elim conjE dvdE)
  then have "x < y" using assms by (simp add: entry_ok_def word_le_nat_alt)
  then show "page_lo r < page_hi r" using xy by (simp add: page_lo_def page_hi_def)
  show "page_hi r \<le> 2 ^ B"
    using xy assms by (simp add: page_hi_def entry_ok_def)
qed

lemma unat_PHYS_TO_RANGE_ADDR: "unat x div 4096 < 2 ^ 32 \<Longrightarrow> unat (PHYS_TO_RANGE_ADDR x) = unat x div 4096"
  by (simp add: PHYS_TO_RANGE_ADDR_def unat_ucast_mod drop_bit_eq_div unat_div_distrib)

lemma entry_pages:
  assumes "entry_ok B r" "B \<le> 31"
  shows "unat (range_entry_base_mtrr_addr r) = page_lo r" "unat (range_entry_end_mtrr_addr r) = page_hi r"
proof -
  have "(2::nat) ^ B \<le> 2 ^ 31" using assms(2) by (rule power_increasing) simp
  then have hi: "page_hi r \<le> 2 ^ 31" using page_bounds [OF assms(1)] by linarith
  then show "unat (range_entry_base_mtrr_addr r) = page_lo r"
    using page_bounds(1) [OF assms(1)]
    by (simp add: range_entry_base_mtrr_addr_def range_entry_base_def page_lo_def unat_PHYS_TO_RANGE_ADDR)
  have "unat (re_end r) + 1 < 2 ^ 64"
    using assms(1) \<open>2 ^ B \<le> 2 ^ 31\<close> by (simp add: entry_ok_def)
  then have "unat (re_end r + 1) = unat (re_end r) + 1" by (simp add: unat_add_no_wrap)
  with hi show "unat (range_entry_end_mtrr_addr r) = page_hi r"
    by (simp add: range_entry_end_mtrr_addr_def range_entry_end_def page_hi_def unat_PHYS_TO_RANGE_ADDR)
qed

lemma entry_covers:
  assumes "entry_ok B r"
  shows "re_begin r \<le> a \<longleftrightarrow> page_lo r \<le> unat a div 4096" "a \<le> re_end r \<longleftrightarrow> unat a div 4096 < page_hi r"
proof -
  obtain x y where xy: "unat (re_begin r) = 4096 * x" "unat (re_end r) + 1 = 4096 * y"
    using assms unfolding entry_ok_def by (elim conjE dvdE)
  have "page_lo r = x" "page_hi r = y" using xy by (simp_all add: page_lo_def page_hi_def)
  moreover have "4096 * x \<le> unat a \<longleftrightarrow> x \<le> unat a div 4096"
    by (metis less_eq_div_iff_mult_less_eq mult.commute zero_less_numeral)
  moreover have "unat a < 4096 * y \<longleftrightarrow> unat a div 4096 < y"
    by (metis div_less_iff_less_mult mult.commute zero_less_numeral)
  moreover have "a \<le> re_end r \<longleftrightarrow> unat a < 4096 * y" using xy by (auto simp: word_le_nat_alt)
  ultimately show "re_begin r \<le> a \<longleftrightarrow> page_lo r \<le> unat a div 4096" "a \<le> re_end r \<longleftrightarrow> unat a div 4096 < page_hi r"
    using xy by (simp_all add: word_le_nat_alt)
qed

text \<open>The types of a plan at a page.\<close>

definition span :: "nat \<Rightarrow> nat \<Rightarrow> u32 \<Rightarrow> nat \<Rightarrow> u32 set" where
  "span lo hi ty p = (if lo \<le> p \<and> p < hi then {ty} else {})"

lemma plan_types_Nil [simp]: "plan_types [] a = {}"
  by (simp add: plan_types_def)

lemma plan_types_Cons:
  "plan_types ((base, sz, ty) # ps) a =
     span (unat base) (unat base + unat sz) ty (unat a div 4096) \<union> plan_types ps a"
proof -
  have "unat base * 4096 \<le> unat a \<longleftrightarrow> unat base \<le> unat a div 4096"
    by (metis less_eq_div_iff_mult_less_eq zero_less_numeral)
  moreover have "unat a < (unat base + unat sz) * 4096 \<longleftrightarrow> unat a div 4096 < unat base + unat sz"
    by (metis div_less_iff_less_mult zero_less_numeral)
  ultimately show ?thesis by (auto simp: plan_types_def span_def)
qed

lemma plan_types_append: "plan_types (ps @ qs) a = plan_types ps a \<union> plan_types qs a"
  by (auto simp: plan_types_def)

lemma span_join: "x \<le> y \<Longrightarrow> y \<le> z \<Longrightarrow> span x y ty p \<union> span y z ty p = span x z ty p"
  by (auto simp: span_def)

lemma range_entry_mtrr_type_less: "unat (range_entry_mtrr_type r) < 2 ^ 8"
proof -
  have "(0xff::u32) = mask 8" by (simp add: mask_eq_exp_minus_1)
  then have "unat (range_entry_mtrr_type r) = unat (re_tag r) mod 2 ^ 8"
    by (simp only: range_entry_mtrr_type_def unat_and_mask)
  then show ?thesis by simp
qed

lemma clip_bounds:
  assumes "entry_ok B r" "B \<le> 31" "\<not> ignored hi4gb r"
  shows "unat (clip_base r) = (if page_lo r < 256 then 0 else page_lo r)"
    and "unat (clip_end hi4gb r) = (if \<not> hi4gb \<and> 2 ^ 20 < page_hi r then 2 ^ 20 else page_hi r)"
    and "unat (clip_base r) < unat (clip_end hi4gb r)" and "unat (clip_end hi4gb r) \<le> 2 ^ B"
proof -
  note e = entry_pages [OF assms(1,2)] and b = page_bounds [OF assms(1)]
  show cb: "unat (clip_base r) = (if page_lo r < 256 then 0 else page_lo r)"
    using e by (simp add: clip_base_def Let_def word_less_nat_alt)
  show ce: "unat (clip_end hi4gb r) = (if \<not> hi4gb \<and> 2 ^ 20 < page_hi r then 2 ^ 20 else page_hi r)"
    using e by (simp add: clip_end_def Let_def word_less_nat_alt)
  have "256 \<le> page_hi r" "hi4gb \<or> unat (clip_base r) < 2 ^ 20"
    using assms(3) e(2) by (auto simp: ignored_def word_less_nat_alt word_le_nat_alt)
  then show "unat (clip_base r) < unat (clip_end hi4gb r)" using b(1) unfolding cb ce by auto
  show "unat (clip_end hi4gb r) \<le> 2 ^ B" using b(2) unfolding ce by auto
qed

lemma up_le_down: "x + k \<le> y \<Longrightarrow> 0 < k \<Longrightarrow> (x + (k - 1)) div k * k \<le> y div k * (k::nat)"
  by (intro mult_le_mono1 div_le_mono) linarith

lemma unat_sub_le: "unat x \<le> unat y \<Longrightarrow> unat (y - x) = unat y - unat (x::'a::len word)"
  by (simp add: unat_sub word_le_nat_alt)

lemma pow_pages: "B \<le> 31 \<Longrightarrow> (2::nat) ^ B \<le> 2 ^ 31"
  by (rule power_increasing) simp_all

lemma plan_ok_Cons:
  "plan_ok bits ((base, sz, ty) # ps) \<longleftrightarrow> unat ty < 2 ^ 8 \<and> unat base + unat sz \<le> 2 ^ 32
     \<and> (unat base + unat sz) * 4096 \<le> 2 ^ bits \<and> plan_ok bits ps"
  by (simp add: plan_ok_def)

lemma plan_ok_Nil [simp]: "plan_ok bits []"
  by (simp add: plan_ok_def)

lemma pages_ok: "x \<le> 2 ^ B \<Longrightarrow> B \<le> 31 \<Longrightarrow> B + 12 \<le> bits \<Longrightarrow> x \<le> 2 ^ 32 \<and> x * 4096 \<le> (2::nat) ^ bits"
proof -
  assume "x \<le> 2 ^ B" "B \<le> 31" "B + 12 \<le> bits"
  moreover have "x * 4096 \<le> 2 ^ B * 2 ^ 12" using \<open>x \<le> 2 ^ B\<close> by simp
  moreover have "(2::nat) ^ (B + 12) \<le> 2 ^ bits" using \<open>B + 12 \<le> bits\<close> by (rule power_increasing) simp
  ultimately show ?thesis using pow_pages [of B] by (simp add: power_add)
qed

lemma plan_without_hole_types:
  assumes "entry_ok B r" "B \<le> 31" "B + 12 \<le> bits" "\<not> ignored hi4gb r"
  shows "plan_types (plan_without_hole hi4gb r) a =
      span (unat (clip_base r)) (unat (clip_end hi4gb r)) (range_entry_mtrr_type r) (unat a div 4096)"
    and "plan_ok bits (plan_without_hole hi4gb r)"
proof -
  let ?x = "clip_base r" and ?y = "clip_end hi4gb r"
  let ?u = "ALIGN_UP ?x MTRR_MIN_ALIGN" and ?d = "ALIGN_DOWN ?y MTRR_MIN_ALIGN"
  note c = clip_bounds [OF assms(1,2,4)]
  have y: "unat ?y \<le> 2 ^ 31" using c(4) pow_pages [OF assms(2)] by linarith
  have s: "unat (?y - ?x) = unat ?y - unat ?x" using c(3) by (simp add: unat_sub_le)
  have ok: "x \<le> unat ?y \<Longrightarrow> x \<le> 2 ^ 32 \<and> x * 4096 \<le> 2 ^ bits" for x
    using c(4) pages_ok [OF _ assms(2,3), of x] by linarith
  show "plan_types (plan_without_hole hi4gb r) a = span (unat ?x) (unat ?y) (range_entry_mtrr_type r) (unat a div 4096)"
    "plan_ok bits (plan_without_hole hi4gb r)"
  proof (atomize(full), cases "?y - ?x < MTRR_MIN_ALIGN")
    case True
    then show "plan_types (plan_without_hole hi4gb r) a = span (unat ?x) (unat ?y) (range_entry_mtrr_type r) (unat a div 4096)
        \<and> plan_ok bits (plan_without_hole hi4gb r)"
      using assms(4) s c(3) ok [of "unat ?y"] range_entry_mtrr_type_less [of r]
      by (simp add: plan_without_hole_def Let_def plan_types_Cons plan_ok_Cons)
  next
    case False
    then have big: "unat ?x + 2 ^ 14 \<le> unat ?y" using s c(3) by (simp add: word_less_nat_alt)
    have u: "unat ?u = (unat ?x + (2 ^ 14 - 1)) div 2 ^ 14 * 2 ^ 14"
      by (rule unat_ALIGN_UP_no_wrap) (use big y in simp_all)
    have d: "unat ?d = unat ?y div 2 ^ 14 * 2 ^ 14" by (rule unat_ALIGN_DOWN)
    have o: "unat ?x \<le> unat ?u" "unat ?u \<le> unat ?d" "unat ?d \<le> unat ?y"
      unfolding u d using big ceil_div_mult_less(1) [of "2 ^ 14" "unat ?x"] up_le_down [of "unat ?x" "2 ^ 14" "unat ?y"]
      by (simp_all add: div_times_less_eq_dividend)
    have p: "plan_without_hole hi4gb r = [(?x, ?u - ?x, range_entry_mtrr_type r),
        (?u, ?d - ?u, range_entry_mtrr_type r), (?d, ?y - ?d, range_entry_mtrr_type r)]"
      using False assms(4) by (simp add: plan_without_hole_def Let_def)
    have e: "unat ?x + unat (?u - ?x) = unat ?u" "unat ?u + unat (?d - ?u) = unat ?d" "unat ?d + unat (?y - ?d) = unat ?y"
      using o by (simp_all add: unat_sub_le)
    show "plan_types (plan_without_hole hi4gb r) a = span (unat ?x) (unat ?y) (range_entry_mtrr_type r) (unat a div 4096)
        \<and> plan_ok bits (plan_without_hole hi4gb r)"
      unfolding p plan_types_Cons plan_ok_Cons e
      using o ok [of "unat ?u"] ok [of "unat ?d"] ok [of "unat ?y"] range_entry_mtrr_type_less [of r]
      by (simp add: span_join flip: Un_assoc)
  qed
qed


lemma clip_span_cases:
  assumes "entry_ok B r" "B \<le> 31" "\<not> ignored hi4gb r" "256 \<le> p" "hi4gb \<or> p < 2 ^ 20"
  shows "unat (clip_base r) \<le> p \<longleftrightarrow> page_lo r \<le> p" "p < unat (clip_end hi4gb r) \<longleftrightarrow> p < page_hi r"
  using clip_bounds(1,2) [OF assms(1,2,3)] assms(4,5) by auto

lemma not_ignored_page:
  assumes "entry_ok B r" "B \<le> 31" "256 \<le> p" "hi4gb \<or> p < 2 ^ 20" "page_lo r \<le> p" "p < page_hi r"
  shows "\<not> ignored hi4gb r"
proof -
  note e = entry_pages [OF assms(1,2)]
  have "unat (clip_base r) = (if page_lo r < 256 then 0 else page_lo r)"
    using e by (simp add: clip_base_def Let_def word_less_nat_alt)
  then show ?thesis using assms e by (auto simp: ignored_def word_less_nat_alt word_le_nat_alt)
qed

lemma top_le:
  fixes x f B :: nat
  assumes "2 ^ f dvd x" "0 < x" "x < 2 ^ B"
  shows "x + 2 ^ f \<le> 2 ^ B"
proof -
  have "2 ^ f \<le> x" using assms dvd_imp_le by blast
  then have "(2::nat) ^ f < 2 ^ B" using assms(3) by linarith
  then have "f < B" by simp
  then have "(2::nat) ^ f dvd 2 ^ B" by (simp add: le_imp_power_dvd)
  then have "2 ^ f dvd 2 ^ B - x" using assms(1) by (rule dvd_diff_nat)
  then have "2 ^ f \<le> 2 ^ B - x" using assms(3) by (intro dvd_imp_le) simp_all
  then show ?thesis using assms(3) by linarith
qed

lemma plan_with_hole_types:
  fixes a :: u64 and rest :: memranges
  assumes "entry_ok B r" "14 \<le> B" "B \<le> 31" "B + 12 \<le> bits" "\<not> ignored hi4gb r" "unat def_type < 2 ^ 8"
  defines "x \<equiv> unat (clip_base r)" and "y \<equiv> unat (clip_end hi4gb r)" and "ty \<equiv> range_entry_mtrr_type r"
    and "p \<equiv> unat a div 4096" and "T \<equiv> plan_types (plan_with_hole hi4gb def_type r rest) a"
  obtains (top) z where "2 ^ 20 \<le> x" "rest = []" "y \<le> z" "T = span x z ty p"
      "plan_ok bits (plan_with_hole hi4gb def_type r rest)"
  | (plain) "T = span x y ty p" "plan_ok bits (plan_with_hole hi4gb def_type r rest)"
  | (hole) z where "y \<le> z" "T = span x z ty p \<union> span y z def_type p" "plan_ok bits (plan_with_hole hi4gb def_type r rest)"
      "rest = [] \<or> range_entry_mtrr_type (hd rest) = def_type \<and> z \<le> unat (range_entry_end_mtrr_addr (hd rest))"
proof -
  let ?x = "clip_base r" and ?y = "clip_end hi4gb r"
  let ?t = "2 ^ fls ?x + ?x" and ?b = "ALIGN_UP ?y MTRR_MIN_ALIGN"
  note c = clip_bounds [OF assms(1,3,5), folded x_def y_def]
  note ux = x_def [symmetric] and uy = y_def [symmetric]
  have y31: "y \<le> 2 ^ 31" using c(4) pow_pages [OF assms(3)] by linarith
  have ok: "z \<le> 2 ^ B \<Longrightarrow> z \<le> 2 ^ 32 \<and> z * 4096 \<le> 2 ^ bits" for z :: nat
    using pages_ok [OF _ assms(3,4)] .
  have plan: "plan_with_hole hi4gb def_type r rest =
      (if 2 ^ 20 \<le> x \<and> rest = [] \<and> ?y \<le> ?t then [(?x, ?t - ?x, ty)]
       else if (case rest of [] \<Rightarrow> False | n # _ \<Rightarrow> range_entry_mtrr_type n \<noteq> def_type \<or> range_entry_end_mtrr_addr n < ?b)
       then [(?x, ?y - ?x, ty)] else [(?x, ?b - ?x, ty), (?y, ?b - ?y, def_type)])"
  proof -
    have "RANGE_4GB \<le> ?x \<longleftrightarrow> 2 ^ 20 \<le> x" by (simp add: word_le_nat_alt x_def)
    then show ?thesis
      by (simp only: plan_with_hole_def Let_def ty_def assms(5) if_False)
  qed
  show thesis
  proof (cases "2 ^ 20 \<le> x \<and> rest = [] \<and> ?y \<le> ?t")
    case True
    have x0: "0 < x" using True by (cases "x = 0") simp_all
    have dv: "2 ^ fls ?x dvd x" unfolding x_def by (rule fls_dvd) simp
    have "x < 2 ^ B" using c(3,4) by linarith
    from top_le [OF dv x0 this] have t: "x + 2 ^ fls ?x \<le> 2 ^ B" .
    then have "2 ^ fls ?x \<le> (2::nat) ^ 31" using pow_pages [OF assms(3)] by linarith
    then have "fls ?x \<le> 31" by (rule power_le_imp_le_exp [rotated]) simp
    then have "fls ?x < 32" by simp
    then have f: "unat (2 ^ fls ?x :: u32) = 2 ^ fls ?x" by (simp add: unat_power_2)
    then have ut: "unat ?t = x + 2 ^ fls ?x"
      using t pow_pages [OF assms(3)] ux by (subst unat_add_no_wrap) simp_all
    have e: "x + unat (?t - ?x) = unat ?t" using f ut by simp
    have "y \<le> unat ?t" using True by (simp add: word_le_nat_alt y_def)
    moreover have P: "plan_with_hole hi4gb def_type r rest = [(?x, ?t - ?x, ty)]"
      unfolding plan using True by (simp only: simp_thms if_True)
    moreover have "T = span x (unat ?t) ty p"
      unfolding T_def P p_def using e by (simp only: plan_types_Cons plan_types_Nil ux Un_empty_right)
    moreover have "plan_ok bits (plan_with_hole hi4gb def_type r rest)"
      unfolding P using e ok [OF t] ut range_entry_mtrr_type_less [of r]
      by (simp add: plan_ok_Cons ux ty_def)
    ultimately show thesis using True by (intro top) auto
  next
    case F1: False
    show thesis
    proof (cases "case rest of [] \<Rightarrow> False | n # _ \<Rightarrow> range_entry_mtrr_type n \<noteq> def_type \<or> range_entry_end_mtrr_addr n < ?b")
      case True
      have e: "x + unat (?y - ?x) = y" using c(3) by (simp add: unat_sub_le x_def y_def)
      have P: "plan_with_hole hi4gb def_type r rest = [(?x, ?y - ?x, ty)]"
        unfolding plan using F1 True by (simp only: simp_thms if_True if_False)
      have "T = span x y ty p" unfolding T_def P p_def using e by (simp add: plan_types_Cons ux)
      moreover have "plan_ok bits (plan_with_hole hi4gb def_type r rest)"
        unfolding P using e ok [OF c(4)] range_entry_mtrr_type_less [of r]
        by (simp add: plan_ok_Cons ux ty_def)
      ultimately show thesis by (rule plain)
    next
      case False
      have ub: "unat ?b = (y + (2 ^ 14 - 1)) div 2 ^ 14 * 2 ^ 14"
        unfolding y_def by (rule unat_ALIGN_UP_no_wrap) (use y31 in \<open>simp_all add: y_def\<close>)
      have yb: "y \<le> unat ?b" unfolding ub by (rule ceil_div_mult_less(1)) simp
      have "(y + (2 ^ 14 - 1)) div 2 ^ 14 * 2 ^ 14 \<le> (2 ^ B + (2 ^ 14 - 1)) div 2 ^ 14 * 2 ^ 14"
        by (intro mult_le_mono1 div_le_mono add_le_mono1) (rule c(4))
      also have "\<dots> = 2 ^ B"
      proof -
        have "(2::nat) ^ B = 2 ^ (B - 14) * 2 ^ 14"
          by (simp only: power_add [symmetric] le_add_diff_inverse2 [OF assms(2)])
        then show ?thesis by simp
      qed
      finally have b: "unat ?b \<le> 2 ^ B" unfolding ub .
      have e: "x + unat (?b - ?x) = unat ?b" "y + unat (?b - ?y) = unat ?b"
        using c(3) yb by (simp_all add: unat_sub_le x_def y_def)
      have P: "plan_with_hole hi4gb def_type r rest = [(?x, ?b - ?x, ty), (?y, ?b - ?y, def_type)]"
        unfolding plan using F1 False by (simp only: simp_thms if_True if_False)
      have "T = span x (unat ?b) ty p \<union> span y (unat ?b) def_type p"
        unfolding T_def P p_def using e by (simp only: plan_types_Cons plan_types_Nil ux uy Un_empty_right)
      moreover have "plan_ok bits (plan_with_hole hi4gb def_type r rest)"
        unfolding P using e ok [OF b] range_entry_mtrr_type_less [of r] assms(6)
        by (simp add: plan_ok_Cons ux uy ty_def)
      moreover have "rest = [] \<or> range_entry_mtrr_type (hd rest) = def_type \<and> unat ?b \<le> unat (range_entry_end_mtrr_addr (hd rest))"
        using False by (cases rest) (auto simp: word_less_nat_alt)
      ultimately show thesis using yb by (intro hole)
    qed
  qed
qed

section \<open>The variable registers against the address space\<close>

text \<open>How the processor combines the types that match: UC wins, none gives the default.\<close>

definition resolves :: "u32 \<Rightarrow> u32 set \<Rightarrow> u32 \<Rightarrow> bool" where
  "resolves def_type T t \<longleftrightarrow> T = {} \<and> t = def_type \<or> 0 \<in> T \<and> t = 0 \<or> T = {t}"

definition effective_type :: "mtrr_cpu \<Rightarrow> nat \<Rightarrow> u64 \<Rightarrow> u32 option" where
  "effective_type cpu n a =
     (case remdups (map (var_mtrr_type cpu) (filter (\<lambda>m. var_mtrr_match cpu m a) [0..<n])) of
        [] \<Rightarrow> Some (msr_lo (rdmsr MTRRdefType_MSR cpu) AND 0xff)
      | [t] \<Rightarrow> Some t
      | ts \<Rightarrow> if MTRR_TYPE_UNCACHEABLE \<in> set ts then Some MTRR_TYPE_UNCACHEABLE else None)"

lemma effective_type_resolves:
  assumes "resolves (msr_lo (rdmsr MTRRdefType_MSR cpu) AND 0xff) (match_types cpu 0 n a) t"
  shows "effective_type cpu n a = Some t"
proof -
  let ?ts = "remdups (map (var_mtrr_type cpu) (filter (\<lambda>m. var_mtrr_match cpu m a) [0..<n]))"
  have "set ?ts = match_types cpu 0 n a" by (auto simp: match_types_def)
  moreover have "distinct ?ts" by simp
  moreover obtain ts where ts: "?ts = ts" by blast
  ultimately have res: "resolves (msr_lo (rdmsr MTRRdefType_MSR cpu) AND 0xff) (set ts) t" and dis: "distinct ts"
    using assms by auto
  show ?thesis
  proof (cases ts)
    case Nil
    then show ?thesis using res unfolding effective_type_def ts by (simp add: resolves_def)
  next
    case (Cons u us)
    show ?thesis
    proof (cases us)
      case Nil
      then show ?thesis using res Cons unfolding effective_type_def ts by (auto simp: resolves_def)
    next
      case (Cons v vs)
      then have "u \<in> set ts" "v \<in> set ts" "u \<noteq> v" using \<open>ts = u # us\<close> dis by auto
      then have "0 \<in> set ts \<and> t = 0" using res unfolding resolves_def by (metis empty_iff singletonD)
      then show ?thesis
        unfolding effective_type_def ts using Cons \<open>ts = u # us\<close> by simp
    qed
  qed
qed

definition commit_one :: "bool \<Rightarrow> u32 \<Rightarrow> range_entry \<Rightarrow> memranges \<Rightarrow> plan" where
  "commit_one hi4gb def_type r rest =
     (if range_entry_mtrr_type r = def_type then []
      else if def_type = MTRR_TYPE_UNCACHEABLE \<and> re_tag r AND MTRR_RANGE_UC_USE_HOLE \<noteq> 0
      then plan_with_hole hi4gb def_type r rest else plan_without_hole hi4gb r)"

lemma plan_ignored: "ignored hi4gb r \<Longrightarrow> plan_without_hole hi4gb r = []" "ignored hi4gb r \<Longrightarrow> plan_with_hole hi4gb def_type r rest = []"
  by (simp_all add: plan_without_hole_def plan_with_hole_def Let_def)

text \<open>What one entry adds at a page: nothing, its own type, or its type under the default, in the hole above it.\<close>

lemma commit_one_cases:
  fixes a :: u64 and rest :: memranges
  assumes "entry_ok B r" "14 \<le> B" "B \<le> 31" "B + 12 \<le> bits" "unat def_type < 2 ^ 8"
    and "256 \<le> p" "hi4gb \<or> p < 2 ^ 20" "p = unat a div 4096"
  defines "T \<equiv> plan_types (commit_one hi4gb def_type r rest) a"
  shows "plan_ok bits (commit_one hi4gb def_type r rest)"
    and "p < page_lo r \<Longrightarrow> T = {}"
    and "page_lo r \<le> p \<Longrightarrow> p < page_hi r \<Longrightarrow>
      T = (if range_entry_mtrr_type r = def_type then {} else {range_entry_mtrr_type r})"
    and "page_hi r \<le> p \<Longrightarrow> rest \<noteq> [] \<Longrightarrow> T \<noteq> {} \<Longrightarrow>
      0 \<in> T \<and> def_type = 0 \<and> range_entry_mtrr_type (hd rest) = 0 \<and> p < unat (range_entry_end_mtrr_addr (hd rest))"
proof -
  let ?ty = "range_entry_mtrr_type r"
  consider (none) "commit_one hi4gb def_type r rest = []" "?ty = def_type \<or> ignored hi4gb r"
    | (without) "commit_one hi4gb def_type r rest = plan_without_hole hi4gb r" "?ty \<noteq> def_type" "\<not> ignored hi4gb r"
    | (hole) "commit_one hi4gb def_type r rest = plan_with_hole hi4gb def_type r rest" "?ty \<noteq> def_type" "\<not> ignored hi4gb r" "def_type = 0"
  proof (cases "?ty = def_type \<or> ignored hi4gb r")
    case True
    then show ?thesis by (intro none) (auto simp only: commit_one_def plan_ignored split: if_split)
  next
    case False
    then have F: "?ty \<noteq> def_type" "\<not> ignored hi4gb r" by blast+
    show ?thesis
    proof (cases "def_type = MTRR_TYPE_UNCACHEABLE \<and> re_tag r AND MTRR_RANGE_UC_USE_HOLE \<noteq> 0")
      case True
      show ?thesis by (rule hole) (use F True in \<open>simp_all only: commit_one_def simp_thms if_True if_False\<close>)
    next
      case H: False
      show ?thesis by (rule without) (use F H in \<open>simp_all only: commit_one_def simp_thms if_True if_False\<close>)
    qed
  qed
  then have "plan_ok bits (commit_one hi4gb def_type r rest) \<and> (p < page_lo r \<longrightarrow> T = {})
     \<and> (page_lo r \<le> p \<and> p < page_hi r \<longrightarrow> T = (if ?ty = def_type then {} else {?ty}))
     \<and> (page_hi r \<le> p \<and> rest \<noteq> [] \<and> T \<noteq> {} \<longrightarrow>
      0 \<in> T \<and> def_type = 0 \<and> range_entry_mtrr_type (hd rest) = 0 \<and> p < unat (range_entry_end_mtrr_addr (hd rest)))"
  proof cases
    case none
    then show ?thesis
      using not_ignored_page [OF assms(1,3,6,7)] by (auto simp: T_def)
  next
    case without
    note s = clip_span_cases [OF assms(1,3) without(3) assms(6,7)]
    have "T = span (unat (clip_base r)) (unat (clip_end hi4gb r)) ?ty p"
      using plan_without_hole_types(1) [OF assms(1,3,4) without(3), of a] without(1) assms(8) by (simp add: T_def)
    then show ?thesis
      using plan_without_hole_types(2) [OF assms(1,3,4) without(3)] without s by (auto simp: span_def)
  next
    case hole
    note s = clip_span_cases [OF assms(1,3) hole(3) assms(6,7)]
    note c = clip_bounds [OF assms(1,3) hole(3)]
    show ?thesis
    proof (rule plan_with_hole_types [OF assms(1-4) hole(3) assms(5), of rest a, folded assms(8)])
      fix z
      assume "2 ^ 20 \<le> unat (clip_base r)" "rest = []" "unat (clip_end hi4gb r) \<le> z"
        "plan_types (plan_with_hole hi4gb def_type r rest) a = span (unat (clip_base r)) z ?ty p"
        "plan_ok bits (plan_with_hole hi4gb def_type r rest)"
      then show ?thesis using s hole by (auto simp: T_def span_def)
    next
      assume "plan_types (plan_with_hole hi4gb def_type r rest) a = span (unat (clip_base r)) (unat (clip_end hi4gb r)) ?ty p"
        "plan_ok bits (plan_with_hole hi4gb def_type r rest)"
      then show ?thesis using s hole by (auto simp: T_def span_def)
    next
      fix z
      assume "unat (clip_end hi4gb r) \<le> z"
        "plan_types (plan_with_hole hi4gb def_type r rest) a =
          span (unat (clip_base r)) z ?ty p \<union> span (unat (clip_end hi4gb r)) z def_type p"
        "plan_ok bits (plan_with_hole hi4gb def_type r rest)"
        "rest = [] \<or> range_entry_mtrr_type (hd rest) = def_type \<and> z \<le> unat (range_entry_end_mtrr_addr (hd rest))"
      then show ?thesis using s hole c(3) by (auto simp: T_def span_def split: if_splits)
    qed
  qed
  then show "plan_ok bits (commit_one hi4gb def_type r rest)" and "p < page_lo r \<Longrightarrow> T = {}"
    and "page_lo r \<le> p \<Longrightarrow> p < page_hi r \<Longrightarrow> T = (if ?ty = def_type then {} else {?ty})"
    and "page_hi r \<le> p \<Longrightarrow> rest \<noteq> [] \<Longrightarrow> T \<noteq> {} \<Longrightarrow>
      0 \<in> T \<and> def_type = 0 \<and> range_entry_mtrr_type (hd rest) = 0 \<and> p < unat (range_entry_end_mtrr_addr (hd rest))"
    by blast+
qed

lemma commit_plan_Cons: "commit_plan hi4gb def_type (r # rest) = commit_one hi4gb def_type r rest @ commit_plan hi4gb def_type rest"
  by (simp add: commit_one_def)

lemma plan_ok_append: "plan_ok bits (ps @ qs) \<longleftrightarrow> plan_ok bits ps \<and> plan_ok bits qs"
  by (simp only: plan_ok_def set_append ball_Un)

lemma commit_plan_ok:
  assumes "\<forall>r\<in>set rs. entry_ok B r" "14 \<le> B" "B \<le> 31" "B + 12 \<le> bits" "unat def_type < 2 ^ 8"
  shows "plan_ok bits (commit_plan hi4gb def_type rs)"
  using assms(1)
proof (induction rs)
  case (Cons r rs)
  have "plan_ok bits (commit_one hi4gb def_type r rs)"
    using commit_one_cases(1) [OF _ assms(2-5), of r 256 hi4gb "of_nat (256 * 4096)" rs] Cons.prems by simp
  with Cons show ?case unfolding commit_plan_Cons plan_ok_append by simp
qed simp

lemma commit_plan_below:
  assumes "\<forall>r\<in>set rs. entry_ok B r \<and> p < page_lo r" "14 \<le> B" "B \<le> 31" "B + 12 \<le> bits" "unat def_type < 2 ^ 8"
    and "256 \<le> p" "hi4gb \<or> p < 2 ^ 20" "p = unat (a::u64) div 4096"
  shows "plan_types (commit_plan hi4gb def_type rs) a = {}"
  using assms(1)
proof (induction rs)
  case (Cons r rs)
  have "plan_types (commit_one hi4gb def_type r rs) a = {}"
    using commit_one_cases(2) [OF _ assms(2-8), of r rs] Cons.prems by simp
  with Cons show ?case unfolding commit_plan_Cons plan_types_append by simp
qed simp

lemma commit_plan_resolves:
  assumes "wf_ranges rs" "\<forall>r\<in>set rs. entry_ok B r" "14 \<le> B" "B \<le> 31" "B + 12 \<le> bits" "unat def_type < 2 ^ 8"
    and "256 \<le> p" "hi4gb \<or> p < 2 ^ 20" "p = unat (a::u64) div 4096" "tag_at rs a = Some t"
  shows "resolves def_type (plan_types (commit_plan hi4gb def_type rs) a) (t AND MTRR_TAG_MASK)"
  using assms(1,2,10)
proof (induction rs)
  case (Cons r rs)
  have ok: "entry_ok B r" "\<forall>x\<in>set rs. entry_ok B x" "wf_ranges rs" "all_above (re_end r) rs" using Cons.prems by auto
  note covers = entry_covers [OF ok(1), of a, folded assms(9)]
  note one = commit_one_cases [OF ok(1) assms(3-9), of rs]
  have later: "plan_types (commit_plan hi4gb def_type xs) a = {}"
    if "all_above c xs" "a \<le> c" "\<forall>x\<in>set xs. entry_ok B x" for c xs
  proof (rule commit_plan_below [OF _ assms(3-9)], intro ballI conjI)
    fix x assume "x \<in> set xs"
    then have "entry_ok B x" "a < re_begin x" using that by (auto simp: all_above_def)
    then show "entry_ok B x" "p < page_lo x" using entry_covers(1) [of B x a, folded assms(9)] by auto
  qed
  show ?case
  proof (cases "re_begin r \<le> a \<and> a \<le> re_end r")
    case True
    then have t: "t AND MTRR_TAG_MASK = range_entry_mtrr_type r"
      using Cons.prems by (simp add: range_entry_mtrr_type_def)
    have "plan_types (commit_plan hi4gb def_type rs) a = {}" by (rule later [OF ok(4)]) (use True ok in auto)
    then show ?thesis
      unfolding commit_plan_Cons plan_types_append t using one(3) True covers by (auto simp: resolves_def)
  next
    case False
    then have tag: "tag_at rs a = Some t" using Cons.prems by auto
    have above: "re_end r < a"
    proof (rule ccontr)
      assume "\<not> re_end r < a"
      then have "tag_at rs a = None" using tag_at_below [OF ok(4)] by simp
      then show False using tag by simp
    qed
    then have hi: "page_hi r \<le> p" using covers(2) by auto
    obtain x xs where rs: "rs = x # xs" using tag by (cases rs) auto
    show ?thesis
    proof (cases "plan_types (commit_one hi4gb def_type r rs) a = {}")
      case True
      then show ?thesis unfolding commit_plan_Cons plan_types_append using Cons.IH [OF ok(3,2) tag] by simp
    next
      case H: False
      note h = one(4) [OF hi _ H]
      have x: "entry_ok B x" "all_above (re_end x) xs" using ok rs by auto
      have "p < page_hi x" using h entry_pages(2) [OF x(1) assms(4)] by (simp add: rs)
      then have ax: "a \<le> re_end x" using entry_covers(2) [OF x(1), of a] assms(9) by simp
      then have "tag_at xs a = None" using tag_at_below [OF x(2)] by simp
      then have "re_tag x = t" using tag by (simp add: rs split: if_splits)
      then have "t AND MTRR_TAG_MASK = 0" using h by (simp add: rs range_entry_mtrr_type_def)
      then show ?thesis
        unfolding commit_plan_Cons plan_types_append using h by (simp only: rs resolves_def) blast
    qed
  qed
qed simp

lemma clear_all:
  assumes "k \<le> n" "n \<le> 256"
  shows "same_elsewhere k n cpu (fold clear_var_mtrr [k..<n] cpu)
    \<and> (\<forall>m. k \<le> m \<and> m < n \<longrightarrow> \<not> var_mtrr_match (fold clear_var_mtrr [k..<n] cpu) m a)"
  using assms
proof (induction n)
  case 0
  then show ?case by (simp add: same_elsewhere_def)
next
  case (Suc n)
  show ?case
  proof (cases "k = Suc n")
    case True
    then show ?thesis by (auto simp: same_elsewhere_def)
  next
    case False
    then have k: "k \<le> n" using Suc.prems by simp
    let ?c = "fold clear_var_mtrr [k..<n] cpu"
    have f: "fold clear_var_mtrr [k..<Suc n] cpu = clear_var_mtrr n ?c" using k by simp
    have IH: "same_elsewhere k n cpu ?c" "\<forall>m. k \<le> m \<and> m < n \<longrightarrow> \<not> var_mtrr_match ?c m a"
      using Suc k by auto
    have s: "same_elsewhere n (Suc n) ?c (clear_var_mtrr n ?c)"
      by (auto simp: same_elsewhere_def clear_var_mtrr_def rdmsr_def wrmsr_def Let_def less_Suc_eq_le)
    have "\<not> var_mtrr_match (clear_var_mtrr n ?c) n a"
      by (simp add: var_mtrr_match_def clear_var_mtrr_def rdmsr_def wrmsr_def Let_def bit_simps bit_2048)
    moreover have "\<not> var_mtrr_match (clear_var_mtrr n ?c) m a" if "k \<le> m" "m < n" for m
      using same_elsewhere_keeps(1) [OF s, of m a] IH(2) that Suc.prems by simp
    ultimately show ?thesis
      unfolding f using same_elsewhere_trans [OF IH(1) s k] by (auto simp: less_Suc_eq)
  qed
qed

lemma match_types_none: "(\<forall>m. i \<le> m \<and> m < j \<longrightarrow> \<not> var_mtrr_match cpu m a) \<Longrightarrow> match_types cpu i j a = {}"
  by (auto simp: match_types_def)

lemma commit_var_mtrrs_types:
  assumes "plan_length (commit_plan hi4gb def_type rs) \<le> n" "n \<le> 256" "plan_ok bits (commit_plan hi4gb def_type rs)"
    and "unat a < 2 ^ bits"
  shows "match_types (commit_var_mtrrs n rs def_type hi4gb bits cpu) 0 n a = plan_types (commit_plan hi4gb def_type rs) a"
proof -
  let ?st = "\<lparr>above4gb = hi4gb, address_bits = bits, commit_mtrrs = True, mtrr_index = 0, def_mtrr_type = def_type\<rparr>"
  let ?p = "commit_plan hi4gb def_type rs"
  let ?c = "snd (run_plan n ?p ?st cpu)"
  have eq: "commit_var_mtrrs n rs def_type hi4gb bits cpu = fold clear_var_mtrr [plan_length ?p..<n] ?c"
    by (simp add: commit_var_mtrrs_def Let_def commit_entries_plan case_prod_unfold run_plan_index)
  have "match_types ?c 0 (plan_length ?p) a = plan_types ?p a"
    using run_plan_types [of ?st ?p n cpu] assms by simp
  then show ?thesis
    unfolding eq using clear_all [OF assms(1,2), of ?c a] assms(2)
      match_types_split [OF le0 assms(1,2), of ?c "fold clear_var_mtrr [plan_length ?p..<n] ?c" a]
      match_types_none [of "plan_length ?p" n "fold clear_var_mtrr [plan_length ?p..<n] ?c" a]
    by simp
qed

lemma MTRRdefType_not_var [simp]: "m < 127 \<Longrightarrow> MTRRphysBase_MSR m \<noteq> MTRRdefType_MSR \<and> MTRRphysMask_MSR m \<noteq> MTRRdefType_MSR"
  by (simp add: MTRRphysBase_MSR_def MTRRphysMask_MSR_def word_unat_eq_iff unat_word_ariths unat_of_nat)

lemma enable_var_mtrr_keeps:
  assumes "n \<le> 127"
  shows "match_types (enable_var_mtrr ty cpu) 0 n a = match_types cpu 0 n a"
proof -
  have "var_mtrr_match (enable_var_mtrr ty cpu) m a = var_mtrr_match cpu m a"
    "var_mtrr_type (enable_var_mtrr ty cpu) m = var_mtrr_type cpu m" if "m < n" for m
    using MTRRdefType_not_var [of m] that assms
    by (simp_all add: enable_var_mtrr_def Let_def var_mtrr_match_def var_mtrr_type_def rdmsr_def wrmsr_def)
  then show ?thesis unfolding match_types_def by (metis (no_types, lifting))
qed

lemma enable_var_mtrr_default:
  "msr_lo (rdmsr MTRRdefType_MSR (enable_var_mtrr ty cpu)) AND 0xff = ucast ty"
proof -
  have m: "(0xff::u32) = mask 8" by (simp add: mask_eq_exp_minus_1)
  let ?lo = "msr_lo (rdmsr MTRRdefType_MSR cpu)"
  have "((?lo AND NOT (mask 8)) OR (2 ^ 11 OR ucast ty)) AND mask 8 = (ucast ty :: u32)"
  proof (rule bit_word_eqI)
    fix i :: nat assume "i < LENGTH(32)"
    then show "bit (((?lo AND NOT (mask 8)) OR (2 ^ 11 OR ucast ty)) AND mask 8) i = bit (ucast ty :: u32) i"
      using bit_imp_le_length [of ty i] by (simp only: bit_and_iff bit_or_iff bit_not_iff bit_mask_iff bit_exp_iff bit_ucast_iff) auto
  qed
  then show ?thesis by (simp only: enable_var_mtrr_def Let_def rdmsr_def wrmsr_def m) simp
qed

text \<open>
  C9.  After the variable registers are written and the default type is set, the type the
  processor gives every tagged address from 1 MiB up (below 4 GiB unless the upper part is
  wanted) is the type of its tag, for both default types and with and without holes, when
  the ranges are whole pages and there are enough registers.
\<close>
theorem commit_var_mtrrs_correct:
  assumes "wf_ranges space" "\<forall>r\<in>set space. entry_ok B r" "14 \<le> B" "B \<le> 31" "B + 12 \<le> bits"
    and "mtrr_index (fst (commit_entries n def_type space
           \<lparr>above4gb = hi4gb, address_bits = bits, commit_mtrrs = True, mtrr_index = 0, def_mtrr_type = def_type\<rparr> cpu)) \<le> n"
    and "n \<le> 127" "def_type = MTRR_TYPE_UNCACHEABLE \<or> def_type = MTRR_TYPE_WRBACK"
    and "tag_at space a = Some t" "2 ^ 20 \<le> unat a" "hi4gb \<or> unat a < 2 ^ 32"
  shows "effective_type (enable_var_mtrr (ucast def_type) (commit_var_mtrrs n space def_type hi4gb bits cpu)) n a
    = Some (t AND MTRR_TAG_MASK)"
proof -
  let ?cpu = "commit_var_mtrrs n space def_type hi4gb bits cpu"
  let ?p = "unat a div 4096"
  have def8: "unat def_type < 2 ^ 8" and ud: "ucast (ucast def_type :: u8) = def_type" using assms(8) by auto
  have p: "256 \<le> ?p" "hi4gb \<or> ?p < 2 ^ 20" using assms(10,11) by auto
  have len: "plan_length (commit_plan hi4gb def_type space) \<le> n"
    using assms(6) by (simp add: commit_entries_plan run_plan_index)
  have "\<exists>r\<in>set space. re_begin r \<le> a \<and> a \<le> re_end r"
    using assms(9) by (induction space) (auto split: if_splits)
  then obtain r where r: "entry_ok B r" "a \<le> re_end r" using assms(2) by blast
  have "unat a \<le> unat (re_end r)" using r(2) by (simp add: word_le_nat_alt)
  moreover have "unat (re_end r) + 1 \<le> 2 ^ bits"
    using r(1) pages_ok [OF order_refl assms(4,5)] unfolding entry_ok_def by linarith
  ultimately have a: "unat a < 2 ^ bits" by linarith
  have "match_types ?cpu 0 n a = plan_types (commit_plan hi4gb def_type space) a"
    by (rule commit_var_mtrrs_types [OF len _ commit_plan_ok [OF assms(2-5) def8] a]) (use assms(7) in simp)
  moreover have "resolves def_type (plan_types (commit_plan hi4gb def_type space) a) (t AND MTRR_TAG_MASK)"
    by (rule commit_plan_resolves [OF assms(1-5) def8 p refl assms(9)])
  ultimately show ?thesis
    by (intro effective_type_resolves) (simp only: enable_var_mtrr_keeps [OF assms(7)] enable_var_mtrr_default ud)
qed

definition example_cpu :: mtrr_cpu where
  "example_cpu = \<lparr>msrs = (\<lambda>_. \<lparr>msr_lo = 0, msr_hi = 0\<rparr>), cr0 = 0\<rparr>"

text \<open>Two GiB of memory, a hole for devices below 4 GiB, and two GiB of memory above, which takes a hole.\<close>

definition example_space :: memranges where
  "example_space =
     [\<lparr>re_begin = 0, re_end = 0x7fffffff, re_tag = 6\<rparr>,
      \<lparr>re_begin = 0x80000000, re_end = 0xffffffff, re_tag = 0\<rparr>,
      \<lparr>re_begin = 0x100000000, re_end = 0x17effffff, re_tag = 0x106\<rparr>]"

theorem commit_var_mtrrs_correct_witness:
  "effective_type (enable_var_mtrr (ucast MTRR_TYPE_UNCACHEABLE)
     (commit_var_mtrrs 8 example_space MTRR_TYPE_UNCACHEABLE True 40 example_cpu)) 8 0x17effffff = Some 6"
proof -
  have ix: "mtrr_index (fst (commit_entries 8 0 example_space
      \<lparr>above4gb = True, address_bits = 40, commit_mtrrs = True, mtrr_index = 0, def_mtrr_type = 0\<rparr> example_cpu)) \<le> 8"
    by code_simp
  have "effective_type (enable_var_mtrr (ucast MTRR_TYPE_UNCACHEABLE)
     (commit_var_mtrrs 8 example_space MTRR_TYPE_UNCACHEABLE True 40 example_cpu)) 8 0x17effffff = Some (0x106 AND MTRR_TAG_MASK)"
  proof (rule commit_var_mtrrs_correct [where B = 28, OF _ _ _ _ _ ix])
    show "wf_ranges example_space" by code_simp
    show "\<forall>r\<in>set example_space. entry_ok 28 r" by (simp add: example_space_def entry_ok_def dvd_eq_mod_eq_0)
    show "tag_at example_space 0x17effffff = Some 0x106" by code_simp
  qed simp_all
  then show ?thesis by simp
qed

text \<open>
  The hole mark that the first counting pass leaves on an entry is not cleared when the
  second pass, after the write-combining entries became uncacheable, prefers no hole.  For
  this address space the count that decides is 2, the registers are programmed with 15, and
  with 8 registers an uncacheable address ends up write-back.
\<close>
lemma stale_hole_mark_exceeds_count:
  "let space = [\<lparr>re_begin = 0, re_end = 0x4000fff, re_tag = 6\<rparr>, \<lparr>re_begin = 0x4001000, re_end = 0x7ffffff, re_tag = 1\<rparr>,
                \<lparr>re_begin = 0x8000000, re_end = 0xffffffff, re_tag = 0\<rparr>];
       (def_type, space', pool) = calc_var_mtrrs mtrr_globals_init True 40 space example_pool example_cpu;
       st = \<lparr>above4gb = True, address_bits = 40, commit_mtrrs = True, mtrr_index = 0, def_mtrr_type = def_type\<rparr>
   in def_type = MTRR_TYPE_UNCACHEABLE
      \<and> snd (snd (calc_var_mtrrs_counts 8 True 40 space' 0 0 example_cpu)) = 2
      \<and> mtrr_index (fst (commit_entries 8 def_type space' st example_cpu)) = 15
      \<and> tag_at space' 0x4100000 = Some MTRR_TYPE_UNCACHEABLE
      \<and> effective_type (enable_var_mtrr (ucast def_type) (commit_var_mtrrs 8 space' def_type True 40 example_cpu)) 8 0x4100000
          = Some MTRR_TYPE_WRBACK"
  by code_simp

section \<open>The counts that choose the default type\<close>

text \<open>The plans only look at an entry's bounds and type and at those of the next one, not at the hole mark.\<close>

definition same_range :: "range_entry \<Rightarrow> range_entry \<Rightarrow> bool" where
  "same_range r s \<longleftrightarrow> re_begin r = re_begin s \<and> re_end r = re_end s \<and> range_entry_mtrr_type r = range_entry_mtrr_type s"

lemma same_range_plans:
  assumes "same_range r s" "list_all2 same_range rs ss"
  shows "plan_without_hole hi4gb r = plan_without_hole hi4gb s"
    and "plan_with_hole hi4gb def_type r rs = plan_with_hole hi4gb def_type s ss"
proof -
  have a: "range_entry_base_mtrr_addr x = range_entry_base_mtrr_addr y" "range_entry_end_mtrr_addr x = range_entry_end_mtrr_addr y"
    "range_entry_mtrr_type x = range_entry_mtrr_type y" if "same_range x y" for x y
    using that by (simp_all add: same_range_def range_entry_base_mtrr_addr_def range_entry_end_mtrr_addr_def
        range_entry_base_def range_entry_end_def)
  have c: "clip_base r = clip_base s" "clip_end hi4gb r = clip_end hi4gb s" "ignored hi4gb r = ignored hi4gb s"
    using a [OF assms(1)] by (simp_all add: clip_base_def clip_end_def ignored_def)
  show "plan_without_hole hi4gb r = plan_without_hole hi4gb s"
    unfolding plan_without_hole_def using a [OF assms(1)] c by simp
  show "plan_with_hole hi4gb def_type r rs = plan_with_hole hi4gb def_type s ss"
  proof (cases rs)
    case Nil
    then have ss: "ss = []" using assms(2) by simp
    show ?thesis unfolding plan_with_hole_def a(3) [OF assms(1)] c Nil ss by (rule refl)
  next
    case (Cons x xs)
    then obtain y ys where y: "ss = y # ys" "same_range x y" using assms(2) by (cases ss) auto
    show ?thesis
      unfolding plan_with_hole_def a(3) [OF assms(1)] c Cons y(1) list.case a(2,3) [OF y(2)] list.distinct(2) [THEN eq_False [THEN iffD2]] by (rule refl)
  qed
qed

lemma mark_hole:
  "range_entry_mtrr_type (range_entry_update_tag r (range_entry_mtrr_type r OR MTRR_RANGE_UC_USE_HOLE)) = range_entry_mtrr_type r"
  "re_tag (range_entry_update_tag r (range_entry_mtrr_type r OR MTRR_RANGE_UC_USE_HOLE)) AND MTRR_RANGE_UC_USE_HOLE \<noteq> 0"
proof -
  have m: "(0xff::u32) = mask 8" by (simp add: mask_eq_exp_minus_1)
  have "((re_tag r AND mask 8) OR 2 ^ 8) AND mask 8 = re_tag r AND mask 8"
  proof (rule bit_word_eqI)
    fix i :: nat assume "i < LENGTH(32)"
    show "bit (((re_tag r AND mask 8) OR 2 ^ 8) AND mask 8) i = bit (re_tag r AND mask 8) i"
      by (simp only: bit_and_iff bit_or_iff bit_mask_iff bit_exp_iff) auto
  qed
  then show "range_entry_mtrr_type (range_entry_update_tag r (range_entry_mtrr_type r OR MTRR_RANGE_UC_USE_HOLE)) = range_entry_mtrr_type r"
    unfolding range_entry_mtrr_type_def range_entry_update_tag_def m by simp
  have "bit ((re_tag r AND 0xff OR 2 ^ 8) AND (2 ^ 8 :: u32)) 8"
    by (simp only: bit_and_iff bit_or_iff bit_exp_iff) simp
  then have "(re_tag r AND 0xff OR 2 ^ 8) AND (2 ^ 8 :: u32) \<noteq> 0"
    by (metis bit_0_eq bot_apply bot_bool_def)
  then show "re_tag (range_entry_update_tag r (range_entry_mtrr_type r OR MTRR_RANGE_UC_USE_HOLE)) AND MTRR_RANGE_UC_USE_HOLE \<noteq> 0"
    unfolding range_entry_mtrr_type_def range_entry_update_tag_def by simp
qed

lemma count_entry_plan:
  assumes "count_entry n hi4gb bits r rest wb uc cpu = (r', wb', uc')" "re_tag r AND MTRR_RANGE_UC_USE_HOLE = 0"
  shows "same_range r' r"
    and "list_all2 same_range rest' rest \<Longrightarrow> wb' = wb + plan_length (commit_one hi4gb MTRR_TYPE_WRBACK r' rest')"
    and "list_all2 same_range rest' rest \<Longrightarrow> uc' < 64 \<Longrightarrow> uc' = uc + plan_length (commit_one hi4gb MTRR_TYPE_UNCACHEABLE r' rest')"
proof -
  let ?ty = "range_entry_mtrr_type r"
  let ?no = "plan_length (plan_without_hole hi4gb r)" and ?ho = "plan_length (plan_with_hole hi4gb MTRR_TYPE_UNCACHEABLE r rest)"
  let ?m = "range_entry_update_tag r (?ty OR MTRR_RANGE_UC_USE_HOLE)"
  have r': "r' = (if ?ty \<noteq> 0 \<and> \<not> ?no < (if ?ty = 6 then ?ho else 64) then ?m else r)"
    and wb': "wb' = (if ?ty \<noteq> 6 then wb + ?no else wb)"
    and uc': "uc' = (if ?ty \<noteq> 0 then uc + (if ?no < (if ?ty = 6 then ?ho else 64) then ?no else if ?ty = 6 then ?ho else 64) else uc)"
    using assms(1) by (auto simp: count_entry_def Let_def without_hole_plan with_hole_plan run_plan_index split: if_splits)
  show same: "same_range r' r"
    using mark_hole(1) [of r] by (simp add: r' same_range_def range_entry_update_tag_def)
  assume rest: "list_all2 same_range rest' rest"
  note p = same_range_plans [OF same rest]
  have ty: "range_entry_mtrr_type r' = ?ty" using same by (simp add: same_range_def)
  show "wb' = wb + plan_length (commit_one hi4gb MTRR_TYPE_WRBACK r' rest')"
    unfolding commit_one_def ty p wb' by (simp add: plan_length_def)
  assume less: "uc' < 64"
  show "uc' = uc + plan_length (commit_one hi4gb MTRR_TYPE_UNCACHEABLE r' rest')"
  proof (cases "?ty = 6 \<and> \<not> ?no < ?ho")
    case True
    then have "re_tag r' AND MTRR_RANGE_UC_USE_HOLE \<noteq> 0" using mark_hole(2) [of r] by (simp add: r')
    with True show ?thesis unfolding commit_one_def ty p uc' by simp
  next
    case False
    have "?ty = 0 \<or> r' = r \<and> uc' = uc + ?no"
      using False less unfolding r' uc' by (auto split: if_splits)
    then show ?thesis
      using assms(2) unfolding commit_one_def ty p by (auto simp: uc' plan_length_def)
  qed
qed

lemma counts_plan:
  assumes "calc_var_mtrrs_counts n hi4gb bits rs wb uc cpu = (rs', wb', uc')" "\<forall>r\<in>set rs. re_tag r AND MTRR_RANGE_UC_USE_HOLE = 0"
    and "uc' < 64"
  shows "list_all2 same_range rs' rs \<and> wb' = wb + plan_length (commit_plan hi4gb MTRR_TYPE_WRBACK rs')
    \<and> uc' = uc + plan_length (commit_plan hi4gb MTRR_TYPE_UNCACHEABLE rs')"
  using assms
proof (induction rs arbitrary: rs' wb uc)
  case Nil
  then show ?case by (simp add: plan_length_def)
next
  case (Cons r rs)
  obtain r1 wb1 uc1 where one: "count_entry n hi4gb bits r rs wb uc cpu = (r1, wb1, uc1)" by (cases "count_entry n hi4gb bits r rs wb uc cpu")
  obtain rs1 where rs1: "calc_var_mtrrs_counts n hi4gb bits rs wb1 uc1 cpu = (rs1, wb', uc')" "rs' = r1 # rs1"
    using Cons.prems(1) by (auto simp: one split: prod.splits)
  have IH: "list_all2 same_range rs1 rs \<and> wb' = wb1 + plan_length (commit_plan hi4gb MTRR_TYPE_WRBACK rs1)
    \<and> uc' = uc1 + plan_length (commit_plan hi4gb MTRR_TYPE_UNCACHEABLE rs1)"
    by (rule Cons.IH [OF rs1(1)]) (use Cons.prems in auto)
  have app: "plan_length (ps @ qs) = plan_length ps + plan_length qs" for ps qs by (simp add: plan_length_def)
  have z: "re_tag r AND MTRR_RANGE_UC_USE_HOLE = 0" using Cons.prems(2) by simp
  have "uc1 < 64" using IH Cons.prems(3) by linarith
  with IH count_entry_plan(1) [OF one z] count_entry_plan(2,3) [OF one z, of rs1] show ?case
    by (simp only: rs1(2) commit_plan_Cons app list.rel_inject simp_thms add.assoc)
qed

text \<open>
  C24.  When no range has a hole mark yet, the two counts that choose the default type are
  exactly the registers that programming the marked ranges takes with that default, as long
  as the count for UC stays below the sentinel 64.
\<close>
theorem mtrr_counts_exact:
  assumes "calc_var_mtrrs_counts n hi4gb bits space 0 0 cpu = (space', wb, uc)"
    and "\<forall>r\<in>set space. re_tag r AND MTRR_RANGE_UC_USE_HOLE = 0" and "uc < 64"
    and "def_type = MTRR_TYPE_UNCACHEABLE \<or> def_type = MTRR_TYPE_WRBACK" and "def_mtrr_type st = def_type" and "above4gb st = hi4gb"
  shows "mtrr_index (fst (commit_entries n def_type space' st cpu'))
    = mtrr_index st + (if def_type = MTRR_TYPE_WRBACK then wb else uc)"
  using counts_plan [OF assms(1-3)] assms(4-6) by (auto simp: commit_entries_plan run_plan_index)

theorem mtrr_counts_exact_witness:
  "mtrr_index (fst (commit_entries 8 MTRR_TYPE_WRBACK
     (fst (calc_var_mtrrs_counts 8 True 40 [\<lparr>re_begin = 0, re_end = 0x7fffffff, re_tag = 6\<rparr>,
        \<lparr>re_begin = 0x80000000, re_end = 0xffffffff, re_tag = 0\<rparr>] 0 0 example_cpu))
     \<lparr>above4gb = True, address_bits = 40, commit_mtrrs = True, mtrr_index = 0, def_mtrr_type = MTRR_TYPE_WRBACK\<rparr> example_cpu)) = 1"
proof -
  let ?rs = "[\<lparr>re_begin = 0, re_end = 0x7fffffff, re_tag = 6\<rparr>, \<lparr>re_begin = 0x80000000, re_end = 0xffffffff, re_tag = 0\<rparr>]"
  let ?c = "calc_var_mtrrs_counts 8 True 40 ?rs 0 0 example_cpu"
  have c: "fst (snd ?c) = 1 \<and> snd (snd ?c) = 1" by code_simp
  then have e: "?c = (fst ?c, 1, 1)" by (simp add: prod_eq_iff)
  show ?thesis
    using mtrr_counts_exact [OF e, of MTRR_TYPE_WRBACK
      "\<lparr>above4gb = True, address_bits = 40, commit_mtrrs = True, mtrr_index = 0, def_mtrr_type = MTRR_TYPE_WRBACK\<rparr>" example_cpu]
    by simp
qed

section \<open>The fixed range registers against the address space\<close>

text \<open>The first page of the k-th fixed range, and the descriptors still ahead when the k-th is next.\<close>

definition fixed_page :: "nat \<Rightarrow> nat" where
  "fixed_page k = (if k < 8 then 16 * k else if k < 24 then 128 + 4 * (k - 8) else 192 + (k - 24))"

definition fixed_index :: "nat \<Rightarrow> nat" where
  "fixed_index p = (if p < 128 then p div 16 else if p < 192 then 8 + (p - 128) div 4 else 24 + (p - 192))"

definition fixed_boundary :: "nat \<Rightarrow> bool" where
  "fixed_boundary p \<longleftrightarrow> 256 \<le> p \<or> p = fixed_page (fixed_index p)"

definition descs_at :: "nat \<Rightarrow> fixed_mtrr_desc list" where
  "descs_at k = drop (if k < 8 then 0 else if k < 24 then 1 else if k < 88 then 2 else 3) fixed_mtrr_descs"

lemma fixed_page_mono: "i < j \<Longrightarrow> fixed_page i < fixed_page j"
  by (auto simp: fixed_page_def)

lemma fixed_page_le: "k \<le> 88 \<Longrightarrow> fixed_page k \<le> 256"
  by (auto simp: fixed_page_def)

lemma unat_fixed_page: "k \<le> 88 \<Longrightarrow> unat (of_nat (fixed_page k) :: u32) = fixed_page k"
  using fixed_page_le [of k] by (simp add: unat_of_nat)

lemma fixed_step:
  assumes "k < 88"
  shows "\<exists>d ds. descs_at k = d # ds
     \<and> of_nat (fixed_page k) + fd_step d = (of_nat (fixed_page (k + 1)) :: u32)
     \<and> (if of_nat (fixed_page (k + 1)) = fd_end d then ds else descs_at k) = descs_at (k + 1)
     \<and> fd_range_index d + unat ((of_nat (fixed_page k) - fd_begin d) div fd_step d) = k"
proof -
  have "\<forall>k\<in>set [0..<88]. case descs_at k of [] \<Rightarrow> False | d # ds \<Rightarrow>
       of_nat (fixed_page k) + fd_step d = (of_nat (fixed_page (k + 1)) :: u32)
     \<and> (if of_nat (fixed_page (k + 1)) = fd_end d then ds else descs_at k) = descs_at (k + 1)
     \<and> fd_range_index d + unat ((of_nat (fixed_page k) - fd_begin d) div fd_step d) = k"
    by code_simp
  then have "case descs_at k of [] \<Rightarrow> False | d # ds \<Rightarrow>
       of_nat (fixed_page k) + fd_step d = (of_nat (fixed_page (k + 1)) :: u32)
     \<and> (if of_nat (fixed_page (k + 1)) = fd_end d then ds else descs_at k) = descs_at (k + 1)
     \<and> fd_range_index d + unat ((of_nat (fixed_page k) - fd_begin d) div fd_step d) = k"
    by (rule bspec) (use assms in simp)
  then show ?thesis by (cases "descs_at k") (blast | simp)+
qed

lemma fixed_fill_spec:
  assumes "i \<le> j" "j \<le> 88" "length types = 88"
  shows "\<exists>types'. fixed_fill ty (of_nat (fixed_page j)) (of_nat (fixed_page i)) i (descs_at i) types = Some (descs_at j, types')
    \<and> length types' = 88 \<and> (\<forall>k<88. types' ! k = (if i \<le> k \<and> k < j then ty else types ! k))"
  using assms
proof (induction "j - i" arbitrary: i types)
  case 0
  then have "i = j" by simp
  then show ?case using 0 by (subst fixed_fill.simps) (auto simp: not_less)
next
  case (Suc x)
  then have i: "i < 88" "i < j" by auto
  obtain d ds where d: "descs_at i = d # ds" "of_nat (fixed_page i) + fd_step d = (of_nat (fixed_page (i + 1)) :: u32)"
    "(if of_nat (fixed_page (i + 1)) = fd_end d then ds else descs_at i) = descs_at (i + 1)"
    using fixed_step [OF i(1)] by blast
  have ne: "(of_nat (fixed_page i) :: u32) \<noteq> of_nat (fixed_page j)"
    using fixed_page_mono [OF i(2)] unat_fixed_page [of i] unat_fixed_page [of j] Suc.prems i by (metis less_irrefl less_imp_le)
  have "fixed_fill ty (of_nat (fixed_page j)) (of_nat (fixed_page i)) i (descs_at i) types
      = fixed_fill ty (of_nat (fixed_page j)) (of_nat (fixed_page (i + 1))) (i + 1) (descs_at (i + 1)) (types[i := ty])"
    using ne i Suc.prems(3) d(2,3) by (subst fixed_fill.simps) (simp add: d(1) Let_def)
  moreover obtain types' where
    "fixed_fill ty (of_nat (fixed_page j)) (of_nat (fixed_page (i + 1))) (i + 1) (descs_at (i + 1)) (types[i := ty]) = Some (descs_at j, types')"
    "length types' = 88" "\<forall>k<88. types' ! k = (if i + 1 \<le> k \<and> k < j then ty else types[i := ty] ! k)"
  proof -
    have "x = j - (i + 1)" "i + 1 \<le> j" "length (types[i := ty]) = 88" using Suc.hyps(2) Suc.prems by simp_all
    from Suc.hyps(1) [OF this(1,2) Suc.prems(2) this(3)] show thesis using that by blast
  qed
  ultimately show ?case using i Suc.prems(3) by (auto simp: nth_list_update)
qed

lemma skip_descs_at:
  assumes "i \<le> j" "j < 88"
  shows "skip_descs (of_nat (fixed_page j)) (descs_at i) = descs_at j"
proof -
  have e: "fd_end d \<le> of_nat (fixed_page j) \<longleftrightarrow> unat (fd_end d) \<le> fixed_page j" for d
    using unat_fixed_page [of j] assms by (simp add: word_le_nat_alt)
  show ?thesis
    unfolding skip_descs_def e using assms
    by (auto simp: descs_at_def fixed_mtrr_descs_def fixed_page_def)
qed

lemma fixed_index_inv: "p \<le> 256 \<Longrightarrow> fixed_boundary p \<Longrightarrow> p = fixed_page (fixed_index p) \<and> fixed_index p \<le> 88"
proof -
  assume "p \<le> 256" "fixed_boundary p"
  moreover have "256 = fixed_page (fixed_index 256)" by (simp add: fixed_page_def fixed_index_def)
  moreover have "fixed_index p \<le> 88" using \<open>p \<le> 256\<close> by (auto simp: fixed_index_def)
  ultimately show ?thesis by (cases "p = 256") (auto simp: fixed_boundary_def)
qed

lemma fixed_index_less: "p < 256 \<Longrightarrow> fixed_index p < 88"
  by (auto simp: fixed_index_def)

lemma fixed_entries_spec:
  assumes "wf_ranges rs" "\<forall>r\<in>set rs. entry_ok B r \<and> fixed_boundary (page_lo r) \<and> fixed_boundary (page_hi r) \<and> fixed_page i \<le> page_lo r"
    and "B \<le> 31" "i \<le> 88" "length types = 88"
  shows "\<exists>types'. fixed_entries amd rs (descs_at i) types = Some types' \<and> length types' = 88
    \<and> (\<forall>k<88. types' ! k = (case tag_at rs (of_nat (fixed_page k * 4096)) of Some t \<Rightarrow> fixed_type amd t | None \<Rightarrow> types ! k))"
  using assms
proof (induction rs arbitrary: i types)
  case Nil
  then show ?case by simp
next
  case (Cons r rs)
  let ?lo = "page_lo r" and ?hi = "page_hi r"
  have r: "entry_ok B r" "fixed_boundary ?lo" "fixed_boundary ?hi" "fixed_page i \<le> ?lo" and rs: "all_above (re_end r) rs" "wf_ranges rs"
    using Cons.prems by auto
  note e = entry_pages [OF r(1) Cons.prems(3)] and b = page_bounds(1) [OF r(1)]
  have addr: "unat (of_nat (fixed_page k * 4096) :: u64) div 4096 = fixed_page k" if "k < 88" for k
    using fixed_page_le [of k] that by (simp add: unat_of_nat del: of_nat_mult)
  have in_r: "re_begin r \<le> of_nat (fixed_page k * 4096) \<and> of_nat (fixed_page k * 4096) \<le> re_end r
      \<longleftrightarrow> ?lo \<le> fixed_page k \<and> fixed_page k < ?hi" if "k < 88" for k
    using entry_covers [OF r(1), of "of_nat (fixed_page k * 4096)"] unfolding addr [OF that] by simp
  show ?case
  proof (cases "256 \<le> ?lo")
    case True
    have none: "tag_at (r # rs) (of_nat (fixed_page k * 4096)) = None" if "k < 88" for k
    proof -
      have "fixed_page k < 256" using fixed_page_mono [OF that] by (simp add: fixed_page_def)
      then have "\<not> re_begin r \<le> of_nat (fixed_page k * 4096)"
        using True entry_covers(1) [OF r(1), of "of_nat (fixed_page k * 4096)"] unfolding addr [OF that] by simp
      moreover have "re_begin r \<le> re_end r" using r(1) by (simp add: entry_ok_def)
      ultimately show ?thesis using tag_at_below [OF rs(1)] by (simp add: not_le)
    qed
    have "fixed_entries amd (r # rs) (descs_at i) types = Some types"
      using True e(1) by (simp add: Let_def fixed_mtrr_descs_def word_le_nat_alt)
    then show ?thesis using none Cons.prems(5) by simp
  next
    case False
    define s where "s = fixed_index ?lo"
    define f where "f = fixed_index (min ?hi 256)"
    have s: "?lo = fixed_page s" "s < 88" using fixed_index_inv [OF _ r(2)] fixed_index_less [of ?lo] False by (auto simp: s_def)
    have "fixed_boundary (min ?hi 256)" using r(3) by (auto simp: fixed_boundary_def min_def)
    from fixed_index_inv [OF _ this] have f: "min ?hi 256 = fixed_page f" "f \<le> 88" by (auto simp: f_def)
    have sf: "s < f" using b s f False fixed_page_mono [of f s] by (cases f s rule: linorder_cases) auto
    have is_: "i \<le> s" using fixed_page_mono [of s i] r(4) s(1) by (cases s i rule: linorder_cases) auto
    obtain d ds where d: "descs_at s = d # ds" "fd_range_index d + unat ((of_nat (fixed_page s) - fd_begin d) div fd_step d) = s"
      using fixed_step [OF s(2)] by blast
    have base: "range_entry_base_mtrr_addr r = of_nat (fixed_page s)"
      using e(1) s unat_fixed_page [of s] by (simp add: word_unat_eq_iff)
    have last: "fd_end (last fixed_mtrr_descs) = 256" by (simp add: fixed_mtrr_descs_def)
    have end_: "(if 256 < range_entry_end_mtrr_addr r then 256 else range_entry_end_mtrr_addr r) = of_nat (fixed_page f)"
      using e(2) f unat_fixed_page [of f] by (auto simp: word_unat_eq_iff word_less_nat_alt min_def split: if_splits)
    have lt: "\<not> 256 \<le> (of_nat (fixed_page s) :: u32)"
      using unat_fixed_page [of s] s False by (simp add: word_le_nat_alt)
    obtain types1 where t1: "fixed_fill (fixed_type amd (re_tag r)) (of_nat (fixed_page f)) (of_nat (fixed_page s)) s (descs_at s) types = Some (descs_at f, types1)"
      "length types1 = 88" "\<forall>k<88. types1 ! k = (if s \<le> k \<and> k < f then fixed_type amd (re_tag r) else types ! k)"
      using fixed_fill_spec [of s f types] sf f(2) Cons.prems(5) by auto
    have eq: "fixed_entries amd (r # rs) (descs_at i) types = fixed_entries amd rs (descs_at f) types1"
      using d t1(1) by (simp add: Let_def last base lt end_ skip_descs_at [OF is_ s(2)])
    have "\<forall>x\<in>set rs. fixed_page f \<le> page_lo x"
    proof
      fix x assume x: "x \<in> set rs"
      then have "entry_ok B x" "re_end r < re_begin x" using Cons.prems rs by (auto simp: all_above_def)
      then have "\<not> re_begin x \<le> re_end r" by simp
      then have "\<not> page_lo x \<le> unat (re_end r) div 4096" using entry_covers(1) [OF \<open>entry_ok B x\<close>] by simp
      moreover have "?hi = unat (re_end r) div 4096 + 1"
      proof -
        have "4096 dvd unat (re_end r) + 1" using r(1) by (simp add: entry_ok_def)
        then show ?thesis by (simp add: page_hi_def div_Suc dvd_eq_mod_eq_0)
      qed
      ultimately show "fixed_page f \<le> page_lo x" using f(1) by linarith
    qed
    then have all: "\<forall>x\<in>set rs. entry_ok B x \<and> fixed_boundary (page_lo x) \<and> fixed_boundary (page_hi x) \<and> fixed_page f \<le> page_lo x"
      using Cons.prems(2) by simp
    from Cons.IH [OF rs(2) all Cons.prems(3) f(2) t1(2)] obtain types' where
      t': "fixed_entries amd rs (descs_at f) types1 = Some types'" "length types' = 88"
      "\<forall>k<88. types' ! k = (case tag_at rs (of_nat (fixed_page k * 4096)) of Some t \<Rightarrow> fixed_type amd t | None \<Rightarrow> types1 ! k)"
      by blast
    have "types' ! k = (case tag_at (r # rs) (of_nat (fixed_page k * 4096)) of Some t \<Rightarrow> fixed_type amd t | None \<Rightarrow> types ! k)" if "k < 88" for k
    proof -
      have k256: "fixed_page k < 256" using fixed_page_mono [OF that] by (simp add: fixed_page_def)
      have "s \<le> k \<and> k < f \<longleftrightarrow> ?lo \<le> fixed_page k \<and> fixed_page k < ?hi"
        using s f k256 fixed_page_mono [of s k] fixed_page_mono [of k s] fixed_page_mono [of k f] fixed_page_mono [of f k]
        by (cases s k rule: linorder_cases; cases k f rule: linorder_cases) auto
      then have m: "s \<le> k \<and> k < f \<longleftrightarrow> re_begin r \<le> of_nat (fixed_page k * 4096) \<and> of_nat (fixed_page k * 4096) \<le> re_end r"
        using in_r [OF that] by simp
      show ?thesis
      proof (cases "s \<le> k \<and> k < f")
        case True
        then have "tag_at rs (of_nat (fixed_page k * 4096)) = None" using m by (intro tag_at_below [OF rs(1)]) blast
        then have "types' ! k = fixed_type amd (re_tag r)"
          using t'(3) t1(3) that True by (simp only: option.case if_True simp_thms)
        moreover have "tag_at (r # rs) (of_nat (fixed_page k * 4096)) = Some (re_tag r)"
          using m True by (simp only: tag_at.simps if_True simp_thms)
        ultimately show ?thesis by simp
      next
        case False
        have "types1 ! k = types ! k" using t1(3) that False by presburger
        moreover have "tag_at (r # rs) (of_nat (fixed_page k * 4096)) = tag_at rs (of_nat (fixed_page k * 4096))"
          using m False by (simp only: tag_at.simps if_False)
        ultimately show ?thesis using t'(3) that by (simp only:)
      qed
    qed
    then show ?thesis using eq t'(1,2) by auto
  qed
qed

text \<open>The processor's decoding of a page below 1 MiB: the register, and the byte in it.\<close>

definition msr_byte :: "msr \<Rightarrow> nat \<Rightarrow> u8" where
  "msr_byte m k = (if k < 4 then ucast (drop_bit (8 * k) (msr_lo m)) else ucast (drop_bit (8 * (k - 4)) (msr_hi m)))"

definition fixed_type_at :: "mtrr_cpu \<Rightarrow> nat \<Rightarrow> u8" where
  "fixed_type_at cpu p =
     (if p < 128 then msr_byte (rdmsr 0x250 cpu) (p div 16)
      else if p < 192 then msr_byte (rdmsr (0x258 + of_nat ((p - 128) div 32)) cpu) ((p - 128) div 4 mod 8)
      else msr_byte (rdmsr (0x268 + of_nat ((p - 192) div 8)) cpu) ((p - 192) mod 8))"

lemma bytes4:
  fixes a b c d :: u8
  defines "w \<equiv> push_bit 0 (ucast a) OR push_bit 8 (ucast b) OR push_bit 16 (ucast c) OR push_bit 24 (ucast d) :: u32"
  shows "(ucast w :: u8) = a" "(ucast (drop_bit 8 w) :: u8) = b" "(ucast (drop_bit 16 w) :: u8) = c" "(ucast (drop_bit 24 w) :: u8) = d"
proof -
  have "\<not> bit (x::u8) n" if "8 \<le> n" for x n using that bit_imp_le_length [of x n] by auto
  then show "(ucast w :: u8) = a" "(ucast (drop_bit 8 w) :: u8) = b" "(ucast (drop_bit 16 w) :: u8) = c" "(ucast (drop_bit 24 w) :: u8) = d"
    unfolding w_def by - (rule bit_word_eqI, auto simp: bit_simps)+
qed

lemma pack_byte: "k < 8 \<Longrightarrow> msr_byte (pack_fixed_msr types i) k = types ! (i + k)"
proof -
  assume "k < 8"
  then consider "k = 0" | "k = 1" | "k = 2" | "k = 3" | "k = 4" | "k = 5" | "k = 6" | "k = 7" by linarith
  then show ?thesis
    using bytes4 [of "types ! i" "types ! (i + 1)" "types ! (i + 2)" "types ! (i + 3)"]
      bytes4 [of "types ! (i + 4)" "types ! (i + 5)" "types ! (i + 6)" "types ! (i + 7)"]
    by cases (simp_all add: msr_byte_def pack_fixed_msr_def)
qed

lemma fixed_page_index_le: "p < 256 \<Longrightarrow> fixed_page (fixed_index p) \<le> p"
  by (auto simp: fixed_page_def fixed_index_def)

lemma fixed_index_mono: "p \<le> q \<Longrightarrow> fixed_index p \<le> fixed_index q"
  by (auto simp: fixed_index_def div_le_mono)

lemma fixed_page_mono_le: "i \<le> j \<Longrightarrow> fixed_page i \<le> fixed_page j"
  using fixed_page_mono [of i j] by (cases "i = j") auto

lemma boundary_le:
  assumes "fixed_boundary b" "p < 256"
  shows "b \<le> fixed_page (fixed_index p) \<longleftrightarrow> b \<le> p"
proof
  assume "b \<le> p"
  then have "b = fixed_page (fixed_index b)" using assms by (auto simp: fixed_boundary_def)
  then show "b \<le> fixed_page (fixed_index p)" using fixed_page_mono_le [OF fixed_index_mono [OF \<open>b \<le> p\<close>]] by simp
qed (use fixed_page_index_le [OF assms(2)] in simp)

lemma tag_at_fixed:
  assumes "\<forall>r\<in>set rs. entry_ok B r \<and> fixed_boundary (page_lo r) \<and> fixed_boundary (page_hi r)"
    and "unat (a::u64) div 4096 < 256"
  shows "tag_at rs (of_nat (fixed_page (fixed_index (unat a div 4096)) * 4096)) = tag_at rs a"
  using assms(1)
proof (induction rs)
  case (Cons r rs)
  let ?p = "unat a div 4096"
  let ?f = "fixed_page (fixed_index ?p)"
  have "unat (of_nat (?f * 4096) :: u64) div 4096 = ?f"
    using fixed_page_index_le [OF assms(2)] assms(2) by (simp add: unat_of_nat del: of_nat_mult)
  then have "re_begin r \<le> of_nat (?f * 4096) \<longleftrightarrow> re_begin r \<le> a" "of_nat (?f * 4096) \<le> re_end r \<longleftrightarrow> a \<le> re_end r"
    using Cons.prems entry_covers [of B r "of_nat (?f * 4096)"] entry_covers [of B r a]
      boundary_le [OF _ assms(2), of "page_lo r"] boundary_le [OF _ assms(2), of "page_hi r"]
    by (auto simp: not_le [symmetric] simp del: of_nat_mult)
  then show ?case using Cons by (simp del: of_nat_mult)
qed simp

lemma fixed_msr_indices_eq:
  "fixed_msr_indices = [0x250, 0x258, 0x259, 0x268, 0x269, 0x26a, 0x26b, 0x26c, 0x26d, 0x26e, 0x26f]"
  by code_simp

lemma commit_fixed_rdmsr:
  "\<forall>k\<in>set [0..<11]. rdmsr (fixed_msr_indices ! k) (commit_fixed_mtrrs g cpu) = pack_fixed_msr (fixed_mtrr_types g) (8 * k)"
  unfolding fixed_msr_indices_eq commit_fixed_mtrrs_def Let_def RANGES_PER_FIXED_MTRR_def
  by (simp add: rdmsr_def wrmsr_def enable_cache_def disable_cache_def upt_rec)

lemma fixed_type_at_index:
  assumes "p < 256"
  shows "fixed_type_at cpu p = msr_byte (rdmsr (fixed_msr_indices ! (fixed_index p div 8)) cpu) (fixed_index p mod 8)"
proof -
  have *: "\<forall>k\<in>set [0..<11]. fixed_msr_indices ! k = (if k < 1 then 0x250 else if k < 3 then 0x258 + of_nat (k - 1) else 0x268 + of_nat (k - 3))"
    by code_simp
  have i: "fixed_index p div 8 < 11" using fixed_index_less [OF assms] by simp
  have f: "fixed_msr_indices ! (fixed_index p div 8) =
      (let k = fixed_index p div 8 in if k < 1 then 0x250 else if k < 3 then 0x258 + of_nat (k - 1) else 0x268 + of_nat (k - 3))"
    using bspec [OF *, of "fixed_index p div 8"] i by (simp only: Let_def atLeastLessThan_iff set_upt le0 simp_thms)
  consider (a) "p < 128" | (b) "128 \<le> p" "p < 192" | (c) "192 \<le> p" by linarith
  then show ?thesis
  proof cases
    case a
    then have "p div 16 < 8" by simp
    with a show ?thesis unfolding f by (simp add: fixed_type_at_def fixed_index_def Let_def)
  next
    case b
    define q where "q = (p - 128) div 4"
    have "q < 16" using b by (simp add: q_def)
    moreover have "fixed_index p = 8 + q" using b by (simp add: fixed_index_def q_def)
    moreover have "(p - 128) div 32 = q div 8" by (simp add: q_def div_mult2_eq [symmetric])
    moreover have "(8 + q) div 8 = Suc (q div 8)" by simp
    moreover have "q div 8 < 2" using \<open>q < 16\<close> by simp
    ultimately show ?thesis
      unfolding f using b by (simp add: fixed_type_at_def Let_def flip: q_def)
  next
    case c
    define q where "q = p - 192"
    have "fixed_index p = 24 + q" using c by (simp add: fixed_index_def q_def)
    moreover have "(24 + q) div 8 = 3 + q div 8" by simp
    moreover have "(24 + q) mod 8 = q mod 8" using mod_mult_self4 [of 8 3 q] by simp
    ultimately show ?thesis
      unfolding f Let_def using c by (simp add: fixed_type_at_def flip: q_def)
  qed
qed

text \<open>
  C23.  When every range below 1 MiB begins and ends on a boundary of the fixed ranges,
  setting up the fixed registers succeeds, and the processor then gives every address below
  1 MiB the type of its tag (with the AMD extension bits on write-back), and UC where there
  is none.
\<close>
theorem fixed_mtrrs_correct:
  assumes "wf_ranges space" "\<forall>r\<in>set space. entry_ok B r \<and> fixed_boundary (page_lo r) \<and> fixed_boundary (page_hi r)" "B \<le> 31"
    and "addr_space g = Some space" "\<not> fixed_mtrr_types_initialized g"
  shows "\<exists>g' cpu'. x86_setup_fixed_mtrrs_no_enable amd t g pool cpu = Some (g', pool, cpu')
    \<and> (\<forall>a::u64. unat a < 2 ^ 20 \<longrightarrow> fixed_type_at cpu' (unat a div 4096) =
         (case tag_at space a of Some tag \<Rightarrow> fixed_type amd tag | None \<Rightarrow> 0))"
proof -
  have "descs_at 0 = fixed_mtrr_descs" by (simp add: descs_at_def)
  moreover have "\<forall>r\<in>set space. entry_ok B r \<and> fixed_boundary (page_lo r) \<and> fixed_boundary (page_hi r) \<and> fixed_page 0 \<le> page_lo r"
    using assms(2) by (simp add: fixed_page_def)
  ultimately have "\<exists>types. fixed_entries amd space fixed_mtrr_descs (replicate 88 0) = Some types \<and> length types = 88
    \<and> (\<forall>k<88. types ! k = (case tag_at space (of_nat (fixed_page k * 4096)) of Some t \<Rightarrow> fixed_type amd t | None \<Rightarrow> replicate 88 0 ! k))"
    using fixed_entries_spec [OF assms(1) _ assms(3), of 0 "replicate 88 0" amd] by (simp del: of_nat_mult)
  then obtain types where types: "fixed_entries amd space fixed_mtrr_descs (replicate NUM_FIXED_RANGES 0) = Some types"
    "\<forall>k<88. types ! k = (case tag_at space (of_nat (fixed_page k * 4096)) of Some t \<Rightarrow> fixed_type amd t | None \<Rightarrow> 0)"
    unfolding NUM_FIXED_RANGES_def by (metis nth_replicate)
  let ?g = "g\<lparr>fixed_mtrr_types := types, fixed_mtrr_types_initialized := True\<rparr>"
  have run: "x86_setup_fixed_mtrrs_no_enable amd t g pool cpu = Some (?g, pool, commit_fixed_mtrrs ?g cpu)"
    using assms(4,5) types(1)
    by (simp add: x86_setup_fixed_mtrrs_no_enable_def calc_fixed_mtrrs_def get_physical_address_space_def)
  have at: "fixed_type_at (commit_fixed_mtrrs ?g cpu) p = types ! fixed_index p" if p: "p < 256" for p
  proof -
    have "fixed_index p div 8 \<in> set [0..<11]" using fixed_index_less [OF p] by auto
    from bspec [OF commit_fixed_rdmsr this, of ?g cpu] show ?thesis
      using pack_byte [of "fixed_index p mod 8" types "8 * (fixed_index p div 8)"]
      by (simp only: fixed_type_at_index [OF p]) simp
  qed
  have "fixed_type_at (commit_fixed_mtrrs ?g cpu) (unat a div 4096) =
         (case tag_at space a of Some tag \<Rightarrow> fixed_type amd tag | None \<Rightarrow> 0)"
    if "unat a < 2 ^ 20" for a :: u64
  proof -
    have "unat a div 4096 < 256" using that by simp
    then show ?thesis using types(2) fixed_index_less by (simp only: at tag_at_fixed [OF assms(2)])
  qed
  with run show ?thesis by (intro exI [of _ ?g] exI [of _ "commit_fixed_mtrrs ?g cpu"]) simp
qed

definition example_low_space :: memranges where
  "example_low_space = [\<lparr>re_begin = 0, re_end = 0x9ffff, re_tag = 6\<rparr>, \<lparr>re_begin = 0xa0000, re_end = 0xbffff, re_tag = 0\<rparr>,
     \<lparr>re_begin = 0xc0000, re_end = 0x7fffffff, re_tag = 6\<rparr>]"

theorem fixed_mtrrs_correct_witness:
  "\<exists>g' cpu'. x86_setup_fixed_mtrrs_no_enable True example_tree (mtrr_globals_init\<lparr>addr_space := Some example_low_space\<rparr>) example_pool example_cpu
      = Some (g', example_pool, cpu') \<and> fixed_type_at cpu' 0x9f = 0x1e \<and> fixed_type_at cpu' 0xa1 = 0"
proof -
  have "wf_ranges example_low_space" by code_simp
  moreover have "\<forall>r\<in>set example_low_space. entry_ok 28 r \<and> fixed_boundary (page_lo r) \<and> fixed_boundary (page_hi r)"
    by (simp add: example_low_space_def entry_ok_def dvd_eq_mod_eq_0 page_lo_def page_hi_def fixed_boundary_def fixed_page_def fixed_index_def)
  moreover have "\<not> fixed_mtrr_types_initialized (mtrr_globals_init\<lparr>addr_space := Some example_low_space\<rparr>)"
    by (simp add: mtrr_globals_init_def)
  ultimately obtain g' cpu' where
    "x86_setup_fixed_mtrrs_no_enable True example_tree (mtrr_globals_init\<lparr>addr_space := Some example_low_space\<rparr>) example_pool example_cpu
      = Some (g', example_pool, cpu')" and
    all: "\<forall>a::u64. unat a < 2 ^ 20 \<longrightarrow> fixed_type_at cpu' (unat a div 4096) =
         (case tag_at example_low_space a of Some tag \<Rightarrow> fixed_type True tag | None \<Rightarrow> 0)"
    using fixed_mtrrs_correct [where B = 28 and space = example_low_space and g = "mtrr_globals_init\<lparr>addr_space := Some example_low_space\<rparr>"
        and amd = True and t = example_tree and pool = example_pool and cpu = example_cpu]
    by simp blast
  moreover have "tag_at example_low_space 0x9f000 = Some 6" "tag_at example_low_space 0xa1000 = Some 0"
    "fixed_type True 6 = 0x1e" "fixed_type True 0 = 0" by code_simp+
  ultimately show ?thesis using all [rule_format, of "0x9f000"] all [rule_format, of "0xa1000"] by auto
qed

text \<open>
  A range that ends inside a fixed range, here one page of UC at address 0, makes the
  loop over its pages step past its end; it runs on until it leaves the array of types.
\<close>
lemma fixed_mtrrs_overrun:
  "x86_setup_fixed_mtrrs_no_enable amd t
     (mtrr_globals_init\<lparr>addr_space := Some [\<lparr>re_begin = 0, re_end = 0xfff, re_tag = 0\<rparr>, \<lparr>re_begin = 0x1000, re_end = 0x9ffff, re_tag = 6\<rparr>]\<rparr>)
     pool cpu = None"
proof -
  let ?rs = "[\<lparr>re_begin = 0, re_end = 0xfff, re_tag = 0\<rparr>, \<lparr>re_begin = 0x1000, re_end = 0x9ffff, re_tag = 6\<rparr>]"
  have "fixed_entries False ?rs fixed_mtrr_descs (replicate NUM_FIXED_RANGES (ucast MTRR_TYPE_UNCACHEABLE)) = None"
    "fixed_entries True ?rs fixed_mtrr_descs (replicate NUM_FIXED_RANGES (ucast MTRR_TYPE_UNCACHEABLE)) = None"
    by code_simp+
  then have "fixed_entries amd ?rs fixed_mtrr_descs (replicate NUM_FIXED_RANGES (ucast MTRR_TYPE_UNCACHEABLE)) = None"
    by (cases amd) simp_all
  then show ?thesis
    by (simp add: x86_setup_fixed_mtrrs_no_enable_def calc_fixed_mtrrs_def get_physical_address_space_def mtrr_globals_init_def)
qed

end
