(* ===== verification/Acpigen.thy ===== *)
theory Acpigen
  imports Devtree
begin

text \<open>
  The generator of ACPI machine language, \<^verbatim>\<open>src/arch/x86/boot/acpigen.c\<close>.

  The memory from the pointer given to \<^verbatim>\<open>acpigen_set_current\<close> on is the list of the bytes
  emitted so far, so \<^verbatim>\<open>gencurrent\<close> is its length and a pointer into it is an index.  The
  array \<^verbatim>\<open>len_stack\<close> with \<^verbatim>\<open>ltop\<close> is a list, top first; an access outside the array of ten
  entries is undefined and gives \<open>None\<close>.  \<^verbatim>\<open>ASSERT\<close> only prints in this tree, so a failed
  assertion does not stop the generator.  Lengths are \<open>int\<close>.  C strings are byte lists
  without their terminating zero.
\<close>

section \<open>Emitting bytes\<close>

record acpigen =
  out :: "u8 list"
  len_stack :: "nat list"

definition ACPIGEN_LENSTACK_SIZE :: nat where "ACPIGEN_LENSTACK_SIZE = 10"

definition acpigen_get_current :: "acpigen \<Rightarrow> nat" where
  "acpigen_get_current s = length (out s)"

definition acpigen_emit_byte :: "u8 \<Rightarrow> acpigen \<Rightarrow> int \<times> acpigen" where
  "acpigen_emit_byte b s = (1, s\<lparr>out := out s @ [b]\<rparr>)"

text \<open>Consecutive calls whose results the code ignores.\<close>

definition emit_all :: "u8 list \<Rightarrow> acpigen \<Rightarrow> acpigen" where
  "emit_all bs s = fold (\<lambda>b s. snd (acpigen_emit_byte b s)) bs s"

definition push_len :: "nat \<Rightarrow> acpigen \<Rightarrow> acpigen option" where
  "push_len p s = (if length (len_stack s) < ACPIGEN_LENSTACK_SIZE then Some (s\<lparr>len_stack := p # len_stack s\<rparr>) else None)"

definition pop_len :: "acpigen \<Rightarrow> (nat \<times> acpigen) option" where
  "pop_len s = (case len_stack s of [] \<Rightarrow> None | p # ps \<Rightarrow> Some (p, s\<lparr>len_stack := ps\<rparr>))"

definition poke :: "nat \<Rightarrow> u8 \<Rightarrow> acpigen \<Rightarrow> acpigen" where
  "poke p b s = s\<lparr>out := (out s)[p := b]\<rparr>"

definition acpigen_write_len_f :: "acpigen \<Rightarrow> (int \<times> acpigen) option" where
  "acpigen_write_len_f s = do {
     s \<leftarrow> push_len (acpigen_get_current s) s;
     Some (2, emit_all [0, 0] s)
   }"

definition acpigen_patch_len :: "int \<Rightarrow> acpigen \<Rightarrow> acpigen option" where
  "acpigen_patch_len len s = do {
     (p, s) \<leftarrow> pop_len s;
     let s = poke p (0x40 OR (word_of_int len AND 0xf)) s;
     Some (poke (p + 1) (ucast (drop_bit 4 (word_of_int len :: u32) AND 0xff)) s)
   }"

definition data_byte :: "nat \<Rightarrow> 'a::len word \<Rightarrow> u8" where
  "data_byte k x = ucast (drop_bit (8 * k) x AND 0xff)"

definition acpigen_write_package :: "int \<Rightarrow> acpigen \<Rightarrow> (int \<times> acpigen) option" where
  "acpigen_write_package nr_el s = do {
     let s = emit_all [0x12] s;
     (len, s) \<leftarrow> acpigen_write_len_f s;
     let s = emit_all [word_of_int nr_el] s;
     Some (len + 2, s)
   }"

definition acpigen_write_byte :: "u32 \<Rightarrow> acpigen \<Rightarrow> int \<times> acpigen" where
  "acpigen_write_byte data s = (2, emit_all [0x0a, data_byte 0 data] s)"

definition acpigen_write_dword :: "u32 \<Rightarrow> acpigen \<Rightarrow> int \<times> acpigen" where
  "acpigen_write_dword data s = (5, emit_all [0x0c, data_byte 0 data, data_byte 1 data, data_byte 2 data, data_byte 3 data] s)"

definition acpigen_write_qword :: "u64 \<Rightarrow> acpigen \<Rightarrow> int \<times> acpigen" where
  "acpigen_write_qword data s =
     (9, emit_all [0x0e, data_byte 0 data, data_byte 1 data, data_byte 2 data, data_byte 3 data,
                   data_byte 4 data, data_byte 5 data, data_byte 6 data, data_byte 7 data] s)"

definition acpigen_emit_stream :: "u8 list \<Rightarrow> nat \<Rightarrow> acpigen \<Rightarrow> int \<times> acpigen" where
  "acpigen_emit_stream data sz s = (int sz, emit_all (map (\<lambda>i. data ! i) [0..<sz]) s)"

section \<open>Name strings\<close>

definition str :: "string \<Rightarrow> u8 list" where "str cs = map of_char cs"

abbreviation DOT :: u8 where "DOT \<equiv> 0x2e"
abbreviation CARET :: u8 where "CARET \<equiv> 0x5e"
abbreviation BACKSLASH :: u8 where "BACKSLASH \<equiv> 0x5c"
abbreviation UNDERSCORE :: u8 where "UNDERSCORE \<equiv> 0x5f"

text \<open>\<open>n\<close> is \<^verbatim>\<open>4 - i\<close>; \<open>name\<close> is the string from \<^verbatim>\<open>name[i]\<close> on.\<close>

fun simple_namestring_loop :: "nat \<Rightarrow> u8 list \<Rightarrow> acpigen \<Rightarrow> int \<times> acpigen" where
  "simple_namestring_loop 0 name s = (0, s)"
| "simple_namestring_loop (Suc n) name s =
     (case name of
        [] \<Rightarrow> acpigen_emit_stream (replicate 4 UNDERSCORE) (Suc n) s
      | c # cs \<Rightarrow>
          if c = DOT then acpigen_emit_stream (replicate 4 UNDERSCORE) (Suc n) s
          else let (l1, s) = acpigen_emit_byte c s;
                   (l2, s) = simple_namestring_loop n cs s
               in (l1 + l2, s))"

definition acpigen_emit_simple_namestring :: "u8 list \<Rightarrow> acpigen \<Rightarrow> int \<times> acpigen" where
  "acpigen_emit_simple_namestring name s = simple_namestring_loop 4 name s"

definition acpigen_emit_double_namestring :: "u8 list \<Rightarrow> nat \<Rightarrow> acpigen \<Rightarrow> int \<times> acpigen" where
  "acpigen_emit_double_namestring name dotpos s =
     (let (l1, s) = acpigen_emit_byte 0x2e s;
          (l2, s) = acpigen_emit_simple_namestring name s;
          (l3, s) = acpigen_emit_simple_namestring (drop (dotpos + 1) name) s
      in (l1 + l2 + l3, s))"

text \<open>What is left of a path after its first element and the dot.\<close>

definition next_entity :: "u8 list \<Rightarrow> u8 list" where
  "next_entity name = tl (dropWhile (\<lambda>c. c \<noteq> DOT) name)"

lemma next_entity_shorter: "name \<noteq> [] \<Longrightarrow> length (next_entity name) < length name"
  using length_dropWhile_le [of "\<lambda>c. c \<noteq> DOT" name] by (cases name) (auto simp: next_entity_def less_Suc_eq_le)

function multi_namestring_loop :: "u8 list \<Rightarrow> int \<Rightarrow> int \<Rightarrow> acpigen \<Rightarrow> int \<times> int \<times> acpigen" where
  "multi_namestring_loop name len count s =
     (if name = [] then (len, count, s)
      else let (l, s) = acpigen_emit_simple_namestring name s
           in multi_namestring_loop (next_entity name) (len + l) (count + 1) s)"
  by pat_completeness auto
termination
  by (relation "measure (\<lambda>(name, len, count, s). length name)") (auto simp: next_entity_shorter)

declare multi_namestring_loop.simps [simp del]

definition acpigen_emit_multi_namestring :: "u8 list \<Rightarrow> acpigen \<Rightarrow> int \<times> acpigen" where
  "acpigen_emit_multi_namestring name s =
     (let (l1, s) = acpigen_emit_byte 0x2f s;
          (l2, s) = acpigen_emit_byte 0 s;
          pathlen = acpigen_get_current s - 1;
          (len, count, s) = multi_namestring_loop name (l1 + l2) 0 s
      in (len, poke pathlen (word_of_int count) s))"

text \<open>The carets in front of a path are counted in \<^verbatim>\<open>len\<close> one by one.\<close>

fun emit_carets :: "u8 list \<Rightarrow> int \<Rightarrow> acpigen \<Rightarrow> u8 list \<times> int \<times> acpigen" where
  "emit_carets [] len s = ([], len, s)"
| "emit_carets (c # cs) len s =
     (if c = CARET then let (l, s) = acpigen_emit_byte CARET s in emit_carets cs (len + l) s
      else (c # cs, len, s))"

text \<open>The number of dots and the index of the last one.\<close>

fun find_dots :: "nat \<Rightarrow> u8 list \<Rightarrow> nat \<Rightarrow> nat \<Rightarrow> nat \<times> nat" where
  "find_dots i [] dotcount dotpos = (dotcount, dotpos)"
| "find_dots i (c # cs) dotcount dotpos =
     (if c = DOT then find_dots (i + 1) cs (dotcount + 1) i else find_dots (i + 1) cs dotcount dotpos)"

definition acpigen_emit_namestring :: "u8 list \<Rightarrow> acpigen \<Rightarrow> int \<times> acpigen" where
  "acpigen_emit_namestring namepath s =
     (let (namepath, len, s) =
            (if namepath \<noteq> [] \<and> hd namepath = BACKSLASH
             then let (l, s) = acpigen_emit_byte BACKSLASH s in (tl namepath, l, s)
             else (namepath, 0, s));
          (namepath, len, s) = emit_carets namepath len s;
          (dotcount, dotpos) = find_dots 0 namepath 0 0;
          (l, s) = (if dotcount = 0 then acpigen_emit_simple_namestring namepath s
                    else if dotcount = 1 then acpigen_emit_double_namestring namepath dotpos s
                    else acpigen_emit_multi_namestring namepath s)
      in (len + l, s))"

definition acpigen_write_name :: "u8 list \<Rightarrow> acpigen \<Rightarrow> int \<times> acpigen" where
  "acpigen_write_name name s =
     (let (len, s) = acpigen_emit_byte 0x08 s; (l, s) = acpigen_emit_namestring name s in (len + l, s))"

definition acpigen_write_name_byte :: "u8 list \<Rightarrow> u8 \<Rightarrow> acpigen \<Rightarrow> int \<times> acpigen" where
  "acpigen_write_name_byte name val s =
     (let (len, s) = acpigen_write_name name s; (l, s) = acpigen_write_byte (ucast val) s in (len + l, s))"

definition acpigen_write_name_dword :: "u8 list \<Rightarrow> u32 \<Rightarrow> acpigen \<Rightarrow> int \<times> acpigen" where
  "acpigen_write_name_dword name val s =
     (let (len, s) = acpigen_write_name name s; (l, s) = acpigen_write_dword val s in (len + l, s))"

definition acpigen_write_name_qword :: "u8 list \<Rightarrow> u64 \<Rightarrow> acpigen \<Rightarrow> int \<times> acpigen" where
  "acpigen_write_name_qword name val s =
     (let (len, s) = acpigen_write_name name s; (l, s) = acpigen_write_qword val s in (len + l, s))"

definition acpigen_write_scope :: "u8 list \<Rightarrow> acpigen \<Rightarrow> (int \<times> acpigen) option" where
  "acpigen_write_scope name s = do {
     let (len, s) = acpigen_emit_byte 0x10 s;
     (l, s) \<leftarrow> acpigen_write_len_f s;
     let (l', s) = acpigen_emit_namestring name s;
     Some (len + l + l', s)
   }"

text \<open>The lower-case hexadecimal digits of \<^verbatim>\<open>%x\<close>, without leading zeros.\<close>

definition hex_digit :: "u8 \<Rightarrow> u8" where
  "hex_digit d = (if d < 10 then 0x30 + d else 0x57 + d)"

definition hex_of :: "u8 \<Rightarrow> u8 list" where
  "hex_of x = (if x < 16 then [hex_digit x] else [hex_digit (drop_bit 4 x), hex_digit (x AND 0xf)])"

definition acpigen_write_processor :: "u8 \<Rightarrow> u32 \<Rightarrow> u8 \<Rightarrow> acpigen \<Rightarrow> (int \<times> acpigen) option" where
  "acpigen_write_processor cpuindex pblock_addr pblock_len s = do {
     let s = emit_all [0x5b, 0x83] s;
     (len, s) \<leftarrow> acpigen_write_len_f s;
     let pscope = BACKSLASH # str ''_PR.CPU'' @ hex_of cpuindex;
     let (l, s) = acpigen_emit_namestring pscope s;
     let len = len + l;
     let s = emit_all [cpuindex, data_byte 0 pblock_addr, data_byte 1 pblock_addr, data_byte 2 pblock_addr,
                       data_byte 3 pblock_addr, pblock_len] s;
     Some (6 + 2 + len, s)
   }"

section \<open>Resource descriptors and templates\<close>

record acpi_addr =
  space_id :: u8
  bit_width :: u8
  bit_offset :: u8
  resv :: u8
  addrl :: u32
  addrh :: u32

definition acpigen_write_register :: "acpi_addr \<Rightarrow> acpigen \<Rightarrow> int \<times> acpigen" where
  "acpigen_write_register addr s =
     (15, emit_all [0x82, 0x0c, 0x00, space_id addr, bit_width addr, bit_offset addr, resv addr,
        data_byte 0 (addrl addr), data_byte 1 (addrl addr), data_byte 2 (addrl addr), data_byte 3 (addrl addr),
        data_byte 0 (addrh addr), data_byte 1 (addrh addr), data_byte 2 (addrh addr), data_byte 3 (addrh addr)] s)"

definition acpigen_write_mem32fixed :: "bool \<Rightarrow> u32 \<Rightarrow> u32 \<Rightarrow> acpigen \<Rightarrow> int \<times> acpigen" where
  "acpigen_write_mem32fixed readwrite base sz s =
     (12, emit_all [0x86, 0x09, 0x00, if readwrite then 0x01 else 0x00,
        data_byte 0 base, data_byte 1 base, data_byte 2 base, data_byte 3 base,
        data_byte 0 sz, data_byte 1 sz, data_byte 2 sz, data_byte 3 sz] s)"

definition acpigen_write_io16 :: "u16 \<Rightarrow> u16 \<Rightarrow> u8 \<Rightarrow> u8 \<Rightarrow> bool \<Rightarrow> acpigen \<Rightarrow> int \<times> acpigen" where
  "acpigen_write_io16 lo hi align len decode16 s =
     (8, emit_all [0x47, if decode16 then 0x01 else 0x00, data_byte 0 lo, data_byte 1 lo,
        data_byte 0 hi, data_byte 1 hi, align AND 0xff, len AND 0xff] s)"

definition acpigen_write_resourcetemplate_header :: "acpigen \<Rightarrow> (int \<times> acpigen) option" where
  "acpigen_write_resourcetemplate_header s = do {
     let (len, s) = acpigen_emit_byte 0x11 s;
     (l, s) \<leftarrow> acpigen_write_len_f s;
     let len = len + l;
     let (l, s) = acpigen_emit_byte 0x0b s;
     let len = len + l;
     s \<leftarrow> push_len (acpigen_get_current s) s;
     let (l, s) = acpigen_emit_byte 0x00 s;
     let (l', s) = acpigen_emit_byte 0x00 s;
     Some (len + l + l', s)
   }"

definition acpigen_write_resourcetemplate_footer :: "int \<Rightarrow> acpigen \<Rightarrow> (int \<times> acpigen) option" where
  "acpigen_write_resourcetemplate_footer len s = do {
     (p, s) \<leftarrow> pop_len s;
     let (l, s) = acpigen_emit_byte 0x79 s;
     let (l', s) = acpigen_emit_byte 0x00 s;
     let len = len + l + l';
     let s = poke p (data_byte 0 (word_of_int (len - 6) :: u32)) s;
     let s = poke (p + 1) (data_byte 1 (word_of_int (len - 6) :: u32)) s;
     s \<leftarrow> acpigen_patch_len (len - 1) s;
     Some (2, s)
   }"

section \<open>Processor objects\<close>

definition empty_PCT_stream :: "u8 list" where
  "empty_PCT_stream =
     [0x08, 0x5F, 0x50, 0x43, 0x54, 0x12, 0x2C, 0x02, 0x11, 0x14, 0x0A, 0x11, 0x82, 0x0C, 0x00, 0x7F,
      0x00, 0x00, 0x00, 0x00, 0x00, 0x00, 0x00, 0x00, 0x00, 0x00, 0x00, 0x79, 0x00, 0x11, 0x14, 0x0A,
      0x11, 0x82, 0x0C, 0x00, 0x7F, 0x00, 0x00, 0x00, 0x00, 0x00, 0x00, 0x00, 0x00, 0x00, 0x00, 0x00,
      0x79, 0x00]"

definition acpigen_write_empty_PCT :: "acpigen \<Rightarrow> int \<times> acpigen" where
  "acpigen_write_empty_PCT s = acpigen_emit_stream empty_PCT_stream (length empty_PCT_stream) s"

definition ACPI_ADDRESS_SPACE_FIXED :: u8 where "ACPI_ADDRESS_SPACE_FIXED = 0x7f"

definition acpigen_write_empty_PTC :: "acpigen \<Rightarrow> (int \<times> acpigen) option" where
  "acpigen_write_empty_PTC s = do {
     let addr = \<lparr>space_id = ACPI_ADDRESS_SPACE_FIXED, bit_width = 0, bit_offset = 0, resv = 0, addrl = 0, addrh = 0\<rparr>;
     let (nlen, s) = acpigen_write_name (str ''_PTC'') s;
     (len, s) \<leftarrow> acpigen_write_package 2 s;
     (rlen, s) \<leftarrow> acpigen_write_resourcetemplate_header s;
     let (l, s) = acpigen_write_register addr s;
     let rlen = rlen + l;
     (l, s) \<leftarrow> acpigen_write_resourcetemplate_footer rlen s;
     let len = len + l + rlen;
     (rlen, s) \<leftarrow> acpigen_write_resourcetemplate_header s;
     let (l, s) = acpigen_write_register addr s;
     let rlen = rlen + l;
     (l, s) \<leftarrow> acpigen_write_resourcetemplate_footer rlen s;
     let len = len + l + rlen;
     s \<leftarrow> acpigen_patch_len (len - 1) s;
     Some (len + nlen, s)
   }"

definition acpigen_write_PPC :: "u8 \<Rightarrow> acpigen \<Rightarrow> (int \<times> acpigen) option" where
  "acpigen_write_PPC nr s = do {
     let s = emit_all [0x14] s;
     (len, s) \<leftarrow> acpigen_write_len_f s;
     let (l, s) = acpigen_emit_namestring (str ''_PPC'') s;
     let len = len + l;
     let s = emit_all [0x00, 0xa4] s;
     let (l, s) = acpigen_write_byte (ucast nr) s;
     let len = len + l + 3;
     s \<leftarrow> acpigen_patch_len (len - 1) s;
     Some (len, s)
   }"

definition acpigen_write_PPC_NVS :: "acpigen \<Rightarrow> (int \<times> acpigen) option" where
  "acpigen_write_PPC_NVS s = do {
     let s = emit_all [0x14] s;
     (len, s) \<leftarrow> acpigen_write_len_f s;
     let (l, s) = acpigen_emit_namestring (str ''_PPC'') s;
     let len = len + l;
     let s = emit_all [0x00, 0xa4] s;
     let (l, s) = acpigen_emit_namestring (str ''PPCM'') s;
     let len = len + l + 3;
     s \<leftarrow> acpigen_patch_len (len - 1) s;
     Some (len, s)
   }"

definition acpigen_write_TPC :: "u8 list \<Rightarrow> acpigen \<Rightarrow> (int \<times> acpigen) option" where
  "acpigen_write_TPC gnvs_tpc_limit s = do {
     let (len, s) = acpigen_emit_byte 0x14 s;
     (l, s) \<leftarrow> acpigen_write_len_f s;
     let len = len + l;
     let (l, s) = acpigen_emit_namestring (str ''_TPC'') s;
     let len = len + l;
     let (l, s) = acpigen_emit_byte 0x00 s;
     let len = len + l;
     let (l, s) = acpigen_emit_byte 0xa4 s;
     let len = len + l;
     let (l, s) = acpigen_emit_namestring gnvs_tpc_limit s;
     let len = len + l;
     s \<leftarrow> acpigen_patch_len (len - 1) s;
     Some (len, s)
   }"

text \<open>Calls of \<^verbatim>\<open>acpigen_write_dword\<close> in a row that add to \<^verbatim>\<open>len\<close>.\<close>

fun write_dwords :: "u32 list \<Rightarrow> int \<Rightarrow> acpigen \<Rightarrow> int \<times> acpigen" where
  "write_dwords [] len s = (len, s)"
| "write_dwords (d # ds) len s = (let (l, s) = acpigen_write_dword d s in write_dwords ds (len + l) s)"

definition acpigen_write_PSS_package ::
  "u32 \<Rightarrow> u32 \<Rightarrow> u32 \<Rightarrow> u32 \<Rightarrow> u32 \<Rightarrow> u32 \<Rightarrow> acpigen \<Rightarrow> (int \<times> acpigen) option" where
  "acpigen_write_PSS_package coreFreq corePower transLat busmLat control status s = do {
     (len, s) \<leftarrow> acpigen_write_package 6 s;
     let (len, s) = write_dwords [coreFreq, corePower, transLat, busmLat, control, status] len s;
     s \<leftarrow> acpigen_patch_len (len - 1) s;
     Some (len, s)
   }"

definition acpigen_write_PSD_package :: "u32 \<Rightarrow> u32 \<Rightarrow> u32 \<Rightarrow> acpigen \<Rightarrow> (int \<times> acpigen) option" where
  "acpigen_write_PSD_package domain numprocs coordtype s = do {
     let (lenh, s) = acpigen_write_name (str ''_PSD'') s;
     (lenp, s) \<leftarrow> acpigen_write_package 1 s;
     (len, s) \<leftarrow> acpigen_write_package 5 s;
     let (l, s) = acpigen_write_byte 5 s;
     let len = len + l;
     let (l, s) = acpigen_write_byte 0 s;
     let len = len + l;
     let (len, s) = write_dwords [domain, coordtype, numprocs] len s;
     s \<leftarrow> acpigen_patch_len (len - 1) s;
     let len = len + lenp;
     s \<leftarrow> acpigen_patch_len (len - 1) s;
     Some (len + lenh, s)
   }"

definition acpigen_write_TSD_package :: "u32 \<Rightarrow> u32 \<Rightarrow> u32 \<Rightarrow> acpigen \<Rightarrow> (int \<times> acpigen) option" where
  "acpigen_write_TSD_package domain numprocs coordtype s = do {
     let (lenh, s) = acpigen_write_name (str ''_TSD'') s;
     (lenp, s) \<leftarrow> acpigen_write_package 1 s;
     (len, s) \<leftarrow> acpigen_write_package 5 s;
     let (l, s) = acpigen_write_byte 5 s;
     let len = len + l;
     let (l, s) = acpigen_write_byte 0 s;
     let len = len + l;
     let (len, s) = write_dwords [domain, coordtype, numprocs] len s;
     s \<leftarrow> acpigen_patch_len (len - 1) s;
     let len = len + lenp;
     s \<leftarrow> acpigen_patch_len (len - 1) s;
     Some (len + lenh, s)
   }"

record acpi_cstate =
  ctype :: u8
  cs_latency :: u16
  cs_power :: u32
  cs_resource :: acpi_addr

definition acpigen_write_CST_package_entry :: "acpi_cstate \<Rightarrow> acpigen \<Rightarrow> (int \<times> acpigen) option" where
  "acpigen_write_CST_package_entry cstate s = do {
     (len0, s) \<leftarrow> acpigen_write_package 4 s;
     (len, s) \<leftarrow> acpigen_write_resourcetemplate_header s;
     let start = acpigen_get_current s;
     let (_, s) = acpigen_write_register (cs_resource cstate) s;
     let end_pos = acpigen_get_current s;
     let len = len + (int end_pos - int start);
     (l, s) \<leftarrow> acpigen_write_resourcetemplate_footer len s;
     let len = len + l + len0;
     let (len, s) = write_dwords [ucast (ctype cstate), ucast (cs_latency cstate), cs_power cstate] len s;
     s \<leftarrow> acpigen_patch_len (len - 1) s;
     Some (len, s)
   }"

fun CST_entries :: "acpi_cstate list \<Rightarrow> int \<Rightarrow> acpigen \<Rightarrow> (int \<times> acpigen) option" where
  "CST_entries [] len s = Some (len, s)"
| "CST_entries (c # cs) len s = do {
     (l, s) \<leftarrow> acpigen_write_CST_package_entry c s;
     CST_entries cs (len + l) s
   }"

text \<open>\<^verbatim>\<open>nentries\<close> is the length of the array of states.\<close>

definition acpigen_write_CST_package :: "acpi_cstate list \<Rightarrow> acpigen \<Rightarrow> (int \<times> acpigen) option" where
  "acpigen_write_CST_package cstates s = do {
     let nentries = int (length cstates);
     let (lenh, s) = acpigen_write_name (str ''_CST'') s;
     (lenp, s) \<leftarrow> acpigen_write_package (nentries + 1) s;
     let (len, s) = acpigen_write_dword (word_of_int nentries) s;
     (len, s) \<leftarrow> CST_entries cstates len s;
     let len = len + lenp;
     s \<leftarrow> acpigen_patch_len (len - 1) s;
     Some (len + lenh, s)
   }"

record acpi_tstate =
  ts_percent :: u32
  ts_power :: u32
  ts_latency :: u32
  ts_control :: u32
  ts_status :: u32

fun TSS_entries :: "acpi_tstate list \<Rightarrow> int \<Rightarrow> acpigen \<Rightarrow> (int \<times> acpigen) option" where
  "TSS_entries [] plen s = Some (plen, s)"
| "TSS_entries (t # ts) plen s = do {
     (len, s) \<leftarrow> acpigen_write_package 5 s;
     let (len, s) = write_dwords [ts_percent t, ts_power t, ts_latency t, ts_control t, ts_status t] len s;
     s \<leftarrow> acpigen_patch_len (len - 1) s;
     TSS_entries ts (plen + len) s
   }"

definition acpigen_write_TSS_package :: "acpi_tstate list \<Rightarrow> acpigen \<Rightarrow> (int \<times> acpigen) option" where
  "acpigen_write_TSS_package tstates s = do {
     let (nlen, s) = acpigen_write_name (str ''_TSS'') s;
     (plen, s) \<leftarrow> acpigen_write_package (int (length tstates)) s;
     (plen, s) \<leftarrow> TSS_entries tstates plen s;
     s \<leftarrow> acpigen_patch_len (plen - 1) s;
     Some (plen + nlen, s)
   }"

section \<open>Mainboard resources\<close>

definition acpigen_add_mainboard_rsvd_mem32 :: "dev_id \<Rightarrow> resource \<Rightarrow> acpigen \<Rightarrow> acpigen option" where
  "acpigen_add_mainboard_rsvd_mem32 dev res s =
     Some (snd (acpigen_write_mem32fixed False (ucast (res_base res)) (ucast (res_size res)) s))"

function rsvd_io_loop :: "resource_t \<Rightarrow> resource_t \<Rightarrow> acpigen \<Rightarrow> acpigen" where
  "rsvd_io_loop base sz s =
     (if 0 < sz then
        let n = (if 255 < sz then 255 else sz);
            (_, s) = acpigen_write_io16 (ucast base) (ucast base) 0 (ucast n) True s
        in rsvd_io_loop (base + n) (sz - n) s
      else s)"
  by pat_completeness auto
termination
proof (relation "measure (\<lambda>(base, sz, s). unat sz)")
  fix base sz n :: resource_t and s s' :: acpigen
  assume "0 < sz" "n = (if 255 < sz then 255 else sz)"
  then have "n \<le> sz" "0 < n" by (auto simp: not_less)
  then have "unat (sz - n) < unat sz" by (simp add: unat_sub word_less_nat_alt word_le_nat_alt)
  then show "((base + n, sz - n, s'), base, sz, s) \<in> measure (\<lambda>(base, sz, s). unat sz)" by simp
qed simp

declare rsvd_io_loop.simps [simp del]

definition acpigen_add_mainboard_rsvd_io :: "dev_id \<Rightarrow> resource \<Rightarrow> acpigen \<Rightarrow> acpigen option" where
  "acpigen_add_mainboard_rsvd_io dev res s = Some (rsvd_io_loop (res_base res) (res_size res) s)"

definition acpigen_write_mainboard_resource_template :: "devtree \<Rightarrow> acpigen \<Rightarrow> (int \<times> acpigen) option" where
  "acpigen_write_mainboard_resource_template t s = do {
     (len, s) \<leftarrow> acpigen_write_resourcetemplate_header s;
     let start = acpigen_get_current s;
     s \<leftarrow> search_global_resources t (IORESOURCE_MEM OR IORESOURCE_RESERVE) (IORESOURCE_MEM OR IORESOURCE_RESERVE)
            acpigen_add_mainboard_rsvd_mem32 s;
     s \<leftarrow> search_global_resources t (IORESOURCE_IO OR IORESOURCE_RESERVE) (IORESOURCE_IO OR IORESOURCE_RESERVE)
            acpigen_add_mainboard_rsvd_io s;
     let end_pos = acpigen_get_current s;
     let len = len + (int end_pos - int start);
     (l, s) \<leftarrow> acpigen_write_resourcetemplate_footer len s;
     Some (len + l, s)
   }"

definition acpigen_write_mainboard_resources :: "devtree \<Rightarrow> u8 list \<Rightarrow> u8 list \<Rightarrow> acpigen \<Rightarrow> (int \<times> acpigen) option" where
  "acpigen_write_mainboard_resources t scope name s = do {
     (len, s) \<leftarrow> acpigen_write_scope scope s;
     let (l, s) = acpigen_write_name name s;
     let len = len + l;
     (l, s) \<leftarrow> acpigen_write_mainboard_resource_template t s;
     let len = len + l;
     s \<leftarrow> acpigen_patch_len (len - 1) s;
     Some (len, s)
   }"

section \<open>The language that is generated\<close>

text \<open>
  Encoders for the AML terms the generator writes.  \<open>pkg_len n\<close> are the two bytes that \<^verbatim>\<open>acpigen_patch_len\<close>
  stores for \<open>n\<close>; \<open>pkg_len_value\<close> is what the first byte, which says that one more byte follows, and the second
  one mean in AML.
\<close>

definition pkg_len :: "int \<Rightarrow> u8 list" where
  "pkg_len n = [0x40 OR (word_of_int n AND 0xf), ucast (drop_bit 4 (word_of_int n :: u32) AND 0xff)]"

definition pkg_len_value :: "u8 list \<Rightarrow> nat" where
  "pkg_len_value bs = unat (bs ! 0 AND 0xf) + 16 * unat (bs ! 1)"

definition aml_byte :: "u32 \<Rightarrow> u8 list" where
  "aml_byte d = [0x0a, data_byte 0 d]"

definition aml_dword :: "u32 \<Rightarrow> u8 list" where
  "aml_dword d = [0x0c, data_byte 0 d, data_byte 1 d, data_byte 2 d, data_byte 3 d]"

definition aml_package :: "int \<Rightarrow> u8 list \<Rightarrow> u8 list" where
  "aml_package nr body = 0x12 # pkg_len (3 + int (length body)) @ word_of_int nr # body"

definition aml_method :: "u8 list \<Rightarrow> u8 \<Rightarrow> u8 list \<Rightarrow> u8 list" where
  "aml_method name args body = 0x14 # pkg_len (3 + int (length name) + int (length body)) @ name @ args # body"

text \<open>
  A package as the ACPI specification defines it: the operator, a package length of two bytes that counts itself
  and all that follows, the number of elements and the elements.
\<close>

definition counts :: "u8 list \<Rightarrow> nat \<Rightarrow> bool" where
  "counts bs n \<longleftrightarrow> length bs = 2 \<and> bs ! 0 AND 0xf0 = 0x40 \<and> pkg_len_value bs = n"

definition is_package :: "nat \<Rightarrow> u8 list \<Rightarrow> u8 list \<Rightarrow> bool" where
  "is_package n body bs \<longleftrightarrow> n < 256 \<and> (\<exists>ls. bs = 0x12 # ls @ of_nat n # body \<and> counts ls (length bs - 1))"

text \<open>A resource template: a buffer whose size is a word that counts the descriptors and the end tag.\<close>

definition is_template :: "u8 list \<Rightarrow> u8 list \<Rightarrow> bool" where
  "is_template ds bs \<longleftrightarrow> (\<exists>ls lo hi. bs = 0x11 # ls @ 0x0b # lo # hi # ds @ [0x79, 0] \<and> counts ls (length bs - 1)
     \<and> unat lo + 256 * unat hi = length ds + 2)"

text \<open>A resource template is a buffer with a word length around the descriptors and the end tag.\<close>

definition aml_template :: "u8 list \<Rightarrow> u8 list" where
  "aml_template ds =
     (let n = int (length ds) + 2
      in 0x11 # pkg_len (n + 5) @ [0x0b, data_byte 0 (word_of_int n :: u32), data_byte 1 (word_of_int n :: u32)] @ ds @ [0x79, 0x00])"

definition aml_seg :: "u8 list \<Rightarrow> u8 list" where
  "aml_seg name = take 4 (takeWhile (\<lambda>c. c \<noteq> DOT) name @ replicate 4 UNDERSCORE)"

definition aml_path :: "u8 list list \<Rightarrow> u8 list" where
  "aml_path segs =
     (case segs of
        [a] \<Rightarrow> aml_seg a
      | [a, b] \<Rightarrow> 0x2e # aml_seg a @ aml_seg b
      | _ \<Rightarrow> 0x2f # of_nat (length segs) # concat (map aml_seg segs))"

fun join_dots :: "u8 list list \<Rightarrow> u8 list" where
  "join_dots [] = []"
| "join_dots [a] = a"
| "join_dots (a # b # segs) = a @ DOT # join_dots (b # segs)"

section \<open>What the emitters append\<close>

lemma emit_all_eq [simp]: "emit_all bs s = s\<lparr>out := out s @ bs\<rparr>"
  unfolding emit_all_def by (induction bs arbitrary: s) (simp_all add: acpigen_emit_byte_def)

lemma emit_byte_eq [simp]: "acpigen_emit_byte b s = (1, s\<lparr>out := out s @ [b]\<rparr>)"
  by (simp add: acpigen_emit_byte_def)

lemma write_byte_eq [simp]: "acpigen_write_byte d s = (2, s\<lparr>out := out s @ aml_byte d\<rparr>)"
  by (simp add: acpigen_write_byte_def aml_byte_def)

lemma write_dword_eq [simp]: "acpigen_write_dword d s = (5, s\<lparr>out := out s @ aml_dword d\<rparr>)"
  by (simp add: acpigen_write_dword_def aml_dword_def)

lemma length_aml_byte [simp]: "length (aml_byte d) = 2"
  by (simp add: aml_byte_def)

lemma length_aml_dword [simp]: "length (aml_dword d) = 5"
  by (simp add: aml_dword_def)

lemma length_pkg_len [simp]: "length (pkg_len n) = 2"
  by (simp add: pkg_len_def)

lemma length_aml_package [simp]: "length (aml_package n body) = 4 + length body"
  by (simp add: aml_package_def)

lemma length_aml_template [simp]: "length (aml_template ds) = 8 + length ds"
  by (simp add: aml_template_def Let_def)

lemma write_dwords_eq [simp]:
  "write_dwords ds len s = (len + 5 * int (length ds), s\<lparr>out := out s @ concat (map aml_dword ds)\<rparr>)"
  by (induction ds arbitrary: len s) simp_all

lemma emit_stream_eq: "sz \<le> length data \<Longrightarrow> acpigen_emit_stream data sz s = (int sz, s\<lparr>out := out s @ take sz data\<rparr>)"
proof -
  assume "sz \<le> length data"
  then have "map ((!) data) [0..<sz] = take sz data" by (intro nth_equalityI) simp_all
  then show ?thesis by (simp add: acpigen_emit_stream_def)
qed


lemma len_f_eq:
  "length (len_stack s) < 10 \<Longrightarrow>
    acpigen_write_len_f s = Some (2, s\<lparr>out := out s @ [0, 0], len_stack := length (out s) # len_stack s\<rparr>)"
  by (simp add: acpigen_write_len_f_def push_len_def ACPIGEN_LENSTACK_SIZE_def acpigen_get_current_def)

lemma patch_eq:
  "len_stack s = length xs # ps \<Longrightarrow> out s = xs @ 0 # 0 # body \<Longrightarrow>
    acpigen_patch_len n s = Some (s\<lparr>out := xs @ pkg_len n @ body, len_stack := ps\<rparr>)"
  by (simp add: acpigen_patch_len_def pop_len_def poke_def pkg_len_def list_update_append)

lemma package_eq:
  "length (len_stack s) < 10 \<Longrightarrow>
    acpigen_write_package nr s = Some (4, s\<lparr>out := out s @ [0x12, 0, 0, word_of_int nr], len_stack := Suc (length (out s)) # len_stack s\<rparr>)"
  by (simp add: acpigen_write_package_def len_f_eq)

lemma close_package:
  "acpigen_patch_len n (s\<lparr>len_stack := Suc (length (out s)) # len_stack s, out := out s @ 0x12 # 0 # 0 # nr # body\<rparr>)
    = Some (s\<lparr>out := out s @ 0x12 # pkg_len n @ nr # body\<rparr>)"
  by (subst patch_eq [of _ "out s @ [0x12]" "len_stack s" "nr # body"]) simp_all

text \<open>
  A package: what runs between its opening and the patch of its length only has to append
  \<open>body\<close> and to count it.
\<close>

lemma package_around:
  assumes "length (len_stack s) < 10"
    and "\<And>s'. len_stack s' = Suc (length (out s)) # len_stack s \<Longrightarrow>
           g 4 s' = Some (4 + int (length body), s'\<lparr>out := out s' @ body\<rparr>)"
  shows "Option.bind (acpigen_write_package nr s) (\<lambda>(len, s). Option.bind (g len s) (\<lambda>(len, s).
      Option.bind (acpigen_patch_len (len - 1) s) (\<lambda>s. k len s)))
    = k (int (length (aml_package nr body))) (s\<lparr>out := out s @ aml_package nr body\<rparr>)"
  using close_package [of "3 + int (length body)" s "word_of_int nr" body]
  by (simp add: package_eq assms aml_package_def)

lemma package_dwords:
  assumes "length (len_stack s) < 10"
  shows "Option.bind (acpigen_write_package nr s) (\<lambda>(len, s). case write_dwords ds len s of (len, s) \<Rightarrow>
      Option.bind (acpigen_patch_len (len - 1) s) (\<lambda>s. k len s))
    = k (int (length (aml_package nr (concat (map aml_dword ds))))) (s\<lparr>out := out s @ aml_package nr (concat (map aml_dword ds))\<rparr>)"
proof -
  have "length (concat (map aml_dword ds)) = 5 * length ds" by (induction ds) simp_all
  then show ?thesis
    using package_around [OF assms, of "\<lambda>len s. Some (write_dwords ds len s)" "concat (map aml_dword ds)" nr k]
    by simp
qed

section \<open>Name strings\<close>

lemma simple_loop_eq:
  "n \<le> 4 \<Longrightarrow> simple_namestring_loop n name s
     = (int n, s\<lparr>out := out s @ take n (takeWhile (\<lambda>c. c \<noteq> DOT) name @ replicate 4 UNDERSCORE)\<rparr>)"
proof (induction n name s rule: simple_namestring_loop.induct)
  case (2 n name s)
  show ?case
  proof (cases name)
    case (Cons c cs)
    then show ?thesis using 2 by (simp add: emit_stream_eq)
  qed (use 2 in \<open>simp add: emit_stream_eq\<close>)
qed simp

lemma simple_namestring_eq [simp]:
  "acpigen_emit_simple_namestring name s = (4, s\<lparr>out := out s @ aml_seg name\<rparr>)"
  by (simp add: acpigen_emit_simple_namestring_def simple_loop_eq aml_seg_def)

lemma length_aml_seg [simp]: "length (aml_seg name) = 4"
  by (simp add: aml_seg_def)

definition seg_ok :: "u8 list \<Rightarrow> bool" where
  "seg_ok a \<longleftrightarrow> a \<noteq> [] \<and> DOT \<notin> set a"

lemma takeWhile_seg: "DOT \<notin> set a \<Longrightarrow> takeWhile (\<lambda>c. c \<noteq> DOT) (a @ DOT # rest) = a"
  by (induction a) auto

lemma takeWhile_seg_end: "DOT \<notin> set a \<Longrightarrow> takeWhile (\<lambda>c. c \<noteq> DOT) a = a"
  by (induction a) auto

lemma aml_seg_join: "list_all seg_ok (a # segs) \<Longrightarrow> aml_seg (join_dots (a # segs)) = aml_seg a"
  by (cases segs) (simp_all add: aml_seg_def takeWhile_seg takeWhile_seg_end seg_ok_def)

lemma next_entity_join:
  assumes "list_all seg_ok (a # segs)"
  shows "next_entity (join_dots (a # segs)) = join_dots segs"
proof -
  have "dropWhile (\<lambda>c. c \<noteq> DOT) (a @ DOT # rest) = DOT # rest" "dropWhile (\<lambda>c. c \<noteq> DOT) a = []" for rest
    using assms by (auto simp: seg_ok_def dropWhile_append dropWhile_eq_Nil_conv)
  then show ?thesis by (cases segs) (simp_all only: next_entity_def join_dots.simps list.sel)
qed

lemma join_nonempty: "list_all seg_ok (a # segs) \<Longrightarrow> join_dots (a # segs) \<noteq> []"
  by (cases segs) (simp_all add: seg_ok_def)

lemma multi_loop_eq:
  "list_all seg_ok segs \<Longrightarrow> multi_namestring_loop (join_dots segs) len count s
     = (len + 4 * int (length segs), count + int (length segs), s\<lparr>out := out s @ concat (map aml_seg segs)\<rparr>)"
proof (induction segs arbitrary: len count s)
  case Nil
  then show ?case by (simp add: multi_namestring_loop.simps)
next
  case (Cons a segs)
  then show ?case
    by (subst multi_namestring_loop.simps) (simp add: join_nonempty aml_seg_join next_entity_join)
qed

lemma find_dots_eq:
  "list_all seg_ok segs \<Longrightarrow> segs \<noteq> [] \<Longrightarrow>
     fst (find_dots i (join_dots segs) c p) = c + (length segs - 1)
   \<and> (length segs = 2 \<longrightarrow> snd (find_dots i (join_dots segs) c p) = i + length (hd segs))
   \<and> (length segs = 1 \<longrightarrow> snd (find_dots i (join_dots segs) c p) = p)"
proof (induction segs arbitrary: i c p rule: join_dots.induct)
  case (2 a)
  have "DOT \<notin> set b \<Longrightarrow> find_dots i b c p = (c, p)" for i b c p by (induction b arbitrary: i) auto
  then show ?case using 2 by (simp add: seg_ok_def)
next
  case (3 a b segs)
  have skip: "DOT \<notin> set x \<Longrightarrow> find_dots i (x @ rest) c p = find_dots (i + length x) rest c p" for i x rest c p
    by (induction x arbitrary: i) auto
  have a: "list_all seg_ok (b # segs)" "seg_ok a" using 3(2) by simp_all
  then have d: "DOT \<notin> set a" by (simp add: seg_ok_def)
  show ?case
    using 3(1) [OF a(1), of "i + length a + 1" "c + 1" "i + length a"] by (simp add: skip [OF d])
qed simp

lemma emit_carets_eq:
  "name \<noteq> [] \<Longrightarrow> hd name \<noteq> CARET \<Longrightarrow>
     emit_carets (replicate n CARET @ name) len s = (name, len + int n, s\<lparr>out := out s @ replicate n CARET\<rparr>)"
proof (induction n arbitrary: len s)
  case 0
  then show ?case by (cases name) simp_all
qed simp

definition aml_name :: "bool \<Rightarrow> nat \<Rightarrow> u8 list list \<Rightarrow> u8 list" where
  "aml_name root up segs = (if root then [BACKSLASH] else []) @ replicate up CARET @ aml_path segs"

definition name_string :: "bool \<Rightarrow> nat \<Rightarrow> u8 list list \<Rightarrow> u8 list" where
  "name_string root up segs = (if root then [BACKSLASH] else []) @ replicate up CARET @ join_dots segs"

definition segs_ok :: "u8 list list \<Rightarrow> bool" where
  "segs_ok segs \<longleftrightarrow> segs \<noteq> [] \<and> list_all seg_ok segs \<and> hd (hd segs) \<noteq> CARET \<and> hd (hd segs) \<noteq> BACKSLASH"

lemma emit_namestring_eq:
  assumes "segs_ok segs"
  shows "acpigen_emit_namestring (name_string root up segs) s
    = (int (length (aml_name root up segs)), s\<lparr>out := out s @ aml_name root up segs\<rparr>)"
proof -
  obtain a rest where segs: "segs = a # rest" using assms by (cases segs) (auto simp: segs_ok_def)
  have ok: "list_all seg_ok (a # rest)" "hd a \<noteq> CARET" "hd a \<noteq> BACKSLASH" "a \<noteq> []"
    using assms by (auto simp: segs_ok_def segs seg_ok_def)
  let ?n = "join_dots (a # rest)"
  have n: "?n \<noteq> []" "hd ?n = hd a" using join_nonempty [OF ok(1)] ok(4) by (cases rest; simp)+
  obtain c p where cp: "find_dots 0 ?n 0 0 = (c, p)" by (cases "find_dots 0 ?n 0 0")
  have path: "(if c = 0 then acpigen_emit_simple_namestring ?n s
         else if c = 1 then acpigen_emit_double_namestring ?n p s
         else acpigen_emit_multi_namestring ?n s)
      = (int (length (aml_path (a # rest))), s\<lparr>out := out s @ aml_path (a # rest)\<rparr>)" for s
  proof -
    note fd = find_dots_eq [OF ok(1), of 0 0 0]
    consider "rest = []" | b where "rest = [b]" | b d r where "rest = b # d # r" by (cases rest; cases "tl rest") auto
    then show ?thesis
    proof cases
      case 1
      then show ?thesis using fd cp by (simp add: aml_path_def)
    next
      case 2
      then have "c = 1" "p = length a" using fd cp by simp_all
      moreover have "aml_seg ?n = aml_seg a" by (rule aml_seg_join [OF ok(1)])
      ultimately show ?thesis
        using 2 by (simp add: acpigen_emit_double_namestring_def aml_path_def)
    next
      case 3
      then have c: "c = length rest" using fd cp by simp
      have "length (concat (map aml_seg segs)) = 4 * length segs" for segs by (induction segs) simp_all
      then show ?thesis
        using 3 c multi_loop_eq [OF ok(1)]
        by (simp add: acpigen_emit_multi_namestring_def aml_path_def Let_def acpigen_get_current_def poke_def list_update_append
            algebra_simps)
    qed
  qed
  have h: "hd (replicate up CARET @ ?n) \<noteq> BACKSLASH" "replicate up CARET @ ?n \<noteq> []"
    using n ok by (cases up; simp)+
  show ?thesis
  proof (cases root)
    case True
    then show ?thesis
      unfolding acpigen_emit_namestring_def name_string_def aml_name_def segs
      using n ok path
      by (simp only: append_Cons append_Nil list.sel if_True simp_thms list.distinct Let_def emit_byte_eq prod.case emit_carets_eq cp) simp
  next
    case False
    then show ?thesis
      unfolding acpigen_emit_namestring_def name_string_def aml_name_def segs
      using n ok path h
      by (simp only: append_Nil if_False simp_thms Let_def prod.case emit_carets_eq cp) simp
  qed
qed

section \<open>Templates and packages\<close>

definition aml_register :: "acpi_addr \<Rightarrow> u8 list" where
  "aml_register r = [0x82, 0x0c, 0x00, space_id r, bit_width r, bit_offset r, resv r,
     data_byte 0 (addrl r), data_byte 1 (addrl r), data_byte 2 (addrl r), data_byte 3 (addrl r),
     data_byte 0 (addrh r), data_byte 1 (addrh r), data_byte 2 (addrh r), data_byte 3 (addrh r)]"

lemma write_register_eq [simp]: "acpigen_write_register r s = (15, s\<lparr>out := out s @ aml_register r\<rparr>)"
  by (simp add: acpigen_write_register_def aml_register_def)

lemma length_aml_register [simp]: "length (aml_register r) = 15"
  by (simp add: aml_register_def)

lemma length_dwords [simp]: "length (concat (map aml_dword ds)) = 5 * length ds"
  by (induction ds) simp_all

lemma header_eq:
  "length (len_stack s) + 2 \<le> 10 \<Longrightarrow> acpigen_write_resourcetemplate_header s
    = Some (6, s\<lparr>len_stack := (length (out s) + 4) # Suc (length (out s)) # len_stack s, out := out s @ [0x11, 0, 0, 0x0b, 0, 0]\<rparr>)"
  by (simp add: acpigen_write_resourcetemplate_header_def len_f_eq push_len_def ACPIGEN_LENSTACK_SIZE_def acpigen_get_current_def)

lemma footer_eq:
  assumes "len = 6 + int (length ds)"
  shows "acpigen_write_resourcetemplate_footer len
     (s\<lparr>len_stack := (length (out s) + 4) # Suc (length (out s)) # len_stack s, out := out s @ 0x11 # 0 # 0 # 0x0b # 0 # 0 # ds\<rparr>)
    = Some (2, s\<lparr>out := out s @ aml_template ds\<rparr>)"
proof -
  let ?n = "word_of_int (int (length ds) + 2) :: u32"
  have "acpigen_patch_len (int (length ds) + 7)
     (s\<lparr>len_stack := Suc (length (out s)) # len_stack s,
        out := out s @ 0x11 # 0 # 0 # 0x0b # data_byte 0 ?n # data_byte 1 ?n # ds @ [0x79, 0]\<rparr>)
    = Some (s\<lparr>out := out s @ aml_template ds\<rparr>)"
    by (subst patch_eq [of _ "out s @ [0x11]" "len_stack s" "0x0b # data_byte 0 ?n # data_byte 1 ?n # ds @ [0x79, 0]"])
      (simp_all add: aml_template_def Let_def algebra_simps)
  then show ?thesis
    using assms by (simp add: acpigen_write_resourcetemplate_footer_def pop_len_def poke_def list_update_append eval_nat_numeral algebra_simps)
qed

definition aml_cst_entry :: "acpi_cstate \<Rightarrow> u8 list" where
  "aml_cst_entry c = aml_package 4 (aml_template (aml_register (cs_resource c))
     @ concat (map aml_dword [ucast (ctype c), ucast (cs_latency c), cs_power c]))"

lemma CST_entry_eq:
  assumes "length (len_stack s) + 3 \<le> 10"
  shows "acpigen_write_CST_package_entry c s = Some (int (length (aml_cst_entry c)), s\<lparr>out := out s @ aml_cst_entry c\<rparr>)"
proof -
  let ?r = "aml_register (cs_resource c)"
  let ?d = "concat (map aml_dword [ucast (ctype c), ucast (cs_latency c), cs_power c])"
  obtain s1 where s1: "acpigen_write_package 4 s = Some (4, s1)" "length (len_stack s1) + 2 \<le> 10"
    and s1_eq: "s1 = s\<lparr>len_stack := Suc (length (out s)) # len_stack s, out := out s @ [0x12, 0, 0, 4]\<rparr>"
    using assms by (simp add: package_eq)
  have "acpigen_write_CST_package_entry c s = Option.bind (acpigen_patch_len (3 + int (length (aml_template ?r @ ?d)))
      (s1\<lparr>out := out s1 @ aml_template ?r @ ?d\<rparr>)) (\<lambda>s. Some (4 + int (length (aml_template ?r @ ?d)), s))"
    unfolding acpigen_write_CST_package_entry_def
    using footer_eq [of 21 ?r s1] by (simp add: s1(1) header_eq [OF s1(2)] acpigen_get_current_def)
  then show ?thesis
    using close_package [of "3 + int (length (aml_template ?r @ ?d))" s 4 "aml_template ?r @ ?d"]
    by (simp add: s1_eq aml_cst_entry_def aml_package_def)
qed

lemma CST_entries_eq:
  "length (len_stack s) + 3 \<le> 10 \<Longrightarrow> CST_entries cs len s
    = Some (len + int (length (concat (map aml_cst_entry cs))), s\<lparr>out := out s @ concat (map aml_cst_entry cs)\<rparr>)"
  by (induction cs arbitrary: len s) (simp_all add: CST_entry_eq)

definition aml_tss_entry :: "acpi_tstate \<Rightarrow> u8 list" where
  "aml_tss_entry t = aml_package 5 (concat (map aml_dword [ts_percent t, ts_power t, ts_latency t, ts_control t, ts_status t]))"

lemma TSS_entries_eq:
  "length (len_stack s) + 1 \<le> 10 \<Longrightarrow> TSS_entries ts len s
    = Some (len + int (length (concat (map aml_tss_entry ts))), s\<lparr>out := out s @ concat (map aml_tss_entry ts)\<rparr>)"
proof (induction ts arbitrary: len s)
  case (Cons t ts)
  let ?ds = "[ts_percent t, ts_power t, ts_latency t, ts_control t, ts_status t]"
  have eq: "TSS_entries (t # ts) len s = TSS_entries ts (len + int (length (aml_tss_entry t))) (s\<lparr>out := out s @ aml_tss_entry t\<rparr>)"
    unfolding TSS_entries.simps using package_dwords [where s = s and nr = 5 and ds = ?ds and k = "\<lambda>l s. TSS_entries ts (len + l) s"] Cons.prems
    by (simp only: aml_tss_entry_def Let_def)
  show ?case unfolding eq using Cons by simp
qed simp

lemma write_name_eq:
  "segs_ok segs \<Longrightarrow> acpigen_write_name (name_string root up segs) s
    = (1 + int (length (aml_name root up segs)), s\<lparr>out := out s @ 0x08 # aml_name root up segs\<rparr>)"
  by (simp add: acpigen_write_name_def emit_namestring_eq)

lemma name4:
  assumes "length n = 4" "\<forall>c\<in>set n. c \<noteq> DOT" "hd n \<noteq> CARET" "hd n \<noteq> BACKSLASH"
  shows "acpigen_emit_namestring n s = (4, s\<lparr>out := out s @ n\<rparr>)" "acpigen_write_name n s = (5, s\<lparr>out := out s @ 0x08 # n\<rparr>)"
proof -
  have ok: "segs_ok [n]" using assms by (auto simp: segs_ok_def seg_ok_def)
  have "name_string False 0 [n] = n" by (simp add: name_string_def)
  moreover have "aml_name False 0 [n] = n"
    using assms by (auto simp: aml_name_def aml_path_def aml_seg_def takeWhile_seg_end)
  ultimately show "acpigen_emit_namestring n s = (4, s\<lparr>out := out s @ n\<rparr>)" "acpigen_write_name n s = (5, s\<lparr>out := out s @ 0x08 # n\<rparr>)"
    using emit_namestring_eq [OF ok, of False 0 s] write_name_eq [OF ok, of False 0 s] assms(1) by simp_all
qed

definition sane_name :: "u8 list \<Rightarrow> bool" where
  "sane_name n \<longleftrightarrow> length n = 4 \<and> list_all (\<lambda>c. c \<noteq> DOT) n \<and> hd n \<noteq> CARET \<and> hd n \<noteq> BACKSLASH"

lemma name4_str:
  "sane_name n \<Longrightarrow> acpigen_emit_namestring n s = (4, s\<lparr>out := out s @ n\<rparr>)"
  "sane_name n \<Longrightarrow> acpigen_write_name n s = (5, s\<lparr>out := out s @ 0x08 # n\<rparr>)"
  using name4 [of n s] by (simp_all add: sane_name_def list_all_iff)

lemma sane_names [simp]:
  "sane_name (str ''_TSS'')" "sane_name (str ''_CST'')" "sane_name (str ''_PSD'')" "sane_name (str ''_TSD'')"
  "sane_name (str ''_PTC'')" "sane_name (str ''_PPC'')" "sane_name (str ''_TPC'')" "sane_name (str ''PPCM'')"
  by code_simp+

lemma length_str [simp]: "length (str n) = length n"
  by (simp add: str_def)

lemma pkg_len_roundtrip:
  assumes "0 \<le> n" "n < 2 ^ 31"
  shows "pkg_len_value (pkg_len n) = nat n mod 4096" and "(pkg_len n ! 0) AND 0xf0 = 0x40"
proof -
  have m: "(0xf::u8) = mask 4" "(0xff::u32) = mask 8" "(0xf0::u8) = NOT (mask 4)" by (simp_all add: mask_eq_exp_minus_1)
  have e: "(0x40::u8) = 2 ^ 6" by simp
  have b0: "(0x40 OR (word_of_int n AND 0xf)) AND 0xf = (word_of_int n AND 0xf :: u8)"
    unfolding m e by (rule bit_word_eqI) (simp only: bit_and_iff bit_or_iff bit_mask_iff bit_exp_iff; auto)
  have b1: "(0x40 OR (word_of_int n AND 0xf)) AND 0xf0 = (0x40 :: u8)"
    unfolding m e by (rule bit_word_eqI) (simp only: bit_and_iff bit_or_iff bit_not_iff bit_mask_iff bit_exp_iff; auto)
  have u: "unat (word_of_int n :: u8) = nat n mod 256" "unat (word_of_int n :: u32) = nat n"
    using assms by (simp_all add: unsigned_of_int nat_take_bit_eq) (simp_all add: take_bit_eq_mod)
  have "unat (word_of_int n AND mask 4 :: u8) = nat n mod 16"
    by (simp add: unat_and_mask u) (simp add: mod_mod_cancel)
  moreover have "unat (ucast (drop_bit 4 (word_of_int n :: u32) AND mask 8) :: u8) = nat n div 16 mod 256"
    by (simp add: unat_ucast_mod unat_and_mask drop_bit_eq_div unat_div_distrib u)
  moreover have "nat n mod 4096 = nat n mod 16 + 16 * (nat n div 16 mod 256)"
    using mod_mult2_eq [of "nat n" 16 256] by simp
  ultimately show "pkg_len_value (pkg_len n) = nat n mod 4096"
    unfolding pkg_len_value_def pkg_len_def by (simp add: b0 m [symmetric])
  show "(pkg_len n ! 0) AND 0xf0 = 0x40" unfolding pkg_len_def by (simp add: b1)
qed

text \<open>Up to the maximum of \<^verbatim>\<open>ACPIGEN_MAXLEN\<close> the length is exact.\<close>

lemma counts_pkg_len: "0 \<le> n \<Longrightarrow> n \<le> 0xfff \<Longrightarrow> counts (pkg_len n) (nat n)"
  using pkg_len_roundtrip [of n] by (simp add: counts_def nat_le_iff)

lemma aml_package_exact:
  assumes "n < 256" "length body \<le> 0xffc"
  shows "is_package n body (aml_package (int n) body)"
proof -
  have "counts (pkg_len (3 + int (length body))) (3 + length body)"
    using counts_pkg_len [of "3 + int (length body)"] assms(2) by (simp add: nat_add_distrib)
  moreover have "length (aml_package (int n) body) - 1 = 3 + length body" by simp
  ultimately show ?thesis unfolding is_package_def using assms(1) by (simp only: aml_package_def) auto
qed

lemma data_bytes_nat:
  assumes "n < 65536"
  shows "unat (data_byte 0 (of_nat n :: u32)) + 256 * unat (data_byte 1 (of_nat n :: u32)) = n"
proof -
  have ff: "(0xff :: u32) = mask 8" by (simp add: mask_eq_exp_minus_1)
  have "unat (of_nat n :: u32) = n" using assms by (simp add: unsigned_of_nat take_bit_nat_eq_self)
  then have "unat (data_byte 0 (of_nat n :: u32)) = n mod 256" "unat (data_byte 1 (of_nat n :: u32)) = n div 256"
    using assms unfolding data_byte_def ff
    by (simp_all add: unat_ucast_mod drop_bit_eq_div unat_div_distrib unat_and_mask)
  then show ?thesis by simp
qed

lemma aml_template_exact:
  assumes "length ds \<le> 0xff0"
  shows "is_template ds (aml_template ds)"
proof -
  let ?n = "word_of_int (int (length ds) + 2) :: u32"
  have "counts (pkg_len (int (length ds) + 2 + 5)) (length (aml_template ds) - 1)"
    using counts_pkg_len [of "int (length ds) + 2 + 5"] assms by (simp add: nat_add_distrib add.commute)
  moreover have "?n = of_nat (length ds + 2)" by simp
  then have "unat (data_byte 0 ?n) + 256 * unat (data_byte 1 ?n) = length ds + 2"
    using data_bytes_nat [of "length ds + 2"] assms by (simp only:)
  moreover have "aml_template ds = 0x11 # pkg_len (int (length ds) + 2 + 5) @ 0x0b # data_byte 0 ?n # data_byte 1 ?n # ds @ [0x79, 0]"
    by (simp add: aml_template_def Let_def)
  ultimately show ?thesis unfolding is_template_def by blast
qed

lemma aml_tss_entry_exact:
  "is_package 5 (concat (map aml_dword [ts_percent t, ts_power t, ts_latency t, ts_control t, ts_status t])) (aml_tss_entry t)"
  unfolding aml_tss_entry_def by (rule aml_package_exact [of 5, simplified of_nat_numeral]) simp_all

lemma aml_cst_entry_exact:
  "\<exists>template. is_template (aml_register (cs_resource c)) template
     \<and> is_package 4 (template @ concat (map aml_dword [ucast (ctype c), ucast (cs_latency c), cs_power c])) (aml_cst_entry c)"
proof (intro exI conjI)
  show "is_template (aml_register (cs_resource c)) (aml_template (aml_register (cs_resource c)))" by (rule aml_template_exact) simp
  show "is_package 4 (aml_template (aml_register (cs_resource c)) @ concat (map aml_dword [ucast (ctype c), ucast (cs_latency c), cs_power c]))
      (aml_cst_entry c)"
    unfolding aml_cst_entry_def by (rule aml_package_exact [of 4, simplified of_nat_numeral]) simp_all
qed

section \<open>Mainboard resources\<close>

definition aml_mem32 :: "resource \<Rightarrow> u8 list" where
  "aml_mem32 res = (let base = ucast (res_base res) :: u32; sz = ucast (res_size res) :: u32 in
     [0x86, 0x09, 0x00, 0x00, data_byte 0 base, data_byte 1 base, data_byte 2 base, data_byte 3 base,
      data_byte 0 sz, data_byte 1 sz, data_byte 2 sz, data_byte 3 sz])"

definition aml_io16 :: "resource_t \<times> nat \<Rightarrow> u8 list" where
  "aml_io16 p = (let base = ucast (fst p) :: u16 in
     [0x47, 0x01, data_byte 0 base, data_byte 1 base, data_byte 0 base, data_byte 1 base, 0x00, of_nat (snd p)])"

text \<open>Pieces of at most 255 ports, in order, that make up a region of ports.\<close>

definition io_chunks :: "resource_t \<Rightarrow> nat \<Rightarrow> (resource_t \<times> nat) list" where
  "io_chunks base n = map (\<lambda>i. (base + 255 * of_nat i, min 255 (n - 255 * i))) [0..<(n + 254) div 255]"

lemma io_chunks_Cons:
  assumes "0 < n"
  shows "io_chunks base n = (base, min 255 n) # io_chunks (base + 255) (n - 255)"
proof -
  have k: "(n + 254) div 255 = Suc ((n - 255 + 254) div 255)"
  proof (cases "255 \<le> n")
    case True
    then have "n + 254 = 255 + (n - 255 + 254)" by simp
    then show ?thesis by (simp only: div_add_self1 Suc_eq_plus1)
  next
    case False
    then show ?thesis using assms by simp
  qed
  show ?thesis
    unfolding io_chunks_def k map_upt_Suc by (auto simp: algebra_simps diff_diff_left)
qed

lemma io_chunks_total: "sum_list (map snd (io_chunks base n)) = n"
proof (induction n arbitrary: base rule: less_induct)
  case (less n)
  show ?case
  proof (cases "n = 0")
    case False
    then show ?thesis using less [of "n - 255"] by (simp add: io_chunks_Cons)
  qed (simp add: io_chunks_def)
qed

lemma and_255: "(x::u8) AND 0xff = x"
proof -
  have "(0xff::u8) = - 1" by simp
  then show ?thesis by (simp only: and.right_neutral)
qed

lemma rsvd_io_loop_eq: "rsvd_io_loop base sz s = s\<lparr>out := out s @ concat (map aml_io16 (io_chunks base (unat sz)))\<rparr>"
proof (induction base sz s rule: rsvd_io_loop.induct)
  case (1 base sz s)
  show ?case
  proof (cases "0 < sz")
    case False
    then show ?thesis by (subst rsvd_io_loop.simps) (simp add: io_chunks_def word_gt_0)
  next
    case True
    define n :: resource_t where "n = (if 255 < sz then 255 else sz)"
    have n: "unat n = min 255 (unat sz)" "unat (sz - n) = unat sz - 255"
      by (auto simp: n_def word_less_nat_alt unat_sub word_le_nat_alt)
    have u: "0 < unat sz" using True by (simp add: word_less_nat_alt)
    have d: "snd (acpigen_write_io16 (ucast base) (ucast base) 0 (ucast n) True s) = s\<lparr>out := out s @ aml_io16 (base, min 255 (unat sz))\<rparr>"
    proof -
      have "(ucast n :: u8) = of_nat (unat n)" by simp
      then show ?thesis by (simp add: acpigen_write_io16_def aml_io16_def Let_def and_255 n(1) del: of_nat_unat)
    qed
    have rest: "concat (map aml_io16 (io_chunks (base + n) (unat sz - 255))) = concat (map aml_io16 (io_chunks (base + 255) (unat sz - 255)))"
      by (cases "255 < sz") (auto simp: n_def io_chunks_def word_less_nat_alt)
    have "rsvd_io_loop base sz s = rsvd_io_loop (base + n) (sz - n) (snd (acpigen_write_io16 (ucast base) (ucast base) 0 (ucast n) True s))"
      using True by (subst rsvd_io_loop.simps) (simp add: n_def Let_def case_prod_unfold)
    also have "\<dots> = s\<lparr>out := out s @ aml_io16 (base, min 255 (unat sz)) @ concat (map aml_io16 (io_chunks (base + 255) (unat sz - 255)))\<rparr>"
      using 1 [OF True n_def, of "acpigen_write_io16 (ucast base) (ucast base) 0 (ucast n) True s"]
      by (simp add: case_prod_unfold n(2) rest d prod_eq_iff)
    finally show ?thesis by (simp add: io_chunks_Cons u)
  qed
qed

definition global_resources :: "devtree \<Rightarrow> u32 \<Rightarrow> u32 \<Rightarrow> resource list" where
  "global_resources t type_mask type' = concat (map (\<lambda>d. if d_enabled (devs t d)
     then filter (\<lambda>r. res_flags r AND type_mask = type' \<and> res_flags r AND IORESOURCE_SUBTRACTIVE = 0) (d_resource_list (devs t d))
     else []) (all_devices t))"

lemma fold_opt_append_out:
  assumes "\<And>x s. x \<in> set xs \<Longrightarrow> f x s = Some (s\<lparr>out := out s @ g x\<rparr>)"
  shows "fold_opt f xs s = Some (s\<lparr>out := out s @ concat (map g xs)\<rparr>)"
  using assms by (induction xs arbitrary: s) (auto simp: fold_opt.simps)

lemma concat_map_concat: "concat (map g (concat (map h xs))) = concat (map (\<lambda>d. concat (map g (h d))) xs)"
  by (induction xs) simp_all

lemma search_global_append:
  assumes "\<And>d r s. search d r s = Some (s\<lparr>out := out s @ g r\<rparr>)"
  shows "search_global_resources t type_mask type' search s = Some (s\<lparr>out := out s @ concat (map g (global_resources t type_mask type'))\<rparr>)"
proof -
  let ?P = "\<lambda>r. res_flags r AND type_mask = type' \<and> res_flags r AND IORESOURCE_SUBTRACTIVE = 0"
  have f: "concat (map (\<lambda>r. if ?P r then g r else []) rs) = concat (map g (filter ?P rs))" for rs by (induction rs) auto
  have inner: "fold_opt (\<lambda>res gp. if res_flags res AND type_mask \<noteq> type' then Some gp
        else if res_flags res AND IORESOURCE_SUBTRACTIVE \<noteq> 0 then Some gp else search d res gp) rs s
     = Some (s\<lparr>out := out s @ concat (map g (filter ?P rs))\<rparr>)" for d rs s
    unfolding f [symmetric] by (rule fold_opt_append_out) (simp add: assms)
  show ?thesis
    unfolding search_global_resources_def
    by (subst fold_opt_append_out [where g = "\<lambda>d. concat (map g (if d_enabled (devs t d) then filter ?P (d_resource_list (devs t d)) else []))"])
      (simp_all add: inner global_resources_def concat_map_concat)
qed

section \<open>Properties\<close>

text \<open>
  \<^verbatim>\<open>acpigen_patch_len\<close> writes a two-byte package length that decodes to the length
  modulo 4096: exact up to the maximum of 0xfff; above it the \<^verbatim>\<open>ASSERT\<close> only prints and
  the length wraps.
\<close>
lemma acpigen_patch_len_decodes:
  assumes "0 \<le> n" and "n < 2 ^ 31"
    and "len_stack s = length xs # ps" and "out s = xs @ [0, 0] @ body"
  shows "\<exists>b0 b1. acpigen_patch_len n s = Some (s\<lparr>out := xs @ [b0, b1] @ body, len_stack := ps\<rparr>)
    \<and> b0 AND 0xf0 = 0x40 \<and> pkg_len_value [b0, b1] = nat n mod 4096"
proof -
  note pkg_len_roundtrip [OF assms(1,2)]
  moreover have "pkg_len n = [pkg_len n ! 0, pkg_len n ! 1]" by (simp add: pkg_len_def)
  ultimately show ?thesis
    using patch_eq [of s xs ps body n] assms(3,4) by (intro exI [of _ "pkg_len n ! 0"] exI [of _ "pkg_len n ! 1"]) auto
qed


definition acpigen_empty :: acpigen where
  "acpigen_empty = \<lparr>out = [], len_stack = []\<rparr>"

lemma acpigen_patch_len_decodes_witness:
  "\<exists>b0 b1 s. acpigen_patch_len 0x1234 \<lparr>out = [0x12, 0, 0, 5], len_stack = [1]\<rparr> = Some s
    \<and> out s = [0x12, b0, b1, 5] \<and> pkg_len_value [b0, b1] = 0x234"
proof -
  have "len_stack \<lparr>out = [0x12, 0, 0, 5], len_stack = [1]\<rparr> = length [0x12::u8] # []" by simp
  from acpigen_patch_len_decodes [OF _ _ this, of "0x1234" "[5]"] show ?thesis by force
qed

text \<open>
  The name of an object is emitted as ACPI wants it: the root and parent prefixes, the
  dual or multi name prefix with the number of elements, and every element cut or padded with
  underscores to four characters; the returned length is the number of bytes.
\<close>
lemma acpigen_namestring_encoding:
  assumes "segs_ok segs"
  shows "acpigen_emit_namestring (name_string root up segs) s
    = (int (length (aml_name root up segs)), s\<lparr>out := out s @ aml_name root up segs\<rparr>)"
  by (rule emit_namestring_eq [OF assms])

lemma acpigen_namestring_encoding_witness:
  "acpigen_emit_namestring (str ''^_SB.PCI0.LPC'') acpigen_empty
    = (15, \<lparr>out = CARET # 0x2f # 3 # str ''_SB_PCI0LPC_'', len_stack = []\<rparr>)"
proof -
  have "segs_ok [str ''_SB'', str ''PCI0'', str ''LPC'']" by code_simp
  moreover have "str ''^_SB.PCI0.LPC'' = name_string False 1 [str ''_SB'', str ''PCI0'', str ''LPC'']" by code_simp
  moreover have "aml_name False 1 [str ''_SB'', str ''PCI0'', str ''LPC''] = CARET # 0x2f # 3 # str ''_SB_PCI0LPC_''" by code_simp
  ultimately show ?thesis
    using acpigen_namestring_encoding [of "[str ''_SB'', str ''PCI0'', str ''LPC'']" False 1 acpigen_empty]
    by (simp add: acpigen_empty_def)
qed

text \<open>
  C32.  \<^verbatim>\<open>acpigen_write_TSS_package\<close>, for at most 141 throttling states (beyond that the length does not fit into two
  bytes and \<^verbatim>\<open>ASSERT(len <= ACPIGEN_MAXLEN)\<close> fails) and with room for two more lengths on the stack, emits the
  object _TSS: a package with one five-element package per state, in order, whose elements are the fields of
  the state; the length in each package, as AML reads it, counts exactly its own bytes.  The length stack is left as
  it was, what was emitted before is unchanged and the result is the number of bytes.
\<close>
theorem acpigen_TSS_encoding:
  assumes "length (len_stack s) \<le> 7" "length ts \<le> 141"
  shows "\<exists>package entries. acpigen_write_TSS_package ts s = Some (int (length package) + 5, s\<lparr>out := out s @ 0x08 # str ''_TSS'' @ package\<rparr>)
    \<and> is_package (length ts) (concat entries) package
    \<and> list_all2 (\<lambda>t. is_package 5 (concat (map aml_dword [ts_percent t, ts_power t, ts_latency t, ts_control t, ts_status t]))) ts entries"
proof (intro exI conjI)
  let ?s = "s\<lparr>out := out s @ 0x08 # str ''_TSS''\<rparr>"
  let ?b = "concat (map aml_tss_entry ts)"
  have "Option.bind (acpigen_write_package (int (length ts)) ?s) (\<lambda>(len, s). Option.bind (TSS_entries ts len s) (\<lambda>(len, s).
      Option.bind (acpigen_patch_len (len - 1) s) (\<lambda>s. Some (len + 5, s))))
    = Some (int (length (aml_package (int (length ts)) ?b)) + 5, ?s\<lparr>out := out ?s @ aml_package (int (length ts)) ?b\<rparr>)"
    by (rule package_around) (use assms in \<open>simp_all add: TSS_entries_eq\<close>)
  then show "acpigen_write_TSS_package ts s = Some (int (length (aml_package (int (length ts)) ?b)) + 5,
      s\<lparr>out := out s @ 0x08 # str ''_TSS'' @ aml_package (int (length ts)) ?b\<rparr>)"
    unfolding acpigen_write_TSS_package_def by (simp add: name4_str Let_def)
  have "length ?b = 29 * length ts" by (induction ts) (simp_all add: aml_tss_entry_def)
  then show "is_package (length ts) ?b (aml_package (int (length ts)) ?b)" using assms(2) by (intro aml_package_exact) simp_all
  show "list_all2 (\<lambda>t. is_package 5 (concat (map aml_dword [ts_percent t, ts_power t, ts_latency t, ts_control t, ts_status t]))) ts (map aml_tss_entry ts)"
    by (simp add: list_all2_map2 list_all2_same aml_tss_entry_exact del: concat.simps list.map)
qed

definition example_tstates :: "acpi_tstate list" where
  "example_tstates = [\<lparr>ts_percent = 100, ts_power = 1000, ts_latency = 0, ts_control = 0, ts_status = 0\<rparr>,
     \<lparr>ts_percent = 50, ts_power = 520, ts_latency = 0, ts_control = 0x18, ts_status = 0\<rparr>]"

theorem acpigen_TSS_encoding_witness:
  "\<exists>package entries. acpigen_write_TSS_package example_tstates acpigen_empty
      = Some (int (length package) + 5, acpigen_empty\<lparr>out := 0x08 # str ''_TSS'' @ package\<rparr>)
    \<and> is_package 2 (concat entries) package \<and> length entries = 2"
proof -
  have l: "length (len_stack acpigen_empty) \<le> 7" "length example_tstates \<le> 141" "length example_tstates = 2" "out acpigen_empty = []"
    by (simp_all add: acpigen_empty_def example_tstates_def)
  from acpigen_TSS_encoding [OF l(1,2)] show ?thesis
    unfolding l(3,4) append_Nil by (elim exE conjE) (drule list_all2_lengthD, unfold l(3), blast intro: sym)
qed

text \<open>
  C33.  \<^verbatim>\<open>acpigen_write_CST_package\<close>, for at most 97 states (beyond that \<^verbatim>\<open>ASSERT(len <= ACPIGEN_MAXLEN)\<close> fails) and
  with room for four more lengths on the stack, emits the object _CST: a package of the number of states and,
  per state and in order, a package of a resource template with the register, the type, the latency and the power.
  Every package length, as AML reads it, and every buffer size counts exactly its own bytes.  The length stack is left
  as it was, what was emitted before is unchanged and the result is the number of bytes.
\<close>
theorem acpigen_CST_encoding:
  assumes "length (len_stack s) \<le> 5" "length cs \<le> 97"
  shows "\<exists>package entries. acpigen_write_CST_package cs s = Some (int (length package) + 5, s\<lparr>out := out s @ 0x08 # str ''_CST'' @ package\<rparr>)
    \<and> is_package (Suc (length cs)) (aml_dword (of_nat (length cs)) @ concat entries) package
    \<and> list_all2 (\<lambda>c entry. \<exists>template. is_template (aml_register (cs_resource c)) template
         \<and> is_package 4 (template @ concat (map aml_dword [ucast (ctype c), ucast (cs_latency c), cs_power c])) entry) cs entries"
proof (intro exI conjI)
  let ?s = "s\<lparr>out := out s @ 0x08 # str ''_CST''\<rparr>" and ?n = "int (Suc (length cs))"
  let ?b = "aml_dword (of_nat (length cs)) @ concat (map aml_cst_entry cs)"
  have room: "length (len_stack ?s) < 10" using assms by simp
  obtain s1 where s1: "acpigen_write_package ?n ?s = Some (4, s1)" "length (len_stack s1) + 3 \<le> 10"
    and s1_eq: "s1 = ?s\<lparr>len_stack := Suc (length (out ?s)) # len_stack ?s, out := out ?s @ [0x12, 0, 0, word_of_int ?n]\<rparr>"
    using package_eq [OF room, of ?n] assms by simp
  have "acpigen_write_CST_package cs s = Option.bind (acpigen_patch_len (3 + int (length ?b)) (s1\<lparr>out := out s1 @ ?b\<rparr>))
      (\<lambda>s. Some (9 + int (length ?b), s))"
    unfolding acpigen_write_CST_package_def Let_def
    using CST_entries_eq [of "s1\<lparr>out := out s1 @ aml_dword (of_nat (length cs))\<rparr>" cs 5] s1
    by (simp add: name4_str Let_def add.commute)
  then show "acpigen_write_CST_package cs s = Some (int (length (aml_package ?n ?b)) + 5, s\<lparr>out := out s @ 0x08 # str ''_CST'' @ aml_package ?n ?b\<rparr>)"
    using close_package [of "3 + int (length ?b)" ?s "word_of_int ?n" ?b]
    by (simp add: s1_eq aml_package_def Let_def)
  have "length (concat (map aml_cst_entry cs)) = 42 * length cs" by (induction cs) (simp_all add: aml_cst_entry_def)
  then show "is_package (Suc (length cs)) ?b (aml_package ?n ?b)" using assms(2) by (intro aml_package_exact) simp_all
  show "list_all2 (\<lambda>c entry. \<exists>template. is_template (aml_register (cs_resource c)) template
         \<and> is_package 4 (template @ concat (map aml_dword [ucast (ctype c), ucast (cs_latency c), cs_power c])) entry) cs (map aml_cst_entry cs)"
    by (simp add: list_all2_map2 list_all2_same aml_cst_entry_exact del: concat.simps list.map)
qed

definition example_cstate :: acpi_cstate where
  "example_cstate = \<lparr>ctype = 1, cs_latency = 1, cs_power = 1000,
     cs_resource = \<lparr>space_id = 0x7f, bit_width = 1, bit_offset = 2, resv = 1, addrl = 0, addrh = 0\<rparr>\<rparr>"

theorem acpigen_CST_encoding_witness:
  "\<exists>package entries. acpigen_write_CST_package [example_cstate] acpigen_empty
      = Some (int (length package) + 5, acpigen_empty\<lparr>out := 0x08 # str ''_CST'' @ package\<rparr>)
    \<and> is_package (Suc 1) (aml_dword (of_nat 1) @ concat entries) package \<and> length entries = 1"
proof -
  have l: "length (len_stack acpigen_empty) \<le> 5" "length [example_cstate] \<le> 97" "length [example_cstate] = 1" "out acpigen_empty = []"
    by (simp_all add: acpigen_empty_def)
  from acpigen_CST_encoding [OF l(1,2)] show ?thesis
    unfolding l(3,4) append_Nil by (elim exE conjE) (drule list_all2_lengthD, unfold l(3), blast intro: sym)
qed

text \<open>
  The resource template of the mainboard holds one memory descriptor per enabled,
  reserved memory resource and, for every reserved port resource, descriptors of at most 255
  ports that follow each other and add up to its size, with exact buffer lengths.
\<close>
lemma acpigen_mainboard_template_encoding:
  assumes "length (len_stack s) \<le> 8"
  shows "acpigen_write_mainboard_resource_template t s =
     (let aml = aml_template
            (concat (map aml_mem32 (global_resources t (IORESOURCE_MEM OR IORESOURCE_RESERVE) (IORESOURCE_MEM OR IORESOURCE_RESERVE)))
           @ concat (map (\<lambda>r. concat (map aml_io16 (io_chunks (res_base r) (unat (res_size r)))))
               (global_resources t (IORESOURCE_IO OR IORESOURCE_RESERVE) (IORESOURCE_IO OR IORESOURCE_RESERVE))))
      in Some (int (length aml), s\<lparr>out := out s @ aml\<rparr>))
    \<and> (\<forall>r. sum_list (map snd (io_chunks (res_base r) (unat (res_size r)))) = unat (res_size r))"
proof -
  let ?m = "concat (map aml_mem32 (global_resources t (IORESOURCE_MEM OR IORESOURCE_RESERVE) (IORESOURCE_MEM OR IORESOURCE_RESERVE)))"
  let ?i = "concat (map (\<lambda>r. concat (map aml_io16 (io_chunks (res_base r) (unat (res_size r)))))
               (global_resources t (IORESOURCE_IO OR IORESOURCE_RESERVE) (IORESOURCE_IO OR IORESOURCE_RESERVE)))"
  have m: "acpigen_add_mainboard_rsvd_mem32 d r s = Some (s\<lparr>out := out s @ aml_mem32 r\<rparr>)" for d r s
    by (simp add: acpigen_add_mainboard_rsvd_mem32_def acpigen_write_mem32fixed_def aml_mem32_def Let_def)
  have i: "acpigen_add_mainboard_rsvd_io d r s
      = Some (s\<lparr>out := out s @ concat (map aml_io16 (io_chunks (res_base r) (unat (res_size r))))\<rparr>)" for d r s
    by (simp add: acpigen_add_mainboard_rsvd_io_def rsvd_io_loop_eq)
  have room: "length (len_stack s) + 2 \<le> 10" using assms by simp
  show ?thesis
    unfolding acpigen_write_mainboard_resource_template_def
    using footer_eq [of "6 + int (length (?m @ ?i))" "?m @ ?i" s]
    by (simp add: header_eq [OF room] search_global_append [OF m] search_global_append [OF i] acpigen_get_current_def Let_def io_chunks_total
        algebra_simps)
qed

lemma acpigen_mainboard_template_encoding_witness:
  "\<exists>aml. acpigen_write_mainboard_resource_template example_tree acpigen_empty = Some (int (length aml), acpigen_empty\<lparr>out := aml\<rparr>)"
proof -
  have "length (len_stack acpigen_empty) \<le> 8" by (simp add: acpigen_empty_def)
  from acpigen_mainboard_template_encoding [OF this, of example_tree] show ?thesis
    by (auto simp: Let_def acpigen_empty_def)
qed

end
