(* ===== verification/Cmos.thy ===== *)
theory Cmos
  imports Prelude
begin

text \<open>
  The battery-backed CMOS RAM with its clock and options, \<^verbatim>\<open>src/drivers/pc80/mc146818rtc.c\<close>
  and the accessors of \<^verbatim>\<open>src/include/pc80/mc146818rtc.h\<close>.

  The chip is its 256 bytes, in two banks, and the index latches of the ports 0x70 and 0x72;
  its status registers are modelled as plain bytes.  The layout of the checksum, which the
  build generates into \<^verbatim>\<open>option_table.h\<close>, the build date and the contents of
  \<^verbatim>\<open>cmos_layout.bin\<close>, which CBFS delivers, are parameters.  Code under
  \<^verbatim>\<open>CONFIG_USE_OPTION_TABLE\<close> is modelled as enabled; \<^verbatim>\<open>rtc_init\<close> has both variants.
\<close>

section \<open>The chip\<close>

record rtc =
  nvram :: "u8 \<Rightarrow> u8"
  latch0 :: u8
  latch1 :: u8

abbreviation RTC_BASE_PORT :: u16 where "RTC_BASE_PORT \<equiv> 0x70"
abbreviation NMI_DISABLE_BIT :: u8 where "NMI_DISABLE_BIT \<equiv> 0x80"

definition inb :: "u16 \<Rightarrow> rtc \<Rightarrow> u8" where
  "inb port s =
     (if port = 0x70 then latch0 s
      else if port = 0x71 then nvram s (latch0 s AND 0x7f)
      else if port = 0x72 then latch1 s
      else if port = 0x73 then nvram s (0x80 OR (latch1 s AND 0x7f))
      else 0xff)"

definition outb :: "u8 \<Rightarrow> u16 \<Rightarrow> rtc \<Rightarrow> rtc" where
  "outb val port s =
     (if port = 0x70 then s\<lparr>latch0 := val\<rparr>
      else if port = 0x71 then s\<lparr>nvram := (nvram s)(latch0 s AND 0x7f := val)\<rparr>
      else if port = 0x72 then s\<lparr>latch1 := val\<rparr>
      else if port = 0x73 then s\<lparr>nvram := (nvram s)(0x80 OR (latch1 s AND 0x7f) := val)\<rparr>
      else s)"

definition select_addr :: "u8 \<Rightarrow> rtc \<Rightarrow> u16 \<times> rtc" where
  "select_addr addr s =
     (let (offs, addr) =
        (if 128 \<le> addr then (2, addr - 128) else (0, addr OR (inb RTC_BASE_PORT s AND NMI_DISABLE_BIT)))
      in (offs, outb addr (RTC_BASE_PORT + offs + 0) s))"

definition cmos_read :: "u8 \<Rightarrow> rtc \<Rightarrow> u8 \<times> rtc" where
  "cmos_read addr s = (let (offs, s) = select_addr addr s in (inb (RTC_BASE_PORT + offs + 1) s, s))"

definition cmos_write_inner :: "u8 \<Rightarrow> u8 \<Rightarrow> rtc \<Rightarrow> rtc" where
  "cmos_write_inner val addr s = (let (offs, s) = select_addr addr s in outb val (RTC_BASE_PORT + offs + 1) s)"

abbreviation RTC_CLK_SECOND :: u8 where "RTC_CLK_SECOND \<equiv> 0"
abbreviation RTC_CLK_SECOND_ALARM :: u8 where "RTC_CLK_SECOND_ALARM \<equiv> 1"
abbreviation RTC_CLK_MINUTE :: u8 where "RTC_CLK_MINUTE \<equiv> 2"
abbreviation RTC_CLK_MINUTE_ALARM :: u8 where "RTC_CLK_MINUTE_ALARM \<equiv> 3"
abbreviation RTC_CLK_HOUR :: u8 where "RTC_CLK_HOUR \<equiv> 4"
abbreviation RTC_CLK_HOUR_ALARM :: u8 where "RTC_CLK_HOUR_ALARM \<equiv> 5"
abbreviation RTC_CLK_DAYOFWEEK :: u8 where "RTC_CLK_DAYOFWEEK \<equiv> 6"
abbreviation RTC_CLK_DAYOFMONTH :: u8 where "RTC_CLK_DAYOFMONTH \<equiv> 7"
abbreviation RTC_CLK_MONTH :: u8 where "RTC_CLK_MONTH \<equiv> 8"
abbreviation RTC_CLK_YEAR :: u8 where "RTC_CLK_YEAR \<equiv> 9"
abbreviation RTC_FREQ_SELECT :: u8 where "RTC_FREQ_SELECT \<equiv> 10"
abbreviation RTC_CONTROL :: u8 where "RTC_CONTROL \<equiv> 11"
abbreviation RTC_INTR_FLAGS :: u8 where "RTC_INTR_FLAGS \<equiv> 12"
abbreviation RTC_VALID :: u8 where "RTC_VALID \<equiv> 13"
abbreviation RTC_CLK_ALTCENTURY :: u8 where "RTC_CLK_ALTCENTURY \<equiv> 0x32"
abbreviation RTC_SET :: u8 where "RTC_SET \<equiv> 0x80"
abbreviation RTC_24H :: u8 where "RTC_24H \<equiv> 0x02"
abbreviation RTC_VRT :: u8 where "RTC_VRT \<equiv> 0x80"
abbreviation RTC_REF_CLCK_32KHZ :: u8 where "RTC_REF_CLCK_32KHZ \<equiv> 0x20"
abbreviation RTC_RATE_1024HZ :: u8 where "RTC_RATE_1024HZ \<equiv> 0x06"
abbreviation PC_CKS_RANGE_START :: nat where "PC_CKS_RANGE_START \<equiv> 16"
abbreviation PC_CKS_RANGE_END :: nat where "PC_CKS_RANGE_END \<equiv> 45"
abbreviation PC_CKS_LOC :: nat where "PC_CKS_LOC \<equiv> 46"

definition cmos_write :: "u8 \<Rightarrow> u8 \<Rightarrow> rtc \<Rightarrow> rtc" where
  "cmos_write val addr s =
     (let (control_state, s) = cmos_read RTC_CONTROL s;
          s = (if addr \<noteq> RTC_CONTROL \<and> control_state AND RTC_SET = 0
               then cmos_write_inner (control_state OR RTC_SET) RTC_CONTROL s else s);
          s = cmos_write_inner val addr s
      in if addr \<noteq> RTC_CONTROL \<and> control_state AND RTC_SET = 0
         then cmos_write_inner control_state RTC_CONTROL s else s)"

definition cmos_disable_rtc :: "rtc \<Rightarrow> rtc" where
  "cmos_disable_rtc s = (let (control_state, s) = cmos_read RTC_CONTROL s in cmos_write (control_state OR RTC_SET) RTC_CONTROL s)"

definition cmos_enable_rtc :: "rtc \<Rightarrow> rtc" where
  "cmos_enable_rtc s = (let (control_state, s) = cmos_read RTC_CONTROL s in cmos_write (control_state AND NOT RTC_SET) RTC_CONTROL s)"

definition cmos_read32 :: "u8 \<Rightarrow> rtc \<Rightarrow> u32 \<times> rtc" where
  "cmos_read32 offset s = fold (\<lambda>i (value, s).
     let (b, s) = cmos_read (offset + of_nat i) s in (value OR push_bit (8 * i) (ucast b), s)) [0..<4] (0, s)"

definition cmos_write32 :: "u8 \<Rightarrow> u32 \<Rightarrow> rtc \<Rightarrow> rtc" where
  "cmos_write32 offset value s = fold (\<lambda>i s.
     cmos_write (ucast (drop_bit (8 * i) value AND 0xff)) (offset + of_nat i) s) [0..<4] s"

definition test_bcd_encoding :: "u8 \<Rightarrow> bool" where
  "test_bcd_encoding data \<longleftrightarrow> 0x09 < data AND 0x0f \<or> 0x90 < data AND 0xf0"

definition bcd_to_hex :: "u8 \<Rightarrow> u8" where
  "bcd_to_hex bcd_value = drop_bit 4 (bcd_value AND 0xf0) * 10 + (bcd_value AND 0x0f)"

section \<open>Date and checksums\<close>

record build_date =
  weekday_bcd :: u8
  day_bcd :: u8
  month_bcd :: u8
  year_bcd :: u8
  century_bcd :: u8

definition rtc_update_cmos_date :: "build_date \<Rightarrow> bool \<Rightarrow> rtc \<Rightarrow> rtc" where
  "rtc_update_cmos_date d has_century s =
     (let s = cmos_write 0 RTC_CLK_SECOND s;
          s = cmos_write 0 RTC_CLK_MINUTE s;
          s = cmos_write 1 RTC_CLK_HOUR s;
          s = cmos_write (weekday_bcd d + 1) RTC_CLK_DAYOFWEEK s;
          s = cmos_write (day_bcd d) RTC_CLK_DAYOFMONTH s;
          s = cmos_write (month_bcd d) RTC_CLK_MONTH s;
          s = cmos_write (year_bcd d) RTC_CLK_YEAR s
      in if has_century then cmos_write (century_bcd d) RTC_CLK_ALTCENTURY s else s)"

text \<open>The loop over a range of bytes adds into 16 bits.\<close>

fun sum_bytes :: "(u8 \<Rightarrow> 's \<Rightarrow> u8 \<times> 's) \<Rightarrow> nat list \<Rightarrow> u16 \<Rightarrow> 's \<Rightarrow> u16 \<times> 's" where
  "sum_bytes rd [] acc s = (acc, s)"
| "sum_bytes rd (i # is) acc s = (let (b, s) = rd (of_nat i) s in sum_bytes rd is (acc + ucast b) s)"

definition rtc_checksum_valid :: "nat \<Rightarrow> nat \<Rightarrow> nat \<Rightarrow> rtc \<Rightarrow> bool \<times> rtc" where
  "rtc_checksum_valid range_start range_end cks_loc s =
     (let (acc, s) = sum_bytes cmos_read [range_start..<range_end + 1] 0 s;
          (hi, s) = cmos_read (of_nat cks_loc) s;
          (lo, s) = cmos_read (of_nat (cks_loc + 1)) s;
          old_sum = push_bit 8 (ucast hi) OR ucast lo
      in (acc = old_sum, s))"

definition rtc_set_checksum :: "nat \<Rightarrow> nat \<Rightarrow> nat \<Rightarrow> rtc \<Rightarrow> rtc" where
  "rtc_set_checksum range_start range_end cks_loc s =
     (let (acc, s) = sum_bytes cmos_read [range_start..<range_end + 1] 0 s;
          s = cmos_write (ucast (drop_bit 8 acc AND 0xff)) (of_nat cks_loc) s
      in cmos_write (ucast (acc AND 0xff)) (of_nat (cks_loc + 1)) s)"

text \<open>The part of the layout that \<^verbatim>\<open>option_table.h\<close> carries.\<close>

record cks_layout =
  lb_cks_range_start :: nat
  lb_cks_range_end :: nat
  lb_cks_loc :: nat

abbreviation RTC_CONTROL_DEFAULT :: u8 where "RTC_CONTROL_DEFAULT \<equiv> RTC_24H"
abbreviation RTC_FREQ_SELECT_DEFAULT :: u8 where "RTC_FREQ_SELECT_DEFAULT \<equiv> RTC_REF_CLCK_32KHZ OR RTC_RATE_1024HZ"

text \<open>\<open>resume\<close> is the test for the S3 resume path, \<open>opts\<close> is \<^verbatim>\<open>CONFIG_USE_OPTION_TABLE\<close>.\<close>

definition rtc_init :: "bool \<Rightarrow> bool \<Rightarrow> build_date \<Rightarrow> cks_layout \<Rightarrow> bool \<Rightarrow> rtc \<Rightarrow> rtc" where
  "rtc_init resume opts d lb invalid s =
     (if resume then s
      else
        let (x, s) = cmos_read RTC_VALID s;
            cmos_invalid = (x AND RTC_VRT = 0);
            (checksum_invalid, s) =
              (if opts then let (ok, s) = rtc_checksum_valid PC_CKS_RANGE_START PC_CKS_RANGE_END PC_CKS_LOC s in (\<not> ok, s)
               else (False, s));
            s = (if invalid \<or> cmos_invalid \<or> checksum_invalid then
                   let s = (if \<not> opts then
                              let s = cmos_write 0 RTC_CLK_SECOND_ALARM s;
                                  s = cmos_write 0 RTC_CLK_MINUTE_ALARM s;
                                  s = cmos_write 0 RTC_CLK_HOUR_ALARM s
                              in fold (\<lambda>i. cmos_write 0 (of_nat i)) [10..<128] s
                            else s)
                   in if cmos_invalid then rtc_update_cmos_date d False s else s
                 else s);
            s = cmos_write RTC_CONTROL_DEFAULT RTC_CONTROL s;
            s = cmos_write RTC_FREQ_SELECT_DEFAULT RTC_FREQ_SELECT s;
            s = cmos_write RTC_VRT RTC_VALID s;
            s = (if opts then
                   let (_, s) = rtc_checksum_valid (lb_cks_range_start lb) (lb_cks_range_end lb) (lb_cks_loc lb) s
                   in rtc_set_checksum PC_CKS_RANGE_START PC_CKS_RANGE_END PC_CKS_LOC s
                 else s)
        in snd (cmos_read RTC_INTR_FLAGS s))"

definition RTC_BCD_ERROR :: u8 where "RTC_BCD_ERROR = 0x01"
definition RTC_RANGE_ERROR :: u8 where "RTC_RANGE_ERROR = 0x02"

definition rtc_check_update_cmos_date :: "build_date \<Rightarrow> bool \<Rightarrow> rtc \<Rightarrow> rtc" where
  "rtc_check_update_cmos_date d has_century s =
     (let (v, s) = cmos_read RTC_VALID s;
          s = (if v AND RTC_VRT = 0 then rtc_update_cmos_date d has_century s else s);
          (century, s) = (if has_century then cmos_read RTC_CLK_ALTCENTURY s else (0, s));
          (year, s) = cmos_read RTC_CLK_YEAR s;
          (month, s) = cmos_read RTC_CLK_MONTH s;
          (dayofmonth, s) = cmos_read RTC_CLK_DAYOFMONTH s;
          (dayofweek, s) = cmos_read RTC_CLK_DAYOFWEEK s;
          err = 0;
          err = (if test_bcd_encoding century \<or> test_bcd_encoding year \<or> test_bcd_encoding month
                   \<or> test_bcd_encoding dayofmonth \<or> test_bcd_encoding dayofweek
                 then err OR RTC_BCD_ERROR else err);
          err = (if bcd_to_hex century \<noteq> bcd_to_hex 0x20 \<or> 99 < bcd_to_hex year \<or> 12 < bcd_to_hex month
                   \<or> 31 < bcd_to_hex dayofmonth \<or> 7 < bcd_to_hex dayofweek
                 then err OR RTC_RANGE_ERROR else err)
      in if err \<noteq> 0 then
           let s = rtc_update_cmos_date d has_century s;
               (_, s) = cmos_read RTC_CLK_MONTH s;
               (_, s) = cmos_read RTC_CLK_DAYOFMONTH s;
               (_, s) = (if has_century then cmos_read RTC_CLK_ALTCENTURY s else (0, s));
               (_, s) = cmos_read RTC_CLK_YEAR s;
               (_, s) = cmos_read RTC_CLK_DAYOFWEEK s
           in s
         else s)"

section \<open>Options\<close>

datatype cb_err =
    CB_SUCCESS | CB_ERR | CB_ERR_ARG
  | CB_CMOS_OTABLE_DISABLED | CB_CMOS_LAYOUT_NOT_FOUND | CB_CMOS_OPTION_NOT_FOUND
  | CB_CMOS_ACCESS_ERROR | CB_CMOS_CHECKSUM_INVALID
  | CB_KBD_CONTROLLER_FAILURE | CB_KBD_INTERFACE_FAILURE

text \<open>\<open>get_bytes byte n\<close> is the loop that transfers whole bytes; it ends when \<^verbatim>\<open>length\<close> hits zero.\<close>

fun get_bytes :: "nat \<Rightarrow> nat \<Rightarrow> rtc \<Rightarrow> u8 list \<times> rtc" where
  "get_bytes byte 0 s = ([], s)"
| "get_bytes byte (Suc n) s =
     (let (b, s) = cmos_read (of_nat byte) s; (bs, s) = get_bytes (byte + 1) n s in (b # bs, s))"

text \<open>
  The result is the bytes that are stored to \<^verbatim>\<open>ret\<close>.  In \<^verbatim>\<open>get_cmos_value\<close> a length above 8
  that is not a multiple of 8 never reaches zero: \<open>None\<close>.
\<close>

definition get_cmos_value :: "u32 \<Rightarrow> u32 \<Rightarrow> rtc \<Rightarrow> (cb_err \<times> u8 list \<times> rtc) option" where
  "get_cmos_value bit_pos len s =
     (let byte = unat bit_pos div 8; byte_bit = unat bit_pos mod 8
      in if len < 9 then
           let (uchar, s) = cmos_read (of_nat byte) s;
               uchar = drop_bit byte_bit uchar
           in Some (CB_SUCCESS, [uchar AND ucast ((2 ^ unat len :: u32) - 1)], s)
         else if unat len mod 8 \<noteq> 0 then None
         else let (bs, s) = get_bytes byte (unat len div 8) s in Some (CB_SUCCESS, bs, s))"

fun set_bytes :: "nat \<Rightarrow> u8 list \<Rightarrow> rtc \<Rightarrow> rtc" where
  "set_bytes byte [] s = s"
| "set_bytes byte (b # bs) s = set_bytes (byte + 1) bs (cmos_write b (of_nat byte) s)"

text \<open>
  \<open>ret\<close> is the memory at the pointer \<^verbatim>\<open>vret\<close>; reading past it is undefined: \<open>None\<close>.  In the
  branch for whole bytes the test against the checksum range stands after the loop, whatever
  its indentation, so it sees the byte after the last one written.
\<close>

definition set_cmos_value :: "cks_layout \<Rightarrow> u32 \<Rightarrow> u32 \<Rightarrow> u8 list \<Rightarrow> rtc \<Rightarrow> (cb_err \<times> rtc) option" where
  "set_cmos_value lb bit_pos len ret s =
     (let byte = unat bit_pos div 8;
          byte_bit = unat bit_pos mod 8;
          in_range = (\<lambda>byte. lb_cks_range_start lb \<le> byte \<and> byte \<le> lb_cks_range_end lb);
          finish = (\<lambda>chksum_update_needed s.
            (CB_SUCCESS, if chksum_update_needed
                         then rtc_set_checksum (lb_cks_range_start lb) (lb_cks_range_end lb) (lb_cks_loc lb) s else s))
      in if len \<le> 8 then
           if ret = [] then None
           else
             let m = (ucast ((2 ^ unat len :: u32) - 1) :: u8);
                 m = push_bit byte_bit m;
                 (uchar, s) = cmos_read (of_nat byte) s;
                 uchar = uchar AND NOT m;
                 uchar = uchar OR push_bit byte_bit (hd ret);
                 s = cmos_write uchar (of_nat byte) s
             in Some (finish (in_range byte) s)
         else if byte_bit \<noteq> 0 \<or> unat len mod 8 \<noteq> 0 then Some (CB_ERR_ARG, s)
         else if length ret < unat len div 8 then None
         else
           let s = set_bytes byte (take (unat len div 8) ret) s;
               byte = byte + unat len div 8
           in Some (finish (in_range byte) s))"

text \<open>
  The option table is the file \<^verbatim>\<open>cmos_layout.bin\<close> in memory.  An entry is read field by field;
  a read outside the file is undefined: \<open>None\<close>, as is an entry of size zero, on which the
  search never ends.
\<close>

definition le32 :: "u8 list \<Rightarrow> nat \<Rightarrow> u32 option" where
  "le32 bs p =
     (if p + 4 \<le> length bs
      then Some (ucast (bs ! p) OR push_bit 8 (ucast (bs ! (p + 1))) OR push_bit 16 (ucast (bs ! (p + 2)))
                 OR push_bit 24 (ucast (bs ! (p + 3))))
      else None)"

abbreviation LB_TAG_OPTION :: u32 where "LB_TAG_OPTION \<equiv> 201"
abbreviation CMOS_MAX_NAME_LENGTH :: nat where "CMOS_MAX_NAME_LENGTH \<equiv> 32"

record cmos_entries =
  ce_bit :: u32
  ce_length :: u32
  ce_config :: u32

definition strnlen :: "u8 list \<Rightarrow> nat \<Rightarrow> nat" where
  "strnlen src max_len = min (length src) max_len"

definition read_entry :: "u8 list \<Rightarrow> nat \<Rightarrow> cmos_entries option" where
  "read_entry bs p = do {
     bit_pos \<leftarrow> le32 bs (p + 8);
     len \<leftarrow> le32 bs (p + 12);
     config \<leftarrow> le32 bs (p + 16);
     Some \<lparr>ce_bit = bit_pos, ce_length = len, ce_config = config\<rparr>
   }"

lemma le32_SomeD: "le32 bs p = Some x \<Longrightarrow> p + 4 \<le> length bs"
  by (simp add: le32_def split: if_splits)

function find_entry :: "u8 list \<Rightarrow> u8 list \<Rightarrow> nat \<Rightarrow> nat \<Rightarrow> cmos_entries option option" where
  "find_entry bs name namelen p =
     (case le32 bs p of
        None \<Rightarrow> None
      | Some tag \<Rightarrow>
          if tag \<noteq> LB_TAG_OPTION then Some None
          else if take namelen (drop (p + 24) bs) = take namelen name then map_option Some (read_entry bs p)
          else if length bs < p + 24 + namelen \<and> drop (p + 24) bs = take (length bs - (p + 24)) name then None
          else (case le32 bs (p + 4) of
                  None \<Rightarrow> None
                | Some sz \<Rightarrow> if sz = 0 then None else find_entry bs name namelen (p + unat sz)))"
  by pat_completeness auto
termination
  by (relation "measure (\<lambda>(bs, name, namelen, p). length bs - p)") (auto dest!: le32_SomeD intro!: diff_less_mono2 simp: unat_gt_0)

declare find_entry.simps [simp del]

definition get_option :: "u8 list option \<Rightarrow> cks_layout \<Rightarrow> u8 list \<Rightarrow> rtc \<Rightarrow> (cb_err \<times> u8 list \<times> rtc) option" where
  "get_option ct lb name s =
     (let namelen = strnlen name CMOS_MAX_NAME_LENGTH
      in case ct of
           None \<Rightarrow> Some (CB_CMOS_LAYOUT_NOT_FOUND, [], s)
         | Some bs \<Rightarrow> do {
             header_length \<leftarrow> le32 bs 8;
             ce \<leftarrow> find_entry bs name namelen (unat header_length);
             case ce of
               None \<Rightarrow> Some (CB_CMOS_OPTION_NOT_FOUND, [], s)
             | Some ce \<Rightarrow> do {
                 (err, dest, s) \<leftarrow> get_cmos_value (ce_bit ce) (ce_length ce) s;
                 if err \<noteq> CB_SUCCESS then Some (CB_CMOS_ACCESS_ERROR, dest, s)
                 else
                   let (ok, s) = rtc_checksum_valid (lb_cks_range_start lb) (lb_cks_range_end lb) (lb_cks_loc lb) s
                   in Some (if ok then CB_SUCCESS else CB_CMOS_CHECKSUM_INVALID, dest, s)
               }
           })"

text \<open>
  \<open>value\<close> is the memory at the pointer; for a string option (\<^verbatim>\<open>config\<close> is \<^verbatim>\<open>'s'\<close>) the length up
  to its first zero byte is what \<^verbatim>\<open>strlen\<close> finds.
\<close>

definition strlen :: "u8 list \<Rightarrow> nat option" where
  "strlen bs = (if 0 \<in> set bs then Some (length (takeWhile (\<lambda>b. b \<noteq> 0) bs)) else None)"

definition set_option :: "u8 list option \<Rightarrow> cks_layout \<Rightarrow> u8 list \<Rightarrow> u8 list \<Rightarrow> rtc \<Rightarrow> (cb_err \<times> rtc) option" where
  "set_option ct lb name value s =
     (let namelen = strnlen name CMOS_MAX_NAME_LENGTH
      in case ct of
           None \<Rightarrow> Some (CB_CMOS_LAYOUT_NOT_FOUND, s)
         | Some bs \<Rightarrow> do {
             header_length \<leftarrow> le32 bs 8;
             ce \<leftarrow> find_entry bs name namelen (unat header_length);
             case ce of
               None \<Rightarrow> Some (CB_CMOS_OPTION_NOT_FOUND, s)
             | Some ce \<Rightarrow> do {
                 (len, err, s) \<leftarrow>
                   (if ce_config ce = 0x73 then do {
                      n \<leftarrow> strlen value;
                      let len = max (of_nat n * 8) (ce_length ce - 8);
                      (err, s) \<leftarrow> set_cmos_value lb (ce_bit ce + ce_length ce - 8) 8 [0] s;
                      Some (len, err, s)
                    } else Some (ce_length ce, CB_SUCCESS, s));
                 if err \<noteq> CB_SUCCESS then Some (CB_CMOS_ACCESS_ERROR, s)
                 else do {
                   (err, s) \<leftarrow> set_cmos_value lb (ce_bit ce) len value s;
                   Some (if err \<noteq> CB_SUCCESS then CB_CMOS_ACCESS_ERROR else CB_SUCCESS, s)
                 }
               }
           })"

section \<open>The chip as a store of bytes\<close>

text \<open>
  What the rest of the driver relies on: reading gives the byte and changes none, writing
  changes that byte only.  The checksums are proved from this contract.
\<close>

locale byte_store =
  fixes rd :: "u8 \<Rightarrow> 's \<Rightarrow> u8 \<times> 's"
    and wr :: "u8 \<Rightarrow> u8 \<Rightarrow> 's \<Rightarrow> 's"
    and bytes :: "'s \<Rightarrow> u8 \<Rightarrow> u8"
  assumes rd_value: "fst (rd a s) = bytes s a"
    and rd_bytes: "bytes (snd (rd a s)) = bytes s"
    and wr_bytes: "bytes (wr v a s) = (bytes s)(a := v)"
begin

lemma rd_cases: obtains s' where "rd a s = (bytes s a, s')" "bytes s' = bytes s"
  using rd_value [of a s] rd_bytes [of a s] by (cases "rd a s") auto

lemma sum_bytes_bytes:
  "fst (sum_bytes rd is acc s) = acc + (\<Sum>i\<leftarrow>is. ucast (bytes s (of_nat i))) \<and> bytes (snd (sum_bytes rd is acc s)) = bytes s"
proof (induction "is" arbitrary: acc s)
  case (Cons i "is")
  obtain s' where "rd (of_nat i) s = (bytes s (of_nat i), s')" "bytes s' = bytes s" by (rule rd_cases)
  with Cons.IH [of "acc + ucast (bytes s (of_nat i))" s'] show ?case by (simp add: add.assoc)
qed simp

lemma read_own_write: "fst (rd a (wr v b s)) = (if a = b then v else bytes s a)"
  by (simp add: rd_value wr_bytes)

end

lemma low_addr: "a < 128 \<Longrightarrow> (a OR (x AND NMI_DISABLE_BIT)) AND 0x7f = (a :: u8)"
proof -
  assume "a < 128"
  then have a: "unat a < 2 ^ 7" by (simp add: word_less_nat_alt)
  have m: "(0x7f::u8) = mask 7" "(0x80::u8) = 2 ^ 7" by (simp_all add: mask_eq_exp_minus_1)
  have "bit a n \<Longrightarrow> n < 7" for n using bit_small [OF a, of n] by (meson not_le)
  then show ?thesis
    unfolding m by (intro bit_word_eqI) (simp only: bit_and_iff bit_or_iff bit_mask_iff bit_exp_iff; auto)
qed

lemma high_addr: "128 \<le> a \<Longrightarrow> 0x80 OR ((a - 128) AND 0x7f) = (a :: u8)"
proof -
  assume a: "128 \<le> a"
  have m: "(0x7f::u8) = mask 7" "(0x80::u8) = 2 ^ 7" by (simp_all add: mask_eq_exp_minus_1)
  have a256: "unat a < 256" using unat_less_exp [of a] by simp
  have u: "unat (a - 128) = unat a - 128" "128 \<le> unat a" using a by (simp_all add: unat_sub word_le_nat_alt)
  then have "unat (a - 128) = unat a mod 128" using a256 by (simp add: mod_if)
  then have "a - 128 = a AND mask 7" by (simp only: word_unat_eq_iff unat_and_mask) simp
  moreover have b7: "bit a 7" 
  proof -
    have "unat a div 2 ^ 7 = 1" using u(2) a256 by (intro div_nat_eqI) simp_all
    then show ?thesis unfolding bit_unat_iff by simp
  qed
  have "2 ^ 7 OR ((a AND mask 7) AND mask 7) = a"
  proof (rule bit_word_eqI)
    fix i :: nat assume "i < LENGTH(8)"
    then show "bit (2 ^ 7 OR ((a AND mask 7) AND mask 7)) i = bit a i"
      using b7 by (cases "i = 7") (simp_all only: bit_and_iff bit_or_iff bit_mask_iff bit_exp_iff; simp)+
  qed
  ultimately show ?thesis unfolding m by simp
qed


lemma select_addr_eq:
  "\<exists>s'. nvram s' = nvram s \<and> select_addr a s = ((if 128 \<le> a then 2 else 0), s')
    \<and> (if 128 \<le> a then latch1 s' = a - 128 else latch0 s' AND 0x7f = a)"
  by (simp add: select_addr_def outb_def inb_def low_addr)

lemma cmos_read_eq: "\<exists>s'. nvram s' = nvram s \<and> cmos_read a s = (nvram s a, s')"
proof -
  obtain s' where "nvram s' = nvram s" "select_addr a s = ((if 128 \<le> a then 2 else 0), s')"
    "if 128 \<le> a then latch1 s' = a - 128 else latch0 s' AND 0x7f = a" using select_addr_eq by blast
  then show ?thesis
    by (cases "128 \<le> a") (auto simp: cmos_read_def inb_def high_addr)
qed

lemma cmos_write_inner_eq: "nvram (cmos_write_inner v a s) = (nvram s)(a := v)"
proof -
  obtain s' where "nvram s' = nvram s" "select_addr a s = ((if 128 \<le> a then 2 else 0), s')"
    "if 128 \<le> a then latch1 s' = a - 128 else latch0 s' AND 0x7f = a" using select_addr_eq by blast
  then show ?thesis
    by (cases "128 \<le> a") (auto simp: cmos_write_inner_def outb_def high_addr)
qed

lemma cmos_write_eq: "nvram (cmos_write v a s) = (nvram s)(a := v)"
proof -
  obtain s' where "nvram s' = nvram s" "cmos_read RTC_CONTROL s = (nvram s RTC_CONTROL, s')" using cmos_read_eq by blast
  then show ?thesis by (auto simp: cmos_write_def Let_def cmos_write_inner_eq)
qed

interpretation cm: byte_store cmos_read cmos_write nvram
proof unfold_locales
  fix a v s
  obtain s' where "nvram s' = nvram s" "cmos_read a s = (nvram s a, s')" using cmos_read_eq by blast
  then show "fst (cmos_read a s) = nvram s a" "nvram (snd (cmos_read a s)) = nvram s" by simp_all
  show "nvram (cmos_write v a s) = (nvram s)(a := v)" by (rule cmos_write_eq)
qed

lemmas cmos_simps = cm.rd_value cm.rd_bytes cm.wr_bytes

definition cks_sum :: "(u8 \<Rightarrow> u8) \<Rightarrow> nat \<Rightarrow> nat \<Rightarrow> u16" where
  "cks_sum m lo hi = (\<Sum>i\<leftarrow>[lo..<hi + 1]. ucast (m (of_nat i)))"

definition cks_stored :: "(u8 \<Rightarrow> u8) \<Rightarrow> nat \<Rightarrow> u16" where
  "cks_stored m loc = push_bit 8 (ucast (m (of_nat loc))) OR ucast (m (of_nat (loc + 1)))"

lemma checksum_valid_eq:
  "fst (rtc_checksum_valid lo hi loc s) \<longleftrightarrow> cks_sum (nvram s) lo hi = cks_stored (nvram s) loc"
  "nvram (snd (rtc_checksum_valid lo hi loc s)) = nvram s"
  using cm.sum_bytes_bytes [of "[lo..<hi + 1]" 0 s]
  by (simp_all add: rtc_checksum_valid_def cks_sum_def cks_stored_def Let_def case_prod_unfold cmos_simps)

lemma set_checksum_nvram:
  "nvram (rtc_set_checksum lo hi loc s) = (nvram s)(of_nat loc := ucast (drop_bit 8 (cks_sum (nvram s) lo hi) AND 0xff),
     of_nat (loc + 1) := ucast (cks_sum (nvram s) lo hi AND 0xff))"
  using cm.sum_bytes_bytes [of "[lo..<hi + 1]" 0 s]
  by (simp add: rtc_set_checksum_def cks_sum_def Let_def case_prod_unfold cmos_simps)

definition cks_ok :: "nat \<Rightarrow> nat \<Rightarrow> nat \<Rightarrow> bool" where
  "cks_ok lo hi loc \<longleftrightarrow> hi < 256 \<and> loc + 1 < 256 \<and> (loc + 1 < lo \<or> hi < loc)"

lemma u16_bytes: "push_bit 8 (ucast (ucast (drop_bit 8 x AND 0xff) :: u8)) OR ucast (ucast (x AND 0xff) :: u8) = (x :: u16)"
proof -
  have m: "(0xff::u16) = mask 8" by (simp add: mask_eq_exp_minus_1)
  show ?thesis unfolding m by (rule bit_word_eqI) (auto simp: bit_simps)
qed

lemma of_nat_u8_eq: "i < 256 \<Longrightarrow> j < 256 \<Longrightarrow> (of_nat i :: u8) = of_nat j \<longleftrightarrow> i = j"
  by (simp add: word_unat_eq_iff unat_of_nat)

lemma cks_sum_upd: "(\<And>i. lo \<le> i \<Longrightarrow> i \<le> hi \<Longrightarrow> m (of_nat i) = m' (of_nat i)) \<Longrightarrow> cks_sum m lo hi = cks_sum m' lo hi"
  unfolding cks_sum_def by (intro arg_cong [of _ _ sum_list] map_cong) auto

lemma checksum_after_set:
  assumes "cks_ok lo hi loc"
  shows "fst (rtc_checksum_valid lo hi loc (rtc_set_checksum lo hi loc s))"
proof -
  have "cks_sum (nvram (rtc_set_checksum lo hi loc s)) lo hi = cks_sum (nvram s) lo hi"
  proof (rule cks_sum_upd)
    fix i assume "lo \<le> i" "i \<le> hi"
    then have "(of_nat i :: u8) \<noteq> of_nat loc" "(of_nat i :: u8) \<noteq> of_nat (loc + 1)"
      using assms of_nat_u8_eq [of i loc] of_nat_u8_eq [of i "loc + 1"] by (auto simp: cks_ok_def simp del: of_nat_add of_nat_Suc)
    then show "nvram (rtc_set_checksum lo hi loc s) (of_nat i) = nvram s (of_nat i)"
      by (simp add: set_checksum_nvram del: of_nat_add of_nat_Suc)
  qed
  moreover have "(of_nat loc :: u8) \<noteq> of_nat (loc + 1)"
    using assms of_nat_u8_eq [of loc "loc + 1"] by (simp add: cks_ok_def del: of_nat_add of_nat_Suc)
  then have "cks_stored (nvram (rtc_set_checksum lo hi loc s)) loc = cks_sum (nvram s) lo hi"
    unfolding cks_stored_def set_checksum_nvram by (simp add: u16_bytes del: of_nat_add of_nat_Suc)
  ultimately show ?thesis by (simp add: checksum_valid_eq(1))
qed

section \<open>Option values\<close>

definition field_mask :: "nat \<Rightarrow> nat \<Rightarrow> u8" where
  "field_mask k n = push_bit k (mask n)"

lemma len_mask: "n \<le> 8 \<Longrightarrow> (ucast ((2 ^ n :: u32) - 1) :: u8) = mask n"
proof -
  assume "n \<le> 8"
  have "(ucast (mask n :: u32) :: u8) = mask n" by (rule bit_word_eqI) (auto simp: bit_simps)
  then show ?thesis by (simp add: mask_eq_exp_minus_1)
qed

lemma field_get_set:
  fixes u v :: u8
  assumes "k + n \<le> 8" "unat v < 2 ^ n"
  shows "drop_bit k ((u AND NOT (field_mask k n)) OR push_bit k v) AND mask n = v"
    and "((u AND NOT (field_mask k n)) OR push_bit k v) AND NOT (field_mask k n) = u AND NOT (field_mask k n)"
proof -
  have v: "bit v i \<Longrightarrow> i < n" for i using bit_small [OF assms(2), of i] by (meson not_le)
  have v8: "bit v i \<Longrightarrow> k + i < 8" for i using v [of i] assms(1) by linarith
  show "drop_bit k ((u AND NOT (field_mask k n)) OR push_bit k v) AND mask n = v"
    by (rule bit_word_eqI) (use v v8 assms(1) in \<open>auto simp: field_mask_def bit_simps\<close>)
  show "((u AND NOT (field_mask k n)) OR push_bit k v) AND NOT (field_mask k n) = u AND NOT (field_mask k n)"
  proof (rule bit_word_eqI)
    fix i :: nat assume "i < LENGTH(8)"
    have "k \<le> i \<Longrightarrow> bit v (i - k) \<Longrightarrow> i - k < n" by (rule v)
    then show "bit (((u AND NOT (field_mask k n)) OR push_bit k v) AND NOT (field_mask k n)) i = bit (u AND NOT (field_mask k n)) i"
      using \<open>i < LENGTH(8)\<close> by (auto simp: field_mask_def bit_simps)
  qed
qed

definition entry_byte :: "cmos_entries \<Rightarrow> nat" where
  "entry_byte ce = unat (ce_bit ce) div 8"

definition lookup_option :: "u8 list \<Rightarrow> u8 list \<Rightarrow> cmos_entries option option" where
  "lookup_option bs name = do {
     header_length \<leftarrow> le32 bs 8;
     find_entry bs name (strnlen name CMOS_MAX_NAME_LENGTH) (unat header_length)
   }"

lemma set_option_lookup:
  assumes "lookup_option bs name = Some (Some ce)" "ce_config ce \<noteq> 0x73"
  shows "set_option (Some bs) lb name value s =
    Option.bind (set_cmos_value lb (ce_bit ce) (ce_length ce) value s)
      (\<lambda>(err, s). Some (if err \<noteq> CB_SUCCESS then CB_CMOS_ACCESS_ERROR else CB_SUCCESS, s))"
  using assms unfolding lookup_option_def set_option_def
  by (auto simp: Let_def simp del: bind_Some_iff split: Option.bind_splits)

lemma get_option_lookup:
  assumes "lookup_option bs name = Some (Some ce)"
  shows "get_option (Some bs) lb name s =
    Option.bind (get_cmos_value (ce_bit ce) (ce_length ce) s)
      (\<lambda>(err, dest, s). if err \<noteq> CB_SUCCESS then Some (CB_CMOS_ACCESS_ERROR, dest, s)
        else let (ok, s) = rtc_checksum_valid (lb_cks_range_start lb) (lb_cks_range_end lb) (lb_cks_loc lb) s
             in Some (if ok then CB_SUCCESS else CB_CMOS_CHECKSUM_INVALID, dest, s))"
  using assms unfolding lookup_option_def get_option_def
  by (auto simp: Let_def simp del: bind_Some_iff split: Option.bind_splits)

definition lb_ok :: "cks_layout \<Rightarrow> bool" where
  "lb_ok lb \<longleftrightarrow> cks_ok (lb_cks_range_start lb) (lb_cks_range_end lb) (lb_cks_loc lb)"

definition small_field :: "cks_layout \<Rightarrow> cmos_entries \<Rightarrow> bool" where
  "small_field lb ce \<longleftrightarrow> unat (ce_bit ce) mod 8 + unat (ce_length ce) \<le> 8
     \<and> lb_cks_range_start lb \<le> entry_byte ce \<and> entry_byte ce \<le> lb_cks_range_end lb"

lemma set_small:
  assumes "small_field lb ce"
  defines "k \<equiv> unat (ce_bit ce) mod 8" and "n \<equiv> unat (ce_length ce)" and "b \<equiv> of_nat (entry_byte ce) :: u8"
  shows "\<exists>s1. set_cmos_value lb (ce_bit ce) (ce_length ce) [v] s
      = Some (CB_SUCCESS, rtc_set_checksum (lb_cks_range_start lb) (lb_cks_range_end lb) (lb_cks_loc lb) s1)
    \<and> nvram s1 = (nvram s)(b := (nvram s b AND NOT (field_mask k n)) OR push_bit k v)"
proof -
  have n8: "n \<le> 8" "ce_length ce \<le> 8" using assms(1) by (auto simp: small_field_def n_def word_le_nat_alt)
  have m: "ucast ((2 ^ unat (ce_length ce) :: u32) - 1) = (mask n :: u8)" using len_mask [OF n8(1)] by (simp add: n_def)
  obtain s' where "nvram s' = nvram s" "cmos_read b s = (nvram s b, s')" using cmos_read_eq by blast
  then show ?thesis
    using assms(1) n8(2)
    by (intro exI [of _ "cmos_write ((nvram s b AND NOT (field_mask k n)) OR push_bit k v) b s'"])
      (simp add: set_cmos_value_def Let_def small_field_def entry_byte_def b_def [unfolded entry_byte_def, symmetric] m
        field_mask_def k_def [symmetric] cmos_write_eq)
qed

text \<open>
  C14.  Setting an option of at most eight bits in a checksummed byte succeeds, and reading
  the option afterwards succeeds with the value that was set; the other bits of its byte and
  every byte but it and the checksum keep their values.
\<close>
theorem cmos_option_roundtrip:
  assumes "lookup_option bs name = Some (Some ce)" "ce_config ce \<noteq> 0x73" "lb_ok lb" "small_field lb ce"
    and "unat v < 2 ^ unat (ce_length ce)"
  shows "\<exists>s' s''. set_option (Some bs) lb name [v] s = Some (CB_SUCCESS, s')
    \<and> get_option (Some bs) lb name s' = Some (CB_SUCCESS, [v], s'')
    \<and> (\<forall>a. a \<notin> {of_nat (entry_byte ce), of_nat (lb_cks_loc lb), of_nat (lb_cks_loc lb + 1)} \<longrightarrow> nvram s' a = nvram s a)
    \<and> (let m = field_mask (unat (ce_bit ce) mod 8) (unat (ce_length ce)) in
         nvram s' (of_nat (entry_byte ce)) AND NOT m = nvram s (of_nat (entry_byte ce)) AND NOT m)"
proof -
  let ?k = "unat (ce_bit ce) mod 8" and ?n = "unat (ce_length ce)" and ?b = "of_nat (entry_byte ce) :: u8"
  let ?lo = "lb_cks_range_start lb" and ?hi = "lb_cks_range_end lb" and ?loc = "lb_cks_loc lb"
  obtain s1 where s1: "set_cmos_value lb (ce_bit ce) (ce_length ce) [v] s = Some (CB_SUCCESS, rtc_set_checksum ?lo ?hi ?loc s1)"
    "nvram s1 = (nvram s)(?b := (nvram s ?b AND NOT (field_mask ?k ?n)) OR push_bit ?k v)"
    using set_small [OF assms(4)] by blast
  let ?s' = "rtc_set_checksum ?lo ?hi ?loc s1"
  have kn: "?k + ?n \<le> 8" and n8: "?n \<le> 8" "ce_length ce < 9" using assms(4) by (auto simp: small_field_def word_less_nat_alt)
  have ne: "?b \<noteq> of_nat ?loc" "?b \<noteq> of_nat (?loc + 1)"
    using assms(3,4) of_nat_u8_eq [of "entry_byte ce" ?loc] of_nat_u8_eq [of "entry_byte ce" "?loc + 1"]
    by (auto simp: lb_ok_def cks_ok_def small_field_def simp del: of_nat_add of_nat_Suc)
  have b: "nvram ?s' ?b = (nvram s ?b AND NOT (field_mask ?k ?n)) OR push_bit ?k v"
    using ne by (simp add: set_checksum_nvram s1(2) del: of_nat_add of_nat_Suc)
  obtain s2 where s2: "nvram s2 = nvram ?s'" "cmos_read ?b ?s' = (nvram ?s' ?b, s2)" using cmos_read_eq by blast
  have get: "get_cmos_value (ce_bit ce) (ce_length ce) ?s' = Some (CB_SUCCESS, [v], s2)"
    unfolding get_cmos_value_def Let_def entry_byte_def [symmetric] len_mask [OF n8(1)]
    using n8(2) field_get_set(1) [OF kn assms(5)] by (simp add: s2 b)
  have "fst (rtc_checksum_valid ?lo ?hi ?loc s2)"
    using checksum_after_set [OF assms(3) [unfolded lb_ok_def], of s1] s2(1) by (simp only: checksum_valid_eq)
  then obtain s3 where s3: "rtc_checksum_valid ?lo ?hi ?loc s2 = (True, s3)" by (cases "rtc_checksum_valid ?lo ?hi ?loc s2") simp
  show ?thesis
  proof (intro exI conjI)
    show "set_option (Some bs) lb name [v] s = Some (CB_SUCCESS, ?s')"
      by (simp add: set_option_lookup [OF assms(1,2)] s1(1))
    show "get_option (Some bs) lb name ?s' = Some (CB_SUCCESS, [v], s3)"
      by (simp add: get_option_lookup [OF assms(1)] get s3)
    show "\<forall>a. a \<notin> {?b, of_nat ?loc, of_nat (?loc + 1)} \<longrightarrow> nvram ?s' a = nvram s a"
      by (simp add: set_checksum_nvram s1(2))
    show "let m = field_mask ?k ?n in nvram ?s' ?b AND NOT m = nvram s ?b AND NOT m"
      unfolding Let_def b by (rule field_get_set(2) [OF kn assms(5)])
  qed
qed


definition le32_bytes :: "u32 \<Rightarrow> u8 list" where
  "le32_bytes x = map (\<lambda>i. ucast (drop_bit (8 * i) x)) [0..<4]"

definition option_record :: "u32 \<Rightarrow> u32 \<Rightarrow> u32 \<Rightarrow> string \<Rightarrow> u8 list" where
  "option_record bit_pos len config name =
     concat (map le32_bytes [201, 56, bit_pos, len, config, 0]) @ map of_char name @ replicate (32 - length name) 0"

text \<open>A layout file with four options; the checksum covers the bytes 49 to 60.\<close>

definition example_layout :: "u8 list" where
  "example_layout = concat (map le32_bytes [200, 12 + 4 * 56, 12])
     @ option_record 395 3 0x65 ''debug_level'' @ option_record 440 32 0x73 ''label''
     @ option_record 472 16 0x68 ''serial_number'' @ option_record 400 8 0x65 ''boot'' @ le32_bytes 202"

definition example_lb :: cks_layout where
  "example_lb = \<lparr>lb_cks_range_start = 49, lb_cks_range_end = 60, lb_cks_loc = 123\<rparr>"

definition example_rtc :: rtc where
  "example_rtc = \<lparr>nvram = (\<lambda>_. 0), latch0 = 0, latch1 = 0\<rparr>"

theorem cmos_option_roundtrip_witness:
  "\<exists>s' s''. set_option (Some example_layout) example_lb (map of_char ''debug_level'') [5] example_rtc = Some (CB_SUCCESS, s')
    \<and> get_option (Some example_layout) example_lb (map of_char ''debug_level'') s' = Some (CB_SUCCESS, [5], s'')"
proof -
  let ?ce = "\<lparr>ce_bit = 395, ce_length = 3, ce_config = 0x65\<rparr>"
  have "lookup_option example_layout (map of_char ''debug_level'') = Some (Some ?ce)" by code_simp
  moreover have "ce_config ?ce \<noteq> 0x73" by simp
  moreover have "lb_ok example_lb" by (simp add: lb_ok_def cks_ok_def example_lb_def)
  moreover have "small_field example_lb ?ce" by (simp add: small_field_def example_lb_def entry_byte_def)
  moreover have "unat (5::u8) < 2 ^ unat (ce_length ?ce)" by simp
  ultimately show ?thesis using cmos_option_roundtrip [of example_layout _ ?ce example_lb 5 example_rtc] by blast
qed

text \<open>
  C34.  After \<^verbatim>\<open>rtc_init\<close> with the option table the PC checksum is valid, the chip is in
  24-hour mode with the standard rate, and the valid bit is set, unless this is the resume path.
\<close>
theorem rtc_init_valid:
  assumes "\<not> resume"
  shows "fst (rtc_checksum_valid PC_CKS_RANGE_START PC_CKS_RANGE_END PC_CKS_LOC (rtc_init resume True d lb invalid s))
    \<and> nvram (rtc_init resume True d lb invalid s) RTC_CONTROL = RTC_24H
    \<and> nvram (rtc_init resume True d lb invalid s) RTC_FREQ_SELECT = 0x26
    \<and> nvram (rtc_init resume True d lb invalid s) RTC_VALID = RTC_VRT"
proof -
  obtain s1 where s1: "nvram s1 RTC_CONTROL = RTC_24H" "nvram s1 RTC_FREQ_SELECT = 0x26" "nvram s1 RTC_VALID = RTC_VRT"
    "nvram (rtc_init resume True d lb invalid s) = nvram (rtc_set_checksum PC_CKS_RANGE_START PC_CKS_RANGE_END PC_CKS_LOC s1)"
  proof -
    have "\<exists>s0. rtc_init resume True d lb invalid s =
      snd (cmos_read RTC_INTR_FLAGS (rtc_set_checksum PC_CKS_RANGE_START PC_CKS_RANGE_END PC_CKS_LOC
        (snd (rtc_checksum_valid (lb_cks_range_start lb) (lb_cks_range_end lb) (lb_cks_loc lb)
          (cmos_write RTC_VRT RTC_VALID (cmos_write (RTC_REF_CLCK_32KHZ OR RTC_RATE_1024HZ) RTC_FREQ_SELECT (cmos_write RTC_24H RTC_CONTROL s0)))))))"
      using assms by (simp only: rtc_init_def Let_def case_prod_unfold if_False if_True simp_thms) blast
    then obtain s0 where s0: "rtc_init resume True d lb invalid s =
      snd (cmos_read RTC_INTR_FLAGS (rtc_set_checksum PC_CKS_RANGE_START PC_CKS_RANGE_END PC_CKS_LOC
        (snd (rtc_checksum_valid (lb_cks_range_start lb) (lb_cks_range_end lb) (lb_cks_loc lb)
          (cmos_write RTC_VRT RTC_VALID (cmos_write (RTC_REF_CLCK_32KHZ OR RTC_RATE_1024HZ) RTC_FREQ_SELECT (cmos_write RTC_24H RTC_CONTROL s0)))))))" ..
    show thesis
      by (rule that [of "snd (rtc_checksum_valid (lb_cks_range_start lb) (lb_cks_range_end lb) (lb_cks_loc lb)
          (cmos_write RTC_VRT RTC_VALID (cmos_write (RTC_REF_CLCK_32KHZ OR RTC_RATE_1024HZ) RTC_FREQ_SELECT (cmos_write RTC_24H RTC_CONTROL s0))))"])
        (simp_all add: s0 cmos_simps checksum_valid_eq(2))
  qed
  have ok: "cks_ok PC_CKS_RANGE_START PC_CKS_RANGE_END PC_CKS_LOC" by (simp add: cks_ok_def)
  show ?thesis
    using checksum_after_set [OF ok, of s1] s1 by (simp add: checksum_valid_eq(1) set_checksum_nvram)
qed

theorem rtc_init_valid_witness:
  "fst (rtc_checksum_valid 16 45 46 (rtc_init False True
     \<lparr>weekday_bcd = 3, day_bcd = 0x14, month_bcd = 0x05, year_bcd = 0x14, century_bcd = 0x20\<rparr> example_lb True example_rtc))"
  using rtc_init_valid [of False "\<lparr>weekday_bcd = 3, day_bcd = 0x14, month_bcd = 0x05, year_bcd = 0x14, century_bcd = 0x20\<rparr>" example_lb True example_rtc]
  by blast

text \<open>
  Without a century byte the century is taken as 0, which the range test never accepts:
  whatever the date was, \<^verbatim>\<open>rtc_check_update_cmos_date\<close> replaces it with the build date.
\<close>
lemma rtc_check_without_century_resets_date:
  "let s' = rtc_check_update_cmos_date d False s in
     nvram s' RTC_CLK_YEAR = year_bcd d \<and> nvram s' RTC_CLK_MONTH = month_bcd d \<and> nvram s' RTC_CLK_DAYOFMONTH = day_bcd d
     \<and> nvram s' RTC_CLK_HOUR = 1 \<and> nvram s' RTC_CLK_MINUTE = 0 \<and> nvram s' RTC_CLK_SECOND = 0"
proof -
  have z: "bcd_to_hex 0 \<noteq> bcd_to_hex 0x20" by code_simp
  have e: "(if b then (0::u8) OR RTC_BCD_ERROR else 0) OR RTC_RANGE_ERROR \<noteq> 0" for b by (cases b) (simp_all add: RTC_BCD_ERROR_def RTC_RANGE_ERROR_def)
  have "\<exists>s1. nvram (rtc_check_update_cmos_date d False s) = nvram (rtc_update_cmos_date d False s1)"
    by (simp only: rtc_check_update_cmos_date_def Let_def case_prod_unfold fst_conv snd_conv if_False z simp_thms if_True e not_False_eq_True cmos_simps) blast
  then obtain s1 where "nvram (rtc_check_update_cmos_date d False s) = nvram (rtc_update_cmos_date d False s1)" ..
  then show ?thesis by (simp add: rtc_update_cmos_date_def Let_def cmos_simps)
qed

lemma u8_eq_iff: "i < 256 \<Longrightarrow> (of_nat i :: u8) = x \<longleftrightarrow> i = unat x"
  by (auto simp: word_unat_eq_iff unat_of_nat)

lemma u8_range: "i < 256 \<Longrightarrow> unat (of_nat i :: u8) = i"
  by (simp add: unat_of_nat)

lemma set_bytes_nvram:
  "byte + length bs \<le> 256 \<Longrightarrow> nvram (set_bytes byte bs s) x =
    (if byte \<le> unat x \<and> unat x < byte + length bs then bs ! (unat x - byte) else nvram s x)"
proof (induction bs arbitrary: byte s)
  case (Cons b bs)
  have e: "x = of_nat byte \<longleftrightarrow> unat x = byte" using Cons.prems u8_eq_iff [of byte x] by auto
  have ih: "nvram (set_bytes byte (b # bs) s) x =
     (if byte + 1 \<le> unat x \<and> unat x < byte + 1 + length bs then bs ! (unat x - (byte + 1)) else if unat x = byte then b else nvram s x)"
    using Cons.IH [of "byte + 1" "cmos_write b (of_nat byte) s"] Cons.prems by (simp add: cmos_write_eq e)
  consider "unat x = byte" | "byte + 1 \<le> unat x" | "unat x < byte" by linarith
  then show ?case
  proof cases
    case 2
    then have "unat x - byte = Suc (unat x - (byte + 1))" by simp
    then show ?thesis unfolding ih using 2 by simp
  qed (unfold ih, simp_all)
qed auto

lemma get_bytes_eq: "\<exists>s'. get_bytes byte n s = (map (\<lambda>i. nvram s (of_nat i)) [byte..<byte + n], s') \<and> nvram s' = nvram s"
proof (induction n arbitrary: byte s)
  case (Suc n)
  obtain s1 where s1: "nvram s1 = nvram s" "cmos_read (of_nat byte) s = (nvram s (of_nat byte), s1)" using cmos_read_eq by blast
  obtain s2 where "get_bytes (byte + 1) n s1 = (map (\<lambda>i. nvram s1 (of_nat i)) [byte + 1..<byte + 1 + n], s2)" "nvram s2 = nvram s1"
    using Suc.IH by blast
  moreover have "[byte..<byte + Suc n] = byte # [byte + 1..<byte + 1 + n]" by (simp add: upt_conv_Cons)
  ultimately show ?case using s1 by simp
qed simp

definition block_field :: "cmos_entries \<Rightarrow> nat \<Rightarrow> bool" where
  "block_field ce n \<longleftrightarrow> unat (ce_bit ce) mod 8 = 0 \<and> unat (ce_length ce) = 8 * n \<and> 2 \<le> n \<and> entry_byte ce + n \<le> 256"

lemma set_block:
  assumes "unat bit_pos mod 8 = 0" "unat len = 8 * n" "2 \<le> n" "n \<le> length v"
  shows "set_cmos_value lb bit_pos len v s = Some (CB_SUCCESS,
     let s1 = set_bytes (unat bit_pos div 8) (take n v) s; byte = unat bit_pos div 8 + n
     in if lb_cks_range_start lb \<le> byte \<and> byte \<le> lb_cks_range_end lb
        then rtc_set_checksum (lb_cks_range_start lb) (lb_cks_range_end lb) (lb_cks_loc lb) s1 else s1)"
proof -
  have "\<not> len \<le> 8" using assms(2,3) by (simp add: word_le_nat_alt)
  then show ?thesis using assms by (simp add: set_cmos_value_def Let_def)
qed

text \<open>
  C35.  The test for the checksum after a multi-byte option looks at the byte after it.  An
  option of whole bytes that ends the checksummed range is stored without a new checksum;
  reading it back returns its bytes with success only if their sum happens to be the old one.
\<close>
theorem cmos_last_option_leaves_checksum_stale:
  assumes "lookup_option bs name = Some (Some ce)" "ce_config ce \<noteq> 0x73" "lb_ok lb" "block_field ce n" "length v = n"
    and "lb_cks_range_start lb \<le> entry_byte ce" "entry_byte ce + n = lb_cks_range_end lb + 1"
  shows "\<exists>s' err s''. set_option (Some bs) lb name v s = Some (CB_SUCCESS, s')
    \<and> cks_stored (nvram s') (lb_cks_loc lb) = cks_stored (nvram s) (lb_cks_loc lb)
    \<and> get_option (Some bs) lb name s' = Some (err, v, s'')
    \<and> (err = CB_SUCCESS \<longleftrightarrow> cks_sum (nvram s') (lb_cks_range_start lb) (lb_cks_range_end lb) = cks_stored (nvram s) (lb_cks_loc lb))"
proof -
  let ?s' = "set_bytes (entry_byte ce) v s"
  let ?lo = "lb_cks_range_start lb" and ?hi = "lb_cks_range_end lb" and ?loc = "lb_cks_loc lb"
  have b: "entry_byte ce + length v \<le> 256" "unat (ce_bit ce) mod 8 = 0" "unat (ce_length ce) = 8 * n" "2 \<le> n"
    using assms(4,5) by (auto simp: block_field_def)
  have set: "set_option (Some bs) lb name v s = Some (CB_SUCCESS, ?s')"
    using set_block [OF b(2,3,4), of v lb s] assms(5,7)
    by (simp add: set_option_lookup [OF assms(1,2)] entry_byte_def [symmetric] Let_def)
  have loc: "?loc + 1 < 256" "\<not> (entry_byte ce \<le> ?loc \<and> ?loc < entry_byte ce + length v)"
    "\<not> (entry_byte ce \<le> ?loc + 1 \<and> ?loc + 1 < entry_byte ce + length v)"
    using assms(3,5,6,7) by (auto simp: lb_ok_def cks_ok_def)
  have st: "cks_stored (nvram ?s') ?loc = cks_stored (nvram s) ?loc"
  proof -
    have "nvram ?s' (of_nat ?loc) = nvram s (of_nat ?loc)"
      using loc(1) by (simp only: set_bytes_nvram [OF b(1)] u8_range add_lessD1 loc(2) if_False)
    moreover have "nvram ?s' (of_nat (?loc + 1)) = nvram s (of_nat (?loc + 1))"
      using loc(1) by (simp only: set_bytes_nvram [OF b(1)] u8_range loc(3) if_False)
    ultimately show ?thesis by (simp only: cks_stored_def)
  qed
  obtain s1 where s1: "get_bytes (entry_byte ce) n ?s' = (map (\<lambda>i. nvram ?s' (of_nat i)) [entry_byte ce..<entry_byte ce + n], s1)" "nvram s1 = nvram ?s'"
    using get_bytes_eq by blast
  have v: "map (\<lambda>i. nvram ?s' (of_nat i)) [entry_byte ce..<entry_byte ce + n] = v"
    using assms(5) b(1) by (intro nth_equalityI) (auto simp: set_bytes_nvram [OF b(1)] unat_of_nat simp del: of_nat_add)
  have "\<not> ce_length ce < 9" using b by (simp add: word_less_nat_alt)
  then have get: "get_cmos_value (ce_bit ce) (ce_length ce) ?s' = Some (CB_SUCCESS, v, s1)"
    using b s1 by (simp add: get_cmos_value_def entry_byte_def [symmetric] v)
  obtain ok s2 where ok: "rtc_checksum_valid ?lo ?hi ?loc s1 = (ok, s2)" by (cases "rtc_checksum_valid ?lo ?hi ?loc s1")
  then have "ok \<longleftrightarrow> cks_sum (nvram ?s') ?lo ?hi = cks_stored (nvram s) ?loc"
    using checksum_valid_eq(1) [of ?lo ?hi ?loc s1] s1(2) st by simp
  then show ?thesis
    using set st by (intro exI [of _ ?s'] exI [of _ "if ok then CB_SUCCESS else CB_CMOS_CHECKSUM_INVALID"] exI [of _ s2])
      (simp add: get_option_lookup [OF assms(1)] get ok)
qed

theorem cmos_last_option_leaves_checksum_stale_witness:
  "\<exists>s' s''. set_option (Some example_layout) example_lb (map of_char ''serial_number'') [1, 2] example_rtc = Some (CB_SUCCESS, s')
    \<and> cks_stored (nvram s') 123 = 0 \<and> (\<exists>err. get_option (Some example_layout) example_lb (map of_char ''serial_number'') s' = Some (err, [1, 2], s''))"
proof -
  let ?ce = "\<lparr>ce_bit = 472, ce_length = 16, ce_config = 0x68\<rparr>"
  have l: "lookup_option example_layout (map of_char ''serial_number'') = Some (Some ?ce)" by code_simp
  have c: "cks_stored (nvram example_rtc) 123 = 0" by (simp add: cks_stored_def example_rtc_def)
  show ?thesis
    using cmos_last_option_leaves_checksum_stale [OF l, of example_lb 2 "[1, 2]" example_rtc]
    by (auto simp: lb_ok_def cks_ok_def example_lb_def block_field_def entry_byte_def c)
qed

lemma strlen_append: "0 \<notin> set cs \<Longrightarrow> strlen (cs @ 0 # rest) = Some (length cs)"
proof -
  assume "0 \<notin> set cs"
  then have "takeWhile (\<lambda>b. b \<noteq> 0) (cs @ 0 # rest) = cs" by (induction cs) auto
  then show ?thesis by (simp add: strlen_def)
qed

text \<open>
  For a string option the number of bytes written is the larger of the string and the
  field, not the smaller: a longer value is stored whole, over whatever lies behind the field.
\<close>
lemma cmos_string_option_overruns:
  assumes "lookup_option bs name = Some (Some ce)" "ce_config ce = 0x73" "block_field ce n"
    and "0 \<notin> set cs" "n \<le> length cs" "entry_byte ce + length cs \<le> lb_cks_loc lb" "lb_cks_loc lb + 1 < 256"
  shows "\<exists>s'. set_option (Some bs) lb name (cs @ [0]) s = Some (CB_SUCCESS, s')
    \<and> (\<forall>i<length cs. nvram s' (of_nat (entry_byte ce + i)) = cs ! i)"
proof -
  have b: "unat (ce_bit ce) mod 8 = 0" "unat (ce_length ce) = 8 * n" "2 \<le> n" using assms(3) by (auto simp: block_field_def)
  have c256: "length cs < 256" "n < 256" using assms(5,6,7) by simp_all
  have len: "max (of_nat (length cs) * 8) (ce_length ce - 8) = (of_nat (8 * length cs) :: u32)"
  proof -
    have "unat (of_nat (length cs) * 8 :: u32) = 8 * length cs" "unat (ce_length ce - 8) = 8 * n - 8"
      using b c256 by (simp_all add: unat_word_ariths unat_of_nat unat_sub word_le_nat_alt)
    then have "ce_length ce - 8 \<le> of_nat (length cs) * 8" using assms(5) by (simp add: word_le_nat_alt)
    then show ?thesis by (simp add: max_def)
  qed
  obtain s1 where s1: "set_cmos_value lb (ce_bit ce + ce_length ce - 8) 8 [0] s = Some (CB_SUCCESS, s1)"
    by (simp add: set_cmos_value_def Let_def case_prod_unfold)
  have l8: "unat (of_nat (8 * length cs) :: u32) = 8 * length cs" using c256 by (simp add: unat_of_nat del: of_nat_mult)
  let ?s2 = "set_bytes (entry_byte ce) cs s1"
  let ?s' = "let byte = entry_byte ce + length cs
     in if lb_cks_range_start lb \<le> byte \<and> byte \<le> lb_cks_range_end lb
        then rtc_set_checksum (lb_cks_range_start lb) (lb_cks_range_end lb) (lb_cks_loc lb) ?s2 else ?s2"
  have "set_cmos_value lb (ce_bit ce) (of_nat (8 * length cs)) (cs @ [0]) s1 = Some (CB_SUCCESS, ?s')"
    using set_block [OF b(1) l8, of "cs @ [0]" lb s1] b(3) assms(5) by (simp add: entry_byte_def Let_def)
  then have "set_option (Some bs) lb name (cs @ [0]) s = Some (CB_SUCCESS, ?s')"
    using assms(1,2) strlen_append [OF assms(4), of "[]"] s1 unfolding lookup_option_def set_option_def
    by (auto simp: Let_def len simp del: of_nat_mult)
  moreover have "nvram ?s' (of_nat (entry_byte ce + i)) = cs ! i" if "i < length cs" for i
  proof -
    have u: "unat (of_nat (entry_byte ce + i) :: u8) = entry_byte ce + i" using that assms(6,7) by (simp add: unat_of_nat del: of_nat_add)
    have "nvram ?s2 (of_nat (entry_byte ce + i)) = cs ! i"
      using that assms(6,7) u by (subst set_bytes_nvram) (simp_all del: of_nat_add)
    moreover have "(of_nat (entry_byte ce + i) :: u8) \<noteq> of_nat (lb_cks_loc lb)" "(of_nat (entry_byte ce + i) :: u8) \<noteq> of_nat (lb_cks_loc lb + 1)"
      using that assms(6,7) by (simp_all add: of_nat_u8_eq del: of_nat_add of_nat_Suc)
    ultimately show ?thesis by (simp add: Let_def set_checksum_nvram del: of_nat_add of_nat_Suc)
  qed
  ultimately show ?thesis by blast
qed

theorem cmos_string_option_overruns_witness:
  "\<exists>s'. set_option (Some example_layout) example_lb (map of_char ''label'') (map of_char ''overflow'' @ [0]) example_rtc = Some (CB_SUCCESS, s')
    \<and> nvram s' 59 = of_char CHR ''f''"
proof -
  let ?ce = "\<lparr>ce_bit = 440, ce_length = 32, ce_config = 0x73\<rparr>"
  have l: "lookup_option example_layout (map of_char ''label'') = Some (Some ?ce)" by code_simp
  have "\<exists>s'. set_option (Some example_layout) example_lb (map of_char ''label'') (map of_char ''overflow'' @ [0]) example_rtc = Some (CB_SUCCESS, s')
    \<and> (\<forall>i<length (map of_char ''overflow'' :: u8 list). nvram s' (of_nat (entry_byte ?ce + i)) = map of_char ''overflow'' ! i)"
    by (rule cmos_string_option_overruns [OF l, of 4]) (simp_all add: block_field_def entry_byte_def example_lb_def)
  then obtain s' where "set_option (Some example_layout) example_lb (map of_char ''label'') (map of_char ''overflow'' @ [0]) example_rtc = Some (CB_SUCCESS, s')"
    and a: "\<forall>i<8. nvram s' (of_nat (55 + i)) = map of_char ''overflow'' ! i" by (auto simp: entry_byte_def)
  moreover have "nvram s' 59 = of_char CHR ''f''" using a [rule_format, of 4] by simp
  ultimately show ?thesis by blast
qed

text \<open>A requested name that is only the beginning of a stored name matches it.\<close>

lemma cmos_option_prefix_match:
  "lookup_option example_layout (map of_char ''d'') = lookup_option example_layout (map of_char ''debug_level'')"
  by code_simp

end
