(* ===== verification/Resalloc.thy ===== *)
theory Resalloc
  imports Devtree
begin

text \<open>
  The resource allocator of \<^verbatim>\<open>src/device/device.c\<close>: the two passes that compute what is needed
  behind every bridge and give every resource its address, the constraints from resources at
  fixed places, and \<^verbatim>\<open>dev_configure\<close>, which runs them over the domains.

  A pointer to a resource is its device and its position there (\<^verbatim>\<open>res_ptr\<close>); the passes
  update the resources of the tree in place.  A NULL pointer that the code would follow halts
  the model (\<open>None\<close>).  The recursion over the tree takes one unit of fuel per level, the loop
  over the resources of a bus one per resource; both bounds are proved to be enough.
\<close>

section \<open>Resources in the tree\<close>

definition get_res :: "devtree \<Rightarrow> res_ptr \<Rightarrow> resource" where
  "get_res t p = d_resource_list (devs t (fst p)) ! snd p"

definition upd_res :: "res_ptr \<Rightarrow> (resource \<Rightarrow> resource) \<Rightarrow> devtree \<Rightarrow> devtree" where
  "upd_res p f t = t\<lparr>devs := (devs t)(fst p := (devs t (fst p))\<lparr>d_resource_list :=
     (d_resource_list (devs t (fst p)))[snd p := f (get_res t p)]\<rparr>)\<rparr>"

definition IOINDEX_LINK :: "u32 \<Rightarrow> u32" where
  "IOINDEX_LINK idx = drop_bit 16 (idx AND 0xf0000)"

text \<open>\<^verbatim>\<open>round\<close>: up to a multiple of a power of two.\<close>

definition round_up :: "resource_t \<Rightarrow> nat \<Rightarrow> resource_t" where
  "round_up val pow = (let m = push_bit pow 1 - 1; val = val + m in val AND NOT m)"

section \<open>The next resource in the order of allocation\<close>

text \<open>\<^verbatim>\<open>result_dev\<close> is the device of \<^verbatim>\<open>result\<close>.\<close>

record pick_largest_state =
  pl_last :: "res_ptr option"
  pl_result :: "res_ptr option"
  pl_seen_last :: bool

definition pick_largest_resource ::
  "devtree \<Rightarrow> res_ptr \<Rightarrow> resource \<Rightarrow> pick_largest_state \<Rightarrow> pick_largest_state option" where
  "pick_largest_resource t p resource state = Some
     (if pl_last state = Some p then state\<lparr>pl_seen_last := True\<rparr>
      else if res_flags resource AND IORESOURCE_FIXED \<noteq> 0 then state
      else if (case pl_last state of
                 None \<Rightarrow> False
               | Some q \<Rightarrow> let last = get_res t q in
                   res_align last < res_align resource
                   \<or> res_align last = res_align resource \<and> res_size last < res_size resource
                   \<or> res_align last = res_align resource \<and> res_size last = res_size resource
                     \<and> \<not> pl_seen_last state) then state
      else if (case pl_result state of
                 None \<Rightarrow> True
               | Some q \<Rightarrow> let result = get_res t q in
                   res_align result < res_align resource
                   \<or> res_align result = res_align resource \<and> res_size result < res_size resource)
           then state\<lparr>pl_result := Some p\<rparr>
      else state)"

definition largest_resource ::
  "nat \<Rightarrow> devtree \<Rightarrow> bus_id \<Rightarrow> res_ptr option \<Rightarrow> u32 \<Rightarrow> u32 \<Rightarrow> res_ptr option option" where
  "largest_resource n t bus result_res type_mask type' = do {
     state \<leftarrow> search_bus_resources n t bus type_mask type' (pick_largest_resource t)
       \<lparr>pl_last = result_res, pl_result = None, pl_seen_last = False\<rparr>;
     Some (pl_result state)
   }"

text \<open>The loop \<^verbatim>\<open>while ((dev = largest_resource(...)))\<close> of both passes, with the base it threads.\<close>

fun each_largest ::
  "nat \<Rightarrow> nat \<Rightarrow> bus_id \<Rightarrow> u32 \<Rightarrow> u32 \<Rightarrow> (res_ptr \<Rightarrow> devtree \<times> resource_t \<Rightarrow> devtree \<times> resource_t)
    \<Rightarrow> res_ptr option \<Rightarrow> devtree \<times> resource_t \<Rightarrow> (devtree \<times> resource_t) option" where
  "each_largest 0 n bus type_mask type' body resource s = None"
| "each_largest (Suc k) n bus type_mask type' body resource s = do {
     resource \<leftarrow> largest_resource n (fst s) bus resource type_mask type';
     case resource of
       None \<Rightarrow> Some s
     | Some p \<Rightarrow> each_largest k n bus type_mask type' body resource (body p s)
   }"

section \<open>The two passes\<close>

text \<open>
  Only the first 0x100 ports of every 0x400 are used, and none of the VGA range; the second
  test never holds, as the first takes every base from 0x3b0 to 0x3df.
\<close>

definition io_skip :: "resource_t \<Rightarrow> resource_t" where
  "io_skip base =
     (if base AND 0x300 \<noteq> 0 then (base AND NOT 0x3ff) + 0x400
      else if 0x3b0 \<le> base \<and> base \<le> 0x3df then 0x3e0
      else base)"

text \<open>
  The loop over the bridges among the children of a bus: every bridge resource of the right
  type, with the link behind it.  Without that link the code calls the pass with NULL.
\<close>

definition each_child_bridge ::
  "(bus_id \<Rightarrow> res_ptr \<Rightarrow> u32 \<Rightarrow> u32 \<Rightarrow> devtree \<Rightarrow> devtree option) \<Rightarrow> bus_id \<Rightarrow> u32 \<Rightarrow> u32 \<Rightarrow> devtree \<Rightarrow> devtree option" where
  "each_child_bridge pass bus type_mask type' t =
     fold_opt (\<lambda>dev t.
         if d_link_list (devs t dev) = [] then Some t
         else fold_opt (\<lambda>i t.
             let child_bridge = get_res t (dev, i) in
             if res_flags child_bridge AND IORESOURCE_BRIDGE = 0 \<or> res_flags child_bridge AND type_mask \<noteq> type' then Some t
             else case find (\<lambda>b. ucast (b_link_num (buses t b)) = IOINDEX_LINK (res_index child_bridge)) (d_link_list (devs t dev)) of
                    None \<Rightarrow> None
                  | Some link \<Rightarrow> pass link (dev, i) (type_mask OR IORESOURCE_PREFETCH)
                      (type' OR (res_flags child_bridge AND IORESOURCE_PREFETCH)) t)
           [0..<length (d_resource_list (devs t dev))] t)
       (b_children (buses t bus)) t"

definition compute_one :: "res_ptr \<Rightarrow> res_ptr \<Rightarrow> devtree \<times> resource_t \<Rightarrow> devtree \<times> resource_t" where
  "compute_one bridge p = (\<lambda>(t, base).
     let resource = get_res t p in
     if res_size resource = 0 then (t, base)
     else
       let t = (if res_align (get_res t bridge) < res_align resource
                then upd_res bridge (\<lambda>b. b\<lparr>res_align := res_align resource\<rparr>) t else t);
           t = (if res_limit resource < res_limit (get_res t bridge)
                then upd_res bridge (\<lambda>b. b\<lparr>res_limit := res_limit resource\<rparr>) t else t);
           base = (if res_flags resource AND IORESOURCE_IO \<noteq> 0 then io_skip base else base);
           base = round_up base (unat (res_align resource));
           t = upd_res p (\<lambda>r. r\<lparr>res_base := base\<rparr>) t
       in (t, base + res_size resource))"

definition bridge_size :: "resource_t \<Rightarrow> resource \<Rightarrow> resource_t" where
  "bridge_size base bridge =
     round_up base (unat (res_gran bridge)) - round_up (res_base bridge) (unat (res_align bridge))"

fun compute_resources :: "nat \<Rightarrow> nat \<Rightarrow> bus_id \<Rightarrow> res_ptr \<Rightarrow> u32 \<Rightarrow> u32 \<Rightarrow> devtree \<Rightarrow> devtree option" where
  "compute_resources 0 k bus bridge type_mask type' t = None"
| "compute_resources (Suc n) k bus bridge type_mask type' t =
     (let base = round_up (res_base (get_res t bridge)) (unat (res_align (get_res t bridge))) in do {
        t \<leftarrow> each_child_bridge (compute_resources n k) bus type_mask type' t;
        (t, base) \<leftarrow> each_largest k (Suc n) bus type_mask type' (compute_one bridge) None (t, base);
        Some (upd_res bridge (\<lambda>b. b\<lparr>res_size := bridge_size base b\<rparr>) t)
      })"

definition allocate_one :: "res_ptr \<Rightarrow> res_ptr \<Rightarrow> devtree \<times> resource_t \<Rightarrow> devtree \<times> resource_t" where
  "allocate_one bridge p = (\<lambda>(t, base).
     let t = (if res_limit (get_res t bridge) < res_limit (get_res t p)
              then upd_res p (\<lambda>r. r\<lparr>res_limit := res_limit (get_res t bridge)\<rparr>) t else t);
         resource = get_res t p
     in if res_size resource = 0 then
          (upd_res p (\<lambda>r. r\<lparr>res_base := res_limit r, res_flags := res_flags r OR IORESOURCE_ASSIGNED\<rparr>) t, base)
        else
          let base = (if res_flags resource AND IORESOURCE_IO \<noteq> 0 then io_skip base else base) in
          if round_up base (unat (res_align resource)) + res_size resource - 1 \<le> res_limit resource then
            let base = round_up base (unat (res_align resource)) in
            (upd_res p (\<lambda>r. r\<lparr>res_base := base,
               res_flags := (res_flags r OR IORESOURCE_ASSIGNED) AND NOT IORESOURCE_STORED\<rparr>) t,
             base + res_size resource)
          else (t, base))"

fun allocate_resources :: "nat \<Rightarrow> nat \<Rightarrow> bus_id \<Rightarrow> res_ptr \<Rightarrow> u32 \<Rightarrow> u32 \<Rightarrow> devtree \<Rightarrow> devtree option" where
  "allocate_resources 0 k bus bridge type_mask type' t = None"
| "allocate_resources (Suc n) k bus bridge type_mask type' t = do {
     (t, base) \<leftarrow> each_largest k (Suc n) bus type_mask type' (allocate_one bridge) None (t, res_base (get_res t bridge));
     each_child_bridge (allocate_resources n k) bus type_mask type'
       (upd_res bridge (\<lambda>b. b\<lparr>res_flags := res_flags b OR IORESOURCE_ASSIGNED\<rparr>) t)
   }"

section \<open>Resources at fixed places\<close>

text \<open>\<open>pref64\<close> is \<^verbatim>\<open>CONFIG_PCI_64BIT_PREF_MEM\<close>.\<close>

definition MEM_MASK :: "bool \<Rightarrow> u32" where
  "MEM_MASK pref64 = (if pref64 then IORESOURCE_PREFETCH OR IORESOURCE_MEM else IORESOURCE_MEM)"

abbreviation IO_MASK :: u32 where "IO_MASK \<equiv> IORESOURCE_IO"
abbreviation PREF_TYPE :: u32 where "PREF_TYPE \<equiv> IORESOURCE_PREFETCH OR IORESOURCE_MEM"
abbreviation MEM_TYPE :: u32 where "MEM_TYPE \<equiv> IORESOURCE_MEM"
abbreviation IO_TYPE :: u32 where "IO_TYPE \<equiv> IORESOURCE_IO"

text \<open>Of the resources in \<^verbatim>\<open>struct constraints\<close> only base and limit are used.\<close>

record region =
  reg_base :: resource_t
  reg_limit :: resource_t

record constraints =
  lim_pref :: region
  lim_io :: region
  lim_mem :: region

datatype constraint_class = Pref | Mem | Io

definition constraint_class :: "bool \<Rightarrow> resource \<Rightarrow> constraint_class option" where
  "constraint_class pref64 res =
     (if res_flags res AND MEM_MASK pref64 = PREF_TYPE then Some Pref
      else if res_flags res AND MEM_MASK pref64 = MEM_TYPE then Some Mem
      else if res_flags res AND IO_MASK = IO_TYPE then Some Io
      else None)"

fun get_lim :: "constraint_class \<Rightarrow> constraints \<Rightarrow> region" where
  "get_lim Pref limits = lim_pref limits"
| "get_lim Mem limits = lim_mem limits"
| "get_lim Io limits = lim_io limits"

fun set_lim :: "constraint_class \<Rightarrow> region \<Rightarrow> constraints \<Rightarrow> constraints" where
  "set_lim Pref lim limits = limits\<lparr>lim_pref := lim\<rparr>"
| "set_lim Mem lim limits = limits\<lparr>lim_mem := lim\<rparr>"
| "set_lim Io lim limits = limits\<lparr>lim_io := lim\<rparr>"

definition constrain_one :: "bool \<Rightarrow> resource \<Rightarrow> constraints \<Rightarrow> constraints" where
  "constrain_one pref64 res limits =
     (if res_flags res AND IORESOURCE_FIXED = 0 then limits
      else if res_size res = 0 then limits
      else case constraint_class pref64 res of
        None \<Rightarrow> limits
      | Some c \<Rightarrow>
          let lim = get_lim c limits in
          if res_base res + res_size res - 1 < reg_base lim \<or> reg_limit lim < res_base res then limits
          else if sint (reg_limit lim - (res_base res + res_size res - 1)) > sint (res_base res - reg_base lim)
          then set_lim c (lim\<lparr>reg_base := res_base res + res_size res\<rparr>) limits
          else set_lim c (lim\<lparr>reg_limit := res_base res - 1\<rparr>) limits)"

fun constrain_resources :: "nat \<Rightarrow> bool \<Rightarrow> devtree \<Rightarrow> dev_id \<Rightarrow> constraints \<Rightarrow> constraints option" where
  "constrain_resources 0 pref64 t dev limits = None"
| "constrain_resources (Suc n) pref64 t dev limits =
     fold_opt (\<lambda>link. fold_opt (\<lambda>child limits.
         if d_enabled (devs t child) then constrain_resources n pref64 t child limits else Some limits)
         (b_children (buses t link)))
       (d_link_list (devs t dev))
       (fold (constrain_one pref64) (d_resource_list (devs t dev)) limits)"

definition initial_limit :: "bool \<Rightarrow> resource \<Rightarrow> constraints \<Rightarrow> constraints" where
  "initial_limit pref64 res limits =
     (if res_flags res AND IORESOURCE_FIXED \<noteq> 0 then limits
      else
        let lower = (\<lambda>lim. if res_limit res < reg_limit lim then lim\<lparr>reg_limit := res_limit res\<rparr> else lim);
            limits = (if res_flags res AND MEM_MASK pref64 = PREF_TYPE then limits\<lparr>lim_pref := lower (lim_pref limits)\<rparr> else limits);
            limits = (if res_flags res AND MEM_MASK pref64 = MEM_TYPE then limits\<lparr>lim_mem := lower (lim_mem limits)\<rparr> else limits)
        in (if res_flags res AND IO_MASK = IO_TYPE then limits\<lparr>lim_io := lower (lim_io limits)\<rparr> else limits))"

definition apply_limit :: "bool \<Rightarrow> constraints \<Rightarrow> resource \<Rightarrow> resource" where
  "apply_limit pref64 limits res =
     (if res_flags res AND IORESOURCE_FIXED \<noteq> 0 then res
      else case constraint_class pref64 res of
        None \<Rightarrow> res
      | Some c \<Rightarrow>
          let lim = get_lim c limits;
              res = (if res_base res < reg_base lim then res\<lparr>res_base := reg_base lim\<rparr> else res)
          in if reg_limit lim < res_limit res then res\<lparr>res_limit := reg_limit lim\<rparr> else res)"

definition max_region :: region where
  "max_region = \<lparr>reg_base = 0, reg_limit = 0xffffffffffffffff\<rparr>"

definition upd_resources :: "dev_id \<Rightarrow> (resource \<Rightarrow> resource) \<Rightarrow> devtree \<Rightarrow> devtree" where
  "upd_resources dev f t = t\<lparr>devs := (devs t)(dev := (devs t dev)\<lparr>d_resource_list := map f (d_resource_list (devs t dev))\<rparr>)\<rparr>"

definition avoid_fixed_resources :: "nat \<Rightarrow> bool \<Rightarrow> dev_id \<Rightarrow> devtree \<Rightarrow> devtree option" where
  "avoid_fixed_resources n pref64 dev t = do {
     limits \<leftarrow> constrain_resources n pref64 t dev
       (fold (initial_limit pref64) (d_resource_list (devs t dev)) \<lparr>lim_pref = max_region, lim_io = max_region, lim_mem = max_region\<rparr>);
     Some (upd_resources dev (apply_limit pref64 limits) t)
   }"

section \<open>Configuring the devices\<close>

abbreviation PCI_CLASS_DISPLAY_VGA :: u32 where "PCI_CLASS_DISPLAY_VGA \<equiv> 0x0300"
abbreviation PCI_COMMAND_IO :: u8 where "PCI_COMMAND_IO \<equiv> 0x1"
abbreviation PCI_COMMAND_MEMORY :: u8 where "PCI_COMMAND_MEMORY \<equiv> 0x2"
abbreviation PCI_BRIDGE_CTL_VGA :: u32 where "PCI_BRIDGE_CTL_VGA \<equiv> 0x08"

definition upd_dev :: "dev_id \<Rightarrow> (device \<Rightarrow> device) \<Rightarrow> 'a devtree_scheme \<Rightarrow> 'a devtree_scheme" where
  "upd_dev d f t = t\<lparr>devs := (devs t)(d := f (devs t d))\<rparr>"

text \<open>The chain has no repetition, so the repeated \<^verbatim>\<open>dev_find_class\<close> meets its VGA devices in order.\<close>

definition vga_found :: "dev_id \<Rightarrow> devtree \<times> dev_id option \<times> dev_id option \<Rightarrow> devtree \<times> dev_id option \<times> dev_id option" where
  "vga_found dev = (\<lambda>(t, vga, vga_onboard).
     if \<not> d_enabled (devs t dev) then (t, vga, vga_onboard)
     else let (vga, vga_onboard) = (if d_on_mainboard (devs t dev) then (vga, Some dev) else (Some dev, vga_onboard))
          in (upd_dev dev (\<lambda>d. d\<lparr>d_command := d_command d AND NOT (PCI_COMMAND_MEMORY OR PCI_COMMAND_IO)\<rparr>) t, vga, vga_onboard))"

fun vga_walk_up :: "nat \<Rightarrow> bus_id option \<Rightarrow> devtree \<Rightarrow> devtree option" where
  "vga_walk_up n None t = Some t"
| "vga_walk_up 0 (Some bus) t = None"
| "vga_walk_up (Suc n) (Some bus) t =
     (let t = t\<lparr>buses := (buses t)(bus := (buses t bus)\<lparr>b_bridge_ctrl := b_bridge_ctrl (buses t bus) OR PCI_BRIDGE_CTL_VGA\<rparr>)\<rparr>;
          up = d_bus (devs t (b_dev (buses t bus)))
      in vga_walk_up n (if bus = up then None else Some up) t)"

definition set_vga_bridge_bits :: "nat \<Rightarrow> bool \<Rightarrow> (nat \<Rightarrow> dev_id \<Rightarrow> devtree \<Rightarrow> devtree option) \<Rightarrow> devtree \<Rightarrow> devtree option" where
  "set_vga_bridge_bits n onboard_is_primary hook t =
     (let (t, vga, vga_onboard) =
            fold vga_found (filter (\<lambda>d. d_class (devs t d) AND 0xffffff00 = push_bit 8 PCI_CLASS_DISPLAY_VGA) (all_devices t)) (t, None, None);
          vga = (if vga = None then vga_onboard else vga);
          vga = (if onboard_is_primary \<and> vga_onboard \<noteq> None then vga_onboard else vga)
      in do {
        t \<leftarrow> (case vga_onboard of
               None \<Rightarrow> Some t
             | Some d \<Rightarrow> if \<not> onboard_is_primary \<and> vga \<noteq> vga_onboard
                         then (case dev_op t d op_disable of None \<Rightarrow> Some t | Some k \<Rightarrow> hook k d t)
                         else Some t);
        case vga of
          None \<Rightarrow> Some t
        | Some v \<Rightarrow>
            let t = (upd_dev v (\<lambda>d. d\<lparr>d_command := d_command d OR (PCI_COMMAND_MEMORY OR PCI_COMMAND_IO)\<rparr>) t)\<lparr>vga_pri := Some v\<rparr>
            in vga_walk_up n (Some (d_bus (devs t v))) t
      })"

fun read_resources :: "nat \<Rightarrow> (nat \<Rightarrow> dev_id \<Rightarrow> devtree \<Rightarrow> devtree option) \<Rightarrow> bus_id \<Rightarrow> devtree \<Rightarrow> devtree option" where
  "read_resources 0 hook bus t = None"
| "read_resources (Suc n) hook bus t =
     fold_opt (\<lambda>curdev t.
         if \<not> d_enabled (devs t curdev) then Some t
         else case dev_op t curdev op_read_resources of
                None \<Rightarrow> Some t
              | Some k \<Rightarrow> do {
                  t \<leftarrow> hook k curdev t;
                  fold_opt (read_resources n hook) (d_link_list (devs t curdev)) t
                })
       (b_children (buses t bus)) t"

definition assign_resources ::
  "(nat \<Rightarrow> dev_id \<Rightarrow> 'a devtree_scheme \<Rightarrow> 'a devtree_scheme option) \<Rightarrow> bus_id \<Rightarrow> 'a devtree_scheme \<Rightarrow> 'a devtree_scheme option" where
  "assign_resources hook bus t =
     fold_opt (\<lambda>curdev t.
         if \<not> d_enabled (devs t curdev) \<or> d_resource_list (devs t curdev) = [] then Some t
         else case dev_op t curdev op_set_resources of None \<Rightarrow> Some t | Some k \<Rightarrow> hook k curdev t)
       (b_children (buses t bus)) t"

definition domain_pass ::
  "bool \<Rightarrow> (bus_id \<Rightarrow> res_ptr \<Rightarrow> u32 \<Rightarrow> u32 \<Rightarrow> devtree \<Rightarrow> devtree option) \<Rightarrow> dev_id \<Rightarrow> devtree \<Rightarrow> devtree option" where
  "domain_pass pref64 pass child t =
     fold_opt (\<lambda>i t.
         let res = get_res t (child, i);
             run = (\<lambda>type_mask type'. case d_link_list (devs t child) of
                      [] \<Rightarrow> None
                    | link # _ \<Rightarrow> pass link (child, i) type_mask type' t)
         in if res_flags res AND IORESOURCE_FIXED \<noteq> 0 then Some t
            else if res_flags res AND IORESOURCE_PREFETCH \<noteq> 0 then run (MEM_MASK pref64) PREF_TYPE
            else if res_flags res AND IORESOURCE_MEM \<noteq> 0 then run (MEM_MASK pref64) MEM_TYPE
            else if res_flags res AND IORESOURCE_IO \<noteq> 0 then run IO_MASK IO_TYPE
            else Some t)
       [0..<length (d_resource_list (devs t child))] t"

definition top_of_limit :: "resource \<Rightarrow> resource" where
  "top_of_limit res =
     (if res_flags res AND IORESOURCE_MEM = 0 \<or> res_flags res AND IORESOURCE_FIXED \<noteq> 0 then res
      else res\<lparr>res_base := resource_max res\<rparr>)"

definition domains :: "devtree \<Rightarrow> bus_id \<Rightarrow> dev_id list" where
  "domains t bus = filter (\<lambda>d. p_type (path_of t d) = DEVICE_PATH_DOMAIN) (b_children (buses t bus))"

text \<open>\<open>root\<close> is \<^verbatim>\<open>dev_root\<close>; \<open>n\<close> and \<open>k\<close> are the fuel for the depth of the tree and the loops.\<close>

definition dev_configure ::
  "nat \<Rightarrow> nat \<Rightarrow> bool \<Rightarrow> bool \<Rightarrow> (nat \<Rightarrow> dev_id \<Rightarrow> devtree \<Rightarrow> devtree option) \<Rightarrow> dev_id \<Rightarrow> devtree \<Rightarrow> devtree option" where
  "dev_configure n k pref64 onboard_is_primary hook root t = do {
     t \<leftarrow> set_vga_bridge_bits n onboard_is_primary hook t;
     case d_link_list (devs t root) of
       [] \<Rightarrow> None
     | bus # _ \<Rightarrow> do {
         t \<leftarrow> read_resources n hook bus t;
         t \<leftarrow> fold_opt (domain_pass pref64 (compute_resources n k)) (domains t bus) t;
         t \<leftarrow> fold_opt (avoid_fixed_resources n pref64) (domains t bus) t;
         let t = fold (\<lambda>d. upd_resources d top_of_limit) (domains t bus) t;
         t \<leftarrow> fold_opt (domain_pass pref64 (allocate_resources n k)) (domains t bus) t;
         assign_resources hook bus t
       }
   }"

section \<open>What the passes leave alone\<close>

text \<open>
  The passes change bases, sizes, limits and alignments, and of the flags only the two that
  say a resource has been assigned or stored.
\<close>

definition core_flags :: "u32 \<Rightarrow> u32" where
  "core_flags f = f AND NOT (IORESOURCE_ASSIGNED OR IORESOURCE_STORED)"

definition res_core :: "resource \<Rightarrow> u32 \<times> u32" where
  "res_core r = (core_flags (res_flags r), res_index r)"

definition same_shape :: "devtree \<Rightarrow> devtree \<Rightarrow> bool" where
  "same_shape t t' \<longleftrightarrow> buses t' = buses t \<and> (\<forall>d. d_enabled (devs t' d) = d_enabled (devs t d)
     \<and> d_link_list (devs t' d) = d_link_list (devs t d)
     \<and> map res_core (d_resource_list (devs t' d)) = map res_core (d_resource_list (devs t d)))"

lemma same_shape_refl [simp]: "same_shape t t"
  by (simp add: same_shape_def)

lemma same_shape_trans: "same_shape t u \<Longrightarrow> same_shape u v \<Longrightarrow> same_shape t v"
  by (simp add: same_shape_def)

lemma same_shapeD:
  assumes "same_shape t t'"
  shows "buses t' = buses t" "d_enabled (devs t' d) = d_enabled (devs t d)"
    "d_link_list (devs t' d) = d_link_list (devs t d)"
    "length (d_resource_list (devs t' d)) = length (d_resource_list (devs t d))"
  using assms by (simp_all add: same_shape_def) (metis length_map)

lemma same_shape_core:
  assumes "same_shape t t'" "i < length (d_resource_list (devs t d))"
  shows "res_core (d_resource_list (devs t' d) ! i) = res_core (d_resource_list (devs t d) ! i)"
  using assms nth_map [of i "d_resource_list (devs t d)" res_core] nth_map [of i "d_resource_list (devs t' d)" res_core]
    same_shapeD(4) [OF assms(1), of d] by (simp add: same_shape_def)

definition res_ok :: "devtree \<Rightarrow> res_ptr \<Rightarrow> bool" where
  "res_ok t p \<longleftrightarrow> snd p < length (d_resource_list (devs t (fst p)))"

lemma get_upd_res:
  "res_ok t p \<Longrightarrow> get_res (upd_res p f t) q = (if q = p then f (get_res t p) else get_res t q)"
  by (cases p; cases q) (auto simp: get_res_def upd_res_def res_ok_def)

lemma res_ok_upd [simp]: "res_ok (upd_res p f t) q = res_ok t q"
  by (simp add: res_ok_def upd_res_def)

lemma res_ok_shape: "same_shape t t' \<Longrightarrow> res_ok t' p = res_ok t p"
  by (simp add: res_ok_def same_shapeD)

lemma same_shape_upd:
  assumes "res_core (f (get_res t p)) = res_core (get_res t p)"
  shows "same_shape t (upd_res p f t)"
proof -
  have "map res_core ((d_resource_list (devs t (fst p)))[snd p := f (get_res t p)]) = map res_core (d_resource_list (devs t (fst p)))"
    using assms by (cases "snd p < length (d_resource_list (devs t (fst p)))")
      (auto simp: list_eq_iff_nth_eq nth_list_update get_res_def)
  then show ?thesis by (simp add: same_shape_def upd_res_def)
qed

lemma core_flags_type:
  assumes "core_flags f = core_flags g" "m AND (IORESOURCE_ASSIGNED OR IORESOURCE_STORED) = 0"
  shows "f AND m = g AND m"
proof (rule bit_word_eqI)
  fix i assume i: "i < LENGTH(32)"
  have "bit (core_flags f) i = bit (core_flags g) i" "bit (m AND (IORESOURCE_ASSIGNED OR IORESOURCE_STORED)) i = bit (0::u32) i"
    using assms by simp_all
  then show "bit (f AND m) i = bit (g AND m) i"
    using i unfolding core_flags_def by (simp only: bit_and_iff bit_or_iff bit_not_iff bit_0_eq) auto
qed

text \<open>The resources a walk meets, by pointer.\<close>

lemma find_SomeD_mem: "find P xs = Some x \<Longrightarrow> x \<in> set xs"
  by (auto simp: find_Some_iff)

lemma dev_visits_ptr:
  assumes "\<And>b l q r. b \<in> set (d_link_list (devs t d)) \<Longrightarrow> sub b = Some l \<Longrightarrow> (q, r) \<in> set l \<Longrightarrow> P q r"
    and "\<And>i r. (i, r) \<in> set rs \<Longrightarrow> P (d, i) r"
  shows "dev_visits sub t d tm ty rs = Some l \<Longrightarrow> (q, r) \<in> set l \<Longrightarrow> P q r"
  using assms(2)
proof (induction rs arbitrary: l)
  case (Cons x rs)
  obtain i res where x: "x = (i, res)" by (cases x)
  have IH: "dev_visits sub t d tm ty rs = Some ls \<Longrightarrow> (q, r) \<in> set ls \<Longrightarrow> P q r" for ls
    using Cons.IH [of ls] Cons.prems(3) by simp
  have h: "P (d, i) res" using Cons.prems(3) x by simp
  show ?case
    using Cons.prems(1,2) h IH assms(1) unfolding x
    by (cases q) (auto split: if_splits option.splits; meson find_SomeD_mem)
qed simp

lemma flat_opt_mem:
  "flat_opt h xs = Some l \<Longrightarrow> y \<in> set l \<Longrightarrow> \<exists>x \<in> set xs. \<exists>l'. h x = Some l' \<and> y \<in> set l'"
  by (induction xs arbitrary: l) fastforce+

lemma bus_visits_ptr:
  "bus_visits n t bus tm ty = Some l \<Longrightarrow> (p, r) \<in> set l \<Longrightarrow> res_ok t p \<and> r = get_res t p"
proof (induction n arbitrary: bus l p r)
  case (Suc n)
  obtain d l' where d: "d \<in> set (b_children (buses t bus))" "(p, r) \<in> set l'"
    "dev_visits (\<lambda>b. bus_visits n t b tm ty) t d tm ty (List.enumerate 0 (d_resource_list (devs t d))) = Some l'"
    using flat_opt_mem [OF Suc.prems(1) [unfolded bus_visits.simps] Suc.prems(2)] by (auto split: if_splits)
  show ?case
    by (rule dev_visits_ptr [OF _ _ d(3) d(2)]) (use Suc.IH in \<open>auto simp: res_ok_def get_res_def in_set_enumerate_eq\<close>)
qed simp


definition reval :: "devtree \<Rightarrow> (res_ptr \<times> resource) list \<Rightarrow> (res_ptr \<times> resource) list" where
  "reval t = map (\<lambda>(p, _). (p, get_res t p))"

lemma reval_simps [simp]:
  "reval t [] = []" "reval t (x # xs) = (fst x, get_res t (fst x)) # reval t xs" "reval t (xs @ ys) = reval t xs @ reval t ys"
  by (auto simp: reval_def case_prod_unfold)

lemma map_fst_reval [simp]: "map fst (reval t l) = map fst l"
  by (simp add: reval_def case_prod_unfold)

lemma dev_visits_shape:
  assumes "same_shape t t'" "tm AND (IORESOURCE_ASSIGNED OR IORESOURCE_STORED) = 0"
  shows "\<forall>(i, r) \<in> set rs. get_res t' (d, i) = r' i \<and> res_core (r' i) = res_core r \<Longrightarrow>
    dev_visits (\<lambda>b. map_option (reval t') (sub b)) t' d tm ty (map (\<lambda>(i, _). (i, r' i)) rs) = map_option (reval t') (dev_visits sub t d tm ty rs)"
proof (induction rs)
  case (Cons x rs)
  obtain i r where x: "x = (i, r)" by (cases x)
  have c: "get_res t' (d, i) = r' i" "core_flags (res_flags (r' i)) = core_flags (res_flags r)" "res_index (r' i) = res_index r"
    using Cons.prems by (auto simp: x res_core_def)
  have f: "res_flags (r' i) AND tm = res_flags r AND tm"
    "res_flags (r' i) AND IORESOURCE_SUBTRACTIVE = res_flags r AND IORESOURCE_SUBTRACTIVE"
    using core_flags_type [OF c(2)] assms(2) by simp_all
  have IH: "dev_visits (\<lambda>b. map_option (reval t') (sub b)) t' d tm ty (map (\<lambda>(i, _). (i, r' i)) rs) = map_option (reval t') (dev_visits sub t d tm ty rs)"
    using Cons by (auto simp: x)
  show ?case
    unfolding x using f c IH
    by (cases "dev_visits sub t d tm ty rs")
      (auto simp: same_shapeD [OF assms(1)] split: option.splits Option.bind_splits)
qed simp

lemma flat_opt_map_cong:
  "(\<And>x. x \<in> set xs \<Longrightarrow> h' x = map_option (reval t') (h x)) \<Longrightarrow> flat_opt h' xs = map_option (reval t') (flat_opt h xs)"
  by (induction xs) (auto split: Option.bind_splits)

lemma bus_visits_shape:
  assumes "same_shape t t'" "tm AND (IORESOURCE_ASSIGNED OR IORESOURCE_STORED) = 0"
  shows "bus_visits n t' bus tm ty = map_option (reval t') (bus_visits n t bus tm ty)"
proof (induction n arbitrary: bus)
  case (Suc n)
  show ?case
    unfolding bus_visits.simps same_shapeD [OF assms(1)]
  proof (rule flat_opt_map_cong)
    fix d
    let ?rs = "d_resource_list (devs t d)" and ?rs' = "d_resource_list (devs t' d)"
    have e: "List.enumerate 0 ?rs' = map (\<lambda>(i, _). (i, ?rs' ! i)) (List.enumerate 0 ?rs)"
      using same_shapeD(4) [OF assms(1), of d] by (simp add: list_eq_iff_nth_eq nth_enumerate_eq)
    have "dev_visits (\<lambda>b. bus_visits n t' b tm ty) t' d tm ty (map (\<lambda>(i, _). (i, ?rs' ! i)) (List.enumerate 0 ?rs))
      = map_option (reval t') (dev_visits (\<lambda>b. bus_visits n t b tm ty) t d tm ty (List.enumerate 0 ?rs))"
      unfolding Suc.IH by (rule dev_visits_shape [OF assms])
        (auto simp: get_res_def in_set_enumerate_eq same_shape_core [OF assms(1)])
    then show "(if \<not> d_enabled (devs t d) then Some [] else dev_visits (\<lambda>b. bus_visits n t' b tm ty) t' d tm ty (List.enumerate 0 ?rs'))
      = map_option (reval t') (if \<not> d_enabled (devs t d) then Some [] else dev_visits (\<lambda>b. bus_visits n t b tm ty) t d tm ty (List.enumerate 0 ?rs))"
      by (simp add: e)
  qed
qed simp

section \<open>The order of allocation\<close>

text \<open>Larger alignment first, then larger size: the order of the keys makes that ascending.\<close>

datatype alloc_key = Alloc_Key (key_align: u8) (key_size: resource_t)

instantiation alloc_key :: linorder
begin

definition less_eq_alloc_key :: "alloc_key \<Rightarrow> alloc_key \<Rightarrow> bool" where
  "less_eq_alloc_key a b \<longleftrightarrow> key_align b < key_align a \<or> key_align a = key_align b \<and> key_size b \<le> key_size a"

definition less_alloc_key :: "alloc_key \<Rightarrow> alloc_key \<Rightarrow> bool" where
  "less_alloc_key a b \<longleftrightarrow> key_align b < key_align a \<or> key_align a = key_align b \<and> key_size b < key_size a"

instance
  by standard (auto simp: less_eq_alloc_key_def less_alloc_key_def alloc_key.expand)

end

definition alloc_key_of :: "devtree \<Rightarrow> res_ptr \<Rightarrow> alloc_key" where
  "alloc_key_of t p = Alloc_Key (res_align (get_res t p)) (res_size (get_res t p))"

lemma alloc_key_less:
  "alloc_key_of t p < alloc_key_of t q \<longleftrightarrow> res_align (get_res t q) < res_align (get_res t p)
     \<or> res_align (get_res t q) = res_align (get_res t p) \<and> res_size (get_res t q) < res_size (get_res t p)"
  "alloc_key_of t p = alloc_key_of t q \<longleftrightarrow> res_align (get_res t q) = res_align (get_res t p)
     \<and> res_size (get_res t q) = res_size (get_res t p)"
  by (auto simp: alloc_key_of_def less_alloc_key_def)

definition is_fixed :: "devtree \<Rightarrow> res_ptr \<Rightarrow> bool" where
  "is_fixed t p \<longleftrightarrow> res_flags (get_res t p) AND IORESOURCE_FIXED \<noteq> 0"

text \<open>The abstract order: a stable sort of the resources that are not fixed.\<close>

definition alloc_order :: "devtree \<Rightarrow> (res_ptr \<times> resource) list \<Rightarrow> res_ptr list" where
  "alloc_order t l = sort_key (alloc_key_of t) (filter (\<lambda>p. \<not> is_fixed t p) (map fst l))"

fun eligible :: "('p \<Rightarrow> 'k::linorder) \<Rightarrow> ('p \<Rightarrow> bool) \<Rightarrow> 'p option \<Rightarrow> bool \<Rightarrow> 'p list \<Rightarrow> 'p list" where
  "eligible K F last' seen [] = []"
| "eligible K F last' seen (p # ps) =
     (if last' = Some p then eligible K F last' True ps
      else if F p then eligible K F last' seen ps
      else if (case last' of None \<Rightarrow> False | Some q \<Rightarrow> K p < K q \<or> K p = K q \<and> \<not> seen) then eligible K F last' seen ps
      else p # eligible K F last' seen ps)"

fun first_min :: "('p \<Rightarrow> 'k::linorder) \<Rightarrow> 'p option \<Rightarrow> 'p list \<Rightarrow> 'p option" where
  "first_min K acc [] = acc"
| "first_min K acc (p # ps) =
     first_min K (Some (case acc of None \<Rightarrow> p | Some q \<Rightarrow> if K p < K q then p else q)) ps"

lemma pick_largest_eq:
  "pick_largest_resource t p (get_res t p) st = Some
     (if pl_last st = Some p then st\<lparr>pl_seen_last := True\<rparr>
      else if is_fixed t p then st
      else if (case pl_last st of None \<Rightarrow> False | Some q \<Rightarrow> alloc_key_of t p < alloc_key_of t q
                 \<or> alloc_key_of t p = alloc_key_of t q \<and> \<not> pl_seen_last st) then st
      else if (case pl_result st of None \<Rightarrow> True | Some q \<Rightarrow> alloc_key_of t p < alloc_key_of t q)
           then st\<lparr>pl_result := Some p\<rparr>
      else st)"
  by (simp add: pick_largest_resource_def alloc_key_less is_fixed_def Let_def disj_assoc conj_assoc cong: option.case_cong)

lemma pick_largest_fold:
  "\<forall>(p, r) \<in> set l. r = get_res t p \<Longrightarrow>
    map_option pl_result (fold_opt (\<lambda>(d, r). pick_largest_resource t d r) l st)
      = Some (first_min (alloc_key_of t) (pl_result st) (eligible (alloc_key_of t) (is_fixed t) (pl_last st) (pl_seen_last st) (map fst l)))"
proof (induction l arbitrary: st)
  case (Cons x l)
  obtain p where x: "x = (p, get_res t p)" using Cons.prems by (cases x) auto
  have IH: "map_option pl_result (fold_opt (\<lambda>(d, r). pick_largest_resource t d r) l st')
      = Some (first_min (alloc_key_of t) (pl_result st') (eligible (alloc_key_of t) (is_fixed t) (pl_last st') (pl_seen_last st') (map fst l)))" for st'
    using Cons by simp
  let ?skip = "case pl_last st of None \<Rightarrow> False | Some q \<Rightarrow> alloc_key_of t p < alloc_key_of t q
     \<or> alloc_key_of t p = alloc_key_of t q \<and> \<not> pl_seen_last st"
  consider "pl_last st = Some p" | "pl_last st \<noteq> Some p" "is_fixed t p \<or> ?skip" | "pl_last st \<noteq> Some p" "\<not> is_fixed t p" "\<not> ?skip" by blast
  then show ?case
  proof cases
    case 3
    then show ?thesis
      unfolding x by (cases "pl_result st") (simp_all add: pick_largest_eq IH)
  qed (auto simp: x pick_largest_eq IH)
qed simp

lemma first_min_hd: "first_min K (Some q) ps = Some (hd (sort_key K (q # ps)))"
proof (induction ps arbitrary: q)
  case (Cons p ps)
  have "hd (insort_key K q (insort_key K p S)) = hd (insort_key K (if K p < K q then p else q) S)" for S
    by (cases S) auto
  with Cons.IH show ?case by simp
qed simp

lemma first_min_None: "first_min K None ps = (if ps = [] then None else Some (hd (sort_key K ps)))"
  by (cases ps) (simp_all add: first_min_hd del: sort_key_simps)

lemma sort_key_Nil_iff [simp]: "sort_key f xs = [] \<longleftrightarrow> xs = []"
  by (metis length_0_conv length_sort)

fun precedes :: "'a list \<Rightarrow> 'a \<Rightarrow> 'a \<Rightarrow> bool" where
  "precedes [] x y = False"
| "precedes (a # xs) x y = (if a = x then y \<in> set xs else precedes xs x y)"

lemma precedes_mem: "precedes xs x y \<Longrightarrow> x \<in> set xs \<and> y \<in> set xs"
  by (induction xs) (auto split: if_splits)

lemma precedes_asym: "distinct xs \<Longrightarrow> precedes xs x y \<Longrightarrow> \<not> precedes xs y x"
  by (induction xs) (auto split: if_splits dest: precedes_mem)

lemma precedes_filter: "precedes (filter Q xs) x y \<Longrightarrow> precedes xs x y"
  by (induction xs) (auto split: if_splits dest: precedes_mem)

definition alloc_before :: "('a \<Rightarrow> 'k::linorder) \<Rightarrow> 'a list \<Rightarrow> 'a \<Rightarrow> 'a \<Rightarrow> bool" where
  "alloc_before K xs x y \<longleftrightarrow> K x < K y \<or> K x = K y \<and> precedes xs x y"

lemma sorted_wrt_insort:
  "sorted_wrt R S \<Longrightarrow> sorted (map K S) \<Longrightarrow> \<forall>y \<in> set S. K x \<le> K y \<longrightarrow> R x y \<Longrightarrow> \<forall>y \<in> set S. K y < K x \<longrightarrow> R y x
    \<Longrightarrow> sorted_wrt R (insort_key K x S)"
  by (induction S) (auto simp: set_insort_key not_le)

lemma sort_key_before: "distinct xs \<Longrightarrow> sorted_wrt (alloc_before K xs) (sort_key K xs)"
proof (induction xs)
  case (Cons x xs)
  have s: "sorted_wrt (alloc_before K (x # xs)) (sort_key K xs)"
    using Cons by (auto intro!: sorted_wrt_mono_rel [OF _ Cons.IH] simp: alloc_before_def)
  show ?case
    unfolding sort_key_simps
    by (rule sorted_wrt_insort [OF s]) (auto simp: alloc_before_def)
qed simp

lemma eligible_None: "eligible K F None seen ps = filter (\<lambda>p. \<not> F p) ps"
  by (induction ps arbitrary: seen) auto

lemma eligible_seen: "q \<notin> set ps \<Longrightarrow> eligible K F (Some q) True ps = filter (\<lambda>p. \<not> F p \<and> K q \<le> K p) ps"
  by (induction ps) (auto simp: not_less)

lemma eligible_Some:
  "distinct ps \<Longrightarrow> eligible K F (Some q) False ps = filter (\<lambda>p. \<not> F p \<and> alloc_before K ps q p) ps"
proof (induction ps)
  case (Cons p ps)
  show ?case
  proof (cases "p = q")
    case True
    then have q: "q \<notin> set ps" using Cons.prems by simp
    have "filter (\<lambda>x. \<not> F x \<and> K q \<le> K x) ps = filter (\<lambda>x. \<not> F x \<and> alloc_before K (q # ps) q x) ps"
      by (rule filter_cong) (auto simp: alloc_before_def)
    then show ?thesis using True q by (simp add: eligible_seen) (simp add: alloc_before_def)
  next
    case False
    have "filter (\<lambda>x. \<not> F x \<and> alloc_before K ps q x) ps = filter (\<lambda>x. \<not> F x \<and> alloc_before K (p # ps) q x) ps"
      using False by (intro filter_cong) (auto simp: alloc_before_def)
    then show ?thesis
      using False Cons by (auto simp: alloc_before_def dest: precedes_mem)
  qed
qed simp

lemma filter_after:
  "sorted_wrt R S \<Longrightarrow> (\<And>x y. R x y \<Longrightarrow> \<not> R y x) \<Longrightarrow> i < length S \<Longrightarrow> filter (R (S ! i)) S = drop (Suc i) S"
proof (induction S arbitrary: i)
  case (Cons s S)
  show ?case
  proof (cases i)
    case 0
    have "\<not> R s s" using Cons.prems(2) by blast
    then show ?thesis using Cons.prems(1) 0 by (simp add: filter_id_conv)
  next
    case (Suc j)
    then have "R s (S ! j)" using Cons.prems by simp
    then have "\<not> R (S ! j) s" using Cons.prems(2) by blast
    then show ?thesis using Cons.IH [of j] Cons.prems Suc by simp
  qed
qed simp

lemma next_in_order:
  fixes K :: "'p \<Rightarrow> 'k::linorder"
  assumes "distinct ps" and "i < length (sort_key K (filter (\<lambda>p. \<not> F p) ps))"
  defines "S \<equiv> sort_key K (filter (\<lambda>p. \<not> F p) ps)"
  shows "sort_key K (eligible K F (Some (S ! i)) False ps) = drop (Suc i) S"
proof -
  let ?R = "alloc_before K ps"
  have asym: "\<And>x y. ?R x y \<Longrightarrow> \<not> ?R y x" using precedes_asym [OF assms(1)] by (auto simp: alloc_before_def)
  have "sorted_wrt (alloc_before K (filter (\<lambda>p. \<not> F p) ps)) S"
    unfolding S_def by (rule sort_key_before) (simp add: assms(1))
  then have "sorted_wrt ?R S"
    by (rule sorted_wrt_mono_rel [rotated]) (auto simp: alloc_before_def dest: precedes_filter)
  then have "filter (?R (S ! i)) S = drop (Suc i) S"
    using asym assms(2) unfolding S_def [symmetric] by (rule filter_after)
  moreover have "eligible K F (Some (S ! i)) False ps = filter (?R (S ! i)) (filter (\<lambda>p. \<not> F p) ps)"
    by (simp add: eligible_Some [OF assms(1)] conj_commute)
  ultimately show ?thesis unfolding S_def by (simp add: filter_sort)
qed

lemma largest_resource_next:
  assumes "bus_visits n t bus tm ty = Some l" "distinct (map fst l)"
  shows "largest_resource n t bus None tm ty = Some (case alloc_order t l of [] \<Rightarrow> None | p # _ \<Rightarrow> Some p)"
    and "i < length (alloc_order t l) \<Longrightarrow> largest_resource n t bus (Some (alloc_order t l ! i)) tm ty
      = Some (if Suc i < length (alloc_order t l) then Some (alloc_order t l ! Suc i) else None)"
proof -
  let ?K = "alloc_key_of t" and ?F = "is_fixed t"
  have v: "\<forall>(p, r) \<in> set l. r = get_res t p" using bus_visits_ptr [OF assms(1)] by auto
  have fm: "largest_resource n t bus q tm ty = Some (first_min ?K None (eligible ?K ?F q False (map fst l)))" for q
    using pick_largest_fold [OF v, of "\<lparr>pl_last = q, pl_result = None, pl_seen_last = False\<rparr>"]
    by (auto simp: largest_resource_def search_bus_resources_fold assms(1))
  show "largest_resource n t bus None tm ty = Some (case alloc_order t l of [] \<Rightarrow> None | p # _ \<Rightarrow> Some p)"
    unfolding fm first_min_None eligible_None alloc_order_def [symmetric]
    by (cases "alloc_order t l") (auto simp: alloc_order_def sort_key_Nil_iff)
  assume i: "i < length (alloc_order t l)"
  have n: "sort_key ?K (eligible ?K ?F (Some (alloc_order t l ! i)) False (map fst l)) = drop (Suc i) (alloc_order t l)"
    unfolding alloc_order_def by (rule next_in_order [OF assms(2)]) (use i in \<open>simp add: alloc_order_def\<close>)
  have e: "eligible ?K ?F (Some (alloc_order t l ! i)) False (map fst l) = [] \<longleftrightarrow> drop (Suc i) (alloc_order t l) = []"
    using arg_cong [OF n, of length] by auto
  show "largest_resource n t bus (Some (alloc_order t l ! i)) tm ty
      = Some (if Suc i < length (alloc_order t l) then Some (alloc_order t l ! Suc i) else None)"
    unfolding fm first_min_None e n by (simp add: hd_drop_conv_nth)
qed

section \<open>The loop over a bus\<close>

definition same_keys :: "(res_ptr \<times> resource) list \<Rightarrow> devtree \<Rightarrow> devtree \<Rightarrow> bool" where
  "same_keys l t t' \<longleftrightarrow> same_shape t t' \<and> (\<forall>p \<in> set (map fst l). alloc_key_of t' p = alloc_key_of t p)"

abbreviation plain_mask :: "u32 \<Rightarrow> bool" where
  "plain_mask m \<equiv> m AND (IORESOURCE_ASSIGNED OR IORESOURCE_STORED) = 0"

lemma shape_flags:
  assumes "same_shape t t'" "res_ok t p" "plain_mask m"
  shows "res_flags (get_res t' p) AND m = res_flags (get_res t p) AND m"
proof -
  have "res_core (get_res t' p) = res_core (get_res t p)"
    using same_shape_core [OF assms(1)] assms(2) by (simp add: get_res_def res_ok_def)
  then show ?thesis using assms(3) by (intro core_flags_type) (simp_all add: res_core_def)
qed

lemma insort_key_cong_set: "\<forall>y \<in> insert x (set S). f y = g y \<Longrightarrow> insort_key f x S = insort_key g x S"
  by (induction S) auto

lemma sort_key_cong_set: "\<forall>x \<in> set xs. f x = g x \<Longrightarrow> sort_key f xs = sort_key g xs"
  by (induction xs) (simp_all add: insort_key_cong_set)

lemma alloc_order_same_keys:
  assumes "bus_visits n t bus tm ty = Some l" "same_keys l t t'"
  shows "alloc_order t' (reval t' l) = alloc_order t l"
proof -
  have ok: "p \<in> set (map fst l) \<Longrightarrow> res_ok t p" for p using bus_visits_ptr [OF assms(1)] by auto
  have "filter (\<lambda>p. \<not> is_fixed t' p) (map fst l) = filter (\<lambda>p. \<not> is_fixed t p) (map fst l)"
  proof (rule filter_cong)
    fix p assume "p \<in> set (map fst l)"
    then have "res_flags (get_res t' p) AND IORESOURCE_FIXED = res_flags (get_res t p) AND IORESOURCE_FIXED"
      using ok assms(2) unfolding same_keys_def by (intro shape_flags) simp_all
    then show "(\<not> is_fixed t' p) = (\<not> is_fixed t p)" by (simp only: is_fixed_def)
  qed simp
  moreover have "\<forall>p \<in> set (filter (\<lambda>p. \<not> is_fixed t p) (map fst l)). alloc_key_of t' p = alloc_key_of t p"
    using assms(2) unfolding same_keys_def by fastforce
  ultimately show ?thesis
    unfolding alloc_order_def map_fst_reval by (metis sort_key_cong_set)
qed

lemma each_largest_drop:
  assumes "bus_visits n t bus tm ty = Some l" "distinct (map fst l)" "plain_mask tm"
    and body: "\<And>p s. p \<in> set (alloc_order t l) \<Longrightarrow> same_keys l t (fst s) \<Longrightarrow> same_keys l t (fst (body p s))"
  shows "length (alloc_order t l) < k + i \<Longrightarrow> i \<le> length (alloc_order t l) \<Longrightarrow> same_keys l t (fst s) \<Longrightarrow>
    each_largest k n bus tm ty body (if i = 0 then None else Some (alloc_order t l ! (i - 1))) s = Some (fold body (drop i (alloc_order t l)) s)"
proof (induction k arbitrary: i s)
  case (Suc k)
  let ?ps = "alloc_order t l" and ?t = "fst s"
  have v: "bus_visits n ?t bus tm ty = Some (reval ?t l)"
    using bus_visits_shape [OF _ assms(3), of t ?t] Suc.prems(3) assms(1) by (simp add: same_keys_def)
  have d: "distinct (map fst (reval ?t l))" and o: "alloc_order ?t (reval ?t l) = ?ps"
    using assms(2) alloc_order_same_keys [OF assms(1) Suc.prems(3)] by simp_all
  have nx: "largest_resource n ?t bus (if i = 0 then None else Some (?ps ! (i - 1))) tm ty
      = Some (if i < length ?ps then Some (?ps ! i) else None)"
  proof (cases i)
    case 0
    then show ?thesis using largest_resource_next(1) [OF v d] by (cases ?ps) (simp_all add: o)
  next
    case (Suc j)
    then show ?thesis using largest_resource_next(2) [OF v d, of j] \<open>i \<le> length ?ps\<close> by (simp add: o)
  qed
  show ?case
  proof (cases "i < length ?ps")
    case True
    have "each_largest k n bus tm ty body (Some (?ps ! i)) (body (?ps ! i) s) = Some (fold body (drop (Suc i) ?ps) (body (?ps ! i) s))"
      using Suc.IH [of "Suc i" "body (?ps ! i) s"] Suc.prems True body by simp
    then show ?thesis using nx True by (simp add: Cons_nth_drop_Suc [OF True, symmetric])
  next
    case False
    then show ?thesis using nx Suc.prems(2) by simp
  qed
qed simp

lemma each_largest_fold:
  assumes "bus_visits n t bus tm ty = Some l" "distinct (map fst l)" "plain_mask tm"
    and "\<And>p s. p \<in> set (alloc_order t l) \<Longrightarrow> same_keys l t (fst s) \<Longrightarrow> same_keys l t (fst (body p s))"
    and "length (alloc_order t l) < k"
  shows "each_largest k n bus tm ty body None (t, x) = Some (fold body (alloc_order t l) (t, x))"
  using each_largest_drop [OF assms(1-4), where k = k and i = 0 and s = "(t, x)"] assms(5) by (simp add: same_keys_def)

lemma set_alloc_order: "p \<in> set (alloc_order t l) \<longleftrightarrow> p \<in> set (map fst l) \<and> \<not> is_fixed t p"
  by (auto simp: alloc_order_def)

lemma distinct_alloc_order: "distinct (map fst l) \<Longrightarrow> distinct (alloc_order t l)"
  by (simp add: alloc_order_def)

section \<open>Rounding and skipping, as natural numbers\<close>

lemma round_up_align_up: "round_up v n = align_up v n"
  by (simp add: round_up_def align_up_def)

definition ceil_pow :: "nat \<Rightarrow> nat \<Rightarrow> nat" where
  "ceil_pow x n = (x + (2 ^ n - 1)) div 2 ^ n * 2 ^ n"

lemma ceil_pow_ge: "x \<le> ceil_pow x n" and ceil_pow_less: "ceil_pow x n < x + 2 ^ n"
  using ceil_div_mult_less [of "2 ^ n" x] by (simp_all add: ceil_pow_def)

lemma ceil_pow_dvd: "2 ^ n dvd ceil_pow x n"
  by (simp add: ceil_pow_def)

lemma ceil_pow_shift: "2 ^ n dvd b \<Longrightarrow> ceil_pow (b + x) n = b + ceil_pow x n"
  by (auto simp: ceil_pow_def add.assoc div_plus_div_distrib_dvd_left distrib_right elim!: dvdE)

lemma unat_round_up:
  assumes "n < 64" "unat v + 2 ^ n \<le> 2 ^ 64"
  shows "unat (round_up v n) = ceil_pow (unat v) n"
proof -
  have "round_up v n = ALIGN_UP v (2 ^ n)"
    by (simp add: round_up_def ALIGN_UP_def ALIGN_MASK_def Let_def push_bit_eq_mult)
  then show ?thesis using unat_ALIGN_UP_no_wrap [of n v] assms by (simp add: ceil_pow_def)
qed

lemma io_skip_bounds:
  assumes "unat v + 0x400 < 2 ^ 64"
  shows "unat v \<le> unat (io_skip v)" "unat (io_skip v) \<le> unat v + 0x400"
proof -
  have m: "(- 1024::u64) = NOT (mask 10)" by (simp add: mask_eq_exp_minus_1)
  have a: "unat (v AND - 1024) = unat v div 1024 * 1024" unfolding m unat_and_not_mask by simp
  have "unat ((v AND NOT 0x3ff) + 0x400) = unat v div 1024 * 1024 + 1024"
    using assms div_times_less_eq_dividend [of "unat v" 1024] by (simp add: unat_add_no_wrap a)
  moreover have "unat v < unat v div 1024 * 1024 + 1024" "unat v div 1024 * 1024 \<le> unat v"
    using div_mult_mod_eq [of "unat v" 1024] by (simp_all add: dividend_less_div_times)
  moreover have "unat v \<le> 0x3e0 \<and> 0x3e0 \<le> unat v + 0x400" if "0x3b0 \<le> v \<and> v \<le> 0x3df"
    using that by (simp add: word_le_nat_alt)
  ultimately show "unat v \<le> unat (io_skip v)" "unat (io_skip v) \<le> unat v + 0x400"
    by (auto simp: io_skip_def)
qed

section \<open>Allocation on one bus\<close>

definition small_space :: "devtree \<Rightarrow> res_ptr list \<Rightarrow> bool" where
  "small_space t ps \<longleftrightarrow> (\<forall>p \<in> set ps. unat (res_align (get_res t p)) < 62 \<and> unat (res_size (get_res t p)) < 2 ^ 62)"

definition assigned :: "devtree \<Rightarrow> res_ptr \<Rightarrow> bool" where
  "assigned t p \<longleftrightarrow> res_flags (get_res t p) AND IORESOURCE_ASSIGNED \<noteq> 0"

definition res_end :: "devtree \<Rightarrow> res_ptr \<Rightarrow> nat" where
  "res_end t p = unat (res_base (get_res t p)) + unat (res_size (get_res t p))"

lemma or_assigned: "((f OR IORESOURCE_ASSIGNED) AND NOT IORESOURCE_STORED) AND IORESOURCE_ASSIGNED \<noteq> (0::u32)"
proof -
  have "IORESOURCE_ASSIGNED = (2 ^ 30 :: u32)" "IORESOURCE_STORED = (2 ^ 29 :: u32)" by simp_all
  then have "bit (((f OR IORESOURCE_ASSIGNED) AND NOT IORESOURCE_STORED) AND IORESOURCE_ASSIGNED) 30"
    by (simp only: bit_and_iff bit_or_iff bit_not_iff bit_exp_iff) simp
  then show ?thesis by (metis bit_0_eq bot_apply bot_bool_def)
qed

lemma core_flags_assign:
  "core_flags ((f OR IORESOURCE_ASSIGNED) AND NOT IORESOURCE_STORED) = core_flags f" "core_flags (f OR IORESOURCE_ASSIGNED) = core_flags f"
  unfolding core_flags_def by (rule bit_word_eqI; simp only: bit_and_iff bit_or_iff bit_not_iff; blast)+

definition io_base :: "resource \<Rightarrow> resource_t \<Rightarrow> resource_t" where
  "io_base r b = (if res_flags r AND IORESOURCE_IO \<noteq> 0 then io_skip b else b)"

lemma io_base_le:
  assumes "unat b \<le> 2 ^ 62"
  shows "unat b \<le> unat (io_base r b)" "unat (io_base r b) \<le> 2 ^ 62" "unat (io_base r b) \<le> unat b + 0x400"
proof -
  show "unat b \<le> unat (io_base r b)" "unat (io_base r b) \<le> unat b + 0x400"
    using io_skip_bounds [of b] assms(1) by (auto simp: io_base_def)
  have m: "(- 1024::u64) = NOT (mask 10)" by (simp add: mask_eq_exp_minus_1)
  have a: "unat (b AND - 1024) = unat b div 1024 * 1024" unfolding m unat_and_not_mask by simp
  show "unat (io_base r b) \<le> 2 ^ 62"
  proof (cases "unat b < 2 ^ 62")
    case True
    then have "unat b div 1024 < 2 ^ 52" by (simp add: less_mult_imp_div_less)
    then have "unat ((b AND - 1024) + 0x400) \<le> 2 ^ 62" by (subst unat_add_no_wrap) (simp_all add: a)
    then show ?thesis using assms by (simp add: io_base_def io_skip_def)
  next
    case False
    then have "b = 2 ^ 62" using assms by (simp add: word_unat_eq_iff unat_power_2)
    then show ?thesis by (simp add: io_base_def io_skip_def)
  qed
qed

lemma round_io_base:
  assumes "unat b \<le> 2 ^ 62" "n < 62"
  shows "unat (round_up (io_base r b) n) = ceil_pow (unat (io_base r b)) n" "unat b \<le> unat (round_up (io_base r b) n)"
    "unat (round_up (io_base r b) n) < 2 ^ 62 + 0x400 + 2 ^ 62"
proof -
  note l = io_base_le(1,3) [OF assms(1), of r]
  have p: "(2::nat) ^ n \<le> 2 ^ 62" using assms(2) by (intro power_increasing) simp_all
  show u: "unat (round_up (io_base r b) n) = ceil_pow (unat (io_base r b)) n"
    using assms p l by (intro unat_round_up) simp_all
  show "unat b \<le> unat (round_up (io_base r b) n)" unfolding u using ceil_pow_ge [of "unat (io_base r b)" n] l by linarith
  show "unat (round_up (io_base r b) n) < 2 ^ 62 + 0x400 + 2 ^ 62"
    unfolding u using ceil_pow_less [of "unat (io_base r b)" n] l p assms(1) by linarith
qed

lemma fits_iff:
  assumes "unat (x::u64) < 2 ^ 62 + 0x400 + 2 ^ 62" "unat (y::u64) < 2 ^ 62" "0 < y"
  shows "x + y - 1 \<le> l \<longleftrightarrow> unat x + unat y \<le> unat l + 1" "unat (x + y) = unat x + unat y"
proof -
  show u: "unat (x + y) = unat x + unat y" using assms by (intro unat_add_no_wrap) simp
  have "0 < unat (x + y)" using assms(3) u by (simp add: word_less_nat_alt)
  then show "x + y - 1 \<le> l \<longleftrightarrow> unat x + unat y \<le> unat l + 1"
    using u by (auto simp: word_le_nat_alt unat_minus_one_pos word_less_nat_alt)
qed

lemma allocate_one_spec:
  assumes "res_ok t p" "p \<noteq> bridge" "small_space t [p]" "unat (res_limit (get_res t bridge)) < 2 ^ 62" "unat b \<le> 2 ^ 62"
    and step: "allocate_one bridge p (t, b) = (t', b')"
  shows "(\<forall>q. q \<noteq> p \<longrightarrow> get_res t' q = get_res t q) \<and> same_shape t t'
    \<and> res_align (get_res t' p) = res_align (get_res t p) \<and> res_size (get_res t' p) = res_size (get_res t p)
    \<and> unat b \<le> unat b' \<and> unat b' \<le> 2 ^ 62
    \<and> (res_size (get_res t p) \<noteq> 0 \<longrightarrow>
        b' = io_base (get_res t p) b \<and> res_base (get_res t' p) = res_base (get_res t p) \<and> res_flags (get_res t' p) = res_flags (get_res t p)
        \<and> \<not> unat (round_up (io_base (get_res t p) b) (unat (res_align (get_res t p)))) + unat (res_size (get_res t p))
            \<le> min (unat (res_limit (get_res t p))) (unat (res_limit (get_res t bridge))) + 1
      \<or> assigned t' p \<and> res_base (get_res t' p) = round_up (io_base (get_res t p) b) (unat (res_align (get_res t p)))
        \<and> unat b' = res_end t' p \<and> res_end t' p \<le> min (unat (res_limit (get_res t p))) (unat (res_limit (get_res t bridge))) + 1)"
proof -
  let ?r = "get_res t p" and ?L = "res_limit (get_res t bridge)"
  let ?lim = "if ?L < res_limit ?r then ?L else res_limit ?r"
  let ?r1 = "?r\<lparr>res_limit := ?lim\<rparr>" and ?x = "round_up (io_base ?r b) (unat (res_align ?r))"
  obtain t1 where t1: "t1 = (if ?L < res_limit ?r then upd_res p (\<lambda>r. r\<lparr>res_limit := ?L\<rparr>) t else t)" by blast
  have g1: "get_res t1 q = (if q = p then ?r1 else get_res t q)" for q
    using get_upd_res [OF assms(1)] by (simp add: t1)
  have ok1: "res_ok t1 p" using assms(1) by (simp add: t1)
  have s1: "same_shape t t1" by (simp add: t1 same_shape_upd res_core_def)
  have m: "unat ?lim = min (unat (res_limit ?r)) (unat ?L)" by (auto simp: word_less_nat_alt)
  have a: "unat (res_align ?r) < 62" "unat (res_size ?r) < 2 ^ 62" using assms(3) by (simp_all add: small_space_def)
  note x = round_io_base [OF assms(5) a(1), of ?r]
  have step1: "allocate_one bridge p (t, b) =
     (if res_size ?r = 0 then (upd_res p (\<lambda>r. r\<lparr>res_base := res_limit r, res_flags := res_flags r OR IORESOURCE_ASSIGNED\<rparr>) t1, b)
      else if ?x + res_size ?r - 1 \<le> ?lim then
        (upd_res p (\<lambda>r. r\<lparr>res_base := ?x, res_flags := (res_flags r OR IORESOURCE_ASSIGNED) AND NOT IORESOURCE_STORED\<rparr>) t1, ?x + res_size ?r)
      else (t1, io_base ?r b))"
    using assms(2) unfolding allocate_one_def prod.case t1 [symmetric] Let_def g1 by (simp add: io_base_def)
  consider (zero) "res_size ?r = 0" | (fits) "res_size ?r \<noteq> 0" "?x + res_size ?r - 1 \<le> ?lim" | (fail) "res_size ?r \<noteq> 0" "\<not> ?x + res_size ?r - 1 \<le> ?lim" by blast
  then show ?thesis
  proof cases
    case zero
    then have t': "t' = upd_res p (\<lambda>r. r\<lparr>res_base := res_limit r, res_flags := res_flags r OR IORESOURCE_ASSIGNED\<rparr>) t1" "b' = b"
      using step step1 by simp_all
    have "same_shape t1 t'" unfolding t' by (rule same_shape_upd) (simp add: res_core_def core_flags_assign)
    then show ?thesis using zero assms(5) same_shape_trans [OF s1] unfolding t' by (simp add: get_upd_res [OF ok1] g1)
  next
    case fits
    then have t': "t' = upd_res p (\<lambda>r. r\<lparr>res_base := ?x, res_flags := (res_flags r OR IORESOURCE_ASSIGNED) AND NOT IORESOURCE_STORED\<rparr>) t1"
      "b' = ?x + res_size ?r" using step step1 by simp_all
    have "0 < res_size ?r" using fits(1) by (simp add: word_neq_0_conv)
    note f = fits_iff [OF x(3) a(2) this]
    have "same_shape t1 t'" unfolding t' by (rule same_shape_upd) (simp add: res_core_def core_flags_assign [simplified])
    moreover have "unat ?x + unat (res_size ?r) \<le> unat ?lim + 1" using fits(2) f(1) by simp
    moreover have g': "get_res t' q = (if q = p then ?r1\<lparr>res_base := ?x, res_flags := (res_flags ?r OR IORESOURCE_ASSIGNED) AND NOT IORESOURCE_STORED\<rparr>
        else get_res t q)" for q unfolding t' by (simp add: get_upd_res [OF ok1] g1)
    moreover have "assigned t' p" using or_assigned [of "res_flags ?r"] by (simp add: assigned_def g')
    moreover have "unat b' = unat ?x + unat (res_size ?r)" using f(2) t' by simp
    ultimately show ?thesis
      using same_shape_trans [OF s1] x(2) assms(4) m by (simp add: res_end_def min_def split: if_splits)
  next
    case fail
    then have t': "t' = t1" "b' = io_base ?r b" using step step1 by simp_all
    have "0 < res_size ?r" using fail(1) by (simp add: word_neq_0_conv)
    note f = fits_iff [OF x(3) a(2) this]
    have "\<not> unat ?x + unat (res_size ?r) \<le> unat ?lim + 1" using fail(2) f(1) by simp
    then show ?thesis using s1 io_base_le [OF assms(5), of ?r] m unfolding t' by (simp add: g1)
  qed
qed

definition placed :: "devtree \<Rightarrow> res_ptr \<Rightarrow> bool" where
  "placed t p \<longleftrightarrow> res_size (get_res t p) \<noteq> 0 \<and> assigned t p"

definition same_size :: "devtree \<Rightarrow> devtree \<Rightarrow> res_ptr \<Rightarrow> bool" where
  "same_size t t' p \<longleftrightarrow> res_align (get_res t' p) = res_align (get_res t p) \<and> res_size (get_res t' p) = res_size (get_res t p)"

definition lowest_limit :: "devtree \<Rightarrow> res_ptr \<Rightarrow> res_ptr \<Rightarrow> nat" where
  "lowest_limit t bridge p = min (unat (res_limit (get_res t p))) (unat (res_limit (get_res t bridge)))"

lemma allocate_loop:
  assumes "distinct ps" "\<forall>p \<in> set ps. res_ok t p \<and> \<not> assigned t p" "bridge \<notin> set ps" "small_space t ps"
    and "unat (res_limit (get_res t bridge)) < 2 ^ 62" "unat b \<le> 2 ^ 62"
    and "fold (allocate_one bridge) ps (t, b) = (t', b')"
  shows "(\<forall>q. q \<notin> set ps \<longrightarrow> get_res t' q = get_res t q) \<and> same_shape t t' \<and> (\<forall>p \<in> set ps. same_size t t' p)
    \<and> unat b \<le> unat b' \<and> unat b' \<le> 2 ^ 62
    \<and> (\<forall>p \<in> set ps. placed t' p \<longrightarrow> unat b \<le> unat (res_base (get_res t' p)) \<and> res_end t' p \<le> unat b'
         \<and> 2 ^ unat (res_align (get_res t p)) dvd unat (res_base (get_res t' p)) \<and> res_end t' p \<le> lowest_limit t bridge p + 1)
    \<and> sorted_wrt (\<lambda>p q. placed t' p \<longrightarrow> placed t' q \<longrightarrow> res_end t' p \<le> unat (res_base (get_res t' q))) ps"
  using assms
proof (induction ps arbitrary: t b)
  case (Cons p ps)
  obtain t1 b1 where step: "allocate_one bridge p (t, b) = (t1, b1)" by (cases "allocate_one bridge p (t, b)")
  have p: "res_ok t p" "p \<noteq> bridge" "small_space t [p]" "p \<notin> set ps" using Cons.prems by (auto simp: small_space_def)
  note one = allocate_one_spec [OF p(1-3) Cons.prems(5,6) step]
  have eq: "get_res t1 q = get_res t q" if "q \<noteq> p" for q using one that by blast
  have ps: "\<forall>q \<in> set ps. get_res t1 q = get_res t q" using p(4) eq by metis
  have br: "get_res t1 bridge = get_res t bridge" using p(2) eq by metis
  have "\<forall>q \<in> set ps. res_ok t1 q \<and> \<not> assigned t1 q" "small_space t1 ps"
    using Cons.prems(2,4) ps one by (auto simp: assigned_def small_space_def res_ok_shape [of t t1])
  then have IH: "(\<forall>q. q \<notin> set ps \<longrightarrow> get_res t' q = get_res t1 q) \<and> same_shape t1 t' \<and> (\<forall>p \<in> set ps. same_size t1 t' p)
    \<and> unat b1 \<le> unat b' \<and> unat b' \<le> 2 ^ 62
    \<and> (\<forall>p \<in> set ps. placed t' p \<longrightarrow> unat b1 \<le> unat (res_base (get_res t' p)) \<and> res_end t' p \<le> unat b'
         \<and> 2 ^ unat (res_align (get_res t1 p)) dvd unat (res_base (get_res t' p)) \<and> res_end t' p \<le> lowest_limit t1 bridge p + 1)
    \<and> sorted_wrt (\<lambda>p q. placed t' p \<longrightarrow> placed t' q \<longrightarrow> res_end t' p \<le> unat (res_base (get_res t' q))) ps"
    using Cons.prems one step br by (intro Cons.IH) auto
  have p': "get_res t' p = get_res t1 p" using IH p(4) by metis
  have head: "unat b \<le> unat (res_base (get_res t1 p)) \<and> res_end t' p = unat b1
      \<and> 2 ^ unat (res_align (get_res t p)) dvd unat (res_base (get_res t1 p)) \<and> res_end t' p \<le> lowest_limit t bridge p + 1"
    if pl: "placed t' p"
  proof -
    have "res_size (get_res t p) \<noteq> 0" "assigned t1 p" using pl p' one by (auto simp: placed_def assigned_def)
    moreover have "\<not> assigned t p" using Cons.prems(2) by simp
    ultimately have a: "res_base (get_res t1 p) = round_up (io_base (get_res t p) b) (unat (res_align (get_res t p)))"
        "unat b1 = res_end t1 p" "res_end t1 p \<le> lowest_limit t bridge p + 1"
      using one unfolding assigned_def lowest_limit_def by metis+
    have "unat (res_align (get_res t p)) < 62" using p(3) by (simp add: small_space_def)
    note r = round_io_base [OF Cons.prems(6) this, of "get_res t p"]
    show ?thesis using a r ceil_pow_dvd by (simp add: res_end_def p')
  qed
  have "same_size t t' p" using one p' by (simp add: same_size_def)
  moreover have "\<forall>q \<in> set ps. same_size t t' q" "\<forall>q \<in> set ps. lowest_limit t1 bridge q = lowest_limit t bridge q"
    using IH ps br by (auto simp: same_size_def lowest_limit_def)
  moreover have "same_shape t t'" using IH one same_shape_trans by blast
  moreover have "\<forall>q. q \<notin> set (p # ps) \<longrightarrow> get_res t' q = get_res t q" using IH eq by simp
  moreover have "\<forall>q \<in> set ps. placed t' p \<longrightarrow> placed t' q \<longrightarrow> res_end t' p \<le> unat (res_base (get_res t' q))"
    using IH head by auto
  moreover have "unat b \<le> unat b1" using one by blast
  ultimately show ?case
    using IH head ps p' by (auto intro: order_trans)
qed simp

lemma get_upd_res_other: "q \<noteq> p \<Longrightarrow> get_res (upd_res p f t) q = get_res t q"
  by (cases p; cases q) (auto simp: get_res_def upd_res_def)

lemma same_keys_upd:
  assumes "same_keys l t t'" "res_core (f (get_res t' p)) = res_core (get_res t' p)"
    and "p \<in> set (map fst l) \<Longrightarrow> res_ok t' p \<and> res_align (f (get_res t' p)) = res_align (get_res t' p) \<and> res_size (f (get_res t' p)) = res_size (get_res t' p)"
  shows "same_keys l t (upd_res p f t')"
proof -
  have s: "same_shape t (upd_res p f t')"
    using assms(1) same_shape_upd [of f t' p, OF assms(2)] same_shape_trans unfolding same_keys_def by blast
  have "alloc_key_of (upd_res p f t') q = alloc_key_of t' q" if "q \<in> set (map fst l)" for q
    using assms(3) that by (cases "q = p") (auto simp: alloc_key_of_def get_upd_res get_upd_res_other)
  then show ?thesis using s assms(1) unfolding same_keys_def by simp
qed

lemma same_keys_ok:
  "bus_visits n t bus tm ty = Some l \<Longrightarrow> same_keys l t t' \<Longrightarrow> p \<in> set (map fst l) \<Longrightarrow> res_ok t' p"
  using bus_visits_ptr [of n t bus tm ty l p] res_ok_shape [of t t' p] by (auto simp: same_keys_def)

lemma same_keys_if: "(c \<Longrightarrow> same_keys l t a) \<Longrightarrow> (\<not> c \<Longrightarrow> same_keys l t b) \<Longrightarrow> same_keys l t (if c then a else b)"
  by simp

lemma allocate_one_keys:
  assumes v: "bus_visits n t bus tm ty = Some l" and k: "same_keys l t (fst s)"
  shows "same_keys l t (fst (allocate_one bridge p s))"
proof -
  obtain u b where s: "s = (u, b)" by (cases s)
  have upd: "same_keys l t (upd_res p f w)"
    if "same_keys l t w" "\<And>r. res_core (f r) = res_core r \<and> res_align (f r) = res_align r \<and> res_size (f r) = res_size r" for f w
    using that same_keys_ok [OF v that(1), of p] by (intro same_keys_upd) auto
  have u1: "same_keys l t (if res_limit (get_res u bridge) < res_limit (get_res u p)
      then upd_res p (\<lambda>r. r\<lparr>res_limit := res_limit (get_res u bridge)\<rparr>) u else u)"
    using k by (intro same_keys_if upd) (simp_all add: s res_core_def)
  show ?thesis
    unfolding allocate_one_def s prod.case Let_def
    using u1 upd [OF u1] by (simp add: res_core_def core_flags_assign core_flags_assign [simplified])
qed

lemma compute_one_keys:
  assumes v: "bus_visits n t bus tm ty = Some l" and k: "same_keys l t (fst s)" and b: "bridge \<notin> set (map fst l)"
  shows "same_keys l t (fst (compute_one bridge p s))"
proof -
  obtain u b where s: "s = (u, b)" by (cases s)
  have bridge: "same_keys l t w \<Longrightarrow> (\<And>r. res_core (f r) = res_core r) \<Longrightarrow> same_keys l t (upd_res bridge f w)" for f w
    using b by (intro same_keys_upd) auto
  have base: "same_keys l t w \<Longrightarrow> same_keys l t (upd_res p (\<lambda>r. r\<lparr>res_base := x\<rparr>) w)" for w x
    using same_keys_ok [OF v, of w p] by (intro same_keys_upd) (auto simp: res_core_def)
  show ?thesis
    unfolding compute_one_def s prod.case Let_def if_distrib [of fst] fst_conv
    using k by (intro same_keys_if base bridge) (simp_all add: s res_core_def)
qed

lemma length_alloc_order: "length (alloc_order t l) \<le> length l"
  unfolding alloc_order_def by (simp add: le_trans [OF length_filter_le])

lemma alloc_order_ok:
  "bus_visits n t bus tm ty = Some l \<Longrightarrow> p \<in> set (alloc_order t l) \<Longrightarrow> res_ok t p"
  using bus_visits_ptr [of n t bus tm ty l p] by (auto simp: set_alloc_order)

section \<open>Properties of one bus\<close>

text \<open>
  C21.  The loop \<^verbatim>\<open>while (largest_resource(...))\<close> of the allocator runs through the resources of
  a bus that are not fixed in the order of a stable sort, larger alignment first and larger
  size next: it starts with the first of that order, each call gives the next one, and the
  last call gives NULL.  So every resource is taken exactly once and the loop ends.
\<close>
theorem largest_resource_order:
  assumes "bus_visits n t bus tm ty = Some l" and "distinct (map fst l)"
  defines "ps \<equiv> sort_key (alloc_key_of t) (filter (\<lambda>p. res_flags (get_res t p) AND IORESOURCE_FIXED = 0) (map fst l))"
  shows "largest_resource n t bus None tm ty = Some (case ps of [] \<Rightarrow> None | p # _ \<Rightarrow> Some p)
    \<and> (\<forall>i < length ps. largest_resource n t bus (Some (ps ! i)) tm ty = Some (if Suc i < length ps then Some (ps ! Suc i) else None))"
proof -
  have "ps = alloc_order t l" by (simp add: ps_def alloc_order_def is_fixed_def)
  then show ?thesis using largest_resource_next [OF assms(1,2)] by simp
qed

text \<open>
  C1.  One run of the allocation loop over a bus ends, and of the resources it places every
  two are disjoint, each is aligned as it asks, starts at or above the base of the bridge
  and ends at or below its own limit and the bridge's.  Resources elsewhere stay as they are.
\<close>
theorem allocate_bus_disjoint:
  assumes "bus_visits n t bus tm ty = Some l" "distinct (map fst l)" "plain_mask tm" "length l < k" "bridge \<notin> set (map fst l)"
    and "small_space t (map fst l)" "\<forall>p \<in> set (map fst l). \<not> assigned t p"
    and "unat (res_limit (get_res t bridge)) < 2 ^ 62" "unat (res_base (get_res t bridge)) \<le> 2 ^ 62"
  shows "\<exists>t' b'. each_largest k n bus tm ty (allocate_one bridge) None (t, res_base (get_res t bridge)) = Some (t', b')
    \<and> (\<forall>p \<in> set (alloc_order t l). placed t' p \<longrightarrow>
         res_base (get_res t bridge) \<le> res_base (get_res t' p)
         \<and> 2 ^ unat (res_align (get_res t p)) dvd unat (res_base (get_res t' p))
         \<and> unat (res_base (get_res t' p)) + unat (res_size (get_res t p))
             \<le> min (unat (res_limit (get_res t p))) (unat (res_limit (get_res t bridge))) + 1)
    \<and> (\<forall>p \<in> set (alloc_order t l). \<forall>q \<in> set (alloc_order t l). p \<noteq> q \<longrightarrow> placed t' p \<longrightarrow> placed t' q \<longrightarrow>
         res_end t' p \<le> unat (res_base (get_res t' q)) \<or> res_end t' q \<le> unat (res_base (get_res t' p)))
    \<and> (\<forall>q. q \<notin> set (alloc_order t l) \<longrightarrow> get_res t' q = get_res t q)"
proof -
  let ?ps = "alloc_order t l"
  have sub: "set ?ps \<subseteq> set (map fst l)" by (auto simp: set_alloc_order)
  obtain t' b' where run: "fold (allocate_one bridge) ?ps (t, res_base (get_res t bridge)) = (t', b')"
    by (cases "fold (allocate_one bridge) ?ps (t, res_base (get_res t bridge))")
  have loop: "each_largest k n bus tm ty (allocate_one bridge) None (t, res_base (get_res t bridge)) = Some (t', b')"
    unfolding run [symmetric]
    by (rule each_largest_fold [OF assms(1-3)]) (use allocate_one_keys [OF assms(1)] length_alloc_order [of t l] assms(4) in simp_all)
  have "small_space t ?ps" using assms(6) sub unfolding small_space_def by blast
  moreover have "\<forall>p \<in> set ?ps. res_ok t p \<and> \<not> assigned t p" using alloc_order_ok [OF assms(1)] assms(7) sub by blast
  moreover have "bridge \<notin> set ?ps" using assms(5) sub by blast
  ultimately have a: "(\<forall>q. q \<notin> set ?ps \<longrightarrow> get_res t' q = get_res t q) \<and> same_shape t t' \<and> (\<forall>p \<in> set ?ps. same_size t t' p)
    \<and> (\<forall>p \<in> set ?ps. placed t' p \<longrightarrow> unat (res_base (get_res t bridge)) \<le> unat (res_base (get_res t' p))
         \<and> 2 ^ unat (res_align (get_res t p)) dvd unat (res_base (get_res t' p)) \<and> res_end t' p \<le> lowest_limit t bridge p + 1)
    \<and> sorted_wrt (\<lambda>p q. placed t' p \<longrightarrow> placed t' q \<longrightarrow> res_end t' p \<le> unat (res_base (get_res t' q))) ?ps"
    using allocate_loop [OF distinct_alloc_order [OF assms(2)] _ _ _ assms(8,9) run] by blast
  have "res_end t' p \<le> unat (res_base (get_res t' q)) \<or> res_end t' q \<le> unat (res_base (get_res t' p))"
    if "p \<in> set ?ps" "q \<in> set ?ps" "p \<noteq> q" "placed t' p" "placed t' q" for p q
  proof -
    obtain i j where "i < length ?ps" "p = ?ps ! i" "j < length ?ps" "q = ?ps ! j" using \<open>p \<in> set ?ps\<close> \<open>q \<in> set ?ps\<close> by (metis in_set_conv_nth)
    then show ?thesis
      using a that by (cases i j rule: linorder_cases) (auto simp: sorted_wrt_iff_nth_less)
  qed
  then show ?thesis
    using loop a by (intro exI [of _ t'] exI [of _ b']) (auto simp: word_le_nat_alt lowest_limit_def res_end_def same_size_def)
qed


text \<open>A bus with two devices behind device 1, whose first resource is the window of the bus.\<close>

definition example_alloc_tree :: devtree where
  "example_alloc_tree = example_tree\<lparr>
     devs := (\<lambda>d. if d = 1 then example_device\<lparr>d_link_list := [1],
                     d_resource_list := [zero_resource\<lparr>res_base := 0xe0000000, res_limit := 0xefffffff, res_flags := IORESOURCE_MEM OR IORESOURCE_BRIDGE\<rparr>]\<rparr>
                 else if d = 2 then example_device\<lparr>d_bus := 1,
                     d_resource_list := [zero_resource\<lparr>res_size := 0x1000, res_align := 12, res_limit := 0xffffffff, res_flags := IORESOURCE_MEM\<rparr>]\<rparr>
                 else example_device\<lparr>d_bus := 1,
                     d_resource_list := [zero_resource\<lparr>res_size := 0x100000, res_align := 20, res_limit := 0xffffffff, res_flags := IORESOURCE_MEM\<rparr>]\<rparr>),
     buses := (\<lambda>b. \<lparr>b_dev = 1, b_children = (if b = 1 then [2, 3] else []), b_bridge_ctrl = 0, b_link_num = 0,
                   b_secondary = 1, b_subordinate = 1, b_reset_needed = False\<rparr>)\<rparr>"

lemmas example_alloc_simps = example_alloc_tree_def example_tree_def example_device_def zero_resource_def get_res_def

lemma example_alloc_visits:
  "bus_visits (Suc 0) example_alloc_tree 1 IORESOURCE_MEM IORESOURCE_MEM
     = Some [((2, 0), get_res example_alloc_tree (2, 0)), ((3, 0), get_res example_alloc_tree (3, 0))]"
  by (simp add: example_alloc_simps)

theorem largest_resource_order_witness:
  "largest_resource (Suc 0) example_alloc_tree 1 None IORESOURCE_MEM IORESOURCE_MEM = Some (Some (3, 0))
    \<and> largest_resource (Suc 0) example_alloc_tree 1 (Some (3, 0)) IORESOURCE_MEM IORESOURCE_MEM = Some (Some (2, 0))"
proof -
  let ?l = "[((2, 0), get_res example_alloc_tree (2, 0)), ((3, 0), get_res example_alloc_tree (3, 0))]"
  have s: "sort_key (alloc_key_of example_alloc_tree) (filter (\<lambda>p. res_flags (get_res example_alloc_tree p) AND IORESOURCE_FIXED = 0) (map fst ?l)) = [(3, 0), (2, 0)]"
    by (simp add: alloc_key_of_def less_eq_alloc_key_def example_alloc_simps)
  show ?thesis
    using largest_resource_order [OF example_alloc_visits] unfolding s by (auto dest: spec [of _ 0])
qed

theorem allocate_bus_disjoint_witness:
  "\<exists>t' b'. each_largest 3 (Suc 0) 1 IORESOURCE_MEM IORESOURCE_MEM (allocate_one (1, 0)) None (example_alloc_tree, 0xe0000000) = Some (t', b')
    \<and> (placed t' (2, 0) \<longrightarrow> placed t' (3, 0) \<longrightarrow> res_end t' (2, 0) \<le> unat (res_base (get_res t' (3, 0))) \<or> res_end t' (3, 0) \<le> unat (res_base (get_res t' (2, 0))))"
proof -
  let ?l = "[((2, 0), get_res example_alloc_tree (2, 0)), ((3, 0), get_res example_alloc_tree (3, 0))] :: (res_ptr \<times> resource) list"
  have o: "(2, 0) \<in> set (alloc_order example_alloc_tree ?l)" "(3, 0) \<in> set (alloc_order example_alloc_tree ?l)"
    by (simp_all add: set_alloc_order is_fixed_def example_alloc_simps)
  have b: "res_base (get_res example_alloc_tree (1, 0)) = 0xe0000000" by (simp add: example_alloc_simps)
  have h: "distinct (map fst ?l)" "plain_mask IORESOURCE_MEM" "length ?l < 3" "((1, 0) :: res_ptr) \<notin> set (map fst ?l)" by simp_all
  have m: "small_space example_alloc_tree (map fst ?l)" "\<forall>p \<in> set (map fst ?l). \<not> assigned example_alloc_tree p"
    "unat (res_limit (get_res example_alloc_tree (1, 0))) < 2 ^ 62" "unat (res_base (get_res example_alloc_tree (1, 0))) \<le> 2 ^ 62"
    by (simp_all add: small_space_def assigned_def example_alloc_simps)
  have "(2, 0) \<noteq> ((3, 0) :: res_ptr)" by simp
  then show ?thesis
    using allocate_bus_disjoint [OF example_alloc_visits h m] o unfolding b by blast
qed

section \<open>What a pass touches\<close>

lemma fold_opt_inv:
  "fold_opt f xs s = Some s' \<Longrightarrow> P s \<Longrightarrow> (\<And>x s s'. x \<in> set xs \<Longrightarrow> P s \<Longrightarrow> f x s = Some s' \<Longrightarrow> P s') \<Longrightarrow> P s'"
proof (induction xs arbitrary: s)
  case (Cons x xs)
  from Cons.prems(1) obtain s1 where "f x s = Some s1" "fold_opt f xs s1 = Some s'" by auto
  with Cons show ?case by (meson list.set_intros)
qed simp

lemma same_shape_below: "same_shape t t' \<Longrightarrow> below t' b d = below t b d"
  using below_cong [of t b d t'] below_cong [of t' b d t] by (auto simp: same_shape_def)

text \<open>
  The contract of a pass over a bus on behalf of a bridge resource: the shape of the tree
  stays, nothing but the resources below the bus and the bridge changes, and the bridge
  changes only as the relation \<open>R\<close> says.
\<close>

locale tree_pass =
  fixes pass :: "bus_id \<Rightarrow> res_ptr \<Rightarrow> u32 \<Rightarrow> u32 \<Rightarrow> devtree \<Rightarrow> devtree option"
    and R :: "resource \<Rightarrow> resource \<Rightarrow> bool"
  assumes pass_shape: "pass b br tm ty u = Some u' \<Longrightarrow> same_shape u u'"
    and pass_elsewhere: "pass b br tm ty u = Some u' \<Longrightarrow> \<not> below u b (fst p) \<Longrightarrow> p \<noteq> br \<Longrightarrow> get_res u' p = get_res u p"
    and pass_bridge: "pass b br tm ty u = Some u' \<Longrightarrow> \<not> below u b (fst br) \<Longrightarrow> R (get_res u br) (get_res u' br)"
    and R_refl: "R r r"
    and R_trans: "R r s \<Longrightarrow> R s q \<Longrightarrow> R r q"
begin

lemma each_child_bridge_inv:
  assumes "each_child_bridge pass bus tm ty t = Some t'" "P t"
    and "\<And>dev i link tm ty u u'. dev \<in> set (b_children (buses t bus)) \<Longrightarrow> link \<in> set (d_link_list (devs t dev)) \<Longrightarrow>
      same_shape t u \<Longrightarrow> P u \<Longrightarrow> pass link (dev, i) tm ty u = Some u' \<Longrightarrow> P u'"
  shows "same_shape t t' \<and> P t'"
proof -
  let ?P = "\<lambda>u. same_shape t u \<and> P u"
  have inner: "?P u'" if d: "dev \<in> set (b_children (buses t bus))" and u: "?P u" and
      s: "(let child_bridge = get_res u (dev, i) in
           if res_flags child_bridge AND IORESOURCE_BRIDGE = 0 \<or> res_flags child_bridge AND tm \<noteq> ty then Some u
           else case find (\<lambda>b. ucast (b_link_num (buses u b)) = IOINDEX_LINK (res_index child_bridge)) (d_link_list (devs u dev)) of
                  None \<Rightarrow> None
                | Some link \<Rightarrow> pass link (dev, i) (tm OR IORESOURCE_PREFETCH) (ty OR (res_flags child_bridge AND IORESOURCE_PREFETCH)) u) = Some u'"
    for dev i u u'
  proof -
    have "u' = u \<or> (\<exists>link \<in> set (d_link_list (devs t dev)). \<exists>tm ty. pass link (dev, i) tm ty u = Some u')"
      using s u by (auto simp: Let_def find_Some_iff same_shapeD split: if_splits option.splits)
    then show ?thesis using u d assms(3) pass_shape same_shape_trans by blast
  qed
  show ?thesis
    using assms(1) unfolding each_child_bridge_def
  proof (rule fold_opt_inv)
    show "?P t" using assms(2) by simp
    fix dev u u' assume d: "dev \<in> set (b_children (buses t bus))" and u: "?P u"
      and s: "(if d_link_list (devs u dev) = [] then Some u else fold_opt (\<lambda>i t.
             let child_bridge = get_res t (dev, i) in
             if res_flags child_bridge AND IORESOURCE_BRIDGE = 0 \<or> res_flags child_bridge AND tm \<noteq> ty then Some t
             else case find (\<lambda>b. ucast (b_link_num (buses t b)) = IOINDEX_LINK (res_index child_bridge)) (d_link_list (devs t dev)) of
                    None \<Rightarrow> None
                  | Some link \<Rightarrow> pass link (dev, i) (tm OR IORESOURCE_PREFETCH) (ty OR (res_flags child_bridge AND IORESOURCE_PREFETCH)) t)
           [0..<length (d_resource_list (devs u dev))] u) = Some u'"
    show "?P u'"
    proof (cases "d_link_list (devs u dev) = []")
      case False
      then show ?thesis using s by (simp only: if_False) (erule fold_opt_inv, rule u, erule (1) inner [OF d])
    qed (use s u in simp)
  qed
qed

lemma each_child_bridge_elsewhere:
  assumes "each_child_bridge pass bus tm ty t = Some t'" "\<not> below t bus (fst p)"
  shows "same_shape t t' \<and> get_res t' p = get_res t p"
proof (rule each_child_bridge_inv [OF assms(1)])
  fix dev i link tm ty u u'
  assume d: "dev \<in> set (b_children (buses t bus))" "link \<in> set (d_link_list (devs t dev))"
    and u: "same_shape t u" "get_res u p = get_res t p" "pass link (dev, i) tm ty u = Some u'"
  have "\<not> below t link (fst p)" "p \<noteq> (dev, i)" using assms(2) d below.child below.deeper by fastforce+
  then show "get_res u' p = get_res t p"
    using pass_elsewhere [OF u(3)] u(2) same_shape_below [OF u(1)] by simp
qed simp

lemma each_child_bridge_child:
  assumes "each_child_bridge pass bus tm ty t = Some t'"
    and "\<And>dev link. dev \<in> set (b_children (buses t bus)) \<Longrightarrow> link \<in> set (d_link_list (devs t dev)) \<Longrightarrow> \<not> below t link (fst p)"
  shows "same_shape t t' \<and> R (get_res t p) (get_res t' p)"
proof (rule each_child_bridge_inv [OF assms(1)])
  fix dev i link tm ty u u'
  assume d: "dev \<in> set (b_children (buses t bus))" "link \<in> set (d_link_list (devs t dev))"
    and u: "same_shape t u" "R (get_res t p) (get_res u p)" "pass link (dev, i) tm ty u = Some u'"
  have nb: "\<not> below u link (fst p)" using assms(2) [OF d] same_shape_below [OF u(1)] by simp
  have "R (get_res u p) (get_res u' p)"
    using pass_elsewhere [OF u(3) nb] pass_bridge [OF u(3)] nb R_refl by (cases "p = (dev, i)") auto
  then show "R (get_res t p) (get_res u' p)" using u(2) R_trans by blast
qed (rule R_refl)

end

lemma bus_visits_below:
  "bus_visits n t bus tm ty = Some l \<Longrightarrow> (p, r) \<in> set l \<Longrightarrow> below t bus (fst p)"
proof (induction n arbitrary: bus l p r)
  case (Suc n)
  obtain d l' where d: "d \<in> set (b_children (buses t bus))" "(p, r) \<in> set l'"
    "dev_visits (\<lambda>b. bus_visits n t b tm ty) t d tm ty (List.enumerate 0 (d_resource_list (devs t d))) = Some l'"
    using flat_opt_mem [OF Suc.prems(1) [unfolded bus_visits.simps] Suc.prems(2)] by (auto split: if_splits)
  show ?case
    by (rule dev_visits_ptr [OF _ _ d(3) d(2)])
      (use Suc.IH below.deeper [OF d(1)] below.child [OF d(1)] in auto)
qed simp

lemma first_min_mem: "first_min K acc ps = Some p \<Longrightarrow> acc = Some p \<or> p \<in> set ps"
proof (induction ps arbitrary: acc)
  case (Cons x ps)
  then show ?case
    using Cons.IH [of "Some (case acc of None \<Rightarrow> x | Some q \<Rightarrow> if K x < K q then x else q)"]
    by (cases acc) (auto split: if_splits)
qed simp

lemma set_eligible: "set (eligible K F q seen ps) \<subseteq> set ps"
  by (induction ps arbitrary: seen) auto

lemma largest_resource_below:
  assumes "largest_resource n t bus q tm ty = Some (Some p)"
  shows "below t bus (fst p) \<and> res_ok t p"
proof -
  obtain l where l: "bus_visits n t bus tm ty = Some l"
    using assms by (auto simp: largest_resource_def search_bus_resources_fold)
  have v: "\<forall>(p, r) \<in> set l. r = get_res t p" using bus_visits_ptr [OF l] by auto
  have "first_min (alloc_key_of t) None (eligible (alloc_key_of t) (is_fixed t) q False (map fst l)) = Some p"
    using assms pick_largest_fold [OF v, of "\<lparr>pl_last = q, pl_result = None, pl_seen_last = False\<rparr>"]
    by (auto simp: largest_resource_def search_bus_resources_fold l)
  then have "p \<in> set (map fst l)" using first_min_mem set_eligible by fastforce
  then show ?thesis using bus_visits_below [OF l] bus_visits_ptr [OF l] by auto
qed

lemma each_largest_inv:
  assumes "each_largest k n bus tm ty body q s = Some s'" "P s"
    and "\<And>p s. P s \<Longrightarrow> below (fst s) bus (fst p) \<Longrightarrow> res_ok (fst s) p \<Longrightarrow> P (body p s)"
  shows "P s'"
  using assms(1,2)
proof (induction k arbitrary: q s)
  case (Suc k)
  from Suc.prems(1) obtain r where r: "largest_resource n (fst s) bus q tm ty = Some r"
    and e: "(case r of None \<Rightarrow> Some s | Some p \<Rightarrow> each_largest k n bus tm ty body r (body p s)) = Some s'" by auto
  show ?case
  proof (cases r)
    case None
    then show ?thesis using e Suc.prems(2) by simp
  next
    case (Some p)
    then have "P (body p s)" using assms(3) [OF Suc.prems(2)] largest_resource_below r by blast
    then show ?thesis using e Some Suc.IH by simp
  qed
qed simp

definition noted :: "resource \<Rightarrow> resource \<Rightarrow> bool" where
  "noted r r' \<longleftrightarrow> r' = r \<or> r' = r\<lparr>res_flags := res_flags r OR IORESOURCE_ASSIGNED\<rparr>"

definition sized :: "resource \<Rightarrow> resource \<Rightarrow> bool" where
  "sized r r' \<longleftrightarrow> res_base r' = res_base r \<and> res_flags r' = res_flags r \<and> res_index r' = res_index r \<and> res_gran r' = res_gran r"

text \<open>The steps of the two loops change the resource they are called for and the bridge, as far as their contracts allow.\<close>

lemma allocate_one_frame:
  "same_shape (fst s) (fst (allocate_one bridge p s)) \<and> (\<forall>q. q \<noteq> p \<longrightarrow> get_res (fst (allocate_one bridge p s)) q = get_res (fst s) q)"
proof -
  obtain t b where s: "s = (t, b)" by (cases s)
  have u: "same_shape t u \<Longrightarrow> (\<And>r. res_core (f r) = res_core r) \<Longrightarrow> same_shape t (upd_res p f u)" for u f
    by (meson same_shape_trans same_shape_upd)
  show ?thesis
    unfolding s allocate_one_def by (auto simp: Let_def get_upd_res_other res_core_def core_flags_assign core_flags_assign [simplified] intro!: u)
qed

lemma sized_upd: "res_ok t p \<Longrightarrow> (\<And>r. sized r (f r)) \<Longrightarrow> sized r (get_res t p) \<Longrightarrow> sized r (get_res (upd_res p f t) p)"
  by (simp add: get_upd_res sized_def)

lemma upd_res_not_ok: "\<not> res_ok t p \<Longrightarrow> get_res (upd_res p f t) q = get_res t q"
  by (simp add: upd_res_def res_ok_def get_res_def list_update_beyond not_less)

lemma sized_upd_any: "(\<And>r. sized r (f r)) \<Longrightarrow> sized r (get_res t q) \<Longrightarrow> sized r (get_res (upd_res q f t) q)"
  by (cases "res_ok t q") (auto simp: sized_upd upd_res_not_ok)

lemma compute_one_frame:
  "same_shape (fst s) (fst (compute_one bridge p s))
    \<and> (\<forall>q. q \<noteq> p \<longrightarrow> q \<noteq> bridge \<longrightarrow> get_res (fst (compute_one bridge p s)) q = get_res (fst s) q)"
proof -
  obtain t b where s: "s = (t, b)" by (cases s)
  have u: "same_shape t u \<Longrightarrow> (\<And>r. res_core (f r) = res_core r) \<Longrightarrow> same_shape t (upd_res x f u)" for u f x
    by (meson same_shape_trans same_shape_upd)
  show ?thesis
    unfolding s compute_one_def by (auto simp: Let_def get_upd_res_other res_core_def intro!: u)
qed

lemma compute_one_sized:
  assumes "p \<noteq> bridge"
  shows "sized (get_res (fst s) bridge) (get_res (fst (compute_one bridge p s)) bridge)"
proof -
  obtain t b where s: "s = (t, b)" by (cases s)
  have z: "sized (get_res t bridge) (get_res u bridge) \<Longrightarrow> (\<And>r. sized r (f r)) \<Longrightarrow> sized (get_res t bridge) (get_res (upd_res bridge f u) bridge)" for u f
    by (rule sized_upd_any)
  have "sized (get_res t bridge) (get_res t bridge)" by (simp add: sized_def)
  then show ?thesis
    using assms unfolding s compute_one_def
    by (auto simp: Let_def get_upd_res_other intro!: z) (simp_all add: sized_def)
qed

text \<open>The pass over the resources of a bus leaves alone what is not below it.\<close>

definition untouched :: "bus_id \<Rightarrow> res_ptr \<Rightarrow> devtree \<Rightarrow> devtree \<Rightarrow> bool" where
  "untouched bus bridge t u \<longleftrightarrow> same_shape t u \<and> (\<forall>q. \<not> below t bus (fst q) \<longrightarrow> q \<noteq> bridge \<longrightarrow> get_res u q = get_res t q)"

lemma untouched_trans: "untouched bus bridge t u \<Longrightarrow> untouched bus bridge u v \<Longrightarrow> untouched bus bridge t v"
  unfolding untouched_def using same_shape_trans same_shape_below by metis

lemma allocate_loop_frame:
  assumes "each_largest k n bus tm ty (allocate_one bridge) q s = Some s'"
  shows "untouched bus bridge (fst s) (fst s') \<and> (\<not> below (fst s) bus (fst bridge) \<longrightarrow> get_res (fst s') bridge = get_res (fst s) bridge)"
proof (rule each_largest_inv [OF assms])
  fix p :: res_ptr and u :: "devtree \<times> resource_t"
  assume u: "untouched bus bridge (fst s) (fst u) \<and> (\<not> below (fst s) bus (fst bridge) \<longrightarrow> get_res (fst u) bridge = get_res (fst s) bridge)"
    and b: "below (fst u) bus (fst p)"
  have b': "below (fst s) bus (fst p)" using b u same_shape_below unfolding untouched_def by metis
  have "untouched bus bridge (fst u) (fst (allocate_one bridge p u))"
    using allocate_one_frame [of u bridge p] b unfolding untouched_def by metis
  then show "untouched bus bridge (fst s) (fst (allocate_one bridge p u)) \<and>
      (\<not> below (fst s) bus (fst bridge) \<longrightarrow> get_res (fst (allocate_one bridge p u)) bridge = get_res (fst s) bridge)"
    using u untouched_trans allocate_one_frame [of u bridge p] b' by metis
qed (simp add: untouched_def)

lemma sized_refl: "sized r r" and sized_trans: "sized r s \<Longrightarrow> sized s q \<Longrightarrow> sized r q"
  by (auto simp: sized_def)

lemma compute_loop_frame:
  assumes "each_largest k n bus tm ty (compute_one bridge) q s = Some s'"
  shows "untouched bus bridge (fst s) (fst s')"
    and "\<not> below (fst s) bus (fst bridge) \<Longrightarrow> sized (get_res (fst s) bridge) (get_res (fst s') bridge)"
proof -
  have "untouched bus bridge (fst s) (fst s')
    \<and> (\<not> below (fst s) bus (fst bridge) \<longrightarrow> sized (get_res (fst s) bridge) (get_res (fst s') bridge))"
  proof (rule each_largest_inv [OF assms])
    fix p :: res_ptr and u :: "devtree \<times> resource_t"
    assume u: "untouched bus bridge (fst s) (fst u) \<and> (\<not> below (fst s) bus (fst bridge) \<longrightarrow> sized (get_res (fst s) bridge) (get_res (fst u) bridge))"
      and b: "below (fst u) bus (fst p)"
    have b': "below (fst s) bus (fst p)" using b u same_shape_below unfolding untouched_def by metis
    have "untouched bus bridge (fst u) (fst (compute_one bridge p u))"
      using compute_one_frame [of u bridge p] b unfolding untouched_def by metis
    moreover have "sized (get_res (fst u) bridge) (get_res (fst (compute_one bridge p u)) bridge)" if "\<not> below (fst s) bus (fst bridge)"
      using compute_one_sized [of p bridge u] b' that by blast
    ultimately show "untouched bus bridge (fst s) (fst (compute_one bridge p u))
      \<and> (\<not> below (fst s) bus (fst bridge) \<longrightarrow> sized (get_res (fst s) bridge) (get_res (fst (compute_one bridge p u)) bridge))"
      using u untouched_trans sized_trans by blast
  qed (simp add: untouched_def sized_def)
  then show "untouched bus bridge (fst s) (fst s')"
    and "\<not> below (fst s) bus (fst bridge) \<Longrightarrow> sized (get_res (fst s) bridge) (get_res (fst s') bridge)" by blast+
qed

lemma each_child_bridge_untouched:
  assumes "tree_pass pass R" "each_child_bridge pass bus tm ty t = Some t'"
  shows "untouched bus bridge t t'" "\<not> below t bus (fst p) \<Longrightarrow> get_res t' p = get_res t p"
proof -
  have "same_shape t t'" using tree_pass.each_child_bridge_inv [OF assms, of "\<lambda>_. True"] by blast
  then show "untouched bus bridge t t'"
    unfolding untouched_def using tree_pass.each_child_bridge_elsewhere [OF assms] by blast
  show "\<not> below t bus (fst p) \<Longrightarrow> get_res t' p = get_res t p"
    using tree_pass.each_child_bridge_elsewhere [OF assms] by blast
qed

lemma untouched_upd: "(\<And>r. res_core (f r) = res_core r) \<Longrightarrow> untouched bus bridge t (upd_res bridge f t)"
  by (simp add: untouched_def same_shape_upd get_upd_res_other)

lemma tree_passI:
  assumes "\<And>b br tm ty u u'. pass b br tm ty u = Some u' \<Longrightarrow> untouched b br u u' \<and> (\<not> below u b (fst br) \<longrightarrow> R (get_res u br) (get_res u' br))"
    and "\<And>r. R r r" "\<And>r s q. R r s \<Longrightarrow> R s q \<Longrightarrow> R r q"
  shows "tree_pass pass R"
  using assms unfolding tree_pass_def untouched_def by blast

lemma noted_refl: "noted r r" and noted_trans: "noted r s \<Longrightarrow> noted s q \<Longrightarrow> noted r q"
  by (auto simp: noted_def)

lemma noted_upd_any: "noted r (get_res t q) \<Longrightarrow> noted r (get_res (upd_res q (\<lambda>b. b\<lparr>res_flags := res_flags b OR IORESOURCE_ASSIGNED\<rparr>) t) q)"
  by (cases "res_ok t q") (auto simp: get_upd_res upd_res_not_ok noted_def)

lemma allocate_pass: "tree_pass (allocate_resources n k) noted"
proof (induction n)
  case 0
  show ?case by (rule tree_passI) (auto intro: noted_refl noted_trans)
next
  case (Suc n)
  show ?case
  proof (rule tree_passI)
    fix b br tm ty u u' assume run: "allocate_resources (Suc n) k b br tm ty u = Some u'"
    let ?assign = "\<lambda>b. b\<lparr>res_flags := res_flags b OR IORESOURCE_ASSIGNED\<rparr>"
    obtain t1 b1 where l: "each_largest k (Suc n) b tm ty (allocate_one br) None (u, res_base (get_res u br)) = Some (t1, b1)"
      and c: "each_child_bridge (allocate_resources n k) b tm ty (upd_res br ?assign t1) = Some u'"
      using run by auto
    have 1: "untouched b br u t1" "\<not> below u b (fst br) \<Longrightarrow> get_res t1 br = get_res u br"
      using allocate_loop_frame [OF l] by simp_all
    have 2: "untouched b br t1 (upd_res br ?assign t1)" by (rule untouched_upd) (simp add: res_core_def core_flags_assign)
    note 3 = each_child_bridge_untouched [OF Suc.IH c]
    have s: "same_shape u (upd_res br ?assign t1)" using untouched_trans [OF 1(1) 2] by (simp add: untouched_def)
    have "noted (get_res u br) (get_res u' br)" if nb: "\<not> below u b (fst br)"
    proof -
      have "get_res u' br = get_res (upd_res br ?assign t1) br" using 3(2) nb same_shape_below [OF s] by simp
      then show ?thesis using 1(2) [OF nb] noted_upd_any [of "get_res u br" t1 br] by (simp add: noted_refl)
    qed
    then show "untouched b br u u' \<and> (\<not> below u b (fst br) \<longrightarrow> noted (get_res u br) (get_res u' br))"
      using untouched_trans [OF untouched_trans [OF 1(1) 2] 3(1)] by blast
  qed (auto intro: noted_refl noted_trans)
qed

interpretation al: tree_pass "allocate_resources n k" noted for n k
  by (rule allocate_pass)

lemma compute_pass: "tree_pass (compute_resources n k) sized"
proof (induction n)
  case 0
  show ?case by (rule tree_passI) (auto intro: sized_refl sized_trans)
next
  case (Suc n)
  show ?case
  proof (rule tree_passI)
    fix b br tm ty u u' assume run: "compute_resources (Suc n) k b br tm ty u = Some u'"
    obtain t1 x t2 y where c: "each_child_bridge (compute_resources n k) b tm ty u = Some t1"
      and l: "each_largest k (Suc n) b tm ty (compute_one br) None (t1, x) = Some (t2, y)"
      and u': "u' = upd_res br (\<lambda>b. b\<lparr>res_size := bridge_size y b\<rparr>) t2"
      using run by (auto simp: Let_def)
    note 1 = each_child_bridge_untouched [OF Suc.IH c]
    have 2: "untouched b br t1 t2" using compute_loop_frame(1) [OF l] by simp
    have 3: "untouched b br t2 u'" unfolding u' by (rule untouched_upd) (simp add: res_core_def)
    have s: "same_shape u t1" using 1(1) by (simp add: untouched_def)
    have "sized (get_res u br) (get_res u' br)" if nb: "\<not> below u b (fst br)"
    proof -
      have "sized (get_res t1 br) (get_res t2 br)" using compute_loop_frame(2) [OF l] nb same_shape_below [OF s] by simp
      then show ?thesis unfolding u' using 1(2) nb by (intro sized_upd_any) (simp_all add: sized_def)
    qed
    then show "untouched b br u u' \<and> (\<not> below u b (fst br) \<longrightarrow> sized (get_res u br) (get_res u' br))"
      using untouched_trans [OF untouched_trans [OF 1(1) 2] 3] by blast
  qed (auto intro: sized_refl sized_trans)
qed

interpretation co: tree_pass "compute_resources n k" sized for n k
  by (rule compute_pass)

section \<open>The two passes agree\<close>

text \<open>\<open>laid A S f b ps e\<close>: from \<open>b\<close> on, \<open>f\<close> puts the resources \<open>ps\<close> one after the other, and \<open>e\<close> is the end.\<close>

fun laid :: "('p \<Rightarrow> nat) \<Rightarrow> ('p \<Rightarrow> nat) \<Rightarrow> ('p \<Rightarrow> nat) \<Rightarrow> nat \<Rightarrow> 'p list \<Rightarrow> nat \<Rightarrow> bool" where
  "laid A S f b [] e \<longleftrightarrow> e = b"
| "laid A S f b (p # ps) e \<longleftrightarrow>
     (if S p = 0 then laid A S f b ps e else f p = ceil_pow b (A p) \<and> laid A S f (f p + S p) ps e)"

lemma laid_bounds:
  "laid A S f b ps e \<Longrightarrow> b \<le> e \<and> (\<forall>p \<in> set ps. S p \<noteq> 0 \<longrightarrow> b \<le> f p \<and> f p + S p \<le> e)"
proof (induction ps arbitrary: b)
  case (Cons p ps)
  show ?case
  proof (cases "S p = 0")
    case True
    then show ?thesis using Cons by auto
  next
    case False
    then have "f p = ceil_pow b (A p)" "laid A S f (f p + S p) ps e" using Cons.prems by (metis laid.simps(2))+
    then show ?thesis using Cons.IH [of "f p + S p"] ceil_pow_ge [of b "A p"] by force
  qed
qed simp

lemma laid_cong:
  "\<forall>p \<in> set ps. A p = A' p \<and> S p = S' p \<and> f p = f' p \<Longrightarrow> laid A S f b ps e = laid A' S' f' b ps e"
  by (induction ps arbitrary: b) simp_all

abbreviation align_of :: "devtree \<Rightarrow> res_ptr \<Rightarrow> nat" where "align_of t p \<equiv> unat (res_align (get_res t p))"
abbreviation size_of :: "devtree \<Rightarrow> res_ptr \<Rightarrow> nat" where "size_of t p \<equiv> unat (res_size (get_res t p))"
abbreviation base_of :: "devtree \<Rightarrow> res_ptr \<Rightarrow> nat" where "base_of t p \<equiv> unat (res_base (get_res t p))"
abbreviation limit_of :: "devtree \<Rightarrow> res_ptr \<Rightarrow> nat" where "limit_of t p \<equiv> unat (res_limit (get_res t p))"

definition space_needed :: "devtree \<Rightarrow> res_ptr list \<Rightarrow> nat" where
  "space_needed t ps = (\<Sum>p\<leftarrow>ps. 2 ^ align_of t p + size_of t p)"

lemma space_needed_simps [simp]:
  "space_needed t [] = 0" "space_needed t (p # ps) = 2 ^ align_of t p + size_of t p + space_needed t ps"
  by (simp_all add: space_needed_def)

lemma space_needed_cong:
  "\<forall>p \<in> set ps. same_size t t' p \<Longrightarrow> space_needed t' ps = space_needed t ps"
  by (induction ps) (simp_all add: same_size_def)

definition not_io :: "devtree \<Rightarrow> res_ptr \<Rightarrow> bool" where
  "not_io t p \<longleftrightarrow> res_flags (get_res t p) AND IORESOURCE_IO = 0"

lemma power_le_exp: "2 ^ n \<le> (2::nat) ^ m \<Longrightarrow> n \<le> m"
  using power_increasing_iff [of "2::nat" n m] by simp

lemma compute_one_spec:
  assumes "res_ok t p" "res_ok t bridge" "p \<noteq> bridge" "not_io t p"
    and room: "unat b + 2 ^ align_of t p + size_of t p \<le> 2 ^ 62"
    and step: "compute_one bridge p (t, b) = (t', b')"
  shows "(\<forall>q. q \<noteq> p \<longrightarrow> q \<noteq> bridge \<longrightarrow> get_res t' q = get_res t q) \<and> same_shape t t' \<and> same_size t t' p
    \<and> res_flags (get_res t' p) = res_flags (get_res t p) \<and> res_limit (get_res t' p) = res_limit (get_res t p)
    \<and> sized (get_res t bridge) (get_res t' bridge) \<and> align_of t bridge \<le> align_of t' bridge \<and> limit_of t' bridge \<le> limit_of t bridge
    \<and> (if size_of t p = 0 then b' = b \<and> get_res t' p = get_res t p
       else base_of t' p = ceil_pow (unat b) (align_of t p) \<and> unat b' = base_of t' p + size_of t p
         \<and> unat b' \<le> unat b + 2 ^ align_of t p + size_of t p
         \<and> align_of t p \<le> align_of t' bridge \<and> limit_of t' bridge \<le> limit_of t p)"
proof (cases "res_size (get_res t p) = 0")
  case True
  then have "t' = t" "b' = b" using step by (simp_all add: compute_one_def)
  then show ?thesis using True by (simp add: same_size_def sized_def)
next
  case False
  let ?r = "get_res t p" and ?a = "res_align (get_res t p)"
  obtain t1 where t1: "t1 = (if res_align (get_res t bridge) < ?a then upd_res bridge (\<lambda>b. b\<lparr>res_align := ?a\<rparr>) t else t)" by blast
  obtain t2 where t2: "t2 = (if res_limit ?r < res_limit (get_res t1 bridge) then upd_res bridge (\<lambda>b. b\<lparr>res_limit := res_limit ?r\<rparr>) t1 else t1)" by blast
  let ?x = "round_up b (unat ?a)"
  have t': "t' = upd_res p (\<lambda>r. r\<lparr>res_base := ?x\<rparr>) t2" "b' = ?x + res_size ?r"
    using step False assms(4) unfolding compute_one_def prod.case Let_def t1 [symmetric] t2 [symmetric] by (simp_all add: not_io_def)
  have ok: "res_ok t1 q = res_ok t q" "res_ok t2 q = res_ok t q" for q by (simp_all add: t1 t2)
  have g1: "get_res t1 q = (if q = bridge then (get_res t bridge)\<lparr>res_align := max (res_align (get_res t bridge)) ?a\<rparr> else get_res t q)" for q
    using get_upd_res [OF assms(2)] by (simp add: t1 max_def not_less)
  have g2: "get_res t2 q = (if q = bridge then (get_res t1 bridge)\<lparr>res_limit := min (res_limit (get_res t1 bridge)) (res_limit ?r)\<rparr> else get_res t q)" for q
    using assms(2) by (simp add: t2 get_upd_res ok g1 min_def)
  have g': "get_res t' q = (if q = p then ?r\<lparr>res_base := ?x\<rparr> else get_res t2 q)" for q
    using assms(1,3) by (simp add: t' get_upd_res ok g2)
  have "same_shape t t1" "same_shape t1 t2" "same_shape t2 t'" unfolding t1 t2 t' by (simp_all add: same_shape_upd res_core_def)
  then have s: "same_shape t t'" using same_shape_trans by blast
  have "(2::nat) ^ unat ?a \<le> 2 ^ 62" using room by linarith
  then have "unat ?a \<le> 62" by (rule power_le_exp)
  then have a: "unat ?a < 64" by simp
  then have x: "unat ?x = ceil_pow (unat b) (unat ?a)" using room by (intro unat_round_up) simp_all
  have "unat ?x < unat b + 2 ^ unat ?a" unfolding x by (rule ceil_pow_less)
  then have b': "unat b' = unat ?x + unat (res_size ?r)" "unat b' \<le> unat b + 2 ^ unat ?a + unat (res_size ?r)"
    using room unfolding t'(2) by (auto simp: unat_add_no_wrap)
  have "unat (res_size ?r) \<noteq> 0" using False by (simp add: unat_eq_0)
  moreover have br: "get_res t' bridge = (get_res t bridge)\<lparr>res_align := max (res_align (get_res t bridge)) ?a,
      res_limit := min (res_limit (get_res t bridge)) (res_limit ?r)\<rparr>"
    using assms(3) by (simp add: g' g2 g1)
  have "align_of t bridge \<le> align_of t' bridge" "unat ?a \<le> align_of t' bridge"
    "limit_of t' bridge \<le> limit_of t bridge" "limit_of t' bridge \<le> limit_of t p"
    unfolding br by (simp_all add: word_le_nat_alt [symmetric])
  moreover have "sized (get_res t bridge) (get_res t' bridge)" unfolding br by (simp add: sized_def)
  moreover have p: "get_res t' p = ?r\<lparr>res_base := ?x\<rparr>" by (simp add: g')
  moreover have "\<forall>q. q \<noteq> p \<longrightarrow> q \<noteq> bridge \<longrightarrow> get_res t' q = get_res t q" by (simp add: g' g2 g1)
  ultimately show ?thesis
    using s x b' by (simp add: same_size_def)
qed

lemma compute_loop:
  assumes "distinct ps" "\<forall>p \<in> set ps. res_ok t p \<and> not_io t p" "res_ok t bridge" "bridge \<notin> set ps"
    and "unat b + space_needed t ps \<le> 2 ^ 62"
    and "fold (compute_one bridge) ps (t, b) = (t', b')"
  shows "(\<forall>q. q \<notin> set ps \<longrightarrow> q \<noteq> bridge \<longrightarrow> get_res t' q = get_res t q) \<and> same_shape t t'
    \<and> (\<forall>p \<in> set ps. same_size t t' p \<and> res_flags (get_res t' p) = res_flags (get_res t p) \<and> limit_of t' p = limit_of t p)
    \<and> sized (get_res t bridge) (get_res t' bridge) \<and> align_of t bridge \<le> align_of t' bridge \<and> limit_of t' bridge \<le> limit_of t bridge
    \<and> laid (align_of t) (size_of t) (base_of t') (unat b) ps (unat b') \<and> unat b' \<le> unat b + space_needed t ps
    \<and> (\<forall>p \<in> set ps. size_of t p \<noteq> 0 \<longrightarrow> align_of t p \<le> align_of t' bridge \<and> limit_of t' bridge \<le> limit_of t p)"
  using assms
proof (induction ps arbitrary: t b)
  case Nil
  then show ?case by (simp add: sized_refl)
next
  case (Cons p ps)
  obtain t1 b1 where step: "compute_one bridge p (t, b) = (t1, b1)" by (cases "compute_one bridge p (t, b)")
  have p: "res_ok t p" "p \<noteq> bridge" "not_io t p" "p \<notin> set ps" "unat b + 2 ^ align_of t p + size_of t p \<le> 2 ^ 62"
    using Cons.prems by auto
  note one = compute_one_spec [OF p(1) Cons.prems(3) p(2,3,5) step]
  have eq: "get_res t1 q = get_res t q" if "q \<noteq> p" "q \<noteq> bridge" for q using one that by blast
  have ps: "\<forall>q \<in> set ps. get_res t1 q = get_res t q" using p(4) Cons.prems(4) eq by (metis list.set_intros(2))
  have ok: "\<forall>q \<in> set ps. res_ok t1 q \<and> not_io t1 q" "res_ok t1 bridge"
    using Cons.prems(2,3) ps one by (auto simp: not_io_def res_ok_shape [of t t1])
  have sp: "space_needed t1 ps = space_needed t ps" by (rule space_needed_cong) (simp add: same_size_def ps)
  have b1: "unat b1 \<le> unat b + 2 ^ align_of t p + size_of t p" using one by (auto split: if_splits)
  have room: "unat b1 + space_needed t1 ps \<le> 2 ^ 62" using b1 sp Cons.prems(5) by simp
  have IH: "(\<forall>q. q \<notin> set ps \<longrightarrow> q \<noteq> bridge \<longrightarrow> get_res t' q = get_res t1 q) \<and> same_shape t1 t'
    \<and> (\<forall>p \<in> set ps. same_size t1 t' p \<and> res_flags (get_res t' p) = res_flags (get_res t1 p) \<and> limit_of t' p = limit_of t1 p)
    \<and> sized (get_res t1 bridge) (get_res t' bridge) \<and> align_of t1 bridge \<le> align_of t' bridge \<and> limit_of t' bridge \<le> limit_of t1 bridge
    \<and> laid (align_of t1) (size_of t1) (base_of t') (unat b1) ps (unat b') \<and> unat b' \<le> unat b1 + space_needed t1 ps
    \<and> (\<forall>p \<in> set ps. size_of t1 p \<noteq> 0 \<longrightarrow> align_of t1 p \<le> align_of t' bridge \<and> limit_of t' bridge \<le> limit_of t1 p)"
    using Cons.prems(1,4,6) step by (intro Cons.IH [OF _ ok _ room]) simp_all
  have p': "get_res t' p = get_res t1 p" using IH p(2,4) by blast
  have l: "laid (align_of t) (size_of t) (base_of t') (unat b1) ps (unat b')"
    using IH ps laid_cong [of ps "align_of t1" "align_of t" "size_of t1" "size_of t" "base_of t'" "base_of t'"] by simp
  have "laid (align_of t) (size_of t) (base_of t') (unat b) (p # ps) (unat b')"
  proof (cases "size_of t p = 0")
    case True
    then show ?thesis using l one by simp
  next
    case False
    then have "base_of t' p = ceil_pow (unat b) (align_of t p)" "unat b1 = base_of t' p + size_of t p" using one p' by simp_all
    then show ?thesis using l False by (metis laid.simps(2))
  qed
  moreover have "unat b' \<le> unat b + space_needed t (p # ps)" using IH b1 sp by simp
  moreover have "\<forall>q \<in> set (p # ps). same_size t t' q \<and> res_flags (get_res t' q) = res_flags (get_res t q) \<and> limit_of t' q = limit_of t q"
    using IH ps one p' by (simp add: same_size_def)
  moreover have "\<forall>q \<in> set (p # ps). size_of t q \<noteq> 0 \<longrightarrow> align_of t q \<le> align_of t' bridge \<and> limit_of t' bridge \<le> limit_of t q"
  proof -
    have "align_of t p \<le> align_of t' bridge \<and> limit_of t' bridge \<le> limit_of t p" if "size_of t p \<noteq> 0"
      using one IH that by (simp add: order_trans)
    then show ?thesis using IH ps by simp
  qed
  moreover have "sized (get_res t bridge) (get_res t' bridge)" using one IH sized_trans by blast
  moreover have "align_of t bridge \<le> align_of t' bridge" "limit_of t' bridge \<le> limit_of t bridge" using one IH by linarith+
  moreover have "\<forall>q. q \<notin> set (p # ps) \<longrightarrow> q \<noteq> bridge \<longrightarrow> get_res t' q = get_res t q" using IH eq by simp
  moreover have "same_shape t t'" using IH one same_shape_trans by blast
  ultimately show ?case by blast
qed

lemma allocate_laid:
  assumes "distinct ps" "\<forall>p \<in> set ps. res_ok t p \<and> not_io t p" "bridge \<notin> set ps" "small_space t ps"
    and "limit_of t bridge < 2 ^ 62" "unat x \<le> 2 ^ 62" "unat x = B + b"
    and "laid (align_of t) (size_of t) f b ps e"
    and "\<forall>p \<in> set ps. size_of t p \<noteq> 0 \<longrightarrow> 2 ^ align_of t p dvd B \<and> B + e \<le> lowest_limit t bridge p + 1"
    and "fold (allocate_one bridge) ps (t, x) = (t', x')"
  shows "\<forall>p \<in> set ps. size_of t p \<noteq> 0 \<longrightarrow> base_of t' p = B + f p \<and> assigned t' p \<and> size_of t' p = size_of t p"
  using assms
proof (induction ps arbitrary: t x b)
  case (Cons p ps)
  obtain t1 x1 where step: "allocate_one bridge p (t, x) = (t1, x1)" by (cases "allocate_one bridge p (t, x)")
  have p: "res_ok t p" "p \<noteq> bridge" "small_space t [p]" "p \<notin> set ps" using Cons.prems by (auto simp: small_space_def)
  note one = allocate_one_spec [OF p(1-3) Cons.prems(5,6) step]
  have eq: "get_res t1 q = get_res t q" if "q \<noteq> p" for q using one that by blast
  have ps: "\<forall>q \<in> set ps. get_res t1 q = get_res t q" using p(4) eq by metis
  have br: "get_res t1 bridge = get_res t bridge" using p(2) eq by metis
  have rest: "fold (allocate_one bridge) ps (t1, x1) = (t', x')" using Cons.prems(10) step by simp
  have p': "get_res t' p = get_res t1 p"
  proof -
    have "q \<notin> set qs \<Longrightarrow> get_res (fst (fold (allocate_one bridge) qs s)) q = get_res (fst s) q" for q qs s
      by (induction qs arbitrary: s) (simp_all add: allocate_one_frame)
    from this [of p ps "(t1, x1)"] show ?thesis using rest p(4) by simp
  qed
  have io: "io_base (get_res t p) x = x" using Cons.prems(2) by (simp add: io_base_def not_io_def)
  have a: "align_of t p < 62" using p(3) by (simp add: small_space_def)
  note r = round_io_base [OF Cons.prems(6) a, of "get_res t p"]
  have next1: "size_of t p \<noteq> 0 \<longrightarrow> base_of t1 p = B + f p \<and> assigned t1 p \<and> unat x1 = B + (f p + size_of t p)"
  proof
    assume s: "size_of t p \<noteq> 0"
    have f: "f p = ceil_pow b (align_of t p)" and l: "laid (align_of t) (size_of t) f (f p + size_of t p) ps e"
      using Cons.prems(8) s by (metis laid.simps(2))+
    have "2 ^ align_of t p dvd B" "B + e \<le> lowest_limit t bridge p + 1" using Cons.prems(9) s by simp_all
    moreover have "f p + size_of t p \<le> e" using laid_bounds [OF l] by simp
    moreover have "unat (round_up x (align_of t p)) = B + f p"
      using r(1) ceil_pow_shift [OF calculation(1), of b] unfolding io Cons.prems(7) f by simp
    ultimately have "unat (round_up x (align_of t p)) + size_of t p \<le> lowest_limit t bridge p + 1" by simp
    moreover have "res_size (get_res t p) \<noteq> 0" using s by auto
    ultimately have "assigned t1 p" "res_base (get_res t1 p) = round_up x (align_of t p)" "unat x1 = res_end t1 p"
      using one io unfolding lowest_limit_def by auto
    then show "base_of t1 p = B + f p \<and> assigned t1 p \<and> unat x1 = B + (f p + size_of t p)"
      using \<open>unat (round_up x (align_of t p)) = B + f p\<close> one by (simp add: res_end_def)
  qed
  have ok: "\<forall>q \<in> set ps. res_ok t1 q \<and> not_io t1 q" "small_space t1 ps"
    using Cons.prems(2,4) ps one by (auto simp: not_io_def small_space_def res_ok_shape [of t t1])
  have lim: "\<forall>q \<in> set ps. size_of t1 q \<noteq> 0 \<longrightarrow> 2 ^ align_of t1 q dvd B \<and> B + e \<le> lowest_limit t1 bridge q + 1"
    using Cons.prems(9) ps br by (simp add: lowest_limit_def)
  have cong: "laid (align_of t1) (size_of t1) f c ps e = laid (align_of t) (size_of t) f c ps e" for c
    by (rule laid_cong) (simp add: ps)
  have IH: "\<forall>q \<in> set ps. size_of t1 q \<noteq> 0 \<longrightarrow> base_of t' q = B + f q \<and> assigned t' q \<and> size_of t' q = size_of t1 q"
  proof (cases "size_of t p = 0")
    case True
    then have z: "res_size (get_res t p) = 0" by (simp add: unat_eq_0)
    then have "x1 = x" using step by (auto simp: allocate_one_def Let_def get_upd_res [OF p(1)] split: if_splits)
    moreover have "laid (align_of t1) (size_of t1) f b ps e" using Cons.prems(8) True cong by simp
    ultimately show ?thesis
      using Cons.prems(1,3,5,6,7) br ok lim rest by (intro Cons.IH [of t1 x b]) simp_all
  next
    case False
    then have l: "laid (align_of t1) (size_of t1) f (f p + size_of t p) ps e" using Cons.prems(8) cong by (metis laid.simps(2))
    have x1: "unat x1 = B + (f p + size_of t p)" "unat x1 \<le> 2 ^ 62" using next1 False one by simp_all
    show ?thesis
      using Cons.prems(1,3,5) br ok lim rest x1 l by (intro Cons.IH [of t1 x1 "f p + size_of t p"]) simp_all
  qed
  show ?case using IH ps next1 p' one by (simp add: assigned_def)
qed simp

definition tree_ok :: "devtree \<Rightarrow> (bus_id \<Rightarrow> nat) \<Rightarrow> bool" where
  "tree_ok t rk \<longleftrightarrow> bus_rank t rk \<and> (\<forall>b b' d. d \<in> set (b_children (buses t b)) \<longrightarrow> d \<in> set (b_children (buses t b')) \<longrightarrow> b = b')"

lemma below_bus:
  assumes "bus_rank t rk"
  shows "below t b d \<Longrightarrow> \<exists>b'. d \<in> set (b_children (buses t b')) \<and> rk b' \<le> rk b"
proof (induction rule: below.induct)
  case (deeper d b l x)
  then have "rk l < rk b" using assms by (auto simp: bus_rank_def)
  then show ?case using deeper by (meson le_trans less_imp_le)
qed auto

lemma child_not_below_link:
  assumes "tree_ok t rk" "d \<in> set (b_children (buses t bus))" "dev \<in> set (b_children (buses t bus))" "link \<in> set (d_link_list (devs t dev))"
  shows "\<not> below t link d"
proof
  assume "below t link d"
  then obtain b' where "d \<in> set (b_children (buses t b'))" "rk b' \<le> rk link"
    using below_bus assms(1) by (metis tree_ok_def)
  moreover have "rk link < rk bus" using assms(1,3,4) by (auto simp: tree_ok_def bus_rank_def)
  moreover have "b' = bus" using calculation(1) assms(1,2) unfolding tree_ok_def by blast
  ultimately show False by simp
qed

lemma reval_reval [simp]: "reval t (reval u l) = reval t l"
  by (simp add: reval_def case_prod_unfold)

lemma length_reval [simp]: "length (reval t l) = length l"
  by (simp add: reval_def)

lemma same_keysD: "same_keys l t t' \<Longrightarrow> p \<in> set (map fst l) \<Longrightarrow> alloc_key_of t' p = alloc_key_of t p"
  by (simp only: same_keys_def)

lemma space_needed_order:
  assumes "distinct (map fst l)"
  shows "space_needed t (alloc_order t' l) \<le> space_needed t (map fst l)"
proof -
  let ?f = "\<lambda>p. 2 ^ align_of t p + size_of t p"
  have "space_needed t (alloc_order t' l) = sum ?f (set (alloc_order t' l))"
    unfolding space_needed_def using distinct_alloc_order [OF assms] by (rule sum_list_distinct_conv_sum_set)
  also have "\<dots> \<le> sum ?f (set (map fst l))" by (rule sum_mono2) (auto simp: set_alloc_order)
  also have "\<dots> = space_needed t (map fst l)"
    unfolding space_needed_def using assms by (rule sum_list_distinct_conv_sum_set [symmetric])
  finally show ?thesis .
qed

lemma space_needed_member: "p \<in> set ps \<Longrightarrow> 2 ^ align_of t p + size_of t p \<le> space_needed t ps"
  unfolding space_needed_def by (rule member_le_sum_list) auto

lemma power_less_exp: "2 ^ n < (2::nat) ^ m \<Longrightarrow> n < m"
  using power_strict_increasing_iff [of "2::nat" n m] by simp

lemma small_space_needed: "space_needed t ps < 2 ^ 62 \<Longrightarrow> small_space t ps"
proof -
  assume s: "space_needed t ps < 2 ^ 62"
  have "align_of t p < 62 \<and> size_of t p < 2 ^ 62" if "p \<in> set ps" for p
  proof -
    have "2 ^ align_of t p + size_of t p < 2 ^ 62" using space_needed_member [OF that] s by (rule le_less_trans)
    then have "(2::nat) ^ align_of t p < 2 ^ 62" "size_of t p < 2 ^ 62" by linarith+
    then show ?thesis using power_less_exp by blast
  qed
  then show ?thesis by (simp add: small_space_def)
qed

lemma round_up_0: "round_up 0 n = 0"
  by (simp add: round_up_def Let_def)

lemma unat_bridge_size:
  assumes "res_base r = 0" "unat (res_gran r) < 62" "unat b < 2 ^ 62"
  shows "unat b \<le> unat (bridge_size b r)"
proof -
  have "(2::nat) ^ unat (res_gran r) \<le> 2 ^ 62" using assms(2) by (intro power_increasing) simp_all
  then have "unat (round_up b (unat (res_gran r))) = ceil_pow (unat b) (unat (res_gran r))"
    using assms(2,3) by (intro unat_round_up) simp_all
  then show ?thesis using ceil_pow_ge assms(1) by (simp add: bridge_size_def round_up_0)
qed

lemma shape_not_io: "same_shape t t' \<Longrightarrow> res_ok t p \<Longrightarrow> not_io t' p = not_io t p"
  using shape_flags [of t t' p IORESOURCE_IO] by (simp add: not_io_def)

text \<open>What computing leaves on one bus: the layout that its window was sized for.\<close>

lemma computed_layout:
  assumes v: "bus_visits (Suc n) t bus tm ty = Some l" "distinct (map fst l)" "plain_mask tm" "length l < k"
    and io: "\<forall>p \<in> set (map fst l). not_io t p"
    and bridge: "\<not> below t bus (fst bridge)" "res_ok t bridge" "res_base (get_res t bridge) = 0"
      "unat (res_gran (get_res t bridge)) < 62"
    and run: "compute_resources (Suc n) k bus bridge tm ty t = Some t1"
    and room: "space_needed t1 (map fst l) < 2 ^ 62"
  obtains e where "same_shape t t1" "res_base (get_res t1 bridge) = 0" "e \<le> size_of t1 bridge"
    "laid (align_of t1) (size_of t1) (base_of t1) 0 (alloc_order t1 (reval t1 l)) e"
    "\<forall>p \<in> set (alloc_order t1 (reval t1 l)). size_of t1 p \<noteq> 0 \<longrightarrow> align_of t1 p \<le> align_of t1 bridge \<and> limit_of t1 bridge \<le> limit_of t1 p"
proof -
  have br: "bridge \<notin> set (map fst l)" using bus_visits_below [OF v(1)] bridge(1) by fastforce
  have r0: "round_up (res_base (get_res t bridge)) (align_of t bridge) = 0" using bridge(3) by (simp add: round_up_0)
  obtain tc td b' where c: "each_child_bridge (compute_resources n k) bus tm ty t = Some tc"
    and lp: "each_largest k (Suc n) bus tm ty (compute_one bridge) None (tc, 0) = Some (td, b')"
    and t1: "t1 = upd_res bridge (\<lambda>b. b\<lparr>res_size := bridge_size b' b\<rparr>) td"
    using run by (auto simp: Let_def r0)
  note ch = each_child_bridge_untouched [OF compute_pass c]
  have sc: "same_shape t tc" using ch(1) by (simp add: untouched_def)
  have brc: "get_res tc bridge = get_res t bridge" using ch(2) bridge(1) by simp
  have vc: "bus_visits (Suc n) tc bus tm ty = Some (reval tc l)" using bus_visits_shape [OF sc v(3)] v(1) by simp
  let ?ps = "alloc_order tc (reval tc l)"
  have dc: "distinct (map fst (reval tc l))" "bridge \<notin> set (map fst (reval tc l))" using v(2) br by simp_all
  have fold: "fold (compute_one bridge) ?ps (tc, 0) = (td, b')"
  proof -
    have "each_largest k (Suc n) bus tm ty (compute_one bridge) None (tc, 0) = Some (fold (compute_one bridge) ?ps (tc, 0))"
      by (rule each_largest_fold [OF vc dc(1) v(3)])
        (use compute_one_keys [OF vc _ dc(2)] length_alloc_order [of tc "reval tc l"] v(4) in simp_all)
    then show ?thesis using lp by simp
  qed
  have sub: "set ?ps \<subseteq> set (map fst l)" by (auto simp: set_alloc_order)
  have ok: "\<forall>p \<in> set (map fst l). res_ok t p" using bus_visits_ptr [OF v(1)] by auto
  have okc: "\<forall>p \<in> set ?ps. res_ok tc p \<and> not_io tc p" "res_ok tc bridge"
    using sub ok io bridge(2) shape_not_io [OF sc] res_ok_shape [OF sc] by (blast, blast)
  have g1: "get_res t1 q = get_res td q" if "q \<noteq> bridge" for q using that by (simp add: t1 get_upd_res_other)
  have keys: "same_keys (reval tc l) tc td"
  proof -
    have "same_keys (reval tc l) tc (fst (fold (compute_one bridge) qs s))" if "same_keys (reval tc l) tc (fst s)" for qs s
      using that by (induction qs arbitrary: s) (simp_all add: compute_one_keys [OF vc _ dc(2)])
    from this [of "(tc, 0)" ?ps] show ?thesis using fold by (simp add: same_keys_def)
  qed
  have same: "align_of t1 p = align_of tc p \<and> size_of t1 p = size_of tc p" if p: "p \<in> set (map fst l)" for p
  proof -
    have "alloc_key_of td p = alloc_key_of tc p" using same_keysD [OF keys] p by simp
    moreover have "p \<noteq> bridge" using br p by blast
    ultimately show ?thesis using g1 [of p] by (simp add: alloc_key_of_def)
  qed
  have "space_needed tc (map fst l) = space_needed t1 (map fst l)"
    unfolding space_needed_def by (rule arg_cong [of _ _ sum_list], rule map_cong) (use same in auto)
  then have room': "space_needed tc ?ps < 2 ^ 62" using space_needed_order [OF dc(1), of tc tc] room by simp
  have cl: "(\<forall>q. q \<notin> set ?ps \<longrightarrow> q \<noteq> bridge \<longrightarrow> get_res td q = get_res tc q) \<and> same_shape tc td
    \<and> (\<forall>p \<in> set ?ps. same_size tc td p \<and> res_flags (get_res td p) = res_flags (get_res tc p) \<and> limit_of td p = limit_of tc p)
    \<and> sized (get_res tc bridge) (get_res td bridge) \<and> align_of tc bridge \<le> align_of td bridge \<and> limit_of td bridge \<le> limit_of tc bridge
    \<and> laid (align_of tc) (size_of tc) (base_of td) (unat (0::resource_t)) ?ps (unat b') \<and> unat b' \<le> unat (0::resource_t) + space_needed tc ?ps
    \<and> (\<forall>p \<in> set ?ps. size_of tc p \<noteq> 0 \<longrightarrow> align_of tc p \<le> align_of td bridge \<and> limit_of td bridge \<le> limit_of tc p)"
    using dc sub br room' by (intro compute_loop [OF distinct_alloc_order [OF dc(1)] okc _ _ fold]) auto
  have sd: "same_shape tc td" using cl by blast
  have t1b: "get_res t1 bridge = (get_res td bridge)\<lparr>res_size := bridge_size b' (get_res td bridge)\<rparr>"
    using okc(2) res_ok_shape [OF sd] by (simp add: t1 get_upd_res)
  have s1: "same_shape td t1" unfolding t1 by (rule same_shape_upd) (simp add: res_core_def)
  have k1: "same_keys (reval tc l) tc t1"
    using same_shape_trans [OF sd s1] same unfolding same_keys_def alloc_key_of_def by (simp add: word_unat_eq_iff)
  have order: "alloc_order t1 (reval t1 l) = ?ps" using alloc_order_same_keys [OF vc k1] by simp
  have tdb: "res_base (get_res td bridge) = 0" "res_gran (get_res td bridge) = res_gran (get_res t bridge)"
    using cl brc bridge(3) by (auto simp: sized_def)
  have e: "unat b' \<le> size_of t1 bridge"
    unfolding t1b using cl room' tdb bridge(4) by (simp add: unat_bridge_size)
  have br': "bridge \<notin> set ?ps" using sub br by blast
  have f1: "\<forall>p \<in> set ?ps. align_of tc p = align_of t1 p \<and> size_of tc p = size_of t1 p \<and> base_of td p = base_of t1 p"
  proof
    fix p assume p: "p \<in> set ?ps"
    then have "p \<noteq> bridge" "p \<in> set (map fst l)" using br' sub by blast+
    then show "align_of tc p = align_of t1 p \<and> size_of tc p = size_of t1 p \<and> base_of td p = base_of t1 p"
      using same [of p] g1 [of p] by simp
  qed
  show thesis
  proof (rule that [of "unat b'"])
    show "same_shape t t1" using sc sd s1 same_shape_trans by blast
    show "res_base (get_res t1 bridge) = 0" using tdb by (simp add: t1b)
    show "laid (align_of t1) (size_of t1) (base_of t1) 0 (alloc_order t1 (reval t1 l)) (unat b')"
      unfolding order using cl laid_cong [OF f1] by simp
    show "\<forall>p \<in> set (alloc_order t1 (reval t1 l)). size_of t1 p \<noteq> 0 \<longrightarrow> align_of t1 p \<le> align_of t1 bridge \<and> limit_of t1 bridge \<le> limit_of t1 p"
      unfolding order
    proof (intro ballI impI)
      fix p assume p: "p \<in> set ?ps" "size_of t1 p \<noteq> 0"
      then have "align_of tc p \<le> align_of td bridge" "limit_of td bridge \<le> limit_of tc p" using cl f1 by simp_all
      moreover have "limit_of t1 p = limit_of tc p" using cl p(1) br' g1 by (metis)
      ultimately show "align_of t1 p \<le> align_of t1 bridge \<and> limit_of t1 bridge \<le> limit_of t1 p"
        using f1 p(1) by (simp add: t1b)
    qed
  qed (rule e)
qed


lemma noted_fields:
  "noted r r' \<Longrightarrow> res_base r' = res_base r \<and> res_size r' = res_size r
     \<and> (res_flags r AND IORESOURCE_ASSIGNED \<noteq> 0 \<longrightarrow> res_flags r' AND IORESOURCE_ASSIGNED \<noteq> 0)"
proof -
  have "(f OR IORESOURCE_ASSIGNED) AND IORESOURCE_ASSIGNED = IORESOURCE_ASSIGNED" for f :: u32
    by (rule bit_word_eqI) (simp only: bit_and_iff bit_or_iff, blast)
  then show "noted r r' \<Longrightarrow> ?thesis" by (auto simp: noted_def)
qed

lemma allocated_layout:
  assumes v: "bus_visits n t bus tm ty = Some l" "distinct (map fst l)" "plain_mask tm" "length l < k"
    and io: "\<forall>p \<in> set (map fst l). not_io t p" and bridge: "bridge \<notin> set (map fst l)" "res_ok t bridge"
    and room: "space_needed t (map fst l) < 2 ^ 62"
    and laid: "laid (align_of t) (size_of t) (base_of t) 0 (alloc_order t l) e"
    and lims: "\<forall>p \<in> set (alloc_order t l). size_of t p \<noteq> 0 \<longrightarrow> 2 ^ align_of t p dvd unat x \<and> unat y \<le> limit_of t p"
    and window: "unat x + e \<le> unat y + 1" "unat x \<le> 2 ^ 62" "unat y < 2 ^ 62"
    and run: "each_largest k n bus tm ty (allocate_one bridge) None (upd_res bridge (\<lambda>r. r\<lparr>res_base := x, res_limit := y\<rparr>) t, x) = Some (t', x')"
  shows "same_shape t t' \<and> (\<forall>p \<in> set (alloc_order t l). size_of t p \<noteq> 0 \<longrightarrow>
    base_of t' p = unat x + base_of t p \<and> assigned t' p \<and> size_of t' p = size_of t p)"
proof -
  let ?t2 = "upd_res bridge (\<lambda>r. r\<lparr>res_base := x, res_limit := y\<rparr>) t" and ?ps = "alloc_order t l"
  have s12: "same_shape t ?t2" by (rule same_shape_upd) (simp add: res_core_def)
  have g2: "get_res ?t2 q = (if q = bridge then (get_res t bridge)\<lparr>res_base := x, res_limit := y\<rparr> else get_res t q)" for q
    using bridge(2) by (simp add: get_upd_res)
  have sub: "set ?ps \<subseteq> set (map fst l)" by (auto simp: set_alloc_order)
  then have brp: "bridge \<notin> set ?ps" using bridge(1) by blast
  then have eq: "get_res ?t2 p = get_res t p" if "p \<in> set ?ps" for p using g2 that by metis
  have keys: "same_keys l t ?t2"
    using s12 g2 bridge(1) unfolding same_keys_def alloc_key_of_def by (metis (no_types, lifting))
  have v2: "bus_visits n ?t2 bus tm ty = Some (reval ?t2 l)" using bus_visits_shape [OF s12 v(3)] v(1) by simp
  have "each_largest k n bus tm ty (allocate_one bridge) None (?t2, x) = Some (fold (allocate_one bridge) (alloc_order ?t2 (reval ?t2 l)) (?t2, x))"
    by (rule each_largest_fold [OF v2 _ v(3)])
      (use allocate_one_keys [OF v2] length_alloc_order [of ?t2 "reval ?t2 l"] v(2,4) in simp_all)
  then have fold: "fold (allocate_one bridge) ?ps (?t2, x) = (t', x')"
    using run alloc_order_same_keys [OF v(1) keys] by simp
  have ok: "\<forall>p \<in> set ?ps. res_ok ?t2 p \<and> not_io ?t2 p"
    using sub alloc_order_ok [OF v(1)] io res_ok_shape [OF s12] shape_not_io [OF s12] by blast
  have "space_needed t ?ps < 2 ^ 62" using space_needed_order [OF v(2), of t t] room by simp
  then have small: "small_space ?t2 ?ps" using small_space_needed [of t ?ps] eq by (simp add: small_space_def)
  have "laid (align_of ?t2) (size_of ?t2) (base_of t) 0 ?ps e = laid (align_of t) (size_of t) (base_of t) 0 ?ps e"
    by (rule laid_cong) (simp add: eq)
  then have l2: "laid (align_of ?t2) (size_of ?t2) (base_of t) 0 ?ps e" using laid by simp
  have fit: "\<forall>p \<in> set ?ps. size_of ?t2 p \<noteq> 0 \<longrightarrow> 2 ^ align_of ?t2 p dvd unat x \<and> unat x + e \<le> lowest_limit ?t2 bridge p + 1"
    using lims window(1) eq by (auto simp: lowest_limit_def g2 min_def)
  have "limit_of ?t2 bridge < 2 ^ 62" "unat x = unat x + 0" using window(3) by (simp_all add: g2)
  note a = allocate_laid [OF distinct_alloc_order [OF v(2)] ok brp small this(1) window(2) this(2) l2 fit fold]
  have "same_shape ?t2 t'" using allocate_loop_frame [OF run] by (simp add: untouched_def)
  then show ?thesis using a eq same_shape_trans [OF s12] by simp
qed

text \<open>
  C2.  The two passes agree: when the window of a bus is put, with the size and alignment that
  \<^verbatim>\<open>compute_resources\<close> gave it, at any aligned place where it ends below its limit, then
  \<^verbatim>\<open>allocate_resources\<close> assigns every memory resource of the bus a place inside the window,
  each at the offset that the first pass computed for it.
\<close>
theorem computed_window_fits:
  assumes tree: "tree_ok t rk" "\<forall>p \<in> set (map fst l). fst p \<in> set (b_children (buses t bus))"
    and v: "bus_visits (Suc n) t bus tm ty = Some l" "distinct (map fst l)" "plain_mask tm" "length l < k"
    and io: "\<forall>p \<in> set (map fst l). not_io t p"
    and bridge: "\<not> below t bus (fst bridge)" "res_ok t bridge" "res_base (get_res t bridge) = 0" "unat (res_gran (get_res t bridge)) < 62"
    and computed: "compute_resources (Suc n) k bus bridge tm ty t = Some t1"
    and room: "space_needed t1 (map fst l) < 2 ^ 62"
    and window: "2 ^ align_of t1 bridge dvd unat x" "unat x + size_of t1 bridge \<le> unat y + 1" "unat y \<le> limit_of t1 bridge" "unat y < 2 ^ 62"
    and allocated: "allocate_resources (Suc n) k bus bridge tm ty (upd_res bridge (\<lambda>r. r\<lparr>res_base := x, res_limit := y\<rparr>) t1) = Some t3"
  shows "\<forall>p \<in> set (map fst l). \<not> is_fixed t1 p \<longrightarrow> size_of t1 p \<noteq> 0 \<longrightarrow>
    assigned t3 p \<and> base_of t3 p = unat x + base_of t1 p \<and> size_of t3 p = size_of t1 p \<and> base_of t1 p + size_of t1 p \<le> size_of t1 bridge"
proof -
  obtain e where s1: "same_shape t t1" and e: "e \<le> size_of t1 bridge"
    and laid: "laid (align_of t1) (size_of t1) (base_of t1) 0 (alloc_order t1 (reval t1 l)) e"
    and lims: "\<forall>p \<in> set (alloc_order t1 (reval t1 l)). size_of t1 p \<noteq> 0 \<longrightarrow> align_of t1 p \<le> align_of t1 bridge \<and> limit_of t1 bridge \<le> limit_of t1 p"
    using computed_layout [OF v io bridge computed room] by blast
  let ?t2 = "upd_res bridge (\<lambda>r. r\<lparr>res_base := x, res_limit := y\<rparr>) t1" and ?l = "reval t1 l"
  let ?assign = "\<lambda>b. b\<lparr>res_flags := res_flags b OR IORESOURCE_ASSIGNED\<rparr>"
  have br: "bridge \<notin> set (map fst l)" using bus_visits_below [OF v(1)] bridge(1) by fastforce
  have v1: "bus_visits (Suc n) t1 bus tm ty = Some ?l" using bus_visits_shape [OF s1 v(3)] v(1) by simp
  have ok1: "res_ok t1 bridge" using bridge(2) res_ok_shape [OF s1] by simp
  have io1: "\<forall>p \<in> set (map fst ?l). not_io t1 p"
    using io bus_visits_ptr [OF v(1)] shape_not_io [OF s1] by fastforce
  obtain t4 x4 where lp: "each_largest k (Suc n) bus tm ty (allocate_one bridge) None (?t2, x) = Some (t4, x4)"
    and ch: "each_child_bridge (allocate_resources n k) bus tm ty (upd_res bridge ?assign t4) = Some t3"
    using allocated ok1 by (auto simp: get_upd_res)
  have d: "distinct (map fst ?l)" "length ?l < k" "bridge \<notin> set (map fst ?l)" "space_needed t1 (map fst ?l) < 2 ^ 62"
    using v(2,4) br room by simp_all
  have fit: "\<forall>p \<in> set (alloc_order t1 ?l). size_of t1 p \<noteq> 0 \<longrightarrow> 2 ^ align_of t1 p dvd unat x \<and> unat y \<le> limit_of t1 p"
    using lims window(1,3) by (meson dvd_trans le_imp_power_dvd order_trans)
  have xy: "unat x + e \<le> unat y + 1" "unat x \<le> 2 ^ 62" using window(2,4) e by linarith+
  note a = allocated_layout [OF v1 d(1) v(3) d(2) io1 d(3) ok1 d(4) laid fit xy window(4) lp]
  have "same_shape t4 (upd_res bridge ?assign t4)" by (rule same_shape_upd) (simp add: res_core_def core_flags_assign)
  then have s4: "same_shape t (upd_res bridge ?assign t4)" using a s1 same_shape_trans by blast
  show ?thesis
  proof (intro ballI impI)
    fix p assume p: "p \<in> set (map fst l)" "\<not> is_fixed t1 p" "size_of t1 p \<noteq> 0"
    then have ps: "p \<in> set (alloc_order t1 ?l)" and ne: "p \<noteq> bridge" using br by (auto simp: set_alloc_order)
    have "fst p \<in> set (b_children (buses t bus))" using tree(2) p(1) by blast
    then have "noted (get_res (upd_res bridge ?assign t4) p) (get_res t3 p)"
      using al.each_child_bridge_child [OF ch, of p] child_not_below_link [OF tree(1)]
      by (simp add: same_shape_below [OF s4] same_shapeD [OF s4])
    then have "noted (get_res t4 p) (get_res t3 p)" by (simp add: get_upd_res_other ne)
    then show "assigned t3 p \<and> base_of t3 p = unat x + base_of t1 p \<and> size_of t3 p = size_of t1 p \<and> base_of t1 p + size_of t1 p \<le> size_of t1 bridge"
      using noted_fields a ps p(3) laid_bounds [OF laid] e unfolding assigned_def by fastforce
  qed
qed

text \<open>The same bus below a window that is not placed yet, with a granularity of 1 MiB.\<close>

definition example_window_tree :: devtree where
  "example_window_tree = example_alloc_tree\<lparr>devs := (devs example_alloc_tree)(1 := example_device\<lparr>d_link_list := [1],
     d_resource_list := [zero_resource\<lparr>res_limit := 0xffffffff, res_gran := 20, res_align := 20, res_flags := IORESOURCE_MEM OR IORESOURCE_BRIDGE\<rparr>]\<rparr>)\<rparr>"

lemmas example_window_simps = example_window_tree_def example_alloc_simps

definition example_place :: "devtree \<Rightarrow> devtree" where
  "example_place = upd_res (1, 0) (\<lambda>r. r\<lparr>res_base := 0xe0000000, res_limit := 0xefffffff\<rparr>)"

lemma example_window_computed:
  obtains t1 t3 where "compute_resources (Suc 0) 3 1 (1, 0) IORESOURCE_MEM IORESOURCE_MEM example_window_tree = Some t1"
    "allocate_resources (Suc 0) 3 1 (1, 0) IORESOURCE_MEM IORESOURCE_MEM (example_place t1) = Some t3"
    "map (\<lambda>p. (res_base (get_res t1 p), res_size (get_res t1 p), res_limit (get_res t1 p), res_align (get_res t1 p), res_flags (get_res t1 p))) [(1,0), (2,0), (3,0)]
       = [(0, 0x200000, 0xffffffff, 20, 0x80200), (0x100000, 0x1000, 0xffffffff, 12, 0x200), (0, 0x100000, 0xffffffff, 20, 0x200)]"
proof -
  have c: "map_option (\<lambda>t1. (map (\<lambda>p. (res_base (get_res t1 p), res_size (get_res t1 p), res_limit (get_res t1 p), res_align (get_res t1 p), res_flags (get_res t1 p))) [(1,0), (2,0), (3,0)],
       allocate_resources (Suc 0) 3 1 (1, 0) IORESOURCE_MEM IORESOURCE_MEM (example_place t1) = None))
     (compute_resources (Suc 0) 3 1 (1, 0) IORESOURCE_MEM IORESOURCE_MEM example_window_tree)
     = Some ([(0, 0x200000, 0xffffffff, 20, 0x80200), (0x100000, 0x1000, 0xffffffff, 12, 0x200), (0, 0x100000, 0xffffffff, 20, 0x200)], False)"
    by code_simp
  then show thesis using that by (auto simp del: compute_resources.simps allocate_resources.simps)
qed

theorem computed_window_fits_witness:
  "\<exists>t1 t3. compute_resources (Suc 0) 3 1 (1, 0) IORESOURCE_MEM IORESOURCE_MEM example_window_tree = Some t1
    \<and> allocate_resources (Suc 0) 3 1 (1, 0) IORESOURCE_MEM IORESOURCE_MEM (example_place t1) = Some t3
    \<and> assigned t3 (2, 0) \<and> base_of t3 (2, 0) = 0xe0100000"
proof -
  let ?t = example_window_tree
  let ?l = "[((2, 0), get_res ?t (2, 0)), ((3, 0), get_res ?t (3, 0))] :: (res_ptr \<times> resource) list"
  obtain t1 t3 where run: "compute_resources (Suc 0) 3 1 (1, 0) IORESOURCE_MEM IORESOURCE_MEM ?t = Some t1"
    "allocate_resources (Suc 0) 3 1 (1, 0) IORESOURCE_MEM IORESOURCE_MEM (example_place t1) = Some t3"
    and r: "map (\<lambda>p. (res_base (get_res t1 p), res_size (get_res t1 p), res_limit (get_res t1 p), res_align (get_res t1 p), res_flags (get_res t1 p))) [(1,0), (2,0), (3,0)]
       = [(0, 0x200000, 0xffffffff, 20, 0x80200), (0x100000, 0x1000, 0xffffffff, 12, 0x200), (0, 0x100000, 0xffffffff, 20, 0x200)]"
    by (rule example_window_computed)
  have ch: "b_children (buses ?t b) = (if b = 1 then [2, 3] else [])" "d_link_list (devs ?t d) = (if d = 1 then [1] else [])" for b d
    by (auto simp: example_window_simps)
  have tree: "tree_ok ?t (\<lambda>_. 0)" by (auto simp: tree_ok_def bus_rank_def ch split: if_splits)
  have nb: "\<not> below ?t 1 1" 
  proof
    assume "below ?t 1 1"
    then show False by (rule belowE) (auto simp: ch split: if_splits)
  qed
  have v: "bus_visits (Suc 0) ?t 1 IORESOURCE_MEM IORESOURCE_MEM = Some ?l" by (simp add: example_window_simps)
  have l: "distinct (map fst ?l)" "plain_mask IORESOURCE_MEM" "length ?l < 3" "\<forall>p \<in> set (map fst ?l). fst p \<in> set (b_children (buses ?t 1))"
    by (simp_all add: ch)
  have io: "\<forall>p \<in> set (map fst ?l). not_io ?t p" by (simp add: not_io_def example_window_simps)
  have br: "\<not> below ?t 1 (fst (1, 0 :: nat))" "res_ok ?t (1, 0)" "res_base (get_res ?t (1, 0)) = 0" "unat (res_gran (get_res ?t (1, 0))) < 62"
    using nb by (simp_all add: res_ok_def) (simp_all add: example_window_simps)
  have g: "res_base (get_res t1 (2, 0)) = 0x100000" "res_size (get_res t1 (2, 0)) = 0x1000" "res_align (get_res t1 (2, 0)) = 12"
    "res_flags (get_res t1 (2, 0)) = 0x200" "res_size (get_res t1 (3, 0)) = 0x100000" "res_align (get_res t1 (3, 0)) = 20"
    "res_size (get_res t1 (1, 0)) = 0x200000" "res_align (get_res t1 (1, 0)) = 20" "res_limit (get_res t1 (1, 0)) = 0xffffffff"
    using r by simp_all
  have w: "space_needed t1 (map fst ?l) < 2 ^ 62" "2 ^ align_of t1 (1, 0) dvd unat (0xe0000000 :: resource_t)"
    "unat (0xe0000000 :: resource_t) + size_of t1 (1, 0) \<le> unat (0xefffffff :: resource_t) + 1"
    "unat (0xefffffff :: resource_t) \<le> limit_of t1 (1, 0)" "unat (0xefffffff :: resource_t) < 2 ^ 62"
    by (simp_all add: g del: One_nat_def)
  have "(2, 0) \<in> set (map fst ?l)" "\<not> is_fixed t1 (2, 0)" "size_of t1 (2, 0) \<noteq> 0" by (simp_all add: is_fixed_def g)
  then have "assigned t3 (2, 0) \<and> base_of t3 (2, 0) = unat (0xe0000000::resource_t) + base_of t1 (2, 0)"
    using computed_window_fits [OF tree l(4) v l(1-3) io br run(1) w run(2) [unfolded example_place_def]] by blast
  then show ?thesis using run g(1) by auto
qed

section \<open>Fixed resources are avoided\<close>

definition span_of :: "region \<Rightarrow> nat set" where
  "span_of lim = {unat (reg_base lim)..unat (reg_limit lim)}"

definition occupied :: "resource \<Rightarrow> nat set" where
  "occupied res = {unat (res_base res)..<unat (res_base res) + unat (res_size res)}"

lemma get_set_lim [simp]: "get_lim c (set_lim d lim limits) = (if c = d then lim else get_lim c limits)"
  by (cases c; cases d) simp_all

text \<open>
  Fixed resources of a class that a window can be kept off: none wraps, and those that end by \<open>e\<close>, one at 0 among
  them, are far below the others.  With \<open>e = 0\<close> this says that none starts at 0.
\<close>

definition keepable :: "bool \<Rightarrow> constraint_class \<Rightarrow> nat \<Rightarrow> resource \<Rightarrow> bool" where
  "keepable pref64 c e res \<longleftrightarrow>
     (res_flags res AND IORESOURCE_FIXED \<noteq> 0 \<and> res_size res \<noteq> 0 \<and> constraint_class pref64 res = Some c \<longrightarrow>
        unat (res_base res) + unat (res_size res) < 2 ^ 64
        \<and> (unat (res_base res) + unat (res_size res) \<le> e \<or> 2 * e < unat (res_base res)))"

text \<open>A region that reaches far beyond \<open>e\<close>.\<close>

definition roomy :: "nat \<Rightarrow> region \<Rightarrow> bool" where
  "roomy e lim \<longleftrightarrow> e = 0 \<or> 2 * e \<le> unat (reg_limit lim) \<and> unat (reg_limit lim) < 2 ^ 63"

definition avoided :: "bool \<Rightarrow> constraint_class \<Rightarrow> resource \<Rightarrow> constraints \<Rightarrow> bool" where
  "avoided pref64 c res limits \<longleftrightarrow> (res_flags res AND IORESOURCE_FIXED \<noteq> 0 \<longrightarrow> constraint_class pref64 res = Some c \<longrightarrow>
     occupied res \<inter> span_of (get_lim c limits) = {})"

text \<open>From \<open>l\<close> to \<open>l'\<close> the region of the class has only shrunk, and off the fixed resources of \<open>S\<close>.\<close>

definition advances :: "bool \<Rightarrow> constraint_class \<Rightarrow> nat \<Rightarrow> resource set \<Rightarrow> constraints \<Rightarrow> constraints \<Rightarrow> bool" where
  "advances pref64 c e S l l' \<longleftrightarrow> (roomy e (get_lim c l) \<longrightarrow>
     roomy e (get_lim c l') \<and> span_of (get_lim c l') \<subseteq> span_of (get_lim c l) \<and> (\<forall>res \<in> S. avoided pref64 c res l'))"

lemma advances_refl: "advances pref64 c e {} l l"
  by (simp add: advances_def)

lemma advances_trans: "advances pref64 c e S l m \<Longrightarrow> advances pref64 c e T m l' \<Longrightarrow> advances pref64 c e (S \<union> T) l l'"
  unfolding advances_def avoided_def by blast

lemma sint_diff:
  fixes x y :: u64
  assumes "- (2 ^ 63) \<le> int (unat x) - int (unat y)" "int (unat x) - int (unat y) < 2 ^ 63"
  shows "sint (x - y) = int (unat x) - int (unat y)"
proof -
  have "x - y = word_of_int (int (unat x) - int (unat y))" by simp
  then have "sint (x - y) = signed_take_bit 63 (int (unat x) - int (unat y))" by (simp only: signed_of_int) simp
  then show ?thesis using assms by (simp only: signed_take_bit_int_eq_self)
qed

text \<open>A low resource is passed above, as there is more room.\<close>

lemma low_passed_above:
  fixes l g b x :: u64
  assumes "unat x < e" "unat b \<le> unat x" "unat g \<le> unat x" "2 * e \<le> unat l" "unat l < 2 ^ 63"
  shows "sint (b - g) < sint (l - x)"
proof -
  have "int (unat l) < 2 ^ 63" using assms(5) by (simp only: of_nat_less_numeral_power_cancel_iff)
  moreover have "int (unat x) < int e" "int (unat b) \<le> int (unat x)" "int (unat g) \<le> int (unat x)" "2 * int e \<le> int (unat l)"
    using assms by linarith+
  ultimately show ?thesis by (simp only: sint_diff)
qed

lemma constrain_one_advances:
  assumes "keepable pref64 c e res"
  shows "advances pref64 c e {res} limits (constrain_one pref64 res limits)"
proof -
  consider (skip) "res_flags res AND IORESOURCE_FIXED = 0 \<or> constraint_class pref64 res \<noteq> Some c" | (empty) "res_size res = 0"
    | (hit) "res_flags res AND IORESOURCE_FIXED \<noteq> 0" "res_size res \<noteq> 0" "constraint_class pref64 res = Some c" by blast
  then show ?thesis
  proof cases
    case skip
    then have "get_lim c (constrain_one pref64 res limits) = get_lim c limits" by (auto simp: constrain_one_def Let_def split: option.splits)
    then show ?thesis using skip by (auto simp: advances_def avoided_def)
  next
    case empty
    then show ?thesis by (auto simp: advances_def avoided_def constrain_one_def occupied_def)
  next
    case hit
    let ?lim = "get_lim c limits" and ?b = "unat (res_base res)" and ?n = "unat (res_base res) + unat (res_size res)"
    have w: "?n < 2 ^ 64" "0 < unat (res_size res)" "?n \<le> e \<or> 2 * e < ?b" using assms hit by (simp_all add: keepable_def unat_gt_0)
    have u: "unat (res_base res + res_size res) = ?n" using w(1) by (intro unat_add_no_wrap) simp
    have "0 < res_base res + res_size res" using u w by (simp add: word_less_nat_alt)
    then have E: "unat (res_base res + res_size res - 1) = ?n - 1" by (simp add: unat_minus_one_pos u)
    show ?thesis
      unfolding advances_def
    proof (intro impI)
      assume roomy: "roomy e ?lim"
      let ?low = "sint (res_base res - reg_base ?lim) < sint (reg_limit ?lim - (res_base res + res_size res - 1))"
      consider (out) "?n - 1 < unat (reg_base ?lim) \<or> unat (reg_limit ?lim) < ?b"
        | (above) "unat (reg_base ?lim) \<le> ?n - 1" "?b \<le> unat (reg_limit ?lim)" "?low"
        | (below) "unat (reg_base ?lim) \<le> ?n - 1" "?b \<le> unat (reg_limit ?lim)" "\<not> ?low" by linarith
      then have "roomy e (get_lim c (constrain_one pref64 res limits))
        \<and> span_of (get_lim c (constrain_one pref64 res limits)) \<subseteq> span_of ?lim
        \<and> occupied res \<inter> span_of (get_lim c (constrain_one pref64 res limits)) = {}"
      proof cases
        case out
        then have "constrain_one pref64 res limits = limits"
          using hit by (simp add: constrain_one_def Let_def E word_less_nat_alt)
        then show ?thesis using roomy out w(2) by (auto simp: span_of_def occupied_def)
      next
        case above
        then have "get_lim c (constrain_one pref64 res limits) = ?lim\<lparr>reg_base := res_base res + res_size res\<rparr>"
          using hit by (simp add: constrain_one_def Let_def E word_less_nat_alt not_less)
        then show ?thesis using roomy above(1,2) w(2) by (auto simp: span_of_def occupied_def roomy_def u)
      next
        case below
        have "\<not> ?n \<le> e"
        proof
          assume low: "?n \<le> e"
          then have "e \<noteq> 0" using w(2) by simp
          then have "2 * e \<le> unat (reg_limit ?lim)" "unat (reg_limit ?lim) < 2 ^ 63" using roomy by (simp_all add: roomy_def)
          moreover have "?n - 1 < e" "?b \<le> ?n - 1" using low w(2) by linarith+
          ultimately show False
            using low_passed_above[of "res_base res + res_size res - 1" e "res_base res" "reg_base ?lim" "reg_limit ?lim"] below(1,3)
            unfolding E by blast
        qed
        then have far: "2 * e < ?b" using w(3) by simp
        then have m: "unat (res_base res - 1) = ?b - 1" by (intro unat_minus_one_pos) (simp add: word_less_nat_alt)
        have "get_lim c (constrain_one pref64 res limits) = ?lim\<lparr>reg_limit := res_base res - 1\<rparr>"
          using hit below by (simp add: constrain_one_def Let_def E word_less_nat_alt not_less)
        then show ?thesis using roomy below(1,2) far w(2) by (auto simp: span_of_def occupied_def roomy_def m)
      qed
      then show "roomy e (get_lim c (constrain_one pref64 res limits)) \<and> span_of (get_lim c (constrain_one pref64 res limits)) \<subseteq> span_of ?lim
        \<and> (\<forall>r \<in> {res}. avoided pref64 c r (constrain_one pref64 res limits))" by (simp add: avoided_def)
    qed
  qed
qed

lemma fold_constrain_advances:
  "\<forall>res \<in> set rs. keepable pref64 c e res \<Longrightarrow> advances pref64 c e (set rs) l (fold (constrain_one pref64) rs l)"
proof (induction rs arbitrary: l)
  case (Cons r rs)
  have "advances pref64 c e ({r} \<union> set rs) l (fold (constrain_one pref64) rs (constrain_one pref64 r l))"
    using Cons by (intro advances_trans[OF constrain_one_advances]) auto
  then show ?case by simp
qed (simp add: advances_refl)

lemma fold_opt_advances:
  assumes "\<And>x l. x \<in> set xs \<Longrightarrow> \<exists>l'. f x l = Some l' \<and> advances pref64 c e (S x) l l'"
  shows "\<exists>l'. fold_opt f xs l = Some l' \<and> advances pref64 c e (\<Union>x \<in> set xs. S x) l l'"
  using assms
proof (induction xs arbitrary: l)
  case (Cons x xs)
  obtain m where m: "f x l = Some m" "advances pref64 c e (S x) l m" using Cons.prems[of x l] by auto
  obtain l' where "fold_opt f xs m = Some l'" "advances pref64 c e (\<Union>x \<in> set xs. S x) m l'" using Cons.IH[of m] Cons.prems by auto
  then show ?case using m advances_trans by (fastforce simp: Un_commute)
qed (simp add: advances_refl)

inductive walked :: "devtree \<Rightarrow> dev_id \<Rightarrow> dev_id \<Rightarrow> bool" for t where
  self: "walked t d d"
| child: "link \<in> set (d_link_list (devs t d)) \<Longrightarrow> c \<in> set (b_children (buses t link)) \<Longrightarrow> d_enabled (devs t c)
    \<Longrightarrow> walked t c x \<Longrightarrow> walked t d x"

inductive_cases walkedE: "walked t d x"

definition walked_resources :: "devtree \<Rightarrow> dev_id \<Rightarrow> resource set" where
  "walked_resources t d = {res. \<exists>x. walked t d x \<and> res \<in> set (d_resource_list (devs t x))}"

lemma constrain_resources_advances:
  assumes rank: "bus_rank t rk"
  shows "0 < n \<Longrightarrow> \<forall>link \<in> set (d_link_list (devs t dev)). Suc (rk link) < n \<Longrightarrow> \<forall>res \<in> walked_resources t dev. keepable pref64 c e res \<Longrightarrow>
    \<exists>l'. constrain_resources n pref64 t dev l = Some l' \<and> advances pref64 c e (walked_resources t dev) l l'"
proof (induction n arbitrary: dev l)
  case (Suc n)
  let ?l1 = "fold (constrain_one pref64) (d_resource_list (devs t dev)) l"
  let ?own = "set (d_resource_list (devs t dev))"
  let ?S = "\<lambda>child. if d_enabled (devs t child) then walked_resources t child else {}"
  let ?f = "\<lambda>child l. if d_enabled (devs t child) then constrain_resources n pref64 t child l else Some l"
  have own: "?own \<subseteq> walked_resources t dev" by (auto simp: walked_resources_def intro: walked.self)
  have 1: "advances pref64 c e ?own l ?l1" using Suc.prems(3) own by (intro fold_constrain_advances) blast
  have "\<exists>l'. fold_opt ?f (b_children (buses t link)) l = Some l' \<and> advances pref64 c e (\<Union>x \<in> set (b_children (buses t link)). ?S x) l l'"
    if link: "link \<in> set (d_link_list (devs t dev))" for link l
  proof (rule fold_opt_advances)
    fix x l assume x: "x \<in> set (b_children (buses t link))"
    have "Suc (rk link) < Suc n" using Suc.prems(2) link by blast
    moreover have "rk k < rk link" if "k \<in> set (d_link_list (devs t x))" for k using rank x that by (auto simp: bus_rank_def)
    ultimately have "0 < n" "\<forall>k \<in> set (d_link_list (devs t x)). Suc (rk k) < n" by fastforce+
    moreover have "\<forall>res \<in> walked_resources t x. keepable pref64 c e res" if "d_enabled (devs t x)"
      using Suc.prems(3) that link x by (auto simp: walked_resources_def intro: walked.child)
    ultimately show "\<exists>l'. ?f x l = Some l' \<and> advances pref64 c e (?S x) l l'" using Suc.IH[of x l] by (simp add: advances_refl)
  qed
  then have "\<exists>l'. fold_opt (\<lambda>link. fold_opt ?f (b_children (buses t link))) (d_link_list (devs t dev)) ?l1 = Some l'
      \<and> advances pref64 c e (\<Union>link \<in> set (d_link_list (devs t dev)). \<Union>x \<in> set (b_children (buses t link)). ?S x) ?l1 l'"
    by (rule fold_opt_advances)
  then obtain l' where
    2: "constrain_resources (Suc n) pref64 t dev l = Some l'"
      "advances pref64 c e (\<Union>link \<in> set (d_link_list (devs t dev)). \<Union>x \<in> set (b_children (buses t link)). ?S x) ?l1 l'" by auto
  have "walked_resources t dev = ?own \<union> (\<Union>link \<in> set (d_link_list (devs t dev)). \<Union>x \<in> set (b_children (buses t link)). ?S x)"
    by (auto simp: walked_resources_def elim: walkedE intro: walked.intros split: if_splits)
  then show ?case using 2 advances_trans[OF 1 2(2)] by auto
qed simp

text \<open>The resources that lower the limit of a class at the start.\<close>

fun lowers :: "bool \<Rightarrow> constraint_class \<Rightarrow> resource \<Rightarrow> bool" where
  "lowers pref64 Pref res \<longleftrightarrow> res_flags res AND IORESOURCE_FIXED = 0 \<and> res_flags res AND MEM_MASK pref64 = PREF_TYPE"
| "lowers pref64 Mem res \<longleftrightarrow> res_flags res AND IORESOURCE_FIXED = 0 \<and> res_flags res AND MEM_MASK pref64 = MEM_TYPE"
| "lowers pref64 Io res \<longleftrightarrow> res_flags res AND IORESOURCE_FIXED = 0 \<and> res_flags res AND IO_MASK = IO_TYPE"

lemma lowers_class: "res_flags res AND IORESOURCE_FIXED = 0 \<Longrightarrow> constraint_class pref64 res = Some c \<Longrightarrow> lowers pref64 c res"
  by (cases c) (auto simp: constraint_class_def split: if_splits)

lemma initial_limit_lowers:
  "get_lim c (initial_limit pref64 res l) =
     (if lowers pref64 c res \<and> res_limit res < reg_limit (get_lim c l) then (get_lim c l)\<lparr>reg_limit := res_limit res\<rparr> else get_lim c l)"
  by (cases c) (auto simp: initial_limit_def Let_def)

lemma initial_limits_roomy:
  assumes "\<forall>r \<in> set rs. lowers pref64 c r \<longrightarrow> 2 * e \<le> unat (res_limit r) \<and> unat (res_limit r) < 2 ^ 63"
    and "2 * e \<le> unat (reg_limit (get_lim c l))" and "unat (reg_limit (get_lim c l)) < 2 ^ 63 \<or> (\<exists>r \<in> set rs. lowers pref64 c r)"
  shows "2 * e \<le> unat (reg_limit (get_lim c (fold (initial_limit pref64) rs l)))
    \<and> unat (reg_limit (get_lim c (fold (initial_limit pref64) rs l))) < 2 ^ 63"
  using assms
proof (induction rs arbitrary: l)
  case (Cons r rs)
  show ?case
    unfolding fold_simps(2) by (rule Cons.IH) (use Cons.prems in \<open>auto simp: initial_limit_lowers word_less_nat_alt not_less\<close>)
qed simp

lemma apply_limit_region:
  assumes "res_flags res AND IORESOURCE_FIXED = 0" "constraint_class pref64 res = Some c"
  shows "{unat (res_base (apply_limit pref64 limits res))..unat (res_limit (apply_limit pref64 limits res))} \<subseteq> span_of (get_lim c limits)"
  using assms by (auto simp: apply_limit_def Let_def span_of_def word_less_nat_alt)

lemma apply_limit_class:
  "constraint_class pref64 (apply_limit pref64 limits res) = constraint_class pref64 res" "res_flags (apply_limit pref64 limits res) = res_flags res"
  by (auto simp: apply_limit_def Let_def constraint_class_def split: option.splits)

text \<open>
  C15.  \<^verbatim>\<open>avoid_fixed_resources\<close> on a device tree in which the ranks of buses fall below it, with fuel for the depth, returns;
  and then the range from base to limit of every window of the domain meets no fixed resource of the same class of the domain
  or of an enabled device below it.  The fixed resources of the class must not wrap around the end of the address space;
  and there is an address \<open>e\<close> such that each of them ends by it or starts above twice of it, and all windows of the class have a
  limit between that and 2^63 (for this board's I/O ports: the legacy ports from 0 on end at 0x1000 and the windows
  reach up to 0xffff).  When no fixed resource of the class starts at 0, \<open>e = 0\<close> does, without a condition on
  the windows.  Without any condition a fixed resource at 0 can make the window grow (\<open>constrain_wraps_at_zero\<close>).
\<close>
theorem fixed_resources_avoided:
  assumes "bus_rank t rk" "0 < n" "\<forall>link \<in> set (d_link_list (devs t dev)). Suc (rk link) < n"
    and "\<forall>res \<in> walked_resources t dev. keepable pref64 c e res"
    and "e \<noteq> 0 \<longrightarrow> (\<forall>r \<in> set (d_resource_list (devs t dev)). lowers pref64 c r \<longrightarrow> 2 * e \<le> unat (res_limit r) \<and> unat (res_limit r) < 2 ^ 63)"
  shows "\<exists>t'. avoid_fixed_resources n pref64 dev t = Some t'
    \<and> (\<forall>w \<in> set (d_resource_list (devs t' dev)). \<forall>f \<in> walked_resources t dev.
         res_flags w AND IORESOURCE_FIXED = 0 \<longrightarrow> constraint_class pref64 w = Some c \<longrightarrow>
         res_flags f AND IORESOURCE_FIXED \<noteq> 0 \<longrightarrow> constraint_class pref64 f = Some c \<longrightarrow>
         {unat (res_base w)..unat (res_limit w)} \<inter> {unat (res_base f)..<unat (res_base f) + unat (res_size f)} = {})"
proof -
  let ?l0 = "fold (initial_limit pref64) (d_resource_list (devs t dev)) \<lparr>lim_pref = max_region, lim_io = max_region, lim_mem = max_region\<rparr>"
  obtain limits where l: "constrain_resources n pref64 t dev ?l0 = Some limits" "advances pref64 c e (walked_resources t dev) ?l0 limits"
    using constrain_resources_advances[OF assms(1-4), of ?l0] by blast
  let ?t' = "upd_resources dev (apply_limit pref64 limits) t"
  have "avoid_fixed_resources n pref64 dev t = Some ?t'" by (simp add: avoid_fixed_resources_def l(1))
  moreover have "{unat (res_base w)..unat (res_limit w)} \<inter> occupied f = {}"
    if w: "w \<in> set (d_resource_list (devs ?t' dev))" "res_flags w AND IORESOURCE_FIXED = 0" "constraint_class pref64 w = Some c"
      and f: "f \<in> walked_resources t dev" "res_flags f AND IORESOURCE_FIXED \<noteq> 0" "constraint_class pref64 f = Some c" for w f
  proof -
    obtain r where r: "r \<in> set (d_resource_list (devs t dev))" "w = apply_limit pref64 limits r" using w(1) by (auto simp: upd_resources_def)
    then have "lowers pref64 c r" using w(2,3) by (intro lowers_class) (simp_all add: apply_limit_class)
    moreover have "reg_limit (get_lim c \<lparr>lim_pref = max_region, lim_io = max_region, lim_mem = max_region\<rparr>) = 0xffffffffffffffff"
      by (cases c) (simp_all add: max_region_def)
    ultimately have "2 * e \<le> unat (reg_limit (get_lim c ?l0)) \<and> unat (reg_limit (get_lim c ?l0)) < 2 ^ 63" if "e \<noteq> 0"
      using r(1) assms(5) that by (intro initial_limits_roomy) fastforce+
    then have "roomy e (get_lim c ?l0)" unfolding roomy_def by blast
    then have "occupied f \<inter> span_of (get_lim c limits) = {}" using l(2) f by (simp add: advances_def avoided_def)
    moreover have "{unat (res_base w)..unat (res_limit w)} \<subseteq> span_of (get_lim c limits)"
      using apply_limit_region[of r pref64 c limits] w(2,3) by (simp add: r(2) apply_limit_class)
    ultimately show ?thesis by blast
  qed
  ultimately show ?thesis by (auto simp: occupied_def)
qed

text \<open>A fixed resource that starts at 0 and ends where the region ends: the limit wraps to the top of the address space.\<close>

lemma constrain_wraps_at_zero:
  "get_lim Mem (constrain_one False (zero_resource\<lparr>res_size := 0x1000, res_flags := IORESOURCE_MEM OR IORESOURCE_FIXED\<rparr>)
     \<lparr>lim_pref = max_region, lim_io = max_region, lim_mem = \<lparr>reg_base = 0, reg_limit = 0xfff\<rparr>\<rparr>)
   = \<lparr>reg_base = 0, reg_limit = 0xffffffffffffffff\<rparr>"
  by code_simp

text \<open>
  The port window of a domain, and the fixed ports of the devices behind it: the legacy ones from 0 on,
  a serial port among them, and a power management block.
\<close>

definition example_port :: "resource_t \<Rightarrow> resource_t \<Rightarrow> resource" where
  "example_port base sz = zero_resource\<lparr>res_base := base, res_size := sz, res_flags := IORESOURCE_IO OR IORESOURCE_FIXED\<rparr>"

definition example_fixed_tree :: devtree where
  "example_fixed_tree = example_alloc_tree\<lparr>devs := (devs example_alloc_tree)(
     1 := example_device\<lparr>d_link_list := [1],
       d_resource_list := [zero_resource\<lparr>res_limit := 0xffff, res_flags := IORESOURCE_IO OR IORESOURCE_BRIDGE\<rparr>]\<rparr>,
     2 := example_device\<lparr>d_bus := 1, d_resource_list := [example_port 0 0x1000, example_port 0x3f8 8]\<rparr>,
     3 := example_device\<lparr>d_bus := 1, d_resource_list := [example_port 0xf800 0x100]\<rparr>)\<rparr>"

lemmas example_fixed_simps = example_fixed_tree_def example_alloc_simps

lemma example_fixed_walked:
  "walked_resources example_fixed_tree 1 \<subseteq> set (d_resource_list (devs example_fixed_tree 1)) \<union> set (d_resource_list (devs example_fixed_tree 2))
     \<union> set (d_resource_list (devs example_fixed_tree 3))"
proof -
  let ?t = example_fixed_tree
  have links: "d_link_list (devs ?t 1) = [1]" "d_link_list (devs ?t 2) = []" "d_link_list (devs ?t 3) = []" "b_children (buses ?t 1) = [2, 3]"
    by (simp_all add: example_fixed_simps)
  have leaf: "x = d" if "walked ?t d x" "d = 2 \<or> d = 3" for d x
    using that(1) by (cases rule: walked.cases) (use that(2) links in auto)
  have "x = 1 \<or> x = 2 \<or> x = 3" if "walked ?t 1 x" for x
    using that
  proof (cases rule: walked.cases)
    case (child link c)
    then have "c = 2 \<or> c = 3" using links by simp
    then show ?thesis using leaf [OF child(4)] by blast
  qed simp
  then show ?thesis unfolding walked_resources_def by blast
qed

lemma example_fixed_run:
  "map_option (\<lambda>t'. d_resource_list (devs t' 1)) (avoid_fixed_resources 2 False 1 example_fixed_tree)
     = Some [zero_resource\<lparr>res_base := 0x1000, res_limit := 0xf7ff, res_flags := IORESOURCE_IO OR IORESOURCE_BRIDGE\<rparr>]"
  by code_simp

theorem fixed_resources_avoided_witness:
  "\<exists>t' w. avoid_fixed_resources 2 False 1 example_fixed_tree = Some t' \<and> d_resource_list (devs t' 1) = [w]
     \<and> {unat (res_base w)..unat (res_limit w)} \<inter> {0..<0x1000} = {}"
proof -
  let ?w = "zero_resource\<lparr>res_base := 0x1000, res_limit := 0xf7ff, res_flags := IORESOURCE_IO OR IORESOURCE_BRIDGE\<rparr>"
  let ?f = "example_port 0 0x1000"
  obtain t' where t': "avoid_fixed_resources 2 False 1 example_fixed_tree = Some t'" "d_resource_list (devs t' 1) = [?w]"
    using example_fixed_run by auto
  have rank: "bus_rank example_fixed_tree (\<lambda>_. 0)" by (auto simp: bus_rank_def example_fixed_simps split: if_splits)
  have ok: "\<forall>res \<in> walked_resources example_fixed_tree 1. keepable False Io 0x1000 res"
    using example_fixed_walked by (auto simp: example_fixed_simps example_port_def zero_resource_def keepable_def)
  have w2: "walked example_fixed_tree 1 2"
    by (rule walked.child [of 1 _ _ 2]) (auto simp: example_fixed_simps intro: walked.self)
  have f: "?f \<in> walked_resources example_fixed_tree 1"
    unfolding walked_resources_def using w2 by (intro CollectI exI [of _ 2]) (simp add: example_fixed_simps)
  have "res_flags ?w AND IORESOURCE_FIXED = 0" "constraint_class False ?w = Some Io" "res_flags ?f AND IORESOURCE_FIXED \<noteq> 0"
    "constraint_class False ?f = Some Io" by (simp_all add: constraint_class_def zero_resource_def example_port_def MEM_MASK_def)
  then have "{unat (res_base ?w)..unat (res_limit ?w)} \<inter> {unat (res_base ?f)..<unat (res_base ?f) + unat (res_size ?f)} = {}"
    using fixed_resources_avoided[OF rank _ _ ok, of 2] t' f by (auto simp: example_fixed_simps zero_resource_def)
  then show ?thesis using t' by (intro exI [of _ t'] exI [of _ ?w]) (simp add: zero_resource_def example_port_def)
qed

section \<open>The passes return\<close>

text \<open>
  What the loops need: the walk over a bus meets no resource twice and fewer than \<open>k\<close> of
  them, and behind every bridge resource there is the link that its index names.
\<close>

definition walk_ok :: "devtree \<Rightarrow> nat \<Rightarrow> bool" where
  "walk_ok t k \<longleftrightarrow> (\<forall>n bus tm ty l. plain_mask tm \<longrightarrow> bus_visits n t bus tm ty = Some l \<longrightarrow> distinct (map fst l) \<and> length l < k)"

definition link_of :: "devtree \<Rightarrow> res_ptr \<Rightarrow> bus_id option" where
  "link_of t p = find (\<lambda>b. ucast (b_link_num (buses t b)) = IOINDEX_LINK (res_index (get_res t p))) (d_link_list (devs t (fst p)))"

definition bridges_linked :: "devtree \<Rightarrow> bool" where
  "bridges_linked t \<longleftrightarrow> (\<forall>p. res_ok t p \<longrightarrow> d_link_list (devs t (fst p)) \<noteq> [] \<longrightarrow> res_flags (get_res t p) AND IORESOURCE_BRIDGE \<noteq> 0
     \<longrightarrow> link_of t p \<noteq> None)"

definition passable :: "devtree \<Rightarrow> (bus_id \<Rightarrow> nat) \<Rightarrow> nat \<Rightarrow> bool" where
  "passable t rk k \<longleftrightarrow> tree_ok t rk \<and> walk_ok t k \<and> bridges_linked t"

lemma tree_ok_shape: "same_shape t t' \<Longrightarrow> tree_ok t' rk = tree_ok t rk"
  by (simp add: tree_ok_def bus_rank_def same_shapeD)

lemma walk_ok_shape:
  assumes "same_shape t t'" "walk_ok t k"
  shows "walk_ok t' k"
  unfolding walk_ok_def
proof (intro allI impI)
  fix n bus tm ty l assume p: "plain_mask tm" and v: "bus_visits n t' bus tm ty = Some l"
  then obtain l0 where "bus_visits n t bus tm ty = Some l0" "l = reval t' l0" using bus_visits_shape [OF assms(1) p] by auto
  moreover have "length (reval t' l0) = length l0" by (simp add: reval_def)
  ultimately show "distinct (map fst l) \<and> length l < k" using assms(2) p unfolding walk_ok_def by (metis map_fst_reval)
qed

lemma shape_core_get: "same_shape t t' \<Longrightarrow> res_ok t p \<Longrightarrow> res_core (get_res t' p) = res_core (get_res t p)"
  using same_shape_core [of t t' "snd p" "fst p"] by (simp add: get_res_def res_ok_def)

lemma link_of_shape: "same_shape t t' \<Longrightarrow> res_ok t p \<Longrightarrow> link_of t' p = link_of t p"
  using shape_core_get [of t t' p] by (simp add: link_of_def same_shapeD res_core_def)

lemma bridges_linked_shape:
  assumes "same_shape t t'" "bridges_linked t"
  shows "bridges_linked t'"
  unfolding bridges_linked_def
proof (intro allI impI)
  fix p assume p: "res_ok t' p" "d_link_list (devs t' (fst p)) \<noteq> []" "res_flags (get_res t' p) AND IORESOURCE_BRIDGE \<noteq> 0"
  then have ok: "res_ok t p" using res_ok_shape [OF assms(1)] by simp
  have "res_flags (get_res t p) AND IORESOURCE_BRIDGE \<noteq> 0"
    using p(3) shape_flags [OF assms(1) ok, of IORESOURCE_BRIDGE] by simp
  then show "link_of t' p \<noteq> None"
    using assms p(2) ok unfolding link_of_shape [OF assms(1) ok] bridges_linked_def same_shapeD [OF assms(1)] by blast
qed

lemma passable_shape: "same_shape t t' \<Longrightarrow> passable t rk k \<Longrightarrow> passable t' rk k"
  by (simp add: passable_def tree_ok_shape walk_ok_shape bridges_linked_shape)

lemma fold_opt_returns:
  "P s \<Longrightarrow> (\<And>x s. x \<in> set xs \<Longrightarrow> P s \<Longrightarrow> \<exists>s'. f x s = Some s' \<and> P s') \<Longrightarrow> \<exists>s'. fold_opt f xs s = Some s' \<and> P s'"
proof (induction xs arbitrary: s)
  case (Cons x xs)
  then obtain s1 where s1: "f x s = Some s1" "P s1" by (meson list.set_intros(1))
  have "\<exists>s'. fold_opt f xs s1 = Some s' \<and> P s'" by (rule Cons.IH [OF s1(2)], rule Cons.prems(2)) simp_all
  then show ?case using s1(1) by simp
qed simp

lemma plain_mask_prefetch: "plain_mask tm \<Longrightarrow> plain_mask (tm OR IORESOURCE_PREFETCH)"
  by (simp add: bit.conj_disj_distrib2)

context tree_pass
begin

lemma each_child_bridge_returns:
  assumes ok: "passable t rk k" and tm: "plain_mask tm"
    and returns: "\<And>u link dev i tm ty. same_shape t u \<Longrightarrow> dev \<in> set (b_children (buses t bus)) \<Longrightarrow> link \<in> set (d_link_list (devs t dev)) \<Longrightarrow>
      plain_mask tm \<Longrightarrow> res_ok t (dev, i) \<Longrightarrow> \<exists>u'. pass link (dev, i) tm ty u = Some u'"
  shows "\<exists>t'. each_child_bridge pass bus tm ty t = Some t'"
proof -
  let ?P = "\<lambda>u. same_shape t u"
  have "\<exists>t'. each_child_bridge pass bus tm ty t = Some t' \<and> ?P t'"
    unfolding each_child_bridge_def
  proof (rule fold_opt_returns)
    fix dev u assume d: "dev \<in> set (b_children (buses t bus))" and u: "?P u"
    note s = same_shapeD [OF u]
    have "\<exists>u'. fold_opt (\<lambda>i t.
             let child_bridge = get_res t (dev, i) in
             if res_flags child_bridge AND IORESOURCE_BRIDGE = 0 \<or> res_flags child_bridge AND tm \<noteq> ty then Some t
             else case find (\<lambda>b. ucast (b_link_num (buses t b)) = IOINDEX_LINK (res_index child_bridge)) (d_link_list (devs t dev)) of
                    None \<Rightarrow> None
                  | Some link \<Rightarrow> pass link (dev, i) (tm OR IORESOURCE_PREFETCH) (ty OR (res_flags child_bridge AND IORESOURCE_PREFETCH)) t)
           [0..<length (d_resource_list (devs u dev))] u = Some u' \<and> ?P u'" if links: "d_link_list (devs u dev) \<noteq> []"
    proof (rule fold_opt_returns [where P = ?P])
      show "?P u" by (rule u)
    next
      fix i v assume i: "i \<in> set [0..<length (d_resource_list (devs u dev))]" and v: "?P v"
      note sv = same_shapeD [OF v]
      have rt: "res_ok t (dev, i)" using i s by (simp add: res_ok_def)
      then have rv: "res_ok v (dev, i)" using res_ok_shape [OF v] by simp
      show "\<exists>u'. (let child_bridge = get_res v (dev, i) in
             if res_flags child_bridge AND IORESOURCE_BRIDGE = 0 \<or> res_flags child_bridge AND tm \<noteq> ty then Some v
             else case find (\<lambda>b. ucast (b_link_num (buses v b)) = IOINDEX_LINK (res_index child_bridge)) (d_link_list (devs v dev)) of
                    None \<Rightarrow> None
                  | Some link \<Rightarrow> pass link (dev, i) (tm OR IORESOURCE_PREFETCH) (ty OR (res_flags child_bridge AND IORESOURCE_PREFETCH)) v) = Some u' \<and> ?P u'"
      proof (cases "res_flags (get_res v (dev, i)) AND IORESOURCE_BRIDGE = 0 \<or> res_flags (get_res v (dev, i)) AND tm \<noteq> ty")
        case True
        then show ?thesis using v by (simp add: Let_def)
      next
        case False
        have "bridges_linked v" using passable_shape [OF v ok] by (simp add: passable_def)
        then have "link_of v (dev, i) \<noteq> None" using False rv links s sv by (simp add: bridges_linked_def)
        then obtain link where link: "find (\<lambda>b. ucast (b_link_num (buses v b)) = IOINDEX_LINK (res_index (get_res v (dev, i)))) (d_link_list (devs v dev)) = Some link"
          by (auto simp: link_of_def)
        then have "link \<in> set (d_link_list (devs t dev))" by (auto simp: find_Some_iff sv)
        then obtain u' where u': "pass link (dev, i) (tm OR IORESOURCE_PREFETCH) (ty OR (res_flags (get_res v (dev, i)) AND IORESOURCE_PREFETCH)) v = Some u'"
          using returns [OF v d _ plain_mask_prefetch [OF tm] rt] by blast
        then have "?P u'" using same_shape_trans [OF v pass_shape [OF u']] by blast
        then show ?thesis using False link u' by (simp add: Let_def)
      qed
    qed
    then show "\<exists>u'. (if d_link_list (devs u dev) = [] then Some u else fold_opt (\<lambda>i t.
             let child_bridge = get_res t (dev, i) in
             if res_flags child_bridge AND IORESOURCE_BRIDGE = 0 \<or> res_flags child_bridge AND tm \<noteq> ty then Some t
             else case find (\<lambda>b. ucast (b_link_num (buses t b)) = IOINDEX_LINK (res_index child_bridge)) (d_link_list (devs t dev)) of
                    None \<Rightarrow> None
                  | Some link \<Rightarrow> pass link (dev, i) (tm OR IORESOURCE_PREFETCH) (ty OR (res_flags child_bridge AND IORESOURCE_PREFETCH)) t)
           [0..<length (d_resource_list (devs u dev))] u) = Some u' \<and> ?P u'"
      using u by (cases "d_link_list (devs u dev) = []") simp_all
  qed simp
  then show ?thesis by blast
qed

end

lemma loop_returns:
  assumes ok: "passable t rk k" and tm: "plain_mask tm" and rank: "rk bus < n" and bridge: "\<not> below t bus (fst bridge)"
  shows "\<exists>t' b'. each_largest k n bus tm ty (allocate_one bridge) None (t, b) = Some (t', b') \<and> same_shape t t'"
    and "\<exists>t' b'. each_largest k n bus tm ty (compute_one bridge) None (t, b) = Some (t', b') \<and> same_shape t t'"
proof -
  have "bus_rank t rk" using ok by (simp add: passable_def tree_ok_def)
  then obtain l where l: "bus_visits n t bus tm ty = Some l" using rank bus_visits_enough_fuel by blast
  then have d: "distinct (map fst l)" "length (alloc_order t l) < k"
    using ok tm length_alloc_order [of t l] by (auto simp: passable_def walk_ok_def intro: le_less_trans)
  have nb: "bridge \<notin> set (map fst l)" using bus_visits_below [OF l] bridge by auto
  have "each_largest k n bus tm ty (allocate_one bridge) None (t, b) = Some (fold (allocate_one bridge) (alloc_order t l) (t, b))"
    by (rule each_largest_fold [OF l d(1) tm]) (use allocate_one_keys [OF l] d in simp_all)
  then show "\<exists>t' b'. each_largest k n bus tm ty (allocate_one bridge) None (t, b) = Some (t', b') \<and> same_shape t t'"
    using allocate_loop_frame(1) [of k n bus tm ty bridge None "(t, b)"] by (metis untouched_def prod.collapse fst_conv)
  have "each_largest k n bus tm ty (compute_one bridge) None (t, b) = Some (fold (compute_one bridge) (alloc_order t l) (t, b))"
    by (rule each_largest_fold [OF l d(1) tm]) (use compute_one_keys [OF l] nb d in simp_all)
  then show "\<exists>t' b'. each_largest k n bus tm ty (compute_one bridge) None (t, b) = Some (t', b') \<and> same_shape t t'"
    using compute_loop_frame(1) [of k n bus tm ty bridge None "(t, b)"] by (metis untouched_def prod.collapse fst_conv)
qed

lemma link_call:
  assumes "passable t rk k" "rk bus < Suc n" "dev \<in> set (b_children (buses t bus))" "link \<in> set (d_link_list (devs t dev))"
  shows "rk link < n" "\<not> below t link dev"
proof -
  show "\<not> below t link dev" using assms by (auto simp: passable_def dest: child_not_below_link)
  have "rk link < rk bus" using assms(1,3,4) by (auto simp: passable_def tree_ok_def bus_rank_def)
  then show "rk link < n" using assms(2) by simp
qed

lemma allocate_returns:
  "passable t rk k \<Longrightarrow> plain_mask tm \<Longrightarrow> rk bus < n \<Longrightarrow> \<not> below t bus (fst bridge) \<Longrightarrow>
    \<exists>t'. allocate_resources n k bus bridge tm ty t = Some t'"
proof (induction n arbitrary: bus bridge tm ty t)
  case (Suc n)
  let ?assign = "\<lambda>b. b\<lparr>res_flags := res_flags b OR IORESOURCE_ASSIGNED\<rparr>"
  obtain t1 b1 where l: "each_largest k (Suc n) bus tm ty (allocate_one bridge) None (t, res_base (get_res t bridge)) = Some (t1, b1)"
    and s1: "same_shape t t1"
    using loop_returns(1) [OF Suc.prems, where ty = ty and b = "res_base (get_res t bridge)"] by blast
  let ?t2 = "upd_res bridge ?assign t1"
  have s2: "same_shape t ?t2"
    using s1 by (rule same_shape_trans) (rule same_shape_upd, simp add: res_core_def core_flags_assign)
  have "\<exists>t'. each_child_bridge (allocate_resources n k) bus tm ty ?t2 = Some t'"
  proof (rule al.each_child_bridge_returns [OF passable_shape [OF s2 Suc.prems(1)] Suc.prems(2)])
    fix u link dev i tm' ty' assume u: "same_shape ?t2 u" and d: "dev \<in> set (b_children (buses ?t2 bus))"
      and link: "link \<in> set (d_link_list (devs ?t2 dev))" and tm': "plain_mask tm'"
    have su: "same_shape t u" using s2 u by (rule same_shape_trans)
    have "rk link < n" "\<not> below t link dev" using link_call [OF Suc.prems(1,3)] d link by (simp_all add: same_shapeD [OF s2])
    then show "\<exists>u'. allocate_resources n k link (dev, i) tm' ty' u = Some u'"
      using passable_shape [OF su Suc.prems(1)] tm' same_shape_below [OF su] by (intro Suc.IH) simp_all
  qed
  then show ?case using l by simp
qed simp

lemma compute_returns:
  "passable t rk k \<Longrightarrow> plain_mask tm \<Longrightarrow> rk bus < n \<Longrightarrow> \<not> below t bus (fst bridge) \<Longrightarrow>
    \<exists>t'. compute_resources n k bus bridge tm ty t = Some t'"
proof (induction n arbitrary: bus bridge tm ty t)
  case (Suc n)
  have "\<exists>t'. each_child_bridge (compute_resources n k) bus tm ty t = Some t'"
  proof (rule co.each_child_bridge_returns [OF Suc.prems(1,2)])
    fix u link dev i tm' ty' assume u: "same_shape t u" and d: "dev \<in> set (b_children (buses t bus))"
      and link: "link \<in> set (d_link_list (devs t dev))" and tm': "plain_mask tm'"
    have "rk link < n" "\<not> below t link dev" using link_call [OF Suc.prems(1,3) d link] .
    then show "\<exists>u'. compute_resources n k link (dev, i) tm' ty' u = Some u'"
      using passable_shape [OF u Suc.prems(1)] tm' same_shape_below [OF u] by (intro Suc.IH) simp_all
  qed
  then obtain t1 where t1: "each_child_bridge (compute_resources n k) bus tm ty t = Some t1" by blast
  have s1: "same_shape t t1" using each_child_bridge_untouched(1) [OF compute_pass t1] by (simp add: untouched_def)
  have "\<not> below t1 bus (fst bridge)" using Suc.prems(4) same_shape_below [OF s1] by simp
  then show ?case
    using loop_returns(2) [OF passable_shape [OF s1 Suc.prems(1)] Suc.prems(2,3), where ty = ty] t1 by (fastforce simp: Let_def)
qed simp

text \<open>
  C22.  Both passes return, and leave the shape of the tree, whatever the sizes, alignments and limits of the
  resources are: in a tree whose buses are nested, where every bridge resource has the link
  its index names and the walk over a bus meets no resource twice, a fuel above the rank of
  the bus and above the number of resources is enough.
\<close>
theorem passes_return:
  assumes "tree_ok t rk" "walk_ok t k" "bridges_linked t" "plain_mask tm" "rk bus < n" "\<not> below t bus (fst bridge)"
  shows "(\<exists>t'. compute_resources n k bus bridge tm ty t = Some t' \<and> same_shape t t')
    \<and> (\<exists>t'. allocate_resources n k bus bridge tm ty t = Some t' \<and> same_shape t t')"
  using compute_returns [of t rk k tm bus n bridge ty] allocate_returns [of t rk k tm bus n bridge ty] assms co.pass_shape al.pass_shape
  unfolding passable_def by blast

lemma example_window_walks:
  assumes "plain_mask tm" "bus_visits n example_window_tree bus tm ty = Some l"
  shows "distinct (map fst l) \<and> length l < 3"
proof (cases n)
  case (Suc m)
  have 1: "IORESOURCE_MEM AND IORESOURCE_SUBTRACTIVE = (0::u32)" by simp
  show ?thesis
    using assms(2) by (cases "IORESOURCE_MEM AND tm = ty"; cases "bus = 1") (auto simp: Suc example_window_simps)
qed (use assms in simp)

theorem passes_return_witness:
  "\<exists>t1 t2. compute_resources 1 3 1 (1, 0) IORESOURCE_MEM IORESOURCE_MEM example_window_tree = Some t1
    \<and> allocate_resources 1 3 1 (1, 0) IORESOURCE_MEM IORESOURCE_MEM example_window_tree = Some t2"
proof -
  let ?t = example_window_tree
  have ch: "b_children (buses ?t b) = (if b = 1 then [2, 3] else [])" "d_link_list (devs ?t d) = (if d = 1 then [1] else [])" for b d
    by (auto simp: example_window_simps)
  have tree: "tree_ok ?t (\<lambda>_. 0)" by (auto simp: tree_ok_def bus_rank_def ch split: if_splits)
  have walk: "walk_ok ?t 3" using example_window_walks by (simp add: walk_ok_def)
  have "link_of ?t p \<noteq> None" if "res_ok ?t p" "d_link_list (devs ?t (fst p)) \<noteq> []" for p
  proof -
    have "fst p = 1" using that(2) by (simp add: ch split: if_splits)
    moreover have "snd p = 0" using that(1) calculation by (simp add: res_ok_def example_window_simps)
    ultimately have "p = (1, 0)" by (simp add: prod_eq_iff)
    then show ?thesis by (simp add: link_of_def IOINDEX_LINK_def example_window_simps)
  qed
  then have linked: "bridges_linked ?t" by (simp add: bridges_linked_def)
  have "\<not> below ?t 1 1"
  proof
    assume "below ?t 1 1"
    then show False by (rule belowE) (auto simp: ch split: if_splits)
  qed
  then have nb: "\<not> below ?t 1 (fst (1, 0 :: nat))" by simp
  have "plain_mask IORESOURCE_MEM" by simp
  from passes_return [OF tree walk linked this zero_less_one nb, of IORESOURCE_MEM] show ?thesis by blast
qed

end
