(* ===== verification/Devinit.thy ===== *)
theory Devinit
  imports Resalloc
begin

text \<open>
  The rest of \<^verbatim>\<open>src/device/device.c\<close>: new devices, the scan of the buses, and the walks that
  enable, initialise and finalise every device.  The function pointers of devices and chips
  are numbers, and \<open>hook\<close> says what the function of a number does to the tree; \<open>None\<close> is a
  call of \<^verbatim>\<open>die()\<close> or fuel that ran out.  The locks around the device list, the messages, the
  timing of \<^verbatim>\<open>init_dev\<close> and the set-up of the BIOS data area, none of which touch the tree,
  are left out.
\<close>

type_synonym 'a ghook = "nat \<Rightarrow> nat \<Rightarrow> 'a devtree_scheme \<Rightarrow> 'a devtree_scheme option"
type_synonym hook = "nat \<Rightarrow> nat \<Rightarrow> devtree \<Rightarrow> devtree option"

section \<open>Chips\<close>

definition upd_chip :: "chip_id \<Rightarrow> (chip_operations \<Rightarrow> chip_operations) \<Rightarrow> devtree \<Rightarrow> devtree" where
  "upd_chip c f t = t\<lparr>chips := (chips t)(c := f (chips t c))\<rparr>"

definition dev_initialize_chips :: "hook \<Rightarrow> devtree \<Rightarrow> devtree option" where
  "dev_initialize_chips hook t =
     fold_opt (\<lambda>dev t. case d_chip_ops (devs t dev) of
         None \<Rightarrow> Some t
       | Some c \<Rightarrow> (case chip_init (chips t c) of
           Some k \<Rightarrow> if chip_initialized (chips t c) then Some t
                     else map_option (upd_chip c (\<lambda>ops. ops\<lparr>chip_initialized := True\<rparr>)) (hook k dev t)
         | None \<Rightarrow> Some t))
       (all_devices t) t"

definition dev_finalize_chips :: "hook \<Rightarrow> devtree \<Rightarrow> devtree option" where
  "dev_finalize_chips hook t =
     fold_opt (\<lambda>dev t. case d_chip_ops (devs t dev) of
         None \<Rightarrow> Some t
       | Some c \<Rightarrow> (case chip_final (chips t c) of
           Some k \<Rightarrow> if chip_finalized (chips t c) then Some t
                     else map_option (upd_chip c (\<lambda>ops. ops\<lparr>chip_finalized := True\<rparr>)) (hook k dev t)
         | None \<Rightarrow> Some t))
       (all_devices t) t"

section \<open>New devices\<close>

text \<open>
  A device that the heap provides is named by its address, \<open>sz\<close> is \<^verbatim>\<open>sizeof(struct device)\<close>;
  the devices of the static tree have names below the heap.
\<close>

definition new_device :: "bus_id \<Rightarrow> device_path \<Rightarrow> device" where
  "new_device parent path = \<lparr>d_bus = parent, d_path = path, d_vendor = 0, d_device = 0, d_subsystem_vendor = 0, d_subsystem_device = 0, d_class = 0, d_hdr_type = 0,
     d_enabled = True, d_initialized = False, d_on_mainboard = False, d_command = 0, d_resource_list = [],
     d_link_list = [], d_ops = None, d_chip_ops = None\<rparr>"

definition upd_bus :: "bus_id \<Rightarrow> (bus \<Rightarrow> bus) \<Rightarrow> 'a devtree_scheme \<Rightarrow> 'a devtree_scheme" where
  "upd_bus b f t = t\<lparr>buses := (buses t)(b := f (buses t b))\<rparr>"

definition alloc_dev :: "u32 \<Rightarrow> bus_id \<Rightarrow> device_path \<Rightarrow> 'a devtree_scheme \<times> heap \<Rightarrow> (dev_id \<times> 'a devtree_scheme \<times> heap) option" where
  "alloc_dev sz parent path = (\<lambda>(t, h). do {
     (p, h) \<leftarrow> malloc sz h;
     let dev = unat p;
     let t = upd_dev dev (\<lambda>_. new_device parent path) t;
     let t = upd_bus parent (\<lambda>b. b\<lparr>b_children := b_children b @ [dev]\<rparr>) t;
     let t = t\<lparr>all_devices := all_devices t @ [dev]\<rparr>;
     Some (dev, t, h)
   })"

definition alloc_find_dev :: "u32 \<Rightarrow> bus_id \<Rightarrow> device_path \<Rightarrow> 'a devtree_scheme \<times> heap \<Rightarrow> (dev_id \<times> 'a devtree_scheme \<times> heap) option" where
  "alloc_find_dev sz parent path = (\<lambda>(t, h).
     case find_dev_path t parent path of
       Some child \<Rightarrow> Some (child, t, h)
     | None \<Rightarrow> alloc_dev sz parent path (t, h))"

section \<open>Scanning the buses\<close>

definition reset_bus :: "'a ghook \<Rightarrow> bus_id \<Rightarrow> 'a devtree_scheme \<Rightarrow> (bool \<times> 'a devtree_scheme) option" where
  "reset_bus hook bus t =
     (case dev_op t (b_dev (buses t bus)) op_reset_bus of
        None \<Rightarrow> Some (False, t)
      | Some k \<Rightarrow> do {
          t \<leftarrow> hook k bus t;
          Some (True, upd_bus bus (\<lambda>b. b\<lparr>b_reset_needed := False\<rparr>) t)
        })"

text \<open>The links are those the device has when the loop over them starts.\<close>

definition reset_links :: "'a ghook \<Rightarrow> dev_id \<Rightarrow> 'a devtree_scheme \<Rightarrow> (bool \<times> 'a devtree_scheme) option" where
  "reset_links hook busdev t =
     fold_opt (\<lambda>link (do_scan_bus, t).
         if b_reset_needed (buses t link) then do {
           (done', t) \<leftarrow> reset_bus hook link t;
           Some (if done' then (True, t)
                 else (do_scan_bus, upd_bus (d_bus (devs t busdev)) (\<lambda>b. b\<lparr>b_reset_needed := True\<rparr>) t))
         } else Some (do_scan_bus, t))
       (d_link_list (devs t busdev)) (False, t)"

fun scan_loop ::
  "nat \<Rightarrow> 'a ghook \<Rightarrow> ('a devtree_scheme \<Rightarrow> (u32 \<times> 'a devtree_scheme) option) \<Rightarrow> dev_id \<Rightarrow> 'a devtree_scheme \<Rightarrow> (u32 \<times> 'a devtree_scheme) option" where
  "scan_loop 0 hook scan busdev t = None"
| "scan_loop (Suc k) hook scan busdev t = do {
     (new_max, t) \<leftarrow> scan t;
     (do_scan_bus, t) \<leftarrow> reset_links hook busdev t;
     if do_scan_bus then scan_loop k hook scan busdev t else Some (new_max, t)
   }"

definition scan_bus ::
  "nat \<Rightarrow> 'a ghook \<Rightarrow> (nat \<Rightarrow> dev_id \<Rightarrow> u32 \<Rightarrow> 'a devtree_scheme \<Rightarrow> (u32 \<times> 'a devtree_scheme) option) \<Rightarrow> dev_id option \<Rightarrow> u32 \<Rightarrow> 'a devtree_scheme \<Rightarrow> (u32 \<times> 'a devtree_scheme) option" where
  "scan_bus k hook scan busdev mx t =
     (case busdev of
        None \<Rightarrow> Some (mx, t)
      | Some d \<Rightarrow> if \<not> d_enabled (devs t d) then Some (mx, t)
          else (case dev_op t d op_scan_bus of
                  None \<Rightarrow> Some (mx, t)
                | Some f \<Rightarrow> scan_loop k hook (scan f d mx) d t))"

definition dev_enumerate ::
  "nat \<Rightarrow> hook \<Rightarrow> (nat \<Rightarrow> dev_id \<Rightarrow> u32 \<Rightarrow> devtree \<Rightarrow> (u32 \<times> devtree) option) \<Rightarrow> dev_id \<Rightarrow> devtree \<Rightarrow> devtree option" where
  "dev_enumerate k hook scan root t = do {
     t \<leftarrow> (case chip_op t root chip_enable_dev of None \<Rightarrow> Some t | Some f \<Rightarrow> hook f root t);
     if dev_op t root op_scan_bus = None then Some t
     else map_option snd (scan_bus k hook scan (Some root) 0 t)
   }"

section \<open>The walks over all devices\<close>

definition enable_dev :: "'a ghook \<Rightarrow> dev_id \<Rightarrow> 'a devtree_scheme \<Rightarrow> 'a devtree_scheme option" where
  "enable_dev hook dev t =
     (if d_enabled (devs t dev)
      then (case dev_op t dev op_enable_resources of None \<Rightarrow> Some t | Some k \<Rightarrow> hook k dev t)
      else Some t)"

fun enable_resources :: "nat \<Rightarrow> hook \<Rightarrow> bus_id \<Rightarrow> devtree \<Rightarrow> devtree option" where
  "enable_resources 0 hook link t = None"
| "enable_resources (Suc n) hook link t = do {
     t \<leftarrow> fold_opt (enable_dev hook) (b_children (buses t link)) t;
     fold_opt (\<lambda>dev t. fold_opt (enable_resources n hook) (d_link_list (devs t dev)) t) (b_children (buses t link)) t
   }"

definition dev_enable :: "nat \<Rightarrow> hook \<Rightarrow> dev_id \<Rightarrow> devtree \<Rightarrow> devtree option" where
  "dev_enable n hook root t = fold_opt (enable_resources n hook) (d_link_list (devs t root)) t"

definition init_dev :: "hook \<Rightarrow> dev_id \<Rightarrow> devtree \<Rightarrow> devtree option" where
  "init_dev hook dev t =
     (if \<not> d_enabled (devs t dev) \<or> d_initialized (devs t dev) then Some t
      else (case dev_op t dev op_init of
              None \<Rightarrow> Some t
            | Some k \<Rightarrow> hook k dev (upd_dev dev (\<lambda>d. d\<lparr>d_initialized := True\<rparr>) t)))"

fun init_link :: "nat \<Rightarrow> hook \<Rightarrow> bus_id \<Rightarrow> devtree \<Rightarrow> devtree option" where
  "init_link 0 hook link t = None"
| "init_link (Suc n) hook link t = do {
     t \<leftarrow> fold_opt (init_dev hook) (b_children (buses t link)) t;
     fold_opt (\<lambda>dev t. fold_opt (init_link n hook) (d_link_list (devs t dev)) t) (b_children (buses t link)) t
   }"

definition dev_initialize :: "nat \<Rightarrow> hook \<Rightarrow> dev_id \<Rightarrow> devtree \<Rightarrow> devtree option" where
  "dev_initialize n hook root t = do {
     t \<leftarrow> init_dev hook root t;
     fold_opt (init_link n hook) (d_link_list (devs t root)) t
   }"

definition final_dev :: "hook \<Rightarrow> dev_id \<Rightarrow> devtree \<Rightarrow> devtree option" where
  "final_dev hook dev t =
     (if \<not> d_enabled (devs t dev) then Some t
      else (case dev_op t dev op_final of None \<Rightarrow> Some t | Some k \<Rightarrow> hook k dev t))"

fun final_link :: "nat \<Rightarrow> hook \<Rightarrow> bus_id \<Rightarrow> devtree \<Rightarrow> devtree option" where
  "final_link 0 hook link t = None"
| "final_link (Suc n) hook link t = do {
     t \<leftarrow> fold_opt (final_dev hook) (b_children (buses t link)) t;
     fold_opt (\<lambda>dev t. fold_opt (final_link n hook) (d_link_list (devs t dev)) t) (b_children (buses t link)) t
   }"

definition dev_finalize :: "nat \<Rightarrow> hook \<Rightarrow> dev_id \<Rightarrow> devtree \<Rightarrow> devtree option" where
  "dev_finalize n hook root t = do {
     t \<leftarrow> final_dev hook root t;
     fold_opt (final_link n hook) (d_link_list (devs t root)) t
   }"

section \<open>Allocated devices\<close>

text \<open>
  The lists of the tree agree: a child knows its bus, is on the list of all devices, and no
  list has a repetition.  What the heap has handed out lies below its frontier.
\<close>

definition wired :: "devtree \<Rightarrow> bool" where
  "wired t \<longleftrightarrow> distinct (all_devices t)
     \<and> (\<forall>b. distinct (b_children (buses t b)) \<and> (\<forall>d \<in> set (b_children (buses t b)). d_bus (devs t d) = b \<and> d \<in> set (all_devices t)))"

definition named_below :: "devtree \<Rightarrow> heap \<Rightarrow> bool" where
  "named_below t h \<longleftrightarrow> (\<forall>d \<in> set (all_devices t). d < unat (free_mem_ptr h))"

lemma path_eq_refl: "p_type path \<notin> {DEVICE_PATH_NONE, DEVICE_PATH_IOAPIC} \<Longrightarrow> path_eq path path"
  by (cases "p_type path") (simp_all add: path_eq_def)

lemma find_None_iff_all: "find P xs = None \<longleftrightarrow> (\<forall>x \<in> set xs. \<not> P x)"
  by (induction xs) auto

lemma find_append: "find P (xs @ ys) = (case find P xs of None \<Rightarrow> find P ys | Some x \<Rightarrow> Some x)"
  by (induction xs) auto

lemma alloc_dev_wired:
  assumes "wired t" "named_below t h" "malloc_ok sz h" "0 < sz" and run: "alloc_dev sz parent path (t, h) = Some (d, t', h')"
  shows "d \<notin> set (all_devices t)" "wired t'" "named_below t' h'"
    "b_children (buses t' parent) = b_children (buses t parent) @ [d]" "devs t' = (devs t)(d := new_device parent path)"
proof -
  obtain p where m: "malloc sz h = Some (p, h')" and d: "d = unat p"
    and t': "t' = (upd_bus parent (\<lambda>b. b\<lparr>b_children := b_children b @ [d]\<rparr>) (upd_dev d (\<lambda>_. new_device parent path) t))
      \<lparr>all_devices := all_devices t @ [d]\<rparr>"
    using run by (auto simp: alloc_dev_def upd_bus_def upd_dev_def Let_def split: Option.bind_splits)
  note f = malloc_frontier [OF assms(3) m]
  have sz: "0 < unat sz" using assms(4) by (simp add: unat_gt_0)
  show fresh: "d \<notin> set (all_devices t)" using assms(2) f(1) by (auto simp: named_below_def d)
  show "b_children (buses t' parent) = b_children (buses t parent) @ [d]" "devs t' = (devs t)(d := new_device parent path)"
    by (simp_all add: t' upd_bus_def upd_dev_def)
  show "named_below t' h'" using assms(2) f sz by (fastforce simp: named_below_def t' d)
  have "d \<notin> set (b_children (buses t b))" for b using fresh assms(1) by (auto simp: wired_def)
  then show "wired t'" using assms(1) fresh by (auto simp: wired_def t' upd_bus_def upd_dev_def new_device_def)
qed

text \<open>
  C25.  \<^verbatim>\<open>alloc_find_dev\<close> keeps the lists of the tree consistent and finds again what it has
  made: afterwards the path leads to the device it returned, and asking once more returns the
  same device and changes nothing.  This needs a path that \<^verbatim>\<open>path_eq\<close> can compare.
\<close>
theorem alloc_find_dev_found:
  assumes "wired t" "named_below t h" "malloc_ok sz h" "0 < sz"
    and "p_type path \<notin> {DEVICE_PATH_NONE, DEVICE_PATH_IOAPIC}"
    and "alloc_find_dev sz parent path (t, h) = Some (d, t', h')"
  shows "wired t' \<and> named_below t' h' \<and> d \<in> set (b_children (buses t' parent)) \<and> path_eq path (path_of t' d)
    \<and> find_dev_path t' parent path = Some d \<and> alloc_find_dev sz parent path (t', h') = Some (d, t', h')"
proof (cases "find_dev_path t parent path")
  case None
  then have a: "alloc_dev sz parent path (t, h) = Some (d, t', h')" using assms(6) by (simp add: alloc_find_dev_def)
  note w = alloc_dev_wired [OF assms(1-4) a]
  have none: "find (\<lambda>c. path_eq path (path_of t c)) (b_children (buses t parent)) = None" using None by (simp add: find_dev_path_def)
  have "d \<notin> set (b_children (buses t parent))" using w(1) assms(1) by (auto simp: wired_def)
  then have "find (\<lambda>c. path_eq path (path_of t' c)) (b_children (buses t parent)) = None"
    using none by (auto simp: find_None_iff_all w(5))
  moreover have "path_eq path (path_of t' d)" using path_eq_refl [OF assms(5)] by (simp add: w(5) new_device_def)
  ultimately have "find_dev_path t' parent path = Some d" by (simp add: find_dev_path_def w(4) find_append)
  then show ?thesis using w \<open>path_eq path (path_of t' d)\<close> by (simp add: alloc_find_dev_def)
next
  case (Some c)
  then have c: "d = c" "t' = t" "h' = h" using assms(6) by (simp_all add: alloc_find_dev_def)
  have "d \<in> set (b_children (buses t parent)) \<and> path_eq path (path_of t d)"
    using Some by (auto simp: c find_dev_path_def find_Some_iff)
  then show ?thesis using Some assms(1,2) by (simp add: alloc_find_dev_def c)
qed

lemma alloc_find_dev_ioapic:
  assumes "p_type path = DEVICE_PATH_IOAPIC"
  shows "alloc_find_dev sz parent path (t, h) = alloc_dev sz parent path (t, h)"
proof -
  have "\<not> path_eq path q" for q using assms by (simp add: path_eq_def)
  then have "find_dev_path t parent path = None" by (simp add: find_dev_path_def find_None_iff_all)
  then show ?thesis by (simp add: alloc_find_dev_def)
qed

theorem alloc_find_dev_found_witness:
  "\<exists>t' h'. alloc_find_dev 0x100 1 \<lparr>p_type = DEVICE_PATH_PCI, p_w0 = 0x10, p_w1 = 0, p_w2 = 0, p_w3 = 0, p_w4 = 0\<rparr>
       (example_alloc_tree\<lparr>all_devices := [1, 2, 3], devs := (devs example_alloc_tree)(2 := example_device\<lparr>d_bus := 1\<rparr>, 3 := example_device\<lparr>d_bus := 1\<rparr>)\<rparr>,
        \<lparr>free_mem_ptr = 0x100004, free_mem_end_ptr = 0x110000\<rparr>) = Some (0x100008, t', h')
     \<and> wired t' \<and> b_children (buses t' 1) = [2, 3, 0x100008]"
proof -
  let ?path = "\<lparr>p_type = DEVICE_PATH_PCI, p_w0 = 0x10, p_w1 = 0, p_w2 = 0, p_w3 = 0, p_w4 = 0\<rparr>"
  let ?h = "\<lparr>free_mem_ptr = 0x100004, free_mem_end_ptr = 0x110000\<rparr>"
  let ?t = "example_alloc_tree\<lparr>all_devices := [1, 2, 3], devs := (devs example_alloc_tree)(2 := example_device\<lparr>d_bus := 1\<rparr>, 3 := example_device\<lparr>d_bus := 1\<rparr>)\<rparr>"
  have w: "wired ?t" by (auto simp: wired_def example_alloc_simps split: if_splits)
  have n: "named_below ?t ?h" by (simp add: named_below_def)
  have m: "malloc_ok 0x100 ?h" by (simp add: malloc_ok_def)
  have f: "find_dev_path ?t 1 ?path = None" by (simp add: find_dev_path_def path_eq_def example_alloc_simps)
  obtain t' h' where r: "alloc_find_dev 0x100 1 ?path (?t, ?h) = Some (0x100008, t', h')" "b_children (buses t' 1) = [2, 3, 0x100008]"
    using f by (simp add: alloc_find_dev_def alloc_dev_def malloc_def memalign_def ALIGN_UP_def ALIGN_MASK_def Let_def upd_bus_def upd_dev_def)
      (simp add: example_alloc_simps)
  have "wired t'" using alloc_find_dev_found [OF w n m _ _ r(1)] by simp
  then show ?thesis using r by blast
qed

section \<open>A scan ends settled\<close>

definition settled :: "'a devtree_scheme \<Rightarrow> dev_id \<Rightarrow> bool" where
  "settled t d \<longleftrightarrow> (\<forall>link \<in> set (d_link_list (devs t d)). b_reset_needed (buses t link) \<longrightarrow>
     b_reset_needed (buses t (d_bus (devs t d))) \<and> (dev_op t (b_dev (buses t link)) op_reset_bus = None \<or> link = d_bus (devs t d)))"

abbreviation reset_step :: "'a ghook \<Rightarrow> dev_id \<Rightarrow> bus_id \<Rightarrow> bool \<times> 'a devtree_scheme \<Rightarrow> (bool \<times> 'a devtree_scheme) option" where
  "reset_step hook busdev \<equiv> \<lambda>link (do_scan_bus, t :: 'a devtree_scheme).
         if b_reset_needed (buses t link) then do {
           (done', t :: 'a devtree_scheme) \<leftarrow> reset_bus hook link t;
           Some (if done' then (True, t)
                 else (do_scan_bus, upd_bus (d_bus (devs t busdev)) (\<lambda>b. b\<lparr>b_reset_needed := True\<rparr>) t))
         } else Some (do_scan_bus, t)"

lemma reset_step_False:
  assumes "reset_step hook d link s = Some (False, t')"
  obtains t where "s = (False, t)" "\<not> b_reset_needed (buses t link) \<and> t' = t
    \<or> b_reset_needed (buses t link) \<and> dev_op t (b_dev (buses t link)) op_reset_bus = None
      \<and> t' = upd_bus (d_bus (devs t d)) (\<lambda>b. b\<lparr>b_reset_needed := True\<rparr>) t"
  using assms that by (cases s) (auto simp: reset_bus_def split: if_splits option.splits Option.bind_splits)

lemma reset_links_False:
  assumes "fold_opt (reset_step hook d) links s = Some (False, t')"
  obtains t where "s = (False, t)" "\<forall>link \<in> set links. b_reset_needed (buses t' link) \<longrightarrow>
     b_reset_needed (buses t' (d_bus (devs t' d))) \<and> (dev_op t' (b_dev (buses t' link)) op_reset_bus = None \<or> link = d_bus (devs t' d))"
    "t' = t \<or> t' = upd_bus (d_bus (devs t d)) (\<lambda>b. b\<lparr>b_reset_needed := True\<rparr>) t"
proof -
  let ?up = "\<lambda>t. upd_bus (d_bus (devs t d)) (\<lambda>b. b\<lparr>b_reset_needed := True\<rparr>) t"
  have up: "devs (?up t) = devs t" "?up (?up t) = ?up t" "b_reset_needed (buses (?up t) (d_bus (devs t d)))"
    "b_dev (buses (?up t) l) = b_dev (buses t l)" "l \<noteq> d_bus (devs t d) \<Longrightarrow> buses (?up t) l = buses t l" "dev_op (?up t) = dev_op t" for t l
    by (simp_all add: upd_bus_def dev_op_def fun_eq_iff)
  have "\<exists>t. s = (False, t) \<and> (t' = t \<or> t' = ?up t) \<and> (\<forall>link \<in> set links. b_reset_needed (buses t' link) \<longrightarrow>
     b_reset_needed (buses t' (d_bus (devs t' d))) \<and> (dev_op t' (b_dev (buses t' link)) op_reset_bus = None \<or> link = d_bus (devs t' d)))"
    using assms
  proof (induction links arbitrary: s)
    case (Cons link links)
    then obtain s1 where s1: "reset_step hook d link s = Some s1" "fold_opt (reset_step hook d) links s1 = Some (False, t')" by auto
    from Cons.IH [OF s1(2)] obtain t1 where t1: "s1 = (False, t1)" "t' = t1 \<or> t' = ?up t1"
      "\<forall>link \<in> set links. b_reset_needed (buses t' link) \<longrightarrow>
        b_reset_needed (buses t' (d_bus (devs t' d))) \<and> (dev_op t' (b_dev (buses t' link)) op_reset_bus = None \<or> link = d_bus (devs t' d))" by blast
    obtain t where t: "s = (False, t)" "\<not> b_reset_needed (buses t link) \<and> t1 = t
      \<or> b_reset_needed (buses t link) \<and> dev_op t (b_dev (buses t link)) op_reset_bus = None \<and> t1 = ?up t"
      using s1(1) reset_step_False unfolding t1(1) by blast
    have w: "t' = t \<or> t' = ?up t" using t(2) t1(2) up(1,2) by metis
    have "b_reset_needed (buses t' link) \<longrightarrow>
        b_reset_needed (buses t' (d_bus (devs t' d))) \<and> (dev_op t' (b_dev (buses t' link)) op_reset_bus = None \<or> link = d_bus (devs t' d))"
    proof (cases "b_reset_needed (buses t link)")
      case True
      then have "t' = ?up t" using t(2) t1(2) up(1,2) by metis
      then show ?thesis using True t(2) up by metis
    next
      case False
      then show ?thesis using w up by metis
    qed
    then show ?case using t(1) w t1(3) by auto
  qed simp
  then show thesis using that by blast
qed

lemma scan_loop_settled: "scan_loop k hook scan d t = Some (m, t') \<Longrightarrow> settled t' d"
proof (induction k arbitrary: t)
  case (Suc k)
  obtain m1 t1 again t2 where 1: "scan t = Some (m1, t1)" and 2: "reset_links hook d t1 = Some (again, t2)"
    and 3: "(if again then scan_loop k hook scan d t2 else Some (m1, t2)) = Some (m, t')"
    using Suc.prems by (auto split: Option.bind_splits prod.splits)
  show ?case
  proof (cases again)
    case True
    then show ?thesis using 3 Suc.IH by simp
  next
    case False
    then have t2: "t2 = t'" "reset_links hook d t1 = Some (False, t')" using 2 3 by simp_all
    have "fold_opt (reset_step hook d) (d_link_list (devs t1 d)) (False, t1) = Some (False, t')"
      using t2(2) by (simp add: reset_links_def)
    then obtain t where "(False, t1) = (False, t)" and
      s: "\<forall>link \<in> set (d_link_list (devs t1 d)). b_reset_needed (buses t' link) \<longrightarrow>
        b_reset_needed (buses t' (d_bus (devs t' d))) \<and> (dev_op t' (b_dev (buses t' link)) op_reset_bus = None \<or> link = d_bus (devs t' d))"
      and "t' = t \<or> t' = upd_bus (d_bus (devs t d)) (\<lambda>b. b\<lparr>b_reset_needed := True\<rparr>) t" by (rule reset_links_False)
    then have "devs t' = devs t1" by (auto simp: upd_bus_def)
    then show ?thesis using s by (simp add: settled_def)
  qed
qed simp

text \<open>
  When \<^verbatim>\<open>scan_bus\<close> returns, no link of the device is left in need of a reset unless the
  need has been passed up to the bus the device is on, and a link that could have been reset
  is not left so (the bus of the device itself apart).  It repeats the scan until that holds.
\<close>
lemma scan_bus_settled:
  assumes "scan_bus k hook scan (Some d) mx t = Some (m, t')" "d_enabled (devs t d)" "dev_op t d op_scan_bus = Some f"
  shows "\<forall>link \<in> set (d_link_list (devs t' d)). b_reset_needed (buses t' link) \<longrightarrow>
     b_reset_needed (buses t' (d_bus (devs t' d))) \<and> (dev_op t' (b_dev (buses t' link)) op_reset_bus = None \<or> link = d_bus (devs t' d))"
  using scan_loop_settled [of k hook "scan f d mx" d t m t'] assms by (simp add: scan_bus_def settled_def)

text \<open>A device on bus 0 with links 1 and 2: link 1 needs a reset, and the reset makes link 2 need one.\<close>

definition example_scan_tree :: devtree where
  "example_scan_tree = example_tree\<lparr>
     devs := (\<lambda>d. example_device\<lparr>d_link_list := if d = 1 then [1, 2] else [],
       d_ops := Some \<lparr>op_read_resources = None, op_set_resources = None, op_enable_resources = None, op_init = None, op_final = None,
         op_scan_bus = Some 7, op_enable = None, op_disable = None, op_reset_bus = Some 8, op_set_subsystem = None\<rparr>\<rparr>),
     buses := (\<lambda>b. \<lparr>b_dev = 1, b_children = [], b_bridge_ctrl = 0, b_link_num = 0, b_secondary = 1, b_subordinate = 1, b_reset_needed = (b = 1)\<rparr>)\<rparr>"

definition example_reset :: hook where
  "example_reset k link t = Some (if link = 1 then upd_bus 2 (\<lambda>b. b\<lparr>b_reset_needed := True\<rparr>) t else t)"

lemma example_scan_run:
  "map_option (\<lambda>(m, t'). (m, d_link_list (devs t' 1), b_reset_needed (buses t' 1), b_reset_needed (buses t' 2), d_bus (devs t' 1)))
     (scan_bus 3 example_reset (\<lambda>f d mx t. Some (mx + 4, t)) (Some 1) 3 example_scan_tree) = Some (7, [1, 2], False, False, 0)"
  by code_simp

lemma scan_bus_settled_witness:
  "\<exists>t'. scan_bus 3 example_reset (\<lambda>f d mx t. Some (mx + 4, t)) (Some 1) 3 example_scan_tree = Some (7, t')
     \<and> (\<forall>link \<in> {1, 2}. b_reset_needed (buses t' link) \<longrightarrow> b_reset_needed (buses t' 0))"
proof -
  obtain t' where t': "scan_bus 3 example_reset (\<lambda>f d mx t. Some (mx + 4, t)) (Some 1) 3 example_scan_tree = Some (7, t')"
    "d_link_list (devs t' 1) = [1, 2]" "d_bus (devs t' 1) = 0"
    using example_scan_run by auto
  have "d_enabled (devs example_scan_tree 1)" "dev_op example_scan_tree 1 op_scan_bus = Some 7"
    by (simp_all add: example_scan_tree_def dev_op_def example_device_def)
  from scan_bus_settled [OF t'(1) this] show ?thesis using t' by auto
qed

section \<open>The order of the walks\<close>

text \<open>The devices a walk over a bus visits: first the children of the bus, then what is behind each of them.\<close>

fun walk_order :: "nat \<Rightarrow> devtree \<Rightarrow> bus_id \<Rightarrow> dev_id list option" where
  "walk_order 0 t b = None"
| "walk_order (Suc n) t b = do {
     ls \<leftarrow> flat_opt (\<lambda>d. flat_opt (walk_order n t) (d_link_list (devs t d))) (b_children (buses t b));
     Some (b_children (buses t b) @ ls)
   }"

definition same_wiring :: "devtree \<Rightarrow> devtree \<Rightarrow> bool" where
  "same_wiring t t' \<longleftrightarrow> (\<forall>b. b_children (buses t' b) = b_children (buses t b)) \<and> (\<forall>d. d_link_list (devs t' d) = d_link_list (devs t d))"

lemma walk_order_wiring: "same_wiring t t' \<Longrightarrow> walk_order n t' b = walk_order n t b"
proof (induction n arbitrary: b)
  case (Suc n)
  then have "walk_order n t' = walk_order n t" by auto
  then show ?case using Suc.prems by (simp add: same_wiring_def)
qed simp

lemma fold_opt_flat_opt_inv:
  assumes "\<And>x s. x \<in> set xs \<Longrightarrow> P s \<Longrightarrow> g x s = Option.bind (h x) (\<lambda>l. fold_opt f l s)"
    and "\<And>y s s'. P s \<Longrightarrow> f y s = Some s' \<Longrightarrow> P s'" and "P s"
  shows "fold_opt g xs s = Option.bind (flat_opt h xs) (\<lambda>l. fold_opt f l s)"
  using assms(1,3)
proof (induction xs arbitrary: s)
  case (Cons x xs)
  have step: "P s'" if "fold_opt f l s = Some s'" for l s'
    using that Cons.prems(2) by (rule fold_opt_inv) (rule assms(2))
  have IH: "fold_opt g xs s' = Option.bind (flat_opt h xs) (\<lambda>l. fold_opt f l s')" if "P s'" for s'
    using that by (rule Cons.IH [rotated]) (rule Cons.prems(1), simp_all)
  have 1: "g x s = Option.bind (h x) (\<lambda>l. fold_opt f l s)" using Cons.prems by simp
  show ?case
  proof (cases "h x")
    case (Some l)
    show ?thesis
    proof (cases "fold_opt f l s")
      case None
      then show ?thesis by (cases "flat_opt h xs") (simp_all add: 1 Some fold_opt_append)
    next
      case (Some s')
      then show ?thesis using IH [OF step [OF Some]] \<open>h x = Some l\<close> by (cases "flat_opt h xs") (simp_all add: 1 fold_opt_append)
    qed
  qed (simp add: 1)
qed simp

locale device_walk =
  fixes walk :: "nat \<Rightarrow> bus_id \<Rightarrow> devtree \<Rightarrow> devtree option" and visit :: "dev_id \<Rightarrow> devtree \<Rightarrow> devtree option"
  assumes walk_0: "walk 0 b t = None"
    and walk_Suc: "walk (Suc n) b t = Option.bind (fold_opt visit (b_children (buses t b)) t)
        (\<lambda>t. fold_opt (\<lambda>d t. fold_opt (walk n) (d_link_list (devs t d)) t) (b_children (buses t b)) t)"
begin

lemma walk_in_order:
  assumes keeps: "\<And>d t t'. visit d t = Some t' \<Longrightarrow> same_wiring t t'"
  shows "walk n b t = Option.bind (walk_order n t b) (\<lambda>l. fold_opt visit l t)"
proof (induction n arbitrary: b t)
  case (Suc n)
  let ?cs = "b_children (buses t b)"
  have trans: "same_wiring t u \<Longrightarrow> visit d u = Some v \<Longrightarrow> same_wiring t v" for d u v
    using keeps [of d u v] by (simp add: same_wiring_def)
  have refl: "same_wiring t t" by (simp add: same_wiring_def)
  have inner: "fold_opt (walk n) (d_link_list (devs u d)) u = Option.bind (flat_opt (walk_order n t) (d_link_list (devs t d))) (\<lambda>l. fold_opt visit l u)"
    if "same_wiring t u" for d u
  proof -
    have "fold_opt (walk n) (d_link_list (devs u d)) u = Option.bind (flat_opt (walk_order n t) (d_link_list (devs u d))) (\<lambda>l. fold_opt visit l u)"
      by (rule fold_opt_flat_opt_inv [where P = "same_wiring t"]) (use that Suc.IH walk_order_wiring trans in auto)
    then show ?thesis using that by (simp add: same_wiring_def)
  qed
  show ?case
  proof (cases "fold_opt visit ?cs t")
    case None
    then show ?thesis by (cases "flat_opt (\<lambda>d. flat_opt (walk_order n t) (d_link_list (devs t d))) ?cs")
      (simp_all add: walk_Suc fold_opt_append)
  next
    case (Some u)
    have u: "same_wiring t u" using Some refl by (rule fold_opt_inv) (rule trans)
    have "fold_opt (\<lambda>d t. fold_opt (walk n) (d_link_list (devs t d)) t) ?cs u
      = Option.bind (flat_opt (\<lambda>d. flat_opt (walk_order n t) (d_link_list (devs t d))) ?cs) (\<lambda>l. fold_opt visit l u)"
      by (rule fold_opt_flat_opt_inv [where P = "same_wiring t"]) (use u inner trans in auto)
    then have "walk (Suc n) b t = Option.bind (flat_opt (\<lambda>d. flat_opt (walk_order n t) (d_link_list (devs t d))) ?cs) (\<lambda>l. fold_opt visit l u)"
      using u Some by (simp add: walk_Suc same_wiring_def)
    then show ?thesis
      using Some by (cases "flat_opt (\<lambda>d. flat_opt (walk_order n t) (d_link_list (devs t d))) ?cs") (simp_all add: fold_opt_append)
  qed
qed (simp add: walk_0)

lemma walk_links_in_order:
  assumes keeps: "\<And>d t t'. visit d t = Some t' \<Longrightarrow> same_wiring t t'"
  shows "fold_opt (walk n) links t = Option.bind (flat_opt (walk_order n t) links) (\<lambda>l. fold_opt visit l t)"
proof (rule fold_opt_flat_opt_inv [where P = "same_wiring t"])
  show "walk n x s = Option.bind (walk_order n t x) (\<lambda>l. fold_opt visit l s)" if "same_wiring t s" for x s
    using walk_in_order [OF keeps, where n = n and b = x and t = s] walk_order_wiring [OF that] by simp
  show "same_wiring t s'" if "same_wiring t s" "visit y s = Some s'" for y s s'
    using that keeps [of y s s'] by (simp add: same_wiring_def)
qed (simp add: same_wiring_def)

end

interpretation en: device_walk "\<lambda>n. enable_resources n hook" "enable_dev hook" for hook
  by unfold_locales simp_all

interpretation ini: device_walk "\<lambda>n. init_link n hook" "init_dev hook" for hook
  by unfold_locales simp_all

interpretation fin: device_walk "\<lambda>n. final_link n hook" "final_dev hook" for hook
  by unfold_locales simp_all

section \<open>Every device once, parents first\<close>

text \<open>A tree of devices: nested, and every list without repetition, every link on one device.\<close>

definition proper_tree :: "devtree \<Rightarrow> (bus_id \<Rightarrow> nat) \<Rightarrow> bool" where
  "proper_tree t rk \<longleftrightarrow> tree_ok t rk \<and> (\<forall>b. distinct (b_children (buses t b))) \<and> (\<forall>d. distinct (d_link_list (devs t d)))
     \<and> (\<forall>d d' l. l \<in> set (d_link_list (devs t d)) \<longrightarrow> l \<in> set (d_link_list (devs t d')) \<longrightarrow> d = d')"

definition leads_to :: "devtree \<Rightarrow> bus_id \<Rightarrow> bus_id \<Rightarrow> bool" where
  "leads_to t a b \<longleftrightarrow> a = b \<or> (\<exists>d. below t a d \<and> b \<in> set (d_link_list (devs t d)))"

lemma below_parent: "below t a x \<Longrightarrow> \<exists>b. x \<in> set (b_children (buses t b)) \<and> leads_to t a b"
proof (induction rule: below.induct)
  case (deeper d b l x)
  then obtain c where c: "x \<in> set (b_children (buses t c))" "leads_to t l c" by blast
  have "below t b d" using deeper.hyps(1) by (rule below.child)
  then have "leads_to t b c" using c(2) deeper.hyps by (auto simp: leads_to_def intro: below.deeper)
  then show ?case using c(1) by blast
qed (auto simp: leads_to_def)

lemma below_comparable:
  assumes "proper_tree t rk"
  shows "below t a x \<Longrightarrow> below t b x \<Longrightarrow> leads_to t a b \<or> leads_to t b a"
proof (induction rule: below.induct)
  case (child d a)
  obtain c where "d \<in> set (b_children (buses t c))" "leads_to t b c" using below_parent [OF child.prems] by blast
  then have "leads_to t b a" using child.hyps assms by (metis proper_tree_def tree_ok_def)
  then show ?case ..
next
  case (deeper d a l x)
  have up: "below t a d" using deeper.hyps(1) by (rule below.child)
  from deeper.IH [OF deeper.prems] show ?case
  proof
    assume "leads_to t l b"
    then have "leads_to t a b" using up deeper.hyps by (auto simp: leads_to_def intro: below.deeper)
    then show ?thesis ..
  next
    assume "leads_to t b l"
    then consider "b = l" | e where "below t b e" "l \<in> set (d_link_list (devs t e))" by (auto simp: leads_to_def)
    then show ?thesis
    proof cases
      case 1
      then show ?thesis using up deeper.hyps(2) by (auto simp: leads_to_def)
    next
      case 2
      then have "e = d" using assms deeper.hyps(2) by (auto simp: proper_tree_def)
      then obtain c where "d \<in> set (b_children (buses t c))" "leads_to t b c" using below_parent 2(1) by blast
      then have "leads_to t b a" using deeper.hyps(1) assms by (metis proper_tree_def tree_ok_def)
      then show ?thesis ..
    qed
  qed
qed

lemma flat_opt_nested: "flat_opt (\<lambda>d. flat_opt h (g d)) ds = flat_opt h (concat (map g ds))"
proof (induction ds)
  case (Cons d ds)
  have "flat_opt h (xs @ ys) = Option.bind (flat_opt h xs) (\<lambda>l. map_option ((@) l) (flat_opt h ys))" for xs ys
    by (induction xs) (auto simp: map_option_case split: Option.bind_splits option.splits)
  then show ?case using Cons by (cases "flat_opt h (g d)"; cases "flat_opt h (concat (map g ds))") simp_all
qed simp

lemma flat_opt_set: "flat_opt h xs = Some l \<Longrightarrow> set l = (\<Union>x \<in> set xs. set (the (h x)))"
  by (induction xs arbitrary: l) (auto split: Option.bind_splits)

lemma flat_opt_distinct:
  "flat_opt h xs = Some l \<Longrightarrow> distinct xs \<Longrightarrow> (\<And>x. x \<in> set xs \<Longrightarrow> distinct (the (h x))) \<Longrightarrow>
    (\<And>x y. x \<in> set xs \<Longrightarrow> y \<in> set xs \<Longrightarrow> x \<noteq> y \<Longrightarrow> set (the (h x)) \<inter> set (the (h y)) = {}) \<Longrightarrow> distinct l"
proof (induction xs arbitrary: l)
  case (Cons x xs)
  obtain l1 l2 where l: "h x = Some l1" "flat_opt h xs = Some l2" "l = l1 @ l2" using Cons.prems(1) by (auto split: Option.bind_splits)
  have "distinct l2" using l(2) by (rule Cons.IH) (use Cons.prems in auto)
  moreover have "distinct l1" using Cons.prems(3) [of x] l(1) by simp
  moreover have "set l1 \<inter> set (the (h y)) = {}" if "y \<in> set xs" for y
    using Cons.prems(2) Cons.prems(4) [of x y] l(1) that by auto
  ultimately show ?case using flat_opt_set [OF l(2)] by (auto simp: l(3))
qed simp

definition before :: "'a list \<Rightarrow> 'a \<Rightarrow> 'a \<Rightarrow> bool" where
  "before l x y \<longleftrightarrow> (\<exists>xs ys. l = xs @ ys \<and> x \<in> set xs \<and> y \<in> set ys)"

lemma before_append: "before l x y \<Longrightarrow> before (k @ l @ m) x y"
  unfolding before_def by (metis Un_iff append.assoc set_append)

lemma before_split: "x \<in> set k \<Longrightarrow> y \<in> set m \<Longrightarrow> before (k @ m) x y"
  unfolding before_def by blast

lemma flat_opt_before: "flat_opt h xs = Some l \<Longrightarrow> z \<in> set xs \<Longrightarrow> before (the (h z)) x y \<Longrightarrow> before l x y"
proof (induction xs arbitrary: l)
  case (Cons w xs)
  then obtain l1 l2 where l: "h w = Some l1" "flat_opt h xs = Some l2" "l = l1 @ l2" by (auto split: Option.bind_splits)
  show ?case
  proof (cases "z = w")
    case True
    then show ?thesis using Cons.prems(3) before_append [of l1 x y "[]" l2] by (simp add: l)
  next
    case False
    then show ?thesis using Cons.IH [OF l(2)] Cons.prems(2,3) before_append [of l2 x y l1 "[]"] by (simp add: l(3))
  qed
qed simp

lemma flat_opt_each: "flat_opt h xs = Some l \<Longrightarrow> x \<in> set xs \<Longrightarrow> \<exists>l'. h x = Some l'"
  by (induction xs arbitrary: l) (auto split: Option.bind_splits)

text \<open>The links of the devices \<open>ds\<close>, none of which lies behind one of them.\<close>

lemma sibling_links:
  assumes p: "proper_tree t rk" and ds: "distinct ds" "\<forall>d \<in> set ds. \<forall>d' \<in> set ds. \<forall>l \<in> set (d_link_list (devs t d')). \<not> below t l d"
  defines "K \<equiv> concat (map (\<lambda>d. d_link_list (devs t d)) ds)"
  shows "distinct K" and "\<And>a b x. a \<in> set K \<Longrightarrow> b \<in> set K \<Longrightarrow> a \<noteq> b \<Longrightarrow> below t a x \<Longrightarrow> below t b x \<Longrightarrow> False"
proof -
  have links: "distinct (d_link_list (devs t d))" "l \<in> set (d_link_list (devs t d)) \<Longrightarrow> l \<in> set (d_link_list (devs t d')) \<Longrightarrow> d = d'" for d d' l
    using p by (auto simp: proper_tree_def)
  show "distinct K"
    unfolding K_def using ds(1)
  proof (induction ds)
    case (Cons d ds)
    have "k \<notin> set (d_link_list (devs t e))" if "k \<in> set (d_link_list (devs t d))" "e \<in> set ds" for k e
      using links(2) [OF that(1), of e] that(2) Cons.prems by auto
    then have "set (d_link_list (devs t d)) \<inter> set (concat (map (\<lambda>d. d_link_list (devs t d)) ds)) = {}" by auto
    then show ?case using Cons links(1) by simp
  qed simp
  have one: "a = b" if ab: "a \<in> set K" "b \<in> set K" "leads_to t a b" for a b
  proof (rule ccontr)
    assume "a \<noteq> b"
    then obtain d where d: "below t a d" "b \<in> set (d_link_list (devs t d))" using ab(3) by (auto simp: leads_to_def)
    obtain d1 d2 where "d1 \<in> set ds" "a \<in> set (d_link_list (devs t d1))" "d2 \<in> set ds" "b \<in> set (d_link_list (devs t d2))"
      using ab(1,2) by (auto simp: K_def)
    then show False using d links(2) [of b d d2] ds(2) by blast
  qed
  fix a b x assume ab: "a \<in> set K" "b \<in> set K" "a \<noteq> b" "below t a x" "below t b x"
  show False using below_comparable [OF p ab(4,5)] one ab by metis
qed

lemma walk_order_set: "walk_order n t b = Some l \<Longrightarrow> set l = {x. below t b x}"
proof (induction n arbitrary: b l)
  case (Suc n)
  let ?K = "concat (map (\<lambda>d. d_link_list (devs t d)) (b_children (buses t b)))"
  obtain ls where ls: "flat_opt (walk_order n t) ?K = Some ls" and l: "l = b_children (buses t b) @ ls"
    using Suc.prems by (auto simp: flat_opt_nested split: Option.bind_splits)
  have "set (the (walk_order n t k)) = {x. below t k x}" if "k \<in> set ?K" for k
    using Suc.IH flat_opt_each [OF ls that] by auto
  then have "set ls = (\<Union>k \<in> set ?K. {x. below t k x})" using flat_opt_set [OF ls] by auto
  then show ?case unfolding l by (auto elim: belowE intro: below.intros)
qed simp

lemma walk_order_enough: "bus_rank t rk \<Longrightarrow> rk b < n \<Longrightarrow> \<exists>l. walk_order n t b = Some l"
proof (induction n arbitrary: b)
  case (Suc n)
  have "\<exists>l. flat_opt (\<lambda>d. flat_opt (walk_order n t) (d_link_list (devs t d))) (b_children (buses t b)) = Some l"
  proof (intro flat_opt_total)
    fix d l assume "d \<in> set (b_children (buses t b))" "l \<in> set (d_link_list (devs t d))"
    then have "rk l < n" using Suc.prems by (fastforce simp: bus_rank_def)
    then show "\<exists>k. walk_order n t l = Some k" using Suc by blast
  qed
  then show ?case by auto
qed simp

lemma children_apart:
  assumes "proper_tree t rk"
  shows "\<forall>d \<in> set (b_children (buses t b)). \<forall>d' \<in> set (b_children (buses t b)). \<forall>l \<in> set (d_link_list (devs t d')). \<not> below t l d"
  using assms child_not_below_link [of t rk] by (auto simp: proper_tree_def)

lemma walk_order_distinct: "proper_tree t rk \<Longrightarrow> walk_order n t b = Some l \<Longrightarrow> distinct l"
proof (induction n arbitrary: b l)
  case (Suc n)
  let ?cs = "b_children (buses t b)"
  let ?K = "concat (map (\<lambda>d. d_link_list (devs t d)) ?cs)"
  obtain ls where ls: "flat_opt (walk_order n t) ?K = Some ls" and l: "l = ?cs @ ls"
    using Suc.prems(2) by (auto simp: flat_opt_nested split: Option.bind_splits)
  have cs: "distinct ?cs" using Suc.prems(1) by (simp add: proper_tree_def)
  note sib = sibling_links [OF Suc.prems(1) cs children_apart [OF Suc.prems(1)]]
  have each: "distinct (the (walk_order n t k)) \<and> set (the (walk_order n t k)) = {x. below t k x}" if "k \<in> set ?K" for k
    using Suc.IH [OF Suc.prems(1)] walk_order_set flat_opt_each [OF ls that] by auto
  have apart: "{x. below t j x} \<inter> {x. below t k x} = {}" if "j \<in> set ?K" "k \<in> set ?K" "j \<noteq> k" for j k
    using sib(2) [OF that] by blast
  have "distinct ls"
    by (rule flat_opt_distinct [OF ls sib(1)]) (use each apart in simp_all)
  moreover have "set ls = (\<Union>k \<in> set ?K. {x. below t k x})" using flat_opt_set [OF ls] each by auto
  ultimately show ?case unfolding l using cs children_apart [OF Suc.prems(1), of b] by auto
qed simp

lemma walk_order_before:
  "walk_order n t b = Some l \<Longrightarrow> d \<in> set l \<Longrightarrow> k \<in> set (d_link_list (devs t d)) \<Longrightarrow> c \<in> set (b_children (buses t k)) \<Longrightarrow> before l d c"
proof (induction n arbitrary: b l)
  case (Suc n)
  let ?cs = "b_children (buses t b)"
  let ?K = "concat (map (\<lambda>d. d_link_list (devs t d)) ?cs)"
  obtain ls where ls: "flat_opt (walk_order n t) ?K = Some ls" and l: "l = ?cs @ ls"
    using Suc.prems(1) by (auto simp: flat_opt_nested split: Option.bind_splits)
  show ?case
  proof (cases "d \<in> set ?cs")
    case True
    then have k: "k \<in> set ?K" using Suc.prems(3) by auto
    then obtain lk where lk: "walk_order n t k = Some lk" using flat_opt_each [OF ls] by blast
    have "c \<in> set lk" using walk_order_set [OF lk] Suc.prems(4) by (auto intro: below.child)
    then have "c \<in> set ls" using flat_opt_set [OF ls] k lk by force
    then show ?thesis unfolding l using True by (rule before_split [rotated])
  next
    case False
    then have "d \<in> set ls" using Suc.prems(2) l by simp
    then obtain z where z: "z \<in> set ?K" "d \<in> set (the (walk_order n t z))" using flat_opt_set [OF ls] by blast
    then obtain lz where lz: "walk_order n t z = Some lz" using flat_opt_each [OF ls] by blast
    have "before lz d c" using Suc.IH [OF lz _ Suc.prems(3,4)] z lz by simp
    then have "before ls d c" using flat_opt_before [OF ls z(1)] lz by simp
    then show ?thesis unfolding l using before_append [of ls d c ?cs "[]"] by simp
  qed
qed simp

text \<open>A function of the operations that leaves the buses and links as they are.\<close>

definition keeps_wiring :: "hook \<Rightarrow> bool" where
  "keeps_wiring hook \<longleftrightarrow> (\<forall>k d t t'. hook k d t = Some t' \<longrightarrow> same_wiring t t')"

lemma visits_keep_wiring:
  assumes "keeps_wiring hook"
  shows "enable_dev hook d t = Some t' \<Longrightarrow> same_wiring t t'" "init_dev hook d t = Some t' \<Longrightarrow> same_wiring t t'"
    "final_dev hook d t = Some t' \<Longrightarrow> same_wiring t t'"
proof -
  have refl: "same_wiring t t" for t by (simp add: same_wiring_def)
  have hook: "hook k d t = Some t' \<Longrightarrow> same_wiring t t'" for k t using assms by (auto simp: keeps_wiring_def)
  show "enable_dev hook d t = Some t' \<Longrightarrow> same_wiring t t'" "final_dev hook d t = Some t' \<Longrightarrow> same_wiring t t'"
    using hook refl by (auto simp: enable_dev_def final_dev_def split: if_splits option.splits)
  have "same_wiring (upd_dev d (\<lambda>d. d\<lparr>d_initialized := True\<rparr>) t) t' \<Longrightarrow> same_wiring t t'"
    by (auto simp: same_wiring_def upd_dev_def)
  then show "init_dev hook d t = Some t' \<Longrightarrow> same_wiring t t'"
    using hook refl by (auto simp: init_dev_def split: if_splits option.splits)
qed

lemma root_first:
  assumes links: "fold_opt walk links = (\<lambda>t. Option.bind (flat_opt (walk_order n t) links) (\<lambda>l. fold_opt visit l t))"
    and keep: "\<And>t'. visit root t = Some t' \<Longrightarrow> same_wiring t t'" and ls: "flat_opt (walk_order n t) links = Some ls"
  shows "Option.bind (visit root t) (fold_opt walk links) = fold_opt visit (root # ls) t"
proof (cases "visit root t")
  case (Some u)
  have "walk_order n u = walk_order n t" using keep [OF Some] walk_order_wiring by blast
  then show ?thesis using Some ls by (simp add: links)
qed simp

text \<open>
  C13.  The walks that enable, initialise and finalise the devices visit exactly the devices of
  the tree, each once, a device before every device behind it: each is the run of the
  operation on one device over one list \<open>root # ls\<close> (\<^verbatim>\<open>dev_enable\<close> leaves the root out).  The
  functions the devices provide must leave the buses and links as they are.
\<close>
theorem device_walks_order:
  assumes "proper_tree t rk" "\<forall>l \<in> set (d_link_list (devs t root)). rk l < n \<and> \<not> below t l root" "keeps_wiring hook"
  shows "\<exists>ls. dev_enable n hook root t = fold_opt (enable_dev hook) ls t
    \<and> dev_initialize n hook root t = fold_opt (init_dev hook) (root # ls) t
    \<and> dev_finalize n hook root t = fold_opt (final_dev hook) (root # ls) t
    \<and> distinct (root # ls) \<and> set ls = {d. \<exists>l \<in> set (d_link_list (devs t root)). below t l d}
    \<and> (\<forall>d \<in> set (root # ls). \<forall>l \<in> set (d_link_list (devs t d)). \<forall>c \<in> set (b_children (buses t l)). before (root # ls) d c)"
proof -
  let ?L = "d_link_list (devs t root)"
  have "bus_rank t rk" using assms(1) by (simp add: proper_tree_def tree_ok_def)
  then have "\<exists>ls. flat_opt (walk_order n t) ?L = Some ls" using assms(2) by (intro flat_opt_total) (auto intro: walk_order_enough)
  then obtain ls where ls: "flat_opt (walk_order n t) ?L = Some ls" by blast
  note keep = visits_keep_wiring [OF assms(3)]
  have sib: "distinct ?L" "\<And>a b x. a \<in> set ?L \<Longrightarrow> b \<in> set ?L \<Longrightarrow> a \<noteq> b \<Longrightarrow> below t a x \<Longrightarrow> below t b x \<Longrightarrow> False"
    using sibling_links [OF assms(1), of "[root]"] assms(2) by auto
  have each: "distinct (the (walk_order n t k)) \<and> set (the (walk_order n t k)) = {x. below t k x}" if "k \<in> set ?L" for k
    using walk_order_distinct [OF assms(1)] walk_order_set flat_opt_each [OF ls that] by auto
  have apart: "{x. below t j x} \<inter> {x. below t k x} = {}" if "j \<in> set ?L" "k \<in> set ?L" "j \<noteq> k" for j k
    using sib(2) [OF that] by blast
  have d: "distinct ls"
    by (rule flat_opt_distinct [OF ls sib(1)]) (use each apart in simp_all)
  have s: "set ls = {d. \<exists>l \<in> set ?L. below t l d}" using flat_opt_set [OF ls] each by auto
  have b: "before (root # ls) d c" if h: "d \<in> set (root # ls)" "l \<in> set (d_link_list (devs t d))" "c \<in> set (b_children (buses t l))" for d l c
  proof (cases "d = root")
    case True
    then have "c \<in> set ls" using h s by (auto intro: below.child)
    then show ?thesis using before_split [of root "[root]" c ls] True by simp
  next
    case False
    then obtain z where z: "z \<in> set ?L" "d \<in> set (the (walk_order n t z))" using h(1) flat_opt_set [OF ls] by auto
    then obtain lz where lz: "walk_order n t z = Some lz" using flat_opt_each [OF ls] by blast
    have "before ls d c" using flat_opt_before [OF ls z(1)] walk_order_before [OF lz _ h(2,3)] z lz by simp
    then show ?thesis using before_append [of ls d c "[root]" "[]"] by simp
  qed
  have en: "dev_enable n hook root t = fold_opt (enable_dev hook) ls t"
    using en.walk_links_in_order [OF keep(1), where n = n and links = ?L and t = t] ls by (simp add: dev_enable_def)
  have li: "fold_opt (init_link n hook) ?L = (\<lambda>t. Option.bind (flat_opt (walk_order n t) ?L) (\<lambda>l. fold_opt (init_dev hook) l t))"
    by (rule ext, rule ini.walk_links_in_order, rule keep(2))
  have "Option.bind (init_dev hook root t) (fold_opt (init_link n hook) ?L) = fold_opt (init_dev hook) (root # ls) t"
    by (rule root_first [OF li _ ls]) (rule keep(2))
  then have ini: "dev_initialize n hook root t = fold_opt (init_dev hook) (root # ls) t"
    using li keep(2) [of root t] by (cases "init_dev hook root t") (simp_all add: dev_initialize_def same_wiring_def)
  have lf: "fold_opt (final_link n hook) ?L = (\<lambda>t. Option.bind (flat_opt (walk_order n t) ?L) (\<lambda>l. fold_opt (final_dev hook) l t))"
    by (rule ext, rule fin.walk_links_in_order, rule keep(3))
  have "Option.bind (final_dev hook root t) (fold_opt (final_link n hook) ?L) = fold_opt (final_dev hook) (root # ls) t"
    by (rule root_first [OF lf _ ls]) (rule keep(3))
  then have fin: "dev_finalize n hook root t = fold_opt (final_dev hook) (root # ls) t"
    using lf keep(3) [of root t] by (cases "final_dev hook root t") (simp_all add: dev_finalize_def same_wiring_def)
  have "root \<notin> set ls" using s assms(2) by auto
  then show ?thesis using en ini fin d s b by (intro exI [of _ ls]) auto
qed

lemma example_alloc_proper: "proper_tree example_alloc_tree (\<lambda>_. 0)"
  and example_alloc_below: "below example_alloc_tree 1 d \<longleftrightarrow> d = 2 \<or> d = 3"
proof -
  let ?t = example_alloc_tree
  have ch: "b_children (buses ?t b) = (if b = 1 then [2, 3] else [])" "d_link_list (devs ?t d) = (if d = 1 then [1] else [])" for b d
    by (auto simp: example_alloc_simps)
  show "proper_tree ?t (\<lambda>_. 0)" by (auto simp: proper_tree_def tree_ok_def bus_rank_def ch split: if_splits)
  show "below ?t 1 d \<longleftrightarrow> d = 2 \<or> d = 3"
  proof
    assume "below ?t 1 d"
    then show "d = 2 \<or> d = 3" by (rule belowE) (auto simp: ch split: if_splits)
  next
    assume "d = 2 \<or> d = 3"
    then have "d \<in> set (b_children (buses ?t 1))" by (auto simp: ch)
    then show "below ?t 1 d" by (rule below.child)
  qed
qed

theorem device_walks_order_witness:
  "\<exists>ls. dev_initialize 1 (\<lambda>k d t. Some t) 1 example_alloc_tree = fold_opt (init_dev (\<lambda>k d t. Some t)) (1 # ls) example_alloc_tree
     \<and> distinct (1 # ls) \<and> set ls = {2, 3}"
proof -
  have l: "d_link_list (devs example_alloc_tree 1) = [1]" by (simp add: example_alloc_simps)
  have links: "\<forall>l \<in> set (d_link_list (devs example_alloc_tree 1)). (0::nat) < 1 \<and> \<not> below example_alloc_tree l 1"
    using example_alloc_below [of 1] l by simp
  have hook: "keeps_wiring (\<lambda>k d t. Some t)" by (simp add: keeps_wiring_def same_wiring_def)
  obtain ls where "dev_initialize 1 (\<lambda>k d t. Some t) 1 example_alloc_tree = fold_opt (init_dev (\<lambda>k d t. Some t)) (1 # ls) example_alloc_tree"
    and d: "distinct (1 # ls)" and s: "set ls = {d. \<exists>l \<in> set (d_link_list (devs example_alloc_tree 1)). below example_alloc_tree l d}"
    using device_walks_order [OF example_alloc_proper links hook] by blast
  moreover have "set ls = {2, 3}" unfolding s l using example_alloc_below by auto
  ultimately show ?thesis by blast
qed

end
