(* ===== verification/Bootstate.thy ===== *)
theory Bootstate
  imports Devinit
begin

text \<open>
  The boot state machine, \<^verbatim>\<open>src/lib/hardwaremain.c\<close> and \<^verbatim>\<open>src/include/bootstate.h\<close>: the states of
  the boot with the callbacks and blockers of their two phases, the loop that walks through
  them, and \<^verbatim>\<open>main\<close>.  Callback structures live in a store and are linked by their \<^verbatim>\<open>next\<close>
  fields, as in the code.  Functions of other parts (callbacks, timers, tables, payload, OS
  resume) are the fields of an environment; the device functions are those of the device
  theories.  A computation stops early with a value of \<open>boot_stop\<close>.  Messages and time stamps
  are left out; of the time samples the model keeps how many each state has taken.
\<close>

section \<open>The data\<close>

datatype boot_state_t =
    BS_PRE_DEVICE | BS_DEV_INIT_CHIPS | BS_DEV_ENUMERATE | BS_DEV_RESOURCES | BS_DEV_ENABLE | BS_DEV_INIT
  | BS_POST_DEVICE | BS_OS_RESUME_CHECK | BS_OS_RESUME | BS_WRITE_TABLES | BS_PAYLOAD_LOAD | BS_PAYLOAD_BOOT

datatype boot_state_sequence_t = BS_ON_ENTRY | BS_ON_EXIT

text \<open>The values of the enumerations, which \<^verbatim>\<open>boot_state_block\<close> compares.\<close>

fun state_code :: "boot_state_t \<Rightarrow> nat" where
  "state_code BS_PRE_DEVICE = 0"
| "state_code BS_DEV_INIT_CHIPS = 1"
| "state_code BS_DEV_ENUMERATE = 2"
| "state_code BS_DEV_RESOURCES = 3"
| "state_code BS_DEV_ENABLE = 4"
| "state_code BS_DEV_INIT = 5"
| "state_code BS_POST_DEVICE = 6"
| "state_code BS_OS_RESUME_CHECK = 7"
| "state_code BS_OS_RESUME = 8"
| "state_code BS_WRITE_TABLES = 9"
| "state_code BS_PAYLOAD_LOAD = 10"
| "state_code BS_PAYLOAD_BOOT = 11"

fun seq_code :: "boot_state_sequence_t \<Rightarrow> nat" where
  "seq_code BS_ON_ENTRY = 0"
| "seq_code BS_ON_EXIT = 1"

lemma state_code_inj: "state_code a = state_code b \<Longrightarrow> a = b"
  by (cases a; cases b) simp_all

lemma seq_code_inj: "seq_code a = seq_code b \<Longrightarrow> a = b"
  by (cases a; cases b) simp_all

instantiation boot_state_t :: linorder
begin

definition less_eq_boot_state_t :: "boot_state_t \<Rightarrow> boot_state_t \<Rightarrow> bool" where
  "less_eq_boot_state_t a b \<longleftrightarrow> state_code a \<le> state_code b"

definition less_boot_state_t :: "boot_state_t \<Rightarrow> boot_state_t \<Rightarrow> bool" where
  "less_boot_state_t a b \<longleftrightarrow> state_code a < state_code b"

instance
  by standard (auto simp: less_eq_boot_state_t_def less_boot_state_t_def intro: state_code_inj)

end

instantiation boot_state_sequence_t :: linorder
begin

definition less_eq_boot_state_sequence_t :: "boot_state_sequence_t \<Rightarrow> boot_state_sequence_t \<Rightarrow> bool" where
  "less_eq_boot_state_sequence_t a b \<longleftrightarrow> seq_code a \<le> seq_code b"

definition less_boot_state_sequence_t :: "boot_state_sequence_t \<Rightarrow> boot_state_sequence_t \<Rightarrow> bool" where
  "less_boot_state_sequence_t a b \<longleftrightarrow> seq_code a < seq_code b"

instance
  by standard (auto simp: less_eq_boot_state_sequence_t_def less_boot_state_sequence_t_def intro: seq_code_inj)

end

type_synonym bscb_ptr = nat

record boot_state_callback =
  cb_arg :: nat
  cb_callback :: nat
  cb_next :: "bscb_ptr option"

record boot_phase =
  ph_callbacks :: "bscb_ptr option"
  ph_blockers :: u32

record boot_state =
  st_phases :: "boot_state_sequence_t \<Rightarrow> boot_phase"
  st_arg :: "nat option"
  st_complete :: bool
  st_num_samples :: nat

record boot_machine =
  boot_states :: "boot_state_t \<Rightarrow> boot_state"
  cur_state_id :: boot_state_t
  cur_seq :: boot_state_sequence_t
  bscbs :: "bscb_ptr \<Rightarrow> boot_state_callback"
  boot_tree :: devtree
  post_codes :: "u8 list"

text \<open>Why the firmware stops: it died, gave control away, or the fuel of a loop ran out.\<close>

datatype boot_stop = Died | Payload_runs | Os_resumes | Machine_failure | No_fuel

text \<open>
  The environment: what the functions of other parts do, the configuration, and the fuel for
  the loops over the device tree (its depth and the resources of a bus).
\<close>

record boot_env =
  env_callback :: "nat \<Rightarrow> nat \<Rightarrow> boot_machine \<Rightarrow> boot_stop + boot_machine"
  env_timers_run :: "boot_machine \<Rightarrow> boot_stop + bool \<times> boot_machine"
  env_wakeup_vector :: "boot_machine \<Rightarrow> nat option"
  env_acpi_resume :: "nat option \<Rightarrow> boot_machine \<Rightarrow> boot_stop + boot_machine"
  env_write_tables :: "boot_machine \<Rightarrow> boot_stop + boot_machine"
  env_payload_load :: "boot_machine \<Rightarrow> boot_stop + nat option \<times> boot_machine"
  env_payload_run :: "nat option \<Rightarrow> boot_machine \<Rightarrow> boot_stop + boot_machine"
  env_hook :: hook
  env_scan :: "nat \<Rightarrow> dev_id \<Rightarrow> u32 \<Rightarrow> devtree \<Rightarrow> (u32 \<times> devtree) option"
  env_root :: dev_id
  env_depth :: nat
  env_loops :: nat
  env_timer_queue :: bool
  env_monotonic_timer :: bool
  env_acpi :: bool
  env_pref64 :: bool
  env_onboard_vga :: bool

definition and_then :: "'e + 'a \<Rightarrow> ('a \<Rightarrow> 'e + 'b) \<Rightarrow> 'e + 'b" where
  "and_then r f = (case r of Inl e \<Rightarrow> Inl e | Inr x \<Rightarrow> f x)"

lemma and_then_simps [simp]: "and_then (Inl e) f = Inl e" "and_then (Inr x) f = f x"
  by (simp_all add: and_then_def)

lemma and_then_eq_Inr: "and_then r f = Inr y \<longleftrightarrow> (\<exists>x. r = Inr x \<and> f x = Inr y)"
  by (cases r) simp_all

definition upd_state :: "boot_state_t \<Rightarrow> (boot_state \<Rightarrow> boot_state) \<Rightarrow> boot_machine \<Rightarrow> boot_machine" where
  "upd_state s f m = m\<lparr>boot_states := (boot_states m)(s := f (boot_states m s))\<rparr>"

abbreviation phase_of :: "boot_machine \<Rightarrow> boot_state_t \<Rightarrow> boot_state_sequence_t \<Rightarrow> boot_phase" where
  "phase_of m s q \<equiv> st_phases (boot_states m s) q"

definition upd_phase :: "boot_state_t \<Rightarrow> boot_state_sequence_t \<Rightarrow> (boot_phase \<Rightarrow> boot_phase) \<Rightarrow> boot_machine \<Rightarrow> boot_machine" where
  "upd_phase s q f = upd_state s (\<lambda>st. st\<lparr>st_phases := (st_phases st)(q := f (st_phases st q))\<rparr>)"

section \<open>The functions of the states\<close>

definition on_tree :: "(devtree \<Rightarrow> devtree option) \<Rightarrow> boot_machine \<Rightarrow> boot_stop + boot_machine" where
  "on_tree f m = (case f (boot_tree m) of None \<Rightarrow> Inl Died | Some t \<Rightarrow> Inr (m\<lparr>boot_tree := t\<rparr>))"

fun run_state :: "boot_env \<Rightarrow> boot_state_t \<Rightarrow> nat option \<Rightarrow> boot_machine \<Rightarrow> boot_stop + boot_state_t \<times> boot_machine" where
  "run_state env BS_PRE_DEVICE arg m = Inr (BS_DEV_INIT_CHIPS, m)"
| "run_state env BS_DEV_INIT_CHIPS arg m =
     and_then (on_tree (dev_initialize_chips (env_hook env)) m) (\<lambda>m. Inr (BS_DEV_ENUMERATE, m))"
| "run_state env BS_DEV_ENUMERATE arg m =
     and_then (on_tree (dev_enumerate (env_loops env) (env_hook env) (env_scan env) (env_root env)) m) (\<lambda>m. Inr (BS_DEV_RESOURCES, m))"
| "run_state env BS_DEV_RESOURCES arg m =
     and_then (on_tree (dev_configure (env_depth env) (env_loops env) (env_pref64 env) (env_onboard_vga env) (env_hook env) (env_root env)) m)
       (\<lambda>m. Inr (BS_DEV_ENABLE, m))"
| "run_state env BS_DEV_ENABLE arg m =
     and_then (on_tree (dev_enable (env_depth env) (env_hook env) (env_root env)) m) (\<lambda>m. Inr (BS_DEV_INIT, m))"
| "run_state env BS_DEV_INIT arg m =
     and_then (on_tree (dev_initialize (env_depth env) (env_hook env) (env_root env)) m) (\<lambda>m. Inr (BS_POST_DEVICE, m))"
| "run_state env BS_POST_DEVICE arg m =
     and_then (on_tree (dev_finalize (env_depth env) (env_hook env) (env_root env)) m) (\<lambda>m. Inr (BS_OS_RESUME_CHECK, m))"
| "run_state env BS_OS_RESUME_CHECK arg m =
     (case (if env_acpi env then env_wakeup_vector env m else None) of
        Some vector \<Rightarrow> Inr (BS_OS_RESUME, upd_state BS_OS_RESUME (\<lambda>st. st\<lparr>st_arg := Some vector\<rparr>) m)
      | None \<Rightarrow> Inr (BS_WRITE_TABLES, m))"
| "run_state env BS_OS_RESUME arg m =
     and_then (if env_acpi env then env_acpi_resume env arg m else Inr m) (\<lambda>m. Inr (BS_WRITE_TABLES, m))"
| "run_state env BS_WRITE_TABLES arg m =
     and_then (env_write_tables env m) (\<lambda>m.
     and_then (on_tree (dev_finalize_chips (env_hook env)) m) (\<lambda>m. Inr (BS_PAYLOAD_LOAD, m)))"
| "run_state env BS_PAYLOAD_LOAD arg m =
     and_then (env_payload_load env m) (\<lambda>(payload, m).
       if payload = None then Inl Died
       else Inr (BS_PAYLOAD_BOOT, upd_state BS_PAYLOAD_BOOT (\<lambda>st. st\<lparr>st_arg := payload\<rparr>) m))"
| "run_state env BS_PAYLOAD_BOOT arg m =
     and_then (env_payload_run env arg m) (\<lambda>m. Inr (BS_PAYLOAD_BOOT, m))"

section \<open>Callbacks and timers\<close>

fun bs_run_timers :: "nat \<Rightarrow> boot_env \<Rightarrow> bool \<Rightarrow> boot_machine \<Rightarrow> boot_stop + boot_machine" where
  "bs_run_timers 0 env drain m = (if env_timer_queue env then Inl No_fuel else Inr m)"
| "bs_run_timers (Suc n) env drain m =
     (if \<not> env_timer_queue env then Inr m
      else and_then (env_timers_run env m) (\<lambda>(left, m).
        if \<not> left then Inr m else if drain then bs_run_timers n env drain m else Inr m))"

text \<open>Take the first callback off the list of a phase: its function, its argument and the machine without it.\<close>

definition pop_callback :: "boot_state_t \<Rightarrow> boot_state_sequence_t \<Rightarrow> bscb_ptr \<Rightarrow> boot_machine \<Rightarrow> boot_machine" where
  "pop_callback s q p m =
     (let m = upd_phase s q (\<lambda>ph. ph\<lparr>ph_callbacks := cb_next (bscbs m p)\<rparr>) m
      in m\<lparr>bscbs := (bscbs m)(p := (bscbs m p)\<lparr>cb_next := None\<rparr>)\<rparr>)"

fun bs_call_callbacks ::
  "nat \<Rightarrow> boot_env \<Rightarrow> boot_state_t \<Rightarrow> boot_state_sequence_t \<Rightarrow> boot_machine \<Rightarrow> boot_stop + boot_machine" where
  "bs_call_callbacks 0 env s q m = Inl No_fuel"
| "bs_call_callbacks (Suc n) env s q m =
     (case ph_callbacks (phase_of m s q) of
        Some p \<Rightarrow>
          let bscb = bscbs m p in
          and_then (env_callback env (cb_callback bscb) (cb_arg bscb) (pop_callback s q p m)) (bs_call_callbacks n env s q)
      | None \<Rightarrow>
          if ph_blockers (phase_of m s q) = 0 then Inr m
          else and_then (bs_run_timers 1 env False m) (bs_call_callbacks n env s q))"

text \<open>\<^verbatim>\<open>boot_state_sched_callback\<close> and the functions below return whether the call succeeded (0 in the code).\<close>

definition boot_state_sched_callback ::
  "boot_state_t \<Rightarrow> bscb_ptr \<Rightarrow> boot_state_sequence_t \<Rightarrow> boot_machine \<Rightarrow> bool \<times> boot_machine" where
  "boot_state_sched_callback s p q m =
     (if st_complete (boot_states m s) then (False, m)
      else let m = m\<lparr>bscbs := (bscbs m)(p := (bscbs m p)\<lparr>cb_next := ph_callbacks (phase_of m s q)\<rparr>)\<rparr>
           in (True, upd_phase s q (\<lambda>ph. ph\<lparr>ph_callbacks := Some p\<rparr>) m))"

definition boot_state_sched_on_entry :: "bscb_ptr \<Rightarrow> boot_state_t \<Rightarrow> boot_machine \<Rightarrow> bool \<times> boot_machine" where
  "boot_state_sched_on_entry p s = boot_state_sched_callback s p BS_ON_ENTRY"

definition boot_state_sched_on_exit :: "bscb_ptr \<Rightarrow> boot_state_t \<Rightarrow> boot_machine \<Rightarrow> bool \<times> boot_machine" where
  "boot_state_sched_on_exit p s = boot_state_sched_callback s p BS_ON_EXIT"

text \<open>The entries the linker collects: state, phase and callback structure.\<close>

definition boot_state_schedule_static_entries ::
  "(boot_state_t \<times> boot_state_sequence_t \<times> bscb_ptr) list \<Rightarrow> boot_machine \<Rightarrow> boot_machine" where
  "boot_state_schedule_static_entries entries =
     fold (\<lambda>(s, when, p) m. snd (if when = BS_ON_ENTRY then boot_state_sched_on_entry p s m else boot_state_sched_on_exit p s m)) entries"

definition already_ran :: "boot_machine \<Rightarrow> boot_state_t \<Rightarrow> boot_state_sequence_t \<Rightarrow> bool" where
  "already_ran m s q \<longleftrightarrow> s < cur_state_id m \<or> cur_state_id m = s \<and> q < cur_seq m"

definition boot_state_block :: "boot_state_t \<Rightarrow> boot_state_sequence_t \<Rightarrow> boot_machine \<Rightarrow> bool \<times> boot_machine" where
  "boot_state_block s q m =
     (if already_ran m s q then (False, m)
      else (True, upd_phase s q (\<lambda>ph. ph\<lparr>ph_blockers := ph_blockers ph + 1\<rparr>) m))"

definition boot_state_unblock :: "boot_state_t \<Rightarrow> boot_state_sequence_t \<Rightarrow> boot_machine \<Rightarrow> bool \<times> boot_machine" where
  "boot_state_unblock s q m =
     (if already_ran m s q then (False, m)
      else if ph_blockers (phase_of m s q) = 0 then (False, m)
      else (True, upd_phase s q (\<lambda>ph. ph\<lparr>ph_blockers := ph_blockers ph - 1\<rparr>) m))"

definition boot_state_current_block :: "boot_machine \<Rightarrow> boot_machine" where
  "boot_state_current_block m = snd (boot_state_block (cur_state_id m) (cur_seq m) m)"

definition boot_state_current_unblock :: "boot_machine \<Rightarrow> boot_machine" where
  "boot_state_current_unblock m = snd (boot_state_unblock (cur_state_id m) (cur_seq m) m)"

section \<open>The walk through the states\<close>

fun state_post_code :: "boot_state_t \<Rightarrow> u8" where
  "state_post_code BS_PRE_DEVICE = 0x70"
| "state_post_code BS_DEV_INIT_CHIPS = 0x71"
| "state_post_code BS_DEV_ENUMERATE = 0x72"
| "state_post_code BS_DEV_RESOURCES = 0x73"
| "state_post_code BS_DEV_ENABLE = 0x74"
| "state_post_code BS_DEV_INIT = 0x75"
| "state_post_code BS_POST_DEVICE = 0x76"
| "state_post_code BS_OS_RESUME_CHECK = 0x77"
| "state_post_code BS_OS_RESUME = 0x78"
| "state_post_code BS_WRITE_TABLES = 0x79"
| "state_post_code BS_PAYLOAD_LOAD = 0x7a"
| "state_post_code BS_PAYLOAD_BOOT = 0x7b"

definition bs_sample_time :: "boot_env \<Rightarrow> boot_state_t \<Rightarrow> boot_machine \<Rightarrow> boot_machine" where
  "bs_sample_time env s m =
     (if env_monotonic_timer env then upd_state s (\<lambda>st. st\<lparr>st_num_samples := st_num_samples st + 1\<rparr>) m else m)"

definition post_code :: "u8 \<Rightarrow> boot_machine \<Rightarrow> boot_machine" where
  "post_code c m = m\<lparr>post_codes := post_codes m @ [c]\<rparr>"

text \<open>One turn of the loop of \<^verbatim>\<open>bs_walk_state_machine\<close> for a state that is not complete.\<close>

definition bs_turn :: "nat \<Rightarrow> boot_env \<Rightarrow> boot_machine \<Rightarrow> boot_stop + boot_machine" where
  "bs_turn n env m =
     (let s = cur_state_id m in
      and_then (bs_run_timers 1 env False m) (\<lambda>m.
      let m = bs_sample_time env s m in
      and_then (bs_call_callbacks n env s (cur_seq m) m) (\<lambda>m.
      let m = m\<lparr>cur_seq := BS_ON_EXIT\<rparr>;
          m = bs_sample_time env s m;
          m = post_code (state_post_code s) m in
      and_then (run_state env s (st_arg (boot_states m s)) m) (\<lambda>(next_id, m).
      let m = bs_sample_time env s m in
      and_then (bs_call_callbacks n env s (cur_seq m) m) (\<lambda>m.
      let m = m\<lparr>cur_state_id := next_id, cur_seq := BS_ON_ENTRY\<rparr>;
          m = bs_sample_time env s m
      in Inr (upd_state s (\<lambda>st. st\<lparr>st_complete := True\<rparr>) m))))))"

fun bs_walk_state_machine :: "nat \<Rightarrow> nat \<Rightarrow> boot_env \<Rightarrow> boot_machine \<Rightarrow> boot_stop + boot_machine" where
  "bs_walk_state_machine 0 n env m = Inl No_fuel"
| "bs_walk_state_machine (Suc k) n env m =
     (if st_complete (boot_states m (cur_state_id m)) then Inr m
      else and_then (bs_turn n env m) (bs_walk_state_machine k n env))"

abbreviation POST_ENTRY_RAMSTAGE :: u8 where "POST_ENTRY_RAMSTAGE \<equiv> 0x80"
abbreviation POST_CONSOLE_READY :: u8 where "POST_CONSOLE_READY \<equiv> 0x39"
abbreviation POST_CONSOLE_BOOT_MSG :: u8 where "POST_CONSOLE_BOOT_MSG \<equiv> 0x40"

text \<open>\<^verbatim>\<open>main\<close> of the ramstage; it dies when the walk comes back.\<close>

definition ramstage_main ::
  "nat \<Rightarrow> nat \<Rightarrow> boot_env \<Rightarrow> (boot_state_t \<times> boot_state_sequence_t \<times> bscb_ptr) list \<Rightarrow> boot_machine \<Rightarrow> boot_stop" where
  "ramstage_main k n env entries m =
     (let m = post_code POST_CONSOLE_BOOT_MSG (post_code POST_CONSOLE_READY (post_code POST_ENTRY_RAMSTAGE m));
          m = boot_state_schedule_static_entries entries m
      in case bs_walk_state_machine k n env m of Inl e \<Rightarrow> e | Inr m \<Rightarrow> Machine_failure)"

section \<open>What the other parts may do\<close>

text \<open>
  The other parts of the firmware act on the state machine through its interface only: they
  schedule callbacks, block and unblock phases, fill in the function and argument of a
  callback structure and change the device tree.
\<close>

inductive api_call :: "boot_machine \<Rightarrow> boot_machine \<Rightarrow> bool" where
  sched: "api_call m (snd (boot_state_sched_callback s p q m))"
| block: "api_call m (snd (boot_state_block s q m))"
| unblock: "api_call m (snd (boot_state_unblock s q m))"
| fill: "api_call m (m\<lparr>bscbs := (bscbs m)(p := (bscbs m p)\<lparr>cb_callback := f, cb_arg := a\<rparr>)\<rparr>)"
| devices: "api_call m (m\<lparr>boot_tree := t\<rparr>)"

definition client_ok :: "boot_env \<Rightarrow> bool" where
  "client_ok env \<longleftrightarrow>
     (\<forall>f a m m'. env_callback env f a m = Inr m' \<longrightarrow> api_call\<^sup>*\<^sup>* m m')
   \<and> (\<forall>left m m'. env_timers_run env m = Inr (left, m') \<longrightarrow> api_call\<^sup>*\<^sup>* m m')
   \<and> (\<forall>v m m'. env_acpi_resume env v m = Inr m' \<longrightarrow> api_call\<^sup>*\<^sup>* m m')
   \<and> (\<forall>m m'. env_write_tables env m = Inr m' \<longrightarrow> api_call\<^sup>*\<^sup>* m m')
   \<and> (\<forall>p m m'. env_payload_load env m = Inr (p, m') \<longrightarrow> api_call\<^sup>*\<^sup>* m m')
   \<and> (\<forall>p m m'. env_payload_run env p m = Inr m' \<longrightarrow> api_call\<^sup>*\<^sup>* m m')"

text \<open>What they cannot change: where the walk is, which states are complete, the post codes and the samples.\<close>

definition same_walk :: "boot_machine \<Rightarrow> boot_machine \<Rightarrow> bool" where
  "same_walk m m' \<longleftrightarrow> cur_state_id m' = cur_state_id m \<and> cur_seq m' = cur_seq m \<and> post_codes m' = post_codes m
     \<and> (\<forall>s. st_complete (boot_states m' s) = st_complete (boot_states m s) \<and> st_num_samples (boot_states m' s) = st_num_samples (boot_states m s))"

lemma same_walk_refl [simp]: "same_walk m m" and same_walk_trans: "same_walk k l \<Longrightarrow> same_walk l m \<Longrightarrow> same_walk k m"
  by (simp_all add: same_walk_def)

lemma same_walk_phase [simp]: "same_walk m (upd_phase s q f m)"
  by (simp add: same_walk_def upd_phase_def upd_state_def)

lemma same_walk_bscbs [simp]: "same_walk m (m\<lparr>bscbs := x\<rparr>)" and same_walk_tree [simp]: "same_walk m (m\<lparr>boot_tree := t\<rparr>)"
  by (simp_all add: same_walk_def)

lemma same_walk_arg [simp]: "same_walk m (upd_state s (\<lambda>st. st\<lparr>st_arg := a\<rparr>) m)"
  by (simp add: same_walk_def upd_state_def)

lemma api_call_walk: "api_call m m' \<Longrightarrow> same_walk m m'"
proof (induction rule: api_call.induct)
  case (sched m s p q)
  have "same_walk m (upd_phase s q f (m\<lparr>bscbs := x\<rparr>))" for f x by (rule same_walk_trans [OF same_walk_bscbs same_walk_phase])
  then show ?case by (simp add: boot_state_sched_callback_def Let_def)
qed (simp_all add: boot_state_block_def boot_state_unblock_def)

lemma api_walk: "api_call\<^sup>*\<^sup>* m m' \<Longrightarrow> same_walk m m'"
  by (induction rule: rtranclp_induct) (auto intro: same_walk_trans api_call_walk)

lemma client_walk:
  assumes "client_ok env"
  shows "env_callback env f a m = Inr m' \<Longrightarrow> same_walk m m'" "env_timers_run env m = Inr (left, m') \<Longrightarrow> same_walk m m'"
    "env_acpi_resume env v m = Inr m' \<Longrightarrow> same_walk m m'" "env_write_tables env m = Inr m' \<Longrightarrow> same_walk m m'"
    "env_payload_load env m = Inr (p, m') \<Longrightarrow> same_walk m m'" "env_payload_run env p m = Inr m' \<Longrightarrow> same_walk m m'"
  using assms unfolding client_ok_def by (blast intro: api_walk)+

lemma pop_walk [simp]: "same_walk m (pop_callback s q p m)"
  unfolding pop_callback_def Let_def by (rule same_walk_trans [OF same_walk_phase same_walk_bscbs])

lemma timers_walk:
  assumes "client_ok env"
  shows "bs_run_timers n env drain m = Inr m' \<Longrightarrow> same_walk m m'"
proof (induction n arbitrary: m)
  case (Suc n)
  show ?case
  proof (cases "env_timer_queue env")
    case True
    then obtain left m1 where t: "env_timers_run env m = Inr (left, m1)"
      and r: "(if \<not> left then Inr m1 else if drain then bs_run_timers n env drain m1 else Inr m1) = Inr m'"
      using Suc.prems by (auto simp: and_then_eq_Inr)
    have "same_walk m m1" using client_walk(2) [OF assms t] .
    then show ?thesis using r Suc.IH by (auto split: if_splits intro: same_walk_trans)
  qed (use Suc.prems in simp)
qed (simp split: if_splits)

lemma callbacks_walk:
  assumes "client_ok env"
  shows "bs_call_callbacks n env s q m = Inr m' \<Longrightarrow> same_walk m m'"
proof (induction n arbitrary: m)
  case (Suc n)
  show ?case
  proof (cases "ph_callbacks (phase_of m s q)")
    case None
    then consider "m' = m" | m1 where "bs_run_timers 1 env False m = Inr m1" "bs_call_callbacks n env s q m1 = Inr m'"
      using Suc.prems by (auto simp: and_then_eq_Inr simp del: bs_run_timers.simps split: if_splits)
    then show ?thesis using timers_walk [OF assms] Suc.IH same_walk_trans by cases (simp, blast)
  next
    case (Some p)
    then obtain m1 where c: "env_callback env (cb_callback (bscbs m p)) (cb_arg (bscbs m p)) (pop_callback s q p m) = Inr m1"
      "bs_call_callbacks n env s q m1 = Inr m'"
      using Suc.prems by (auto simp: and_then_eq_Inr Let_def)
    have "same_walk (pop_callback s q p m) m1" using client_walk(1) [OF assms c(1)] .
    then show ?thesis using Suc.IH [OF c(2)] by (meson pop_walk same_walk_trans)
  qed
qed simp

lemma on_tree_walk: "on_tree f m = Inr m' \<Longrightarrow> same_walk m m'"
  by (auto simp: on_tree_def split: option.splits)

section \<open>The order of the states\<close>

text \<open>The states that the function of a state returns.\<close>

fun successors :: "boot_state_t \<Rightarrow> boot_state_t list" where
  "successors BS_PRE_DEVICE = [BS_DEV_INIT_CHIPS]"
| "successors BS_DEV_INIT_CHIPS = [BS_DEV_ENUMERATE]"
| "successors BS_DEV_ENUMERATE = [BS_DEV_RESOURCES]"
| "successors BS_DEV_RESOURCES = [BS_DEV_ENABLE]"
| "successors BS_DEV_ENABLE = [BS_DEV_INIT]"
| "successors BS_DEV_INIT = [BS_POST_DEVICE]"
| "successors BS_POST_DEVICE = [BS_OS_RESUME_CHECK]"
| "successors BS_OS_RESUME_CHECK = [BS_OS_RESUME, BS_WRITE_TABLES]"
| "successors BS_OS_RESUME = [BS_WRITE_TABLES]"
| "successors BS_WRITE_TABLES = [BS_PAYLOAD_LOAD]"
| "successors BS_PAYLOAD_LOAD = [BS_PAYLOAD_BOOT]"
| "successors BS_PAYLOAD_BOOT = [BS_PAYLOAD_BOOT]"

text \<open>
  The flow that the comment in \<^verbatim>\<open>src/include/bootstate.h\<close> draws, and the two returns of the code that are not
  in it: the comment lets \<^verbatim>\<open>BS_OS_RESUME\<close> end with the handoff to the system and \<^verbatim>\<open>BS_PAYLOAD_BOOT\<close> with the
  payload, the code goes on when \<^verbatim>\<open>acpi_resume\<close> comes back, and stays where it is when the payload does.
\<close>

definition documented_flow :: "(boot_state_t \<times> boot_state_t) set" where
  "documented_flow = {(BS_PRE_DEVICE, BS_DEV_INIT_CHIPS), (BS_DEV_INIT_CHIPS, BS_DEV_ENUMERATE), (BS_DEV_ENUMERATE, BS_DEV_RESOURCES),
     (BS_DEV_RESOURCES, BS_DEV_ENABLE), (BS_DEV_ENABLE, BS_DEV_INIT), (BS_DEV_INIT, BS_POST_DEVICE),
     (BS_POST_DEVICE, BS_OS_RESUME_CHECK), (BS_OS_RESUME_CHECK, BS_OS_RESUME), (BS_OS_RESUME_CHECK, BS_WRITE_TABLES),
     (BS_WRITE_TABLES, BS_PAYLOAD_LOAD), (BS_PAYLOAD_LOAD, BS_PAYLOAD_BOOT)}"

definition undocumented_flow :: "(boot_state_t \<times> boot_state_t) set" where
  "undocumented_flow = {(BS_OS_RESUME, BS_WRITE_TABLES), (BS_PAYLOAD_BOOT, BS_PAYLOAD_BOOT)}"

lemma successors_flow: "t \<in> set (successors s) \<longleftrightarrow> (s, t) \<in> documented_flow \<union> undocumented_flow"
  by (cases s) (auto simp: documented_flow_def undocumented_flow_def)

lemma successors_less: "t \<in> set (successors s) \<Longrightarrow> s = BS_PAYLOAD_BOOT \<and> t = BS_PAYLOAD_BOOT \<or> s < t"
  by (cases s) (auto simp: less_boot_state_t_def)

lemma run_state_step:
  assumes "client_ok env" "run_state env s arg m = Inr (t, m')"
  shows "t \<in> set (successors s)" "same_walk m m'"
proof -
  have "t \<in> set (successors s) \<and> same_walk m m'"
    using assms(2)
  proof (cases s)
    case BS_WRITE_TABLES
    then obtain m1 where "env_write_tables env m = Inr m1" "on_tree (dev_finalize_chips (env_hook env)) m1 = Inr m'" "t = BS_PAYLOAD_LOAD"
      using assms(2) by (auto simp: and_then_eq_Inr)
    then show ?thesis using BS_WRITE_TABLES client_walk(4) [OF assms(1)] on_tree_walk same_walk_trans by (metis list.set_intros(1) successors.simps(10))
  next
    case BS_PAYLOAD_LOAD
    then obtain p m1 where l: "env_payload_load env m = Inr (p, m1)" "t = BS_PAYLOAD_BOOT"
      "m' = upd_state BS_PAYLOAD_BOOT (\<lambda>st. st\<lparr>st_arg := p\<rparr>) m1"
      using assms(2) by (auto simp: and_then_eq_Inr split: if_splits)
    then have "same_walk m m1" using client_walk(5) [OF assms(1)] by blast
    then show ?thesis using l BS_PAYLOAD_LOAD same_walk_trans [OF _ same_walk_arg] by simp
  next
    case BS_OS_RESUME
    then show ?thesis using assms client_walk(3) [OF assms(1)] by (auto simp: and_then_eq_Inr split: if_splits)
  next
    case BS_PAYLOAD_BOOT
    then show ?thesis using assms client_walk(6) [OF assms(1)] by (auto simp: and_then_eq_Inr)
  qed (auto simp: and_then_eq_Inr on_tree_walk split: option.splits if_splits)
  then show "t \<in> set (successors s)" "same_walk m m'" by simp_all
qed

text \<open>What one turn does to the walk.\<close>

lemma bs_turn_walk:
  assumes env: "client_ok env" and run: "bs_turn n env m = Inr m'"
  defines "s \<equiv> cur_state_id m"
  shows "cur_state_id m' \<in> set (successors s)" "cur_seq m' = BS_ON_ENTRY"
    "post_codes m' = post_codes m @ [state_post_code s]"
    "st_complete (boot_states m' x) \<longleftrightarrow> st_complete (boot_states m x) \<or> x = s"
    "st_num_samples (boot_states m' x) = st_num_samples (boot_states m x) + (if x = s \<and> env_monotonic_timer env then 4 else 0)"
proof -
  obtain m1 where 1: "bs_run_timers 1 env False m = Inr m1"
    and r1: "and_then (bs_call_callbacks n env s (cur_seq (bs_sample_time env s m1)) (bs_sample_time env s m1)) (\<lambda>m.
      let m = m\<lparr>cur_seq := BS_ON_EXIT\<rparr>; m = bs_sample_time env s m; m = post_code (state_post_code s) m in
      and_then (run_state env s (st_arg (boot_states m s)) m) (\<lambda>(next_id, m).
      let m = bs_sample_time env s m in
      and_then (bs_call_callbacks n env s (cur_seq m) m) (\<lambda>m.
      let m = m\<lparr>cur_state_id := next_id, cur_seq := BS_ON_ENTRY\<rparr>; m = bs_sample_time env s m
      in Inr (upd_state s (\<lambda>st. st\<lparr>st_complete := True\<rparr>) m)))) = Inr m'"
    using run unfolding bs_turn_def Let_def s_def and_then_eq_Inr by blast
  let ?m2 = "bs_sample_time env s m1"
  obtain m3 where 2: "bs_call_callbacks n env s (cur_seq ?m2) ?m2 = Inr m3"
    and r2: "and_then (run_state env s (st_arg (boot_states (post_code (state_post_code s) (bs_sample_time env s (m3\<lparr>cur_seq := BS_ON_EXIT\<rparr>))) s))
        (post_code (state_post_code s) (bs_sample_time env s (m3\<lparr>cur_seq := BS_ON_EXIT\<rparr>)))) (\<lambda>(next_id, m).
      let m = bs_sample_time env s m in
      and_then (bs_call_callbacks n env s (cur_seq m) m) (\<lambda>m.
      let m = m\<lparr>cur_state_id := next_id, cur_seq := BS_ON_ENTRY\<rparr>; m = bs_sample_time env s m
      in Inr (upd_state s (\<lambda>st. st\<lparr>st_complete := True\<rparr>) m))) = Inr m'"
    using r1 unfolding Let_def and_then_eq_Inr by blast
  let ?m4 = "post_code (state_post_code s) (bs_sample_time env s (m3\<lparr>cur_seq := BS_ON_EXIT\<rparr>))"
  obtain t m5 where 3: "run_state env s (st_arg (boot_states ?m4 s)) ?m4 = Inr (t, m5)"
    and r3: "and_then (bs_call_callbacks n env s (cur_seq (bs_sample_time env s m5)) (bs_sample_time env s m5)) (\<lambda>m.
      let m = m\<lparr>cur_state_id := t, cur_seq := BS_ON_ENTRY\<rparr>; m = bs_sample_time env s m
      in Inr (upd_state s (\<lambda>st. st\<lparr>st_complete := True\<rparr>) m)) = Inr m'"
    using r2 by (auto simp: Let_def and_then_eq_Inr [where r = "run_state _ _ _ _"])
  let ?m6 = "bs_sample_time env s m5"
  obtain m7 where 4: "bs_call_callbacks n env s (cur_seq ?m6) ?m6 = Inr m7"
    and m': "m' = upd_state s (\<lambda>st. st\<lparr>st_complete := True\<rparr>) (bs_sample_time env s (m7\<lparr>cur_state_id := t, cur_seq := BS_ON_ENTRY\<rparr>))"
    using r3 unfolding Let_def and_then_eq_Inr by auto
  note w = timers_walk [OF env 1] callbacks_walk [OF env 2] run_state_step(2) [OF env 3] callbacks_walk [OF env 4]
  show "cur_state_id m' \<in> set (successors s)"
    using run_state_step(1) [OF env 3] by (simp add: m' upd_state_def bs_sample_time_def)
  show "cur_seq m' = BS_ON_ENTRY" by (simp add: m' upd_state_def bs_sample_time_def)
  show "post_codes m' = post_codes m @ [state_post_code s]"
    "st_complete (boot_states m' x) \<longleftrightarrow> st_complete (boot_states m x) \<or> x = s"
    "st_num_samples (boot_states m' x) = st_num_samples (boot_states m x) + (if x = s \<and> env_monotonic_timer env then 4 else 0)"
    using w by (auto simp: m' same_walk_def upd_state_def bs_sample_time_def post_code_def)
qed

text \<open>The machine before the walk, and the machines at the top of its loop.\<close>

definition boot_initial :: "boot_machine \<Rightarrow> bool" where
  "boot_initial m \<longleftrightarrow> cur_state_id m = BS_PRE_DEVICE \<and> cur_seq m = BS_ON_ENTRY
     \<and> (\<forall>s. \<not> st_complete (boot_states m s) \<and> st_num_samples (boot_states m s) = 0)"

inductive boot_reachable :: "boot_env \<Rightarrow> boot_machine \<Rightarrow> boot_machine \<Rightarrow> bool" for env m0 where
  start: "boot_reachable env m0 m0"
| turn: "boot_reachable env m0 m \<Longrightarrow> \<not> st_complete (boot_states m (cur_state_id m)) \<Longrightarrow> bs_turn n env m = Inr m' \<Longrightarrow> boot_reachable env m0 m'"

lemma walk_reachable:
  "bs_walk_state_machine k n env m = Inr m' \<Longrightarrow> boot_reachable env m0 m \<Longrightarrow>
    boot_reachable env m0 m' \<and> st_complete (boot_states m' (cur_state_id m'))"
proof (induction k arbitrary: m)
  case (Suc k)
  show ?case
  proof (cases "st_complete (boot_states m (cur_state_id m))")
    case False
    then obtain m1 where "bs_turn n env m = Inr m1" "bs_walk_state_machine k n env m1 = Inr m'"
      using Suc.prems(1) by (auto simp: and_then_eq_Inr)
    then show ?thesis using Suc.IH boot_reachable.turn [OF Suc.prems(2) False] by blast
  qed (use Suc.prems in simp)
qed simp

definition boot_chain :: "boot_state_t list \<Rightarrow> bool" where
  "boot_chain ss \<longleftrightarrow> hd ss = BS_PRE_DEVICE \<and> successively (\<lambda>a b. b \<in> set (successors a)) ss"

definition boot_inv :: "boot_env \<Rightarrow> boot_machine \<Rightarrow> boot_machine \<Rightarrow> boot_state_t list \<Rightarrow> bool" where
  "boot_inv env m0 m path \<longleftrightarrow> cur_seq m = BS_ON_ENTRY \<and> post_codes m = post_codes m0 @ map state_post_code path
     \<and> set path = {s. st_complete (boot_states m s)} \<and> sorted_wrt (<) path
     \<and> boot_chain (path @ [cur_state_id m])
     \<and> (st_complete (boot_states m (cur_state_id m)) \<longrightarrow> cur_state_id m = BS_PAYLOAD_BOOT)
     \<and> (\<not> st_complete (boot_states m (cur_state_id m)) \<longrightarrow> (\<forall>s \<in> set path. s < cur_state_id m))
     \<and> (\<forall>s. st_num_samples (boot_states m s) = (if st_complete (boot_states m s) \<and> env_monotonic_timer env then 4 else 0))"

lemma boot_inv_turn:
  assumes env: "client_ok env" and inv: "boot_inv env m0 m path" and top: "\<not> st_complete (boot_states m (cur_state_id m))"
    and run: "bs_turn n env m = Inr m'"
  shows "boot_inv env m0 m' (path @ [cur_state_id m])"
proof -
  note t = bs_turn_walk [OF env run]
  let ?s = "cur_state_id m"
  have less: "\<forall>x \<in> set path. x < ?s" using inv top by (simp add: boot_inv_def)
  have path: "set path = {s. st_complete (boot_states m s)}" using inv by (simp add: boot_inv_def)
  have next': "?s = BS_PAYLOAD_BOOT \<and> cur_state_id m' = BS_PAYLOAD_BOOT \<or> ?s < cur_state_id m'"
    using t(1) by (rule successors_less)
  have late: "st_complete (boot_states m' (cur_state_id m')) \<longleftrightarrow> ?s = BS_PAYLOAD_BOOT \<and> cur_state_id m' = BS_PAYLOAD_BOOT"
    using next' t(4) less path top by (metis (mono_tags, lifting) mem_Collect_eq order_less_asym order_less_irrefl)
  have chain: "boot_chain ((path @ [?s]) @ [cur_state_id m'])"
    using inv t(1) by (auto simp: boot_inv_def boot_chain_def successively_append_iff hd_append)
  have all: "\<forall>x \<in> set (path @ [?s]). x < cur_state_id m'" if "\<not> st_complete (boot_states m' (cur_state_id m'))"
    using next' late that less by auto
  show ?thesis
    using inv t(2-5) chain late all less path by (auto simp: boot_inv_def sorted_wrt_append)
qed

lemma boot_reachable_inv:
  assumes "client_ok env" "boot_initial m0"
  shows "boot_reachable env m0 m \<Longrightarrow> \<exists>path. boot_inv env m0 m path"
proof (induction rule: boot_reachable.induct)
  case start
  have "boot_inv env m0 m0 []" using assms(2) by (simp add: boot_inv_def boot_initial_def boot_chain_def)
  then show ?case ..
next
  case (turn m n m')
  then show ?case using boot_inv_turn [OF assms(1)] by blast
qed

text \<open>
  C10.  Whenever the walk is at the top of its loop, the states it has completed are, in the order
  of their post codes, a path from \<^verbatim>\<open>BS_PRE_DEVICE\<close> to the current state; its steps are those of the diagram in
  \<^verbatim>\<open>bootstate.h\<close>, and besides them only the two that the diagram does not have: from \<^verbatim>\<open>BS_OS_RESUME\<close> to
  \<^verbatim>\<open>BS_WRITE_TABLES\<close>, when the resume comes back, and \<^verbatim>\<open>BS_PAYLOAD_BOOT\<close> to itself, when the payload does.  No
  state is run twice; the current state is complete (the loop ends) only after \<^verbatim>\<open>BS_PAYLOAD_BOOT\<close> has come back;
  and no state has taken more than the \<^verbatim>\<open>MAX_TIME_SAMPLES\<close> samples there is room for.  The clients (drivers,
  callbacks, tables, payload) may use the interface of the state machine and change the device tree, nothing else.
\<close>
theorem boot_states_in_order:
  assumes "client_ok env" "boot_initial m0" "boot_reachable env m0 m"
  shows "\<exists>path. post_codes m = post_codes m0 @ map state_post_code path
    \<and> set path = {s. st_complete (boot_states m s)} \<and> sorted_wrt (<) path
    \<and> hd (path @ [cur_state_id m]) = BS_PRE_DEVICE
    \<and> successively (\<lambda>a b. (a, b) \<in> documented_flow \<union> undocumented_flow) (path @ [cur_state_id m])
    \<and> (st_complete (boot_states m (cur_state_id m)) \<longrightarrow> cur_state_id m = BS_PAYLOAD_BOOT)
    \<and> (\<forall>s. st_num_samples (boot_states m s) \<le> 4)"
  using boot_reachable_inv [OF assms] unfolding boot_inv_def boot_chain_def successors_flow by (metis le_refl zero_le)

section \<open>The lists of callbacks\<close>

text \<open>\<open>linked store head ps\<close>: from \<open>head\<close> the \<^verbatim>\<open>next\<close> fields lead through \<open>ps\<close> to NULL.\<close>

fun linked :: "(bscb_ptr \<Rightarrow> boot_state_callback) \<Rightarrow> bscb_ptr option \<Rightarrow> bscb_ptr list \<Rightarrow> bool" where
  "linked store head [] \<longleftrightarrow> head = None"
| "linked store head (p # ps) \<longleftrightarrow> head = Some p \<and> linked store (cb_next (store p)) ps"

type_synonym queues = "boot_state_t \<times> boot_state_sequence_t \<Rightarrow> bscb_ptr list"

text \<open>Every phase has the list \<open>L\<close> gives it, and no structure is on two lists or twice on one.\<close>

definition queued :: "boot_machine \<Rightarrow> queues \<Rightarrow> bool" where
  "queued m L \<longleftrightarrow> (\<forall>s q. linked (bscbs m) (ph_callbacks (phase_of m s q)) (L (s, q)) \<and> distinct (L (s, q)))
     \<and> (\<forall>x y. x \<noteq> y \<longrightarrow> set (L x) \<inter> set (L y) = {})"

lemma queuedD:
  assumes "queued m L"
  shows "linked (bscbs m) (ph_callbacks (phase_of m s q)) (L (s, q))" "distinct (L (s, q))" "x \<noteq> y \<Longrightarrow> set (L x) \<inter> set (L y) = {}"
  using assms unfolding queued_def by blast+

lemma queuedI:
  assumes "\<And>s q. linked (bscbs m) (ph_callbacks (phase_of m s q)) (L (s, q))" "\<And>s q. distinct (L (s, q))"
    and "\<And>x y. x \<noteq> y \<Longrightarrow> set (L x) \<inter> set (L y) = {}"
  shows "queued m L"
  using assms unfolding queued_def by blast

definition unblocked :: "boot_machine \<Rightarrow> bool" where
  "unblocked m \<longleftrightarrow> (\<forall>s q. ph_blockers (phase_of m s q) = 0)"

lemma linked_other:
  "p \<notin> set ps \<Longrightarrow> linked (store(p := c)) head ps = linked store head ps"
  by (induction ps arbitrary: head) auto

lemma queued_cong:
  assumes "\<And>s q. phase_of m' s q = phase_of m s q" "bscbs m' = bscbs m"
  shows "queued m' L = queued m L" "unblocked m' = unblocked m"
  using assms by (simp_all add: queued_def unblocked_def)

lemma queued_tree [simp]: "queued (m\<lparr>boot_tree := t\<rparr>) L = queued m L" "unblocked (m\<lparr>boot_tree := t\<rparr>) = unblocked m"
  by (rule queued_cong; simp)+

lemma upd_phase_simps [simp]:
  "phase_of (upd_phase s q f m) s' q' = (if s' = s \<and> q' = q then f (phase_of m s q) else phase_of m s' q')"
  "bscbs (upd_phase s q f m) = bscbs m" "boot_tree (upd_phase s q f m) = boot_tree m"
  by (simp_all add: upd_phase_def upd_state_def)

lemma pop_queued:
  assumes "queued m L" "L (s, q) = p # ps"
  shows "ph_callbacks (phase_of m s q) = Some p" "queued (pop_callback s q p m) (L((s, q) := ps))"
    "unblocked m \<Longrightarrow> unblocked (pop_callback s q p m)" "boot_tree (pop_callback s q p m) = boot_tree m"
    "cb_callback (bscbs (pop_callback s q p m) x) = cb_callback (bscbs m x)" "cb_arg (bscbs (pop_callback s q p m) x) = cb_arg (bscbs m x)"
proof -
  have l: "linked (bscbs m) (ph_callbacks (phase_of m s q)) (p # ps)" "distinct (p # ps)"
    using queuedD(1,2) [OF assms(1), of s q] unfolding assms(2) by blast+
  then show "ph_callbacks (phase_of m s q) = Some p" by simp
  have other: "p \<notin> set (L x)" if "x \<noteq> (s, q)" for x
    using queuedD(3) [OF assms(1) that] assms(2) by auto
  show "queued (pop_callback s q p m) (L((s, q) := ps))"
  proof (rule queuedI)
    fix s' q'
    show "linked (bscbs (pop_callback s q p m)) (ph_callbacks (phase_of (pop_callback s q p m) s' q')) ((L((s, q) := ps)) (s', q'))"
    proof (cases "(s', q') = (s, q)")
      case True
      then show ?thesis using l by (simp add: pop_callback_def linked_other)
    next
      case False
      then show ?thesis using other [OF False] queuedD(1) [OF assms(1), of s' q'] by (auto simp: pop_callback_def linked_other)
    qed
    show "distinct ((L((s, q) := ps)) (s', q'))" using l queuedD(2) [OF assms(1), of s' q'] by simp
  next
    fix x y :: "boot_state_t \<times> boot_state_sequence_t" assume "x \<noteq> y"
    then have "set (L x) \<inter> set (L y) = {}" by (rule queuedD(3) [OF assms(1)])
    moreover have "set ((L((s, q) := ps)) z) \<subseteq> set (L z)" for z using assms(2) by auto
    ultimately show "set ((L((s, q) := ps)) x) \<inter> set ((L((s, q) := ps)) y) = {}" by blast
  qed
  show "unblocked m \<Longrightarrow> unblocked (pop_callback s q p m)" by (auto simp: unblocked_def pop_callback_def)
qed (simp_all add: pop_callback_def)

lemma sched_queued:
  assumes "queued m L" "\<forall>x. p \<notin> set (L x)" "\<not> st_complete (boot_states m s)"
  shows "queued (snd (boot_state_sched_callback s p q m)) (L((s, q) := p # L (s, q)))"
    "fst (boot_state_sched_callback s p q m)"
proof -
  let ?m = "snd (boot_state_sched_callback s p q m)" and ?L = "L((s, q) := p # L (s, q))"
  show "queued ?m ?L"
  proof (rule queuedI)
    fix s' q'
    show "linked (bscbs ?m) (ph_callbacks (phase_of ?m s' q')) (?L (s', q'))"
      using queuedD(1) [OF assms(1), of s' q'] assms(2,3) by (auto simp: boot_state_sched_callback_def linked_other)
    show "distinct (?L (s', q'))" using queuedD(2) [OF assms(1), of s' q'] assms(2) by auto
  next
    fix x y :: "boot_state_t \<times> boot_state_sequence_t" assume "x \<noteq> y"
    moreover have "p \<notin> set (L x)" "p \<notin> set (L y)" using assms(2) by blast+
    ultimately show "set (?L x) \<inter> set (?L y) = {}" using queuedD(3) [OF assms(1), of x y] by auto
  qed
qed (use assms(3) in \<open>simp add: boot_state_sched_callback_def Let_def\<close>)

lemma sched_keeps:
  "unblocked m \<Longrightarrow> unblocked (snd (boot_state_sched_callback s p q m))"
  "boot_tree (snd (boot_state_sched_callback s p q m)) = boot_tree m"
  "cb_callback (bscbs (snd (boot_state_sched_callback s p q m)) x) = cb_callback (bscbs m x)"
  "cb_arg (bscbs (snd (boot_state_sched_callback s p q m)) x) = cb_arg (bscbs m x)"
  "same_walk m (snd (boot_state_sched_callback s p q m))"
  by (auto simp: boot_state_sched_callback_def Let_def unblocked_def intro: api_call_walk [OF api_call.sched, unfolded boot_state_sched_callback_def Let_def])
    (auto simp: same_walk_def upd_phase_def upd_state_def)

text \<open>The lists after the static entries have been scheduled: the last entry of a phase comes first.\<close>

definition entries_of :: "(boot_state_t \<times> boot_state_sequence_t \<times> bscb_ptr) list \<Rightarrow> queues" where
  "entries_of entries x = map (\<lambda>(s, q, p). p) (filter (\<lambda>(s, q, p). (s, q) = x) entries)"

lemma static_entries_queued:
  assumes "queued m L" "unblocked m" "\<forall>s. \<not> st_complete (boot_states m s)"
    and "distinct (map (\<lambda>(s, q, p). p) entries)" "\<forall>x. set (L x) \<inter> set (map (\<lambda>(s, q, p). p) entries) = {}"
  defines "m' \<equiv> boot_state_schedule_static_entries entries m"
  shows "queued m' (\<lambda>x. rev (entries_of entries x) @ L x) \<and> unblocked m' \<and> boot_tree m' = boot_tree m \<and> same_walk m m'
    \<and> (\<forall>x. cb_callback (bscbs m' x) = cb_callback (bscbs m x) \<and> cb_arg (bscbs m' x) = cb_arg (bscbs m x))"
  using assms(1-5) unfolding m'_def boot_state_schedule_static_entries_def
proof (induction entries arbitrary: m L)
  case Nil
  then show ?case by (simp add: entries_of_def)
next
  case (Cons e entries)
  obtain s q p where e: "e = (s, q, p)" by (cases e)
  let ?m = "snd (boot_state_sched_callback s p q m)" and ?L = "L((s, q) := p # L (s, q))"
  have step: "snd (if q = BS_ON_ENTRY then boot_state_sched_on_entry p s m else boot_state_sched_on_exit p s m) = ?m"
    by (cases q) (simp_all add: boot_state_sched_on_entry_def boot_state_sched_on_exit_def)
  have p: "\<forall>x. p \<notin> set (L x)" using Cons.prems(5) by (auto simp: e)
  have q: "queued ?m ?L" using sched_queued(1) [OF Cons.prems(1) p] Cons.prems(3) by simp
  have c: "\<forall>s. \<not> st_complete (boot_states ?m s)" using Cons.prems(3) sched_keeps(5) [of m s p q] by (simp add: same_walk_def)
  have d: "distinct (map (\<lambda>(s, q, p). p) entries)" "\<forall>x. set (?L x) \<inter> set (map (\<lambda>(s, q, p). p) entries) = {}"
    using Cons.prems(4,5) by (auto simp: e)
  note IH = Cons.IH [OF q sched_keeps(1) [OF Cons.prems(2)] c d]
  have "(\<lambda>x. rev (entries_of entries x) @ ?L x) = (\<lambda>x. rev (entries_of (e # entries) x) @ L x)"
    by (auto simp: entries_of_def e)
  then show ?case
    using IH sched_keeps(2-4) [of s p q m] same_walk_trans [OF sched_keeps(5)] step by (auto simp: e)
qed

section \<open>Running the callbacks of a phase\<close>

text \<open>Callbacks that do not use the state machine: \<open>g\<close> is what they do to the tree.\<close>

definition acts_on_tree :: "boot_env \<Rightarrow> (nat \<Rightarrow> nat \<Rightarrow> devtree \<Rightarrow> devtree) \<Rightarrow> bool" where
  "acts_on_tree env g \<longleftrightarrow> (\<forall>f a m. env_callback env f a m = Inr (m\<lparr>boot_tree := g f a (boot_tree m)\<rparr>))"

definition call_all :: "(nat \<Rightarrow> nat \<Rightarrow> devtree \<Rightarrow> devtree) \<Rightarrow> (bscb_ptr \<Rightarrow> boot_state_callback) \<Rightarrow> bscb_ptr list \<Rightarrow> devtree \<Rightarrow> devtree" where
  "call_all g store = fold (\<lambda>p. g (cb_callback (store p)) (cb_arg (store p)))"

lemma callbacks_run:
  assumes "acts_on_tree env g"
  shows "queued m L \<Longrightarrow> unblocked m \<Longrightarrow> length (L (s, q)) < n \<Longrightarrow>
    \<exists>m'. bs_call_callbacks n env s q m = Inr m' \<and> queued m' (L((s, q) := [])) \<and> unblocked m' \<and> same_walk m m'
      \<and> boot_tree m' = call_all g (bscbs m) (L (s, q)) (boot_tree m)"
proof (induction n arbitrary: m L)
  case (Suc n)
  show ?case
  proof (cases "L (s, q)")
    case Nil
    then have "ph_callbacks (phase_of m s q) = None" using queuedD(1) [OF Suc.prems(1), of s q] by simp
    moreover have "L((s, q) := []) = L" using Nil by auto
    ultimately show ?thesis using Suc.prems Nil by (simp add: unblocked_def call_all_def)
  next
    case (Cons p ps)
    note pop = pop_queued [of m L s q p ps, OF Suc.prems(1) Cons]
    let ?m1 = "(pop_callback s q p m)\<lparr>boot_tree := g (cb_callback (bscbs m p)) (cb_arg (bscbs m p)) (boot_tree m)\<rparr>"
    have r: "bs_call_callbacks (Suc n) env s q m = bs_call_callbacks n env s q ?m1"
      using assms pop by (simp add: acts_on_tree_def Let_def)
    have "queued ?m1 (L((s, q) := ps))" "unblocked ?m1" "length ((L((s, q) := ps)) (s, q)) < n"
      using pop Suc.prems Cons by (simp_all del: fun_upd_apply) simp
    from Suc.IH [OF this] obtain m' where m': "bs_call_callbacks n env s q ?m1 = Inr m'" "queued m' (L((s, q) := []))" "unblocked m'"
      "same_walk ?m1 m'" "boot_tree m' = call_all g (bscbs ?m1) ps (boot_tree ?m1)"
      by (auto simp del: fun_upd_apply simp: fun_upd_same)
    have "same_walk m m'" using m'(4) same_walk_trans [OF pop_walk] same_walk_trans [OF same_walk_tree] by blast
    moreover have "call_all g (bscbs ?m1) = call_all g (bscbs m)" using pop(5,6) by (simp add: call_all_def)
    ultimately show ?thesis unfolding r using m' Cons by (intro exI [of _ m'] conjI) (simp_all add: call_all_def del: fun_upd_apply)
  qed
qed simp

text \<open>A machine before anything has been scheduled.\<close>

definition boot_fresh :: "boot_machine \<Rightarrow> bool" where
  "boot_fresh m \<longleftrightarrow> boot_initial m \<and> (\<forall>s q. phase_of m s q = \<lparr>ph_callbacks = None, ph_blockers = 0\<rparr>)"

lemma static_entries_fresh:
  assumes "boot_fresh m" "distinct (map (\<lambda>(s, q, p). p) entries)"
  defines "m' \<equiv> boot_state_schedule_static_entries entries m"
  shows "queued m' (\<lambda>x. rev (entries_of entries x))" "unblocked m'" "boot_tree m' = boot_tree m" "same_walk m m'"
    "cb_callback (bscbs m' p) = cb_callback (bscbs m p)" "cb_arg (bscbs m' p) = cb_arg (bscbs m p)"
proof -
  have "queued m (\<lambda>x. [])" "unblocked m" "\<forall>s. \<not> st_complete (boot_states m s)"
    using assms(1) by (simp_all add: boot_fresh_def boot_initial_def queued_def unblocked_def)
  from static_entries_queued [OF this assms(2)]
  show "queued m' (\<lambda>x. rev (entries_of entries x))" "unblocked m'" "boot_tree m' = boot_tree m" "same_walk m m'"
    "cb_callback (bscbs m' p) = cb_callback (bscbs m p)" "cb_arg (bscbs m' p) = cb_arg (bscbs m p)"
    by (simp_all add: m'_def)
qed

text \<open>
  C26.  The callbacks that the static entries give a phase are called exactly once each when the
  phase is run, the last entry first; the lists of the other phases stay as they are and the
  list of this phase is empty afterwards.
\<close>
theorem static_callbacks_last_first:
  assumes "boot_fresh m0" "distinct (map (\<lambda>(s, q, p). p) entries)" "acts_on_tree env g" "length (entries_of entries (s, q)) < n"
  shows "\<exists>m'. bs_call_callbacks n env s q (boot_state_schedule_static_entries entries m0) = Inr m'
    \<and> boot_tree m' = fold (\<lambda>p. g (cb_callback (bscbs m0 p)) (cb_arg (bscbs m0 p))) (rev (entries_of entries (s, q))) (boot_tree m0)
    \<and> queued m' ((\<lambda>x. rev (entries_of entries x))((s, q) := []))"
proof -
  let ?m = "boot_state_schedule_static_entries entries m0"
  note f = static_entries_fresh [OF assms(1,2)]
  from callbacks_run [OF assms(3) f(1,2), of s q n] assms(4) obtain m'
    where "bs_call_callbacks n env s q ?m = Inr m'" "queued m' ((\<lambda>x. rev (entries_of entries x))((s, q) := []))"
      "boot_tree m' = call_all g (bscbs ?m) (rev (entries_of entries (s, q))) (boot_tree m0)"
    by (auto simp: f(3))
  then show ?thesis by (simp add: call_all_def f(5,6))
qed

section \<open>The machine gets to the payload\<close>

definition device_functions :: "boot_env \<Rightarrow> (devtree \<Rightarrow> devtree option) list" where
  "device_functions env =
     [dev_initialize_chips (env_hook env), dev_enumerate (env_loops env) (env_hook env) (env_scan env) (env_root env),
      dev_configure (env_depth env) (env_loops env) (env_pref64 env) (env_onboard_vga env) (env_hook env) (env_root env),
      dev_enable (env_depth env) (env_hook env) (env_root env), dev_initialize (env_depth env) (env_hook env) (env_root env),
      dev_finalize (env_depth env) (env_hook env) (env_root env), dev_finalize_chips (env_hook env)]"

text \<open>
  An environment that does its part: the device functions return on the trees of \<open>I\<close>, the
  callbacks, timers and tables work on the tree only, there is a payload, and neither the
  payload nor a resumed operating system comes back.
\<close>

definition friendly :: "boot_env \<Rightarrow> (nat \<Rightarrow> nat \<Rightarrow> devtree \<Rightarrow> devtree) \<Rightarrow> (devtree \<Rightarrow> bool) \<Rightarrow> bool" where
  "friendly env g I \<longleftrightarrow> acts_on_tree env g \<and> (\<forall>f a t. I t \<longrightarrow> I (g f a t))
     \<and> (\<forall>f \<in> set (device_functions env). \<forall>t. I t \<longrightarrow> (\<exists>t'. f t = Some t' \<and> I t'))
     \<and> (\<forall>m. I (boot_tree m) \<longrightarrow> (\<exists>left t. env_timers_run env m = Inr (left, m\<lparr>boot_tree := t\<rparr>) \<and> I t))
     \<and> (\<forall>m. I (boot_tree m) \<longrightarrow> (\<exists>t. env_write_tables env m = Inr (m\<lparr>boot_tree := t\<rparr>) \<and> I t))
     \<and> (\<forall>m. I (boot_tree m) \<longrightarrow> (\<exists>p t. env_payload_load env m = Inr (Some p, m\<lparr>boot_tree := t\<rparr>) \<and> I t))
     \<and> (\<forall>p m. env_payload_run env p m = Inl Payload_runs) \<and> (\<forall>v m. env_acpi_resume env v m = Inl Os_resumes)"

definition ready :: "boot_machine \<Rightarrow> queues \<Rightarrow> (devtree \<Rightarrow> bool) \<Rightarrow> nat \<Rightarrow> bool" where
  "ready m L I n \<longleftrightarrow> queued m L \<and> unblocked m \<and> I (boot_tree m) \<and> (\<forall>x. length (L x) < n)"

definition can_resume :: "boot_env \<Rightarrow> bool" where
  "can_resume env \<longleftrightarrow> env_acpi env \<and> (\<exists>m. env_wakeup_vector env m \<noteq> None)"

lemma ready_tree: "ready m L I n \<Longrightarrow> I t \<Longrightarrow> ready (m\<lparr>boot_tree := t\<rparr>) L I n"
  by (simp add: ready_def)

lemma ready_cong:
  "(\<And>s q. phase_of m' s q = phase_of m s q) \<Longrightarrow> bscbs m' = bscbs m \<Longrightarrow> boot_tree m' = boot_tree m \<Longrightarrow> ready m' L I n = ready m L I n"
  using queued_cong(1) [of m' m L] queued_cong(2) [of m' m] by (simp add: ready_def)

lemma on_tree_ready:
  assumes "friendly env g I" "ready m L I n" "f \<in> set (device_functions env)"
  obtains t where "on_tree f m = Inr (m\<lparr>boot_tree := t\<rparr>)" "ready (m\<lparr>boot_tree := t\<rparr>) L I n"
proof -
  have "I (boot_tree m)" using assms(2) by (simp add: ready_def)
  then obtain t where t: "f (boot_tree m) = Some t" "I t" using assms(1,3) unfolding friendly_def by blast
  show thesis by (rule that [of t]) (use t ready_tree [OF assms(2)] in \<open>simp_all add: on_tree_def\<close>)
qed

lemma run_state_live:
  assumes f: "friendly env g I" and r: "ready m L I n"
  shows "(\<exists>t m'. run_state env s arg m = Inr (t, m') \<and> ready m' L I n \<and> same_walk m m' \<and> s < t \<and> (t = BS_OS_RESUME \<longrightarrow> can_resume env))
    \<or> (s = BS_PAYLOAD_BOOT \<and> run_state env s arg m = Inl Payload_runs)
    \<or> (s = BS_OS_RESUME \<and> run_state env s arg m = Inl Os_resumes)"
proof (cases s)
  case BS_PRE_DEVICE
  then show ?thesis using r by (simp add: less_boot_state_t_def)
next
  case BS_DEV_INIT_CHIPS
  show ?thesis
    by (rule on_tree_ready [OF f r, of "dev_initialize_chips (env_hook env)"])
      (use BS_DEV_INIT_CHIPS in \<open>auto simp: device_functions_def less_boot_state_t_def\<close>)
next
  case BS_DEV_ENUMERATE
  show ?thesis
    by (rule on_tree_ready [OF f r, of "dev_enumerate (env_loops env) (env_hook env) (env_scan env) (env_root env)"])
      (use BS_DEV_ENUMERATE in \<open>auto simp: device_functions_def less_boot_state_t_def\<close>)
next
  case BS_DEV_RESOURCES
  show ?thesis
    by (rule on_tree_ready [OF f r, of "dev_configure (env_depth env) (env_loops env) (env_pref64 env) (env_onboard_vga env) (env_hook env) (env_root env)"])
      (use BS_DEV_RESOURCES in \<open>auto simp: device_functions_def less_boot_state_t_def\<close>)
next
  case BS_DEV_ENABLE
  show ?thesis
    by (rule on_tree_ready [OF f r, of "dev_enable (env_depth env) (env_hook env) (env_root env)"])
      (use BS_DEV_ENABLE in \<open>auto simp: device_functions_def less_boot_state_t_def\<close>)
next
  case BS_DEV_INIT
  show ?thesis
    by (rule on_tree_ready [OF f r, of "dev_initialize (env_depth env) (env_hook env) (env_root env)"])
      (use BS_DEV_INIT in \<open>auto simp: device_functions_def less_boot_state_t_def\<close>)
next
  case BS_POST_DEVICE
  show ?thesis
    by (rule on_tree_ready [OF f r, of "dev_finalize (env_depth env) (env_hook env) (env_root env)"])
      (use BS_POST_DEVICE in \<open>auto simp: device_functions_def less_boot_state_t_def\<close>)
next
  case BS_OS_RESUME_CHECK
  have "ready (upd_state BS_OS_RESUME (\<lambda>st. st\<lparr>st_arg := v\<rparr>) m) L I n" for v
    using r by (subst ready_cong [of _ m]) (simp_all add: upd_state_def)
  then show ?thesis using r BS_OS_RESUME_CHECK
    by (auto simp: less_boot_state_t_def can_resume_def split: option.splits)
next
  case BS_OS_RESUME
  have "env_acpi_resume env arg m = Inl Os_resumes" using f by (simp add: friendly_def)
  then show ?thesis using r BS_OS_RESUME by (auto simp: less_boot_state_t_def)
next
  case BS_WRITE_TABLES
  have "I (boot_tree m)" using r by (simp add: ready_def)
  then obtain t where t: "env_write_tables env m = Inr (m\<lparr>boot_tree := t\<rparr>)" "I t" using f unfolding friendly_def by blast
  show ?thesis
    by (rule on_tree_ready [OF f ready_tree [OF r t(2)], of "dev_finalize_chips (env_hook env)"])
      (use BS_WRITE_TABLES t(1) same_walk_tree [of m] in \<open>auto simp: device_functions_def less_boot_state_t_def\<close>)
next
  case BS_PAYLOAD_LOAD
  have "I (boot_tree m)" using r by (simp add: ready_def)
  then obtain p t where t: "env_payload_load env m = Inr (Some p, m\<lparr>boot_tree := t\<rparr>)" "I t" using f unfolding friendly_def by blast
  let ?m = "upd_state BS_PAYLOAD_BOOT (\<lambda>st. st\<lparr>st_arg := Some p\<rparr>) (m\<lparr>boot_tree := t\<rparr>)"
  have "ready ?m L I n"
    using ready_tree [OF r t(2)] by (subst ready_cong [of _ "m\<lparr>boot_tree := t\<rparr>"]) (simp_all add: upd_state_def)
  moreover have "same_walk m ?m" by (rule same_walk_trans [OF same_walk_tree same_walk_arg])
  ultimately show ?thesis using BS_PAYLOAD_LOAD t(1) by (simp add: less_boot_state_t_def)
next
  case BS_PAYLOAD_BOOT
  then show ?thesis using f by (simp add: friendly_def)
qed

lemma timers_live:
  assumes "friendly env g I" "ready m L I n"
  obtains t where "bs_run_timers 1 env False m = Inr (m\<lparr>boot_tree := t\<rparr>)" "I t"
proof (cases "env_timer_queue env")
  case True
  have "I (boot_tree m)" using assms(2) by (simp add: ready_def)
  then obtain left t where "env_timers_run env m = Inr (left, m\<lparr>boot_tree := t\<rparr>)" "I t" using assms(1) unfolding friendly_def by blast
  then show thesis using that [of t] True by simp
next
  case False
  then show thesis using that [of "boot_tree m"] assms(2) by (simp add: ready_def)
qed

lemma callbacks_live:
  assumes f: "friendly env g I" and r: "ready m L I n"
  obtains m' where "bs_call_callbacks n env s q m = Inr m'" "ready m' (L((s, q) := [])) I n" "same_walk m m'"
proof -
  have a: "acts_on_tree env g" and keep: "\<And>f a t. I t \<Longrightarrow> I (g f a t)" using f by (simp_all add: friendly_def)
  have r': "queued m L" "unblocked m" "length (L (s, q)) < n" "I (boot_tree m)" "\<forall>x. length (L x) < n"
    using r by (simp_all add: ready_def)
  from callbacks_run [OF a r'(1-3)] obtain m' where m': "bs_call_callbacks n env s q m = Inr m'" "queued m' (L((s, q) := []))" "unblocked m'"
    "same_walk m m'" "boot_tree m' = call_all g (bscbs m) (L (s, q)) (boot_tree m)" by blast
  have "I (call_all g store ps t)" if "I t" for store ps t
    using that keep by (induction ps arbitrary: t) (simp_all add: call_all_def)
  then have "I (boot_tree m')" using r'(4) m'(5) by simp
  moreover have "length ((L((s, q) := [])) x) < n" for x using r'(3) spec [OF r'(5), of x] by simp
  ultimately show thesis using that [of m'] m' by (simp add: ready_def del: fun_upd_apply)
qed

definition at_top :: "boot_env \<Rightarrow> boot_machine \<Rightarrow> bool" where
  "at_top env m \<longleftrightarrow> (\<forall>s. st_complete (boot_states m s) \<longrightarrow> s < cur_state_id m) \<and> (cur_state_id m = BS_OS_RESUME \<longrightarrow> can_resume env)"

lemma bs_turn_live:
  assumes f: "friendly env g I" and r: "ready m L I n" and top: "at_top env m"
  shows "(\<exists>m' L'. bs_turn n env m = Inr m' \<and> ready m' L' I n \<and> at_top env m' \<and> cur_state_id m < cur_state_id m')
    \<or> bs_turn n env m = Inl Payload_runs \<or> (can_resume env \<and> bs_turn n env m = Inl Os_resumes)"
proof -
  let ?s = "cur_state_id m"
  obtain t1 where 1: "bs_run_timers 1 env False m = Inr (m\<lparr>boot_tree := t1\<rparr>)" "I t1" using timers_live [OF f r] .
  let ?m2 = "bs_sample_time env ?s (m\<lparr>boot_tree := t1\<rparr>)"
  have r2: "ready ?m2 L I n"
    using ready_tree [OF r 1(2)] by (subst ready_cong [of _ "m\<lparr>boot_tree := t1\<rparr>"]) (auto simp: bs_sample_time_def upd_state_def)
  obtain m3 where 3: "bs_call_callbacks n env ?s (cur_seq ?m2) ?m2 = Inr m3" "ready m3 (L((?s, cur_seq ?m2) := [])) I n" "same_walk ?m2 m3"
    using callbacks_live [OF f r2] .
  let ?L3 = "L((?s, cur_seq ?m2) := [])"
  let ?m4 = "post_code (state_post_code ?s) (bs_sample_time env ?s (m3\<lparr>cur_seq := BS_ON_EXIT\<rparr>))"
  have r4: "ready ?m4 ?L3 I n"
    using 3(2) by (subst ready_cong [of _ m3]) (auto simp: bs_sample_time_def upd_state_def post_code_def)
  have turn: "bs_turn n env m = and_then (run_state env ?s (st_arg (boot_states ?m4 ?s)) ?m4) (\<lambda>(next_id, m).
      let m = bs_sample_time env ?s m in
      and_then (bs_call_callbacks n env ?s (cur_seq m) m) (\<lambda>m.
      let m = m\<lparr>cur_state_id := next_id, cur_seq := BS_ON_ENTRY\<rparr>; m = bs_sample_time env ?s m
      in Inr (upd_state ?s (\<lambda>st. st\<lparr>st_complete := True\<rparr>) m)))"
    using 1(1) 3(1) by (simp only: bs_turn_def Let_def and_then_simps)
  consider (step) t m5 where "run_state env ?s (st_arg (boot_states ?m4 ?s)) ?m4 = Inr (t, m5)" "ready m5 ?L3 I n" "same_walk ?m4 m5" "?s < t"
      "t = BS_OS_RESUME \<longrightarrow> can_resume env"
    | (payload) "run_state env ?s (st_arg (boot_states ?m4 ?s)) ?m4 = Inl Payload_runs"
    | (resume) "?s = BS_OS_RESUME" "run_state env ?s (st_arg (boot_states ?m4 ?s)) ?m4 = Inl Os_resumes"
    using run_state_live [OF f r4, of ?s "st_arg (boot_states ?m4 ?s)"] by blast
  then show ?thesis
  proof cases
    case (step t m5)
    let ?m6 = "bs_sample_time env ?s m5"
    have r6: "ready ?m6 ?L3 I n"
      using step(2) by (subst ready_cong [of _ m5]) (auto simp: bs_sample_time_def upd_state_def)
    obtain m7 where 7: "bs_call_callbacks n env ?s (cur_seq ?m6) ?m6 = Inr m7" "ready m7 (?L3((?s, cur_seq ?m6) := [])) I n" "same_walk ?m6 m7"
      using callbacks_live [OF f r6] .
    let ?m' = "upd_state ?s (\<lambda>st. st\<lparr>st_complete := True\<rparr>) (bs_sample_time env ?s (m7\<lparr>cur_state_id := t, cur_seq := BS_ON_ENTRY\<rparr>))"
    have "bs_turn n env m = Inr ?m'" using step(1) 7(1) by (simp add: turn Let_def)
    moreover have "ready ?m' (?L3((?s, cur_seq ?m6) := [])) I n"
      using 7(2) by (subst ready_cong [of _ m7]) (auto simp: bs_sample_time_def upd_state_def)
    moreover have c: "st_complete (boot_states ?m' x) \<longleftrightarrow> st_complete (boot_states m x) \<or> x = ?s" for x
      using 3(3) 7(3) step(3) by (auto simp: same_walk_def upd_state_def bs_sample_time_def post_code_def)
    moreover have "cur_state_id ?m' = t" by (simp add: upd_state_def bs_sample_time_def)
    ultimately show ?thesis using step(4,5) top by (auto simp: at_top_def intro: order_less_trans)
  next
    case payload
    then show ?thesis by (simp add: turn)
  next
    case resume
    then show ?thesis using top by (simp add: turn at_top_def)
  qed
qed

lemma state_code_le: "state_code s \<le> 11"
  by (cases s) simp_all

lemma walk_live:
  assumes f: "friendly env g I"
  shows "ready m L I n \<Longrightarrow> at_top env m \<Longrightarrow> 12 - state_code (cur_state_id m) < k \<Longrightarrow>
    bs_walk_state_machine k n env m = Inl Payload_runs \<or> (can_resume env \<and> bs_walk_state_machine k n env m = Inl Os_resumes)"
proof (induction k arbitrary: m L)
  case (Suc k)
  have top: "\<not> st_complete (boot_states m (cur_state_id m))" using Suc.prems(2) by (auto simp: at_top_def)
  from bs_turn_live [OF f Suc.prems(1,2)] consider
      (step) m' L' where "bs_turn n env m = Inr m'" "ready m' L' I n" "at_top env m'" "cur_state_id m < cur_state_id m'"
    | (stop) "bs_turn n env m = Inl Payload_runs \<or> (can_resume env \<and> bs_turn n env m = Inl Os_resumes)" by blast
  then show ?case
  proof cases
    case step
    have "12 - state_code (cur_state_id m') < k"
      using step(4) Suc.prems(3) state_code_le [of "cur_state_id m'"] by (auto simp: less_boot_state_t_def)
    from Suc.IH [OF step(2,3) this] show ?thesis using top step(1) by simp
  next
    case stop
    then show ?thesis using top by auto
  qed
qed simp

text \<open>
  C12.  The boot gets to its end: when the other parts do what they should, \<^verbatim>\<open>main\<close> always hands
  control to the payload or, if there is a vector to resume to, to the operating system.  It
  never dies and never comes back to a completed state, whatever callbacks the static entries
  schedule, and thirteen turns of the walk are enough.
\<close>
theorem boot_hands_over:
  assumes "friendly env g I" "boot_fresh m0" "I (boot_tree m0)" "distinct (map (\<lambda>(s, q, p). p) entries)" "length entries < n"
  shows "ramstage_main 13 n env entries m0 = Payload_runs
    \<or> (env_acpi env \<and> (\<exists>m. env_wakeup_vector env m \<noteq> None) \<and> ramstage_main 13 n env entries m0 = Os_resumes)"
proof -
  let ?start = "post_code POST_CONSOLE_BOOT_MSG (post_code POST_CONSOLE_READY (post_code POST_ENTRY_RAMSTAGE m0))"
  let ?sched = "boot_state_schedule_static_entries entries ?start"
  have fresh: "boot_fresh ?start" using assms(2) by (simp add: boot_fresh_def boot_initial_def post_code_def)
  note s = static_entries_fresh [OF fresh assms(4)]
  have "length (rev (entries_of entries x)) < n" for x
    using assms(5) le_less_trans [OF length_filter_le] by (simp add: entries_of_def)
  then have r: "ready ?sched (\<lambda>x. rev (entries_of entries x)) I n"
    using s(1-3) assms(3) by (simp add: ready_def post_code_def)
  have w: "cur_state_id ?sched = BS_PRE_DEVICE" "\<And>x. \<not> st_complete (boot_states ?sched x)"
    using s(4) fresh by (simp_all add: same_walk_def boot_fresh_def boot_initial_def)
  have "at_top env ?sched" using w by (simp add: at_top_def)
  from walk_live [OF assms(1) r this, of 13] w(1) show ?thesis
    by (auto simp: ramstage_main_def Let_def can_resume_def)
qed

section \<open>An example machine\<close>

text \<open>A root device with an empty bus; a callback records its argument in \<^verbatim>\<open>vga_pri\<close>.\<close>

definition example_boot_tree :: devtree where
  "example_boot_tree = \<lparr>devs = (\<lambda>d. example_device\<lparr>d_link_list := [1]\<rparr>),
     buses = (\<lambda>b. \<lparr>b_dev = 0, b_children = [], b_bridge_ctrl = 0, b_link_num = 0, b_secondary = 0, b_subordinate = 0, b_reset_needed = False\<rparr>),
     chips = (\<lambda>_. \<lparr>chip_enable_dev = None, chip_init = None, chip_final = None, chip_initialized = False, chip_finalized = False\<rparr>),
     all_devices = [0], vga_pri = None\<rparr>"

definition example_callback :: "nat \<Rightarrow> nat \<Rightarrow> devtree \<Rightarrow> devtree" where
  "example_callback f a t = t\<lparr>vga_pri := Some a\<rparr>"

definition example_boot_env :: boot_env where
  "example_boot_env = \<lparr>env_callback = (\<lambda>f a m. Inr (m\<lparr>boot_tree := example_callback f a (boot_tree m)\<rparr>)),
     env_timers_run = (\<lambda>m. Inr (False, m)), env_wakeup_vector = (\<lambda>m. None), env_acpi_resume = (\<lambda>v m. Inl Os_resumes),
     env_write_tables = Inr, env_payload_load = (\<lambda>m. Inr (Some 0x100000, m)), env_payload_run = (\<lambda>p m. Inl Payload_runs),
     env_hook = (\<lambda>k d. Some), env_scan = (\<lambda>f d mx t. Some (mx, t)), env_root = 0, env_depth = 1, env_loops = 1,
     env_timer_queue = False, env_monotonic_timer = True, env_acpi = True, env_pref64 = False, env_onboard_vga = True\<rparr>"

definition example_boot_machine :: boot_machine where
  "example_boot_machine = \<lparr>boot_states = (\<lambda>s. \<lparr>st_phases = (\<lambda>q. \<lparr>ph_callbacks = None, ph_blockers = 0\<rparr>), st_arg = None, st_complete = False, st_num_samples = 0\<rparr>),
     cur_state_id = BS_PRE_DEVICE, cur_seq = BS_ON_ENTRY, bscbs = (\<lambda>p. \<lparr>cb_arg = p + 100, cb_callback = 1, cb_next = None\<rparr>),
     boot_tree = example_boot_tree, post_codes = []\<rparr>"

definition example_trees :: "devtree \<Rightarrow> bool" where
  "example_trees t \<longleftrightarrow> t = example_boot_tree\<lparr>vga_pri := vga_pri t\<rparr>"

lemma example_fresh: "boot_fresh example_boot_machine"
  by (simp add: boot_fresh_def boot_initial_def example_boot_machine_def)

lemma example_acts: "acts_on_tree example_boot_env example_callback"
  by (simp add: acts_on_tree_def example_boot_env_def)

lemma example_device_functions:
  assumes "f \<in> set (device_functions example_boot_env)"
  shows "f (example_boot_tree\<lparr>vga_pri := v\<rparr>) = Some (example_boot_tree\<lparr>vga_pri := v\<rparr>)"
proof -
  have t: "d_link_list (devs example_boot_tree d) = [1]" "b_children (buses example_boot_tree b) = []"
    "d_chip_ops (devs example_boot_tree d) = None" "d_ops (devs example_boot_tree d) = None"
    "all_devices example_boot_tree = [0]" "d_class (devs example_boot_tree d) = 0" for d b
    by (simp_all add: example_boot_tree_def example_device_def)
  have env: "env_depth example_boot_env = Suc 0" "env_hook example_boot_env = (\<lambda>k d. Some)" by (simp_all add: example_boot_env_def)
  have c: "push_bit 8 PCI_CLASS_DISPLAY_VGA = 0x30000" by (simp add: push_bit_eq_mult)
  have vga: "set_vga_bridge_bits n o' hook (example_boot_tree\<lparr>vga_pri := v\<rparr>) = Some (example_boot_tree\<lparr>vga_pri := v\<rparr>)" for n o' hook
    unfolding set_vga_bridge_bits_def c by (simp add: t)
  show ?thesis
    using assms unfolding device_functions_def
    by (auto simp: env t vga dev_initialize_chips_def dev_enumerate_def dev_configure_def dev_enable_def dev_initialize_def
        dev_finalize_def dev_finalize_chips_def domains_def init_dev_def final_dev_def assign_resources_def dev_op_def chip_op_def Let_def)
qed

lemma example_friendly: "friendly example_boot_env example_callback example_trees"
proof -
  have "\<exists>t'. f t = Some t' \<and> example_trees t'" if "f \<in> set (device_functions example_boot_env)" "example_trees t" for f t
    using example_device_functions [OF that(1), of "vga_pri t"] that(2) unfolding example_trees_def by metis
  moreover have "example_trees (example_callback f a t)" if "example_trees t" for f a t
    using that unfolding example_trees_def example_callback_def by (metis devtree.update_convs(5) devtree.select_convs(5) devtree.surjective)
  moreover have "\<exists>left t. env_timers_run example_boot_env m = Inr (left, m\<lparr>boot_tree := t\<rparr>) \<and> example_trees t"
    "\<exists>t. env_write_tables example_boot_env m = Inr (m\<lparr>boot_tree := t\<rparr>) \<and> example_trees t"
    "\<exists>p t. env_payload_load example_boot_env m = Inr (Some p, m\<lparr>boot_tree := t\<rparr>) \<and> example_trees t" if "example_trees (boot_tree m)" for m
    using that by (auto simp: example_boot_env_def intro!: exI [of _ "boot_tree m"])
  moreover have "env_payload_run example_boot_env p m = Inl Payload_runs" "env_acpi_resume example_boot_env v m = Inl Os_resumes" for p v m
    by (simp_all add: example_boot_env_def)
  ultimately show ?thesis using example_acts unfolding friendly_def by blast
qed

theorem static_callbacks_last_first_witness:
  "\<exists>m'. bs_call_callbacks 3 example_boot_env BS_DEV_INIT BS_ON_EXIT
      (boot_state_schedule_static_entries [(BS_DEV_INIT, BS_ON_EXIT, 4), (BS_PRE_DEVICE, BS_ON_ENTRY, 5), (BS_DEV_INIT, BS_ON_EXIT, 6)] example_boot_machine) = Inr m'
    \<and> vga_pri (boot_tree m') = Some 104"
proof -
  let ?es = "[(BS_DEV_INIT, BS_ON_EXIT, 4), (BS_PRE_DEVICE, BS_ON_ENTRY, 5), (BS_DEV_INIT, BS_ON_EXIT, 6)] :: (boot_state_t \<times> boot_state_sequence_t \<times> bscb_ptr) list"
  have d: "distinct (map (\<lambda>(s, q, p). p) ?es)" and l: "entries_of ?es (BS_DEV_INIT, BS_ON_EXIT) = [4, 6]" by (simp_all add: entries_of_def)
  have "length (entries_of ?es (BS_DEV_INIT, BS_ON_EXIT)) < 3" by (simp add: l)
  from static_callbacks_last_first [OF example_fresh d example_acts this] show ?thesis
    by (auto simp: l example_callback_def example_boot_machine_def)
qed

theorem boot_hands_over_witness:
  "ramstage_main 13 2 example_boot_env [(BS_DEV_INIT, BS_ON_EXIT, 4)] example_boot_machine = Payload_runs"
proof -
  have "example_trees (boot_tree example_boot_machine)" by (simp add: example_trees_def example_boot_machine_def example_boot_tree_def)
  moreover have "env_wakeup_vector example_boot_env m = None" for m by (simp add: example_boot_env_def)
  ultimately show ?thesis
    using boot_hands_over [OF example_friendly example_fresh, of "[(BS_DEV_INIT, BS_ON_EXIT, 4)]" 2] by simp
qed

lemma example_turn: "\<exists>m. bs_turn 1 example_boot_env example_boot_machine = Inr m"
  by (simp add: bs_turn_def Let_def example_boot_env_def example_boot_machine_def bs_sample_time_def upd_state_def post_code_def)

theorem boot_states_in_order_witness:
  "\<exists>m path. bs_turn 1 example_boot_env example_boot_machine = Inr m \<and> post_codes m = map state_post_code path
     \<and> successively (\<lambda>a b. (a, b) \<in> documented_flow \<union> undocumented_flow) (path @ [cur_state_id m])
     \<and> set path = {s. st_complete (boot_states m s)}"
proof -
  obtain m where m: "bs_turn 1 example_boot_env example_boot_machine = Inr m" using example_turn by blast
  have "api_call\<^sup>*\<^sup>* m (m\<lparr>boot_tree := t\<rparr>)" for m t by (intro r_into_rtranclp api_call.devices)
  then have ok: "client_ok example_boot_env" by (auto simp: client_ok_def example_boot_env_def)
  have "\<not> st_complete (boot_states example_boot_machine (cur_state_id example_boot_machine))" by (simp add: example_boot_machine_def)
  then have r: "boot_reachable example_boot_env example_boot_machine m" using m by (rule boot_reachable.turn [OF boot_reachable.start])
  have i: "boot_initial example_boot_machine" using example_fresh by (simp add: boot_fresh_def)
  have p: "post_codes example_boot_machine = []" by (simp add: example_boot_machine_def)
  from boot_states_in_order [OF ok i r] show ?thesis using m unfolding p append_Nil by blast
qed

section \<open>Corner cases\<close>

text \<open>
  While the function of a state runs, its entry phase is over: blocking that phase is refused,
  yet scheduling a callback for it is reported as a success.
\<close>

lemma late_entry_accepted:
  assumes "cur_seq m = BS_ON_EXIT" "\<not> st_complete (boot_states m (cur_state_id m))"
  shows "fst (boot_state_sched_on_entry p (cur_state_id m) m)" "\<not> fst (boot_state_block (cur_state_id m) BS_ON_ENTRY m)"
  using assms by (simp_all add: boot_state_sched_on_entry_def boot_state_sched_callback_def boot_state_block_def already_ran_def
      less_boot_state_sequence_t_def Let_def)

text \<open>Without the timer queue nothing can release a blocked phase: the loop does not end.\<close>

lemma blocked_without_timers:
  assumes "\<not> env_timer_queue env" "ph_callbacks (phase_of m s q) = None" "ph_blockers (phase_of m s q) \<noteq> 0"
  shows "bs_call_callbacks n env s q m = Inl No_fuel"
  using assms by (induction n) simp_all

end
