(* ===== verification/Cbmem.thy ===== *)
theory Cbmem
  imports Memrange
begin

text \<open>
  The table of firmware memory, \<^verbatim>\<open>src/lib/cbmem.c\<close>: an area at the top of memory whose first 512
  bytes hold a table of contents with 16 entries; entry 0 describes what is still free.  The
  memory the table may lie in is a map from 32-bit addresses to tables (\<open>toc_at\<close>), and pointers are
  32-bit words with 0 for NULL, as on the board.  The top of memory and the size of the area
  (\<^verbatim>\<open>get_top_of_ram\<close>, \<^verbatim>\<open>HIGH_MEMORY_SIZE\<close>) come from the chipset and the configuration.
\<close>

section \<open>The table\<close>

record cbmem_entry =
  cm_magic :: u32
  cm_id :: u32
  cm_base :: u64
  cm_size :: u64

record cbmem =
  cbmem_base :: u64
  cbmem_size :: u64
  toc_at :: "u32 \<Rightarrow> cbmem_entry list"

abbreviation CBMEM_TOC_RESERVED :: u64 where "CBMEM_TOC_RESERVED \<equiv> 512"
abbreviation MAX_CBMEM_ENTRIES :: nat where "MAX_CBMEM_ENTRIES \<equiv> 16"
abbreviation CBMEM_MAGIC :: u32 where "CBMEM_MAGIC \<equiv> 0x434f5245"
abbreviation CBMEM_ID_FREESPACE :: u32 where "CBMEM_ID_FREESPACE \<equiv> 0x46524545"
abbreviation CBMEM_ID_NONE :: u32 where "CBMEM_ID_NONE \<equiv> 0"

definition get_cbmem_table :: "u64 \<Rightarrow> u64 \<Rightarrow> u64 \<times> u64" where
  "get_cbmem_table top_of_ram HIGH_MEMORY_SIZE =
     (if HIGH_MEMORY_SIZE \<le> top_of_ram then (top_of_ram - HIGH_MEMORY_SIZE, HIGH_MEMORY_SIZE) else (0, 0))"

text \<open>\<open>tbl\<close> is what \<^verbatim>\<open>get_cbmem_table\<close> finds.\<close>

definition cbmem_locate_table :: "u64 \<times> u64 \<Rightarrow> cbmem \<Rightarrow> cbmem" where
  "cbmem_locate_table tbl s =
     (if cbmem_base s \<noteq> 0 \<and> cbmem_size s \<noteq> 0 then s
      else s\<lparr>cbmem_base := fst tbl, cbmem_size := snd tbl\<rparr>)"

definition get_cbmem_toc :: "u64 \<times> u64 \<Rightarrow> cbmem \<Rightarrow> u32 \<times> cbmem" where
  "get_cbmem_toc tbl s = (let s = cbmem_locate_table tbl s in (ucast (cbmem_base s), s))"

definition cbmem_late_set_table :: "u64 \<Rightarrow> u64 \<Rightarrow> cbmem \<Rightarrow> cbmem" where
  "cbmem_late_set_table base sz s = s\<lparr>cbmem_base := base, cbmem_size := sz\<rparr>"

definition no_entry :: cbmem_entry where
  "no_entry = \<lparr>cm_magic = 0, cm_id = 0, cm_base = 0, cm_size = 0\<rparr>"

definition cbmem_initialize_empty :: "u64 \<times> u64 \<Rightarrow> cbmem \<Rightarrow> cbmem" where
  "cbmem_initialize_empty tbl s =
     (let s = cbmem_locate_table tbl s in
      if cbmem_base s = 0 \<or> cbmem_size s = 0 then s
      else s\<lparr>toc_at := (toc_at s)(ucast (cbmem_base s) :=
        \<lparr>cm_magic = CBMEM_MAGIC, cm_id = CBMEM_ID_FREESPACE,
          cm_base = cbmem_base s + CBMEM_TOC_RESERVED, cm_size = cbmem_size s - CBMEM_TOC_RESERVED\<rparr>
        # replicate (MAX_CBMEM_ENTRIES - 1) no_entry)\<rparr>)"

definition cbmem_check_toc :: "u64 \<times> u64 \<Rightarrow> cbmem \<Rightarrow> bool \<times> cbmem" where
  "cbmem_check_toc tbl s =
     (let s = cbmem_locate_table tbl s
      in (cm_magic (toc_at s (ucast (cbmem_base s)) ! 0) = CBMEM_MAGIC, s))"

definition cbmem_find :: "u64 \<times> u64 \<Rightarrow> u32 \<Rightarrow> cbmem \<Rightarrow> u32 \<times> cbmem" where
  "cbmem_find tbl id' s =
     (let (toc, s) = get_cbmem_toc tbl s in
      if toc = 0 then (0, s)
      else (case find (\<lambda>i. cm_id (toc_at s toc ! i) = id') [0..<MAX_CBMEM_ENTRIES] of
              Some i \<Rightarrow> (ucast (cm_base (toc_at s toc ! i)), s)
            | None \<Rightarrow> (0, s)))"

definition cbmem_add :: "u64 \<times> u64 \<Rightarrow> u32 \<Rightarrow> u64 \<Rightarrow> cbmem \<Rightarrow> u32 \<times> cbmem" where
  "cbmem_add tbl id' sz s =
     (let (p, s) = cbmem_find tbl id' s in
      if p \<noteq> 0 then (p, s)
      else let (toc, s) = get_cbmem_toc tbl s; es = toc_at s toc in
        if toc = 0 then (0, s)
        else if cm_magic (es ! 0) \<noteq> CBMEM_MAGIC then (0, s)
        else if cm_size (es ! 0) < sz then (0, s)
        else
          let sz = (if ALIGN_UP sz 512 < cm_size (es ! 0) then ALIGN_UP sz 512 else cm_size (es ! 0)) in
          case find (\<lambda>i. cm_id (es ! i) = CBMEM_ID_NONE) [0..<MAX_CBMEM_ENTRIES] of
            None \<Rightarrow> (0, s)
          | Some i \<Rightarrow>
              let es = es[i := \<lparr>cm_magic = CBMEM_MAGIC, cm_id = id', cm_base = cm_base (es ! 0), cm_size = sz\<rparr>];
                  es = es[0 := (es ! 0)\<lparr>cm_base := cm_base (es ! 0) + sz\<rparr>];
                  es = es[0 := (es ! 0)\<lparr>cm_size := cm_size (es ! 0) - sz\<rparr>]
              in (ucast (cm_base (es ! i)), s\<lparr>toc_at := (toc_at s)(toc := es)\<rparr>))"

text \<open>\<open>wipe\<close> is the configuration's choice of the stage that clears the table; the result says whether it was new.\<close>

definition cbmem_recovery :: "bool \<Rightarrow> u64 \<times> u64 \<Rightarrow> bool \<Rightarrow> cbmem \<Rightarrow> bool \<times> cbmem" where
  "cbmem_recovery wipe tbl is_wakeup s =
     (let (found, s) = cbmem_check_toc tbl s;
          s = (if \<not> is_wakeup \<and> wipe then cbmem_initialize_empty tbl s else s);
          s = (if is_wakeup \<and> \<not> found then cbmem_initialize_empty tbl s else s)
      in (\<not> found, s))"

section \<open>A table in order\<close>

text \<open>\<open>tiles b es e\<close>: the areas of the entries follow one another from \<open>b\<close> to \<open>e\<close>.\<close>

fun tiles :: "nat \<Rightarrow> cbmem_entry list \<Rightarrow> nat \<Rightarrow> bool" where
  "tiles b [] e \<longleftrightarrow> b = e"
| "tiles b (x # xs) e \<longleftrightarrow> unat (cm_base x) = b \<and> tiles (b + unat (cm_size x)) xs e"

definition area :: "cbmem_entry \<Rightarrow> nat set" where
  "area x = {unat (cm_base x)..<unat (cm_base x) + unat (cm_size x)}"

definition used_ids_ok :: "cbmem_entry list \<Rightarrow> bool" where
  "used_ids_ok es \<longleftrightarrow> distinct (map cm_id es) \<and> (\<forall>x \<in> set es. cm_id x \<noteq> CBMEM_ID_NONE \<and> cm_id x \<noteq> CBMEM_ID_FREESPACE)"

text \<open>
  The state of the table: \<open>es\<close> are the areas in use, the free space begins where they end and
  reaches to the end of the memory set aside, all below 4 GiB.
\<close>

definition cbmem_wf :: "cbmem \<Rightarrow> cbmem_entry list \<Rightarrow> bool" where
  "cbmem_wf s es \<longleftrightarrow> 0 < cbmem_base s \<and> 0 < cbmem_size s \<and> unat (cbmem_base s) + unat (cbmem_size s) < 2 ^ 32
     \<and> (\<exists>free none. toc_at s (ucast (cbmem_base s)) = free # es @ none \<and> length (es @ none) = 15
         \<and> cm_magic free = CBMEM_MAGIC \<and> cm_id free = CBMEM_ID_FREESPACE
         \<and> (\<forall>x \<in> set none. cm_id x = CBMEM_ID_NONE) \<and> used_ids_ok es
         \<and> tiles (unat (cbmem_base s) + 512) es (unat (cm_base free))
         \<and> unat (cm_base free) + unat (cm_size free) = unat (cbmem_base s) + unat (cbmem_size s))"

lemma tiles_append: "tiles b (xs @ ys) e \<longleftrightarrow> (\<exists>m. tiles b xs m \<and> tiles m ys e)"
  by (induction xs arbitrary: b) auto

lemma tiles_le: "tiles b xs e \<Longrightarrow> b \<le> e"
  by (induction xs arbitrary: b) fastforce+

lemma tiles_area: "tiles b xs e \<Longrightarrow> x \<in> set xs \<Longrightarrow> area x \<subseteq> {b..<e} \<and> b \<le> unat (cm_base x) \<and> unat (cm_base x) \<le> e"
proof (induction xs arbitrary: b)
  case (Cons y ys)
  then have y: "unat (cm_base y) = b" "tiles (b + unat (cm_size y)) ys e" by simp_all
  note le = tiles_le [OF y(2)]
  show ?case
  proof (cases "x = y")
    case False
    then have "area x \<subseteq> {b + unat (cm_size y)..<e} \<and> b + unat (cm_size y) \<le> unat (cm_base x) \<and> unat (cm_base x) \<le> e"
      using Cons.IH [OF y(2)] Cons.prems(2) by simp
    then show ?thesis by auto
  qed (use y le in \<open>auto simp: area_def\<close>)
qed simp

section \<open>Searching the table\<close>

lemma find_index_split:
  assumes "xs = ys @ x # zs" "P x" "\<forall>y \<in> set ys. \<not> P y"
  shows "find (\<lambda>i. P (xs ! i)) [0..<length xs] = Some (length ys)"
proof -
  have s: "[0..<length xs] = [0..<length ys] @ length ys # [Suc (length ys)..<length xs]"
    using assms(1) upt_add_eq_append [of 0 "length ys" "Suc (length zs)"] upt_conv_Cons [of "length ys" "length ys + Suc (length zs)"]
    by simp
  have "\<forall>i \<in> set [0..<length ys]. \<not> P (xs ! i)" using assms(1,3) by (simp add: nth_append)
  then have "find (\<lambda>i. P (xs ! i)) [0..<length ys] = None" by (simp add: find_None_iff)
  moreover have "find f (as @ bs) = (case find f as of None \<Rightarrow> find f bs | Some v \<Rightarrow> Some v)"
    for f :: "nat \<Rightarrow> bool" and as bs by (induction as) auto
  moreover have "P (xs ! length ys)" using assms by simp
  ultimately show ?thesis unfolding s by simp
qed

lemma find_index_none: "\<forall>x \<in> set xs. \<not> P x \<Longrightarrow> find (\<lambda>i. P (xs ! i)) [0..<length xs] = None"
  by (simp add: find_None_iff)

text \<open>The parts of a table in order.\<close>

lemma cbmem_wfE:
  assumes "cbmem_wf s es"
  obtains free none where "toc_at s (ucast (cbmem_base s)) = free # es @ none" "length (es @ none) = 15"
    "cm_magic free = CBMEM_MAGIC" "cm_id free = CBMEM_ID_FREESPACE" "\<forall>x \<in> set none. cm_id x = CBMEM_ID_NONE"
    "used_ids_ok es" "tiles (unat (cbmem_base s) + 512) es (unat (cm_base free))"
    "unat (cm_base free) + unat (cm_size free) = unat (cbmem_base s) + unat (cbmem_size s)"
  using assms unfolding cbmem_wf_def by blast

lemma cbmem_wf_toc:
  assumes "cbmem_wf s es"
  shows "get_cbmem_toc tbl s = (ucast (cbmem_base s), s)" "(ucast (cbmem_base s) :: u32) \<noteq> 0"
proof -
  have b: "0 < cbmem_base s" "0 < cbmem_size s" "unat (cbmem_base s) < 2 ^ 32"
    using assms by (auto simp: cbmem_wf_def)
  show "get_cbmem_toc tbl s = (ucast (cbmem_base s), s)"
    using b by (simp add: get_cbmem_toc_def cbmem_locate_table_def word_neq_0_conv [symmetric])
  have "unat (ucast (cbmem_base s) :: u32) = unat (cbmem_base s)"
    using b(3) by (simp add: unsigned_ucast_eq take_bit_nat_eq_self)
  moreover have "unat (cbmem_base s) \<noteq> 0" using b(1) by (simp add: unat_eq_0)
  ultimately show "(ucast (cbmem_base s) :: u32) \<noteq> 0" by (metis unat_0)
qed

text \<open>What is found: the address of the entry, or NULL.\<close>

definition entry_of :: "cbmem_entry list \<Rightarrow> u32 \<Rightarrow> cbmem_entry option" where
  "entry_of es k = find (\<lambda>x. cm_id x = k) es"

lemma cbmem_find_wf:
  assumes wf: "cbmem_wf s es" and k: "k \<noteq> CBMEM_ID_NONE" "k \<noteq> CBMEM_ID_FREESPACE"
  shows "cbmem_find tbl k s = (case entry_of es k of None \<Rightarrow> 0 | Some x \<Rightarrow> ucast (cm_base x), s)"
proof -
  obtain free none where t: "toc_at s (ucast (cbmem_base s)) = free # es @ none" (is "?toc = _") "length (es @ none) = 15"
    "cm_id free = CBMEM_ID_FREESPACE" "\<forall>x \<in> set none. cm_id x = CBMEM_ID_NONE"
    by (rule cbmem_wfE [OF wf]) blast
  have len: "length ?toc = 16" using t(1,2) by simp
  show ?thesis
  proof (cases "entry_of es k")
    case None
    then have "\<forall>x \<in> set ?toc. cm_id x \<noteq> k" using t k by (auto simp: entry_of_def find_None_iff)
    from find_index_none [where P = "\<lambda>x. cm_id x = k", OF this]
    show ?thesis using None cbmem_wf_toc [OF wf] len by (simp add: cbmem_find_def)
  next
    case (Some x)
    then obtain i where i: "i < length es" "cm_id (es ! i) = k" "x = es ! i" "\<forall>j < i. cm_id (es ! j) \<noteq> k"
      unfolding entry_of_def find_Some_iff by blast
    have "?toc = (free # take i es) @ x # drop (Suc i) es @ none"
      using i(1,3) t(1) by (simp add: id_take_nth_drop [symmetric])
    moreover have "\<forall>y \<in> set (free # take i es). cm_id y \<noteq> k"
      using i(1,4) t(3) k(2) by (fastforce simp: in_set_conv_nth)
    ultimately have "find (\<lambda>i. cm_id (?toc ! i) = k) [0..<length ?toc] = Some (length (free # take i es))"
      using i(2,3) by (intro find_index_split) auto
    moreover have "?toc ! length (free # take i es) = x"
      using i t(1) by (simp add: nth_append)
    ultimately show ?thesis using Some cbmem_wf_toc [OF wf] len i by (simp add: cbmem_find_def)
  qed
qed

lemma entry_of_Some: "entry_of es k = Some x \<Longrightarrow> x \<in> set es \<and> cm_id x = k"
  unfolding entry_of_def find_Some_iff by auto

lemma entry_of_None: "entry_of es k = None \<longleftrightarrow> (\<forall>x \<in> set es. cm_id x \<noteq> k)"
  by (auto simp: entry_of_def find_None_iff)

lemma entry_of_snoc: "entry_of (es @ [x]) k = (case entry_of es k of None \<Rightarrow> if cm_id x = k then Some x else None | Some y \<Rightarrow> Some y)"
  by (induction es) (auto simp: entry_of_def)

lemma cbmem_wf_area:
  assumes wf: "cbmem_wf s es" and x: "x \<in> set es"
  shows "area x \<subseteq> {unat (cbmem_base s) + 512..<unat (cbmem_base s) + unat (cbmem_size s)}"
    and "unat (ucast (cm_base x) :: u32) = unat (cm_base x)" and "(ucast (cm_base x) :: u32) \<noteq> 0"
proof -
  obtain free :: cbmem_entry where t: "tiles (unat (cbmem_base s) + 512) es (unat (cm_base free))"
    "unat (cm_base free) + unat (cm_size free) = unat (cbmem_base s) + unat (cbmem_size s)"
    by (rule cbmem_wfE [OF wf]) blast
  note a = tiles_area [OF t(1) x]
  show "area x \<subseteq> {unat (cbmem_base s) + 512..<unat (cbmem_base s) + unat (cbmem_size s)}"
    using a t(2) by fastforce
  have "unat (cbmem_base s) + unat (cbmem_size s) < 2 ^ 32" using wf by (simp add: cbmem_wf_def)
  then have "unat (cm_base x) < 2 ^ 32" using a t(2) by linarith
  then show u: "unat (ucast (cm_base x) :: u32) = unat (cm_base x)" by (simp add: unsigned_ucast_eq take_bit_nat_eq_self)
  have "unat (cm_base x) \<noteq> 0" using a by linarith
  then show "(ucast (cm_base x) :: u32) \<noteq> 0" using u by (metis unat_0)
qed

lemma tiles_disjoint: "tiles b es e \<Longrightarrow> sorted_wrt (\<lambda>x y. area x \<inter> area y = {}) es"
proof (induction es arbitrary: b)
  case (Cons x xs)
  then have t: "tiles (b + unat (cm_size x)) xs e" and b: "unat (cm_base x) = b" by simp_all
  have "\<forall>y \<in> set xs. area x \<inter> area y = {}"
    using tiles_area [OF t] b by (fastforce simp: area_def)
  then show ?case using Cons.IH [OF t] by simp
qed simp

section \<open>Adding areas\<close>

text \<open>The free space of a table in order, and the entry a successful \<^verbatim>\<open>cbmem_add\<close> makes.\<close>

definition free_entry :: "cbmem \<Rightarrow> cbmem_entry" where
  "free_entry s = toc_at s (ucast (cbmem_base s)) ! 0"

definition rounded :: "cbmem \<Rightarrow> u64 \<Rightarrow> u64" where
  "rounded s sz = (if ALIGN_UP sz 512 < cm_size (free_entry s) then ALIGN_UP sz 512 else cm_size (free_entry s))"

definition added :: "cbmem \<Rightarrow> u32 \<Rightarrow> u64 \<Rightarrow> cbmem_entry" where
  "added s k sz = \<lparr>cm_magic = CBMEM_MAGIC, cm_id = k, cm_base = cm_base (free_entry s), cm_size = rounded s sz\<rparr>"

lemma cbmem_add_present:
  assumes wf: "cbmem_wf s es" and k: "k \<noteq> CBMEM_ID_NONE" "k \<noteq> CBMEM_ID_FREESPACE" and x: "entry_of es k = Some x"
  shows "cbmem_add tbl k sz s = (ucast (cm_base x), s)"
proof -
  have "x \<in> set es" using entry_of_Some [OF x] by blast
  then have "(ucast (cm_base x) :: u32) \<noteq> 0" by (rule cbmem_wf_area(3) [OF wf])
  then show ?thesis using cbmem_find_wf [OF wf k] x by (simp add: cbmem_add_def)
qed

lemma cbmem_add_no_room:
  assumes wf: "cbmem_wf s es" and k: "k \<noteq> CBMEM_ID_NONE" "k \<noteq> CBMEM_ID_FREESPACE" and x: "entry_of es k = None"
    and r: "cm_size (free_entry s) < sz \<or> length es = 15"
  shows "cbmem_add tbl k sz s = (0, s)"
proof -
  obtain free none where t: "toc_at s (ucast (cbmem_base s)) = free # es @ none" (is "?toc = _") "length (es @ none) = 15"
    "cm_magic free = CBMEM_MAGIC" "cm_id free = CBMEM_ID_FREESPACE" "used_ids_ok es"
    by (rule cbmem_wfE [OF wf]) blast
  have f: "free_entry s = free" using t by (simp add: free_entry_def)
  have len: "length ?toc = 16" using t by simp
  show ?thesis
  proof (cases "cm_size free < sz")
    case True
    then show ?thesis using t cbmem_find_wf [OF wf k] x cbmem_wf_toc [OF wf] by (simp add: cbmem_add_def)
  next
    case False
    then have "none = []" using r t f by simp
    then have "\<forall>y \<in> set ?toc. cm_id y \<noteq> CBMEM_ID_NONE"
      using t by (auto simp: used_ids_ok_def)
    from find_index_none [where P = "\<lambda>y. cm_id y = CBMEM_ID_NONE", OF this, unfolded len]
    show ?thesis using t(3) arg_cong [OF t(1), where f = "\<lambda>xs. xs ! 0"] cbmem_find_wf [OF wf k] x cbmem_wf_toc [OF wf] False
      by (simp add: cbmem_add_def)
  qed
qed

lemma cbmem_add_new:
  assumes wf: "cbmem_wf s es" and k: "k \<noteq> CBMEM_ID_NONE" "k \<noteq> CBMEM_ID_FREESPACE" and x: "entry_of es k = None"
    and r: "sz \<le> cm_size (free_entry s)" "length es < 15"
  shows "\<exists>s'. cbmem_add tbl k sz s = (ucast (cm_base (added s k sz)), s') \<and> cbmem_wf s' (es @ [added s k sz])
    \<and> sz \<le> rounded s sz"
proof -
  obtain free none where t: "toc_at s (ucast (cbmem_base s)) = free # es @ none" (is "?toc = _") "length (es @ none) = 15"
    "cm_magic free = CBMEM_MAGIC" "cm_id free = CBMEM_ID_FREESPACE" "\<forall>x \<in> set none. cm_id x = CBMEM_ID_NONE" "used_ids_ok es"
    "tiles (unat (cbmem_base s) + 512) es (unat (cm_base free))"
    "unat (cm_base free) + unat (cm_size free) = unat (cbmem_base s) + unat (cbmem_size s)"
    by (rule cbmem_wfE [OF wf]) blast
  have f: "free_entry s = free" using t by (simp add: free_entry_def)
  have len: "length ?toc = 16" using t by simp
  obtain n ns where n: "none = n # ns" using t(2) r(2) by (cases none) auto
  let ?x = "added s k sz" and ?z = "rounded s sz"
  let ?free = "free\<lparr>cm_base := cm_base free + ?z, cm_size := cm_size free - ?z\<rparr>"
  let ?s = "s\<lparr>toc_at := (toc_at s)(ucast (cbmem_base s) := ?free # es @ ?x # ns)\<rparr>"
  have "?toc = (free # es) @ n # ns" using t n by simp
  moreover have "cm_id n = CBMEM_ID_NONE" using t n by simp
  moreover have "\<forall>y \<in> set (free # es). cm_id y \<noteq> CBMEM_ID_NONE" using t by (auto simp: used_ids_ok_def)
  ultimately have fi: "find (\<lambda>i. cm_id (?toc ! i) = CBMEM_ID_NONE) [0..<length ?toc] = Some (length (free # es))"
    by (intro find_index_split) auto
  have top: "unat (cbmem_base s) + unat (cbmem_size s) < 2 ^ 32" using wf by (simp add: cbmem_wf_def)
  have z: "?z \<le> cm_size free" using f by (auto simp: rounded_def)
  have b: "unat (cm_base free + ?z) = unat (cm_base free) + unat ?z"
    using top t(8) z by (intro unat_add_lem [THEN iffD1]) (simp add: word_le_nat_alt)
  have m: "unat (cm_size free - ?z) = unat (cm_size free) - unat ?z" by (rule unat_sub [OF z])
  have sz: "sz \<le> ?z"
  proof -
    have "unat sz < 2 ^ 32" using top t(8) r(1) f by (simp add: word_le_nat_alt)
    then have "unat (ALIGN_UP sz 512) = (unat sz + 511) div 512 * 512"
      using unat_ALIGN_UP_no_wrap [of 9 sz] by simp
    then have "sz \<le> ALIGN_UP sz 512" by (simp add: word_le_nat_alt)
    then show ?thesis using r f by (simp add: rounded_def)
  qed
  have "cbmem_add tbl k sz s = (ucast (cm_base ?x), ?s)"
    using t(1,3) cbmem_find_wf [OF wf k] x cbmem_wf_toc [OF wf] r(1) len fi f n
    by (simp add: cbmem_add_def Let_def nth_append added_def rounded_def list_update_append not_less [symmetric])
  moreover have "cbmem_wf ?s (es @ [?x])"
  proof -
    have "used_ids_ok (es @ [?x])" using t(6) x k by (auto simp: used_ids_ok_def entry_of_None added_def)
    moreover have "tiles (unat (cbmem_base s) + 512) (es @ [?x]) (unat (cm_base ?free))"
      using t(7) b f by (auto simp: tiles_append added_def)
    moreover have "unat (cm_base ?free) + unat (cm_size ?free) = unat (cbmem_base s) + unat (cbmem_size s)"
      using t(8) b m z by (simp add: word_le_nat_alt)
    moreover have "cm_magic ?free = CBMEM_MAGIC" "cm_id ?free = CBMEM_ID_FREESPACE" "\<forall>y \<in> set ns. cm_id y = CBMEM_ID_NONE"
      "length ((es @ [?x]) @ ns) = 15" using t n by simp_all
    moreover have "toc_at ?s (ucast (cbmem_base ?s)) = ?free # (es @ [?x]) @ ns" by simp
    moreover have "0 < cbmem_base ?s" "0 < cbmem_size ?s" "unat (cbmem_base ?s) + unat (cbmem_size ?s) < 2 ^ 32"
      using wf by (simp_all add: cbmem_wf_def)
    ultimately show ?thesis unfolding cbmem_wf_def by (intro conjI exI [of _ ?free] exI [of _ ns]) simp_all
  qed
  ultimately show ?thesis using sz by blast
qed


text \<open>
  Areas that are used by name: what later additions keep.  \<open>null\<close> is the pointer for nothing.
\<close>

locale directory =
  fixes add :: "'k \<Rightarrow> 'n \<Rightarrow> 's \<Rightarrow> 'p \<times> 's" and look :: "'k \<Rightarrow> 's \<Rightarrow> 'p" and null :: 'p
    and ok :: "'s \<Rightarrow> bool" and valid :: "'k \<Rightarrow> bool"
  assumes add_ok: "ok s \<Longrightarrow> valid k \<Longrightarrow> ok (snd (add k n s))"
    and add_found: "ok s \<Longrightarrow> valid k \<Longrightarrow> fst (add k n s) \<noteq> null \<Longrightarrow> look k (snd (add k n s)) = fst (add k n s)"
    and add_keeps: "ok s \<Longrightarrow> valid k \<Longrightarrow> valid j \<Longrightarrow> look j s \<noteq> null \<Longrightarrow> look j (snd (add k n s)) = look j s"

text \<open>Additions in a row.\<close>

fun adds :: "('k \<Rightarrow> 'n \<Rightarrow> 's \<Rightarrow> 'p \<times> 's) \<Rightarrow> ('k \<times> 'n) list \<Rightarrow> 's \<Rightarrow> 'p list \<times> 's" where
  "adds add [] s = ([], s)"
| "adds add ((k, n) # rs) s = (let (p, s) = add k n s; (ps, s) = adds add rs s in (p # ps, s))"

context directory
begin

lemma adds_keep:
  "ok s \<Longrightarrow> \<forall>(k, n) \<in> set rs. valid k \<Longrightarrow> valid j \<Longrightarrow> look j s \<noteq> null \<Longrightarrow> look j (snd (adds add rs s)) = look j s"
proof (induction rs arbitrary: s)
  case (Cons r rs)
  obtain k n where r: "r = (k, n)" by force
  then have v: "valid k" and vs: "\<forall>(k, n) \<in> set rs. valid k" using Cons.prems(2) by auto
  note keep = add_keeps [OF Cons.prems(1) v Cons.prems(3,4), of n]
  show ?case
    using Cons.IH [OF add_ok [OF Cons.prems(1) v, of n] vs Cons.prems(3)] keep Cons.prems(4) r by (simp add: split_beta)
qed simp

lemma adds_found:
  "ok s \<Longrightarrow> \<forall>(k, n) \<in> set rs. valid k \<Longrightarrow> i < length rs \<Longrightarrow> fst (adds add rs s) ! i \<noteq> null
    \<Longrightarrow> look (fst (rs ! i)) (snd (adds add rs s)) = fst (adds add rs s) ! i"
proof (induction rs arbitrary: s i)
  case (Cons r rs)
  obtain k n where r: "r = (k, n)" by force
  then have v: "valid k" and vs: "\<forall>(k, n) \<in> set rs. valid k" using Cons.prems(2) by auto
  note ok' = add_ok [OF Cons.prems(1) v, of n]
  show ?case
  proof (cases i)
    case 0
    then have p: "fst (add k n s) \<noteq> null" using Cons.prems(4) r by (simp add: split_beta)
    note f = add_found [OF Cons.prems(1) v p]
    have "look k (snd (adds add rs (snd (add k n s)))) = look k (snd (add k n s))"
      by (rule adds_keep [OF ok' vs v]) (simp add: f p)
    then show ?thesis using 0 r f by (simp add: split_beta)
  next
    case (Suc i')
    then show ?thesis using Cons.IH [OF ok' vs, of i'] Cons.prems(3,4) r by (simp add: split_beta)
  qed
qed simp

lemma adds_length: "length (fst (adds add rs s)) = length rs"
  by (induction rs arbitrary: s) (auto simp: split_beta)

end

definition cbmem_id_valid :: "u32 \<Rightarrow> bool" where
  "cbmem_id_valid k \<longleftrightarrow> k \<noteq> CBMEM_ID_NONE \<and> k \<noteq> CBMEM_ID_FREESPACE"

lemma cbmem_find_state: "cbmem_wf s es \<Longrightarrow> cbmem_id_valid k \<Longrightarrow> cbmem_find tbl k s = (fst (cbmem_find tbl k s), s)"
  by (simp add: cbmem_find_wf cbmem_id_valid_def)

text \<open>Every case of an addition.\<close>

lemma cbmem_add_cases:
  assumes wf: "cbmem_wf s es" and k: "cbmem_id_valid k"
  obtains (present) x where "entry_of es k = Some x" "cbmem_add tbl k sz s = (ucast (cm_base x), s)"
  | (no_room) "entry_of es k = None" "cm_size (free_entry s) < sz \<or> length es = 15" "cbmem_add tbl k sz s = (0, s)"
  | (new) s' where "entry_of es k = None" "sz \<le> cm_size (free_entry s)" "length es < 15"
      "cbmem_add tbl k sz s = (ucast (cm_base (added s k sz)), s')"
      "cbmem_wf s' (es @ [added s k sz])" "sz \<le> rounded s sz"
proof -
  have len: "length es \<le> 15" using wf by (auto simp: cbmem_wf_def)
  have k': "k \<noteq> CBMEM_ID_NONE" "k \<noteq> CBMEM_ID_FREESPACE" using k by (auto simp: cbmem_id_valid_def)
  show thesis
  proof (cases "entry_of es k")
    case (Some x)
    then show thesis using cbmem_add_present [OF wf k'] present by blast
  next
    case None
    show thesis
    proof (cases "cm_size (free_entry s) < sz \<or> length es = 15")
      case True
      then show thesis using cbmem_add_no_room [OF wf k' None] no_room None by blast
    next
      case False
      then have "sz \<le> cm_size (free_entry s)" "length es < 15" using len by auto
      then show thesis using cbmem_add_new [OF wf k' None, of sz] new None by blast
    qed
  qed
qed

interpretation cbm: directory "cbmem_add tbl" "\<lambda>k s. fst (cbmem_find tbl k s)" 0 "\<lambda>s. \<exists>es. cbmem_wf s es" cbmem_id_valid
  for tbl
proof unfold_locales
  fix s k n
  assume "\<exists>es. cbmem_wf s es" and k: "cbmem_id_valid k"
  then obtain es where wf: "cbmem_wf s es" by blast
  show "\<exists>es. cbmem_wf (snd (cbmem_add tbl k n s)) es"
    by (rule cbmem_add_cases [OF wf k, of tbl n]) (use wf in auto)
  have k': "k \<noteq> CBMEM_ID_NONE" "k \<noteq> CBMEM_ID_FREESPACE" using k by (auto simp: cbmem_id_valid_def)
  show "fst (cbmem_add tbl k n s) \<noteq> 0 \<Longrightarrow> fst (cbmem_find tbl k (snd (cbmem_add tbl k n s))) = fst (cbmem_add tbl k n s)"
    by (rule cbmem_add_cases [OF wf k, of tbl n])
      (use wf k' in \<open>auto simp: cbmem_find_wf entry_of_snoc added_def\<close>)
  fix j
  assume j: "cbmem_id_valid j" "fst (cbmem_find tbl j s) \<noteq> 0"
  have j': "j \<noteq> CBMEM_ID_NONE" "j \<noteq> CBMEM_ID_FREESPACE" using j by (auto simp: cbmem_id_valid_def)
  show "fst (cbmem_find tbl j (snd (cbmem_add tbl k n s))) = fst (cbmem_find tbl j s)"
    by (rule cbmem_add_cases [OF wf k, of tbl n])
      (use wf j' j(2) in \<open>auto simp: cbmem_find_wf entry_of_snoc split: option.splits\<close>)
qed


text \<open>The start: an empty table, cleared as on every boot that is not a resume.\<close>

lemma cbmem_initialize_empty_wf:
  assumes t: "cbmem_base s = 0" "tbl = (base, sz)" "0 < base" "512 \<le> sz" "unat base + unat sz < 2 ^ 32"
  shows "cbmem_wf (cbmem_initialize_empty tbl s) []"
proof -
  have z: "0 < sz" "base \<noteq> 0" "sz \<noteq> 0" using t(3,4) by (auto simp: word_le_nat_alt word_less_nat_alt)
  have "unat (512 :: u64) = 512" by simp
  then have b: "unat (base + 512) = unat base + 512"
    using t(4,5) by (subst unat_add_lem [THEN iffD1]) (auto simp: word_le_nat_alt)
  have m: "unat (sz - 512) = unat sz - 512" using unat_sub [OF t(4)] by simp
  have "512 \<le> unat sz" using t(4) by (simp add: word_le_nat_alt)
  then show ?thesis using t z b m
    by (auto simp: cbmem_wf_def cbmem_initialize_empty_def cbmem_locate_table_def Let_def no_entry_def used_ids_ok_def
        word_neq_0_conv)
qed

lemma cbmem_recovery_wf:
  assumes t: "cbmem_base s = 0" "tbl = (base, sz)" "0 < base" "512 \<le> sz" "unat base + unat sz < 2 ^ 32"
  shows "cbmem_wf (snd (cbmem_recovery True tbl False s)) []"
proof -
  have "cbmem_initialize_empty tbl (cbmem_locate_table tbl s) = cbmem_initialize_empty tbl s"
    by (simp add: cbmem_initialize_empty_def cbmem_locate_table_def)
  then show ?thesis
    using cbmem_initialize_empty_wf [OF t] by (simp add: cbmem_recovery_def cbmem_check_toc_def Let_def)
qed

lemma adds_wf:
  assumes "cbmem_wf s es" "\<forall>(k, n) \<in> set rs. cbmem_id_valid k"
  shows "\<exists>new. cbmem_wf (snd (adds (cbmem_add tbl) rs s)) (es @ new)"
  using assms
proof (induction rs arbitrary: s es)
  case (Cons r rs)
  obtain k n where r: "r = (k, n)" by force
  have k: "cbmem_id_valid k" and rs: "\<forall>(k, n) \<in> set rs. cbmem_id_valid k" using Cons.prems(2) r by auto
  have "\<exists>new. cbmem_wf (snd (cbmem_add tbl k n s)) (es @ new)"
    by (rule cbmem_add_cases [OF Cons.prems(1) k, of tbl n])
      (use Cons.prems(1) in \<open>auto intro: exI [of _ "[]"]\<close>)
  then obtain new where "cbmem_wf (snd (cbmem_add tbl k n s)) (es @ new)" by blast
  from Cons.IH [OF this rs] show ?case using r by (auto simp: split_beta)
qed (auto intro: exI [of _ "[]"])

lemma cbmem_add_place:
  assumes "cbmem_wf s es"
  shows "cbmem_base (snd (cbmem_add tbl k n s)) = cbmem_base s \<and> cbmem_size (snd (cbmem_add tbl k n s)) = cbmem_size s"
  using cbmem_wf_toc [OF assms] by (simp add: cbmem_add_def cbmem_find_def Let_def split: option.splits)

lemma adds_place:
  assumes "cbmem_wf s es" "\<forall>(k, n) \<in> set rs. cbmem_id_valid k"
  shows "cbmem_base (snd (adds (cbmem_add tbl) rs s)) = cbmem_base s \<and> cbmem_size (snd (adds (cbmem_add tbl) rs s)) = cbmem_size s"
  using assms
proof (induction rs arbitrary: s es)
  case (Cons r rs)
  obtain k n where r: "r = (k, n)" by force
  have k: "cbmem_id_valid k" and rs: "\<forall>(k, n) \<in> set rs. cbmem_id_valid k" using Cons.prems(2) r by auto
  obtain es' where "cbmem_wf (snd (cbmem_add tbl k n s)) es'"
    using adds_wf [of s es "[(k, n)]" tbl] Cons.prems(1) k by (auto simp: split_beta)
  from Cons.IH [OF this rs] show ?case using r cbmem_add_place [OF Cons.prems(1)] by (simp add: split_beta)
qed simp

text \<open>
  \<^verbatim>\<open>cbmem_add\<close> on a table in order, every branch: a name that is in the table gets its old area; a new
  name gets an area at the end of the used ones, at least as long as asked for, when there is room
  and one of the 15 entries is free; otherwise NULL.  The table stays in order (the areas tile the
  memory between the table and the free space), and every other name is found where it was.
\<close>

lemma cbmem_add_correct:
  assumes "cbmem_wf s es" and "cbmem_id_valid k" and "cbmem_add tbl k sz s = (p, s')"
  shows "(p = 0 \<longleftrightarrow> k \<notin> cm_id ` set es \<and> (cm_size (free_entry s) < sz \<or> length es = 15))
    \<and> (p = 0 \<or> k \<in> cm_id ` set es \<longrightarrow> s' = s)
    \<and> (p \<noteq> 0 \<longrightarrow> cbmem_find tbl k s' = (p, s'))
    \<and> (p \<noteq> 0 \<and> k \<notin> cm_id ` set es \<longrightarrow>
        (\<exists>x. cbmem_wf s' (es @ [x]) \<and> cm_id x = k \<and> unat p = unat (cm_base x) \<and> sz \<le> cm_size x))
    \<and> (\<forall>j. cbmem_id_valid j \<and> j \<noteq> k \<longrightarrow> fst (cbmem_find tbl j s') = fst (cbmem_find tbl j s))"
proof -
  have ids: "k \<notin> cm_id ` set es \<longleftrightarrow> entry_of es k = None" by (auto simp: entry_of_None)
  have kv: "k \<noteq> CBMEM_ID_NONE" "k \<noteq> CBMEM_ID_FREESPACE" using assms(2) by (auto simp: cbmem_id_valid_def)
  show ?thesis
  proof (rule cbmem_add_cases [OF assms(1,2), of tbl sz])
    fix x assume x: "entry_of es k = Some x" "cbmem_add tbl k sz s = (ucast (cm_base x), s)"
    then have "p \<noteq> 0" using cbmem_wf_area(3) [OF assms(1), of x] entry_of_Some [OF x(1)] assms(3) by auto
    then show ?thesis using x assms(3) ids cbmem_find_wf [OF assms(1) kv] by auto
  next
    assume "entry_of es k = None" "cm_size (free_entry s) < sz \<or> length es = 15" "cbmem_add tbl k sz s = (0, s)"
    then show ?thesis using assms(3) ids by auto
  next
    fix s2 assume new: "entry_of es k = None" "sz \<le> cm_size (free_entry s)" "length es < 15"
      "cbmem_add tbl k sz s = (ucast (cm_base (added s k sz)), s2)"
      "cbmem_wf s2 (es @ [added s k sz])" "sz \<le> rounded s sz"
    have s2: "s2 = s'" "p = ucast (cm_base (added s k sz))" using new(4) assms(3) by auto
    have x: "added s k sz \<in> set (es @ [added s k sz])" "cm_id (added s k sz) = k" "cm_size (added s k sz) = rounded s sz"
      by (auto simp: added_def)
    have p: "p \<noteq> 0" "unat p = unat (cm_base (added s k sz))" using cbmem_wf_area [OF new(5) x(1)] s2 by auto
    have f: "cbmem_find tbl k s' = (p, s')" using cbmem_find_wf [OF new(5) kv, of tbl] new(1) s2 x(2) by (simp add: entry_of_snoc)
    have o: "fst (cbmem_find tbl j s') = fst (cbmem_find tbl j s)" if "cbmem_id_valid j" "j \<noteq> k" for j
      using that x(2) cbmem_find_wf [OF new(5), of j tbl] cbmem_find_wf [OF assms(1), of j tbl] s2(1)
      by (auto simp: cbmem_id_valid_def entry_of_snoc split: option.splits)
    have w: "\<exists>x. cbmem_wf s' (es @ [x]) \<and> cm_id x = k \<and> unat p = unat (cm_base x) \<and> sz \<le> cm_size x"
      using new(5,6) s2(1) p(2) x by (intro exI [of _ "added s k sz"]) simp
    have r: "\<not> (cm_size (free_entry s) < sz \<or> length es = 15)" using new(2,3) by auto
    have n: "k \<notin> cm_id ` set es" using ids new(1) by blast
    show ?thesis using p(1) f o w r n by blast
  qed
qed

text \<open>A table of 128 KiB at 16 MiB, just set up.\<close>

definition example_cbmem :: cbmem where
  "example_cbmem = snd (cbmem_recovery True (0x1000000, 0x20000) False
     \<lparr>cbmem_base = 0, cbmem_size = 0, toc_at = \<lambda>_. replicate 16 no_entry\<rparr>)"

lemma example_cbmem_wf: "cbmem_wf example_cbmem []"
  unfolding example_cbmem_def 
  by (rule cbmem_recovery_wf [where base = "0x1000000" and sz = "0x20000"]) simp_all

lemma example_cbmem_free: "cm_size (free_entry example_cbmem) = 0x1fe00"
  by (simp add: example_cbmem_def free_entry_def cbmem_recovery_def cbmem_check_toc_def cbmem_initialize_empty_def
      cbmem_locate_table_def Let_def)

lemma cbmem_add_correct_witness:
  "\<exists>p s'. cbmem_add (0x1000000, 0x20000) 0x43425442 1000 example_cbmem = (p, s') \<and> p \<noteq> 0
    \<and> cbmem_find (0x1000000, 0x20000) 0x43425442 s' = (p, s')"
proof -
  obtain p s' where r: "cbmem_add (0x1000000, 0x20000) 0x43425442 1000 example_cbmem = (p, s')" by force
  have "cbmem_id_valid 0x43425442" by (simp add: cbmem_id_valid_def)
  from cbmem_add_correct [OF example_cbmem_wf this r] r show ?thesis by (simp add: example_cbmem_free)
qed

text \<open>
  C37.  From a cold boot on, any sequence of \<^verbatim>\<open>cbmem_add\<close> calls: every pointer handed out is what
  \<^verbatim>\<open>cbmem_find\<close> still returns for its name at the end, and the areas in the table are pairwise disjoint, lie
  behind the table's own 512 bytes and inside the memory set aside.
\<close>

theorem cbmem_areas_stable:
  assumes "cbmem_base s = 0" "0 < base" "512 \<le> sz" "unat base + unat sz < 2 ^ 32"
    and "\<forall>(k, n) \<in> set rs. cbmem_id_valid k"
    and "adds (cbmem_add (base, sz)) rs (snd (cbmem_recovery True (base, sz) False s)) = (ps, s')"
  shows "\<exists>es. cbmem_wf s' es \<and> sorted_wrt (\<lambda>x y. area x \<inter> area y = {}) es
    \<and> (\<forall>x \<in> set es. area x \<subseteq> {unat base + 512..<unat base + unat sz})
    \<and> (\<forall>i < length rs. ps ! i \<noteq> 0 \<longrightarrow> fst (cbmem_find (base, sz) (fst (rs ! i)) s') = ps ! i)"
proof -
  let ?tbl = "(base, sz)" and ?s = "snd (cbmem_recovery True (base, sz) False s)"
  have wf: "cbmem_wf ?s []" by (rule cbmem_recovery_wf [OF assms(1) refl assms(2-4)])
  have ps: "ps = fst (adds (cbmem_add ?tbl) rs ?s)" "s' = snd (adds (cbmem_add ?tbl) rs ?s)" using assms(6) by simp_all
  obtain es where es: "cbmem_wf s' es" using adds_wf [OF wf assms(5), of ?tbl] ps by auto
  have b: "cbmem_base ?s = base" "cbmem_size ?s = sz"
    using assms(1-4) by (simp_all add: cbmem_recovery_def cbmem_check_toc_def cbmem_initialize_empty_def cbmem_locate_table_def Let_def)
  have "cbmem_base s' = base \<and> cbmem_size s' = sz"
    using adds_place [OF wf assms(5), of ?tbl] ps b by simp
  then have "\<forall>x \<in> set es. area x \<subseteq> {unat base + 512..<unat base + unat sz}"
    using cbmem_wf_area(1) [OF es] by blast
  moreover have "sorted_wrt (\<lambda>x y. area x \<inter> area y = {}) es"
    by (rule cbmem_wfE [OF es]) (rule tiles_disjoint)
  moreover have "\<forall>i < length rs. ps ! i \<noteq> 0 \<longrightarrow> fst (cbmem_find ?tbl (fst (rs ! i)) s') = ps ! i"
    using cbm.adds_found [OF _ assms(5)] wf ps by blast
  ultimately show ?thesis using es by blast
qed

lemma cbmem_areas_stable_witness:
  "\<exists>s' es. snd (adds (cbmem_add (0x1000000, 0x20000)) [(0x43425442, 1000), (0x41435049, 0x8000)] example_cbmem) = s'
    \<and> sorted_wrt (\<lambda>x y. area x \<inter> area y = {}) es \<and> cbmem_wf s' es"
proof -
  obtain ps s' where r: "adds (cbmem_add (0x1000000, 0x20000)) [(0x43425442, 1000), (0x41435049, 0x8000)] example_cbmem = (ps, s')"
    by force
  have "\<forall>(k, n) \<in> set [(0x43425442, 1000), (0x41435049, 0x8000 :: u64)]. cbmem_id_valid k"
    by (simp add: cbmem_id_valid_def)
  from cbmem_areas_stable [OF _ _ _ _ this r [unfolded example_cbmem_def]]
  have "\<exists>es. cbmem_wf s' es \<and> sorted_wrt (\<lambda>x y. area x \<inter> area y = {}) es" by auto
  then show ?thesis unfolding r by auto
qed

end
