(* ===== verification/Bootmem.thy ===== *)
theory Bootmem
  imports Cbmem
begin

text \<open>
  The memory map given to the payload, \<^verbatim>\<open>src/lib/bootmem.c\<close>: the ranges of the device tree's memory
  resources and of CBMEM with their coreboot table types, the table of them for the payload, and
  the search for a buffer.  The static variable \<^verbatim>\<open>bootmem\<close> is the list of ranges handed from call to
  call with its pool; \<open>None\<close> is the machine stopping in \<^verbatim>\<open>malloc\<close>.  On the board a \<^verbatim>\<open>size_t\<close> and a
  pointer have 32 bits, addresses in the map 64.
\<close>

section \<open>The memory map\<close>

abbreviation LB_MEM_RAM :: u32 where "LB_MEM_RAM \<equiv> 1"
abbreviation LB_MEM_RESERVED :: u32 where "LB_MEM_RESERVED \<equiv> 2"
abbreviation LB_MEM_UNUSABLE :: u32 where "LB_MEM_UNUSABLE \<equiv> 5"
abbreviation LB_MEM_TABLE :: u32 where "LB_MEM_TABLE \<equiv> 16"

definition bootmem_add_range ::
  "u64 \<Rightarrow> u64 \<Rightarrow> u32 \<Rightarrow> memranges \<Rightarrow> range_pool \<Rightarrow> (memranges \<times> range_pool) option" where
  "bootmem_add_range start sz type bm pool = memranges_insert start sz type bm pool"

definition cbmem_add_bootmem :: "cbmem \<Rightarrow> memranges \<Rightarrow> range_pool \<Rightarrow> (memranges \<times> range_pool) option" where
  "cbmem_add_bootmem c bm pool = bootmem_add_range (cbmem_base c) (cbmem_size c) LB_MEM_TABLE bm pool"

definition bootmem_init :: "devtree \<Rightarrow> cbmem \<Rightarrow> range_pool \<Rightarrow> (memranges \<times> range_pool) option" where
  "bootmem_init t c pool =
     do {
       (bm, pool) \<leftarrow> memranges_init t IORESOURCE_CACHEABLE IORESOURCE_CACHEABLE LB_MEM_RAM pool;
       (bm, pool) \<leftarrow> memranges_add_resources t IORESOURCE_RESERVE IORESOURCE_RESERVE LB_MEM_RESERVED bm pool;
       cbmem_add_bootmem c bm pool
     }"

section \<open>The table for the payload\<close>

record lb_uint64 =
  lb_lo :: u32
  lb_hi :: u32

definition unpack_lb64 :: "lb_uint64 \<Rightarrow> u64" where
  "unpack_lb64 v = push_bit 32 (ucast (lb_hi v)) + ucast (lb_lo v)"

definition pack_lb64 :: "u64 \<Rightarrow> lb_uint64" where
  "pack_lb64 v = \<lparr>lb_lo = ucast (v AND 0xffffffff), lb_hi = ucast (drop_bit 32 v AND 0xffffffff)\<rparr>"

record lb_memory_range =
  lb_start :: lb_uint64
  lb_size :: lb_uint64
  lb_type :: u32

text \<open>The map is the memory behind the record; an entry has 20 bytes.\<close>

record lb_memory =
  lm_tag :: u32
  lm_size :: u32
  lm_map :: "nat \<Rightarrow> lb_memory_range"

definition lb_entry :: "range_entry \<Rightarrow> lb_memory_range" where
  "lb_entry r = \<lparr>lb_start = pack_lb64 (range_entry_base r), lb_size = pack_lb64 (range_entry_size r), lb_type = re_tag r\<rparr>"

fun write_ranges :: "memranges \<Rightarrow> nat \<Rightarrow> lb_memory \<Rightarrow> lb_memory" where
  "write_ranges [] lb_r mem = mem"
| "write_ranges (r # rs) lb_r mem =
     write_ranges rs (lb_r + 1) (mem\<lparr>lm_map := (lm_map mem)(lb_r := lb_entry r), lm_size := lm_size mem + 20\<rparr>)"

definition bootmem_write_memory_table :: "memranges \<Rightarrow> lb_memory \<Rightarrow> lb_memory" where
  "bootmem_write_memory_table bm mem = write_ranges bm 0 mem"

definition type_strings :: "(u32 \<times> string) list" where
  "type_strings = [(LB_MEM_RAM, ''RAM''), (LB_MEM_RESERVED, ''RESERVED''), (3, ''ACPI''), (4, ''NVS''),
     (LB_MEM_UNUSABLE, ''UNUSABLE''), (6, ''VENDOR RESERVED''), (LB_MEM_TABLE, ''CONFIGURATION TABLES'')]"

definition bootmem_range_string :: "u32 \<Rightarrow> string" where
  "bootmem_range_string tag = (case find (\<lambda>(t, str). t = tag) type_strings of Some (_, str) \<Rightarrow> str | None \<Rightarrow> ''UNKNOWN!'')"

section \<open>Where a payload may go\<close>

fun targets_ram :: "u64 \<Rightarrow> u64 \<Rightarrow> memranges \<Rightarrow> bool" where
  "targets_ram start e [] = False"
| "targets_ram start e (r # rs) =
     (if e \<le> range_entry_base r then False
      else if range_entry_base r \<le> start \<and> e \<le> range_entry_end r \<and> re_tag r = LB_MEM_RAM then True
      else targets_ram start e rs)"

definition bootmem_region_targets_usable_ram :: "u64 \<Rightarrow> u64 \<Rightarrow> memranges \<Rightarrow> bool" where
  "bootmem_region_targets_usable_ram start sz bm = targets_ram start (start + sz) bm"

abbreviation max_addr :: u64 where "max_addr \<equiv> 0x100000000"

definition end_below_4G :: "range_entry \<Rightarrow> u64" where
  "end_below_4G r = (if max_addr < range_entry_end r then max_addr else range_entry_end r)"

definition buffer_fits :: "u64 \<Rightarrow> range_entry \<Rightarrow> bool" where
  "buffer_fits sz r =
     (if range_entry_size r < sz then False
      else if re_tag r \<noteq> LB_MEM_RAM then False
      else if max_addr \<le> range_entry_base r then False
      else if end_below_4G r - range_entry_base r < sz then False
      else True)"

definition bootmem_allocate_buffer :: "u32 \<Rightarrow> memranges \<Rightarrow> range_pool \<Rightarrow> (u32 \<times> memranges \<times> range_pool) option" where
  "bootmem_allocate_buffer sz bm pool =
     (let sz = ucast (ALIGN_UP sz 4096) in
      case fold (\<lambda>r region. if buffer_fits sz r then Some r else region) bm None of
        None \<Rightarrow> Some (0, bm, pool)
      | Some region \<Rightarrow>
          let begin = end_below_4G region - sz in
          do {
            (bm, pool) \<leftarrow> bootmem_add_range begin sz LB_MEM_UNUSABLE bm pool;
            Some (ucast begin, bm, pool)
          })"

section \<open>Runs of addresses\<close>

lemma tag_at_member: "wf_ranges rs \<Longrightarrow> r \<in> set rs \<Longrightarrow> re_begin r \<le> a \<Longrightarrow> a \<le> re_end r \<Longrightarrow> tag_at rs a = Some (re_tag r)"
proof (induction rs)
  case (Cons x xs)
  show ?case
  proof (cases "r = x")
    case False
    then have "r \<in> set xs" "re_end x < re_begin r" using Cons.prems by (auto simp: all_above_def)
    then have "\<not> a \<le> re_end x" using Cons.prems(3) by (meson leD order_less_le_trans)
    then show ?thesis using Cons.IH Cons.prems \<open>r \<in> set xs\<close> by simp
  qed (use Cons.prems in simp)
qed simp

text \<open>In a merged list a run of addresses with one tag lies inside one entry.\<close>

lemma tagged_run_entry:
  assumes "wf_ranges rs" "merged rs" "x \<le> y" "\<forall>a. x \<le> a \<and> a \<le> y \<longrightarrow> tag_at rs a = Some t"
  shows "\<exists>r \<in> set rs. re_tag r = t \<and> re_begin r \<le> x \<and> y \<le> re_end r"
  using assms
proof (induction rs)
  case Nil
  then have "tag_at [] x = Some t" by blast
  then show ?case by simp
next
  case (Cons r rs)
  have wf: "wf_ranges rs" and ab: "all_above (re_end r) rs" and m: "merged rs"
    using Cons.prems(1,2) by (auto elim: merged.elims)
  show ?case
  proof (cases "re_end r < x")
    case True
    have run: "\<forall>a. x \<le> a \<and> a \<le> y \<longrightarrow> tag_at rs a = Some t"
    proof (intro allI impI)
      fix a assume a: "x \<le> a \<and> a \<le> y"
      then have "re_end r < a" using True by (auto intro: order_less_le_trans)
      then have "\<not> a \<le> re_end r" by (simp add: not_le)
      moreover have "tag_at (r # rs) a = Some t" using Cons.prems(4) a by blast
      ultimately show "tag_at rs a = Some t" by simp
    qed
    from Cons.IH [OF wf m Cons.prems(3) run] show ?thesis by auto
  next
    case False
    then have xe: "x \<le> re_end r" by simp
    have "tag_at (r # rs) x = Some t" using Cons.prems(3,4) by blast
    then have bx: "re_begin r \<le> x" and t: "re_tag r = t"
      using xe tag_at_below [OF ab xe] by (auto split: if_splits)
    show ?thesis
    proof (cases "y \<le> re_end r")
      case True
      then show ?thesis using bx t by auto
    next
      case False
      define a where "a = re_end r + 1"
      have l: "re_end r < y" using False by simp
      have ra: "re_end r < a" "a \<le> y" using word_plus_one_le [OF l] unat_plus_one [OF l]
        by (simp_all add: a_def word_less_nat_alt)
      then have ta: "tag_at (r # rs) a = Some t" using Cons.prems(4) xe by simp
      then have tr: "tag_at rs a = Some t" using ra(1) by (simp split: if_splits)
      then obtain r2 rs2 where rs: "rs = r2 # rs2" by (cases rs) auto
      have "\<not> a < re_begin r2"
      proof
        assume l: "a < re_begin r2"
        then have "all_above a rs" using wf rs by (auto simp: all_above_def)
        then show False using tr tag_at_below [of a rs a] by simp
      qed
      then have b2: "re_begin r2 \<le> a" by simp
      moreover have "a \<le> re_begin r2" using ab rs word_plus_one_le [of "re_end r" "re_begin r2"] by (simp add: a_def)
      ultimately have "re_tag r2 = t" using tr rs wf by (simp split: if_splits)
      then show ?thesis using Cons.prems(2) rs t b2 by (simp add: a_def)
    qed
  qed
qed

lemma tagged_run:
  assumes "wf_ranges rs" "merged rs" "x \<le> y"
  shows "(\<forall>a. x \<le> a \<and> a \<le> y \<longrightarrow> tag_at rs a = Some t) \<longleftrightarrow> (\<exists>r \<in> set rs. re_tag r = t \<and> re_begin r \<le> x \<and> y \<le> re_end r)"
proof
  assume "\<exists>r \<in> set rs. re_tag r = t \<and> re_begin r \<le> x \<and> y \<le> re_end r"
  then obtain r where r: "r \<in> set rs" "re_tag r = t" "re_begin r \<le> x" "y \<le> re_end r" by blast
  show "\<forall>a. x \<le> a \<and> a \<le> y \<longrightarrow> tag_at rs a = Some t"
  proof (intro allI impI)
    fix a assume "x \<le> a \<and> a \<le> y"
    then have "re_begin r \<le> a" "a \<le> re_end r" using r by auto
    from tag_at_member [OF assms(1) r(1) this] r(2) show "tag_at rs a = Some t" by simp
  qed
qed (rule tagged_run_entry [OF assms])

text \<open>No entry reaches the last byte of the address space, where the end of an entry would wrap.\<close>

definition top_free :: "memranges \<Rightarrow> bool" where
  "top_free rs \<longleftrightarrow> (\<forall>r \<in> set rs. re_end r \<noteq> -1)"

lemma range_end_unat: "re_end r \<noteq> -1 \<Longrightarrow> unat (range_entry_end r) = unat (re_end r) + 1"
proof -
  assume "re_end r \<noteq> -1"
  then have "re_end r < -1" by (simp add: word_order.not_eq_extremum)
  then show ?thesis by (simp add: range_entry_end_def unat_plus_one)
qed

text \<open>\<open>free_run n rs x\<close>: \<open>n\<close> bytes of RAM from \<open>x\<close> on, all below 4 GiB.\<close>

definition free_run :: "nat \<Rightarrow> memranges \<Rightarrow> nat \<Rightarrow> bool" where
  "free_run n rs x \<longleftrightarrow> x + n \<le> 2 ^ 32 \<and> (\<forall>a. x \<le> unat a \<and> unat a < x + n \<longrightarrow> tag_at rs a = Some LB_MEM_RAM)"

lemma ram_run_nat:
  assumes wf: "wf_ranges rs" "merged rs" and n: "0 < n" "x + n \<le> 2 ^ 64"
  shows "(\<forall>a. x \<le> unat a \<and> unat a < x + n \<longrightarrow> tag_at rs a = Some t)
    \<longleftrightarrow> (\<exists>r \<in> set rs. re_tag r = t \<and> unat (re_begin r) \<le> x \<and> x + n \<le> unat (re_end r) + 1)"
proof -
  let ?x = "word_of_nat x :: u64" and ?y = "word_of_nat (x + n - 1) :: u64"
  have g: "m < 2 ^ 64 \<Longrightarrow> unat (word_of_nat m :: u64) = m" for m by (simp add: unsigned_of_nat take_bit_nat_eq_self)
  have u: "unat ?x = x" "unat ?y = x + n - 1"
    using n g [of x] g [of "x + n - 1"] by (simp_all del: of_nat_add of_nat_diff)
  have "x \<le> unat a \<and> unat a < x + n \<longleftrightarrow> ?x \<le> a \<and> a \<le> ?y" for a
    using u n(1) unfolding word_le_nat_alt by linarith
  moreover have "re_begin r \<le> ?x \<and> ?y \<le> re_end r \<longleftrightarrow> unat (re_begin r) \<le> x \<and> x + n \<le> unat (re_end r) + 1" for r :: range_entry
    using u n(1) unfolding word_le_nat_alt by linarith
  moreover have "?x \<le> ?y" using u n(1) by (simp add: word_le_nat_alt)
  ultimately show ?thesis using tagged_run [OF wf, of ?x ?y t] by simp
qed

lemma free_run_entry:
  assumes "wf_ranges rs" "merged rs" "0 < n"
  shows "free_run n rs x \<longleftrightarrow> (\<exists>r \<in> set rs. re_tag r = LB_MEM_RAM \<and> unat (re_begin r) \<le> x
    \<and> x + n \<le> min (unat (re_end r) + 1) (2 ^ 32))"
proof (cases "x + n \<le> 2 ^ 32")
  case True
  then show ?thesis using ram_run_nat [OF assms, of x] by (auto simp: free_run_def)
qed (auto simp: free_run_def)

text \<open>The state of the map between the calls: ordered, merged, tagged by pages and open at the top.\<close>

definition page_tags :: "memranges \<Rightarrow> bool" where
  "page_tags rs \<longleftrightarrow> (\<forall>a b. unat a div 4096 = unat b div 4096 \<longrightarrow> tag_at rs a = tag_at rs b)"

definition bootmem_ok :: "memranges \<Rightarrow> bool" where
  "bootmem_ok rs \<longleftrightarrow> wf_ranges rs \<and> merged rs \<and> page_tags rs \<and> tag_at rs (-1) = None"

lemma bootmem_ok_top: "bootmem_ok rs \<Longrightarrow> top_free rs"
  unfolding top_free_def bootmem_ok_def
proof (rule ballI, rule notI)
  fix r assume w: "wf_ranges rs \<and> merged rs \<and> page_tags rs \<and> tag_at rs (-1) = None" and r: "r \<in> set rs" "re_end r = -1"
  then have "tag_at rs (-1) = Some (re_tag r)" by (intro tag_at_member) auto
  then show False using w by simp
qed

lemma wf_ranges_member: "wf_ranges rs \<Longrightarrow> r \<in> set rs \<Longrightarrow> re_begin r \<le> re_end r"
  by (induction rs) auto

lemma wf_ranges_unique:
  "wf_ranges rs \<Longrightarrow> r \<in> set rs \<Longrightarrow> s \<in> set rs \<Longrightarrow> re_begin r \<le> a \<Longrightarrow> a \<le> re_end r \<Longrightarrow> re_begin s \<le> a \<Longrightarrow> a \<le> re_end s \<Longrightarrow> r = s"
proof (induction rs)
  case (Cons x xs)
  have "re_end x < re_begin y" if "y \<in> set xs" for y using Cons.prems(1) that by (simp add: all_above_def)
  then have "\<not> (y \<in> set xs \<and> re_begin y \<le> a \<and> a \<le> re_end x)" for y by (meson leD le_less_trans order_trans)
  then show ?case using Cons by (metis set_ConsD wf_ranges.simps(2))
qed simp

text \<open>Entries of such a map end at page boundaries.\<close>

lemma entry_end_page:
  assumes ok: "bootmem_ok rs" and r: "r \<in> set rs"
  shows "4096 dvd unat (re_end r) + 1"
proof (rule ccontr)
  assume nd: "\<not> 4096 dvd unat (re_end r) + 1"
  have wf: "wf_ranges rs" and m: "merged rs" and pt: "page_tags rs" using ok by (auto simp: bootmem_ok_def)
  have le: "re_begin r \<le> re_end r" by (rule wf_ranges_member [OF wf r])
  have ne: "re_end r \<noteq> -1" using bootmem_ok_top [OF ok] r by (simp add: top_free_def)
  let ?e = "re_end r + 1"
  have u: "unat ?e = unat (re_end r) + 1" using range_end_unat [OF ne] by (simp add: range_entry_end_def)
  have "(unat (re_end r) + 1) div 4096 = unat (re_end r) div 4096"
    using nd by (metis Suc_eq_plus1 div_Suc dvd_eq_mod_eq_0)
  then have "tag_at rs ?e = tag_at rs (re_end r)" using pt u unfolding page_tags_def by metis
  moreover have "tag_at rs (re_end r) = Some (re_tag r)" by (rule tag_at_member [OF wf r le]) simp
  ultimately have run: "\<forall>a. unat (re_end r) \<le> unat a \<and> unat a < unat (re_end r) + 2 \<longrightarrow> tag_at rs a = Some (re_tag r)"
    using u by (metis add_2_eq_Suc' less_Suc_eq_le le_antisym le_SucE not_less_eq_eq Suc_eq_plus1 unsigned_word_eqI)
  have "unat (re_end r) + 2 \<le> 2 ^ 64" using u unat_less_exp [of ?e] by simp
  from run ram_run_nat [OF wf m, of 2 "unat (re_end r)" "re_tag r"] this
  obtain s where s: "s \<in> set rs" "unat (re_begin s) \<le> unat (re_end r)" "unat (re_end r) + 2 \<le> unat (re_end s) + 1" by auto
  then have "s = r" using wf_ranges_unique [OF wf s(1) r, of "re_end r"] le by (simp add: word_le_nat_alt)
  then show False using s by simp
qed

lemma page_covers:
  assumes "4096 dvd unat base" "4096 dvd unat sz"
  shows "covers base sz a \<longleftrightarrow> unat base \<le> unat a \<and> unat a < unat base + unat sz"
proof -
  obtain b z where b: "unat base = 4096 * b" "unat sz = 4096 * z" using assms by (meson dvdE)
  have "b \<le> unat a div 4096 \<longleftrightarrow> 4096 * b \<le> unat a" by (simp add: less_eq_div_iff_mult_less_eq mult.commute)
  moreover have "unat a div 4096 < b + z \<longleftrightarrow> unat a < 4096 * (b + z)" by (simp add: div_less_iff_less_mult mult.commute)
  ultimately show ?thesis using b by (auto simp: covers_def algebra_simps)
qed

text \<open>Adding a range keeps the state.\<close>

lemma covers_page: "unat a div 4096 = unat b div 4096 \<Longrightarrow> covers base sz a = covers base sz b"
  by (simp add: covers_def)

lemma bootmem_add_range_spec:
  assumes "bootmem_add_range base sz type bm pool = Some (bm', pool')"
    and "wf_ranges bm" "page_tags bm" "region_ok base sz"
  shows "wf_ranges bm' \<and> merged bm' \<and> page_tags bm' \<and> (\<forall>a. tag_at bm' a = (if covers base sz a then Some type else tag_at bm a))"
proof -
  note s = memranges_insert_spec [OF assms(1) [unfolded bootmem_add_range_def] assms(2,4)]
  then have "page_tags bm'" using assms(3) covers_page unfolding page_tags_def by (metis (no_types, lifting))
  then show ?thesis using s by simp
qed

section \<open>The search for a buffer\<close>

lemma fold_last: "fold (\<lambda>r acc. if P r then Some r else acc) xs acc = (if filter P xs = [] then acc else Some (last (filter P xs)))"
  by (induction xs arbitrary: acc) auto

text \<open>Of the entries that meet a condition, the one found last is the highest.\<close>

lemma wf_ranges_last:
  assumes "wf_ranges rs" "filter P rs \<noteq> []" "s \<in> set rs" "P s"
  shows "s = last (filter P rs) \<or> re_end s < re_begin (last (filter P rs))"
  using assms
proof (induction rs)
  case (Cons r rs)
  have last: "last (filter P rs) \<in> set rs" if "filter P rs \<noteq> []" using last_in_set [OF that] by auto
  show ?case
  proof (cases "filter P rs = []")
    case True
    then show ?thesis using Cons.prems by (auto simp: filter_empty_conv)
  next
    case False
    then have l: "last (filter P (r # rs)) = last (filter P rs)" by simp
    show ?thesis
    proof (cases "s = r")
      case True
      then show ?thesis using Cons.prems(1) last [OF False] l by (auto simp: all_above_def)
    qed (use Cons False l in auto)
  qed
qed simp

lemma range_size_unat:
  assumes "re_begin r \<le> re_end r" "re_end r \<noteq> -1"
  shows "unat (range_entry_size r) = unat (re_end r) - unat (re_begin r) + 1"
proof -
  have d: "unat (re_end r - re_begin r) = unat (re_end r) - unat (re_begin r)" by (rule unat_sub [OF assms(1)])
  have "re_end r < -1" using assms(2) by (simp add: word_order.not_eq_extremum)
  then have "re_end r - re_begin r < -1" using d unfolding word_less_nat_alt by linarith
  then show ?thesis using d by (simp add: range_entry_size_def unat_plus_one)
qed

lemma buffer_fits_iff:
  assumes "re_begin r \<le> re_end r" "re_end r \<noteq> -1" "0 < unat z" "unat z < 2 ^ 32"
  shows "buffer_fits z r \<longleftrightarrow> re_tag r = LB_MEM_RAM \<and> unat (re_begin r) + unat z \<le> min (unat (re_end r) + 1) (2 ^ 32)"
proof -
  note e = range_end_unat [OF assms(2)]
  have b: "unat (re_begin r) \<le> unat (re_end r)" using assms(1) by (simp add: word_le_nat_alt)
  note sz = range_size_unat [OF assms(1,2)]
  have e4: "unat (end_below_4G r) = min (unat (re_end r) + 1) (2 ^ 32)"
    using e by (auto simp: end_below_4G_def word_less_nat_alt)
  show ?thesis
  proof (cases "unat (re_begin r) < 2 ^ 32")
    case True
    then have "re_begin r \<le> end_below_4G r" using e4 b by (simp add: word_le_nat_alt)
    then have "unat (end_below_4G r - range_entry_base r) = min (unat (re_end r) + 1) (2 ^ 32) - unat (re_begin r)"
      using e4 by (simp add: unat_sub range_entry_base_def)
    then show ?thesis using True sz b
      by (auto simp: buffer_fits_def word_less_nat_alt word_le_nat_alt range_entry_base_def)
  next
    case False
    then show ?thesis using assms(3) by (auto simp: buffer_fits_def word_le_nat_alt range_entry_base_def)
  qed
qed

definition buffer_bytes :: "u32 \<Rightarrow> nat" where
  "buffer_bytes sz = (unat sz + 4095) div 4096 * 4096"

lemma buffer_bytes_word:
  assumes "0 < sz" "unat sz \<le> 2 ^ 32 - 4096"
  shows "unat (ucast (ALIGN_UP sz 4096) :: u64) = buffer_bytes sz" "0 < buffer_bytes sz" "buffer_bytes sz < 2 ^ 32"
    "4096 dvd buffer_bytes sz"
proof -
  have s0: "0 < unat sz" using assms(1) by (simp add: word_less_nat_alt)
  have "unat (ALIGN_UP sz 4096) = buffer_bytes sz"
    using unat_ALIGN_UP_no_wrap [of 12 sz] assms(2) by (simp add: buffer_bytes_def)
  moreover show "0 < buffer_bytes sz" "buffer_bytes sz < 2 ^ 32" "4096 dvd buffer_bytes sz"
    using s0 assms(2) by (auto simp: buffer_bytes_def)
  ultimately show "unat (ucast (ALIGN_UP sz 4096) :: u64) = buffer_bytes sz" by (simp add: unat_ucast_mod)
qed

lemma bootmem_add_range_room:
  assumes "heap_room (n + 2) pool"
  shows "\<exists>bm' pool'. bootmem_add_range base sz type bm pool = Some (bm', pool') \<and> heap_room n pool'"
  using merge_add_memranges_room [of n pool] assms
  by (fastforce simp: bootmem_add_range_def memranges_insert_def do_action_def Let_def)

text \<open>Which region the loop leaves behind.\<close>

lemma fits_in_map:
  assumes ok: "bootmem_ok bm" and z: "unat z = n" "0 < n" "n < 2 ^ 32" and r: "r \<in> set bm"
  shows "buffer_fits z r \<longleftrightarrow> re_tag r = LB_MEM_RAM \<and> unat (re_begin r) + n \<le> min (unat (re_end r) + 1) (2 ^ 32)"
proof -
  have "wf_ranges bm" using ok by (simp add: bootmem_ok_def)
  then show ?thesis
    using buffer_fits_iff [of r z] wf_ranges_member [OF _ r] bootmem_ok_top [OF ok] r z by (auto simp: top_free_def)
qed

lemma free_run_fits:
  assumes ok: "bootmem_ok bm" and z: "unat z = n" "0 < n" "n < 2 ^ 32"
  shows "free_run n bm x \<longleftrightarrow>
    (\<exists>r \<in> set bm. buffer_fits z r \<and> unat (re_begin r) \<le> x \<and> x + n \<le> min (unat (re_end r) + 1) (2 ^ 32))"
proof -
  have "wf_ranges bm" "merged bm" using ok by (auto simp: bootmem_ok_def)
  from free_run_entry [OF this z(2)] show ?thesis
    using fits_in_map [OF assms] by (meson add_le_mono1 order_trans)
qed

lemma buffer_choice_none:
  "bootmem_ok bm \<Longrightarrow> unat z = n \<Longrightarrow> 0 < n \<Longrightarrow> n < 2 ^ 32 \<Longrightarrow> 4096 dvd n \<Longrightarrow> filter (buffer_fits z) bm = []
    \<Longrightarrow> \<not> (\<exists>x. free_run n bm x)"
  using free_run_fits by (simp add: filter_empty_conv)

lemma buffer_choice_highest:
  assumes ok: "bootmem_ok bm" and z: "unat z = n" "0 < n" "n < 2 ^ 32" "4096 dvd n" and ne: "filter (buffer_fits z) bm \<noteq> []"
  defines "b \<equiv> end_below_4G (last (filter (buffer_fits z) bm)) - z"
  shows "free_run n bm (unat b) \<and> (\<forall>x. free_run n bm x \<longrightarrow> x \<le> unat b) \<and> 4096 dvd unat b \<and> unat b + n \<le> 2 ^ 32"
proof -
  have wf: "wf_ranges bm" using ok by (auto simp: bootmem_ok_def)
  note run = free_run_fits [OF ok z(1-3)]
  define r where "r = last (filter (buffer_fits z) bm)"
  define e where "e = min (unat (re_end r) + 1) (2 ^ 32)"
  have r: "r \<in> set bm" "buffer_fits z r" using last_in_set [OF ne] by (auto simp: r_def)
  have "re_end r \<noteq> -1" using bootmem_ok_top [OF ok] r(1) by (simp add: top_free_def)
  then have e4: "unat (end_below_4G r) = e"
    using range_end_unat [of r] by (auto simp: end_below_4G_def word_less_nat_alt e_def)
  have fr: "re_tag r = LB_MEM_RAM" "unat (re_begin r) + n \<le> e" using fits_in_map [OF ok z(1-3) r(1)] r(2) by (auto simp: e_def)
  have b: "unat b = e - n" using fr(2) e4 z(1) by (simp add: b_def r_def [symmetric] unat_sub word_le_nat_alt)
  have "4096 dvd e" using entry_end_page [OF ok r(1)] by (auto simp: e_def min_def)
  then have bd: "4096 dvd unat b" using b z(4) by simp
  have el: "e \<le> 2 ^ 32" by (simp add: e_def)
  have max: "x \<le> unat b" if fx: "free_run n bm x" for x
  proof -
    obtain q where q: "q \<in> set bm" "buffer_fits z q" "unat (re_begin q) \<le> x" "x + n \<le> min (unat (re_end q) + 1) (2 ^ 32)"
      using fx run by blast
    from wf_ranges_last [OF wf ne q(1,2)] have "q = r \<or> unat (re_end q) < unat (re_begin r)"
      by (simp add: r_def word_less_nat_alt)
    then show ?thesis using q(4) b fr(2) by (auto simp: e_def)
  qed
  have "free_run n bm (unat b)" unfolding run using r fr b z(2) by (intro bexI [of _ r]) (auto simp: e_def)
  then show ?thesis using max bd b el fr(2) by auto
qed

lemma bootmem_allocate_spec:
  assumes ok: "bootmem_ok bm" and room: "heap_room (n + 2) pool" and sz: "0 < sz" "unat sz \<le> 2 ^ 32 - 4096"
  shows "\<exists>p bm' pool'. bootmem_allocate_buffer sz bm pool = Some (p, bm', pool') \<and> bootmem_ok bm' \<and> heap_room n pool'
    \<and> (if \<exists>x. free_run (buffer_bytes sz) bm x
       then free_run (buffer_bytes sz) bm (unat p) \<and> (\<forall>x. free_run (buffer_bytes sz) bm x \<longrightarrow> x \<le> unat p)
         \<and> 4096 dvd unat p
         \<and> (\<forall>a. tag_at bm' a = (if unat p \<le> unat a \<and> unat a < unat p + buffer_bytes sz then Some LB_MEM_UNUSABLE else tag_at bm a))
       else p = 0 \<and> bm' = bm \<and> pool' = pool)"
proof -
  have wf: "wf_ranges bm" and pt: "page_tags bm" and tp: "tag_at bm (-1) = None"
    using ok by (auto simp: bootmem_ok_def)
  define m where "m = buffer_bytes sz"
  define z :: u64 where "z = ucast (ALIGN_UP sz 4096)"
  have z: "unat z = m" "0 < m" "m < 2 ^ 32" "4096 dvd m" unfolding z_def m_def by (rule buffer_bytes_word [OF sz])+
  have code: "bootmem_allocate_buffer sz bm pool = (case (if filter (buffer_fits z) bm = [] then None else Some (last (filter (buffer_fits z) bm))) of
      None \<Rightarrow> Some (0, bm, pool)
    | Some region \<Rightarrow> Option.bind (bootmem_add_range (end_below_4G region - z) z LB_MEM_UNUSABLE bm pool)
        (\<lambda>(bm, pool). Some (ucast (end_below_4G region - z), bm, pool)))"
    unfolding bootmem_allocate_buffer_def Let_def z_def [symmetric] fold_last ..
  show ?thesis
  proof (cases "filter (buffer_fits z) bm = []")
    case True
    then show ?thesis using buffer_choice_none [OF ok z True] code ok heap_room_mono [OF room, of n] unfolding m_def [symmetric] by simp
  next
    case False
    define b where "b = end_below_4G (last (filter (buffer_fits z) bm)) - z"
    have b: "free_run m bm (unat b)" "\<And>x. free_run m bm x \<Longrightarrow> x \<le> unat b" "4096 dvd unat b" "unat b + m \<le> 2 ^ 32"
      unfolding b_def using buffer_choice_highest [OF ok z False] by blast+
    have p: "unat (ucast b :: u32) = unat b" using b(4) z(2) by (simp add: unat_ucast_mod)
    have reg: "region_ok b z" using z b(4) by (auto simp: region_ok_def word_less_nat_alt)
    obtain bm' pool' where add: "bootmem_add_range b z LB_MEM_UNUSABLE bm pool = Some (bm', pool')" and room': "heap_room n pool'"
      using bootmem_add_range_room [OF room] by blast
    note s = bootmem_add_range_spec [OF add wf pt reg]
    have tag: "\<forall>a. tag_at bm' a = (if unat b \<le> unat a \<and> unat a < unat b + m then Some LB_MEM_UNUSABLE else tag_at bm a)"
      using s page_covers [OF b(3), of z] z by simp
    have "unat (-1 :: u64) = 2 ^ 64 - 1" by (simp add: unsigned_minus_1_eq_mask mask_eq_exp_minus_1)
    then have ok': "bootmem_ok bm'" using s spec [OF tag, of "-1"] tp b(4) by (simp add: bootmem_ok_def)
    have ex: "(\<exists>x. free_run m bm x) = True" using b(1) by blast
    have "bootmem_allocate_buffer sz bm pool = Some (ucast b, bm', pool')"
      using code False add unfolding b_def by simp
    then show ?thesis using ok' b(1-3) tag room' unfolding m_def [symmetric] p [symmetric]
      by (intro exI [of _ "ucast b"] exI [of _ bm'] exI [of _ pool']) (simp only: ex if_True, blast)
  qed
qed

text \<open>
  C20.  \<^verbatim>\<open>bootmem_allocate_buffer\<close> on a map between calls returns, for any size up to 4 GiB less a page,
  the highest run of free RAM below 4 GiB that has the size rounded up to pages: it is aligned to a
  page, was all RAM, is all marked unusable afterwards, and no other address changes.  When there is
  no such run it returns NULL and nothing changes.
\<close>

theorem bootmem_allocate_highest:
  assumes ok: "bootmem_ok bm" and room: "heap_room 2 pool" and sz: "0 < sz" "unat sz \<le> 2 ^ 32 - 4096"
  shows "\<exists>p bm' pool'. bootmem_allocate_buffer sz bm pool = Some (p, bm', pool') \<and> bootmem_ok bm'
    \<and> (if \<exists>x. free_run (buffer_bytes sz) bm x
       then free_run (buffer_bytes sz) bm (unat p) \<and> (\<forall>x. free_run (buffer_bytes sz) bm x \<longrightarrow> x \<le> unat p)
         \<and> 4096 dvd unat p
         \<and> (\<forall>a. tag_at bm' a = (if unat p \<le> unat a \<and> unat a < unat p + buffer_bytes sz then Some LB_MEM_UNUSABLE else tag_at bm a))
       else p = 0 \<and> bm' = bm \<and> pool' = pool)"
proof -
  have "heap_room (0 + 2) pool" using room by (simp only: add_0)
  from bootmem_allocate_spec [OF ok this sz] show ?thesis by (elim exE conjE) (intro exI conjI)
qed

text \<open>A map with 16 MiB of RAM.\<close>

lemma example_bootmem:
  "\<exists>bm pool. bootmem_add_range 0 0x1000000 LB_MEM_RAM [] example_pool = Some (bm, pool) \<and> bootmem_ok bm
    \<and> (\<forall>a. tag_at bm a = (if a < 0x1000000 then Some LB_MEM_RAM else None)) \<and> heap_room 3 pool"
proof -
  obtain bm pool where run: "bootmem_add_range 0 0x1000000 LB_MEM_RAM [] example_pool = Some (bm, pool)" and hp: "heap_room 3 pool"
    by (simp add: bootmem_add_range_def memranges_insert_def do_action_def merge_add_memranges_def ALIGN_DOWN_def new_entry_def
        alloc_range_def example_pool_def sizeof_range_entry_def malloc_def memalign_def ALIGN_UP_def ALIGN_MASK_def Let_def heap_room_def)
  have "page_tags []" "region_ok 0 0x1000000" by (simp_all add: page_tags_def region_ok_def)
  note s = bootmem_add_range_spec [OF run _ this]
  have "covers 0 0x1000000 a \<longleftrightarrow> a < 0x1000000" for a
    using page_covers [of 0 "0x1000000" a] by (simp add: word_less_nat_alt)
  then have t: "\<forall>a. tag_at bm a = (if a < 0x1000000 then Some LB_MEM_RAM else None)" using s by simp
  then show ?thesis using run hp s by (intro exI [of _ bm] exI [of _ pool]) (simp add: bootmem_ok_def)
qed

lemma bootmem_allocate_highest_witness:
  "\<exists>bm pool p bm' pool'. bootmem_allocate_buffer 0x12345 bm pool = Some (p, bm', pool') \<and> p = 0xfed000
    \<and> tag_at bm' 0xfed000 = Some LB_MEM_UNUSABLE \<and> tag_at bm' 0xfecfff = Some LB_MEM_RAM"
proof -
  obtain bm pool where bm: "bootmem_ok bm" "\<forall>a. tag_at bm a = (if a < 0x1000000 then Some LB_MEM_RAM else None)" "heap_room 3 pool"
    using example_bootmem by blast
  have n: "buffer_bytes 0x12345 = 0x13000" by (simp add: buffer_bytes_def)
  have "heap_room 2 pool" using bm(3) by (rule heap_room_mono) simp
  from bootmem_allocate_highest [OF bm(1) this, of "0x12345"]
  obtain p bm' pool' where r: "bootmem_allocate_buffer 0x12345 bm pool = Some (p, bm', pool')"
    and h: "if \<exists>x. free_run 0x13000 bm x
       then free_run 0x13000 bm (unat p) \<and> (\<forall>x. free_run 0x13000 bm x \<longrightarrow> x \<le> unat p) \<and> 4096 dvd unat p
         \<and> (\<forall>a. tag_at bm' a = (if unat p \<le> unat a \<and> unat a < unat p + 0x13000 then Some LB_MEM_UNUSABLE else tag_at bm a))
       else p = 0 \<and> bm' = bm \<and> pool' = pool"
    unfolding n by auto
  have f: "free_run 0x13000 bm 0xfed000" using bm(2) by (auto simp: free_run_def word_less_nat_alt)
  have "\<not> free_run 0x13000 bm x" if x: "0xfed000 < x" for x
  proof
    assume f: "free_run 0x13000 bm x"
    then have l: "x + 0x13000 \<le> 2 ^ 32" by (simp add: free_run_def)
    define m where "m = x + 0x12fff"
    have u: "unat (word_of_nat m :: u64) = m" using l by (simp add: m_def unsigned_of_nat take_bit_nat_eq_self del: of_nat_add)
    have "tag_at bm (word_of_nat m) = Some LB_MEM_RAM" using f u by (simp add: free_run_def m_def del: of_nat_add)
    moreover have "\<not> (word_of_nat m :: u64) < 0x1000000" using u x by (simp add: word_less_nat_alt m_def del: of_nat_add)
    ultimately show False using bm(2) by simp
  qed
  with h f have p: "unat p = 0xfed000" by (metis le_antisym not_le)
  then have "p = 0xfed000" by (simp add: word_unat_eq_iff)
  moreover have "\<forall>a. tag_at bm' a = (if unat p \<le> unat a \<and> unat a < unat p + 0x13000 then Some LB_MEM_UNUSABLE else tag_at bm a)"
    using h f by meson
  then have "tag_at bm' 0xfed000 = Some LB_MEM_UNUSABLE \<and> tag_at bm' 0xfecfff = Some LB_MEM_RAM"
    using p bm(2) by simp
  ultimately show ?thesis using r by blast
qed

section \<open>What the payload reads\<close>

lemma unpack_pack [simp]: "unpack_lb64 (pack_lb64 v) = v"
proof -
  have m: "(0xffffffff :: u64) = mask 32" by (simp add: mask_eq_exp_minus_1)
  have and_m: "unat (x AND 0xffffffff) = unat x mod 2 ^ 32" for x :: u64
    by (simp only: m take_bit_eq_mask [symmetric] unsigned_take_bit_eq) (simp add: take_bit_eq_mod)
  have l: "unat (ucast (lb_lo (pack_lb64 v)) :: u64) = unat v mod 2 ^ 32"
    using and_m [of v] by (simp add: pack_lb64_def unat_ucast_mod)
  have "unat v div 2 ^ 32 < 2 ^ 32" using unat_less_exp [of v] by (simp add: less_mult_imp_div_less)
  moreover have "unat (drop_bit 32 v) = unat v div 2 ^ 32" by (simp add: drop_bit_eq_div unat_div)
  ultimately have h: "unat (ucast (lb_hi (pack_lb64 v)) :: u64) = unat v div 2 ^ 32"
    using and_m [of "drop_bit 32 v"] by (simp add: pack_lb64_def unat_ucast_mod del: drop_bit_of_1)
  have "unat (push_bit 32 (ucast (lb_hi (pack_lb64 v))) :: u64) = unat v div 2 ^ 32 * 2 ^ 32"
    using h \<open>unat v div 2 ^ 32 < 2 ^ 32\<close> by (simp add: push_bit_eq_mult unat_mult_lem [THEN iffD1] mult.commute)
  then have "unat (unpack_lb64 (pack_lb64 v)) = unat v"
    using l unat_less_exp [of v] unfolding unpack_lb64_def by (subst unat_add_no_wrap) simp_all
  then show ?thesis by (simp add: word_unat_eq_iff)
qed

definition MEM_RANGE_COUNT :: "lb_memory \<Rightarrow> nat" where
  "MEM_RANGE_COUNT rec = unat ((lm_size rec - 8) div 20)"

text \<open>The type the table gives an address.\<close>

definition table_tag :: "lb_memory \<Rightarrow> u64 \<Rightarrow> u32 option" where
  "table_tag rec a =
     map_option (\<lambda>i. lb_type (lm_map rec i))
       (find (\<lambda>i. unat (unpack_lb64 (lb_start (lm_map rec i))) \<le> unat a
          \<and> unat a < unat (unpack_lb64 (lb_start (lm_map rec i))) + unat (unpack_lb64 (lb_size (lm_map rec i))))
          [0..<MEM_RANGE_COUNT rec])"

lemma write_ranges_map:
  "lm_map (write_ranges rs k mem) i = (if k \<le> i \<and> i < k + length rs then lb_entry (rs ! (i - k)) else lm_map mem i)"
proof (induction rs arbitrary: k mem)
  case (Cons r rs)
  then show ?case by (cases "i = k") (auto simp: Suc_diff_le nth_Cons' le_Suc_eq)
qed auto

lemma write_ranges_size: "lm_size (write_ranges rs k mem) = lm_size mem + 20 * of_nat (length rs)"
  by (induction rs arbitrary: k mem) (auto simp: algebra_simps)

lemma write_ranges_count:
  assumes "lm_size mem = 8" "length rs < 2 ^ 27"
  shows "MEM_RANGE_COUNT (write_ranges rs k mem) = length rs"
proof -
  have "unat (20 * of_nat (length rs) :: u32) = 20 * length rs"
    using assms(2) by (simp add: unat_mult_lem [THEN iffD1] unsigned_of_nat take_bit_nat_eq_self)
  then show ?thesis using assms(1) by (simp add: MEM_RANGE_COUNT_def write_ranges_size unat_div)
qed

lemma lb_entry_covers:
  assumes "re_begin r \<le> re_end r" "re_end r \<noteq> -1"
  shows "unat (range_entry_base r) \<le> unat a \<and> unat a < unat (range_entry_base r) + unat (range_entry_size r)
    \<longleftrightarrow> re_begin r \<le> a \<and> a \<le> re_end r"
  using assms range_size_unat [OF assms] by (auto simp: word_le_nat_alt range_entry_base_def)

lemma tag_at_find: "tag_at rs a = map_option re_tag (find (\<lambda>r. re_begin r \<le> a \<and> a \<le> re_end r) rs)"
  by (induction rs) auto

lemma find_index_map: "map_option (\<lambda>i. f (xs ! i)) (find (\<lambda>i. P (xs ! i)) [0..<length xs]) = map_option f (find P xs)"
proof (cases "\<exists>x \<in> set xs. P x")
  case True
  then obtain ys x zs where "xs = ys @ x # zs" "P x" "\<forall>y \<in> set ys. \<not> P y"
    by (metis split_list_first_prop)
  moreover from this have "find P xs = Some x" by (induction ys arbitrary: xs) auto
  ultimately show ?thesis using find_index_split [of xs ys x zs P] by simp
next
  case False
  then show ?thesis using find_index_none [of xs P] by (simp add: find_None_iff [THEN iffD2])
qed

text \<open>
  The payload reads back exactly the memory map: the entries of the table that
  \<^verbatim>\<open>bootmem_write_memory_table\<close> writes are as many as its size field counts, and decoding the split
  64-bit numbers gives every address the type the map has for it, if any.
\<close>

lemma memory_table_roundtrip:
  assumes "bootmem_ok bm" and "length bm < 2 ^ 27" and "lm_size mem = 8"
  shows "MEM_RANGE_COUNT (bootmem_write_memory_table bm mem) = length bm
    \<and> table_tag (bootmem_write_memory_table bm mem) a = tag_at bm a"
proof -
  let ?rec = "bootmem_write_memory_table bm mem"
  have c: "MEM_RANGE_COUNT ?rec = length bm"
    using write_ranges_count [OF assms(3,2)] by (simp add: bootmem_write_memory_table_def)
  have e: "lm_map ?rec i = lb_entry (bm ! i)" if "i < length bm" for i
    using that by (simp add: bootmem_write_memory_table_def write_ranges_map)
  let ?P = "\<lambda>r. re_begin r \<le> a \<and> a \<le> re_end r"
  have wf: "wf_ranges bm" using assms(1) by (simp add: bootmem_ok_def)
  have P: "unat (unpack_lb64 (lb_start (lm_map ?rec i))) \<le> unat a
      \<and> unat a < unat (unpack_lb64 (lb_start (lm_map ?rec i))) + unat (unpack_lb64 (lb_size (lm_map ?rec i)))
    \<longleftrightarrow> ?P (bm ! i)" if "i < length bm" for i
    using that e [OF that] lb_entry_covers [of "bm ! i" a] wf_ranges_member [OF wf, of "bm ! i"] bootmem_ok_top [OF assms(1)]
    by (simp add: lb_entry_def top_free_def)
  have "table_tag ?rec a = map_option (\<lambda>i. lb_type (lm_map ?rec i)) (find (\<lambda>i. ?P (bm ! i)) [0..<length bm])"
    unfolding table_tag_def c using P by (intro arg_cong [where f = "map_option _"] find_cong) auto
  also have "\<dots> = map_option (\<lambda>i. re_tag (bm ! i)) (find (\<lambda>i. ?P (bm ! i)) [0..<length bm])"
    using e by (intro map_option_cong refl) (auto simp: find_Some_iff lb_entry_def)
  also have "\<dots> = tag_at bm a"
    using find_index_map [of re_tag bm ?P] by (simp only: tag_at_find)
  finally show ?thesis using c by simp
qed

definition example_bm :: memranges where
  "example_bm = [\<lparr>re_begin = 0, re_end = 0xffffff, re_tag = LB_MEM_RAM\<rparr>]"

lemma example_bm_ok: "bootmem_ok example_bm"
proof -
  have "a \<le> 0xffffff \<longleftrightarrow> unat a div 4096 < 0x1000" for a :: u64
    by (simp add: word_le_nat_alt div_less_iff_less_mult, linarith)
  then show ?thesis by (simp add: bootmem_ok_def example_bm_def page_tags_def unsigned_minus_1_eq_mask mask_eq_exp_minus_1)
qed

lemma memory_table_roundtrip_witness:
  "table_tag (bootmem_write_memory_table example_bm \<lparr>lm_tag = 1, lm_size = 8, lm_map = \<lambda>_. lb_entry \<lparr>re_begin = 0, re_end = 0, re_tag = 0\<rparr>\<rparr>) 0xfff
     = Some LB_MEM_RAM"
  using memory_table_roundtrip [OF example_bm_ok, where a = "0xfff" and
    mem = "\<lparr>lm_tag = 1, lm_size = 8, lm_map = \<lambda>_. lb_entry \<lparr>re_begin = 0, re_end = 0, re_tag = 0\<rparr>\<rparr>"]
  by (simp add: example_bm_def)

section \<open>Where a segment may go\<close>

lemma targets_ram_entry:
  "wf_ranges rs \<Longrightarrow> start \<le> l \<Longrightarrow> (\<forall>r \<in> set rs. re_end r \<noteq> -1) \<Longrightarrow> l < -1 \<Longrightarrow>
    targets_ram start (l + 1) rs \<longleftrightarrow> (\<exists>r \<in> set rs. re_tag r = LB_MEM_RAM \<and> re_begin r \<le> start \<and> l \<le> re_end r)"
proof (induction rs)
  case (Cons r rs)
  have e: "l + 1 \<le> range_entry_end r \<longleftrightarrow> l \<le> re_end r"
    using Cons.prems(3,4) range_end_unat [of r] unat_plus_one [of l "-1"] by (simp add: word_le_nat_alt)
  show ?case
  proof (cases "l + 1 \<le> range_entry_base r")
    case True
    then have "l < re_begin r" using Cons.prems(4) unat_plus_one [of l "-1"]
      by (simp add: range_entry_base_def word_le_nat_alt word_less_nat_alt)
    then have "\<forall>q \<in> set (r # rs). l < re_begin q"
      using Cons.prems(1) by (auto simp: all_above_def)
    then have "\<not> (\<exists>q \<in> set (r # rs). re_begin q \<le> start)" using Cons.prems(2) by (meson leD le_less_trans)
    then show ?thesis using True by auto
  next
    case False
    then show ?thesis using Cons e by (auto simp: range_entry_base_def)
  qed
qed simp

text \<open>On a map between calls the code's test holds exactly when every byte of the region is RAM.\<close>

lemma targets_usable_ram_iff:
  assumes "bootmem_ok bm" "0 < sz" "unat start + unat sz < 2 ^ 64"
  shows "bootmem_region_targets_usable_ram start sz bm
    \<longleftrightarrow> (\<forall>a. unat start \<le> unat a \<and> unat a < unat start + unat sz \<longrightarrow> tag_at bm a = Some LB_MEM_RAM)"
proof -
  let ?l = "start + sz - 1"
  have "0 < unat sz" using assms(2) by (simp add: word_less_nat_alt)
  then have s: "unat (start + sz) = unat start + unat sz" "0 < start + sz"
    using unat_add_no_wrap [of start sz] assms(3) by (auto simp: word_less_nat_alt)
  then have l: "unat ?l = unat start + unat sz - 1" by (simp add: unat_minus_one_pos)
  have "unat ?l < unat (-1 :: u64)" using l assms(3) \<open>0 < unat sz\<close> by (simp add: unsigned_minus_1_eq_mask mask_eq_exp_minus_1)
  then have lt: "?l < -1" by (simp add: word_less_nat_alt)
  have le: "start \<le> ?l" using l \<open>0 < unat sz\<close> by (simp add: word_le_nat_alt)
  have "(start \<le> a \<and> a \<le> ?l) \<longleftrightarrow> (unat start \<le> unat a \<and> unat a < unat start + unat sz)" for a
    using l \<open>0 < unat sz\<close> by (auto simp: word_le_nat_alt)
  then show ?thesis
    using targets_ram_entry [OF _ le _ lt, of bm] tagged_run [OF _ _ le, of bm LB_MEM_RAM] bootmem_ok_top [OF assms(1)] assms(1)
    by (simp add: bootmem_region_targets_usable_ram_def top_free_def bootmem_ok_def)
qed

text \<open>A range of no bytes at a page boundary is taken for the whole address space.\<close>

lemma add_empty_range_covers_all:
  "bootmem_add_range 0 0 type [] example_pool = Some (bm, pool) \<Longrightarrow> tag_at bm a = Some type"
  by (auto simp: bootmem_add_range_def memranges_insert_def do_action_def merge_add_memranges_def ALIGN_DOWN_def new_entry_def
        alloc_range_def example_pool_def sizeof_range_entry_def malloc_def memalign_def ALIGN_UP_def ALIGN_MASK_def Let_def)

section \<open>The map at the start\<close>

lemma last_tag_const: "(\<forall>(b, s, t) \<in> set regions. t = tag) \<Longrightarrow>
    last_tag regions a t0 = (if \<exists>(b, s, t) \<in> set regions. covers b s a then Some tag else t0)"
  by (induction regions arbitrary: t0) auto

lemma regions_of_tag: "\<forall>(b, s, t) \<in> set (regions_of tr m mt tag flt). t = tag"
  by (auto simp: regions_of_def)

definition in_regions :: "(resource_t \<times> resource_t \<times> u32) list \<Rightarrow> u64 \<Rightarrow> bool" where
  "in_regions regions a \<longleftrightarrow> (\<exists>(b, s, t) \<in> set regions. covers b s a)"

lemma in_regions_page: "unat a div 4096 = unat b div 4096 \<Longrightarrow> in_regions rs a = in_regions rs b"
  using covers_page [of a b] by (simp add: in_regions_def)

lemma page_tags_in_regions:
  assumes "page_tags rs" "\<And>a. tag_at rs' a = (if in_regions regions a then t else tag_at rs a)"
  shows "page_tags rs'"
  unfolding page_tags_def
proof (intro allI impI)
  fix a b :: u64 assume e: "unat a div 4096 = unat b div 4096"
  then have "tag_at rs a = tag_at rs b" using assms(1) unfolding page_tags_def by blast
  then show "tag_at rs' a = tag_at rs' b" unfolding assms(2) in_regions_page [OF e, of regions] by simp
qed

lemma bootmem_init_tags:
  assumes run: "bootmem_init t c pool = Some (bm, pool')"
    and ok: "regions_ok (regions_of t IORESOURCE_CACHEABLE IORESOURCE_CACHEABLE LB_MEM_RAM None)"
      "regions_ok (regions_of t IORESOURCE_RESERVE IORESOURCE_RESERVE LB_MEM_RESERVED None)"
      "region_ok (cbmem_base c) (cbmem_size c)"
  shows "wf_ranges bm \<and> merged bm \<and> page_tags bm
    \<and> (\<forall>a. tag_at bm a = (if covers (cbmem_base c) (cbmem_size c) a then Some LB_MEM_TABLE
         else if in_regions (regions_of t IORESOURCE_RESERVE IORESOURCE_RESERVE LB_MEM_RESERVED None) a then Some LB_MEM_RESERVED
         else if in_regions (regions_of t IORESOURCE_CACHEABLE IORESOURCE_CACHEABLE LB_MEM_RAM None) a then Some LB_MEM_RAM
         else None))"
proof -
  let ?ram = "regions_of t IORESOURCE_CACHEABLE IORESOURCE_CACHEABLE LB_MEM_RAM None"
  let ?res = "regions_of t IORESOURCE_RESERVE IORESOURCE_RESERVE LB_MEM_RESERVED None"
  obtain b1 p1 b2 p2 where
    r1: "memranges_add_resources_filter t IORESOURCE_CACHEABLE IORESOURCE_CACHEABLE LB_MEM_RAM None [] pool = Some (b1, p1)"
    and r2: "memranges_add_resources_filter t IORESOURCE_RESERVE IORESOURCE_RESERVE LB_MEM_RESERVED None b1 p1 = Some (b2, p2)"
    and r3: "bootmem_add_range (cbmem_base c) (cbmem_size c) LB_MEM_TABLE b2 p2 = Some (bm, pool')"
    using run by (auto simp: bootmem_init_def memranges_init_def memranges_add_resources_def cbmem_add_bootmem_def)
  have t1: "wf_ranges b1 \<and> tag_at b1 a = (if in_regions ?ram a then Some LB_MEM_RAM else None)" for a
    using mr.insert_all [of ?ram "([], pool)" "(b1, p1)" a] r1 ok(1) last_tag_const [OF regions_of_tag]
    by (simp add: add_resources_fold in_regions_def)
  have t2: "wf_ranges b2 \<and> tag_at b2 a = (if in_regions ?res a then Some LB_MEM_RESERVED else tag_at b1 a)" for a
    using mr.insert_all [of ?res "(b1, p1)" "(b2, p2)" a] r2 ok(2) last_tag_const [OF regions_of_tag] t1
    by (simp add: add_resources_fold in_regions_def)
  have "page_tags b1"
    by (rule page_tags_in_regions [of "[]" _ ?ram "Some LB_MEM_RAM"]) (use t1 in \<open>simp_all add: page_tags_def\<close>)
  then have "page_tags b2"
    by (rule page_tags_in_regions [of b1 _ ?res "Some LB_MEM_RESERVED"]) (use t2 in simp)
  from bootmem_add_range_spec [OF r3 _ this ok(3)] t1 t2 show ?thesis by simp
qed

end
