(* ===== verification/Selfboot.thy ===== *)
theory Selfboot
  imports Bootmem "HOL-Library.Multiset"
begin

text \<open>
  The payload loader, \<^verbatim>\<open>src/lib/selfboot.c\<close>, and the copy that \<^verbatim>\<open>src/arch/x86/boot/boot.c\<close> makes before it
  jumps.  The payload's table of segments becomes a list of segments (\<^verbatim>\<open>struct segment\<close>, whose links
  are the order of the list); segments that lie on the running coreboot go to a bounce buffer.
  Memory is a map from 32-bit addresses to bytes.  The payload is read from flash, which the loader
  never writes: \<open>rom\<close> in the environment, with \<open>ulzma\<close>, the LZMA decoder: for the address of a stream the
  length it returns and the bytes it writes.  \<open>None\<close> is the machine stopping in \<^verbatim>\<open>malloc\<close> or a loop
  that does not end.
\<close>

section \<open>The payload in flash\<close>

record cbfs_payload_segment =
  cps_type :: u32
  cps_compression :: u32
  cps_offset :: u32
  cps_load_addr :: u64
  cps_len :: u32
  cps_mem_len :: u32

abbreviation PAYLOAD_SEGMENT_CODE :: u32 where "PAYLOAD_SEGMENT_CODE \<equiv> 0x45444F43"
abbreviation PAYLOAD_SEGMENT_DATA :: u32 where "PAYLOAD_SEGMENT_DATA \<equiv> 0x41544144"
abbreviation PAYLOAD_SEGMENT_BSS :: u32 where "PAYLOAD_SEGMENT_BSS \<equiv> 0x20535342"
abbreviation PAYLOAD_SEGMENT_PARAMS :: u32 where "PAYLOAD_SEGMENT_PARAMS \<equiv> 0x41524150"
abbreviation PAYLOAD_SEGMENT_ENTRY :: u32 where "PAYLOAD_SEGMENT_ENTRY \<equiv> 0x52544E45"
abbreviation CBFS_COMPRESS_NONE :: u32 where "CBFS_COMPRESS_NONE \<equiv> 0"
abbreviation CBFS_COMPRESS_LZMA :: u32 where "CBFS_COMPRESS_LZMA \<equiv> 1"

text \<open>Numbers in the table are big-endian; the type is compared as it is stored.\<close>

definition swab32 :: "u32 \<Rightarrow> u32" where
  "swab32 x = push_bit 24 (x AND 0x000000ff) OR push_bit 8 (x AND 0x0000ff00)
     OR drop_bit 8 (x AND 0x00ff0000) OR drop_bit 24 (x AND 0xff000000)"

definition swab64 :: "u64 \<Rightarrow> u64" where
  "swab64 x = push_bit 56 (x AND 0x00000000000000ff) OR push_bit 40 (x AND 0x000000000000ff00)
     OR push_bit 24 (x AND 0x0000000000ff0000) OR push_bit 8 (x AND 0x00000000ff000000)
     OR drop_bit 8 (x AND 0x000000ff00000000) OR drop_bit 24 (x AND 0x0000ff0000000000)
     OR drop_bit 40 (x AND 0x00ff000000000000) OR drop_bit 56 (x AND 0xff00000000000000)"

abbreviation ntohl :: "u32 \<Rightarrow> u32" where "ntohl \<equiv> swab32"
abbreviation ntohll :: "u64 \<Rightarrow> u64" where "ntohll \<equiv> swab64"

text \<open>\<^verbatim>\<open>struct payload\<close>: where its table is and what the table holds, the bounce buffer and the entry.\<close>

record payload =
  pl_data :: u32
  pl_segments :: "nat \<Rightarrow> cbfs_payload_segment"
  pl_bounce_data :: u32
  pl_bounce_size :: u32
  pl_entry :: u32

type_synonym memory = "u32 \<Rightarrow> u8"

record segment =
  s_dstaddr :: u32
  s_srcaddr :: u32
  s_memsz :: u32
  s_filesz :: u32
  s_compression :: u32

text \<open>
  \<open>fresh_compression\<close> is what the field \<^verbatim>\<open>compression\<close> holds in memory new from \<^verbatim>\<open>malloc\<close>; the code
  leaves it so for BSS segments.  \<open>relocatable_ramstage\<close> is \<^verbatim>\<open>CONFIG_RELOCATABLE_RAMSTAGE\<close>, not set on the board.
\<close>

record selfboot_env =
  lb_start :: u32
  lb_end :: u32
  rom :: memory
  ulzma :: "u32 \<Rightarrow> u32 \<times> u8 list"
  fresh_compression :: "u32 \<Rightarrow> u32"
  relocatable_ramstage :: bool

record self_state =
  self_mem :: memory
  self_bm :: memranges
  self_pool :: range_pool

definition alloc_segment :: "range_pool \<Rightarrow> (u32 \<times> range_pool) option" where
  "alloc_segment pool =
     (case malloc 28 (range_heap pool) of None \<Rightarrow> None | Some (p, h) \<Rightarrow> Some (p, pool\<lparr>range_heap := h\<rparr>))"

section \<open>The list of segments\<close>

text \<open>The loop compares the new segment with the next entry of the table, not with \<open>ptr\<close>.\<close>

fun place_segment :: "segment \<Rightarrow> u64 \<Rightarrow> segment list \<Rightarrow> segment list" where
  "place_segment new next_load [] = [new]"
| "place_segment new next_load (ptr # ptrs) =
     (if ucast (s_srcaddr new) < next_load then new # ptr # ptrs else ptr # place_segment new next_load ptrs)"

definition file_segment :: "payload \<Rightarrow> cbfs_payload_segment \<Rightarrow> segment" where
  "file_segment pl seg =
     (let new = \<lparr>s_dstaddr = ucast (ntohll (cps_load_addr seg)), s_srcaddr = pl_data pl + ntohl (cps_offset seg),
                 s_memsz = ntohl (cps_mem_len seg), s_filesz = ntohl (cps_len seg),
                 s_compression = ntohl (cps_compression seg)\<rparr>
      in if s_memsz new < s_filesz new then new\<lparr>s_filesz := s_memsz new\<rparr> else new)"

definition bss_segment :: "selfboot_env \<Rightarrow> payload \<Rightarrow> u32 \<Rightarrow> cbfs_payload_segment \<Rightarrow> segment" where
  "bss_segment env pl p seg =
     \<lparr>s_dstaddr = ucast (ntohll (cps_load_addr seg)), s_srcaddr = pl_data pl + ntohl (cps_offset seg),
      s_memsz = ntohl (cps_mem_len seg), s_filesz = 0, s_compression = fresh_compression env p\<rparr>"

partial_function (option) build_loop ::
  "selfboot_env \<Rightarrow> payload \<Rightarrow> nat \<Rightarrow> segment list \<Rightarrow> u32 \<Rightarrow> range_pool \<Rightarrow> (int \<times> segment list \<times> u32 \<times> range_pool) option" where
  [code]: "build_loop env pl i head entry pool =
     (let seg = pl_segments pl i; next_load = ntohll (cps_load_addr (pl_segments pl (i + 1))) in
      if cps_type seg = PAYLOAD_SEGMENT_PARAMS then build_loop env pl (i + 1) head entry pool
      else if cps_type seg = PAYLOAD_SEGMENT_CODE \<or> cps_type seg = PAYLOAD_SEGMENT_DATA then
        (case alloc_segment pool of None \<Rightarrow> None
         | Some (p, pool) \<Rightarrow> build_loop env pl (i + 1) (place_segment (file_segment pl seg) next_load head) entry pool)
      else if cps_type seg = PAYLOAD_SEGMENT_BSS then
        (case alloc_segment pool of None \<Rightarrow> None
         | Some (p, pool) \<Rightarrow> build_loop env pl (i + 1) (place_segment (bss_segment env pl p seg) next_load head) entry pool)
      else if cps_type seg = PAYLOAD_SEGMENT_ENTRY then Some (1, head, ucast (ntohll (cps_load_addr seg)), pool)
      else Some (-1, head, entry, pool))"

definition build_self_segment_list ::
  "selfboot_env \<Rightarrow> payload \<Rightarrow> u32 \<Rightarrow> range_pool \<Rightarrow> (int \<times> segment list \<times> u32 \<times> range_pool) option" where
  "build_self_segment_list env pl entry pool = build_loop env pl 0 [] entry pool"

section \<open>Segments on the running coreboot\<close>

definition overlaps_coreboot :: "selfboot_env \<Rightarrow> segment \<Rightarrow> bool" where
  "overlaps_coreboot env seg =
     (let start = s_dstaddr seg; e = start + s_memsz seg in \<not> (e \<le> lb_start env \<or> lb_end env \<le> start))"

text \<open>The piece before coreboot and what remains; the piece behind coreboot and what remains.\<close>

definition slice_early :: "u32 \<Rightarrow> segment \<Rightarrow> segment \<times> segment" where
  "slice_early len seg =
     (let new = seg\<lparr>s_memsz := len\<rparr>;
          rest = seg\<lparr>s_memsz := s_memsz seg - len, s_dstaddr := s_dstaddr seg + len, s_srcaddr := s_srcaddr seg + len\<rparr>
      in if len < s_filesz seg then (new\<lparr>s_filesz := len\<rparr>, rest\<lparr>s_filesz := s_filesz seg - len\<rparr>)
         else (new, rest\<lparr>s_filesz := 0\<rparr>))"

definition slice_late :: "u32 \<Rightarrow> segment \<Rightarrow> segment \<times> segment" where
  "slice_late len seg =
     (let rest = seg\<lparr>s_memsz := len\<rparr>;
          new = seg\<lparr>s_memsz := s_memsz seg - len, s_dstaddr := s_dstaddr seg + len, s_srcaddr := s_srcaddr seg + len\<rparr>
      in if len < s_filesz seg then (new\<lparr>s_filesz := s_filesz seg - len\<rparr>, rest\<lparr>s_filesz := len\<rparr>)
         else (new\<lparr>s_filesz := 0\<rparr>, rest))"

text \<open>The result: the segment inserted before, if any (the code returns 1), the segment, the one inserted after.\<close>

definition relocate_segment ::
  "selfboot_env \<Rightarrow> u32 \<Rightarrow> segment \<Rightarrow> range_pool \<Rightarrow> (segment option \<times> segment \<times> segment option \<times> range_pool) option" where
  "relocate_segment env buffer seg pool =
     (if \<not> overlaps_coreboot env seg then Some (None, seg, None, pool)
      else
        let e = s_dstaddr seg + s_memsz seg in
        do {
          (before, seg, pool) \<leftarrow>
            (if s_compression seg = CBFS_COMPRESS_NONE \<and> s_dstaddr seg < lb_start env then do {
               (p, pool) \<leftarrow> alloc_segment pool;
               let (new, seg) = slice_early (lb_start env - s_dstaddr seg) seg;
               Some (Some new, seg, pool)
             } else Some (None, seg, pool));
          (after, seg, pool) \<leftarrow>
            (if s_compression seg = CBFS_COMPRESS_NONE \<and> lb_end env < e then do {
               (p, pool) \<leftarrow> alloc_segment pool;
               let (new, seg) = slice_late (lb_end env - s_dstaddr seg) seg;
               Some (Some new, seg, pool)
             } else Some (None, seg, pool));
          Some (before, seg\<lparr>s_dstaddr := buffer + (s_dstaddr seg - lb_start env)\<rparr>, after, pool)
        })"

section \<open>Loading\<close>

definition memcpy :: "u32 \<Rightarrow> u32 \<Rightarrow> u32 \<Rightarrow> memory \<Rightarrow> memory" where
  "memcpy dst src n mem = (\<lambda>a. if a - dst < n then mem (src + (a - dst)) else mem a)"

definition memset :: "u32 \<Rightarrow> u8 \<Rightarrow> u32 \<Rightarrow> memory \<Rightarrow> memory" where
  "memset dst c n mem = (\<lambda>a. if a - dst < n then c else mem a)"

definition copy_rom :: "selfboot_env \<Rightarrow> u32 \<Rightarrow> u32 \<Rightarrow> u32 \<Rightarrow> memory \<Rightarrow> memory" where
  "copy_rom env dst src n mem = (\<lambda>a. if a - dst < n then rom env (src + (a - dst)) else mem a)"

definition write_bytes :: "u32 \<Rightarrow> u8 list \<Rightarrow> memory \<Rightarrow> memory" where
  "write_bytes dst bytes mem = (\<lambda>a. if unat (a - dst) < length bytes then bytes ! unat (a - dst) else mem a)"

text \<open>The rest behind the data is cleared, then what sticks out of the bounce buffer's image of coreboot is moved.\<close>

definition finish_segment :: "selfboot_env \<Rightarrow> u32 \<Rightarrow> segment \<Rightarrow> u32 \<Rightarrow> memory \<Rightarrow> memory" where
  "finish_segment env bounce_buffer ptr len mem =
     (let dest = s_dstaddr ptr; e = dest + s_memsz ptr; middle = dest + len; lb_size = lb_end env - lb_start env;
          mem = (if middle < e then memset middle 0 (e - middle) mem else mem)
      in if bounce_buffer < e then
           let mem = (if dest < bounce_buffer
                      then memcpy (lb_start env - (bounce_buffer - dest)) dest (bounce_buffer - dest) mem else mem)
           in if bounce_buffer + lb_size < e
              then memcpy (lb_end env) (bounce_buffer + lb_size) (e - (bounce_buffer + lb_size)) mem else mem
         else mem)"

text \<open>One turn of the loop after relocation; \<open>Inl\<close> is the code's return value.\<close>

definition load_segment :: "selfboot_env \<Rightarrow> u32 \<Rightarrow> segment \<Rightarrow> memory \<Rightarrow> int + memory" where
  "load_segment env bounce_buffer ptr mem =
     (if s_filesz ptr = 0 then Inr mem
      else if s_compression ptr = CBFS_COMPRESS_LZMA then
        (let (len, bytes) = ulzma env (s_srcaddr ptr); mem = write_bytes (s_dstaddr ptr) bytes mem in
         if len = 0 then Inl 0 else Inr (finish_segment env bounce_buffer ptr len mem))
      else if s_compression ptr = CBFS_COMPRESS_NONE then
        Inr (finish_segment env bounce_buffer ptr (s_filesz ptr)
               (copy_rom env (s_dstaddr ptr) (s_srcaddr ptr) (s_filesz ptr) mem))
      else Inl (-1))"

partial_function (option) load_loop ::
  "selfboot_env \<Rightarrow> u32 \<Rightarrow> segment list \<Rightarrow> memory \<Rightarrow> range_pool \<Rightarrow> (int \<times> memory \<times> range_pool) option" where
  [code]: "load_loop env bounce_buffer ptrs mem pool =
     (case ptrs of
        [] \<Rightarrow> Some (1, mem, pool)
      | ptr # rest \<Rightarrow>
          (case relocate_segment env bounce_buffer ptr pool of
             None \<Rightarrow> None
           | Some (before, ptr, after, pool) \<Rightarrow>
               (let rest = (case after of None \<Rightarrow> rest | Some new \<Rightarrow> new # rest) in
                case before of
                  Some new \<Rightarrow> load_loop env bounce_buffer (new # ptr # rest) mem pool
                | None \<Rightarrow>
                    (case load_segment env bounce_buffer ptr mem of
                       Inl ret \<Rightarrow> Some (ret, mem, pool)
                     | Inr mem \<Rightarrow> load_loop env bounce_buffer rest mem pool))))"

definition targets_ok :: "memranges \<Rightarrow> segment \<Rightarrow> bool" where
  "targets_ok bm ptr =
     (bootmem_region_targets_usable_ram (ucast (s_dstaddr ptr)) (ucast (s_memsz ptr)) bm
      \<or> s_dstaddr ptr < 0x100000 \<and> s_dstaddr ptr + s_memsz ptr \<le> 0x100000)"

fun mark_segments ::
  "selfboot_env \<Rightarrow> segment list \<Rightarrow> u32 \<Rightarrow> memranges \<Rightarrow> range_pool \<Rightarrow> (u32 \<times> memranges \<times> range_pool) option" where
  "mark_segments env [] bounce_high bm pool = Some (bounce_high, bm, pool)"
| "mark_segments env (ptr # ptrs) bounce_high bm pool =
     do {
       (bm, pool) \<leftarrow> bootmem_add_range (ucast (s_dstaddr ptr)) (ucast (s_memsz ptr)) LB_MEM_UNUSABLE bm pool;
       mark_segments env ptrs
         (if overlaps_coreboot env ptr \<and> bounce_high < s_dstaddr ptr + s_memsz ptr
          then s_dstaddr ptr + s_memsz ptr else bounce_high) bm pool
     }"

definition get_bounce_buffer ::
  "selfboot_env \<Rightarrow> u32 \<Rightarrow> memranges \<Rightarrow> range_pool \<Rightarrow> (u32 \<times> u32 \<times> memranges \<times> range_pool) option" where
  "get_bounce_buffer env req_size bm pool =
     (if relocatable_ramstage env then Some (NOT 0, 0, bm, pool)
      else do {
       (buffer, bm, pool) \<leftarrow> bootmem_allocate_buffer (req_size + (lb_end env - lb_start env)) bm pool;
       Some (buffer, req_size, bm, pool)
     })"

definition load_self_segments ::
  "selfboot_env \<Rightarrow> segment list \<Rightarrow> payload \<Rightarrow> self_state \<Rightarrow> (int \<times> payload \<times> self_state) option" where
  "load_self_segments env head pl st =
     (if list_ex (\<lambda>ptr. \<not> targets_ok (self_bm st) ptr) head then Some (0, pl, st)
      else do {
        (bounce_high, bm, pool) \<leftarrow> mark_segments env head (lb_end env) (self_bm st) (self_pool st);
        (bounce_buffer, bounce_size, bm, pool) \<leftarrow> get_bounce_buffer env (bounce_high - lb_start env) bm pool;
        let st = st\<lparr>self_bm := bm, self_pool := pool\<rparr>;
        if bounce_buffer = 0 then Some (0, pl, st)
        else do {
          let pl = pl\<lparr>pl_bounce_data := bounce_buffer, pl_bounce_size := bounce_size\<rparr>;
          (ret, mem, pool) \<leftarrow> load_loop env bounce_buffer head (self_mem st) (self_pool st);
          Some (ret, pl, st\<lparr>self_mem := mem, self_pool := pool\<rparr>)
        }
      })"

text \<open>The result is the entry point, 0 for NULL.\<close>

definition selfload :: "selfboot_env \<Rightarrow> payload \<Rightarrow> self_state \<Rightarrow> (u32 \<times> payload \<times> self_state) option" where
  "selfload env pl st =
     do {
       (ret, head, entry, pool) \<leftarrow> build_self_segment_list env pl 0 (self_pool st);
       let st = st\<lparr>self_pool := pool\<rparr>;
       if ret = 0 then Some (0, pl, st)
       else do {
         (ret, pl, st) \<leftarrow> load_self_segments env head pl st;
         if ret = 0 then Some (0, pl, st) else Some (entry, pl, st)
       }
     }"

text \<open>
  Finding the payload: \<open>locate\<close> gives its table for each way to look for it that succeeds.  Before the
  jump the code copies coreboot behind its size in the bounce buffer and the buffer over coreboot, in
  units of four bytes.
\<close>

definition payload_load ::
  "selfboot_env \<Rightarrow> (payload \<Rightarrow> payload option) list \<Rightarrow> payload \<Rightarrow> self_state \<Rightarrow> (payload option \<times> self_state) option" where
  "payload_load env payload_ops pl st =
     (case find (\<lambda>locate. locate pl \<noteq> None) payload_ops of
        None \<Rightarrow> Some (None, st)
      | Some locate \<Rightarrow>
          do {
            (entry, pl, st) \<leftarrow> selfload env (the (locate pl)) st;
            if entry = 0 then Some (None, st) else Some (Some (pl\<lparr>pl_entry := entry\<rparr>), st)
          })"

definition jmp_payload :: "selfboot_env \<Rightarrow> u32 \<Rightarrow> memory \<Rightarrow> memory" where
  "jmp_payload env buffer mem =
     (let lb_size = lb_end env - lb_start env; longs = drop_bit 2 lb_size;
          mem = memcpy (buffer + lb_size) (lb_start env) (4 * longs) mem
      in memcpy (lb_start env) buffer (4 * longs) mem)"

definition arch_payload_run :: "selfboot_env \<Rightarrow> payload \<Rightarrow> memory \<Rightarrow> u32 \<times> memory" where
  "arch_payload_run env pl mem =
     (if relocatable_ramstage env then (pl_entry pl, mem) else (pl_entry pl, jmp_payload env (pl_bounce_data pl) mem))"

section \<open>What one segment writes\<close>

definition seg_begin :: "segment \<Rightarrow> nat" where
  "seg_begin s = unat (s_dstaddr s)"

definition seg_end :: "segment \<Rightarrow> nat" where
  "seg_end s = unat (s_dstaddr s) + unat (s_memsz s)"

text \<open>A segment below the top of the address space whose data fits, in an encoding the loader knows.\<close>

definition file_bytes :: "selfboot_env \<Rightarrow> segment \<Rightarrow> u8 list" where
  "file_bytes env s =
     (if s_filesz s = 0 then []
      else if s_compression s = CBFS_COMPRESS_LZMA then snd (ulzma env (s_srcaddr s))
      else map (\<lambda>k. rom env (s_srcaddr s + of_nat k)) [0..<unat (s_filesz s)])"

definition seg_proper :: "selfboot_env \<Rightarrow> segment \<Rightarrow> bool" where
  "seg_proper env s \<longleftrightarrow> seg_end s < 2 ^ 32 \<and> s_filesz s \<le> s_memsz s
     \<and> (s_filesz s = 0 \<or> s_compression s = CBFS_COMPRESS_NONE
        \<or> s_compression s = CBFS_COMPRESS_LZMA \<and> file_bytes env s \<noteq> [] \<and> length (file_bytes env s) \<le> unat (s_memsz s)
          \<and> fst (ulzma env (s_srcaddr s)) = of_nat (length (file_bytes env s)))"

text \<open>The memory after the data is put in place and the rest cleared; a segment with no data writes nothing.\<close>

definition put_segment :: "selfboot_env \<Rightarrow> segment \<Rightarrow> memory \<Rightarrow> memory" where
  "put_segment env s mem = (\<lambda>a.
     if s_filesz s = 0 then mem a
     else if seg_begin s \<le> unat a \<and> unat a < seg_begin s + length (file_bytes env s) then file_bytes env s ! (unat a - seg_begin s)
     else if seg_begin s \<le> unat a \<and> unat a < seg_end s then 0 else mem a)"

text \<open>Nothing sticks out: the segment ends below the bounce buffer or lies in its image of coreboot.\<close>

definition in_place :: "selfboot_env \<Rightarrow> u32 \<Rightarrow> segment \<Rightarrow> bool" where
  "in_place env b s \<longleftrightarrow> seg_end s \<le> unat b
     \<or> unat b \<le> seg_begin s \<and> seg_end s \<le> unat b + unat (lb_end env - lb_start env)
       \<and> unat b + unat (lb_end env - lb_start env) < 2 ^ 32"

lemma offset_less:
  fixes a d :: u32
  assumes "unat d + n \<le> 2 ^ 32"
  shows "unat (a - d) < n \<longleftrightarrow> unat d \<le> unat a \<and> unat a < unat d + n"
  using assms unat_less_exp [of a] by (auto simp: unat_sub_if')

lemma copy_rom_bytes:
  assumes "unat d + unat n \<le> 2 ^ 32"
  shows "copy_rom env d src n mem = write_bytes d (map (\<lambda>k. rom env (src + of_nat k)) [0..<unat n]) mem"
  by (rule ext) (simp add: copy_rom_def write_bytes_def word_less_nat_alt)

lemma finish_in_place:
  assumes "in_place env b s" and p: "seg_end s < 2 ^ 32" and n: "unat len \<le> unat (s_memsz s)"
  shows "finish_segment env b s len mem = (\<lambda>a. if seg_begin s + unat len \<le> unat a \<and> unat a < seg_end s then 0 else mem a)"
proof -
  let ?e = "s_dstaddr s + s_memsz s" and ?m = "s_dstaddr s + len"
  have e: "unat ?e = seg_end s" using p by (simp add: seg_end_def unat_add_no_wrap)
  have m: "unat ?m = seg_begin s + unat len" using p n by (simp add: seg_begin_def seg_end_def unat_add_no_wrap)
  have em: "unat (?e - ?m) = seg_end s - (seg_begin s + unat len)" "seg_begin s + unat len \<le> seg_end s"
    using e m n by (simp_all add: unat_sub_if' seg_begin_def seg_end_def)
  have clear: "(if ?m < ?e then memset ?m 0 (?e - ?m) mem else mem)
    = (\<lambda>a. if seg_begin s + unat len \<le> unat a \<and> unat a < seg_end s then 0 else mem a)"
  proof (cases "?m < ?e")
    case True
    have "unat (a - ?m) < unat (?e - ?m) \<longleftrightarrow> seg_begin s + unat len \<le> unat a \<and> unat a < seg_end s" for a
      using offset_less [of ?m "unat (?e - ?m)" a] em e m p by simp
    then show ?thesis using True by (simp add: memset_def word_less_nat_alt)
  next
    case False
    then have "seg_end s \<le> seg_begin s + unat len" using e m by (simp add: word_less_nat_alt)
    then show ?thesis using False by (auto simp: fun_eq_iff)
  qed
  show ?thesis
  proof (cases "b < ?e")
    case True
    then have i: "unat b \<le> seg_begin s" "seg_end s \<le> unat b + unat (lb_end env - lb_start env)"
      "unat b + unat (lb_end env - lb_start env) < 2 ^ 32"
      using assms(1) e by (auto simp: in_place_def word_less_nat_alt)
    have "\<not> s_dstaddr s < b" using i(1) by (simp add: word_less_nat_alt seg_begin_def)
    moreover have "\<not> b + (lb_end env - lb_start env) < ?e"
      using i e by (simp add: word_less_nat_alt unat_add_no_wrap)
    ultimately show ?thesis unfolding finish_segment_def Let_def clear by simp
  next
    case False
    then show ?thesis unfolding finish_segment_def Let_def clear by simp
  qed
qed

lemma load_in_place:
  assumes p: "seg_proper env s" and i: "in_place env b s"
  shows "load_segment env b s mem = Inr (put_segment env s mem)"
proof (cases "s_filesz s = 0")
  case True
  then show ?thesis by (simp add: load_segment_def put_segment_def)
next
  case nz: False
  let ?bs = "file_bytes env s"
  have e: "seg_end s < 2 ^ 32" using p by (simp add: seg_proper_def)
  have put: "finish_segment env b s len (write_bytes (s_dstaddr s) ?bs mem) = put_segment env s mem"
    if l: "unat len = length ?bs" "length ?bs \<le> unat (s_memsz s)" for len
  proof (rule ext)
    fix a
    have w: "write_bytes (s_dstaddr s) ?bs mem a = (if seg_begin s \<le> unat a \<and> unat a < seg_begin s + length ?bs
       then ?bs ! (unat a - seg_begin s) else mem a)"
      using offset_less [of "s_dstaddr s" "length ?bs" a] l e
      by (auto simp: write_bytes_def seg_begin_def seg_end_def unat_sub_if')
    show "finish_segment env b s len (write_bytes (s_dstaddr s) ?bs mem) a = put_segment env s mem a"
      using finish_in_place [OF i e, of len] l w nz by (auto simp: put_segment_def)
  qed
  show ?thesis
  proof (cases "s_compression s = CBFS_COMPRESS_LZMA")
    case True
    then have l: "?bs \<noteq> []" "length ?bs \<le> unat (s_memsz s)" "fst (ulzma env (s_srcaddr s)) = of_nat (length ?bs)"
      "?bs = snd (ulzma env (s_srcaddr s))"
      using p nz by (auto simp: seg_proper_def file_bytes_def)
    have "length ?bs < 2 ^ 32" using l(2) unat_less_exp [of "s_memsz s"] by simp
    then have u: "unat (of_nat (length ?bs) :: u32) = length ?bs" by (simp add: unsigned_of_nat take_bit_nat_eq_self)
    then have "(of_nat (length ?bs) :: u32) \<noteq> 0" using l(1) by (metis length_0_conv unat_0)
    then show ?thesis using True nz l(3) put [OF u l(2)] l(4)
      by (simp add: load_segment_def split_beta Let_def)
  next
    case False
    then have c: "s_compression s = CBFS_COMPRESS_NONE" "s_filesz s \<le> s_memsz s" using p nz by (auto simp: seg_proper_def)
    then have bs: "?bs = map (\<lambda>k. rom env (s_srcaddr s + of_nat k)) [0..<unat (s_filesz s)]" using nz by (simp add: file_bytes_def)
    have "copy_rom env (s_dstaddr s) (s_srcaddr s) (s_filesz s) mem = write_bytes (s_dstaddr s) ?bs mem"
      unfolding bs by (rule copy_rom_bytes) (use e c(2) in \<open>simp add: seg_end_def word_le_nat_alt\<close>)
    moreover have "unat (s_filesz s) = length ?bs" "length ?bs \<le> unat (s_memsz s)" using bs c(2) by (simp_all add: word_le_nat_alt)
    ultimately show ?thesis using nz c put by (simp add: load_segment_def)
  qed
qed

section \<open>What the payload will see\<close>

text \<open>
  \<open>loaded env b s V V'\<close>: below the address \<open>b\<close> the memory went from \<open>V\<close> to \<open>V'\<close> by loading \<open>s\<close>.  Bytes
  behind the data are cleared; in a segment on coreboot some may stay as they were.
\<close>

definition loaded :: "selfboot_env \<Rightarrow> u32 \<Rightarrow> segment \<Rightarrow> memory \<Rightarrow> memory \<Rightarrow> bool" where
  "loaded env b s V V' \<longleftrightarrow> (\<forall>a. unat a < unat b \<longrightarrow>
     (if seg_begin s \<le> unat a \<and> unat a < seg_begin s + length (file_bytes env s)
      then V' a = file_bytes env s ! (unat a - seg_begin s)
      else if seg_begin s \<le> unat a \<and> unat a < seg_end s
      then V' a = 0 \<or> V' a = V a \<and> (overlaps_coreboot env s \<or> s_filesz s = 0)
      else V' a = V a))"

definition in_coreboot :: "selfboot_env \<Rightarrow> u32 \<Rightarrow> bool" where
  "in_coreboot env a \<longleftrightarrow> lb_start env \<le> a \<and> a < lb_end env"

text \<open>The bounce buffer stands for the memory coreboot occupies.\<close>

definition view :: "selfboot_env \<Rightarrow> u32 \<Rightarrow> memory \<Rightarrow> memory" where
  "view env b mem = (\<lambda>a. if in_coreboot env a then mem (b + (a - lb_start env)) else mem a)"

definition env_ok :: "selfboot_env \<Rightarrow> u32 \<Rightarrow> bool" where
  "env_ok env b \<longleftrightarrow> unat (lb_start env) < unat (lb_end env) \<and> unat (lb_end env) \<le> unat b
     \<and> unat b + unat (lb_end env - lb_start env) < 2 ^ 32"

lemma seg_begin_le: "seg_begin s \<le> seg_end s"
  by (simp add: seg_begin_def seg_end_def)

lemma seg_end_word: "seg_end s < 2 ^ 32 \<Longrightarrow> unat (s_dstaddr s + s_memsz s) = seg_end s"
  by (simp add: seg_end_def unat_add_no_wrap)

lemma overlaps_iff:
  "seg_end s < 2 ^ 32 \<Longrightarrow> overlaps_coreboot env s \<longleftrightarrow> unat (lb_start env) < seg_end s \<and> seg_begin s < unat (lb_end env)"
  using seg_end_word [of s] by (auto simp: overlaps_coreboot_def Let_def word_le_nat_alt seg_begin_def)

lemma put_segment_outside: "unat a < seg_begin s \<or> seg_end s \<le> unat a \<Longrightarrow> seg_proper env s \<Longrightarrow> put_segment env s mem a = mem a"
  by (auto simp: put_segment_def seg_proper_def seg_begin_def seg_end_def file_bytes_def word_le_nat_alt split: if_splits)

lemma file_bytes_le: "seg_proper env s \<Longrightarrow> seg_begin s + length (file_bytes env s) \<le> seg_end s"
  by (auto simp: seg_proper_def seg_begin_def seg_end_def file_bytes_def word_le_nat_alt split: if_splits)

lemma loaded_put:
  assumes p: "seg_proper env s" and V: "\<And>a. unat a < unat b \<Longrightarrow> V' a = put_segment env s V a"
  shows "loaded env b s V V'"
  unfolding loaded_def
proof (intro allI impI)
  fix a :: u32 assume "unat a < unat b"
  then have "V' a = put_segment env s V a" by (rule V)
  moreover have "s_filesz s = 0 \<Longrightarrow> file_bytes env s = []" by (simp add: file_bytes_def)
  ultimately show "if seg_begin s \<le> unat a \<and> unat a < seg_begin s + length (file_bytes env s)
      then V' a = file_bytes env s ! (unat a - seg_begin s)
      else if seg_begin s \<le> unat a \<and> unat a < seg_end s
      then V' a = 0 \<or> V' a = V a \<and> (overlaps_coreboot env s \<or> s_filesz s = 0)
      else V' a = V a"
    by (auto simp: put_segment_def)
qed

text \<open>A segment beside coreboot and below the bounce buffer.\<close>

lemma put_beside:
  assumes p: "seg_proper env s" and no: "\<not> overlaps_coreboot env s" and e: "seg_end s \<le> unat b" and ok: "env_ok env b"
  shows "loaded env b s (view env b mem) (view env b (put_segment env s mem))"
    and "in_coreboot env a \<Longrightarrow> put_segment env s mem a = mem a"
proof -
  have out: "seg_end s \<le> unat (lb_start env) \<or> unat (lb_end env) \<le> seg_begin s"
    using no overlaps_iff [of s env] p by (auto simp: seg_proper_def)
  show "put_segment env s mem a = mem a" if "in_coreboot env a"
    using that out put_segment_outside [OF _ p, of a] by (auto simp: in_coreboot_def word_le_nat_alt word_less_nat_alt)
  show "loaded env b s (view env b mem) (view env b (put_segment env s mem))"
  proof (rule loaded_put [OF p])
    fix a :: u32 assume "unat a < unat b"
    show "view env b (put_segment env s mem) a = put_segment env s (view env b mem) a"
    proof (cases "in_coreboot env a")
      case True
      then have "unat (a - lb_start env) < unat (lb_end env - lb_start env)"
        by (auto simp: in_coreboot_def word_le_nat_alt word_less_nat_alt unat_sub_if')
      then have "unat (b + (a - lb_start env)) = unat b + unat (a - lb_start env)"
        using ok by (intro unat_add_no_wrap) (simp add: env_ok_def)
      then have "put_segment env s mem (b + (a - lb_start env)) = mem (b + (a - lb_start env))"
        using e by (intro put_segment_outside p) simp
      moreover have "unat a < seg_begin s \<or> seg_end s \<le> unat a"
        using True out by (auto simp: in_coreboot_def word_le_nat_alt word_less_nat_alt)
      ultimately show ?thesis using True put_segment_outside [OF _ p, of a "view env b mem"] by (simp add: view_def)
    next
      case False
      then show ?thesis by (simp add: view_def put_segment_def)
    qed
  qed
qed

text \<open>A segment inside coreboot, put at its image in the bounce buffer.\<close>

definition retarget :: "selfboot_env \<Rightarrow> u32 \<Rightarrow> segment \<Rightarrow> segment" where
  "retarget env b s = s\<lparr>s_dstaddr := b + (s_dstaddr s - lb_start env)\<rparr>"

lemma retarget_simps:
  "s_memsz (retarget env b s) = s_memsz s" "s_filesz (retarget env b s) = s_filesz s"
  "s_srcaddr (retarget env b s) = s_srcaddr s" "s_compression (retarget env b s) = s_compression s"
  "file_bytes env (retarget env b s) = file_bytes env s"
  by (simp_all add: retarget_def file_bytes_def)

lemma retarget_place:
  assumes ok: "env_ok env b" and i: "unat (lb_start env) \<le> seg_begin s" "seg_end s \<le> unat (lb_end env)"
  shows "seg_begin (retarget env b s) = unat b + (seg_begin s - unat (lb_start env))"
    and "seg_end (retarget env b s) = unat b + (seg_end s - unat (lb_start env))"
    and "seg_proper env s \<Longrightarrow> seg_proper env (retarget env b s)"
    and "in_place env b (retarget env b s)" and "\<not> overlaps_coreboot env (retarget env b s)"
proof -
  have sz: "unat (lb_end env - lb_start env) = unat (lb_end env) - unat (lb_start env)"
    using ok by (simp add: env_ok_def unat_sub_if')
  have "unat (s_dstaddr s - lb_start env) = seg_begin s - unat (lb_start env)"
    using i(1) by (simp add: seg_begin_def unat_sub_if')
  moreover have "unat b + (seg_begin s - unat (lb_start env)) < 2 ^ 32"
    using ok i sz unfolding env_ok_def seg_begin_def seg_end_def by linarith
  ultimately show b: "seg_begin (retarget env b s) = unat b + (seg_begin s - unat (lb_start env))"
    by (simp add: retarget_def seg_begin_def unat_add_no_wrap)
  then show e: "seg_end (retarget env b s) = unat b + (seg_end s - unat (lb_start env))"
    using i(1) by (simp add: seg_begin_def seg_end_def retarget_simps)
  have lt: "seg_end (retarget env b s) < 2 ^ 32" using e i(2) ok sz unfolding env_ok_def by linarith
  then show "seg_proper env s \<Longrightarrow> seg_proper env (retarget env b s)" by (simp add: seg_proper_def retarget_simps)
  show "in_place env b (retarget env b s)" using b e i(2) ok sz by (auto simp: in_place_def env_ok_def)
  show "\<not> overlaps_coreboot env (retarget env b s)" using overlaps_iff [OF lt] b ok by (simp add: env_ok_def)
qed

lemma put_retargeted:
  assumes p: "seg_proper env s" and ok: "env_ok env b" and i: "unat (lb_start env) \<le> seg_begin s" "seg_end s \<le> unat (lb_end env)"
  shows "loaded env b s (view env b mem) (view env b (put_segment env (retarget env b s) mem))"
    and "in_coreboot env a \<Longrightarrow> put_segment env (retarget env b s) mem a = mem a"
proof -
  note rp = retarget_place [OF ok i]
  have below: "put_segment env (retarget env b s) mem a = mem a" if "unat a < unat b" for a
    using that rp(1) by (intro put_segment_outside rp(3) p) simp
  show "put_segment env (retarget env b s) mem a = mem a" if "in_coreboot env a"
    using that ok by (intro below) (simp add: in_coreboot_def env_ok_def word_less_nat_alt)
  have img: "unat (b + (a - lb_start env)) = unat b + (unat a - unat (lb_start env))" if "in_coreboot env a" for a
  proof -
    have "unat (a - lb_start env) = unat a - unat (lb_start env)" "unat (lb_start env) \<le> unat a" "unat a < unat (lb_end env)"
      "unat (lb_end env - lb_start env) = unat (lb_end env) - unat (lb_start env)"
      using that ok by (auto simp: in_coreboot_def word_le_nat_alt word_less_nat_alt unat_sub_if' env_ok_def)
    then show ?thesis using ok by (subst unat_add_no_wrap) (auto simp: env_ok_def)
  qed
  have v: "view env b (put_segment env (retarget env b s) mem) a =
     (if in_coreboot env a then put_segment env s (view env b mem) a else view env b mem a)" if "unat a < unat b" for a
  proof (cases "in_coreboot env a")
    case True
    then have l: "unat (lb_start env) \<le> unat a" by (simp add: in_coreboot_def word_le_nat_alt)
    let ?x = "b + (a - lb_start env)" and ?r = "retarget env b s"
    note u = img [OF True]
    have "seg_begin ?r \<le> unat ?x \<longleftrightarrow> seg_begin s \<le> unat a" "unat ?x - seg_begin ?r = unat a - seg_begin s"
      "\<And>n. unat ?x < seg_begin ?r + n \<longleftrightarrow> unat a < seg_begin s + n" "unat ?x < seg_end ?r \<longleftrightarrow> unat a < seg_end s"
      unfolding u rp(1,2) using l i(1) seg_begin_le [of s] by linarith+
    then show ?thesis using True by (simp add: view_def put_segment_def retarget_simps)
  qed (use below that in \<open>simp add: view_def\<close>)
  show "loaded env b s (view env b mem) (view env b (put_segment env (retarget env b s) mem))"
  proof (rule loaded_put [OF p])
    fix a :: u32 assume a: "unat a < unat b"
    have "\<not> in_coreboot env a \<Longrightarrow> unat a < seg_begin s \<or> seg_end s \<le> unat a"
      using i by (auto simp: in_coreboot_def word_le_nat_alt word_less_nat_alt)
    then show "view env b (put_segment env (retarget env b s) mem) a = put_segment env s (view env b mem) a"
      using v [OF a] put_segment_outside [OF _ p, of a "view env b mem"] by auto
  qed
qed

section \<open>Slicing\<close>

lemma slice_late_early: "slice_late len s = prod.swap (slice_early len s)"
  by (simp add: slice_late_def slice_early_def Let_def)

lemma slice_places:
  assumes p: "seg_proper env s" and c: "s_compression s = CBFS_COMPRESS_NONE" and l: "unat len < unat (s_memsz s)"
    and sl: "slice_early len s = (s1, s2)"
  shows "seg_begin s1 = seg_begin s" "seg_end s1 = seg_begin s + unat len"
    "seg_begin s2 = seg_begin s + unat len" "seg_end s2 = seg_end s"
    "s_compression s1 = CBFS_COMPRESS_NONE" "s_compression s2 = CBFS_COMPRESS_NONE"
    "file_bytes env s1 = take (unat len) (file_bytes env s)" "file_bytes env s2 = drop (unat len) (file_bytes env s)"
    "seg_proper env s1" "seg_proper env s2"
proof -
  have e: "seg_end s < 2 ^ 32" "unat (s_filesz s) \<le> unat (s_memsz s)" using p by (auto simp: seg_proper_def word_le_nat_alt)
  have f1: "unat (s_filesz s1) = min (unat len) (unat (s_filesz s))" and f2: "unat (s_filesz s2) = unat (s_filesz s) - unat len"
    using sl by (auto simp: slice_early_def Let_def word_less_nat_alt unat_sub_if' split: if_splits)
  have g: "s_dstaddr s1 = s_dstaddr s" "s_srcaddr s1 = s_srcaddr s" "s_memsz s1 = len"
    "s_dstaddr s2 = s_dstaddr s + len" "s_srcaddr s2 = s_srcaddr s + len" "s_memsz s2 = s_memsz s - len"
    using sl by (auto simp: slice_early_def Let_def split: if_splits)
  show c12: "s_compression s1 = CBFS_COMPRESS_NONE" "s_compression s2 = CBFS_COMPRESS_NONE"
    using sl c by (auto simp: slice_early_def Let_def split: if_splits)
  show b: "seg_begin s1 = seg_begin s" "seg_end s1 = seg_begin s + unat len" "seg_begin s2 = seg_begin s + unat len"
    using g e(1) l by (simp_all add: seg_begin_def seg_end_def unat_add_no_wrap)
  have "unat (s_memsz s - len) = unat (s_memsz s) - unat len" using l by (simp add: unat_sub_if')
  then show b2: "seg_end s2 = seg_end s" using g b(3) l by (simp add: seg_begin_def seg_end_def)
  have bytes: "file_bytes env x = map (\<lambda>k. rom env (s_srcaddr x + of_nat k)) [0..<unat (s_filesz x)]"
    if "s_compression x = CBFS_COMPRESS_NONE" for x using that by (simp add: file_bytes_def)
  show "file_bytes env s1 = take (unat len) (file_bytes env s)"
    unfolding bytes [OF c12(1)] bytes [OF c] f1 g by (simp add: take_map take_upt min_def)
  have "[0..<unat (s_filesz s)] = [0..<unat len] @ map (\<lambda>k. k + unat len) [0..<unat (s_filesz s) - unat len]"
    if "unat len \<le> unat (s_filesz s)"
    using that map_add_upt [of "unat len" "unat (s_filesz s) - unat len"] upt_add_eq_append [of 0 "unat len" "unat (s_filesz s) - unat len"]
    by (simp add: add.commute)
  then show "file_bytes env s2 = drop (unat len) (file_bytes env s)"
    unfolding bytes [OF c12(2)] bytes [OF c] f2 g
    by (cases "unat len \<le> unat (s_filesz s)") (simp_all add: drop_map ac_simps)
  have "seg_begin s + unat len < 2 ^ 32" using e(1) l by (simp add: seg_begin_def seg_end_def)
  then show "seg_proper env s1" "seg_proper env s2"
    using e b b2 c12 f1 f2 g l by (auto simp: seg_proper_def word_le_nat_alt unat_sub_if')
qed

lemma loaded_join:
  assumes p: "seg_proper env s" and c: "s_compression s = CBFS_COMPRESS_NONE" and l: "unat len < unat (s_memsz s)"
    and sl: "slice_early len s = (s1, s2)" and ov: "overlaps_coreboot env s"
    and 1: "loaded env b s1 V V1" and 2: "loaded env b s2 V1 V2"
  shows "loaded env b s V V2"
  unfolding loaded_def
proof (intro allI impI)
  fix a :: u32 assume a: "unat a < unat b"
  note sp = slice_places [OF p c l sl]
  let ?n = "unat len" and ?bs = "file_bytes env s"
  have A: "if seg_begin s \<le> unat a \<and> unat a < seg_begin s + length (take ?n ?bs)
      then V1 a = take ?n ?bs ! (unat a - seg_begin s)
      else if seg_begin s \<le> unat a \<and> unat a < seg_begin s + ?n
      then V1 a = 0 \<or> V1 a = V a \<and> (overlaps_coreboot env s1 \<or> s_filesz s1 = 0)
      else V1 a = V a"
    using 1 a unfolding loaded_def sp(1,2,7) by blast
  have B: "if seg_begin s + ?n \<le> unat a \<and> unat a < seg_begin s + ?n + length (drop ?n ?bs)
      then V2 a = drop ?n ?bs ! (unat a - (seg_begin s + ?n))
      else if seg_begin s + ?n \<le> unat a \<and> unat a < seg_end s
      then V2 a = 0 \<or> V2 a = V1 a \<and> (overlaps_coreboot env s2 \<or> s_filesz s2 = 0)
      else V2 a = V1 a"
    using 2 a unfolding loaded_def sp(3,4,8) by blast
  have le: "seg_begin s + ?n \<le> seg_end s" using l by (simp add: seg_begin_def seg_end_def)
  show "if seg_begin s \<le> unat a \<and> unat a < seg_begin s + length ?bs
      then V2 a = ?bs ! (unat a - seg_begin s)
      else if seg_begin s \<le> unat a \<and> unat a < seg_end s
      then V2 a = 0 \<or> V2 a = V a \<and> (overlaps_coreboot env s \<or> s_filesz s = 0)
      else V2 a = V a"
  proof (cases "unat a < seg_begin s + ?n")
    case True
    then have "V2 a = V1 a" using B by auto
    then show ?thesis using A True ov le by (auto split: if_splits)
  next
    case False
    then have "V1 a = V a" using A by (auto split: if_splits)
    moreover have "drop ?n ?bs ! (unat a - (seg_begin s + ?n)) = ?bs ! (unat a - seg_begin s)"
      if "unat a < seg_begin s + length ?bs" using that False by (simp add: add.commute)
    ultimately show ?thesis using B False ov by (auto split: if_splits)
  qed
qed

section \<open>Memory for the pieces\<close>

lemma alloc_segment_room:
  assumes "heap_room (n + 2) pool"
  shows "\<exists>p pool'. alloc_segment pool = Some (p, pool') \<and> heap_room n pool'"
proof -
  let ?h = "range_heap pool"
  let ?p = "ALIGN_UP (free_mem_ptr ?h) 8"
  have r: "unat (free_mem_ptr ?h) + 64 + 32 * n < unat (free_mem_end_ptr ?h)" "unat (free_mem_end_ptr ?h) + 32 \<le> 2 ^ 32"
    using assms by (auto simp: heap_room_def)
  have "unat ?p = (unat (free_mem_ptr ?h) + 7) div 8 * 8"
    using unat_ALIGN_UP_no_wrap [of 3 "free_mem_ptr ?h"] r by simp
  then have p: "unat ?p \<le> unat (free_mem_ptr ?h) + 7" by simp
  then have q: "unat (?p + 28) = unat ?p + 28" using r by (intro unat_add_no_wrap [of ?p 28, simplified]) simp
  then have "\<not> free_mem_end_ptr ?h \<le> ?p + 28" using p r by (simp add: word_le_nat_alt)
  then have "malloc 28 ?h = Some (?p, ?h\<lparr>free_mem_ptr := ?p + 28\<rparr>)" by (simp add: malloc_def memalign_def Let_def)
  moreover have "heap_room n (pool\<lparr>range_heap := ?h\<lparr>free_mem_ptr := ?p + 28\<rparr>\<rparr>)"
    using p q r by (simp add: heap_room_def)
  ultimately show ?thesis by (simp add: alloc_segment_def)
qed

section \<open>One segment in the loop\<close>

lemma loop_plain:
  assumes "\<not> overlaps_coreboot env s" "seg_proper env s" "in_place env b s"
  shows "load_loop env b (s # rest) mem pool = load_loop env b rest (put_segment env s mem) pool"
  by (subst load_loop.simps) (simp add: relocate_segment_def assms(1) load_in_place [OF assms(2,3)])

definition opt_list :: "'a option \<Rightarrow> 'a list" where
  "opt_list x = (case x of None \<Rightarrow> [] | Some y \<Rightarrow> [y])"

lemma opt_list_simps [simp]: "opt_list None = []" "opt_list (Some x) = [x]"
  by (simp_all add: opt_list_def)

text \<open>The loop goes through the pieces that relocation leaves.\<close>

lemma loop_relocate:
  assumes r: "relocate_segment env b s pool = Some (before, p, after, pool')"
    and p: "\<not> overlaps_coreboot env p" "seg_proper env p" "in_place env b p"
  shows "load_loop env b (s # rest) mem pool = load_loop env b (opt_list before @ p # opt_list after @ rest) mem pool'"
proof (cases before)
  case None
  then show ?thesis using loop_plain [OF p] load_in_place [OF p(2,3)]
    by (subst load_loop.simps) (auto simp: r split: option.splits)
next
  case (Some new)
  then show ?thesis by (subst load_loop.simps) (auto simp: r split: option.splits)
qed

text \<open>Loading one piece: the view changes by it and coreboot stays.\<close>

definition steps_to :: "selfboot_env \<Rightarrow> u32 \<Rightarrow> segment list \<Rightarrow> segment \<Rightarrow> bool" where
  "steps_to env b ps s \<longleftrightarrow> (\<forall>rest mem pool. \<exists>mem'. load_loop env b (ps @ rest) mem pool = load_loop env b rest mem' pool
     \<and> loaded env b s (view env b mem) (view env b mem') \<and> (\<forall>a. in_coreboot env a \<longrightarrow> mem' a = mem a))"

lemma steps_beside:
  assumes "seg_proper env s" "\<not> overlaps_coreboot env s" "seg_end s \<le> unat b" "env_ok env b"
  shows "steps_to env b [s] s"
  unfolding steps_to_def
proof (intro allI)
  fix rest mem pool
  have "in_place env b s" using assms(3) by (simp add: in_place_def)
  from loop_plain [OF assms(2,1) this] put_beside [OF assms]
  show "\<exists>mem'. load_loop env b ([s] @ rest) mem pool = load_loop env b rest mem' pool
     \<and> loaded env b s (view env b mem) (view env b mem') \<and> (\<forall>a. in_coreboot env a \<longrightarrow> mem' a = mem a)"
    by (intro exI [of _ "put_segment env s mem"]) simp
qed

lemma steps_retargeted:
  assumes "seg_proper env s" "env_ok env b" "unat (lb_start env) \<le> seg_begin s" "seg_end s \<le> unat (lb_end env)"
  shows "steps_to env b [retarget env b s] s"
  unfolding steps_to_def
proof (intro allI)
  fix rest mem pool
  note rp = retarget_place [OF assms(2-4)]
  from loop_plain [OF rp(5) rp(3) [OF assms(1)] rp(4)] put_retargeted [OF assms]
  show "\<exists>mem'. load_loop env b ([retarget env b s] @ rest) mem pool = load_loop env b rest mem' pool
     \<and> loaded env b s (view env b mem) (view env b mem') \<and> (\<forall>a. in_coreboot env a \<longrightarrow> mem' a = mem a)"
    by (intro exI [of _ "put_segment env (retarget env b s) mem"]) simp
qed

lemma steps_join:
  assumes "steps_to env b ps1 s1" "steps_to env b ps2 s2"
    and s: "seg_proper env s" "s_compression s = CBFS_COMPRESS_NONE" "unat len < unat (s_memsz s)"
      "slice_early len s = (s1, s2)" "overlaps_coreboot env s"
  shows "steps_to env b (ps1 @ ps2) s"
  unfolding steps_to_def
proof (intro allI)
  fix rest mem pool
  obtain m1 where m1: "load_loop env b (ps1 @ ps2 @ rest) mem pool = load_loop env b (ps2 @ rest) m1 pool"
    "loaded env b s1 (view env b mem) (view env b m1)" "\<forall>a. in_coreboot env a \<longrightarrow> m1 a = mem a"
    using assms(1) unfolding steps_to_def by blast
  obtain m2 where m2: "load_loop env b (ps2 @ rest) m1 pool = load_loop env b rest m2 pool"
    "loaded env b s2 (view env b m1) (view env b m2)" "\<forall>a. in_coreboot env a \<longrightarrow> m2 a = m1 a"
    using assms(2) unfolding steps_to_def by blast
  show "\<exists>mem'. load_loop env b ((ps1 @ ps2) @ rest) mem pool = load_loop env b rest mem' pool
     \<and> loaded env b s (view env b mem) (view env b mem') \<and> (\<forall>a. in_coreboot env a \<longrightarrow> mem' a = mem a)"
    using m1 m2 loaded_join [OF s m1(2) m2(2)] by (intro exI [of _ m2]) simp
qed

text \<open>The part of relocation that is the same with and without a piece before coreboot.\<close>

definition cut_late :: "selfboot_env \<Rightarrow> segment \<Rightarrow> u32 \<Rightarrow> range_pool \<Rightarrow> (segment option \<times> segment \<times> range_pool) option" where
  "cut_late env seg e pool =
     (if s_compression seg = CBFS_COMPRESS_NONE \<and> lb_end env < e then do {
        (p, pool) \<leftarrow> alloc_segment pool;
        let (new, seg) = slice_late (lb_end env - s_dstaddr seg) seg;
        Some (Some new, seg, pool)
      } else Some (None, seg, pool))"

lemma relocate_cut:
  "relocate_segment env b s pool =
     (if \<not> overlaps_coreboot env s then Some (None, s, None, pool)
      else do {
        (before, seg, pool) \<leftarrow>
          (if s_compression s = CBFS_COMPRESS_NONE \<and> s_dstaddr s < lb_start env then do {
             (p, pool) \<leftarrow> alloc_segment pool;
             let (new, seg) = slice_early (lb_start env - s_dstaddr s) s;
             Some (Some new, seg, pool)
           } else Some (None, s, pool));
        (after, seg, pool) \<leftarrow> cut_late env seg (s_dstaddr s + s_memsz s) pool;
        Some (before, retarget env b seg, after, pool)
      })"
  by (simp add: relocate_segment_def cut_late_def retarget_def Let_def)

text \<open>Cutting off what lies behind coreboot leaves a piece inside it.\<close>

lemma cut_late_steps:
  assumes p: "seg_proper env s" and c: "s_compression s = CBFS_COMPRESS_NONE" and ok: "env_ok env b"
    and i: "unat (lb_start env) \<le> seg_begin s" "seg_begin s < unat (lb_end env)" and e: "unat ee = seg_end s" "seg_end s \<le> unat b"
    and ne: "unat (lb_start env) < seg_end s" and room: "heap_room (n + 2) pool"
  shows "\<exists>after mid pool'. cut_late env s ee pool = Some (after, mid, pool') \<and> heap_room n pool'
    \<and> \<not> overlaps_coreboot env (retarget env b mid) \<and> seg_proper env (retarget env b mid) \<and> in_place env b (retarget env b mid)
    \<and> steps_to env b (retarget env b mid # opt_list after) s"
proof (cases "lb_end env < ee")
  case False
  then have "seg_end s \<le> unat (lb_end env)" using e by (simp add: word_less_nat_alt)
  then show ?thesis
    using False heap_room_mono [OF room, of n] retarget_place [OF ok i(1), of] steps_retargeted [OF p ok i(1)] p
    by (simp add: cut_late_def)
next
  case True
  then have lt: "unat (lb_end env) < seg_end s" using e by (simp add: word_less_nat_alt)
  define len where "len = lb_end env - s_dstaddr s"
  have len: "unat len = unat (lb_end env) - seg_begin s" using i(2) by (simp add: len_def unat_sub_if' seg_begin_def)
  then have l: "unat len < unat (s_memsz s)" using lt i(2) by (simp add: seg_begin_def seg_end_def)
  obtain s1 s2 where sl: "slice_early len s = (s1, s2)" by force
  note sp = slice_places [OF p c l sl]
  obtain q pool' where a: "alloc_segment pool = Some (q, pool')" "heap_room n pool'"
    using alloc_segment_room [OF room] by blast
  have cut: "cut_late env s ee pool = Some (Some s2, s1, pool')"
    using True c a sl by (simp add: cut_late_def slice_late_early len_def)
  have e1: "seg_end s1 = unat (lb_end env)" "seg_begin s1 = seg_begin s" "seg_begin s2 = unat (lb_end env)" "seg_end s2 = seg_end s"
    using sp(1-4) len i(2) by simp_all
  have in1: "unat (lb_start env) \<le> seg_begin s1" "seg_end s1 \<le> unat (lb_end env)" using e1 i by simp_all
  have ov: "overlaps_coreboot env s" using overlaps_iff [of s env] p i ne by (simp add: seg_proper_def)
  have "\<not> overlaps_coreboot env s2" using overlaps_iff [of s2 env] sp(10) e1 by (simp add: seg_proper_def)
  then have "steps_to env b [s2] s2" using e e1 by (intro steps_beside sp(10) ok) simp_all
  then have "steps_to env b ([retarget env b s1] @ [s2]) s"
    by (rule steps_join [OF steps_retargeted [OF sp(9) ok in1] _ p c l sl ov])
  then show ?thesis using cut a(2) retarget_place [OF ok in1] sp(9) by simp
qed

text \<open>What the loader can place for a bounce buffer at \<open>b\<close>.\<close>

definition placeable :: "selfboot_env \<Rightarrow> u32 \<Rightarrow> segment \<Rightarrow> bool" where
  "placeable env b s \<longleftrightarrow> seg_proper env s \<and> seg_begin s < seg_end s \<and> seg_end s \<le> unat b
     \<and> (overlaps_coreboot env s \<longrightarrow> s_compression s = CBFS_COMPRESS_NONE \<or> s_filesz s = 0)"

lemma loaded_nothing: "s_filesz s = 0 \<Longrightarrow> loaded env b s V V"
  by (auto simp: loaded_def file_bytes_def)

lemma relocate_steps:
  assumes pl: "placeable env b s" and ov: "overlaps_coreboot env s" and c: "s_compression s = CBFS_COMPRESS_NONE"
    and ok: "env_ok env b" and room: "heap_room (n + 4) pool"
  shows "\<exists>before p after pool'. relocate_segment env b s pool = Some (before, p, after, pool') \<and> heap_room n pool'
    \<and> \<not> overlaps_coreboot env p \<and> seg_proper env p \<and> in_place env b p
    \<and> steps_to env b (opt_list before @ p # opt_list after) s"
proof -
  have p: "seg_proper env s" and e: "seg_end s \<le> unat b" using pl by (auto simp: placeable_def)
  have lt: "seg_end s < 2 ^ 32" using p by (simp add: seg_proper_def)
  have o: "unat (lb_start env) < seg_end s" "seg_begin s < unat (lb_end env)" using ov overlaps_iff [OF lt] by auto
  note ee = seg_end_word [OF lt]
  show ?thesis
  proof (cases "s_dstaddr s < lb_start env")
    case False
    then have i: "unat (lb_start env) \<le> seg_begin s" by (simp add: word_less_nat_alt seg_begin_def)
    have "heap_room (n + 2 + 2) pool" using room by (rule heap_room_mono) simp
    from cut_late_steps [OF p c ok i o(2) ee e o(1) this]
    obtain after mid pool' where cut: "cut_late env s (s_dstaddr s + s_memsz s) pool = Some (after, mid, pool')" "heap_room (n + 2) pool'"
      and st: "\<not> overlaps_coreboot env (retarget env b mid)" "seg_proper env (retarget env b mid)" "in_place env b (retarget env b mid)"
        "steps_to env b (retarget env b mid # opt_list after) s" by blast
    have "relocate_segment env b s pool = Some (None, retarget env b mid, after, pool')"
      using ov False cut(1) by (simp add: relocate_cut)
    then show ?thesis using st heap_room_mono [OF cut(2), of n] by fastforce
  next
    case True
    then have lo: "seg_begin s < unat (lb_start env)" by (simp add: word_less_nat_alt seg_begin_def)
    define len where "len = lb_start env - s_dstaddr s"
    have len: "unat len = unat (lb_start env) - seg_begin s" using lo by (simp add: len_def unat_sub_if' seg_begin_def)
    then have l: "unat len < unat (s_memsz s)" using lo o(1) by (simp add: seg_begin_def seg_end_def)
    obtain s1 s2 where sl: "slice_early len s = (s1, s2)" by force
    note sp = slice_places [OF p c l sl]
    have "heap_room (n + 2 + 2) pool" using room by (rule heap_room_mono) simp
    then obtain q pool1 where a: "alloc_segment pool = Some (q, pool1)" "heap_room (n + 2) pool1"
      using alloc_segment_room by blast
    have b2: "seg_begin s2 = unat (lb_start env)" "seg_end s1 = unat (lb_start env)" using sp(2,3) len lo by simp_all
    have i2: "unat (lb_start env) \<le> seg_begin s2" "seg_begin s2 < unat (lb_end env)" "unat (lb_start env) < seg_end s2"
      using b2 ok sp(4) o(1) by (simp_all add: env_ok_def)
    from cut_late_steps [OF sp(10) sp(6) ok i2(1,2) _ _ i2(3) a(2), of "s_dstaddr s + s_memsz s"]
    obtain after mid pool' where cut: "cut_late env s2 (s_dstaddr s + s_memsz s) pool1 = Some (after, mid, pool')" "heap_room n pool'"
      and st: "\<not> overlaps_coreboot env (retarget env b mid)" "seg_proper env (retarget env b mid)" "in_place env b (retarget env b mid)"
        "steps_to env b (retarget env b mid # opt_list after) s2"
      using ee sp(4) e by auto
    have r: "relocate_segment env b s pool = Some (Some s1, retarget env b mid, after, pool')"
      using ov True cut(1) a(1) c sl by (simp add: relocate_cut len_def [symmetric])
    have "\<not> overlaps_coreboot env s1" using overlaps_iff [of s1 env] sp(9) b2 by (simp add: seg_proper_def)
    moreover have "seg_end s1 \<le> unat b" using b2 ok by (simp add: env_ok_def)
    ultimately have "steps_to env b [s1] s1" by (intro steps_beside sp(9) ok)
    from steps_join [OF this st(4) p c l sl ov] show ?thesis using r cut(2) st(1-3) by fastforce
  qed
qed

lemma load_one:
  assumes pl: "placeable env b s" and ok: "env_ok env b" and room: "heap_room (n + 4) pool"
  shows "\<exists>pool' mem'. load_loop env b (s # rest) mem pool = load_loop env b rest mem' pool' \<and> heap_room n pool'
    \<and> loaded env b s (view env b mem) (view env b mem') \<and> (\<forall>a. in_coreboot env a \<longrightarrow> mem' a = mem a)"
proof (cases "overlaps_coreboot env s")
  case False
  then have "steps_to env b [s] s" using pl by (intro steps_beside ok) (auto simp: placeable_def)
  then show ?thesis using heap_room_mono [OF room, of n] by (fastforce simp: steps_to_def)
next
  case ov: True
  show ?thesis
  proof (cases "s_compression s = CBFS_COMPRESS_NONE")
    case True
    from relocate_steps [OF pl ov True ok room]
    obtain before p after pool' where r: "relocate_segment env b s pool = Some (before, p, after, pool')" "heap_room n pool'"
        "\<not> overlaps_coreboot env p" "seg_proper env p" "in_place env b p"
      and st: "steps_to env b (opt_list before @ p # opt_list after) s" by blast
    obtain mem' where "load_loop env b ((opt_list before @ p # opt_list after) @ rest) mem pool' = load_loop env b rest mem' pool'"
      "loaded env b s (view env b mem) (view env b mem')" "\<forall>a. in_coreboot env a \<longrightarrow> mem' a = mem a"
      using st unfolding steps_to_def by blast
    then show ?thesis using loop_relocate [OF r(1,3-5), of rest mem] r(2) by auto
  next
    case False
    then have f: "s_filesz s = 0" using pl ov by (simp add: placeable_def)
    then have "load_loop env b (s # rest) mem pool = load_loop env b rest mem pool"
      using False ov by (subst load_loop.simps) (simp add: relocate_segment_def load_segment_def Let_def)
    then show ?thesis using loaded_nothing [OF f] heap_room_mono [OF room, of n]
      by (intro exI [of _ pool] exI [of _ mem]) simp
  qed
qed

section \<open>The whole list\<close>

fun loaded_all :: "selfboot_env \<Rightarrow> u32 \<Rightarrow> segment list \<Rightarrow> memory \<Rightarrow> memory \<Rightarrow> bool" where
  "loaded_all env b [] V V' \<longleftrightarrow> V' = V"
| "loaded_all env b (s # ss) V V' \<longleftrightarrow> (\<exists>V1. loaded env b s V V1 \<and> loaded_all env b ss V1 V')"

lemma load_list:
  assumes "\<forall>s \<in> set ss. placeable env b s" "env_ok env b" "heap_room (4 * length ss + n) pool"
  shows "\<exists>mem' pool'. load_loop env b ss mem pool = Some (1, mem', pool') \<and> heap_room n pool'
    \<and> loaded_all env b ss (view env b mem) (view env b mem') \<and> (\<forall>a. in_coreboot env a \<longrightarrow> mem' a = mem a)"
  using assms
proof (induction ss arbitrary: mem pool)
  case Nil
  then show ?case by (subst load_loop.simps) auto
next
  case (Cons s ss)
  have "heap_room (4 * length ss + n + 4) pool" using Cons.prems(3) by (simp add: ac_simps)
  moreover have "placeable env b s" using Cons.prems(1) by simp
  ultimately obtain pool1 mem1 where 1: "load_loop env b (s # ss) mem pool = load_loop env b ss mem1 pool1"
    "heap_room (4 * length ss + n) pool1"
    "loaded env b s (view env b mem) (view env b mem1)" "\<forall>a. in_coreboot env a \<longrightarrow> mem1 a = mem a"
    using load_one [OF _ Cons.prems(2), of s "4 * length ss + n" pool ss mem] by blast
  have "\<forall>s \<in> set ss. placeable env b s" using Cons.prems(1) by simp
  from Cons.IH [OF this Cons.prems(2) 1(2)]
  obtain mem' pool' where 2: "load_loop env b ss mem1 pool1 = Some (1, mem', pool')" "heap_room n pool'"
    "loaded_all env b ss (view env b mem1) (view env b mem')" "\<forall>a. in_coreboot env a \<longrightarrow> mem' a = mem1 a" by blast
  show ?case using 1 2 by (intro exI [of _ mem'] exI [of _ pool']) auto
qed

text \<open>Segments at places of their own keep what they wrote.\<close>

definition apart :: "segment \<Rightarrow> segment \<Rightarrow> bool" where
  "apart s t \<longleftrightarrow> seg_end s \<le> seg_begin t \<or> seg_end t \<le> seg_begin s"

lemma loaded_outside:
  assumes "loaded env b s V V'" "seg_proper env s" "unat a < unat b" "unat a < seg_begin s \<or> seg_end s \<le> unat a"
  shows "V' a = V a"
proof -
  have "if seg_begin s \<le> unat a \<and> unat a < seg_begin s + length (file_bytes env s)
      then V' a = file_bytes env s ! (unat a - seg_begin s)
      else if seg_begin s \<le> unat a \<and> unat a < seg_end s
      then V' a = 0 \<or> V' a = V a \<and> (overlaps_coreboot env s \<or> s_filesz s = 0)
      else V' a = V a"
    using assms(1,3) unfolding loaded_def by blast
  then show ?thesis using assms(4) file_bytes_le [OF assms(2)] by (auto split: if_splits)
qed

lemma loaded_all_outside:
  "loaded_all env b ss V V' \<Longrightarrow> \<forall>s \<in> set ss. seg_proper env s \<and> (unat a < seg_begin s \<or> seg_end s \<le> unat a) \<Longrightarrow> unat a < unat b
    \<Longrightarrow> V' a = V a"
proof (induction ss arbitrary: V)
  case (Cons s ss)
  then obtain V1 where 1: "loaded env b s V V1" "loaded_all env b ss V1 V'" by auto
  have "V1 a = V a" using loaded_outside [OF 1(1)] Cons.prems by simp
  then show ?case using Cons.IH [OF 1(2)] Cons.prems by simp
qed simp

lemma loaded_all_apart:
  assumes "loaded_all env b ss V V'" "sorted_wrt apart ss" "\<forall>s \<in> set ss. placeable env b s" "s \<in> set ss"
  shows "loaded env b s (\<lambda>a. if seg_begin s \<le> unat a \<and> unat a < seg_end s then V a else V' a) V'"
  using assms
proof (induction ss arbitrary: V)
  case (Cons t ss)
  then obtain V1 where 1: "loaded env b t V V1" "loaded_all env b ss V1 V'" by auto
  have pr: "\<forall>u \<in> set (t # ss). seg_proper env u" using Cons.prems(3) by (auto simp: placeable_def)
  show ?case
  proof (cases "s = t \<or> s \<notin> set ss")
    case True
    then have st: "s = t" using Cons.prems(4) by auto
    have same: "V' a = V1 a" if a: "unat a < unat b" "seg_begin s \<le> unat a" "unat a < seg_end s" for a
    proof (rule loaded_all_outside [OF 1(2) _ a(1)])
      show "\<forall>u \<in> set ss. seg_proper env u \<and> (unat a < seg_begin u \<or> seg_end u \<le> unat a)"
        using Cons.prems(2) pr st a(2,3) by (fastforce simp: apart_def)
    qed
    show ?thesis unfolding loaded_def
    proof (intro allI impI)
      fix a :: u32 assume a: "unat a < unat b"
      have "if seg_begin s \<le> unat a \<and> unat a < seg_begin s + length (file_bytes env s)
        then V1 a = file_bytes env s ! (unat a - seg_begin s)
        else if seg_begin s \<le> unat a \<and> unat a < seg_end s
        then V1 a = 0 \<or> V1 a = V a \<and> (overlaps_coreboot env s \<or> s_filesz s = 0)
        else V1 a = V a"
        using 1(1) a st unfolding loaded_def by blast
      then show "if seg_begin s \<le> unat a \<and> unat a < seg_begin s + length (file_bytes env s)
        then V' a = file_bytes env s ! (unat a - seg_begin s)
        else if seg_begin s \<le> unat a \<and> unat a < seg_end s
        then V' a = 0 \<or> V' a = (if seg_begin s \<le> unat a \<and> unat a < seg_end s then V a else V' a)
            \<and> (overlaps_coreboot env s \<or> s_filesz s = 0)
        else V' a = (if seg_begin s \<le> unat a \<and> unat a < seg_end s then V a else V' a)"
        using same [OF a] file_bytes_le [of env s] pr st by (auto split: if_splits)
    qed
  next
    case False
    then have s: "s \<in> set ss" "apart t s" using Cons.prems(2,4) by auto
    have "V1 a = V a" if "unat a < unat b" "seg_begin s \<le> unat a" "unat a < seg_end s" for a
      using loaded_outside [OF 1(1) _ that(1)] pr s(2) that by (fastforce simp: apart_def)
    then show ?thesis
      using Cons.IH [OF 1(2) _ _ s(1)] Cons.prems(2,3) unfolding loaded_def by (auto split: if_splits)
  qed
qed simp

section \<open>The jump\<close>

lemma jmp_view:
  assumes ok: "env_ok env b" and four: "4 dvd unat (lb_end env - lb_start env)"
    and top: "unat b + 2 * unat (lb_end env - lb_start env) \<le> 2 ^ 32" and a: "unat a < unat b"
  shows "jmp_payload env b mem a = view env b mem a"
proof -
  let ?z = "lb_end env - lb_start env"
  have "unat (drop_bit 2 ?z) = unat ?z div 4" by (simp add: drop_bit_eq_div unat_div)
  then have "unat (4 * drop_bit 2 ?z) = unat ?z"
    using four unat_less_exp [of ?z] by (simp add: unat_mult_lem [THEN iffD1])
  then have z: "4 * drop_bit 2 ?z = ?z" by (simp add: word_unat_eq_iff)
  have uz: "unat ?z = unat (lb_end env) - unat (lb_start env)" using ok by (simp add: env_ok_def unat_sub_if')
  have lb: "a - lb_start env < ?z \<longleftrightarrow> in_coreboot env a"
    using offset_less [of "lb_start env" "unat ?z" a] ok uz unat_less_exp [of "lb_end env"]
    by (auto simp: word_less_nat_alt in_coreboot_def env_ok_def word_le_nat_alt)
  have bz: "unat (b + ?z) = unat b + unat ?z" using ok by (simp add: env_ok_def unat_add_no_wrap)
  have copy: "memcpy (b + ?z) (lb_start env) ?z mem x = mem x" if "unat x < unat b + unat ?z" for x
    using offset_less [of "b + ?z" "unat ?z" x] that bz top by (auto simp: memcpy_def word_less_nat_alt)
  have "unat (b + (a - lb_start env)) < unat b + unat ?z" if "in_coreboot env a"
  proof -
    have "unat (a - lb_start env) < unat ?z" using lb that by (simp add: word_less_nat_alt)
    then show ?thesis using ok by (subst unat_add_no_wrap) (auto simp: env_ok_def)
  qed
  then show ?thesis using copy a lb
    by (simp add: jmp_payload_def Let_def z view_def) (simp add: memcpy_def [of "lb_start env" b])
qed

section \<open>Making room for the bounce buffer\<close>

definition bounce_top :: "selfboot_env \<Rightarrow> segment list \<Rightarrow> nat \<Rightarrow> nat" where
  "bounce_top env = fold (\<lambda>s h. if overlaps_coreboot env s then max h (seg_end s) else h)"

lemma bounce_top_simps [simp]:
  "bounce_top env [] h = h"
  "bounce_top env (s # ss) h = bounce_top env ss (if overlaps_coreboot env s then max h (seg_end s) else h)"
  by (simp_all add: bounce_top_def)

lemma bounce_top_ge: "h \<le> bounce_top env ss h"
proof (induction ss arbitrary: h)
  case (Cons s ss)
  have "h \<le> (if overlaps_coreboot env s then max h (seg_end s) else h)" by simp
  also have "\<dots> \<le> bounce_top env (s # ss) h" unfolding bounce_top_simps by (rule Cons.IH)
  finally show ?case .
qed simp

lemma bounce_top_le: "\<forall>s \<in> set ss. seg_end s \<le> x \<Longrightarrow> h \<le> x \<Longrightarrow> bounce_top env ss h \<le> x"
  by (induction ss arbitrary: h) auto

definition page_covered :: "segment \<Rightarrow> u64 \<Rightarrow> bool" where
  "page_covered s a \<longleftrightarrow> covers (ucast (s_dstaddr s)) (ucast (s_memsz s)) a"

lemma ucast_unat [simp]: "unat (ucast (x :: u32) :: u64) = unat x"
  using unat_less_exp [of x] by (simp add: unat_ucast_mod)

lemma segment_region:
  "seg_begin s < seg_end s \<Longrightarrow> seg_end s < 2 ^ 32 \<Longrightarrow> region_ok (ucast (s_dstaddr s)) (ucast (s_memsz s))"
  by (simp add: region_ok_def seg_begin_def seg_end_def word_less_nat_alt)

lemma mark_segments_spec:
  assumes "\<forall>s \<in> set ss. seg_begin s < seg_end s \<and> seg_end s < 2 ^ 32" "bootmem_ok bm" "heap_room (2 * length ss + n) pool"
  shows "\<exists>h' bm' pool'. mark_segments env ss h bm pool = Some (h', bm', pool') \<and> heap_room n pool' \<and> bootmem_ok bm'
    \<and> unat h' = bounce_top env ss (unat h)
    \<and> (\<forall>a. tag_at bm' a = (if \<exists>s \<in> set ss. page_covered s a then Some LB_MEM_UNUSABLE else tag_at bm a))"
  using assms
proof (induction ss arbitrary: h bm pool)
  case (Cons s ss)
  have s: "seg_begin s < seg_end s" "seg_end s < 2 ^ 32" using Cons.prems(1) by auto
  have "heap_room (2 * length ss + n + 2) pool" using Cons.prems(3) by (simp add: ac_simps)
  then obtain bm1 pool1 where add: "bootmem_add_range (ucast (s_dstaddr s)) (ucast (s_memsz s)) LB_MEM_UNUSABLE bm pool = Some (bm1, pool1)"
    and room: "heap_room (2 * length ss + n) pool1" using bootmem_add_range_room by blast
  have bm: "wf_ranges bm" "page_tags bm" "tag_at bm (-1) = None" using Cons.prems(2) by (auto simp: bootmem_ok_def)
  note sp = bootmem_add_range_spec [OF add bm(1,2) segment_region [OF s]]
  have "unat (-1 :: u64) = 2 ^ 64 - 1" by (simp add: unsigned_minus_1_eq_mask mask_eq_exp_minus_1)
  then have "\<not> page_covered s (-1)" using s(2) by (simp add: page_covered_def covers_def seg_end_def)
  then have ok1: "bootmem_ok bm1" using sp bm(3) by (simp add: bootmem_ok_def page_covered_def)
  let ?e = "s_dstaddr s + s_memsz s"
  let ?h = "if overlaps_coreboot env s \<and> h < ?e then ?e else h"
  have h: "unat ?h = (if overlaps_coreboot env s then max (unat h) (seg_end s) else unat h)"
    using seg_end_word [OF s(2)] by (auto simp: word_less_nat_alt)
  have "\<forall>s \<in> set ss. seg_begin s < seg_end s \<and> seg_end s < 2 ^ 32" using Cons.prems(1) by simp
  from Cons.IH [OF this ok1 room, of ?h]
  obtain h' bm' pool' where r: "mark_segments env ss ?h bm1 pool1 = Some (h', bm', pool')" "heap_room n pool'" "bootmem_ok bm'"
    "unat h' = bounce_top env ss (unat ?h)"
    "\<forall>a. tag_at bm' a = (if \<exists>s \<in> set ss. page_covered s a then Some LB_MEM_UNUSABLE else tag_at bm1 a)" by blast
  have t: "\<forall>a. tag_at bm' a = (if \<exists>s \<in> set (s # ss). page_covered s a then Some LB_MEM_UNUSABLE else tag_at bm a)"
    using r(5) sp by (simp add: page_covered_def)
  have "unat h' = bounce_top env (s # ss) (unat h)" using r(4) h by simp
  then show ?case using add r(1-3) t by (intro exI [of _ h'] exI [of _ bm'] exI [of _ pool']) simp
qed simp

text \<open>The bytes asked of the memory map: an image of what lies on coreboot, and room for a copy of it.\<close>

definition bounce_bytes :: "selfboot_env \<Rightarrow> segment list \<Rightarrow> nat" where
  "bounce_bytes env ss = (bounce_top env ss (unat (lb_end env)) - unat (lb_start env)) + (unat (lb_end env) - unat (lb_start env))"

text \<open>
  What the loader needs of the payload and the memory map: segments in memory it may use, and free
  RAM at some page \<open>x\<close> above coreboot and the payload for the bounce buffer.
\<close>

definition payload_ok :: "selfboot_env \<Rightarrow> segment list \<Rightarrow> memranges \<Rightarrow> nat \<Rightarrow> bool" where
  "payload_ok env ss bm x \<longleftrightarrow> \<not> relocatable_ramstage env \<and> unat (lb_start env) < unat (lb_end env)
     \<and> 4 dvd unat (lb_end env - lb_start env)
     \<and> (\<forall>s \<in> set ss. seg_proper env s \<and> seg_begin s < seg_end s
          \<and> (overlaps_coreboot env s \<longrightarrow> s_compression s = CBFS_COMPRESS_NONE \<or> s_filesz s = 0)
          \<and> (seg_end s \<le> 2 ^ 20 \<or> (\<forall>a. seg_begin s \<le> unat a \<and> unat a < seg_end s \<longrightarrow> tag_at bm a = Some LB_MEM_RAM)))
     \<and> 4096 dvd x \<and> unat (lb_end env) \<le> x \<and> (\<forall>s \<in> set ss. seg_end s \<le> x)
     \<and> free_run ((bounce_bytes env ss + 4095) div 4096 * 4096) bm x \<and> bounce_bytes env ss \<le> 2 ^ 32 - 4096"

lemma payload_targets:
  assumes "payload_ok env ss bm x" "bootmem_ok bm" "s \<in> set ss"
  shows "targets_ok bm s"
proof -
  have s: "seg_begin s < seg_end s" "seg_end s < 2 ^ 32"
    "seg_end s \<le> 2 ^ 20 \<or> (\<forall>a. seg_begin s \<le> unat a \<and> unat a < seg_end s \<longrightarrow> tag_at bm a = Some LB_MEM_RAM)"
    using assms(1,3) by (auto simp: payload_ok_def seg_proper_def)
  have d: "unat (ucast (s_dstaddr s) :: u64) = seg_begin s" "unat (ucast (s_dstaddr s) :: u64) + unat (ucast (s_memsz s) :: u64) = seg_end s"
    by (simp_all add: seg_begin_def seg_end_def)
  show ?thesis
  proof (cases "seg_end s \<le> 2 ^ 20")
    case True
    then show ?thesis using s(1) seg_end_word [OF s(2)]
      by (simp add: targets_ok_def word_less_nat_alt word_le_nat_alt seg_begin_def [symmetric])
  next
    case False
    have "(0 :: u64) < ucast (s_memsz s)" using s(1) by (simp add: word_less_nat_alt seg_begin_def seg_end_def)
    moreover have "unat (ucast (s_dstaddr s) :: u64) + unat (ucast (s_memsz s) :: u64) < 2 ^ 64" unfolding d(2) using s(2) by simp
    ultimately have "bootmem_region_targets_usable_ram (ucast (s_dstaddr s)) (ucast (s_memsz s)) bm"
      using targets_usable_ram_iff [OF assms(2), of "ucast (s_memsz s)" "ucast (s_dstaddr s)"] s(3) False d by simp
    then show ?thesis by (simp add: targets_ok_def)
  qed
qed

lemma free_run_marked:
  assumes f: "free_run n bm x" and x: "4096 dvd x" "\<forall>s \<in> set ss. seg_end s \<le> x"
    and t: "\<forall>a. tag_at bm' a = (if \<exists>s \<in> set ss. page_covered s a then Some LB_MEM_UNUSABLE else tag_at bm a)"
  shows "free_run n bm' x"
proof -
  have "\<not> page_covered s a" if "s \<in> set ss" "x \<le> unat a" for s a
  proof -
    have "x div 4096 * 4096 \<le> unat a div 4096 * 4096" using that(2) by (simp add: div_le_mono)
    then have "seg_end s \<le> unat a div 4096 * 4096" using x that(1) by (simp add: dvd_div_mult_self) (meson le_trans)
    then show ?thesis by (simp add: page_covered_def covers_def seg_end_def)
  qed
  then show ?thesis using f t by (auto simp: free_run_def)
qed

lemma load_self_ok:
  assumes ok: "payload_ok env ss (self_bm st) x" and bm: "bootmem_ok (self_bm st)"
    and room: "heap_room (6 * length ss + 2) (self_pool st)"
  shows "\<exists>pl' st'. load_self_segments env ss pl st = Some (1, pl', st') \<and> env_ok env (pl_bounce_data pl')
    \<and> unat (pl_bounce_data pl') + 2 * unat (lb_end env - lb_start env) \<le> 2 ^ 32
    \<and> x \<le> unat (pl_bounce_data pl')
    \<and> loaded_all env (pl_bounce_data pl') ss (view env (pl_bounce_data pl') (self_mem st)) (view env (pl_bounce_data pl') (self_mem st'))
    \<and> (\<forall>a. in_coreboot env a \<longrightarrow> self_mem st' a = self_mem st a)"
proof -
  let ?n = "(bounce_bytes env ss + 4095) div 4096 * 4096"
  have lb: "unat (lb_start env) < unat (lb_end env)" "unat (lb_end env) \<le> x" and xx: "4096 dvd x" "\<forall>s \<in> set ss. seg_end s \<le> x"
    and f: "free_run ?n (self_bm st) x" and le: "bounce_bytes env ss \<le> 2 ^ 32 - 4096" and rel: "\<not> relocatable_ramstage env"
    using ok by (auto simp: payload_ok_def)
  have segs: "\<forall>s \<in> set ss. seg_begin s < seg_end s \<and> seg_end s < 2 ^ 32" using ok by (auto simp: payload_ok_def seg_proper_def)
  have "heap_room (2 * length ss + (4 * length ss + 2)) (self_pool st)" using room by (rule heap_room_mono) simp
  from mark_segments_spec [OF segs bm this, of env "lb_end env"]
  obtain h bm1 pool1 where m: "mark_segments env ss (lb_end env) (self_bm st) (self_pool st) = Some (h, bm1, pool1)"
    "heap_room (4 * length ss + 2) pool1" "bootmem_ok bm1" "unat h = bounce_top env ss (unat (lb_end env))"
    "\<forall>a. tag_at bm1 a = (if \<exists>s \<in> set ss. page_covered s a then Some LB_MEM_UNUSABLE else tag_at (self_bm st) a)" by blast
  let ?z = "lb_end env - lb_start env"
  have uz: "unat ?z = unat (lb_end env) - unat (lb_start env)" using lb by (simp add: unat_sub_if')
  have hge: "unat (lb_end env) \<le> unat h" using m(4) bounce_top_ge by simp
  then have "unat (h - lb_start env) = unat h - unat (lb_start env)" using lb by (simp add: unat_sub_if')
  then have sz: "unat (h - lb_start env + ?z) = bounce_bytes env ss"
    using uz m(4) le by (subst unat_add_no_wrap) (auto simp: bounce_bytes_def)
  have pos: "2 * unat ?z \<le> bounce_bytes env ss" using uz hge m(4) by (simp add: bounce_bytes_def)
  have "0 < unat ?z" using uz lb by simp
  then have sp: "0 < h - lb_start env + ?z" using sz pos by (simp add: word_less_nat_alt)
  have bb: "buffer_bytes (h - lb_start env + ?z) = ?n" using sz by (simp add: buffer_bytes_def)
  have f1: "free_run ?n bm1 x" by (rule free_run_marked [OF f xx m(5)])
  obtain p bm2 pool2 where a: "bootmem_allocate_buffer (h - lb_start env + ?z) bm1 pool1 = Some (p, bm2, pool2)"
    "heap_room (4 * length ss) pool2" "free_run ?n bm1 (unat p)" "x \<le> unat p"
  proof -
    have "unat (h - lb_start env + ?z) \<le> 2 ^ 32 - 4096" using sz le by simp
    from bootmem_allocate_spec [OF m(3,2) sp this, unfolded bb] f1 show thesis using that by (auto split: if_splits)
  qed
  have n: "bounce_bytes env ss \<le> ?n" by linarith
  have top: "unat p + ?n \<le> 2 ^ 32" using a(3) by (simp add: free_run_def)
  have env: "env_ok env p" using lb a(4) top n pos \<open>0 < unat ?z\<close> by (simp add: env_ok_def)
  have "\<forall>s \<in> set ss. placeable env p s" using ok a(4) by (auto simp: payload_ok_def placeable_def)
  from load_list [OF this env, of 0 pool2 "self_mem st"] a(2)
  obtain mem' pool3 where l: "load_loop env p ss (self_mem st) pool2 = Some (1, mem', pool3)"
    "loaded_all env p ss (view env p (self_mem st)) (view env p mem')" "\<forall>a. in_coreboot env a \<longrightarrow> mem' a = self_mem st a" by auto
  have t: "\<not> list_ex (\<lambda>ptr. \<not> targets_ok (self_bm st) ptr) ss"
    using payload_targets [OF ok bm] by (simp add: list_ex_iff)
  have p0: "p \<noteq> 0" using a(4) lb by auto
  let ?pl = "pl\<lparr>pl_bounce_data := p, pl_bounce_size := h - lb_start env\<rparr>"
  let ?st = "st\<lparr>self_bm := bm2, self_pool := pool3, self_mem := mem'\<rparr>"
  have "load_self_segments env ss pl st = Some (1, ?pl, ?st)"
    using t m(1) a(1) rel p0 l(1) by (simp add: load_self_segments_def get_bounce_buffer_def Let_def)
  then show ?thesis using env l(2,3) a(4) top n pos by (intro exI [of _ ?pl] exI [of _ ?st]) simp
qed

section \<open>The list the loader builds\<close>

definition loads :: "cbfs_payload_segment \<Rightarrow> bool" where
  "loads seg \<longleftrightarrow> cps_type seg \<in> {PAYLOAD_SEGMENT_CODE, PAYLOAD_SEGMENT_DATA, PAYLOAD_SEGMENT_BSS}"

definition made_from :: "selfboot_env \<Rightarrow> payload \<Rightarrow> cbfs_payload_segment \<Rightarrow> segment \<Rightarrow> bool" where
  "made_from env pl seg s \<longleftrightarrow> (if cps_type seg = PAYLOAD_SEGMENT_BSS then \<exists>p. s = bss_segment env pl p seg else s = file_segment pl seg)"

lemma mset_place_segment: "mset (place_segment new next_load ptrs) = add_mset new (mset ptrs)"
  by (induction ptrs) auto

lemma place_segment_last: "next_load \<le> ucast (s_srcaddr new) \<Longrightarrow> place_segment new next_load ptrs = ptrs @ [new]"
  by (induction ptrs) auto

lemma made_from_src: "made_from env pl seg s \<Longrightarrow> s_srcaddr s = pl_data pl + ntohl (cps_offset seg)"
  by (auto simp: made_from_def bss_segment_def file_segment_def Let_def split: if_splits)

lemma build_loop_step:
  assumes "loads (pl_segments pl i)" "heap_room (k + 2) pool"
  shows "\<exists>s pool'. made_from env pl (pl_segments pl i) s \<and> heap_room k pool'
    \<and> build_loop env pl i head entry pool =
        build_loop env pl (i + 1) (place_segment s (ntohll (cps_load_addr (pl_segments pl (i + 1)))) head) entry pool'"
proof -
  obtain p pool' where a: "alloc_segment pool = Some (p, pool')" "heap_room k pool'"
    using alloc_segment_room [OF assms(2)] by blast
  have "cps_type (pl_segments pl i) = PAYLOAD_SEGMENT_CODE \<or> cps_type (pl_segments pl i) = PAYLOAD_SEGMENT_DATA
    \<or> cps_type (pl_segments pl i) = PAYLOAD_SEGMENT_BSS" using assms(1) by (simp add: loads_def)
  then show ?thesis
    using a by (subst build_loop.simps) (auto simp: made_from_def Let_def)
qed

lemma build_loop_spec:
  assumes "\<forall>j. i \<le> j \<and> j < n \<longrightarrow> loads (pl_segments pl j) \<or> cps_type (pl_segments pl j) = PAYLOAD_SEGMENT_PARAMS"
    and "cps_type (pl_segments pl n) = PAYLOAD_SEGMENT_ENTRY" and "i \<le> n" and "heap_room (2 * (n - i) + k) pool"
  shows "\<exists>ss head' pool'. build_loop env pl i head entry pool = Some (1, head', ucast (ntohll (cps_load_addr (pl_segments pl n))), pool')
    \<and> heap_room k pool' \<and> list_all2 (made_from env pl) (filter loads (map (pl_segments pl) [i..<n])) ss
    \<and> mset head' = mset head + mset ss
    \<and> ((\<forall>j. i \<le> j \<and> j < n \<longrightarrow> ntohll (cps_load_addr (pl_segments pl (j + 1))) \<le> ucast (pl_data pl + ntohl (cps_offset (pl_segments pl j))))
        \<longrightarrow> head' = head @ ss)"
  using assms(1,3,4)
proof (induction "n - i" arbitrary: i head pool)
  case 0
  then have i: "i = n" by simp
  have "build_loop env pl n head entry pool = Some (1, head, ucast (ntohll (cps_load_addr (pl_segments pl n))), pool)"
    by (subst build_loop.simps) (simp add: assms(2) Let_def)
  then show ?case using i 0 by (intro exI [of _ "[]"] exI [of _ head] exI [of _ pool]) simp
next
  case (Suc d)
  then have i: "i < n" "d = n - (i + 1)" "i + 1 \<le> n" by simp_all
  have up: "[i..<n] = i # [i + 1..<n]" using i(1) by (simp add: upt_conv_Cons)
  have rest: "\<forall>j. i + 1 \<le> j \<and> j < n \<longrightarrow> loads (pl_segments pl j) \<or> cps_type (pl_segments pl j) = PAYLOAD_SEGMENT_PARAMS"
    using Suc.prems(1) by simp
  show ?case
  proof (cases "loads (pl_segments pl i)")
    case True
    have "heap_room (2 * (n - (i + 1)) + k + 2) pool" using Suc.prems(3) by (rule heap_room_mono) (use i in simp)
    from build_loop_step [OF True this, of env head entry]
    obtain s pool1 where s: "made_from env pl (pl_segments pl i) s" "heap_room (2 * (n - (i + 1)) + k) pool1"
      "build_loop env pl i head entry pool =
        build_loop env pl (i + 1) (place_segment s (ntohll (cps_load_addr (pl_segments pl (i + 1)))) head) entry pool1" by blast
    let ?h = "place_segment s (ntohll (cps_load_addr (pl_segments pl (i + 1)))) head"
    from Suc.hyps(1) [OF i(2) rest i(3) s(2), of ?h]
    obtain ss head' pool' where r: "build_loop env pl (i + 1) ?h entry pool1 = Some (1, head', ucast (ntohll (cps_load_addr (pl_segments pl n))), pool')"
      "heap_room k pool'" "list_all2 (made_from env pl) (filter loads (map (pl_segments pl) [i + 1..<n])) ss"
      "mset head' = mset ?h + mset ss"
      "(\<forall>j. i + 1 \<le> j \<and> j < n \<longrightarrow> ntohll (cps_load_addr (pl_segments pl (j + 1))) \<le> ucast (pl_data pl + ntohl (cps_offset (pl_segments pl j))))
        \<longrightarrow> head' = ?h @ ss" by blast
    have m: "mset head' = mset head + mset (s # ss)" using r(4) by (simp add: mset_place_segment)
    have l: "list_all2 (made_from env pl) (filter loads (map (pl_segments pl) [i..<n])) (s # ss)"
      using r(3) s(1) True up by simp
    have o: "head' = head @ s # ss"
      if "\<forall>j. i \<le> j \<and> j < n \<longrightarrow> ntohll (cps_load_addr (pl_segments pl (j + 1))) \<le> ucast (pl_data pl + ntohl (cps_offset (pl_segments pl j)))"
    proof -
      have "ntohll (cps_load_addr (pl_segments pl (i + 1))) \<le> ucast (s_srcaddr s)" using that i(1) made_from_src [OF s(1)] by simp
      from place_segment_last [OF this] show ?thesis using r(5) that by simp
    qed
    show ?thesis using r(1,2) s(3) m l o by (intro exI [of _ "s # ss"] exI [of _ head'] exI [of _ pool']) simp
  next
    case False
    then have p: "cps_type (pl_segments pl i) = PAYLOAD_SEGMENT_PARAMS" using Suc.prems(1) i(1) by blast
    have b: "build_loop env pl i head entry pool = build_loop env pl (i + 1) head entry pool"
      by (subst build_loop.simps) (simp add: p Let_def)
    have "heap_room (2 * (n - (i + 1)) + k) pool" using Suc.prems(3) by (rule heap_room_mono) simp
    from Suc.hyps(1) [OF i(2) rest i(3) this, of head] show ?thesis unfolding b up using False by fastforce
  qed
qed

text \<open>What a segment left below the buffer, address by address.\<close>

lemma final_segment:
  assumes l: "loaded env b s V V'" and pl: "placeable env b s" and f: "\<And>a. unat a < unat b \<Longrightarrow> F a = V' a"
  shows "(\<forall>k < length (file_bytes env s). F (s_dstaddr s + of_nat k) = file_bytes env s ! k)
      \<and> (\<not> overlaps_coreboot env s \<and> s_filesz s \<noteq> 0 \<longrightarrow>
          (\<forall>k. length (file_bytes env s) \<le> k \<and> k < unat (s_memsz s) \<longrightarrow> F (s_dstaddr s + of_nat k) = 0))"
proof -
  have p: "seg_proper env s" "seg_end s \<le> unat b" using pl by (auto simp: placeable_def)
  have addr: "unat (s_dstaddr s + of_nat k) = seg_begin s + k" if "k < unat (s_memsz s)" for k
  proof -
    have "unat (of_nat k :: u32) = k" using that unat_less_exp [of "s_memsz s"] by (simp add: unsigned_of_nat take_bit_nat_eq_self)
    then show ?thesis using that p(1) by (subst unat_add_no_wrap) (auto simp: seg_proper_def seg_begin_def seg_end_def)
  qed
  have at: "if k < length (file_bytes env s) then F (s_dstaddr s + of_nat k) = file_bytes env s ! k
    else \<not> overlaps_coreboot env s \<and> s_filesz s \<noteq> 0 \<longrightarrow> F (s_dstaddr s + of_nat k) = 0" if k: "k < unat (s_memsz s)" for k
  proof -
    have "seg_begin s + k < unat b" using k p(2) by (simp add: seg_begin_def seg_end_def)
    then show ?thesis using l f [of "s_dstaddr s + of_nat k"] addr [OF k] k
      unfolding loaded_def by (auto simp: seg_begin_def seg_end_def dest!: spec [of _ "s_dstaddr s + of_nat k"] split: if_splits)
  qed
  have "length (file_bytes env s) \<le> unat (s_memsz s)" using file_bytes_le [OF p(1)] by (simp add: seg_begin_def seg_end_def)
  then show ?thesis using at by (meson less_le_trans not_le)
qed

section \<open>Properties\<close>

text \<open>
  C38.  The table of a payload that consists of code, data, BSS and parameter entries and ends with its
  entry point becomes a list with every code, data and BSS segment exactly once and the entry
  point, in the order of the table when each segment lies in flash at or above the load address of the
  next entry.  The loop ends.
\<close>

theorem segment_list_complete:
  assumes "\<forall>j < n. loads (pl_segments pl j) \<or> cps_type (pl_segments pl j) = PAYLOAD_SEGMENT_PARAMS"
    and "cps_type (pl_segments pl n) = PAYLOAD_SEGMENT_ENTRY" and "heap_room (2 * n) pool"
  shows "\<exists>ss head pool'. build_self_segment_list env pl 0 pool = Some (1, head, ucast (ntohll (cps_load_addr (pl_segments pl n))), pool')
    \<and> list_all2 (made_from env pl) (filter loads (map (pl_segments pl) [0..<n])) ss \<and> mset head = mset ss
    \<and> ((\<forall>j < n. ntohll (cps_load_addr (pl_segments pl (j + 1))) \<le> ucast (pl_data pl + ntohl (cps_offset (pl_segments pl j))))
        \<longrightarrow> head = ss)"
  using build_loop_spec [of 0 n pl 0 pool env "[]" 0] assms unfolding build_self_segment_list_def by force

text \<open>
  C3.  \<^verbatim>\<open>selfload\<close> on a payload whose segments lie apart, in RAM or below 1 MiB, uncompressed where they
  meet coreboot, with free RAM for the bounce buffer above them: it returns the entry point; the running
  coreboot is not written; and after the copy before the jump every byte of every segment's data is at
  its place, what lies behind the data of a segment beside coreboot is zero, and memory below
  the buffer that is in no segment and not coreboot's is as it was.
\<close>

theorem payload_delivered:
  assumes "build_self_segment_list env pl 0 (self_pool st) = Some (1, head, entry, pool)"
    and "payload_ok env head (self_bm st) x" and "sorted_wrt apart head"
    and "bootmem_ok (self_bm st)" and "heap_room (6 * length head + 2) pool"
  shows "\<exists>pl' st'. selfload env pl st = Some (entry, pl', st')
    \<and> (\<forall>a. in_coreboot env a \<longrightarrow> self_mem st' a = self_mem st a)
    \<and> (\<forall>s \<in> set head.
        (\<forall>k < length (file_bytes env s). snd (arch_payload_run env pl' (self_mem st')) (s_dstaddr s + of_nat k) = file_bytes env s ! k)
        \<and> (\<not> overlaps_coreboot env s \<and> s_filesz s \<noteq> 0 \<longrightarrow>
            (\<forall>k. length (file_bytes env s) \<le> k \<and> k < unat (s_memsz s) \<longrightarrow>
              snd (arch_payload_run env pl' (self_mem st')) (s_dstaddr s + of_nat k) = 0)))
    \<and> (\<forall>a. unat a < x \<and> \<not> in_coreboot env a \<and> (\<forall>s \<in> set head. unat a < seg_begin s \<or> seg_end s \<le> unat a)
        \<longrightarrow> snd (arch_payload_run env pl' (self_mem st')) a = self_mem st a)"
proof -
  let ?st = "st\<lparr>self_pool := pool\<rparr>"
  obtain pl' st' where l: "load_self_segments env head pl ?st = Some (1, pl', st')" "env_ok env (pl_bounce_data pl')"
    "unat (pl_bounce_data pl') + 2 * unat (lb_end env - lb_start env) \<le> 2 ^ 32" "x \<le> unat (pl_bounce_data pl')"
    "loaded_all env (pl_bounce_data pl') head (view env (pl_bounce_data pl') (self_mem st)) (view env (pl_bounce_data pl') (self_mem st'))"
    "\<forall>a. in_coreboot env a \<longrightarrow> self_mem st' a = self_mem st a"
    using load_self_ok [of env head ?st x pl] assms(2,4,5) by auto
  let ?b = "pl_bounce_data pl'"
  let ?final = "snd (arch_payload_run env pl' (self_mem st'))"
  have self: "selfload env pl st = Some (entry, pl', st')" using assms(1) l(1) by (simp add: selfload_def Let_def)
  have four: "4 dvd unat (lb_end env - lb_start env)" and rel: "\<not> relocatable_ramstage env" using assms(2) by (auto simp: payload_ok_def)
  have fin: "?final a = view env ?b (self_mem st') a" if "unat a < unat ?b" for a
    using jmp_view [OF l(2) four l(3) that] rel by (simp add: arch_payload_run_def)
  have pl: "\<forall>s \<in> set head. placeable env ?b s" using assms(2) l(4) by (auto simp: payload_ok_def placeable_def)
  have seg: "(\<forall>k < length (file_bytes env s). ?final (s_dstaddr s + of_nat k) = file_bytes env s ! k)
      \<and> (\<not> overlaps_coreboot env s \<and> s_filesz s \<noteq> 0 \<longrightarrow>
          (\<forall>k. length (file_bytes env s) \<le> k \<and> k < unat (s_memsz s) \<longrightarrow> ?final (s_dstaddr s + of_nat k) = 0))"
    if "s \<in> set head" for s
    by (rule final_segment [OF loaded_all_apart [OF l(5) assms(3) pl that]]) (use pl that fin in auto)
  have "?final a = self_mem st a"
    if a: "unat a < x" "\<not> in_coreboot env a" "\<forall>s \<in> set head. unat a < seg_begin s \<or> seg_end s \<le> unat a" for a
  proof -
    have "\<forall>s \<in> set head. seg_proper env s \<and> (unat a < seg_begin s \<or> seg_end s \<le> unat a)" using a(3) pl by (auto simp: placeable_def)
    then have "view env ?b (self_mem st') a = view env ?b (self_mem st) a" using loaded_all_outside [OF l(5)] a(1) l(4) by simp
    then show ?thesis using fin [of a] a(1,2) l(4) by (simp add: view_def)
  qed
  then show ?thesis using self l(6) seg by blast
qed

text \<open>A payload of one segment that begins before coreboot and ends inside it, on a board with 16 MiB.\<close>

definition example_env :: selfboot_env where
  "example_env = \<lparr>lb_start = 0x200000, lb_end = 0x204000, rom = ucast, ulzma = (\<lambda>_. (0, [])), fresh_compression = (\<lambda>_. 7),
     relocatable_ramstage = False\<rparr>"

definition example_payload :: payload where
  "example_payload = \<lparr>pl_data = 0xfff00000, pl_segments = (\<lambda>i. if i = 0
       then \<lparr>cps_type = PAYLOAD_SEGMENT_CODE, cps_compression = 0, cps_offset = 0x38000000, cps_load_addr = 0x00ff1f0000000000,
              cps_len = 0x80010000, cps_mem_len = 0x00020000\<rparr>
       else \<lparr>cps_type = PAYLOAD_SEGMENT_ENTRY, cps_compression = 0, cps_offset = 0, cps_load_addr = 0x00ff1f0000000000,
              cps_len = 0, cps_mem_len = 0\<rparr>),
     pl_bounce_data = 0, pl_bounce_size = 0, pl_entry = 0\<rparr>"

definition example_segment :: segment where
  "example_segment = \<lparr>s_dstaddr = 0x1fff00, s_srcaddr = 0xfff00038, s_memsz = 0x200, s_filesz = 0x180, s_compression = 0\<rparr>"

lemma segment_list_complete_witness:
  "\<exists>ss head pool'. build_self_segment_list example_env example_payload 0 example_pool = Some (1, head, 0x1fff00, pool')
    \<and> list_all2 (made_from example_env example_payload) [pl_segments example_payload 0] ss \<and> mset head = mset ss"
proof -
  have e: "ucast (ntohll (cps_load_addr (pl_segments example_payload 1))) = (0x1fff00 :: u32)"
    by (simp add: example_payload_def swab64_def)
  have "\<forall>j < 1. loads (pl_segments example_payload j) \<or> cps_type (pl_segments example_payload j) = PAYLOAD_SEGMENT_PARAMS"
    "cps_type (pl_segments example_payload 1) = PAYLOAD_SEGMENT_ENTRY" "heap_room (2 * 1) example_pool"
    "filter loads (map (pl_segments example_payload) [0..<1]) = [pl_segments example_payload 0]"
    by (simp_all add: example_payload_def loads_def example_pool_room)
  from segment_list_complete [OF this(1-3), of example_env] this(4) e show ?thesis by auto
qed

lemma example_build:
  "\<exists>pool. build_self_segment_list example_env example_payload 0 example_pool = Some (1, [example_segment], 0x1fff00, pool)
    \<and> heap_room 8 pool"
proof -
  have s: "file_segment example_payload (pl_segments example_payload 0) = example_segment"
    by (simp add: file_segment_def example_payload_def example_segment_def swab32_def swab64_def Let_def)
  obtain p pool where a: "alloc_segment example_pool = Some (p, pool)" "heap_room 8 pool"
    using alloc_segment_room [of 8 example_pool] example_pool_room by auto
  have e: "ucast (ntohll (cps_load_addr (pl_segments example_payload 1))) = (0x1fff00 :: u32)"
    by (simp add: example_payload_def swab64_def)
  have t: "cps_type (pl_segments example_payload 0) = PAYLOAD_SEGMENT_CODE" "cps_type (pl_segments example_payload 1) = PAYLOAD_SEGMENT_ENTRY"
    by (simp_all add: example_payload_def)
  have "build_loop example_env example_payload 0 [] 0 example_pool = build_loop example_env example_payload 1 [example_segment] 0 pool"
    by (subst build_loop.simps) (simp add: a s t Let_def)
  also have "\<dots> = Some (1, [example_segment], 0x1fff00, pool)"
    by (subst build_loop.simps) (simp add: e t Let_def del: One_nat_def)
  finally show ?thesis using a(2) by (simp add: build_self_segment_list_def)
qed

lemma example_payload_ok: "payload_ok example_env [example_segment] example_bm 0x210000"
proof -
  have b: "seg_begin example_segment = 0x1fff00" "seg_end example_segment = 0x200100"
    by (simp_all add: example_segment_def seg_begin_def seg_end_def)
  have o: "overlaps_coreboot example_env example_segment" by (simp add: overlaps_coreboot_def example_env_def example_segment_def)
  have n: "bounce_bytes example_env [example_segment] = 0x8000"
    using o by (simp add: bounce_bytes_def b) (simp add: example_env_def)
  have t: "tag_at example_bm a = Some LB_MEM_RAM" if "unat a < 0x1000000" for a
    using that by (simp add: example_bm_def word_le_nat_alt)
  have f: "free_run 0x8000 example_bm 0x210000" using t by (simp add: free_run_def)
  have p: "seg_proper example_env example_segment" by (simp add: seg_proper_def b) (simp add: example_segment_def)
  show ?thesis using t f p
    by (simp add: payload_ok_def n b) (simp add: example_env_def example_segment_def)
qed

lemma payload_delivered_witness:
  "\<exists>pl' st'. selfload example_env example_payload \<lparr>self_mem = (\<lambda>_. 0x55), self_bm = example_bm, self_pool = example_pool\<rparr> = Some (0x1fff00, pl', st')
    \<and> self_mem st' 0x200000 = 0x55
    \<and> snd (arch_payload_run example_env pl' (self_mem st')) 0x200000 = rom example_env 0xfff00138"
proof -
  obtain pool where b: "build_self_segment_list example_env example_payload 0 example_pool = Some (1, [example_segment], 0x1fff00, pool)"
    "heap_room 8 pool" using example_build by blast
  let ?st = "\<lparr>self_mem = (\<lambda>_. 0x55), self_bm = example_bm, self_pool = example_pool\<rparr>"
  have bytes: "0x100 < length (file_bytes example_env example_segment)" "file_bytes example_env example_segment ! 0x100 = rom example_env 0xfff00138"
    by (simp_all add: file_bytes_def example_segment_def)
  have "build_self_segment_list example_env example_payload 0 (self_pool ?st) = Some (1, [example_segment], 0x1fff00, pool)"
    "payload_ok example_env [example_segment] (self_bm ?st) 0x210000" "sorted_wrt apart [example_segment]" "bootmem_ok (self_bm ?st)"
    "heap_room (6 * length [example_segment] + 2) pool"
    using b example_payload_ok example_bm_ok by simp_all
  from payload_delivered [OF this] obtain pl' st' where
    r: "selfload example_env example_payload ?st = Some (0x1fff00, pl', st')"
    and c: "\<forall>a. in_coreboot example_env a \<longrightarrow> self_mem st' a = 0x55"
    and d: "\<forall>k < length (file_bytes example_env example_segment).
      snd (arch_payload_run example_env pl' (self_mem st')) (s_dstaddr example_segment + of_nat k) = file_bytes example_env example_segment ! k"
    by auto
  have "in_coreboot example_env 0x200000" by (simp add: in_coreboot_def example_env_def)
  moreover have "s_dstaddr example_segment + of_nat 0x100 = 0x200000" by (simp add: example_segment_def)
  ultimately show ?thesis using r c d bytes by (metis (no_types, lifting))
qed

section \<open>Where the loader goes wrong\<close>

text \<open>An unknown encoding stops the loop with -1, which \<^verbatim>\<open>selfload\<close> takes for success.\<close>

lemma load_loop_unknown:
  assumes "\<not> overlaps_coreboot env s" "s_filesz s \<noteq> 0" "s_compression s \<notin> {CBFS_COMPRESS_NONE, CBFS_COMPRESS_LZMA}"
  shows "load_loop env b (s # rest) mem pool = Some (-1, mem, pool)"
  using assms by (subst load_loop.simps) (simp add: relocate_segment_def load_segment_def)

lemma selfload_minus_one:
  "build_self_segment_list env pl 0 (self_pool st) = Some (r, head, entry, pool) \<Longrightarrow> r \<noteq> 0
    \<Longrightarrow> load_self_segments env head pl (st\<lparr>self_pool := pool\<rparr>) = Some (-1, pl', st') \<Longrightarrow> selfload env pl st = Some (entry, pl', st')"
  by (simp add: selfload_def Let_def)

text \<open>A segment without data is not cleared.\<close>

lemma bss_not_cleared: "load_segment env b (bss_segment env pl p seg) mem = Inr mem"
  by (simp add: load_segment_def bss_segment_def)

text \<open>
  For a segment that lies above the image of coreboot in the bounce buffer, memory behind coreboot is
  overwritten, although the segment does not stick out of the image.
\<close>

lemma suffix_moved:
  assumes "b \<le> s_dstaddr s" "b < s_dstaddr s + s_memsz s" "b + (lb_end env - lb_start env) < s_dstaddr s + s_memsz s"
  shows "finish_segment env b s (s_memsz s) mem =
    memcpy (lb_end env) (b + (lb_end env - lb_start env)) (s_dstaddr s + s_memsz s - (b + (lb_end env - lb_start env))) mem"
proof -
  have "\<not> s_dstaddr s < b" using assms(1) by simp
  then show ?thesis using assms(2,3) by (simp add: finish_segment_def Let_def)
qed

text \<open>With flash below the load address of the next entry, a segment goes to the front of the list.\<close>

lemma place_segment_first: "ucast (s_srcaddr new) < next_load \<Longrightarrow> place_segment new next_load ptrs = new # ptrs"
  by (cases ptrs) auto

end
