(* ===== verification/Cbfs.thy ===== *)
theory Cbfs
  imports Selfboot
begin

text \<open>
  The file system in flash: \<^verbatim>\<open>src/lib/cbfs_core.c\<close>, \<^verbatim>\<open>src/lib/cbfs.c\<close>, the flash medium of
  \<^verbatim>\<open>src/arch/x86/lib/rom_media.c\<close>, and the payload loader's use of it.  Memory with the mapped flash is a
  map from addresses to bytes, as in \<open>Selfboot\<close>; the LZMA decoder is a parameter, \<open>lzma\<close>, that gives
  the length it returns and the bytes it writes.  The specification of a flash is the list of its files.
\<close>

section \<open>Words and strings in memory\<close>

definition read32 :: "memory \<Rightarrow> u32 \<Rightarrow> u32" where
  "read32 mem a = ucast (mem a) OR push_bit 8 (ucast (mem (a + 1))) OR push_bit 16 (ucast (mem (a + 2))) OR push_bit 24 (ucast (mem (a + 3)))"

definition read64 :: "memory \<Rightarrow> u32 \<Rightarrow> u64" where
  "read64 mem a = ucast (read32 mem a) OR push_bit 32 (ucast (read32 mem (a + 4)))"

text \<open>\<^verbatim>\<open>memcmp\<close> and \<^verbatim>\<open>strcmp\<close> are only tested for zero; \<open>strncmp\<close> ends at the terminator of the string, too.\<close>

fun memcmp_eq :: "memory \<Rightarrow> u32 \<Rightarrow> u8 list \<Rightarrow> bool" where
  "memcmp_eq mem a [] \<longleftrightarrow> True"
| "memcmp_eq mem a (c # cs) \<longleftrightarrow> mem a = c \<and> memcmp_eq mem (a + 1) cs"

fun strcmp_eq :: "memory \<Rightarrow> u32 \<Rightarrow> u8 list \<Rightarrow> bool" where
  "strcmp_eq mem a [] \<longleftrightarrow> mem a = 0"
| "strcmp_eq mem a (c # cs) \<longleftrightarrow> mem a = c \<and> (c = 0 \<or> strcmp_eq mem (a + 1) cs)"

section \<open>The flash as a medium\<close>

abbreviation CBFS_HEADER_MAGIC :: u32 where "CBFS_HEADER_MAGIC \<equiv> 0x4F524243"
abbreviation CBFS_HEADER_INVALID_ADDRESS :: u32 where "CBFS_HEADER_INVALID_ADDRESS \<equiv> 0xffffffff"
abbreviation CBFS_MEDIA_INVALID_MAP_ADDRESS :: u32 where "CBFS_MEDIA_INVALID_MAP_ADDRESS \<equiv> 0xffffffff"
abbreviation CBFS_HEADER_ROM_ADDRESS :: "memory \<Rightarrow> u32" where "CBFS_HEADER_ROM_ADDRESS mem \<equiv> read32 mem 0xfffffffc"

text \<open>The context of the medium is the size of the flash, which ends at 4 GiB.\<close>

definition x86_rom_map :: "u32 \<Rightarrow> u32 \<Rightarrow> u32" where
  "x86_rom_map context offset = (if 0xf0000000 < offset then offset else 0 - context + offset)"

definition init_x86rom_cbfs_media :: "u32 \<Rightarrow> memory \<Rightarrow> u32" where
  "init_x86rom_cbfs_media rom_size mem =
     (let header = read32 mem 0xfffffffc
      in if ntohl (read32 mem header) \<noteq> CBFS_HEADER_MAGIC then rom_size else ntohl (read32 mem (header + 8)))"

definition cbfs_get_header :: "memory \<Rightarrow> u32 \<Rightarrow> u32" where
  "cbfs_get_header mem media =
     (let header = x86_rom_map media (CBFS_HEADER_ROM_ADDRESS mem)
      in if header = CBFS_MEDIA_INVALID_MAP_ADDRESS then CBFS_HEADER_INVALID_ADDRESS
         else if ntohl (read32 mem header) \<noteq> CBFS_HEADER_MAGIC then CBFS_HEADER_INVALID_ADDRESS
         else header)"

section \<open>Finding a file\<close>

text \<open>\<open>LARCHIVE\<close>, and the fields of \<^verbatim>\<open>struct cbfs_file\<close>.\<close>

definition CBFS_FILE_MAGIC :: "u8 list" where
  "CBFS_FILE_MAGIC = [0x4c, 0x41, 0x52, 0x43, 0x48, 0x49, 0x56, 0x45]"

abbreviation file_len :: "memory \<Rightarrow> u32 \<Rightarrow> u32" where "file_len mem file \<equiv> ntohl (read32 mem (file + 8))"
abbreviation file_type :: "memory \<Rightarrow> u32 \<Rightarrow> u32" where "file_type mem file \<equiv> ntohl (read32 mem (file + 12))"
abbreviation file_offset :: "memory \<Rightarrow> u32 \<Rightarrow> u32" where "file_offset mem file \<equiv> ntohl (read32 mem (file + 20))"

text \<open>
  The loop over the flash.  \<open>None\<close> is a division by zero, for an alignment of zero, or a walk that
  does not end; \<open>Some None\<close> is a name that is not found.
\<close>

partial_function (option) find_file :: "memory \<Rightarrow> u32 \<Rightarrow> u8 list \<Rightarrow> u32 \<Rightarrow> u32 \<Rightarrow> u32 \<Rightarrow> u32 option option" where
  "find_file mem media name align romsize offset =
     (if \<not> offset < romsize then Some None
      else
        let file = x86_rom_map media offset in
        if \<not> memcmp_eq mem file CBFS_FILE_MAGIC then
          if align = 0 then None
          else find_file mem media name align romsize
                 (offset + (if offset mod align \<noteq> 0 then align + (align - offset mod align) else align))
        else
          let file_name = x86_rom_map media (offset + 24) in
          if file_name \<noteq> CBFS_MEDIA_INVALID_MAP_ADDRESS \<and> strcmp_eq mem file_name name then Some (Some (x86_rom_map media offset))
          else if align = 0 then None
          else
            let offset = offset + (file_len mem file + file_offset mem file)
            in find_file mem media name align romsize (if offset mod align \<noteq> 0 then offset + (align - offset mod align) else offset))"

definition cbfs_get_file :: "u32 \<Rightarrow> memory \<Rightarrow> u8 list \<Rightarrow> u32 option option" where
  "cbfs_get_file rom_size mem name =
     (let media = init_x86rom_cbfs_media rom_size mem;
          header = cbfs_get_header mem media
      in if header = CBFS_HEADER_INVALID_ADDRESS then Some None
         else
           let offset = ntohl (read32 mem (header + 20)); align = ntohl (read32 mem (header + 16));
               romsize = ntohl (read32 mem (header + 8)) - ntohl (read32 mem (header + 12))
           in find_file mem media name align romsize offset)"

text \<open>The address and the size of the content.\<close>

definition cbfs_get_file_content :: "u32 \<Rightarrow> memory \<Rightarrow> u8 list \<Rightarrow> u32 \<Rightarrow> (u32 \<times> u32) option option" where
  "cbfs_get_file_content rom_size mem name typ = do {
     found \<leftarrow> cbfs_get_file rom_size mem name;
     Some (case found of None \<Rightarrow> None
           | Some file \<Rightarrow> if file_type mem file \<noteq> typ then None else Some (file + file_offset mem file, file_len mem file))
   }"

section \<open>Using a file\<close>

text \<open>
  Bytes up to a source address divisible by four are copied one by one, and the length that is
  returned counts only what comes after them.  \<open>memmove\<close> takes all bytes before it writes.
\<close>

fun copy_unaligned :: "nat \<Rightarrow> u32 \<Rightarrow> u32 \<Rightarrow> u32 \<Rightarrow> memory \<Rightarrow> u32 \<times> u32 \<times> u32 \<times> memory" where
  "copy_unaligned 0 src dst len mem = (src, dst, len, mem)"
| "copy_unaligned (Suc n) src dst len mem =
     (if len \<noteq> 0 \<and> src AND 3 \<noteq> 0 then copy_unaligned n (src + 1) (dst + 1) (len - 1) (mem(dst := mem src))
      else (src, dst, len, mem))"

text \<open>A source address is at most three bytes from a divisible one, so the fuel of four never runs out.\<close>

definition cbfs_decompress :: "(memory \<Rightarrow> u32 \<Rightarrow> u32 \<times> u8 list) \<Rightarrow> u32 \<Rightarrow> u32 \<Rightarrow> u32 \<Rightarrow> u32 \<Rightarrow> memory \<Rightarrow> u32 \<times> memory" where
  "cbfs_decompress lzma algo src dst len mem =
     (if algo = CBFS_COMPRESS_NONE then
        let (src, dst, len, mem) = copy_unaligned 4 src dst len mem in (len, memcpy dst src len mem)
      else if algo = CBFS_COMPRESS_LZMA then
        let (n, bytes) = lzma mem src in (n, write_bytes dst bytes mem)
      else (0, mem))"

abbreviation CBFS_TYPE_STAGE :: u32 where "CBFS_TYPE_STAGE \<equiv> 0x10"
abbreviation CBFS_TYPE_PAYLOAD :: u32 where "CBFS_TYPE_PAYLOAD \<equiv> 0x20"
abbreviation CBFS_TYPE_OPTIONROM :: u32 where "CBFS_TYPE_OPTIONROM \<equiv> 0x30"
abbreviation CBFS_TYPE_RAW :: u32 where "CBFS_TYPE_RAW \<equiv> 0x50"

text \<open>\<^verbatim>\<open>struct cbfs_stage\<close>: compression, entry (64 bits), load (64 bits), length, length in memory; the result is the entry or -1.\<close>

definition cbfs_load_stage :: "(memory \<Rightarrow> u32 \<Rightarrow> u32 \<times> u8 list) \<Rightarrow> u32 \<Rightarrow> u8 list \<Rightarrow> memory \<Rightarrow> (u32 \<times> memory) option" where
  "cbfs_load_stage lzma rom_size name mem = do {
     content \<leftarrow> cbfs_get_file_content rom_size mem name CBFS_TYPE_STAGE;
     Some (case content of None \<Rightarrow> (- 1, mem)
       | Some (stage, _) \<Rightarrow>
           let (final_size, mem) = cbfs_decompress lzma (read32 mem stage) (stage + 28) (ucast (read64 mem (stage + 12))) (read32 mem (stage + 20)) mem
           in if final_size = 0 then (- 1, mem)
              else
                let mem = memset (ucast (read64 mem (stage + 12)) + final_size) 0 (read32 mem (stage + 24) - final_size) mem
                in (ucast (read64 mem (stage + 4)), mem))
   }"

definition tohex4 :: "u32 \<Rightarrow> u8" where
  "tohex4 c = ucast (if c \<le> 9 then c + 0x30 else c - 10 + 0x61)"

definition tohex16 :: "u16 \<Rightarrow> u8 list" where
  "tohex16 val = (let val = ucast val in [tohex4 (drop_bit 12 val), tohex4 (drop_bit 8 val AND 0xf), tohex4 (drop_bit 4 val AND 0xf), tohex4 (val AND 0xf)])"

definition optionrom_name :: "u16 \<Rightarrow> u16 \<Rightarrow> u8 list" where
  "optionrom_name vendor device = [0x70, 0x63, 0x69] @ tohex16 vendor @ [0x2c] @ tohex16 device @ [0x2e, 0x72, 0x6f, 0x6d]"

definition cbfs_load_optionrom ::
  "(memory \<Rightarrow> u32 \<Rightarrow> u32 \<times> u8 list) \<Rightarrow> u32 \<Rightarrow> u16 \<Rightarrow> u16 \<Rightarrow> u32 \<Rightarrow> memory \<Rightarrow> (u32 \<times> memory) option" where
  "cbfs_load_optionrom lzma rom_size vendor device dest mem = do {
     content \<leftarrow> cbfs_get_file_content rom_size mem (optionrom_name vendor device) CBFS_TYPE_OPTIONROM;
     Some (case content of None \<Rightarrow> (0, mem)
       | Some (orom, _) \<Rightarrow>
           if dest = 0 then (orom, mem)
           else
             let (n, mem) = cbfs_decompress lzma (ntohl (read32 mem orom)) orom dest (ntohl (read32 mem (orom + 4))) mem
             in if n = 0 then (0, mem) else (dest, mem))
   }"

text \<open>Searching a string in a file; the length of the string is kept in a byte, and this \<^verbatim>\<open>strncmp\<close> compares that many bytes.\<close>

partial_function (option) find_string_loop :: "u8 list \<Rightarrow> memory \<Rightarrow> u32 \<Rightarrow> u32 option option" where
  "find_string_loop s mem data =
     (if mem data = 0 then Some None
      else if memcmp_eq mem data (take (length s mod 0x100) s) then Some (Some data)
      else find_string_loop s mem (data + 1))"

definition cbfs_find_string :: "u32 \<Rightarrow> u8 list \<Rightarrow> u8 list \<Rightarrow> memory \<Rightarrow> u32 option option" where
  "cbfs_find_string rom_size s filename mem = do {
     content \<leftarrow> cbfs_get_file_content rom_size mem filename CBFS_TYPE_RAW;
     case content of None \<Rightarrow> Some None | Some (data, _) \<Rightarrow> find_string_loop s mem data
   }"

section \<open>The payload's table\<close>

text \<open>\<^verbatim>\<open>struct cbfs_payload_segment\<close> is packed, 28 bytes long.\<close>

definition segments_at :: "memory \<Rightarrow> u32 \<Rightarrow> nat \<Rightarrow> cbfs_payload_segment" where
  "segments_at mem p i = (let a = p + 28 * of_nat i in
     \<lparr>cps_type = read32 mem a, cps_compression = read32 mem (a + 4), cps_offset = read32 mem (a + 8), cps_load_addr = read64 mem (a + 12),
      cps_len = read32 mem (a + 20), cps_mem_len = read32 mem (a + 24)\<rparr>)"

definition cbfs_locate_payload :: "u32 \<Rightarrow> memory \<Rightarrow> u8 list \<Rightarrow> payload \<Rightarrow> payload option option" where
  "cbfs_locate_payload rom_size mem name pl = do {
     content \<leftarrow> cbfs_get_file_content rom_size mem name CBFS_TYPE_PAYLOAD;
     Some (case content of None \<Rightarrow> None
       | Some (buffer, _) \<Rightarrow> Some (pl\<lparr>pl_data := buffer, pl_segments := segments_at mem buffer\<rparr>))
   }"

section \<open>The buffer for media that cannot be mapped\<close>

record cbfs_simple_buffer =
  sbuf_buffer :: u32
  sbuf_allocated :: u32
  sbuf_size :: u32
  sbuf_last_allocate :: u32

text \<open>\<open>read_media\<close> is the medium's function: address, offset and count give the count that was read and the memory.\<close>

definition cbfs_simple_buffer_map ::
  "(u32 \<Rightarrow> u32 \<Rightarrow> u32 \<Rightarrow> memory \<Rightarrow> u32 \<times> memory) \<Rightarrow> u32 \<Rightarrow> u32 \<Rightarrow> cbfs_simple_buffer \<times> memory \<Rightarrow> u32 \<times> cbfs_simple_buffer \<times> memory" where
  "cbfs_simple_buffer_map read_media offset cnt = (\<lambda>(buf, mem).
     let address = sbuf_buffer buf + sbuf_allocated buf in
     if sbuf_size buf \<le> sbuf_allocated buf + cnt then (CBFS_MEDIA_INVALID_MAP_ADDRESS, buf, mem)
     else
       let (n, mem) = read_media address offset cnt mem in
       if n \<noteq> cnt then (CBFS_MEDIA_INVALID_MAP_ADDRESS, buf, mem)
       else (address, buf\<lparr>sbuf_allocated := sbuf_allocated buf + cnt, sbuf_last_allocate := cnt\<rparr>, mem))"

definition cbfs_simple_buffer_unmap :: "u32 \<Rightarrow> cbfs_simple_buffer \<Rightarrow> cbfs_simple_buffer" where
  "cbfs_simple_buffer_unmap address buf =
     (if sbuf_buffer buf + sbuf_allocated buf - sbuf_last_allocate buf = address
      then buf\<lparr>sbuf_allocated := sbuf_allocated buf - sbuf_last_allocate buf, sbuf_last_allocate := 0\<rparr>
      else buf)"

definition x86_rom_read :: "u32 \<Rightarrow> u32 \<Rightarrow> u32 \<Rightarrow> u32 \<Rightarrow> memory \<Rightarrow> u32 \<times> memory" where
  "x86_rom_read context dest offset cnt mem = (cnt, memcpy dest (x86_rom_map context offset) cnt mem)"

section \<open>Images\<close>

text \<open>
  What a flash holds: files, with their header's length, and aligned places without a file.  A
  file's name ends before its data.
\<close>

datatype cbfs_entry = Gap | Cfile "u8 list" u32 nat "u8 list"

definition aligned_up :: "nat \<Rightarrow> nat \<Rightarrow> nat" where
  "aligned_up align off = (if off mod align = 0 then off else off + (align - off mod align))"

fun image_at :: "memory \<Rightarrow> u32 \<Rightarrow> nat \<Rightarrow> nat \<Rightarrow> nat \<Rightarrow> cbfs_entry list \<Rightarrow> bool" where
  "image_at mem media align romsize off [] \<longleftrightarrow> romsize \<le> off"
| "image_at mem media align romsize off (Gap # es) \<longleftrightarrow> off < romsize \<and> off mod align = 0
     \<and> \<not> memcmp_eq mem (of_nat off - media) CBFS_FILE_MAGIC \<and> image_at mem media align romsize (off + align) es"
| "image_at mem media align romsize off (Cfile n t h d # es) \<longleftrightarrow> (let file = of_nat off - media in
     off + h + length d \<le> romsize \<and> 24 + length n < h \<and> memcmp_eq mem file CBFS_FILE_MAGIC
     \<and> file_len mem file = of_nat (length d) \<and> file_type mem file = t \<and> file_offset mem file = of_nat h
     \<and> 0 \<notin> set n \<and> strcmp_eq mem (file + 24) n \<and> memcmp_eq mem (file + of_nat h) d
     \<and> image_at mem media align romsize (aligned_up align (off + h + length d)) es)"

text \<open>The specification: the type and the data of the first file of the name.\<close>

fun first_file :: "u8 list \<Rightarrow> cbfs_entry list \<Rightarrow> (u32 \<times> u8 list) option" where
  "first_file name [] = None"
| "first_file name (Gap # es) = first_file name es"
| "first_file name (Cfile n t h d # es) = (if n = name then Some (t, d) else first_file name es)"

text \<open>The master header is in the mapped flash, and the boot block takes the end of the flash.\<close>

definition cbfs_image :: "memory \<Rightarrow> cbfs_entry list \<Rightarrow> bool" where
  "cbfs_image mem es \<longleftrightarrow> (let hdr = read32 mem 0xfffffffc; media = ntohl (read32 mem (hdr + 8)); boot = ntohl (read32 mem (hdr + 12));
       align = ntohl (read32 mem (hdr + 16)); offset = ntohl (read32 mem (hdr + 20)) in
     0xf0000000 < hdr \<and> hdr \<noteq> 0xffffffff \<and> ntohl (read32 mem hdr) = CBFS_HEADER_MAGIC \<and> media \<le> 0xf0000000 \<and> 0 < boot \<and> boot \<le> media
     \<and> offset \<le> media - boot \<and> 0 < align \<and> align \<le> 0x10000 \<and> image_at mem media (unat align) (unat (media - boot)) (unat offset) es)"

lemma strcmp_eq_unique:
  assumes "strcmp_eq mem a n" and "0 \<notin> set n" and "0 \<notin> set m"
  shows "strcmp_eq mem a m \<longleftrightarrow> m = n"
  using assms
proof (induction mem a n arbitrary: m rule: strcmp_eq.induct)
  case (1 mem a)
  then show ?case by (cases m) auto
next
  case (2 mem a c cs)
  then show ?case by (cases m) auto
qed

lemma memcmp_eq_iff: "memcmp_eq mem a xs \<longleftrightarrow> (\<forall>i < length xs. mem (a + of_nat i) = xs ! i)"
proof (induction mem a xs rule: memcmp_eq.induct)
  case (2 mem a c cs)
  have "(\<forall>i < length (c # cs). mem (a + of_nat i) = (c # cs) ! i) \<longleftrightarrow> mem a = c \<and> (\<forall>i < length cs. mem (a + 1 + of_nat i) = cs ! i)"
    by (simp add: All_less_Suc2 ac_simps)
  then show ?case using 2 by simp
qed simp

section \<open>The walk finds the first file of the name\<close>

lemma off_word:
  assumes "off \<le> 0xf0000000"
  shows "unat (of_nat off :: u32) = off" "x86_rom_map media (of_nat off) = of_nat off - media"
proof -
  show u: "unat (of_nat off :: u32) = off" using assms by (simp add: unsigned_of_nat take_bit_nat_eq_self)
  then show "x86_rom_map media (of_nat off) = of_nat off - media" using assms by (simp add: x86_rom_map_def word_less_nat_alt)
qed

lemma aligned_up_le: "aligned_up align off \<le> off + align"
  using diff_le_self [of align "off mod align"] by (simp add: aligned_up_def)

lemma next_aligned:
  assumes "off \<le> 0xf0000000" and "0 < al"
  shows "(if (of_nat off :: u32) mod al \<noteq> 0 then of_nat off + (al - of_nat off mod al) else of_nat off) = of_nat (aligned_up (unat al) off)"
proof -
  have m: "unat ((of_nat off :: u32) mod al) = off mod unat al" by (simp add: unat_mod off_word [OF assms(1)])
  then have z: "(of_nat off :: u32) mod al = 0 \<longleftrightarrow> off mod unat al = 0" by (simp add: unat_eq_0 [symmetric])
  have "(of_nat off :: u32) mod al = of_nat (off mod unat al)" using off_word(1) [of "off mod unat al"] assms(1) mod_less_eq_dividend [of off "unat al"] by (simp add: word_unat_eq_iff m)
  moreover have "off mod unat al \<le> unat al" using assms(2) by (simp add: unat_gt_0 less_imp_le)
  ultimately have "al - (of_nat off :: u32) mod al = of_nat (unat al - off mod unat al)" by simp
  then show ?thesis using z by (simp add: aligned_up_def)
qed

text \<open>What a search with a type gives: the file's address and size when the first file of the name has the type.\<close>

definition found_at :: "memory \<Rightarrow> (u32 \<times> u8 list) option \<Rightarrow> u32 option \<Rightarrow> bool" where
  "found_at mem spec found \<longleftrightarrow> (case spec of None \<Rightarrow> found = None
     | Some (t, d) \<Rightarrow> \<exists>file. found = Some file \<and> file_type mem file = t \<and> file_len mem file = of_nat (length d)
         \<and> memcmp_eq mem (file + file_offset mem file) d)"

lemma find_file_first:
  assumes "image_at mem media (unat al) romsize off es" and "romsize < unat media" and "media \<le> 0xf0000000"
    and "0 < al" and "al \<le> 0x10000" and "0 \<notin> set name" and "off \<le> romsize + 0x10000"
  shows "\<exists>found. find_file mem media name al (of_nat romsize) (of_nat off) = Some found \<and> found_at mem (first_file name es) found"
  using assms
proof (induction es arbitrary: off)
  case Nil
  have "off \<le> 0xf0010000" "romsize \<le> 0xf0000000" using Nil.prems by (simp_all add: word_le_nat_alt)
  then have "\<not> (of_nat off :: u32) < of_nat romsize" using Nil.prems(1) by (simp add: word_less_nat_alt unsigned_of_nat take_bit_nat_eq_self)
  then show ?case by (subst find_file.simps) (simp add: found_at_def)
next
  case (Cons e es)
  have big: "romsize < 0xf0000000" and al: "al \<noteq> 0" using Cons.prems(2-4) by (auto simp: word_le_nat_alt)
  show ?case
  proof (cases e)
    case Gap
    have g: "off < romsize" "off mod unat al = 0" "\<not> memcmp_eq mem (of_nat off - media) CBFS_FILE_MAGIC" "image_at mem media (unat al) romsize (off + unat al) es"
      using Cons.prems(1) by (simp_all add: Gap)
    have o: "unat (of_nat off :: u32) = off" "x86_rom_map media (of_nat off) = of_nat off - media" using off_word g(1) big by simp_all
    have lt: "(of_nat off :: u32) < of_nat romsize" using g(1) o(1) big by (simp add: word_less_nat_alt unsigned_of_nat take_bit_nat_eq_self)
    have "(of_nat off :: u32) mod al = 0" using g(2) o(1) by (simp add: unat_eq_0 [symmetric] unat_mod)
    then have step: "find_file mem media name al (of_nat romsize) (of_nat off) = find_file mem media name al (of_nat romsize) (of_nat (off + unat al))"
      using lt g(3) al by (subst find_file.simps) (simp add: o(2) Let_def)
    have "off + unat al \<le> romsize + 0x10000" using g(1) Cons.prems(5) by (simp add: word_le_nat_alt)
    then show ?thesis using Cons.IH [OF g(4) Cons.prems(2-6)] step Gap by simp
  next
    case (Cfile n t h d)
    let ?file = "of_nat off - media" and ?e = "off + h + length d"
    have f: "?e \<le> romsize" "24 + length n < h" "memcmp_eq mem ?file CBFS_FILE_MAGIC" "file_len mem ?file = of_nat (length d)" "file_type mem ?file = t"
      "file_offset mem ?file = of_nat h" "0 \<notin> set n" "strcmp_eq mem (?file + 24) n" "memcmp_eq mem (?file + of_nat h) d"
      "image_at mem media (unat al) romsize (aligned_up (unat al) ?e) es"
      using Cons.prems(1) by (simp_all add: Cfile Let_def)
    have o: "unat (of_nat off :: u32) = off" "x86_rom_map media (of_nat off) = ?file" using off_word [of off] f(1) big by simp_all
    have lt: "(of_nat off :: u32) < of_nat romsize" using f(1,2) o(1) big by (simp add: word_less_nat_alt unsigned_of_nat take_bit_nat_eq_self)
    have name_off: "off + 24 \<le> 0xf0000000" "off + 24 < unat media" using f(1,2) big Cons.prems(2) by simp_all
    have nm: "x86_rom_map media (of_nat off + 24) = ?file + 24" using off_word(2) [OF name_off(1), of media] by (simp add: algebra_simps)
    have valid: "?file + 24 \<noteq> 0xffffffff"
    proof
      assume "?file + 24 = 0xffffffff"
      then have "?file + 24 + 1 = 0" by simp
      then have "media = of_nat (off + 25)" by (simp add: algebra_simps)
      then have "unat media = off + 25" using off_word(1) [of "off + 25"] f(1,2) big by simp
      then show False using f(1,2) Cons.prems(2) by simp
    qed
    have cmp: "strcmp_eq mem (?file + 24) name \<longleftrightarrow> name = n" by (rule strcmp_eq_unique [OF f(8,7) Cons.prems(6)])
    show ?thesis
    proof (cases "n = name")
      case True
      then have "find_file mem media name al (of_nat romsize) (of_nat off) = Some (Some ?file)"
        using lt f(3) valid cmp by (subst find_file.simps) (simp add: o(2) nm)
      then show ?thesis using True f by (simp add: found_at_def Cfile)
    next
      case False
      have sum: "of_nat off + (of_nat (length d) + of_nat h) = (of_nat ?e :: u32)" by simp
      have nx: "(if (of_nat ?e :: u32) mod al \<noteq> 0 then of_nat ?e + (al - of_nat ?e mod al) else of_nat ?e) = of_nat (aligned_up (unat al) ?e)"
        using f(1) big Cons.prems(4) by (intro next_aligned) simp_all
      have "find_file mem media name al (of_nat romsize) (of_nat off) = find_file mem media name al (of_nat romsize) (of_nat (aligned_up (unat al) ?e))"
        using lt f(3) False cmp al by (subst find_file.simps) (simp add: o(2) nm f(4,6) Let_def sum nx del: of_nat_add if_not_P if_P split del: if_split)
      moreover have "aligned_up (unat al) ?e \<le> romsize + 0x10000" using f(1) Cons.prems(5) aligned_up_le [of "unat al" ?e] by (simp add: word_le_nat_alt)
      ultimately show ?thesis using Cons.IH [OF f(10) Cons.prems(2-6)] False Cfile by simp
    qed
  qed
qed

lemma cbfs_get_file_first:
  assumes "cbfs_image mem es" and "0 \<notin> set name"
  shows "\<exists>found. cbfs_get_file rom_size mem name = Some found \<and> found_at mem (first_file name es) found"
proof -
  let ?hdr = "read32 mem 0xfffffffc"
  let ?media = "ntohl (read32 mem (?hdr + 8))" and ?boot = "ntohl (read32 mem (?hdr + 12))"
  let ?al = "ntohl (read32 mem (?hdr + 16))" and ?off = "ntohl (read32 mem (?hdr + 20))"
  have i: "0xf0000000 < ?hdr" "?hdr \<noteq> 0xffffffff" "ntohl (read32 mem ?hdr) = CBFS_HEADER_MAGIC" "?media \<le> 0xf0000000" "0 < ?boot" "?boot \<le> ?media"
    "0 < ?al" "?al \<le> 0x10000" "image_at mem ?media (unat ?al) (unat (?media - ?boot)) (unat ?off) es"
    using assms(1) by (simp_all add: cbfs_image_def Let_def)
  have less: "unat (?media - ?boot) < unat ?media" using i(5,6) by (simp add: unat_sub word_le_nat_alt word_less_nat_alt)
  have off: "unat ?off \<le> unat (?media - ?boot) + 0x10000"
    using assms(1) by (simp add: cbfs_image_def Let_def word_le_nat_alt)
  have media: "init_x86rom_cbfs_media rom_size mem = ?media" using i(3) by (simp add: init_x86rom_cbfs_media_def)
  have hdr: "cbfs_get_header mem ?media = ?hdr" using i(1-3) by (simp add: cbfs_get_header_def x86_rom_map_def)
  have "cbfs_get_file rom_size mem name = find_file mem ?media name ?al (of_nat (unat (?media - ?boot))) (of_nat (unat ?off))"
    using i(2) by (simp add: cbfs_get_file_def media hdr Let_def)
  then show ?thesis using find_file_first [OF i(9) less i(4,7,8) assms(2) off] by simp
qed

lemma cbfs_content_first:
  assumes "cbfs_image mem es" and "0 \<notin> set name"
  shows "\<exists>found. cbfs_get_file_content rom_size mem name typ = Some found
    \<and> (case first_file name es of
         None \<Rightarrow> found = None
       | Some (t, d) \<Rightarrow> if t = typ then \<exists>a. found = Some (a, of_nat (length d)) \<and> (\<forall>i < length d. mem (a + of_nat i) = d ! i) else found = None)"
proof -
  obtain found where f: "cbfs_get_file rom_size mem name = Some found" "found_at mem (first_file name es) found"
    using cbfs_get_file_first [OF assms] by blast
  show ?thesis
  proof (cases "first_file name es")
    case None
    then show ?thesis using f by (simp add: cbfs_get_file_content_def found_at_def)
  next
    case (Some td)
    obtain t d where td: "td = (t, d)" by (cases td)
    then show ?thesis using f Some by (auto simp: cbfs_get_file_content_def found_at_def memcmp_eq_iff)
  qed
qed

section \<open>Loading a stage\<close>

text \<open>Copying without overlap: what \<open>copy_unaligned\<close> and \<open>memcpy\<close> do together.\<close>

lemma copy_unaligned_aligned: "src AND 3 = 0 \<Longrightarrow> copy_unaligned n src dst len mem = (src, dst, len, mem)"
  by (cases n) simp_all

lemma aligned_decompress:
  assumes "src AND 3 = 0"
  shows "cbfs_decompress lzma CBFS_COMPRESS_NONE src dst len mem = (len, memcpy dst src len mem)"
  using assms by (simp add: cbfs_decompress_def copy_unaligned_aligned)

text \<open>The stage in memory: the data of the file, zeroes up to the length in memory, and nothing else changed.\<close>

definition stage_loaded :: "u32 \<Rightarrow> memory \<Rightarrow> memory \<Rightarrow> bool" where
  "stage_loaded stage mem mem' \<longleftrightarrow> (let load = ucast (read64 mem (stage + 12)); len = read32 mem (stage + 20); memlen = read32 mem (stage + 24) in
     \<forall>a. mem' a = (if a - load < len then mem (stage + 28 + (a - load)) else if a - load < memlen then 0 else mem a))"

lemma offset_sub:
  fixes a b n m :: u32
  assumes "n \<le> m"
  shows "a - (b + n) < m - n \<longleftrightarrow> a - b < m \<and> \<not> a - b < n"
proof -
  define x where "x = a - b"
  have e: "a - (b + n) = x - n" by (simp add: x_def)
  have nm: "unat (m - n) = unat m - unat n" using assms by (simp add: unat_sub)
  have "x - n < m - n \<longleftrightarrow> x < m \<and> \<not> x < n"
  proof (cases "n \<le> x")
    case True
    then show ?thesis using assms nm unat_sub [OF True] by (auto simp: word_less_nat_alt word_le_nat_alt)
  next
    case False
    have "unat (x - n) = unat x + 2 ^ 32 - unat n"
      using False unat_sub_if' [of x n] unat_less_exp [of n] by (simp add: word_le_nat_alt)
    then have "\<not> x - n < m - n" using nm unat_less_exp [of m] by (simp add: word_less_nat_alt)
    then show ?thesis using False by (simp add: not_le)
  qed
  then show ?thesis by (simp add: e x_def)
qed

text \<open>The header of the stage lies outside of where the stage is loaded to, as it does for a stage in flash.\<close>

definition header_apart :: "u32 \<Rightarrow> memory \<Rightarrow> bool" where
  "header_apart stage mem \<longleftrightarrow> (\<forall>i < 28. \<not> stage + of_nat i - ucast (read64 mem (stage + 12)) < max (read32 mem (stage + 20)) (read32 mem (stage + 24)))"

lemma read32_cong: "\<forall>i < 4. mem' (a + of_nat i) = mem (a + of_nat i) \<Longrightarrow> read32 mem' a = read32 mem a"
  by (frule spec [of _ 0], frule spec [of _ 1], frule spec [of _ 2], drule spec [of _ 3]) (simp add: read32_def)

lemma header_kept:
  assumes "header_apart stage mem" and same: "\<And>a. \<not> a - ucast (read64 mem (stage + 12)) < max (read32 mem (stage + 20)) (read32 mem (stage + 24)) \<Longrightarrow> mem' a = mem a"
    and "o' + 4 \<le> 28"
  shows "read32 mem' (stage + of_nat o') = read32 mem (stage + of_nat o')"
proof (rule read32_cong, intro allI impI)
  fix i :: nat assume "i < 4"
  then have "\<not> stage + of_nat (o' + i) - ucast (read64 mem (stage + 12)) < max (read32 mem (stage + 20)) (read32 mem (stage + 24))"
    using assms(1,3) by (simp add: header_apart_def del: of_nat_add)
  then show "mem' (stage + of_nat o' + of_nat i) = mem (stage + of_nat o' + of_nat i)" using same [of "stage + of_nat (o' + i)"] by (simp add: ac_simps)
qed

lemma header_fields_kept:
  assumes "header_apart stage mem" and "\<And>a. \<not> a - ucast (read64 mem (stage + 12)) < max (read32 mem (stage + 20)) (read32 mem (stage + 24)) \<Longrightarrow> mem' a = mem a"
  shows "read64 mem' (stage + 4) = read64 mem (stage + 4)" "read64 mem' (stage + 12) = read64 mem (stage + 12)" "read32 mem' (stage + 24) = read32 mem (stage + 24)"
  using header_kept [OF assms, of 4] header_kept [OF assms, of 8] header_kept [OF assms, of 12] header_kept [OF assms, of 16] header_kept [OF assms, of 24]
  by (simp_all add: read64_def add.assoc)

lemma memset_memcpy:
  assumes "len \<le> memlen"
  shows "memset (load + len) 0 (memlen - len) (memcpy load src len mem) a = (if a - load < len then mem (src + (a - load)) else if a - load < memlen then 0 else mem a)"
  using offset_sub [OF assms, of a load] by (auto simp: memset_def memcpy_def)

lemma unat_and_3: "unat ((x :: u32) AND 3) = unat x mod 4"
proof -
  have "(3 :: u32) = mask 2" by (simp add: mask_eq_exp_minus_1)
  then show ?thesis by (simp only: unat_and_mask) simp
qed

lemma aligned_src: "stage AND 3 = 0 \<Longrightarrow> stage + 28 AND 3 = (0 :: u32)"
  unfolding unat_eq_0 [symmetric] unat_and_3 by (simp add: unat_word_ariths mod_mod_cancel) presburger

lemma aligned_stage_loaded:
  assumes content: "cbfs_get_file_content rom_size mem name CBFS_TYPE_STAGE = Some (Some (stage, sz))"
    and none: "read32 mem stage = CBFS_COMPRESS_NONE" and al: "stage AND 3 = 0" and apart: "header_apart stage mem"
    and len: "0 < read32 mem (stage + 20)" "read32 mem (stage + 20) \<le> read32 mem (stage + 24)"
  shows "\<exists>mem'. cbfs_load_stage lzma rom_size name mem = Some (ucast (read64 mem (stage + 4)), mem') \<and> stage_loaded stage mem mem'"
proof -
  note al' = aligned_src [OF al]
  let ?load = "ucast (read64 mem (stage + 12)) :: u32" and ?len = "read32 mem (stage + 20)" and ?memlen = "read32 mem (stage + 24)"
  have nz: "?len \<noteq> 0" using len(1) by auto
  let ?m1 = "memcpy ?load (stage + 28) ?len mem"
  let ?m2 = "memset (?load + ?len) 0 (?memlen - ?len) ?m1"
  have "\<not> a - ?load < max ?len ?memlen \<Longrightarrow> ?m1 a = mem a" for a using len(2) by (auto simp: memcpy_def max_absorb2)
  note k1 = header_fields_kept [OF apart this]
  have "\<not> a - ?load < max ?len ?memlen \<Longrightarrow> ?m2 a = mem a" for a using len(2) by (auto simp: memset_memcpy [OF len(2)] max_absorb2)
  note k2 = header_fields_kept [OF apart this]
  have "cbfs_load_stage lzma rom_size name mem = Some (ucast (read64 mem (stage + 4)), ?m2)"
    using nz unfolding cbfs_load_stage_def content
    by (simp add: none aligned_decompress [OF al'] k1 k2 Let_def)
  moreover have "stage_loaded stage mem ?m2" by (simp add: stage_loaded_def Let_def memset_memcpy [OF len(2)])
  ultimately show ?thesis by blast
qed

text \<open>An empty stage is not loaded.\<close>

lemma empty_stage_refused:
  assumes content: "cbfs_get_file_content rom_size mem name CBFS_TYPE_STAGE = Some (Some (stage, sz))"
    and none: "read32 mem stage = CBFS_COMPRESS_NONE" and al: "stage AND 3 = 0" and len: "read32 mem (stage + 20) = 0"
  shows "cbfs_load_stage lzma rom_size name mem = Some (- 1, mem)"
proof -
  have "memcpy a b 0 m = m" for a b m by (auto simp: memcpy_def)
  then show ?thesis unfolding cbfs_load_stage_def content by (simp add: none len aligned_decompress [OF aligned_src [OF al]])
qed

lemma wrapped_range:
  fixes k m l :: u32
  assumes "m < l"
  shows "k - l < m - l \<longleftrightarrow> \<not> (m \<le> k \<and> k < l)"
proof -
  have "unat (m - l) = 2 ^ 32 + unat m - unat l" "unat (k - l) = (if l \<le> k then unat k - unat l else 2 ^ 32 + unat k - unat l)"
    using assms by (auto simp: unat_sub_if_size word_size word_less_nat_alt word_le_nat_alt)
  then show ?thesis
    using assms unat_less_exp [of k] unat_less_exp [of l] by (auto simp: word_less_nat_alt word_le_nat_alt)
qed

text \<open>A stage that is longer than its memory: the length to clear wraps, and all the memory is cleared but the data
  behind the length in memory.\<close>

lemma short_stage_clears_memory:
  assumes content: "cbfs_get_file_content rom_size mem name CBFS_TYPE_STAGE = Some (Some (stage, sz))"
    and none: "read32 mem stage = CBFS_COMPRESS_NONE" and al: "stage AND 3 = 0" and apart: "header_apart stage mem"
    and len: "read32 mem (stage + 24) < read32 mem (stage + 20)"
  shows "\<exists>mem'. cbfs_load_stage lzma rom_size name mem = Some (ucast (read64 mem' (stage + 4)), mem')
    \<and> (\<forall>a. mem' a = (let k = a - ucast (read64 mem (stage + 12)) in
         if read32 mem (stage + 24) \<le> k \<and> k < read32 mem (stage + 20) then mem (stage + 28 + k) else 0))"
proof -
  let ?load = "ucast (read64 mem (stage + 12)) :: u32" and ?len = "read32 mem (stage + 20)" and ?memlen = "read32 mem (stage + 24)"
  have nz: "?len \<noteq> 0" using len by auto
  let ?m1 = "memcpy ?load (stage + 28) ?len mem"
  let ?m2 = "memset (?load + ?len) 0 (?memlen - ?len) ?m1"
  have "\<not> a - ?load < max ?len ?memlen \<Longrightarrow> ?m1 a = mem a" for a using len by (auto simp: memcpy_def max_absorb1)
  note k1 = header_fields_kept [OF apart this]
  have "cbfs_load_stage lzma rom_size name mem = Some (ucast (read64 ?m2 (stage + 4)), ?m2)"
    using nz unfolding cbfs_load_stage_def content by (simp add: none aligned_decompress [OF aligned_src [OF al]] k1 Let_def)
  moreover have "a - (?load + ?len) < ?memlen - ?len \<longleftrightarrow> \<not> (?memlen \<le> a - ?load \<and> a - ?load < ?len)" for a
    using wrapped_range [OF len, of "a - ?load"] by (simp add: diff_diff_eq)
  then have "?m2 a = (let k = a - ?load in if ?memlen \<le> k \<and> k < ?len then mem (stage + 28 + k) else 0)" for a
    by (auto simp: memset_def memcpy_def Let_def)
  ultimately show ?thesis by blast
qed

text \<open>When the data is not at an address divisible by four, the bytes that come before one are not counted, and
  clearing the rest of the stage's memory starts too early: the end of the stage is lost.\<close>

lemma unaligned_stage_loses_last_byte:
  assumes content: "cbfs_get_file_content rom_size mem name CBFS_TYPE_STAGE = Some (Some (stage, sz))"
    and none: "read32 mem stage = CBFS_COMPRESS_NONE" and al: "stage AND 3 = 3" and apart: "header_apart stage mem"
    and len: "1 < read32 mem (stage + 20)" "read32 mem (stage + 20) \<le> read32 mem (stage + 24)"
  shows "\<exists>mem'. cbfs_load_stage lzma rom_size name mem = Some (ucast (read64 mem (stage + 4)), mem')
    \<and> mem' (ucast (read64 mem (stage + 12)) + read32 mem (stage + 20) - 1) = 0"
proof -
  have m: "unat stage mod 4 = 3" using arg_cong [OF al, of unat] by (simp add: unat_and_3)
  have "unat (stage + 28 AND 3) = 3" "unat (stage + 29 AND 3) = 0"
    using m by (simp_all add: unat_and_3 unat_word_ariths mod_mod_cancel, presburger+)
  then have al': "stage + 28 AND 3 \<noteq> 0" "stage + 29 AND 3 = 0" by (auto simp: unat_eq_0)
  let ?load = "ucast (read64 mem (stage + 12)) :: u32" and ?len = "read32 mem (stage + 20)" and ?memlen = "read32 mem (stage + 24)"
  have nz: "?len \<noteq> 0" "?len - 1 \<noteq> 0" and four: "(4 :: nat) = Suc 3" using len(1) by auto
  let ?m0 = "mem(?load := mem (stage + 28))"
  let ?m1 = "memcpy (?load + 1) (stage + 29) (?len - 1) ?m0"
  let ?m2 = "memset (?load + (?len - 1)) 0 (?memlen - (?len - 1)) ?m1"
  have l1: "?len - 1 \<le> ?memlen" "1 \<le> ?memlen" "(1 :: u32) \<le> ?len"
    using len by (simp_all add: word_le_nat_alt word_less_nat_alt unat_sub)
  have "copy_unaligned 4 (stage + 28) ?load ?len mem = (stage + 29, ?load + 1, ?len - 1, ?m0)"
    using al' nz unfolding four copy_unaligned.simps(2) by (simp add: copy_unaligned_aligned add.assoc)
  then have d: "cbfs_decompress lzma CBFS_COMPRESS_NONE (stage + 28) ?load ?len mem = (?len - 1, ?m1)" by (simp add: cbfs_decompress_def)
  have s1: "?m1 a = mem a" if "\<not> a - ?load < ?memlen" for a
    using that offset_sub [OF l1(3), of a ?load] len(2) l1(2) by (auto simp: memcpy_def word_le_nat_alt word_less_nat_alt)
  have "?m1 a = mem a" if "\<not> a - ?load < max ?len ?memlen" for a using s1 [of a] that len(2) by (simp add: max_absorb2)
  note k1 = header_fields_kept [OF apart this]
  have s2: "?m2 a = mem a" if "\<not> a - ?load < ?memlen" for a
    using s1 [OF that] that offset_sub [OF l1(1), of a ?load] by (simp add: memset_def)
  have "?m2 a = mem a" if "\<not> a - ?load < max ?len ?memlen" for a using s2 [of a] that len(2) by (simp add: max_absorb2)
  note k2 = header_fields_kept [OF apart this]
  have "cbfs_load_stage lzma rom_size name mem = Some (ucast (read64 mem (stage + 4)), ?m2)"
    using nz unfolding cbfs_load_stage_def content by (simp add: none d k1 k2 Let_def)
  moreover have "?m2 (?load + ?len - 1) = 0"
  proof -
    have e: "?load + ?len - 1 - (?load + (?len - 1)) = 0" by simp
    have "unat (?memlen - (?len - 1)) = unat ?memlen - (unat ?len - 1)" using unat_sub [OF l1(1)] unat_sub [OF l1(3)] by simp
    then have pos: "0 < ?memlen - (?len - 1)" using len by (simp add: word_less_nat_alt word_le_nat_alt)
    show ?thesis by (simp only: memset_def e pos if_True)
  qed
  ultimately show ?thesis by blast
qed

section \<open>An example image\<close>

text \<open>
  512 bytes of flash, the boot block of 256 with the master header, a payload file \<open>p\<close>, an empty
  place and a stage \<open>s\<close> of eight bytes.
\<close>

definition example_flash :: memory where
  "example_flash =
     write_bytes (- 4) [0x80, 0xff, 0xff, 0xff]
     (write_bytes (- 0x80) [0x4f, 0x52, 0x42, 0x43, 0x31, 0x31, 0x31, 0x32, 0, 0, 2, 0, 0, 0, 1, 0, 0, 0, 0, 0x40, 0, 0, 0, 0, 0, 0, 0, 1]
     (write_bytes (- 0x200) (CBFS_FILE_MAGIC @ [0, 0, 0, 4, 0, 0, 0, 0x20, 0, 0, 0, 0, 0, 0, 0, 0x20, 0x70, 0, 0, 0, 0, 0, 0, 0, 1, 2, 3, 4])
     (write_bytes (- 0x180) (CBFS_FILE_MAGIC @ [0, 0, 0, 0x24, 0, 0, 0, 0x10, 0, 0, 0, 0, 0, 0, 0, 0x20, 0x73, 0, 0, 0, 0, 0, 0, 0,
        0, 0, 0, 0, 0, 0, 0x10, 0, 0, 0, 0, 0, 0, 0, 0x10, 0, 0, 0, 0, 0, 8, 0, 0, 0, 16, 0, 0, 0, 1, 2, 3, 4, 5, 6, 7, 8])
       (\<lambda>a. 0xff))))"

definition example_entries :: "cbfs_entry list" where
  "example_entries = [Cfile [0x70] 0x20 0x20 [1, 2, 3, 4], Gap,
     Cfile [0x73] 0x10 0x20 [0, 0, 0, 0, 0, 0, 0x10, 0, 0, 0, 0, 0, 0, 0, 0x10, 0, 0, 0, 0, 0, 8, 0, 0, 0, 16, 0, 0, 0, 1, 2, 3, 4, 5, 6, 7, 8]]"

lemma write_bytes_same: "length xs < 2 ^ 32 \<Longrightarrow> memcmp_eq (write_bytes b xs m) b xs"
  by (simp add: memcmp_eq_iff write_bytes_def unsigned_of_nat take_bit_nat_eq_self)

lemma write_bytes_other:
  assumes "length ys \<le> unat (b - b')" and "unat (b - b') + length xs \<le> 2 ^ 32"
  shows "memcmp_eq (write_bytes b' ys m) b xs \<longleftrightarrow> memcmp_eq m b xs"
proof -
  have "\<not> unat (b + of_nat i - b') < length ys" if "i < length xs" for i
  proof -
    have i: "unat (of_nat i :: u32) = i" using assms(2) that by (simp add: unsigned_of_nat take_bit_nat_eq_self)
    have e: "b + of_nat i - b' = (b - b') + of_nat i" by simp
    have "unat ((b - b') + of_nat i) = unat (b - b') + i" using unat_add_no_wrap [of "b - b'" "of_nat i"] assms(2) that i by simp
    then show ?thesis using assms(1) unfolding e by simp
  qed
  then show ?thesis by (simp add: memcmp_eq_iff write_bytes_def)
qed

lemma example_blocks:
  "memcmp_eq example_flash (- 4) [0x80, 0xff, 0xff, 0xff]"
  "memcmp_eq example_flash (- 0x80) [0x4f, 0x52, 0x42, 0x43, 0x31, 0x31, 0x31, 0x32, 0, 0, 2, 0, 0, 0, 1, 0, 0, 0, 0, 0x40, 0, 0, 0, 0, 0, 0, 0, 1]"
  "memcmp_eq example_flash (- 0x200) (CBFS_FILE_MAGIC @ [0, 0, 0, 4, 0, 0, 0, 0x20, 0, 0, 0, 0, 0, 0, 0, 0x20, 0x70, 0, 0, 0, 0, 0, 0, 0, 1, 2, 3, 4])"
  "memcmp_eq example_flash (- 0x180) (CBFS_FILE_MAGIC @ [0, 0, 0, 0x24, 0, 0, 0, 0x10, 0, 0, 0, 0, 0, 0, 0, 0x20, 0x73, 0, 0, 0, 0, 0, 0, 0,
        0, 0, 0, 0, 0, 0, 0x10, 0, 0, 0, 0, 0, 0, 0, 0x10, 0, 0, 0, 0, 0, 8, 0, 0, 0, 16, 0, 0, 0, 1, 2, 3, 4, 5, 6, 7, 8])"
  unfolding example_flash_def by (simp_all add: write_bytes_same write_bytes_other CBFS_FILE_MAGIC_def del: memcmp_eq.simps)

lemmas example_bytes = example_blocks [unfolded CBFS_FILE_MAGIC_def, simplified]

lemma example_gap: "example_flash (- 0x1c0) = 0xff"
  by (simp add: example_flash_def write_bytes_def CBFS_FILE_MAGIC_def)

lemma example_pointer: "read32 example_flash (- 4) = (- 0x80)"
  by (simp add: read32_def example_bytes) 

lemma top_address: "(0xfffffffc :: u32) = - 4"
  by simp

lemma example_header:
  "ntohl (read32 example_flash (- 0x80)) = CBFS_HEADER_MAGIC" "ntohl (read32 example_flash (- 0x78)) = 0x200"
  "ntohl (read32 example_flash (- 0x74)) = 0x100" "ntohl (read32 example_flash (- 0x70)) = 0x40" "ntohl (read32 example_flash (- 0x6c)) = 0"
  by (simp_all add: read32_def example_bytes swab32_def)

lemma example_file_headers:
  "file_len example_flash (- 0x200) = 4" "file_type example_flash (- 0x200) = 0x20" "file_offset example_flash (- 0x200) = 0x20"
  "file_len example_flash (- 0x180) = 0x24" "file_type example_flash (- 0x180) = 0x10" "file_offset example_flash (- 0x180) = 0x20"
  by (simp_all add: read32_def example_bytes swab32_def)

lemma example_image: "cbfs_image example_flash example_entries"
  by (simp add: cbfs_image_def top_address example_pointer example_header example_entries_def CBFS_FILE_MAGIC_def aligned_up_def example_bytes example_gap
      example_file_headers [simplified])

lemma example_entry_bytes:
  "strcmp_eq example_flash (- 0x1e8) [0x70]" "\<not> strcmp_eq example_flash (- 0x1e8) [0x73]" "strcmp_eq example_flash (- 0x168) [0x73]"
  "memcmp_eq example_flash (- 0x200) CBFS_FILE_MAGIC" "memcmp_eq example_flash (- 0x180) CBFS_FILE_MAGIC" "\<not> memcmp_eq example_flash (- 0x1c0) CBFS_FILE_MAGIC"
  by (simp_all add: example_bytes example_gap CBFS_FILE_MAGIC_def)

lemma example_found: "cbfs_get_file_content 0x200 example_flash [0x73] CBFS_TYPE_STAGE = Some (Some (- 0x160, 0x24))"
proof -
  have "cbfs_get_file 0x200 example_flash [0x73] = find_file example_flash 0x200 [0x73] 0x40 0x100 0"
    by (simp add: cbfs_get_file_def init_x86rom_cbfs_media_def cbfs_get_header_def x86_rom_map_def top_address example_pointer example_header Let_def)
  also have "\<dots> = find_file example_flash 0x200 [0x73] 0x40 0x100 0x40"
    by (subst find_file.simps) (simp add: x86_rom_map_def example_entry_bytes example_file_headers [simplified] Let_def del: strcmp_eq.simps)
  also have "\<dots> = find_file example_flash 0x200 [0x73] 0x40 0x100 0x80"
    by (subst find_file.simps) (simp add: x86_rom_map_def example_entry_bytes Let_def)
  also have "\<dots> = Some (Some (- 0x180))"
    by (subst find_file.simps) (simp add: x86_rom_map_def example_entry_bytes Let_def del: strcmp_eq.simps)
  finally show ?thesis by (simp add: cbfs_get_file_content_def example_file_headers [simplified])
qed

text \<open>
  C16.  On a flash that holds a list of files, with empty aligned places among them, looking for a name and
  a type always ends, and gives the place and the size of the data of the first file of that name when its
  type is the one asked for, and nothing otherwise.  The address holds exactly the data of the file.
\<close>
theorem cbfs_content_found:
  assumes "cbfs_image mem es" and "0 \<notin> set name"
  shows "\<exists>found. cbfs_get_file_content rom_size mem name typ = Some found
    \<and> (case first_file name es of
         None \<Rightarrow> found = None
       | Some (t, d) \<Rightarrow> if t = typ then \<exists>a. found = Some (a, of_nat (length d)) \<and> (\<forall>i < length d. mem (a + of_nat i) = d ! i) else found = None)"
  by (rule cbfs_content_first [OF assms])

theorem cbfs_content_found_witness:
  "cbfs_get_file_content 0x200 example_flash [0x78] CBFS_TYPE_RAW = Some None
    \<and> cbfs_get_file_content 0x200 example_flash [0x70] CBFS_TYPE_RAW = Some None
    \<and> (\<exists>a. cbfs_get_file_content 0x200 example_flash [0x70] CBFS_TYPE_PAYLOAD = Some (Some (a, 4)) \<and> example_flash (a + 3) = 4)"
  using cbfs_content_found [OF example_image, of "[0x78]" "0x200" CBFS_TYPE_RAW] cbfs_content_found [OF example_image, of "[0x70]" "0x200" CBFS_TYPE_RAW]
    cbfs_content_found [OF example_image, of "[0x70]" "0x200" CBFS_TYPE_PAYLOAD]
  by (auto simp: example_entries_def dest: spec [of _ 3])

text \<open>
  C36.  Loading an uncompressed stage whose header lies at an address divisible by four and apart from the
  memory of the stage: if the stage is not empty and not longer than its memory, the result is its entry point, and memory
  changes exactly so: the data of the stage at its load address, zeroes behind it up to the length in memory, all
  other bytes as before.  An empty stage gives -1 and leaves memory alone.  For a stage longer than its memory
  nothing is checked: the length to clear wraps, every byte of memory becomes zero except the data behind the
  length in memory, and the entry point is read from what is left.
\<close>
theorem cbfs_load_stage_correct:
  assumes "cbfs_get_file_content rom_size mem name CBFS_TYPE_STAGE = Some (Some (stage, sz))"
    and "read32 mem stage = CBFS_COMPRESS_NONE" and "stage AND 3 = 0" and "header_apart stage mem"
  shows "(0 < read32 mem (stage + 20) \<and> read32 mem (stage + 20) \<le> read32 mem (stage + 24) \<longrightarrow>
      (\<exists>mem'. cbfs_load_stage lzma rom_size name mem = Some (ucast (read64 mem (stage + 4)), mem') \<and> stage_loaded stage mem mem'))
    \<and> (read32 mem (stage + 20) = 0 \<longrightarrow> cbfs_load_stage lzma rom_size name mem = Some (- 1, mem))
    \<and> (read32 mem (stage + 24) < read32 mem (stage + 20) \<longrightarrow>
      (\<exists>mem'. cbfs_load_stage lzma rom_size name mem = Some (ucast (read64 mem' (stage + 4)), mem')
        \<and> (\<forall>a. mem' a = (let k = a - ucast (read64 mem (stage + 12)) in
             if read32 mem (stage + 24) \<le> k \<and> k < read32 mem (stage + 20) then mem (stage + 28 + k) else 0))))"
  using aligned_stage_loaded [OF assms] empty_stage_refused [OF assms(1-3)] short_stage_clears_memory [OF assms] by simp_all

lemma example_stage_fields:
  "read32 example_flash (- 0x160) = 0" "read64 example_flash (- 0x15c) = 0x100000" "read64 example_flash (- 0x154) = 0x100000"
  "read32 example_flash (- 0x14c) = 8" "read32 example_flash (- 0x148) = 16"
  by (simp_all add: read32_def read64_def example_bytes)

theorem cbfs_load_stage_correct_witness:
  "\<exists>mem'. cbfs_load_stage (\<lambda>mem src. (0, [])) 0x200 [0x73] example_flash = Some (0x100000, mem')
    \<and> mem' 0x100007 = 8 \<and> mem' 0x100008 = 0 \<and> mem' 0x100010 = 0xff"
proof -
  have "header_apart (- 0x160) example_flash"
  proof -
    have "list_all (\<lambda>i. \<not> - 0x160 + of_nat i - 0x100000 < (16 :: u32)) [0..<28]" by code_simp
    then show ?thesis by (simp add: header_apart_def example_stage_fields list_all_iff)
  qed
  then obtain mem' where m: "cbfs_load_stage (\<lambda>mem src. (0, [])) 0x200 [0x73] example_flash = Some (0x100000, mem')" "stage_loaded (- 0x160) example_flash mem'"
    using cbfs_load_stage_correct [OF example_found, of "\<lambda>mem src. (0, [])"] by (auto simp: example_stage_fields)
  then have "mem' 0x100007 = 8 \<and> mem' 0x100008 = 0 \<and> mem' 0x100010 = 0xff"
    by (simp add: stage_loaded_def example_stage_fields example_bytes) (simp add: example_flash_def write_bytes_def CBFS_FILE_MAGIC_def)
  then show ?thesis using m(1) by blast
qed

text \<open>The payload loader then works on the table in the file.\<close>

lemma cbfs_locate_payload_found:
  assumes "cbfs_image mem es" and "0 \<notin> set name" and "first_file name es = Some (CBFS_TYPE_PAYLOAD, d)"
  shows "\<exists>a. cbfs_locate_payload rom_size mem name pl = Some (Some (pl\<lparr>pl_data := a, pl_segments := segments_at mem a\<rparr>))
    \<and> (\<forall>i < length d. mem (a + of_nat i) = d ! i)"
  using cbfs_content_first [OF assms(1,2), of rom_size CBFS_TYPE_PAYLOAD] assms(3) by (auto simp: cbfs_locate_payload_def)

text \<open>Unmapping what was mapped last gives the space back.\<close>

lemma simple_buffer_unmap_map:
  assumes "cbfs_simple_buffer_map read_media offset cnt (buf, mem) = (a, buf', mem')" and "a \<noteq> CBFS_MEDIA_INVALID_MAP_ADDRESS"
  shows "sbuf_allocated (cbfs_simple_buffer_unmap a buf') = sbuf_allocated buf"
  using assms by (auto simp: cbfs_simple_buffer_map_def cbfs_simple_buffer_unmap_def Let_def split: prod.splits if_splits)

text \<open>A walk whose file header says that the next file is at the same place never ends; the length and the offset are not checked.\<close>

definition stuck_at :: "memory \<Rightarrow> u32 \<Rightarrow> u8 list \<Rightarrow> u32 \<Rightarrow> u32 \<Rightarrow> u32 \<Rightarrow> bool" where
  "stuck_at mem media name align romsize offset \<longleftrightarrow> (let file = x86_rom_map media offset in
     offset < romsize \<and> memcmp_eq mem file CBFS_FILE_MAGIC \<and> file_len mem file + file_offset mem file = 0 \<and> offset mod align = 0
     \<and> \<not> strcmp_eq mem (x86_rom_map media (offset + 24)) name)"

lemma find_file_loops:
  assumes "stuck_at mem media name align romsize offset"
  shows "find_file mem media name align romsize offset = None"
proof (rule ccontr)
  assume "find_file mem media name align romsize offset \<noteq> None"
  then obtain r where "find_file mem media name align romsize offset = Some r" by blast
  then have "\<not> stuck_at mem media name align romsize offset"
  proof (rule find_file.raw_induct [rotated])
    fix f mem media name align romsize offset r
    assume ih: "\<And>mem media name align romsize offset r. f mem media name align romsize offset = Some r \<Longrightarrow> \<not> stuck_at mem media name align romsize offset"
      and body: "(if \<not> offset < romsize then Some None
        else let file = x86_rom_map media offset in
          if \<not> memcmp_eq mem file CBFS_FILE_MAGIC then
            if align = 0 then None
            else f mem media name align romsize (offset + (if offset mod align \<noteq> 0 then align + (align - offset mod align) else align))
          else let file_name = x86_rom_map media (offset + 24) in
            if file_name \<noteq> CBFS_MEDIA_INVALID_MAP_ADDRESS \<and> strcmp_eq mem file_name name then Some (Some (x86_rom_map media offset))
            else if align = 0 then None
            else let offset = offset + (file_len mem file + file_offset mem file)
              in f mem media name align romsize (if offset mod align \<noteq> 0 then offset + (align - offset mod align) else offset)) = Some r"
    show "\<not> stuck_at mem media name align romsize offset"
    proof
      assume s: "stuck_at mem media name align romsize offset"
      then have "f mem media name align romsize offset = Some r"
        using body by (simp add: stuck_at_def Let_def split: if_split_asm)
      then show False using ih s by blast
    qed
  qed
  then show False using assms by blast
qed

end
