(* ===== verification/Checksum.thy ===== *)
theory Checksum
  imports Prelude
begin

text \<open>
  The checksum of the tables for the payload, \<^verbatim>\<open>src/lib/compute_ip_checksum.c\<close>: the ones' complement
  sum of the internet protocol, and the combination of the sums of two pieces of data.
\<close>

section \<open>The checksum\<close>

definition ip_step :: "u8 \<Rightarrow> u32 \<times> u32 \<Rightarrow> u32 \<times> u32" where
  "ip_step b = (\<lambda>(i, s).
     let v = (if i AND 1 \<noteq> 0 then push_bit 8 (ucast b) else ucast b); s = s + v;
         s = (if 0xFFFF < s then (s + drop_bit 16 s) AND 0xFFFF else s)
     in (i + 1, s))"

definition compute_ip_checksum :: "u8 list \<Rightarrow> u32" where
  "compute_ip_checksum bytes = (let (_, s) = fold ip_step bytes (0, 0) in NOT (s AND 0xFFFF) AND 0xFFFF)"

definition add_ip_checksums :: "u32 \<Rightarrow> u32 \<Rightarrow> u32 \<Rightarrow> u32" where
  "add_ip_checksums offset s new =
     (let s = NOT s AND 0xFFFF; new = NOT new AND 0xFFFF;
          new = (if offset AND 1 \<noteq> 0 then (drop_bit 8 new AND 0xff) OR (push_bit 8 new AND 0xff00) else new);
          checksum = s + new; checksum = (if 0xFFFF < checksum then checksum - 0xFFFF else checksum)
      in NOT checksum AND 0xFFFF)"

section \<open>Ones' complement sums\<close>

text \<open>The 16-bit words of the data, low byte first, and their sum with end-around carry: zero only for zero.\<close>

fun words_sum :: "u8 list \<Rightarrow> nat" where
  "words_sum [] = 0"
| "words_sum [a] = unat a"
| "words_sum (a # b # rest) = unat a + 256 * unat b + words_sum rest"

definition ones :: "nat \<Rightarrow> nat" where
  "ones n = (if n = 0 then 0 else (n - 1) mod 0xFFFF + 1)"

lemma ones_small: "n \<le> 0xFFFF \<Longrightarrow> ones n = n"
  by (auto simp: ones_def)

lemma ones_le: "ones n \<le> 0xFFFF"
  by (simp add: ones_def Suc_le_eq)

lemma ones_0: "ones n = 0 \<longleftrightarrow> n = 0"
  by (simp add: ones_def)

lemma Suc_mod_cancel:
  assumes "Suc a mod k = Suc b mod k"
  shows "a mod k = b mod k"
proof (cases "a \<le> b")
  case True
  then show ?thesis using assms mod_eq_dvd_iff_nat [of "Suc a" "Suc b" k] mod_eq_dvd_iff_nat [of a b k] by auto
next
  case False
  then show ?thesis using assms mod_eq_dvd_iff_nat [of "Suc b" "Suc a" k] mod_eq_dvd_iff_nat [of b a k] by auto
qed

lemma ones_unique:
  assumes "m \<le> 0xFFFF" and "m mod 0xFFFF = n mod 0xFFFF" and "m = 0 \<longleftrightarrow> n = 0"
  shows "ones n = m"
proof (cases m)
  case (Suc m')
  then obtain n' where n: "n = Suc n'" using assms(3) by (cases n) auto
  have "n' mod 0xFFFF = m' mod 0xFFFF" by (rule Suc_mod_cancel) (use assms(2) Suc n in simp)
  then show ?thesis using assms(1) Suc n by (simp add: ones_def)
qed (use assms in \<open>simp add: ones_def\<close>)

lemma ones_mod: "ones n mod 0xFFFF = n mod 0xFFFF"
  by (auto simp: ones_def mod_Suc_eq)

lemma ones_cong: "a mod 0xFFFF = b mod 0xFFFF \<Longrightarrow> (a = 0 \<longleftrightarrow> b = 0) \<Longrightarrow> ones a = ones b"
  by (rule ones_unique) (simp_all add: ones_le ones_mod ones_0)

lemma ones_add: "ones (ones a + b) = ones (a + b)"
  by (rule ones_cong) (simp_all add: ones_0 ones_mod mod_add_left_eq [symmetric, of "ones a"] mod_add_left_eq)

text \<open>What one step adds to the sum.\<close>

definition weight :: "nat \<Rightarrow> u8 \<Rightarrow> nat" where
  "weight i b = (if odd i then 256 * unat b else unat b)"

fun weights :: "nat \<Rightarrow> u8 list \<Rightarrow> nat" where
  "weights i [] = 0"
| "weights i (b # bs) = weight i b + weights (Suc i) bs"

lemma weights_words: "even i \<Longrightarrow> weights i bs = words_sum bs"
  by (induction bs arbitrary: i rule: words_sum.induct) (simp_all add: weight_def)

lemma weights_append: "weights i (as @ bs) = weights i as + weights (i + length as) bs"
  by (induction as arbitrary: i) simp_all

lemma weight_le: "weight i b \<le> 0xFF00"
  using unat_less_exp [of b] by (auto simp: weight_def)

lemma odd_of_nat: "((of_nat i :: u32) AND 1 \<noteq> 0) \<longleftrightarrow> odd i"
proof -
  have "(1 :: u32) = mask 1" by (simp add: mask_eq_exp_minus_1)
  moreover have "unat ((of_nat i :: u32) AND mask 1) = i mod 2 ^ 32 mod 2"
    unfolding unat_and_mask by (simp add: unsigned_of_nat take_bit_eq_mod)
  ultimately have "unat ((of_nat i :: u32) AND 1) = i mod 2 ^ 32 mod 2" by (simp only:)
  also have "\<dots> = i mod 2" by (rule mod_mod_cancel) simp
  finally show ?thesis by (simp add: unat_eq_0 [symmetric] odd_iff_mod_2_eq_one)
qed

lemma end_around:
  assumes "s \<le> 0xFFFF" and "v \<le> 0xFF00"
  shows "(if 0xFFFF < s + v then (s + v + (s + v) div 0x10000) mod 0x10000 else s + v) = ones (s + v)"
proof (cases "0xFFFF < s + v")
  case True
  then have "(s + v) div 0x10000 = 1" using assms by (intro div_nat_eqI) simp_all
  moreover have "(s + v + 1) mod 0x10000 = s + v + 1 - 0x10000" using True assms by (simp add: mod_if)
  moreover have "ones (s + v) = s + v - 0xFFFF" by (rule ones_unique) (use True assms in \<open>simp_all add: le_mod_geq\<close>)
  ultimately show ?thesis using True by simp
next
  case False
  then show ?thesis by (simp add: ones_small)
qed

lemma ip_step_ones:
  assumes "s \<le> 0xFFFF"
  shows "ip_step b (of_nat i, of_nat s) = (of_nat (Suc i), of_nat (ones (s + weight i b)))"
proof -
  let ?v = "if (of_nat i :: u32) AND 1 \<noteq> 0 then push_bit 8 (ucast b) else ucast b :: u32"
  have v: "?v = of_nat (weight i b)" using unat_less_exp [of b] unfolding odd_of_nat weight_def
    by (simp add: push_bit_eq_mult word_unat_eq_iff unsigned_of_nat unat_word_ariths take_bit_nat_eq_self unat_ucast_mod)
  have sv: "s + weight i b < 0x20000" using assms weight_le [of i b] by simp
  define w where "w = s + weight i b"
  have u: "unat (of_nat n :: u32) = n" if "n < 0x40000" for n using that by (simp add: unsigned_of_nat take_bit_nat_eq_self)
  have sum: "of_nat s + ?v = (of_nat w :: u32)" by (simp add: v w_def)
  have "(if 0xFFFF < (of_nat w :: u32) then (of_nat w + drop_bit 16 (of_nat w)) AND 0xFFFF else of_nat w) = (of_nat (ones w) :: u32)"
  proof (cases "0xFFFF < w")
    case True
    have d: "drop_bit 16 (of_nat w :: u32) = of_nat (w div 0x10000)"
      using sv by (simp add: word_unat_eq_iff unat_drop_bit_eq drop_bit_eq_div unat_div u w_def [symmetric])
    have m: "(0xFFFF :: u32) = mask 16" by (simp add: mask_eq_exp_minus_1)
    have "w + w div 0x10000 < 0x40000" using sv w_def by (auto intro: le_less_trans [OF add_left_mono [OF div_le_dividend]])
    then have "(of_nat w + of_nat (w div 0x10000) :: u32) AND 0xFFFF = of_nat ((w + w div 0x10000) mod 0x10000)"
      unfolding m of_nat_add [symmetric] word_unat_eq_iff unat_and_mask by (simp add: u del: of_nat_add)
    then show ?thesis using True end_around [OF assms weight_le [of i b]] sv u [of w] by (simp add: d w_def [symmetric] word_less_nat_alt)
  next
    case False
    then show ?thesis using sv u [of w] by (simp add: ones_small w_def [symmetric] word_less_nat_alt)
  qed
  then show ?thesis unfolding ip_step_def prod.case Let_def sum by (simp add: w_def)
qed

lemma fold_ip_step:
  "s \<le> 0xFFFF \<Longrightarrow> fold ip_step bs (of_nat i, of_nat s) = (of_nat (i + length bs), of_nat (ones (s + weights i bs)))"
proof (induction bs arbitrary: i s)
  case Nil
  then show ?case by (simp add: ones_small)
next
  case (Cons b bs)
  have "fold ip_step (b # bs) (of_nat i, of_nat s) = fold ip_step bs (of_nat (Suc i), of_nat (ones (s + weight i b)))"
    by (simp only: fold_simps ip_step_ones [OF Cons.prems])
  also have "\<dots> = (of_nat (Suc i + length bs), of_nat (ones (s + (weight i b + weights (Suc i) bs))))"
    using Cons.IH [OF ones_le] by (simp only: ones_add add.assoc)
  finally show ?case by simp
qed

lemma and_ffff:
  assumes "n \<le> 0xFFFF"
  shows "of_nat n AND 0xFFFF = (of_nat n :: u32)"
proof -
  have m: "(0xFFFF :: u32) = mask 16" by (simp add: mask_eq_exp_minus_1)
  show ?thesis using assms unfolding m word_unat_eq_iff unat_and_mask by (simp add: unsigned_of_nat take_bit_nat_eq_self)
qed

lemma complement16:
  assumes "n \<le> 0xFFFF"
  shows "NOT (of_nat n AND 0xFFFF) AND 0xFFFF = (of_nat (0xFFFF - n) :: u32)"
proof -
  let ?x = "of_nat n :: u32"
  have m: "(0xFFFF :: u32) = mask 16" by (simp add: mask_eq_exp_minus_1)
  have x: "?x AND mask 16 = ?x" using and_ffff [OF assms] by (simp add: m)
  have bit: "bit ?x i \<Longrightarrow> i < 16" for i using arg_cong [OF x, of "\<lambda>w. bit w i"] by (simp add: bit_simps)
  have "?x + (NOT ?x AND mask 16) = ?x OR (NOT ?x AND mask 16)"
    by (rule disjunctive_add_eq_or) (simp add: bit_eq_iff bit_simps)
  also have "\<dots> = mask 16" by (rule bit_word_eqI) (use bit in \<open>auto simp: bit_simps\<close>)
  finally have "NOT ?x AND mask 16 = mask 16 - ?x" by (simp add: eq_diff_eq add.commute)
  moreover have "mask 16 - ?x = of_nat (0xFFFF - n)" using assms by (simp add: mask_eq_exp_minus_1)
  ultimately show ?thesis unfolding m x by simp
qed

lemma compute_ones: "compute_ip_checksum bytes = of_nat (0xFFFF - ones (words_sum bytes))"
proof -
  have f: "fold ip_step bytes (0, 0) = (of_nat (length bytes), of_nat (ones (words_sum bytes)))"
    using fold_ip_step [of 0 bytes 0] by (simp add: weights_words)
  show ?thesis unfolding compute_ip_checksum_def f Let_def prod.case by (rule complement16 [OF ones_le])
qed

section \<open>Combining checksums\<close>

definition swap16 :: "nat \<Rightarrow> nat" where
  "swap16 n = n div 256 + n mod 256 * 256"

lemma ones_swap:
  assumes "n \<le> 0xFFFF"
  shows "ones (256 * n) = swap16 n"
proof (rule ones_unique)
  have n: "n = 256 * (n div 256) + n mod 256" by simp
  have "n div 256 \<le> 255" using div_le_mono [OF assms, of 256] by simp
  then show "swap16 n \<le> 0xFFFF" using mod_less_divisor [of 256 n] unfolding swap16_def by linarith
  have "256 * n = n div 256 * 0xFFFF + swap16 n" unfolding swap16_def using n by linarith
  then show "swap16 n mod 0xFFFF = 256 * n mod 0xFFFF" by (metis mod_mult_self3)
  show "swap16 n = 0 \<longleftrightarrow> 256 * n = 0" unfolding swap16_def using n by auto
qed

lemma weights_odd:
  assumes "odd i"
  shows "weights i bs mod 0xFFFF = 256 * words_sum bs mod 0xFFFF" "weights i bs = 0 \<longleftrightarrow> words_sum bs = 0"
proof -
  have "(\<exists>k. 256 * words_sum bs = weights i bs + k * 0xFFFF) \<and> (weights i bs = 0 \<longleftrightarrow> words_sum bs = 0)"
    using assms
  proof (induction bs arbitrary: i rule: words_sum.induct)
    case (3 a b rest)
    obtain k where k: "256 * words_sum rest = weights (Suc (Suc i)) rest + k * 0xFFFF" "weights (Suc (Suc i)) rest = 0 \<longleftrightarrow> words_sum rest = 0"
      using "3.IH" [of "Suc (Suc i)"] "3.prems" by auto
    have "256 * words_sum (a # b # rest) = weights i (a # b # rest) + (unat b + k) * 0xFFFF"
      using k(1) "3.prems" by (simp add: weight_def algebra_simps)
    moreover have "weights i (a # b # rest) = 0 \<longleftrightarrow> words_sum (a # b # rest) = 0" using k(2) "3.prems" by (auto simp: weight_def)
    ultimately show ?case by blast
  qed (auto simp: weight_def intro: exI [of _ 0])
  then show "weights i bs mod 0xFFFF = 256 * words_sum bs mod 0xFFFF" "weights i bs = 0 \<longleftrightarrow> words_sum bs = 0" by auto
qed

lemma ones_append:
  "ones (words_sum (as @ bs)) = ones (ones (words_sum as) + (if odd (length as) then swap16 (ones (words_sum bs)) else ones (words_sum bs)))"
proof -
  have w: "words_sum (as @ bs) = words_sum as + weights (length as) bs"
    using weights_append [of 0 as bs] by (simp add: weights_words)
  have "ones (words_sum as + (if odd (length as) then swap16 (ones (words_sum bs)) else ones (words_sum bs))) = ones (words_sum as + weights (length as) bs)"
  proof (cases "odd (length as)")
    case True
    have "swap16 (ones (words_sum bs)) = ones (256 * ones (words_sum bs))" by (rule ones_swap [symmetric, OF ones_le])
    also have "\<dots> = ones (weights (length as) bs)"
      by (rule ones_cong) (simp_all add: weights_odd [OF True] ones_0 mod_mult_right_eq [symmetric, of _ "ones (words_sum bs)"] ones_mod mod_mult_right_eq)
    finally show ?thesis using True by (simp add: ones_add add.commute [of "words_sum as"])
  next
    case False
    then show ?thesis by (simp add: weights_words ones_add add.commute [of "words_sum as"])
  qed
  then show ?thesis by (simp add: w ones_add)
qed

lemma complement_word:
  assumes "n \<le> 0xFFFF"
  shows "NOT (of_nat (0xFFFF - n)) AND 0xFFFF = (of_nat n :: u32)"
proof -
  have le: "0xFFFF - n \<le> 0xFFFF" and n: "0xFFFF - (0xFFFF - n) = n" using assms by simp_all
  show ?thesis using complement16 [OF le] unfolding and_ffff [OF le] n .
qed

lemma swap_word:
  assumes "n \<le> 0xFFFF"
  shows "(drop_bit 8 (of_nat n) AND 0xff) OR (push_bit 8 (of_nat n) AND 0xff00) = (of_nat (swap16 n) :: u32)"
proof -
  let ?x = "of_nat n :: u32"
  have m: "(0xff :: u32) = mask 8" "(0xff00 :: u32) = push_bit 8 (mask 8)" by (simp_all add: mask_eq_exp_minus_1 push_bit_eq_mult)
  have u: "unat ?x = n" using assms by (simp add: unsigned_of_nat take_bit_nat_eq_self)
  have "n div 256 \<le> 255" using div_le_mono [OF assms, of 256] by simp
  then have hi: "drop_bit 8 ?x AND mask 8 = of_nat (n div 256)"
    by (simp add: word_unat_eq_iff unat_and_mask unat_drop_bit_eq drop_bit_eq_div unat_div u unsigned_of_nat take_bit_nat_eq_self)
  have lo: "?x AND mask 8 = of_nat (n mod 256)"
    using mod_less_divisor [of 256 n] unfolding word_unat_eq_iff unat_and_mask u by (simp add: unsigned_of_nat take_bit_nat_eq_self)
  have "(drop_bit 8 ?x AND mask 8) OR push_bit 8 (?x AND mask 8) = (drop_bit 8 ?x AND mask 8) + push_bit 8 (?x AND mask 8)"
    by (rule disjunctive_add_eq_or [symmetric]) (simp add: bit_eq_iff bit_simps)
  also have "\<dots> = of_nat (swap16 n)" unfolding hi lo by (simp add: swap16_def push_bit_eq_mult mult.commute)
  finally show ?thesis unfolding m by (simp add: push_bit_and)
qed

lemma sum_word:
  assumes "m \<le> 0xFFFF" and "n \<le> 0xFFFF"
  shows "(if 0xFFFF < (of_nat m + of_nat n :: u32) then of_nat m + of_nat n - 0xFFFF else of_nat m + of_nat n) = (of_nat (ones (m + n)) :: u32)"
proof -
  have e: "(of_nat m + of_nat n :: u32) = of_nat (m + n)" by simp
  have u: "unat (of_nat (m + n) :: u32) = m + n" using assms by (simp add: unsigned_of_nat take_bit_nat_eq_self del: of_nat_add)
  show ?thesis
  proof (cases "0xFFFF < m + n")
    case True
    then have "ones (m + n) = m + n - 0xFFFF" using assms by (intro ones_unique) (simp_all add: le_mod_geq)
    moreover have "(of_nat (m + n) - 0xFFFF :: u32) = of_nat (m + n - 0xFFFF)" using True by simp
    ultimately show ?thesis using True u unfolding e by (simp add: word_less_nat_alt del: of_nat_add)
  next
    case False
    then show ?thesis using u unfolding e by (simp add: word_less_nat_alt ones_small del: of_nat_add)
  qed
qed

lemma add_ones:
  assumes "m \<le> 0xFFFF" and "n \<le> 0xFFFF"
  shows "add_ip_checksums (of_nat k) (of_nat (0xFFFF - m)) (of_nat (0xFFFF - n)) = of_nat (0xFFFF - ones (m + (if odd k then swap16 n else n)))"
proof -
  let ?n = "if odd k then swap16 n else n"
  have n: "?n \<le> 0xFFFF" using assms(2) ones_swap [OF assms(2)] ones_le by (metis (full_types))
  have "(if odd k then of_nat (swap16 n) else of_nat n) = (of_nat ?n :: u32)" by simp
  moreover have "NOT (of_nat (ones (m + ?n))) AND 0xFFFF = (of_nat (0xFFFF - ones (m + ?n)) :: u32)"
    using complement16 [OF ones_le] by (simp add: and_ffff [OF ones_le])
  ultimately show ?thesis
    unfolding add_ip_checksums_def complement_word [OF assms(1)] complement_word [OF assms(2)] Let_def odd_of_nat swap_word [OF assms(2)]
    by (simp only: sum_word [OF assms(1) n])
qed

text \<open>
  C18. The checksum is the complement of the ones' complement sum of the 16-bit words of the data, and the
  checksums of two pieces of data combine to that of their concatenation, whatever the parity of the first
  piece's length.
\<close>
theorem ip_checksum_correct:
  "compute_ip_checksum as = of_nat (0xFFFF - ones (words_sum as))
   \<and> add_ip_checksums (of_nat (length as)) (compute_ip_checksum as) (compute_ip_checksum bs) = compute_ip_checksum (as @ bs)"
  by (simp add: compute_ones add_ones [OF ones_le ones_le] ones_append)

end
