(* ===== verification/Pciconf.thy ===== *)
theory Pciconf
  imports Devinit
begin

text \<open>
  PCI configuration space: \<^verbatim>\<open>src/arch/x86/lib/pci_ops_conf1.c\<close>, and the part of
  \<^verbatim>\<open>src/device/pci_device.c\<close> that works on the registers of one function: which bits of a
  register move, the search of the capability list, base address registers and bridge
  windows, and how a resource is written back to them.

  The hardware is a parameter.  A function of a device is its register bytes and, for every
  byte, what a write leaves there: \<open>cfg_wr f r old v\<close> is the byte that register \<open>r\<close> holds after
  \<open>v\<close> was written over \<open>old\<close>.  Read-only, plain and write-one-to-clear bits are instances.
\<close>

section \<open>The registers of a function\<close>

record pci_function =
  cfg_byte :: "nat \<Rightarrow> u8"
  cfg_wr :: "nat \<Rightarrow> u8 \<Rightarrow> u8 \<Rightarrow> u8"

definition byte_of :: "nat \<Rightarrow> 'a::len word \<Rightarrow> u8" where
  "byte_of i v = ucast (drop_bit (8 * i) v)"

definition cfg_read8 :: "pci_function \<Rightarrow> nat \<Rightarrow> u8" where
  "cfg_read8 f r = cfg_byte f r"

definition cfg_read16 :: "pci_function \<Rightarrow> nat \<Rightarrow> u16" where
  "cfg_read16 f r = ucast (cfg_byte f r) OR push_bit 8 (ucast (cfg_byte f (r + 1)))"

definition cfg_read32 :: "pci_function \<Rightarrow> nat \<Rightarrow> u32" where
  "cfg_read32 f r = ucast (cfg_byte f r) OR push_bit 8 (ucast (cfg_byte f (r + 1)))
     OR push_bit 16 (ucast (cfg_byte f (r + 2))) OR push_bit 24 (ucast (cfg_byte f (r + 3)))"

definition cfg_write8 :: "nat \<Rightarrow> u8 \<Rightarrow> pci_function \<Rightarrow> pci_function" where
  "cfg_write8 r v f = f\<lparr>cfg_byte := (cfg_byte f)(r := cfg_wr f r (cfg_byte f r) v)\<rparr>"

definition cfg_write16 :: "nat \<Rightarrow> u16 \<Rightarrow> pci_function \<Rightarrow> pci_function" where
  "cfg_write16 r v f = cfg_write8 (r + 1) (byte_of 1 v) (cfg_write8 r (byte_of 0 v) f)"

definition cfg_write32 :: "nat \<Rightarrow> u32 \<Rightarrow> pci_function \<Rightarrow> pci_function" where
  "cfg_write32 r v f = cfg_write8 (r + 3) (byte_of 3 v) (cfg_write8 (r + 2) (byte_of 2 v)
     (cfg_write8 (r + 1) (byte_of 1 v) (cfg_write8 r (byte_of 0 v) f)))"

section \<open>Register numbers\<close>

abbreviation (input) PCI_VENDOR_ID :: nat where "PCI_VENDOR_ID \<equiv> 0x00"
abbreviation (input) PCI_COMMAND :: nat where "PCI_COMMAND \<equiv> 0x04"
abbreviation (input) PCI_STATUS :: nat where "PCI_STATUS \<equiv> 0x06"
abbreviation (input) PCI_CLASS_REVISION :: nat where "PCI_CLASS_REVISION \<equiv> 0x08"
abbreviation (input) PCI_CACHE_LINE_SIZE :: nat where "PCI_CACHE_LINE_SIZE \<equiv> 0x0c"
abbreviation (input) PCI_LATENCY_TIMER :: nat where "PCI_LATENCY_TIMER \<equiv> 0x0d"
abbreviation (input) PCI_HEADER_TYPE :: nat where "PCI_HEADER_TYPE \<equiv> 0x0e"
abbreviation (input) PCI_BASE_ADDRESS_0 :: nat where "PCI_BASE_ADDRESS_0 \<equiv> 0x10"
abbreviation (input) PCI_PRIMARY_BUS :: nat where "PCI_PRIMARY_BUS \<equiv> 0x18"
abbreviation (input) PCI_SEC_LATENCY_TIMER :: nat where "PCI_SEC_LATENCY_TIMER \<equiv> 0x1b"
abbreviation (input) PCI_IO_BASE :: nat where "PCI_IO_BASE \<equiv> 0x1c"
abbreviation (input) PCI_IO_LIMIT :: nat where "PCI_IO_LIMIT \<equiv> 0x1d"
abbreviation (input) PCI_MEMORY_BASE :: nat where "PCI_MEMORY_BASE \<equiv> 0x20"
abbreviation (input) PCI_MEMORY_LIMIT :: nat where "PCI_MEMORY_LIMIT \<equiv> 0x22"
abbreviation (input) PCI_PREF_MEMORY_BASE :: nat where "PCI_PREF_MEMORY_BASE \<equiv> 0x24"
abbreviation (input) PCI_PREF_MEMORY_LIMIT :: nat where "PCI_PREF_MEMORY_LIMIT \<equiv> 0x26"
abbreviation (input) PCI_PREF_BASE_UPPER32 :: nat where "PCI_PREF_BASE_UPPER32 \<equiv> 0x28"
abbreviation (input) PCI_PREF_LIMIT_UPPER32 :: nat where "PCI_PREF_LIMIT_UPPER32 \<equiv> 0x2c"
abbreviation (input) PCI_SUBSYSTEM_VENDOR_ID :: nat where "PCI_SUBSYSTEM_VENDOR_ID \<equiv> 0x2c"
abbreviation (input) PCI_ROM_ADDRESS :: nat where "PCI_ROM_ADDRESS \<equiv> 0x30"
abbreviation (input) PCI_IO_BASE_UPPER16 :: nat where "PCI_IO_BASE_UPPER16 \<equiv> 0x30"
abbreviation (input) PCI_IO_LIMIT_UPPER16 :: nat where "PCI_IO_LIMIT_UPPER16 \<equiv> 0x32"
abbreviation (input) PCI_ROM_ADDRESS1 :: nat where "PCI_ROM_ADDRESS1 \<equiv> 0x38"
abbreviation (input) PCI_INTERRUPT_LINE :: nat where "PCI_INTERRUPT_LINE \<equiv> 0x3c"
abbreviation (input) PCI_INTERRUPT_PIN :: nat where "PCI_INTERRUPT_PIN \<equiv> 0x3d"
abbreviation (input) PCI_BRIDGE_CONTROL :: nat where "PCI_BRIDGE_CONTROL \<equiv> 0x3e"

abbreviation (input) PCI_STATUS_CAP_LIST :: u16 where "PCI_STATUS_CAP_LIST \<equiv> 0x10"
abbreviation (input) PCI_COMMAND_MASTER :: u8 where "PCI_COMMAND_MASTER \<equiv> 0x4"
abbreviation (input) PCI_BRIDGE_CTL_PARITY :: u16 where "PCI_BRIDGE_CTL_PARITY \<equiv> 0x01"
abbreviation (input) PCI_BRIDGE_CTL_SERR :: u16 where "PCI_BRIDGE_CTL_SERR \<equiv> 0x02"
abbreviation (input) PCI_BRIDGE_CTL_VGA :: u16 where "PCI_BRIDGE_CTL_VGA \<equiv> 0x08"
abbreviation (input) PCI_BRIDGE_CTL_BUS_RESET :: u16 where "PCI_BRIDGE_CTL_BUS_RESET \<equiv> 0x40"
abbreviation (input) IORESOURCE_PCI_BRIDGE :: u32 where "IORESOURCE_PCI_BRIDGE \<equiv> 2"

section \<open>Bits that move\<close>

definition pci_moving_config8 :: "nat \<Rightarrow> pci_function \<Rightarrow> u8 \<times> pci_function" where
  "pci_moving_config8 reg f =
     (let val = cfg_read8 f reg;
          f = cfg_write8 reg 0xff f; ones = cfg_read8 f reg;
          f = cfg_write8 reg 0x00 f; zeroes = cfg_read8 f reg;
          f = cfg_write8 reg val f
      in (ones XOR zeroes, f))"

definition pci_moving_config16 :: "nat \<Rightarrow> pci_function \<Rightarrow> u16 \<times> pci_function" where
  "pci_moving_config16 reg f =
     (let val = cfg_read16 f reg;
          f = cfg_write16 reg 0xffff f; ones = cfg_read16 f reg;
          f = cfg_write16 reg 0x0000 f; zeroes = cfg_read16 f reg;
          f = cfg_write16 reg val f
      in (ones XOR zeroes, f))"

definition pci_moving_config32 :: "nat \<Rightarrow> pci_function \<Rightarrow> u32 \<times> pci_function" where
  "pci_moving_config32 reg f =
     (let val = cfg_read32 f reg;
          f = cfg_write32 reg 0xffffffff f; ones = cfg_read32 f reg;
          f = cfg_write32 reg 0x00000000 f; zeroes = cfg_read32 f reg;
          f = cfg_write32 reg val f
      in (ones XOR zeroes, f))"

section \<open>The capability list\<close>

text \<open>The first argument is the number of entries the loop may still look at.\<close>

fun cap_loop :: "nat \<Rightarrow> pci_function \<Rightarrow> u32 \<Rightarrow> u32 \<Rightarrow> u32 \<Rightarrow> u32" where
  "cap_loop 0 f cap last' pos = 0"
| "cap_loop (Suc reps) f cap last' pos =
     (if pos < 0x40 then 0
      else let pos = pos AND NOT 3; this_cap = ucast (cfg_read8 f (unat pos)) in
        if this_cap = 0xff then 0
        else if last' = 0 \<and> this_cap = cap then pos
        else cap_loop reps f cap (if last' = pos then 0 else last') (ucast (cfg_read8 f (unat pos + 1))))"

definition cap_head :: "u32 \<Rightarrow> nat option" where
  "cap_head hdr_type = (case hdr_type AND 0x7f of n \<Rightarrow>
     if n = 0 \<or> n = 1 then Some 0x34 else if n = 2 then Some 0x14 else None)"

definition pci_find_next_capability :: "pci_function \<Rightarrow> u32 \<Rightarrow> u32 \<Rightarrow> u32 \<Rightarrow> u32" where
  "pci_find_next_capability f hdr_type cap last' =
     (if cfg_read16 f PCI_STATUS AND PCI_STATUS_CAP_LIST = 0 then 0
      else case cap_head hdr_type of
             None \<Rightarrow> 0
           | Some head \<Rightarrow> cap_loop 48 f cap last' (ucast (cfg_read8 f head)))"

definition pci_find_capability :: "pci_function \<Rightarrow> u32 \<Rightarrow> u32 \<Rightarrow> u32" where
  "pci_find_capability f hdr_type cap = pci_find_next_capability f hdr_type cap 0"

section \<open>Base address registers\<close>

text \<open>
  The loop that doubles \<^verbatim>\<open>resource->size\<close> until it meets a moving bit, counting the doublings
  in \<^verbatim>\<open>align\<close> and \<^verbatim>\<open>gran\<close>.  It does not end when no bit moves.
\<close>

partial_function (option) size_loop :: "u64 \<Rightarrow> u64 \<Rightarrow> u8 \<Rightarrow> (u64 \<times> u8) option" where
  "size_loop moving sz n = (if moving AND sz \<noteq> 0 then Some (sz, n) else size_loop moving (push_bit 1 sz) (n + 1))"

definition size_resource :: "u64 \<Rightarrow> resource \<Rightarrow> resource option" where
  "size_resource moving res = do {
     (sz, n) \<leftarrow> size_loop moving 1 0;
     Some (res\<lparr>res_size := sz, res_align := n, res_gran := n, res_limit := moving OR (sz - 1)\<rparr>)
   }"

text \<open>The type of the register, from the bits \<open>attr\<close> that do not move.\<close>

definition bar_type :: "u32 \<Rightarrow> resource \<Rightarrow> resource" where
  "bar_type attr res =
     (if attr AND 1 \<noteq> 0 then res\<lparr>res_flags := res_flags res OR IORESOURCE_IO, res_limit := 0xffff\<rparr>
      else
        let attr = attr AND 0xf;
            res = res\<lparr>res_flags := res_flags res OR IORESOURCE_MEM\<rparr>;
            res = (if attr AND 8 \<noteq> 0 then res\<lparr>res_flags := res_flags res OR IORESOURCE_PREFETCH\<rparr> else res);
            attr = attr AND 6
        in if attr = 0 then res\<lparr>res_limit := 0xffffffff\<rparr>
           else if attr = 2 then res\<lparr>res_limit := 0x000fffff\<rparr>
           else if attr = 4 then res\<lparr>res_limit := 0xffffffffffffffff, res_flags := res_flags res OR IORESOURCE_PCI64\<rparr>
           else res\<lparr>res_flags := 0\<rparr>)"

definition pci_get_resource ::
  "nat \<Rightarrow> resource list \<times> res_pool \<times> pci_function \<Rightarrow> (nat \<times> resource list \<times> res_pool \<times> pci_function) option" where
  "pci_get_resource index = (\<lambda>(rs, pool, f). do {
     (i, rs, pool) \<leftarrow> new_resource rs (of_nat index) pool;
     let val = cfg_read32 f index;
     let (moving32, f) = pci_moving_config32 index f;
     let attr = val AND NOT moving32;
     let (high, f) = (if attr AND 1 = 0 \<and> attr AND 6 = 4 then pci_moving_config32 (index + 4) f else (0, f));
     let moving = ucast moving32 OR push_bit 32 (ucast high);
     res \<leftarrow> (if moving \<noteq> 0 then size_resource moving (rs ! i) else Some (rs ! i));
     let limit = (if moving \<noteq> 0 then res_limit res else 0);
     let res = (if moving = 0 then res\<lparr>res_flags := 0\<rparr> else bar_type attr res);
     let res = (if limit < res_limit res then res\<lparr>res_limit := limit\<rparr> else res);
     Some (i, rs[i := res], pool, f)
   })"

definition pci_get_rom_resource ::
  "nat \<Rightarrow> resource list \<times> res_pool \<times> pci_function \<Rightarrow> (resource list \<times> res_pool \<times> pci_function) option" where
  "pci_get_rom_resource index = (\<lambda>(rs, pool, f). do {
     (i, rs, pool) \<leftarrow> new_resource rs (of_nat index) pool;
     let (moving32, f) = pci_moving_config32 index f;
     let moving = ucast (moving32 AND NOT 1);
     res \<leftarrow> (if moving \<noteq> 0 then map_option (\<lambda>res. res\<lparr>res_flags := res_flags res OR (IORESOURCE_MEM OR IORESOURCE_READONLY)\<rparr>)
                                (size_resource moving (rs ! i))
            else Some ((rs ! i)\<lparr>res_flags := 0\<rparr>));
     let (rs, free) = compact_resources (rs[i := res]) (free_resources pool);
     Some (rs, pool\<lparr>free_resources := free\<rparr>, f)
   })"

text \<open>\<open>stop\<close> is the register after the last base address register.\<close>

function bases_loop ::
  "nat \<Rightarrow> nat \<Rightarrow> resource list \<times> res_pool \<times> pci_function \<Rightarrow> (resource list \<times> res_pool \<times> pci_function) option" where
  "bases_loop stop index s =
     (if index < stop then do {
        (i, rs, pool, f) \<leftarrow> pci_get_resource index s;
        bases_loop stop (index + (if res_flags (rs ! i) AND IORESOURCE_PCI64 \<noteq> 0 then 8 else 4)) (rs, pool, f)
      } else Some s)"
  by pat_completeness auto
termination by (relation "measure (\<lambda>(stop, index, s). stop - index)") auto

declare bases_loop.simps [simp del]

definition pci_read_bases ::
  "nat \<Rightarrow> resource list \<times> res_pool \<times> pci_function \<Rightarrow> (resource list \<times> res_pool \<times> pci_function) option" where
  "pci_read_bases howmany s = do {
     (rs, pool, f) \<leftarrow> bases_loop (PCI_BASE_ADDRESS_0 + 4 * howmany) PCI_BASE_ADDRESS_0 s;
     let (rs, free) = compact_resources rs (free_resources pool);
     Some (rs, pool\<lparr>free_resources := free\<rparr>, f)
   }"

section \<open>Bridge windows\<close>

partial_function (option) gran_loop :: "u64 \<Rightarrow> u64 \<Rightarrow> u32 \<Rightarrow> (u64 \<times> u32) option" where
  "gran_loop moving step gran = (if moving AND step = 0 then gran_loop moving (push_bit 1 step) (gran + 1) else Some (step, gran))"

definition pci_record_bridge_resource ::
  "u64 \<Rightarrow> nat \<Rightarrow> u32 \<Rightarrow> resource list \<times> res_pool \<Rightarrow> (resource list \<times> res_pool) option" where
  "pci_record_bridge_resource moving index type' = (\<lambda>(rs, pool).
     if moving = 0 then Some (rs, pool)
     else do {
       (i, rs, pool) \<leftarrow> new_resource rs (of_nat index) pool;
       (step, gran) \<leftarrow> gran_loop moving 1 0;
       Some (rs[i := (rs ! i)\<lparr>res_size := 0, res_gran := ucast gran, res_align := ucast gran,
                 res_limit := moving OR (step - 1),
                 res_flags := type' OR IORESOURCE_PCI_BRIDGE OR IORESOURCE_BRIDGE\<rparr>], pool)
     })"

definition pci_bridge_read_bases ::
  "resource list \<times> res_pool \<times> pci_function \<Rightarrow> (resource list \<times> res_pool \<times> pci_function) option" where
  "pci_bridge_read_bases = (\<lambda>(rs, pool, f). do {
     let (io_base, f) = pci_moving_config8 PCI_IO_BASE f;
     let (io_base_hi, f) = pci_moving_config16 PCI_IO_BASE_UPPER16 f;
     let (io_limit, f) = pci_moving_config8 PCI_IO_LIMIT f;
     let (io_limit_hi, f) = pci_moving_config16 PCI_IO_LIMIT_UPPER16 f;
     let moving_base = push_bit 8 (ucast io_base) OR push_bit 16 (ucast io_base_hi);
     let moving_limit = push_bit 8 (ucast io_limit) OR push_bit 16 (ucast io_limit_hi);
     (rs, pool) \<leftarrow> pci_record_bridge_resource (moving_base AND moving_limit) PCI_IO_BASE IORESOURCE_IO (rs, pool);
     let (pref_base, f) = pci_moving_config16 PCI_PREF_MEMORY_BASE f;
     let (pref_base_hi, f) = pci_moving_config32 PCI_PREF_BASE_UPPER32 f;
     let (pref_limit, f) = pci_moving_config16 PCI_PREF_MEMORY_LIMIT f;
     let (pref_limit_hi, f) = pci_moving_config32 PCI_PREF_LIMIT_UPPER32 f;
     let moving_base = push_bit 16 (ucast pref_base) OR push_bit 32 (ucast pref_base_hi);
     let moving_limit = push_bit 16 (ucast pref_limit) OR push_bit 32 (ucast pref_limit_hi);
     (rs, pool) \<leftarrow> pci_record_bridge_resource (moving_base AND moving_limit) PCI_PREF_MEMORY_BASE
                     (IORESOURCE_MEM OR IORESOURCE_PREFETCH) (rs, pool);
     let (mem_base, f) = pci_moving_config16 PCI_MEMORY_BASE f;
     let (mem_limit, f) = pci_moving_config16 PCI_MEMORY_LIMIT f;
     let moving_base = push_bit 16 (ucast mem_base);
     let moving_limit = push_bit 16 (ucast mem_limit);
     (rs, pool) \<leftarrow> pci_record_bridge_resource (moving_base AND moving_limit) PCI_MEMORY_BASE IORESOURCE_MEM (rs, pool);
     let (rs, free) = compact_resources rs (free_resources pool);
     Some (rs, pool\<lparr>free_resources := free\<rparr>, f)
   })"

definition pci_dev_read_resources ::
  "resource list \<times> res_pool \<times> pci_function \<Rightarrow> (resource list \<times> res_pool \<times> pci_function) option" where
  "pci_dev_read_resources s = do {
     s \<leftarrow> pci_read_bases 6 s;
     pci_get_rom_resource PCI_ROM_ADDRESS s
   }"

definition pci_bus_read_resources ::
  "resource list \<times> res_pool \<times> pci_function \<Rightarrow> (resource list \<times> res_pool \<times> pci_function) option" where
  "pci_bus_read_resources s = do {
     s \<leftarrow> pci_bridge_read_bases s;
     s \<leftarrow> pci_read_bases 2 s;
     pci_get_rom_resource PCI_ROM_ADDRESS1 s
   }"

definition IOINDEX_SUBTRACTIVE :: "u32 \<Rightarrow> u32 \<Rightarrow> u32" where
  "IOINDEX_SUBTRACTIVE idx link = 0x10000000 + push_bit 8 idx + link"

definition pci_domain_read_resources ::
  "resource list \<times> res_pool \<Rightarrow> (resource list \<times> res_pool) option" where
  "pci_domain_read_resources = (\<lambda>(rs, pool). do {
     (i, rs, pool) \<leftarrow> new_resource rs (IOINDEX_SUBTRACTIVE 0 0) pool;
     let rs = rs[i := (rs ! i)\<lparr>res_limit := 0xffff,
                 res_flags := IORESOURCE_IO OR IORESOURCE_SUBTRACTIVE OR IORESOURCE_ASSIGNED\<rparr>];
     (i, rs, pool) \<leftarrow> new_resource rs (IOINDEX_SUBTRACTIVE 1 0) pool;
     Some (rs[i := (rs ! i)\<lparr>res_limit := 0xffffffff,
                 res_flags := IORESOURCE_MEM OR IORESOURCE_SUBTRACTIVE OR IORESOURCE_ASSIGNED\<rparr>], pool)
   })"

section \<open>Storing a resource\<close>

text \<open>
  \<^verbatim>\<open>1 << resource->gran\<close> shifts a signed 32-bit one, by the count modulo 32 that the processor
  uses.
\<close>

definition window_step :: "resource \<Rightarrow> u64" where
  "window_step res = scast (push_bit (unat (res_gran res) mod 32) (1 :: u32))"

definition store_bar :: "resource \<Rightarrow> resource_t \<Rightarrow> pci_function \<Rightarrow> pci_function" where
  "store_bar res base f =
     (let index = unat (res_index res);
          base_lo = ucast base :: u32; base_hi = ucast (drop_bit 32 base) :: u32;
          base_lo = (if res_flags res AND IORESOURCE_IO \<noteq> 0 then base_lo OR 1 else base_lo);
          f = cfg_write32 index base_lo f
      in if res_flags res AND IORESOURCE_PCI64 \<noteq> 0 then cfg_write32 (index + 4) base_hi f else f)"

definition store_window :: "nat \<Rightarrow> resource_t \<Rightarrow> resource_t \<Rightarrow> pci_function \<Rightarrow> pci_function option" where
  "store_window index base end' f =
     (if index = PCI_IO_BASE then Some (
        let f = cfg_write8 PCI_IO_BASE (ucast (drop_bit 8 base)) f;
            f = cfg_write16 PCI_IO_BASE_UPPER16 (ucast (drop_bit 16 base)) f;
            f = cfg_write8 PCI_IO_LIMIT (ucast (drop_bit 8 end')) f
        in cfg_write16 PCI_IO_LIMIT_UPPER16 (ucast (drop_bit 16 end')) f)
      else if index = PCI_MEMORY_BASE then Some (
        let f = cfg_write16 PCI_MEMORY_BASE (ucast (drop_bit 16 base)) f
        in cfg_write16 PCI_MEMORY_LIMIT (ucast (drop_bit 16 end')) f)
      else if index = PCI_PREF_MEMORY_BASE then Some (
        let f = cfg_write16 PCI_PREF_MEMORY_BASE (ucast (drop_bit 16 base)) f;
            f = cfg_write32 PCI_PREF_BASE_UPPER32 (ucast (drop_bit 32 base)) f;
            f = cfg_write16 PCI_PREF_MEMORY_LIMIT (ucast (drop_bit 16 end')) f
        in cfg_write32 PCI_PREF_LIMIT_UPPER32 (ucast (drop_bit 32 end')) f)
      else None)"

definition command_bits :: "resource \<Rightarrow> u8" where
  "command_bits res =
     (if res_size res = 0 then 0
      else (if res_flags res AND IORESOURCE_MEM \<noteq> 0 then PCI_COMMAND_MEMORY else 0)
        OR (if res_flags res AND IORESOURCE_IO \<noteq> 0 then PCI_COMMAND_IO else 0)
        OR (if res_flags res AND IORESOURCE_PCI_BRIDGE \<noteq> 0 then PCI_COMMAND_MASTER else 0))"

definition pci_set_resource :: "resource \<Rightarrow> u8 \<times> pci_function \<Rightarrow> resource \<times> u8 \<times> pci_function" where
  "pci_set_resource res = (\<lambda>(cmd, f).
     if res_flags res AND IORESOURCE_ASSIGNED = 0 \<or> res_flags res AND IORESOURCE_FIXED \<noteq> 0
        \<or> res_flags res AND IORESOURCE_STORED \<noteq> 0 \<or> res_flags res AND IORESOURCE_SUBTRACTIVE \<noteq> 0
        \<or> res_flags res AND (IORESOURCE_MEM OR IORESOURCE_IO) = 0
     then (res, cmd, f)
     else
       let cmd = cmd OR command_bits res;
           base = res_base res; end' = resource_end res;
           res = res\<lparr>res_flags := res_flags res OR IORESOURCE_STORED\<rparr>;
           off = res_size res = 0 \<and> res_flags res AND IORESOURCE_PCI_BRIDGE \<noteq> 0;
           base = (if off then res_limit res else base);
           end' = (if off then res_limit res - window_step res else end');
           res = (if off then res\<lparr>res_base := base\<rparr> else res)
       in if res_flags res AND IORESOURCE_PCI_BRIDGE = 0 then (res, cmd, store_bar res base f)
          else case store_window (unat (res_index res)) base end' f of
                 Some f \<Rightarrow> (res, cmd, f)
               | None \<Rightarrow> (res\<lparr>res_flags := res_flags res AND NOT IORESOURCE_STORED\<rparr>, cmd, f))"

fun set_resources :: "resource list \<Rightarrow> u8 \<times> pci_function \<Rightarrow> resource list \<times> u8 \<times> pci_function" where
  "set_resources [] s = ([], s)"
| "set_resources (res # rest) s =
     (let (res, s) = pci_set_resource res s; (rest, s) = set_resources rest s in (res # rest, s))"

text \<open>The part of \<^verbatim>\<open>pci_dev_set_resources\<close> after the buses behind the device were assigned.\<close>

definition set_timers :: "u32 \<Rightarrow> pci_function \<Rightarrow> pci_function" where
  "set_timers hdr_type f =
     (let f = cfg_write8 PCI_LATENCY_TIMER 0x40 f;
          f = (if hdr_type AND 0x7f = 1 then cfg_write8 PCI_SEC_LATENCY_TIMER 0x40 f else f);
          f = (if cfg_read8 f PCI_INTERRUPT_PIN \<noteq> 0 then cfg_write8 PCI_INTERRUPT_LINE 0 f else f)
      in cfg_write8 PCI_CACHE_LINE_SIZE 16 f)"

section \<open>Registers with writable bits\<close>

text \<open>
  What the PCI specification says of most registers: bits set in \<open>m\<close> take what is written, the
  others keep their value.
\<close>

definition writable :: "pci_function \<Rightarrow> nat \<Rightarrow> nat \<Rightarrow> 'a::len word \<Rightarrow> bool" where
  "writable f n r m \<longleftrightarrow> (\<forall>i < n. \<forall>old v. cfg_wr f (r + i) old v = (old AND NOT (byte_of i m)) OR (v AND byte_of i m))"

text \<open>The \<open>n\<close> bytes at \<open>r\<close> hold \<open>v\<close>.\<close>

definition cfg_put :: "nat \<Rightarrow> nat \<Rightarrow> 'a::len word \<Rightarrow> pci_function \<Rightarrow> pci_function" where
  "cfg_put n r v f = f\<lparr>cfg_byte := (\<lambda>q. if r \<le> q \<and> q < r + n then byte_of (q - r) v else cfg_byte f q)\<rparr>"

lemma bit_byte_of [bits]: "bit (byte_of i (v::'a::len word)) n \<longleftrightarrow> n < 8 \<and> bit v (8 * i + n)"
  by (auto simp: byte_of_def bit_simps)

lemma byte_of_and: "byte_of i (a AND b) = byte_of i a AND byte_of i (b::'a::len word)"
  by (rule bit_word_eqI) (auto simp: bits bit_simps)

lemma byte_of_or: "byte_of i (a OR b) = byte_of i a OR byte_of i (b::'a::len word)"
  by (rule bit_word_eqI) (auto simp: bits bit_simps)

lemma byte_of_not: "8 * i + 8 \<le> LENGTH('a) \<Longrightarrow> byte_of i (NOT b) = NOT (byte_of i (b::'a::len word))"
  by (rule bit_word_eqI) (auto simp: bits bit_simps)

lemma byte_of_0 [simp]: "byte_of 0 (v :: u8) = v"
  by (rule bit_word_eqI) (simp add: bits)

lemma bit_past_byte [simp]: "8 \<le> n \<Longrightarrow> \<not> bit (x :: u8) n"
  by (auto dest: bit_imp_le_length)

lemma word_eq_bytesI:
  assumes "\<And>i. i < n \<Longrightarrow> byte_of i (a::'a::len word) = byte_of i b" and "LENGTH('a) = 8 * n"
  shows "a = b"
proof (rule bit_word_eqI)
  fix k assume k: "k < LENGTH('a)"
  have "byte_of (k div 8) a = byte_of (k div 8) b" using k assms(2) by (intro assms(1)) linarith
  then have "bit (byte_of (k div 8) a) (k mod 8) = bit (byte_of (k div 8) b) (k mod 8)" by simp
  then show "bit a k = bit b k" by (simp add: bits)
qed

lemma less_four: "i < (4::nat) \<longleftrightarrow> i = 0 \<or> i = 1 \<or> i = 2 \<or> i = 3" by linarith
lemma less_two: "i < (2::nat) \<longleftrightarrow> i = 0 \<or> i = 1" by linarith

lemma byte_of_read32: "i < 4 \<Longrightarrow> byte_of i (cfg_read32 f r) = cfg_byte f (r + i)"
  unfolding less_four by (elim disjE; rule bit_word_eqI; simp add: cfg_read32_def bits bit_simps)

lemma byte_of_read16: "i < 2 \<Longrightarrow> byte_of i (cfg_read16 f r) = cfg_byte f (r + i)"
  unfolding less_two by (elim disjE; rule bit_word_eqI; simp add: cfg_read16_def bits bit_simps)

lemma cfg_put_same: "cfg_put n r v (cfg_put n r w f) = cfg_put n r v f"
  by (simp add: cfg_put_def fun_eq_iff)

lemma cfg_put_fields [simp]:
  "cfg_wr (cfg_put n r v f) = cfg_wr f" "writable (cfg_put n r v f) = writable f"
  by (simp_all add: cfg_put_def writable_def fun_eq_iff)

lemma cfg_put_byte: "i < n \<Longrightarrow> cfg_byte (cfg_put n r v f) (r + i) = byte_of i v"
  by (simp add: cfg_put_def)

lemma cfg_put_byte_other: "q < r \<or> r + n \<le> q \<Longrightarrow> cfg_byte (cfg_put n r v f) q = cfg_byte f q"
  by (auto simp: cfg_put_def)

lemma read32_put: "cfg_read32 (cfg_put 4 r v f) r = v"
  by (rule word_eq_bytesI [where n = 4]) (simp_all add: byte_of_read32 cfg_put_byte)

lemma read16_put: "cfg_read16 (cfg_put 2 r v f) r = v"
  by (rule word_eq_bytesI [where n = 2]) (simp_all add: byte_of_read16 cfg_put_byte)

lemma read8_put: "cfg_read8 (cfg_put (Suc 0) r v f) r = v"
  by (simp add: cfg_read8_def cfg_put_def)

lemmas read_put [simp] = read32_put read16_put read8_put

lemma put_read32: "cfg_put 4 r (cfg_read32 f r) f = f"
  by (rule pci_function.equality) (auto simp: cfg_put_def fun_eq_iff byte_of_read32)

lemma put_read16: "cfg_put 2 r (cfg_read16 f r) f = f"
  by (rule pci_function.equality) (auto simp: cfg_put_def fun_eq_iff byte_of_read16)

lemma put_read8: "cfg_put (Suc 0) r (cfg_read8 f r) f = f"
  by (rule pci_function.equality) (auto simp: cfg_put_def fun_eq_iff cfg_read8_def dest: le_less_Suc_eq)

lemmas put_read [simp] = put_read32 put_read16 put_read8

lemma cfg_write_fields [simp]:
  "cfg_wr (cfg_write8 r v8 f) = cfg_wr f" "cfg_wr (cfg_write16 r v16 f) = cfg_wr f" "cfg_wr (cfg_write32 r v32 f) = cfg_wr f"
  by (simp_all add: cfg_write8_def cfg_write16_def cfg_write32_def)

lemma write32_writable:
  assumes "writable f 4 r (m::u32)"
  shows "cfg_write32 r v f = cfg_put 4 r ((cfg_read32 f r AND NOT m) OR (v AND m)) f"
proof (rule pci_function.equality)
  have w: "cfg_wr f (r + i) old b = (old AND NOT (byte_of i m)) OR (b AND byte_of i m)" if "i < 4" for i old b
    using assms that by (simp add: writable_def)
  have b: "byte_of i ((cfg_read32 f r AND NOT m) OR (v AND m)) = (cfg_byte f (r + i) AND NOT (byte_of i m)) OR (byte_of i v AND byte_of i m)"
    if "i < 4" for i using that by (simp add: byte_of_or byte_of_and byte_of_not byte_of_read32)
  show "cfg_byte (cfg_write32 r v f) = cfg_byte (cfg_put 4 r ((cfg_read32 f r AND NOT m) OR (v AND m)) f)"
  proof
    fix q
    show "cfg_byte (cfg_write32 r v f) q = cfg_byte (cfg_put 4 r ((cfg_read32 f r AND NOT m) OR (v AND m)) f) q"
    proof (cases "r \<le> q \<and> q < r + 4")
      case True
      then obtain i where i: "q = r + i" "i < 4" by (metis le_iff_add nat_add_left_cancel_less)
      have "cfg_byte (cfg_write32 r v f) (r + i) = cfg_wr f (r + i) (cfg_byte f (r + i)) (byte_of i v)"
        using i(2) by (auto simp: cfg_write32_def cfg_write8_def less_four)
      then show ?thesis by (simp only: i(1) w [OF i(2)] cfg_put_byte [OF i(2)] b [OF i(2)])
    next
      case False
      then show ?thesis by (auto simp: cfg_write32_def cfg_write8_def cfg_put_def)
    qed
  qed
qed simp_all

lemma write16_writable:
  assumes "writable f 2 r (m::u16)"
  shows "cfg_write16 r v f = cfg_put 2 r ((cfg_read16 f r AND NOT m) OR (v AND m)) f"
proof (rule pci_function.equality)
  have w: "cfg_wr f (r + i) old b = (old AND NOT (byte_of i m)) OR (b AND byte_of i m)" if "i < 2" for i old b
    using assms that by (simp add: writable_def)
  have b: "byte_of i ((cfg_read16 f r AND NOT m) OR (v AND m)) = (cfg_byte f (r + i) AND NOT (byte_of i m)) OR (byte_of i v AND byte_of i m)"
    if "i < 2" for i using that by (simp add: byte_of_or byte_of_and byte_of_not byte_of_read16)
  show "cfg_byte (cfg_write16 r v f) = cfg_byte (cfg_put 2 r ((cfg_read16 f r AND NOT m) OR (v AND m)) f)"
  proof
    fix q
    show "cfg_byte (cfg_write16 r v f) q = cfg_byte (cfg_put 2 r ((cfg_read16 f r AND NOT m) OR (v AND m)) f) q"
    proof (cases "r \<le> q \<and> q < r + 2")
      case True
      then obtain i where i: "q = r + i" "i < 2" by (metis le_iff_add nat_add_left_cancel_less)
      have "cfg_byte (cfg_write16 r v f) (r + i) = cfg_wr f (r + i) (cfg_byte f (r + i)) (byte_of i v)"
        using i(2) by (auto simp: cfg_write16_def cfg_write8_def less_two)
      then show ?thesis by (simp only: i(1) w [OF i(2)] cfg_put_byte [OF i(2)] b [OF i(2)])
    next
      case False
      then show ?thesis by (auto simp: cfg_write16_def cfg_write8_def cfg_put_def)
    qed
  qed
qed simp_all

lemma write8_writable:
  assumes "writable f (Suc 0) r (m::u8)"
  shows "cfg_write8 r v f = cfg_put (Suc 0) r ((cfg_read8 f r AND NOT m) OR (v AND m)) f"
proof -
  have w: "cfg_wr f r old b = (old AND NOT m) OR (b AND m)" for old b using assms by (simp add: writable_def)
  have q: "r \<le> q \<and> q < Suc r \<longleftrightarrow> q = r" for q by linarith
  show ?thesis by (rule pci_function.equality) (simp_all add: cfg_write8_def cfg_put_def cfg_read8_def w q fun_eq_iff)
qed

text \<open>Ones, zeroes and the old value written in turn: what is read between tells the mask.\<close>

lemma masked_probe:
  fixes x m :: "'a::len word"
  shows "(((x AND NOT m) OR (v AND m)) AND NOT m) OR (w AND m) = (x AND NOT m) OR (w AND m)"
    and "(x AND NOT m) OR (x AND m) = x"
    and "((x AND NOT m) OR m) XOR (x AND NOT m) = m"
    and "((x AND NOT m) OR m) AND NOT m = x AND NOT m"
    and "(x AND NOT m) AND NOT m = x AND NOT m"
  by (rule bit_word_eqI; auto simp: bit_simps)+

lemma all_ones: "(0xff::u8) = - 1" "(0xffff::u16) = - 1" "(0xffffffff::u32) = - 1"
  by simp_all

lemma moving32: "writable f 4 r (m::u32) \<Longrightarrow> pci_moving_config32 r f = (m, f)"
  by (simp add: pci_moving_config32_def all_ones Let_def write32_writable cfg_put_same masked_probe)

lemma moving16: "writable f 2 r (m::u16) \<Longrightarrow> pci_moving_config16 r f = (m, f)"
  by (simp add: pci_moving_config16_def all_ones Let_def write16_writable cfg_put_same masked_probe)

lemma moving8: "writable f (Suc 0) r (m::u8) \<Longrightarrow> pci_moving_config8 r f = (m, f)"
  by (simp add: pci_moving_config8_def all_ones Let_def write8_writable cfg_put_same masked_probe)

section \<open>Base address registers as the PCI specification has them\<close>

text \<open>
  A base address register of \<open>2 ^ n\<close> bytes: bits \<open>n\<close> and above are writable, the bits
  below the address say what it decodes.  \<open>Bar_Mem\<close> and \<open>Bar_Mem64\<close> also say whether the
  memory is prefetchable, \<open>Bar_Mem\<close> whether it has to lie below 1 MB.
\<close>

datatype bar = Bar_IO nat | Bar_Mem nat bool bool | Bar_Mem64 nat bool

fun bar_log :: "bar \<Rightarrow> nat" where
  "bar_log (Bar_IO n) = n" | "bar_log (Bar_Mem n p low) = n" | "bar_log (Bar_Mem64 n p) = n"

fun bar_valid :: "bar \<Rightarrow> bool" where
  "bar_valid (Bar_IO n) \<longleftrightarrow> 2 \<le> n \<and> n \<le> 16"
| "bar_valid (Bar_Mem n p low) \<longleftrightarrow> 4 \<le> n \<and> n \<le> (if low then 20 else 31)"
| "bar_valid (Bar_Mem64 n p) \<longleftrightarrow> 4 \<le> n \<and> n \<le> 63"

fun bar_kind :: "bar \<Rightarrow> u32" where
  "bar_kind (Bar_IO n) = 1"
| "bar_kind (Bar_Mem n p low) = (if p then 8 else 0) OR (if low then 2 else 0)"
| "bar_kind (Bar_Mem64 n p) = (if p then 8 else 0) OR 4"

fun bar_wide :: "bar \<Rightarrow> bool" where
  "bar_wide (Bar_Mem64 n p) = True" | "bar_wide b = False"

definition bar_moving :: "bar \<Rightarrow> u64" where
  "bar_moving b = push_bit (bar_log b) (if bar_wide b then - 1 else mask (32 - bar_log b))"

definition implements :: "pci_function \<Rightarrow> nat \<Rightarrow> bar \<Rightarrow> bool" where
  "implements f r b \<longleftrightarrow> bar_valid b
     \<and> writable f 4 r (ucast (bar_moving b) :: u32)
     \<and> cfg_read32 f r AND NOT (ucast (bar_moving b)) = bar_kind b
     \<and> (bar_wide b \<longrightarrow> writable f 4 (r + 4) (ucast (drop_bit 32 (bar_moving b)) :: u32)
          \<and> cfg_read32 f (r + 4) AND NOT (ucast (drop_bit 32 (bar_moving b))) = 0)"

text \<open>The resource that such a register needs.\<close>

fun bar_flags :: "bar \<Rightarrow> u32" where
  "bar_flags (Bar_IO n) = IORESOURCE_IO"
| "bar_flags (Bar_Mem n p low) = IORESOURCE_MEM OR (if p then IORESOURCE_PREFETCH else 0)"
| "bar_flags (Bar_Mem64 n p) = IORESOURCE_MEM OR (if p then IORESOURCE_PREFETCH else 0) OR IORESOURCE_PCI64"

fun bar_limit :: "bar \<Rightarrow> resource_t" where
  "bar_limit (Bar_IO n) = 0xffff"
| "bar_limit (Bar_Mem n p low) = (if low then 0xfffff else 0xffffffff)"
| "bar_limit (Bar_Mem64 n p) = - 1"

definition bar_resource :: "nat \<Rightarrow> bar \<Rightarrow> resource" where
  "bar_resource r b = \<lparr>res_base = 0, res_size = 2 ^ bar_log b, res_limit = bar_limit b, res_flags = bar_flags b,
     res_index = of_nat r, res_align = of_nat (bar_log b), res_gran = of_nat (bar_log b)\<rparr>"

text \<open>The loops that look for the lowest moving bit find it.\<close>

lemma and_two_power: "(m::'a::len word) AND 2 ^ k \<noteq> 0 \<longleftrightarrow> bit m k"
  by (simp add: and_exp_eq_0_iff_not_bit)

lemma size_loop_run:
  assumes "bit moving n" and "\<forall>k < n. \<not> bit moving k" and "k \<le> n"
  shows "size_loop moving (2 ^ k) (of_nat k) = Some (2 ^ n, of_nat n)"
  using assms(3)
proof (induction rule: inc_induct)
  case base
  have "moving AND 2 ^ n \<noteq> 0" using assms(1) and_two_power by blast
  then show ?case by (subst size_loop.simps) simp
next
  case (step j)
  have "\<not> bit moving j" using assms(2) step.hyps by simp
  then have "moving AND 2 ^ j = 0" using and_two_power by blast
  moreover have "push_bit 1 (2 ^ j) = (2 ^ Suc j :: u64)" by (simp add: push_bit_eq_mult)
  moreover have "of_nat j + 1 = (of_nat (Suc j) :: u8)" by simp
  ultimately show ?case using step.IH by (subst size_loop.simps) (simp add: ac_simps)
qed

lemma gran_loop_run:
  assumes "bit moving n" and "\<forall>k < n. \<not> bit moving k" and "k \<le> n"
  shows "gran_loop moving (2 ^ k) (of_nat k) = Some (2 ^ n, of_nat n)"
  using assms(3)
proof (induction rule: inc_induct)
  case base
  have "moving AND 2 ^ n \<noteq> 0" using assms(1) and_two_power by blast
  then show ?case by (subst gran_loop.simps) simp
next
  case (step j)
  have "\<not> bit moving j" using assms(2) step.hyps by simp
  then have "moving AND 2 ^ j = 0" using and_two_power by blast
  moreover have "push_bit 1 (2 ^ j) = (2 ^ Suc j :: u64)" by (simp add: push_bit_eq_mult)
  moreover have "of_nat j + 1 = (of_nat (Suc j) :: u32)" by simp
  ultimately show ?case using step.IH by (subst gran_loop.simps) (simp add: ac_simps)
qed

lemma size_resource_run:
  assumes "bit moving n" and "\<forall>k < n. \<not> bit moving k"
  shows "size_resource moving res =
    Some (res\<lparr>res_size := 2 ^ n, res_align := of_nat n, res_gran := of_nat n, res_limit := moving OR mask n\<rparr>)"
  using size_loop_run [OF assms, of 0] by (simp add: size_resource_def flip: mask_eq_exp_minus_1)

lemma bit_bar_moving:
  assumes "bar_valid b"
  shows "bit (bar_moving b) k \<longleftrightarrow> bar_log b \<le> k \<and> k < (if bar_wide b then 64 else 32)"
proof -
  have "bar_log b < (if bar_wide b then 64 else 32)" using assms by (cases b) (auto split: if_splits)
  then show ?thesis by (auto simp: bar_moving_def bit_simps)
qed

lemma bar_moving_split:
  assumes "bar_valid b"
  shows "(ucast (ucast (bar_moving b) :: u32) :: u64) OR push_bit 32 (ucast (if bar_wide b then ucast (drop_bit 32 (bar_moving b)) :: u32 else 0)) = bar_moving b"
  by (rule bit_word_eqI) (auto simp: bit_simps bit_bar_moving [OF assms])

lemma bar_moving_ones:
  assumes "bar_valid b"
  shows "bar_moving b OR mask (bar_log b) = (if bar_wide b then - 1 else 0xffffffff)"
proof -
  have "bar_log b < (if bar_wide b then 64 else 32)" using assms by (cases b) (auto split: if_splits)
  then have "bar_moving b OR mask (bar_log b) = (if bar_wide b then - 1 else mask 32)"
    by (intro bit_word_eqI) (auto simp: bit_simps bit_bar_moving [OF assms])
  then show ?thesis by (simp add: mask_eq_exp_minus_1)
qed

lemma bar_lowest: "bar_valid b \<Longrightarrow> bit (bar_moving b) (bar_log b)" "bar_valid b \<Longrightarrow> \<forall>k < bar_log b. \<not> bit (bar_moving b) k"
  by (cases b; simp add: bit_bar_moving split: if_splits)+

lemma bar_kind_wide:
  "bar_kind b AND 1 = 0 \<and> bar_kind b AND 6 = 4 \<longleftrightarrow> bar_wide b"
  by (cases b) simp_all

lemma bar_type_resource:
  assumes "bar_valid b" and "res_flags res = 0"
  shows "(let res = bar_type (bar_kind b) res; lim = (if bar_wide b then - 1 else 0xffffffff)
          in if lim < res_limit res then res\<lparr>res_limit := lim\<rparr> else res) =
    res\<lparr>res_flags := bar_flags b, res_limit := bar_limit b\<rparr>"
  using assms by (cases b) (auto simp: bar_type_def Let_def)

lemma pci_get_resource_bar:
  assumes imp: "implements f r b"
    and new: "new_resource rs (of_nat r) pool = Some (i, rs1, pool1)"
    and fresh: "rs1 ! i = zero_resource\<lparr>res_index := of_nat r\<rparr>"
  shows "pci_get_resource r (rs, pool, f) = Some (i, rs1[i := bar_resource r b], pool1, f)"
proof -
  have v: "bar_valid b" using imp by (simp add: implements_def)
  have lo: "pci_moving_config32 r f = (ucast (bar_moving b), f)" using imp by (simp add: implements_def moving32)
  have attr: "cfg_read32 f r AND NOT (ucast (bar_moving b)) = bar_kind b" using imp by (simp add: implements_def)
  have hi: "(if bar_kind b AND 1 = 0 \<and> bar_kind b AND 6 = 4 then pci_moving_config32 (r + 4) f else (0, f))
      = (if bar_wide b then ucast (drop_bit 32 (bar_moving b)) else 0, f)"
    using imp by (simp add: bar_kind_wide implements_def moving32)
  have nz: "bar_moving b \<noteq> 0" using bar_lowest(1) [OF v] by auto
  define lim :: u64 where "lim = (if bar_wide b then - 1 else 0xffffffff)"
  let ?res = "(rs1 ! i)\<lparr>res_size := 2 ^ bar_log b, res_align := of_nat (bar_log b), res_gran := of_nat (bar_log b), res_limit := lim\<rparr>"
  have sz: "size_resource (bar_moving b) (rs1 ! i) = Some ?res"
    using size_resource_run [OF bar_lowest [OF v]] bar_moving_ones [OF v] by (simp add: lim_def)
  have ty: "(if lim < res_limit (bar_type (bar_kind b) ?res) then (bar_type (bar_kind b) ?res)\<lparr>res_limit := lim\<rparr>
      else bar_type (bar_kind b) ?res) = bar_resource r b"
    using bar_type_resource [OF v, of ?res] by (simp only: Let_def flip: lim_def) (simp add: fresh zero_resource_def bar_resource_def)
  have lim: "res_limit ?res = lim" by simp
  show ?thesis
    unfolding pci_get_resource_def
    by (simp only: prod.case new Option.bind.simps Let_def lo attr hi bar_moving_split [OF v] nz sz if_True if_False simp_thms lim ty)
qed

lemma pci_get_resource_none:
  assumes "writable f 4 r (0 :: u32)" "cfg_read32 f r = 0"
    and new: "new_resource rs (of_nat r) pool = Some (i, rs1, pool1)"
    and fresh: "rs1 ! i = zero_resource\<lparr>res_index := of_nat r\<rparr>"
  shows "pci_get_resource r (rs, pool, f) = Some (i, rs1[i := zero_resource\<lparr>res_index := of_nat r\<rparr>], pool1, f)"
  using assms(1,2) by (simp add: pci_get_resource_def new fresh Let_def moving32) (simp add: zero_resource_def)

text \<open>
  The base address registers from \<open>r\<close> up to \<open>stop\<close>: a list of what each is, \<open>None\<close> for a
  register that is hard-wired to zero.  A 64-bit register takes two places.
\<close>

fun bar_span :: "bar option \<Rightarrow> nat" where
  "bar_span None = 4" | "bar_span (Some b) = (if bar_wide b then 8 else 4)"

fun has_bars :: "pci_function \<Rightarrow> nat \<Rightarrow> nat \<Rightarrow> bar option list \<Rightarrow> bool" where
  "has_bars f stop r [] \<longleftrightarrow> stop \<le> r"
| "has_bars f stop r (None # bs) \<longleftrightarrow> r < stop \<and> writable f 4 r (0 :: u32) \<and> cfg_read32 f r = 0 \<and> has_bars f stop (r + 4) bs"
| "has_bars f stop r (Some b # bs) \<longleftrightarrow> r < stop \<and> implements f r b \<and> has_bars f stop (r + bar_span (Some b)) bs"

fun bar_resources :: "nat \<Rightarrow> bar option list \<Rightarrow> resource list" where
  "bar_resources r [] = []"
| "bar_resources r (b # bs) = (case b of None \<Rightarrow> [] | Some b \<Rightarrow> [bar_resource r b]) @ bar_resources (r + bar_span b) bs"

text \<open>An expansion ROM register of \<open>2 ^ n\<close> bytes has an enable bit below its address bits.\<close>

definition rom_moving :: "nat option \<Rightarrow> u32" where
  "rom_moving rom = (case rom of None \<Rightarrow> 0 | Some n \<Rightarrow> push_bit n (- 1) OR 1)"

definition has_rom :: "pci_function \<Rightarrow> nat \<Rightarrow> nat option \<Rightarrow> bool" where
  "has_rom f r rom \<longleftrightarrow> writable f 4 r (rom_moving rom) \<and> (case rom of None \<Rightarrow> True | Some n \<Rightarrow> 11 \<le> n \<and> n < 32)"

definition rom_resources :: "nat \<Rightarrow> nat option \<Rightarrow> resource list" where
  "rom_resources r rom = (case rom of None \<Rightarrow> []
     | Some n \<Rightarrow> [\<lparr>res_base = 0, res_size = 2 ^ n, res_limit = 0xffffffff, res_flags = IORESOURCE_MEM OR IORESOURCE_READONLY,
         res_index = of_nat r, res_align = of_nat n, res_gran = of_nat n\<rparr>])"

abbreviation in_use :: "resource list \<Rightarrow> resource list" where "in_use \<equiv> filter (\<lambda>r. res_flags r \<noteq> 0)"

text \<open>Structures at hand: the free list, and the ones the device holds unused.\<close>

definition spare :: "resource list \<Rightarrow> res_pool \<Rightarrow> nat" where
  "spare rs pool = length (free_resources pool) + length (filter (\<lambda>r. res_flags r = 0) rs)"

lemma new_resource_fresh:
  assumes "\<forall>r \<in> set (in_use rs). res_index r \<noteq> idx" and "0 < spare rs pool"
  obtains pool' where "new_resource rs idx pool = Some (length (in_use rs), in_use rs @ [zero_resource\<lparr>res_index := idx\<rparr>], pool')"
    "length (free_resources pool') = spare rs pool - 1" "pool_heap pool' = pool_heap pool"
proof -
  have "probe_resource (in_use rs) idx = None" using assms(1) by (simp add: probe_resource_None_iff)
  moreover have "rev (filter (\<lambda>r. res_flags r = 0) rs) @ free_resources pool \<noteq> []"
    using assms(2) by (auto simp: spare_def)
  ultimately show thesis
    by (intro that [of "pool\<lparr>free_resources := tl (rev (filter (\<lambda>r. res_flags r = 0) rs) @ free_resources pool)\<rparr>"])
      (auto simp: new_resource_def compact_resources_eq spare_def init_resource_def zero_resource_def Let_def)
qed

lemma bar_flags_used [simp]: "bar_flags b \<noteq> 0" "bar_flags b AND IORESOURCE_PCI64 \<noteq> 0 \<longleftrightarrow> bar_wide b"
  by (cases b; simp)+

lemma bases_loop_bars:
  assumes "has_bars f stop r bs" and "stop < 0x1000" and "length bs \<le> spare rs pool" and "\<forall>x \<in> set (in_use rs). unat (res_index x) < r"
  shows "\<exists>rs' pool'. bases_loop stop r (rs, pool, f) = Some (rs', pool', f) \<and> in_use rs' = in_use rs @ bar_resources r bs
     \<and> spare rs' pool' + length (bar_resources r bs) = spare rs pool \<and> pool_heap pool' = pool_heap pool"
  using assms
proof (induction bs arbitrary: r rs pool)
  case Nil
  then show ?case by (subst bases_loop.simps) simp
next
  case (Cons s bs)
  have r: "r < stop" using Cons.prems(1) by (cases s) auto
  have ur: "unat (of_nat r :: u32) = r" using r Cons.prems(2) by (simp add: unsigned_of_nat take_bit_nat_eq_self)
  have fresh: "\<forall>x \<in> set (in_use rs). res_index x \<noteq> of_nat r" using Cons.prems(4) ur by fastforce
  obtain pool1 where new: "new_resource rs (of_nat r) pool = Some (length (in_use rs), in_use rs @ [zero_resource\<lparr>res_index := of_nat r\<rparr>], pool1)"
    and len: "length (free_resources pool1) = spare rs pool - 1" "pool_heap pool1 = pool_heap pool"
    using new_resource_fresh [OF fresh, of pool] Cons.prems(3) by auto
  have at: "(in_use rs @ [zero_resource\<lparr>res_index := of_nat r\<rparr>]) ! length (in_use rs) = zero_resource\<lparr>res_index := of_nat r\<rparr>" by simp
  define x where "x = (case s of None \<Rightarrow> zero_resource\<lparr>res_index := of_nat r\<rparr> | Some b \<Rightarrow> bar_resource r b)"
  have get: "pci_get_resource r (rs, pool, f) = Some (length (in_use rs), in_use rs @ [x], pool1, f)"
    using Cons.prems(1) pci_get_resource_none [OF _ _ new at] pci_get_resource_bar [OF _ new at] by (cases s) (auto simp: x_def)
  have span: "(if res_flags x AND IORESOURCE_PCI64 \<noteq> 0 then 8 else 4) = bar_span s"
    by (cases s) (simp_all add: x_def zero_resource_def bar_resource_def)
  have rest: "has_bars f stop (r + bar_span s) bs" using Cons.prems(1) by (cases s) auto
  have used: "in_use (in_use rs @ [x]) = in_use rs @ (case s of None \<Rightarrow> [] | Some b \<Rightarrow> [bar_resource r b])"
    by (cases s) (simp_all add: x_def zero_resource_def bar_resource_def)
  have sp: "spare (in_use rs @ [x]) pool1 + length (case s of None \<Rightarrow> [] | Some b \<Rightarrow> [bar_resource r b]) = spare rs pool"
    using len(1) Cons.prems(3) by (cases s) (simp_all add: spare_def x_def zero_resource_def bar_resource_def)
  have ix: "unat (res_index x) = r" using ur by (cases s) (simp_all add: x_def zero_resource_def bar_resource_def)
  have "0 < bar_span s" by (cases s) auto
  then have "\<forall>y \<in> set (in_use (in_use rs @ [x])). unat (res_index y) < r + bar_span s"
    using Cons.prems(4) ix by auto
  moreover have "length bs \<le> spare (in_use rs @ [x]) pool1" using sp Cons.prems(3) by (cases s) auto
  ultimately obtain rs' pool' where
    step: "bases_loop stop (r + bar_span s) (in_use rs @ [x], pool1, f) = Some (rs', pool', f)"
      "in_use rs' = in_use (in_use rs @ [x]) @ bar_resources (r + bar_span s) bs"
      "spare rs' pool' + length (bar_resources (r + bar_span s) bs) = spare (in_use rs @ [x]) pool1" "pool_heap pool' = pool_heap pool1"
    using Cons.IH [OF rest Cons.prems(2), of "in_use rs @ [x]" pool1] by blast
  have "bases_loop stop r (rs, pool, f) = bases_loop stop (r + bar_span s) (in_use rs @ [x], pool1, f)"
    by (subst bases_loop.simps) (simp only: r get if_True Option.bind.simps prod.case nth_append_length span)
  then show ?case using step sp used len(2) by simp
qed

lemma pci_read_bases_bars:
  assumes "has_bars f (0x10 + 4 * n) 0x10 bs" and "n \<le> 6" and "length bs \<le> spare rs pool" and "\<forall>x \<in> set (in_use rs). unat (res_index x) < 0x10"
  obtains pool' where "pci_read_bases n (rs, pool, f) = Some (in_use rs @ bar_resources 0x10 bs, pool', f)"
    "spare (in_use rs @ bar_resources 0x10 bs) pool' + length (bar_resources 0x10 bs) = spare rs pool" "pool_heap pool' = pool_heap pool"
proof -
  have "0x10 + 4 * n < 0x1000" using assms(2) by simp
  from bases_loop_bars [OF assms(1) this assms(3,4)] obtain rs' pool' where
    l: "bases_loop (0x10 + 4 * n) 0x10 (rs, pool, f) = Some (rs', pool', f)" "in_use rs' = in_use rs @ bar_resources 0x10 bs"
      "spare rs' pool' + length (bar_resources 0x10 bs) = spare rs pool" "pool_heap pool' = pool_heap pool" by blast
  let ?pool = "pool'\<lparr>free_resources := rev (filter (\<lambda>r. res_flags r = 0) rs') @ free_resources pool'\<rparr>"
  have "spare (in_use rs') ?pool = spare rs' pool'" by (simp add: spare_def)
  then have "spare (in_use rs @ bar_resources 0x10 bs) ?pool = spare rs' pool'" by (simp only: l(2))
  moreover have "pci_read_bases n (rs, pool, f) = Some (in_use rs', ?pool, f)"
    by (simp add: pci_read_bases_def l(1) compact_resources_eq)
  ultimately show thesis using l(2-4) by (intro that [of ?pool]) simp_all
qed

lemma rom_moving_bits: "has_rom f r (Some n) \<Longrightarrow> ucast (rom_moving (Some n) AND NOT 1) = (push_bit n (mask (32 - n)) :: u64)"
  by (rule bit_word_eqI) (auto simp: bit_simps rom_moving_def has_rom_def)

lemma pci_get_rom_resource_run:
  assumes rom: "has_rom f r rom" and "\<forall>x \<in> set (in_use rs). res_index x \<noteq> of_nat r" and "0 < spare rs pool"
  obtains pool' where "pci_get_rom_resource r (rs, pool, f) = Some (in_use rs @ rom_resources r rom, pool', f)" "pool_heap pool' = pool_heap pool"
proof -
  obtain pool1 where new: "new_resource rs (of_nat r) pool = Some (length (in_use rs), in_use rs @ [zero_resource\<lparr>res_index := of_nat r\<rparr>], pool1)"
    and heap: "pool_heap pool1 = pool_heap pool" using new_resource_fresh [OF assms(2,3)] by blast
  have mov: "pci_moving_config32 r f = (rom_moving rom, f)" using rom by (simp add: has_rom_def moving32)
  show thesis
  proof (cases rom)
    case None
    let ?zero = "zero_resource\<lparr>res_index := of_nat r\<rparr>"
    show thesis using None
      by (intro that [of "pool1\<lparr>free_resources := ?zero # free_resources pool1\<rparr>"]) (simp_all add: pci_get_rom_resource_def new mov rom_moving_def compact_resources_eq rom_resources_def zero_resource_def heap Let_def)
  next
    case (Some n)
    then have n: "n < 32" using rom by (simp add: has_rom_def)
    have mv: "ucast (rom_moving rom AND NOT 1) = (push_bit n (mask (32 - n)) :: u64)" using rom_moving_bits rom Some by blast
    have low: "bit (push_bit n (mask (32 - n)) :: u64) n" "\<forall>k < n. \<not> bit (push_bit n (mask (32 - n)) :: u64) k"
      using n by (simp_all add: bit_simps)
    then have nz: "(push_bit n (mask (32 - n)) :: u64) \<noteq> 0" by auto
    have "push_bit n (mask (32 - n)) OR mask n = (mask 32 :: u64)" using n by (intro bit_word_eqI) (auto simp: bit_simps)
    then have lim: "push_bit n (mask (32 - n)) OR mask n = (0xffffffff :: u64)" by (simp add: mask_eq_exp_minus_1)
    have "size_resource (ucast (rom_moving rom AND NOT 1)) (zero_resource\<lparr>res_index := of_nat r\<rparr>) =
        Some \<lparr>res_base = 0, res_size = 2 ^ n, res_limit = 0xffffffff, res_flags = 0,
         res_index = of_nat r, res_align = of_nat n, res_gran = of_nat n\<rparr>"
      by (simp only: mv size_resource_run [OF low] lim) (simp add: zero_resource_def)
    moreover have "ucast (rom_moving rom AND NOT 1) \<noteq> (0 :: u64)" by (simp only: mv nz not_False_eq_True)
    ultimately have "pci_get_rom_resource r (rs, pool, f) = Some (in_use rs @ rom_resources r rom, pool1, f)"
      unfolding pci_get_rom_resource_def
      by (simp only: prod.case new Option.bind.simps Let_def mov if_True not_False_eq_True nth_append_length list_update_length option.map resource.simps)
        (simp add: compact_resources_eq Some rom_resources_def)
    then show thesis using heap by (rule that)
  qed
qed

section \<open>What a stored resource decodes\<close>

definition bar_decodes :: "pci_function \<Rightarrow> nat \<Rightarrow> bar \<Rightarrow> u64" where
  "bar_decodes f r b =
     (ucast (cfg_read32 f r) OR (if bar_wide b then push_bit 32 (ucast (cfg_read32 f (r + 4))) else 0)) AND bar_moving b"

text \<open>What the allocator makes of a resource.\<close>

definition allocated :: "resource \<Rightarrow> resource \<Rightarrow> bool" where
  "allocated y x \<longleftrightarrow> x = y\<lparr>res_base := res_base x, res_flags := res_flags y OR IORESOURCE_ASSIGNED\<rparr>
     \<and> 2 ^ unat (res_align y) dvd unat (res_base x) \<and> unat (res_base x) + unat (res_size y) \<le> unat (res_limit y) + 1"

fun decodes_at :: "pci_function \<Rightarrow> nat \<Rightarrow> bar option list \<Rightarrow> resource list \<Rightarrow> bool" where
  "decodes_at f r [] rs \<longleftrightarrow> rs = []"
| "decodes_at f r (None # bs) rs \<longleftrightarrow> decodes_at f (r + 4) bs rs"
| "decodes_at f r (Some b # bs) rs \<longleftrightarrow> (\<exists>x rest. rs = x # rest \<and> implements f r b \<and> bar_decodes f r b = res_base x
     \<and> decodes_at f (r + bar_span (Some b)) bs rest)"

definition agree :: "(nat \<Rightarrow> bool) \<Rightarrow> pci_function \<Rightarrow> pci_function \<Rightarrow> bool" where
  "agree S f f' \<longleftrightarrow> cfg_wr f' = cfg_wr f \<and> (\<forall>q. S q \<longrightarrow> cfg_byte f' q = cfg_byte f q)"

lemma agree_refl [simp]: "agree S f f"
  by (simp add: agree_def)

lemma agree_trans: "agree S f f' \<Longrightarrow> agree S f' f'' \<Longrightarrow> agree S f f''"
  by (simp add: agree_def)

lemma agree_mono: "agree S f f' \<Longrightarrow> (\<And>q. S' q \<Longrightarrow> S q) \<Longrightarrow> agree S' f f'"
  by (simp add: agree_def)

lemma agree_put: "agree (\<lambda>q. q < r \<or> r + n \<le> q) f (cfg_put n r v f)"
  by (auto simp: agree_def cfg_put_byte_other)

lemma agree_read32: "agree S f f' \<Longrightarrow> (\<And>q. r \<le> q \<Longrightarrow> q < r + 4 \<Longrightarrow> S q) \<Longrightarrow> cfg_read32 f' r = cfg_read32 f r"
  by (simp add: agree_def cfg_read32_def)

lemma agree_writable: "agree S f f' \<Longrightarrow> writable f' = writable f"
  by (simp add: agree_def writable_def fun_eq_iff)

lemma agree_implements:
  assumes "agree S f f'" and "\<And>q. r \<le> q \<Longrightarrow> q < r + bar_span (Some b) \<Longrightarrow> S q"
  shows "implements f' r b = implements f r b" "bar_decodes f' r b = bar_decodes f r b"
proof -
  have "cfg_read32 f' r = cfg_read32 f r" using assms(2) by (intro agree_read32 [OF assms(1)]) (auto split: if_splits)
  moreover have "bar_wide b \<Longrightarrow> cfg_read32 f' (r + 4) = cfg_read32 f (r + 4)" using assms(2) by (intro agree_read32 [OF assms(1)]) auto
  ultimately show "implements f' r b = implements f r b" "bar_decodes f' r b = bar_decodes f r b"
    by (auto simp: implements_def bar_decodes_def agree_writable [OF assms(1)])
qed

lemma bar_kind_low:
  assumes "bar_valid b" and "bit (bar_kind b) k"
  shows "k < bar_log b"
proof -
  have "bar_kind b \<in> {1, 0, 2, 8, 10, 4, 12}" by (cases b) auto
  then have small: "unat (bar_kind b) < 2 ^ 4" by auto
  have "k = 0 \<or> 4 \<le> bar_log b \<and> k < 4"
    using assms bit_small [OF small, of k] by (cases b) (auto simp: bit_1_iff)
  moreover have "0 < bar_log b" using assms(1) by (cases b) auto
  ultimately show ?thesis by linarith
qed

text \<open>An aligned base below the end of the address space has address bits only.\<close>

lemma aligned_base_bits:
  assumes "bar_valid b" and "2 ^ bar_log b dvd unat base" and "\<not> bar_wide b \<Longrightarrow> unat base < 2 ^ 32"
  shows "base AND bar_moving b = base"
proof (rule bit_word_eqI)
  fix k assume "k < LENGTH(64)"
  have "bar_log b \<le> k \<and> k < (if bar_wide b then 64 else 32)" if "bit base k"
  proof -
    have "\<not> k < bar_log b"
    proof
      assume "k < bar_log b"
      then have "2 ^ Suc k dvd unat base" using assms(2) power_le_dvd [of 2 "bar_log b" "unat base" "Suc k"] by simp
      then obtain c where c: "unat base = 2 ^ Suc k * c" by (elim dvdE)
      have "even (unat base div 2 ^ k)" by (simp add: c)
      then show False using that by (simp add: bit_unat_iff)
    qed
    moreover have "\<not> bar_wide b \<Longrightarrow> k < 32" using that assms(3) bit_small [of base 32 k] by fastforce
    ultimately show ?thesis using \<open>k < LENGTH(64)\<close> by simp
  qed
  then show "bit (base AND bar_moving b) k = bit base k" by (auto simp: bit_simps bit_bar_moving [OF assms(1)])
qed

lemma store_bar_decodes:
  assumes imp: "implements f r b" and idx: "res_index x = of_nat r" "r < 0x1000"
    and io: "res_flags x AND IORESOURCE_IO \<noteq> 0 \<longleftrightarrow> bar_kind b AND 1 \<noteq> 0" and wide: "res_flags x AND IORESOURCE_PCI64 \<noteq> 0 \<longleftrightarrow> bar_wide b"
    and base: "2 ^ bar_log b dvd unat base" "\<not> bar_wide b \<Longrightarrow> unat base < 2 ^ 32"
  shows "implements (store_bar x base f) r b" "bar_decodes (store_bar x base f) r b = base"
    "agree (\<lambda>q. q < r \<or> r + bar_span (Some b) \<le> q) f (store_bar x base f)"
proof -
  let ?m = "bar_moving b"
  have v: "bar_valid b" using imp by (simp add: implements_def)
  have ur: "unat (res_index x) = r" using idx by (simp add: unsigned_of_nat take_bit_nat_eq_self)
  note ab = aligned_base_bits [OF v base]
  have bb: "bit base k \<Longrightarrow> bit ?m k" for k by (metis ab bit_and_iff)
  define lo :: u32 where "lo = bar_kind b OR ucast base"
  define hi :: u32 where "hi = ucast (drop_bit 32 base)"
  define blo :: u32 where "blo = (if res_flags x AND IORESOURCE_IO \<noteq> 0 then ucast base OR 1 else ucast base)"
  have m0: "\<not> bit ?m 0" using v by (cases b) (auto simp: bit_bar_moving)
  have lo: "(cfg_read32 f r AND NOT (ucast ?m)) OR (blo AND ucast ?m) = lo"
  proof -
    have k: "cfg_read32 f r AND NOT (ucast ?m) = bar_kind b" using imp by (simp add: implements_def)
    have "blo AND ucast ?m = ucast base"
      by (rule bit_word_eqI) (use m0 bb in \<open>auto simp: blo_def bit_simps\<close>)
    then show ?thesis by (simp add: k lo_def)
  qed
  have hi: "(cfg_read32 f (r + 4) AND NOT (ucast (drop_bit 32 ?m))) OR (hi AND ucast (drop_bit 32 ?m)) = hi" if "bar_wide b"
  proof -
    have "hi AND ucast (drop_bit 32 ?m) = hi" by (rule bit_word_eqI) (use bb in \<open>auto simp: hi_def bit_simps\<close>)
    then show ?thesis using imp that by (simp add: implements_def)
  qed
  let ?f1 = "cfg_put 4 r lo f"
  let ?f2 = "if bar_wide b then cfg_put 4 (r + 4) hi ?f1 else ?f1"
  have wlo: "writable f 4 r (ucast ?m :: u32)" using imp by (simp add: implements_def)
  have w1: "cfg_write32 r blo f = ?f1" by (simp only: write32_writable [OF wlo] lo)
  have r1: "cfg_read32 ?f1 (r + 4) = cfg_read32 f (r + 4)" by (rule agree_read32 [OF agree_put]) auto
  have w2: "cfg_write32 (r + 4) hi ?f1 = cfg_put 4 (r + 4) hi ?f1" if "bar_wide b"
  proof -
    have "writable ?f1 4 (r + 4) (ucast (drop_bit 32 ?m) :: u32)" using imp that by (simp add: implements_def)
    then show ?thesis by (simp only: write32_writable r1 hi [OF that])
  qed
  have f2: "store_bar x base f = ?f2"
    unfolding store_bar_def by (simp only: ur Let_def flip: blo_def hi_def) (simp add: w1 w2 wide)
  have rd: "cfg_read32 ?f2 r = lo" "bar_wide b \<Longrightarrow> cfg_read32 ?f2 (r + 4) = hi"
    using agree_read32 [OF agree_put [of "r + 4" 4 ?f1 hi], of r] by simp_all
  have kd: "\<not> bit (bar_kind b) k" if "bit ?m k" for k using that bar_kind_low [OF v, of k] bit_bar_moving [OF v, of k] by fastforce
  have "lo AND NOT (ucast ?m) = bar_kind b"
    by (rule bit_word_eqI) (use bb kd in \<open>auto simp: lo_def bit_simps\<close>)
  moreover have "hi AND NOT (ucast (drop_bit 32 ?m)) = 0"
    by (rule bit_word_eqI) (use bb in \<open>auto simp: hi_def bit_simps\<close>)
  then have "bar_wide b \<longrightarrow> cfg_read32 ?f2 (r + 4) AND NOT (ucast (drop_bit 32 ?m)) = 0" using rd(2) by metis
  moreover have wr: "writable ?f2 = writable f" by simp
  ultimately show "implements (store_bar x base f) r b" using imp unfolding f2 implements_def wr rd(1) by blast
  have bw: "\<not> bar_wide b \<Longrightarrow> bit base k \<Longrightarrow> k < 32" for k using bb bit_bar_moving [OF v, of k] by simp
  have "(ucast lo OR (if bar_wide b then push_bit 32 (ucast hi) else 0)) AND ?m = base"
    by (rule bit_word_eqI) (use bb kd bw in \<open>auto simp: lo_def hi_def bit_simps\<close>)
  then show "bar_decodes (store_bar x base f) r b = base" unfolding f2 bar_decodes_def rd(1) using rd(2) by (cases "bar_wide b") simp_all
  show "agree (\<lambda>q. q < r \<or> r + bar_span (Some b) \<le> q) f (store_bar x base f)"
    unfolding f2 by (auto intro: agree_trans [OF agree_mono [OF agree_put] agree_mono [OF agree_put]] agree_mono [OF agree_put])
qed

lemma allocated_bar:
  assumes "allocated (bar_resource r b) x" and "bar_valid b"
  shows "res_index x = of_nat r" "res_flags x = bar_flags b OR IORESOURCE_ASSIGNED" "res_size x \<noteq> 0"
    "2 ^ bar_log b dvd unat (res_base x)" "\<not> bar_wide b \<Longrightarrow> unat (res_base x) < 2 ^ 32"
proof -
  have x: "x = (bar_resource r b)\<lparr>res_base := res_base x, res_flags := bar_flags b OR IORESOURCE_ASSIGNED\<rparr>"
    and al: "2 ^ unat (of_nat (bar_log b) :: u8) dvd unat (res_base x)"
    and top: "unat (res_base x) + unat (2 ^ bar_log b :: u64) \<le> unat (bar_limit b) + 1"
    using assms(1) by (simp_all add: allocated_def bar_resource_def)
  have n: "bar_log b < 64" using assms(2) by (cases b) (auto split: if_splits)
  then have ub: "unat (of_nat (bar_log b) :: u8) = bar_log b" by (simp add: unsigned_of_nat take_bit_nat_eq_self)
  have us: "unat (2 ^ bar_log b :: u64) = 2 ^ bar_log b" using n by (simp add: unat_power_2)
  show "res_index x = of_nat r" "res_flags x = bar_flags b OR IORESOURCE_ASSIGNED" by (subst x, simp add: bar_resource_def)+
  have "res_size x = 2 ^ bar_log b" by (subst x) (simp add: bar_resource_def)
  then show "res_size x \<noteq> 0" using us by (metis power_eq_0_iff unat_0 zero_neq_numeral)
  show "2 ^ bar_log b dvd unat (res_base x)" using al ub by simp
  have "0 < (2::nat) ^ bar_log b" by simp
  then have "unat (res_base x) \<le> unat (bar_limit b)" using top us by linarith
  then show "unat (res_base x) < 2 ^ 32" if "\<not> bar_wide b" using that by (cases b) (auto split: if_splits)
qed

lemma pci_set_resource_bar:
  assumes imp: "implements f r b" and "r < 0x1000" and al: "allocated (bar_resource r b) x"
  obtains f' where "pci_set_resource x (cmd, f) = (x\<lparr>res_flags := res_flags x OR IORESOURCE_STORED\<rparr>, cmd OR command_bits x, f')"
    "implements f' r b" "bar_decodes f' r b = res_base x" "agree (\<lambda>q. q < r \<or> r + bar_span (Some b) \<le> q) f f'"
proof -
  have v: "bar_valid b" using imp by (simp add: implements_def)
  note a = allocated_bar [OF al v]
  let ?x = "x\<lparr>res_flags := res_flags x OR IORESOURCE_STORED\<rparr>"
  have set': "pci_set_resource x (cmd, f) = (?x, cmd OR command_bits x, store_bar ?x (res_base x) f)"
    by (cases b) (simp_all add: pci_set_resource_def a(2) Let_def)
  have fl: "res_flags ?x AND IORESOURCE_IO \<noteq> 0 \<longleftrightarrow> bar_kind b AND 1 \<noteq> 0" "res_flags ?x AND IORESOURCE_PCI64 \<noteq> 0 \<longleftrightarrow> bar_wide b"
    by (cases b; simp add: a(2))+
  have ix: "res_index ?x = of_nat r" using a(1) by simp
  show thesis by (rule that [OF set' store_bar_decodes [OF imp ix assms(2) fl a(4,5)]])
qed

lemma has_bars_agree: "agree (\<lambda>q. r \<le> q) f f' \<Longrightarrow> has_bars f' stop r bs = has_bars f stop r bs"
proof (induction bs arbitrary: r)
  case (Cons b bs)
  have sub: "agree (\<lambda>q. r + bar_span b \<le> q) f f'" using Cons.prems by (rule agree_mono) simp
  have rd: "cfg_read32 f' r = cfg_read32 f r" by (rule agree_read32 [OF Cons.prems])
  have im: "implements f' r c = implements f r c" for c by (rule agree_implements [OF Cons.prems])
  show ?case using Cons.IH [OF sub] by (cases b) (simp_all add: rd im agree_writable [OF Cons.prems])
qed simp

lemma set_bars:
  assumes "has_bars f stop r bs" and "stop < 0x1000" and "list_all2 allocated (bar_resources r bs) xs"
    and "set_resources xs (cmd, f) = (xs', cmd', f')"
  shows "decodes_at f' r bs xs \<and> agree (\<lambda>q. q < r \<or> stop + 8 \<le> q) f f' \<and> (\<forall>x \<in> set xs'. res_flags x AND IORESOURCE_STORED \<noteq> 0)
    \<and> cmd' = fold (\<lambda>x c. c OR command_bits x) xs cmd"
  using assms
proof (induction bs arbitrary: r xs f cmd xs')
  case Nil
  then show ?case by simp
next
  case (Cons s bs)
  show ?case
  proof (cases s)
    case None
    then have h: "has_bars f stop (r + 4) bs" "list_all2 allocated (bar_resources (r + 4) bs) xs" using Cons.prems by simp_all
    have "agree (\<lambda>q. q < r + 4 \<or> stop + 8 \<le> q) f f'" using Cons.IH [OF h(1) Cons.prems(2) h(2) Cons.prems(4)] by simp
    then have "agree (\<lambda>q. q < r \<or> stop + 8 \<le> q) f f'" by (rule agree_mono) auto
    then show ?thesis using Cons.IH [OF h(1) Cons.prems(2) h(2) Cons.prems(4)] by (simp add: None)
  next
    case (Some b)
    then have h: "implements f r b" "r < stop" "has_bars f stop (r + bar_span (Some b)) bs" using Cons.prems(1) by simp_all
    obtain x rest where xs: "xs = x # rest" "allocated (bar_resource r b) x" "list_all2 allocated (bar_resources (r + bar_span (Some b)) bs) rest"
      using Cons.prems(3) Some by (auto simp: list_all2_Cons1)
    have "r < 0x1000" using h(2) Cons.prems(2) by simp
    from pci_set_resource_bar [OF h(1) this xs(2), of cmd] obtain f1 where
      f1: "pci_set_resource x (cmd, f) = (x\<lparr>res_flags := res_flags x OR IORESOURCE_STORED\<rparr>, cmd OR command_bits x, f1)"
      "implements f1 r b" "bar_decodes f1 r b = res_base x" "agree (\<lambda>q. q < r \<or> r + bar_span (Some b) \<le> q) f f1" .
    obtain rest' where r1: "set_resources rest (cmd OR command_bits x, f1) = (rest', cmd', f')"
      and xs': "xs' = x\<lparr>res_flags := res_flags x OR IORESOURCE_STORED\<rparr> # rest'"
      using Cons.prems(4) f1(1) by (auto simp: xs(1) split: prod.splits)
    have hb: "has_bars f1 stop (r + bar_span (Some b)) bs" using h(3) has_bars_agree [OF agree_mono [OF f1(4)]] by simp
    note ih = Cons.IH [OF hb Cons.prems(2) xs(3) r1]
    then have ag1: "agree (\<lambda>q. q < r + bar_span (Some b) \<or> stop + 8 \<le> q) f1 f'" by blast
    have "implements f' r b" "bar_decodes f' r b = res_base x"
      using agree_implements [OF ag1, of r b] f1(2,3) by auto
    then have d: "decodes_at f' r (s # bs) xs" using ih by (simp add: Some xs(1))
    have "bar_span (Some b) \<le> 8" by simp
    then have ag: "agree (\<lambda>q. q < r \<or> stop + 8 \<le> q) f f'"
      using h(2) by (intro agree_trans [OF agree_mono [OF f1(4)] agree_mono [OF ag1]]) auto
    have st: "(res_flags x OR IORESOURCE_STORED) AND IORESOURCE_STORED \<noteq> 0" by (simp add: bit.conj_disj_distrib2)
    show ?thesis using d ag ih st by (simp add: xs' xs(1))
  qed
qed

definition rom_decodes :: "pci_function \<Rightarrow> nat \<Rightarrow> nat option \<Rightarrow> resource list \<Rightarrow> bool" where
  "rom_decodes f r rom xs \<longleftrightarrow> (case rom of None \<Rightarrow> xs = []
     | Some n \<Rightarrow> \<exists>x. xs = [x] \<and> ucast (cfg_read32 f r AND rom_moving rom) = res_base x)"

lemma set_resources_append:
  "set_resources (xs @ ys) s = (let (xs, s) = set_resources xs s; (ys, s) = set_resources ys s in (xs @ ys, s))"
  by (induction xs arbitrary: s) (auto simp: Let_def split: prod.splits)

lemma set_rom:
  assumes rom: "has_rom f r rom" and "r < 0x1000" and al: "list_all2 allocated (rom_resources r rom) xs"
    and run: "set_resources xs (cmd, f) = (xs', cmd', f')"
  shows "rom_decodes f' r rom xs \<and> agree (\<lambda>q. q < r \<or> r + 4 \<le> q) f f' \<and> (\<forall>x \<in> set xs'. res_flags x AND IORESOURCE_STORED \<noteq> 0)
    \<and> cmd' = fold (\<lambda>x c. c OR command_bits x) xs cmd"
proof (cases rom)
  case None
  then show ?thesis using al run by (simp add: rom_resources_def rom_decodes_def)
next
  case (Some n)
  have n: "n < 32" "11 \<le> n" using rom Some by (simp_all add: has_rom_def)
  obtain x where xs: "xs = [x]" using al Some by (auto simp: rom_resources_def list_all2_Cons1)
  have a: "x = \<lparr>res_base = res_base x, res_size = 2 ^ n, res_limit = 0xffffffff,
      res_flags = IORESOURCE_MEM OR IORESOURCE_READONLY OR IORESOURCE_ASSIGNED, res_index = of_nat r, res_align = of_nat n, res_gran = of_nat n\<rparr>"
    and dv: "2 ^ unat (of_nat n :: u8) dvd unat (res_base x)" and top: "unat (res_base x) + unat (2 ^ n :: u64) \<le> 2 ^ 32"
    using al Some by (simp_all add: xs rom_resources_def allocated_def)
  have un: "unat (of_nat n :: u8) = n" using n by (simp add: unsigned_of_nat take_bit_nat_eq_self)
  have us: "unat (2 ^ n :: u64) = 2 ^ n" using n by (simp add: unat_power_2)
  have "0 < (2::nat) ^ n" by simp
  then have lt: "unat (res_base x) < 2 ^ 32" using top us by linarith
  let ?b = "Bar_Mem n False False"
  have v: "bar_valid ?b" using n by simp
  have ab: "res_base x AND bar_moving ?b = res_base x" by (rule aligned_base_bits [OF v]) (use dv un lt in simp_all)
  have bb: "n \<le> k \<and> k < 32" if "bit (res_base x) k" for k
  proof -
    have "bit (res_base x AND bar_moving ?b) k" using that by (simp only: ab)
    then show ?thesis using bit_bar_moving [OF v, of k] by (simp add: bit_and_iff)
  qed
  have low: "k < n \<Longrightarrow> \<not> bit (res_base x) k" and high: "bit (res_base x) k \<Longrightarrow> k < 32" for k using bb [of k] by linarith+
  have ur: "unat (of_nat r :: u32) = r" using assms(2) by (simp add: unsigned_of_nat take_bit_nat_eq_self)
  have fl: "res_flags x = IORESOURCE_MEM OR IORESOURCE_READONLY OR IORESOURCE_ASSIGNED" "res_index x = of_nat r" by (subst a, simp)+
  let ?x = "x\<lparr>res_flags := res_flags x OR IORESOURCE_STORED\<rparr>"
  have st: "pci_set_resource x (cmd, f) = (?x, cmd OR command_bits x, cfg_write32 r (ucast (res_base x)) f)"
    by (simp add: pci_set_resource_def fl store_bar_def ur Let_def)
  have w: "writable f 4 r (rom_moving rom)" using rom by (simp add: has_rom_def)
  have f': "f' = cfg_put 4 r ((cfg_read32 f r AND NOT (rom_moving rom)) OR (ucast (res_base x) AND rom_moving rom)) f"
    using run st by (simp add: xs write32_writable [OF w])
  have "ucast (((cfg_read32 f r AND NOT (rom_moving rom)) OR (ucast (res_base x) AND rom_moving rom)) AND rom_moving rom) = res_base x"
    by (rule bit_word_eqI) (use n low high in \<open>auto simp: Some rom_moving_def bit_simps not_less\<close>)
  then have "rom_decodes f' r rom xs" by (simp add: rom_decodes_def Some xs f')
  moreover have "agree (\<lambda>q. q < r \<or> r + 4 \<le> q) f f'" unfolding f' by (rule agree_put)
  moreover have "xs' = [?x]" "cmd' = cmd OR command_bits x" using run st by (simp_all add: xs)
  ultimately show ?thesis by (simp add: xs bit.conj_disj_distrib2)
qed

lemma decodes_at_keep:
  assumes "decodes_at f r bs zs" and "has_bars f0 stop r bs" and "agree (\<lambda>q. q < stop + 8) f f'"
  shows "decodes_at f' r bs zs"
  using assms(1,2)
proof (induction bs arbitrary: r zs)
  case (Cons b bs)
  have r: "r < stop" "has_bars f0 stop (r + bar_span b) bs" using Cons.prems(2) by (cases b; simp)+
  have "implements f' r c = implements f r c" "bar_decodes f' r c = bar_decodes f r c" for c
    by (rule agree_implements [OF assms(3)], use r(1) in \<open>auto split: if_splits\<close>)+
  then show ?case using Cons.prems(1) Cons.IH [OF _ r(2)] by (cases b) (auto simp del: bar_span.simps(2))
qed simp

lemma bar_resources_index:
  assumes "has_bars f stop r bs" and "stop < 0x1000" and "x \<in> set (bar_resources r bs)"
  shows "unat (res_index x) < stop"
  using assms
proof (induction bs arbitrary: r)
  case (Cons s bs)
  have "r < stop" using Cons.prems(1) by (cases s) auto
  moreover have "unat (of_nat r :: u32) = r" using \<open>r < stop\<close> Cons.prems(2) by (simp add: unsigned_of_nat take_bit_nat_eq_self)
  moreover have "has_bars f stop (r + bar_span s) bs" using Cons.prems(1) by (cases s) auto
  ultimately show ?case using Cons.IH [of "r + bar_span s"] Cons.prems(2,3) by (cases s) (auto simp: bar_resource_def)
qed simp

lemma bar_resources_used: "in_use (bar_resources r bs) = bar_resources r bs"
  by (induction bs arbitrary: r) (auto simp: bar_resource_def split: option.splits)

text \<open>
  C7.  \<^verbatim>\<open>pci_dev_read_resources\<close> reads the needs of a function off its registers: starting from
  an empty list, it ends with one resource per implemented base address register and one for
  an expansion ROM, with the size, alignment, limit and kind that the register decodes, in
  register order, 64-bit registers counting once; and it leaves every register as it was.
\<close>
theorem pci_dev_resources_found:
  assumes "has_bars f 0x28 0x10 bs" and "has_rom f 0x30 rom" and "length bs < length (free_resources pool)"
  shows "\<exists>pool'. pci_dev_read_resources ([], pool, f) = Some (bar_resources 0x10 bs @ rom_resources 0x30 rom, pool', f)"
proof -
  have l: "length (bar_resources r bs) \<le> length bs" for r by (induction bs arbitrary: r) (auto split: option.splits simp: le_SucI)
  obtain pool1 where r1: "pci_read_bases 6 ([], pool, f) = Some (bar_resources 0x10 bs, pool1, f)"
    "spare (bar_resources 0x10 bs) pool1 + length (bar_resources 0x10 bs) = length (free_resources pool)"
    using pci_read_bases_bars [of f 6 bs "[]" pool] assms by (auto simp: spare_def)
  have "unat (0x30 :: u32) = 0x30" by simp
  then have "\<forall>x \<in> set (in_use (bar_resources 0x10 bs)). res_index x \<noteq> of_nat 0x30"
    using bar_resources_index [OF assms(1)] by (fastforce simp: bar_resources_used)
  moreover have "0 < spare (bar_resources 0x10 bs) pool1" using r1(2) l [of "0x10"] assms(3) by linarith
  ultimately obtain pool2 where "pci_get_rom_resource 0x30 (bar_resources 0x10 bs, pool1, f) = Some (in_use (bar_resources 0x10 bs) @ rom_resources 0x30 rom, pool2, f)"
    using pci_get_rom_resource_run [OF assms(2), of "bar_resources 0x10 bs" pool1] by blast
  then show ?thesis by (simp add: pci_dev_read_resources_def r1(1) bar_resources_used)
qed

text \<open>
  C8.  What \<^verbatim>\<open>pci_set_resource\<close> stores is what the function then decodes: after the resources
  were given aligned bases within their limits, every base address register answers at the
  base of its resource, 64-bit ones at the full base, and the ROM register holds its base with
  the ROM disabled; every resource is marked as stored, the command bits of all are collected,
  and the types of the registers still read the same.
\<close>
theorem pci_set_resources_decode:
  assumes "has_bars f 0x28 0x10 bs" and "has_rom f 0x30 rom"
    and "list_all2 allocated (bar_resources 0x10 bs) xs" and "list_all2 allocated (rom_resources 0x30 rom) ys"
  shows "\<exists>rs' f'. set_resources (xs @ ys) (cmd, f) = (rs', fold (\<lambda>x c. c OR command_bits x) (xs @ ys) cmd, f')
    \<and> decodes_at f' 0x10 bs xs \<and> rom_decodes f' 0x30 rom ys \<and> (\<forall>x \<in> set rs'. res_flags x AND IORESOURCE_STORED \<noteq> 0)
    \<and> (\<forall>q. q < 0x10 \<or> 0x34 \<le> q \<longrightarrow> cfg_byte f' q = cfg_byte f q)"
proof -
  obtain xs' c1 f1 where r1: "set_resources xs (cmd, f) = (xs', c1, f1)" by (metis prod_cases3)
  obtain ys' c2 f2 where r2: "set_resources ys (c1, f1) = (ys', c2, f2)" by (metis prod_cases3)
  note s1 = set_bars [OF assms(1) _ assms(3) r1]
  have a1: "agree (\<lambda>q. q < 0x10 \<or> 0x30 \<le> q) f f1" using s1 by simp
  have "has_rom f1 0x30 rom" using assms(2) by (simp add: has_rom_def agree_writable [OF a1])
  note s2 = set_rom [OF this _ assms(4) r2]
  have a2: "agree (\<lambda>q. q < 0x30 \<or> 0x34 \<le> q) f1 f2" using s2 by simp
  have d: "decodes_at f2 0x10 bs xs"
    by (rule decodes_at_keep [OF _ assms(1), of f1]) (use s1 in \<open>auto intro: agree_mono [OF a2]\<close>)
  have "set_resources (xs @ ys) (cmd, f) = (xs' @ ys', c2, f2)" by (simp add: set_resources_append r1 r2)
  moreover have "c2 = fold (\<lambda>x c. c OR command_bits x) (xs @ ys) cmd" using s1 s2 by simp
  moreover have "\<forall>q. q < 0x10 \<or> 0x34 \<le> q \<longrightarrow> cfg_byte f2 q = cfg_byte f q" using a1 a2 s1 by (auto simp: agree_def)
  ultimately show ?thesis using d s1 s2 by (intro exI [of _ "xs' @ ys'"] exI [of _ f2]) auto
qed

section \<open>An example function\<close>

text \<open>
  Registers that are plain bits under a mask: I/O ports, 64-bit prefetchable memory, an empty
  place, 4 KB of memory, another empty place, and a 64 KB ROM.
\<close>

definition masked_function :: "(nat \<Rightarrow> u8) \<Rightarrow> (nat \<Rightarrow> u8) \<Rightarrow> pci_function" where
  "masked_function vals masks = \<lparr>cfg_byte = vals, cfg_wr = \<lambda>r old v. (old AND NOT (masks r)) OR (v AND masks r)\<rparr>"

lemma writable_masked: "(\<forall>i < n. masks (r + i) = byte_of i m) \<Longrightarrow> writable (masked_function vals masks) n r m"
  by (simp add: writable_def masked_function_def)

definition bytes_at :: "nat \<Rightarrow> u8 list \<Rightarrow> nat \<Rightarrow> u8" where
  "bytes_at r bs q = (if r \<le> q \<and> q < r + length bs then bs ! (q - r) else 0)"

definition example_bars :: pci_function where
  "example_bars = masked_function
     (bytes_at 0x10 [1, 0, 0, 0, 0xc])
     (bytes_at 0x10 [0xe0, 0xff, 0xff, 0xff, 0, 0, 0xf0, 0xff, 0xff, 0xff, 0xff, 0xff, 0, 0, 0, 0,
        0, 0xf0, 0xff, 0xff, 0, 0, 0, 0, 0, 0, 0, 0, 0, 0, 0, 0, 1, 0, 0xff, 0xff])"

lemma all_less_four: "(\<forall>i < (4::nat). P i) \<longleftrightarrow> P 0 \<and> P 1 \<and> P 2 \<and> P 3"
  by (auto simp: less_four)

lemmas example_bar_eval = example_bars_def bytes_at_def bar_moving_def byte_of_def all_less_four mask_eq_exp_minus_1

lemma example_has_bars:
  "has_bars example_bars 0x28 0x10 [Some (Bar_IO 5), Some (Bar_Mem64 20 True), None, Some (Bar_Mem 12 False False), None]"
proof -
  have r: "cfg_read32 example_bars 0x10 = 1" "cfg_read32 example_bars 0x14 = 0xc" "cfg_read32 example_bars 0x18 = 0"
    "cfg_read32 example_bars 0x1c = 0" "cfg_read32 example_bars 0x20 = 0" "cfg_read32 example_bars 0x24 = 0"
    by (simp_all add: cfg_read32_def example_bars_def masked_function_def bytes_at_def)
  have w: "writable example_bars 4 0x10 (ucast (bar_moving (Bar_IO 5)) :: u32)"
    "writable example_bars 4 0x14 (ucast (bar_moving (Bar_Mem64 20 True)) :: u32)"
    "writable example_bars 4 0x18 (ucast (drop_bit 32 (bar_moving (Bar_Mem64 20 True))) :: u32)"
    "writable example_bars 4 0x1c (0 :: u32)"
    "writable example_bars 4 0x20 (ucast (bar_moving (Bar_Mem 12 False False)) :: u32)"
    "writable example_bars 4 0x24 (0 :: u32)"
    unfolding example_bars_def by (rule writable_masked; simp add: example_bar_eval)+
  show ?thesis using w by (simp add: implements_def r bar_moving_def mask_eq_exp_minus_1)
qed

lemma example_has_rom: "has_rom example_bars 0x30 (Some 16)"
proof -
  have "writable example_bars 4 0x30 (rom_moving (Some 16))"
    unfolding example_bars_def by (rule writable_masked) (simp add: example_bar_eval rom_moving_def)
  then show ?thesis by (simp add: has_rom_def)
qed

theorem pci_dev_resources_found_witness:
  "\<exists>pool'. pci_dev_read_resources ([], \<lparr>free_resources = replicate 6 zero_resource, pool_heap = \<lparr>free_mem_ptr = 0, free_mem_end_ptr = 0\<rparr>\<rparr>, example_bars) =
     Some ([\<lparr>res_base = 0, res_size = 0x20, res_limit = 0xffff, res_flags = IORESOURCE_IO, res_index = 0x10, res_align = 5, res_gran = 5\<rparr>,
       \<lparr>res_base = 0, res_size = 0x100000, res_limit = - 1,
         res_flags = IORESOURCE_MEM OR IORESOURCE_PREFETCH OR IORESOURCE_PCI64, res_index = 0x14, res_align = 20, res_gran = 20\<rparr>,
       \<lparr>res_base = 0, res_size = 0x1000, res_limit = 0xffffffff, res_flags = IORESOURCE_MEM, res_index = 0x20, res_align = 12, res_gran = 12\<rparr>,
       \<lparr>res_base = 0, res_size = 0x10000, res_limit = 0xffffffff, res_flags = IORESOURCE_MEM OR IORESOURCE_READONLY, res_index = 0x30,
         res_align = 16, res_gran = 16\<rparr>], pool', example_bars)"
  using pci_dev_resources_found [OF example_has_bars example_has_rom,
      of "\<lparr>free_resources = replicate 6 zero_resource, pool_heap = \<lparr>free_mem_ptr = 0, free_mem_end_ptr = 0\<rparr>\<rparr>"]
  by (simp add: bar_resource_def rom_resources_def)

definition example_placed :: "resource list" where
  "example_placed = map2 (\<lambda>x base. x\<lparr>res_base := base, res_flags := res_flags x OR IORESOURCE_ASSIGNED\<rparr>)
     (bar_resources 0x10 [Some (Bar_IO 5), Some (Bar_Mem64 20 True), None, Some (Bar_Mem 12 False False), None])
     [0x1fe0, 0x1234500000, 0xfebff000]"

theorem pci_set_resources_decode_witness:
  "\<exists>rs' f'. set_resources (example_placed @ [(hd (rom_resources 0x30 (Some 16)))\<lparr>res_base := 0xfea00000,
        res_flags := IORESOURCE_MEM OR IORESOURCE_READONLY OR IORESOURCE_ASSIGNED\<rparr>]) (0, example_bars) = (rs', 3, f')
     \<and> bar_decodes f' 0x14 (Bar_Mem64 20 True) = 0x1234500000 \<and> cfg_read32 f' 0x30 AND 0xffff0001 = 0xfea00000"
proof -
  let ?rom = "(hd (rom_resources 0x30 (Some 16)))\<lparr>res_base := 0xfea00000, res_flags := IORESOURCE_MEM OR IORESOURCE_READONLY OR IORESOURCE_ASSIGNED\<rparr>"
  have a: "list_all2 allocated (bar_resources 0x10 [Some (Bar_IO 5), Some (Bar_Mem64 20 True), None, Some (Bar_Mem 12 False False), None]) example_placed"
    by (simp add: example_placed_def allocated_def bar_resource_def unsigned_minus_1_eq_mask mask_eq_exp_minus_1)
  have r: "list_all2 allocated (rom_resources 0x30 (Some 16)) [?rom]"
    by (simp add: rom_resources_def allocated_def)
  obtain rs' f' where w: "set_resources (example_placed @ [?rom]) (0, example_bars) =
       (rs', fold (\<lambda>x c. c OR command_bits x) (example_placed @ [?rom]) 0, f')"
    "decodes_at f' 0x10 [Some (Bar_IO 5), Some (Bar_Mem64 20 True), None, Some (Bar_Mem 12 False False), None] example_placed"
    "rom_decodes f' 0x30 (Some 16) [?rom]"
    using pci_set_resources_decode [OF example_has_bars example_has_rom a r, of 0] by blast
  have c: "fold (\<lambda>x c. c OR command_bits x) (example_placed @ [?rom]) 0 = 3"
    by (simp add: example_placed_def bar_resource_def command_bits_def rom_resources_def)
  have "bar_decodes f' 0x14 (Bar_Mem64 20 True) = 0x1234500000"
    using w(2) by (simp add: example_placed_def bar_resource_def)
  moreover have rm: "rom_moving (Some 16) = 0xffff0001" by (simp add: rom_moving_def mask_eq_exp_minus_1)
  have "ucast (cfg_read32 f' 0x30 AND 0xffff0001) = (0xfea00000 :: u64)"
    using w(3) by (simp add: rom_decodes_def rom_resources_def rm)
  then have "cfg_read32 f' 0x30 AND 0xffff0001 = 0xfea00000"
    using unat_less_exp [of "cfg_read32 f' 0x30 AND 0xffff0001"] by (simp add: unat_ucast_mod word_unat_eq_iff)
  ultimately show ?thesis using w(1) c by metis
qed

section \<open>Bridge windows as the bridge specification has them\<close>

text \<open>
  The I/O window has a granule of 4 KB and 16-bit addresses, or 32-bit ones when the upper
  halves are implemented (\<open>Win_IO True\<close>); the memory windows have a granule of 1 MB and 32-bit
  addresses, the prefetchable one optionally 64-bit ones (\<open>Win_Pref True\<close>).
\<close>

datatype window = Win_IO bool | Win_Mem | Win_Pref bool

fun win_index :: "window \<Rightarrow> nat" where
  "win_index (Win_IO w) = 0x1c" | "win_index Win_Mem = 0x20" | "win_index (Win_Pref w) = 0x24"

fun win_gran :: "window \<Rightarrow> nat" where
  "win_gran (Win_IO w) = 12" | "win_gran Win_Mem = 20" | "win_gran (Win_Pref w) = 20"

fun win_bits :: "window \<Rightarrow> nat" where
  "win_bits (Win_IO w) = (if w then 32 else 16)" | "win_bits Win_Mem = 32" | "win_bits (Win_Pref w) = (if w then 64 else 32)"

fun win_type :: "window \<Rightarrow> u32" where
  "win_type (Win_IO w) = IORESOURCE_IO" | "win_type Win_Mem = IORESOURCE_MEM" | "win_type (Win_Pref w) = IORESOURCE_MEM OR IORESOURCE_PREFETCH"

text \<open>Four low bits of every register give its kind and cannot be written.\<close>

fun has_window :: "pci_function \<Rightarrow> window \<Rightarrow> bool" where
  "has_window f (Win_IO w) \<longleftrightarrow>
     writable f 1 0x1c (NOT (mask 4) :: u8) \<and> writable f 1 0x1d (NOT (mask 4) :: u8)
     \<and> (if w then writable f 2 0x30 (- 1 :: u16) \<and> writable f 2 0x32 (- 1 :: u16)
        else writable f 2 0x30 (0 :: u16) \<and> writable f 2 0x32 (0 :: u16) \<and> cfg_read16 f 0x30 = 0 \<and> cfg_read16 f 0x32 = 0)"
| "has_window f Win_Mem \<longleftrightarrow> writable f 2 0x20 (NOT (mask 4) :: u16) \<and> writable f 2 0x22 (NOT (mask 4) :: u16)"
| "has_window f (Win_Pref w) \<longleftrightarrow>
     writable f 2 0x24 (NOT (mask 4) :: u16) \<and> writable f 2 0x26 (NOT (mask 4) :: u16)
     \<and> (if w then writable f 4 0x28 (- 1 :: u32) \<and> writable f 4 0x2c (- 1 :: u32)
        else writable f 4 0x28 (0 :: u32) \<and> writable f 4 0x2c (0 :: u32) \<and> cfg_read32 f 0x28 = 0 \<and> cfg_read32 f 0x2c = 0)"

text \<open>The first and the last address that the bridge forwards; nothing when the first is above the last.\<close>

fun win_range :: "pci_function \<Rightarrow> window \<Rightarrow> u64 \<times> u64" where
  "win_range f (Win_IO w) =
     (push_bit 12 (ucast (drop_bit 4 (cfg_read8 f 0x1c))) OR push_bit 16 (ucast (cfg_read16 f 0x30)),
      (push_bit 12 (ucast (drop_bit 4 (cfg_read8 f 0x1d))) OR push_bit 16 (ucast (cfg_read16 f 0x32))) OR mask 12)"
| "win_range f Win_Mem =
     (push_bit 20 (ucast (drop_bit 4 (cfg_read16 f 0x20))), push_bit 20 (ucast (drop_bit 4 (cfg_read16 f 0x22))) OR mask 20)"
| "win_range f (Win_Pref w) =
     (push_bit 20 (ucast (drop_bit 4 (cfg_read16 f 0x24))) OR push_bit 32 (ucast (cfg_read32 f 0x28)),
      (push_bit 20 (ucast (drop_bit 4 (cfg_read16 f 0x26))) OR push_bit 32 (ucast (cfg_read32 f 0x2c))) OR mask 20)"

lemma agree_read8: "agree S f f' \<Longrightarrow> S r \<Longrightarrow> cfg_read8 f' r = cfg_read8 f r"
  by (simp add: agree_def cfg_read8_def)

lemma agree_read16: "agree S f f' \<Longrightarrow> S r \<Longrightarrow> S (r + 1) \<Longrightarrow> cfg_read16 f' r = cfg_read16 f r"
  by (simp add: agree_def cfg_read16_def)

lemma read_put_other:
  "q < r \<or> r + n \<le> q \<Longrightarrow> cfg_read8 (cfg_put n r v f) q = cfg_read8 f q"
  "q + 2 \<le> r \<or> r + n \<le> q \<Longrightarrow> cfg_read16 (cfg_put n r v f) q = cfg_read16 f q"
  "q + 4 \<le> r \<or> r + n \<le> q \<Longrightarrow> cfg_read32 (cfg_put n r v f) q = cfg_read32 f q"
  by (auto simp: cfg_read8_def cfg_read16_def cfg_read32_def cfg_put_byte_other)

lemma window_field: "drop_bit 4 ((old AND mask 4) OR (v AND NOT (mask 4))) = drop_bit 4 (v :: 'a::len word)"
  by (rule bit_word_eqI) (auto simp: bit_simps dest: bit_imp_le_length)

text \<open>The pieces of an address, put together again.\<close>

lemma join_io: "unat b < 2 ^ 16 \<Longrightarrow> push_bit 12 (ucast (drop_bit 4 (ucast (drop_bit 8 b) :: u8))) = (b :: u64) AND NOT (mask 12)"
proof (rule bit_word_eqI)
  fix k assume "unat b < 2 ^ 16" "k < LENGTH(64)"
  then show "bit (push_bit 12 (ucast (drop_bit 4 (ucast (drop_bit 8 b) :: u8))) :: u64) k = bit (b AND NOT (mask 12)) k"
    using bit_small [of b 16 k] by (cases "k < 16") (auto simp: bit_simps)
qed

lemma join_io_wide:
  "unat b < 2 ^ 32 \<Longrightarrow> push_bit 12 (ucast (drop_bit 4 (ucast (drop_bit 8 b) :: u8))) OR push_bit 16 (ucast (ucast (drop_bit 16 b) :: u16)) = (b :: u64) AND NOT (mask 12)"
proof (rule bit_word_eqI)
  fix k assume "unat b < 2 ^ 32" "k < LENGTH(64)"
  then show "bit (push_bit 12 (ucast (drop_bit 4 (ucast (drop_bit 8 b) :: u8))) OR push_bit 16 (ucast (ucast (drop_bit 16 b) :: u16)) :: u64) k
      = bit (b AND NOT (mask 12)) k"
    using bit_small [of b 32 k] by (cases "k < 16"; cases "k < 32") (auto simp: bit_simps)
qed

lemma join_mem: "unat b < 2 ^ 32 \<Longrightarrow> push_bit 20 (ucast (drop_bit 4 (ucast (drop_bit 16 b) :: u16))) = (b :: u64) AND NOT (mask 20)"
proof (rule bit_word_eqI)
  fix k assume "unat b < 2 ^ 32" "k < LENGTH(64)"
  then show "bit (push_bit 20 (ucast (drop_bit 4 (ucast (drop_bit 16 b) :: u16))) :: u64) k = bit (b AND NOT (mask 20)) k"
    using bit_small [of b 32 k] by (cases "k < 32") (auto simp: bit_simps)
qed

lemma join_mem_wide:
  "push_bit 20 (ucast (drop_bit 4 (ucast (drop_bit 16 b) :: u16))) OR push_bit 32 (ucast (ucast (drop_bit 32 b) :: u32)) = (b :: u64) AND NOT (mask 20)"
proof (rule bit_word_eqI)
  fix k assume "k < LENGTH(64)"
  then show "bit (push_bit 20 (ucast (drop_bit 4 (ucast (drop_bit 16 b) :: u16))) OR push_bit 32 (ucast (ucast (drop_bit 32 b) :: u32)) :: u64) k
      = bit (b AND NOT (mask 20)) k"
    by (cases "k < 32") (auto simp: bit_simps)
qed

lemma or_mask_absorb: "(e AND NOT (mask n)) OR mask n = e OR (mask n :: 'a::len word)"
  by (rule bit_word_eqI) (auto simp: bit_simps)

lemma store_window_range:
  assumes w: "has_window f w" and "unat b < 2 ^ win_bits w" and "unat e < 2 ^ win_bits w"
  obtains f' where "store_window (win_index w) b e f = Some f'" "win_range f' w = (b AND NOT (mask (win_gran w)), e OR mask (win_gran w))"
    "agree (\<lambda>q. q < 0x1c \<or> 0x34 \<le> q) f f'"
proof -
  note ag = agree_trans [OF agree_mono [OF agree_put] agree_mono [OF agree_put]]
  note ag4 = agree_trans [OF ag ag]
  show thesis
  proof (cases w)
    case (Win_IO x)
    let ?ub = "if x then ucast (drop_bit 16 b) else 0 :: u16" and ?ue = "if x then ucast (drop_bit 16 e) else 0 :: u16"
    let ?f' = "cfg_put 2 0x32 ?ue (cfg_put (Suc 0) 0x1d ((cfg_read8 f 0x1d AND mask 4) OR (ucast (drop_bit 8 e) AND NOT (mask 4)))
       (cfg_put 2 0x30 ?ub (cfg_put (Suc 0) 0x1c ((cfg_read8 f 0x1c AND mask 4) OR (ucast (drop_bit 8 b) AND NOT (mask 4))) f)))"
    have "store_window (win_index w) b e f = Some ?f'"
      using w Win_IO by (auto simp: store_window_def write8_writable write16_writable read_put_other Let_def split: if_splits)
    moreover have "win_range ?f' w = (b AND NOT (mask (win_gran w)), e OR mask (win_gran w))"
      using assms(2,3) join_io [of b] join_io [of e] join_io_wide [of b] join_io_wide [of e]
      by (cases x) (simp_all add: Win_IO read_put_other window_field or_mask_absorb del: drop_bit_and drop_bit_or)
    moreover have "agree (\<lambda>q. q < 0x1c \<or> 0x34 \<le> q) f ?f'" by (rule ag4) auto
    ultimately show thesis by (rule that)
  next
    case Win_Mem
    let ?f' = "cfg_put 2 0x22 ((cfg_read16 f 0x22 AND mask 4) OR (ucast (drop_bit 16 e) AND NOT (mask 4)))
       (cfg_put 2 0x20 ((cfg_read16 f 0x20 AND mask 4) OR (ucast (drop_bit 16 b) AND NOT (mask 4))) f)"
    have "store_window (win_index w) b e f = Some ?f'"
      using w Win_Mem by (auto simp: store_window_def write16_writable read_put_other Let_def)
    moreover have "win_range ?f' w = (b AND NOT (mask (win_gran w)), e OR mask (win_gran w))"
      using assms(2,3) join_mem [of b] join_mem [of e] by (simp add: Win_Mem read_put_other window_field or_mask_absorb del: drop_bit_and drop_bit_or)
    moreover have "agree (\<lambda>q. q < 0x1c \<or> 0x34 \<le> q) f ?f'" by (rule ag) auto
    ultimately show thesis by (rule that)
  next
    case (Win_Pref x)
    let ?ub = "if x then ucast (drop_bit 32 b) else 0 :: u32" and ?ue = "if x then ucast (drop_bit 32 e) else 0 :: u32"
    let ?f' = "cfg_put 4 0x2c ?ue (cfg_put 2 0x26 ((cfg_read16 f 0x26 AND mask 4) OR (ucast (drop_bit 16 e) AND NOT (mask 4)))
       (cfg_put 4 0x28 ?ub (cfg_put 2 0x24 ((cfg_read16 f 0x24 AND mask 4) OR (ucast (drop_bit 16 b) AND NOT (mask 4))) f)))"
    have "store_window (win_index w) b e f = Some ?f'"
      using w Win_Pref by (auto simp: store_window_def write32_writable write16_writable read_put_other Let_def split: if_splits)
    moreover have "win_range ?f' w = (b AND NOT (mask (win_gran w)), e OR mask (win_gran w))"
      using assms(2,3) join_mem [of b] join_mem [of e] join_mem_wide [of b] join_mem_wide [of e]
      by (cases x) (simp_all add: Win_Pref read_put_other window_field or_mask_absorb del: drop_bit_and drop_bit_or)
    moreover have "agree (\<lambda>q. q < 0x1c \<or> 0x34 \<le> q) f ?f'" by (rule ag4) auto
    ultimately show thesis by (rule that)
  qed
qed
lemma div_mult_less_one: "0 < k \<Longrightarrow> (k * j + (k - 1)) div k = (j::nat)"
  by (rule div_nat_eqI) (cases k; simp)+

lemma aligned_unat_mask:
  assumes "2 ^ n dvd unat (b :: u64)"
  shows "b AND NOT (mask n) = b"
  using assms by (simp add: word_unat_eq_iff unat_and_not_mask)

lemma unat_or_mask:
  assumes "n < 64"
  shows "unat (e OR mask n :: u64) = unat e div 2 ^ n * 2 ^ n + (2 ^ n - 1)"
proof -
  have "e OR mask n = (e AND NOT (mask n)) + mask n"
    by (subst or_mask_absorb [symmetric], rule disjunctive_add_eq_or [symmetric]) (rule bit_word_eqI, simp add: bit_simps)
  moreover have "unat (mask n :: u64) = 2 ^ n - 1" using assms by (simp add: mask_eq_exp_minus_1 unat_mask_word)
  moreover have "unat e div 2 ^ n * 2 ^ n + (2 ^ n - 1) < 2 ^ 64"
  proof -
    have "unat e div 2 ^ n < 2 ^ (64 - n)"
      using unat_less_exp [of e] assms by (intro less_mult_imp_div_less) (simp flip: power_add)
    then have "(unat e div 2 ^ n + 1) * 2 ^ n \<le> 2 ^ (64 - n) * 2 ^ n" by (intro mult_le_mono1) simp
    also have "\<dots> = 2 ^ 64" using assms by (simp flip: power_add)
    finally have "unat e div 2 ^ n * 2 ^ n + 2 ^ n \<le> 2 ^ 64" by (simp add: distrib_right)
    moreover have "(0::nat) < 2 ^ n" by simp
    ultimately show ?thesis by linarith
  qed
  ultimately show ?thesis by (simp add: unat_add_no_wrap unat_and_not_mask)
qed

text \<open>What the allocator hands back for a window.\<close>

definition window_resource :: "window \<Rightarrow> resource \<Rightarrow> bool" where
  "window_resource w res \<longleftrightarrow> res_index res = of_nat (win_index w) \<and> res_gran res = of_nat (win_gran w)
     \<and> res_flags res = win_type w OR IORESOURCE_PCI_BRIDGE OR IORESOURCE_BRIDGE OR IORESOURCE_ASSIGNED
     \<and> 2 ^ win_gran w dvd unat (res_base res) \<and> unat (res_size res) \<le> 2 ^ win_bits w - unat (res_base res) - 2 ^ win_gran w"

text \<open>
  C17.  A window that has a size is opened on exactly the addresses of its resource, rounded up
  to the granule; a window of size zero is closed, its base register above its limit register.
  Nothing outside the window registers changes, and the bridge starts to forward
  transactions of its devices only for a window that was opened.
\<close>
theorem pci_set_window_decode:
  assumes w: "has_window f w" and r: "window_resource w res" and lim: "2 ^ win_gran w \<le> unat (res_limit res)" "unat (res_limit res) < 2 ^ win_bits w"
  shows "\<exists>res' f'. pci_set_resource res (cmd, f) = (res', if res_size res = 0 then cmd else cmd OR command_bits res, f')
     \<and> res_flags res' = res_flags res OR IORESOURCE_STORED
     \<and> (if res_size res = 0 then snd (win_range f' w) < fst (win_range f' w)
        else win_range f' w = (res_base res, resource_end res)
          \<and> unat (resource_end res) + 1 = unat (res_base res) + (unat (res_size res) + 2 ^ win_gran w - 1) div 2 ^ win_gran w * 2 ^ win_gran w)
     \<and> (\<forall>q. q < 0x1c \<or> 0x34 \<le> q \<longrightarrow> cfg_byte f' q = cfg_byte f q)"
proof -
  let ?g = "win_gran w"
  let ?r1 = "res\<lparr>res_flags := res_flags res OR IORESOURCE_STORED\<rparr>"
  have g: "?g < 32" "?g < win_bits w" "win_bits w \<le> 64" by (cases w; simp)+
  have ug: "unat (res_gran res) = ?g" using r by (cases w) (simp_all add: window_resource_def)
  have ui: "unat (res_index res) = win_index w" using r by (cases w) (simp_all add: window_resource_def)
  show ?thesis
  proof (cases "res_size res = 0")
    case True
    let ?e = "res_limit res - window_step res"
    have step: "window_step res = 2 ^ ?g" by (cases w) (simp_all add: window_step_def ug)
    have us: "unat (2 ^ ?g :: u64) = 2 ^ ?g" using g by (simp add: unat_power_2)
    have ue: "unat ?e = unat (res_limit res) - 2 ^ ?g" using lim(1) by (simp add: step us unat_sub word_le_nat_alt)
    then have el: "unat ?e < 2 ^ win_bits w" using lim(2) by linarith
    obtain f' where f': "store_window (win_index w) (res_limit res) ?e f = Some f'"
      "win_range f' w = (res_limit res AND NOT (mask ?g), ?e OR mask ?g)" "agree (\<lambda>q. q < 0x1c \<or> 0x34 \<le> q) f f'"
      by (rule store_window_range [OF w lim(2) el])
    have "pci_set_resource res (cmd, f) = (?r1\<lparr>res_base := res_limit res\<rparr>, cmd, f')"
      using r f'(1) True by (cases w) (simp_all add: pci_set_resource_def window_resource_def command_bits_def Let_def window_step_def)
    moreover have "unat (snd (win_range f' w)) < unat (fst (win_range f' w))"
    proof -
      have "unat (res_limit res) div 2 ^ ?g = Suc (unat ?e div 2 ^ ?g)" using lim(1) by (simp add: ue le_div_geq)
      moreover have "?g < 64" using g by simp
      ultimately have "unat (fst (win_range f' w)) = Suc (unat ?e div 2 ^ ?g) * 2 ^ ?g"
        "unat (snd (win_range f' w)) = unat ?e div 2 ^ ?g * 2 ^ ?g + (2 ^ ?g - 1)" by (simp_all add: f'(2) unat_or_mask unat_and_not_mask)
      moreover have "(0::nat) < 2 ^ ?g" by simp
      ultimately show ?thesis unfolding mult_Suc by linarith
    qed
    ultimately show ?thesis using True f'(3) by (auto simp: agree_def word_less_nat_alt)
  next
    case False
    then have pos: "0 < unat (res_size res)" by (simp add: unat_gt_0)
    let ?e = "resource_end res"
    let ?up = "(unat (res_size res) + 2 ^ ?g - 1) div 2 ^ ?g * 2 ^ ?g"
    have dv: "2 ^ ?g dvd unat (res_base res)" and room: "unat (res_size res) \<le> 2 ^ win_bits w - unat (res_base res) - 2 ^ ?g"
      using r by (simp_all add: window_resource_def)
    have total: "unat (res_base res) + unat (res_size res) + 2 ^ ?g \<le> 2 ^ win_bits w" using room pos by linarith
    have "(2::nat) ^ win_bits w \<le> 2 ^ 64" using g by (intro power_increasing) simp_all
    with total have t64: "unat (res_base res) + unat (res_size res) + 2 ^ ?g \<le> 2 ^ 64" by linarith
    have up: "unat (res_size res) \<le> ?up" "?up < unat (res_size res) + 2 ^ ?g"
      using ceil_div_mult_less [of "2 ^ ?g" "unat (res_size res)"] by simp_all
    have "align_up (res_size res) ?g = ALIGN_UP (res_size res) (2 ^ ?g)" by (simp add: align_up_def ALIGN_UP_def ALIGN_MASK_def Let_def push_bit_eq_mult)
    moreover have "unat (ALIGN_UP (res_size res) (2 ^ ?g)) = ?up"
      using t64 g by (subst unat_ALIGN_UP_no_wrap) simp_all
    ultimately have ua: "unat (align_up (res_size res) ?g) = ?up" by simp
    have us: "unat (res_base res + align_up (res_size res) ?g) = unat (res_base res) + ?up"
      using t64 up by (subst unat_add_no_wrap) (simp_all add: ua)
    have "0 < unat (res_base res + align_up (res_size res) ?g)" using us up(1) pos by linarith
    then have "0 < res_base res + align_up (res_size res) ?g" by (simp only: unat_gt_0 word_neq_0_conv)
    then have ue: "unat ?e = unat (res_base res) + ?up - 1" by (simp add: resource_end_def ug unat_minus_one_pos us)
    have el: "unat ?e < 2 ^ win_bits w" using ue up total by linarith
    have e1: "unat ?e + 1 = unat (res_base res) + ?up" using ue up(1) pos by linarith
    have bl: "unat (res_base res) < 2 ^ win_bits w" using total pos by linarith
    obtain f' where f': "store_window (win_index w) (res_base res) ?e f = Some f'"
      "win_range f' w = (res_base res AND NOT (mask ?g), ?e OR mask ?g)" "agree (\<lambda>q. q < 0x1c \<or> 0x34 \<le> q) f f'"
      by (rule store_window_range [OF w bl el])
    have "pci_set_resource res (cmd, f) = (?r1, cmd OR command_bits res, f')"
      using r f'(1) False by (cases w) (simp_all add: pci_set_resource_def window_resource_def command_bits_def Let_def)
    moreover have "?e OR mask ?g = ?e"
    proof -
      have "2 ^ ?g dvd unat ?e + 1" unfolding e1 using dv by (intro dvd_add) simp_all
      then obtain k where k: "unat ?e + 1 = 2 ^ ?g * k" by (elim dvdE)
      then obtain j where "k = Suc j" by (cases k) auto
      then have "unat ?e = 2 ^ ?g * j + (2 ^ ?g - 1)" using k by (simp add: algebra_simps)
      moreover have "(2 ^ ?g * j + (2 ^ ?g - 1)) div 2 ^ ?g = j" by (rule div_mult_less_one) simp
      ultimately have "unat ?e div 2 ^ ?g * 2 ^ ?g + (2 ^ ?g - 1) = unat ?e" by (simp only: mult.commute)
      then show ?thesis using g by (simp add: word_unat_eq_iff unat_or_mask)
    qed
    ultimately show ?thesis using False f'(2,3) e1 aligned_unat_mask [OF dv] by (auto simp: agree_def)
  qed
qed

definition example_bridge :: pci_function where
  "example_bridge = masked_function (bytes_at 0x1c [0, 0, 0, 0, 0, 0, 0, 0, 1, 0, 1, 0])
     (bytes_at 0x1c [0xf0, 0xf0, 0, 0, 0xf0, 0xff, 0xf0, 0xff, 0xf0, 0xff, 0xf0, 0xff, 0xff, 0xff, 0xff, 0xff, 0xff, 0xff, 0xff, 0xff])"

lemma all_less_two: "(\<forall>i < (2::nat). P i) \<longleftrightarrow> P 0 \<and> P 1"
  by (auto simp: less_two)

lemma example_bridge_windows: "has_window example_bridge (Win_IO False)" "has_window example_bridge Win_Mem" "has_window example_bridge (Win_Pref True)"
proof -
  have w8: "writable example_bridge 1 0x1c (NOT (mask 4) :: u8)" "writable example_bridge 1 0x1d (NOT (mask 4) :: u8)"
    unfolding example_bridge_def by (rule writable_masked; simp add: bytes_at_def mask_eq_exp_minus_1)+
  have w16: "writable example_bridge 2 0x20 (NOT (mask 4) :: u16)" "writable example_bridge 2 0x22 (NOT (mask 4) :: u16)"
    "writable example_bridge 2 0x24 (NOT (mask 4) :: u16)" "writable example_bridge 2 0x26 (NOT (mask 4) :: u16)"
    "writable example_bridge 2 0x30 (0 :: u16)" "writable example_bridge 2 0x32 (0 :: u16)"
    unfolding example_bridge_def by (rule writable_masked; simp add: bytes_at_def byte_of_def all_less_two mask_eq_exp_minus_1)+
  have w32: "writable example_bridge 4 0x28 (- 1 :: u32)" "writable example_bridge 4 0x2c (- 1 :: u32)"
    unfolding example_bridge_def by (rule writable_masked; simp add: bytes_at_def byte_of_def all_less_four mask_eq_exp_minus_1)+
  have r: "cfg_read16 example_bridge 0x30 = 0" "cfg_read16 example_bridge 0x32 = 0"
    by (simp_all add: cfg_read16_def example_bridge_def masked_function_def bytes_at_def)
  show "has_window example_bridge (Win_IO False)" "has_window example_bridge Win_Mem" "has_window example_bridge (Win_Pref True)"
    using w8 w16 w32 r by simp_all
qed

theorem pci_set_window_decode_witness:
  "\<exists>res' f'. pci_set_resource \<lparr>res_base = 0x1000000000, res_size = 0x123456, res_limit = 0xffffffffff,
       res_flags = win_type (Win_Pref True) OR IORESOURCE_PCI_BRIDGE OR IORESOURCE_BRIDGE OR IORESOURCE_ASSIGNED, res_index = 0x24,
       res_align = 20, res_gran = 20\<rparr> (0, example_bridge) = (res', 6, f')
     \<and> win_range f' (Win_Pref True) = (0x1000000000, 0x10001fffff)"
proof -
  let ?res = "\<lparr>res_base = 0x1000000000, res_size = 0x123456, res_limit = 0xffffffffff,
       res_flags = win_type (Win_Pref True) OR IORESOURCE_PCI_BRIDGE OR IORESOURCE_BRIDGE OR IORESOURCE_ASSIGNED, res_index = 0x24,
       res_align = 20, res_gran = 20\<rparr>"
  have "window_resource (Win_Pref True) ?res" by (simp add: window_resource_def)
  then obtain res' f' where "pci_set_resource ?res (0, example_bridge) = (res', 0 OR command_bits ?res, f')"
    "win_range f' (Win_Pref True) = (0x1000000000, resource_end ?res)"
    using pci_set_window_decode [OF example_bridge_windows(3), of ?res 0] by auto
  then show ?thesis by (simp add: command_bits_def resource_end_def align_up_def)
qed

end
