(* ===== verification/Pciscan.thy ===== *)
theory Pciscan
  imports Pciconf
begin

text \<open>
  PCI enumeration: the rest of \<^verbatim>\<open>src/device/pci_device.c\<close> and the accessors of
  \<^verbatim>\<open>src/device/pci_ops.c\<close> and \<^verbatim>\<open>src/arch/x86/lib/pci_ops_conf1.c\<close>.

  The machine is the device tree with the resource structures, the PCI hardware and the
  level-trigger register of the interrupt controller.  The
  hardware is a set of functions, numbered, and a routing: which function a configuration
  access to a bus and device number reaches, given the bus number registers of all functions.
  The routing is a parameter, as it is the wiring of the board.
\<close>

section \<open>Configuration accesses\<close>

record pci_hw =
  hw_fn :: "nat \<Rightarrow> pci_function"
  hw_route :: "(nat \<Rightarrow> u32) \<Rightarrow> nat \<Rightarrow> nat \<Rightarrow> nat option"

record pci_state = devtree +
  ps_pool :: res_pool
  ps_hw :: pci_hw
  ps_elcr :: u16

text \<open>
  Ports \<open>0xCF8\<close> and \<open>0xCFC\<close>.  Every access writes the address port first, so the model
  passes the address along instead of keeping it in the state.  With bit 31 set, the data
  port reaches register \<open>7..2\<close> of the device \<open>15..8\<close> on the bus \<open>23..16\<close>; on this processor bits \<open>27..24\<close> are the upper
  four bits of the register number (\<^verbatim>\<open>CONFIG_PCI_IO_CFG_EXT\<close> is set).
\<close>

definition config_cmd :: "u32 \<Rightarrow> u32 \<Rightarrow> u32 \<Rightarrow> u32" where
  "config_cmd bus devfn reg = 0x80000000 OR push_bit 16 bus OR push_bit 8 devfn OR ((reg AND 0xff) AND NOT 3) OR push_bit 16 (reg AND 0xf00)"

definition bus_numbers :: "pci_hw \<Rightarrow> nat \<Rightarrow> u32" where
  "bus_numbers hw i = cfg_read32 (hw_fn hw i) PCI_PRIMARY_BUS"

definition conf_target :: "pci_hw \<Rightarrow> u32 \<Rightarrow> nat option" where
  "conf_target hw cmd =
     (if bit cmd 31 then hw_route hw (bus_numbers hw) (unat (drop_bit 16 cmd AND 0xff)) (unat (drop_bit 8 cmd AND 0xff)) else None)"

definition conf_reg :: "u32 \<Rightarrow> u32 \<Rightarrow> nat" where
  "conf_reg cmd port = 0x100 * unat (drop_bit 24 cmd AND 0xf) + unat (cmd AND 0xfc) + unat (port - 0xCFC)"

definition conf_read :: "'a \<Rightarrow> (pci_function \<Rightarrow> nat \<Rightarrow> 'a) \<Rightarrow> pci_hw \<Rightarrow> u32 \<Rightarrow> u32 \<Rightarrow> 'a" where
  "conf_read none rd hw cmd port = (case conf_target hw cmd of None \<Rightarrow> none | Some i \<Rightarrow> rd (hw_fn hw i) (conf_reg cmd port))"

definition conf_write :: "(nat \<Rightarrow> 'a \<Rightarrow> pci_function \<Rightarrow> pci_function) \<Rightarrow> 'a \<Rightarrow> u32 \<Rightarrow> u32 \<Rightarrow> pci_hw \<Rightarrow> pci_hw" where
  "conf_write wr v cmd port hw = (case conf_target hw cmd of None \<Rightarrow> hw
     | Some i \<Rightarrow> hw\<lparr>hw_fn := (hw_fn hw)(i := wr (conf_reg cmd port) v (hw_fn hw i))\<rparr>)"

definition pci_conf1_read_config8 :: "pci_hw \<Rightarrow> u32 \<Rightarrow> u32 \<Rightarrow> u32 \<Rightarrow> u8" where
  "pci_conf1_read_config8 hw bus devfn reg = conf_read 0xff cfg_read8 hw (config_cmd bus devfn reg) (0xCFC + (reg AND 3))"

definition pci_conf1_read_config16 :: "pci_hw \<Rightarrow> u32 \<Rightarrow> u32 \<Rightarrow> u32 \<Rightarrow> u16" where
  "pci_conf1_read_config16 hw bus devfn reg = conf_read 0xffff cfg_read16 hw (config_cmd bus devfn reg) (0xCFC + (reg AND 2))"

definition pci_conf1_read_config32 :: "pci_hw \<Rightarrow> u32 \<Rightarrow> u32 \<Rightarrow> u32 \<Rightarrow> u32" where
  "pci_conf1_read_config32 hw bus devfn reg = conf_read 0xffffffff cfg_read32 hw (config_cmd bus devfn reg) 0xCFC"

definition pci_conf1_write_config8 :: "u32 \<Rightarrow> u32 \<Rightarrow> u32 \<Rightarrow> u8 \<Rightarrow> pci_hw \<Rightarrow> pci_hw" where
  "pci_conf1_write_config8 bus devfn reg v = conf_write cfg_write8 v (config_cmd bus devfn reg) (0xCFC + (reg AND 3))"

definition pci_conf1_write_config16 :: "u32 \<Rightarrow> u32 \<Rightarrow> u32 \<Rightarrow> u16 \<Rightarrow> pci_hw \<Rightarrow> pci_hw" where
  "pci_conf1_write_config16 bus devfn reg v = conf_write cfg_write16 v (config_cmd bus devfn reg) (0xCFC + (reg AND 2))"

definition pci_conf1_write_config32 :: "u32 \<Rightarrow> u32 \<Rightarrow> u32 \<Rightarrow> u32 \<Rightarrow> pci_hw \<Rightarrow> pci_hw" where
  "pci_conf1_write_config32 bus devfn reg v = conf_write cfg_write32 v (config_cmd bus devfn reg) 0xCFC"

text \<open>
  The accessors of a device.  \<^verbatim>\<open>get_pbus\<close> and \<^verbatim>\<open>pci_bus_ops\<close> only choose between access
  methods that have the same effect; the model always takes the port one.
\<close>

abbreviation bus_nr :: "pci_state \<Rightarrow> dev_id \<Rightarrow> u32" where "bus_nr s d \<equiv> ucast (b_secondary (bus_of s d))"

definition pci_read_config8 :: "pci_state \<Rightarrow> dev_id \<Rightarrow> nat \<Rightarrow> u8" where
  "pci_read_config8 s d reg = pci_conf1_read_config8 (ps_hw s) (bus_nr s d) (pci_devfn (path_of s d)) (of_nat reg)"

definition pci_read_config16 :: "pci_state \<Rightarrow> dev_id \<Rightarrow> nat \<Rightarrow> u16" where
  "pci_read_config16 s d reg = pci_conf1_read_config16 (ps_hw s) (bus_nr s d) (pci_devfn (path_of s d)) (of_nat reg)"

definition pci_read_config32 :: "pci_state \<Rightarrow> dev_id \<Rightarrow> nat \<Rightarrow> u32" where
  "pci_read_config32 s d reg = pci_conf1_read_config32 (ps_hw s) (bus_nr s d) (pci_devfn (path_of s d)) (of_nat reg)"

definition pci_write_config8 :: "dev_id \<Rightarrow> nat \<Rightarrow> u8 \<Rightarrow> pci_state \<Rightarrow> pci_state" where
  "pci_write_config8 d reg v s = s\<lparr>ps_hw := pci_conf1_write_config8 (bus_nr s d) (pci_devfn (path_of s d)) (of_nat reg) v (ps_hw s)\<rparr>"

definition pci_write_config16 :: "dev_id \<Rightarrow> nat \<Rightarrow> u16 \<Rightarrow> pci_state \<Rightarrow> pci_state" where
  "pci_write_config16 d reg v s = s\<lparr>ps_hw := pci_conf1_write_config16 (bus_nr s d) (pci_devfn (path_of s d)) (of_nat reg) v (ps_hw s)\<rparr>"

definition pci_write_config32 :: "dev_id \<Rightarrow> nat \<Rightarrow> u32 \<Rightarrow> pci_state \<Rightarrow> pci_state" where
  "pci_write_config32 d reg v s = s\<lparr>ps_hw := pci_conf1_write_config32 (bus_nr s d) (pci_devfn (path_of s d)) (of_nat reg) v (ps_hw s)\<rparr>"

section \<open>The default operations of PCI devices\<close>

text \<open>The numbers of the functions of this file that operations point to; drivers use others.\<close>

abbreviation (input) PCI_DEV_READ_RESOURCES :: nat where "PCI_DEV_READ_RESOURCES \<equiv> 1"
abbreviation (input) PCI_DEV_SET_RESOURCES :: nat where "PCI_DEV_SET_RESOURCES \<equiv> 2"
abbreviation (input) PCI_DEV_ENABLE_RESOURCES :: nat where "PCI_DEV_ENABLE_RESOURCES \<equiv> 3"
abbreviation (input) PCI_DEV_INIT :: nat where "PCI_DEV_INIT \<equiv> 4"
abbreviation (input) PCI_BUS_READ_RESOURCES :: nat where "PCI_BUS_READ_RESOURCES \<equiv> 5"
abbreviation (input) PCI_BUS_ENABLE_RESOURCES :: nat where "PCI_BUS_ENABLE_RESOURCES \<equiv> 6"
abbreviation (input) PCI_SCAN_BRIDGE :: nat where "PCI_SCAN_BRIDGE \<equiv> 7"
abbreviation (input) PCI_BUS_RESET :: nat where "PCI_BUS_RESET \<equiv> 8"
abbreviation (input) PCI_DEV_SET_SUBSYSTEM :: nat where "PCI_DEV_SET_SUBSYSTEM \<equiv> 9"
abbreviation (input) PCI_DOMAIN_SCAN_BUS :: nat where "PCI_DOMAIN_SCAN_BUS \<equiv> 10"
abbreviation (input) PCIEXP_SCAN_BRIDGE :: nat where "PCIEXP_SCAN_BRIDGE \<equiv> 11"

definition default_pci_ops_dev :: device_operations where
  "default_pci_ops_dev = \<lparr>op_read_resources = Some PCI_DEV_READ_RESOURCES, op_set_resources = Some PCI_DEV_SET_RESOURCES,
     op_enable_resources = Some PCI_DEV_ENABLE_RESOURCES, op_init = Some PCI_DEV_INIT, op_final = None, op_scan_bus = None,
     op_enable = None, op_disable = None, op_reset_bus = None, op_set_subsystem = Some PCI_DEV_SET_SUBSYSTEM\<rparr>"

definition default_pci_ops_bus :: device_operations where
  "default_pci_ops_bus = \<lparr>op_read_resources = Some PCI_BUS_READ_RESOURCES, op_set_resources = Some PCI_DEV_SET_RESOURCES,
     op_enable_resources = Some PCI_BUS_ENABLE_RESOURCES, op_init = None, op_final = None, op_scan_bus = Some PCI_SCAN_BRIDGE,
     op_enable = None, op_disable = None, op_reset_bus = Some PCI_BUS_RESET, op_set_subsystem = None\<rparr>"

text \<open>Those of PCI Express bridges, in \<^verbatim>\<open>src/device/pciexp_device.c\<close>.\<close>

definition default_pciexp_ops_bus :: device_operations where
  "default_pciexp_ops_bus = \<lparr>op_read_resources = Some PCI_BUS_READ_RESOURCES, op_set_resources = Some PCI_DEV_SET_RESOURCES,
     op_enable_resources = Some PCI_BUS_ENABLE_RESOURCES, op_init = None, op_final = None, op_scan_bus = Some PCIEXP_SCAN_BRIDGE,
     op_enable = None, op_disable = None, op_reset_bus = Some PCI_BUS_RESET, op_set_subsystem = None\<rparr>"

text \<open>A driver claims a vendor and device, or the devices of a zero-terminated list.\<close>

record pci_driver =
  drv_ops :: device_operations
  drv_vendor :: u16
  drv_device :: u16
  drv_devices :: "u16 list option"

text \<open>
  What the file depends on from elsewhere: the drivers linked in; the operations that the
  optional PCI-X, HyperTransport, PCI Express and CardBus support provides, \<open>None\<close> where it is
  not built in; \<^verbatim>\<open>sizeof\<close> of the structures; and the functions of drivers and chips, which may
  do anything to the machine.
\<close>

record pci_env =
  env_drivers :: "pci_driver list"
  env_pcix :: "device_operations option"
  env_ht :: "device_operations option"
  env_pciexp :: "device_operations option"
  env_cardbus :: "device_operations option"
  env_sizeof_device :: u32
  env_sizeof_bus :: u32
  env_subsystem_vendor :: u16
  env_subsystem_device :: u16
  env_hook :: "nat \<Rightarrow> nat \<Rightarrow> pci_state \<Rightarrow> pci_state option"
  env_scan :: "nat \<Rightarrow> dev_id \<Rightarrow> u32 \<Rightarrow> pci_state \<Rightarrow> (u32 \<times> pci_state) option"

definition device_id_match :: "pci_driver \<Rightarrow> u16 \<Rightarrow> bool" where
  "device_id_match driver device_id =
     ((case drv_devices driver of None \<Rightarrow> False | Some ids \<Rightarrow> device_id \<in> set (takeWhile (\<lambda>x. x \<noteq> 0) ids))
      \<or> drv_device driver = device_id)"

text \<open>The function a device's address reaches, and what a missing function looks like.\<close>

definition absent_function :: pci_function where
  "absent_function = \<lparr>cfg_byte = (\<lambda>r. 0xff), cfg_wr = (\<lambda>r old v. old)\<rparr>"

definition dev_target :: "pci_state \<Rightarrow> dev_id \<Rightarrow> nat option" where
  "dev_target s d = conf_target (ps_hw s) (config_cmd (bus_nr s d) (pci_devfn (path_of s d)) 0)"

definition dev_cfg :: "pci_state \<Rightarrow> dev_id \<Rightarrow> pci_function" where
  "dev_cfg s d = (case dev_target s d of None \<Rightarrow> absent_function | Some i \<Rightarrow> hw_fn (ps_hw s) i)"

definition set_cfg :: "dev_id \<Rightarrow> pci_function \<Rightarrow> pci_state \<Rightarrow> pci_state" where
  "set_cfg d f s = (case dev_target s d of None \<Rightarrow> s
     | Some i \<Rightarrow> s\<lparr>ps_hw := (ps_hw s)\<lparr>hw_fn := (hw_fn (ps_hw s))(i := f)\<rparr>\<rparr>)"

text \<open>
  The HyperTransport capabilities, one after the other, until one is a host or secondary
  interface.  A circular capability list can keep this going for ever.
\<close>

partial_function (option) ht_loop :: "pci_function \<Rightarrow> u32 \<Rightarrow> u32 \<Rightarrow> bool option" where
  "ht_loop f hdr_type htpos =
     (let htpos = pci_find_next_capability f hdr_type 0x08 htpos in
      if htpos = 0 then Some False
      else if drop_bit 13 (cfg_read16 f (unat htpos + 2)) = 1 then Some True
      else ht_loop f hdr_type htpos)"

definition get_pci_bridge_ops :: "pci_env \<Rightarrow> pci_function \<Rightarrow> u32 \<Rightarrow> device_operations option" where
  "get_pci_bridge_ops env f hdr_type =
     (if env_pcix env \<noteq> None \<and> pci_find_capability f hdr_type 0x07 \<noteq> 0 then env_pcix env
      else do {
        ht \<leftarrow> (case env_ht env of None \<Rightarrow> Some False | Some _ \<Rightarrow> ht_loop f hdr_type 0);
        if ht then env_ht env
        else case env_pciexp env of
               None \<Rightarrow> Some default_pci_ops_bus
             | Some ops \<Rightarrow>
                 let pciexpos = pci_find_capability f hdr_type 0x10 in
                 if pciexpos = 0 then Some default_pci_ops_bus
                 else let kind = drop_bit 4 (cfg_read16 f (unat pciexpos + 2) AND 0xf0)
                      in Some (if kind \<in> {4, 5, 6} then ops else default_pci_ops_bus)
      })"

text \<open>\<open>Some None\<close> is a device that gets no operations.\<close>

definition default_ops :: "pci_env \<Rightarrow> pci_function \<Rightarrow> device \<Rightarrow> device_operations option option" where
  "default_ops env f dev =
     (let hdr = d_hdr_type dev AND 0x7f; bridge = drop_bit 8 (d_class dev) = 0x0604 in
      if hdr = 0 then Some (if bridge then None else Some default_pci_ops_dev)
      else if hdr = 1 then (if bridge then map_option Some (get_pci_bridge_ops env f (d_hdr_type dev)) else Some None)
      else if hdr = 2 then Some (env_cardbus env)
      else Some None)"

definition set_pci_ops :: "pci_env \<Rightarrow> dev_id \<Rightarrow> pci_state \<Rightarrow> pci_state option" where
  "set_pci_ops env d s =
     (let dev = devs s d in
      if d_ops dev \<noteq> None then Some s
      else case find (\<lambda>drv. ucast (drv_vendor drv) = d_vendor dev \<and> device_id_match drv (ucast (d_device dev))) (env_drivers env) of
             Some drv \<Rightarrow> Some (upd_dev d (\<lambda>x. x\<lparr>d_ops := Some (drv_ops drv)\<rparr>) s)
           | None \<Rightarrow> do {
               ops \<leftarrow> default_ops env (dev_cfg s d) dev;
               Some (upd_dev d (\<lambda>x. x\<lparr>d_ops := ops\<rparr>) s)
             })"

section \<open>Scanning a bus\<close>

text \<open>The static devices still to be matched are a list; a match leaves it and joins its parent's children.\<close>

fun take_devfn :: "pci_state \<Rightarrow> u32 \<Rightarrow> dev_id list \<Rightarrow> dev_id option \<times> dev_id list" where
  "take_devfn s devfn [] = (None, [])"
| "take_devfn s devfn (d # rest) =
     (if p_type (path_of s d) = DEVICE_PATH_PCI \<and> pci_devfn (path_of s d) = devfn then (Some d, rest)
      else let (found, rest) = take_devfn s devfn rest in (found, d # rest))"

definition pci_scan_get_dev :: "u32 \<Rightarrow> dev_id list \<times> pci_state \<Rightarrow> dev_id option \<times> dev_id list \<times> pci_state" where
  "pci_scan_get_dev devfn = (\<lambda>(old, s).
     case take_devfn s devfn old of
       (None, old) \<Rightarrow> (None, old, s)
     | (Some d, old) \<Rightarrow> (Some d, old, upd_bus (d_bus (devs s d)) (\<lambda>b. b\<lparr>b_children := b_children b @ [d]\<rparr>) s))"

definition no_device :: "u32 \<Rightarrow> bool" where
  "no_device id' \<longleftrightarrow> id' = 0xffffffff \<or> id' = 0x00000000 \<or> id' = 0x0000ffff \<or> id' = 0xffff0000"

abbreviation heap_of :: "pci_state \<Rightarrow> heap" where "heap_of s \<equiv> pool_heap (ps_pool s)"

definition upd_heap :: "heap \<Rightarrow> pci_state \<Rightarrow> pci_state" where
  "upd_heap h s = s\<lparr>ps_pool := (ps_pool s)\<lparr>pool_heap := h\<rparr>\<rparr>"

text \<open>The rest of the path of a new device is not initialised; PCI paths use the first word only.\<close>

definition pci_path :: "u32 \<Rightarrow> device_path" where
  "pci_path devfn = \<lparr>p_type = DEVICE_PATH_PCI, p_w0 = devfn, p_w1 = 0, p_w2 = 0, p_w3 = 0, p_w4 = 0\<rparr>"

text \<open>What is read once a device has answered.\<close>

definition identify :: "pci_env \<Rightarrow> u32 \<Rightarrow> dev_id \<Rightarrow> pci_state \<Rightarrow> pci_state option" where
  "identify env id' d s = do {
     let hdr_type = pci_read_config8 s d PCI_HEADER_TYPE;
     let class = drop_bit 8 (pci_read_config32 s d PCI_CLASS_REVISION);
     let s = upd_dev d (\<lambda>x. x\<lparr>d_vendor := id' AND 0xffff, d_device := drop_bit 16 id' AND 0xffff, d_hdr_type := ucast hdr_type, d_class := class,
               d_command := if drop_bit 16 class = 0x08 then d_command x OR PCI_COMMAND_MASTER else d_command x\<rparr>) s;
     s \<leftarrow> set_pci_ops env d s;
     case dev_op s d op_enable of None \<Rightarrow> Some s | Some k \<Rightarrow> env_hook env k d s
   }"

definition pci_probe_dev ::
  "pci_env \<Rightarrow> dev_id option \<Rightarrow> bus_id \<Rightarrow> u32 \<Rightarrow> pci_state \<Rightarrow> (dev_id option \<times> pci_state) option" where
  "pci_probe_dev env dev bus devfn s =
     (case dev of
        None \<Rightarrow>
          let id' = pci_conf1_read_config32 (ps_hw s) (ucast (b_secondary (buses s bus))) devfn (of_nat PCI_VENDOR_ID) in
          if no_device id' then Some (None, s)
          else do {
            (d, s, h) \<leftarrow> alloc_dev (env_sizeof_device env) bus (pci_path devfn) (s, heap_of s);
            s \<leftarrow> identify env id' d (upd_heap h s);
            Some (Some d, s)
          }
      | Some d \<Rightarrow> do {
          s \<leftarrow> (case chip_op s d chip_enable_dev of None \<Rightarrow> Some s | Some k \<Rightarrow> env_hook env k d s);
          let id' = pci_read_config32 s d PCI_VENDOR_ID;
          if no_device id' then Some (Some d, if d_enabled (devs s d) then upd_dev d (\<lambda>x. x\<lparr>d_enabled := False\<rparr>) s else s)
          else do {
            s \<leftarrow> identify env id' d s;
            Some (Some d, s)
          }
        })"

definition skip_functions :: "nat \<Rightarrow> dev_id option \<Rightarrow> pci_state \<Rightarrow> bool" where
  "skip_functions devfn dev s \<longleftrightarrow> devfn mod 8 = 0
     \<and> (case dev of None \<Rightarrow> True | Some d \<Rightarrow> d_enabled (devs s d) \<and> d_hdr_type (devs s d) AND 0x80 \<noteq> 0x80)"

function scan_devfns :: "pci_env \<Rightarrow> bus_id \<Rightarrow> nat \<Rightarrow> nat \<Rightarrow> dev_id list \<times> pci_state \<Rightarrow> (dev_id list \<times> pci_state) option" where
  "scan_devfns env bus last' devfn (old, s) =
     (if devfn \<le> last' then do {
        let (dev, old, s) = pci_scan_get_dev (of_nat devfn) (old, s);
        (dev, s) \<leftarrow> pci_probe_dev env dev bus (of_nat devfn) s;
        scan_devfns env bus last' (devfn + (if skip_functions devfn dev s then 8 else 1)) (old, s)
      } else Some (old, s))"
  by pat_completeness auto
termination by (relation "measure (\<lambda>(env, bus, last', devfn, s). Suc last' - devfn)") auto

declare scan_devfns.simps [simp del]

text \<open>Behind a bridge: the buses are numbered in the order the scan meets them.\<close>

definition new_link :: "pci_env \<Rightarrow> dev_id \<Rightarrow> pci_state \<Rightarrow> pci_state option" where
  "new_link env d s =
     (if d_link_list (devs s d) \<noteq> [] then Some s
      else do {
        (p, h) \<leftarrow> malloc (env_sizeof_bus env) (heap_of s);
        let b = unat p;
        let s = upd_bus b (\<lambda>_. \<lparr>b_dev = d, b_children = [], b_bridge_ctrl = 0, b_link_num = 0, b_secondary = 0, b_subordinate = 0,
                  b_reset_needed = False\<rparr>) (upd_heap h s);
        Some (upd_dev d (\<lambda>x. x\<lparr>d_link_list := [b]\<rparr>) s)
      })"

definition do_pci_scan_bridge ::
  "pci_env \<Rightarrow> (bus_id \<Rightarrow> u32 \<Rightarrow> u32 \<Rightarrow> u32 \<Rightarrow> pci_state \<Rightarrow> (u32 \<times> pci_state) option) \<Rightarrow> dev_id \<Rightarrow> u32 \<Rightarrow> pci_state \<Rightarrow> (u32 \<times> pci_state) option" where
  "do_pci_scan_bridge env do_scan_bus d mx s = do {
     s \<leftarrow> new_link env d s;
     let bus = hd (d_link_list (devs s d));
     let mx = mx + 1;
     let s = upd_bus bus (\<lambda>b. b\<lparr>b_secondary := ucast mx, b_subordinate := 0xff\<rparr>) s;
     let cr = pci_read_config16 s d PCI_COMMAND;
     let s = pci_write_config16 d PCI_COMMAND 0x0000 s;
     let s = pci_write_config16 d PCI_STATUS 0xffff s;
     let nrs = pci_read_config32 s d PCI_PRIMARY_BUS;
     let nrs = (nrs AND 0xff000000) OR (ucast (b_secondary (bus_of s d)) OR push_bit 8 (ucast (b_secondary (buses s bus)))
                 OR push_bit 16 (ucast (b_subordinate (buses s bus))));
     let s = pci_write_config32 d PCI_PRIMARY_BUS nrs s;
     (mx, s) \<leftarrow> do_scan_bus bus 0x00 0xff mx s;
     let s = upd_bus bus (\<lambda>b. b\<lparr>b_subordinate := ucast mx\<rparr>) s;
     let nrs = (nrs AND 0xff00ffff) OR push_bit 16 (ucast (b_subordinate (buses s bus)));
     let s = pci_write_config32 d PCI_PRIMARY_BUS nrs s;
     let s = pci_write_config16 d PCI_COMMAND cr s;
     Some (mx, s)
   }"

definition pci_bus_reset :: "bus_id \<Rightarrow> pci_state \<Rightarrow> pci_state" where
  "pci_bus_reset bus s =
     (let d = b_dev (buses s bus);
          ctl = pci_read_config16 s d PCI_BRIDGE_CONTROL OR PCI_BRIDGE_CTL_BUS_RESET;
          s = pci_write_config16 d PCI_BRIDGE_CONTROL ctl s
      in pci_write_config16 d PCI_BRIDGE_CONTROL (ctl AND NOT PCI_BRIDGE_CTL_BUS_RESET) s)"

definition reset_hook :: "pci_env \<Rightarrow> nat \<Rightarrow> nat \<Rightarrow> pci_state \<Rightarrow> pci_state option" where
  "reset_hook env k bus s = (if k = PCI_BUS_RESET then Some (pci_bus_reset bus s) else env_hook env k bus s)"

text \<open>
  A PCI Express bridge is scanned like another, and then the links to the devices behind it are
  tuned.  In this configuration the common clock and the power management of the links are not
  built in (\<^verbatim>\<open>CONFIG_PCIEXP_COMMON_CLOCK\<close> and \<^verbatim>\<open>CONFIG_PCIEXP_ASPM\<close> are 0), so what is left of the tuning only reads.
\<close>

definition pciexp_tune_dev :: "dev_id \<Rightarrow> pci_state \<Rightarrow> pci_state" where
  "pciexp_tune_dev d s =
     (let root = b_dev (bus_of s d); cap = pci_find_capability (dev_cfg s d) (d_hdr_type (devs s d)) 0x10 in
      if cap = 0 then s
      else let root_cap = pci_find_capability (dev_cfg s root) (d_hdr_type (devs s root)) 0x10 in
        if root_cap = 0 then s else s)"

definition pciexp_scan_bus ::
  "(bus_id \<Rightarrow> u32 \<Rightarrow> u32 \<Rightarrow> u32 \<Rightarrow> pci_state \<Rightarrow> (u32 \<times> pci_state) option) \<Rightarrow> bus_id \<Rightarrow> u32 \<Rightarrow> u32 \<Rightarrow> u32 \<Rightarrow> pci_state \<Rightarrow> (u32 \<times> pci_state) option" where
  "pciexp_scan_bus scan bus min_devfn max_devfn mx s = do {
     (mx, s) \<leftarrow> scan bus min_devfn max_devfn mx s;
     Some (mx, fold (\<lambda>child s. if pci_devfn (path_of s child) < min_devfn \<or> max_devfn < pci_devfn (path_of s child) then s else pciexp_tune_dev child s)
       (b_children (buses s bus)) s)
   }"

text \<open>The scan of a device by its operations: those of bridges, or one of a driver.\<close>

definition scan_op ::
  "pci_env \<Rightarrow> (bus_id \<Rightarrow> u32 \<Rightarrow> u32 \<Rightarrow> u32 \<Rightarrow> pci_state \<Rightarrow> (u32 \<times> pci_state) option) \<Rightarrow> nat \<Rightarrow> dev_id \<Rightarrow> u32 \<Rightarrow> pci_state \<Rightarrow> (u32 \<times> pci_state) option" where
  "scan_op env scan f d mx s =
     (if f = PCI_SCAN_BRIDGE then do_pci_scan_bridge env scan d mx s
      else if f = PCIEXP_SCAN_BRIDGE then do_pci_scan_bridge env (pciexp_scan_bus scan) d mx s
      else env_scan env f d mx s)"

text \<open>
  \<^verbatim>\<open>pci_scan_bus\<close>: \<open>n\<close> bounds the depth of bridges, \<open>k\<close> the repetitions of a scan that a reset
  asks for.
\<close>

fun pci_scan_bus :: "nat \<Rightarrow> nat \<Rightarrow> pci_env \<Rightarrow> bus_id \<Rightarrow> u32 \<Rightarrow> u32 \<Rightarrow> u32 \<Rightarrow> pci_state \<Rightarrow> (u32 \<times> pci_state) option" where
  "pci_scan_bus 0 k env bus min_devfn max_devfn mx s = None"
| "pci_scan_bus (Suc n) k env bus min_devfn max_devfn mx s = do {
     let max_devfn = (if 0xff < max_devfn then 0xff else max_devfn);
     let old = b_children (buses s bus);
     let s = upd_bus bus (\<lambda>b. b\<lparr>b_children := []\<rparr>) s;
     (old, s) \<leftarrow> scan_devfns env bus (unat max_devfn) (unat min_devfn) (old, s);
     fold_opt (\<lambda>child (mx, s).
         scan_bus k (reset_hook env) (scan_op env (pci_scan_bus n k env)) (Some child) mx s)
       (b_children (buses s bus)) (mx, s)
   }"

definition pci_scan_bridge :: "nat \<Rightarrow> nat \<Rightarrow> pci_env \<Rightarrow> dev_id \<Rightarrow> u32 \<Rightarrow> pci_state \<Rightarrow> (u32 \<times> pci_state) option" where
  "pci_scan_bridge n k env d mx s = do_pci_scan_bridge env (pci_scan_bus n k env) d mx s"

definition pciexp_scan_bridge :: "nat \<Rightarrow> nat \<Rightarrow> pci_env \<Rightarrow> dev_id \<Rightarrow> u32 \<Rightarrow> pci_state \<Rightarrow> (u32 \<times> pci_state) option" where
  "pciexp_scan_bridge n k env d mx s = do_pci_scan_bridge env (pciexp_scan_bus (pci_scan_bus n k env)) d mx s"

definition pci_domain_scan_bus :: "nat \<Rightarrow> nat \<Rightarrow> pci_env \<Rightarrow> dev_id \<Rightarrow> u32 \<Rightarrow> pci_state \<Rightarrow> (u32 \<times> pci_state) option" where
  "pci_domain_scan_bus n k env d mx s = pci_scan_bus n k env (hd (d_link_list (devs s d))) 0 0xff mx s"

section \<open>Resources of the devices of the tree\<close>

text \<open>An operation on the resource list and the registers of one device.\<close>

definition read_with ::
  "(resource list \<times> res_pool \<times> pci_function \<Rightarrow> (resource list \<times> res_pool \<times> pci_function) option) \<Rightarrow> dev_id \<Rightarrow> pci_state \<Rightarrow> pci_state option" where
  "read_with op d s = do {
     (rs, pool, f) \<leftarrow> op (d_resource_list (devs s d), ps_pool s, dev_cfg s d);
     Some (set_cfg d f (upd_dev d (\<lambda>x. x\<lparr>d_resource_list := rs\<rparr>) (s\<lparr>ps_pool := pool\<rparr>)))
   }"

definition read_domain :: "dev_id \<Rightarrow> pci_state \<Rightarrow> pci_state option" where
  "read_domain d s = do {
     (rs, pool) \<leftarrow> pci_domain_read_resources (d_resource_list (devs s d), ps_pool s);
     Some (upd_dev d (\<lambda>x. x\<lparr>d_resource_list := rs\<rparr>) (s\<lparr>ps_pool := pool\<rparr>))
   }"

text \<open>\<open>n\<close> bounds the depth of the tree.\<close>

fun pci_dev_set_resources :: "nat \<Rightarrow> pci_env \<Rightarrow> dev_id \<Rightarrow> pci_state \<Rightarrow> pci_state option" where
  "pci_dev_set_resources 0 env d s = None"
| "pci_dev_set_resources (Suc n) env d s = do {
     let (rs, cmd, f) = set_resources (d_resource_list (devs s d)) (d_command (devs s d), dev_cfg s d);
     let s = set_cfg d f (upd_dev d (\<lambda>x. x\<lparr>d_resource_list := rs, d_command := cmd\<rparr>) s);
     s \<leftarrow> fold_opt (\<lambda>bus s. if b_children (buses s bus) = [] then Some s
           else assign_resources (\<lambda>k d s. if k = PCI_DEV_SET_RESOURCES then pci_dev_set_resources n env d s else env_hook env k d s) bus s)
         (d_link_list (devs s d)) s;
     Some (set_cfg d (set_timers (d_hdr_type (devs s d)) (dev_cfg s d)) s)
   }"

definition pci_dev_set_subsystem :: "dev_id \<Rightarrow> u16 \<Rightarrow> u16 \<Rightarrow> pci_state \<Rightarrow> pci_state" where
  "pci_dev_set_subsystem d vendor device = pci_write_config32 d PCI_SUBSYSTEM_VENDOR_ID (push_bit 16 (ucast device AND 0xffff) OR (ucast vendor AND 0xffff))"

text \<open>A configured identifier of zero leaves the one the device has.\<close>

definition pci_dev_enable_resources :: "pci_env \<Rightarrow> dev_id \<Rightarrow> pci_state \<Rightarrow> pci_state option" where
  "pci_dev_enable_resources env d s = do {
     s \<leftarrow> (case dev_op s d op_set_subsystem of
             Some k \<Rightarrow> if \<not> d_on_mainboard (devs s d) then Some s
               else
                 let s = upd_dev d (\<lambda>x. x\<lparr>
                           d_subsystem_vendor := if env_subsystem_vendor env \<noteq> 0 then env_subsystem_vendor env else d_subsystem_vendor x,
                           d_subsystem_device := if env_subsystem_device env \<noteq> 0 then env_subsystem_device env else d_subsystem_device x\<rparr>) s
                 in if k = PCI_DEV_SET_SUBSYSTEM
                    then Some (pci_dev_set_subsystem d (d_subsystem_vendor (devs s d)) (d_subsystem_device (devs s d)) s)
                    else env_hook env k d s
           | None \<Rightarrow> Some s);
     let command = pci_read_config16 s d PCI_COMMAND OR ucast (d_command (devs s d));
     Some (pci_write_config16 d PCI_COMMAND command s)
   }"

definition pci_bus_enable_resources :: "pci_env \<Rightarrow> dev_id \<Rightarrow> pci_state \<Rightarrow> pci_state option" where
  "pci_bus_enable_resources env d s =
     (let ctl = ucast (b_bridge_ctrl (buses s (hd (d_link_list (devs s d))))) :: u16;
          s = (if ctl AND PCI_BRIDGE_CTL_VGA \<noteq> 0 then upd_dev d (\<lambda>x. x\<lparr>d_command := d_command x OR PCI_COMMAND_IO\<rparr>) s else s);
          ctrl = pci_read_config16 s d PCI_BRIDGE_CONTROL OR ctl OR (PCI_BRIDGE_CTL_PARITY + PCI_BRIDGE_CTL_SERR)
      in pci_dev_enable_resources env d (pci_write_config16 d PCI_BRIDGE_CONTROL ctrl s))"

text \<open>\<^verbatim>\<open>sdev\<close> packs a bus number and a device number as \<^verbatim>\<open>PCI_DEV\<close> does.\<close>

definition pci_match_simple_dev :: "pci_state \<Rightarrow> dev_id \<Rightarrow> u32 \<Rightarrow> bool" where
  "pci_match_simple_dev s d sdev \<longleftrightarrow> bus_nr s d = drop_bit 20 sdev AND 0xfff \<and> pci_devfn (path_of s d) = drop_bit 12 sdev AND 0xff"

section \<open>Interrupt pins\<close>

abbreviation PCI_SLOT :: "u32 \<Rightarrow> u32" where "PCI_SLOT devfn \<equiv> drop_bit 3 devfn AND 0x1f"

definition pin_to_str :: "int \<Rightarrow> string option" where
  "pin_to_str pin =
     (let str = [''NO PIN'', ''PIN A'', ''PIN B'', ''PIN C'', ''PIN D''] in
      if pin \<ge> 0 \<or> pin \<le> 4 then (if 0 \<le> pin \<and> pin < 5 then Some (str ! nat pin) else None)
      else Some ''Invalid PIN, not 0 - 4'')"

text \<open>The remainder of C, which has the sign of the dividend.\<close>

definition c_rem :: "int \<Rightarrow> int \<Rightarrow> int" where
  "c_rem a b = (if a < 0 then - ((- a) mod b) else a mod b)"

text \<open>
  Up through the bridges to the root bus, whose number is zero; the tree's root is its own
  parent, so a walk that meets no bus number zero never ends.
\<close>

partial_function (option) swizzle_loop :: "pci_state \<Rightarrow> dev_id \<Rightarrow> dev_id \<Rightarrow> int \<Rightarrow> (int \<times> dev_id) option" where
  "swizzle_loop s child parent pin =
     (let pin = c_rem (uint (PCI_SLOT (pci_devfn (path_of s child))) + pin) 4 in
      if 0 < b_secondary (bus_of s parent) then swizzle_loop s parent (b_dev (bus_of s parent)) pin
      else Some (pin, parent))"

definition swizzle_irq_pins :: "pci_state \<Rightarrow> dev_id \<Rightarrow> (int \<times> dev_id) option" where
  "swizzle_irq_pins s d = map_option (\<lambda>(pin, parent). (pin + 1, parent))
     (swizzle_loop s d (b_dev (bus_of s d)) (uint (pci_read_config8 s d PCI_INTERRUPT_PIN) - 1))"

text \<open>The second result is what \<^verbatim>\<open>*parent_bdg\<close> was set to, if it was.\<close>

definition get_irq_pins :: "pci_state \<Rightarrow> dev_id \<Rightarrow> (int \<times> dev_id option) option" where
  "get_irq_pins s d =
     (if \<not> (d_enabled (devs s d) \<and> p_type (path_of s d) = DEVICE_PATH_PCI) then Some (- 1, None)
      else
        let int_pin = uint (pci_read_config8 s d PCI_INTERRUPT_PIN) in
        if int_pin < 1 \<or> int_pin > 4 then Some (- 1, None)
        else if b_secondary (bus_of s d) \<noteq> 0 then map_option (\<lambda>(pin, parent). (pin, Some parent)) (swizzle_irq_pins s d)
        else Some (int_pin, Some d))"

definition i8259_configure_irq_trigger :: "u32 \<Rightarrow> bool \<Rightarrow> u16 \<Rightarrow> u16" where
  "i8259_configure_irq_trigger int_num level bits =
     (let m = ucast (push_bit (unat int_num mod 32) (1 :: u32)) in if level then bits OR m else bits AND NOT m)"

definition assign_irq :: "u32 \<Rightarrow> u32 \<Rightarrow> u8 list \<Rightarrow> nat \<Rightarrow> pci_state \<Rightarrow> pci_state" where
  "assign_irq bus slot int_a_to_d funct s =
     (case dev_find_slot s bus (push_bit 3 slot + of_nat funct) of
        None \<Rightarrow> s
      | Some d \<Rightarrow>
          let line = pci_read_config8 s d PCI_INTERRUPT_PIN in
          if line < 1 \<or> line > 4 then s
          else
            let irq = int_a_to_d ! unat (line - 1); s = pci_write_config8 d PCI_INTERRUPT_LINE irq s
            in s\<lparr>ps_elcr := i8259_configure_irq_trigger (ucast irq) True (ps_elcr s)\<rparr>)"

definition pci_assign_irqs :: "u32 \<Rightarrow> u32 \<Rightarrow> u8 list \<Rightarrow> pci_state \<Rightarrow> pci_state" where
  "pci_assign_irqs bus slot int_a_to_d = fold (assign_irq bus slot int_a_to_d) [0..<8]"

section \<open>The port accesses reach the register that is asked for\<close>

definition reaches :: "pci_hw \<Rightarrow> nat \<Rightarrow> nat \<Rightarrow> nat option" where
  "reaches hw bus devfn = hw_route hw (bus_numbers hw) bus devfn"

lemma config_cmd_low:
  assumes "reg < 0x100"
  shows "config_cmd bus devfn reg = 0x80000000 OR push_bit 16 bus OR push_bit 8 devfn OR (reg AND NOT 3)"
proof -
  have b: "bit reg k \<Longrightarrow> k < 8" for k using bit_small [of reg 8 k] assms by (fastforce simp: word_less_nat_alt)
  have m: "(0xff :: u32) = mask 8" "(0xf00 :: u32) = push_bit 8 (mask 4)" by (simp_all add: mask_eq_exp_minus_1 push_bit_eq_mult)
  have "reg AND 0xff = reg" "reg AND 0xf00 = 0" unfolding m by (auto intro!: bit_word_eqI simp: bit_simps) (use b in fastforce)+
  then show ?thesis unfolding config_cmd_def by (simp only:) simp
qed

lemma config_cmd_fields:
  assumes "bus < 0x100" and "devfn < 0x100" and "reg < 0x100"
  shows "bit (config_cmd bus devfn reg) 31" "drop_bit 16 (config_cmd bus devfn reg) AND 0xff = bus"
    "drop_bit 8 (config_cmd bus devfn reg) AND 0xff = devfn" "config_cmd bus devfn reg AND 0xfc = reg AND NOT 3"
    "drop_bit 24 (config_cmd bus devfn reg) AND 0xf = 0"
proof -
  have small: "8 \<le> k \<Longrightarrow> \<not> bit x k" if "x < 0x100" for x :: u32 and k
    using bit_small [of x 8 k] that by (simp add: word_less_nat_alt)
  have low: "bit x k \<Longrightarrow> k < 8" if "x < 0x100" for x :: u32 and k
    using small [OF that, of k] by fastforce
  define t :: u32 where "t = push_bit 31 1"
  have bt: "bit t k \<longleftrightarrow> k = 31" for k unfolding t_def bit_push_bit_iff by (auto simp: bit_1_iff)
  have top: "(0x80000000 :: u32) = t" by (simp add: t_def)
  have ff: "(0xff :: u32) = mask 8" and fc: "(0xfc :: u32) = mask 8 AND NOT (mask 2)" and three: "(3 :: u32) = mask 2"
    by (simp_all add: mask_eq_exp_minus_1)
  note sm = small [OF assms(1)] small [OF assms(2)] small [OF assms(3)]
  note lo = low [OF assms(1)] low [OF assms(2)] low [OF assms(3)]
  show "bit (config_cmd bus devfn reg) 31" unfolding config_cmd_low [OF assms(3)] top by (simp add: bit_simps bt)
  show "drop_bit 16 (config_cmd bus devfn reg) AND 0xff = bus"
    unfolding config_cmd_low [OF assms(3)] top ff three by (rule bit_word_eqI) (use sm in \<open>auto simp: bit_simps bt not_less dest: lo\<close>)
  show "drop_bit 8 (config_cmd bus devfn reg) AND 0xff = devfn"
    unfolding config_cmd_low [OF assms(3)] top ff three by (rule bit_word_eqI) (use sm in \<open>auto simp: bit_simps bt not_less dest: lo\<close>)
  show "config_cmd bus devfn reg AND 0xfc = reg AND NOT 3"
    unfolding config_cmd_low [OF assms(3)] top fc three by (rule bit_word_eqI) (use sm in \<open>auto simp: bit_simps bt not_less dest: lo\<close>)
  have nib: "(0xf :: u32) = mask 4" by (simp add: mask_eq_exp_minus_1)
  show "drop_bit 24 (config_cmd bus devfn reg) AND 0xf = 0"
    unfolding config_cmd_low [OF assms(3)] top nib three by (rule bit_word_eqI) (use sm in \<open>auto simp: bit_simps bt not_less dest: lo\<close>)
qed

lemma conf_target_reaches:
  assumes "bus < 0x100" and "devfn < 0x100" and "reg < 0x100"
  shows "conf_target hw (config_cmd bus devfn reg) = reaches hw (unat bus) (unat devfn)"
  using config_cmd_fields [OF assms] by (simp add: conf_target_def reaches_def)

lemma conf_reg_eq:
  assumes "bus < 0x100" and "devfn < 0x100" and "reg < 0x100" and "off < 4"
  shows "conf_reg (config_cmd bus devfn reg) (0xCFC + off) = unat (reg AND NOT 3) + unat off"
  using config_cmd_fields(4,5) [OF assms(1-3)] by (simp add: conf_reg_def)

lemma reg_split: "unat (reg AND NOT 3 :: u32) + unat (reg AND 3) = unat reg"
proof -
  have "(3 :: u32) = mask 2" by (simp add: mask_eq_exp_minus_1)
  then show ?thesis by (simp only: unat_and_not_mask unat_and_mask) simp
qed

lemma reg_even: "2 dvd unat reg \<Longrightarrow> reg AND 2 = reg AND (3 :: u32)"
proof -
  assume "2 dvd unat reg"
  then have "\<not> bit reg 0" by (simp add: bit_unat_iff)
  then have "reg AND 1 = 0" by (simp add: bit_0 and_one_eq even_iff_mod_2_eq_zero)
  moreover have "(3 :: u32) = 2 OR 1" by simp
  ultimately show ?thesis by (simp only: bit.conj_disj_distrib) simp
qed

lemma reg_aligned: "4 dvd unat reg \<Longrightarrow> reg AND NOT 3 = (reg :: u32)"
proof -
  assume "4 dvd unat reg"
  then have "reg AND NOT (mask 2) = reg" by (simp add: word_unat_eq_iff unat_and_not_mask)
  then show ?thesis by (simp add: mask_eq_exp_minus_1)
qed

lemma conf1_registers:
  assumes "bus < 0x100" and "devfn < 0x100" and "reg < 0x100"
  shows "conf_reg (config_cmd bus devfn reg) (0xCFC + (reg AND 3)) = unat reg"
    and "2 dvd unat reg \<Longrightarrow> conf_reg (config_cmd bus devfn reg) (0xCFC + (reg AND 2)) = unat reg"
    and "4 dvd unat reg \<Longrightarrow> conf_reg (config_cmd bus devfn reg) 0xCFC = unat reg"
proof -
  have "reg AND 3 < 4" by (rule le_less_trans [OF word_and_le1]) simp
  then show b: "conf_reg (config_cmd bus devfn reg) (0xCFC + (reg AND 3)) = unat reg"
    by (simp only: conf_reg_eq [OF assms] reg_split)
  then show "2 dvd unat reg \<Longrightarrow> conf_reg (config_cmd bus devfn reg) (0xCFC + (reg AND 2)) = unat reg"
    by (simp only: reg_even)
  show "4 dvd unat reg \<Longrightarrow> conf_reg (config_cmd bus devfn reg) 0xCFC = unat reg"
    using conf_reg_eq [OF assms, of 0] reg_aligned [of reg] by simp
qed

lemma conf1_read32_reaches:
  assumes "bus < 0x100" and "devfn < 0x100" and "reg < 0x100" and "4 dvd unat reg"
  shows "pci_conf1_read_config32 hw bus devfn reg =
      (case reaches hw (unat bus) (unat devfn) of None \<Rightarrow> 0xffffffff | Some i \<Rightarrow> cfg_read32 (hw_fn hw i) (unat reg))"
  by (simp add: pci_conf1_read_config32_def conf_read_def conf_target_reaches conf1_registers assms split: option.split)

lemma conf1_read8_reaches:
  assumes "bus < 0x100" and "devfn < 0x100" and "reg < 0x100"
  shows "pci_conf1_read_config8 hw bus devfn reg =
      (case reaches hw (unat bus) (unat devfn) of None \<Rightarrow> 0xff | Some i \<Rightarrow> cfg_read8 (hw_fn hw i) (unat reg))"
  by (simp add: pci_conf1_read_config8_def conf_read_def conf_target_reaches conf1_registers assms split: option.split)

lemma conf1_read16_reaches:
  assumes "bus < 0x100" and "devfn < 0x100" and "reg < 0x100" and "2 dvd unat reg"
  shows "pci_conf1_read_config16 hw bus devfn reg =
      (case reaches hw (unat bus) (unat devfn) of None \<Rightarrow> 0xffff | Some i \<Rightarrow> cfg_read16 (hw_fn hw i) (unat reg))"
  by (simp add: pci_conf1_read_config16_def conf_read_def conf_target_reaches conf1_registers assms split: option.split)

lemma conf1_write32_reaches:
  assumes "bus < 0x100" and "devfn < 0x100" and "reg < 0x100" and "4 dvd unat reg"
  shows "pci_conf1_write_config32 bus devfn reg v hw = (case reaches hw (unat bus) (unat devfn) of None \<Rightarrow> hw
       | Some i \<Rightarrow> hw\<lparr>hw_fn := (hw_fn hw)(i := cfg_write32 (unat reg) v (hw_fn hw i))\<rparr>)"
  by (simp add: pci_conf1_write_config32_def conf_write_def conf_target_reaches conf1_registers assms split: option.split)

lemma conf1_write16_reaches:
  assumes "bus < 0x100" and "devfn < 0x100" and "reg < 0x100" and "2 dvd unat reg"
  shows "pci_conf1_write_config16 bus devfn reg v hw = (case reaches hw (unat bus) (unat devfn) of None \<Rightarrow> hw
       | Some i \<Rightarrow> hw\<lparr>hw_fn := (hw_fn hw)(i := cfg_write16 (unat reg) v (hw_fn hw i))\<rparr>)"
  by (simp add: pci_conf1_write_config16_def conf_write_def conf_target_reaches conf1_registers assms split: option.split)

text \<open>
  The port sequence of \<^verbatim>\<open>pci_ops_conf1.c\<close> is an access to the register itself: on buses and
  devices below 256 and registers below 256, aligned to their width, a read returns what the
  function that answers at that bus and device number holds in the register, all ones when
  none answers, and a write changes that register of that function and nothing else.
\<close>
lemma conf1_reaches_register:
  assumes "bus < 0x100" and "devfn < 0x100" and "reg < 0x100"
  shows "pci_conf1_read_config8 hw bus devfn reg =
      (case reaches hw (unat bus) (unat devfn) of None \<Rightarrow> 0xff | Some i \<Rightarrow> cfg_read8 (hw_fn hw i) (unat reg))
    \<and> (2 dvd unat reg \<longrightarrow> pci_conf1_read_config16 hw bus devfn reg =
      (case reaches hw (unat bus) (unat devfn) of None \<Rightarrow> 0xffff | Some i \<Rightarrow> cfg_read16 (hw_fn hw i) (unat reg)))
    \<and> (4 dvd unat reg \<longrightarrow> pci_conf1_read_config32 hw bus devfn reg =
      (case reaches hw (unat bus) (unat devfn) of None \<Rightarrow> 0xffffffff | Some i \<Rightarrow> cfg_read32 (hw_fn hw i) (unat reg)))
    \<and> pci_conf1_write_config8 bus devfn reg v8 hw =
      (case reaches hw (unat bus) (unat devfn) of None \<Rightarrow> hw
       | Some i \<Rightarrow> hw\<lparr>hw_fn := (hw_fn hw)(i := cfg_write8 (unat reg) v8 (hw_fn hw i))\<rparr>)
    \<and> (2 dvd unat reg \<longrightarrow> pci_conf1_write_config16 bus devfn reg v16 hw =
      (case reaches hw (unat bus) (unat devfn) of None \<Rightarrow> hw
       | Some i \<Rightarrow> hw\<lparr>hw_fn := (hw_fn hw)(i := cfg_write16 (unat reg) v16 (hw_fn hw i))\<rparr>))
    \<and> (4 dvd unat reg \<longrightarrow> pci_conf1_write_config32 bus devfn reg v32 hw =
      (case reaches hw (unat bus) (unat devfn) of None \<Rightarrow> hw
       | Some i \<Rightarrow> hw\<lparr>hw_fn := (hw_fn hw)(i := cfg_write32 (unat reg) v32 (hw_fn hw i))\<rparr>))"
  using conf1_read8_reaches [OF assms] conf1_read16_reaches [OF assms] conf1_read32_reaches [OF assms]
    conf1_write16_reaches [OF assms] conf1_write32_reaches [OF assms]
  by (simp add: pci_conf1_write_config8_def conf_write_def conf_target_reaches conf1_registers assms split: option.split)

lemma conf1_reaches_register_witness:
  "pci_conf1_read_config8 \<lparr>hw_fn = (\<lambda>i. example_bridge), hw_route = (\<lambda>nr bus devfn. if bus = 2 \<and> devfn = 8 then Some 5 else None)\<rparr> 2 8 0x24 = 1
   \<and> pci_conf1_read_config8 \<lparr>hw_fn = (\<lambda>i. example_bridge), hw_route = (\<lambda>nr bus devfn. if bus = 2 \<and> devfn = 8 then Some 5 else None)\<rparr> 2 9 0x24 = 0xff"
  using conf1_reaches_register [where bus = 2 and devfn = 8 and reg = "0x24" and hw = "\<lparr>hw_fn = (\<lambda>i. example_bridge), hw_route = (\<lambda>nr bus devfn. if bus = 2 \<and> devfn = 8 then Some 5 else None)\<rparr>"]
    conf1_reaches_register [where bus = 2 and devfn = 9 and reg = "0x24" and hw = "\<lparr>hw_fn = (\<lambda>i. example_bridge), hw_route = (\<lambda>nr bus devfn. if bus = 2 \<and> devfn = 8 then Some 5 else None)\<rparr>"]
  by (simp add: reaches_def example_bridge_def masked_function_def cfg_read8_def bytes_at_def)

text \<open>A bus number of 256 or more runs into the bits above the bus number: bus 256 is bus 0, from register 256 on.\<close>

lemma bus_256_is_bus_0:
  assumes "devfn < 0x100"
  shows "pci_conf1_read_config32 hw 0x100 devfn 0 = pci_conf1_read_config32 hw 0 devfn 0x100"
  by (simp add: pci_conf1_read_config32_def config_cmd_def ac_simps)

end
