(* ===== verification/Pcitree.thy ===== *)
theory Pcitree
  imports Pciscan
begin

text \<open>
  What enumeration achieves on a PCI hierarchy: the device tree that \<^verbatim>\<open>pci_scan_bus\<close> builds mirrors
  the hardware, and every function is reached at the address the tree gives it.  The wiring is
  a tree of functions and bridges, and a bridge forwards the accesses to the buses between its
  secondary and its subordinate bus number, as the PCI-to-PCI bridge specification says.
\<close>

section \<open>Hierarchies of functions\<close>

text \<open>A function or a bridge has a number and a device number; behind a bridge is a bus.\<close>

datatype slot = Leaf nat nat | Bridge nat nat "slot list"

fun slot_fn :: "slot \<Rightarrow> nat" where
  "slot_fn (Leaf i v) = i" | "slot_fn (Bridge i v bs) = i"

fun slot_devfn :: "slot \<Rightarrow> nat" where
  "slot_devfn (Leaf i v) = v" | "slot_devfn (Bridge i v bs) = v"

fun slot_fns :: "slot \<Rightarrow> nat list" where
  "slot_fns (Leaf i v) = [i]" | "slot_fns (Bridge i v bs) = i # concat (map slot_fns bs)"

fun slot_bridges :: "slot \<Rightarrow> nat" where
  "slot_bridges (Leaf i v) = 0" | "slot_bridges (Bridge i v bs) = Suc (sum_list (map slot_bridges bs))"

abbreviation bus_fns :: "slot list \<Rightarrow> nat list" where "bus_fns ss \<equiv> concat (map slot_fns ss)"
abbreviation bus_bridges :: "slot list \<Rightarrow> nat" where "bus_bridges ss \<equiv> sum_list (map slot_bridges ss)"

text \<open>The hierarchy has at most \<open>n\<close> bridges on a path.\<close>

fun slot_depth :: "slot \<Rightarrow> nat" where
  "slot_depth (Leaf i v) = 0" | "slot_depth (Bridge i v bs) = Suc (foldr max (map slot_depth bs) 0)"

abbreviation bus_depth :: "slot list \<Rightarrow> nat" where "bus_depth ss \<equiv> foldr max (map slot_depth ss) 0"

text \<open>The bus number register of a bridge: primary, secondary and subordinate bus.\<close>

definition primary_of :: "u32 \<Rightarrow> nat" where "primary_of nr = unat (byte_of 0 nr)"
definition secondary_of :: "u32 \<Rightarrow> nat" where "secondary_of nr = unat (byte_of 1 nr)"
definition subordinate_of :: "u32 \<Rightarrow> nat" where "subordinate_of nr = unat (byte_of 2 nr)"

text \<open>
  Where an access ends that has reached a bus: \<open>here\<close> says that it is for this bus, otherwise a
  bridge on it takes it further.
\<close>

fun route_slots :: "(nat \<Rightarrow> u32) \<Rightarrow> bool \<Rightarrow> nat \<Rightarrow> nat \<Rightarrow> slot list \<Rightarrow> nat option" where
  "route_slots nums here bus devfn [] = None"
| "route_slots nums here bus devfn (Leaf i v # rest) =
     (if here \<and> v = devfn then Some i else route_slots nums here bus devfn rest)"
| "route_slots nums here bus devfn (Bridge i v bs # rest) =
     (if here then (if v = devfn then Some i else route_slots nums here bus devfn rest)
      else if secondary_of (nums i) \<le> bus \<and> bus \<le> subordinate_of (nums i)
        then route_slots nums (bus = secondary_of (nums i)) bus devfn bs
        else route_slots nums here bus devfn rest)"

text \<open>The root bus has number zero.\<close>

definition wired_as :: "pci_hw \<Rightarrow> slot list \<Rightarrow> bool" where
  "wired_as hw root \<longleftrightarrow> hw_route hw = (\<lambda>nums bus devfn. route_slots nums (bus = 0) bus devfn root)"

text \<open>
  What a device becomes when its function has answered: it gets the function's identifiers, header type and
  class, and the operations it does not have yet, those of the first driver that claims the function
  or else those the file knows for the kind of function (\<open>None\<close> where the search for HyperTransport
  capabilities does not end).
\<close>

definition answered :: "pci_function \<Rightarrow> device \<Rightarrow> device" where
  "answered f x = x\<lparr>
     d_vendor := cfg_read32 f PCI_VENDOR_ID AND 0xffff, d_device := drop_bit 16 (cfg_read32 f PCI_VENDOR_ID) AND 0xffff,
     d_hdr_type := ucast (cfg_read8 f PCI_HEADER_TYPE), d_class := drop_bit 8 (cfg_read32 f PCI_CLASS_REVISION),
     d_command := (if drop_bit 24 (cfg_read32 f PCI_CLASS_REVISION) = 8 then d_command x OR PCI_COMMAND_MASTER else d_command x)\<rparr>"

definition claims :: "pci_function \<Rightarrow> pci_driver \<Rightarrow> bool" where
  "claims f drv \<longleftrightarrow> ucast (drv_vendor drv) = cfg_read32 f PCI_VENDOR_ID AND 0xffff
     \<and> device_id_match drv (ucast (drop_bit 16 (cfg_read32 f PCI_VENDOR_ID) AND 0xffff))"

definition chosen_ops :: "pci_env \<Rightarrow> pci_function \<Rightarrow> device \<Rightarrow> device_operations option option" where
  "chosen_ops env f x =
     (if d_ops x \<noteq> None then Some (d_ops x)
      else case find (claims f) (env_drivers env) of Some drv \<Rightarrow> Some (Some (drv_ops drv)) | None \<Rightarrow> default_ops env f (answered f x))"

definition identified :: "pci_env \<Rightarrow> pci_function \<Rightarrow> device \<Rightarrow> device" where
  "identified env f x = (answered f x)\<lparr>d_ops := the (chosen_ops env f x)\<rparr>"

text \<open>
  The functions of drivers and chips that a scan calls may do what they like to other parts of the machine, but
  leave the PCI devices of the tree, the buses, the heap and the configuration registers alone.
\<close>

abbreviation is_pci :: "pci_state \<Rightarrow> dev_id \<Rightarrow> bool" where "is_pci s d \<equiv> p_type (path_of s d) = DEVICE_PATH_PCI"

definition same_pci :: "pci_state \<Rightarrow> pci_state \<Rightarrow> bool" where
  "same_pci s s' \<longleftrightarrow> (\<forall>d. is_pci s' d = is_pci s d \<and> (is_pci s d \<longrightarrow> devs s' d = devs s d)) \<and> buses s' = buses s \<and> chips s' = chips s \<and> ps_hw s' = ps_hw s \<and> ps_pool s' = ps_pool s"

definition tame :: "pci_env \<Rightarrow> nat option \<Rightarrow> bool" where
  "tame env h \<longleftrightarrow> (case h of None \<Rightarrow> True | Some k \<Rightarrow> \<forall>d s. \<exists>s'. env_hook env k d s = Some s' \<and> same_pci s s')"

definition idle :: "pci_env \<Rightarrow> nat option \<Rightarrow> bool" where
  "idle env h \<longleftrightarrow> (case h of None \<Rightarrow> True | Some k \<Rightarrow> k \<noteq> PCI_SCAN_BRIDGE \<and> k \<noteq> PCIEXP_SCAN_BRIDGE
     \<and> (\<forall>d mx s. \<exists>s'. env_scan env k d mx s = Some (mx, s') \<and> same_pci s s'))"

text \<open>
  What a function must look like for the device \<open>x\<close> that waits for it: it has an identifier and gets
  operations; a bridge is on and is scanned as one, and nothing is behind any other device that is on.
  The bus number registers of a bridge can be written and are still clear.
\<close>

definition served :: "pci_env \<Rightarrow> bool \<Rightarrow> pci_function \<Rightarrow> device \<Rightarrow> bool" where
  "served env bridge f x \<longleftrightarrow> \<not> no_device (cfg_read32 f PCI_VENDOR_ID)
     \<and> (case chosen_ops env f x of None \<Rightarrow> False
        | Some ops \<Rightarrow> tame env (Option.bind ops op_enable)
            \<and> (if bridge then d_enabled x \<and> d_link_list x = [] \<and> Option.bind ops op_scan_bus \<in> {Some PCI_SCAN_BRIDGE, Some PCIEXP_SCAN_BRIDGE}
               else d_enabled x \<longrightarrow> idle env (Option.bind ops op_scan_bus)))"

definition numbers_clear :: "pci_function \<Rightarrow> bool" where
  "numbers_clear f \<longleftrightarrow> (\<forall>r \<in> {0x18, 0x19, 0x1a}. cfg_byte f r = 0 \<and> (\<forall>old v. cfg_wr f r old v = v))"

text \<open>Device numbers of a bus: ascending, and a function other than 0 only in a multi-function device.\<close>

definition bus_ok :: "(nat \<Rightarrow> pci_function) \<Rightarrow> slot list \<Rightarrow> bool" where
  "bus_ok fn ss \<longleftrightarrow> sorted_wrt (<) (map slot_devfn ss) \<and> (\<forall>x \<in> set ss. slot_devfn x < 0x100
     \<and> (slot_devfn x mod 8 \<noteq> 0 \<longrightarrow> (\<exists>z \<in> set ss. slot_devfn z = slot_devfn x div 8 * 8 \<and> cfg_read8 (fn (slot_fn z)) PCI_HEADER_TYPE AND 0x80 = 0x80)))"

definition slot_is_bridge :: "slot \<Rightarrow> bool" where
  "slot_is_bridge x \<longleftrightarrow> (case x of Leaf i v \<Rightarrow> False | Bridge i v bs \<Rightarrow> True)"

text \<open>A device that the scan adds, but for its place; behind a bridge all devices are such.\<close>

definition fresh :: device where "fresh = new_device 0 (pci_path 0)"

fun behind_ok :: "pci_env \<Rightarrow> (nat \<Rightarrow> pci_function) \<Rightarrow> slot \<Rightarrow> bool" where
  "behind_ok env fn (Leaf i v) \<longleftrightarrow> True"
| "behind_ok env fn (Bridge i v bs) \<longleftrightarrow> numbers_clear (fn i) \<and> bus_ok fn bs
     \<and> (\<forall>x \<in> set bs. served env (slot_is_bridge x) (fn (slot_fn x)) fresh \<and> behind_ok env fn x)"

lemma route_here:
  assumes "distinct (map slot_devfn ss)" and "x \<in> set ss"
  shows "route_slots nums True bus (slot_devfn x) ss = Some (slot_fn x)"
  using assms
proof (induction ss)
  case (Cons y ss)
  then show ?case by (cases y) (auto simp: image_iff)
qed simp

lemma route_here_none:
  assumes "\<forall>x \<in> set ss. slot_devfn x \<noteq> v"
  shows "route_slots nums True bus v ss = None"
  using assms
proof (induction ss)
  case (Cons y ss)
  then show ?case by (cases y) auto
qed simp

text \<open>Bridges whose range does not contain the bus are passed by.\<close>

lemma route_pass:
  assumes "\<forall>i v bs. Bridge i v bs \<in> set pre \<longrightarrow> \<not> (secondary_of (nums i) \<le> bus \<and> bus \<le> subordinate_of (nums i))"
  shows "route_slots nums False bus devfn (pre @ ss) = route_slots nums False bus devfn ss"
  using assms
proof (induction pre)
  case (Cons y pre)
  then show ?case by (cases y) auto
qed simp

text \<open>
  Accesses to the buses from \<open>nr\<close> up end up on the bus with the slots \<open>ss\<close>, whatever the bus
  numbers of the bridges behind it are.
\<close>

definition delegated :: "slot list \<Rightarrow> (nat \<Rightarrow> u32) \<Rightarrow> nat \<Rightarrow> slot list \<Rightarrow> bool" where
  "delegated root nums nr ss \<longleftrightarrow> (\<forall>nums' bus devfn. (\<forall>i. i \<notin> set (bus_fns ss) \<longrightarrow> nums' i = nums i) \<longrightarrow> nr \<le> bus \<longrightarrow> bus \<le> 0xff \<longrightarrow>
     route_slots nums' (bus = 0) bus devfn root = route_slots nums' (bus = nr) bus devfn ss)"

lemma delegatedD:
  "delegated root nums nr ss \<Longrightarrow> (\<And>i. i \<notin> set (bus_fns ss) \<Longrightarrow> nums' i = nums i) \<Longrightarrow> nr \<le> bus \<Longrightarrow> bus \<le> 0xff \<Longrightarrow>
     route_slots nums' (bus = 0) bus devfn root = route_slots nums' (bus = nr) bus devfn ss"
  by (simp add: delegated_def)

lemma delegated_root: "delegated root nums 0 root"
  by (simp add: delegated_def)

lemma delegated_cong:
  assumes "delegated root nums nr ss" and "\<And>i. i \<notin> set (bus_fns ss) \<Longrightarrow> nums' i = nums i"
  shows "delegated root nums' nr ss"
  using assms unfolding delegated_def by simp

text \<open>Opening a bridge: it gets all buses from its secondary one up, as the bridges before it end below and those after it are closed.\<close>

lemma delegated_bridge:
  assumes "delegated root nums nr (pre @ Bridge i v bs # post)" and "nr < m"
    and "\<forall>j w cs. Bridge j w cs \<in> set pre \<longrightarrow> subordinate_of (nums j) < m"
    and "secondary_of (nums i) = m" and "subordinate_of (nums i) = 0xff"
    and "set (bus_fns bs) \<inter> set (bus_fns pre) = {}" and "i \<notin> set (bus_fns bs)"
  shows "delegated root nums m bs"
  unfolding delegated_def
proof (intro allI impI)
  fix nums' bus devfn
  assume eq: "\<forall>j. j \<notin> set (bus_fns bs) \<longrightarrow> nums' j = nums j" and b: "m \<le> bus" "bus \<le> 0xff"
  have "route_slots nums' (bus = 0) bus devfn root = route_slots nums' (bus = nr) bus devfn (pre @ Bridge i v bs # post)"
    by (rule delegatedD [OF assms(1)]) (use assms(2) eq b in auto)
  also have "\<dots> = route_slots nums' False bus devfn (Bridge i v bs # post)"
  proof -
    have "\<not> (secondary_of (nums' j) \<le> bus \<and> bus \<le> subordinate_of (nums' j))" if j: "Bridge j w cs \<in> set pre" for j w cs
    proof -
      have "j \<in> set (bus_fns pre)" using j by force
      then have "nums' j = nums j" using eq assms(6) by blast
      then show ?thesis using assms(3) j b(1) by fastforce
    qed
    then show ?thesis using route_pass [of pre nums' bus devfn] assms(2) b(1) by simp
  qed
  also have "\<dots> = route_slots nums' (bus = m) bus devfn bs"
    using eq assms(4,5,7) b by simp
  finally show "route_slots nums' (bus = 0) bus devfn root = route_slots nums' (bus = m) bus devfn bs" .
qed

section \<open>Accesses to a device on a bus\<close>

definition upd_fn :: "nat \<Rightarrow> (pci_function \<Rightarrow> pci_function) \<Rightarrow> pci_state \<Rightarrow> pci_state" where
  "upd_fn i g s = s\<lparr>ps_hw := (ps_hw s)\<lparr>hw_fn := (hw_fn (ps_hw s))(i := g (hw_fn (ps_hw s) i))\<rparr>\<rparr>"

lemma upd_fn_fields [simp]:
  "devs (upd_fn i g s) = devs s" "buses (upd_fn i g s) = buses s" "ps_pool (upd_fn i g s) = ps_pool s"
  "hw_route (ps_hw (upd_fn i g s)) = hw_route (ps_hw s)"
  "hw_fn (ps_hw (upd_fn i g s)) = (hw_fn (ps_hw s))(i := g (hw_fn (ps_hw s) i))"
  by (simp_all add: upd_fn_def)

text \<open>The function that the address of a device reaches.\<close>

definition answers :: "pci_state \<Rightarrow> dev_id \<Rightarrow> nat \<Rightarrow> bool" where
  "answers s d i \<longleftrightarrow> bus_nr s d < 0x100 \<and> pci_devfn (path_of s d) < 0x100
     \<and> reaches (ps_hw s) (unat (bus_nr s d)) (unat (pci_devfn (path_of s d))) = Some i"

lemma small_reg:
  assumes "r < 0x100"
  shows "(of_nat r :: u32) < 0x100" "unat (of_nat r :: u32) = r"
proof -
  show "unat (of_nat r :: u32) = r" using assms by (simp add: unsigned_of_nat take_bit_nat_eq_self)
  then show "(of_nat r :: u32) < 0x100" using assms by (simp add: word_less_nat_alt)
qed

lemma answers_access:
  assumes "answers s d i" and "r < 0x100"
  shows "4 dvd r \<Longrightarrow> pci_read_config32 s d r = cfg_read32 (hw_fn (ps_hw s) i) r"
    and "2 dvd r \<Longrightarrow> pci_read_config16 s d r = cfg_read16 (hw_fn (ps_hw s) i) r"
    and "pci_read_config8 s d r = cfg_read8 (hw_fn (ps_hw s) i) r"
    and "4 dvd r \<Longrightarrow> pci_write_config32 d r v32 s = upd_fn i (cfg_write32 r v32) s"
    and "2 dvd r \<Longrightarrow> pci_write_config16 d r v16 s = upd_fn i (cfg_write16 r v16) s"
  using assms(1) small_reg [OF assms(2)]
  by (simp_all add: answers_def pci_read_config32_def pci_read_config16_def pci_read_config8_def pci_write_config32_def pci_write_config16_def
      conf1_read32_reaches conf1_read16_reaches conf1_read8_reaches conf1_write32_reaches conf1_write16_reaches upd_fn_def)

definition on_bus :: "slot list \<Rightarrow> pci_state \<Rightarrow> bus_id \<Rightarrow> nat \<Rightarrow> slot list \<Rightarrow> bool" where
  "on_bus root s b nr ss \<longleftrightarrow> wired_as (ps_hw s) root \<and> b_secondary (buses s b) = of_nat nr \<and> nr \<le> 0xff
     \<and> delegated root (bus_numbers (ps_hw s)) nr ss"

lemma small_bus:
  assumes "nr \<le> 0xff"
  shows "unat (of_nat nr :: u16) = nr" "unat (ucast (of_nat nr :: u16) :: u32) = nr" "(ucast (of_nat nr :: u16) :: u32) < 0x100"
proof -
  show u: "unat (of_nat nr :: u16) = nr" using assms by (simp add: unsigned_of_nat take_bit_nat_eq_self)
  then show "unat (ucast (of_nat nr :: u16) :: u32) = nr" using assms by (simp add: unat_ucast_mod)
  then show "(ucast (of_nat nr :: u16) :: u32) < 0x100" using assms by (simp add: word_less_nat_alt)
qed

lemma on_bus_reaches:
  assumes "on_bus root s b nr ss"
  shows "reaches (ps_hw s) nr v = route_slots (bus_numbers (ps_hw s)) True nr v ss"
  using assms delegatedD [of root "bus_numbers (ps_hw s)" nr ss "bus_numbers (ps_hw s)" nr v]
  by (simp add: on_bus_def reaches_def wired_as_def)

lemma bus_ok_distinct: "bus_ok fn ss \<Longrightarrow> distinct (map slot_devfn ss)"
  using strict_sorted_iff [of "map slot_devfn ss"] by (simp add: bus_ok_def)

lemma on_bus_answers:
  assumes "on_bus root s b nr ss" and "bus_ok fn ss" and "x \<in> set ss" and "d_bus (devs s d) = b"
    and "pci_devfn (path_of s d) = of_nat (slot_devfn x)"
  shows "answers s d (slot_fn x)"
proof -
  have nr: "b_secondary (buses s b) = of_nat nr" "nr \<le> 0xff" using assms(1) by (simp_all add: on_bus_def)
  have v: "slot_devfn x < 0x100" using assms(2,3) by (simp add: bus_ok_def)
  have "reaches (ps_hw s) nr (slot_devfn x) = Some (slot_fn x)"
    using on_bus_reaches [OF assms(1)] route_here [OF bus_ok_distinct [OF assms(2)] assms(3)] by simp
  then show ?thesis using nr v by (simp add: answers_def assms(4,5) small_bus small_reg pci_path_def)
qed

section \<open>Probing one device\<close>

lemma answers_dev_cfg:
  assumes "answers s d i"
  shows "dev_cfg s d = hw_fn (ps_hw s) i"
  using assms by (simp add: dev_cfg_def dev_target_def answers_def conf_target_reaches)

lemma same_pci_refl: "same_pci s s"
  by (simp add: same_pci_def)

lemma same_pci_trans: "same_pci s s' \<Longrightarrow> same_pci s' s'' \<Longrightarrow> same_pci s s''"
  by (simp add: same_pci_def)

lemma upd_dev_fields [simp]:
  "devs (upd_dev d g s) = (devs s)(d := g (devs s d))" "buses (upd_dev d g s) = buses s" "ps_hw (upd_dev d g s) = ps_hw s"
  "ps_pool (upd_dev d g s) = ps_pool s" "chips (upd_dev d g s) = chips s" for s :: pci_state
  by (simp_all add: upd_dev_def)

lemma same_pci_upd_dev:
  assumes "same_pci s s'" and "is_pci s d" and "p_type (d_path (g (devs s d))) = DEVICE_PATH_PCI"
  shows "same_pci (upd_dev d g s) (upd_dev d g s')"
  using assms by (simp add: same_pci_def)

lemma tame_hook:
  assumes "tame env h"
  obtains s' where "(case h of None \<Rightarrow> Some s | Some k \<Rightarrow> env_hook env k d s) = Some s'" "same_pci s s'"
proof (cases h)
  case None
  then show thesis using that [of s] same_pci_refl by simp
next
  case (Some k)
  then show thesis using assms that by (auto simp: tame_def)
qed

lemma answered_fields [simp]:
  "d_path (answered f x) = d_path x" "d_bus (answered f x) = d_bus x" "d_enabled (answered f x) = d_enabled x" "d_ops (answered f x) = d_ops x"
  "d_link_list (answered f x) = d_link_list x" "d_hdr_type (answered f x) = ucast (cfg_read8 f PCI_HEADER_TYPE)"
  "d_vendor (answered f x) = cfg_read32 f PCI_VENDOR_ID AND 0xffff" "d_device (answered f x) = drop_bit 16 (cfg_read32 f PCI_VENDOR_ID) AND 0xffff"
  "d_class (answered f x) = drop_bit 8 (cfg_read32 f PCI_CLASS_REVISION)"
  by (simp_all add: answered_def)

lemma identified_fields [simp]:
  "d_path (identified env f x) = d_path x" "d_bus (identified env f x) = d_bus x" "d_enabled (identified env f x) = d_enabled x"
  "d_link_list (identified env f x) = d_link_list x" "d_hdr_type (identified env f x) = ucast (cfg_read8 f PCI_HEADER_TYPE)"
  "d_ops (identified env f x) = the (chosen_ops env f x)"
  by (simp_all add: identified_def)

lemma default_ops_cong:
  "d_hdr_type x = d_hdr_type y \<Longrightarrow> d_class x = d_class y \<Longrightarrow> default_ops env f x = default_ops env f y"
  by (simp add: default_ops_def Let_def)

lemma new_device_fields [simp]:
  "d_path (new_device b p) = p" "d_bus (new_device b p) = b" "d_enabled (new_device b p)" "d_ops (new_device b p) = None" "d_link_list (new_device b p) = []"
  by (simp_all add: new_device_def)

lemma fresh_fields [simp]: "d_enabled fresh" "d_ops fresh = None" "d_link_list fresh = []"
  by (simp_all add: fresh_def)

lemma chosen_ops_new: "chosen_ops env f (new_device b p) = chosen_ops env f fresh"
proof -
  have "default_ops env f (answered f (new_device b p)) = default_ops env f (answered f fresh)" by (rule default_ops_cong) simp_all
  then show ?thesis by (simp add: chosen_ops_def split: option.split)
qed

lemma served_new: "served env bridge f (new_device b p) = served env bridge f fresh"
  unfolding served_def chosen_ops_new by (simp cong: option.case_cong)

text \<open>Reading a device that answers: it becomes what it should.\<close>

lemma set_pci_ops_answered:
  assumes "answers s d i" and "f = hw_fn (ps_hw s) i" and "devs s d = answered f x" and "chosen_ops env f x = Some ops"
  shows "set_pci_ops env d s = Some (upd_dev d (\<lambda>_. identified env f x) s)"
proof -
  have dev: "devs s d = answered f x" by (rule assms(3))
  have cl: "find (\<lambda>drv. ucast (drv_vendor drv) = d_vendor (devs s d) \<and> device_id_match drv (ucast (d_device (devs s d)))) (env_drivers env)
      = find (claims f) (env_drivers env)" by (simp add: dev claims_def [abs_def])
  have cfg: "dev_cfg s d = f" using answers_dev_cfg [OF assms(1)] assms(2) by simp
  have new: "upd_dev d (\<lambda>y. y\<lparr>d_ops := ops\<rparr>) s = upd_dev d (\<lambda>_. identified env f x) s"
    using assms(4) by (simp add: upd_dev_def dev identified_def)
  consider "d_ops x \<noteq> None" | drv where "d_ops x = None" "find (claims f) (env_drivers env) = Some drv"
    | "d_ops x = None" "find (claims f) (env_drivers env) = None" by (cases "find (claims f) (env_drivers env)") auto
  then show ?thesis
  proof cases
    case 1
    then have "identified env f x = devs s d" by (simp add: dev identified_def chosen_ops_def answered_def)
    moreover have "upd_dev d (\<lambda>_. devs s d) s = s" by (simp add: upd_dev_def fun_upd_idem)
    ultimately show ?thesis using 1 by (simp add: set_pci_ops_def dev)
  next
    case 2
    then have "ops = Some (drv_ops drv)" using assms(4) by (simp add: chosen_ops_def)
    then show ?thesis using 2 new unfolding set_pci_ops_def Let_def cl by (simp add: dev)
  next
    case 3
    then have "default_ops env f (answered f x) = Some ops" using assms(4) by (simp add: chosen_ops_def)
    then show ?thesis using 3 new unfolding set_pci_ops_def Let_def cl cfg by (simp add: dev)
  qed
qed

lemma identify_answers:
  assumes ans: "answers s d i" and f: "f = hw_fn (ps_hw s) i" and ops: "chosen_ops env f (devs s d) = Some ops" "tame env (Option.bind ops op_enable)"
  obtains s' where "identify env (cfg_read32 f PCI_VENDOR_ID) d s = Some s'" "same_pci (upd_dev d (identified env f) s) s'"
proof -
  let ?x = "devs s d"
  let ?s = "upd_dev d (answered f) s" and ?t = "upd_dev d (identified env f) s"
  have rd: "pci_read_config8 s d 0xe = cfg_read8 f 0xe" "pci_read_config32 s d 8 = cfg_read32 f 8" using answers_access [OF ans] f by simp_all
  have id1: "upd_dev d (\<lambda>x. x\<lparr>d_vendor := cfg_read32 f 0 AND 0xffff, d_device := drop_bit 16 (cfg_read32 f 0) AND 0xffff, d_hdr_type := ucast (cfg_read8 f 0xe),
      d_class := drop_bit 8 (cfg_read32 f 8),
      d_command := if drop_bit 16 (drop_bit 8 (cfg_read32 f 8)) = 0x08 then d_command x OR PCI_COMMAND_MASTER else d_command x\<rparr>) s = ?s"
    by (simp add: answered_def [abs_def])
  have "answers ?s d i" using ans by (simp add: answers_def)
  then have "set_pci_ops env d ?s = Some (upd_dev d (\<lambda>_. identified env f ?x) ?s)"
    using f by (intro set_pci_ops_answered [OF _ _ _ ops(1)]) simp_all
  then have set: "set_pci_ops env d ?s = Some ?t" by (simp add: upd_dev_def)
  have "dev_op ?t d op_enable = Option.bind ops op_enable" by (simp add: dev_op_def ops(1))
  moreover obtain s' where "(case Option.bind ops op_enable of None \<Rightarrow> Some ?t | Some k \<Rightarrow> env_hook env k d ?t) = Some s'" "same_pci ?t s'"
    by (rule tame_hook [OF ops(2)])
  ultimately show thesis
    by (intro that [where s' = s']) (simp_all only: identify_def rd Let_def id1 set Option.bind.simps)
qed
text \<open>A device that sits at a device number of a bus.\<close>

definition sits :: "bus_id \<Rightarrow> nat \<Rightarrow> device \<Rightarrow> bool" where
  "sits b v x \<longleftrightarrow> d_bus x = b \<and> p_type (d_path x) = DEVICE_PATH_PCI \<and> pci_devfn (d_path x) = of_nat v"

lemma sits_new [simp]: "sits b v (new_device b (pci_path (of_nat v)))"
  by (simp add: sits_def pci_path_def)

lemma sits_identified [simp]: "sits b v (identified env f x) = sits b v x"
  by (simp add: sits_def)

lemma sits_link [simp]: "sits b v (x\<lparr>d_link_list := ls\<rparr>) = sits b v x" "sits b v (x\<lparr>d_enabled := e\<rparr>) = sits b v x"
  by (simp_all add: sits_def)

text \<open>The heap still has \<open>c\<close> bytes for structures of the two sizes.\<close>

abbreviation frontier :: "pci_state \<Rightarrow> nat" where "frontier s \<equiv> unat (free_mem_ptr (heap_of s))"

definition room :: "pci_env \<Rightarrow> nat \<Rightarrow> pci_state \<Rightarrow> bool" where
  "room env c s \<longleftrightarrow> malloc_ok (env_sizeof_device env) (heap_of s) \<and> malloc_ok (env_sizeof_bus env) (heap_of s)
     \<and> 0 < env_sizeof_device env \<and> 0 < env_sizeof_bus env \<and> frontier s + c < unat (free_mem_end_ptr (heap_of s))"

lemma malloc_room:
  assumes "malloc_ok sz h" and "unat (free_mem_ptr h) + (unat sz + 8) + c < unat (free_mem_end_ptr h)"
  obtains p h' where "malloc sz h = Some (p, h')" "unat (free_mem_ptr h) \<le> unat p" "unat (free_mem_ptr h') = unat p + unat sz"
    "free_mem_end_ptr h' = free_mem_end_ptr h" "unat (free_mem_ptr h') + c < unat (free_mem_end_ptr h')" "\<forall>z. malloc_ok z h \<longrightarrow> malloc_ok z h'"
proof -
  let ?p = "ALIGN_UP (free_mem_ptr h) 8"
  have room: "unat (free_mem_end_ptr h) + 8 + unat sz \<le> 2 ^ 32" using assms(1) by (simp add: malloc_ok_def)
  have p: "unat ?p = (unat (free_mem_ptr h) + 7) div 8 * 8"
    using unat_ALIGN_UP_no_wrap [of 3 "free_mem_ptr h"] assms(2) room by simp
  then have b: "unat (free_mem_ptr h) \<le> unat ?p" "unat ?p < unat (free_mem_ptr h) + 8" by presburger+
  have "unat ?p + unat sz < 2 ^ LENGTH(32)" using b assms(2) room by simp
  then have u: "unat (?p + sz) = unat ?p + unat sz" by (rule unat_add_no_wrap)
  then have lt: "?p + sz < free_mem_end_ptr h" using b assms(2) by (simp add: word_less_nat_alt)
  then have m: "malloc sz h = Some (?p, h\<lparr>free_mem_ptr := ?p + sz\<rparr>)" by (simp add: malloc_def memalign_def Let_def not_le)
  show thesis
    by (rule that [OF m]) (use b u assms(2) lt in \<open>auto simp: malloc_ok_def less_imp_le\<close>)
qed


text \<open>What a probe adds to the state: a device at the end of the bus.\<close>

definition adds_device :: "bus_id \<Rightarrow> dev_id \<Rightarrow> device \<Rightarrow> pci_state \<Rightarrow> pci_state \<Rightarrow> bool" where
  "adds_device b d x s s' \<longleftrightarrow> devs s' d = x \<and> (\<forall>e. e \<noteq> d \<longrightarrow> is_pci s' e = is_pci s e \<and> (is_pci s e \<longrightarrow> devs s' e = devs s e))
     \<and> buses s' = (buses s)(b := (buses s b)\<lparr>b_children := b_children (buses s b) @ [d]\<rparr>)
     \<and> chips s' = chips s \<and> ps_hw s' = ps_hw s \<and> frontier s \<le> frontier s' \<and> d < frontier s'"

lemma adds_device_same:
  assumes "adds_device b d x s t" and "p_type (d_path x) = DEVICE_PATH_PCI" and "same_pci t s'"
  shows "adds_device b d x s s'"
  using assms by (auto simp: adds_device_def same_pci_def)

lemma served_chosen:
  assumes "served env bridge f x"
  obtains ops where "chosen_ops env f x = Some ops" "tame env (Option.bind ops op_enable)" "\<not> no_device (cfg_read32 f PCI_VENDOR_ID)"
  using assms that by (cases "chosen_ops env f x") (simp_all add: served_def)

lemma room_same: "same_pci s s' \<Longrightarrow> room env c s' = room env c s" "same_pci s s' \<Longrightarrow> frontier s' = frontier s"
  by (simp_all add: same_pci_def room_def)

text \<open>A function for which no static device waits.\<close>

lemma pci_probe_dev_present:
  assumes bus: "on_bus root s b nr ss" and ok: "bus_ok fn ss" and x: "x \<in> set ss"
    and like: "served env bridge (hw_fn (ps_hw s) (slot_fn x)) fresh" and room: "room env (unat (env_sizeof_device env) + 8 + c) s"
  obtains d s' where "pci_probe_dev env None b (of_nat (slot_devfn x)) s = Some (Some d, s')" "frontier s \<le> d"
    "adds_device b d (identified env (hw_fn (ps_hw s) (slot_fn x)) (new_device b (pci_path (of_nat (slot_devfn x))))) s s'" "room env c s'"
proof -
  let ?i = "slot_fn x" and ?v = "slot_devfn x"
  let ?f = "hw_fn (ps_hw s) ?i" and ?new = "new_device b (pci_path (of_nat (slot_devfn x)))"
  have v: "?v < 0x100" using ok x by (simp add: bus_ok_def)
  have nr: "b_secondary (buses s b) = of_nat nr" "nr \<le> 0xff" using bus by (simp_all add: on_bus_def)
  have rc: "reaches (ps_hw s) nr ?v = Some ?i" using on_bus_reaches [OF bus] route_here [OF bus_ok_distinct [OF ok] x] by simp
  have id': "pci_conf1_read_config32 (ps_hw s) (ucast (b_secondary (buses s b))) (of_nat ?v) 0 = cfg_read32 ?f 0"
    using nr v rc by (simp add: conf1_read32_reaches small_bus small_reg)
  have "served env bridge ?f ?new" using like by (simp add: served_new)
  then obtain ops where ops: "chosen_ops env ?f ?new = Some ops" "tame env (Option.bind ops op_enable)" and nd: "\<not> no_device (cfg_read32 ?f 0)"
    by (rule served_chosen) simp
  have mo: "malloc_ok (env_sizeof_device env) (heap_of s)" "frontier s + (unat (env_sizeof_device env) + 8) + c < unat (free_mem_end_ptr (heap_of s))"
    using room by (simp_all add: room_def)
  obtain p h' where m: "malloc (env_sizeof_device env) (heap_of s) = Some (p, h')" "frontier s \<le> unat p"
    "unat (free_mem_ptr h') = unat p + unat (env_sizeof_device env)" "free_mem_end_ptr h' = free_mem_end_ptr (heap_of s)"
    "unat (free_mem_ptr h') + c < unat (free_mem_end_ptr h')" "\<forall>z. malloc_ok z (heap_of s) \<longrightarrow> malloc_ok z h'"
    by (rule malloc_room [OF mo])
  let ?d = "unat p"
  let ?s1 = "upd_heap h' ((upd_bus b (\<lambda>b. b\<lparr>b_children := b_children b @ [?d]\<rparr>) (upd_dev ?d (\<lambda>_. ?new) s))\<lparr>all_devices := all_devices s @ [?d]\<rparr>)"
  have al: "alloc_dev (env_sizeof_device env) b (pci_path (of_nat ?v)) (s, heap_of s) =
      Some (?d, (upd_bus b (\<lambda>b. b\<lparr>b_children := b_children b @ [?d]\<rparr>) (upd_dev ?d (\<lambda>_. ?new) s))\<lparr>all_devices := all_devices s @ [?d]\<rparr>, h')"
    using m(1) by (simp add: alloc_dev_def Let_def upd_bus_def upd_dev_def)
  have dn: "devs ?s1 ?d = ?new" by (simp add: upd_heap_def upd_bus_def)
  have hw: "ps_hw ?s1 = ps_hw s" by (simp add: upd_heap_def upd_bus_def)
  have b1: "on_bus root ?s1 b nr ss" using bus by (simp add: on_bus_def hw) (simp add: upd_heap_def upd_bus_def)
  have ans: "answers ?s1 ?d ?i" by (rule on_bus_answers [OF b1 ok x]; simp only: dn) (simp_all add: pci_path_def)
  have f1: "?f = hw_fn (ps_hw ?s1) ?i" by (simp add: hw)
  have ch: "chosen_ops env ?f (devs ?s1 ?d) = Some ops" by (simp only: dn ops(1))
  obtain s' where s': "identify env (cfg_read32 ?f 0) ?d ?s1 = Some s'" "same_pci (upd_dev ?d (identified env ?f) ?s1) s'"
    by (rule identify_answers [OF ans f1 ch ops(2)])
  have "pci_probe_dev env None b (of_nat ?v) s = Some (Some ?d, s')"
    by (simp add: pci_probe_dev_def id' nd al s'(1) Let_def)
  moreover have "adds_device b ?d (identified env ?f ?new) s s'"
  proof -
    let ?t = "upd_dev ?d (identified env ?f) ?s1"
    have t: "adds_device b ?d (identified env ?f ?new) s ?t"
      using m room by (auto simp: adds_device_def upd_heap_def upd_bus_def room_def unat_gt_0)
    show ?thesis by (rule adds_device_same [OF t _ s'(2)]) (simp add: pci_path_def)
  qed
  moreover have "room env c s'"
  proof -
    have "room env c (upd_dev ?d (identified env ?f) ?s1)" using m(5,6) room by (simp add: room_def upd_heap_def upd_bus_def)
    then show ?thesis by (simp only: room_same [OF s'(2)])
  qed
  ultimately show thesis using that m(2) by blast
qed

lemma pci_probe_dev_absent:
  assumes bus: "on_bus root s b nr ss" and "v < 0x100" and "\<forall>x \<in> set ss. slot_devfn x \<noteq> v"
  shows "pci_probe_dev env None b (of_nat v) s = Some (None, s)"
proof -
  have nr: "b_secondary (buses s b) = of_nat nr" "nr \<le> 0xff" using bus by (simp_all add: on_bus_def)
  have "reaches (ps_hw s) nr v = None" using on_bus_reaches [OF bus] route_here_none [OF assms(3)] by simp
  then have "pci_conf1_read_config32 (ps_hw s) (ucast (b_secondary (buses s b))) (of_nat v) 0 = 0xffffffff"
    using nr assms(2) by (simp add: conf1_read32_reaches small_bus small_reg)
  then show ?thesis by (simp add: pci_probe_dev_def no_device_def Let_def)
qed

text \<open>A static device: one whose function answers, and one whose function does not.\<close>

lemma on_bus_same: "on_bus root s b nr ss \<Longrightarrow> same_pci s s' \<Longrightarrow> on_bus root s' b nr ss"
  by (simp add: on_bus_def same_pci_def)

lemma pci_probe_dev_static:
  assumes bus: "on_bus root s b nr ss" and ok: "bus_ok fn ss" and x: "x \<in> set ss" and sits: "sits b (slot_devfn x) (devs s d)"
    and chip: "tame env (chip_op s d chip_enable_dev)" and like: "served env bridge (hw_fn (ps_hw s) (slot_fn x)) (devs s d)"
  obtains s' where "pci_probe_dev env (Some d) b w s = Some (Some d, s')"
    "same_pci (upd_dev d (identified env (hw_fn (ps_hw s) (slot_fn x))) s) s'"
proof -
  let ?f = "hw_fn (ps_hw s) (slot_fn x)"
  obtain s1 where s1: "(case chip_op s d chip_enable_dev of None \<Rightarrow> Some s | Some k \<Rightarrow> env_hook env k d s) = Some s1" "same_pci s s1"
    by (rule tame_hook [OF chip])
  have pci: "is_pci s d" using sits by (simp add: sits_def)
  then have dev: "devs s1 d = devs s d" and hw: "ps_hw s1 = ps_hw s" using s1(2) by (simp_all add: same_pci_def)
  have ans: "answers s1 d (slot_fn x)"
    by (rule on_bus_answers [OF on_bus_same [OF bus s1(2)] ok x]) (use sits in \<open>simp_all add: dev sits_def\<close>)
  obtain ops where ops: "chosen_ops env ?f (devs s1 d) = Some ops" "tame env (Option.bind ops op_enable)" and nd: "\<not> no_device (cfg_read32 ?f 0)"
    using like unfolding dev by (rule served_chosen) simp
  have f1: "?f = hw_fn (ps_hw s1) (slot_fn x)" by (simp add: hw)
  obtain s' where s': "identify env (cfg_read32 ?f 0) d s1 = Some s'" "same_pci (upd_dev d (identified env ?f) s1) s'"
    by (rule identify_answers [OF ans f1 ops])
  have "pci_read_config32 s1 d 0 = cfg_read32 ?f 0" using answers_access(1) [OF ans, of 0] by (simp add: hw)
  then have "pci_probe_dev env (Some d) b w s = Some (Some d, s')" using nd s'(1) by (simp add: pci_probe_dev_def s1(1) Let_def)
  moreover have "same_pci (upd_dev d (identified env ?f) s) s'"
    by (rule same_pci_trans [OF same_pci_upd_dev [OF s1(2) pci] s'(2)]) (use pci in simp)
  ultimately show thesis by (rule that)
qed

lemma pci_probe_dev_static_absent:
  assumes bus: "on_bus root s b nr ss" and v: "v < 0x100" "\<forall>x \<in> set ss. slot_devfn x \<noteq> v" and sits: "sits b v (devs s d)"
    and chip: "tame env (chip_op s d chip_enable_dev)"
  obtains s' where "pci_probe_dev env (Some d) b w s = Some (Some d, s')" "same_pci (upd_dev d (\<lambda>x. x\<lparr>d_enabled := False\<rparr>) s) s'"
proof -
  obtain s1 where s1: "(case chip_op s d chip_enable_dev of None \<Rightarrow> Some s | Some k \<Rightarrow> env_hook env k d s) = Some s1" "same_pci s s1"
    by (rule tame_hook [OF chip])
  have pci: "is_pci s d" using sits by (simp add: sits_def)
  then have dev: "devs s1 d = devs s d" using s1(2) by (simp add: same_pci_def)
  have bus1: "on_bus root s1 b nr ss" by (rule on_bus_same [OF bus s1(2)])
  have nr: "b_secondary (buses s1 b) = of_nat nr" "nr \<le> 0xff" using bus1 by (simp_all add: on_bus_def)
  have "reaches (ps_hw s1) nr v = None" using on_bus_reaches [OF bus1] route_here_none [OF v(2)] by simp
  then have "pci_read_config32 s1 d 0 = 0xffffffff"
    using nr v(1) sits by (simp add: pci_read_config32_def dev sits_def conf1_read32_reaches small_bus small_reg)
  then have nd: "no_device (pci_read_config32 s1 d 0)" by (simp add: no_device_def)
  let ?s' = "if d_enabled (devs s1 d) then upd_dev d (\<lambda>x. x\<lparr>d_enabled := False\<rparr>) s1 else s1"
  have "pci_probe_dev env (Some d) b w s = Some (Some d, ?s')" using nd by (simp add: pci_probe_dev_def s1(1) Let_def)
  moreover have "same_pci (upd_dev d (\<lambda>x. x\<lparr>d_enabled := False\<rparr>) s) ?s'"
    using same_pci_upd_dev [OF s1(2) pci, of "\<lambda>x. x\<lparr>d_enabled := False\<rparr>"] pci s1(2) dev by (auto simp: same_pci_def)
  ultimately show thesis by (rule that)
qed


section \<open>Probing a bus\<close>

lemma ucast_u8_eq: "(ucast (a::u8) :: u32) = ucast b \<longleftrightarrow> a = b"
  using unat_less_exp [of a] unat_less_exp [of b] by (auto simp: word_unat_eq_iff unat_ucast_mod)

lemma filter_next:
  assumes "sorted_wrt (<) (map f xs)" and "x \<in> set xs" and "f x = (v::nat)"
  shows "filter (\<lambda>y. v \<le> f y) xs = x # filter (\<lambda>y. Suc v \<le> f y) xs"
  using assms
proof (induction xs)
  case (Cons y xs)
  show ?case
  proof (cases "x = y")
    case True
    then have "filter (\<lambda>y. v \<le> f y) xs = xs" "filter (\<lambda>y. Suc v \<le> f y) xs = xs"
      using Cons.prems by (auto simp: filter_id_conv less_imp_le Suc_le_eq)
    then show ?thesis using True Cons.prems by simp
  next
    case False
    then have "f y < v" "x \<in> set xs" using Cons.prems by auto
    then show ?thesis using Cons by simp
  qed
qed simp

lemma filter_skip:
  assumes "\<forall>y \<in> set xs. \<not> (v \<le> f y \<and> f y < (w::nat))" and "v \<le> w"
  shows "filter (\<lambda>y. v \<le> f y) xs = filter (\<lambda>y. w \<le> f y) xs"
  using assms by (intro filter_cong) (auto simp: not_less)

lemma skip_zero:
  assumes "v mod 8 = (0::nat)" and "v < u" and "u < v + 8"
  shows "u mod 8 \<noteq> 0" "u div 8 * 8 = v"
proof -
  obtain q where q: "v = 8 * q" using assms(1) by (metis dvd_def mod_eq_0_iff_dvd)
  then have "u div 8 = q" using assms(2,3) by (intro div_nat_eqI) auto
  then show "u div 8 * 8 = v" using q by simp
  then show "u mod 8 \<noteq> 0" using assms(2) by (metis less_irrefl mod_0_imp_dvd dvd_div_mult_self)
qed

text \<open>Where the walk goes on after a device number, and that it misses nothing by it.\<close>

lemma next_present:
  assumes ok: "bus_ok fn ss" and x: "x \<in> set ss" "slot_devfn x = v"
    and skip: "skip \<Longrightarrow> v mod 8 = 0 \<and> cfg_read8 (fn (slot_fn x)) PCI_HEADER_TYPE AND 0x80 \<noteq> 0x80"
  shows "filter (\<lambda>y. v \<le> slot_devfn y) ss = x # filter (\<lambda>y. v + (if skip then 8 else 1) \<le> slot_devfn y) ss"
proof -
  let ?w = "v + (if skip then 8 else 1)"
  have sorted: "sorted_wrt (<) (map slot_devfn ss)" using ok by (simp add: bus_ok_def)
  have "filter (\<lambda>y. Suc v \<le> slot_devfn y) ss = filter (\<lambda>y. ?w \<le> slot_devfn y) ss"
  proof (rule filter_skip)
    show "\<forall>y \<in> set ss. \<not> (Suc v \<le> slot_devfn y \<and> slot_devfn y < ?w)"
    proof (intro ballI notI)
      fix y assume y: "y \<in> set ss" "Suc v \<le> slot_devfn y \<and> slot_devfn y < ?w"
      then have sk: skip by (auto split: if_splits)
      then have "v mod 8 = 0" using skip by simp
      from skip_zero [OF this, of "slot_devfn y"] y sk have "slot_devfn y mod 8 \<noteq> 0" "slot_devfn y div 8 * 8 = v" by auto
      then obtain z where z: "z \<in> set ss" "slot_devfn z = v" "cfg_read8 (fn (slot_fn z)) 0xe AND 0x80 = 0x80"
        using ok y(1) by (auto simp: bus_ok_def)
      then have "z = x" using bus_ok_distinct [OF ok] x by (metis distinct_map inj_onD)
      then show False using sk skip z(3) by simp
    qed
  qed simp
  then show ?thesis using filter_next [OF sorted x] by simp
qed

lemma next_absent:
  assumes ok: "bus_ok fn ss" and none: "\<forall>x \<in> set ss. slot_devfn x \<noteq> v" and skip: "skip \<Longrightarrow> v mod 8 = 0"
  shows "filter (\<lambda>y. v \<le> slot_devfn y) ss = filter (\<lambda>y. v + (if skip then 8 else 1) \<le> slot_devfn y) ss"
proof (rule filter_skip)
  show "\<forall>y \<in> set ss. \<not> (v \<le> slot_devfn y \<and> slot_devfn y < v + (if skip then 8 else 1))"
  proof (intro ballI notI)
    fix y assume y: "y \<in> set ss" "v \<le> slot_devfn y \<and> slot_devfn y < v + (if skip then 8 else 1)"
    then have lt: "v < slot_devfn y" using none by (metis le_neq_implies_less)
    then have sk: skip using y by (auto split: if_splits)
    from skip_zero [OF skip [OF sk] lt] y sk have "slot_devfn y mod 8 \<noteq> 0" "slot_devfn y div 8 * 8 = v" by auto
    then show False using ok y(1) none by (auto simp: bus_ok_def)
  qed
qed simp

lemma skip_identified:
  assumes "devs s d = identified env f x" and "skip_functions v (Some d) s"
  shows "v mod 8 = 0 \<and> cfg_read8 f PCI_HEADER_TYPE AND 0x80 \<noteq> 0x80"
proof -
  have "(ucast (h :: u8) :: u32) AND 0x80 = 0x80 \<longleftrightarrow> h AND 0x80 = 0x80" for h
  proof -
    have "(ucast h :: u32) AND 0x80 = ucast (h AND 0x80)" by (simp add: unsigned_and_eq)
    moreover have "(0x80 :: u32) = ucast (0x80 :: u8)" by simp
    ultimately show ?thesis by (simp only: ucast_u8_eq)
  qed
  then show ?thesis using assms by (simp add: skip_functions_def)
qed

text \<open>The static devices of the bus: which one waits at a device number, and what they must be like.\<close>

definition hit :: "pci_state \<Rightarrow> nat \<Rightarrow> dev_id \<Rightarrow> bool" where
  "hit s v d \<longleftrightarrow> is_pci s d \<and> pci_devfn (path_of s d) = of_nat v"

definition waiting :: "pci_state \<Rightarrow> dev_id list \<Rightarrow> nat \<Rightarrow> device" where
  "waiting s old v = (case find (hit s v) old of Some d \<Rightarrow> devs s d | None \<Rightarrow> fresh)"

definition static_ok :: "pci_env \<Rightarrow> pci_state \<Rightarrow> bus_id \<Rightarrow> dev_id \<Rightarrow> bool" where
  "static_ok env s b d \<longleftrightarrow> d_bus (devs s d) = b \<and> tame env (chip_op s d chip_enable_dev)
     \<and> (\<forall>l \<in> set (d_link_list (devs s d)). l < frontier s \<and> l \<noteq> b \<and> \<not> b_reset_needed (buses s l))"

lemma find_Some_in: "find P xs = Some x \<Longrightarrow> x \<in> set xs \<and> P x"
  by (auto simp: find_Some_iff)

lemma take_devfn_find:
  "take_devfn s (of_nat v) old = (case find (hit s v) old of None \<Rightarrow> (None, old) | Some d \<Rightarrow> (Some d, remove1 d old))"
  by (induction old) (auto simp: hit_def split: option.splits dest: find_Some_in)

lemma find_remove1: "\<not> P d \<Longrightarrow> find P (remove1 d xs) = find P xs"
  by (induction xs) auto

text \<open>
  A step of the walk.  Devices below the end of the heap were there before, and a device that is \<open>settled\<close>
  stands for its function, or for none.
\<close>

definition origin :: "pci_state \<Rightarrow> bus_id \<Rightarrow> dev_id \<Rightarrow> nat \<Rightarrow> device" where
  "origin s b d v = (if d < frontier s then devs s d else new_device b (pci_path (of_nat v)))"

definition settled :: "pci_env \<Rightarrow> pci_state \<Rightarrow> bus_id \<Rightarrow> dev_id \<times> slot option \<Rightarrow> device" where
  "settled env s b = (\<lambda>(d, o'). case o' of None \<Rightarrow> (devs s d)\<lparr>d_enabled := False\<rparr>
     | Some x \<Rightarrow> identified env (hw_fn (ps_hw s) (slot_fn x)) (origin s b d (slot_devfn x)))"

fun add_all :: "bus_id \<Rightarrow> (dev_id \<times> slot option \<Rightarrow> device) \<Rightarrow> (dev_id \<times> slot option) list \<Rightarrow> pci_state \<Rightarrow> pci_state \<Rightarrow> bool" where
  "add_all b g [] s s' \<longleftrightarrow> s' = s"
| "add_all b g (p # ps) s s' \<longleftrightarrow> (\<exists>s1. adds_device b (fst p) (g p) s s1 \<and> add_all b g ps s1 s')"

definition found :: "pci_state \<Rightarrow> nat \<Rightarrow> dev_id list \<Rightarrow> slot list \<Rightarrow> (dev_id \<times> slot option) list \<Rightarrow> bool" where
  "found s v old ss xs \<longleftrightarrow> distinct (map fst xs) \<and> List.map_filter snd xs = filter (\<lambda>x. v \<le> slot_devfn x) ss
     \<and> (\<forall>(d, o') \<in> set xs. case o' of
          None \<Rightarrow> d \<in> set old \<and> is_pci s d \<and> (\<forall>x \<in> set ss. \<not> hit s (slot_devfn x) d)
        | Some x \<Rightarrow> (case find (hit s (slot_devfn x)) old of None \<Rightarrow> frontier s \<le> d | Some e \<Rightarrow> d = e))"

lemma adds_on_bus: "adds_device b d x s s' \<Longrightarrow> on_bus root s' b nr ss = on_bus root s b nr ss"
  by (simp add: adds_device_def on_bus_def)

lemma adds_device_keeps:
  assumes "adds_device b d x s s1" and "e \<noteq> d"
  shows "hit s1 v e = hit s v e" "is_pci s1 e = is_pci s e" "is_pci s e \<Longrightarrow> devs s1 e = devs s e"
proof -
  show pci: "is_pci s1 e = is_pci s e" and dev: "is_pci s e \<Longrightarrow> devs s1 e = devs s e" using assms by (simp_all add: adds_device_def)
  show "hit s1 v e = hit s v e" unfolding hit_def pci using dev by auto
qed

lemma static_ok_adds:
  assumes "adds_device b d x s s1" and "e \<noteq> d" and "is_pci s e" and "static_ok env s b e"
  shows "static_ok env s1 b e"
proof -
  have "devs s1 e = devs s e" by (rule adds_device_keeps(3) [OF assms(1-3)])
  moreover have "chip_op s1 e chip_enable_dev = chip_op s e chip_enable_dev"
    using assms(1) by (simp add: chip_op_def \<open>devs s1 e = devs s e\<close> adds_device_def)
  ultimately show ?thesis using assms(1,4) by (auto simp: static_ok_def adds_device_def dest: order_less_le_trans)
qed

lemma adds_device_static:
  assumes "d < frontier s" and "is_pci s d" and "p_type (d_path (g (devs s d))) = DEVICE_PATH_PCI"
    and "same_pci (upd_dev d g (upd_bus b (\<lambda>b. b\<lparr>b_children := b_children b @ [d]\<rparr>) s)) s'"
  shows "adds_device b d (g (devs s d)) s s'"
proof -
  have "adds_device b d (g (devs s d)) s (upd_dev d g (upd_bus b (\<lambda>b. b\<lparr>b_children := b_children b @ [d]\<rparr>) s))"
    using assms(1,2) by (simp add: adds_device_def upd_bus_def)
  then show ?thesis by (rule adds_device_same [OF _ assms(3,4)])
qed

lemma waiting_adds:
  assumes add: "adds_device b d x s s1" and d: "d \<notin> set old'" and old': "old' = remove1 d old" and miss: "d \<in> set old \<Longrightarrow> \<not> hit s v d"
  shows "find (hit s1 v) old' = find (hit s v) old" "waiting s1 old' v = waiting s old v"
proof -
  have "find (hit s1 v) old' = find (hit s v) old'"
    by (rule find_cong [OF refl]) (use adds_device_keeps(1) [OF add] d in metis)
  then show f: "find (hit s1 v) old' = find (hit s v) old" using old' miss by (cases "d \<in> set old") (simp_all add: find_remove1 remove1_idem)
  show "waiting s1 old' v = waiting s old v"
  proof (cases "find (hit s v) old")
    case (Some e)
    then have "e \<noteq> d" "is_pci s e" using find_Some_in [OF Some] miss by (auto simp: hit_def)
    then show ?thesis using adds_device_keeps(3) [OF add] by (simp add: waiting_def f Some)
  qed (simp add: waiting_def f)
qed

lemma found_start:
  "filter (\<lambda>x. v \<le> slot_devfn x) ss = [] \<Longrightarrow> found s v old ss []"
  by (simp add: found_def map_filter_simps)

lemma foundD:
  assumes "found s v old ss xs" and "(d, o') \<in> set xs"
  shows "case o' of None \<Rightarrow> d \<in> set old \<and> is_pci s d \<and> (\<forall>x \<in> set ss. \<not> hit s (slot_devfn x) d)
    | Some x \<Rightarrow> (case find (hit s (slot_devfn x)) old of None \<Rightarrow> frontier s \<le> d | Some e \<Rightarrow> d = e)"
proof -
  have "\<forall>p \<in> set xs. case p of (d, o') \<Rightarrow> (case o' of None \<Rightarrow> d \<in> set old \<and> is_pci s d \<and> (\<forall>x \<in> set ss. \<not> hit s (slot_devfn x) d)
    | Some x \<Rightarrow> (case find (hit s (slot_devfn x)) old of None \<Rightarrow> frontier s \<le> d | Some e \<Rightarrow> d = e))"
    using assms(1) unfolding found_def by blast
  from bspec [OF this assms(2)] show ?thesis by simp
qed

text \<open>What a device number adds to what the rest of the walk finds.\<close>

lemma found_step:
  assumes add: "adds_device b d x s s1" and fnd: "found s1 w old' ss xs" and d: "d \<notin> set old'" "old' = remove1 d old"
    and old: "\<forall>e \<in> set old. e < frontier s" and small: "\<forall>y \<in> set ss. slot_devfn y < 0x100" and v: "v < 0x100" "v < w"
    and hd: "filter (\<lambda>y. v \<le> slot_devfn y) ss = (case o' of None \<Rightarrow> [] | Some y \<Rightarrow> [y]) @ filter (\<lambda>y. w \<le> slot_devfn y) ss"
    and here: "case o' of None \<Rightarrow> d \<in> set old \<and> is_pci s d \<and> (\<forall>y \<in> set ss. \<not> hit s (slot_devfn y) d)
       | Some y \<Rightarrow> (case find (hit s (slot_devfn y)) old of None \<Rightarrow> frontier s \<le> d | Some e \<Rightarrow> d = e)"
    and miss: "\<And>y. d \<in> set old \<Longrightarrow> y \<in> set ss \<Longrightarrow> w \<le> slot_devfn y \<Longrightarrow> \<not> hit s (slot_devfn y) d"
  shows "found s v old ss ((d, o') # xs)"
proof -
  have sub: "set old' \<subseteq> set old" using d(2) set_remove1_subset by simp
  have f: "frontier s \<le> frontier s1" "d < frontier s1" using add by (simp_all add: adds_device_def)
  have xs: "distinct (map fst xs)" "List.map_filter snd xs = filter (\<lambda>y. w \<le> slot_devfn y) ss" using fnd by (simp_all add: found_def)
  have each: "e \<noteq> d \<and> (case p of None \<Rightarrow> e \<in> set old \<and> is_pci s e \<and> (\<forall>x \<in> set ss. \<not> hit s (slot_devfn x) e)
      | Some x \<Rightarrow> (case find (hit s (slot_devfn x)) old of None \<Rightarrow> frontier s \<le> e | Some e' \<Rightarrow> e = e'))" if e: "(e, p) \<in> set xs" for e p
  proof (cases p)
    case None
    then have n: "e \<in> set old'" "is_pci s1 e" "\<forall>x \<in> set ss. \<not> hit s1 (slot_devfn x) e" using foundD [OF fnd e] by simp_all
    then have "e \<noteq> d" using d(1) by auto
    then show ?thesis using n sub adds_device_keeps [OF add] by (simp add: None) blast
  next
    case (Some y)
    have "y \<in> set (List.map_filter snd xs)" using e Some by (force simp: map_filter_def)
    then have y: "y \<in> set ss" "w \<le> slot_devfn y" by (simp_all add: xs(2))
    have same: "find (hit s1 (slot_devfn y)) old' = find (hit s (slot_devfn y)) old"
      by (rule waiting_adds(1) [OF add d miss [OF _ y]])
    have c: "case find (hit s (slot_devfn y)) old of None \<Rightarrow> frontier s1 \<le> e | Some e' \<Rightarrow> e = e'"
      using foundD [OF fnd e] by (simp add: Some same)
    show ?thesis
    proof (cases "find (hit s (slot_devfn y)) old")
      case None
      then show ?thesis using c f by (simp add: Some)
    next
      case (Some e')
      then have "e \<in> set old" "hit s (slot_devfn y) e" using c same find_Some_in [OF Some] by auto
      then have "e \<noteq> d" using miss [OF _ y] by auto
      then show ?thesis using c Some by (auto simp: \<open>p = Some y\<close>)
    qed
  qed
  have "d \<notin> fst ` set xs" using each by force
  then have "distinct (map fst ((d, o') # xs))" using xs(1) by simp
  moreover have "List.map_filter snd ((d, o') # xs) = filter (\<lambda>y. v \<le> slot_devfn y) ss"
    by (simp add: hd xs(2) map_filter_simps split: option.split)
  ultimately show ?thesis using here each unfolding found_def by auto
qed

lemma settled_step:
  assumes add: "adds_device b d x s s1" and fnd: "found s1 w old' ss xs" and d: "d \<notin> set old'" and old: "\<forall>e \<in> set old'. e < frontier s"
    and p: "p \<in> set xs"
  shows "settled env s1 b p = settled env s b p"
proof -
  have f: "frontier s \<le> frontier s1" "d < frontier s1" and hw: "ps_hw s1 = ps_hw s" using add by (simp_all add: adds_device_def)
  obtain e o' where p': "p = (e, o')" by (cases p)
  show ?thesis
  proof (cases o')
    case None
    then have e: "e \<in> set old'" "is_pci s1 e" using foundD [OF fnd p [unfolded p']] by simp_all
    then have "e \<noteq> d" using d by auto
    then have "devs s1 e = devs s e" using adds_device_keeps [OF add, of e] e(2) by simp
    then show ?thesis by (simp add: p' None settled_def)
  next
    case (Some y)
    have c: "case find (hit s1 (slot_devfn y)) old' of None \<Rightarrow> frontier s1 \<le> e | Some e' \<Rightarrow> e = e'" using foundD [OF fnd p [unfolded p']] by (simp add: Some)
    have "origin s1 b e (slot_devfn y) = origin s b e (slot_devfn y)"
    proof (cases "find (hit s1 (slot_devfn y)) old'")
      case None
      then show ?thesis using c f by (simp add: origin_def)
    next
      case (Some e')
      then have e: "e \<in> set old'" "is_pci s1 e" using c find_Some_in [OF Some] by (auto simp: hit_def)
      then have "e \<noteq> d" "e < frontier s" using d old by auto
      then show ?thesis using e f adds_device_keeps [OF add, of e] by (simp add: origin_def)
    qed
    then show ?thesis by (simp add: p' Some settled_def hw)
  qed
qed

lemma add_all_cong:
  "add_all b g ps s s' \<Longrightarrow> (\<And>p. p \<in> set ps \<Longrightarrow> g p = g' p) \<Longrightarrow> add_all b g' ps s s'"
proof (induction ps arbitrary: s)
  case (Cons p ps)
  obtain s1 where "adds_device b (fst p) (g p) s s1" "add_all b g ps s1 s'" using Cons.prems(1) by auto
  then show ?case using Cons.IH [of s1] Cons.prems(2) by auto
qed simp
text \<open>What the walk over the device numbers from \<open>v\<close> up asks for, with the static devices \<open>old\<close> still to be matched.\<close>

definition walk_ok :: "pci_env \<Rightarrow> slot list \<Rightarrow> bus_id \<Rightarrow> nat \<Rightarrow> slot list \<Rightarrow> nat \<Rightarrow> dev_id list \<Rightarrow> pci_state \<Rightarrow> bool" where
  "walk_ok env root b nr ss v old s \<longleftrightarrow> on_bus root s b nr ss \<and> bus_ok (hw_fn (ps_hw s)) ss
     \<and> (\<forall>x \<in> set ss. v \<le> slot_devfn x \<longrightarrow> served env (slot_is_bridge x) (hw_fn (ps_hw s) (slot_fn x)) (waiting s old (slot_devfn x)))
     \<and> distinct old \<and> (\<forall>d \<in> set old. d < frontier s \<and> (is_pci s d \<longrightarrow> static_ok env s b d))"

lemma walk_ok_adds:
  assumes ok: "walk_ok env root b nr ss v old s" and add: "adds_device b d x s s1" and d: "old' = remove1 d old" and w: "v \<le> w"
    and miss: "\<And>y. d \<in> set old \<Longrightarrow> y \<in> set ss \<Longrightarrow> w \<le> slot_devfn y \<Longrightarrow> \<not> hit s (slot_devfn y) d"
  shows "walk_ok env root b nr ss w old' s1"
proof -
  have f: "frontier s \<le> frontier s1" and hw: "ps_hw s1 = ps_hw s" using add by (simp_all add: adds_device_def)
  have dist: "distinct old" using ok by (simp add: walk_ok_def)
  then have d': "d \<notin> set old'" "set old' \<subseteq> set old" by (simp_all add: d set_remove1_subset)
  have "served env (slot_is_bridge y) (hw_fn (ps_hw s1) (slot_fn y)) (waiting s1 old' (slot_devfn y))" if y: "y \<in> set ss" "w \<le> slot_devfn y" for y
    using ok w y waiting_adds(2) [OF add d'(1) d miss [OF _ y]] by (simp add: walk_ok_def hw)
  moreover have "e < frontier s1 \<and> (is_pci s1 e \<longrightarrow> static_ok env s1 b e)" if e: "e \<in> set old'" for e
  proof -
    have ne: "e \<noteq> d" using d'(1) e by auto
    have "e < frontier s" "is_pci s e \<longrightarrow> static_ok env s b e" using ok e d'(2) by (auto simp: walk_ok_def)
    then show ?thesis using f static_ok_adds [OF add ne] adds_device_keeps(2) [OF add ne] by auto
  qed
  ultimately show ?thesis using ok dist adds_on_bus [OF add] by (auto simp: walk_ok_def hw d)
qed

lemma walk_ok_less: "walk_ok env root b nr ss v old s \<Longrightarrow> v \<le> w \<Longrightarrow> walk_ok env root b nr ss w old s"
  by (simp add: walk_ok_def)

abbreviation walks where
  "walks env b ss v old c s \<equiv> \<exists>xs old' s'. scan_devfns env b 0xff v (old, s) = Some (old', s') \<and> add_all b (settled env s b) xs s s'
     \<and> found s v old ss xs \<and> room env c s'"

text \<open>One device number that gives a device, and the rest of the walk.\<close>

lemma walks_step:
  assumes ok: "walk_ok env root b nr ss v old s" and v: "v \<le> 0xff" and add: "adds_device b d (settled env s b (d, o')) s s1"
    and w: "w = v + (if skip_functions v (Some d) s1 then 8 else 1)" and d: "old' = remove1 d old"
    and get: "pci_scan_get_dev (of_nat v) (old, s) = (dev, old', s0)" and probe: "pci_probe_dev env dev b (of_nat v) s0 = Some (Some d, s1)"
    and hd: "filter (\<lambda>y. v \<le> slot_devfn y) ss = (case o' of None \<Rightarrow> [] | Some y \<Rightarrow> [y]) @ filter (\<lambda>y. w \<le> slot_devfn y) ss"
    and here: "case o' of None \<Rightarrow> d \<in> set old \<and> is_pci s d \<and> (\<forall>y \<in> set ss. \<not> hit s (slot_devfn y) d)
       | Some y \<Rightarrow> (case find (hit s (slot_devfn y)) old of None \<Rightarrow> frontier s \<le> d | Some e \<Rightarrow> d = e)"
    and at: "d \<in> set old \<Longrightarrow> hit s v d"
    and rest: "walk_ok env root b nr ss w old' s1 \<Longrightarrow> walks env b ss w old' c s1"
  shows "walks env b ss v old c s"
proof -
  have dist: "distinct old" and small: "\<forall>y \<in> set ss. slot_devfn y < 0x100" and front: "\<forall>e \<in> set old. e < frontier s"
    using ok by (auto simp: walk_ok_def bus_ok_def)
  then have d': "d \<notin> set old'" and front': "\<forall>e \<in> set old'. e < frontier s" using d set_remove1_subset by (auto simp: subset_iff)
  have vw: "v < w" using w by simp
  have miss: "\<not> hit s (slot_devfn y) d" if y: "d \<in> set old" "y \<in> set ss" "w \<le> slot_devfn y" for y
  proof
    assume "hit s (slot_devfn y) d"
    then have "(of_nat (slot_devfn y) :: u32) = of_nat v" using at [OF y(1)] by (simp add: hit_def)
    then have "unat (of_nat (slot_devfn y) :: u32) = unat (of_nat v :: u32)" by (simp only:)
    moreover have "slot_devfn y < 0x100" "v < 0x100" using small y(2) v by simp_all
    ultimately have "slot_devfn y = v" by (simp only: small_reg(2))
    then show False using y(3) vw by simp
  qed
  have "walk_ok env root b nr ss w old' s1" by (rule walk_ok_adds [OF ok add d less_imp_le [OF vw] miss])
  from rest [OF this] obtain xs old'' s' where r: "scan_devfns env b 0xff w (old', s1) = Some (old'', s')"
    "add_all b (settled env s1 b) xs s1 s'" "found s1 w old' ss xs" "room env c s'" by blast
  have "found s v old ss ((d, o') # xs)"
    by (rule found_step [OF add r(3) d' d front small _ vw hd here miss]) (use v in simp_all)
  moreover have "add_all b (settled env s b) xs s1 s'"
    by (rule add_all_cong [OF r(2) settled_step [OF add r(3) d' front']])
  moreover have "scan_devfns env b 0xff v (old, s) = Some (old'', s')"
    by (subst scan_devfns.simps) (simp only: v get probe r(1) w [symmetric] if_True Let_def prod.case Option.bind.simps)
  ultimately show ?thesis using add r(4) by (intro exI [of _ "(d, o') # xs"] exI [of _ old''] exI [of _ s']) auto
qed

text \<open>The four cases of a device number: a static device waits there or none does, and a function answers or none does.\<close>

lemma scan_get_static:
  assumes "find (hit s v) old = Some d" and "d_bus (devs s d) = b"
  shows "pci_scan_get_dev (of_nat v) (old, s) = (Some d, remove1 d old, upd_bus b (\<lambda>b. b\<lparr>b_children := b_children b @ [d]\<rparr>) s)"
  using assms by (simp add: pci_scan_get_dev_def take_devfn_find)

lemma scan_get_none:
  assumes "find (hit s v) old = None"
  shows "pci_scan_get_dev (of_nat v) (old, s) = (None, old, s)"
  using assms by (simp add: pci_scan_get_dev_def take_devfn_find)

lemma room_less: "room env c s \<Longrightarrow> c' \<le> c \<Longrightarrow> room env c' s"
  by (auto simp: room_def)

lemma room_adds_static:
  assumes "room env c s" and "same_pci (upd_dev d g (upd_bus b h s)) s'"
  shows "room env c s'"
  unfolding room_same(1) [OF assms(2)] using assms(1) by (simp add: room_def upd_bus_def)

lemma walk_ok_served:
  "walk_ok env root b nr ss v old s \<Longrightarrow> x \<in> set ss \<Longrightarrow> v \<le> slot_devfn x \<Longrightarrow>
    served env (slot_is_bridge x) (hw_fn (ps_hw s) (slot_fn x)) (waiting s old (slot_devfn x))"
  by (simp add: walk_ok_def)

lemma static_walks:
  assumes ok: "walk_ok env root b nr ss v old s" and v: "v \<le> 0xff" and d: "find (hit s v) old = Some d"
    and room: "room env (length (filter (\<lambda>x. v \<le> slot_devfn x) ss) * dev + c) s"
    and rest: "\<And>w old' s1. v < w \<Longrightarrow> walk_ok env root b nr ss w old' s1 \<Longrightarrow>
      room env (length (filter (\<lambda>x. w \<le> slot_devfn x) ss) * dev + c) s1 \<Longrightarrow> walks env b ss w old' c s1"
  shows "walks env b ss v old c s"
proof -
  let ?s0 = "upd_bus b (\<lambda>b. b\<lparr>b_children := b_children b @ [d]\<rparr>) s"
  have d': "d \<in> set old" "hit s v d" using find_Some_in [OF d] by simp_all
  then have st: "d < frontier s" "static_ok env s b d" "is_pci s d" using ok by (simp_all add: walk_ok_def hit_def)
  have sits: "sits b v (devs ?s0 d)" using d'(2) st by (simp add: sits_def hit_def static_ok_def upd_bus_def)
  have on: "on_bus root ?s0 b nr ss" using ok by (simp add: walk_ok_def on_bus_def upd_bus_def)
  have okb: "bus_ok (hw_fn (ps_hw s)) ss" using ok by (simp add: walk_ok_def)
  have chip: "tame env (chip_op ?s0 d chip_enable_dev)" using st(2) by (simp add: static_ok_def chip_op_def upd_bus_def)
  have get: "pci_scan_get_dev (of_nat v) (old, s) = (Some d, remove1 d old, ?s0)"
    by (rule scan_get_static [OF d]) (use st(2) in \<open>simp add: static_ok_def\<close>)
  have devd: "devs ?s0 d = devs s d" and hw: "ps_hw ?s0 = ps_hw s" by (simp_all add: upd_bus_def)
  show ?thesis
  proof (cases "\<exists>x \<in> set ss. slot_devfn x = v")
    case True
    then obtain x where x: "x \<in> set ss" "slot_devfn x = v" by blast
    let ?f = "hw_fn (ps_hw s) (slot_fn x)"
    have w: "waiting s old (slot_devfn x) = devs s d" by (simp add: waiting_def x(2) d)
    have like: "served env (slot_is_bridge x) (hw_fn (ps_hw ?s0) (slot_fn x)) (devs ?s0 d)"
      using walk_ok_served [OF ok x(1)] unfolding devd hw w [symmetric] by (simp add: x(2))
    obtain s1 where s1: "pci_probe_dev env (Some d) b (of_nat v) ?s0 = Some (Some d, s1)" "same_pci (upd_dev d (identified env ?f) ?s0) s1"
      using pci_probe_dev_static [OF on okb x(1) sits [folded x(2)] chip like] unfolding hw by blast
    have set: "settled env s b (d, Some x) = identified env ?f (devs s d)" using st(1) by (simp add: settled_def origin_def)
    have add: "adds_device b d (settled env s b (d, Some x)) s s1"
      unfolding set by (rule adds_device_static [OF st(1,3) _ s1(2)]) (use st(3) in simp)
    let ?skip = "skip_functions v (Some d) s1"
    have dd: "devs s1 d = identified env ?f (devs s d)" using add set by (simp add: adds_device_def)
    have nx: "filter (\<lambda>y. v \<le> slot_devfn y) ss = x # filter (\<lambda>y. v + (if ?skip then 8 else 1) \<le> slot_devfn y) ss"
      by (rule next_present [OF okb x skip_identified [OF dd]])
    show ?thesis
    proof (rule walks_step [OF ok v add refl refl get s1(1)])
      show "filter (\<lambda>y. v \<le> slot_devfn y) ss = (case Some x of None \<Rightarrow> [] | Some y \<Rightarrow> [y]) @ filter (\<lambda>y. v + (if ?skip then 8 else 1) \<le> slot_devfn y) ss"
        using nx by simp
      show "walks env b ss (v + (if ?skip then 8 else 1)) (remove1 d old) c s1" if "walk_ok env root b nr ss (v + (if ?skip then 8 else 1)) (remove1 d old) s1"
      proof (rule rest [OF _ that])
        show "room env (length (filter (\<lambda>y. v + (if ?skip then 8 else 1) \<le> slot_devfn y) ss) * dev + c) s1"
          by (rule room_less [OF room_adds_static [OF room s1(2)]]) (simp add: nx del: if_split)
      qed simp
    qed (use d d' x in simp_all)
  next
    case False
    then have none: "\<forall>x \<in> set ss. slot_devfn x \<noteq> v" by blast
    obtain s1 where s1: "pci_probe_dev env (Some d) b (of_nat v) ?s0 = Some (Some d, s1)" "same_pci (upd_dev d (\<lambda>x. x\<lparr>d_enabled := False\<rparr>) ?s0) s1"
      by (rule pci_probe_dev_static_absent [OF on _ none sits chip]) (use v in simp)
    have set: "settled env s b (d, None) = (devs s d)\<lparr>d_enabled := False\<rparr>" by (simp add: settled_def)
    have add: "adds_device b d (settled env s b (d, None)) s s1"
      unfolding set by (rule adds_device_static [OF st(1,3) _ s1(2)]) (use st(3) in simp)
    have "\<not> skip_functions v (Some d) s1" using add set by (simp add: adds_device_def skip_functions_def)
    then have w: "v + (if skip_functions v (Some d) s1 then 8 else 1) = v + (if False then 8 else 1)" by simp
    have nx: "filter (\<lambda>y. v \<le> slot_devfn y) ss = filter (\<lambda>y. v + (if False then 8 else 1) \<le> slot_devfn y) ss"
      by (rule next_absent [OF okb none]) simp
    show ?thesis
    proof (rule walks_step [OF ok v add w [symmetric] refl get s1(1)])
      show "filter (\<lambda>y. v \<le> slot_devfn y) ss = (case None of None \<Rightarrow> [] | Some y \<Rightarrow> [y]) @ filter (\<lambda>y. v + (if False then 8 else 1) \<le> slot_devfn y) ss"
        using nx by simp
      have "\<not> hit s (slot_devfn y) d" if y: "y \<in> set ss" for y
      proof
        assume "hit s (slot_devfn y) d"
        then have "unat (of_nat (slot_devfn y) :: u32) = unat (of_nat v :: u32)" using d'(2) by (simp add: hit_def)
        moreover have "slot_devfn y < 0x100" "v < 0x100" using okb v y by (simp_all add: bus_ok_def)
        ultimately have "slot_devfn y = v" by (simp only: small_reg(2))
        then show False using none y by blast
      qed
      then show "case None of None \<Rightarrow> d \<in> set old \<and> is_pci s d \<and> (\<forall>y \<in> set ss. \<not> hit s (slot_devfn y) d)
        | Some y \<Rightarrow> (case find (hit s (slot_devfn y)) old of None \<Rightarrow> frontier s \<le> d | Some e \<Rightarrow> d = e)" using d'(1) st(3) by simp
      show "walks env b ss (v + (if False then 8 else 1)) (remove1 d old) c s1" if "walk_ok env root b nr ss (v + (if False then 8 else 1)) (remove1 d old) s1"
      proof (rule rest [OF _ that])
        show "room env (length (filter (\<lambda>y. v + (if False then 8 else 1) \<le> slot_devfn y) ss) * dev + c) s1"
          unfolding nx [symmetric] by (rule room_adds_static [OF room s1(2)])
      qed simp
    qed (use d' in simp_all)
  qed
qed

lemma dynamic_walks:
  assumes ok: "walk_ok env root b nr ss v old s" and v: "v \<le> 0xff" and d: "find (hit s v) old = None"
    and room: "room env (length (filter (\<lambda>x. v \<le> slot_devfn x) ss) * (unat (env_sizeof_device env) + 8) + c) s"
    and rest: "\<And>w old' s1. v < w \<Longrightarrow> walk_ok env root b nr ss w old' s1 \<Longrightarrow>
      room env (length (filter (\<lambda>x. w \<le> slot_devfn x) ss) * (unat (env_sizeof_device env) + 8) + c) s1 \<Longrightarrow> walks env b ss w old' c s1"
  shows "walks env b ss v old c s"
proof -
  let ?dev = "unat (env_sizeof_device env) + 8"
  have on: "on_bus root s b nr ss" and okb: "bus_ok (hw_fn (ps_hw s)) ss" using ok by (simp_all add: walk_ok_def)
  note get = scan_get_none [OF d]
  show ?thesis
  proof (cases "\<exists>x \<in> set ss. slot_devfn x = v")
    case True
    then obtain x where x: "x \<in> set ss" "slot_devfn x = v" by blast
    let ?f = "hw_fn (ps_hw s) (slot_fn x)"
    have like: "served env (slot_is_bridge x) ?f fresh" using walk_ok_served [OF ok x(1)] by (simp add: x(2) waiting_def d)
    have nx: "filter (\<lambda>y. v \<le> slot_devfn y) ss = x # filter (\<lambda>y. v + (if skip then 8 else 1) \<le> slot_devfn y) ss"
      if "skip \<Longrightarrow> v mod 8 = 0 \<and> cfg_read8 ?f PCI_HEADER_TYPE AND 0x80 \<noteq> 0x80" for skip
      by (rule next_present [OF okb x that])
    have "room env (?dev + (length (filter (\<lambda>y. v + 1 \<le> slot_devfn y) ss) * ?dev + c)) s"
      using room nx [of False] by (simp add: ac_simps)
    then obtain d s1 where p: "pci_probe_dev env None b (of_nat v) s = Some (Some d, s1)" "frontier s \<le> d"
      "adds_device b d (identified env ?f (new_device b (pci_path (of_nat v)))) s s1" "room env (length (filter (\<lambda>y. v + 1 \<le> slot_devfn y) ss) * ?dev + c) s1"
      using pci_probe_dev_present [OF on okb x(1) like] unfolding x(2) by metis
    have set: "settled env s b (d, Some x) = identified env ?f (new_device b (pci_path (of_nat v)))" using p(2) by (simp add: settled_def origin_def x(2))
    have add: "adds_device b d (settled env s b (d, Some x)) s s1" unfolding set by (rule p(3))
    let ?skip = "skip_functions v (Some d) s1"
    have dd: "devs s1 d = identified env ?f (new_device b (pci_path (of_nat v)))" using p(3) by (simp add: adds_device_def)
    have new: "d \<notin> set old" using ok p(2) by (auto simp: walk_ok_def)
    show ?thesis
    proof (rule walks_step [OF ok v add refl _ get p(1)])
      show "filter (\<lambda>y. v \<le> slot_devfn y) ss = (case Some x of None \<Rightarrow> [] | Some y \<Rightarrow> [y]) @ filter (\<lambda>y. v + (if ?skip then 8 else 1) \<le> slot_devfn y) ss"
        using nx [OF skip_identified [OF dd]] by simp
      show "walks env b ss (v + (if ?skip then 8 else 1)) old c s1" if "walk_ok env root b nr ss (v + (if ?skip then 8 else 1)) old s1"
      proof (rule rest [OF _ that])
        have "filter (\<lambda>y. v + (if ?skip then 8 else 1) \<le> slot_devfn y) ss = filter (\<lambda>y. v + 1 \<le> slot_devfn y) ss"
          using nx [OF skip_identified [OF dd]] nx [of False] by simp
        then show "room env (length (filter (\<lambda>y. v + (if ?skip then 8 else 1) \<le> slot_devfn y) ss) * ?dev + c) s1" using p(4) by simp
      qed simp
    qed (use d p(2) x new in \<open>simp_all add: remove1_idem\<close>)
  next
    case False
    then have none: "\<forall>x \<in> set ss. slot_devfn x \<noteq> v" by blast
    let ?w = "v + (if skip_functions v None s then 8 else 1)"
    have p: "pci_probe_dev env None b (of_nat v) s = Some (None, s)" by (rule pci_probe_dev_absent [OF on _ none]) (use v in simp)
    have nx: "filter (\<lambda>y. v \<le> slot_devfn y) ss = filter (\<lambda>y. ?w \<le> slot_devfn y) ss"
      by (rule next_absent [OF okb none]) (simp add: skip_functions_def)
    have "walks env b ss ?w old c s" by (rule rest) (use walk_ok_less [OF ok, of ?w] room in \<open>simp_all add: nx del: if_split\<close>)
    moreover have "scan_devfns env b 0xff v (old, s) = scan_devfns env b 0xff ?w (old, s)"
      by (subst scan_devfns.simps) (simp only: v get p if_True Let_def prod.case Option.bind.simps)
    ultimately show ?thesis by (simp only: found_def nx)
  qed
qed

lemma scan_devfns_finds:
  assumes "walk_ok env root b nr ss v old s"
    and "room env (length (filter (\<lambda>x. v \<le> slot_devfn x) ss) * (unat (env_sizeof_device env) + 8) + c) s"
  shows "walks env b ss v old c s"
  using assms
proof (induction "0x100 - v" arbitrary: v old s rule: less_induct)
  case less
  show ?case
  proof (cases "v \<le> 0xff")
    case True
    have ih: "walks env b ss w old' c s1" if "v < w" "walk_ok env root b nr ss w old' s1"
      "room env (length (filter (\<lambda>x. w \<le> slot_devfn x) ss) * (unat (env_sizeof_device env) + 8) + c) s1" for w old' s1
      by (rule less.hyps [OF _ that(2,3)]) (use True that(1) in simp)
    show ?thesis
    proof (cases "find (hit s v) old")
      case None
      then show ?thesis by (rule dynamic_walks [OF less.prems(1) True _ less.prems(2) ih])
    next
      case (Some d)
      then show ?thesis by (rule static_walks [OF less.prems(1) True _ less.prems(2) ih])
    qed
  next
    case False
    then have e: "filter (\<lambda>x. v \<le> slot_devfn x) ss = []" using less.prems(1) by (auto simp: filter_empty_conv walk_ok_def bus_ok_def)
    have "scan_devfns env b 0xff v (old, s) = Some (old, s)" using False by (subst scan_devfns.simps) simp
    then show ?thesis using found_start [OF e, of s old] less.prems(2) unfolding e by (intro exI [of _ "[]"] exI [of _ old] exI [of _ s]) simp
  qed
qed

end
