(* ===== verification/Pcienum.thy ===== *)
theory Pcienum
  imports Pcitree
begin

text \<open>
  The scan of a whole hierarchy, \<^verbatim>\<open>pci_scan_bus\<close> and \<^verbatim>\<open>do_pci_scan_bridge\<close>: by induction on the depth, a
  scan of a bus gives a tree that mirrors the slots of the bus, with the bus numbers in
  depth-first order in the tree and in the bridges, and it leaves alone what belongs to other
  buses.  From that, every function is reached at the address the tree gives it.
\<close>


section \<open>The bus number register\<close>

definition numbers_writable :: "pci_function \<Rightarrow> bool" where
  "numbers_writable f \<longleftrightarrow> (\<forall>r \<in> {0x18, 0x19, 0x1a}. \<forall>old v. cfg_wr f r old v = v)"

lemma numbers_clear_writable: "numbers_clear f \<Longrightarrow> numbers_writable f"
  by (simp add: numbers_clear_def numbers_writable_def)

lemma numbers_writable_write [simp]:
  "numbers_writable (cfg_write32 r v32 f) = numbers_writable f" "numbers_writable (cfg_write16 r v16 f) = numbers_writable f"
  by (simp_all add: numbers_writable_def)

definition numbers :: "u32 \<Rightarrow> nat \<times> nat \<times> nat" where
  "numbers nr = (primary_of nr, secondary_of nr, subordinate_of nr)"

lemma numbers_write:
  assumes "numbers_writable f"
  shows "numbers (cfg_read32 (cfg_write32 0x18 v f) 0x18) = numbers v"
  using assms by (simp add: numbers_def primary_of_def secondary_of_def subordinate_of_def byte_of_read32
      cfg_write32_def cfg_write8_def numbers_writable_def)

lemma numbers_command:
  assumes "r \<le> 6"
  shows "cfg_read32 (cfg_write16 r v f) 0x18 = cfg_read32 f 0x18"
  using assms by (simp add: cfg_read32_def cfg_write16_def cfg_write8_def)

text \<open>The values that \<^verbatim>\<open>do_pci_scan_bridge\<close> composes.\<close>

lemma ucast_of_nat_byte:
  assumes "n \<le> 0xff"
  shows "(ucast (of_nat n :: u16) :: u32) = ucast (of_nat n :: u8)" "unat (of_nat n :: u8) = n"
proof -
  show u: "unat (of_nat n :: u8) = n" using assms by (simp add: unsigned_of_nat take_bit_nat_eq_self)
  show "(ucast (of_nat n :: u16) :: u32) = ucast (of_nat n :: u8)"
    using small_bus(2) [OF assms] u by (simp add: word_unat_eq_iff unat_ucast_mod)
qed

lemma top_byte: "(0xff000000 :: u32) = push_bit 24 (mask 8)" "(0xff00ffff :: u32) = NOT (push_bit 16 (mask 8))"
  by (simp_all add: mask_eq_decr_exp push_bit_eq_mult)

lemma byte_packed:
  fixes a b c :: u8
  shows "byte_of 0 ((x AND 0xff000000) OR (ucast a OR push_bit 8 (ucast b) OR push_bit 16 (ucast c)) :: u32) = a"
    and "byte_of 1 ((x AND 0xff000000) OR (ucast a OR push_bit 8 (ucast b) OR push_bit 16 (ucast c)) :: u32) = b"
    and "byte_of 2 ((x AND 0xff000000) OR (ucast a OR push_bit 8 (ucast b) OR push_bit 16 (ucast c)) :: u32) = c"
  unfolding top_byte by (rule bit_word_eqI; auto simp: bits bit_simps)+

lemma byte_repacked:
  fixes c :: u8
  shows "byte_of 0 ((x AND 0xff00ffff) OR push_bit 16 (ucast c) :: u32) = byte_of 0 x"
    and "byte_of 1 ((x AND 0xff00ffff) OR push_bit 16 (ucast c) :: u32) = byte_of 1 x"
    and "byte_of 2 ((x AND 0xff00ffff) OR push_bit 16 (ucast c) :: u32) = c"
  unfolding top_byte by (rule bit_word_eqI; auto simp: bits bit_simps)+

lemma numbers_open:
  assumes "nr \<le> 0xff" and "m \<le> 0xff"
  shows "numbers ((x AND 0xff000000) OR (ucast (of_nat nr :: u16) OR push_bit 8 (ucast (of_nat m :: u16)) OR push_bit 16 (ucast (0xff :: u16)))) = (nr, m, 0xff)"
proof -
  have ff: "(ucast (0xff :: u16) :: u32) = ucast (0xff :: u8)" by simp
  show ?thesis unfolding numbers_def primary_of_def secondary_of_def subordinate_of_def
      ucast_of_nat_byte(1) [OF assms(1)] ucast_of_nat_byte(1) [OF assms(2)] ff byte_packed
    using assms by (simp add: ucast_of_nat_byte)
qed

lemma numbers_close:
  assumes "numbers x = (nr, m, y)" and "m' \<le> 0xff"
  shows "numbers ((x AND 0xff00ffff) OR push_bit 16 (ucast (of_nat m' :: u16))) = (nr, m, m')"
  using assms(1) unfolding numbers_def primary_of_def secondary_of_def subordinate_of_def
    ucast_of_nat_byte(1) [OF assms(2)] byte_repacked by (simp add: ucast_of_nat_byte [OF assms(2)])


section \<open>The mirror of a hierarchy\<close>

text \<open>The link of a bridge, with the buses from \<open>m\<close> to \<open>m'\<close> behind it.\<close>

definition bridge_link :: "pci_state \<Rightarrow> dev_id \<Rightarrow> bus_id \<Rightarrow> nat \<Rightarrow> nat \<Rightarrow> bool" where
  "bridge_link s d l m m' \<longleftrightarrow> b_dev (buses s l) = d \<and> b_secondary (buses s l) = of_nat m \<and> b_subordinate (buses s l) = of_nat m'
     \<and> \<not> b_reset_needed (buses s l)"

text \<open>
  The devices \<open>ds\<close> of bus \<open>b\<close> with number \<open>nr\<close> are the slots: each is the device \<open>org\<close> that was there or is
  added, identified by its function, at the device number of the slot.  The buses behind the bridges get
  the numbers after \<open>mx\<close>, depth first.  What hangs below lies in the heap between \<open>lo\<close> and \<open>hi\<close>.
\<close>

fun mirrors :: "pci_env \<Rightarrow> (bus_id \<Rightarrow> dev_id \<Rightarrow> nat \<Rightarrow> device) \<Rightarrow> pci_state \<Rightarrow> (nat \<Rightarrow> pci_function) \<Rightarrow> nat \<Rightarrow> nat \<Rightarrow> bus_id \<Rightarrow> nat \<Rightarrow> nat \<Rightarrow> slot list \<Rightarrow> dev_id list \<Rightarrow> bool" where
  "mirrors env org s fn lo hi b nr mx [] [] \<longleftrightarrow> True"
| "mirrors env org s fn lo hi b nr mx (Leaf i v # rest) (d # ds) \<longleftrightarrow>
     devs s d = identified env (fn i) (org b d v) \<and> sits b v (devs s d) \<and> mirrors env org s fn lo hi b nr mx rest ds"
| "mirrors env org s fn lo hi b nr mx (Bridge i v bs # rest) (d # ds) \<longleftrightarrow>
     (let l = hd (d_link_list (devs s d)); m = Suc mx; m' = m + bus_bridges bs; cs = b_children (buses s l) in
      lo \<le> l \<and> l < hi \<and> devs s d = (identified env (fn i) (org b d v))\<lparr>d_link_list := [l]\<rparr> \<and> sits b v (devs s d) \<and> bridge_link s d l m m'
      \<and> numbers (bus_numbers (ps_hw s) i) = (nr, m, m')
      \<and> (\<forall>c \<in> set cs. lo \<le> c \<and> c < hi) \<and> mirrors env org s fn lo hi l m m bs cs \<and> mirrors env org s fn lo hi b nr m' rest ds)"
| "mirrors env org s fn lo hi b nr mx ss ds \<longleftrightarrow> False"

lemma mirrors_stable:
  assumes "mirrors env org s fn lo hi b nr mx ss ds" and "\<And>d. d \<in> set ds \<or> lo \<le> d \<and> d < hi \<Longrightarrow> is_pci s d \<Longrightarrow> devs s' d = devs s d"
    and "\<And>l. lo \<le> l \<and> l < hi \<Longrightarrow> buses s' l = buses s l"
    and "\<And>i. i \<in> set (bus_fns ss) \<Longrightarrow> bus_numbers (ps_hw s') i = bus_numbers (ps_hw s) i \<and> fn' i = fn i"
    and "\<And>b d v. d \<in> set ds \<or> lo \<le> d \<and> d < hi \<Longrightarrow> org' b d v = org b d v"
    and "lo' \<le> lo" and "hi \<le> hi'"
  shows "mirrors env org' s' fn' lo' hi' b nr mx ss ds"
  using assms
proof (induction env org s fn lo hi b nr mx ss ds rule: mirrors.induct)
  case (2 env org s fn lo hi b nr mx i v rest d ds)
  have m: "devs s d = identified env (fn i) (org b d v)" "sits b v (devs s d)" "mirrors env org s fn lo hi b nr mx rest ds"
    using "2.prems"(1) unfolding mirrors.simps by blast+
  have d: "devs s' d = devs s d" using "2.prems"(2) m(2) by (simp add: sits_def)
  have "mirrors env org' s' fn' lo' hi' b nr mx rest ds" by (rule "2.IH" [OF m(3)]) (use "2.prems"(2-) in auto)
  moreover have "fn' i = fn i" "org' b d v = org b d v" using "2.prems"(4,5) by auto
  ultimately show ?case using m(1,2) by (simp add: d)
next
  case (3 env org s fn lo hi b nr mx i v bs rest d ds)
  let ?l = "hd (d_link_list (devs s d))" and ?m = "Suc mx"
  let ?cs = "b_children (buses s ?l)"
  have m: "lo \<le> ?l" "?l < hi" "devs s d = (identified env (fn i) (org b d v))\<lparr>d_link_list := [?l]\<rparr>" "sits b v (devs s d)"
    "bridge_link s d ?l ?m (?m + bus_bridges bs)"
    "numbers (bus_numbers (ps_hw s) i) = (nr, ?m, ?m + bus_bridges bs)" "\<forall>c \<in> set ?cs. lo \<le> c \<and> c < hi"
    "mirrors env org s fn lo hi ?l ?m ?m bs ?cs" "mirrors env org s fn lo hi b nr (?m + bus_bridges bs) rest ds"
    using "3.prems"(1) by (simp_all add: Let_def)
  have d: "devs s' d = devs s d" using "3.prems"(2) m(4) by (simp add: sits_def)
  have l: "buses s' ?l = buses s ?l" using "3.prems"(3) m(1,2) by auto
  have i: "bus_numbers (ps_hw s') i = bus_numbers (ps_hw s) i" "fn' i = fn i" using "3.prems"(4) by auto
  have o': "org' b d v = org b d v" using "3.prems"(5) by simp
  have "mirrors env org' s' fn' lo' hi' ?l ?m ?m bs ?cs"
    by (rule "3.IH"(1) [OF refl refl refl refl m(8)]) (use "3.prems"(2-) m(7) in auto)
  moreover have "mirrors env org' s' fn' lo' hi' b nr (?m + bus_bridges bs) rest ds"
    by (rule "3.IH"(2) [OF refl refl refl refl m(9)]) (use "3.prems"(2-) in auto)
  moreover have "bridge_link s' d ?l ?m (?m + bus_bridges bs)" using m(5) l by (simp add: bridge_link_def)
  ultimately show ?case using m(1-4,6,7) "3.prems"(6,7) by (auto simp: Let_def d l i o' simp del: mirrors.simps(4-))
qed auto

lemma mirrors_below:
  assumes "mirrors env org s fn lo hi b nr mx ss ds" and "Bridge i v bs \<in> set ss"
  shows "subordinate_of (bus_numbers (ps_hw s) i) \<le> mx + bus_bridges ss"
  using assms
proof (induction ss arbitrary: mx ds)
  case (Cons x ss)
  obtain d ds' where ds: "ds = d # ds'" using Cons.prems(1) by (cases ds; cases x) auto
  have "mirrors env org s fn lo hi b nr (mx + slot_bridges x) ss ds'" using Cons.prems(1) ds by (cases x) (simp_all add: Let_def)
  note ih = Cons.IH [OF this]
  show ?case
  proof (cases "Bridge i v bs = x")
    case True
    then show ?thesis using Cons.prems(1) ds by (auto simp: Let_def numbers_def)
  next
    case False
    then show ?thesis using Cons.prems(2) ih by (auto simp: ac_simps)
  qed
qed simp

section \<open>What a scan leaves alone\<close>

text \<open>Apart from the devices \<open>D\<close>, the links \<open>L\<close> and the functions \<open>F\<close>, no PCI device, link or function that was there changes.\<close>

definition keeps :: "dev_id set \<Rightarrow> bus_id set \<Rightarrow> nat set \<Rightarrow> pci_state \<Rightarrow> pci_state \<Rightarrow> bool" where
  "keeps D L F s s' \<longleftrightarrow> (\<forall>d < frontier s. d \<notin> D \<longrightarrow> is_pci s d \<longrightarrow> devs s' d = devs s d) \<and> (\<forall>l < frontier s. l \<notin> L \<longrightarrow> buses s' l = buses s l)
     \<and> (\<forall>i. i \<notin> F \<longrightarrow> hw_fn (ps_hw s') i = hw_fn (ps_hw s) i) \<and> hw_route (ps_hw s') = hw_route (ps_hw s) \<and> frontier s \<le> frontier s'"

lemma keeps_refl: "keeps D L F s s"
  by (simp add: keeps_def)

lemma keeps_same: "same_pci s s' \<Longrightarrow> keeps D L F s s'"
  by (simp add: keeps_def same_pci_def)

lemma keeps_trans:
  assumes "keeps D L F s s'" and "keeps D' L' F' s' s''"
    and "\<And>d. d < frontier s \<Longrightarrow> d \<in> D \<union> D' \<Longrightarrow> d \<in> E" and "\<And>l. l < frontier s \<Longrightarrow> l \<in> L \<union> L' \<Longrightarrow> l \<in> M" and "F \<union> F' \<subseteq> G"
  shows "keeps E M G s s''"
proof -
  have "frontier s \<le> frontier s'" using assms(1) by (simp add: keeps_def)
  then have le: "d < frontier s'" if "d < frontier s" for d using that by simp
  have "devs s'' d = devs s d" if d: "d < frontier s" "d \<notin> E" "is_pci s d" for d
  proof -
    have "d \<notin> D" "d \<notin> D'" using assms(3) d by blast+
    then have "devs s' d = devs s d" using assms(1) d by (simp add: keeps_def)
    then show ?thesis using assms(2) d le [OF d(1)] \<open>d \<notin> D'\<close> by (simp add: keeps_def)
  qed
  moreover have "buses s'' l = buses s l" if l: "l < frontier s" "l \<notin> M" for l
  proof -
    have "l \<notin> L" "l \<notin> L'" using assms(4) l by blast+
    then show ?thesis using assms(1,2) l le [OF l(1)] by (simp add: keeps_def)
  qed
  moreover have "hw_fn (ps_hw s'') i = hw_fn (ps_hw s) i" if "i \<notin> G" for i
  proof -
    have "i \<notin> F" "i \<notin> F'" using assms(5) that by blast+
    then show ?thesis using assms(1,2) by (simp add: keeps_def)
  qed
  ultimately show ?thesis using assms(1,2) by (simp add: keeps_def)
qed

lemma on_bus_keeps:
  assumes "on_bus root s b nr ss" and "hw_route (ps_hw s') = hw_route (ps_hw s)" and "buses s' b = buses s b"
    and "\<And>i. i \<notin> set (bus_fns ss) \<Longrightarrow> hw_fn (ps_hw s') i = hw_fn (ps_hw s) i"
  shows "on_bus root s' b nr ss"
proof -
  have "delegated root (bus_numbers (ps_hw s')) nr ss"
    by (rule delegated_cong [of _ "bus_numbers (ps_hw s)"]) (use assms in \<open>auto simp: on_bus_def bus_numbers_def\<close>)
  then show ?thesis using assms(1-3) by (simp add: on_bus_def wired_as_def)
qed


section \<open>Scanning behind a bridge\<close>

lemma upd_bus_fields [simp]:
  "devs (upd_bus l g s) = devs s" "ps_hw (upd_bus l g s) = ps_hw s" "ps_pool (upd_bus l g s) = ps_pool s"
  "buses (upd_bus l g s) = (buses s)(l := g (buses s l))"
  by (simp_all add: upd_bus_def)

lemma on_bus_upd_fn: "on_bus root s b nr ss \<Longrightarrow> i \<in> set (bus_fns ss) \<Longrightarrow> on_bus root (upd_fn i g s) b nr ss"
  by (rule on_bus_keeps) auto

lemma on_bus_upd_bus: "on_bus root s b nr ss \<Longrightarrow> l \<noteq> b \<Longrightarrow> on_bus root (upd_bus l g s) b nr ss"
  by (rule on_bus_keeps) (auto simp: upd_bus_def)

lemma slot_fn_in: "x \<in> set ss \<Longrightarrow> slot_fn x \<in> set (bus_fns ss)"
  by (cases x) force+

lemma new_link_fresh:
  assumes "d_link_list (devs s d) = []" and "room env (unat (env_sizeof_bus env) + 8 + c) s"
  obtains l s1 where "new_link env d s = Some s1" "devs s1 = (devs s)(d := (devs s d)\<lparr>d_link_list := [l]\<rparr>)" "ps_hw s1 = ps_hw s"
    "buses s1 = (buses s)(l := \<lparr>b_dev = d, b_children = [], b_bridge_ctrl = 0, b_link_num = 0, b_secondary = 0, b_subordinate = 0, b_reset_needed = False\<rparr>)"
    "frontier s \<le> l" "l < frontier s1" "room env c s1"
proof -
  have mo: "malloc_ok (env_sizeof_bus env) (heap_of s)" "frontier s + (unat (env_sizeof_bus env) + 8) + c < unat (free_mem_end_ptr (heap_of s))"
    using assms(2) by (simp_all add: room_def)
  obtain p h' where m: "malloc (env_sizeof_bus env) (heap_of s) = Some (p, h')" "frontier s \<le> unat p"
    "unat (free_mem_ptr h') = unat p + unat (env_sizeof_bus env)" "free_mem_end_ptr h' = free_mem_end_ptr (heap_of s)"
    "unat (free_mem_ptr h') + c < unat (free_mem_end_ptr h')" "\<forall>z. malloc_ok z (heap_of s) \<longrightarrow> malloc_ok z h'"
    by (rule malloc_room [OF mo])
  let ?s1 = "upd_dev d (\<lambda>x. x\<lparr>d_link_list := [unat p]\<rparr>) (upd_bus (unat p) (\<lambda>_. \<lparr>b_dev = d, b_children = [], b_bridge_ctrl = 0,
     b_link_num = 0, b_secondary = 0, b_subordinate = 0, b_reset_needed = False\<rparr>) (upd_heap h' s))"
  have "new_link env d s = Some ?s1" using assms(1) m(1) by (simp add: new_link_def Let_def)
  then show thesis
    by (rule that [where l = "unat p"]) (use m assms(2) in \<open>auto simp: upd_dev_def upd_bus_def upd_heap_def room_def unat_gt_0\<close>)
qed

text \<open>The registers that are written before and after the bus behind the bridge is scanned.\<close>

definition open_bridge :: "u32 \<Rightarrow> pci_function \<Rightarrow> pci_function" where
  "open_bridge nrs f = cfg_write32 PCI_PRIMARY_BUS nrs (cfg_write16 PCI_STATUS 0xffff (cfg_write16 PCI_COMMAND 0 f))"

definition close_bridge :: "u32 \<Rightarrow> u16 \<Rightarrow> pci_function \<Rightarrow> pci_function" where
  "close_bridge nrs cr f = cfg_write16 PCI_COMMAND cr (cfg_write32 PCI_PRIMARY_BUS nrs f)"

lemma upd_fn_upd_fn: "upd_fn i g (upd_fn i h s) = upd_fn i (\<lambda>f. g (h f)) s"
  by (simp add: upd_fn_def)

lemma do_pci_scan_bridge_opens:
  assumes on: "on_bus root s b nr ss" and ok: "bus_ok fn ss" and x: "x \<in> set ss" "sits b (slot_devfn x) (devs s d)" and nolink: "d_link_list (devs s d) = []"
    and b: "b < frontier s" and mx: "mx < 0xff" and room: "room env (unat (env_sizeof_bus env) + 8 + c) s"
  obtains l s1 nrs cr where "devs s1 = (devs s)(d := (devs s d)\<lparr>d_link_list := [l]\<rparr>)"
    "buses s1 = (buses s)(l := \<lparr>b_dev = d, b_children = [], b_bridge_ctrl = 0, b_link_num = 0, b_secondary = of_nat (Suc mx), b_subordinate = 0xff, b_reset_needed = False\<rparr>)"
    "ps_hw s1 = ps_hw (upd_fn (slot_fn x) (open_bridge nrs) s)" "numbers nrs = (nr, Suc mx, 0xff)"
    "frontier s \<le> l" "l < frontier s1" "room env c s1"
    "\<forall>scan mx' s2. scan l 0 0xff (of_nat (Suc mx)) s1 = Some (mx', s2) \<longrightarrow> on_bus root s2 b nr ss \<longrightarrow> devs s2 d = devs s1 d \<longrightarrow>
       do_pci_scan_bridge env scan d (of_nat mx) s = Some (mx', upd_fn (slot_fn x)
         (close_bridge ((nrs AND 0xff00ffff) OR push_bit 16 (ucast (ucast mx' :: u16))) cr) (upd_bus l (\<lambda>b. b\<lparr>b_subordinate := ucast mx'\<rparr>) s2))"
proof -
  let ?i = "slot_fn x"
  obtain l s0 where l: "new_link env d s = Some s0" "devs s0 = (devs s)(d := (devs s d)\<lparr>d_link_list := [l]\<rparr>)" "ps_hw s0 = ps_hw s"
    "buses s0 = (buses s)(l := \<lparr>b_dev = d, b_children = [], b_bridge_ctrl = 0, b_link_num = 0, b_secondary = 0, b_subordinate = 0, b_reset_needed = False\<rparr>)"
    "frontier s \<le> l" "l < frontier s0" "room env c s0"
    by (rule new_link_fresh [OF nolink room])
  have lb: "l \<noteq> b" using b l(5) by simp
  have i: "?i \<in> set (bus_fns ss)" by (rule slot_fn_in [OF x(1)])
  have place: "d_bus (devs s d) = b" "pci_devfn (path_of s d) = of_nat (slot_devfn x)" using x(2) by (simp_all add: sits_def)
  let ?s2 = "upd_bus l (\<lambda>b. b\<lparr>b_secondary := of_nat (Suc mx), b_subordinate := 0xff\<rparr>) s0"
  have on2: "on_bus root ?s2 b nr ss" by (rule on_bus_keeps [OF on]) (use l(3,4) lb in \<open>auto simp: upd_bus_def\<close>)
  have ans: "answers (upd_fn ?i g ?s2) d ?i" for g
    by (rule on_bus_answers [OF on_bus_upd_fn [OF on2 i] ok x(1)]) (use place in \<open>simp_all add: l(2) upd_bus_def\<close>)
  have ans2: "answers ?s2 d ?i" by (rule on_bus_answers [OF on2 ok x(1)]) (use place in \<open>simp_all add: l(2) upd_bus_def\<close>)
  let ?old = "cfg_read32 (cfg_write16 6 0xffff (cfg_write16 4 0 (hw_fn (ps_hw s) ?i))) 0x18"
  let ?nrs = "(?old AND 0xff000000) OR (ucast (of_nat nr :: u16) OR push_bit 8 (ucast (of_nat (Suc mx) :: u16)) OR push_bit 16 (ucast (0xff :: u16))) :: u32"
  let ?s1 = "upd_fn ?i (open_bridge ?nrs) ?s2"
  have nums: "numbers ?nrs = (nr, Suc mx, 0xff)" using on mx by (intro numbers_open) (simp_all add: on_bus_def)
  have sec: "b_secondary (bus_of (upd_fn ?i g ?s2) d) = of_nat nr" "b_secondary (buses (upd_fn ?i g ?s2) l) = of_nat (Suc mx)"
    "b_subordinate (buses (upd_fn ?i g ?s2) l) = 0xff" "hd (d_link_list (devs (upd_fn ?i g ?s2) d)) = l" "hd (d_link_list (devs s0 d)) = l" for g
    using on2 place by (simp_all add: l(2) upd_bus_def on_bus_def)
  have step: "\<forall>scan mx' s2. scan l 0 0xff (of_nat (Suc mx)) ?s1 = Some (mx', s2) \<longrightarrow> on_bus root s2 b nr ss \<longrightarrow> devs s2 d = devs ?s1 d \<longrightarrow>
     do_pci_scan_bridge env scan d (of_nat mx) s = Some (mx', upd_fn ?i
         (close_bridge ((?nrs AND 0xff00ffff) OR push_bit 16 (ucast (ucast mx' :: u16))) (cfg_read16 (hw_fn (ps_hw s) ?i) 4)) (upd_bus l (\<lambda>b. b\<lparr>b_subordinate := ucast mx'\<rparr>) s2))"
  proof (intro allI impI)
    fix scan :: "bus_id \<Rightarrow> u32 \<Rightarrow> u32 \<Rightarrow> u32 \<Rightarrow> pci_state \<Rightarrow> (u32 \<times> pci_state) option" and mx' :: u32 and s2
    assume r: "scan l 0 0xff (of_nat (Suc mx)) ?s1 = Some (mx', s2)" and on': "on_bus root s2 b nr ss" and d': "devs s2 d = devs ?s1 d"
    have ans': "answers (upd_fn ?i g (upd_bus l h s2)) d ?i" for g h
      by (rule on_bus_answers [OF on_bus_upd_fn [OF on_bus_upd_bus [OF on' lb] i] ok x(1)])
        (use place d' in \<open>simp_all add: l(2) upd_bus_def\<close>)
    have ans'': "answers (upd_bus l h s2) d ?i" for h
      by (rule on_bus_answers [OF on_bus_upd_bus [OF on' lb] ok x(1)]) (use place d' in \<open>simp_all add: l(2) upd_bus_def\<close>)
    have mx1: "(of_nat mx + 1 :: u32) = of_nat (Suc mx)" by simp
    have sixteen: "(ucast (of_nat (Suc mx) :: u32) :: u16) = of_nat (Suc mx)" by (simp add: word_unat_eq_iff unsigned_ucast_eq unsigned_of_nat take_bit_take_bit del: of_nat_Suc)
    let ?w0 = "upd_fn ?i (cfg_write16 4 0) ?s2" and ?w1 = "upd_fn ?i (\<lambda>f. cfg_write16 6 0xffff (cfg_write16 4 0 f)) ?s2"
    have access: "pci_read_config16 ?s2 d 4 = cfg_read16 (hw_fn (ps_hw s) ?i) 4" "pci_write_config16 d 4 0 ?s2 = ?w0"
      "pci_write_config16 d 6 0xffff ?w0 = ?w1" "pci_read_config32 ?w1 d 0x18 = ?old" "pci_write_config32 d 0x18 ?nrs ?w1 = ?s1"
      by (simp_all add: answers_access [OF ans2] answers_access [OF ans] upd_fn_upd_fn l(3) open_bridge_def [abs_def] del: of_nat_Suc)
    have close: "pci_write_config16 d 4 v (pci_write_config32 d 24 w (upd_bus l h s2)) = upd_fn ?i (close_bridge w v) (upd_bus l h s2)" for v w h
      by (simp add: answers_access [OF ans'] answers_access [OF ans''] upd_fn_upd_fn close_bridge_def [abs_def] del: upd_bus_fields)
    show "do_pci_scan_bridge env scan d (of_nat mx) s = Some (mx', upd_fn ?i
         (close_bridge ((?nrs AND 0xff00ffff) OR push_bit 16 (ucast (ucast mx' :: u16))) (cfg_read16 (hw_fn (ps_hw s) ?i) 4)) (upd_bus l (\<lambda>b. b\<lparr>b_subordinate := ucast mx'\<rparr>) s2))"
      using r unfolding do_pci_scan_bridge_def l(1) Option.bind.simps Let_def sec(5)
        mx1 sixteen access(1-4) sec access(5) prod.case
      by (simp add: close)
  qed
  show thesis
    by (rule that [where ?s1.0 = ?s1, OF _ _ _ nums l(5) _ _ step]) (use l in \<open>auto simp: room_def\<close>)
qed

section \<open>The hypotheses and the result of a scan\<close>

text \<open>The heap that the structures behind a slot and of a bus take.\<close>

fun below_cost :: "pci_env \<Rightarrow> slot \<Rightarrow> nat" where
  "below_cost env (Leaf i v) = 0"
| "below_cost env (Bridge i v bs) = unat (env_sizeof_bus env) + 8 + (length bs * (unat (env_sizeof_device env) + 8) + sum_list (map (below_cost env) bs))"

definition bus_cost :: "pci_env \<Rightarrow> slot list \<Rightarrow> nat" where
  "bus_cost env ss = length ss * (unat (env_sizeof_device env) + 8) + sum_list (map (below_cost env) ss)"

text \<open>What a scan finds on a bus: devices with their slots, and static devices without one.\<close>

abbreviation slots_of :: "(dev_id \<times> slot option) list \<Rightarrow> slot list" where "slots_of xs \<equiv> List.map_filter snd xs"

definition devs_of :: "(dev_id \<times> slot option) list \<Rightarrow> dev_id list" where
  "devs_of xs = map fst (filter (\<lambda>(d, o'). o' \<noteq> None) xs)"

lemma slots_of_simps [simp]:
  "slots_of [] = []" "slots_of ((d, None) # xs) = slots_of xs" "slots_of ((d, Some x) # xs) = x # slots_of xs"
  "devs_of [] = []" "devs_of ((d, None) # xs) = devs_of xs" "devs_of ((d, Some x) # xs) = d # devs_of xs"
  by (simp_all add: map_filter_simps devs_of_def)

lemma devs_of_sub: "set (devs_of xs) \<subseteq> fst ` set xs"
  by (auto simp: devs_of_def)

definition bus_ready :: "pci_env \<Rightarrow> slot list \<Rightarrow> bus_id \<Rightarrow> nat \<Rightarrow> nat \<Rightarrow> slot list \<Rightarrow> nat \<Rightarrow> pci_state \<Rightarrow> bool" where
  "bus_ready env root b nr mx ss c s \<longleftrightarrow> walk_ok env root b nr ss 0 (b_children (buses s b)) s \<and> (\<forall>x \<in> set ss. behind_ok env (hw_fn (ps_hw s)) x)
     \<and> distinct (bus_fns ss) \<and> nr \<le> mx \<and> mx + bus_bridges ss \<le> 0xff \<and> b < frontier s \<and> room env (bus_cost env ss + c) s"

definition absent_static :: "pci_state \<Rightarrow> pci_state \<Rightarrow> bus_id \<Rightarrow> slot list \<Rightarrow> dev_id \<Rightarrow> bool" where
  "absent_static s s' b ss d \<longleftrightarrow> d \<in> set (b_children (buses s b)) \<and> is_pci s d \<and> \<not> d_enabled (devs s' d)
     \<and> path_of s' d = path_of s d \<and> (\<forall>x \<in> set ss. \<not> hit s (slot_devfn x) d)"

definition scanned :: "pci_env \<Rightarrow> bus_id \<Rightarrow> nat \<Rightarrow> nat \<Rightarrow> slot list \<Rightarrow> pci_state \<Rightarrow> pci_state \<Rightarrow> bool" where
  "scanned env b nr mx ss s s' \<longleftrightarrow> (\<exists>xs. keeps (set (b_children (buses s b))) {b} (set (bus_fns ss)) s s'
     \<and> buses s' b = (buses s b)\<lparr>b_children := map fst xs\<rparr> \<and> found s 0 (b_children (buses s b)) ss xs
     \<and> (\<forall>(d, o') \<in> set xs. d < frontier s' \<and> (o' = None \<longrightarrow> absent_static s s' b ss d))
     \<and> mirrors env (origin s) s' (hw_fn (ps_hw s)) (frontier s) (frontier s') b nr mx ss (devs_of xs))"

text \<open>A scan of the buses of at most a depth does what it should.\<close>

definition scans :: "pci_env \<Rightarrow> slot list \<Rightarrow> nat \<Rightarrow> (bus_id \<Rightarrow> u32 \<Rightarrow> u32 \<Rightarrow> u32 \<Rightarrow> pci_state \<Rightarrow> (u32 \<times> pci_state) option) \<Rightarrow> bool" where
  "scans env root n scan \<longleftrightarrow> (\<forall>b nr mx ss c s. bus_depth ss < n \<longrightarrow> bus_ready env root b nr mx ss c s \<longrightarrow>
     (\<exists>s'. scan b 0 0xff (of_nat mx) s = Some (of_nat (mx + bus_bridges ss), s') \<and> scanned env b nr mx ss s s' \<and> room env c s'))"

lemma bus_ok_cong: "bus_ok fn ss \<Longrightarrow> (\<And>i. i \<in> set (bus_fns ss) \<Longrightarrow> fn' i = fn i) \<Longrightarrow> bus_ok fn' ss"
  unfolding bus_ok_def using slot_fn_in by metis

lemma behind_ok_cong:
  "behind_ok env fn x \<Longrightarrow> (\<And>i. i \<in> set (slot_fns x) \<Longrightarrow> fn' i = fn i) \<Longrightarrow> behind_ok env fn' x"
proof (induction env fn x rule: behind_ok.induct)
  case (2 env fn i v bs)
  have "bus_ok fn' bs" by (rule bus_ok_cong [of fn]) (use "2.prems" in auto)
  moreover have "served env (slot_is_bridge x) (fn' (slot_fn x)) fresh \<and> behind_ok env fn' x" if x: "x \<in> set bs" for x
  proof
    have "slot_fn x \<in> set (bus_fns bs)" by (rule slot_fn_in [OF x])
    then have "fn' (slot_fn x) = fn (slot_fn x)" using "2.prems"(2) by simp
    then show "served env (slot_is_bridge x) (fn' (slot_fn x)) fresh" using "2.prems"(1) x by simp
    show "behind_ok env fn' x" by (rule "2.IH" [OF x]) (use "2.prems" x in auto)
  qed
  ultimately show ?case using "2.prems" by simp
qed simp

text \<open>A device that stands for a slot and is still to be scanned.\<close>

definition stands :: "pci_env \<Rightarrow> (bus_id \<Rightarrow> dev_id \<Rightarrow> nat \<Rightarrow> device) \<Rightarrow> (nat \<Rightarrow> pci_function) \<Rightarrow> bus_id \<Rightarrow> pci_state \<Rightarrow> dev_id \<Rightarrow> slot \<Rightarrow> bool" where
  "stands env org fn b s d x \<longleftrightarrow> devs s d = identified env (fn (slot_fn x)) (org b d (slot_devfn x)) \<and> sits b (slot_devfn x) (devs s d)
     \<and> served env (slot_is_bridge x) (fn (slot_fn x)) (org b d (slot_devfn x)) \<and> behind_ok env fn x
     \<and> (\<forall>l \<in> set (d_link_list (devs s d)). l < frontier s \<and> \<not> b_reset_needed (buses s l))"

text \<open>From the end of the heap up there are only devices that the scan adds.\<close>

definition news :: "(bus_id \<Rightarrow> dev_id \<Rightarrow> nat \<Rightarrow> device) \<Rightarrow> nat \<Rightarrow> bool" where
  "news org lo \<longleftrightarrow> (\<forall>b d v. lo \<le> d \<longrightarrow> org b d v = new_device b (pci_path (of_nat v)))"

lemma news_origin: "frontier s \<le> lo \<Longrightarrow> news (origin s) lo"
  by (simp add: news_def origin_def)

text \<open>A bus on which the devices for \<open>pre\<close> have been scanned and the devices \<open>xs\<close> are still to be scanned.\<close>

definition half_scanned ::
  "pci_env \<Rightarrow> slot list \<Rightarrow> (bus_id \<Rightarrow> dev_id \<Rightarrow> nat \<Rightarrow> device) \<Rightarrow> (nat \<Rightarrow> pci_function) \<Rightarrow> bus_id \<Rightarrow> nat \<Rightarrow> nat \<Rightarrow> slot list \<Rightarrow> (dev_id \<times> slot option) list \<Rightarrow> nat \<Rightarrow> pci_state \<Rightarrow> bool" where
  "half_scanned env root org fn b nr mx pre xs c s \<longleftrightarrow> on_bus root s b nr (pre @ slots_of xs) \<and> bus_ok fn (pre @ slots_of xs) \<and> distinct (bus_fns (pre @ slots_of xs))
     \<and> (\<forall>i \<in> set (bus_fns (slots_of xs)). hw_fn (ps_hw s) i = fn i)
     \<and> (\<forall>(d, o') \<in> set xs. d < frontier s \<and> is_pci s d \<and> (case o' of None \<Rightarrow> \<not> d_enabled (devs s d) | Some x \<Rightarrow> stands env org fn b s d x))
     \<and> distinct (map fst xs) \<and> news org (frontier s)
     \<and> (\<forall>i v bs. Bridge i v bs \<in> set pre \<longrightarrow> subordinate_of (bus_numbers (ps_hw s) i) \<le> mx)
     \<and> nr \<le> mx \<and> mx + bus_bridges (slots_of xs) \<le> 0xff \<and> b < frontier s \<and> room env (sum_list (map (below_cost env) (slots_of xs)) + c) s"

lemma behind_bridge_ready:
  assumes half: "half_scanned env root org fn b nr mx pre ((d, Some (Bridge i v bs)) # xs) c s"
    and s1: "buses s1 = (buses s)(l := \<lparr>b_dev = d, b_children = [], b_bridge_ctrl = 0, b_link_num = 0, b_secondary = of_nat (Suc mx), b_subordinate = 0xff, b_reset_needed = False\<rparr>)"
    and hw: "ps_hw s1 = ps_hw (upd_fn i (open_bridge nrs) s)" and nums: "numbers nrs = (nr, Suc mx, 0xff)" and l: "l < frontier s1"
    and room: "room env (bus_cost env bs + c') s1"
  shows "bus_ready env root l (Suc mx) (Suc mx) bs c' s1"
proof -
  let ?rest = "slots_of xs"
  have on: "on_bus root s b nr (pre @ Bridge i v bs # ?rest)" and dist: "distinct (bus_fns (pre @ Bridge i v bs # ?rest))"
    and fn: "\<forall>j \<in> set (bus_fns (Bridge i v bs # ?rest)). hw_fn (ps_hw s) j = fn j" and ok: "behind_ok env fn (Bridge i v bs)"
    and pre: "\<forall>j w cs. Bridge j w cs \<in> set pre \<longrightarrow> subordinate_of (bus_numbers (ps_hw s) j) \<le> mx"
    and mx: "nr \<le> mx" "mx + bus_bridges (Bridge i v bs # ?rest) \<le> 0xff"
    using half by (simp_all add: half_scanned_def stands_def del: behind_ok.simps)
  have wr: "numbers_writable (hw_fn (ps_hw s) i)" using ok fn numbers_clear_writable by simp
  have i: "numbers (bus_numbers (ps_hw s1) i) = (nr, Suc mx, 0xff)"
    using wr nums by (simp add: bus_numbers_def hw open_bridge_def numbers_write)
  have other: "hw_fn (ps_hw s1) j = hw_fn (ps_hw s) j" if "j \<noteq> i" for j using that by (simp add: hw)
  have inpre: "j \<in> set (bus_fns pre)" if "Bridge j w cs \<in> set pre" for j w cs using slot_fn_in [OF that] by simp
  have below: "\<forall>j w cs. Bridge j w cs \<in> set pre \<longrightarrow> subordinate_of (bus_numbers (ps_hw s1) j) < Suc mx"
  proof (intro allI impI)
    fix j w cs assume j: "Bridge j w cs \<in> set pre"
    then have "j \<noteq> i" using inpre [OF j] dist by auto
    then show "subordinate_of (bus_numbers (ps_hw s1) j) < Suc mx" using pre j by (auto simp: bus_numbers_def other less_Suc_eq_le)
  qed
  have "delegated root (bus_numbers (ps_hw s1)) (Suc mx) bs"
  proof (rule delegated_bridge [OF delegated_cong [of root "bus_numbers (ps_hw s)" nr]])
    show "delegated root (bus_numbers (ps_hw s)) nr (pre @ Bridge i v bs # ?rest)" using on by (simp add: on_bus_def)
    show "bus_numbers (ps_hw s1) j = bus_numbers (ps_hw s) j" if "j \<notin> set (bus_fns (pre @ Bridge i v bs # ?rest))" for j
      using that by (auto simp: bus_numbers_def hw)
  qed (use i below dist mx(1) in \<open>auto simp: numbers_def\<close>)
  then have "on_bus root s1 l (Suc mx) bs" using on mx(2) by (simp add: on_bus_def wired_as_def s1 hw)
  moreover have same: "hw_fn (ps_hw s1) j = fn j" if "j \<in> set (bus_fns bs)" for j using that dist fn other by fastforce
  moreover have "bus_ok (hw_fn (ps_hw s1)) bs" by (rule bus_ok_cong [of fn]) (use ok same in auto)
  moreover have "served env (slot_is_bridge x) (hw_fn (ps_hw s1) (slot_fn x)) fresh" if "x \<in> set bs" for x
    using ok same slot_fn_in [OF that] that by simp
  moreover have "behind_ok env (hw_fn (ps_hw s1)) x" if "x \<in> set bs" for x by (rule behind_ok_cong [of env fn]) (use ok same that in auto)
  ultimately show ?thesis using dist mx l room by (simp add: bus_ready_def walk_ok_def waiting_def s1)
qed

section \<open>Scanning a bridge\<close>

lemma numbers_open_bridge:
  "numbers_writable f \<Longrightarrow> numbers (cfg_read32 (open_bridge nrs f) 0x18) = numbers nrs"
  by (simp add: open_bridge_def numbers_write)

lemma numbers_close_bridge:
  "numbers_writable f \<Longrightarrow> numbers (cfg_read32 (close_bridge nrs cr f) 0x18) = numbers nrs"
  by (simp add: close_bridge_def numbers_write numbers_command)

lemma of_nat_small_ucast: "n \<le> 0xff \<Longrightarrow> (ucast (of_nat n :: u32) :: u16) = of_nat n"
  by (simp add: word_unat_eq_iff unsigned_ucast_eq unsigned_of_nat take_bit_nat_eq_self)

lemma mirrors_bridgeI:
  assumes "devs s d = (identified env (fn i) (org b d v))\<lparr>d_link_list := [l]\<rparr>" and "sits b v (devs s d)" and "lo \<le> l" and "l < hi" and "bridge_link s d l (Suc mx) (Suc mx + bus_bridges bs)"
    and "numbers (bus_numbers (ps_hw s) i) = (nr, Suc mx, Suc mx + bus_bridges bs)"
    and "\<forall>c \<in> set (b_children (buses s l)). lo \<le> c \<and> c < hi" and "mirrors env org s fn lo hi l (Suc mx) (Suc mx) bs (b_children (buses s l))"
  shows "mirrors env org s fn lo hi b nr mx [Bridge i v bs] [d]"
  using assms by (simp add: Let_def)

lemma scanned_new_bus:
  assumes "scanned env b nr mx ss s s'" and "b_children (buses s b) = []"
  defines "ds \<equiv> b_children (buses s' b)"
  shows "keeps {} {b} (set (bus_fns ss)) s s'" "buses s' b = (buses s b)\<lparr>b_children := ds\<rparr>"
    "\<forall>d \<in> set ds. frontier s \<le> d \<and> d < frontier s'"
    "mirrors env (origin s) s' (hw_fn (ps_hw s)) (frontier s) (frontier s') b nr mx ss ds"
proof -
  obtain xs where k: "keeps {} {b} (set (bus_fns ss)) s s'" and bu: "buses s' b = (buses s b)\<lparr>b_children := map fst xs\<rparr>"
    and fnd: "found s 0 [] ss xs" and each: "\<forall>(d, o') \<in> set xs. d < frontier s' \<and> (o' = None \<longrightarrow> absent_static s s' b ss d)"
    and mir: "mirrors env (origin s) s' (hw_fn (ps_hw s)) (frontier s) (frontier s') b nr mx ss (devs_of xs)"
    using assms(1,2) by (auto simp: scanned_def)
  have some: "o' \<noteq> None \<and> frontier s \<le> d" if "(d, o') \<in> set xs" for d o' using foundD [OF fnd that] by (cases o') simp_all
  then have "filter (\<lambda>(d, o'). o' \<noteq> None) xs = xs" by (auto simp: filter_id_conv)
  then have ds: "devs_of xs = ds" "ds = map fst xs" by (simp_all add: devs_of_def ds_def bu)
  show "keeps {} {b} (set (bus_fns ss)) s s'" by (rule k)
  show "\<forall>d \<in> set ds. frontier s \<le> d \<and> d < frontier s'" using each some by (force simp: ds(2))
  show "buses s' b = (buses s b)\<lparr>b_children := ds\<rparr>" using bu ds by simp
  show "mirrors env (origin s) s' (hw_fn (ps_hw s)) (frontier s) (frontier s') b nr mx ss ds" using mir ds by simp
qed

lemma scanned_bridge_mirrors:
  assumes s1: "devs s1 d = (identified env (fn i) (org b d v))\<lparr>d_link_list := [l]\<rparr>" "sits b v (devs s1 d)" "hw_fn (ps_hw s1) i = open_bridge nrs f"
    "buses s1 l = \<lparr>b_dev = d, b_children = [], b_bridge_ctrl = 0, b_link_num = 0, b_secondary = of_nat (Suc mx), b_subordinate = 0xff, b_reset_needed = False\<rparr>"
    and nums: "numbers nrs = (nr, Suc mx, 0xff)" and wr: "numbers_writable f" and mx: "Suc mx + bus_bridges bs \<le> 0xff"
    and i: "i \<notin> set (bus_fns bs)" and fn: "\<And>j. j \<in> set (bus_fns bs) \<Longrightarrow> hw_fn (ps_hw s1) j = fn j"
    and lo: "lo \<le> l" "lo \<le> frontier s1" "l < frontier s1" "d < frontier s1"
    and news: "news org (frontier s1)" and scanned: "scanned env l (Suc mx) (Suc mx) bs s1 s2"
    and s': "s' = upd_fn i (close_bridge ((nrs AND 0xff00ffff) OR push_bit 16 (ucast (ucast (of_nat (Suc mx + bus_bridges bs) :: u32) :: u16))) cr)
       (upd_bus l (\<lambda>b. b\<lparr>b_subordinate := ucast (of_nat (Suc mx + bus_bridges bs) :: u32)\<rparr>) s2)"
  shows "mirrors env org s' fn lo (frontier s') b nr mx [Bridge i v bs] [d]"
proof (rule mirrors_bridgeI [where l = l])
  let ?cs = "b_children (buses s2 l)"
  have k: "keeps {} {l} (set (bus_fns bs)) s1 s2" and bl: "buses s2 l = (buses s1 l)\<lparr>b_children := ?cs\<rparr>"
    and cs: "\<forall>d \<in> set ?cs. frontier s1 \<le> d \<and> d < frontier s2"
    and mir: "mirrors env (origin s1) s2 (hw_fn (ps_hw s1)) (frontier s1) (frontier s2) l (Suc mx) (Suc mx) bs ?cs"
    using scanned_new_bus [OF scanned] by (simp_all add: s1(4))
  have cs': "b_children (buses s' l) = ?cs" by (simp add: s')
  show "devs s' d = (identified env (fn i) (org b d v))\<lparr>d_link_list := [l]\<rparr>" using k lo(4) s1(2) by (simp add: s' keeps_def sits_def s1(1))
  show "sits b v (devs s' d)" using k lo(4) s1(2) by (simp add: s' keeps_def sits_def)
  show "l < frontier s'" using k lo(3) by (simp add: s' keeps_def)
  show "bridge_link s' d l (Suc mx) (Suc mx + bus_bridges bs)"
  proof -
    have "b_dev (buses s2 l) = d" "b_secondary (buses s2 l) = of_nat (Suc mx)" "\<not> b_reset_needed (buses s2 l)" by (subst bl, simp add: s1(4))+
    then show ?thesis using of_nat_small_ucast [OF mx] by (simp add: s' bridge_link_def del: of_nat_Suc of_nat_add)
  qed
  show "numbers (bus_numbers (ps_hw s') i) = (nr, Suc mx, Suc mx + bus_bridges bs)"
  proof -
    have "hw_fn (ps_hw s2) i = open_bridge nrs f" using k i s1(3) by (simp add: keeps_def)
    then have w: "numbers_writable (hw_fn (ps_hw s2) i)" using wr by (simp add: open_bridge_def)
    show ?thesis using numbers_close_bridge [OF w] numbers_close [OF nums mx]
      by (simp only: s' bus_numbers_def upd_fn_fields upd_bus_fields fun_upd_same of_nat_small_ucast [OF mx])
  qed
  show "\<forall>c \<in> set (b_children (buses s' l)). lo \<le> c \<and> c < frontier s'" using cs lo(2) by (auto simp: cs') (simp add: s')
  show "mirrors env org s' fn lo (frontier s') l (Suc mx) (Suc mx) bs (b_children (buses s' l))"
    unfolding cs' by (rule mirrors_stable [OF mir]) (use cs i fn lo news in \<open>auto simp: s' bus_numbers_def news_def origin_def\<close>)
qed (rule lo(1))

lemma bridge_scanned:
  assumes scans: "scans env root n scan" and depth: "bus_depth bs < n"
    and half: "half_scanned env root org fn b nr mx pre ((d, Some (Bridge i v bs)) # xs) c s"
  obtains s' where "do_pci_scan_bridge env scan d (of_nat mx) s = Some (of_nat (mx + slot_bridges (Bridge i v bs)), s')"
    "keeps {d} {} (set (slot_fns (Bridge i v bs))) s s'" "mirrors env org s' fn (frontier s) (frontier s') b nr mx [Bridge i v bs] [d]"
    "room env (sum_list (map (below_cost env) (slots_of xs)) + c) s'"
proof -
  let ?m = "Suc mx" and ?m' = "Suc mx + bus_bridges bs" and ?c = "sum_list (map (below_cost env) (slots_of xs)) + c" and ?x = "Bridge i v bs"
  have on: "on_bus root s b nr (pre @ ?x # slots_of xs)" and ok: "bus_ok fn (pre @ ?x # slots_of xs)" and dist: "distinct (bus_fns (pre @ ?x # slots_of xs))"
    and dev: "devs s d = identified env (fn i) (org b d v)" "sits b (slot_devfn ?x) (devs s d)" "is_pci s d" and news: "news org (frontier s)"
    and nolink: "d_link_list (devs s d) = []" and wr: "numbers_writable (hw_fn (ps_hw s) i)"
    and b: "b < frontier s" "d < frontier s" and mx: "nr \<le> mx" "?m' \<le> 0xff"
    and room: "room env (unat (env_sizeof_bus env) + 8 + (bus_cost env bs + ?c)) s"
    using half numbers_clear_writable by (auto simp: half_scanned_def stands_def served_def slot_is_bridge_def bus_cost_def ac_simps split: option.splits)
  have x: "?x \<in> set (pre @ ?x # slots_of xs)" by simp
  have mx': "mx < 0xff" using mx(2) by simp
  obtain l s1 nrs cr where s1: "devs s1 = (devs s)(d := (devs s d)\<lparr>d_link_list := [l]\<rparr>)"
    "buses s1 = (buses s)(l := \<lparr>b_dev = d, b_children = [], b_bridge_ctrl = 0, b_link_num = 0, b_secondary = of_nat ?m, b_subordinate = 0xff, b_reset_needed = False\<rparr>)"
    "ps_hw s1 = ps_hw (upd_fn (slot_fn ?x) (open_bridge nrs) s)" "numbers nrs = (nr, ?m, 0xff)"
    "frontier s \<le> l" "l < frontier s1" "room env (bus_cost env bs + ?c) s1"
    "\<forall>scan mx' s2. scan l 0 0xff (of_nat ?m) s1 = Some (mx', s2) \<longrightarrow> on_bus root s2 b nr (pre @ ?x # slots_of xs) \<longrightarrow> devs s2 d = devs s1 d \<longrightarrow>
       do_pci_scan_bridge env scan d (of_nat mx) s = Some (mx', upd_fn (slot_fn ?x)
         (close_bridge ((nrs AND 0xff00ffff) OR push_bit 16 (ucast (ucast mx' :: u16))) cr) (upd_bus l (\<lambda>b. b\<lparr>b_subordinate := ucast mx'\<rparr>) s2))"
    by (rule do_pci_scan_bridge_opens [OF on ok x dev(2) nolink b(1) mx' room])
  note hw1 = s1(3) [simplified slot_fn.simps]
  have ready: "bus_ready env root l ?m ?m bs ?c s1" by (rule behind_bridge_ready [OF half s1(2) hw1 s1(4,6,7)])
  then obtain s2 where s2: "scan l 0 0xff (of_nat ?m) s1 = Some (of_nat ?m', s2)" "scanned env l ?m ?m bs s1 s2" "room env ?c s2"
    using scans depth unfolding scans_def by blast
  have k: "keeps {} {l} (set (bus_fns bs)) s1 s2" using scanned_new_bus(1) [OF s2(2)] by (simp add: s1(2))
  have f1: "frontier s \<le> frontier s1" and f2: "frontier s1 \<le> frontier s2" using s1(5,6) k by (simp_all add: keeps_def)
  have lb: "l \<noteq> b" and ld: "b < frontier s1" "d < frontier s1" using b s1(5,6) by auto
  have k01: "keeps {d} {} {i} s s1" using s1(1,2,3,5) f1 by (auto simp: keeps_def)
  have on2: "on_bus root s2 b nr (pre @ ?x # slots_of xs)"
    by (rule on_bus_keeps [OF on]) (use k k01 lb ld b in \<open>auto simp: keeps_def\<close>)
  have d2: "devs s2 d = devs s1 d" using k ld dev(3) by (simp add: keeps_def s1(1))
  let ?nrs = "(nrs AND 0xff00ffff) OR push_bit 16 (ucast (ucast (of_nat ?m' :: u32) :: u16))"
  let ?s' = "upd_fn i (close_bridge ?nrs cr) (upd_bus l (\<lambda>b. b\<lparr>b_subordinate := ucast (of_nat ?m' :: u32)\<rparr>) s2)"
  have "do_pci_scan_bridge env scan d (of_nat mx) s = Some (of_nat (mx + slot_bridges ?x), ?s')"
    using s1(8) [rule_format, where scan = scan, OF s2(1) on2 d2] by simp
  moreover have "keeps {d} {} (set (slot_fns ?x)) s ?s'"
  proof (rule keeps_trans [OF k01])
    show "keeps {} {l} (set (slot_fns ?x)) s1 ?s'" using k by (auto simp: keeps_def)
  qed (use s1(5) in auto)
  moreover have "mirrors env org ?s' fn (frontier s) (frontier ?s') b nr mx [?x] [d]"
  proof (rule scanned_bridge_mirrors [OF _ _ _ _ s1(4) wr mx(2) _ _ s1(5) f1 s1(6) ld(2) _ s2(2) refl])
    show "hw_fn (ps_hw s1) j = fn j" if "j \<in> set (bus_fns bs)" for j
      using that dist half by (auto simp: hw1 half_scanned_def)
  qed (use dev dist news f1 in \<open>auto simp: s1(1,2) hw1 news_def\<close>)
  moreover have "room env ?c ?s'" using s2(3) by (simp add: room_def)
  ultimately show thesis by (rule that)
qed

section \<open>Scanning the devices of a bus\<close>

lemma pciexp_scan_bus_same: "pciexp_scan_bus scan = scan"
proof -
  have "pciexp_tune_dev d s = s" for d s by (simp add: pciexp_tune_dev_def Let_def)
  then have "fold (\<lambda>child s. if P child s then s else pciexp_tune_dev child s) ds s = s" for P ds and s :: pci_state
    by (induction ds) simp_all
  then have "pciexp_scan_bus scan b lo hi mx s = scan b lo hi mx s" for b lo hi mx s
    by (simp add: pciexp_scan_bus_def split: bind_split)
  then show ?thesis by (intro ext)
qed

text \<open>Links that need no reset end the loop of \<^verbatim>\<open>scan_bus\<close>.\<close>

lemma reset_links_none:
  assumes "\<forall>l \<in> set (d_link_list (devs s d)). \<not> b_reset_needed (buses s l)"
  shows "reset_links hook d s = Some (False, s)"
proof -
  have "fold_opt (\<lambda>link (do_scan_bus, t). if b_reset_needed (buses t link) then f link do_scan_bus t else Some (do_scan_bus, t)) ls (False, s) = Some (False, s)"
    if "\<forall>l \<in> set ls. \<not> b_reset_needed (buses s l)" for f ls
    using that by (induction ls) simp_all
  from this [OF assms] show ?thesis unfolding reset_links_def .
qed

lemma scan_bus_op:
  assumes "d_enabled (devs s d)" and "dev_op s d op_scan_bus = Some f" and "scan f d mx s = Some (mx', s')" and "0 < k"
    and "\<forall>l \<in> set (d_link_list (devs s' d)). \<not> b_reset_needed (buses s' l)"
  shows "scan_bus k hook scan (Some d) mx s = Some (mx', s')"
proof -
  obtain k' where "k = Suc k'" using assms(4) gr0_implies_Suc by blast
  then show ?thesis using assms(1-3) reset_links_none [OF assms(5)] by (simp add: scan_bus_def)
qed

lemma leaf_scanned:
  assumes st: "stands env org fn b s d (Leaf i v)" and k: "0 < k"
  obtains s' where "scan_bus k hook (scan_op env scan) (Some d) mx s = Some (mx, s')" "same_pci s s'"
proof -
  have dev: "devs s d = identified env (fn i) (org b d v)" and sits: "sits b v (devs s d)" and sv: "served env False (fn i) (org b d v)"
    and links: "\<forall>l \<in> set (d_link_list (devs s d)). \<not> b_reset_needed (buses s l)"
    using st unfolding stands_def slot_is_bridge_def slot_fn.simps slot_devfn.simps slot.case by blast+
  have pci: "is_pci s d" using sits by (simp add: sits_def)
  obtain ops where ops: "chosen_ops env (fn i) (org b d v) = Some ops" using sv by (rule served_chosen)
  have op: "dev_op s d op_scan_bus = Option.bind ops op_scan_bus" by (simp add: dev_op_def dev ops)
  consider "\<not> d_enabled (devs s d)" | "dev_op s d op_scan_bus = None" | f where "d_enabled (devs s d)" "dev_op s d op_scan_bus = Some f" by fastforce
  then show thesis
  proof cases
    case (3 f)
    then have "idle env (Some f)" using sv by (simp add: served_def ops op [symmetric] dev)
    then have f: "f \<noteq> PCI_SCAN_BRIDGE" "f \<noteq> PCIEXP_SCAN_BRIDGE" "\<exists>s'. env_scan env f d mx s = Some (mx, s') \<and> same_pci s s'" by (simp_all add: idle_def)
    then obtain s' where s': "scan_op env scan f d mx s = Some (mx, s')" "same_pci s s'" by (auto simp: scan_op_def)
    have "scan_bus k hook (scan_op env scan) (Some d) mx s = Some (mx, s')"
      by (rule scan_bus_op [where f = f and scan = "scan_op env scan", OF 3 s'(1) k]) (use links pci s'(2) in \<open>simp add: same_pci_def\<close>)
    then show thesis using s'(2) by (rule that)
  qed (rule that [OF _ same_pci_refl], simp add: scan_bus_def)+
qed

lemma bridge_op:
  assumes "stands env org fn b s d (Bridge i v bs)" and "do_pci_scan_bridge env scan d mx s = Some (mx', s')" and "0 < k"
    and "\<forall>l \<in> set (d_link_list (devs s' d)). \<not> b_reset_needed (buses s' l)"
  shows "scan_bus k hook (scan_op env scan) (Some d) mx s = Some (mx', s')"
proof -
  have dev: "devs s d = identified env (fn i) (org b d v)" and sv: "served env True (fn i) (org b d v)"
    using assms(1) by (simp_all add: stands_def slot_is_bridge_def)
  obtain ops where ops: "chosen_ops env (fn i) (org b d v) = Some ops" using sv by (rule served_chosen)
  have en: "d_enabled (devs s d)" and op: "dev_op s d op_scan_bus \<in> {Some PCI_SCAN_BRIDGE, Some PCIEXP_SCAN_BRIDGE}"
    using sv by (simp_all add: served_def ops dev_op_def dev)
  then obtain f where f: "dev_op s d op_scan_bus = Some f" "f = PCI_SCAN_BRIDGE \<or> f = PCIEXP_SCAN_BRIDGE" by auto
  then have "scan_op env scan f d mx s = Some (mx', s')" using assms(2) by (auto simp: scan_op_def pciexp_scan_bus_same)
  then show ?thesis by (rule scan_bus_op [where f = f and scan = "scan_op env scan", OF en f(1) _ assms(3,4)])
qed

lemma mirrors_Cons:
  assumes "mirrors env org s fn lo hi b nr mx [x] [d]" and "mirrors env org s fn lo hi b nr (mx + slot_bridges x) ss ds"
  shows "mirrors env org s fn lo hi b nr mx (x # ss) (d # ds)"
proof (cases x)
  case (Leaf i v)
  show ?thesis using assms unfolding Leaf mirrors.simps slot_bridges.simps add_0_right by blast
qed (use assms in \<open>simp add: Let_def\<close>)

abbreviation scan_child where
  "scan_child k env scan \<equiv> \<lambda>child (mx, s). scan_bus k (reset_hook env) (scan_op env scan) (Some child) mx s"

lemma child_scanned:
  assumes scans: "scans env root n scan" and depth: "slot_depth x \<le> n" and k: "0 < k"
    and half: "half_scanned env root org fn b nr mx pre ((d, Some x) # xs) c s"
  obtains s' where "scan_child k env scan d (of_nat mx, s) = Some (of_nat (mx + slot_bridges x), s')"
    "keeps {d} {} (set (slot_fns x)) s s'" "mirrors env org s' fn (frontier s) (frontier s') b nr mx [x] [d]"
    "room env (sum_list (map (below_cost env) (slots_of xs)) + c) s'"
proof -
  have st: "stands env org fn b s d x" and pci: "is_pci s d" using half by (simp_all add: half_scanned_def)
  show thesis
  proof (cases x)
    case (Leaf i v)
    obtain s' where s': "scan_bus k (reset_hook env) (scan_op env scan) (Some d) (of_nat mx) s = Some (of_nat mx, s')" "same_pci s s'"
      by (rule leaf_scanned [OF st [unfolded Leaf] k])
    have d: "devs s' d = devs s d" using s'(2) pci by (simp add: same_pci_def)
    have "mirrors env org s' fn (frontier s) (frontier s') b nr mx [Leaf i v] [d]"
      using st unfolding mirrors.simps d stands_def Leaf slot_fn.simps slot_devfn.simps by blast
    moreover have "room env (sum_list (map (below_cost env) (slots_of xs)) + c) s'" using half by (simp add: room_same(1) [OF s'(2)] half_scanned_def Leaf)
    ultimately show thesis
      by (intro that [of s', OF _ keeps_same [OF s'(2)]]) (simp_all only: Leaf prod.case s'(1) slot_bridges.simps add_0_right)
  next
    case (Bridge i v bs)
    have depth': "bus_depth bs < n" using depth by (simp add: Bridge)
    obtain s' where s': "do_pci_scan_bridge env scan d (of_nat mx) s = Some (of_nat (mx + slot_bridges (Bridge i v bs)), s')"
      "keeps {d} {} (set (slot_fns (Bridge i v bs))) s s'" "mirrors env org s' fn (frontier s) (frontier s') b nr mx [Bridge i v bs] [d]"
      "room env (sum_list (map (below_cost env) (slots_of xs)) + c) s'"
      by (rule bridge_scanned [OF scans depth' half [unfolded Bridge]])
    let ?l = "hd (d_link_list (devs s' d))"
    have l: "devs s' d = (identified env (fn i) (org b d v))\<lparr>d_link_list := [?l]\<rparr>" "\<not> b_reset_needed (buses s' ?l)"
      using s'(3) by (simp_all add: Let_def bridge_link_def)
    have links: "\<forall>l \<in> set (d_link_list (devs s' d)). \<not> b_reset_needed (buses s' l)" using l(2) by (subst l(1)) simp
    have "scan_child k env scan d (of_nat mx, s) = Some (of_nat (mx + slot_bridges (Bridge i v bs)), s')"
      unfolding prod.case by (rule bridge_op [OF st [unfolded Bridge] s'(1) k links])
    then show thesis using s'(2-4) by (rule that [unfolded Bridge])
  qed
qed
lemma stands_keeps:
  assumes "stands env org fn b s e y" and "keeps {d} {} F s s'" and "e \<noteq> d" and "e < frontier s" and "is_pci s e"
  shows "stands env org fn b s' e y"
proof -
  have dev: "devs s' e = devs s e" using assms(2-5) by (simp add: keeps_def)
  have "l < frontier s' \<and> \<not> b_reset_needed (buses s' l)" if "l < frontier s" "\<not> b_reset_needed (buses s l)" for l
    using assms(2) that by (simp add: keeps_def)
  then show ?thesis using assms(1) unfolding stands_def dev by blast
qed

lemma half_scanned_step:
  assumes half: "half_scanned env root org fn b nr mx pre ((d, Some x) # xs) c s"
    and k: "keeps {d} {} (set (slot_fns x)) s s'" and m: "mirrors env org s' fn lo hi b nr mx [x] [d]"
    and room: "room env (sum_list (map (below_cost env) (slots_of xs)) + c) s'"
  shows "half_scanned env root org fn b nr (mx + slot_bridges x) (pre @ [x]) xs c s'"
proof -
  let ?rest = "slots_of xs"
  have dist: "distinct (bus_fns (pre @ x # ?rest))" and b: "b < frontier s" and on: "on_bus root s b nr (pre @ x # ?rest)"
    and ds: "distinct (d # map fst xs)" and news: "news org (frontier s)"
    and each: "\<forall>(e, o') \<in> set xs. e < frontier s \<and> is_pci s e \<and> (case o' of None \<Rightarrow> \<not> d_enabled (devs s e) | Some y \<Rightarrow> stands env org fn b s e y)"
    and below: "\<forall>i v bs. Bridge i v bs \<in> set pre \<longrightarrow> subordinate_of (bus_numbers (ps_hw s) i) \<le> mx"
    using half by (simp_all add: half_scanned_def)
  have f: "frontier s \<le> frontier s'" using k by (simp add: keeps_def)
  have on': "on_bus root s' b nr ((pre @ [x]) @ ?rest)"
    by (rule on_bus_keeps [of _ s]) (use on k b in \<open>auto simp: keeps_def\<close>)
  have "e < frontier s' \<and> is_pci s' e \<and> (case o' of None \<Rightarrow> \<not> d_enabled (devs s' e) | Some y \<Rightarrow> stands env org fn b s' e y)" if e: "(e, o') \<in> set xs" for e o'
  proof -
    have ne: "e \<noteq> d" using ds e by force
    have old: "e < frontier s" "is_pci s e" "case o' of None \<Rightarrow> \<not> d_enabled (devs s e) | Some y \<Rightarrow> stands env org fn b s e y" using each e by auto
    then have "devs s' e = devs s e" using k ne by (simp add: keeps_def)
    then show ?thesis using old f stands_keeps [OF _ k ne old(1,2)] by (auto split: option.splits)
  qed
  moreover have "subordinate_of (bus_numbers (ps_hw s') i) \<le> mx + slot_bridges x" if i: "Bridge i v bs \<in> set (pre @ [x])" for i v bs
  proof (cases "Bridge i v bs = x")
    case True
    then show ?thesis using mirrors_below [OF m, of i v bs] by simp
  next
    case False
    then have pre: "Bridge i v bs \<in> set pre" using i by simp
    then have "i \<notin> set (slot_fns x)" using slot_fn_in [OF pre] dist by auto
    then have "bus_numbers (ps_hw s') i = bus_numbers (ps_hw s) i" using k by (simp add: keeps_def bus_numbers_def)
    then show ?thesis using below pre by (metis trans_le_add1)
  qed
  moreover have "hw_fn (ps_hw s') i = fn i" if i: "i \<in> set (bus_fns ?rest)" for i
  proof -
    have "i \<notin> set (slot_fns x)" using dist i by auto
    then show ?thesis using k half i by (simp add: half_scanned_def keeps_def)
  qed
  moreover have "news org (frontier s')" using news f by (simp add: news_def)
  ultimately show ?thesis using half on' room f by (auto simp: half_scanned_def)
qed

lemma half_scanned_skip:
  "half_scanned env root org fn b nr mx pre ((d, None) # xs) c s \<Longrightarrow> half_scanned env root org fn b nr mx pre xs c s"
  by (simp add: half_scanned_def)

lemma children_scanned:
  assumes scans: "scans env root n scan" and k: "0 < k"
  shows "half_scanned env root org fn b nr mx pre xs c s \<Longrightarrow> bus_depth (slots_of xs) \<le> n \<Longrightarrow>
    \<exists>s'. fold_opt (scan_child k env scan) (map fst xs) (of_nat mx, s) = Some (of_nat (mx + bus_bridges (slots_of xs)), s')
      \<and> keeps (set (devs_of xs)) {} (set (bus_fns (slots_of xs))) s s'
      \<and> mirrors env org s' fn (frontier s) (frontier s') b nr mx (slots_of xs) (devs_of xs) \<and> room env c s'"
proof (induction xs arbitrary: mx pre s)
  case Nil
  then show ?case using keeps_refl by (auto simp: half_scanned_def)
next
  case (Cons p xs)
  obtain d o' where p: "p = (d, o')" by (cases p)
  show ?case
  proof (cases o')
    case None
    have "\<not> d_enabled (devs s d)" using Cons.prems(1) by (simp add: p None half_scanned_def)
    then have "scan_child k env scan d (of_nat mx, s) = Some (of_nat mx, s)" by (simp add: scan_bus_def)
    then show ?thesis using Cons.IH [OF half_scanned_skip] Cons.prems by (simp add: p None)
  next
    case (Some x)
    note half = Cons.prems(1) [unfolded p Some]
    have depth: "slot_depth x \<le> n" "bus_depth (slots_of xs) \<le> n" using Cons.prems(2) by (simp_all add: p Some)
    obtain s1 where s1: "scan_child k env scan d (of_nat mx, s) = Some (of_nat (mx + slot_bridges x), s1)"
      "keeps {d} {} (set (slot_fns x)) s s1" "mirrors env org s1 fn (frontier s) (frontier s1) b nr mx [x] [d]"
      "room env (sum_list (map (below_cost env) (slots_of xs)) + c) s1"
      by (rule child_scanned [OF scans depth(1) k half])
    note half1 = half_scanned_step [OF half s1(2,3,4)]
    from Cons.IH [OF half1 depth(2)] obtain s2 where
      s2: "fold_opt (scan_child k env scan) (map fst xs) (of_nat (mx + slot_bridges x), s1) = Some (of_nat (mx + slot_bridges x + bus_bridges (slots_of xs)), s2)"
      "keeps (set (devs_of xs)) {} (set (bus_fns (slots_of xs))) s1 s2"
      "mirrors env org s2 fn (frontier s1) (frontier s2) b nr (mx + slot_bridges x) (slots_of xs) (devs_of xs)" "room env c s2"
      by blast
    have f: "frontier s \<le> frontier s1" "frontier s1 \<le> frontier s2" using s1(2) s2(2) by (simp_all add: keeps_def)
    have dist: "distinct (bus_fns (pre @ x # slots_of xs))" "d \<notin> fst ` set xs" "\<forall>e \<in> fst ` set xs. e < frontier s" "d < frontier s"
      using half by (auto simp: half_scanned_def)
    have sub: "set (devs_of xs) \<subseteq> fst ` set xs" by (rule devs_of_sub)
    have "mirrors env org s2 fn (frontier s) (frontier s2) b nr mx [x] [d]"
    proof (rule mirrors_stable [OF s1(3)])
      fix e assume e: "e \<in> set [d] \<or> frontier s \<le> e \<and> e < frontier s1" and pci: "is_pci s1 e"
      have "\<forall>e' \<in> set (devs_of xs). e' < frontier s \<and> e' \<noteq> d" using dist(2,3) sub by auto
      then have "e \<notin> set (devs_of xs)" "e < frontier s1" using e dist(4) f(1) by (auto simp: not_less [symmetric])
      then show "devs s2 e = devs s1 e" using s2(2) pci by (simp add: keeps_def)
    next
      fix i assume "i \<in> set (bus_fns [x])"
      then have "i \<notin> set (bus_fns (slots_of xs))" using dist(1) by auto
      then show "bus_numbers (ps_hw s2) i = bus_numbers (ps_hw s1) i \<and> fn i = fn i" using s2(2) by (simp add: keeps_def bus_numbers_def)
    qed (use s2(2) f in \<open>auto simp: keeps_def\<close>)
    moreover have "mirrors env org s2 fn (frontier s) (frontier s2) b nr (mx + slot_bridges x) (slots_of xs) (devs_of xs)"
      by (rule mirrors_stable [OF s2(3)]) (use f in auto)
    ultimately have "mirrors env org s2 fn (frontier s) (frontier s2) b nr mx (slots_of (p # xs)) (devs_of (p # xs))" using mirrors_Cons by (simp add: p Some)
    moreover have "keeps (set (devs_of (p # xs))) {} (set (bus_fns (slots_of (p # xs)))) s s2"
      by (rule keeps_trans [OF s1(2) s2(2)]) (auto simp: p Some)
    moreover have "fold_opt (scan_child k env scan) (map fst (p # xs)) (of_nat mx, s) = Some (of_nat (mx + bus_bridges (slots_of (p # xs))), s2)"
      using s1(1) s2(1) by (simp add: p Some ac_simps)
    ultimately show ?thesis using s2(4) by blast
  qed
qed

section \<open>The whole scan\<close>

lemma add_all_result:
  assumes "add_all b g xs s s'" and "b < frontier s" and "distinct (map fst xs)" and "\<And>p. p \<in> set xs \<Longrightarrow> p_type (d_path (g p)) = DEVICE_PATH_PCI"
  shows "keeps (fst ` set xs) {b} {} s s' \<and> ps_hw s' = ps_hw s \<and> buses s' = (buses s)(b := (buses s b)\<lparr>b_children := b_children (buses s b) @ map fst xs\<rparr>)
    \<and> (\<forall>p \<in> set xs. devs s' (fst p) = g p \<and> fst p < frontier s')"
  using assms
proof (induction xs arbitrary: s)
  case Nil
  then show ?case by (simp add: keeps_refl)
next
  case (Cons p xs)
  obtain s1 where d: "adds_device b (fst p) (g p) s s1" "add_all b g xs s1 s'" using Cons.prems(1) by auto
  have s1: "devs s1 (fst p) = g p" "\<And>e. e \<noteq> fst p \<Longrightarrow> is_pci s e \<Longrightarrow> devs s1 e = devs s e"
    "buses s1 = (buses s)(b := (buses s b)\<lparr>b_children := b_children (buses s b) @ [fst p]\<rparr>)"
    "ps_hw s1 = ps_hw s" "frontier s \<le> frontier s1" "fst p < frontier s1" using d(1) by (simp_all add: adds_device_def)
  have k: "keeps {fst p} {b} {} s s1" using s1 by (simp add: keeps_def)
  have ih: "keeps (fst ` set xs) {b} {} s1 s'" "ps_hw s' = ps_hw s1"
    "buses s' = (buses s1)(b := (buses s1 b)\<lparr>b_children := b_children (buses s1 b) @ map fst xs\<rparr>)"
    "\<forall>p \<in> set xs. devs s' (fst p) = g p \<and> fst p < frontier s'"
    using Cons.IH [OF d(2)] Cons.prems(2-) s1(5) by auto
  have "is_pci s1 (fst p)" using Cons.prems(4) s1(1) by simp
  then have "devs s' (fst p) = g p" using ih(1) s1(1,6) Cons.prems(3) by (simp add: keeps_def)
  moreover have "keeps (fst ` set (p # xs)) {b} {} s s'" by (rule keeps_trans [OF k ih(1)]) auto
  moreover have "frontier s1 \<le> frontier s'" using ih(1) by (simp add: keeps_def)
  ultimately show ?case using ih s1 by auto
qed

text \<open>What the devices found stand for.\<close>

lemma found_slot:
  assumes "found s v old ss xs" and "(d, Some x) \<in> set xs"
  shows "x \<in> set ss" "v \<le> slot_devfn x"
proof -
  have "x \<in> set (slots_of xs)" using assms(2) by (force simp: map_filter_def)
  then show "x \<in> set ss" "v \<le> slot_devfn x" using assms(1) by (simp_all add: found_def)
qed

lemma found_origin:
  assumes ok: "walk_ok env root b nr ss 0 old s" and fnd: "found s 0 old ss xs" and x: "(d, Some x) \<in> set xs"
  shows "sits b (slot_devfn x) (origin s b d (slot_devfn x))"
    and "served env (slot_is_bridge x) (hw_fn (ps_hw s) (slot_fn x)) (origin s b d (slot_devfn x))"
    and "\<forall>l \<in> set (d_link_list (origin s b d (slot_devfn x))). l < frontier s \<and> l \<noteq> b \<and> \<not> b_reset_needed (buses s l)"
proof -
  let ?v = "slot_devfn x"
  note D = foundD [OF fnd x]
  have sv: "served env (slot_is_bridge x) (hw_fn (ps_hw s) (slot_fn x)) (waiting s old ?v)"
    by (rule walk_ok_served [OF ok found_slot(1) [OF fnd x]]) simp
  have "sits b ?v (origin s b d ?v) \<and> served env (slot_is_bridge x) (hw_fn (ps_hw s) (slot_fn x)) (origin s b d ?v)
    \<and> (\<forall>l \<in> set (d_link_list (origin s b d ?v)). l < frontier s \<and> l \<noteq> b \<and> \<not> b_reset_needed (buses s l))"
  proof (cases "find (hit s ?v) old")
    case None
    then have o': "origin s b d ?v = new_device b (pci_path (of_nat ?v))" using D by (simp add: origin_def)
    show ?thesis using sv None by (simp add: o' waiting_def served_new)
  next
    case (Some e)
    then have e: "e = d" "d \<in> set old" "hit s ?v d" using D find_Some_in [OF Some] by simp_all
    then have st: "d < frontier s" "static_ok env s b d" using ok by (simp_all add: walk_ok_def hit_def)
    then have o': "origin s b d ?v = devs s d" by (simp add: origin_def)
    show ?thesis using sv Some e st(2) by (simp add: o' waiting_def sits_def static_ok_def hit_def)
  qed
  then show "sits b ?v (origin s b d ?v)" "served env (slot_is_bridge x) (hw_fn (ps_hw s) (slot_fn x)) (origin s b d ?v)"
    "\<forall>l \<in> set (d_link_list (origin s b d ?v)). l < frontier s \<and> l \<noteq> b \<and> \<not> b_reset_needed (buses s l)" by blast+
qed

lemma settled_pci:
  assumes "walk_ok env root b nr ss 0 old s" and "found s 0 old ss xs" and "p \<in> set xs"
  shows "p_type (d_path (settled env s b p)) = DEVICE_PATH_PCI"
proof -
  obtain d o' where p: "p = (d, o')" by (cases p)
  show ?thesis
  proof (cases o')
    case None
    then show ?thesis using foundD [OF assms(2) assms(3) [unfolded p]] by (simp add: p settled_def)
  next
    case (Some x)
    then show ?thesis using found_origin(1) [OF assms(1,2), of d x] assms(3) by (simp add: p settled_def sits_def)
  qed
qed

lemma half_scanned_start:
  assumes ready: "bus_ready env root b nr mx ss c s" and fnd: "found s 0 (b_children (buses s b)) ss xs"
    and add: "add_all b (settled env s b) xs (upd_bus b (\<lambda>b. b\<lparr>b_children := []\<rparr>) s) s1"
    and room: "room env (sum_list (map (below_cost env) ss) + c) s1"
  shows "half_scanned env root (origin s) (hw_fn (ps_hw s)) b nr mx [] xs c s1"
    and "keeps (set (b_children (buses s b))) {b} {} s s1 \<and> buses s1 = (buses s)(b := (buses s b)\<lparr>b_children := map fst xs\<rparr>)
      \<and> (\<forall>(d, o') \<in> set xs. o' = None \<longrightarrow> devs s1 d = (devs s d)\<lparr>d_enabled := False\<rparr>)"
proof -
  let ?old = "b_children (buses s b)" and ?s0 = "upd_bus b (\<lambda>b. b\<lparr>b_children := []\<rparr>) s"
  have b: "b < frontier s" and ok: "walk_ok env root b nr ss 0 ?old s" using ready by (simp_all add: bus_ready_def)
  have on: "on_bus root s b nr ss" using ok by (simp add: walk_ok_def)
  have dist: "distinct (map fst xs)" and slots: "slots_of xs = ss" using fnd by (simp_all add: found_def)
  have r: "keeps (fst ` set xs) {b} {} ?s0 s1" "ps_hw s1 = ps_hw s" "buses s1 = (buses s)(b := (buses s b)\<lparr>b_children := map fst xs\<rparr>)"
    "\<forall>p \<in> set xs. devs s1 (fst p) = settled env s b p \<and> fst p < frontier s1"
    using add_all_result [OF add _ dist settled_pci [OF ok fnd]] b by simp_all
  have f: "frontier s \<le> frontier s1" using r(1) by (simp add: keeps_def)
  have old: "d \<in> set ?old" if d: "d \<in> fst ` set xs" "d < frontier s" for d
  proof -
    obtain o' where o': "(d, o') \<in> set xs" using d(1) by force
    show ?thesis using foundD [OF fnd o'] d(2) find_Some_in by (fastforce split: option.splits)
  qed
  have "keeps (fst ` set xs) {b} {} s s1" using r(1) by (simp add: keeps_def)
  then have "keeps (set ?old) {b} {} s s1"
    by (rule keeps_trans [OF _ keeps_refl [of "{}" "{}" "{}"]]) (use old in auto)
  moreover have "devs s1 d = (devs s d)\<lparr>d_enabled := False\<rparr>" if "(d, None) \<in> set xs" for d using r(4) that by (force simp: settled_def)
  ultimately show "keeps (set ?old) {b} {} s s1 \<and> buses s1 = (buses s)(b := (buses s b)\<lparr>b_children := map fst xs\<rparr>)
      \<and> (\<forall>(d, o') \<in> set xs. o' = None \<longrightarrow> devs s1 d = (devs s d)\<lparr>d_enabled := False\<rparr>)" using r(3) by auto
  have "d < frontier s1 \<and> is_pci s1 d \<and> (case o' of None \<Rightarrow> \<not> d_enabled (devs s1 d) | Some x \<Rightarrow> stands env (origin s) (hw_fn (ps_hw s)) b s1 d x)"
    if p: "(d, o') \<in> set xs" for d o'
  proof -
    have d: "devs s1 d = settled env s b (d, o')" "d < frontier s1" using r(4) p by force+
    then have pci: "is_pci s1 d" using settled_pci [OF ok fnd p] by simp
    show ?thesis
    proof (cases o')
      case None
      then show ?thesis using d pci by (simp add: settled_def)
    next
      case (Some x)
      note o' = found_origin [OF ok fnd p [unfolded Some]]
      have dev: "devs s1 d = identified env (hw_fn (ps_hw s) (slot_fn x)) (origin s b d (slot_devfn x))" using d(1) by (simp add: Some settled_def)
      have "behind_ok env (hw_fn (ps_hw s)) x" using ready found_slot(1) [OF fnd p [unfolded Some]] by (simp add: bus_ready_def)
      moreover have "\<forall>l \<in> set (d_link_list (devs s1 d)). l < frontier s1 \<and> \<not> b_reset_needed (buses s1 l)"
        using o'(3) f unfolding dev r(3) by (auto dest: order_less_le_trans)
      ultimately show ?thesis using d(2) pci o'(1,2) by (simp add: Some stands_def dev)
    qed
  qed
  moreover have "on_bus root s1 b nr ss" using on by (simp add: on_bus_def r(2,3))
  moreover have "bus_ok (hw_fn (ps_hw s)) ss" using ok by (simp add: walk_ok_def)
  ultimately show "half_scanned env root (origin s) (hw_fn (ps_hw s)) b nr mx [] xs c s1"
    using ready dist room b f news_origin [OF f] by (auto simp: half_scanned_def bus_ready_def slots r(2))
qed

lemma half_absent:
  assumes "keeps (set (devs_of xs)) {} F s1 s2" and "distinct (map fst xs)" and "(d, None) \<in> set xs" and "d < frontier s1" and "is_pci s1 d"
  shows "devs s2 d = devs s1 d"
proof -
  have "d \<notin> set (devs_of xs)" using eq_key_imp_eq_value [OF assms(2,3)] by (fastforce simp: devs_of_def)
  then show ?thesis using assms(1,4,5) by (simp add: keeps_def)
qed

lemma pci_scan_bus_step:
  assumes k: "0 < k" and scans: "scans env root n (pci_scan_bus n k env)"
  shows "scans env root (Suc n) (pci_scan_bus (Suc n) k env)"
  unfolding scans_def
proof (intro allI impI)
  fix b nr mx ss c s
  assume depth: "bus_depth ss < Suc n" and ready: "bus_ready env root b nr mx ss c s"
  let ?fn = "hw_fn (ps_hw s)" and ?old = "b_children (buses s b)" and ?s0 = "upd_bus b (\<lambda>b. b\<lparr>b_children := []\<rparr>) s"
  have ok: "walk_ok env root b nr ss 0 ?old s" and b: "b < frontier s"
    and room: "room env (length (filter (\<lambda>x. 0 \<le> slot_devfn x) ss) * (unat (env_sizeof_device env) + 8) + (sum_list (map (below_cost env) ss) + c)) ?s0"
    using ready by (simp_all add: bus_ready_def bus_cost_def room_def ac_simps)
  have same: "hit ?s0 = hit s" "origin ?s0 = origin s" by (auto simp: hit_def origin_def fun_eq_iff)
  then have set: "settled env ?s0 b = settled env s b" by (simp add: settled_def [abs_def])
  have fnd0: "found ?s0 v old ss xs = found s v old ss xs" for v old xs unfolding found_def same(1) upd_bus_fields by (rule refl)
  have "walk_ok env root b nr ss 0 ?old ?s0"
    using ok by (auto simp: walk_ok_def on_bus_def waiting_def same static_ok_def chip_op_def split: option.splits) (simp_all add: upd_bus_def)
  from scan_devfns_finds [OF this room] obtain xs old' s1 where s1: "scan_devfns env b 0xff 0 (?old, ?s0) = Some (old', s1)"
    "add_all b (settled env s b) xs ?s0 s1" "found s 0 ?old ss xs" "room env (sum_list (map (below_cost env) ss) + c) s1"
    unfolding set fnd0 by blast
  have slots: "slots_of xs = ss" and dist: "distinct (map fst xs)" using s1(3) by (simp_all add: found_def)
  note half = half_scanned_start [OF ready s1(3,2,4)]
  obtain s2 where s2: "fold_opt (scan_child k env (pci_scan_bus n k env)) (map fst xs) (of_nat mx, s1) = Some (of_nat (mx + bus_bridges ss), s2)"
    "keeps (set (devs_of xs)) {} (set (bus_fns ss)) s1 s2" "mirrors env (origin s) s2 ?fn (frontier s1) (frontier s2) b nr mx ss (devs_of xs)" "room env c s2"
    using children_scanned [OF scans k half(1)] depth unfolding slots by auto
  have f: "frontier s \<le> frontier s1" "frontier s1 \<le> frontier s2" using half(2) s2(2) by (simp_all add: keeps_def)
  have b2: "buses s2 b = (buses s b)\<lparr>b_children := map fst xs\<rparr>" using s2(2) b f half(2) by (simp add: keeps_def)
  have children: "b_children (buses s1 b) = map fst xs" using half(2) by simp
  have "pci_scan_bus (Suc n) k env b 0 0xff (of_nat mx) s = Some (of_nat (mx + bus_bridges ss), s2)"
    using s2(1) by (simp add: s1(1) children)
  moreover have "scanned env b nr mx ss s s2"
    unfolding scanned_def
  proof (intro exI [of _ xs] conjI b2 s1(3))
    show "keeps (set ?old) {b} (set (bus_fns ss)) s s2"
    proof (rule keeps_trans [OF conjunct1 [OF half(2)] s2(2)])
      fix d assume d: "d < frontier s" "d \<in> set ?old \<union> set (devs_of xs)"
      show "d \<in> set ?old"
      proof (cases "d \<in> set ?old")
        case False
        then obtain x where x: "(d, Some x) \<in> set xs" using d(2) by (auto simp: devs_of_def)
        show ?thesis using foundD [OF s1(3) x] d(1) find_Some_in by (fastforce split: option.splits)
      qed
    qed auto
    show "mirrors env (origin s) s2 ?fn (frontier s) (frontier s2) b nr mx ss (devs_of xs)"
      by (rule mirrors_stable [OF s2(3)]) (use f in auto)
    show "\<forall>(d, o') \<in> set xs. d < frontier s2 \<and> (o' = None \<longrightarrow> absent_static s s2 b ss d)"
    proof clarify
      fix d o' assume p: "(d, o') \<in> set xs"
      have d: "d < frontier s1" "is_pci s1 d" using half(1) p by (auto simp: half_scanned_def)
      have "absent_static s s2 b ss d" if "o' = None"
      proof -
        have "devs s2 d = (devs s d)\<lparr>d_enabled := False\<rparr>"
          using half_absent [OF s2(2) dist p [unfolded that] d] half(2) p that by auto
        then show ?thesis using foundD [OF s1(3) p] by (simp add: absent_static_def that)
      qed
      then show "d < frontier s2 \<and> (o' = None \<longrightarrow> absent_static s s2 b ss d)" using d(1) f(2) by simp
    qed
  qed
  ultimately show "\<exists>s'. pci_scan_bus (Suc n) k env b 0 0xff (of_nat mx) s = Some (of_nat (mx + bus_bridges ss), s') \<and> scanned env b nr mx ss s s' \<and> room env c s'"
    using s2(4) by blast
qed

lemma pci_scan_bus_scans: "0 < k \<Longrightarrow> scans env root n (pci_scan_bus n k env)"
  by (induction n) (simp_all add: scans_def [of _ _ 0] pci_scan_bus_step del: pci_scan_bus.simps(2))

section \<open>Where the functions are reached\<close>

text \<open>The bus and device numbers at which the functions of a hierarchy are, in the order of the scan.\<close>

fun slot_addrs :: "nat \<Rightarrow> nat \<Rightarrow> slot list \<Rightarrow> (nat \<times> nat \<times> nat) list" where
  "slot_addrs nr mx [] = []"
| "slot_addrs nr mx (Leaf i v # rest) = (nr, v, i) # slot_addrs nr mx rest"
| "slot_addrs nr mx (Bridge i v bs # rest) = (nr, v, i) # slot_addrs (Suc mx) (Suc mx) bs @ slot_addrs nr (Suc mx + bus_bridges bs) rest"

text \<open>The numbers in the bridges are those of the depth-first order.\<close>

fun numbered :: "(nat \<Rightarrow> u32) \<Rightarrow> nat \<Rightarrow> slot list \<Rightarrow> bool" where
  "numbered nums mx [] \<longleftrightarrow> True"
| "numbered nums mx (Leaf i v # rest) \<longleftrightarrow> numbered nums mx rest"
| "numbered nums mx (Bridge i v bs # rest) \<longleftrightarrow> secondary_of (nums i) = Suc mx \<and> subordinate_of (nums i) = Suc mx + bus_bridges bs
     \<and> numbered nums (Suc mx) bs \<and> numbered nums (Suc mx + bus_bridges bs) rest"

lemma mirrors_numbered: "mirrors env org s fn lo hi b nr mx ss ds \<Longrightarrow> numbered (bus_numbers (ps_hw s)) mx ss"
  by (induction env org s fn lo hi b nr mx ss ds rule: mirrors.induct) (auto simp: Let_def numbers_def)

text \<open>All device numbers of the hierarchy are distinct on their bus.\<close>

fun slots_distinct :: "slot list \<Rightarrow> bool" where
  "slots_distinct [] \<longleftrightarrow> True"
| "slots_distinct (Leaf i v # rest) \<longleftrightarrow> v \<notin> slot_devfn ` set rest \<and> slots_distinct rest"
| "slots_distinct (Bridge i v bs # rest) \<longleftrightarrow> v \<notin> slot_devfn ` set rest \<and> slots_distinct bs \<and> slots_distinct rest"

lemma slot_addrs_buses:
  assumes "(bus, v, i) \<in> set (slot_addrs nr mx ss)"
  shows "bus = nr \<and> v \<in> slot_devfn ` set ss \<or> mx < bus \<and> bus \<le> mx + bus_bridges ss"
  using assms by (induction nr mx ss rule: slot_addrs.induct) auto

lemma slot_addrs_reached:
  assumes "numbered nums mx ss" and "slots_distinct ss" and "nr \<le> mx" and "(bus, v, i) \<in> set (slot_addrs nr mx ss)"
  shows "route_slots nums (bus = nr) bus v ss = Some i"
  using assms
proof (induction nr mx ss rule: slot_addrs.induct)
  case (2 nr mx j w rest)
  then show ?case using slot_addrs_buses [of bus v i nr mx rest] by auto
next
  case (3 nr mx j w bs rest)
  have num: "secondary_of (nums j) = Suc mx" "subordinate_of (nums j) = Suc mx + bus_bridges bs" "numbered nums (Suc mx) bs"
    "numbered nums (Suc mx + bus_bridges bs) rest" using "3.prems"(1) by simp_all
  consider "bus = nr" "v = w" "i = j" | "(bus, v, i) \<in> set (slot_addrs (Suc mx) (Suc mx) bs)" | "(bus, v, i) \<in> set (slot_addrs nr (Suc mx + bus_bridges bs) rest)"
    using "3.prems"(4) by auto
  then show ?case
  proof cases
    case 2
    have "route_slots nums (bus = Suc mx) bus v bs = Some i" using "3.IH"(1) num "3.prems"(2) 2 by simp
    then show ?thesis using slot_addrs_buses [OF 2] num "3.prems"(3) by auto
  next
    case 3
    have "route_slots nums (bus = nr) bus v rest = Some i" using "3.IH"(2) num "3.prems"(2,3) 3 by simp
    then show ?thesis using slot_addrs_buses [OF 3] num "3.prems"(2,3) by auto
  qed simp
qed auto

lemma slots_distinct_bus:
  assumes "distinct (map slot_devfn ss)" and "\<And>x. x \<in> set ss \<Longrightarrow> behind_ok env fn x"
  shows "slots_distinct ss"
  using assms
proof (induction ss rule: slots_distinct.induct)
  case (3 i v bs rest)
  have "bus_ok fn bs" "\<And>x. x \<in> set bs \<Longrightarrow> behind_ok env fn x" using "3.prems"(2) [of "Bridge i v bs"] by simp_all
  then show ?case using "3.IH" "3.prems" bus_ok_distinct by simp
qed auto

text \<open>
  Every device of the tree is at an address that reaches its function, on the bus itself and
  behind the bridges.
\<close>

fun tree_answers :: "pci_state \<Rightarrow> slot list \<Rightarrow> dev_id list \<Rightarrow> bool" where
  "tree_answers s [] [] \<longleftrightarrow> True"
| "tree_answers s (Leaf i v # rest) (d # ds) \<longleftrightarrow> answers s d i \<and> tree_answers s rest ds"
| "tree_answers s (Bridge i v bs # rest) (d # ds) \<longleftrightarrow>
     answers s d i \<and> tree_answers s bs (b_children (buses s (hd (d_link_list (devs s d))))) \<and> tree_answers s rest ds"
| "tree_answers s ss ds \<longleftrightarrow> False"

lemma mirrors_answer:
  assumes "mirrors env org s fn lo hi b nr mx ss ds" and "\<forall>(bus, v, i) \<in> set (slot_addrs nr mx ss). v < 0x100 \<and> reaches (ps_hw s) bus v = Some i"
    and "b_secondary (buses s b) = of_nat nr" and "nr \<le> mx" and "mx + bus_bridges ss \<le> 0xff"
  shows "tree_answers s ss ds"
  using assms
proof (induction env org s fn lo hi b nr mx ss ds rule: mirrors.induct)
  case (2 env org s fn lo hi b nr mx i v rest d ds)
  have d: "d_bus (devs s d) = b" "pci_devfn (path_of s d) = of_nat v" and m: "mirrors env org s fn lo hi b nr mx rest ds"
    using "2.prems"(1) unfolding mirrors.simps sits_def by blast+
  have "answers s d i" using "2.prems"(2-5) by (simp add: answers_def d small_bus small_reg)
  moreover have "tree_answers s rest ds" by (rule "2.IH" [OF m]) (use "2.prems"(2-5) in auto)
  ultimately show ?case by simp
next
  case (3 env org s fn lo hi b nr mx i v bs rest d ds)
  let ?l = "hd (d_link_list (devs s d))"
  have m: "sits b v (devs s d)" "bridge_link s d ?l (Suc mx) (Suc mx + bus_bridges bs)"
    "mirrors env org s fn lo hi ?l (Suc mx) (Suc mx) bs (b_children (buses s ?l))" "mirrors env org s fn lo hi b nr (Suc mx + bus_bridges bs) rest ds"
    using "3.prems"(1) by (simp_all add: Let_def)
  have p: "\<forall>(bus, w, j) \<in> set ((nr, v, i) # slot_addrs (Suc mx) (Suc mx) bs @ slot_addrs nr (Suc mx + bus_bridges bs) rest).
      w < 0x100 \<and> reaches (ps_hw s) bus w = Some j" using "3.prems"(2) by simp
  have "answers s d i"
    using p m(1) "3.prems"(3-5) by (simp add: answers_def sits_def small_bus small_reg)
  moreover have "tree_answers s bs (b_children (buses s ?l))"
    by (rule "3.IH"(1) [OF refl refl refl refl m(3)]) (use p m(2) "3.prems"(5) in \<open>auto simp: bridge_link_def\<close>)
  moreover have "tree_answers s rest ds"
    by (rule "3.IH"(2) [OF refl refl refl refl m(4)]) (use p "3.prems"(3-5) in auto)
  ultimately show ?case by simp
qed auto

lemma slot_addrs_small:
  assumes "(bus, v, i) \<in> set (slot_addrs nr mx ss)" and "\<And>x. x \<in> set ss \<Longrightarrow> behind_ok env fn x \<and> slot_devfn x < 0x100"
  shows "v < 0x100"
  using assms
proof (induction nr mx ss rule: slot_addrs.induct)
  case (2 nr mx j w rest)
  then show ?case using "2.prems"(2) [of "Leaf j w"] by auto
next
  case (3 nr mx j w bs rest)
  have bs: "behind_ok env fn x \<and> slot_devfn x < 0x100" if "x \<in> set bs" for x
    using "3.prems"(2) [of "Bridge j w bs"] that by (auto simp: bus_ok_def)
  have "w < 0x100" using "3.prems"(2) [of "Bridge j w bs"] by simp
  then show ?case using "3.IH" "3.prems" bs by auto
qed simp

section \<open>Enumeration of a domain\<close>

text \<open>
  What the scan of the root bus \<open>b\<close> starts from: the hardware is the hierarchy \<open>root\<close>; each function is served by the
  operations of a driver or of the file, for the static device that waits for it if there is one; the
  static devices of the bus are distinct and belong to it; there are at most 255 bridges, and the heap has
  room for the structures.
\<close>

definition domain_ready :: "pci_env \<Rightarrow> slot list \<Rightarrow> bus_id \<Rightarrow> pci_state \<Rightarrow> bool" where
  "domain_ready env root b s \<longleftrightarrow> wired_as (ps_hw s) root \<and> bus_ok (hw_fn (ps_hw s)) root
     \<and> (\<forall>x \<in> set root. served env (slot_is_bridge x) (hw_fn (ps_hw s) (slot_fn x)) (waiting s (b_children (buses s b)) (slot_devfn x)))
     \<and> (\<forall>x \<in> set root. behind_ok env (hw_fn (ps_hw s)) x)
     \<and> distinct (bus_fns root) \<and> bus_bridges root \<le> 0xff
     \<and> distinct (b_children (buses s b)) \<and> (\<forall>d \<in> set (b_children (buses s b)). d < frontier s \<and> (is_pci s d \<longrightarrow> static_ok env s b d))
     \<and> b_secondary (buses s b) = 0 \<and> b < frontier s \<and> room env (bus_cost env root) s"

lemma domain_scanned:
  assumes "0 < k" and "bus_depth root < n" and ready: "domain_ready env root b s"
  obtains s' where "pci_scan_bus n k env b 0 0xff 0 s = Some (of_nat (bus_bridges root), s')" "scanned env b 0 0 root s s'"
proof -
  have "bus_ready env root b 0 0 root 0 s" using ready by (simp add: domain_ready_def bus_ready_def walk_ok_def on_bus_def delegated_root)
  then show thesis using pci_scan_bus_scans [OF assms(1), of env root n] assms(2) that unfolding scans_def by fastforce
qed

text \<open>The devices of a bus that sit at the slots; the others are static devices without a function.\<close>

definition on_slots :: "pci_state \<Rightarrow> slot list \<Rightarrow> dev_id list \<Rightarrow> dev_id list" where
  "on_slots s ss ds = filter (\<lambda>d. \<exists>x \<in> set ss. pci_devfn (path_of s d) = of_nat (slot_devfn x)) ds"

lemma mirrors_sits:
  assumes "mirrors env org s fn lo hi b nr mx ss ds" and "d \<in> set ds"
  shows "\<exists>x \<in> set ss. sits b (slot_devfn x) (devs s d)"
  using assms
proof (induction ss arbitrary: mx ds)
  case Nil
  then show ?case by (cases ds) simp_all
next
  case (Cons x ss)
  obtain e es where ds: "ds = e # es" using Cons.prems(1) by (cases ds; cases x) auto
  have "sits b (slot_devfn x) (devs s e)"
  proof (cases x)
    case (Leaf i v)
    then show ?thesis using Cons.prems(1) unfolding ds Leaf mirrors.simps slot_devfn.simps by blast
  next
    case (Bridge i v bs)
    then show ?thesis using Cons.prems(1) unfolding ds Bridge mirrors.simps Let_def slot_devfn.simps by blast
  qed
  moreover have "mirrors env org s fn lo hi b nr (mx + slot_bridges x) ss es" using Cons.prems(1) ds by (cases x) (simp_all add: Let_def)
  ultimately show ?case using Cons.IH [of "mx + slot_bridges x" es] Cons.prems(2) ds by auto
qed

lemma scanned_result:
  assumes "scanned env b nr mx ss s s'"
  defines "ds \<equiv> on_slots s' ss (b_children (buses s' b))"
  shows "mirrors env (origin s) s' (hw_fn (ps_hw s)) (frontier s) (frontier s') b nr mx ss ds"
    and "\<forall>x \<in> set ss. \<forall>d. find (hit s (slot_devfn x)) (b_children (buses s b)) = Some d \<longrightarrow> d \<in> set ds"
    and "\<forall>d \<in> set (b_children (buses s' b)) - set ds. d \<in> set (b_children (buses s b)) \<and> \<not> d_enabled (devs s' d)"
    and "keeps (set (b_children (buses s b))) {b} (set (bus_fns ss)) s s'" "b_secondary (buses s' b) = b_secondary (buses s b)"
proof -
  obtain xs where k: "keeps (set (b_children (buses s b))) {b} (set (bus_fns ss)) s s'" and bu: "buses s' b = (buses s b)\<lparr>b_children := map fst xs\<rparr>"
    and fnd: "found s 0 (b_children (buses s b)) ss xs" and each: "\<forall>(d, o') \<in> set xs. d < frontier s' \<and> (o' = None \<longrightarrow> absent_static s s' b ss d)"
    and mir: "mirrors env (origin s) s' (hw_fn (ps_hw s)) (frontier s) (frontier s') b nr mx ss (devs_of xs)"
    using assms(1) by (auto simp: scanned_def)
  have iff: "(\<exists>x \<in> set ss. pci_devfn (path_of s' d) = of_nat (slot_devfn x)) \<longleftrightarrow> o' \<noteq> None" if p: "(d, o') \<in> set xs" for d o'
  proof (cases o')
    case None
    then have "absent_static s s' b ss d" using each p by auto
    then show ?thesis using None by (auto simp: absent_static_def hit_def)
  next
    case (Some x)
    then have "d \<in> set (devs_of xs)" using p by (force simp: devs_of_def)
    then show ?thesis using mirrors_sits [OF mir] Some by (auto simp: sits_def)
  qed
  have ds: "ds = devs_of xs"
  proof -
    have "filter (\<lambda>p. \<exists>x \<in> set ss. pci_devfn (path_of s' (fst p)) = of_nat (slot_devfn x)) xs = filter (\<lambda>(d, o'). o' \<noteq> None) xs"
    proof (rule filter_cong [OF refl])
      fix p assume "p \<in> set xs"
      then show "(\<exists>x \<in> set ss. pci_devfn (path_of s' (fst p)) = of_nat (slot_devfn x)) = (case p of (d, o') \<Rightarrow> o' \<noteq> None)"
        using iff [of "fst p" "snd p"] by (simp add: case_prod_beta)
    qed
    then show ?thesis by (simp add: ds_def on_slots_def bu devs_of_def filter_map o_def)
  qed
  show "mirrors env (origin s) s' (hw_fn (ps_hw s)) (frontier s) (frontier s') b nr mx ss ds" using mir ds by simp
  show "keeps (set (b_children (buses s b))) {b} (set (bus_fns ss)) s s'" by (rule k)
  show "b_secondary (buses s' b) = b_secondary (buses s b)" by (simp add: bu)
  show "\<forall>x \<in> set ss. \<forall>d. find (hit s (slot_devfn x)) (b_children (buses s b)) = Some d \<longrightarrow> d \<in> set ds"
  proof (intro ballI allI impI)
    fix x d assume x: "x \<in> set ss" "find (hit s (slot_devfn x)) (b_children (buses s b)) = Some d"
    have "slots_of xs = ss" using fnd by (simp add: found_def)
    then obtain e where e: "(e, Some x) \<in> set xs" using x(1) by (auto simp: map_filter_def)
    then have "e = d" using foundD [OF fnd e] x(2) by simp
    then show "d \<in> set ds" using e by (force simp: ds devs_of_def)
  qed
  show "\<forall>d \<in> set (b_children (buses s' b)) - set ds. d \<in> set (b_children (buses s b)) \<and> \<not> d_enabled (devs s' d)"
  proof
    fix d assume d: "d \<in> set (b_children (buses s' b)) - set ds"
    then obtain o' where o': "(d, o') \<in> set xs" by (auto simp: bu)
    then have "o' = None" using d by (cases o') (force simp: ds devs_of_def)+
    then show "d \<in> set (b_children (buses s b)) \<and> \<not> d_enabled (devs s' d)" using each o' by (auto simp: absent_static_def)
  qed
qed

lemma scanned_answers:
  assumes ready: "domain_ready env root b s" and scanned: "scanned env b 0 0 root s s'"
  shows "(\<forall>(bus, v, i) \<in> set (slot_addrs 0 0 root). reaches (ps_hw s') bus v = Some i)
    \<and> tree_answers s' root (on_slots s' root (b_children (buses s' b)))"
proof -
  let ?ds = "on_slots s' root (b_children (buses s' b))"
  note r = scanned_result [OF scanned]
  have k: "hw_route (ps_hw s') = hw_route (ps_hw s)" using r(4) by (simp add: keeps_def)
  have ok: "bus_ok (hw_fn (ps_hw s)) root" "\<And>x. x \<in> set root \<Longrightarrow> behind_ok env (hw_fn (ps_hw s)) x" and few: "bus_bridges root \<le> 0xff"
    using ready by (simp_all add: domain_ready_def)
  have "slots_distinct root" by (rule slots_distinct_bus [OF bus_ok_distinct [OF ok(1)] ok(2)])
  then have reach: "reaches (ps_hw s') bus v = Some i" if "(bus, v, i) \<in> set (slot_addrs 0 0 root)" for bus v i
    using slot_addrs_reached [OF mirrors_numbered [OF r(1)] _ order_refl that] ready k by (simp add: reaches_def wired_as_def domain_ready_def)
  have small: "v < 0x100" if "(bus, v, i) \<in> set (slot_addrs 0 0 root)" for bus v i
    by (rule slot_addrs_small [OF that, of env "hw_fn (ps_hw s)"]) (use ok in \<open>auto simp: bus_ok_def\<close>)
  have "b_secondary (buses s' b) = of_nat 0" using ready r(5) by (simp add: domain_ready_def)
  then have "tree_answers s' root ?ds" by (intro mirrors_answer [OF r(1)]) (use reach small few in auto)
  then show ?thesis using reach by auto
qed

text \<open>
  An example: a device, and behind a PCI Express root port with a device that a driver claims, a second bridge with a
  device.  A static device with an enable hook waits for the first function, and one waits where nothing is.
\<close>

definition example_pci_function :: "u8 \<Rightarrow> u16 \<Rightarrow> u8 \<Rightarrow> bool \<Rightarrow> pci_function" where
  "example_pci_function dev class hdr root_port = \<lparr>cfg_byte = (\<lambda>r. if r = 0 then 0x22 else if r = 2 then dev else if r = 0xa then byte_of 0 class
     else if r = 0xb then byte_of 1 class else if r = 0xe then hdr
     else if root_port then (if r = 6 then 0x10 else if r = 0x34 then 0x40 else if r = 0x40 then 0x10 else if r = 0x42 then 0x40 else 0) else 0),
     cfg_wr = (\<lambda>r old v. v)\<rparr>"

definition example_root :: "slot list" where
  "example_root = [Leaf 0 0x00, Bridge 1 0x08 [Leaf 2 0x00, Bridge 3 0x10 [Leaf 4 0x18]]]"

definition example_static :: "u32 \<Rightarrow> device" where
  "example_static v = (new_device 1 (pci_path v))\<lparr>d_on_mainboard := True, d_chip_ops := Some 0\<rparr>"

definition example_domain :: pci_state where
  "example_domain = \<lparr>
     devs = (\<lambda>d. if d = 5 then example_static 0x00 else if d = 6 then example_static 0x18
        else (new_device 0 (pci_path 0))\<lparr>d_link_list := [1]\<rparr>),
     buses = (\<lambda>b. \<lparr>b_dev = 0, b_children = (if b = 1 then [6, 5] else []), b_bridge_ctrl = 0, b_link_num = 0, b_secondary = 0, b_subordinate = 0, b_reset_needed = False\<rparr>),
     chips = (\<lambda>c. \<lparr>chip_enable_dev = Some 22, chip_init = None, chip_final = None, chip_initialized = False, chip_finalized = False\<rparr>),
     all_devices = [0, 5, 6], vga_pri = None,
     ps_pool = \<lparr>free_resources = [], pool_heap = \<lparr>free_mem_ptr = 0x1000, free_mem_end_ptr = 0x8000\<rparr>\<rparr>,
     ps_hw = \<lparr>hw_fn = (\<lambda>i. if i = 1 then example_pci_function 0x44 0x0604 1 True else if i = 3 then example_pci_function 0x55 0x0604 1 False
         else if i = 2 then example_pci_function 0x33 0x0200 0 False else example_pci_function 0x22 0x0200 0 False),
       hw_route = (\<lambda>nums bus devfn. route_slots nums (bus = 0) bus devfn example_root)\<rparr>,
     ps_elcr = 0\<rparr>"

definition example_driver :: pci_driver where
  "example_driver = \<lparr>drv_ops = default_pci_ops_dev\<lparr>op_scan_bus := Some 20, op_enable := Some 21\<rparr>, drv_vendor = 0x22, drv_device = 0x33, drv_devices = None\<rparr>"

definition example_pci_env :: pci_env where
  "example_pci_env = \<lparr>env_drivers = [example_driver], env_pcix = None, env_ht = None, env_pciexp = Some default_pciexp_ops_bus, env_cardbus = None,
     env_sizeof_device = 0x80, env_sizeof_bus = 0x20, env_subsystem_vendor = 0, env_subsystem_device = 0,
     env_hook = (\<lambda>k d s. Some (s\<lparr>ps_elcr := of_nat k\<rparr>)), env_scan = (\<lambda>f d mx s. Some (mx, s))\<rparr>"

lemma example_tame: "tame example_pci_env h"
  by (simp add: tame_def example_pci_env_def same_pci_def split: option.split)

lemma example_idle: "h \<noteq> Some PCI_SCAN_BRIDGE \<Longrightarrow> h \<noteq> Some PCIEXP_SCAN_BRIDGE \<Longrightarrow> idle example_pci_env h"
  by (simp add: idle_def example_pci_env_def same_pci_refl split: option.split) metis

lemma example_ops:
  "chosen_ops example_pci_env (example_pci_function 0x22 0x0200 0 False) (example_static 0) = Some (Some default_pci_ops_dev)"
  "chosen_ops example_pci_env (example_pci_function 0x22 0x0200 0 False) fresh = Some (Some default_pci_ops_dev)"
  "chosen_ops example_pci_env (example_pci_function 0x33 0x0200 0 False) fresh = Some (Some (drv_ops example_driver))"
  "chosen_ops example_pci_env (example_pci_function 0x44 0x0604 1 True) fresh = Some (Some default_pciexp_ops_bus)"
  "chosen_ops example_pci_env (example_pci_function 0x55 0x0604 1 False) fresh = Some (Some default_pci_ops_bus)"
  by code_simp+

lemma example_present:
  "\<not> no_device (cfg_read32 (example_pci_function 0x22 0x0200 0 False) 0)" "\<not> no_device (cfg_read32 (example_pci_function 0x33 0x0200 0 False) 0)"
  "\<not> no_device (cfg_read32 (example_pci_function 0x44 0x0604 1 True) 0)" "\<not> no_device (cfg_read32 (example_pci_function 0x55 0x0604 1 False) 0)"
  by code_simp+

lemma example_served:
  "served example_pci_env False (example_pci_function 0x22 0x0200 0 False) (example_static 0)"
  "served example_pci_env False (example_pci_function 0x22 0x0200 0 False) fresh"
  "served example_pci_env False (example_pci_function 0x33 0x0200 0 False) fresh"
  "served example_pci_env True (example_pci_function 0x44 0x0604 1 True) fresh"
  "served example_pci_env True (example_pci_function 0x55 0x0604 1 False) fresh"
  by (simp_all add: served_def example_ops example_present example_tame example_idle default_pci_ops_dev_def example_driver_def
      default_pciexp_ops_bus_def default_pci_ops_bus_def)

lemma example_numbers_clear: "numbers_clear (example_pci_function dev class 1 rp)"
  by (simp add: numbers_clear_def example_pci_function_def)

lemma example_waiting:
  "waiting example_domain [6, 5] 0 = example_static 0" "waiting example_domain [6, 5] 8 = fresh"
  by (simp_all add: waiting_def hit_def example_domain_def example_static_def pci_path_def)

lemma example_domain_ready: "domain_ready example_pci_env example_root 1 example_domain"
proof -
  have hw: "hw_fn (ps_hw example_domain) 0 = example_pci_function 0x22 0x0200 0 False" "hw_fn (ps_hw example_domain) (Suc 0) = example_pci_function 0x44 0x0604 1 True"
    "hw_fn (ps_hw example_domain) 2 = example_pci_function 0x33 0x0200 0 False" "hw_fn (ps_hw example_domain) 3 = example_pci_function 0x55 0x0604 1 False"
    "hw_fn (ps_hw example_domain) 4 = example_pci_function 0x22 0x0200 0 False" by (simp_all add: example_domain_def)
  have ch: "b_children (buses example_domain 1) = [6, 5]" by (simp add: example_domain_def)
  have "served example_pci_env (slot_is_bridge x) (hw_fn (ps_hw example_domain) (slot_fn x)) (waiting example_domain [6, 5] (slot_devfn x))"
    if "x \<in> set example_root" for x
    using that example_served by (auto simp: example_root_def slot_is_bridge_def hw example_waiting)
  moreover have "behind_ok example_pci_env (hw_fn (ps_hw example_domain)) x" if "x \<in> set example_root" for x
    using that example_served example_numbers_clear by (auto simp: example_root_def slot_is_bridge_def hw bus_ok_def)
  moreover have "d < frontier example_domain \<and> static_ok example_pci_env example_domain 1 d" if "d \<in> set [6, 5]" for d
    using that by (auto simp: static_ok_def example_tame) (simp_all add: example_domain_def example_static_def)
  moreover have "room example_pci_env (bus_cost example_pci_env example_root) example_domain"
    by (simp add: room_def malloc_ok_def bus_cost_def example_root_def example_pci_env_def example_domain_def)
  ultimately show ?thesis
    by (simp add: domain_ready_def ch) (simp add: example_domain_def example_root_def wired_as_def bus_ok_def)
qed

lemma example_link: "d_link_list (devs example_domain 0) = [1]"
  by (simp add: example_domain_def)

lemma example_depth: "bus_depth example_root < 3"
  by (simp add: example_root_def)

text \<open>
  C4.  Scanning a PCI domain ends, numbers the buses in depth-first order up to the number of bridges, and leaves
  a device tree that mirrors the hardware: for every function exactly one device, in the order of the
  device numbers, with the function's identifiers, header type and class, and the operations of the first driver that
  claims it, or the default ones of its kind; for every bridge a link with the devices behind it,
  whose secondary and subordinate numbers are also those in the bridge's registers.  A static device stands for the
  function at its device number; the other static devices that stay on the bus are switched off.

  Conditions (\<open>domain_ready\<close>): the hardware is a tree of functions and bridges with at most 255 bridges, in which a function
  other than 0 is in a multi-function device, and the bus number registers of the bridges can be written
  and are clear.  Every bridge is scanned by \<^verbatim>\<open>pci_scan_bridge\<close> or \<^verbatim>\<open>pciexp_scan_bridge\<close>, by default or through a driver, so PCI-X,
  HyperTransport and CardBus bridges are left out, and it is on and has no static link; a device that is on and
  is no bridge has a scan operation that adds no buses, or none.  The static devices of the root bus are distinct
  and belong to it, and their links, if any, ask for no reset.  The hooks of chips and drivers leave
  PCI devices, buses, heap and configuration registers alone, and the search for HyperTransport capabilities ends where
  it is built in.  The heap has room for the devices and links,
  and the depth bound \<open>n\<close> exceeds the depth of the hierarchy.
\<close>
theorem pci_domain_scan_mirrors:
  assumes "0 < k" and "bus_depth root < n" and "d_link_list (devs s d) = [b]" and "domain_ready env root b s"
  shows "\<exists>s'. pci_domain_scan_bus n k env d 0 s = Some (of_nat (bus_bridges root), s')
    \<and> (let ds = on_slots s' root (b_children (buses s' b)) in
         mirrors env (origin s) s' (hw_fn (ps_hw s)) (frontier s) (frontier s') b 0 0 root ds
       \<and> (\<forall>x \<in> set root. \<forall>e. find (hit s (slot_devfn x)) (b_children (buses s b)) = Some e \<longrightarrow> e \<in> set ds)
       \<and> (\<forall>e \<in> set (b_children (buses s' b)) - set ds. e \<in> set (b_children (buses s b)) \<and> \<not> d_enabled (devs s' e)))"
proof -
  obtain s' where s': "pci_scan_bus n k env b 0 0xff 0 s = Some (of_nat (bus_bridges root), s')" "scanned env b 0 0 root s s'"
    by (rule domain_scanned [OF assms(1,2,4)])
  then show ?thesis using scanned_result(1-3) [OF s'(2)] assms(3) by (auto simp: pci_domain_scan_bus_def Let_def)
qed

theorem pci_domain_scan_mirrors_witness:
  "\<exists>s' ds. pci_domain_scan_bus 3 1 example_pci_env 0 0 example_domain = Some (2, s') \<and> 5 \<in> set ds
    \<and> mirrors example_pci_env (origin example_domain) s' (hw_fn (ps_hw example_domain)) 0x1000 (frontier s') 1 0 0 example_root ds"
proof -
  have c: "bus_bridges example_root = 2" "frontier example_domain = 0x1000" "hit example_domain 0 5" "\<not> hit example_domain 0 6"
    "b_children (buses example_domain 1) = [6, 5]" "Leaf 0 0 \<in> set example_root"
    by (simp_all add: example_root_def example_domain_def hit_def example_static_def pci_path_def)
  then have f: "find (hit example_domain (slot_devfn (Leaf 0 0))) (b_children (buses example_domain 1)) = Some 5" by simp
  show ?thesis
    using pci_domain_scan_mirrors [OF _ example_depth example_link example_domain_ready, of 1] c(6) f
    unfolding Let_def c(1,2) by fastforce
qed

text \<open>
  C5.  After the scan every function answers at its address: a configuration access to a device
  of the tree, which goes to the secondary number of the device's bus, is decoded by the
  bridges' bus number registers and ends at the function the device stands for.  The conditions are those of C4: at most 255
  bridges, all of them on, with clear and writable bus number registers and scanned as PCI or PCI Express bridges,
  static devices that are distinct and belong to the root bus, hooks that leave the PCI devices and registers alone, and room
  in the heap.
\<close>
theorem pci_domain_scan_reaches:
  assumes "0 < k" and "bus_depth root < n" and "d_link_list (devs s d) = [b]" and "domain_ready env root b s"
  shows "\<exists>mx s'. pci_domain_scan_bus n k env d 0 s = Some (mx, s')
    \<and> (\<forall>(bus, v, i) \<in> set (slot_addrs 0 0 root). reaches (ps_hw s') bus v = Some i)
    \<and> tree_answers s' root (on_slots s' root (b_children (buses s' b)))"
proof -
  obtain s' where "pci_scan_bus n k env b 0 0xff 0 s = Some (of_nat (bus_bridges root), s')" "scanned env b 0 0 root s s'"
    by (rule domain_scanned [OF assms(1,2,4)])
  then show ?thesis using scanned_answers [OF assms(4)] assms(3) by (auto simp: pci_domain_scan_bus_def)
qed

theorem pci_domain_scan_reaches_witness:
  "\<exists>mx s'. pci_domain_scan_bus 3 1 example_pci_env 0 0 example_domain = Some (mx, s') \<and> reaches (ps_hw s') 2 0x18 = Some 4
    \<and> tree_answers s' example_root (on_slots s' example_root (b_children (buses s' 1)))"
proof -
  have "slot_addrs 0 0 example_root = [(0, 0, 0), (0, 8, 1), (1, 0, 2), (1, 0x10, 3), (2, 0x18, 4)]" by (simp add: example_root_def)
  then show ?thesis
    using pci_domain_scan_reaches [OF _ example_depth example_link example_domain_ready, of 1] by fastforce
qed

end
