(* ===== verification/Cbtable.thy ===== *)
theory Cbtable
  imports Cbfs Checksum Cmos
begin

text \<open>
  The coreboot table for the payload, \<^verbatim>\<open>src/lib/coreboot_table.c\<close>: a header with checksums and a
  sequence of records in memory, with the memory map, the names of the board, the console and the build, and
  pointers into the firmware's memory; also \<^verbatim>\<open>uart_fill_lb\<close> and the baud rate of the console.  Memory is a map
  from addresses to bytes, as in \<open>Selfboot\<close>; a pointer to a record is its address.  The settings of the
  build (a configuration and the strings of \<^verbatim>\<open>src/lib/version.c\<close>) are the record \<open>lbt_config\<close>.  The
  options of another board (framebuffer, ChromeOS) are not set.
\<close>

section \<open>Storing words\<close>

definition bytes16 :: "u16 \<Rightarrow> u8 list" where
  "bytes16 v = [ucast v, ucast (drop_bit 8 v)]"

definition bytes32 :: "u32 \<Rightarrow> u8 list" where
  "bytes32 v = [ucast v, ucast (drop_bit 8 v), ucast (drop_bit 16 v), ucast (drop_bit 24 v)]"

definition bytes64 :: "u64 \<Rightarrow> u8 list" where
  "bytes64 v = bytes32 (ucast v) @ bytes32 (ucast (drop_bit 32 v))"

definition write32 :: "u32 \<Rightarrow> u32 \<Rightarrow> memory \<Rightarrow> memory" where
  "write32 a v mem = write_bytes a (bytes32 v) mem"

definition mem_bytes :: "memory \<Rightarrow> u32 \<Rightarrow> nat \<Rightarrow> u8 list" where
  "mem_bytes mem a n = map (\<lambda>i. mem (a + of_nat i)) [0..<n]"

section \<open>The header and its records\<close>

abbreviation (input) lb_header_bytes :: "u32 \<Rightarrow> u32" where "lb_header_bytes h \<equiv> h + 4"
abbreviation (input) lb_header_checksum :: "u32 \<Rightarrow> u32" where "lb_header_checksum h \<equiv> h + 8"
abbreviation (input) lb_table_bytes :: "u32 \<Rightarrow> u32" where "lb_table_bytes h \<equiv> h + 12"
abbreviation (input) lb_table_checksum :: "u32 \<Rightarrow> u32" where "lb_table_checksum h \<equiv> h + 16"
abbreviation (input) lb_table_entries :: "u32 \<Rightarrow> u32" where "lb_table_entries h \<equiv> h + 20"
abbreviation (input) rec_size :: "u32 \<Rightarrow> u32" where "rec_size rec \<equiv> rec + 4"

abbreviation (input) LB_TAG_UNUSED :: u32 where "LB_TAG_UNUSED \<equiv> 0"
abbreviation (input) LB_TAG_MEMORY :: u32 where "LB_TAG_MEMORY \<equiv> 1"
abbreviation (input) LB_TAG_MAINBOARD :: u32 where "LB_TAG_MAINBOARD \<equiv> 3"
abbreviation (input) LB_TAG_VERSION :: u32 where "LB_TAG_VERSION \<equiv> 4"
abbreviation (input) LB_TAG_EXTRA_VERSION :: u32 where "LB_TAG_EXTRA_VERSION \<equiv> 5"
abbreviation (input) LB_TAG_BUILD :: u32 where "LB_TAG_BUILD \<equiv> 6"
abbreviation (input) LB_TAG_COMPILE_TIME :: u32 where "LB_TAG_COMPILE_TIME \<equiv> 7"
abbreviation (input) LB_TAG_COMPILE_BY :: u32 where "LB_TAG_COMPILE_BY \<equiv> 8"
abbreviation (input) LB_TAG_COMPILE_HOST :: u32 where "LB_TAG_COMPILE_HOST \<equiv> 9"
abbreviation (input) LB_TAG_COMPILE_DOMAIN :: u32 where "LB_TAG_COMPILE_DOMAIN \<equiv> 10"
abbreviation (input) LB_TAG_SERIAL :: u32 where "LB_TAG_SERIAL \<equiv> 15"
abbreviation (input) LB_TAG_CONSOLE :: u32 where "LB_TAG_CONSOLE \<equiv> 16"
abbreviation (input) LB_TAG_FORWARD :: u32 where "LB_TAG_FORWARD \<equiv> 17"
abbreviation (input) LB_TAG_TIMESTAMPS :: u32 where "LB_TAG_TIMESTAMPS \<equiv> 0x16"
abbreviation (input) LB_TAG_CBMEM_CONSOLE :: u32 where "LB_TAG_CBMEM_CONSOLE \<equiv> 0x17"
abbreviation (input) LB_TAG_ACPI_GNVS :: u32 where "LB_TAG_ACPI_GNVS \<equiv> 0x24"
abbreviation (input) LB_TAG_CONSOLE_SERIAL8250 :: u16 where "LB_TAG_CONSOLE_SERIAL8250 \<equiv> 0"
abbreviation (input) LB_TAG_CONSOLE_EHCI :: u16 where "LB_TAG_CONSOLE_EHCI \<equiv> 5"
abbreviation (input) LB_SERIAL_TYPE_IO_MAPPED :: u32 where "LB_SERIAL_TYPE_IO_MAPPED \<equiv> 1"

text \<open>The signature is \<open>LBIO\<close>.\<close>

definition lb_table_init :: "u32 \<Rightarrow> memory \<Rightarrow> u32 \<times> memory" where
  "lb_table_init addr mem =
     (let addr = addr + 15; header = addr AND NOT 15;
          mem = write_bytes header [0x4c, 0x42, 0x49, 0x4f] mem;
          mem = write32 (lb_header_bytes header) 24 mem;
          mem = write32 (lb_header_checksum header) 0 mem;
          mem = write32 (lb_table_bytes header) 0 mem;
          mem = write32 (lb_table_checksum header) 0 mem;
          mem = write32 (lb_table_entries header) 0 mem
      in (header, mem))"

definition lb_first_record :: "u32 \<Rightarrow> u32" where
  "lb_first_record header = header + 24"

definition lb_last_record :: "u32 \<Rightarrow> memory \<Rightarrow> u32" where
  "lb_last_record header mem = header + 24 + read32 mem (lb_table_bytes header)"

definition lb_new_record :: "u32 \<Rightarrow> memory \<Rightarrow> u32 \<times> memory" where
  "lb_new_record header mem =
     (let rec = lb_last_record header mem;
          mem = (if read32 mem (lb_table_entries header) \<noteq> 0
                 then write32 (lb_table_bytes header) (read32 mem (lb_table_bytes header) + read32 mem (rec_size rec)) mem else mem);
          rec = lb_last_record header mem;
          mem = write32 (lb_table_entries header) (read32 mem (lb_table_entries header) + 1) mem;
          mem = write32 rec LB_TAG_UNUSED mem;
          mem = write32 (rec_size rec) 8 mem
      in (rec, mem))"

definition lb_memory_record :: "u32 \<Rightarrow> memory \<Rightarrow> u32 \<times> memory" where
  "lb_memory_record header mem =
     (let (rec, mem) = lb_new_record header mem;
          mem = write32 rec LB_TAG_MEMORY mem;
          mem = write32 (rec_size rec) 8 mem
      in (rec, mem))"

record lb_serial =
  lbs_type :: u32
  lbs_baseaddr :: u32
  lbs_baud :: u32

definition lb_add_serial :: "lb_serial \<Rightarrow> u32 \<Rightarrow> memory \<Rightarrow> memory" where
  "lb_add_serial new_serial header mem =
     (let (serial, mem) = lb_new_record header mem;
          mem = write32 serial LB_TAG_SERIAL mem;
          mem = write32 (rec_size serial) 20 mem;
          mem = write32 (serial + 8) (lbs_type new_serial) mem;
          mem = write32 (serial + 12) (lbs_baseaddr new_serial) mem
      in write32 (serial + 16) (lbs_baud new_serial) mem)"

definition lb_add_console :: "u16 \<Rightarrow> u32 \<Rightarrow> memory \<Rightarrow> memory" where
  "lb_add_console consoletype header mem =
     (let (console, mem) = lb_new_record header mem;
          mem = write32 console LB_TAG_CONSOLE mem;
          mem = write32 (rec_size console) 12 mem
      in write_bytes (console + 8) (bytes16 consoletype) mem)"

section \<open>The serial console\<close>

definition bauds :: "u32 list" where
  "bauds = [115200, 57600, 38400, 19200, 9600, 4800, 2400, 1200]"

text \<open>\<open>opt\<close> is what \<^verbatim>\<open>get_option\<close> returns for \<^verbatim>\<open>baud_rate\<close>, with the bytes it stored in the index.\<close>

definition default_baudrate :: "bool \<Rightarrow> u32 \<Rightarrow> cb_err \<times> u8 list \<Rightarrow> u32" where
  "default_baudrate use_option_table ttys0_baud opt =
     (if use_option_table then
        let b_index = (if fst opt \<noteq> CB_SUCCESS then 0xff
                       else word_rcat (rev (take 4 (snd opt @ [0, 0, 0, 0]))) :: u32)
        in if b_index < 8 then bauds ! unat b_index else ttys0_baud
      else ttys0_baud)"

text \<open>A division by zero is \<open>None\<close>.\<close>

definition uart_baudrate_divisor :: "u32 \<Rightarrow> u32 \<Rightarrow> u32 \<Rightarrow> u32 option" where
  "uart_baudrate_divisor baudrate refclk oversample =
     (if baudrate * oversample = 0 then None else Some ((1 + 2 * refclk div (baudrate * oversample)) div 2))"

definition uart_bases :: "u32 list" where
  "uart_bases = [0x3f8, 0x2f8, 0x3e8, 0x2e8]"

text \<open>The index is an \<^verbatim>\<open>int\<close>, compared with a size: a negative one is large.\<close>

definition uart_platform_base :: "u32 \<Rightarrow> u32" where
  "uart_platform_base idx = (if idx < 4 then uart_bases ! unat idx else 0)"

record lbt_config =
  lbc_rom_size :: u32
  lbc_use_option_table :: bool
  lbc_console_serial :: bool
  lbc_console_usb :: bool
  lbc_uart_for_console :: u32
  lbc_ttys0_baud :: u32
  lbc_baud_option :: "cb_err \<times> u8 list"
  lbc_cbmem :: "u64 \<times> u64"
  mainboard_vendor :: "u8 list"
  mainboard_part_number :: "u8 list"
  coreboot_version :: "u8 list"
  coreboot_extra_version :: "u8 list"
  coreboot_build :: "u8 list"
  coreboot_compile_time :: "u8 list"
  coreboot_compile_by :: "u8 list"
  coreboot_compile_host :: "u8 list"
  coreboot_compile_domain :: "u8 list"

definition console_serial :: "lbt_config \<Rightarrow> lb_serial" where
  "console_serial cfg =
     \<lparr>lbs_type = LB_SERIAL_TYPE_IO_MAPPED, lbs_baseaddr = uart_platform_base (lbc_uart_for_console cfg),
      lbs_baud = default_baudrate (lbc_use_option_table cfg) (lbc_ttys0_baud cfg) (lbc_baud_option cfg)\<rparr>"

definition uart_fill_lb :: "lbt_config \<Rightarrow> u32 \<Rightarrow> memory \<Rightarrow> memory" where
  "uart_fill_lb cfg header mem =
     lb_add_console LB_TAG_CONSOLE_SERIAL8250 header (lb_add_serial (console_serial cfg) header mem)"

section \<open>The other records\<close>

definition section_ids :: "(u32 \<times> u32) list" where
  "section_ids = [(0x54494d45, LB_TAG_TIMESTAMPS), (0x434f4e53, LB_TAG_CBMEM_CONSOLE), (0x474e5653, LB_TAG_ACPI_GNVS)]"

primrec add_cbmem_refs :: "u64 \<times> u64 \<Rightarrow> u32 \<Rightarrow> (u32 \<times> u32) list \<Rightarrow> memory \<times> cbmem \<Rightarrow> memory \<times> cbmem" where
  "add_cbmem_refs tbl header [] s = s"
| "add_cbmem_refs tbl header (sid # sids) s =
     (let (mem, c) = s; (cbmem_addr, c) = cbmem_find tbl (fst sid) c
      in if cbmem_addr = 0 then add_cbmem_refs tbl header sids (mem, c)
         else
           let (cbmem_ref, mem) = lb_new_record header mem in
           if cbmem_ref = 0 then (mem, c)
           else
             let mem = write32 cbmem_ref (snd sid) mem;
                 mem = write32 (rec_size cbmem_ref) 16 mem;
                 mem = write_bytes (cbmem_ref + 8) (bytes64 (ucast cbmem_addr)) mem
             in add_cbmem_refs tbl header sids (mem, c))"

definition add_cbmem_pointers :: "u64 \<times> u64 \<Rightarrow> u32 \<Rightarrow> memory \<times> cbmem \<Rightarrow> memory \<times> cbmem" where
  "add_cbmem_pointers tbl header s = add_cbmem_refs tbl header section_ids s"

text \<open>The structure has 10 bytes before the strings and is padded to 12; a string is stored with its terminator.\<close>

definition lb_mainboard :: "lbt_config \<Rightarrow> u32 \<Rightarrow> memory \<Rightarrow> memory" where
  "lb_mainboard cfg header mem =
     (let (mainboard, mem) = lb_new_record header mem;
          mem = write32 mainboard LB_TAG_MAINBOARD mem;
          mem = write32 (rec_size mainboard)
            ((12 + of_nat (length (mainboard_vendor cfg)) + 1 + of_nat (length (mainboard_part_number cfg)) + 1 + 3) AND NOT 3) mem;
          vendor_idx = (0 :: u8); part_number_idx = (of_nat (length (mainboard_vendor cfg)) + 1 :: u8);
          mem = write_bytes (mainboard + 8) [vendor_idx] mem;
          mem = write_bytes (mainboard + 9) [part_number_idx] mem;
          mem = write_bytes (mainboard + 10 + ucast vendor_idx) (mainboard_vendor cfg @ [0]) mem
      in write_bytes (mainboard + 10 + ucast part_number_idx) (mainboard_part_number cfg @ [0]) mem)"

definition lb_string_table :: "lbt_config \<Rightarrow> (u32 \<times> u8 list) list" where
  "lb_string_table cfg =
     [(LB_TAG_VERSION, coreboot_version cfg), (LB_TAG_EXTRA_VERSION, coreboot_extra_version cfg), (LB_TAG_BUILD, coreboot_build cfg),
      (LB_TAG_COMPILE_TIME, coreboot_compile_time cfg), (LB_TAG_COMPILE_BY, coreboot_compile_by cfg),
      (LB_TAG_COMPILE_HOST, coreboot_compile_host cfg), (LB_TAG_COMPILE_DOMAIN, coreboot_compile_domain cfg)]"

definition lb_add_string :: "u32 \<Rightarrow> u32 \<times> u8 list \<Rightarrow> memory \<Rightarrow> memory" where
  "lb_add_string header str mem =
     (let (rec, mem) = lb_new_record header mem; len = of_nat (length (snd str));
          mem = write32 rec (fst str) mem;
          mem = write32 (rec_size rec) ((8 + len + 1 + 3) AND NOT 3) mem
      in write_bytes (rec + 8) (snd str @ [0]) mem)"

definition lb_strings :: "lbt_config \<Rightarrow> u32 \<Rightarrow> memory \<Rightarrow> memory" where
  "lb_strings cfg header mem = fold (lb_add_string header) (lb_string_table cfg) mem"

definition lb_forward :: "u32 \<Rightarrow> u32 \<Rightarrow> memory \<Rightarrow> memory" where
  "lb_forward header next_header mem =
     (let (forward, mem) = lb_new_record header mem;
          mem = write32 forward LB_TAG_FORWARD mem;
          mem = write32 (rec_size forward) 16 mem
      in write_bytes (forward + 8) (bytes64 (ucast next_header)) mem)"

definition lb_table_fini :: "u32 \<Rightarrow> memory \<Rightarrow> u32 \<times> memory" where
  "lb_table_fini head mem =
     (let rec = lb_last_record head mem;
          mem = (if read32 mem (lb_table_entries head) \<noteq> 0
                 then write32 (lb_table_bytes head) (read32 mem (lb_table_bytes head) + read32 mem (rec_size rec)) mem else mem);
          first_rec = lb_first_record head;
          mem = write32 (lb_table_checksum head)
            (compute_ip_checksum (mem_bytes mem first_rec (unat (read32 mem (lb_table_bytes head))))) mem;
          mem = write32 (lb_header_checksum head) 0 mem;
          mem = write32 (lb_header_checksum head) (compute_ip_checksum (mem_bytes mem head 24)) mem
      in (rec + read32 mem (rec_size rec), mem))"

section \<open>The memory map in memory\<close>

definition put_memory_range :: "u32 \<Rightarrow> lb_memory_range \<Rightarrow> memory \<Rightarrow> memory" where
  "put_memory_range a r mem =
     (let mem = write_bytes a (bytes32 (lb_lo (lb_memory_range.lb_start r)) @ bytes32 (lb_hi (lb_memory_range.lb_start r))) mem;
          mem = write_bytes (a + 8) (bytes32 (lb_lo (lb_size r)) @ bytes32 (lb_hi (lb_size r))) mem
      in write32 (a + 16) (lb_type r) mem)"

primrec write_table_ranges :: "memranges \<Rightarrow> u32 \<Rightarrow> u32 \<Rightarrow> memory \<Rightarrow> memory" where
  "write_table_ranges [] rec lb_r mem = mem"
| "write_table_ranges (r # rs) rec lb_r mem =
     (let mem = put_memory_range lb_r (lb_entry r) mem;
          lb_r = lb_r + 20;
          mem = write32 (rec_size rec) (read32 mem (rec_size rec) + 20) mem
      in write_table_ranges rs rec lb_r mem)"

definition write_memory_table :: "memranges \<Rightarrow> u32 \<Rightarrow> memory \<Rightarrow> memory" where
  "write_memory_table bm rec mem = write_table_ranges bm rec (rec + 8) mem"

section \<open>The table\<close>

record lbt_state =
  lbt_mem :: memory
  lbt_bm :: memranges
  lbt_pool :: range_pool
  lbt_cbmem :: cbmem

text \<open>\<open>cmos_layout.bin\<close>\<close>

definition cmos_layout_bin :: "u8 list" where
  "cmos_layout_bin = [0x63, 0x6d, 0x6f, 0x73, 0x5f, 0x6c, 0x61, 0x79, 0x6f, 0x75, 0x74, 0x2e, 0x62, 0x69, 0x6e]"

abbreviation (input) CBFS_COMPONENT_CMOS_LAYOUT :: u32 where "CBFS_COMPONENT_CMOS_LAYOUT \<equiv> 0x1aa"

definition lb_option_table :: "lbt_config \<Rightarrow> u32 \<Rightarrow> memory \<Rightarrow> memory option" where
  "lb_option_table cfg head mem = do {
     option_table \<leftarrow> cbfs_get_file_content (lbc_rom_size cfg) mem cmos_layout_bin CBFS_COMPONENT_CMOS_LAYOUT;
     Some (case option_table of
             None \<Rightarrow> mem
           | Some (option_table, _) \<Rightarrow>
               let (rec_dest, mem) = lb_new_record head mem
               in memcpy rec_dest option_table (read32 mem (option_table + 4)) mem)
   }"

text \<open>The low table that points to the other one.\<close>

definition lb_low_table :: "u32 \<Rightarrow> u32 \<Rightarrow> memory \<Rightarrow> u32 \<times> memory" where
  "lb_low_table low_table_end rom_table_end mem =
     (let (head, mem) = lb_table_init low_table_end mem;
          mem = lb_forward head rom_table_end mem;
          (low_table_end, mem) = lb_table_fini head mem
      in (ALIGN_UP low_table_end 4096, mem))"

definition lb_bootmem :: "u32 \<Rightarrow> u32 \<Rightarrow> u32 \<Rightarrow> u32 \<Rightarrow> devtree \<Rightarrow> cbmem \<Rightarrow> range_pool \<Rightarrow> (memranges \<times> range_pool) option" where
  "lb_bootmem low_table_start low_table_end rom_table_start rom_table_end t c pool = do {
     (bm, pool) \<leftarrow> bootmem_init t c pool;
     (bm, pool) \<leftarrow> (if low_table_start \<noteq> 0 \<or> low_table_end \<noteq> 0
       then bootmem_add_range (ucast low_table_start) (ucast (low_table_end - low_table_start)) LB_MEM_TABLE bm pool
       else Some (bm, pool));
     (if rom_table_end \<le> 0x100000
      then bootmem_add_range (ucast rom_table_start) (ucast (rom_table_end - rom_table_start)) LB_MEM_TABLE bm pool
      else Some (bm, pool))
   }"

definition lb_write_records :: "lbt_config \<Rightarrow> u32 \<Rightarrow> memranges \<Rightarrow> memory \<times> cbmem \<Rightarrow> memory \<times> cbmem" where
  "lb_write_records cfg head bm s =
     (let (mem, c) = s; (rec, mem) = lb_memory_record head mem;
          mem = write_memory_table bm rec mem;
          mem = lb_mainboard cfg head mem;
          mem = (if lbc_console_serial cfg then uart_fill_lb cfg head mem else mem);
          mem = (if lbc_console_usb cfg then lb_add_console LB_TAG_CONSOLE_EHCI head mem else mem);
          mem = lb_strings cfg head mem
      in add_cbmem_pointers (lbc_cbmem cfg) head (mem, c))"

definition write_coreboot_table ::
  "lbt_config \<Rightarrow> devtree \<Rightarrow> u32 \<Rightarrow> u32 \<Rightarrow> u32 \<Rightarrow> u32 \<Rightarrow> lbt_state \<Rightarrow> (u32 \<times> lbt_state) option" where
  "write_coreboot_table cfg t low_table_start low_table_end rom_table_start rom_table_end s =
     (let low = (low_table_start \<noteq> 0 \<or> low_table_end \<noteq> 0);
          (low_table_end, mem) = (if low then lb_low_table low_table_end rom_table_end (lbt_mem s) else (low_table_end, lbt_mem s));
          (head, mem) = lb_table_init rom_table_end mem;
          rom_table_end = ALIGN_UP head 0x10000
      in do {
        mem \<leftarrow> (if lbc_use_option_table cfg then lb_option_table cfg head mem else Some mem);
        (bm, pool) \<leftarrow> lb_bootmem low_table_start low_table_end rom_table_start rom_table_end t (lbt_cbmem s) (lbt_pool s);
        let (mem, c) = lb_write_records cfg head bm (mem, lbt_cbmem s);
            (e, mem) = lb_table_fini head mem
        in Some (e, \<lparr>lbt_mem = mem, lbt_bm = bm, lbt_pool = pool, lbt_cbmem = c\<rparr>)
      })"

section \<open>What memory holds\<close>

text \<open>
  Known bytes of memory from an offset \<open>k\<close> to a base \<open>h\<close> on; \<open>None\<close> is a byte nobody wrote.  Offsets are
  natural numbers below 4 GiB, so the base may lie anywhere.
\<close>

definition holds :: "memory \<Rightarrow> u32 \<Rightarrow> nat \<Rightarrow> u8 option list \<Rightarrow> bool" where
  "holds mem h k obs \<longleftrightarrow> (\<forall>i < length obs. \<forall>b. obs ! i = Some b \<longrightarrow> mem (h + of_nat (k + i)) = b)"

text \<open>Nothing but the first \<open>n\<close> bytes from \<open>h\<close> on has changed.\<close>

definition within :: "u32 \<Rightarrow> nat \<Rightarrow> memory \<Rightarrow> memory \<Rightarrow> bool" where
  "within h n mem mem' \<longleftrightarrow> (\<forall>a. n \<le> unat (a - h) \<longrightarrow> mem' a = mem a)"

lemma holds_Nil [simp]: "holds mem h k []"
  by (simp add: holds_def)

lemma holds_Cons: "holds mem h k (x # xs) \<longleftrightarrow> (\<forall>b. x = Some b \<longrightarrow> mem (h + of_nat k) = b) \<and> holds mem h (Suc k) xs"
  unfolding holds_def length_Cons All_less_Suc2
  by (simp only: nth_Cons_0 nth_Cons_Suc add_0_right add_Suc_right add_Suc)

lemma holds_append: "holds mem h k (xs @ ys) \<longleftrightarrow> holds mem h k xs \<and> holds mem h (k + length xs) ys"
  by (induction xs arbitrary: k) (simp_all add: holds_Cons)

lemma write_at:
  assumes "k + length bs \<le> 2 ^ 32" and "i < 2 ^ 32"
  shows "write_bytes (h + of_nat k) bs mem (h + of_nat i) = (if k \<le> i \<and> i < k + length bs then bs ! (i - k) else mem (h + of_nat i))"
proof (cases "k \<le> i")
  case True
  then have "h + of_nat i - (h + of_nat k) = (of_nat (i - k) :: u32)" by (simp add: of_nat_diff)
  moreover have "unat (of_nat (i - k) :: u32) = i - k" using assms(2) by (simp add: unsigned_of_nat take_bit_nat_eq_self)
  ultimately show ?thesis using True by (simp add: write_bytes_def del: add_diff_cancel_left) auto
next
  case False
  have "h + of_nat i - (h + of_nat k) = (of_nat (2 ^ 32 + i - k) :: u32)"
    using False assms(1) by (simp add: of_nat_diff)
  moreover have "2 ^ 32 + i - k < 2 ^ 32" "length bs \<le> 2 ^ 32 + i - k" using False assms by linarith+
  moreover have "unat (of_nat (2 ^ 32 + i - k) :: u32) = 2 ^ 32 + i - k"
    using calculation(2) unfolding unsigned_of_nat by (simp add: take_bit_nat_eq_self)
  ultimately show ?thesis using False by (simp add: write_bytes_def del: add_diff_cancel_left)
qed

lemma holds_write_same: "k + length bs \<le> 2 ^ 32 \<Longrightarrow> holds (write_bytes (h + of_nat k) bs mem) h k (map Some bs)"
  unfolding holds_def by (auto simp: write_at simp del: of_nat_add)

lemma holds_write_other:
  assumes "k + length bs \<le> 2 ^ 32" and "j + length obs \<le> 2 ^ 32" and "j + length obs \<le> k \<or> k + length bs \<le> j"
  shows "holds (write_bytes (h + of_nat k) bs mem) h j obs \<longleftrightarrow> holds mem h j obs"
  unfolding holds_def using assms by (auto simp: write_at simp del: of_nat_add)

lemma holds_cong: "\<forall>i < length obs. mem' (h + of_nat (k + i)) = mem (h + of_nat (k + i)) \<Longrightarrow> holds mem' h k obs = holds mem h k obs"
  by (simp add: holds_def)

lemma within_refl [simp]: "within h n mem mem"
  by (simp add: within_def)

lemma within_trans: "within h n a b \<Longrightarrow> within h n b c \<Longrightarrow> within h n a c"
  by (simp add: within_def)

lemma within_mono: "within h n a b \<Longrightarrow> n \<le> m \<Longrightarrow> within h m a b"
  by (simp add: within_def)

lemma within_write: 
  assumes "k + length bs \<le> n" and "n \<le> 2 ^ 32"
  shows "within h n mem (write_bytes (h + of_nat k) bs mem)"
  unfolding within_def
proof (intro allI impI)
  fix a assume a: "n \<le> unat (a - h)"
  have "a = h + of_nat (unat (a - h))" by simp
  moreover have "unat (a - h) < 2 ^ 32" using unat_less_exp [of "a - h"] by simp
  ultimately show "write_bytes (h + of_nat k) bs mem a = mem a"
    using write_at [of k bs "unat (a - h)" h mem] a assms by simp
qed

lemma length_bytes [simp]: "length (bytes16 x) = 2" "length (bytes32 v) = 4" "length (bytes64 w) = 8"
  by (simp_all add: bytes16_def bytes32_def bytes64_def)

lemma bytes32_word:
  "ucast (ucast v :: u8) OR push_bit 8 (ucast (ucast (drop_bit 8 v) :: u8)) OR push_bit 16 (ucast (ucast (drop_bit 16 v) :: u8))
     OR push_bit 24 (ucast (ucast (drop_bit 24 v) :: u8)) = (v :: u32)" (is "?l = v")
proof (rule bit_word_eqI)
  fix n assume "n < LENGTH(32)"
  then consider "n < 8" | "8 \<le> n" "n < 16" | "16 \<le> n" "n < 24" | "24 \<le> n" "n < 32" by fastforce
  then show "bit ?l n = bit v n" by cases (auto simp: bit_simps)
qed

lemma read32_bytes: 
  assumes "mem a = ucast v" "mem (a + 1) = ucast (drop_bit 8 v)" "mem (a + 2) = ucast (drop_bit 16 v)" "mem (a + 3) = ucast (drop_bit 24 v)"
  shows "read32 mem a = v"
  unfolding read32_def assms by (rule bytes32_word)

lemma holds_read32: 
  assumes "holds mem h k (map Some (bytes32 v))"
  shows "read32 mem (h + of_nat k) = v"
  using assms by (intro read32_bytes) (simp_all add: bytes32_def holds_Cons ac_simps)

section \<open>The table as a list of records\<close>

text \<open>A record is its tag and its bytes after tag and size.\<close>

type_synonym lb_rec = "u32 \<times> u8 option list"

definition enc :: "lb_rec \<Rightarrow> u8 option list" where
  "enc r = map Some (bytes32 (fst r) @ bytes32 (of_nat (8 + length (snd r)))) @ snd r"

definition encs :: "lb_rec list \<Rightarrow> u8 option list" where
  "encs rs = concat (map enc rs)"

definition table_len :: "lb_rec list \<Rightarrow> nat" where
  "table_len rs = length (encs rs)"

definition header_image :: "u32 \<Rightarrow> u32 \<Rightarrow> u32 \<Rightarrow> u32 \<Rightarrow> u8 list" where
  "header_image hchk tbytes tchk entries =
     [0x4c, 0x42, 0x49, 0x4f] @ bytes32 24 @ bytes32 hchk @ bytes32 tbytes @ bytes32 tchk @ bytes32 entries"

lemma length_enc [simp]: "length (enc r) = 8 + length (snd r)"
  by (simp add: enc_def)

lemma table_len_simps [simp]: "table_len [] = 0" "table_len (r # rs) = 8 + length (snd r) + table_len rs" "table_len (rs @ rs') = table_len rs + table_len rs'"
  by (simp_all add: table_len_def encs_def)

lemma encs_simps [simp]: "encs [] = []" "encs (r # rs) = enc r @ encs rs" "encs (rs @ rs') = encs rs @ encs rs'"
  by (simp_all add: encs_def)

lemma length_encs [simp]: "length (encs rs) = table_len rs"
  by (simp add: table_len_def)

lemma length_header_image [simp]: "length (header_image a b c d) = 24"
  by (simp add: header_image_def)

text \<open>
  A table being written: the length in the header counts all records but the last.  While a record is filled in
  (\<open>lb_pending\<close>) its place is behind the others and it is already counted.
\<close>

definition lb_open :: "memory \<Rightarrow> u32 \<Rightarrow> lb_rec list \<Rightarrow> bool" where
  "lb_open mem h rs \<longleftrightarrow> 24 + table_len rs \<le> 2 ^ 32
     \<and> holds mem h 0 (map Some (header_image 0 (of_nat (table_len (butlast rs))) 0 (of_nat (length rs)))) \<and> holds mem h 24 (encs rs)"

definition lb_pending :: "memory \<Rightarrow> u32 \<Rightarrow> lb_rec list \<Rightarrow> bool" where
  "lb_pending mem h rs \<longleftrightarrow> 32 + table_len rs \<le> 2 ^ 32
     \<and> holds mem h 0 (map Some (header_image 0 (of_nat (table_len rs)) 0 (of_nat (Suc (length rs))))) \<and> holds mem h 24 (encs rs)"

lemma lb_pending_fill:
  "lb_pending mem h rs \<Longrightarrow> holds mem h (24 + table_len rs) (enc r) \<Longrightarrow> 24 + table_len (rs @ [r]) \<le> 2 ^ 32 \<Longrightarrow> lb_open mem h (rs @ [r])"
  by (simp add: lb_pending_def lb_open_def holds_append)

lemma lb_pending_write:
  assumes "lb_pending mem h rs" and "24 + table_len rs \<le> k" and "k + length bs \<le> 2 ^ 32"
  shows "lb_pending (write_bytes (h + of_nat k) bs mem) h rs"
  using assms by (simp add: lb_pending_def holds_write_other)

section \<open>Single records\<close>

lemma holds_replace:
  assumes "holds mem h k (xs @ ys @ zs)" and "length ys = length bs" and "k + length (xs @ ys @ zs) \<le> 2 ^ 32"
  shows "holds (write_bytes (h + of_nat (k + length xs)) bs mem) h k (xs @ map Some bs @ zs)"
  using assms holds_write_same [of "k + length xs" bs h mem] unfolding holds_append by (simp add: holds_write_other del: of_nat_add)

lemma header_reads:
  assumes "holds mem h 0 (map Some (header_image a b c d))"
  shows "read32 mem (lb_header_bytes h) = 24" "read32 mem (lb_header_checksum h) = a" "read32 mem (lb_table_bytes h) = b"
    "read32 mem (lb_table_checksum h) = c" "read32 mem (lb_table_entries h) = d"
  using assms holds_read32 [of mem h "Suc (Suc (Suc (Suc 0)))" 24] holds_read32 [of mem h 8 a] holds_read32 [of mem h 12 b] holds_read32 [of mem h 16 c]
    holds_read32 [of mem h 20 d]
  by (simp_all add: header_image_def holds_append holds_Cons)

lemma header_writes:
  assumes "holds mem h 0 (map Some (header_image a b c d))"
  shows "holds (write32 (lb_header_checksum h) v mem) h 0 (map Some (header_image v b c d))"
    "holds (write32 (lb_table_bytes h) v mem) h 0 (map Some (header_image a v c d))"
    "holds (write32 (lb_table_checksum h) v mem) h 0 (map Some (header_image a b v d))"
    "holds (write32 (lb_table_entries h) v mem) h 0 (map Some (header_image a b c v))"
proof -
  let ?s = "map Some ([0x4c, 0x42, 0x49, 0x4f] @ bytes32 24)"
  have m: "holds mem h 0 (?s @ map Some (bytes32 a) @ map Some (bytes32 b) @ map Some (bytes32 c) @ map Some (bytes32 d))"
    using assms by (simp add: header_image_def)
  show "holds (write32 (lb_header_checksum h) v mem) h 0 (map Some (header_image v b c d))"
    using holds_replace [of mem h 0 ?s _ _ "bytes32 v", OF m] by (simp add: header_image_def write32_def)
  show "holds (write32 (lb_table_bytes h) v mem) h 0 (map Some (header_image a v c d))"
    using holds_replace [of mem h 0 "?s @ map Some (bytes32 a)" "map Some (bytes32 b)" "map Some (bytes32 c) @ map Some (bytes32 d)" "bytes32 v"] m
    by (simp add: header_image_def write32_def)
  show "holds (write32 (lb_table_checksum h) v mem) h 0 (map Some (header_image a b v d))"
    using holds_replace [of mem h 0 "?s @ map Some (bytes32 a) @ map Some (bytes32 b)" "map Some (bytes32 c)" "map Some (bytes32 d)" "bytes32 v"] m
    by (simp add: header_image_def write32_def)
  show "holds (write32 (lb_table_entries h) v mem) h 0 (map Some (header_image a b c v))"
    using holds_replace [of mem h 0 "?s @ map Some (bytes32 a) @ map Some (bytes32 b) @ map Some (bytes32 c)" "map Some (bytes32 d)" "[]" "bytes32 v"] m
    by (simp add: header_image_def write32_def)
qed

text \<open>Writes of a word at an offset, on what lies elsewhere.\<close>

lemma write32_at: "write32 (h + of_nat k) v mem = write_bytes (h + of_nat k) (bytes32 v) mem"
  by (simp add: write32_def)

lemma header_write_other:
  assumes "k < 24" and "k + 4 \<le> 24" and "24 + length obs \<le> 2 ^ 32"
  shows "holds (write32 (h + of_nat k) v mem) h 24 obs = holds mem h 24 obs"
  using assms unfolding write32_at by (intro holds_write_other) simp_all

lemma table_len_ge: "8 * length rs \<le> table_len rs"
  by (induction rs) auto

lemma within_write32: "k + 4 \<le> n \<Longrightarrow> n \<le> 2 ^ 32 \<Longrightarrow> within h n mem (write32 (h + of_nat k) v mem)"
  unfolding write32_at by (rule within_write) simp_all

lemma lb_open_count:
  assumes "lb_open mem h rs"
    and m: "m = (if read32 mem (lb_table_entries h) \<noteq> 0
      then write32 (lb_table_bytes h) (read32 mem (lb_table_bytes h) + read32 mem (rec_size (lb_last_record h mem))) mem else mem)"
  shows "holds m h 0 (map Some (header_image 0 (of_nat (table_len rs)) 0 (of_nat (length rs))))"
    and "holds m h 24 (encs rs)" and "within h 24 mem m"
    and "lb_last_record h mem = h + of_nat (24 + table_len (butlast rs))"
proof -
  note rd = header_reads [OF assms(1) [unfolded lb_open_def, THEN conjunct2, THEN conjunct1]]
  show l: "lb_last_record h mem = h + of_nat (24 + table_len (butlast rs))"
    by (simp add: lb_last_record_def rd ac_simps)
  have o: "24 + table_len rs \<le> 2 ^ 32" "holds mem h 0 (map Some (header_image 0 (of_nat (table_len (butlast rs))) 0 (of_nat (length rs))))"
    "holds mem h 24 (encs rs)" using assms(1) by (simp_all add: lb_open_def)
  have e: "(of_nat (length rs) :: u32) = 0 \<longleftrightarrow> rs = []"
    using o(1) table_len_ge [of rs] by (simp add: unat_eq_0 [symmetric] unsigned_of_nat take_bit_nat_eq_self)
  have len: "rs \<noteq> [] \<Longrightarrow> read32 mem (rec_size (lb_last_record h mem)) = of_nat (8 + length (snd (last rs)))"
  proof -
    assume ne: "rs \<noteq> []"
    have "holds mem h 24 (encs (butlast rs @ [last rs]))" using o(3) ne by simp
    then have "holds mem h (24 + table_len (butlast rs) + 4) (map Some (bytes32 (of_nat (8 + length (snd (last rs))))))"
      by (simp add: holds_append enc_def ac_simps)
    then show ?thesis using holds_read32 unfolding l by (metis (no_types, opaque_lifting) add.assoc of_nat_add of_nat_numeral)
  qed
  have tl: "rs \<noteq> [] \<Longrightarrow> table_len (butlast rs) + (8 + length (snd (last rs))) = table_len rs"
    using table_len_simps(3) [of "butlast rs" "[last rs]"] by simp
  show "holds m h 0 (map Some (header_image 0 (of_nat (table_len rs)) 0 (of_nat (length rs))))"
  proof (cases "rs = []")
    case True
    then show ?thesis using o(2) by (simp add: m rd)
  next
    case False
    have "read32 mem (lb_table_bytes h) + read32 mem (rec_size (lb_last_record h mem)) = of_nat (table_len rs)"
      unfolding rd len [OF False] of_nat_add [symmetric] tl [OF False] by (rule refl)
    then show ?thesis using header_writes(2) [OF o(2), of "of_nat (table_len rs)"] False e by (simp add: m rd)
  qed
  show "holds m h 24 (encs rs)" using o(1,3) header_write_other [of 12 "encs rs" h] by (simp add: m)
  show "within h 24 mem m" using within_write32 [of 12 24 h mem] by (simp add: m)
qed

lemma lb_new_record_pending:
  assumes "lb_open mem h rs" and "32 + table_len rs \<le> 2 ^ 32"
  shows "\<exists>mem'. lb_new_record h mem = (h + of_nat (24 + table_len rs), mem') \<and> lb_pending mem' h rs \<and> within h (32 + table_len rs) mem mem'"
proof -
  define mem1 where "mem1 = (if read32 mem (lb_table_entries h) \<noteq> 0
    then write32 (lb_table_bytes h) (read32 mem (lb_table_bytes h) + read32 mem (rec_size (lb_last_record h mem))) mem else mem)"
  have m1: "holds mem1 h 0 (map Some (header_image 0 (of_nat (table_len rs)) 0 (of_nat (length rs))))" "holds mem1 h 24 (encs rs)" "within h 24 mem mem1"
    using lb_open_count [OF assms(1) mem1_def] by blast+
  note rd = header_reads [OF m1(1)]
  define k where "k = 24 + table_len rs"
  have last: "lb_last_record h mem1 = h + of_nat k" by (simp add: lb_last_record_def rd k_def ac_simps)
  define mem2 where "mem2 = write32 (lb_table_entries h) (of_nat (Suc (length rs))) mem1"
  have m2: "holds mem2 h 0 (map Some (header_image 0 (of_nat (table_len rs)) 0 (of_nat (Suc (length rs)))))" "holds mem2 h 24 (encs rs)" "within h 24 mem1 mem2"
    using header_writes(4) [OF m1(1), of "of_nat (Suc (length rs))"] header_write_other [of 20 "encs rs" h] m1(2) assms(2) within_write32 [of 20 24 h mem1]
    by (simp_all add: mem2_def)
  have p2: "lb_pending mem2 h rs" using m2 assms(2) by (simp add: lb_pending_def)
  define mem3 where "mem3 = write32 (h + of_nat (k + 4)) 8 (write32 (h + of_nat k) LB_TAG_UNUSED mem2)"
  have "lb_pending mem3 h rs" using p2 assms(2) unfolding mem3_def write32_at by (intro lb_pending_write) (simp_all add: k_def)
  moreover have "within h (32 + table_len rs) mem mem3"
    using m1(3) m2(3) assms(2) unfolding mem3_def
    by (intro within_trans [OF within_mono [OF m1(3)] within_trans [OF within_mono [OF m2(3)] within_trans [OF within_write32 within_write32]]]) (simp_all add: k_def)
  moreover have "lb_new_record h mem = (h + of_nat k, mem3)"
  proof -
    have "of_nat (length rs) + 1 = (of_nat (Suc (length rs)) :: u32)" by simp
    moreover have "h + of_nat k + 4 = h + of_nat (k + 4)" by (simp add: ac_simps)
    ultimately show ?thesis
      unfolding lb_new_record_def Let_def mem1_def [symmetric] last rd mem3_def mem2_def by (simp only:)
  qed
  ultimately show ?thesis unfolding k_def by blast
qed

section \<open>What each part of the code appends\<close>

text \<open>
  The contract of the functions that add records: an open table with room for them becomes the open table with
  them at its end, and nothing outside of the table changes.  Contracts compose.
\<close>

definition room :: "u32 \<Rightarrow> lb_rec list \<Rightarrow> bool" where
  "room h rs \<longleftrightarrow> unat h + 24 + table_len rs \<le> 2 ^ 32"

definition appends :: "u32 \<Rightarrow> lb_rec list \<Rightarrow> (memory \<Rightarrow> memory) \<Rightarrow> bool" where
  "appends h new f \<longleftrightarrow> (\<forall>mem rs. lb_open mem h rs \<and> room h (rs @ new) \<longrightarrow>
     lb_open (f mem) h (rs @ new) \<and> within h (24 + table_len (rs @ new)) mem (f mem))"

lemma appendsD:
  assumes "appends h new f" and "lb_open mem h rs" and "room h (rs @ new)"
  shows "lb_open (f mem) h (rs @ new)" and "within h (24 + table_len (rs @ new)) mem (f mem)"
  using assms by (simp_all add: appends_def)

lemma appends_nothing: "appends h [] (\<lambda>mem. mem)"
  by (simp add: appends_def)

lemma appends_comp:
  assumes "appends h new f" and "appends h new' g"
  shows "appends h (new @ new') (\<lambda>mem. g (f mem))"
  unfolding appends_def
proof (intro allI impI, elim conjE)
  fix mem rs assume o: "lb_open mem h rs" and r: "room h (rs @ new @ new')"
  have f: "lb_open (f mem) h (rs @ new)" "within h (24 + table_len (rs @ new)) mem (f mem)"
    using appendsD [OF assms(1) o] r by (simp_all add: room_def)
  have "lb_open (g (f mem)) h (rs @ new @ new')" "within h (24 + table_len (rs @ new @ new')) (f mem) (g (f mem))"
    using appendsD [OF assms(2) f(1)] r by (simp_all add: room_def)
  then show "lb_open (g (f mem)) h (rs @ new @ new') \<and> within h (24 + table_len (rs @ new @ new')) mem (g (f mem))"
    using within_trans [OF within_mono [OF f(2)]] by simp
qed

lemma appends_If: "(b \<Longrightarrow> appends h new f) \<Longrightarrow> appends h (if b then new else []) (\<lambda>mem. if b then f mem else mem)"
  by (cases b) (simp_all add: appends_nothing)

lemma appends_fold: "\<forall>x \<in> set xs. appends h (new x) (f x) \<Longrightarrow> appends h (concat (map new xs)) (fold f xs)"
proof (induction xs)
  case Nil
  then show ?case by (simp add: appends_nothing id_def)
next
  case (Cons x xs)
  then show ?case using appends_comp [of h "new x" "f x" "concat (map new xs)" "fold f xs"] by (simp add: comp_def)
qed

lemma write_bytes_append:
  assumes "b = a + of_nat (length xs)" and "length xs + length ys \<le> 2 ^ 32"
  shows "write_bytes b ys (write_bytes a xs mem) = write_bytes a (xs @ ys) mem"
proof
  fix p :: u32
  have p: "p = a + of_nat (unat (p - a))" by simp
  have lt: "unat (p - a) < 2 ^ 32" using unat_less_exp [of "p - a"] by simp
  have y: "write_bytes b ys m p = (if length xs \<le> unat (p - a) \<and> unat (p - a) < length xs + length ys then ys ! (unat (p - a) - length xs) else m p)" for m
    using write_at [OF _ lt, of "length xs" ys a m] assms by (simp add: p [symmetric])
  show "write_bytes b ys (write_bytes a xs mem) p = write_bytes a (xs @ ys) mem p"
    unfolding y by (auto simp: write_bytes_def nth_append)
qed

lemma holds_unknown: "holds mem h k (replicate p None)"
  by (simp add: holds_def)

text \<open>A record of known bytes and padding.\<close>

lemma lb_fill_record:
  assumes o: "lb_open mem h rs" and n: "lb_new_record h mem = (rec, mem1)"
    and bs: "bs = bytes32 tag @ bytes32 (of_nat (length bs + p)) @ body"
    and room: "room h (rs @ [(tag, map Some body @ replicate p None)])" (is "room h (rs @ [?r])")
  shows "lb_open (write_bytes rec bs mem1) h (rs @ [?r])" and "within h (24 + table_len (rs @ [?r])) mem (write_bytes rec bs mem1)"
    and "rec = h + of_nat (24 + table_len rs)"
proof -
  have lbs: "length bs = 8 + length body" by (subst bs) simp
  have sz: "24 + table_len rs + length bs + p \<le> 2 ^ 32" using room lbs by (simp add: room_def)
  obtain mem' where m: "lb_new_record h mem = (h + of_nat (24 + table_len rs), mem')" "lb_pending mem' h rs" "within h (32 + table_len rs) mem mem'"
    using lb_new_record_pending [OF o] sz lbs by auto
  then show rec: "rec = h + of_nat (24 + table_len rs)" using n by simp
  have mem1: "mem1 = mem'" using m(1) n by simp
  have "enc ?r = map Some bs @ replicate p None"
    by (subst bs) (simp add: enc_def lbs add.assoc del: of_nat_add)
  then have "holds (write_bytes rec bs mem1) h (24 + table_len rs) (enc ?r)"
    using sz unfolding rec by (simp add: holds_append holds_write_same holds_unknown del: of_nat_add)
  moreover have "lb_pending (write_bytes rec bs mem1) h rs"
    unfolding rec mem1 by (rule lb_pending_write [OF m(2)]) (use sz in auto)
  ultimately show "lb_open (write_bytes rec bs mem1) h (rs @ [?r])" using sz lbs by (intro lb_pending_fill) simp_all
  have "within h (24 + table_len (rs @ [?r])) mem1 (write_bytes rec bs mem1)"
    unfolding rec by (rule within_write) (use sz lbs in simp_all)
  then show "within h (24 + table_len (rs @ [?r])) mem (write_bytes rec bs mem1)"
    using within_mono [OF m(3), of "24 + table_len (rs @ [?r])"] mem1 by (auto intro: within_trans)
qed

lemma appends_record:
  assumes "\<And>mem. f mem = (let (rec, mem) = lb_new_record h mem in write_bytes rec (bytes32 tag @ bytes32 sz @ body) mem)"
    and "sz = of_nat (8 + length body + p)"
  shows "appends h [(tag, map Some body @ replicate p None)] f"
  unfolding appends_def
proof (intro allI impI, elim conjE)
  fix mem rs assume o: "lb_open mem h rs" and r: "room h (rs @ [(tag, map Some body @ replicate p None)])"
  obtain rec mem1 where n: "lb_new_record h mem = (rec, mem1)" by (cases "lb_new_record h mem")
  have "bytes32 tag @ bytes32 sz @ body = bytes32 tag @ bytes32 (of_nat (length (bytes32 tag @ bytes32 sz @ body) + p)) @ body"
    by (simp add: assms(2) add.assoc del: of_nat_add)
  note lb_fill_record(1,2) [OF o n this r]
  then show "lb_open (f mem) h (rs @ [(tag, map Some body @ replicate p None)])
      \<and> within h (24 + table_len (rs @ [(tag, map Some body @ replicate p None)])) mem (f mem)"
    using assms(1) [of mem] n by simp
qed

definition serial_rec :: "lb_serial \<Rightarrow> lb_rec" where
  "serial_rec s = (LB_TAG_SERIAL, map Some (bytes32 (lbs_type s) @ bytes32 (lbs_baseaddr s) @ bytes32 (lbs_baud s)))"

definition console_rec :: "u16 \<Rightarrow> lb_rec" where
  "console_rec ty = (LB_TAG_CONSOLE, map Some (bytes16 ty) @ [None, None])"

text \<open>The padding of a string's record, to a multiple of four bytes.\<close>

definition pad4 :: "nat \<Rightarrow> nat" where
  "pad4 n = (3 - (n + 3) mod 4)"

definition string_rec :: "u32 \<times> u8 list \<Rightarrow> lb_rec" where
  "string_rec s = (fst s, map Some (snd s @ [0]) @ replicate (pad4 (8 + length (snd s) + 1)) None)"

definition ref_rec :: "u32 \<Rightarrow> u32 \<Rightarrow> lb_rec" where
  "ref_rec tag addr = (tag, map Some (bytes64 (ucast addr)))"

definition mainboard_rec :: "lbt_config \<Rightarrow> lb_rec" where
  "mainboard_rec cfg = (let v = mainboard_vendor cfg; p = mainboard_part_number cfg in
     (LB_TAG_MAINBOARD, map Some ([0, of_nat (length v) + 1] @ (v @ [0]) @ p @ [0])
        @ replicate (2 + pad4 (12 + length v + 1 + length p + 1)) None))"

lemma rec_offset: "unat (x :: u32) + 8 \<le> 2 ^ 32 \<Longrightarrow> x + 4 = x + of_nat 4" "x + 8 = x + of_nat 8"
  by simp_all

lemma write_tag_size: "write32 (rec_size rec) s (write32 rec t mem) = write_bytes rec (bytes32 t @ bytes32 s) mem"
  unfolding write32_def by (rule write_bytes_append) simp_all

lemma appends_serial: "appends h [serial_rec s] (lb_add_serial s h)"
proof -
  have "lb_add_serial s h mem = (let (rec, mem) = lb_new_record h mem in
      write_bytes rec (bytes32 LB_TAG_SERIAL @ bytes32 20 @ bytes32 (lbs_type s) @ bytes32 (lbs_baseaddr s) @ bytes32 (lbs_baud s)) mem)" for mem
    unfolding lb_add_serial_def Let_def write_tag_size by (simp add: write32_def write_bytes_append split: prod.split)
  from appends_record [OF this, of 0] show ?thesis by (simp add: serial_rec_def)
qed

lemma appends_console: "appends h [console_rec ty] (lb_add_console ty h)"
proof -
  have "lb_add_console ty h mem = (let (rec, mem) = lb_new_record h mem in
      write_bytes rec (bytes32 LB_TAG_CONSOLE @ bytes32 12 @ bytes16 ty) mem)" for mem
    unfolding lb_add_console_def Let_def write_tag_size by (simp add: write_bytes_append split: prod.split)
  from appends_record [OF this, of 2] show ?thesis by (simp add: console_rec_def numeral_2_eq_2)
qed

lemma appends_forward: "appends h [ref_rec LB_TAG_FORWARD next_header] (lb_forward h next_header)"
proof -
  have "lb_forward h next_header mem = (let (rec, mem) = lb_new_record h mem in
      write_bytes rec (bytes32 LB_TAG_FORWARD @ bytes32 16 @ bytes64 (ucast next_header)) mem)" for mem
    unfolding lb_forward_def Let_def write_tag_size by (simp add: write_bytes_append split: prod.split)
  from appends_record [OF this, of 0] show ?thesis by (simp add: ref_rec_def)
qed

lemma round4: "n + pad4 n = (n + 3) div 4 * 4"
  using mod_less_divisor [of 4 "n + 3"] by (simp add: pad4_def minus_mod_eq_div_mult)

lemma and_not_3:
  assumes "n + 3 < 2 ^ 32"
  shows "(of_nat (n + 3) AND NOT 3 :: u32) = of_nat (n + pad4 n)"
proof -
  have m: "(3 :: u32) = mask 2" by (simp add: mask_eq_exp_minus_1)
  have "unat (of_nat (n + 3) AND NOT 3 :: u32) = (n + 3) div 4 * 4"
    using assms unfolding m unat_and_not_mask by (simp add: unsigned_of_nat take_bit_nat_eq_self del: of_nat_add)
  moreover have "(n + 3) div 4 * 4 < 2 ^ 32" using assms by (intro le_less_trans [OF div_times_less_eq_dividend])
  ultimately show ?thesis unfolding word_unat_eq_iff round4 by (simp add: unsigned_of_nat take_bit_nat_eq_self del: of_nat_mult)
qed

lemma appends_string:
  assumes "length (snd str) < 2 ^ 30"
  shows "appends h [string_rec str] (lb_add_string h str)"
proof -
  let ?n = "8 + length (snd str) + 1"
  have "(8 + of_nat (length (snd str)) + 1 + 3 :: u32) = of_nat (?n + 3)" by simp
  then have sz: "(8 + of_nat (length (snd str)) + 1 + 3 :: u32) AND NOT 3 = of_nat (?n + pad4 ?n)"
    using and_not_3 [of ?n] assms by (simp only:) simp
  have "lb_add_string h str mem = (let (rec, mem) = lb_new_record h mem in
      write_bytes rec (bytes32 (fst str) @ bytes32 (of_nat (?n + pad4 ?n)) @ snd str @ [0]) mem)" for mem
    unfolding lb_add_string_def Let_def sz write_tag_size using assms by (simp add: write_bytes_append split: prod.split del: of_nat_add)
  from appends_record [OF this, of "pad4 ?n"] show ?thesis by (simp add: string_rec_def)
qed

lemma appends_mainboard:
  assumes "length (mainboard_vendor cfg) < 255" and "length (mainboard_part_number cfg) < 2 ^ 30"
  shows "appends h [mainboard_rec cfg] (lb_mainboard cfg h)"
proof -
  let ?v = "mainboard_vendor cfg" and ?p = "mainboard_part_number cfg"
  let ?n = "12 + length ?v + 1 + length ?p + 1"
  have "(12 + of_nat (length ?v) + 1 + of_nat (length ?p) + 1 + 3 :: u32) = of_nat (?n + 3)" by simp
  then have sz: "(12 + of_nat (length ?v) + 1 + of_nat (length ?p) + 1 + 3 :: u32) AND NOT 3 = of_nat (?n + pad4 ?n)"
    using and_not_3 [of ?n] assms by (simp only:) simp
  have idx: "ucast (of_nat (length ?v) + 1 :: u8) = (of_nat (length ?v + 1) :: u32)"
  proof -
    have "unat (of_nat (length ?v + 1) :: u8) = length ?v + 1" "unat (of_nat (length ?v + 1) :: u32) = length ?v + 1"
      using assms(1) by (simp_all add: unsigned_of_nat take_bit_nat_eq_self del: of_nat_add of_nat_Suc)
    then show ?thesis using assms(1) unfolding word_unat_eq_iff unat_ucast_mod of_nat_add [symmetric] of_nat_1 [symmetric, where 'a = u8]
      by (simp del: of_nat_add of_nat_Suc)
  qed
  have "lb_mainboard cfg h mem = (let (rec, mem) = lb_new_record h mem in
      write_bytes rec (bytes32 LB_TAG_MAINBOARD @ bytes32 (of_nat (?n + pad4 ?n)) @ [0, of_nat (length ?v) + 1] @ (?v @ [0]) @ ?p @ [0]) mem)" for mem
    unfolding lb_mainboard_def Let_def sz write_tag_size idx using assms by (simp add: write_bytes_append ac_simps split: prod.split)
  from appends_record [OF this, of "2 + pad4 ?n"] show ?thesis by (simp add: mainboard_rec_def Let_def ac_simps)
qed

definition range_bytes :: "range_entry \<Rightarrow> u8 list" where
  "range_bytes r = bytes64 (range_entry_base r) @ bytes64 (range_entry_size r) @ bytes32 (re_tag r)"

definition memory_rec :: "memranges \<Rightarrow> lb_rec" where
  "memory_rec bm = (LB_TAG_MEMORY, map Some (concat (map range_bytes bm)))"

lemma length_range_bytes [simp]: "length (range_bytes r) = 20" "length (concat (map range_bytes bm)) = 20 * length bm"
proof -
  show l: "length (range_bytes r) = 20" for r by (simp add: range_bytes_def)
  show "length (concat (map range_bytes bm)) = 20 * length bm" by (induction bm) (simp_all add: l)
qed

lemma pack_lb64_bytes: "bytes32 (lb_lo (pack_lb64 v)) @ bytes32 (lb_hi (pack_lb64 v)) = bytes64 v"
proof -
  have m: "(0xffffffff :: u64) = mask 32" by (simp add: mask_eq_exp_minus_1)
  have "ucast (v AND mask 32) = (ucast v :: u32)" for v :: u64 by (rule bit_word_eqI) (auto simp: bit_simps)
  then show ?thesis by (simp add: pack_lb64_def bytes64_def m)
qed

lemma put_memory_range_bytes: "put_memory_range a (lb_entry r) mem = write_bytes a (range_bytes r) mem"
  unfolding put_memory_range_def Let_def lb_entry_def lb_memory_range.select_convs pack_lb64_bytes
  by (simp add: write32_def write_bytes_append range_bytes_def)

lemma write_table_ranges_holds:
  assumes "lb_pending mem h rs" and "holds mem h (24 + table_len rs) (enc (LB_TAG_MEMORY, map Some done'))"
    and "24 + table_len rs + 8 + length done' + 20 * length bm \<le> 2 ^ 32"
  shows "lb_pending (write_table_ranges bm (h + of_nat (24 + table_len rs)) (h + of_nat (24 + table_len rs + 8 + length done')) mem) h rs
    \<and> holds (write_table_ranges bm (h + of_nat (24 + table_len rs)) (h + of_nat (24 + table_len rs + 8 + length done')) mem) h (24 + table_len rs)
        (enc (LB_TAG_MEMORY, map Some (done' @ concat (map range_bytes bm))))
    \<and> within h (24 + table_len rs + 8 + length done' + 20 * length bm) mem
        (write_table_ranges bm (h + of_nat (24 + table_len rs)) (h + of_nat (24 + table_len rs + 8 + length done')) mem)"
  using assms
proof (induction bm arbitrary: mem done')
  case Nil
  then show ?case by simp
next
  case (Cons r bm)
  define K where "K = 24 + table_len rs"
  define e where "e = K + 8 + length done'"
  let ?hd = "map Some (bytes32 LB_TAG_MEMORY)" and ?sz = "\<lambda>n. map Some (bytes32 (of_nat n))"
  have E: "e + 20 \<le> 2 ^ 32" "K + 8 \<le> e" using Cons.prems(3) by (simp_all add: e_def K_def)
  define m1 where "m1 = write_bytes (h + of_nat e) (range_bytes r) mem"
  define m2 where "m2 = write32 (h + of_nat (K + 4)) (of_nat (8 + length done' + 20)) m1"
  have enc: "enc (LB_TAG_MEMORY, map Some xs) = ?hd @ ?sz (8 + length xs) @ map Some xs" for xs by (simp add: enc_def)
  have h0: "holds mem h K (?hd @ ?sz (8 + length done') @ map Some done')" using Cons.prems(2) by (simp add: K_def enc)
  have h1: "holds m1 h K (?hd @ ?sz (8 + length done') @ map Some (done' @ range_bytes r))"
    using h0 E holds_write_same [of e "range_bytes r" h mem] holds_write_other [of e "range_bytes r" K "?hd @ ?sz (8 + length done') @ map Some done'" h mem]
    unfolding m1_def by (simp add: holds_append e_def ac_simps del: of_nat_add)
  have rd: "read32 m1 (h + of_nat (K + 4)) = of_nat (8 + length done')"
    using h1 by (intro holds_read32) (simp add: holds_append del: of_nat_add)
  have h2: "holds m2 h K (enc (LB_TAG_MEMORY, map Some (done' @ range_bytes r)))"
    using holds_replace [OF h1, of "bytes32 (of_nat (8 + length done' + 20))"] E unfolding m2_def write32_at
    by (simp add: enc_def e_def add.assoc del: of_nat_add)
  have p2: "lb_pending m2 h rs"
    using E Cons.prems(1) unfolding m2_def write32_at m1_def K_def by (intro lb_pending_write) (simp_all add: K_def del: of_nat_add)
  have k2: "within h (e + 20 + 20 * length bm) mem m2"
    using E Cons.prems(3) within_write [of e "range_bytes r" "e + 20 + 20 * length bm" h mem] within_write32 [of "K + 4" "e + 20 + 20 * length bm" h m1]
    by (auto simp: m1_def m2_def e_def K_def simp del: of_nat_add intro: within_trans)
  have step: "write_table_ranges (r # bm) (h + of_nat K) (h + of_nat e) mem = write_table_ranges bm (h + of_nat K) (h + of_nat (e + 20)) m2"
  proof -
    have a: "h + of_nat K + 4 = h + of_nat (K + 4)" "h + of_nat e + 20 = h + of_nat (e + 20)" by (simp_all add: ac_simps)
    have s: "of_nat (8 + length done') + 20 = (of_nat (8 + length done' + 20) :: u32)" by simp
    show ?thesis by (simp only: write_table_ranges.simps Let_def put_memory_range_bytes a rd s m1_def [symmetric] m2_def [symmetric])
  qed
  have ih: "K + 8 + length (done' @ range_bytes r) = e + 20" "e + 20 + 20 * length bm = K + 8 + length done' + 20 * length (r # bm)" by (simp_all add: e_def)
  note IH = Cons.IH [OF p2, of "done' @ range_bytes r", folded K_def, unfolded ih, OF h2]
  show ?case
    unfolding K_def [symmetric] e_def [symmetric] step using IH Cons.prems(3) k2 unfolding ih(2) [symmetric]
    by (auto simp: e_def K_def add.assoc simp del: of_nat_add intro: within_trans)
qed

lemma appends_memory: "appends h [memory_rec bm] (\<lambda>mem. let (rec, mem) = lb_memory_record h mem in write_memory_table bm rec mem)"
  unfolding appends_def
proof (intro allI impI, elim conjE)
  fix mem rs assume o: "lb_open mem h rs" and r: "room h (rs @ [memory_rec bm])"
  define K where "K = 24 + table_len rs"
  have K: "K + 8 + 20 * length bm \<le> 2 ^ 32" using r by (simp add: room_def K_def memory_rec_def)
  obtain m1 where m1: "lb_new_record h mem = (h + of_nat K, m1)" "lb_pending m1 h rs" "within h (K + 8) mem m1"
    using lb_new_record_pending [OF o] K by (auto simp: K_def)
  define m2 where "m2 = write_bytes (h + of_nat K) (bytes32 LB_TAG_MEMORY @ bytes32 8) m1"
  have rec: "lb_memory_record h mem = (h + of_nat K, m2)"
    unfolding lb_memory_record_def Let_def write_tag_size m1(1) by (simp add: m2_def)
  have p2: "lb_pending m2 h rs" "within h (K + 8) m1 m2"
    using K m1(2) unfolding m2_def by (auto intro!: lb_pending_write within_write simp: K_def simp del: of_nat_add)
  have h2: "holds m2 h K (enc (LB_TAG_MEMORY, map Some []))"
    using K holds_write_same [of K "bytes32 LB_TAG_MEMORY @ bytes32 8" h m1] by (simp add: m2_def enc_def)
  have w: "write_memory_table bm (h + of_nat K) m2 = write_table_ranges bm (h + of_nat K) (h + of_nat (K + 8 + length ([] :: u8 list))) m2"
    by (simp add: write_memory_table_def ac_simps)
  note W = write_table_ranges_holds [OF p2(1), of "[]", folded K_def, OF h2, of bm, folded w]
  have "within h (24 + table_len (rs @ [memory_rec bm])) mem m2"
    by (rule within_trans [OF within_mono [OF m1(3)] within_mono [OF p2(2)]]) (simp_all add: K_def memory_rec_def)
  then show "lb_open (let (rec, mem) = lb_memory_record h mem in write_memory_table bm rec mem) h (rs @ [memory_rec bm])
      \<and> within h (24 + table_len (rs @ [memory_rec bm])) mem (let (rec, mem) = lb_memory_record h mem in write_memory_table bm rec mem)"
    using W K r lb_pending_fill [of "write_memory_table bm (h + of_nat K) m2" h rs "memory_rec bm"] unfolding rec
    by (auto simp: memory_rec_def K_def room_def ac_simps intro: within_trans)
qed

definition cbmem_recs :: "u64 \<times> u64 \<Rightarrow> (u32 \<times> u32) list \<Rightarrow> cbmem \<Rightarrow> lb_rec list" where
  "cbmem_recs tbl sids c = concat (map (\<lambda>sid. let p = fst (cbmem_find tbl (fst sid) c) in if p = 0 then [] else [ref_rec (snd sid) p]) sids)"

lemma cbmem_find_locates: "snd (cbmem_find tbl k c) = cbmem_locate_table tbl c"
  by (simp add: cbmem_find_def get_cbmem_toc_def Let_def split: prod.split option.split)

lemma cbmem_find_again: "fst (cbmem_find tbl j (snd (cbmem_find tbl k c))) = fst (cbmem_find tbl j c)"
proof -
  have "cbmem_locate_table tbl (cbmem_locate_table tbl c) = cbmem_locate_table tbl c" by (simp add: cbmem_locate_table_def)
  then show ?thesis unfolding cbmem_find_locates by (simp add: cbmem_find_def get_cbmem_toc_def Let_def split: option.split)
qed

lemma cbmem_recs_again: "cbmem_recs tbl sids (snd (cbmem_find tbl k c)) = cbmem_recs tbl sids c"
  by (simp add: cbmem_recs_def cbmem_find_again)

lemma room_address:
  assumes "room h (rs @ [r])" and "32 + table_len rs \<le> 2 ^ 32"
  shows "h + of_nat (24 + table_len rs) \<noteq> 0"
proof -
  have "unat h + (24 + table_len rs) < 2 ^ 32" using assms(1) by (simp add: room_def)
  then have "unat (h + of_nat (24 + table_len rs)) = unat h + (24 + table_len rs)"
    by (subst unat_add_no_wrap) (simp_all add: unsigned_of_nat take_bit_nat_eq_self del: of_nat_add)
  then show ?thesis by (metis add_is_0 unat_0 zero_neq_numeral)
qed

lemma add_cbmem_refs_appends:
  assumes "lb_open mem h rs" and "room h (rs @ cbmem_recs tbl sids c)" and "add_cbmem_refs tbl h sids (mem, c) = (mem', c')"
  shows "lb_open mem' h (rs @ cbmem_recs tbl sids c) \<and> within h (24 + table_len (rs @ cbmem_recs tbl sids c)) mem mem'"
  using assms
proof (induction sids arbitrary: mem rs c)
  case Nil
  then show ?case by (simp add: cbmem_recs_def)
next
  case (Cons sid sids)
  obtain p c1 where f: "cbmem_find tbl (fst sid) c = (p, c1)" by (cases "cbmem_find tbl (fst sid) c")
  have again: "cbmem_recs tbl sids c1 = cbmem_recs tbl sids c" using cbmem_recs_again [of tbl sids "fst sid" c] f by simp
  show ?case
  proof (cases "p = 0")
    case True
    have "cbmem_recs tbl (sid # sids) c = cbmem_recs tbl sids c1" using True f again by (simp add: cbmem_recs_def)
    then show ?thesis using Cons.IH [OF Cons.prems(1), of c1] Cons.prems(2,3) True f by simp
  next
    case False
    let ?r = "ref_rec (snd sid) p"
    have recs: "cbmem_recs tbl (sid # sids) c = ?r # cbmem_recs tbl sids c1" using False f again by (simp add: cbmem_recs_def)
    have room: "room h (rs @ [?r])" using Cons.prems(2) unfolding recs by (simp add: room_def)
    obtain rec mem1 where n: "lb_new_record h mem = (rec, mem1)" by (cases "lb_new_record h mem")
    let ?bs = "bytes32 (snd sid) @ bytes32 16 @ bytes64 (ucast p)"
    have bs: "?bs = bytes32 (snd sid) @ bytes32 (of_nat (length ?bs + 0)) @ bytes64 (ucast p)" by simp
    have m2: "lb_open (write_bytes rec ?bs mem1) h (rs @ [?r])" "within h (24 + table_len (rs @ [?r])) mem (write_bytes rec ?bs mem1)"
      and rec: "rec = h + of_nat (24 + table_len rs)"
      using lb_fill_record [OF Cons.prems(1) n bs] room by (simp_all add: ref_rec_def)
    have "rec \<noteq> 0" unfolding rec by (rule room_address [OF room]) (use room in \<open>simp add: room_def ref_rec_def\<close>)
    moreover have "write_bytes (rec + 8) (bytes64 (ucast p)) (write32 (rec_size rec) 16 (write32 rec (snd sid) mem1)) = write_bytes rec ?bs mem1"
      unfolding write_tag_size by (simp add: write_bytes_append)
    ultimately have "add_cbmem_refs tbl h sids (write_bytes rec ?bs mem1, c1) = (mem', c')"
      using Cons.prems(3) False by (simp add: f n)
    from Cons.IH [OF m2(1) _ this] Cons.prems(2) m2(2) show ?thesis unfolding recs
      by (auto intro: within_trans [OF within_mono [OF m2(2)]])
  qed
qed

text \<open>The records of a table in the order of the code.\<close>

definition table_recs :: "lbt_config \<Rightarrow> memranges \<Rightarrow> cbmem \<Rightarrow> lb_rec list" where
  "table_recs cfg bm c =
     [memory_rec bm, mainboard_rec cfg]
     @ (if lbc_console_serial cfg then [serial_rec (console_serial cfg), console_rec LB_TAG_CONSOLE_SERIAL8250] else [])
     @ (if lbc_console_usb cfg then [console_rec LB_TAG_CONSOLE_EHCI] else [])
     @ map string_rec (lb_string_table cfg)
     @ cbmem_recs (lbc_cbmem cfg) section_ids c"

definition strings_ok :: "lbt_config \<Rightarrow> bool" where
  "strings_ok cfg \<longleftrightarrow> length (mainboard_vendor cfg) < 255 \<and> length (mainboard_part_number cfg) < 2 ^ 30
     \<and> (\<forall>s \<in> snd ` set (lb_string_table cfg). length s < 2 ^ 30)"

lemma lb_write_records_appends:
  assumes "strings_ok cfg" and "lb_open mem h rs" and "room h (rs @ table_recs cfg bm c)" and "lb_write_records cfg h bm (mem, c) = (mem', c')"
  shows "lb_open mem' h (rs @ table_recs cfg bm c) \<and> within h (24 + table_len (rs @ table_recs cfg bm c)) mem mem'"
proof -
  let ?serial = "if lbc_console_serial cfg then [serial_rec (console_serial cfg), console_rec LB_TAG_CONSOLE_SERIAL8250] else []"
  let ?usb = "if lbc_console_usb cfg then [console_rec LB_TAG_CONSOLE_EHCI] else []"
  let ?refs = "cbmem_recs (lbc_cbmem cfg) section_ids c"
  define f where "f = (\<lambda>mem. let (rec, mem) = lb_memory_record h mem in write_memory_table bm rec mem)"
  define g where "g = (\<lambda>mem. if lbc_console_serial cfg then uart_fill_lb cfg h mem else mem)"
  define u where "u = (\<lambda>mem. if lbc_console_usb cfg then lb_add_console LB_TAG_CONSOLE_EHCI h mem else mem)"
  define all where "all = (\<lambda>mem. lb_strings cfg h (u (g (lb_mainboard cfg h (f mem)))))"
  define new where "new = [memory_rec bm] @ [mainboard_rec cfg] @ ?serial @ ?usb @ map string_rec (lb_string_table cfg)"
  have uart: "appends h [serial_rec (console_serial cfg), console_rec LB_TAG_CONSOLE_SERIAL8250] (uart_fill_lb cfg h)"
    using appends_comp [OF appends_serial appends_console, of h "console_serial cfg" LB_TAG_CONSOLE_SERIAL8250]
    by (simp add: uart_fill_lb_def [abs_def])
  have strs: "appends h (map string_rec (lb_string_table cfg)) (lb_strings cfg h)"
    using appends_fold [of "lb_string_table cfg" h "\<lambda>s. [string_rec s]" "lb_add_string h"] assms(1) appends_string
    by (simp add: strings_ok_def lb_strings_def [abs_def] concat_map_singleton)
  have mb: "appends h [mainboard_rec cfg] (lb_mainboard cfg h)" using assms(1) by (intro appends_mainboard) (simp_all add: strings_ok_def)
  have "appends h new all"
    using appends_comp [OF appends_comp [OF appends_comp [OF appends_comp [OF appends_memory [of h bm] mb] appends_If [OF uart, of "lbc_console_serial cfg"]]
        appends_If [OF appends_console [of h LB_TAG_CONSOLE_EHCI], of "lbc_console_usb cfg"]] strs]
    unfolding new_def all_def f_def g_def u_def by (simp only: append_assoc)
  moreover have t: "table_recs cfg bm c = new @ ?refs" by (simp add: table_recs_def new_def)
  moreover have "room h (rs @ new)" using assms(3) unfolding t by (simp add: room_def)
  ultimately have a: "lb_open (all mem) h (rs @ new)" "within h (24 + table_len (rs @ new)) mem (all mem)"
    using appendsD [OF _ assms(2)] by blast+
  have "add_cbmem_refs (lbc_cbmem cfg) h section_ids (all mem, c) = (mem', c')"
    using assms(4) by (auto simp: lb_write_records_def add_cbmem_pointers_def Let_def all_def f_def g_def u_def split: prod.split_asm)
  from add_cbmem_refs_appends [OF a(1) _ this] assms(3) a(2) show ?thesis
    unfolding t by (auto intro: within_trans [OF within_mono [OF a(2)]])
qed

section \<open>Beginning and end of a table\<close>

definition table_base :: "u32 \<Rightarrow> u32" where
  "table_base addr = (addr + 15) AND NOT 15"

lemma lb_table_init_open:
  shows "fst (lb_table_init addr mem) = table_base addr" and "lb_open (snd (lb_table_init addr mem)) (table_base addr) []"
    and "within (table_base addr) 24 mem (snd (lb_table_init addr mem))"
proof -
  let ?h = "table_base addr"
  have i: "lb_table_init addr mem = (?h, write_bytes ?h (header_image 0 0 0 0) mem)"
    unfolding lb_table_init_def Let_def table_base_def [symmetric] write32_def
    by (simp add: write_bytes_append header_image_def)
  show "fst (lb_table_init addr mem) = ?h" by (simp add: i)
  show "lb_open (snd (lb_table_init addr mem)) ?h []"
    using holds_write_same [of 0 "header_image 0 0 0 0" ?h mem] by (simp add: i lb_open_def)
  show "within ?h 24 mem (snd (lb_table_init addr mem))"
    using within_write [of 0 "header_image 0 0 0 0" 24 ?h mem] by (simp add: i)
qed

lemma mem_bytes_nth [simp]: "length (mem_bytes mem a n) = n" "i < n \<Longrightarrow> mem_bytes mem a n ! i = mem (a + of_nat i)"
  by (simp_all add: mem_bytes_def)

lemma holds_known: "holds mem h k (map Some bs) \<longleftrightarrow> (\<forall>i < length bs. mem (h + of_nat (k + i)) = bs ! i)"
  unfolding holds_def by (simp del: of_nat_add)

lemma mem_bytes_holds: "holds mem h k (map Some bs) \<longleftrightarrow> mem_bytes mem (h + of_nat k) (length bs) = bs"
proof
  assume "holds mem h k (map Some bs)"
  then show "mem_bytes mem (h + of_nat k) (length bs) = bs"
    unfolding holds_known by (intro nth_equalityI) (simp_all add: add.assoc)
next
  assume e: "mem_bytes mem (h + of_nat k) (length bs) = bs"
  have "mem (h + of_nat (k + i)) = bs ! i" if "i < length bs" for i
    using arg_cong [OF e, of "\<lambda>xs. xs ! i"] that by (simp add: add.assoc)
  then show "holds mem h k (map Some bs)" unfolding holds_known by blast
qed

text \<open>A finished table: the sums in the header are the checksums of the records and of the header without its own.\<close>

definition lb_table :: "memory \<Rightarrow> u32 \<Rightarrow> lb_rec list \<Rightarrow> bool" where
  "lb_table mem h rs \<longleftrightarrow> 24 + table_len rs \<le> 2 ^ 32 \<and> holds mem h 24 (encs rs)
     \<and> (let c = compute_ip_checksum (mem_bytes mem (h + 24) (table_len rs))
        in holds mem h 0 (map Some (header_image (compute_ip_checksum (header_image 0 (of_nat (table_len rs)) c (of_nat (length rs))))
             (of_nat (table_len rs)) c (of_nat (length rs)))))"

lemma lb_table_fini_table:
  assumes o: "lb_open mem h rs" and rs: "rs \<noteq> []"
  shows "lb_table (snd (lb_table_fini h mem)) h rs" and "within h 24 mem (snd (lb_table_fini h mem))"
    and "fst (lb_table_fini h mem) = h + of_nat (24 + table_len rs)"
proof -
  define m1 where "m1 = (if read32 mem (lb_table_entries h) \<noteq> 0
    then write32 (lb_table_bytes h) (read32 mem (lb_table_bytes h) + read32 mem (rec_size (lb_last_record h mem))) mem else mem)"
  note m1 = lb_open_count [OF o m1_def]
  note rd = header_reads [OF m1(1)]
  have len: "24 + table_len rs \<le> 2 ^ 32" using o by (simp add: lb_open_def)
  then have tl: "unat (of_nat (table_len rs) :: u32) = table_len rs" by (simp add: unsigned_of_nat take_bit_nat_eq_self)
  define c where "c = compute_ip_checksum (mem_bytes m1 (h + 24) (table_len rs))"
  define m2 where "m2 = write32 (lb_header_checksum h) 0 (write32 (lb_table_checksum h) c m1)"
  define d where "d = compute_ip_checksum (header_image 0 (of_nat (table_len rs)) c (of_nat (length rs)))"
  define m3 where "m3 = write32 (lb_header_checksum h) d m2"
  have h2: "holds m2 h 0 (map Some (header_image 0 (of_nat (table_len rs)) c (of_nat (length rs))))"
    unfolding m2_def by (rule header_writes(1) [OF header_writes(3) [OF m1(1)]])
  have h3: "holds m3 h 0 (map Some (header_image d (of_nat (table_len rs)) c (of_nat (length rs))))"
    unfolding m3_def by (rule header_writes(1) [OF h2])
  have "holds (write32 (h + of_nat k) v m) h 24 obs = holds m h 24 obs" if "k = 8 \<or> k = 16" "length obs = table_len rs" for k v m obs
    using that len by (intro header_write_other) auto
  from this [of 8] this [of 16] have w: "holds m3 h 24 obs = holds m1 h 24 obs" if "length obs = table_len rs" for obs
    using that by (simp add: m3_def m2_def)
  let ?bs = "mem_bytes m1 (h + 24) (table_len rs)"
  have "holds m3 h 24 (map Some ?bs)"
    using w [of "map Some ?bs"] mem_bytes_holds [of m1 h 24 ?bs] by simp
  then have "mem_bytes m3 (h + 24) (table_len rs) = ?bs" using mem_bytes_holds [of m3 h 24 ?bs] by simp
  then have c: "c = compute_ip_checksum (mem_bytes m3 (h + 24) (table_len rs))" by (simp only: c_def)
  have e3: "holds m3 h 24 (encs rs)" using m1(2) w by simp
  have "mem_bytes m2 h 24 = header_image 0 (of_nat (table_len rs)) c (of_nat (length rs))"
    using h2 mem_bytes_holds [of m2 h 0 "header_image 0 (of_nat (table_len rs)) c (of_nat (length rs))"] by simp
  then have f: "lb_table_fini h mem = (lb_last_record h mem + read32 m3 (rec_size (lb_last_record h mem)), m3)"
    unfolding lb_table_fini_def Let_def m1_def [symmetric] lb_first_record_def rd tl c_def [symmetric] m2_def [symmetric]
    by (simp add: d_def m3_def)
  show "lb_table (snd (lb_table_fini h mem)) h rs" using len e3 h3 unfolding f lb_table_def by (simp add: c [symmetric] d_def [symmetric] Let_def)
  have "within h 24 m1 m3"
    using within_write32 [of 16 24 h m1 c] within_write32 [of 8 24 h "write32 (lb_table_checksum h) c m1" 0] within_write32 [of 8 24 h m2 d]
    by (auto simp: m3_def m2_def intro: within_trans)
  then show "within h 24 mem (snd (lb_table_fini h mem))" using m1(3) by (auto simp: f intro: within_trans)
  have "encs rs = encs (butlast rs) @ enc (last rs)" using rs by (metis append_butlast_last_id encs_simps append_Nil2)
  then have "holds m3 h (24 + table_len (butlast rs) + 4) (map Some (bytes32 (of_nat (8 + length (snd (last rs))))))"
    using e3 by (simp add: holds_append enc_def ac_simps del: of_nat_add)
  from holds_read32 [OF this] have "read32 m3 (lb_last_record h mem + 4) = of_nat (8 + length (snd (last rs)))"
    unfolding m1(4) by (simp add: ac_simps)
  moreover have "table_len rs = table_len (butlast rs) + (8 + length (snd (last rs)))"
    using rs table_len_simps(3) [of "butlast rs" "[last rs]"] by simp
  ultimately show "fst (lb_table_fini h mem) = h + of_nat (24 + table_len rs)" by (simp add: f m1(4) ac_simps)
qed

section \<open>Both tables\<close>

lemma within_below:
  assumes "within b n mem mem'" and "unat a < unat b" and "unat b + n \<le> 2 ^ 32"
  shows "mem' a = mem a"
proof -
  have "unat (a - b) = 2 ^ 32 + unat a - unat b" using assms(2) by (simp add: unat_sub_if' word_le_nat_alt)
  then show ?thesis using assms unfolding within_def by simp
qed

lemma unat_offset:
  assumes "unat (h :: u32) + n < 2 ^ 32"
  shows "unat (h + of_nat n) = unat h + n"
  using assms by (subst unat_add_no_wrap) (simp_all add: unsigned_of_nat take_bit_nat_eq_self)

text \<open>A table below another one is not touched by it.\<close>

lemma lb_table_below:
  assumes "lb_table mem l rs" and "within b n mem mem'" and "unat l + 24 + table_len rs \<le> unat b" and "unat b + n \<le> 2 ^ 32"
  shows "lb_table mem' l rs"
proof -
  have same: "mem' (l + of_nat i) = mem (l + of_nat i)" if i: "i < 24 + table_len rs" for i
  proof (rule within_below [OF assms(2) _ assms(4)])
    have "unat (l + of_nat i) = unat l + i" using i assms(3) unat_less_exp [of b] by (intro unat_offset) simp
    then show "unat (l + of_nat i) < unat b" using i assms(3) by simp
  qed
  have h: "holds mem' l k obs = holds mem l k obs" if "k + length obs \<le> 24 + table_len rs" for k obs
    using that by (intro holds_cong) (auto intro!: same simp del: of_nat_add)
  have e: "l + 24 + of_nat i = l + of_nat (24 + i)" for i by simp
  have "mem_bytes mem' (l + 24) (table_len rs) = mem_bytes mem (l + 24) (table_len rs)"
    unfolding mem_bytes_def e by (simp add: same del: of_nat_add)
  then show ?thesis using assms(1) by (simp add: lb_table_def h Let_def)
qed

lemma memcpy_bytes: "memcpy dst src n mem = write_bytes dst (mem_bytes mem src (unat n)) mem"
  by (auto simp: memcpy_def write_bytes_def word_less_nat_alt)

text \<open>
  The option table as a file of the flash, whatever the first bytes of the two tables hold when it is looked up:
  its address, its tag and what follows tag and size.
\<close>

definition option_table_ok :: "lbt_config \<Rightarrow> memory \<Rightarrow> u32 \<Rightarrow> u32 \<Rightarrow> (u32 \<times> u32 \<times> u8 list) option \<Rightarrow> bool" where
  "option_table_ok cfg mem l b opt \<longleftrightarrow>
     (if lbc_use_option_table cfg then
        \<forall>m. (\<forall>a. m a \<noteq> mem a \<longrightarrow> unat (a - l) < 40 \<or> unat (a - b) < 32) \<longrightarrow>
          (case opt of
             None \<Rightarrow> cbfs_get_file_content (lbc_rom_size cfg) m cmos_layout_bin CBFS_COMPONENT_CMOS_LAYOUT = Some None
           | Some (a, tag, body) \<Rightarrow>
               (\<exists>n. cbfs_get_file_content (lbc_rom_size cfg) m cmos_layout_bin CBFS_COMPONENT_CMOS_LAYOUT = Some (Some (a, n)))
               \<and> mem_bytes m a (8 + length body) = bytes32 tag @ bytes32 (of_nat (8 + length body)) @ body)
      else opt = None)"

definition option_recs :: "(u32 \<times> u32 \<times> u8 list) option \<Rightarrow> lb_rec list" where
  "option_recs opt = (case opt of None \<Rightarrow> [] | Some (a, tag, body) \<Rightarrow> [(tag, map Some body)])"

lemma lb_option_table_open:
  assumes ok: "option_table_ok cfg mem0 l b opt" and use: "lbc_use_option_table cfg"
    and near: "\<forall>a. mem a \<noteq> mem0 a \<longrightarrow> unat (a - l) < 40 \<or> unat (a - b) < 24"
    and o: "lb_open mem b []" and r: "room b (option_recs opt)" and res: "lb_option_table cfg b mem = Some mem'"
  shows "lb_open mem' b (option_recs opt) \<and> within b (24 + table_len (option_recs opt)) mem mem'"
proof (cases opt)
  case None
  have "\<forall>a. mem a \<noteq> mem0 a \<longrightarrow> unat (a - l) < 40 \<or> unat (a - b) < 32" using near by force
  then have "cbfs_get_file_content (lbc_rom_size cfg) mem cmos_layout_bin CBFS_COMPONENT_CMOS_LAYOUT = Some None"
    using ok use None by (simp add: option_table_ok_def)
  then show ?thesis using res o None by (simp add: lb_option_table_def option_recs_def)
next
  case (Some x)
  obtain a tag body where x: "opt = Some (a, tag, body)" using Some by (cases x) auto
  obtain rec mem1 where n: "lb_new_record b mem = (rec, mem1)" by (cases "lb_new_record b mem")
  have sz: "32 + table_len [] \<le> 2 ^ 32" by simp
  have k: "within b 32 mem mem1" using lb_new_record_pending [OF o sz] n by simp
  have ok': "(\<exists>n. cbfs_get_file_content (lbc_rom_size cfg) m cmos_layout_bin CBFS_COMPONENT_CMOS_LAYOUT = Some (Some (a, n)))
      \<and> mem_bytes m a (8 + length body) = bytes32 tag @ bytes32 (of_nat (8 + length body)) @ body"
    if "\<forall>a. m a \<noteq> mem0 a \<longrightarrow> unat (a - l) < 40 \<or> unat (a - b) < 32" for m
    using ok use x that by (simp add: option_table_ok_def)
  have "\<forall>a. mem a \<noteq> mem0 a \<longrightarrow> unat (a - l) < 40 \<or> unat (a - b) < 32" using near by force
  then obtain len where f: "cbfs_get_file_content (lbc_rom_size cfg) mem cmos_layout_bin CBFS_COMPONENT_CMOS_LAYOUT = Some (Some (a, len))"
    using ok' by blast
  have near1: "unat (a - l) < 40 \<or> unat (a - b) < 32" if "mem1 a \<noteq> mem0 a" for a
    using near [rule_format, of a] k that by (cases "mem1 a = mem a") (auto simp: within_def not_le intro: ccontr)
  then have bytes: "mem_bytes mem1 a (8 + length body) = bytes32 tag @ bytes32 (of_nat (8 + length body)) @ body" using ok' by blast
  have "holds mem1 a 0 (map Some (bytes32 tag @ bytes32 (of_nat (8 + length body)) @ body))"
    using mem_bytes_holds [of mem1 a 0 "bytes32 tag @ bytes32 (of_nat (8 + length body)) @ body"] bytes by (simp add: add.assoc)
  then have "holds mem1 a 4 (map Some (bytes32 (of_nat (8 + length body))))" by (simp add: holds_append)
  from holds_read32 [OF this] have size: "read32 mem1 (a + 4) = of_nat (8 + length body)" by simp
  have "8 + length body < 2 ^ 32" using r x by (simp add: option_recs_def room_def)
  then have "memcpy rec a (read32 mem1 (a + 4)) mem1 = write_bytes rec (bytes32 tag @ bytes32 (of_nat (8 + length body)) @ body) mem1"
    using bytes unfolding memcpy_bytes size by (simp add: unsigned_of_nat take_bit_nat_eq_self del: of_nat_add)
  then have mem': "mem' = write_bytes rec (bytes32 tag @ bytes32 (of_nat (8 + length body)) @ body) mem1"
    using res by (simp add: lb_option_table_def f n)
  have bs: "bytes32 tag @ bytes32 (of_nat (8 + length body)) @ body
      = bytes32 tag @ bytes32 (of_nat (length (bytes32 tag @ bytes32 (of_nat (8 + length body)) @ body) + 0)) @ body"
    by (simp add: add.assoc)
  from lb_fill_record(1,2) [OF o n bs] r x mem' show ?thesis by (simp add: option_recs_def)
qed

lemma lb_low_table_forwards:
  fixes low_table_end :: u32
  assumes "unat (table_base low_table_end) + 40 \<le> 2 ^ 32"
  shows "lb_table (snd (lb_low_table low_table_end nx mem)) (table_base low_table_end) [ref_rec LB_TAG_FORWARD nx]"
    and "within (table_base low_table_end) 40 mem (snd (lb_low_table low_table_end nx mem))"
proof -
  let ?l = "table_base low_table_end" and ?r = "ref_rec LB_TAG_FORWARD nx"
  define m1 where "m1 = snd (lb_table_init low_table_end mem)"
  note i = lb_table_init_open [of low_table_end mem, folded m1_def]
  define m2 where "m2 = lb_forward ?l nx m1"
  have m2: "lb_open m2 ?l [?r]" "within ?l 40 m1 m2"
    using appendsD [OF appends_forward i(2), of nx] assms by (simp_all add: m2_def room_def ref_rec_def)
  note f = lb_table_fini_table [OF m2(1)]
  have "snd (lb_low_table low_table_end nx mem) = snd (lb_table_fini ?l m2)"
    using i(1) by (auto simp: lb_low_table_def m2_def m1_def split: prod.split)
  then show "lb_table (snd (lb_low_table low_table_end nx mem)) ?l [?r]"
    and "within ?l 40 mem (snd (lb_low_table low_table_end nx mem))"
    using f within_trans [OF within_mono [OF i(3)] within_trans [OF m2(2) within_mono [OF f(2)]]] by simp_all
qed

lemma write_coreboot_table_tables:
  assumes res: "write_coreboot_table cfg t low_start low_end rom_start rom_end s = Some (e, s')"
    and low: "low_start \<noteq> 0 \<or> low_end \<noteq> 0" and below: "unat (table_base low_end) + 40 \<le> unat (table_base rom_end)"
    and "strings_ok cfg" and opt: "option_table_ok cfg (lbt_mem s) (table_base low_end) (table_base rom_end) opt"
    and rs: "rs = option_recs opt @ table_recs cfg (lbt_bm s') (lbt_cbmem s)" and room: "room (table_base rom_end) rs"
  shows "lb_table (lbt_mem s') (table_base low_end) [ref_rec LB_TAG_FORWARD rom_end]"
    and "lb_table (lbt_mem s') (table_base rom_end) rs"
    and "\<forall>a. 40 \<le> unat (a - table_base low_end) \<and> 24 + table_len rs \<le> unat (a - table_base rom_end) \<longrightarrow> lbt_mem s' a = lbt_mem s a"
    and "e = table_base rom_end + of_nat (24 + table_len rs)"
proof -
  let ?l = "table_base low_end" and ?b = "table_base rom_end" and ?N = "24 + table_len rs"
  define m1 where "m1 = snd (lb_low_table low_end rom_end (lbt_mem s))"
  have "unat ?l + 40 \<le> 2 ^ 32" using below unat_less_exp [of ?b] by simp
  note m1 = lb_low_table_forwards [OF this, where nx = rom_end and mem = "lbt_mem s", folded m1_def]
  define m2 where "m2 = snd (lb_table_init rom_end m1)"
  note m2 = lb_table_init_open [of rom_end m1, folded m2_def]
  obtain m3 bm pool where m3: "(if lbc_use_option_table cfg then lb_option_table cfg ?b m2 else Some m2) = Some m3"
    and s': "lbt_bm s' = bm" "(e, lbt_mem s') = lb_table_fini ?b (fst (lb_write_records cfg ?b bm (m3, lbt_cbmem s)))"
    using res unfolding write_coreboot_table_def Let_def case_prod_beta if_P [OF low] m1_def [symmetric] m2_def [symmetric] m2(1)
    by (auto simp: prod_eq_iff)
  have n2: "\<forall>a. m2 a \<noteq> lbt_mem s a \<longrightarrow> unat (a - ?l) < 40 \<or> unat (a - ?b) < 24"
    using m1(2) m2(3) unfolding within_def by (metis not_le)
  have ropt: "room ?b (option_recs opt)" using room unfolding rs by (simp add: room_def)
  have m3: "lb_open m3 ?b (option_recs opt)" "within ?b (24 + table_len (option_recs opt)) m2 m3"
    using lb_option_table_open [OF opt _ n2 m2(2) ropt, of m3] m3 opt m2(2) by (auto simp: option_table_ok_def option_recs_def split: if_splits)
  obtain m4 c4 where m4: "lb_write_records cfg ?b bm (m3, lbt_cbmem s) = (m4, c4)" by (cases "lb_write_records cfg ?b bm (m3, lbt_cbmem s)")
  have w: "lb_open m4 ?b rs" "within ?b ?N m3 m4"
    using lb_write_records_appends [OF assms(4) m3(1) _ m4] room s'(1) by (simp_all add: rs)
  have "rs \<noteq> []" by (simp add: rs table_recs_def)
  note f = lb_table_fini_table [OF w(1) this]
  have s5: "lbt_mem s' = snd (lb_table_fini ?b m4)" "e = fst (lb_table_fini ?b m4)" using s'(2) m4 by (metis fst_conv snd_conv)+
  show "lb_table (lbt_mem s') ?b rs" "e = ?b + of_nat ?N" using f s5 by simp_all
  have k: "within ?b ?N m1 (lbt_mem s')"
    unfolding s5 by (rule within_trans [OF within_mono [OF m2(3)] within_trans [OF within_mono [OF m3(2)] within_trans [OF w(2) within_mono [OF f(2)]]]])
      (simp_all add: rs)
  have N: "unat ?b + ?N \<le> 2 ^ 32" using room by (simp add: room_def)
  show "lb_table (lbt_mem s') ?l [ref_rec LB_TAG_FORWARD rom_end]"
    using lb_table_below [OF m1(1) k _ N] below by (simp add: ref_rec_def)
  show "\<forall>a. 40 \<le> unat (a - ?l) \<and> ?N \<le> unat (a - ?b) \<longrightarrow> lbt_mem s' a = lbt_mem s a"
    using k m1(2) by (simp add: within_def)
qed

end
