(* ===== verification/Cbparse.thy ===== *)
theory Cbparse
  imports Cbtable
begin

text \<open>
  The payload's side of the coreboot table: the parser of libpayload, \<^verbatim>\<open>arch/x86/coreboot.c\<close> with
  \<^verbatim>\<open>libc/ipchecksum.c\<close>, and the theorem that it reads what \<open>Cbtable\<close> writes.  \<open>vm\<close> is memory at the
  payload's virtual addresses, \<open>lpc_voff\<close> the offset between the two; pointers are virtual addresses.  The
  settings of libpayload's build are the record \<open>lp_config\<close>; ChromeOS is not set.
\<close>

section \<open>The system information\<close>

text \<open>The array \<^verbatim>\<open>memrange\<close> with its length \<^verbatim>\<open>n_memranges\<close> is a list of base, size and type.\<close>

record sysinfo =
  si_serial :: u32
  si_memrange :: "(u64 \<times> u64 \<times> u32) list"
  si_option_table :: u32
  si_cmos_range_start :: u32
  si_cmos_range_end :: u32
  si_cmos_checksum_location :: u32
  si_extra_version :: u32
  si_build :: u32
  si_compile_time :: u32
  si_compile_by :: u32
  si_compile_host :: u32
  si_compile_domain :: u32
  si_compiler :: u32
  si_linker :: u32
  si_assembler :: u32
  si_cb_version :: u32
  si_framebuffer :: u32
  si_header :: u32
  si_mainboard :: u32
  si_x86_rom_var_mtrr_index :: u32
  si_tstamp_table :: u32
  si_cbmem_cons :: u32
  si_mrc_cache :: u32
  si_acpi_gnvs :: u32

record lp_config =
  lpc_nvram :: bool
  lpc_video_console :: bool
  lpc_memmap_ram_only :: bool
  lpc_voff :: u32

definition phys_to_virt :: "lp_config \<Rightarrow> u32 \<Rightarrow> u32" where
  "phys_to_virt cfg p = p - lpc_voff cfg"

section \<open>The checksum of libpayload\<close>

text \<open>The sum is an \<^verbatim>\<open>int\<close>; it stays positive for data up to 64 KiB.\<close>

fun sum16 :: "u8 list \<Rightarrow> u32 \<Rightarrow> u32" where
  "sum16 (a # b # rest) s = sum16 rest (s + (ucast a OR push_bit 8 (ucast b)))"
| "sum16 [a] s = s + ucast a"
| "sum16 [] s = s"

definition ipchksum :: "u8 list \<Rightarrow> u16" where
  "ipchksum bytes =
     (let sum = sum16 bytes 0;
          sum = signed_drop_bit 16 sum + (sum AND 0xffff);
          sum = sum + signed_drop_bit 16 sum
      in ucast (NOT sum))"

section \<open>The parser\<close>

abbreviation (input) CB_TAG_COMPILER :: u32 where "CB_TAG_COMPILER \<equiv> 11"
abbreviation (input) CB_TAG_LINKER :: u32 where "CB_TAG_LINKER \<equiv> 12"
abbreviation (input) CB_TAG_ASSEMBLER :: u32 where "CB_TAG_ASSEMBLER \<equiv> 13"
abbreviation (input) CB_TAG_FRAMEBUFFER :: u32 where "CB_TAG_FRAMEBUFFER \<equiv> 0x12"
abbreviation (input) CB_TAG_MRC_CACHE :: u32 where "CB_TAG_MRC_CACHE \<equiv> 0x18"
abbreviation (input) CB_TAG_X86_ROM_MTRR :: u32 where "CB_TAG_X86_ROM_MTRR \<equiv> 0x21"
abbreviation (input) CB_TAG_CMOS_OPTION_TABLE :: u32 where "CB_TAG_CMOS_OPTION_TABLE \<equiv> 0xc8"
abbreviation (input) CB_TAG_OPTION_CHECKSUM :: u32 where "CB_TAG_OPTION_CHECKSUM \<equiv> 0xcc"
abbreviation (input) CB_MEM_RAM :: u32 where "CB_MEM_RAM \<equiv> 1"
abbreviation (input) SYSINFO_MAX_MEM_RANGES :: nat where "SYSINFO_MAX_MEM_RANGES \<equiv> 32"

definition cb_unpack64 :: "memory \<Rightarrow> u32 \<Rightarrow> u64" where
  "cb_unpack64 vm a = push_bit 32 (ucast (read32 vm (a + 4))) OR ucast (read32 vm a)"

definition cb_memory_range :: "memory \<Rightarrow> u32 \<Rightarrow> nat \<Rightarrow> u64 \<times> u64 \<times> u32" where
  "cb_memory_range vm ptr i =
     (let range = ptr + 8 + 20 * of_nat i in (cb_unpack64 vm range, cb_unpack64 vm (range + 8), read32 vm (range + 16)))"

definition cb_parse_memory :: "lp_config \<Rightarrow> memory \<Rightarrow> u32 \<Rightarrow> sysinfo \<Rightarrow> sysinfo" where
  "cb_parse_memory cfg vm ptr info =
     (let count = unat ((read32 vm (ptr + 4) - 8) div 20);
          count = (if SYSINFO_MAX_MEM_RANGES < count then SYSINFO_MAX_MEM_RANGES else count);
          ranges = map (cb_memory_range vm ptr) [0..<count]
      in info\<lparr>si_memrange := filter (\<lambda>(base, sz, ty). \<not> (lpc_memmap_ram_only cfg \<and> ty \<noteq> CB_MEM_RAM)) ranges\<rparr>)"

text \<open>The 64-bit address of a record that refers to the firmware's memory.\<close>

definition cb_ref :: "lp_config \<Rightarrow> memory \<Rightarrow> u32 \<Rightarrow> u32" where
  "cb_ref cfg vm ptr = phys_to_virt cfg (ucast (read64 vm (ptr + 8)))"

definition cb_parse_tstamp :: "lp_config \<Rightarrow> memory \<Rightarrow> u32 \<Rightarrow> sysinfo \<Rightarrow> sysinfo" where
  "cb_parse_tstamp cfg vm ptr info = info\<lparr>si_tstamp_table := cb_ref cfg vm ptr\<rparr>"

definition cb_parse_cbmem_cons :: "lp_config \<Rightarrow> memory \<Rightarrow> u32 \<Rightarrow> sysinfo \<Rightarrow> sysinfo" where
  "cb_parse_cbmem_cons cfg vm ptr info = info\<lparr>si_cbmem_cons := cb_ref cfg vm ptr\<rparr>"

definition cb_parse_mrc_cache :: "lp_config \<Rightarrow> memory \<Rightarrow> u32 \<Rightarrow> sysinfo \<Rightarrow> sysinfo" where
  "cb_parse_mrc_cache cfg vm ptr info = info\<lparr>si_mrc_cache := cb_ref cfg vm ptr\<rparr>"

definition cb_parse_acpi_gnvs :: "lp_config \<Rightarrow> memory \<Rightarrow> u32 \<Rightarrow> sysinfo \<Rightarrow> sysinfo" where
  "cb_parse_acpi_gnvs cfg vm ptr info = info\<lparr>si_acpi_gnvs := cb_ref cfg vm ptr\<rparr>"

definition cb_parse_checksum :: "memory \<Rightarrow> u32 \<Rightarrow> sysinfo \<Rightarrow> sysinfo" where
  "cb_parse_checksum vm ptr info =
     info\<lparr>si_cmos_range_start := read32 vm (ptr + 8), si_cmos_range_end := read32 vm (ptr + 12),
       si_cmos_checksum_location := read32 vm (ptr + 16)\<rparr>"

text \<open>
  The cases of the \<^verbatim>\<open>switch\<close> but the forward record.  The case of the mainboard has no \<^verbatim>\<open>break\<close>, so it
  goes on with the case of the time stamps.
\<close>

definition cb_parse_record :: "lp_config \<Rightarrow> memory \<Rightarrow> u32 \<Rightarrow> u32 \<Rightarrow> sysinfo \<Rightarrow> sysinfo" where
  "cb_parse_record cfg vm tag ptr info =
     (if tag = LB_TAG_MEMORY then cb_parse_memory cfg vm ptr info
      else if tag = LB_TAG_SERIAL then info\<lparr>si_serial := ptr\<rparr>
      else if tag = LB_TAG_VERSION then info\<lparr>si_cb_version := ptr + 8\<rparr>
      else if tag = LB_TAG_EXTRA_VERSION then info\<lparr>si_extra_version := ptr + 8\<rparr>
      else if tag = LB_TAG_BUILD then info\<lparr>si_build := ptr + 8\<rparr>
      else if tag = LB_TAG_COMPILE_TIME then info\<lparr>si_compile_time := ptr + 8\<rparr>
      else if tag = LB_TAG_COMPILE_BY then info\<lparr>si_compile_by := ptr + 8\<rparr>
      else if tag = LB_TAG_COMPILE_HOST then info\<lparr>si_compile_host := ptr + 8\<rparr>
      else if tag = LB_TAG_COMPILE_DOMAIN then info\<lparr>si_compile_domain := ptr + 8\<rparr>
      else if tag = CB_TAG_COMPILER then info\<lparr>si_compiler := ptr + 8\<rparr>
      else if tag = CB_TAG_LINKER then info\<lparr>si_linker := ptr + 8\<rparr>
      else if tag = CB_TAG_ASSEMBLER then info\<lparr>si_assembler := ptr + 8\<rparr>
      else if tag = CB_TAG_CMOS_OPTION_TABLE \<and> lpc_nvram cfg then info\<lparr>si_option_table := ptr\<rparr>
      else if tag = CB_TAG_OPTION_CHECKSUM \<and> lpc_nvram cfg then cb_parse_checksum vm ptr info
      else if tag = CB_TAG_FRAMEBUFFER \<and> lpc_video_console cfg then info\<lparr>si_framebuffer := ptr\<rparr>
      else if tag = LB_TAG_MAINBOARD then cb_parse_tstamp cfg vm ptr (info\<lparr>si_mainboard := ptr\<rparr>)
      else if tag = LB_TAG_TIMESTAMPS then cb_parse_tstamp cfg vm ptr info
      else if tag = LB_TAG_CBMEM_CONSOLE then cb_parse_cbmem_cons cfg vm ptr info
      else if tag = CB_TAG_MRC_CACHE then cb_parse_mrc_cache cfg vm ptr info
      else if tag = LB_TAG_ACPI_GNVS then cb_parse_acpi_gnvs cfg vm ptr info
      else if tag = CB_TAG_X86_ROM_MTRR then info\<lparr>si_x86_rom_var_mtrr_index := read32 vm (ptr + 8)\<rparr>
      else info)"

text \<open>The loop over the records; the first component is where a forward record leads.\<close>

fun cb_walk :: "lp_config \<Rightarrow> memory \<Rightarrow> nat \<Rightarrow> u32 \<Rightarrow> sysinfo \<Rightarrow> u32 option \<times> sysinfo" where
  "cb_walk cfg vm 0 ptr info = (None, info)"
| "cb_walk cfg vm (Suc n) ptr info =
     (if read32 vm ptr = LB_TAG_FORWARD then (Some (cb_ref cfg vm ptr), info)
      else cb_walk cfg vm n (ptr + read32 vm (ptr + 4)) (cb_parse_record cfg vm (read32 vm ptr) ptr info))"

text \<open>\<open>LBIO\<close>\<close>

definition LBIO :: "u8 list" where
  "LBIO = [0x4c, 0x42, 0x49, 0x4f]"

definition find_header :: "memory \<Rightarrow> u32 \<Rightarrow> nat \<Rightarrow> u32 option" where
  "find_header vm addr len = find (\<lambda>ptr. memcmp_eq vm ptr LBIO) (map (\<lambda>i. addr + 16 * of_nat i) [0..<(len + 15) div 16])"

text \<open>Forward records may lead in a circle, so the parser may not return.\<close>

partial_function (option) cb_parse_header :: "lp_config \<Rightarrow> memory \<Rightarrow> nat \<Rightarrow> u32 \<Rightarrow> sysinfo \<Rightarrow> (int \<times> sysinfo) option" where
  "cb_parse_header cfg vm len addr info =
     (case find_header vm addr len of
        None \<Rightarrow> Some (- 1, info)
      | Some header \<Rightarrow>
          if read32 vm (lb_table_bytes header) = 0 then Some (0, info)
          else if ipchksum (mem_bytes vm header 24) \<noteq> 0 then Some (- 1, info)
          else if ucast (ipchksum (mem_bytes vm (header + 24) (unat (read32 vm (lb_table_bytes header))))) \<noteq> read32 vm (lb_table_checksum header)
          then Some (- 1, info)
          else case cb_walk cfg vm (unat (read32 vm (lb_table_entries header))) (header + read32 vm (lb_header_bytes header)) (info\<lparr>si_header := header\<rparr>) of
                 (Some forward, info) \<Rightarrow> cb_parse_header cfg vm len forward info
               | (None, info) \<Rightarrow> Some (1, info))"

definition get_coreboot_info :: "lp_config \<Rightarrow> memory \<Rightarrow> sysinfo \<Rightarrow> (int \<times> sysinfo) option" where
  "get_coreboot_info cfg vm info =
     do {
       (ret, info) \<leftarrow> cb_parse_header cfg vm 0x1000 (phys_to_virt cfg 0) (info\<lparr>si_x86_rom_var_mtrr_index := - 1\<rparr>);
       (ret, info) \<leftarrow> (if ret \<noteq> 1 then cb_parse_header cfg vm 0x1000 (phys_to_virt cfg 0xf0000) info else Some (ret, info));
       Some (if ret = 1 then 0 else - 1, info)
     }"

section \<open>The two checksums agree\<close>

lemma sum16_words: "sum16 bs s = s + of_nat (words_sum bs)"
proof (induction bs s rule: sum16.induct)
  case (1 a b rest s)
  have "(ucast a OR push_bit 8 (ucast b) :: u32) = ucast a + push_bit 8 (ucast b)"
    by (rule disjunctive_add_eq_or [symmetric]) (auto simp: bit_eq_iff bit_simps dest: bit_imp_le_length)
  also have "\<dots> = of_nat (unat a + 256 * unat b)" by (simp add: push_bit_eq_mult)
  finally show ?case using 1 by (simp add: ac_simps)
qed simp_all

lemma words_sum_le: "words_sum bs \<le> 0xFFFF * ((length bs + 1) div 2)"
proof (induction bs rule: words_sum.induct)
  case (2 a)
  then show ?case using unat_less_exp [of a] by simp
next
  case (3 a b rest)
  then show ?case using unat_less_exp [of a] unat_less_exp [of b] by simp
qed simp

lemma signed_drop_bit_pos:
  assumes "n < 2 ^ 31"
  shows "signed_drop_bit 16 (of_nat n :: u32) = of_nat (n div 0x10000)"
proof -
  have b: "\<not> bit (of_nat n :: u32) 31"
    using bit_small [of "of_nat n :: u32" 31 31] assms by (simp add: unsigned_of_nat take_bit_nat_eq_self)
  have "signed_drop_bit 16 (of_nat n :: u32) = drop_bit 16 (of_nat n)"
  proof (rule bit_word_eqI)
    fix i assume "i < LENGTH(32)"
    then show "bit (signed_drop_bit 16 (of_nat n :: u32)) i = bit (drop_bit 16 (of_nat n :: u32)) i"
      using b bit_imp_le_length [of "of_nat n :: u32" "16 + i"] by (auto simp: bit_signed_drop_bit_iff bit_drop_bit_eq)
  qed
  also have "\<dots> = of_nat (n div 0x10000)"
    using assms by (simp add: word_unat_eq_iff unat_drop_bit_eq drop_bit_eq_div unat_div unsigned_of_nat take_bit_nat_eq_self
        le_less_trans [OF div_le_dividend])
  finally show ?thesis .
qed

lemma ipchksum_ones:
  assumes "length bs \<le> 0x10000"
  shows "ipchksum bs = of_nat (0xFFFF - ones (words_sum bs))"
proof -
  define S where "S = words_sum bs"
  have "words_sum bs \<le> 0xFFFF * 0x8000" by (rule order_trans [OF words_sum_le]) (use assms in simp)
  then have S: "S < 2 ^ 31" by (simp add: S_def)
  define T where "T = S div 0x10000 + S mod 0x10000"
  have "S div 0x10000 < 0x8000" using S by (simp add: less_mult_imp_div_less)
  then have T: "T < 0x18000" "T mod 0xFFFF = S mod 0xFFFF" "T = 0 \<longleftrightarrow> S = 0"
  proof -
    show "T < 0x18000" using \<open>S div 0x10000 < 0x8000\<close> mod_less_divisor [of "0x10000" S] unfolding T_def by linarith
    have "S = T + S div 0x10000 * 0xFFFF" unfolding T_def using div_mult_mod_eq [of S "0x10000"] by linarith
    then show "T mod 0xFFFF = S mod 0xFFFF" by (metis mod_mult_self1)
    show "T = 0 \<longleftrightarrow> S = 0" unfolding T_def using div_mult_mod_eq [of S "0x10000"] by (cases "S div 0x10000"; cases "S mod 0x10000") auto
  qed
  have m: "(0xffff :: u32) = mask 16" by (simp add: mask_eq_exp_minus_1)
  have lo: "(of_nat S :: u32) AND 0xffff = of_nat (S mod 0x10000)"
    using S unfolding m word_unat_eq_iff unat_and_mask
    by (simp add: unsigned_of_nat take_bit_nat_eq_self less_trans [OF mod_less_divisor])
  have one: "signed_drop_bit 16 (of_nat S :: u32) + (of_nat S AND 0xffff) = of_nat T"
    unfolding signed_drop_bit_pos [OF S] lo by (simp add: T_def)
  have "(T + T div 0x10000) mod 0x10000 = ones S"
  proof (cases "T < 0x10000")
    case True
    then have "ones S = T" using T by (intro ones_unique) simp_all
    then show ?thesis using True by simp
  next
    case False
    then have "T div 0x10000 = 1" using T(1) by (intro div_nat_eqI) simp_all
    moreover have "ones S = T - 0xFFFF" using T False by (intro ones_unique) (simp_all add: le_mod_geq)
    ultimately show ?thesis using False T(1) by (simp add: mod_if)
  qed
  moreover have "ucast (NOT (of_nat n :: u32)) = (of_nat (0xFFFF - n mod 0x10000) :: u16)" if "n < 2 ^ 32" for n
  proof -
    have "ucast (NOT (of_nat n :: u32)) = (NOT (of_nat n) :: u16)"
      by (rule bit_word_eqI) (auto simp: bit_simps)
    also have "\<dots> = - 1 - of_nat n" by (simp add: not_eq_complement)
    also have "of_nat n = (of_nat (n mod 0x10000) :: u16)" by (simp add: word_unat_eq_iff unsigned_of_nat take_bit_eq_mod)
    also have "- 1 - (of_nat (n mod 0x10000) :: u16) = of_nat 0xFFFF - of_nat (n mod 0x10000)" by simp
    also have "\<dots> = of_nat (0xFFFF - n mod 0x10000)" by (simp add: of_nat_diff)
    finally show ?thesis .
  qed
  ultimately show ?thesis
    unfolding ipchksum_def sum16_words Let_def S_def [symmetric] add_0 one
    using T(1) by (simp add: signed_drop_bit_pos of_nat_add [symmetric] del: of_nat_add)
qed

lemma ipchksum_equals:
  assumes "length bs \<le> 0x10000"
  shows "ucast (ipchksum bs) = compute_ip_checksum bs"
proof -
  have "ucast (of_nat n :: u16) = (of_nat n :: u32)" if "n \<le> 0xFFFF" for n
    using that by (simp add: word_unat_eq_iff unat_ucast_mod unsigned_of_nat take_bit_nat_eq_self)
  then show ?thesis unfolding ipchksum_ones [OF assms] compute_ones by simp
qed

text \<open>The header with its checksum in place sums to zero.\<close>

lemma words_sum_append: "even (length as) \<Longrightarrow> words_sum (as @ bs) = words_sum as + words_sum bs"
  by (induction as rule: words_sum.induct) auto

lemma words_sum_bytes32: "n \<le> 0xFFFF \<Longrightarrow> words_sum (bytes32 (of_nat n)) = n"
proof -
  assume n: "n \<le> 0xFFFF"
  have u: "unat (of_nat n :: u32) = n" using n by (simp add: unsigned_of_nat take_bit_nat_eq_self)
  have b: "unat (ucast (drop_bit k (of_nat n :: u32)) :: u8) = n div 2 ^ k mod 256" for k
    by (simp add: unat_ucast_mod unat_drop_bit_eq u drop_bit_eq_div [where 'a = nat])
  have "n div 0x10000 = 0" "n div 0x1000000 = 0" using n by simp_all
  moreover have "n div 256 mod 256 = n div 256" using n by (simp add: less_mult_imp_div_less)
  ultimately show ?thesis using b [of 0] b [of 8] b [of 16] b [of 24] by (simp add: bytes32_def)
qed

lemma header_sums_to_zero:
  "ipchksum (header_image (compute_ip_checksum (header_image 0 b c d)) b c d) = 0"
proof -
  let ?s = "[0x4c, 0x42, 0x49, 0x4f] @ bytes32 24" and ?e = "bytes32 b @ bytes32 c @ bytes32 d"
  have w: "words_sum (header_image (of_nat n) b c d) = words_sum ?s + n + words_sum ?e" if "n \<le> 0xFFFF" for n
    using that by (simp add: header_image_def words_sum_append words_sum_bytes32)
  define W where "W = words_sum (header_image 0 b c d)"
  have W: "W = words_sum ?s + words_sum ?e" using w [of 0] by (simp add: W_def)
  have pos: "W \<noteq> 0" unfolding W by simp
  have "ones (W + (0xFFFF - ones W)) = 0xFFFF"
  proof (rule ones_unique)
    have "(W + (0xFFFF - ones W)) mod 0xFFFF = (ones W + (0xFFFF - ones W)) mod 0xFFFF"
      by (metis mod_add_left_eq ones_mod)
    then show "0xFFFF mod 0xFFFF = (W + (0xFFFF - ones W)) mod 0xFFFF" using ones_le [of W] by simp
  qed (use pos in auto)
  then show ?thesis
    unfolding compute_ones W_def [symmetric] using w [of "0xFFFF - ones W"] by (simp add: ipchksum_ones W ac_simps)
qed

section \<open>Parsing a table\<close>

text \<open>Memory through the payload's addresses.\<close>

definition virtual_view :: "u32 \<Rightarrow> memory \<Rightarrow> memory" where
  "virtual_view voff mem = (\<lambda>a. mem (a + voff))"

lemma holds_virtual: "holds (virtual_view voff mem) (h - voff) k obs = holds mem h k obs"
  by (simp add: holds_def virtual_view_def)

lemma mem_bytes_virtual: "mem_bytes (virtual_view voff mem) (a - voff) n = mem_bytes mem a n"
  by (simp add: mem_bytes_def virtual_view_def)

lemma lb_table_virtual: "lb_table (virtual_view voff mem) (h - voff) rs = lb_table mem h rs"
proof -
  have "h - voff + 24 = (h + 24) - voff" by simp
  then show ?thesis by (simp only: lb_table_def holds_virtual mem_bytes_virtual)
qed

text \<open>What the loop does with records none of which leads elsewhere.\<close>

fun parse_all :: "lp_config \<Rightarrow> memory \<Rightarrow> u32 \<Rightarrow> lb_rec list \<Rightarrow> sysinfo \<Rightarrow> sysinfo" where
  "parse_all cfg vm ptr [] info = info"
| "parse_all cfg vm ptr (r # rs) info = parse_all cfg vm (ptr + of_nat (8 + length (snd r))) rs (cb_parse_record cfg vm (fst r) ptr info)"

lemma holds_enc:
  assumes "holds vm p k (enc r)"
  shows "read32 vm (p + of_nat k) = fst r" "read32 vm (p + of_nat k + 4) = of_nat (8 + length (snd r))"
proof -
  have h: "holds vm p k (map Some (bytes32 (fst r)))" "holds vm p (k + 4) (map Some (bytes32 (of_nat (8 + length (snd r)))))"
    using assms by (simp_all add: enc_def holds_append)
  show "read32 vm (p + of_nat k) = fst r" by (rule holds_read32 [OF h(1)])
  show "read32 vm (p + of_nat k + 4) = of_nat (8 + length (snd r))" using holds_read32 [OF h(2)] by (simp add: add.assoc)
qed

lemma cb_walk_parses:
  assumes "holds vm p k (encs rs)" and "LB_TAG_FORWARD \<notin> fst ` set rs"
  shows "cb_walk cfg vm (length rs) (p + of_nat k) info = (None, parse_all cfg vm (p + of_nat k) rs info)"
  using assms
proof (induction rs arbitrary: k info)
  case (Cons r rs)
  have r: "holds vm p k (enc r)" "holds vm p (k + (8 + length (snd r))) (encs rs)" using Cons.prems(1) by (simp_all add: holds_append)
  have a: "p + of_nat k + of_nat (8 + length (snd r)) = p + of_nat (k + (8 + length (snd r)))" by (simp add: ac_simps)
  have "fst r \<noteq> LB_TAG_FORWARD" using Cons.prems(2) by auto
  then show ?case using Cons.IH [OF r(2)] Cons.prems(2)
    by (simp only: length_Cons cb_walk.simps parse_all.simps holds_enc [OF r(1)] a if_False) (simp del: of_nat_add)
qed simp

lemma lb_table_reads:
  assumes "lb_table vm h rs"
  shows "read32 vm (lb_header_bytes h) = 24" "read32 vm (lb_table_bytes h) = of_nat (table_len rs)" "read32 vm (lb_table_entries h) = of_nat (length rs)"
    "read32 vm (lb_table_checksum h) = compute_ip_checksum (mem_bytes vm (h + 24) (table_len rs))" "memcmp_eq vm h LBIO"
    "ipchksum (mem_bytes vm h 24) = 0"
proof -
  define c where "c = compute_ip_checksum (mem_bytes vm (h + 24) (table_len rs))"
  define i where "i = header_image (compute_ip_checksum (header_image 0 (of_nat (table_len rs)) c (of_nat (length rs)))) (of_nat (table_len rs)) c (of_nat (length rs))"
  have m: "holds vm h 0 (map Some i)" using assms by (simp add: lb_table_def Let_def c_def i_def)
  note rd = header_reads [OF m [unfolded i_def]]
  show "read32 vm (lb_header_bytes h) = 24" "read32 vm (lb_table_bytes h) = of_nat (table_len rs)" "read32 vm (lb_table_entries h) = of_nat (length rs)"
    "read32 vm (lb_table_checksum h) = compute_ip_checksum (mem_bytes vm (h + 24) (table_len rs))"
    using rd by (simp_all add: c_def)
  have "mem_bytes vm h 24 = i" using mem_bytes_holds [of vm h 0 i] m by (simp add: i_def)
  then show "ipchksum (mem_bytes vm h 24) = 0" by (simp add: i_def header_sums_to_zero)
  have "vm (h + of_nat j) = i ! j" if "j < 24" for j using m that by (simp add: holds_known i_def)
  moreover have "i ! j = LBIO ! j" if "j < 4" for j
    using that by (auto simp: i_def header_image_def LBIO_def nth_append less_Suc_eq numeral_nat)
  ultimately show "memcmp_eq vm h LBIO" by (simp add: memcmp_eq_iff) (simp add: LBIO_def)
qed

lemma table_found:
  assumes "lb_table vm h rs" and "rs \<noteq> []" and "table_len rs \<le> 0x10000" and "find_header vm addr len = Some h"
  shows "cb_parse_header cfg vm len addr info =
    (case cb_walk cfg vm (length rs) (h + of_nat 24) (info\<lparr>si_header := h\<rparr>) of
       (Some forward, info) \<Rightarrow> cb_parse_header cfg vm len forward info
     | (None, info) \<Rightarrow> Some (1, info))"
proof -
  note rd = lb_table_reads [OF assms(1)]
  have l: "length rs \<le> table_len rs" "0 < table_len rs" using table_len_ge [of rs] assms(2) by (cases rs; simp)+
  have u: "unat (of_nat n :: u32) = n" if "n \<le> 0x10000" for n using that by (simp add: unsigned_of_nat take_bit_nat_eq_self)
  have nz: "(of_nat (table_len rs) :: u32) \<noteq> 0" using u [OF assms(3)] l(2) by (metis neq0_conv unat_0)
  have "unat (of_nat (length rs) :: u32) = length rs" using l assms(3) by (intro u) simp
  moreover have "ucast (ipchksum (mem_bytes vm (h + 24) (table_len rs))) = compute_ip_checksum (mem_bytes vm (h + 24) (table_len rs))"
    by (rule ipchksum_equals) (use assms(3) in simp)
  ultimately show ?thesis
    by (subst cb_parse_header.simps) (simp add: assms(4) rd nz u [OF assms(3)] del: cb_parse_header.simps)
qed

lemma table_parsed:
  assumes "lb_table vm h rs" and "rs \<noteq> []" and "table_len rs \<le> 0x10000" and "find_header vm addr len = Some h" and "LB_TAG_FORWARD \<notin> fst ` set rs"
  shows "cb_parse_header cfg vm len addr info = Some (1, parse_all cfg vm (h + of_nat 24) rs (info\<lparr>si_header := h\<rparr>))"
proof -
  have "holds vm h 24 (encs rs)" using assms(1) by (simp add: lb_table_def)
  from cb_walk_parses [OF this assms(5)] show ?thesis by (simp only: table_found [OF assms(1-4)] prod.case option.case)
qed

section \<open>Which record a field comes from\<close>

definition untouched :: "(sysinfo \<Rightarrow> 'a) \<Rightarrow> u32 set \<Rightarrow> bool" where
  "untouched g T \<longleftrightarrow> (\<forall>cfg vm tag ptr info. tag \<notin> T \<longrightarrow> g (cb_parse_record cfg vm tag ptr info) = g info)"

lemma parse_append:
  "parse_all cfg vm ptr (as @ bs) info = parse_all cfg vm (ptr + of_nat (table_len as)) bs (parse_all cfg vm ptr as info)"
  by (induction as arbitrary: ptr info) (simp_all add: add.assoc)

lemma parse_keeps: "untouched g T \<Longrightarrow> \<forall>r \<in> set rs. fst r \<notin> T \<Longrightarrow> g (parse_all cfg vm ptr rs info) = g info"
  by (induction rs arbitrary: ptr info) (simp_all add: untouched_def)

lemma parse_last:
  assumes "filter (\<lambda>r. fst r \<in> T) rs = xs @ [r]" and "untouched g T" and "holds vm p k (encs rs)"
  shows "\<exists>j info'. g (parse_all cfg vm (p + of_nat k) rs info) = g (cb_parse_record cfg vm (fst r) (p + of_nat j) info')
    \<and> holds vm p j (enc r) \<and> j + length (enc r) \<le> k + table_len rs"
proof -
  have "\<exists>x \<in> set rs. fst x \<in> T" using assms(1) by (metis filter_False snoc_eq_iff_butlast)
  then obtain ys x zs where rs: "rs = ys @ x # zs" "fst x \<in> T" "\<forall>z \<in> set zs. fst z \<notin> T"
    using split_list_last_prop [of rs "\<lambda>x. fst x \<in> T"] by blast
  then have x: "x = r" using assms(1) by (simp add: filter_False)
  have a: "p + of_nat k + of_nat (table_len ys) = p + of_nat (k + table_len ys)" by (simp add: ac_simps)
  have "g (parse_all cfg vm (p + of_nat k) rs info)
      = g (cb_parse_record cfg vm (fst r) (p + of_nat (k + table_len ys)) (parse_all cfg vm (p + of_nat k) ys info))"
    unfolding rs(1) parse_append parse_all.simps a x by (rule parse_keeps [OF assms(2) rs(3)])
  moreover have "holds vm p (k + table_len ys) (enc r)" using assms(3) by (simp add: rs(1) x holds_append)
  moreover have "k + table_len ys + length (enc r) \<le> k + table_len rs" by (simp add: rs(1) x)
  ultimately show ?thesis by blast
qed

lemma unaffected_fields:
  "untouched si_memrange {LB_TAG_MEMORY}" "untouched si_serial {LB_TAG_SERIAL}" "untouched si_mainboard {LB_TAG_MAINBOARD}"
  "untouched si_tstamp_table {LB_TAG_MAINBOARD, LB_TAG_TIMESTAMPS}" "untouched si_cbmem_cons {LB_TAG_CBMEM_CONSOLE}"
  "untouched si_acpi_gnvs {LB_TAG_ACPI_GNVS}"
  unfolding untouched_def
  by (simp_all add: cb_parse_record_def cb_parse_memory_def cb_parse_tstamp_def cb_parse_cbmem_cons_def cb_parse_mrc_cache_def
      cb_parse_acpi_gnvs_def cb_parse_checksum_def Let_def)

text \<open>The field a string goes to.\<close>

definition string_field :: "u32 \<Rightarrow> sysinfo \<Rightarrow> u32" where
  "string_field tag =
     (if tag = LB_TAG_VERSION then si_cb_version else if tag = LB_TAG_EXTRA_VERSION then si_extra_version
      else if tag = LB_TAG_BUILD then si_build else if tag = LB_TAG_COMPILE_TIME then si_compile_time
      else if tag = LB_TAG_COMPILE_BY then si_compile_by else if tag = LB_TAG_COMPILE_HOST then si_compile_host else si_compile_domain)"

lemma string_fields:
  assumes "tag \<in> {4, 5, 6, 7, 8, 9, 10}"
  shows "untouched (string_field tag) {tag}" and "string_field tag (cb_parse_record cfg vm tag ptr info) = ptr + 8"
proof -
  consider "tag = 4" | "tag = 5" | "tag = 6" | "tag = 7" | "tag = 8" | "tag = 9" | "tag = 10" using assms by blast
  then show "untouched (string_field tag) {tag}"
    unfolding untouched_def
    by cases (simp_all add: string_field_def cb_parse_record_def cb_parse_memory_def cb_parse_tstamp_def cb_parse_cbmem_cons_def
        cb_parse_mrc_cache_def cb_parse_acpi_gnvs_def cb_parse_checksum_def Let_def)
  show "string_field tag (cb_parse_record cfg vm tag ptr info) = ptr + 8"
    using assms by (elim insertE emptyE) (simp_all add: string_field_def cb_parse_record_def)
qed

section \<open>Reading the records\<close>

lemma holds_read64:
  assumes "holds vm p k (map Some (bytes64 v))"
  shows "read64 vm (p + of_nat k) = v" "cb_unpack64 vm (p + of_nat k) = v"
proof -
  have h: "holds vm p k (map Some (bytes32 (ucast v)))" "holds vm p (k + 4) (map Some (bytes32 (ucast (drop_bit 32 v))))"
    using assms by (simp_all add: bytes64_def holds_append)
  have lo: "read32 vm (p + of_nat k) = ucast v" by (rule holds_read32 [OF h(1)])
  have hi: "read32 vm (p + of_nat k + 4) = ucast (drop_bit 32 v)" using holds_read32 [OF h(2)] by (simp add: add.assoc)
  have j: "ucast (ucast v :: u32) OR push_bit 32 (ucast (ucast (drop_bit 32 v) :: u32)) = v" for v :: u64
    by (rule bit_word_eqI) (auto simp: bit_simps)
  show "read64 vm (p + of_nat k) = v" by (simp only: read64_def lo hi j)
  show "cb_unpack64 vm (p + of_nat k) = v" by (simp only: cb_unpack64_def lo hi j or.commute)
qed

lemma enc_body: "holds vm p j (enc r) \<Longrightarrow> holds vm p (j + 8) (snd r)"
  by (simp add: enc_def holds_append add.commute)

definition range_triple :: "range_entry \<Rightarrow> u64 \<times> u64 \<times> u32" where
  "range_triple r = (range_entry_base r, range_entry_size r, re_tag r)"

lemma holds_range:
  assumes "holds vm p k (map Some (concat (map range_bytes bm)))" and "i < length bm"
  shows "holds vm p (k + 20 * i) (map Some (range_bytes (bm ! i)))"
  using assms
proof (induction bm arbitrary: k i)
  case (Cons r bm)
  then show ?case by (cases i) (auto simp: holds_append ac_simps dest: Cons.IH)
qed simp

lemma parsed_memory:
  assumes "holds vm p j (enc (memory_rec bm))" and "j + length (enc (memory_rec bm)) \<le> 2 ^ 32"
  shows "si_memrange (cb_parse_memory cfg vm (p + of_nat j) info)
    = filter (\<lambda>(base, sz, ty). \<not> (lpc_memmap_ram_only cfg \<and> ty \<noteq> CB_MEM_RAM)) (take 32 (map range_triple bm))"
proof -
  let ?n = "length bm" and ?ptr = "p + of_nat j"
  have n: "20 * ?n + 8 \<le> 2 ^ 32" using assms(2) by (simp add: memory_rec_def)
  have "read32 vm (?ptr + 4) - 8 = of_nat (20 * ?n)" using holds_enc(2) [OF assms(1)] by (simp add: memory_rec_def)
  moreover have "unat (of_nat (20 * ?n) div 20 :: u32) = ?n"
    using n by (simp add: unat_div unsigned_of_nat take_bit_nat_eq_self del: of_nat_mult)
  ultimately have count: "unat ((read32 vm (?ptr + 4) - 8) div 20) = ?n" by simp
  have body: "holds vm p (j + 8) (map Some (concat (map range_bytes bm)))"
    using enc_body [OF assms(1)] by (simp add: memory_rec_def)
  have r: "cb_memory_range vm ?ptr i = range_triple (bm ! i)" if i: "i < ?n" for i
  proof -
    let ?k = "j + 8 + 20 * i"
    have h: "holds vm p ?k (map Some (bytes64 (range_entry_base (bm ! i))))" "holds vm p (?k + 8) (map Some (bytes64 (range_entry_size (bm ! i))))"
      "holds vm p (?k + 16) (map Some (bytes32 (re_tag (bm ! i))))"
      using holds_range [OF body i] by (simp_all add: range_bytes_def holds_append)
    have a: "?ptr + 8 + 20 * of_nat i = p + of_nat ?k" "p + of_nat ?k + 8 = p + of_nat (?k + 8)" "p + of_nat ?k + 16 = p + of_nat (?k + 16)"
      by simp_all
    show ?thesis unfolding cb_memory_range_def Let_def a range_triple_def
      by (simp only: holds_read64(2) [OF h(1)] holds_read64(2) [OF h(2)] holds_read32 [OF h(3)])
  qed
  have "map (cb_memory_range vm ?ptr) [0..<if 32 < ?n then 32 else ?n] = take 32 (map range_triple bm)"
    by (rule nth_equalityI) (auto simp: r min_def split: if_splits)
  then show ?thesis by (simp add: cb_parse_memory_def count)
qed

lemma parsed_string:
  assumes "holds vm p j (enc (string_rec s))"
  shows "mem_bytes vm (p + of_nat j + 8) (length (snd s) + 1) = snd s @ [0]"
proof -
  have "holds vm p (j + 8) (map Some (snd s @ [0]))"
    using enc_body [OF assms] unfolding string_rec_def snd_conv holds_append by blast
  then show ?thesis using mem_bytes_holds [of vm p "j + 8" "snd s @ [0]"] by (simp add: add.assoc)
qed

lemma parsed_serial:
  assumes "holds vm p j (enc (serial_rec s))"
  shows "read32 vm (p + of_nat j + 8) = lbs_type s" "read32 vm (p + of_nat j + 12) = lbs_baseaddr s" "read32 vm (p + of_nat j + 16) = lbs_baud s"
proof -
  have h: "holds vm p (j + 8) (map Some (bytes32 (lbs_type s)))" "holds vm p (j + 12) (map Some (bytes32 (lbs_baseaddr s)))"
    "holds vm p (j + 16) (map Some (bytes32 (lbs_baud s)))"
    using enc_body [OF assms] by (simp_all add: serial_rec_def holds_append ac_simps)
  show "read32 vm (p + of_nat j + 8) = lbs_type s" "read32 vm (p + of_nat j + 12) = lbs_baseaddr s" "read32 vm (p + of_nat j + 16) = lbs_baud s"
    using holds_read32 [OF h(1)] holds_read32 [OF h(2)] holds_read32 [OF h(3)] by (simp_all add: add.assoc)
qed

lemma parsed_ref:
  assumes "holds vm p j (enc (ref_rec tag addr))"
  shows "cb_ref lp vm (p + of_nat j) = phys_to_virt lp addr"
proof -
  have h: "holds vm p (j + 8) (map Some (bytes64 (ucast addr)))" using enc_body [OF assms] by (simp add: ref_rec_def)
  have "ucast (ucast addr :: u64) = addr" by (rule bit_word_eqI) (auto simp: bit_simps dest: bit_imp_le_length)
  then show ?thesis using holds_read64(1) [OF h] by (simp add: cb_ref_def add.assoc)
qed

lemma parsed_mainboard:
  assumes "holds vm p j (enc (mainboard_rec cfg))" and "length (mainboard_vendor cfg) < 255"
  shows "mem_bytes vm (p + of_nat j + 10 + ucast (vm (p + of_nat j + 8))) (length (mainboard_vendor cfg) + 1) = mainboard_vendor cfg @ [0]"
    and "mem_bytes vm (p + of_nat j + 10 + ucast (vm (p + of_nat j + 9))) (length (mainboard_part_number cfg) + 1) = mainboard_part_number cfg @ [0]"
proof -
  let ?v = "mainboard_vendor cfg" and ?q = "mainboard_part_number cfg"
  have h: "holds vm p (j + 8) (map Some [0, of_nat (length ?v) + 1])" "holds vm p (j + 10) (map Some (?v @ [0]))"
    "holds vm p (j + 10 + (length ?v + 1)) (map Some (?q @ [0]))"
    using enc_body [OF assms(1)] unfolding mainboard_rec_def Let_def snd_conv by (simp_all add: holds_append holds_Cons ac_simps)
  have i: "vm (p + of_nat j + 8) = 0" "vm (p + of_nat j + 9) = of_nat (length ?v + 1)"
    using h(1) by (simp_all add: holds_Cons ac_simps)
  have "unat (of_nat (length ?v + 1) :: u8) = length ?v + 1" "unat (of_nat (length ?v + 1) :: u32) = length ?v + 1"
    using assms(2) by (simp_all add: unsigned_of_nat take_bit_nat_eq_self del: of_nat_add of_nat_Suc)
  then have u: "ucast (of_nat (length ?v + 1) :: u8) = (of_nat (length ?v + 1) :: u32)"
    using assms(2) unfolding word_unat_eq_iff unat_ucast_mod by (simp del: of_nat_add of_nat_Suc)
  show "mem_bytes vm (p + of_nat j + 10 + ucast (vm (p + of_nat j + 8))) (length ?v + 1) = ?v @ [0]"
    using mem_bytes_holds [of vm p "j + 10" "?v @ [0]"] h(2) unfolding i(1) by (simp add: add.assoc)
  have e: "p + of_nat j + 10 + of_nat (length ?v + 1) = p + of_nat (j + 10 + (length ?v + 1))" by (simp add: ac_simps)
  show "mem_bytes vm (p + of_nat j + 10 + ucast (vm (p + of_nat j + 9))) (length ?q + 1) = ?q @ [0]"
    using mem_bytes_holds [of vm p "j + 10 + (length ?v + 1)" "?q @ [0]"] h(3) unfolding i(2) u e by (simp del: of_nat_add of_nat_Suc)
qed

section \<open>The payload reads what the firmware wrote\<close>

definition cbmem_ptr :: "lbt_config \<Rightarrow> cbmem \<Rightarrow> u32 \<Rightarrow> u32" where
  "cbmem_ptr cfg c k = fst (cbmem_find (lbc_cbmem cfg) k c)"

text \<open>What the system information says is what the firmware has.\<close>

definition info_correct :: "lbt_config \<Rightarrow> lp_config \<Rightarrow> memory \<Rightarrow> memranges \<Rightarrow> cbmem \<Rightarrow> sysinfo \<Rightarrow> bool" where
  "info_correct cfg lp vm bm c info \<longleftrightarrow>
     si_memrange info = filter (\<lambda>(base, sz, ty). \<not> (lpc_memmap_ram_only lp \<and> ty \<noteq> CB_MEM_RAM)) (take 32 (map range_triple bm))
   \<and> (\<forall>(tag, s) \<in> set (lb_string_table cfg). mem_bytes vm (string_field tag info) (length s + 1) = s @ [0])
   \<and> mem_bytes vm (si_mainboard info + 10 + ucast (vm (si_mainboard info + 8))) (length (mainboard_vendor cfg) + 1) = mainboard_vendor cfg @ [0]
   \<and> mem_bytes vm (si_mainboard info + 10 + ucast (vm (si_mainboard info + 9))) (length (mainboard_part_number cfg) + 1) = mainboard_part_number cfg @ [0]
   \<and> (lbc_console_serial cfg \<longrightarrow> read32 vm (si_serial info + 8) = LB_SERIAL_TYPE_IO_MAPPED
       \<and> read32 vm (si_serial info + 12) = lbs_baseaddr (console_serial cfg) \<and> read32 vm (si_serial info + 16) = lbs_baud (console_serial cfg))
   \<and> (cbmem_ptr cfg c 0x434f4e53 \<noteq> 0 \<longrightarrow> si_cbmem_cons info = phys_to_virt lp (cbmem_ptr cfg c 0x434f4e53))
   \<and> (cbmem_ptr cfg c 0x474e5653 \<noteq> 0 \<longrightarrow> si_acpi_gnvs info = phys_to_virt lp (cbmem_ptr cfg c 0x474e5653))
   \<and> (if cbmem_ptr cfg c 0x54494d45 \<noteq> 0 then si_tstamp_table info = phys_to_virt lp (cbmem_ptr cfg c 0x54494d45)
      else si_tstamp_table info = cb_ref lp vm (si_mainboard info))"

definition option_tag_ok :: "(u32 \<times> u32 \<times> u8 list) option \<Rightarrow> bool" where
  "option_tag_ok opt = (case opt of None \<Rightarrow> True | Some (a, tag, body) \<Rightarrow> tag = CB_TAG_CMOS_OPTION_TABLE)"

lemma filter_table:
  assumes "option_tag_ok opt" and "0xc8 \<notin> T"
  shows "filter (\<lambda>r. fst r \<in> T) (option_recs opt @ table_recs cfg bm c) = filter (\<lambda>r. fst r \<in> T) (table_recs cfg bm c)"
  using assms by (cases opt) (auto simp: option_tag_ok_def option_recs_def)

lemma rec_tags [simp]:
  "fst (memory_rec bm) = 1" "fst (mainboard_rec cfg) = 3" "fst (serial_rec s) = 15" "fst (console_rec ty) = 16"
  "fst (string_rec str) = fst str" "fst (ref_rec tag a) = tag"
  by (simp_all add: memory_rec_def mainboard_rec_def Let_def serial_rec_def console_rec_def string_rec_def ref_rec_def)

lemma filter_strings:
  "filter (\<lambda>r. fst r \<in> T) (map string_rec (lb_string_table cfg)) = map string_rec (filter (\<lambda>s. fst s \<in> T) (lb_string_table cfg))"
  by (simp add: filter_map comp_def)

lemma filter_refs:
  "filter (\<lambda>r. fst r \<in> T) (cbmem_recs (lbc_cbmem cfg) section_ids c) =
     (if cbmem_ptr cfg c 0x54494d45 \<noteq> 0 \<and> LB_TAG_TIMESTAMPS \<in> T then [ref_rec LB_TAG_TIMESTAMPS (cbmem_ptr cfg c 0x54494d45)] else [])
   @ (if cbmem_ptr cfg c 0x434f4e53 \<noteq> 0 \<and> LB_TAG_CBMEM_CONSOLE \<in> T then [ref_rec LB_TAG_CBMEM_CONSOLE (cbmem_ptr cfg c 0x434f4e53)] else [])
   @ (if cbmem_ptr cfg c 0x474e5653 \<noteq> 0 \<and> LB_TAG_ACPI_GNVS \<in> T then [ref_rec LB_TAG_ACPI_GNVS (cbmem_ptr cfg c 0x474e5653)] else [])"
  by (simp add: cbmem_recs_def section_ids_def cbmem_ptr_def Let_def)

lemma filter_recs:
  "filter (\<lambda>r. fst r \<in> T) (table_recs cfg bm c) =
     (if LB_TAG_MEMORY \<in> T then [memory_rec bm] else []) @ (if LB_TAG_MAINBOARD \<in> T then [mainboard_rec cfg] else [])
     @ (if lbc_console_serial cfg then (if LB_TAG_SERIAL \<in> T then [serial_rec (console_serial cfg)] else [])
          @ (if LB_TAG_CONSOLE \<in> T then [console_rec LB_TAG_CONSOLE_SERIAL8250] else []) else [])
     @ (if lbc_console_usb cfg \<and> LB_TAG_CONSOLE \<in> T then [console_rec LB_TAG_CONSOLE_EHCI] else [])
     @ map string_rec (filter (\<lambda>s. fst s \<in> T) (lb_string_table cfg))
     @ filter (\<lambda>r. fst r \<in> T) (cbmem_recs (lbc_cbmem cfg) section_ids c)"
  unfolding table_recs_def filter_append filter_strings [symmetric] by simp

lemma strings_tags: "\<forall>s \<in> set (lb_string_table cfg). fst s \<in> {4, 5, 6, 7, 8, 9, 10}"
  by (simp add: lb_string_table_def)

lemma no_strings: "T \<inter> {4, 5, 6, 7, 8, 9, 10} = {} \<Longrightarrow> filter (\<lambda>s. fst s \<in> T) (lb_string_table cfg) = []"
  using strings_tags [of cfg] by (auto simp: filter_empty_conv)

lemma one_string: "(tag, s) \<in> set (lb_string_table cfg) \<Longrightarrow> filter (\<lambda>x. fst x \<in> {tag}) (lb_string_table cfg) = [(tag, s)]"
  by (auto simp: lb_string_table_def)

lemma forward_not_there: "option_tag_ok opt \<Longrightarrow> LB_TAG_FORWARD \<notin> fst ` set (option_recs opt @ table_recs cfg bm c)"
proof -
  assume ok: "option_tag_ok opt"
  have e: "filter (\<lambda>r. fst r \<in> {LB_TAG_FORWARD}) (option_recs opt @ table_recs cfg bm c) = filter (\<lambda>r. fst r \<in> {LB_TAG_FORWARD}) (table_recs cfg bm c)"
    by (rule filter_table [OF ok]) simp
  have "filter (\<lambda>r. fst r \<in> {LB_TAG_FORWARD}) (option_recs opt @ table_recs cfg bm c) = []"
    unfolding e filter_recs filter_refs by (simp add: lb_string_table_def)
  then show ?thesis by (auto simp: filter_empty_conv)
qed

lemma parsed_info:
  assumes h: "holds vm p k (encs rs)" and rs: "rs = option_recs opt @ table_recs cfg bm c" and opt: "option_tag_ok opt"
    and len: "k + table_len rs \<le> 2 ^ 32" and str: "strings_ok cfg"
  shows "info_correct cfg lp vm bm c (parse_all lp vm (p + of_nat k) rs info)" (is "info_correct _ _ _ _ _ ?i")
proof -
  have last: "\<exists>j info'. g ?i = g (cb_parse_record lp vm (fst r) (p + of_nat j) info') \<and> holds vm p j (enc r) \<and> j + length (enc r) \<le> 2 ^ 32"
    if "filter (\<lambda>r. fst r \<in> T) (table_recs cfg bm c) = xs @ [r]" "untouched g T" "0xc8 \<notin> T" for g :: "sysinfo \<Rightarrow> 'b" and T xs r
  proof -
    have "filter (\<lambda>r. fst r \<in> T) rs = xs @ [r]" unfolding rs filter_table [OF opt that(3)] by (rule that(1))
    from parse_last [OF this that(2) h, of lp info] len show ?thesis by (meson order_trans)
  qed
  have f: "filter (\<lambda>r. fst r \<in> {LB_TAG_MEMORY}) (table_recs cfg bm c) = [] @ [memory_rec bm]"
    "filter (\<lambda>r. fst r \<in> {LB_TAG_MAINBOARD}) (table_recs cfg bm c) = [] @ [mainboard_rec cfg]"
    "lbc_console_serial cfg \<Longrightarrow> filter (\<lambda>r. fst r \<in> {LB_TAG_SERIAL}) (table_recs cfg bm c) = [] @ [serial_rec (console_serial cfg)]"
    "cbmem_ptr cfg c 0x434f4e53 \<noteq> 0 \<Longrightarrow> filter (\<lambda>r. fst r \<in> {LB_TAG_CBMEM_CONSOLE}) (table_recs cfg bm c) = [] @ [ref_rec LB_TAG_CBMEM_CONSOLE (cbmem_ptr cfg c 0x434f4e53)]"
    "cbmem_ptr cfg c 0x474e5653 \<noteq> 0 \<Longrightarrow> filter (\<lambda>r. fst r \<in> {LB_TAG_ACPI_GNVS}) (table_recs cfg bm c) = [] @ [ref_rec LB_TAG_ACPI_GNVS (cbmem_ptr cfg c 0x474e5653)]"
    "cbmem_ptr cfg c 0x54494d45 \<noteq> 0 \<Longrightarrow> filter (\<lambda>r. fst r \<in> {LB_TAG_MAINBOARD, LB_TAG_TIMESTAMPS}) (table_recs cfg bm c)
       = [mainboard_rec cfg] @ [ref_rec LB_TAG_TIMESTAMPS (cbmem_ptr cfg c 0x54494d45)]"
    unfolding filter_recs filter_refs by (simp_all add: lb_string_table_def)
  have "si_memrange ?i = filter (\<lambda>(base, sz, ty). \<not> (lpc_memmap_ram_only lp \<and> ty \<noteq> CB_MEM_RAM)) (take 32 (map range_triple bm))"
    using last [OF f(1) unaffected_fields(1)] parsed_memory by (force simp: cb_parse_record_def)
  moreover have "mem_bytes vm (string_field tag ?i) (length s + 1) = s @ [0]" if s: "(tag, s) \<in> set (lb_string_table cfg)" for tag s
  proof -
    have t: "tag \<in> {4, 5, 6, 7, 8, 9, 10}" using strings_tags [of cfg] s by force
    have "filter (\<lambda>r. fst r \<in> {tag}) (table_recs cfg bm c) = [] @ [string_rec (tag, s)]"
      unfolding filter_recs filter_refs one_string [OF s] using t by auto
    from last [OF this string_fields(1) [OF t]] obtain j where "string_field tag ?i = p + of_nat j + 8" "holds vm p j (enc (string_rec (tag, s)))"
      using string_fields(2) [OF t] t by auto
    then show ?thesis using parsed_string by force
  qed
  moreover obtain j where j: "si_mainboard ?i = p + of_nat j" "holds vm p j (enc (mainboard_rec cfg))"
    using last [OF f(2) unaffected_fields(3)] by (auto simp: cb_parse_record_def cb_parse_tstamp_def)
  moreover note parsed_mainboard [OF j(2)]
  moreover have "read32 vm (si_serial ?i + 8) = LB_SERIAL_TYPE_IO_MAPPED \<and> read32 vm (si_serial ?i + 12) = lbs_baseaddr (console_serial cfg)
      \<and> read32 vm (si_serial ?i + 16) = lbs_baud (console_serial cfg)" if ser: "lbc_console_serial cfg"
  proof -
    obtain j where "si_serial ?i = p + of_nat j" "holds vm p j (enc (serial_rec (console_serial cfg)))"
      using last [OF f(3) [OF ser] unaffected_fields(2)] by (auto simp: cb_parse_record_def)
    then show ?thesis using parsed_serial [of vm p j "console_serial cfg"] by (simp add: console_serial_def)
  qed
  moreover have "si_cbmem_cons ?i = phys_to_virt lp (cbmem_ptr cfg c 0x434f4e53)" if "cbmem_ptr cfg c 0x434f4e53 \<noteq> 0"
    using last [OF f(4) [OF that] unaffected_fields(5)] parsed_ref by (force simp: cb_parse_record_def cb_parse_cbmem_cons_def)
  moreover have "si_acpi_gnvs ?i = phys_to_virt lp (cbmem_ptr cfg c 0x474e5653)" if "cbmem_ptr cfg c 0x474e5653 \<noteq> 0"
    using last [OF f(5) [OF that] unaffected_fields(6)] parsed_ref by (force simp: cb_parse_record_def cb_parse_acpi_gnvs_def)
  moreover have "si_tstamp_table ?i = phys_to_virt lp (cbmem_ptr cfg c 0x54494d45)" if "cbmem_ptr cfg c 0x54494d45 \<noteq> 0"
    using last [OF f(6) [OF that] unaffected_fields(4)] parsed_ref by (force simp: cb_parse_record_def cb_parse_tstamp_def)
  moreover have "si_tstamp_table ?i = cb_ref lp vm (si_mainboard ?i)" if "cbmem_ptr cfg c 0x54494d45 = 0"
  proof -
    let ?g = "\<lambda>i. (si_tstamp_table i, si_mainboard i)"
    have m: "filter (\<lambda>r. fst r \<in> {LB_TAG_MAINBOARD, LB_TAG_TIMESTAMPS}) (table_recs cfg bm c) = [] @ [mainboard_rec cfg]"
      unfolding filter_recs filter_refs using that by (simp add: lb_string_table_def)
    have u: "untouched ?g {LB_TAG_MAINBOARD, LB_TAG_TIMESTAMPS}" using unaffected_fields(3,4) by (auto simp: untouched_def)
    from last [OF m u] obtain j where "?g ?i = (cb_ref lp vm (p + of_nat j), p + of_nat j)" by (auto simp: cb_parse_record_def cb_parse_tstamp_def)
    then show ?thesis by simp
  qed
  ultimately show ?thesis using str unfolding info_correct_def strings_ok_def by auto
qed

lemma memcmp_virtual: "memcmp_eq (virtual_view voff mem) (a - voff) xs = memcmp_eq mem a xs"
  by (simp add: memcmp_eq_iff virtual_view_def)

lemma unat_table_base: "unat (table_base x) = unat (x + 15) div 16 * 16"
proof -
  have m: "(15 :: u32) = mask 4" by (simp add: mask_eq_exp_minus_1)
  have "unat ((x + 15) AND NOT (mask 4)) = unat (x + 15) div 2 ^ 4 * 2 ^ 4" by (rule unat_and_not_mask)
  then show ?thesis by (simp only: table_base_def m) simp
qed

lemma table_base_aligned:
  assumes "unat x mod 16 = 0"
  shows "table_base x = x"
proof -
  obtain q where q: "unat x = 16 * q" using assms by auto
  then have "unat x + 15 < 2 ^ 32" using unat_less_exp [of x] by simp
  then have "unat (x + 15) = 16 * q + 15" using q by (subst unat_add_no_wrap) simp_all
  then show ?thesis using q by (simp add: word_unat_eq_iff unat_table_base)
qed

lemma find_header_first:
  assumes "memcmp_eq mem (of_nat (16 * k)) LBIO" and "\<forall>i < k. \<not> memcmp_eq mem (of_nat (16 * i) :: u32) LBIO" and "k < (len + 15) div 16"
  shows "find_header (virtual_view voff mem) (0 - voff) len = Some (of_nat (16 * k) - voff)"
proof -
  let ?f = "\<lambda>i. 0 - voff + 16 * of_nat i"
  have f: "?f i = of_nat (16 * i) - voff" for i by simp
  have P: "memcmp_eq (virtual_view voff mem) (?f i) LBIO = memcmp_eq mem (of_nat (16 * i)) LBIO" for i unfolding f by (rule memcmp_virtual)
  have "find (\<lambda>p. memcmp_eq (virtual_view voff mem) p LBIO) (map ?f [0..<(len + 15) div 16]) = Some (?f k)"
    unfolding find_Some_iff using assms P by (intro exI [of _ k]) (simp del: of_nat_mult)
  then show ?thesis unfolding find_header_def f by simp
qed

lemma low_table_found:
  assumes low: "lb_table mem (table_base low_end) [ref_rec LB_TAG_FORWARD rom_end]" and below: "unat (table_base low_end) < 0x1000"
    and first: "\<forall>i. 16 * i < unat (table_base low_end) \<longrightarrow> \<not> memcmp_eq mem (of_nat (16 * i)) LBIO"
  shows "cb_parse_header lp (virtual_view (lpc_voff lp) mem) 0x1000 (phys_to_virt lp 0) info
    = cb_parse_header lp (virtual_view (lpc_voff lp) mem) 0x1000 (phys_to_virt lp rom_end) (info\<lparr>si_header := phys_to_virt lp (table_base low_end)\<rparr>)"
proof -
  let ?vm = "virtual_view (lpc_voff lp) mem" and ?h = "table_base low_end - lpc_voff lp"
  define k where "k = unat (low_end + 15) div 16"
  have k: "unat (table_base low_end) = 16 * k" by (simp add: unat_table_base k_def mult.commute)
  have "table_base low_end = of_nat (unat (table_base low_end))" by simp
  then have k2: "table_base low_end = of_nat (16 * k)" by (simp only: k)
  have vt: "lb_table ?vm ?h [ref_rec LB_TAG_FORWARD rom_end]" using low by (simp only: lb_table_virtual)
  have "memcmp_eq mem (of_nat (16 * k)) LBIO" using lb_table_reads(5) [OF low] k2 by simp
  then have f: "find_header ?vm (phys_to_virt lp 0) 0x1000 = Some ?h"
    using find_header_first [of mem k "0x1000" "lpc_voff lp"] first below unfolding k by (simp add: phys_to_virt_def k2)
  have e: "holds ?vm ?h 24 (enc (ref_rec LB_TAG_FORWARD rom_end))" using vt by (simp add: lb_table_def)
  have "cb_walk lp ?vm (length [ref_rec LB_TAG_FORWARD rom_end]) (?h + of_nat 24) i = (Some (phys_to_virt lp rom_end), i)" for i
    using holds_enc(1) [OF e] parsed_ref [OF e, of lp] by (simp add: ref_rec_def)
  then show ?thesis using table_found [OF vt _ _ f] by (simp add: ref_rec_def phys_to_virt_def)
qed

text \<open>
  C6.  The payload reads what the firmware wrote.  After \<^verbatim>\<open>write_coreboot_table\<close> with a low table, the parser
  of libpayload returns success: it finds the low table as the first signature in low memory, accepts its checksums, follows the
  forward record and takes from the other table the first 32 ranges of the memory map, the strings of the build, the names of
  vendor and board, the serial console and the addresses of the firmware's tables, all as the firmware has them.  Only the
  time stamps need the firmware to have them: otherwise their pointer is made of the mainboard record's bytes.  The table may be at most 64 KiB
  long, its address divisible by 16, and low memory free of earlier signatures.
\<close>

theorem coreboot_table_reaches_payload:
  assumes res: "write_coreboot_table cfg t low_start low_end rom_start rom_end s = Some (e, s')"
    and low: "low_start \<noteq> 0 \<or> low_end \<noteq> 0" "unat (table_base low_end) < 0x1000" "unat (table_base low_end) + 40 \<le> unat rom_end"
    and first: "\<forall>i. 16 * i < unat (table_base low_end) \<longrightarrow> \<not> memcmp_eq (lbt_mem s) (of_nat (16 * i)) LBIO"
    and rom: "unat rom_end mod 16 = 0"
    and str: "strings_ok cfg"
    and opt: "option_table_ok cfg (lbt_mem s) (table_base low_end) rom_end opt" "option_tag_ok opt"
    and rs: "rs = option_recs opt @ table_recs cfg (lbt_bm s') (lbt_cbmem s)"
    and len: "table_len rs \<le> 0x10000" "room rom_end rs"
    and vm: "vm = virtual_view (lpc_voff lp) (lbt_mem s')"
  shows "\<exists>info'. get_coreboot_info lp vm info = Some (0, info') \<and> info_correct cfg lp vm (lbt_bm s') (lbt_cbmem s) info'"
proof -
  let ?l = "table_base low_end" and ?N = "24 + table_len rs" and ?mem = "lbt_mem s'"
  have b: "table_base rom_end = rom_end" by (rule table_base_aligned [OF rom])
  note w = write_coreboot_table_tables [OF res low(1), unfolded b, OF low(3) str opt(1) rs len(2)]
  have N: "unat rom_end + ?N \<le> 2 ^ 32" using len(2) by (simp add: room_def)
  have same: "?mem a = lbt_mem s a" if a: "unat a < unat ?l" for a
  proof -
    have far: "k \<le> unat (a - b)" if "unat a < unat b" "unat b + k \<le> 2 ^ 32" for b k
      using that by (simp add: unat_sub_if' word_le_nat_alt)
    have "40 \<le> unat (a - ?l)" by (rule far [OF a]) (use low(2) in simp)
    moreover have "?N \<le> unat (a - rom_end)" by (rule far) (use a low(3) N in simp_all)
    ultimately show ?thesis using w(3) by blast
  qed
  have "\<not> memcmp_eq ?mem (of_nat (16 * i)) LBIO" if i: "16 * i < unat ?l" for i
  proof -
    have "unat ?l mod 16 = 0" by (simp add: unat_table_base)
    then have l: "16 * i + 16 \<le> unat ?l" using i by presburger
    have "?mem (of_nat (16 * i) + of_nat j) = lbt_mem s (of_nat (16 * i) + of_nat j)" if "j < 4" for j
    proof (rule same)
      have "unat (of_nat (16 * i + j) :: u32) = 16 * i + j" using l low(2) that by (simp add: unsigned_of_nat take_bit_nat_eq_self del: of_nat_add of_nat_mult)
      then show "unat (of_nat (16 * i) + of_nat j :: u32) < unat ?l" using l that by simp
    qed
    then have "memcmp_eq ?mem (of_nat (16 * i)) LBIO = memcmp_eq (lbt_mem s) (of_nat (16 * i)) LBIO"
      by (simp add: memcmp_eq_iff LBIO_def del: of_nat_mult)
    then show ?thesis using first i by blast
  qed
  then have low': "cb_parse_header lp vm 0x1000 (phys_to_virt lp 0) i
      = cb_parse_header lp vm 0x1000 (phys_to_virt lp rom_end) (i\<lparr>si_header := phys_to_virt lp ?l\<rparr>)" for i
    unfolding vm using low_table_found [OF w(1) low(2)] by blast
  have vt: "lb_table vm (phys_to_virt lp rom_end) rs" using w(2) by (simp only: vm phys_to_virt_def lb_table_virtual)
  have "memcmp_eq vm (phys_to_virt lp rom_end) LBIO" by (rule lb_table_reads(5) [OF vt])
  then have f: "find_header vm (phys_to_virt lp rom_end) 0x1000 = Some (phys_to_virt lp rom_end)"
    by (simp add: find_header_def upt_conv_Cons)
  have ne: "rs \<noteq> []" by (simp add: rs table_recs_def)
  have nf: "LB_TAG_FORWARD \<notin> fst ` set rs" unfolding rs by (rule forward_not_there [OF opt(2)])
  define info' where "info' = parse_all lp vm (phys_to_virt lp rom_end + of_nat 24) rs
    (info\<lparr>si_x86_rom_var_mtrr_index := - 1, si_header := phys_to_virt lp ?l, si_header := phys_to_virt lp rom_end\<rparr>)"
  have "get_coreboot_info lp vm info = Some (0, info')"
    by (simp add: get_coreboot_info_def low' table_parsed [OF vt ne len(1) f nf] info'_def)
  moreover have "info_correct cfg lp vm (lbt_bm s') (lbt_cbmem s) info'"
  proof -
    have h: "holds vm (phys_to_virt lp rom_end) 24 (encs rs)" using vt by (simp add: lb_table_def)
    have k: "24 + table_len rs \<le> 2 ^ 32" using len(1) by simp
    show ?thesis unfolding info'_def by (rule parsed_info [OF h rs opt(2) k str])
  qed
  ultimately show ?thesis by blast
qed

text \<open>A machine with 16 MiB of RAM and its tables behind it.\<close>

definition example_ram_tree :: devtree where
  "example_ram_tree = example_tree\<lparr>all_devices := [1], devs := (\<lambda>d. example_device\<lparr>d_resource_list :=
     [zero_resource\<lparr>res_base := 0, res_size := 0x1000000, res_flags := IORESOURCE_MEM OR IORESOURCE_CACHEABLE\<rparr>]\<rparr>)\<rparr>"

definition example_lbt_config :: lbt_config where
  "example_lbt_config = \<lparr>lbc_rom_size = 0x400000, lbc_use_option_table = False, lbc_console_serial = True, lbc_console_usb = False,
     lbc_uart_for_console = 0, lbc_ttys0_baud = 115200, lbc_baud_option = (CB_SUCCESS, []), lbc_cbmem = (0x1000000, 0x20000),
     mainboard_vendor = [0x50, 0x43], mainboard_part_number = [0x61, 0x70, 0x75], coreboot_version = [0x34], coreboot_extra_version = [],
     coreboot_build = [0x31], coreboot_compile_time = [0x32], coreboot_compile_by = [0x33], coreboot_compile_host = [0x34],
     coreboot_compile_domain = []\<rparr>"

lemmas insert_defs = bootmem_add_range_def memranges_insert_def do_action_def merge_add_memranges_def ALIGN_DOWN_def new_entry_def
  alloc_range_def sizeof_range_entry_def malloc_def memalign_def ALIGN_UP_def ALIGN_MASK_def Let_def

lemma example_lb_bootmem:
  "\<exists>bm pool. lb_bootmem 0 0x1000 0 0x1010000 example_ram_tree example_cbmem example_pool = Some (bm, pool) \<and> length bm \<le> 8"
proof -
  let ?e = "\<lambda>b e ty. \<lparr>re_begin = b, re_end = e, re_tag = ty\<rparr>"
  have 1: "memranges_init example_ram_tree IORESOURCE_CACHEABLE IORESOURCE_CACHEABLE LB_MEM_RAM example_pool
      = Some ([?e 0 0xffffff LB_MEM_RAM], \<lparr>free_list = [], range_heap = \<lparr>free_mem_ptr = 0x1018, free_mem_end_ptr = 0x2000\<rparr>\<rparr>)"
    by (simp add: memranges_init_def memranges_add_resources_def memranges_add_resources_filter_def search_global_resources_def
      example_ram_tree_def example_tree_def collect_ranges_def zero_resource_def example_device_def insert_defs example_pool_def)
  have 2: "memranges_add_resources example_ram_tree IORESOURCE_RESERVE IORESOURCE_RESERVE LB_MEM_RESERVED rs p = Some (rs, p)" for rs p
    by (simp add: memranges_add_resources_def memranges_add_resources_filter_def search_global_resources_def
      example_ram_tree_def example_tree_def zero_resource_def example_device_def)
  have 3: "cbmem_base example_cbmem = 0x1000000" "cbmem_size example_cbmem = 0x20000"
    by (simp_all add: example_cbmem_def cbmem_recovery_def cbmem_check_toc_def cbmem_initialize_empty_def cbmem_locate_table_def Let_def)
  show ?thesis by (simp add: lb_bootmem_def bootmem_init_def 1 2 3 cbmem_add_bootmem_def insert_defs)
qed

lemma cbmem_recs_len: "table_len (cbmem_recs tbl sids c) \<le> 16 * length sids"
  by (induction sids) (auto simp: cbmem_recs_def ref_rec_def Let_def)

lemma lb_low_table_end:
  assumes "unat (table_base low_end) + 40 \<le> 2 ^ 32"
  shows "fst (lb_low_table low_end nx mem) = ALIGN_UP (table_base low_end + 40) 4096"
proof -
  let ?l = "table_base low_end" and ?r = "ref_rec LB_TAG_FORWARD nx"
  define m1 where "m1 = snd (lb_table_init low_end mem)"
  note i = lb_table_init_open [of low_end mem, folded m1_def]
  have "lb_open (lb_forward ?l nx m1) ?l [?r]"
    using appendsD [OF appends_forward i(2), of nx] assms by (simp add: room_def ref_rec_def)
  from lb_table_fini_table(3) [OF this] have "fst (lb_table_fini ?l (lb_forward ?l nx m1)) = ?l + 40"
    by (simp add: ref_rec_def)
  then show ?thesis using i(1) by (auto simp: lb_low_table_def m1_def split: prod.split)
qed

definition example_lbt_state :: lbt_state where
  "example_lbt_state = \<lparr>lbt_mem = \<lambda>_. 0, lbt_bm = [], lbt_pool = example_pool, lbt_cbmem = example_cbmem\<rparr>"

lemma coreboot_table_reaches_payload_witness:
  "\<forall>info. \<exists>e s' info'. write_coreboot_table example_lbt_config example_ram_tree 0 0x500 0 0x1002000 example_lbt_state = Some (e, s')
    \<and> get_coreboot_info \<lparr>lpc_nvram = False, lpc_video_console = False, lpc_memmap_ram_only = False, lpc_voff = 0x100000\<rparr>
        (virtual_view 0x100000 (lbt_mem s')) info = Some (0, info')
    \<and> info_correct example_lbt_config \<lparr>lpc_nvram = False, lpc_video_console = False, lpc_memmap_ram_only = False, lpc_voff = 0x100000\<rparr>
        (virtual_view 0x100000 (lbt_mem s')) (lbt_bm s') example_cbmem info'"
proof
  fix info
  let ?lp = "\<lparr>lpc_nvram = False, lpc_video_console = False, lpc_memmap_ram_only = False, lpc_voff = 0x100000\<rparr>"
  have b: "table_base 0x500 = 0x500" "table_base 0x1002000 = 0x1002000" by (rule table_base_aligned; simp)+
  obtain bm pool where bm: "lb_bootmem 0 0x1000 0 0x1010000 example_ram_tree example_cbmem example_pool = Some (bm, pool)" "length bm \<le> 8"
    using example_lb_bootmem by blast
  have l: "fst (lb_low_table 0x500 0x1002000 mem) = 0x1000" for mem
    by (subst lb_low_table_end) (simp_all add: b ALIGN_UP_def ALIGN_MASK_def)
  have i: "fst (lb_table_init 0x1002000 mem) = 0x1002000" for mem using lb_table_init_open(1) [of "0x1002000" mem] by (simp add: b)
  have a: "ALIGN_UP (0x1002000 :: u32) 0x10000 = 0x1010000" by (simp add: ALIGN_UP_def ALIGN_MASK_def)
  obtain e s' where r: "write_coreboot_table example_lbt_config example_ram_tree 0 0x500 0 0x1002000 example_lbt_state = Some (e, s')" "lbt_bm s' = bm"
    unfolding write_coreboot_table_def Let_def case_prod_beta
    by (simp add: l i a bm(1) example_lbt_state_def) (simp add: example_lbt_config_def)
  let ?rs = "option_recs None @ table_recs example_lbt_config (lbt_bm s') (lbt_cbmem example_lbt_state)"
  have str: "strings_ok example_lbt_config" by (simp add: strings_ok_def lb_string_table_def example_lbt_config_def)
  have "table_len ?rs \<le> 500"
    using bm(2) cbmem_recs_len [of "(0x1000000, 0x20000)" section_ids "lbt_cbmem example_lbt_state"] r(2)
    by (simp add: option_recs_def table_recs_def memory_rec_def mainboard_rec_def serial_rec_def console_rec_def string_rec_def
        lb_string_table_def example_lbt_config_def section_ids_def pad4_def Let_def)
  then have len: "table_len ?rs \<le> 0x10000" "room 0x1002000 ?rs" by (simp_all add: room_def)
  have opt: "option_table_ok example_lbt_config (lbt_mem example_lbt_state) (table_base 0x500) 0x1002000 None" "option_tag_ok None"
    by (simp_all add: option_table_ok_def option_tag_ok_def example_lbt_config_def)
  have z: "\<forall>i. 16 * i < unat (table_base 0x500) \<longrightarrow> \<not> memcmp_eq (lbt_mem example_lbt_state) (of_nat (16 * i)) LBIO"
    by (simp add: example_lbt_state_def LBIO_def)
  from coreboot_table_reaches_payload [OF r(1) _ _ _ z _ str opt refl len refl, of ?lp info] r(1)
  show "\<exists>e s' info'. write_coreboot_table example_lbt_config example_ram_tree 0 0x500 0 0x1002000 example_lbt_state = Some (e, s')
    \<and> get_coreboot_info ?lp (virtual_view 0x100000 (lbt_mem s')) info = Some (0, info')
    \<and> info_correct example_lbt_config ?lp (virtual_view 0x100000 (lbt_mem s')) (lbt_bm s') example_cbmem info'"
    by (simp add: b example_lbt_state_def)
qed

end
