(* ===== verification/Vprintf.thy ===== *)
theory Vprintf
  imports Prelude
begin

text \<open>
  The formatted output of the firmware, \<^verbatim>\<open>src/console/vtxprintf.c\<close> and \<^verbatim>\<open>src/console/vsprintf.c\<close>.

  The callback \<^verbatim>\<open>tx_byte\<close> is a function on its data.  A C string is the list of its bytes without the
  terminating zero; \<^verbatim>\<open>*fmt\<close> is zero at its end.  \<^verbatim>\<open>va_list\<close> is the list of the remaining arguments: on this
  machine \<^verbatim>\<open>int\<close>, \<^verbatim>\<open>long\<close> and \<^verbatim>\<open>size_t\<close> have 32 bits, so one constructor holds them.  An argument that is
  missing or of another kind is undefined in C, and \<open>None\<close>.  A width or precision in the format is read into an
  \<^verbatim>\<open>int\<close> of 32 bits, with the wrap-around of the machine (C leaves the overflow undefined); what the code then
  does with counters and widths are mathematical integers: their overflow is undefined too.
\<close>

section \<open>Sending bytes\<close>

type_synonym 's txfun = "u8 \<Rightarrow> 's \<Rightarrow> 's"

text \<open>The state is the number of bytes sent so far and the data of the callback.\<close>

definition call_tx :: "'s txfun \<Rightarrow> u8 \<Rightarrow> nat \<times> 's \<Rightarrow> nat \<times> 's" where
  "call_tx tx x st = (fst st + 1, tx x (snd st))"

text \<open>\<^verbatim>\<open>while (lo < size--) call_tx(c)\<close>, with the value that \<^verbatim>\<open>size\<close> has after the loop.\<close>

function tx_while :: "'s txfun \<Rightarrow> u8 \<Rightarrow> int \<Rightarrow> int \<Rightarrow> nat \<times> 's \<Rightarrow> int \<times> nat \<times> 's" where
  "tx_while tx c lo sz st = (if lo < sz then tx_while tx c lo (sz - 1) (call_tx tx c st) else (sz - 1, st))"
  by pat_completeness auto
termination by (relation "measure (\<lambda>(tx, c, lo, sz, st). nat (sz - lo))") auto

text \<open>\<^verbatim>\<open>while (--size > 0) call_tx(c)\<close>.\<close>

function tx_predec :: "'s txfun \<Rightarrow> u8 \<Rightarrow> int \<Rightarrow> nat \<times> 's \<Rightarrow> int \<times> nat \<times> 's" where
  "tx_predec tx c sz st = (if 0 < sz - 1 then tx_predec tx c (sz - 1) (call_tx tx c st) else (sz - 1, st))"
  by pat_completeness auto
termination by (relation "measure (\<lambda>(tx, c, sz, st). nat sz)") auto

declare tx_while.simps [simp del] tx_predec.simps [simp del]

text \<open>\<^verbatim>\<open>while (i-- > 0) call_tx(tmp[i])\<close>.\<close>

primrec tx_tmp :: "'s txfun \<Rightarrow> u8 list \<Rightarrow> nat \<Rightarrow> nat \<times> 's \<Rightarrow> nat \<times> 's" where
  "tx_tmp tx tmp 0 st = st"
| "tx_tmp tx tmp (Suc i) st = tx_tmp tx tmp i (call_tx tx (tmp ! i) st)"

text \<open>\<^verbatim>\<open>for (i = 0; i < len; ++i) call_tx(*s++)\<close> over the first \<^verbatim>\<open>len\<close> bytes of the string.\<close>

definition tx_bytes :: "'s txfun \<Rightarrow> u8 list \<Rightarrow> nat \<times> 's \<Rightarrow> nat \<times> 's" where
  "tx_bytes tx bs st = fold (call_tx tx) bs st"

section \<open>Numbers\<close>

definition ascii :: "string \<Rightarrow> u8 list" where "ascii s = map of_char s"

definition is_digit :: "u8 \<Rightarrow> bool" where
  "is_digit c \<longleftrightarrow> 0x30 \<le> c \<and> c \<le> 0x39"

text \<open>The value read so far, an \<^verbatim>\<open>int\<close>, is an argument; the result holds the rest of the string.\<close>

primrec skip_digits :: "u8 list \<Rightarrow> u32 \<Rightarrow> u32 \<times> u8 list" where
  "skip_digits [] i = (i, [])"
| "skip_digits (c # s) i = (if is_digit c then skip_digits s (i * 10 + ucast c - 0x30) else (i, c # s))"

definition skip_atoi :: "u8 list \<Rightarrow> int \<times> u8 list" where
  "skip_atoi s = (let (i, s) = skip_digits s 0 in (sint i, s))"

abbreviation (input) ZEROPAD :: u32 where "ZEROPAD \<equiv> 1"
abbreviation (input) SIGN :: u32 where "SIGN \<equiv> 2"
abbreviation (input) PLUS :: u32 where "PLUS \<equiv> 4"
abbreviation (input) SPACE :: u32 where "SPACE \<equiv> 8"
abbreviation (input) LEFT :: u32 where "LEFT \<equiv> 16"
abbreviation (input) SPECIAL :: u32 where "SPECIAL \<equiv> 32"
abbreviation (input) LARGE :: u32 where "LARGE \<equiv> 64"

definition digits_of :: "u32 \<Rightarrow> u8 list" where
  "digits_of type = (if type AND LARGE \<noteq> 0 then ascii ''0123456789ABCDEFGHIJKLMNOPQRSTUVWXYZ''
                     else ascii ''0123456789abcdefghijklmnopqrstuvwxyz'')"

text \<open>
  The loop that stores the digits, lowest first.  Its caller has returned for a base below two, where it would
  not end.
\<close>

function num_digits :: "u8 list \<Rightarrow> u64 \<Rightarrow> u64 \<Rightarrow> u8 list \<Rightarrow> u8 list" where
  "num_digits digits base num tmp =
     (if num = 0 \<or> base < 2 then tmp else num_digits digits base (num div base) (tmp @ [digits ! unat (num mod base)]))"
  by pat_completeness auto
termination
proof (relation "measure (\<lambda>(digits, base, num, tmp). unat num)", goal_cases)
  case (2 digits base num tmp)
  then have "num \<noteq> 0" "2 \<le> unat base" by (auto simp: word_less_nat_alt not_less)
  then show ?case by (simp add: unat_div unat_eq_zero unat_gt_0)
qed simp

declare num_digits.simps [simp del]

definition number_sign :: "u32 \<Rightarrow> u64 \<Rightarrow> int \<Rightarrow> u8 \<times> u64 \<times> int" where
  "number_sign type num sz =
     (if type AND SIGN \<noteq> 0 then
        if num <s 0 then (0x2d, - num, sz - 1)
        else if type AND PLUS \<noteq> 0 then (0x2b, num, sz - 1)
        else if type AND SPACE \<noteq> 0 then (0x20, num, sz - 1)
        else (0, num, sz)
      else (0, num, sz))"

definition number :: "'s txfun \<Rightarrow> u64 \<Rightarrow> int \<Rightarrow> int \<Rightarrow> int \<Rightarrow> u32 \<Rightarrow> 's \<Rightarrow> nat \<times> 's" where
  "number tx num base sz precision type data =
     (let digits = digits_of type;
          type = (if type AND LEFT \<noteq> 0 then type AND NOT ZEROPAD else type)
      in if base < 2 \<or> 36 < base then (0, data) else
      let c = (if type AND ZEROPAD \<noteq> 0 then 0x30 else 0x20 :: u8);
          (sign, num, sz) = number_sign type num sz;
          sz = (if type AND SPECIAL \<noteq> 0 then if base = 16 then sz - 2 else if base = 8 then sz - 1 else sz
                  else sz);
          tmp = (if num = 0 then [0x30] else num_digits digits (of_int base) num []);
          i = int (length tmp);
          precision = (if precision < i then i else precision);
          sz = sz - precision;
          (sz, st) = (if type AND (ZEROPAD + LEFT) = 0 then tx_while tx 0x20 0 sz (0, data) else (sz, (0, data)));
          st = (if sign \<noteq> 0 then call_tx tx sign st else st);
          st = (if type AND SPECIAL \<noteq> 0 then
                  if base = 8 then call_tx tx 0x30 st
                  else if base = 16 then call_tx tx (digits ! 33) (call_tx tx 0x30 st) else st
                else st);
          (sz, st) = (if type AND LEFT = 0 then tx_while tx c 0 sz st else (sz, st));
          (precision, st) = tx_while tx 0x30 i precision st;
          st = tx_tmp tx tmp (length tmp) st;
          (sz, st) = tx_while tx 0x20 0 sz st
      in st)"

section \<open>Formats\<close>

datatype va_arg =
    VaWord u32
  | VaLongLong u64
  | VaString "u8 list option"
  | VaPointer u32

fun va_word :: "va_arg list \<Rightarrow> (u32 \<times> va_arg list) option" where
  "va_word (VaWord w # args) = Some (w, args)"
| "va_word args = None"

fun va_longlong :: "va_arg list \<Rightarrow> (u64 \<times> va_arg list) option" where
  "va_longlong (VaLongLong w # args) = Some (w, args)"
| "va_longlong args = None"

fun va_string :: "va_arg list \<Rightarrow> (u8 list option \<times> va_arg list) option" where
  "va_string (VaString s # args) = Some (s, args)"
| "va_string args = None"

fun va_pointer :: "va_arg list \<Rightarrow> (u32 \<times> va_arg list) option" where
  "va_pointer (VaPointer p # args) = Some (p, args)"
| "va_pointer args = None"

definition cur :: "u8 list \<Rightarrow> u8" where
  "cur fmt = (case fmt of [] \<Rightarrow> 0 | c # _ \<Rightarrow> c)"

text \<open>The flags: the loop at \<^verbatim>\<open>repeat\<close>, from the byte after the percent sign.\<close>

definition flag_of :: "u8 \<Rightarrow> u32" where
  "flag_of c = (if c = 0x2d then LEFT else if c = 0x2b then PLUS else if c = 0x20 then SPACE
                else if c = 0x23 then SPECIAL else if c = 0x30 then ZEROPAD else 0)"

primrec vtx_flags :: "u8 list \<Rightarrow> u32 \<Rightarrow> u32 \<times> u8 list" where
  "vtx_flags [] flags = (flags, [])"
| "vtx_flags (c # fmt) flags = (if flag_of c \<noteq> 0 then vtx_flags fmt (flags OR flag_of c) else (flags, c # fmt))"

definition vtx_width :: "u8 list \<Rightarrow> va_arg list \<Rightarrow> u32 \<Rightarrow> (int \<times> u32 \<times> u8 list \<times> va_arg list) option" where
  "vtx_width fmt args flags =
     (if is_digit (cur fmt) then let (w, fmt) = skip_atoi fmt in Some (w, flags, fmt, args)
      else if cur fmt = 0x2a then
        do { (w, args) \<leftarrow> va_word args;
             Some (if w <s 0 then (- sint w, flags OR LEFT, tl fmt, args) else (sint w, flags, tl fmt, args)) }
      else Some (- 1, flags, fmt, args))"

definition vtx_precision :: "u8 list \<Rightarrow> va_arg list \<Rightarrow> (int \<times> u8 list \<times> va_arg list) option" where
  "vtx_precision fmt args =
     (if cur fmt = 0x2e then
        let fmt = tl fmt in
        do { (p, fmt, args) \<leftarrow>
               (if is_digit (cur fmt) then let (p, fmt) = skip_atoi fmt in Some (p, fmt, args)
                else if cur fmt = 0x2a then do { (p, args) \<leftarrow> va_word args; Some (sint p, tl fmt, args) }
                else Some (- 1, fmt, args));
             Some (if p < 0 then 0 else p, fmt, args) }
      else Some (- 1, fmt, args))"

text \<open>The qualifier is a character, or zero where the code has -1.\<close>

definition vtx_qualifier :: "u8 list \<Rightarrow> u8 \<times> u8 list" where
  "vtx_qualifier fmt =
     (if cur fmt \<in> {0x68, 0x6c, 0x4c, 0x7a} then
        let qualifier = cur fmt; fmt = tl fmt;
            (qualifier, fmt) = (if cur fmt = 0x6c then (0x4c, tl fmt) else (qualifier, fmt))
        in if cur fmt = 0x68 then (0x48, tl fmt) else (qualifier, fmt)
      else (0, fmt))"

definition vtx_strnlen :: "u8 list \<Rightarrow> int \<Rightarrow> nat" where
  "vtx_strnlen s n = (if n < 0 then length s else min (length s) (nat n))"

definition vtx_char :: "'s txfun \<Rightarrow> u32 \<Rightarrow> int \<Rightarrow> u8 \<Rightarrow> nat \<times> 's \<Rightarrow> nat \<times> 's" where
  "vtx_char tx flags field_width c st =
     (let (field_width, st) = (if flags AND LEFT = 0 then tx_predec tx 0x20 field_width st else (field_width, st));
          st = call_tx tx c st;
          (field_width, st) = tx_predec tx 0x20 field_width st
      in st)"

definition vtx_string :: "'s txfun \<Rightarrow> u32 \<Rightarrow> int \<Rightarrow> int \<Rightarrow> u8 list option \<Rightarrow> nat \<times> 's \<Rightarrow> nat \<times> 's" where
  "vtx_string tx flags field_width precision s st =
     (let s = (case s of None \<Rightarrow> ascii ''<NULL>'' | Some s \<Rightarrow> s);
          len = vtx_strnlen s precision;
          (field_width, st) = (if flags AND LEFT = 0 then tx_while tx 0x20 (int len) field_width st else (field_width, st));
          st = tx_bytes tx (take len s) st;
          (field_width, st) = tx_while tx 0x20 (int len) field_width st
      in st)"

text \<open>The value that the qualifier and the sign flag select, extended to 64 bits.\<close>

definition vtx_num :: "u8 \<Rightarrow> u32 \<Rightarrow> va_arg list \<Rightarrow> (u64 \<times> va_arg list) option" where
  "vtx_num qualifier flags args =
     (if qualifier = 0x4c then va_longlong args
      else do { (w, args) \<leftarrow> va_word args;
        Some (if qualifier = 0x6c then ucast w
              else if qualifier = 0x7a then ucast w
              else if qualifier = 0x68 then
                if flags AND SIGN \<noteq> 0 then scast (ucast w :: u16) else ucast (ucast w :: u16)
              else if qualifier = 0x48 then
                if flags AND SIGN \<noteq> 0 then scast (ucast w :: u8) else ucast (ucast w :: u8)
              else if flags AND SIGN \<noteq> 0 then scast w
              else ucast w, args) })"

definition vtx_number :: "'s txfun \<Rightarrow> u64 \<Rightarrow> int \<Rightarrow> int \<Rightarrow> int \<Rightarrow> u32 \<Rightarrow> nat \<times> 's \<Rightarrow> nat \<times> 's" where
  "vtx_number tx num base field_width precision flags st =
     (let (n, data) = number tx num base field_width precision flags (snd st) in (fst st + n, data))"

text \<open>\<open>%n\<close> stores the count: the address, the number of bytes stored and the value, in order.\<close>

type_synonym count_store = "u32 \<times> nat \<times> nat"

text \<open>
  The conversion character: \<open>d\<close> is the text from it on.  The result is the text after it, with the state.
\<close>

definition vtx_convert :: "'s txfun \<Rightarrow> u8 list \<Rightarrow> va_arg list \<Rightarrow> u32 \<Rightarrow> int \<Rightarrow> int \<Rightarrow> u8 \<Rightarrow> count_store list \<Rightarrow> nat \<times> 's
    \<Rightarrow> (u8 list \<times> va_arg list \<times> count_store list \<times> nat \<times> 's) option" where
  "vtx_convert tx fmt args flags field_width precision qualifier stores st =
     (if cur fmt = 0x63 then
        do { (c, args) \<leftarrow> va_word args; Some (tl fmt, args, stores, vtx_char tx flags field_width (ucast c) st) }
      else if cur fmt = 0x73 then
        do { (s, args) \<leftarrow> va_string args; Some (tl fmt, args, stores, vtx_string tx flags field_width precision s st) }
      else if cur fmt = 0x70 then
        do { (p, args) \<leftarrow> va_pointer args;
             let (field_width, flags) = (if field_width = - 1 then (8, flags OR ZEROPAD) else (field_width, flags)) in
             Some (tl fmt, args, stores, vtx_number tx (ucast p) 16 field_width precision flags st) }
      else if cur fmt = 0x6e then
        do { (p, args) \<leftarrow> va_pointer args;
             Some (tl fmt, args, stores @ [(p, if qualifier = 0x4c then 8 else 4, fst st)], st) }
      else if cur fmt = 0x25 then Some (tl fmt, args, stores, call_tx tx 0x25 st)
      else if cur fmt \<in> {0x6f, 0x58, 0x78, 0x64, 0x69, 0x75} then
        let base = (if cur fmt = 0x6f then 8 else if cur fmt \<in> {0x58, 0x78} then 16 else 10);
            flags = (if cur fmt = 0x58 then flags OR LARGE else if cur fmt \<in> {0x64, 0x69} then flags OR SIGN else flags) in
        do { (num, args) \<leftarrow> vtx_num qualifier flags args;
             Some (tl fmt, args, stores, vtx_number tx num base field_width precision flags st) }
      else
        let st = call_tx tx 0x25 st in
        Some (if cur fmt \<noteq> 0 then (tl fmt, args, stores, call_tx tx (cur fmt) st) else (fmt, args, stores, st)))"

text \<open>One conversion, from the text after the percent sign.\<close>

definition vtx_spec :: "'s txfun \<Rightarrow> u8 list \<Rightarrow> va_arg list \<Rightarrow> count_store list \<Rightarrow> nat \<times> 's
    \<Rightarrow> (u8 list \<times> va_arg list \<times> count_store list \<times> nat \<times> 's) option" where
  "vtx_spec tx fmt args stores st =
     do { let (flags, fmt) = vtx_flags fmt 0;
          (field_width, flags, fmt, args) \<leftarrow> vtx_width fmt args flags;
          (precision, fmt, args) \<leftarrow> vtx_precision fmt args;
          let (qualifier, fmt) = vtx_qualifier fmt;
          vtx_convert tx fmt args flags field_width precision qualifier stores st }"

lemma skip_digits_length: "length (snd (skip_digits s i)) \<le> length s"
  by (induction s arbitrary: i) (auto simp: le_SucI)

lemma skip_atoi_length: "skip_atoi s = (w, s') \<Longrightarrow> length s' \<le> length s"
  using skip_digits_length[of s 0] by (auto simp: skip_atoi_def split: prod.splits)

lemma vtx_flags_length: "length (snd (vtx_flags fmt flags)) \<le> length fmt"
  by (induction fmt arbitrary: flags) (auto simp: le_SucI)

lemma vtx_width_length: "vtx_width fmt args flags = Some (w, flags', fmt', args') \<Longrightarrow> length fmt' \<le> length fmt"
  using skip_atoi_length[of fmt]
  by (auto simp: vtx_width_def split: if_splits prod.splits Option.bind_splits)

lemma vtx_precision_length:
  assumes "vtx_precision fmt args = Some (p, fmt', args')" shows "length fmt' \<le> length fmt"
proof -
  have "length s \<le> length fmt" if "skip_atoi (tl fmt) = (w, s)" for w s using skip_atoi_length[OF that] by simp
  with assms show ?thesis
    by (fastforce simp: vtx_precision_def Let_def split: if_splits prod.splits Option.bind_splits)
qed

lemma vtx_qualifier_length: "length (snd (vtx_qualifier fmt)) \<le> length fmt"
  by (simp add: vtx_qualifier_def Let_def)

lemma vtx_convert_length:
  "vtx_convert tx fmt args flags w p q stores st = Some (fmt', r) \<Longrightarrow> length fmt' \<le> length fmt"
  by (auto simp: vtx_convert_def Let_def split: if_splits prod.splits Option.bind_splits)

lemma vtx_qualified_length:
  "vtx_convert tx (snd (vtx_qualifier fmt)) args flags w p q stores st = Some (fmt', r) \<Longrightarrow> length fmt' \<le> length fmt"
  by (blast dest: vtx_convert_length intro: order_trans vtx_qualifier_length)

lemma vtx_spec_length: "vtx_spec tx fmt args stores st = Some (fmt', r) \<Longrightarrow> length fmt' \<le> length fmt"
  using vtx_flags_length[of fmt 0]
  by (auto simp: vtx_spec_def Let_def case_prod_beta split: Option.bind_splits
      dest!: vtx_width_length vtx_precision_length vtx_qualified_length)

function vtx_loop :: "'s txfun \<Rightarrow> u8 list \<Rightarrow> va_arg list \<Rightarrow> count_store list \<Rightarrow> nat \<times> 's
    \<Rightarrow> (count_store list \<times> nat \<times> 's) option" where
  "vtx_loop tx [] args stores st = Some (stores, st)"
| "vtx_loop tx (c # fmt) args stores st =
     (if c \<noteq> 0x25 then vtx_loop tx fmt args stores (call_tx tx c st)
      else case vtx_spec tx fmt args stores st of
        None \<Rightarrow> None
      | Some (fmt, args, stores, st) \<Rightarrow> vtx_loop tx fmt args stores st)"
  by pat_completeness auto
termination
  by (relation "measure (\<lambda>(tx, fmt, args, stores, st). length fmt)") (auto dest!: vtx_spec_length)

text \<open>The result: the stores of \<open>%n\<close>, the count that the function returns, and the data of the callback.\<close>

definition vtxprintf :: "'s txfun \<Rightarrow> u8 list \<Rightarrow> va_arg list \<Rightarrow> 's \<Rightarrow> (count_store list \<times> nat \<times> 's) option" where
  "vtxprintf tx fmt args data = vtx_loop tx fmt args [] (0, data)"

section \<open>Printing into a buffer\<close>

record vsnprintf_context =
  str_buf :: u32
  buf_limit :: u32

text \<open>The data of the callback is the context and the memory; \<^verbatim>\<open>str_buf\<close> is an address.\<close>

definition str_tx_byte :: "(vsnprintf_context \<times> (u32 \<Rightarrow> u8)) txfun" where
  "str_tx_byte byte = (\<lambda>(ctx, mem).
     if buf_limit ctx \<noteq> 0 then
       (ctx\<lparr>str_buf := str_buf ctx + 1, buf_limit := buf_limit ctx - 1\<rparr>, mem(str_buf ctx := byte))
     else (ctx, mem))"

definition vsnprintf :: "u32 \<Rightarrow> u32 \<Rightarrow> u8 list \<Rightarrow> va_arg list \<Rightarrow> (u32 \<Rightarrow> u8)
    \<Rightarrow> (count_store list \<times> nat \<times> (u32 \<Rightarrow> u8)) option" where
  "vsnprintf buf sz fmt args mem =
     do { let ctx = \<lparr>str_buf = buf, buf_limit = (if sz \<noteq> 0 then sz - 1 else 0)\<rparr>;
          (stores, i, ctx, mem) \<leftarrow> vtxprintf str_tx_byte fmt args (ctx, mem);
          Some (stores, i, if sz \<noteq> 0 then mem(str_buf ctx := 0) else mem) }"

definition snprintf :: "u32 \<Rightarrow> u32 \<Rightarrow> u8 list \<Rightarrow> va_arg list \<Rightarrow> (u32 \<Rightarrow> u8)
    \<Rightarrow> (count_store list \<times> nat \<times> (u32 \<Rightarrow> u8)) option" where
  "snprintf buf sz fmt args mem = vsnprintf buf sz fmt args mem"

section \<open>What is sent\<close>

definition sent :: "'s txfun \<Rightarrow> u8 list \<Rightarrow> nat \<times> 's \<Rightarrow> nat \<times> 's" where
  "sent tx bs st = (fst st + length bs, fold tx bs (snd st))"

named_theorems sends \<open>what the loops and conversions send\<close>

lemma sent_Nil [simp]: "sent tx [] st = st"
  by (simp add: sent_def)

lemma sent_sent [simp]: "sent tx bs' (sent tx bs st) = sent tx (bs @ bs') st"
  by (simp add: sent_def)

lemma call_tx_sent [sends]: "call_tx tx x st = sent tx [x] st"
  by (simp add: call_tx_def sent_def)

lemma replicate_nat_Suc: "lo < sz \<Longrightarrow> replicate (nat (sz - lo)) c = c # replicate (nat (sz - 1 - lo)) c"
  by (simp add: Suc_nat_eq_nat_zadd1 flip: replicate_Suc)

lemma tx_while_sent [sends]:
  "tx_while tx c lo sz st = (if lo < sz then lo - 1 else sz - 1, sent tx (replicate (nat (sz - lo)) c) st)"
proof (induction tx c lo sz st rule: tx_while.induct)
  case (1 tx c lo sz st)
  then show ?case
    by (subst tx_while.simps) (auto simp: replicate_nat_Suc call_tx_sent)
qed

lemma tx_predec_sent [sends]:
  "tx_predec tx c sz st = (if 1 < sz then 0 else sz - 1, sent tx (replicate (nat (sz - 1)) c) st)"
proof (induction tx c sz st rule: tx_predec.induct)
  case (1 tx c sz st)
  then show ?case
    using replicate_nat_Suc[of 1 sz c]
    by (subst tx_predec.simps) (auto simp: call_tx_sent)
qed

lemma tx_tmp_sent: "i \<le> length tmp \<Longrightarrow> tx_tmp tx tmp i st = sent tx (rev (take i tmp)) st"
  by (induction i arbitrary: st) (simp_all add: call_tx_sent take_Suc_conv_app_nth)

lemma tx_bytes_sent [sends]: "tx_bytes tx bs st = sent tx bs st"
  unfolding tx_bytes_def by (induction bs rule: rev_induct) (simp_all add: call_tx_sent)

section \<open>The layout of a number\<close>

text \<open>The digits of a natural number, highest first.\<close>

fun nat_digits :: "nat \<Rightarrow> nat \<Rightarrow> nat list" where
  "nat_digits b n = (if b < 2 \<or> n < b then [n] else nat_digits b (n div b) @ [n mod b])"

declare nat_digits.simps [simp del]

definition number_digits :: "u32 \<Rightarrow> int \<Rightarrow> nat \<Rightarrow> u8 list" where
  "number_digits type base n = map (\<lambda>d. digits_of type ! d) (nat_digits (nat base) n)"

lemma num_digits_append: "num_digits digits base num tmp = tmp @ num_digits digits base num []"
proof (induction "unat num" arbitrary: num tmp rule: less_induct)
  case less
  show ?case
  proof (cases "num = 0 \<or> base < 2")
    case True
    then show ?thesis by (simp add: num_digits.simps)
  next
    case False
    then have "unat (num div base) < unat num" by (simp add: unat_div unat_gt_0 word_less_nat_alt)
    note IH = less.hyps[OF this]
    show ?thesis
      using False IH[of "tmp @ [digits ! unat (num mod base)]"] IH[of "[digits ! unat (num mod base)]"]
      by (simp add: num_digits.simps[of _ _ num])
  qed
qed

lemma num_digits_nat:
  assumes "num \<noteq> 0" "2 \<le> base"
  shows "rev (num_digits digits base num []) = map ((!) digits) (nat_digits (unat base) (unat num))"
  using assms
proof (induction "unat num" arbitrary: num rule: less_induct)
  case less
  have b: "2 \<le> unat base" "\<not> base < 2" using less.prems(2) by (auto simp: word_le_nat_alt word_less_nat_alt)
  have step: "num_digits digits base num []
      = digits ! (unat num mod unat base) # num_digits digits base (num div base) []"
    using less.prems b by (subst num_digits.simps, subst num_digits_append) (simp add: unat_mod)
  show ?case
  proof (cases "num div base = 0")
    case True
    then have "unat num < unat base" using b by (simp add: unat_div word_unat_eq_iff div_eq_0_iff)
    moreover have "num_digits digits base 0 [] = []" by (simp add: num_digits.simps)
    ultimately show ?thesis using True step b by (simp add: nat_digits.simps[of _ "unat num"])
  next
    case False
    then have "unat num div unat base \<noteq> 0" by (simp add: unat_div word_unat_eq_iff)
    then have "unat base \<le> unat num" by (metis div_less not_le)
    moreover have "unat (num div base) < unat num"
      using less.prems b by (simp add: unat_div unat_gt_0)
    ultimately show ?thesis
      using less.hyps[OF _ False less.prems(2)] step b
      by (simp add: nat_digits.simps[of _ "unat num"] unat_div)
  qed
qed

text \<open>The sign and the magnitude that are printed: the signed value with the sign flag, else the unsigned value.\<close>

definition number_value :: "u32 \<Rightarrow> u64 \<Rightarrow> int" where
  "number_value type num = (if type AND SIGN \<noteq> 0 then sint num else uint num)"

definition number_prefix :: "u32 \<Rightarrow> u64 \<Rightarrow> int \<Rightarrow> u8 list" where
  "number_prefix type num base =
     (if type AND SIGN = 0 then []
      else if sint num < 0 then ascii ''-''
      else if type AND PLUS \<noteq> 0 then ascii ''+''
      else if type AND SPACE \<noteq> 0 then ascii '' ''
      else []) @
     (if type AND SPECIAL = 0 then []
      else if base = 8 then ascii ''0''
      else if base = 16 then if type AND LARGE \<noteq> 0 then ascii ''0X'' else ascii ''0x''
      else [])"

definition number_body :: "u32 \<Rightarrow> u64 \<Rightarrow> int \<Rightarrow> int \<Rightarrow> u8 list" where
  "number_body type num base precision =
     (let ds = number_digits type base (nat \<bar>number_value type num\<bar>)
      in replicate (nat (precision - int (length ds))) 0x30 @ ds)"

definition number_text :: "u64 \<Rightarrow> int \<Rightarrow> int \<Rightarrow> int \<Rightarrow> u32 \<Rightarrow> u8 list" where
  "number_text num base sz precision type =
     (let prefix = number_prefix type num base; body = number_body type num base precision;
          pad = nat (sz - int (length (prefix @ body)))
      in if type AND LEFT \<noteq> 0 then prefix @ body @ replicate pad 0x20
         else if type AND ZEROPAD \<noteq> 0 then prefix @ replicate pad 0x30 @ body
         else replicate pad 0x20 @ prefix @ body)"

lemma unat_uminus_neg: "(x :: u64) <s 0 \<Longrightarrow> unat (- x) = nat (- sint x)"
proof -
  assume "x <s 0"
  then have "sint x < 0" by (simp add: word_sless_alt)
  moreover have "- (2 ^ 63) \<le> sint x" using sint_greater_eq[of x] by simp
  moreover have "uint (word_of_int (- sint x) :: u64) = - sint x mod 2 ^ 64" by (simp only: uint_word_of_int) simp
  moreover have "word_of_int (- sint x) = - x" by simp
  ultimately have "uint (- x) = - sint x mod 2 ^ 64" "0 \<le> - sint x" "- sint x < 2 ^ 64" by simp_all
  then have "uint (- x) = - sint x" by (simp only: mod_pos_pos_trivial)
  then show ?thesis by (simp add: nat_uint_eq[symmetric])
qed

lemma flags_17: "type AND 17 = 0 \<longleftrightarrow> type AND 1 = 0 \<and> type AND 16 = (0 :: u32)"
proof -
  have "type AND 17 = (type AND 1) OR (type AND 16)"
    by (simp flip: bit.conj_disj_distrib)
  then show ?thesis by (simp add: or_eq_0_iff)
qed

lemma digits_of_33: "digits_of type ! 33 = (if type AND LARGE \<noteq> 0 then 0x58 else 0x78)"
  by (simp add: digits_of_def ascii_def numeral_eq_Suc)

lemma digits_of_0: "digits_of type ! 0 = 0x30"
  by (simp add: digits_of_def ascii_def)

lemma number_digits_num:
  assumes "2 \<le> base" "base \<le> 36"
  shows "rev (if num = 0 then [0x30] else num_digits (digits_of type) (of_int base) num []) = number_digits type base (unat num)"
proof -
  have u: "uint (of_int base :: u64) = base" using assms by (simp add: uint_word_of_int)
  then have n: "unat (of_int base :: u64) = nat base" by (simp add: nat_uint_eq[symmetric])
  then have b: "2 \<le> (of_int base :: u64)" using assms by (simp add: word_le_nat_alt le_nat_iff)
  show ?thesis
    using num_digits_nat[OF _ b] assms
    by (simp add: n number_digits_def digits_of_0 nat_digits.simps[of _ 0])
qed

lemma sint_nonneg: "\<not> (x :: u64) <s 0 \<Longrightarrow> unat x = nat (sint x) \<and> 0 \<le> sint x"
  using sint_less[of x] by (simp add: word_sless_alt uint_sint nat_uint_eq[symmetric] take_bit_int_eq_self flip: not_less)

lemma number_sign_magnitude:
  "number_sign type num sz = (sign, n, sz') \<Longrightarrow> unat n = nat \<bar>number_value type num\<bar>"
  using sint_nonneg[of num]
  by (auto simp: number_sign_def number_value_def unat_uminus_neg nat_uint_eq word_sless_alt split: if_splits)

definition special_prefix :: "u32 \<Rightarrow> int \<Rightarrow> u8 list" where
  "special_prefix type base =
     (if type AND SPECIAL = 0 then [] else if base = 8 then [0x30]
      else if base = 16 then [0x30, digits_of type ! 33] else [])"

lemma number_prefix_sign:
  assumes "number_sign type num sz = (sign, n, sz')"
  shows "number_prefix type num base = (if sign \<noteq> 0 then [sign] else []) @ special_prefix type base"
    and "sz' = sz - (if sign \<noteq> 0 then 1 else 0)"
  using assms
  by (auto simp: number_sign_def number_prefix_def special_prefix_def digits_of_33 ascii_def word_sless_alt split: if_splits)

lemma number_sent:
  assumes "2 \<le> base" "base \<le> 36"
  shows "number tx num base sz precision type data = sent tx (number_text num base sz precision type) (0, data)"
proof -
  obtain sign n sz' where sg: "number_sign type num sz = (sign, n, sz')" by (cases "number_sign type num sz")
  define type' where "type' = (if type AND LEFT \<noteq> 0 then type AND NOT ZEROPAD else type)"
  have fl: "type' AND 1 = (if type AND LEFT \<noteq> 0 then 0 else type AND 1)" "type' AND 2 = type AND 2"
    "type' AND 4 = type AND 4" "type' AND 8 = type AND 8" "type' AND 16 = type AND 16" "type' AND 32 = type AND 32"
    by (simp_all add: type'_def and.assoc)
  have sg': "number_sign type' num sz = (sign, n, sz')"
    using sg unfolding number_sign_def fl .
  define tmp where "tmp = (if n = 0 then [0x30] else num_digits (digits_of type) (of_int base) n [])"
  have tmp: "rev tmp = number_digits type base (nat \<bar>number_value type num\<bar>)"
    using number_digits_num[OF assms] number_sign_magnitude[OF sg] by (simp add: tmp_def)
  define p where "p = (if precision < int (length tmp) then int (length tmp) else precision)"
  define pre where "pre = number_prefix type num base"
  define body where "body = replicate (nat (p - int (length tmp))) 0x30 @ rev tmp"
  have body: "body = number_body type num base precision"
    unfolding body_def number_body_def Let_def tmp[symmetric] p_def by simp
  have len: "int (length pre) + int (length body) = int (length (if sign \<noteq> 0 then [sign] else []))
      + int (length (special_prefix type base)) + p"
    by (simp add: pre_def body_def number_prefix_sign(1)[OF sg] p_def)
  have T: "number_text num base sz precision type =
      (let pad = nat (sz - int (length pre) - int (length body))
      in if type AND LEFT \<noteq> 0 then pre @ body @ replicate pad 0x20
         else if type AND ZEROPAD \<noteq> 0 then pre @ replicate pad 0x30 @ body
         else replicate pad 0x20 @ pre @ body)"
    by (simp add: number_text_def body pre_def Let_def diff_diff_eq)
  have spec: "\<And>st. (if type' AND SPECIAL \<noteq> 0 then if base = 8 then call_tx tx 0x30 st
      else if base = 16 then call_tx tx (digits_of type ! 33) (call_tx tx 0x30 st) else st else st)
      = sent tx (special_prefix type base) st"
    and spec_sz: "(if type' AND SPECIAL \<noteq> 0 then if base = 16 then sz' - 2 else if base = 8 then sz' - 1 else sz' else sz')
      = sz' - int (length (special_prefix type base))"
    and sign: "\<And>st. (if sign \<noteq> 0 then call_tx tx sign st else st) = sent tx (if sign \<noteq> 0 then [sign] else []) st"
    by (simp_all add: special_prefix_def call_tx_sent fl)
  have base: "(base < 2 \<or> 36 < base) = False" using assms by simp
  have number: "number tx num base sz precision type data =
     (case if type' AND 17 = 0 then tx_while tx 0x20 0 (sz' - int (length (special_prefix type base)) - p) (0, data)
           else (sz' - int (length (special_prefix type base)) - p, (0, data)) of (sz, st) \<Rightarrow>
      case if type' AND LEFT = 0 then tx_while tx (if type' AND ZEROPAD \<noteq> 0 then 0x30 else 0x20) 0 sz (sent tx pre st)
           else (sz, sent tx pre st) of (sz, st) \<Rightarrow> sent tx (replicate (nat sz) 0x20) (sent tx body st))"
    unfolding number_def Let_def type'_def[symmetric] base if_False sg' prod.case tmp_def[symmetric] p_def[symmetric]
      spec spec_sz sign pre_def number_prefix_sign(1)[OF sg] body_def
    by (simp add: sends tx_tmp_sent case_prod_beta)
  have "sz' - int (length (special_prefix type base)) - p = sz - int (length pre) - int (length body)"
    using len number_prefix_sign(2)[OF sg] by (simp split: if_splits)
  then show ?thesis
    by (simp add: number T fl flags_17 sends Let_def)
qed

section \<open>The callback sees the text\<close>

text \<open>The callback that appends to a list of bytes.\<close>

definition collect :: "u8 list txfun" where
  "collect b bs = bs @ [b]"

lemma fold_collect [simp]: "fold collect bs cs = cs @ bs"
  by (induction bs arbitrary: cs) (simp_all add: collect_def)

text \<open>The state of any callback, beside that of the collecting one.\<close>

definition tracks :: "'s txfun \<Rightarrow> 's \<Rightarrow> nat \<times> u8 list \<Rightarrow> nat \<times> 's" where
  "tracks tx data st = (fst st, fold tx (snd st) data)"

lemma tracks_sent [sends]: "sent tx bs (tracks tx data st) = tracks tx data (sent collect bs st)"
  by (simp add: sent_def tracks_def)

lemma fst_tracks [simp]: "fst (tracks tx data st) = fst st"
  by (simp add: tracks_def)

lemma vtx_char_sent [sends]:
  "vtx_char tx flags w c st = sent tx (let pad = replicate (nat (w - 1)) 0x20 in if flags AND LEFT = 0 then pad @ [c] else c # pad) st"
  by (auto simp: vtx_char_def sends Let_def)

definition string_text :: "u32 \<Rightarrow> int \<Rightarrow> int \<Rightarrow> u8 list option \<Rightarrow> u8 list" where
  "string_text flags w precision s =
     (let s = (case s of None \<Rightarrow> ascii ''<NULL>'' | Some s \<Rightarrow> s); body = take (vtx_strnlen s precision) s;
          pad = replicate (nat (w - int (length body))) 0x20
      in if flags AND LEFT = 0 then pad @ body else body @ pad)"

lemma vtx_strnlen_le: "vtx_strnlen s n \<le> length s"
  by (simp add: vtx_strnlen_def)

lemma vtx_string_sent [sends]: "vtx_string tx flags w precision s st = sent tx (string_text flags w precision s) st"
  using vtx_strnlen_le[of _ precision]
  by (auto simp: vtx_string_def string_text_def sends Let_def min_absorb2)

lemma vtx_number_sent [sends]:
  "2 \<le> base \<Longrightarrow> base \<le> 36 \<Longrightarrow> vtx_number tx num base w precision flags st = sent tx (number_text num base w precision flags) st"
  by (simp add: vtx_number_def number_sent sent_def)

definition tracked :: "'s txfun \<Rightarrow> 's \<Rightarrow> 'a \<times> 'b \<times> 'c \<times> nat \<times> u8 list \<Rightarrow> 'a \<times> 'b \<times> 'c \<times> nat \<times> 's" where
  "tracked tx data = (\<lambda>(a, b, c, st). (a, b, c, tracks tx data st))"

lemma map_option_bind: "map_option f (x \<bind> g) = x \<bind> (\<lambda>y. map_option f (g y))"
  by (cases x) simp_all

lemmas tracks_option = map_option_bind if_distrib[of "map_option _"] case_prod_beta tracked_def

lemma vtx_convert_tracks:
  "vtx_convert tx fmt args flags w precision q stores (tracks tx data st)
   = map_option (tracked tx data) (vtx_convert collect fmt args flags w precision q stores st)"
  unfolding vtx_convert_def Let_def tracks_option
  by (simp add: sends)

lemma vtx_spec_tracks:
  "vtx_spec tx fmt args stores (tracks tx data st) = map_option (tracked tx data) (vtx_spec collect fmt args stores st)"
  unfolding vtx_spec_def vtx_convert_tracks Let_def tracks_option ..

lemma vtx_loop_tracks:
  "vtx_loop tx fmt args stores (tracks tx data st)
   = map_option (\<lambda>(stores, st). (stores, tracks tx data st)) (vtx_loop collect fmt args stores st)"
proof (induction collect fmt args stores st rule: vtx_loop.induct)
  case (2 c fmt args stores st)
  then show ?case
    by (simp add: sends vtx_spec_tracks tracked_def split: option.splits)
qed simp

lemma vtx_convert_sent:
  "vtx_convert tx fmt args flags w precision q stores st = Some (fmt', args', stores', st') \<Longrightarrow> \<exists>bs. st' = sent tx bs st"
  by (auto simp: vtx_convert_def Let_def case_prod_beta sends bind_eq_Some_conv split: if_splits) (metis sent_Nil)+

lemma vtx_spec_sent: "vtx_spec tx fmt args stores st = Some (fmt', args', stores', st') \<Longrightarrow> \<exists>bs. st' = sent tx bs st"
  by (auto simp: vtx_spec_def Let_def case_prod_beta bind_eq_Some_conv dest: vtx_convert_sent)

lemma vtx_loop_sent: "vtx_loop tx fmt args stores st = Some (stores', st') \<Longrightarrow> \<exists>bs. st' = sent tx bs st"
proof (induction tx fmt args stores st rule: vtx_loop.induct)
  case (1 tx args stores st)
  then show ?case by (metis sent_Nil option.inject prod.inject vtx_loop.simps(1))
next
  case (2 tx c fmt args stores st)
  then show ?case
    by (fastforce simp: call_tx_sent split: if_splits option.splits dest: vtx_spec_sent)
qed

definition printed :: "u8 list \<Rightarrow> va_arg list \<Rightarrow> (count_store list \<times> u8 list) option" where
  "printed fmt args = map_option (\<lambda>(stores, n, T). (stores, T)) (vtxprintf collect fmt args [])"

lemma vtxprintf_printed:
  "vtxprintf tx fmt args data = map_option (\<lambda>(stores, T). (stores, length T, fold tx T data)) (printed fmt args)"
proof -
  have "vtxprintf tx fmt args data
      = map_option (\<lambda>(stores, st). (stores, tracks tx data st)) (vtxprintf collect fmt args [])"
    using vtx_loop_tracks[of tx fmt args "[]" data "(0, [])"] by (simp add: vtxprintf_def tracks_def)
  moreover have "n = length T" if "vtxprintf collect fmt args [] = Some (stores, n, T)" for stores n T
    using vtx_loop_sent[of collect fmt args "[]" "(0, [])" stores "(n, T)"] that by (auto simp: vtxprintf_def sent_def)
  ultimately show ?thesis
    by (cases "vtxprintf collect fmt args []") (auto simp: printed_def tracks_def)
qed

section \<open>The buffer\<close>

lemma unat_less_32: "unat (x :: u32) < 2 ^ 32"
  using unsigned_less[of x] by simp

lemma unat_minus_1_32: "(x :: u32) \<noteq> 0 \<Longrightarrow> unat (x - 1) = unat x - 1"
  by (metis unat_minus_one)

lemma str_tx_byte_fold:
  "fold str_tx_byte T (\<lparr>str_buf = buf, buf_limit = lim\<rparr>, mem)
   = (let k = min (length T) (unat lim) in
      (\<lparr>str_buf = buf + of_nat k, buf_limit = lim - of_nat k\<rparr>,
       \<lambda>a. if unat (a - buf) < k then T ! unat (a - buf) else mem a))"
proof (induction T arbitrary: buf lim mem)
  case Nil
  then show ?case by simp
next
  case (Cons t T)
  show ?case
  proof (cases "lim = 0")
    case True
    have "fold str_tx_byte T (\<lparr>str_buf = buf, buf_limit = 0\<rparr>, mem) = (\<lparr>str_buf = buf, buf_limit = 0\<rparr>, mem)"
      by (simp add: Cons)
    moreover have "str_tx_byte t (\<lparr>str_buf = buf, buf_limit = 0\<rparr>, mem) = (\<lparr>str_buf = buf, buf_limit = 0\<rparr>, mem)"
      by (simp add: str_tx_byte_def)
    ultimately show ?thesis using True by simp
  next
    case False
    define k where "k = min (length T) (unat (lim - 1))"
    have k: "min (length (t # T)) (unat lim) = Suc k"
      using False unat_minus_1_32[OF False] by (cases "unat lim") (simp_all add: k_def unat_eq_zero)
    have kl: "k < 2 ^ 32 - 1"
      using False unat_minus_1_32[OF False] unat_less_32[of lim] by (simp add: k_def)
    have mem: "(if unat (a - (buf + 1)) < k then T ! unat (a - (buf + 1)) else (mem(buf := t)) a)
        = (if unat (a - buf) < Suc k then (t # T) ! unat (a - buf) else mem a)" for a
    proof (cases "a = buf")
      case True
      moreover have "unat (- 1 :: u32) = 2 ^ 32 - 1" by (simp add: unsigned_minus_1_eq_mask mask_eq_exp_minus_1)
      ultimately have "unat (a - (buf + 1)) = 2 ^ 32 - 1" by simp
      then show ?thesis using True kl by simp
    next
      case False
      then have "unat (a - (buf + 1)) = unat (a - buf) - 1" "0 < unat (a - buf)"
        using unat_minus_1_32[of "a - buf"] by (simp_all add: diff_diff_eq unat_gt_0)
      then show ?thesis using False by (auto simp: less_Suc_eq_0_disj nth_Cons')
    qed
    have "fold str_tx_byte (t # T) (\<lparr>str_buf = buf, buf_limit = lim\<rparr>, mem)
        = fold str_tx_byte T (\<lparr>str_buf = buf + 1, buf_limit = lim - 1\<rparr>, mem(buf := t))"
      using False str_tx_byte_def[of t] by simp
    then show ?thesis
      unfolding Cons k Let_def k_def[symmetric] using mem by (simp add: add.assoc diff_diff_eq)
  qed
qed

text \<open>C27.  \<^verbatim>\<open>snprintf\<close> writes exactly the text of the format, cut at the size less one, and a terminating zero; nothing
  else in memory changes, nothing at all if the size is zero; and it returns the length of the whole text.  The
  text and the stores of \<open>%n\<close> are those of printing into a list.\<close>

theorem snprintf_writes_text:
  "snprintf buf sz fmt args mem = map_option (\<lambda>(stores, T). (stores, length T, \<lambda>a.
     let k = min (length T) (unat sz - 1); i = unat (a - buf)
     in if sz = 0 \<or> k < i then mem a else if i = k then 0 else T ! i)) (printed fmt args)"
proof (cases "printed fmt args")
  case (Some r)
  obtain stores T where r: "r = (stores, T)" by (cases r)
  define lim where "lim = (if sz \<noteq> 0 then sz - 1 else 0)"
  have lim: "unat lim = unat sz - 1" using unat_minus_1_32 by (simp add: lim_def)
  define k where "k = min (length T) (unat sz - 1)"
  have "k < 2 ^ 32" using unat_less_32[of sz] by (simp add: k_def)
  then have kw: "unat (of_nat k :: u32) = k" by (simp add: unsigned_of_nat take_bit_nat_eq_self)
  have at_k: "(a = buf + of_nat k) = (unat (a - buf) = k)" for a
    using word_unat_eq_iff[of "a - buf" "of_nat k"] unfolding kw by (metis add_diff_cancel_left' diff_add_cancel add.commute)
  have F: "fold str_tx_byte T (\<lparr>str_buf = buf, buf_limit = lim\<rparr>, mem)
      = (\<lparr>str_buf = buf + of_nat k, buf_limit = lim - of_nat k\<rparr>, \<lambda>a. if unat (a - buf) < k then T ! unat (a - buf) else mem a)"
    by (simp only: str_tx_byte_fold lim k_def Let_def)
  have k0: "sz = 0 \<Longrightarrow> k = 0" by (simp add: k_def)
  have upd: "(if sz \<noteq> 0 then (\<lambda>a. if unat (a - buf) < k then T ! unat (a - buf) else mem a)(buf + of_nat k := 0)
        else (\<lambda>a. if unat (a - buf) < k then T ! unat (a - buf) else mem a)) a
      = (if sz = 0 \<or> k < unat (a - buf) then mem a else if unat (a - buf) = k then 0 else T ! unat (a - buf))" for a
    by (cases "sz = 0"; cases "unat (a - buf) = k") (simp_all add: k0 fun_upd_def at_k)
  show ?thesis
    unfolding snprintf_def vsnprintf_def Let_def lim_def[symmetric] vtxprintf_printed Some r k_def[symmetric] option.map prod.case
      Option.bind.bind_lunit F vsnprintf_context.select_convs upd[abs_def, symmetric]
    by simp
qed (simp add: snprintf_def vsnprintf_def vtxprintf_printed)

section \<open>Numbers in the output\<close>

lemma number_text_length:
  "length (number_text num base sz precision type) =
     max (nat sz) (length (number_prefix type num base) + length (number_body type num base precision))"
  by (auto simp: number_text_def Let_def max_def)

text \<open>The number printer sends one text to any callback and returns its length: the sign and the \<open>#\<close> prefix, then at
  least \<open>precision\<close> digits, highest first, padded to the field width with blanks on the left, with zeros after
  the prefix (\<open>0\<close>), or with blanks on the right (\<open>-\<close>, which overrides \<open>0\<close>).  A number wider than the field is not cut.\<close>

lemma number_layout:
  fixes tx :: "'s txfun" and num :: u64 and base sz precision :: int and type :: u32
  assumes "2 \<le> base" "base \<le> 36"
  defines "prefix \<equiv> number_prefix type num base"
    and "digits \<equiv> map (\<lambda>d. digits_of type ! d) (nat_digits (nat base) (nat \<bar>if type AND SIGN \<noteq> 0 then sint num else uint num\<bar>))"
  defines "body \<equiv> replicate (nat (precision - int (length digits))) 0x30 @ digits"
  defines "pad \<equiv> nat (sz - int (length (prefix @ body)))"
  shows "\<exists>T. number tx num base sz precision type data = (length T, fold tx T data)
    \<and> T = (if type AND LEFT \<noteq> 0 then prefix @ body @ replicate pad 0x20
           else if type AND ZEROPAD \<noteq> 0 then prefix @ replicate pad 0x30 @ body
           else replicate pad 0x20 @ prefix @ body)
    \<and> length T = max (nat sz) (length prefix + length body)"
proof -
  have "body = number_body type num base precision"
    unfolding body_def digits_def by (simp add: number_body_def number_digits_def number_value_def Let_def)
  then show ?thesis
    using number_sent[OF assms(1,2), of tx num sz precision type data] number_text_length[of num base sz precision type]
    by (intro exI[of _ "number_text num base sz precision type"])
       (simp add: sent_def number_text_def prefix_def pad_def Let_def)
qed

lemma number_layout_witness:
  "number collect (- 42) 10 8 4 (SIGN OR LEFT) [] = (8, ascii ''-0042   '')"
proof -
  have "ascii ''-0042   '' = [0x2d] @ replicate 2 0x30 @ [0x34, 0x32] @ replicate 3 0x20" by code_simp
  then have "\<exists>T. number collect (- 42) 10 8 4 (SIGN OR LEFT) [] = (length T, fold collect T []) \<and> T = ascii ''-0042   ''"
    using number_layout[where tx = collect and num = "- 42" and base = 10 and sz = 8 and precision = 4
        and type = "SIGN OR LEFT" and data = "[]"]
    by (simp add: number_prefix_def nat_digits.simps digits_of_def ascii_def[of "''-''"] ascii_def[of "CHR ''0'' # _"])
  then show ?thesis by (auto simp: ascii_def)
qed

lemma below_ten: "(d :: nat) < 10 \<Longrightarrow> d = 0 \<or> d = 1 \<or> d = 2 \<or> d = 3 \<or> d = 4 \<or> d = 5 \<or> d = 6 \<or> d = 7 \<or> d = 8 \<or> d = 9"
  by arith

lemma digits_of_decimal: "d < 10 \<Longrightarrow> digits_of type ! d = 0x30 + of_nat d"
  by (drule below_ten) (elim disjE; simp add: digits_of_def ascii_def)

lemma skip_digits_zeros [simp]: "skip_digits (replicate k 0x30 @ s) 0 = skip_digits s 0"
  by (induction k) (simp_all add: is_digit_def)

lemma decimal_digit: "d < 10 \<Longrightarrow> is_digit (0x30 + of_nat d) \<and> (ucast (0x30 + of_nat d :: u8) :: u32) = 0x30 + of_nat d"
  by (drule below_ten) (elim disjE; simp add: is_digit_def)

lemma skip_digits_nat:
  "skip_digits (map ((!) (digits_of type)) (nat_digits 10 n) @ s) i
   = skip_digits s (i * 10 ^ length (nat_digits 10 n) + of_nat n)"
proof (induction "10 :: nat" n arbitrary: s i rule: nat_digits.induct)
  case (1 n)
  show ?case
  proof (cases "n < 10")
    case True
    then show ?thesis using decimal_digit[OF True] by (simp add: nat_digits.simps[of _ n] digits_of_decimal)
  next
    case False
    have "skip_digits ((digits_of type ! (n mod 10)) # s) j = skip_digits s (j * 10 + of_nat (n mod 10))" for j
      using decimal_digit[of "n mod 10"] by (simp add: digits_of_decimal)
    moreover have "(of_nat (n div 10) * 10 + of_nat (n mod 10) :: u32) = of_nat n"
      by (metis div_mult_mod_eq of_nat_add of_nat_mult of_nat_numeral)
    then have "x + of_nat (n div 10) * 10 + of_nat (n mod 10) = x + (of_nat n :: u32)" for x by (simp add: add.assoc)
    ultimately show ?thesis
      using False 1 by (simp add: nat_digits.simps[of _ n] mult.assoc mult.commute[of 10] distrib_right add.assoc del: skip_digits.simps)
  qed
qed

text \<open>C39.  A number that the printer writes in decimal reads back with the code's own number reader: for the unsigned
  conversion, without a width or with zero padding, of any width and precision, \<^verbatim>\<open>skip_atoi\<close> stops at what follows
  the number and returns its lowest 32 bits as an \<^verbatim>\<open>int\<close>: the number itself below 2147483648, which is as far as an
  \<^verbatim>\<open>int\<close> goes.\<close>

theorem skip_atoi_reads_number:
  assumes "type AND (SIGN OR LEFT OR SPECIAL) = 0" "type AND ZEROPAD \<noteq> 0 \<or> sz \<le> 1" "\<not> is_digit (cur rest)"
  shows "\<exists>T. number collect num 10 sz precision type [] = (length T, T) \<and> skip_atoi (T @ rest) = (sint (ucast num :: u32), rest)
    \<and> (num < 2 ^ 31 \<longrightarrow> skip_atoi (T @ rest) = (uint num, rest))"
proof -
  have fl: "type AND 2 = 0" "type AND 16 = 0" "type AND 32 = 0"
    using arg_cong[OF assms(1), of "\<lambda>x. x AND 2"] arg_cong[OF assms(1), of "\<lambda>x. x AND 16"]
      arg_cong[OF assms(1), of "\<lambda>x. x AND 32"] by (simp_all add: and.assoc)
  define digits where "digits = map ((!) (digits_of type)) (nat_digits 10 (unat num))"
  have "nat_digits 10 (unat num) \<noteq> []" by (subst nat_digits.simps) simp
  then have "digits \<noteq> []" by (simp add: digits_def)
  define m where "m = nat (precision - int (length digits))"
  have shape: "number_text num 10 sz precision type =
      replicate (nat (sz - int (m + length digits))) (if type AND ZEROPAD \<noteq> 0 then 0x30 else 0x20) @ replicate m 0x30 @ digits"
  proof -
    have "number_body type num 10 precision = replicate m 0x30 @ digits"
      using fl(1) by (simp add: number_body_def number_digits_def number_value_def nat_uint_eq m_def digits_def)
    moreover have "number_prefix type num 10 = []" using fl by (simp add: number_prefix_def)
    ultimately show ?thesis using fl(2) by (simp add: number_text_def)
  qed
  obtain k where T: "number_text num 10 sz precision type = replicate k 0x30 @ digits"
  proof (cases "type AND ZEROPAD = 0")
    case True
    then have "sz - int (m + length digits) \<le> 0" using assms(2) \<open>digits \<noteq> []\<close> by (cases digits) auto
    then show ?thesis using that shape by simp
  next
    case False
    then show ?thesis using that shape by (simp flip: append_assoc replicate_add)
  qed
  have "skip_digits rest i = (i, rest)" for i using assms(3) by (cases rest) (simp_all add: cur_def)
  then have "skip_atoi ((replicate k 0x30 @ digits) @ rest) = (sint (ucast num :: u32), rest)"
    by (simp add: skip_atoi_def digits_def skip_digits_nat of_nat_unat)
  moreover have "sint (ucast num :: u32) = uint num" if "num < 2 ^ 31"
  proof -
    have "uint num < 2 ^ 31" using that by (simp add: word_less_def)
    moreover have "- (2 ^ 31) \<le> uint num" using uint_ge_0[of num] by (rule order_trans[rotated]) simp
    ultimately have "signed_take_bit 31 (uint num) = uint num" by (intro signed_take_bit_int_eq_self)
    then show ?thesis by (simp add: signed_ucast_eq)
  qed
  ultimately show ?thesis
    using number_sent[of 10 collect num sz precision type "[]"]
    by (intro exI[of _ "replicate k 0x30 @ digits"]) (simp only: sent_def T fold_collect, simp)
qed

lemma skip_atoi_reads_number_witness:
  "(\<exists>T. number collect 42 10 8 (- 1) ZEROPAD [] = (length T, T) \<and> skip_atoi (T @ ascii '' bytes'') = (42, ascii '' bytes''))
   \<and> (\<exists>T. number collect 0x100000002 10 0 (- 1) 0 [] = (length T, T) \<and> skip_atoi (T @ ascii '' bytes'') = (2, ascii '' bytes''))"
  using skip_atoi_reads_number[of ZEROPAD 8 "ascii '' bytes''" 42 "- 1"]
    skip_atoi_reads_number[of 0 0 "ascii '' bytes''" "0x100000002" "- 1"]
  by (auto simp: ascii_def cur_def is_digit_def)

lemma long_is_not_signed: "printed (ascii ''%d %ld'') [VaWord (- 1), VaWord (- 1)] = Some ([], ascii ''-1 4294967295'')"
  by code_simp

end
