(* ===== verification/Conslog.thy ===== *)
theory Conslog
  imports Cbtable Vprintf
begin

text \<open>
  The console: the serial port (\<^verbatim>\<open>src/drivers/uart/uart8250io.c\<close>), the log in firmware memory
  (\<^verbatim>\<open>src/lib/cbmem_console.c\<close>), and what sends to both (\<^verbatim>\<open>src/console/console.c\<close>, \<^verbatim>\<open>printk.c\<close>, \<^verbatim>\<open>init.c\<close>),
  as the ramstage of this board is built: the other consoles are not configured and their functions are empty.

  The ports of the machine are a parameter (\<open>port_io\<close>): what an access returns and how it changes their
  state.  Memory is a map from addresses to bytes; a log is at an address, with its size, its cursor and its
  bytes, as in the structure of the code.
\<close>

section \<open>The serial port\<close>

record 'p port_io =
  io_inb :: "u16 \<Rightarrow> 'p \<Rightarrow> u8 \<times> 'p"
  io_outb :: "u8 \<Rightarrow> u16 \<Rightarrow> 'p \<Rightarrow> 'p"

definition SINGLE_CHAR_TIMEOUT :: nat where "SINGLE_CHAR_TIMEOUT = 50 * 1000"
definition FIFO_TIMEOUT :: nat where "FIFO_TIMEOUT = 16 * SINGLE_CHAR_TIMEOUT"

abbreviation (input) UART_LSR :: u16 where "UART_LSR \<equiv> 5"
abbreviation (input) UART_LSR_DR :: u8 where "UART_LSR_DR \<equiv> 1"
abbreviation (input) UART_LSR_THRE :: u8 where "UART_LSR_THRE \<equiv> 0x20"
abbreviation (input) UART_LSR_TEMT :: u8 where "UART_LSR_TEMT \<equiv> 0x40"

definition lsr_bit :: "'p port_io \<Rightarrow> u16 \<Rightarrow> u8 \<Rightarrow> 'p \<Rightarrow> bool \<times> 'p" where
  "lsr_bit io base_port b p = (let (v, p) = io_inb io (base_port + UART_LSR) p in (v AND b \<noteq> 0, p))"

definition uart8250_can_tx_byte :: "'p port_io \<Rightarrow> u16 \<Rightarrow> 'p \<Rightarrow> bool \<times> 'p" where
  "uart8250_can_tx_byte io base_port = lsr_bit io base_port UART_LSR_THRE"

definition uart8250_can_rx_byte :: "'p port_io \<Rightarrow> u16 \<Rightarrow> 'p \<Rightarrow> bool \<times> 'p" where
  "uart8250_can_rx_byte io base_port = lsr_bit io base_port UART_LSR_DR"

text \<open>\<^verbatim>\<open>while (i-- && !ready())\<close>, with the value of the unsigned \<^verbatim>\<open>i\<close> after the loop.\<close>

primrec poll :: "('p \<Rightarrow> bool \<times> 'p) \<Rightarrow> nat \<Rightarrow> 'p \<Rightarrow> u32 \<times> 'p" where
  "poll ready 0 p = (- 1, p)"
| "poll ready (Suc i) p = (let (b, p) = ready p in if b then (of_nat i, p) else poll ready i p)"

definition uart8250_tx_byte :: "'p port_io \<Rightarrow> u16 \<Rightarrow> u8 \<Rightarrow> 'p \<Rightarrow> 'p" where
  "uart8250_tx_byte io base_port data p =
     (let (i, p) = poll (uart8250_can_tx_byte io base_port) SINGLE_CHAR_TIMEOUT p
      in io_outb io data base_port p)"

definition uart8250_tx_flush :: "'p port_io \<Rightarrow> u16 \<Rightarrow> 'p \<Rightarrow> 'p" where
  "uart8250_tx_flush io base_port p = snd (poll (lsr_bit io base_port UART_LSR_TEMT) FIFO_TIMEOUT p)"

definition uart8250_rx_byte :: "'p port_io \<Rightarrow> u16 \<Rightarrow> 'p \<Rightarrow> u8 \<times> 'p" where
  "uart8250_rx_byte io base_port p =
     (let (i, p) = poll (uart8250_can_rx_byte io base_port) SINGLE_CHAR_TIMEOUT p
      in if i \<noteq> 0 then io_inb io base_port p else (0, p))"

text \<open>\<open>lcs\<close> is \<^verbatim>\<open>CONFIG_TTYS0_LCS\<close>.\<close>

definition uart8250_init :: "'p port_io \<Rightarrow> u8 \<Rightarrow> u16 \<Rightarrow> u32 \<Rightarrow> 'p \<Rightarrow> 'p" where
  "uart8250_init io lcs base_port divisor p =
     (let p = io_outb io 0 (base_port + 1) p;
          p = io_outb io 1 (base_port + 2) p;
          p = io_outb io (1 OR 2) (base_port + 4) p;
          p = io_outb io (0x80 OR lcs) (base_port + 3) p;
          p = io_outb io (ucast (divisor AND 0xFF)) base_port p;
          p = io_outb io (ucast (drop_bit 8 divisor AND 0xFF)) (base_port + 1) p
      in io_outb io lcs (base_port + 3) p)"

definition uart_init :: "'p port_io \<Rightarrow> lbt_config \<Rightarrow> u8 \<Rightarrow> u32 \<Rightarrow> 'p \<Rightarrow> 'p option" where
  "uart_init io cfg lcs idx p = do {
     divisor \<leftarrow> uart_baudrate_divisor
       (default_baudrate (lbc_use_option_table cfg) (lbc_ttys0_baud cfg) (lbc_baud_option cfg)) 115200 1;
     Some (uart8250_init io lcs (ucast (uart_platform_base idx)) divisor p)
   }"

definition uart_tx_byte :: "'p port_io \<Rightarrow> u32 \<Rightarrow> u8 \<Rightarrow> 'p \<Rightarrow> 'p" where
  "uart_tx_byte io idx = uart8250_tx_byte io (ucast (uart_platform_base idx))"

definition uart_rx_byte :: "'p port_io \<Rightarrow> u32 \<Rightarrow> 'p \<Rightarrow> u8 \<times> 'p" where
  "uart_rx_byte io idx = uart8250_rx_byte io (ucast (uart_platform_base idx))"

definition uart_tx_flush :: "'p port_io \<Rightarrow> u32 \<Rightarrow> 'p \<Rightarrow> 'p" where
  "uart_tx_flush io idx = uart8250_tx_flush io (ucast (uart_platform_base idx))"

section \<open>The log in memory\<close>

abbreviation (input) buffer_size :: "u32 \<Rightarrow> u32" where "buffer_size c \<equiv> c"
abbreviation (input) buffer_cursor :: "u32 \<Rightarrow> u32" where "buffer_cursor c \<equiv> c + 4"
abbreviation (input) buffer_body :: "u32 \<Rightarrow> u32" where "buffer_body c \<equiv> c + 8"

text \<open>The pointer to the log, \<^verbatim>\<open>cbmem_console_p\<close>, and memory.\<close>

definition init_console_ptr :: "u32 \<Rightarrow> u32 \<Rightarrow> memory \<Rightarrow> u32 \<times> memory" where
  "init_console_ptr storage total_space mem =
     (let mem = write32 (buffer_size storage) (total_space - 8) mem;
          mem = write32 (buffer_cursor storage) 0 mem
      in (storage, mem))"

text \<open>\<^verbatim>\<open>static_console\<close> and its size.\<close>

definition cbmemc_init :: "u32 \<Rightarrow> u32 \<Rightarrow> memory \<Rightarrow> u32 \<times> memory" where
  "cbmemc_init static_console static_size mem = init_console_ptr static_console static_size mem"

definition cbmemc_tx_byte :: "u32 \<Rightarrow> u8 \<Rightarrow> memory \<Rightarrow> memory" where
  "cbmemc_tx_byte cbm_cons_p data mem =
     (if cbm_cons_p = 0 then mem
      else
        let cursor = read32 mem (buffer_cursor cbm_cons_p);
            mem = write32 (buffer_cursor cbm_cons_p) (cursor + 1) mem
        in if cursor < read32 mem (buffer_size cbm_cons_p)
           then write_bytes (buffer_body cbm_cons_p + cursor) [data] mem else mem)"

definition loss_str1 :: "u8 list" where
  "loss_str1 = [10, 10] @ ascii ''*** Log truncated, ''"

definition loss_str2 :: "u8 list" where
  "loss_str2 = ascii '' characters dropped. ***'' @ [10, 10]"

text \<open>The loop that prints the number of lost bytes; the arguments are its variables.\<close>

function loss_loop :: "u32 \<Rightarrow> u32 \<Rightarrow> bool \<Rightarrow> u32 \<Rightarrow> u32 \<Rightarrow> memory \<Rightarrow> u32 \<times> memory" where
  "loss_loop body dropped_chars got_first_digit mult10 cursor mem =
     (if mult10 = 0 then (cursor, mem)
      else
        let digit = dropped_chars div mult10 in
        if got_first_digit \<or> digit \<noteq> 0 then
          loss_loop body (dropped_chars mod mult10) True (mult10 div 10) (cursor + 1)
            (write_bytes (body + cursor) [ucast (digit + 0x30)] mem)
        else loss_loop body dropped_chars got_first_digit (mult10 div 10) cursor mem)"
  by pat_completeness auto
termination
  by (relation "measure (\<lambda>(body, dropped_chars, got, mult10, cursor, mem). unat mult10)")
     (auto simp: unat_div unat_gt_0)

declare loss_loop.simps [simp del]

definition write_loss :: "u32 \<Rightarrow> u32 \<Rightarrow> u32 \<Rightarrow> memory \<Rightarrow> u32 \<times> memory" where
  "write_loss body dropped_chars cursor mem =
     (let mem = write_bytes (body + cursor) (loss_str1 @ [0]) mem;
          cursor = cursor + of_nat (length loss_str1);
          (cursor, mem) = loss_loop body dropped_chars False 100000 cursor mem;
          mem = write_bytes (body + cursor) (loss_str2 @ [0]) mem
      in (cursor + of_nat (length loss_str2), mem))"

definition copy_console_buffer :: "u32 \<Rightarrow> u32 \<Rightarrow> memory \<Rightarrow> memory" where
  "copy_console_buffer old_cons_p new_cons_p mem =
     (let cursor = read32 mem (buffer_cursor new_cons_p);
          copy_size = (if read32 mem (buffer_cursor old_cons_p) < read32 mem (buffer_size old_cons_p)
                       then read32 mem (buffer_cursor old_cons_p) else read32 mem (buffer_size old_cons_p));
          copy_size = (if read32 mem (buffer_size new_cons_p) < cursor then 0
                       else if read32 mem (buffer_size new_cons_p) < cursor + copy_size
                       then read32 mem (buffer_size new_cons_p) - cursor else copy_size);
          dropped_chars = read32 mem (buffer_cursor old_cons_p) - copy_size
      in if dropped_chars \<noteq> 0 \<and> copy_size < 80 then mem
         else
           let (copy_size, dropped_chars) =
                 (if dropped_chars \<noteq> 0 then (copy_size - 80, dropped_chars + 80) else (copy_size, dropped_chars));
               mem = memcpy (buffer_body new_cons_p + cursor) (buffer_body old_cons_p) copy_size mem;
               cursor = cursor + copy_size;
               (cursor, mem) = (if dropped_chars \<noteq> 0 then write_loss (buffer_body new_cons_p) dropped_chars cursor mem
                                else (cursor, mem))
           in write32 (buffer_cursor new_cons_p) cursor mem)"

abbreviation (input) CBMEM_ID_CONSOLE :: u32 where "CBMEM_ID_CONSOLE \<equiv> 0x434f4e53"

text \<open>\<open>sz\<close> is \<^verbatim>\<open>CONFIG_CONSOLE_CBMEM_BUFFER_SIZE\<close>; the result has the new pointer to the log.\<close>

definition cbmemc_reinit :: "u64 \<times> u64 \<Rightarrow> u32 \<Rightarrow> u32 \<Rightarrow> memory \<times> cbmem \<Rightarrow> u32 \<times> memory \<times> cbmem" where
  "cbmemc_reinit tbl sz current = (\<lambda>(mem, c).
     let (cbm_cons_p, c) = cbmem_find tbl CBMEM_ID_CONSOLE c in
     if cbm_cons_p \<noteq> 0 then (cbm_cons_p, copy_console_buffer current cbm_cons_p mem, c)
     else
       let (cbm_cons_p, c) = cbmem_add tbl CBMEM_ID_CONSOLE (ucast sz) c in
       if cbm_cons_p = 0 then (0, mem, c)
       else
         let mem = write32 (buffer_size cbm_cons_p) (sz - 8) mem;
             mem = write32 (buffer_cursor cbm_cons_p) 0 mem
         in (cbm_cons_p, copy_console_buffer current cbm_cons_p mem, c))"

section \<open>Messages\<close>

record 'p console =
  cons_log :: u32
  cons_mem :: memory
  cons_ports :: 'p
  console_loglevel :: u32

text \<open>The logs and ports of this build; \<open>idx\<close> is \<^verbatim>\<open>CONFIG_UART_FOR_CONSOLE\<close>.\<close>

definition console_tx_byte :: "'p port_io \<Rightarrow> u32 \<Rightarrow> u8 \<Rightarrow> 'p console \<Rightarrow> 'p console" where
  "console_tx_byte io idx byte s =
     (let s = s\<lparr>cons_mem := cbmemc_tx_byte (cons_log s) byte (cons_mem s)\<rparr>
      in s\<lparr>cons_ports := uart_tx_byte io idx byte (cons_ports s)\<rparr>)"

definition console_tx_flush :: "'p port_io \<Rightarrow> u32 \<Rightarrow> 'p console \<Rightarrow> 'p console" where
  "console_tx_flush io idx s = s\<lparr>cons_ports := uart_tx_flush io idx (cons_ports s)\<rparr>"

definition do_putchar :: "'p port_io \<Rightarrow> u32 \<Rightarrow> u8 \<Rightarrow> 'p console \<Rightarrow> 'p console" where
  "do_putchar io idx byte s =
     (let s = (if byte = 10 then console_tx_byte io idx 13 s else s)
      in console_tx_byte io idx byte s)"

definition wrap_putchar :: "'p port_io \<Rightarrow> u32 \<Rightarrow> 'p console txfun" where
  "wrap_putchar io idx byte data = do_putchar io idx byte data"

definition console_log_level :: "u32 \<Rightarrow> 'p console \<Rightarrow> bool" where
  "console_log_level msg_level s \<longleftrightarrow> msg_level \<le>s console_loglevel s"

text \<open>The build does not stop on a message (\<^verbatim>\<open>CONFIG_DIE_CONSOLE_LOGLEVEL\<close> is -1); the stores are those of \<open>%n\<close>.\<close>

definition do_printk :: "'p port_io \<Rightarrow> u32 \<Rightarrow> u32 \<Rightarrow> u8 list \<Rightarrow> va_arg list \<Rightarrow> 'p console
    \<Rightarrow> (count_store list \<times> nat \<times> 'p console) option" where
  "do_printk io idx msg_level fmt args s =
     (if \<not> console_log_level msg_level s then Some ([], 0, s)
      else do {
        (stores, i, s) \<leftarrow> vtxprintf (wrap_putchar io idx) fmt args s;
        Some (stores, i, console_tx_flush io idx s)
      })"

text \<open>
  \<open>opt\<close> is what \<^verbatim>\<open>get_option\<close> returns for \<^verbatim>\<open>debug_level\<close>, with the bytes it stored in the level; \<open>level\<close> is
  \<^verbatim>\<open>CONFIG_DEFAULT_CONSOLE_LOGLEVEL\<close>.
\<close>

definition console_init :: "'p port_io \<Rightarrow> lbt_config \<Rightarrow> u8 \<Rightarrow> u32 \<Rightarrow> u32 \<times> u32 \<Rightarrow> cb_err \<times> u8 list \<Rightarrow> 'p console
    \<Rightarrow> 'p console option" where
  "console_init io cfg lcs level static opt s =
     (let dest = snd opt @ drop (length (snd opt)) (bytes32 (console_loglevel s));
          s = s\<lparr>console_loglevel := (if fst opt \<noteq> CB_SUCCESS then level else word_rcat (rev (take 4 dest)))\<rparr>;
          (p, mem) = cbmemc_init (fst static) (snd static) (cons_mem s);
          s = s\<lparr>cons_log := p, cons_mem := mem\<rparr>
      in do {
        ports \<leftarrow> uart_init io cfg lcs (lbc_uart_for_console cfg) (cons_ports s);
        Some (s\<lparr>cons_ports := ports\<rparr>)
      })"

section \<open>What the log holds\<close>

text \<open>
  The log at \<open>p\<close> has room for \<open>n\<close> bytes and has received the bytes \<open>s\<close>: the cursor counts them all, the body has
  the first \<open>n\<close>.
\<close>

definition log_bytes :: "nat \<Rightarrow> u8 list \<Rightarrow> u8 list" where
  "log_bytes n s = bytes32 (of_nat n) @ bytes32 (of_nat (length s)) @ take n s"

definition log_at :: "memory \<Rightarrow> u32 \<Rightarrow> nat \<Rightarrow> u8 list \<Rightarrow> bool" where
  "log_at mem p n s \<longleftrightarrow> p \<noteq> 0 \<and> 8 + n \<le> 2 ^ 32 \<and> length s < 2 ^ 32 \<and> holds mem p 0 (map Some (log_bytes n s))"

lemma log_at_parts:
  "log_at mem p n s \<longleftrightarrow> p \<noteq> 0 \<and> 8 + n \<le> 2 ^ 32 \<and> length s < 2 ^ 32
     \<and> holds mem p 0 (map Some (bytes32 (of_nat n))) \<and> holds mem p 4 (map Some (bytes32 (of_nat (length s))))
     \<and> holds mem p 8 (map Some (take n s))"
  by (simp add: log_at_def log_bytes_def holds_append)

lemma log_at_reads:
  assumes "log_at mem p n s"
  shows "read32 mem p = of_nat n" "read32 mem (p + 4) = of_nat (length s)"
  using assms holds_read32[of mem p 0 "of_nat n"] holds_read32[of mem p 4 "of_nat (length s)"]
  by (simp_all add: log_at_parts)

lemma log_at_size: "log_at mem p n s \<Longrightarrow> unat (of_nat n :: u32) = n \<and> unat (of_nat (length s) :: u32) = length s"
  by (auto simp: log_at_def unsigned_of_nat take_bit_nat_eq_self)

text \<open>Storing bytes behind the ones that are there, and then the cursor; \<open>xs\<close> are bytes that do not count.\<close>

lemma log_at_write:
  assumes "log_at mem p n s" "length s + length bs + length xs \<le> n" "length s + length bs < 2 ^ 32"
  defines "mem' \<equiv> write32 (p + 4) (of_nat (length s + length bs)) (write_bytes (p + 8 + of_nat (length s)) (bs @ xs) mem)"
  shows "log_at mem' p n (s @ bs)" "within p (8 + n) mem mem'"
proof -
  have n: "8 + n \<le> 2 ^ 32" "p \<noteq> 0" using assms(1) by (simp_all add: log_at_def)
  have e: "p + 8 + of_nat (length s) = p + of_nat (8 + length s)" "p + 4 = p + of_nat 4" by simp_all
  let ?m = "write_bytes (p + of_nat (8 + length s)) (bs @ xs) mem"
  have "holds ?m p (8 + length s) (map Some (bs @ xs))" using assms(2) n by (intro holds_write_same) simp
  then have "holds ?m p 0 (map Some (bytes32 (of_nat n)))" "holds ?m p 8 (map Some s)"
    "holds ?m p (8 + length s) (map Some bs)"
    using assms(1,2) n by (simp_all add: holds_write_other holds_append log_at_parts del: of_nat_add)
  then show "log_at mem' p n (s @ bs)"
    unfolding mem'_def e write32_def log_at_parts using assms(2,3) n
    by (simp add: holds_write_other holds_write_same holds_append del: of_nat_add of_nat_numeral)
  have "within p (8 + n) mem ?m" using assms(2) n by (intro within_write) simp_all
  moreover have "within p (8 + n) ?m (write32 (p + of_nat 4) x ?m)" for x
    using n by (simp add: write32_def within_write del: of_nat_numeral)
  ultimately show "within p (8 + n) mem mem'"
    unfolding mem'_def e by (blast intro: within_trans)
qed

lemma log_at_cursor:
  assumes "log_at mem p n s" "n \<le> length s" "length s' < 2 ^ 32" "take n s' = take n s"
  shows "log_at (write32 (p + 4) (of_nat (length s')) mem) p n s'"
proof -
  have e: "p + 4 = p + of_nat 4" by simp
  show ?thesis
    unfolding e write32_def log_at_parts using assms log_at_parts[of mem p n s]
    by (simp add: holds_write_other holds_write_same del: of_nat_numeral)
qed

lemma within_write_word: "k + 4 \<le> n \<Longrightarrow> n \<le> 2 ^ 32 \<Longrightarrow> within p n mem (write32 (p + of_nat k) v mem)"
  by (simp add: write32_def within_write)

lemma cbmemc_tx_byte_log:
  assumes l: "log_at mem p n s" and len: "length s + 1 < 2 ^ 32"
  shows "log_at (cbmemc_tx_byte p b mem) p n (s @ [b])" "within p (8 + n) mem (cbmemc_tx_byte p b mem)"
proof -
  have n: "8 + n \<le> 2 ^ 32" "p \<noteq> 0" using l by (simp_all add: log_at_def)
  define m1 where "m1 = write32 (p + 4) (of_nat (length (s @ [b]))) mem"
  have e: "p + 4 = p + of_nat 4" "p + 8 + of_nat (length s) = p + of_nat (8 + length s)" by simp_all
  have len2: "length (s @ [b]) < 2 ^ 32" using len by simp
  have tk: "8 + length (take n s) \<le> 2 ^ 32" using n by (simp add: min_def)
  have m1: "holds m1 p 0 (map Some (bytes32 (of_nat n)))" "holds m1 p 4 (map Some (bytes32 (of_nat (length (s @ [b])))))"
    "holds m1 p 8 (map Some (take n s))"
    unfolding m1_def e write32_def using l n tk
    by (simp_all add: holds_write_other holds_write_same log_at_parts del: of_nat_numeral length_append length_take)
  then have sz: "read32 m1 p = of_nat n" using holds_read32[of m1 p 0 "of_nat n"] by simp
  have tx: "cbmemc_tx_byte p b mem = (if length s < n then write_bytes (p + of_nat (8 + length s)) [b] m1 else m1)"
  proof -
    have cur: "of_nat (length s) + 1 = (of_nat (length (s @ [b])) :: u32)" by simp
    show ?thesis
      unfolding cbmemc_tx_byte_def Let_def log_at_reads(2)[OF l] cur m1_def[symmetric] sz e(2)
      using n(2) log_at_size[OF l] by (simp add: word_less_nat_alt)
  qed
  show "log_at (cbmemc_tx_byte p b mem) p n (s @ [b])"
  proof (cases "length s < n")
    case True
    then have "holds m1 p 8 (map Some s)" using m1(3) by simp
    then show ?thesis
      unfolding tx log_at_parts using True m1 n len2 holds_write_same[of "8 + length s" "[b]" p m1]
      by (simp add: holds_write_other holds_write_same holds_append del: of_nat_add length_append)
  next
    case False
    then show ?thesis unfolding tx log_at_parts using m1 n len2 by (simp del: length_append)
  qed
  have "within p (8 + n) mem m1" unfolding m1_def e(1) using n by (intro within_write_word) auto
  moreover have "within p (8 + n) m1 (write_bytes (p + of_nat (8 + length s)) [b] m1)" if "length s < n"
    using that n by (intro within_write) auto
  ultimately show "within p (8 + n) mem (cbmemc_tx_byte p b mem)"
    unfolding tx by (auto intro: within_trans)
qed

section \<open>What a message sends\<close>

text \<open>A line feed is sent with a carriage return before it.\<close>

definition crlf :: "u8 list \<Rightarrow> u8 list" where
  "crlf bs = concat (map (\<lambda>b. if b = 10 then [13, b] else [b]) bs)"

lemma crlf_simps [simp]: "crlf [] = []" "crlf (b # bs) = (if b = 10 then [13, b] else [b]) @ crlf bs"
  by (simp_all add: crlf_def)

lemma wrap_putchar_fold: "fold (wrap_putchar io idx) bs s = fold (console_tx_byte io idx) (crlf bs) s"
  by (induction bs arbitrary: s) (simp_all add: wrap_putchar_def do_putchar_def)

lemma console_tx_byte_parts:
  "console_tx_byte io idx b s = s\<lparr>cons_mem := cbmemc_tx_byte (cons_log s) b (cons_mem s), cons_ports := uart_tx_byte io idx b (cons_ports s)\<rparr>"
  by (simp add: console_tx_byte_def)

lemma console_tx_fold:
  "fold (console_tx_byte io idx) bs s = s\<lparr>cons_mem := fold (cbmemc_tx_byte (cons_log s)) bs (cons_mem s),
      cons_ports := fold (uart_tx_byte io idx) bs (cons_ports s)\<rparr>"
  by (induction bs arbitrary: s) (simp_all add: console_tx_byte_parts)

lemma cbmemc_tx_fold:
  assumes "log_at mem p n s" "length s + length bs < 2 ^ 32"
  shows "log_at (fold (cbmemc_tx_byte p) bs mem) p n (s @ bs) \<and> within p (8 + n) mem (fold (cbmemc_tx_byte p) bs mem)"
  using assms
proof (induction bs arbitrary: s mem)
  case (Cons b bs)
  have len: "length s + 1 < 2 ^ 32" using Cons.prems(2) by simp
  note tx = cbmemc_tx_byte_log[OF Cons.prems(1) len, of b]
  show ?case using Cons.IH[OF tx(1)] Cons.prems(2) within_trans[OF tx(2)] by simp
qed simp

text \<open>
  The serial line: \<open>line\<close> reads from the state of the ports what was written to the transmitter of the port at
  \<open>base\<close>; reading a register writes nothing there, and a byte written there is the next one.
\<close>

definition serial_line :: "'p port_io \<Rightarrow> u16 \<Rightarrow> ('p \<Rightarrow> u8 list) \<Rightarrow> bool" where
  "serial_line io base line \<longleftrightarrow> (\<forall>a p. line (snd (io_inb io a p)) = line p) \<and> (\<forall>d p. line (io_outb io d base p) = line p @ [d])"

lemma poll_line: "(\<And>p. line (snd (ready p)) = line p) \<Longrightarrow> line (snd (poll ready i p)) = line p"
  by (induction i arbitrary: p) (simp_all add: case_prod_beta)

lemma lsr_line: "serial_line io base line \<Longrightarrow> line (snd (lsr_bit io a b p)) = line p"
  by (simp add: serial_line_def lsr_bit_def case_prod_beta)

lemma can_tx_line: "serial_line io base line \<Longrightarrow> line (snd (poll (uart8250_can_tx_byte io a) i p)) = line p"
  by (rule poll_line) (simp add: uart8250_can_tx_byte_def lsr_line)

lemma tx_line: "serial_line io base line \<Longrightarrow> line (uart8250_tx_byte io base d p) = line p @ [d]"
  using can_tx_line[of io base line base SINGLE_CHAR_TIMEOUT p]
  by (simp add: uart8250_tx_byte_def case_prod_beta serial_line_def)

lemma tx_line_fold:
  "serial_line io (ucast (uart_platform_base idx)) line \<Longrightarrow> line (fold (uart_tx_byte io idx) bs p) = line p @ bs"
  by (induction bs arbitrary: p) (simp_all add: uart_tx_byte_def tx_line)

lemma flush_line: "serial_line io base line \<Longrightarrow> line (uart8250_tx_flush io b p) = line p"
  by (simp add: uart8250_tx_flush_def poll_line lsr_line)

text \<open>C29.  A message at a level that is printed goes to both consoles, whole: the text of its format, with a carriage
  return before every line feed, is appended to the serial line and to the log in memory (of which the first \<open>n\<close>
  bytes are stored), nothing outside of the log changes, and the length of the text is returned.  A message at
  another level does nothing.\<close>

theorem do_printk_sends:
  assumes "serial_line io (ucast (uart_platform_base idx)) line"
    and "log_at (cons_mem s) (cons_log s) n received"
    and "printed fmt args = Some (stores, T)" and "length received + length (crlf T) < 2 ^ 32"
  shows "\<exists>s'. do_printk io idx level fmt args s
      = (if console_log_level level s then Some (stores, length T, s') else Some ([], 0, s))
    \<and> log_at (cons_mem s') (cons_log s) n (received @ crlf T)
    \<and> line (cons_ports s') = line (cons_ports s) @ crlf T
    \<and> within (cons_log s) (8 + n) (cons_mem s) (cons_mem s')
    \<and> cons_log s' = cons_log s \<and> console_loglevel s' = console_loglevel s"
  using assms(1,3) cbmemc_tx_fold[OF assms(2,4)]
  by (intro exI[of _ "console_tx_flush io idx (fold (wrap_putchar io idx) T s)"])
     (auto simp: do_printk_def vtxprintf_printed wrap_putchar_fold console_tx_fold console_tx_flush_def uart_tx_flush_def
       flush_line tx_line_fold)

text \<open>A machine whose ports remember the writes, with a transmitter that is always ready.\<close>

definition example_ports :: "(u8 \<times> u16) list port_io" where
  "example_ports = \<lparr>io_inb = \<lambda>a p. (0x60, p), io_outb = \<lambda>d a p. p @ [(d, a)]\<rparr>"

definition example_line :: "(u8 \<times> u16) list \<Rightarrow> u8 list" where
  "example_line p = map fst (filter (\<lambda>w. snd w = 0x3f8) p)"

definition example_console :: "(u8 \<times> u16) list console" where
  "example_console = \<lparr>cons_log = 0x1000, cons_mem = snd (init_console_ptr 0x1000 12 (\<lambda>_. 0)), cons_ports = [], console_loglevel = 7\<rparr>"

lemma init_console_ptr_log:
  assumes "p \<noteq> 0" "8 + n \<le> 2 ^ 32"
  shows "log_at (snd (init_console_ptr p (of_nat (8 + n)) mem)) p n []"
proof -
  have e: "p + 4 = p + of_nat 4" "(of_nat (8 + n) :: u32) - 8 = of_nat n" by simp_all
  have "holds (write32 p (of_nat n) mem) p 0 (map Some (bytes32 (of_nat n)))"
    using holds_write_same[of 0 "bytes32 (of_nat n)" p mem] by (simp add: write32_def)
  then have "holds (write32 (p + of_nat 4) 0 (write32 p (of_nat n) mem)) p 0 (map Some (bytes32 (of_nat n)))"
    "holds (write32 (p + of_nat 4) 0 (write32 p (of_nat n) mem)) p 4 (map Some (bytes32 0))"
    unfolding write32_def by (simp_all add: holds_write_other holds_write_same del: of_nat_numeral)
  then show ?thesis using assms unfolding init_console_ptr_def Let_def e log_at_parts by simp
qed

lemma example_line_ok: "serial_line example_ports (ucast (uart_platform_base 0)) example_line"
  by (simp add: serial_line_def example_ports_def example_line_def uart_platform_base_def uart_bases_def)

lemma do_printk_sends_witness:
  "\<exists>s'. do_printk example_ports 0 3 (ascii ''%d'' @ [10]) [VaWord 42] example_console = Some ([], 3, s')
    \<and> log_at (cons_mem s') 0x1000 4 (ascii ''42'' @ [13, 10]) \<and> example_line (cons_ports s') = ascii ''42'' @ [13, 10]"
proof -
  have l: "log_at (cons_mem example_console) (cons_log example_console) 4 []"
    using init_console_ptr_log[where p = "0x1000" and n = 4 and mem = "\<lambda>_. 0"] by (simp add: example_console_def)
  have p: "printed (ascii ''%d'' @ [10]) [VaWord 42] = Some ([], ascii ''42'' @ [10])" by code_simp
  have "console_log_level 3 example_console" by (simp add: console_log_level_def example_console_def word_sle_eq)
  then show ?thesis
    using do_printk_sends[where level = 3, OF example_line_ok l p]
    by (fastforce simp: ascii_def example_console_def example_line_def)
qed

section \<open>Receiving\<close>

lemma poll_never:
  "\<forall>k < n. \<not> fst (ready (((\<lambda>p. snd (ready p)) ^^ k) p)) \<Longrightarrow> poll ready n p = (- 1, ((\<lambda>p. snd (ready p)) ^^ n) p)"
  by (induction n arbitrary: p)
     (simp_all add: All_less_Suc2 case_prod_beta funpow_Suc_right del: funpow.simps(2))

lemma poll_first:
  "k < n \<Longrightarrow> fst (ready (((\<lambda>p. snd (ready p)) ^^ k) p)) \<Longrightarrow> \<forall>j < k. \<not> fst (ready (((\<lambda>p. snd (ready p)) ^^ j) p))
   \<Longrightarrow> poll ready n p = (of_nat (n - Suc k), ((\<lambda>p. snd (ready p)) ^^ Suc k) p)"
proof (induction n arbitrary: p k)
  case (Suc n)
  show ?case
  proof (cases k)
    case 0
    then show ?thesis using Suc.prems by (simp add: case_prod_beta)
  next
    case (Suc k')
    then have "\<not> fst (ready p)" using Suc.prems(3) by (metis funpow_0 zero_less_Suc)
    then show ?thesis
      using Suc.IH[of k' "snd (ready p)"] Suc.prems Suc
      by (simp add: case_prod_beta funpow_Suc_right All_less_Suc2 del: funpow.simps(2))
  qed
qed simp

text \<open>C40.  What the receive function returns, by the first poll of the status that finds a byte.  It polls 50000 times; when
  no poll finds a byte it does not return zero, as its code means to, but reads the receive register, because the
  counter has wrapped; and a byte found by the last poll is not read and zero is returned, because the counter is
  zero then.\<close>

theorem uart8250_rx_byte_cases:
  fixes p :: 'p and io :: "'p port_io" and base :: u16
  defines "after k \<equiv> ((\<lambda>p. snd (io_inb io (base + 5) p)) ^^ k) p"
  defines "ready k \<equiv> fst (io_inb io (base + 5) (after k)) AND 1 \<noteq> 0"
  shows "((\<forall>k < 50000. \<not> ready k) \<longrightarrow> uart8250_rx_byte io base p = io_inb io base (after 50000))
    \<and> (k < 50000 \<and> ready k \<and> (\<forall>j < k. \<not> ready j) \<longrightarrow>
         uart8250_rx_byte io base p = (if k = 49999 then (0, after (Suc k)) else io_inb io base (after (Suc k))))"
proof -
  let ?rx = "uart8250_can_rx_byte io base"
  have rx: "snd (?rx q) = snd (io_inb io (base + 5) q)" "fst (?rx q) = (fst (io_inb io (base + 5) q) AND 1 \<noteq> 0)" for q
    by (simp_all add: uart8250_can_rx_byte_def lsr_bit_def case_prod_beta)
  have "poll ?rx 50000 p = (- 1, after 50000)" if "\<forall>k < 50000. \<not> ready k"
    using poll_never[of 50000 ?rx p] that unfolding rx after_def ready_def by blast
  moreover have "poll ?rx 50000 p = (of_nat (50000 - Suc k), after (Suc k))" if "k < 50000" "ready k" "\<forall>j < k. \<not> ready j"
    using poll_first[of k 50000 ?rx p] that unfolding rx after_def ready_def by blast
  moreover have "(of_nat (50000 - Suc k) = (0 :: u32)) = (k = 49999)" if "k < 50000"
  proof -
    have "unat (of_nat (50000 - Suc k) :: u32) = 50000 - Suc k" using that by (simp add: unsigned_of_nat take_bit_nat_eq_self del: of_nat_diff of_nat_Suc)
    then show ?thesis using that unfolding word_unat_eq_iff[of "of_nat (50000 - Suc k)"] by auto
  qed
  ultimately show ?thesis by (auto simp: uart8250_rx_byte_def SINGLE_CHAR_TIMEOUT_def)
qed

lemma uart8250_rx_byte_cases_witness:
  "uart8250_rx_byte \<lparr>io_inb = \<lambda>a p. (if a = 0x3f8 then 0x7f else 0x60, ()), io_outb = \<lambda>d a p. ()\<rparr> 0x3f8 () = (0x7f, ())"
  using uart8250_rx_byte_cases[of "\<lparr>io_inb = \<lambda>a p. (if a = 0x3f8 then 0x7f else 0x60, ()), io_outb = \<lambda>d a p. ()\<rparr>" "0x3f8" "()" 0]
  by simp

section \<open>The number of lost bytes\<close>

definition decimal :: "nat \<Rightarrow> u8 list" where
  "decimal n = map (\<lambda>d. 0x30 + of_nat d) (nat_digits 10 n)"

text \<open>The lowest \<open>k\<close> decimal digits of a number.\<close>

definition low_digits :: "nat \<Rightarrow> nat \<Rightarrow> nat list" where
  "low_digits k n = map (\<lambda>i. n div 10 ^ i mod 10) (rev [0..<k])"

lemma low_digits_Suc: "low_digits (Suc k) n = (n div 10 ^ k mod 10) # low_digits k n"
  by (simp add: low_digits_def)

lemma low_digits_mod: "low_digits k (n mod 10 ^ k) = low_digits k n"
proof -
  have "(n mod 10 ^ k) div 10 ^ i mod 10 = n div 10 ^ i mod 10" if "i < k" for i
  proof -
    have "(10 :: nat) ^ k = 10 ^ i * 10 ^ (k - i)" using that by (simp flip: power_add)
    moreover have "(10 :: nat) dvd 10 ^ (k - i)" using that by (simp add: dvd_power)
    ultimately show ?thesis by (simp add: mod_mult2_eq div_mult2_eq mod_mod_cancel)
  qed
  then show ?thesis by (auto simp: low_digits_def)
qed

lemma low_digits_snoc: "low_digits (Suc k) n = low_digits k (n div 10) @ [n mod 10]"
proof -
  have "rev [0..<Suc k] = map Suc (rev [0..<k]) @ [0]"
    by (simp add: upt_conv_Cons map_Suc_upt rev_map[symmetric] del: upt_Suc)
  then show ?thesis by (simp add: low_digits_def div_mult2_eq o_def del: upt_Suc)
qed

lemma nat_digits_low: "0 < q \<Longrightarrow> r < 10 ^ k \<Longrightarrow> nat_digits 10 (q * 10 ^ k + r) = nat_digits 10 q @ low_digits k r"
proof (induction k arbitrary: r)
  case 0
  then show ?case by (simp add: low_digits_def)
next
  case (Suc k)
  have "(q * 10 ^ Suc k + r) div 10 = q * 10 ^ k + r div 10" "(q * 10 ^ Suc k + r) mod 10 = r mod 10"
    by (simp_all add: mult.assoc[symmetric] mult.commute[of 10])
  moreover have "10 \<le> q * 10 ^ Suc k + r" using Suc.prems(1) by (simp add: trans_le_add1)
  ultimately show ?case
    using Suc.IH[of "r div 10"] Suc.prems by (subst nat_digits.simps) (simp add: low_digits_snoc less_mult_imp_div_less mult.commute)
qed

lemma nat_digits_small: "d < 10 \<Longrightarrow> nat_digits 10 d = [d]"
  by (simp add: nat_digits.simps)

lemma write_bytes_over:
  assumes "length (xs @ ys) \<le> 2 ^ 32" "length zs \<le> length ys"
  shows "write_bytes (a + of_nat (length xs)) ys (write_bytes a (xs @ zs) mem) = write_bytes a (xs @ ys) mem"
proof
  fix b
  define i where "i = unat (b - a)"
  have b: "b = a + of_nat i" "i < 2 ^ 32" using unat_less_exp[of "b - a"] by (simp_all add: i_def)
  have w: "write_bytes a bs m (a + of_nat i) = (if i < length bs then bs ! i else m (a + of_nat i))" if "length bs \<le> 2 ^ 32" for bs m
    using write_at[of 0 bs i a m] that b(2) by simp
  show "write_bytes (a + of_nat (length xs)) ys (write_bytes a (xs @ zs) mem) b = write_bytes a (xs @ ys) mem b"
    unfolding b(1) write_at[OF assms(1)[unfolded length_append] b(2)] using assms w[of "xs @ zs"] w[of "xs @ ys"]
    by (simp add: nth_append)
qed

lemma nat_digits_le: "n < 10 ^ k \<Longrightarrow> length (nat_digits 10 n) \<le> max 1 k"
proof (induction k arbitrary: n)
  case (Suc k)
  show ?case
  proof (cases "n < 10")
    case False
    have "n div 10 < 10 ^ k" using Suc.prems by (simp add: less_mult_imp_div_less mult.commute)
    moreover have "k \<noteq> 0" using False Suc.prems by (cases k) auto
    ultimately show ?thesis using Suc.IH[of "n div 10"] False by (simp add: nat_digits.simps[of _ n])
  qed (simp add: nat_digits_small)
qed (simp add: nat_digits_small)

definition digit_char :: "nat \<Rightarrow> u8" where "digit_char d = 0x30 + of_nat d"

lemma decimal_chars: "decimal n = map digit_char (nat_digits 10 n)"
  by (simp add: decimal_def digit_char_def)

lemma ucast_digit: "ucast (d + 0x30 :: u32) = digit_char (unat d)"
proof -
  have "ucast (of_nat m :: u32) = (of_nat m :: u8)" for m
    by (simp add: word_unat_eq_iff unat_ucast_mod unsigned_of_nat take_bit_eq_mod mod_mod_cancel)
  from this[of "unat d + 0x30"] show ?thesis by (simp add: digit_char_def add.commute)
qed

lemma pow10: "k \<le> 5 \<Longrightarrow> unat (10 ^ k :: u32) = 10 ^ k"
proof -
  assume "k \<le> 5"
  then have "k = 0 \<or> k = 1 \<or> k = 2 \<or> k = 3 \<or> k = 4 \<or> k = 5" by arith
  then show ?thesis by (elim disjE) simp_all
qed

lemma loss_loop_digits:
  assumes "k \<le> 6" "unat d < 10 ^ k"
  shows "\<exists>T. loss_loop body d got (if k = 0 then 0 else 10 ^ (k - 1)) cursor mem
      = (cursor + of_nat (length T), write_bytes (body + cursor) T mem)
    \<and> T = map digit_char (if got then low_digits k (unat d) else if d = 0 then [] else nat_digits 10 (unat d))"
  using assms
proof (induction k arbitrary: d got cursor mem)
  case 0
  then show ?case by (simp add: loss_loop.simps low_digits_def write_bytes_def unat_eq_zero)
next
  case (Suc k)
  let ?m = "10 ^ k :: u32"
  have m: "unat ?m = 10 ^ k" "?m \<noteq> 0" using Suc.prems(1) pow10[of k] by (simp_all add: unat_eq_zero[symmetric] del: unat_eq_zero)
  have m': "?m div 10 = (if k = 0 then 0 else 10 ^ (k - 1))"
  proof (cases k)
    case (Suc j)
    then have "unat (?m div 10) = unat (10 ^ j :: u32)" using m(1) pow10[of j] \<open>Suc k \<le> 6\<close> by (simp add: unat_div)
    then show ?thesis using Suc by (simp add: word_unat_eq_iff)
  qed simp
  have q: "unat (d div ?m) = unat d div 10 ^ k" "unat (d mod ?m) = unat d mod 10 ^ k"
    using m(1) by (simp_all add: unat_div unat_mod)
  have q10: "unat d div 10 ^ k < 10" using Suc.prems(2) by (simp add: less_mult_imp_div_less)
  have low: "low_digits (Suc k) (unat d) = (unat d div 10 ^ k) # low_digits k (unat d mod 10 ^ k)"
    using q10 by (simp add: low_digits_Suc low_digits_mod)
  show ?case
  proof (cases "got \<or> d div ?m \<noteq> 0")
    case True
    have "unat (d mod ?m) < 10 ^ k" using q by simp
    then obtain T where T: "loss_loop body (d mod ?m) True (if k = 0 then 0 else 10 ^ (k - 1)) (cursor + 1)
        (write_bytes (body + cursor) [ucast (d div ?m + 0x30)] mem)
      = (cursor + 1 + of_nat (length T), write_bytes (body + (cursor + 1)) T (write_bytes (body + cursor) [ucast (d div ?m + 0x30)] mem))"
      "T = map digit_char (low_digits k (unat d mod 10 ^ k))"
      using Suc.IH[of "d mod ?m" True "cursor + 1" "write_bytes (body + cursor) [ucast (d div ?m + 0x30)] mem"] Suc.prems(1) q
      by auto
    have "length T \<le> 6" using T(2) Suc.prems(1) by (simp add: low_digits_def)
    then have "write_bytes (body + (cursor + 1)) T (write_bytes (body + cursor) [ucast (d div ?m + 0x30)] mem)
        = write_bytes (body + cursor) (digit_char (unat d div 10 ^ k) # T) mem"
      using write_bytes_over[of "[ucast (d div ?m + 0x30)]" T "[]" "body + cursor" mem]
      by (simp add: ucast_digit q add.assoc)
    moreover have "(if got then low_digits (Suc k) (unat d) else if d = 0 then [] else nat_digits 10 (unat d))
        = (unat d div 10 ^ k) # low_digits k (unat d mod 10 ^ k)"
    proof (cases got)
      case False
      then have "0 < unat d div 10 ^ k" using True q by (metis gr0I unat_eq_zero)
      then have "nat_digits 10 (unat d div 10 ^ k * 10 ^ k + unat d mod 10 ^ k) = [unat d div 10 ^ k] @ low_digits k (unat d mod 10 ^ k)"
        using q10 by (subst nat_digits_low) (simp_all add: nat_digits_small)
      then have "nat_digits 10 (unat d) = [unat d div 10 ^ k] @ low_digits k (unat d mod 10 ^ k)" by (metis div_mult_mod_eq)
      moreover have "d \<noteq> 0" using True False by auto
      ultimately show ?thesis using False by simp
    qed (simp add: low)
    ultimately show ?thesis
      using True m(2) T by (subst loss_loop.simps) (simp add: m' Let_def)
  next
    case False
    then have "unat d div 10 ^ k = 0" using q by simp
    then have "unat d < 10 ^ k" by (simp add: div_eq_0_iff)
    then show ?thesis
      using Suc.IH[of d got cursor mem] Suc.prems(1) False m(2) by (subst loss_loop.simps) (simp add: m' Let_def)
  qed
qed

lemma decimal_length: "n < 10 ^ 6 \<Longrightarrow> 1 \<le> length (decimal n) \<and> length (decimal n) \<le> 6"
  using nat_digits_le[of n 6] by (simp add: decimal_chars) (simp add: nat_digits.simps[of _ n] Suc_le_eq)

text \<open>The number as the loop prints it: from a million on the first of its six characters is not a digit any more.\<close>

definition loss_number :: "nat \<Rightarrow> u8 list" where
  "loss_number n = (if n < 1000000 then decimal n else map digit_char (n div 100000 # low_digits 5 (n mod 100000)))"

lemma loss_number_length: "1 \<le> length (loss_number n) \<and> length (loss_number n) \<le> 6"
  using decimal_length[of n] by (simp add: loss_number_def low_digits_def)

lemma loss_loop_number:
  assumes "0 < n" "n < 2 ^ 32"
  shows "loss_loop body (of_nat n) False 100000 cursor mem
    = (cursor + of_nat (length (loss_number n)), write_bytes (body + cursor) (loss_number n) mem)"
proof -
  have n: "unat (of_nat n :: u32) = n" "(of_nat n :: u32) \<noteq> 0"
    using assms by (simp_all add: unsigned_of_nat take_bit_nat_eq_self flip: unat_eq_zero)
  show ?thesis
  proof (cases "n < 1000000")
    case True
    then show ?thesis
      using loss_loop_digits[of 6 "of_nat n" body False cursor mem] n by (simp add: decimal_chars loss_number_def)
  next
    case False
    let ?d = "of_nat n :: u32"
    have q: "unat (?d div 100000) = n div 100000" "unat (?d mod 100000) = n mod 100000" using n by (simp_all add: unat_div unat_mod)
    then have nz: "?d div 100000 \<noteq> 0" using False by (auto simp flip: unat_eq_zero)
    let ?c = "[digit_char (n div 100000)]" and ?T = "map digit_char (low_digits 5 (n mod 100000))"
    have "loss_loop body (?d mod 100000) True 10000 (cursor + 1) (write_bytes (body + cursor) ?c mem)
        = (cursor + 1 + of_nat (length ?T), write_bytes (body + (cursor + 1)) ?T (write_bytes (body + cursor) ?c mem))"
      using loss_loop_digits[of 5 "?d mod 100000" body True "cursor + 1" "write_bytes (body + cursor) ?c mem"] q by simp
    moreover have "write_bytes (body + (cursor + 1)) ?T (write_bytes (body + cursor) ?c mem) = write_bytes (body + cursor) (?c @ ?T) mem"
      using write_bytes_over[of ?c ?T "[]" "body + cursor" mem] by (simp add: low_digits_def add.assoc)
    ultimately show ?thesis
      using False nz by (subst loss_loop.simps) (simp add: Let_def ucast_digit q loss_number_def)
  qed
qed

definition loss_message :: "nat \<Rightarrow> u8 list" where
  "loss_message n = loss_str1 @ loss_number n @ loss_str2"

lemma loss_lengths: "length loss_str1 = 21" "length loss_str2 = 26"
  by (simp_all add: loss_str1_def loss_str2_def ascii_def)

lemma write_loss_bytes:
  assumes "0 < n" "n < 2 ^ 32"
  shows "write_loss body (of_nat n) cursor mem
    = (cursor + of_nat (length (loss_message n)), write_bytes (body + cursor) (loss_message n @ [0]) mem)"
proof -
  let ?c1 = "cursor + of_nat (length loss_str1)" and ?m1 = "write_bytes (body + cursor) (loss_str1 @ [0]) mem"
  have "write_bytes (body + ?c1) (loss_number n) ?m1 = write_bytes (body + cursor) (loss_str1 @ loss_number n) mem"
    using write_bytes_over[of loss_str1 "loss_number n" "[0]" "body + cursor" mem] loss_number_length[of n]
    by (simp add: loss_lengths add.assoc)
  moreover have "write_bytes (body + (?c1 + of_nat (length (loss_number n)))) (loss_str2 @ [0])
      (write_bytes (body + cursor) (loss_str1 @ loss_number n) mem) = write_bytes (body + cursor) (loss_message n @ [0]) mem"
    using write_bytes_over[of "loss_str1 @ loss_number n" "loss_str2 @ [0]" "[]" "body + cursor" mem] loss_number_length[of n]
    by (simp add: loss_lengths loss_message_def add.assoc)
  ultimately show ?thesis using loss_loop_number[OF assms, of body ?c1 ?m1] by (simp add: write_loss_def loss_message_def add.assoc)
qed

section \<open>Moving the log\<close>

text \<open>No byte of the log at \<open>q\<close> lies in the log at \<open>p\<close>.\<close>

definition logs_apart :: "u32 \<Rightarrow> nat \<Rightarrow> u32 \<Rightarrow> nat \<Rightarrow> bool" where
  "logs_apart p n q m \<longleftrightarrow> (\<forall>i < 8 + m. 8 + n \<le> unat (q + of_nat i - p))"

lemma logs_apart_fit:
  assumes "logs_apart p n q m" shows "n + m + 16 \<le> 2 ^ 32"
proof -
  have "8 + n \<le> unat (q - p)" using assms by (auto simp: logs_apart_def dest: spec[of _ 0])
  moreover have "unat (q - p) + (8 + m) \<le> 2 ^ 32"
  proof (rule ccontr)
    assume far: "\<not> unat (q - p) + (8 + m) \<le> 2 ^ 32"
    define i where "i = 2 ^ 32 - unat (q - p)"
    have "i < 8 + m" "unat (q - p) + i = 2 ^ 32" using far unat_less_exp[of "q - p"] by (simp_all add: i_def)
    moreover have "q + of_nat i - p = of_nat (unat (q - p) + i)" by (simp add: algebra_simps)
    ultimately show False using assms by (auto simp: logs_apart_def dest: spec[of _ i])
  qed
  ultimately show ?thesis by linarith
qed

lemma log_at_body: "log_at mem p n s \<Longrightarrow> k \<le> n \<Longrightarrow> k \<le> length s \<Longrightarrow> mem_bytes mem (p + 8) k = take k s"
  by (auto simp: log_at_parts holds_def mem_bytes_def add.assoc intro!: nth_equalityI)



text \<open>The routine in natural numbers: \<open>c\<close> is what is copied without a loss.\<close>

lemma copy_console_buffer_nat:
  assumes old: "log_at mem old n s" and new: "log_at mem new m r"
    and small: "n + m < 2 ^ 32" "length s < 2 ^ 32 - 80"
    and c_def: "c = (if m < length r then 0 else min (min (length s) n) (m - length r))"
  shows "copy_console_buffer old new mem = (if c \<noteq> length s \<and> c < 80 then mem
      else if c = length s then write32 (new + 4) (of_nat (length r) + of_nat c) (memcpy (new + 8 + of_nat (length r)) (old + 8) (of_nat c) mem)
      else let (cursor, mem) = write_loss (new + 8) (of_nat (length s - c + 80)) (of_nat (length r) + of_nat (c - 80))
                 (memcpy (new + 8 + of_nat (length r)) (old + 8) (of_nat (c - 80)) mem)
           in write32 (new + 4) cursor mem)"
proof -
  have os: "read32 mem old = of_nat n" "read32 mem (old + 4) = of_nat (length s)"
    and ns: "read32 mem new = of_nat m" "read32 mem (new + 4) = of_nat (length r)"
    using log_at_reads[OF old] log_at_reads[OF new] by simp_all
  have u: "unat (of_nat n :: u32) = n" "unat (of_nat (length s) :: u32) = length s"
    "unat (of_nat m :: u32) = m" "unat (of_nat (length r) :: u32) = length r"
    using log_at_size[OF old] log_at_size[OF new] by simp_all
  define l where "l = length s" define k where "k = length r"
  have l: "c \<le> l" "c \<le> n" "l < 2 ^ 32 - 80" using small by (auto simp: c_def l_def)
  have kc: "c = 0 \<or> k + c \<le> m" by (auto simp: c_def k_def)
  have c32: "unat (of_nat c :: u32) = c" "unat (of_nat (c - 80) :: u32) = c - 80"
    using l by (simp_all add: unsigned_of_nat take_bit_nat_eq_self)
  have cs1: "(if (of_nat l :: u32) < of_nat n then of_nat l else of_nat n) = (of_nat (min l n) :: u32)"
    using u by (auto simp: word_less_nat_alt min_def l_def)
  have cs2: "(if (of_nat m :: u32) < of_nat k then 0 else if (of_nat m :: u32) < of_nat k + of_nat (min l n) then of_nat m - of_nat k
      else of_nat (min l n)) = (of_nat c :: u32)"
  proof (cases "m < k")
    case False
    define x where "x = min l n"
    have "k + x < 2 ^ 32" using False small(1) by (simp add: x_def)
    then have "unat (of_nat k + of_nat x :: u32) = k + x" by (simp add: unsigned_of_nat take_bit_nat_eq_self flip: of_nat_add)
    then have lt: "((of_nat m :: u32) < of_nat k + of_nat x) = (m < k + x)" using u(3) by (simp only: word_less_nat_alt)
    have lt': "((of_nat m :: u32) < of_nat k) = False" using u(3,4) False by (simp only: word_less_nat_alt k_def)
    have "c = min x (m - k)" using False by (simp add: c_def x_def k_def l_def)
    then have "c = (if m < k + x then m - k else x)" using False by (auto simp: min_def)
    then show ?thesis using False unfolding x_def[symmetric] lt lt' by (cases "m < k + x") (simp_all add: of_nat_diff)
  qed (use u in \<open>simp add: word_less_nat_alt k_def c_def\<close>)
  have un: "(of_nat x = (0 :: u32)) = (x = 0)" if "x < 2 ^ 32" for x
    using that by (auto simp: unsigned_of_nat take_bit_nat_eq_self simp flip: unat_eq_zero)
  have d: "(of_nat l :: u32) - of_nat c = of_nat (l - c)" "(of_nat (l - c) :: u32) + 80 = of_nat (l - c + 80)"
    "80 \<le> c \<Longrightarrow> (of_nat c :: u32) - 80 = of_nat (c - 80)"
    using l by (simp_all add: of_nat_diff)
  have d': "(of_nat (l - c) = (0 :: u32)) = (c = l)" "of_nat (l - c + 80) \<noteq> (0 :: u32)" "((of_nat c :: u32) < 80) = (c < 80)"
    using l un[of "l - c"] un[of "l - c + 80"] c32(1) by (auto simp: word_less_nat_alt simp del: of_nat_diff of_nat_add)
  show ?thesis
    unfolding l_def[symmetric] k_def[symmetric] copy_console_buffer_def os ns cs1 Let_def cs2 d(1) d'(1,3) d(2)
    using d(3) d'(2) by (cases "c = l"; cases "c < 80") (simp_all del: of_nat_diff of_nat_add)
qed

lemma copy_console_buffer_fits:
  assumes old: "log_at mem old n s" and new: "log_at mem new m r"
    and small: "n + m < 2 ^ 32" "length s < 2 ^ 32 - 80" and fits: "length s \<le> n" "length r + length s \<le> m"
  shows "log_at (copy_console_buffer old new mem) new m (r @ s)" "within new (8 + m) mem (copy_console_buffer old new mem)"
proof -
  have "length s = (if m < length r then 0 else min (min (length s) n) (m - length r))" using fits by auto
  note copy = copy_console_buffer_nat[OF old new small this]
  have "unat (of_nat (length s) :: u32) = length s" using log_at_size[OF old] by simp
  then have "memcpy a (old + 8) (of_nat (length s)) mem = write_bytes a s mem" for a
    using log_at_body[OF old fits(1)] by (simp add: memcpy_bytes)
  then show "log_at (copy_console_buffer old new mem) new m (r @ s)" "within new (8 + m) mem (copy_console_buffer old new mem)"
    using copy log_at_write[OF new, of s "[]"] fits small by simp_all
qed

text \<open>What the new log, with room for \<open>m\<close> bytes, has received after \<open>r\<close> when the old one, with room for \<open>n\<close>, had received \<open>s\<close>.\<close>

definition moved_log :: "nat \<Rightarrow> nat \<Rightarrow> u8 list \<Rightarrow> u8 list \<Rightarrow> u8 list" where
  "moved_log n m r s =
     (let c = (if m < length r then 0 else min (min (length s) n) (m - length r)) in
      if c = length s then r @ s
      else if c < 80 then r
      else r @ take (c - 80) s @ loss_str1 @ loss_number (length s - c + 80) @ loss_str2)"

lemma moved_log_all: "length s \<le> n \<Longrightarrow> length r + length s \<le> m \<Longrightarrow> moved_log n m r s = r @ s"
  by (auto simp: moved_log_def Let_def)

lemma copy_console_buffer_moves:
  assumes old: "log_at mem old n s" and new: "log_at mem new m r"
    and small: "n + m < 2 ^ 32" "length s < 2 ^ 32 - 80"
  defines "c \<equiv> (if m < length r then 0 else min (min (length s) n) (m - length r))"
  shows "log_at (copy_console_buffer old new mem) new m (moved_log n m r s)" "within new (8 + m) mem (copy_console_buffer old new mem)"
    "c \<noteq> length s \<Longrightarrow> c < 80 \<Longrightarrow> copy_console_buffer old new mem = mem"
proof -
  note copy = copy_console_buffer_nat[OF old new small meta_eq_to_obj_eq[OF c_def]]
  note moved = moved_log_def[of n m r s, folded c_def, unfolded Let_def]
  have c: "c \<le> length s" "c \<le> n" "c = 0 \<or> length r + c \<le> m" by (auto simp: c_def)
  have n: "8 + n \<le> 2 ^ 32" "8 + m \<le> 2 ^ 32" "length r < 2 ^ 32" using old new by (simp_all add: log_at_def)
  have bytes: "memcpy a (old + 8) (of_nat j) mem = write_bytes a (take j s) mem" if "j \<le> c" for a j
    using log_at_body[OF old, of j] that c log_at_size[OF old] n(1)
    by (simp add: memcpy_bytes unsigned_of_nat take_bit_nat_eq_self)
  show "copy_console_buffer old new mem = mem" if "c \<noteq> length s" "c < 80" using copy that by simp
  consider (all) "c = length s" | (none) "c \<noteq> length s" "c < 80" | (some) "c \<noteq> length s" "80 \<le> c" by linarith
  then have "log_at (copy_console_buffer old new mem) new m (moved_log n m r s) \<and> within new (8 + m) mem (copy_console_buffer old new mem)"
  proof cases
    case all
    show ?thesis
    proof (cases "length r + length s \<le> m")
      case True
      then show ?thesis
        using copy_console_buffer_fits[OF old new small] all c by (simp add: moved)
    next
      case False
      then have "s = []" "m \<le> length r" using all c by auto
      moreover have "moved_log n m r s = r @ s" using all by (simp add: moved)
      ultimately show ?thesis
        using log_at_cursor[OF new, of r] copy all bytes[of 0] n within_write_word[of 4 "8 + m" new mem]
        by (simp add: write_bytes_def)
    qed
  next
    case none
    then show ?thesis using copy new by (simp add: moved)
  next
    case some
    define lost where "lost = length s - c + 80"
    have lost: "0 < lost" "lost < 2 ^ 32" using small(2) by (simp_all add: lost_def)
    let ?bs = "take (c - 80) s @ loss_message lost"
    have fit: "length r + length ?bs + length [0 :: u8] \<le> m"
      using c some loss_number_length[of lost] by (auto simp: loss_message_def loss_lengths)
    have "write_loss (new + 8) (of_nat lost) (of_nat (length r) + of_nat (c - 80))
          (memcpy (new + 8 + of_nat (length r)) (old + 8) (of_nat (c - 80)) mem)
        = (of_nat (length r + length ?bs), write_bytes (new + 8 + of_nat (length r)) (?bs @ [0]) mem)"
      using write_bytes_over[of "take (c - 80) s" "loss_message lost @ [0]" "[]" "new + 8 + of_nat (length r)" mem] c fit n
      by (simp add: write_loss_bytes[OF lost] bytes min_absorb2 add.assoc)
    then have "copy_console_buffer old new mem = write32 (new + 4) (of_nat (length r + length ?bs))
        (write_bytes (new + 8 + of_nat (length r)) (?bs @ [0]) mem)"
      using copy some by (simp add: lost_def)
    then have "log_at (copy_console_buffer old new mem) new m (r @ ?bs)" "within new (8 + m) mem (copy_console_buffer old new mem)"
      using log_at_write[OF new, of ?bs "[0]"] fit n by simp_all
    then show ?thesis using some by (simp add: moved lost_def loss_message_def)
  qed
  then show "log_at (copy_console_buffer old new mem) new m (moved_log n m r s)" "within new (8 + m) mem (copy_console_buffer old new mem)" by blast+
qed


lemma log_at_kept:
  assumes "log_at mem q m r" "within p (8 + n) mem mem'" "logs_apart p n q m"
  shows "log_at mem' q m r"
proof -
  have same: "mem' (q + of_nat i) = mem (q + of_nat i)" if "i < 8 + m" for i
    using assms(2,3) that by (simp add: within_def logs_apart_def)
  have "length (log_bytes m r) \<le> 8 + m" by (simp add: log_bytes_def)
  then have "holds mem' q 0 (map Some (log_bytes m r)) = holds mem q 0 (map Some (log_bytes m r))"
    by (intro holds_cong) (auto intro!: same simp del: of_nat_add)
  then show ?thesis using assms(1) by (simp add: log_at_def)
qed

lemma init_console_ptr_within: "8 + n \<le> 2 ^ 32 \<Longrightarrow> within p (8 + n) mem (snd (init_console_ptr p sz mem))"
  using within_write[of 0 "bytes32 (sz - 8)" "8 + n" p mem] within_write[of 4 "bytes32 0" "8 + n" p "write32 p (sz - 8) mem"]
  by (auto simp: init_console_ptr_def write32_def intro: within_trans)

lemma logs_apart_far: "unat (q - p) = k \<Longrightarrow> 8 + n \<le> k \<Longrightarrow> k + 8 + m \<le> 2 ^ 32 \<Longrightarrow> logs_apart p n q m"
proof -
  assume k: "unat (q - p) = k" "8 + n \<le> k" "k + 8 + m \<le> 2 ^ 32"
  have "8 + n \<le> unat (q + of_nat i - p)" if "i < 8 + m" for i
  proof -
    have "q + of_nat i - p = of_nat (k + i)" using k(1) by (simp add: algebra_simps flip: k(1))
    then show ?thesis using that k by (simp add: unsigned_of_nat take_bit_nat_eq_self del: of_nat_add)
  qed
  then show ?thesis by (simp add: logs_apart_def)
qed

text \<open>An old log with room for 200 bytes, which has received 150, and an empty new one with room for 100.\<close>

definition example_logs :: memory where
  "example_logs = fold (cbmemc_tx_byte 0x1000) (replicate 150 0x78)
     (snd (init_console_ptr 0x1000 208 (snd (init_console_ptr 0x2000 108 (\<lambda>_. 0)))))"

lemma example_logs: "log_at example_logs 0x1000 200 (replicate 150 0x78)" "log_at example_logs 0x2000 100 []"
  "logs_apart 0x2000 100 0x1000 200"
proof -
  let ?m1 = "snd (init_console_ptr 0x2000 108 (\<lambda>_. 0))" let ?m2 = "snd (init_console_ptr 0x1000 208 ?m1)"
  have new: "log_at ?m1 0x2000 100 []" using init_console_ptr_log[of "0x2000" 100 "\<lambda>_. 0"] by simp
  have "log_at ?m2 0x1000 200 []" using init_console_ptr_log[of "0x1000" 200 ?m1] by simp
  from cbmemc_tx_fold[OF this, of "replicate 150 0x78"]
  have tx: "log_at example_logs 0x1000 200 (replicate 150 0x78)" "within 0x1000 (8 + 200) ?m2 example_logs"
    by (simp_all add: example_logs_def)
  have ap: "logs_apart 0x1000 200 0x2000 100" "logs_apart 0x2000 100 0x1000 200"
    by (rule logs_apart_far, simp, simp, simp)+
  have "within 0x1000 (8 + 200) ?m1 ?m2" by (rule init_console_ptr_within) simp
  then have "within 0x1000 (8 + 200) ?m1 example_logs" using tx(2) by (rule within_trans)
  then show "log_at example_logs 0x2000 100 []" using log_at_kept[OF new _ ap(1)] by blast
  show "log_at example_logs 0x1000 200 (replicate 150 0x78)" "logs_apart 0x2000 100 0x1000 200" by (rule tx ap)+
qed


text \<open>C30.  When CBMEM becomes available, the log moves into it: if the table of firmware memory has no log yet and room for
  one, \<^verbatim>\<open>cbmemc_reinit\<close> adds an area of the configured size for it that \<^verbatim>\<open>cbmem_find\<close> (and so the coreboot table) gives
  out afterwards; a log that is there already is used, after what it has received.  What the new log has received then is
  what \<^verbatim>\<open>copy_console_buffer\<close> leaves there (C28): all of the old log after it, if that is still complete and fits; else the
  beginning and a message; or nothing of it.  Nothing outside of the area changes.  Without room for an area there is no log and memory
  stays as it is.  The old log has received less than 4294967216 bytes and does not overlap the area.\<close>

theorem cbmemc_reinit_moves_log:
  assumes wf: "cbmem_wf c es" and old: "log_at mem current n s" and small: "length s < 2 ^ 32 - 80" and len: "8 + m \<le> 2 ^ 32"
    and fresh: "CBMEM_ID_CONSOLE \<notin> cm_id ` set es \<Longrightarrow> r = []"
    and found: "CBMEM_ID_CONSOLE \<in> cm_id ` set es \<Longrightarrow> log_at mem (fst (cbmem_find tbl CBMEM_ID_CONSOLE c)) m r"
    and run: "cbmemc_reinit tbl (of_nat (8 + m)) current (mem, c) = (p, mem', c')"
    and ap: "p \<noteq> 0 \<Longrightarrow> logs_apart p m current n"
  shows "(p = 0 \<longleftrightarrow> CBMEM_ID_CONSOLE \<notin> cm_id ` set es \<and> (cm_size (free_entry c) < ucast (of_nat (8 + m) :: u32) \<or> length es = 15))
    \<and> (p = 0 \<longrightarrow> mem' = mem \<and> c' = c)
    \<and> (p \<noteq> 0 \<longrightarrow> log_at mem' p m (moved_log n m r s) \<and> fst (cbmem_find tbl CBMEM_ID_CONSOLE c') = p \<and> within p (8 + m) mem mem')
    \<and> (length s \<le> n \<and> length r + length s \<le> m \<longrightarrow> moved_log n m r s = r @ s)"
proof -
  have valid: "cbmem_id_valid CBMEM_ID_CONSOLE" by (simp add: cbmem_id_valid_def)
  show ?thesis
  proof (cases "CBMEM_ID_CONSOLE \<in> cm_id ` set es")
    case True
    let ?p = "fst (cbmem_find tbl CBMEM_ID_CONSOLE c)"
    have find: "cbmem_find tbl CBMEM_ID_CONSOLE c = (?p, c)" by (rule cbmem_find_state[OF wf valid])
    have l: "log_at mem ?p m r" "?p \<noteq> 0" using found[OF True] by (simp_all add: log_at_def)
    then have p: "p = ?p" "mem' = copy_console_buffer current ?p mem" "c' = c"
      using run find by (auto simp: cbmemc_reinit_def Let_def split: prod.splits)
    have "n + m < 2 ^ 32" using logs_apart_fit[OF ap] p(1) l(2) by simp
    then show ?thesis
      using copy_console_buffer_moves[OF old l(1) _ small] p l(2) True moved_log_all[of s n r m] by auto
  next
    case False
    then have "entry_of es CBMEM_ID_CONSOLE = None" by (auto simp: entry_of_None)
    then have find: "cbmem_find tbl CBMEM_ID_CONSOLE c = (0, c)" using cbmem_find_wf[OF wf, of CBMEM_ID_CONSOLE tbl] by simp
    obtain q c2 where add: "cbmem_add tbl CBMEM_ID_CONSOLE (ucast (of_nat (8 + m) :: u32)) c = (q, c2)" by force
    note added = cbmem_add_correct[OF wf valid add]
    let ?m = "snd (init_console_ptr q (of_nat (8 + m)) mem)"
    have run': "p = q" "c' = c2" "mem' = (if q = 0 then mem else copy_console_buffer current q ?m)"
      using run unfolding cbmemc_reinit_def init_console_ptr_def Let_def prod.case find add
      by (auto split: if_splits)
    have "log_at mem' p m (moved_log n m [] s) \<and> within p (8 + m) mem mem'" if q: "q \<noteq> 0"
    proof -
      have w: "within q (8 + m) mem ?m" by (rule init_console_ptr_within[OF len])
      have "log_at ?m q m []" by (rule init_console_ptr_log[OF q len])
      moreover have "log_at ?m current n s" using log_at_kept[OF old w] ap q run' by simp
      moreover have "n + m < 2 ^ 32" using logs_apart_fit[OF ap] q run' by simp
      ultimately show ?thesis
        using copy_console_buffer_moves[of ?m current n s q m "[]"] small q run' w within_trans by fastforce
    qed
    then show ?thesis using added run' False fresh moved_log_all[of s n r m] by auto
  qed
qed

lemma cbmemc_reinit_moves_log_witness:
  "\<exists>p mem' c'. cbmemc_reinit (0x1000000, 0x20000) 0x10000 0x1000 (example_logs, example_cbmem) = (p, mem', c') \<and> p \<noteq> 0
    \<and> log_at mem' p 0xfff8 (replicate 150 0x78) \<and> fst (cbmem_find (0x1000000, 0x20000) CBMEM_ID_CONSOLE c') = p"
proof -
  obtain p mem' c' where run: "cbmemc_reinit (0x1000000, 0x20000) 0x10000 0x1000 (example_logs, example_cbmem) = (p, mem', c')"
    by (metis prod_cases3)
  have "p = 0x1000200"
  proof -
    have none: "entry_of [] CBMEM_ID_CONSOLE = None" by (simp add: entry_of_def)
    have base: "cm_base (free_entry example_cbmem) = 0x1000200"
      by (simp add: example_cbmem_def free_entry_def cbmem_recovery_def cbmem_check_toc_def cbmem_initialize_empty_def
          cbmem_locate_table_def Let_def)
    obtain c2 where "cbmem_add (0x1000000, 0x20000) CBMEM_ID_CONSOLE (ucast (0x10000 :: u32)) example_cbmem
        = (ucast (cm_base (added example_cbmem CBMEM_ID_CONSOLE (ucast (0x10000 :: u32)))), c2)"
      using cbmem_add_new[OF example_cbmem_wf _ _ none, of "ucast (0x10000 :: u32)" "(0x1000000, 0x20000)"] example_cbmem_free
      by auto
    then show ?thesis
      using run cbmem_find_wf[OF example_cbmem_wf, of CBMEM_ID_CONSOLE "(0x1000000, 0x20000)"] none base
      by (simp add: cbmemc_reinit_def added_def)
  qed
  then have "logs_apart p 0xfff8 0x1000 200"
    by (simp only:) (rule logs_apart_far, simp, simp, simp)
  moreover have "cbmemc_reinit (0x1000000, 0x20000) (of_nat (8 + 0xfff8)) 0x1000 (example_logs, example_cbmem) = (p, mem', c')"
    using run by simp
  ultimately show ?thesis
    using cbmemc_reinit_moves_log[where m = "0xfff8" and r = "[]" and tbl = "(0x1000000, 0x20000)" and p = p and mem' = mem' and c' = c',
        OF example_cbmem_wf example_logs(1)] run
      example_cbmem_free by auto
qed
end
