(* ===== verification/Spec2Isabelle.thy ===== *)
theory Spec2Isabelle
  imports Mtrr Acpigen Cmos Bootstate Cbfs Checksum Pcienum Cbparse Conslog
begin

text \<open>
  A verification development for the firmware of the PC Engines apu board, a coreboot tree.
  It models the code that the board's own boot path runs in the ramstage: the boot state
  machine, the device tree with its resource allocator, the memory map and the processor's
  memory types, the ACPI byte code generator, the CMOS options, the firmware's memory and the
  payload loader.

  \<^bold>\<open>How the parts interact.\<close>  \<^verbatim>\<open>main\<close> (\<^verbatim>\<open>src/lib/hardwaremain.c\<close>) walks through the boot states.  The
  states call the device functions of \<^verbatim>\<open>src/device/device.c\<close>: scan the buses, allocate
  resources, enable and initialise every device; \<^verbatim>\<open>src/device/pci_device.c\<close> gives the operations of
  PCI functions and bridges.  A device's resources are lists of structures
  from the helper functions of \<^verbatim>\<open>src/device/device_util.c\<close>, which take memory from
  \<^verbatim>\<open>src/lib/malloc.c\<close>.  The memory resources of the tree become a list of tagged ranges
  (\<^verbatim>\<open>src/lib/memrange.c\<close>), from which \<^verbatim>\<open>src/cpu/x86/mtrr/mtrr.c\<close> computes the memory type
  registers.  The ACPI tables use the generator of \<^verbatim>\<open>src/arch/x86/boot/acpigen.c\<close>; options come
  from \<^verbatim>\<open>src/drivers/pc80/mc146818rtc.c\<close>.  At the end the memory resources and the firmware's own
  memory (\<^verbatim>\<open>src/lib/cbmem.c\<close>) make the map for the payload (\<^verbatim>\<open>src/lib/bootmem.c\<close>), from which the
  loader (\<^verbatim>\<open>src/lib/selfboot.c\<close>) takes the buffer for what lies on the running coreboot; it finds
  the payload in the flash file system (\<^verbatim>\<open>src/lib/cbfs_core.c\<close>).  The payload reads that map, with the names of
  the board and the addresses of the other tables, from the coreboot table (\<^verbatim>\<open>src/lib/coreboot_table.c\<close>).
  Messages go through the printer of \<^verbatim>\<open>src/console/vtxprintf.c\<close> to the serial port and to a log that moves into the
  firmware's memory, where the coreboot table points to it.

  \<^bold>\<open>Theories and what they model.\<close>
  \<^item> \<open>Prelude\<close>: names of the machine integers, the alignment macros of \<^verbatim>\<open>stdlib.h\<close> and word lemmas
    used everywhere (a sum that does not wrap, alignment as division).
  \<^item> \<open>Heap\<close> (\<^verbatim>\<open>lib/malloc.c\<close>): \<open>heap\<close> is the pair of \<^verbatim>\<open>free_mem_ptr\<close> and \<^verbatim>\<open>free_mem_end_ptr\<close>;
    \<open>memalign\<close> and \<open>malloc\<close> return \<open>None\<close> where the code dies.  The locale \<open>bump_allocator\<close> is the
    contract that blocks are disjoint and inside the heap, interpreted on \<open>malloc\<close>.
  \<^item> \<open>Devtree\<close> (\<^verbatim>\<open>device/device_util.c\<close>, \<^verbatim>\<open>include/device\<close>): records \<open>resource\<close>, \<open>device\<close>, \<open>bus\<close>,
    \<open>device_operations\<close>, \<open>chip_operations\<close> and the whole \<open>devtree\<close>, maps from names to devices and
    buses.  Searches by path, slot or class, the resource lists, the walks over resources
    (\<open>search_bus_resources\<close>, \<open>search_global_resources\<close>), enabling and disabling.
  \<^item> \<open>Resalloc\<close> (\<^verbatim>\<open>device/device.c\<close>): the two passes of the allocator (\<open>compute_resources\<close>,
    \<open>allocate_resources\<close>), resources at fixed places (\<open>avoid_fixed_resources\<close>), VGA and
    \<open>dev_configure\<close>.  The locale \<open>tree_pass\<close> states what a pass over a bus may touch; both passes
    interpret it.
  \<^item> \<open>Devinit\<close> (\<^verbatim>\<open>device/device.c\<close>): chips, new devices, scanning and resetting buses, and the walks
    of \<^verbatim>\<open>dev_enable\<close>, \<^verbatim>\<open>dev_initialize\<close>, \<^verbatim>\<open>dev_finalize\<close>.  The locale \<open>device_walk\<close> turns a recursive
    walk into a run over a list; the three walks interpret it.
  \<^item> \<open>Pciconf\<close> (\<^verbatim>\<open>device/pci_device.c\<close>): the registers of one PCI function, with what a write leaves in
    each byte as a parameter; moving bits, capabilities, sizing of base address registers, ROM and
    bridge windows, and storing assigned resources.
  \<^item> \<open>Pciscan\<close> (\<^verbatim>\<open>device/pci_device.c\<close>, \<^verbatim>\<open>device/pciexp_device.c\<close>, \<^verbatim>\<open>device/pci_ops.c\<close>,
    \<^verbatim>\<open>arch/x86/lib/pci_ops_conf1.c\<close>): the machine \<open>pci_state\<close> is the device tree with the hardware and the memory pool;
    port accesses, probing, drivers, the scan of buses and of PCI and PCI Express bridges, enabling of resources,
    interrupt pins.
  \<^item> \<open>Pcitree\<close>, \<open>Pcienum\<close>: no code of their own.  Hardware as a tree of functions and bridges, the
    routing of configuration accesses by bus numbers, and the proof by induction on the depth of
    the hierarchy that the scan mirrors it.  \<open>domain_ready\<close> is what this asks for: functions that a driver or
    the file serves, static devices of the root bus or none, at most 255 bridges, and \<open>tame\<close> hooks.
  \<^item> \<open>Bootstate\<close> (\<^verbatim>\<open>lib/hardwaremain.c\<close>, \<^verbatim>\<open>include/bootstate.h\<close>): the states, the callback
    structures linked in a store, blocking and unblocking, the walk and \<^verbatim>\<open>main\<close>; it runs the
    device functions of the theories above on the tree of the machine.
  \<^item> \<open>Memrange\<close> (\<^verbatim>\<open>lib/memrange.c\<close>): the list of ranges with its pool of free entries; insertion,
    holes, retagging, filling and the collection of the tree's memory resources.
  \<^item> \<open>Mtrr\<close> (\<^verbatim>\<open>cpu/x86/mtrr/mtrr.c\<close>): the processor is its model specific registers and CR0; fixed
    and variable range registers, the choice of the default type, and what memory type the
    processor then gives an address.
  \<^item> \<open>Acpigen\<close> (\<^verbatim>\<open>arch/x86/boot/acpigen.c\<close>): the output buffer and the stack of open packages; every
    generator, against an independent definition of the byte code it should emit.
  \<^item> \<open>Cmos\<close> (\<^verbatim>\<open>drivers/pc80/mc146818rtc.c\<close>): the battery-backed RAM behind its index and data ports,
    the checksum, and options found in the bytes of the option table.
  \<^item> \<open>Cbmem\<close> (\<^verbatim>\<open>lib/cbmem.c\<close>): the table of firmware memory at the top of RAM; setting up, adding
    and finding areas by name.  The locale \<open>directory\<close> states what later additions keep.
  \<^item> \<open>Bootmem\<close> (\<^verbatim>\<open>lib/bootmem.c\<close>, \<^verbatim>\<open>include/boot/coreboot_tables.h\<close>): the memory map for the payload on
    top of \<open>Memrange\<close>, its table, the test for RAM and the search for a buffer.
  \<^item> \<open>Selfboot\<close> (\<^verbatim>\<open>lib/selfboot.c\<close>, \<^verbatim>\<open>arch/x86/boot/boot.c\<close>): the payload loader: the list of segments,
    slices of segments that meet coreboot, the bounce buffer, loading, and the copy before the jump.
  \<^item> \<open>Cbfs\<close> (\<^verbatim>\<open>lib/cbfs_core.c\<close>, \<^verbatim>\<open>lib/cbfs.c\<close>, \<^verbatim>\<open>arch/x86/lib/rom_media.c\<close>): the file system in flash: the walk over
    the file headers, content, decompression, stages, option ROMs, the payload's table.  The
    specification is a list of files.
  \<^item> \<open>Checksum\<close> (\<^verbatim>\<open>lib/compute_ip_checksum.c\<close>): the checksum of the tables, against ones' complement sums.
  \<^item> \<open>Cbtable\<close> (\<^verbatim>\<open>lib/coreboot_table.c\<close>): the table for the payload as bytes in memory.  \<open>lb_open\<close> is a table
    being written, as a list of records; \<open>appends\<close> is the contract of every function that adds records.
  \<^item> \<open>Cbparse\<close> (\<^verbatim>\<open>payloads/libpayload/arch/x86/coreboot.c\<close>, \<^verbatim>\<open>libc/ipchecksum.c\<close>): the payload's parser of
    that table, and the theorem that it reads what the firmware wrote.
  \<^item> \<open>Vprintf\<close> (\<^verbatim>\<open>console/vtxprintf.c\<close>, \<^verbatim>\<open>console/vsprintf.c\<close>): formatted output through a callback.  \<open>sent\<close> is what
    every loop and conversion does with the callback; \<open>printed\<close> is the text of a format, the same for every callback.
  \<^item> \<open>Conslog\<close> (\<^verbatim>\<open>console/printk.c\<close>, \<^verbatim>\<open>console/console.c\<close>, \<^verbatim>\<open>lib/cbmem_console.c\<close>, \<^verbatim>\<open>drivers/uart/uart8250io.c\<close>): messages
    on the serial line and in the log in memory.  \<open>log_at\<close> says what a log has received; its move into \<open>Cbmem\<close>.

  \<^bold>\<open>Conventions.\<close>  Machine integers are words of their width and wrap.  A result \<open>None\<close> is a call
  of \<^verbatim>\<open>die()\<close>, an access through a NULL pointer or fuel that ran out; the boot machine tells
  these reasons apart.  Function pointers are numbers and what the functions of drivers do is a
  parameter (\<open>hook\<close>, \<open>env_callback\<close> and so on); theorems that need something of them name it
  (\<open>keeps_wiring\<close>, \<open>client_ok\<close>, \<open>friendly\<close>, \<open>tame\<close>).  The code's own messages, post codes (except those of the boot
  states) and time stamps are left out of the other theories; how a message is printed is \<open>Vprintf\<close> and \<open>Conslog\<close>.

  \<^bold>\<open>Fuel.\<close>  Recursion over the tree takes a unit per level, so a fuel above the rank of the bus in
  a nested tree is enough; the loops of the allocator take a unit per resource of the bus
  (\<open>passes_return\<close> proves both are enough).  The scan of PCI buses takes a unit per level of bridges and one
  for every repetition a reset asks for (\<open>pci_domain_scan_mirrors\<close>).  The two loops of the payload loader are partial
  functions; \<open>segment_list_complete\<close> and \<open>payload_delivered\<close> show that they end; the walk over the flash is one, too, and
  \<open>cbfs_content_found\<close> shows that it ends on every well-formed flash.  The walk through the boot states needs at most
  thirteen turns and a phase one unit more than its callbacks (\<open>boot_hands_over\<close>).

  \<^bold>\<open>What the lemmas show.\<close>  Each theory starts with the definitions in the order of the code, then
  the lemmas on single operations (what they change, what they keep), then the properties.
  Safety: blocks and placed resources are disjoint, windows avoid fixed resources, scans end
  settled, states run at most once, a buffer was free RAM, every byte of the payload is in place
  while the running coreboot stays untouched, and every PCI function answers at the address
  its device in the tree has.  Function: every operation of the range list as a change of
  the tag of each address; options and package lengths read back as written; the PCI
  registers are found as what they implement and decode what was assigned; generated byte
  code is what the ACPI specification says, with every length as its reader takes it, up to the number of states whose
  length fits; a message reaches both consoles whole, and a log that is moved keeps
  what it had received, or says how much it lost, or is left behind where there is no room.  Refinement and equivalence: the registers of the processor
  realise the range list, the second allocator pass realises the first, the allocator's loop is
  a stable sort, device walks are runs over one list.  Termination and progress: the passes
  return, the boot reaches the payload.

  \<^bold>\<open>Not modelled.\<close>  Printing of the tree; the processor start-up and the chipset drivers, which are hooks here;
  the option ROMs of PCI devices (\<^verbatim>\<open>pci_dev_init\<close>) and the memory mapped access to configuration
  space; the tables of the BIOS, multiprocessor and ACPI specifications, whose content is data of the board; the consoles that are not configured;
  SPI flash, whose chips answer the code in ways the repository does not define; the decoder for memory modules, which nothing
  calls; PCI-X, HyperTransport and CardBus bridges, whose operations are parameters;
  the LZMA decoder, a parameter of the payload loader; AGESA and CIMX vendor code, the rest of libpayload, iPXE, SeaBIOS,
  memtest86+ and the build tools, which are third-party or separate programs.
\<close>

end
